(* ===== verification/Prelude.thy ===== *)
theory Prelude
  imports Main "HOL-Library.Word"
begin

text \<open>
  Shared ground of the development.

  JavaScript numbers that the modelled code uses as counters, line numbers, columns,
  offsets and pixel heights are integers, modelled as \<^typ>\<open>int\<close>.  The two conversions the
  sources apply to them are written out: \<open>x | 0\<close> is \<open>toInt32\<close> (two's complement reading of
  the low 32 bits) and a store into a \<open>Uint32Array\<close> is \<open>u32\<close> (reduction modulo \<open>2 ^ 32\<close>).
  Arrays are lists; \<open>js_splice\<close> and \<open>js_slice\<close> are \<open>Array.prototype.splice\<close> and \<open>slice\<close> for
  non-negative indices, which clamp an index beyond the end just as \<open>take\<close> and \<open>drop\<close> do.
\<close>

named_theorems range_defs \<open>definitions of the half-open range operations\<close>
named_theorems position_simps \<open>positions and ranges as the lexicographic order\<close>
named_theorems heap_simps \<open>field reads after field writes in a node heap\<close>

section \<open>Errors\<close>

text \<open>
  The exceptions the modelled code throws; a fallible operation returns \<open>Inl\<close> of one.
  \<open>NotANumber\<close> is not thrown: it marks a computation that would go on with \<open>NaN\<close> after reading
  \<open>undefined\<close> as a number, which the invariants of the component exclude.  \<open>DoesNotReturn\<close> likewise
  marks a walk along references that would not end.
\<close>

datatype js_error = BugIndicatingError | InvalidList | ModifiedDuringIteration | IllegalArgument
  | RangeError | InvalidSize | LineNumberOverflow | CannotReadSoManyBytes | TypeError | SyntaxError | NotANumber | DoesNotReturn

definition bind_result :: "'e + 'a \<Rightarrow> ('a \<Rightarrow> 'e + 'b) \<Rightarrow> 'e + 'b" where
  "bind_result m f = (case m of Inl e \<Rightarrow> Inl e | Inr x \<Rightarrow> f x)"

lemma bind_result_simps [simp]:
  "bind_result (Inl e) f = Inl e" "bind_result (Inr x) f = f x"
  by (simp_all add: bind_result_def)

lemma bind_result_Inr_iff: "bind_result m f = Inr y \<longleftrightarrow> (\<exists>x. m = Inr x \<and> f x = Inr y)"
  by (cases m) auto

section \<open>Number conversions\<close>

definition toInt32 :: "int \<Rightarrow> int" where
  "toInt32 x = (x + 2147483648) mod 4294967296 - 2147483648"

definition u32 :: "int \<Rightarrow> int" where
  "u32 x = x mod 4294967296"

definition int32_range :: "int \<Rightarrow> bool" where
  "int32_range x \<longleftrightarrow> - 2147483648 \<le> x \<and> x < 2147483648"

lemma toInt32_id [simp]: "int32_range x \<Longrightarrow> toInt32 x = x"
  by (simp add: toInt32_def int32_range_def)

lemma toInt32_range: "int32_range (toInt32 x)"
  by (simp add: toInt32_def int32_range_def)

lemma toInt32_small [simp]: "0 \<le> x \<Longrightarrow> x < 2147483648 \<Longrightarrow> toInt32 x = x"
  by (simp add: int32_range_def)

lemma u32_id [simp]: "0 \<le> x \<Longrightarrow> x < 4294967296 \<Longrightarrow> u32 x = x"
  by (simp add: u32_def)

lemma u32_bounds: "0 \<le> u32 x" "u32 x < 4294967296"
  by (simp_all add: u32_def)

lemma u32_add_left: "u32 (u32 x + y) = u32 (x + y)"
  by (simp add: u32_def mod_add_left_eq)

section \<open>Arrays\<close>

definition js_splice :: "'a list \<Rightarrow> nat \<Rightarrow> nat \<Rightarrow> 'a list \<Rightarrow> 'a list" where
  "js_splice xs i n ys = take i xs @ ys @ drop (i + n) xs"

definition js_slice :: "'a list \<Rightarrow> nat \<Rightarrow> nat \<Rightarrow> 'a list" where
  "js_slice xs i j = drop i (take j xs)"

lemma set_js_splice_subset: "set (js_splice xs i n ys) \<subseteq> set xs \<union> set ys"
  by (auto simp: js_splice_def dest: in_set_takeD in_set_dropD)

lemma length_js_splice:
  "i + n \<le> length xs \<Longrightarrow> length (js_splice xs i n ys) = length xs - n + length ys"
  by (simp add: js_splice_def)

lemma nth_take_drop_split: "i < length xs \<Longrightarrow> xs = take i xs @ xs ! i # drop (Suc i) xs"
  by (simp add: id_take_nth_drop)

text \<open>
  The loop \<open>while (i < xs.length && P(xs[i])) i++\<close>, which returns the first index from \<open>i\<close>
  on at which \<open>P\<close> fails.
\<close>

function while_index :: "('a \<Rightarrow> bool) \<Rightarrow> 'a list \<Rightarrow> nat \<Rightarrow> nat" where
  "while_index P xs i = (if i < length xs \<and> P (xs ! i) then while_index P xs (Suc i) else i)"
  by pat_completeness auto
termination
  by (relation "measure (\<lambda>(P, xs, i). length xs - i)") auto

declare while_index.simps [simp del]

lemma while_index_takeWhile: "while_index P xs i = i + length (takeWhile P (drop i xs))"
proof (induction P xs i rule: while_index.induct)
  case (1 P xs i)
  show ?case
  proof (cases "i < length xs \<and> P (xs ! i)")
    case True
    with 1 show ?thesis
      by (simp add: while_index.simps [of P xs i] Cons_nth_drop_Suc [symmetric])
  next
    case False
    then show ?thesis
      by (cases "i < length xs") (auto simp: while_index.simps [of P xs i] Cons_nth_drop_Suc [symmetric])
  qed
qed

lemma while_index_dropWhile:
  "while_index P xs 0 < length xs \<longleftrightarrow> dropWhile P xs \<noteq> []"
  "dropWhile P xs \<noteq> [] \<Longrightarrow> xs ! while_index P xs 0 = hd (dropWhile P xs)"
  by (simp_all add: while_index_takeWhile dropWhile_eq_drop hd_drop_conv_nth not_less)
    (meson leD length_takeWhile_le not_le_imp_less)

text \<open>The sum of the first \<open>n\<close> entries, the specification of every prefix-sum cache.\<close>

definition prefix_total :: "int list \<Rightarrow> nat \<Rightarrow> int" where
  "prefix_total xs n = sum_list (take n xs)"

lemma prefix_total_0 [simp]: "prefix_total xs 0 = 0"
  by (simp add: prefix_total_def)

lemma prefix_total_Suc: "n < length xs \<Longrightarrow> prefix_total xs (Suc n) = prefix_total xs n + xs ! n"
  by (simp add: prefix_total_def take_Suc_conv_app_nth)

lemma prefix_total_all: "length xs \<le> n \<Longrightarrow> prefix_total xs n = sum_list xs"
  by (simp add: prefix_total_def)

lemma prefix_total_mono:
  assumes "\<forall>x \<in> set xs. 0 \<le> x" and "m \<le> n"
  shows "prefix_total xs m \<le> prefix_total xs n"
proof -
  have "take n xs = take m xs @ take (n - m) (drop m xs)"
    using \<open>m \<le> n\<close> by (metis le_add_diff_inverse take_add)
  moreover have "0 \<le> sum_list (take (n - m) (drop m xs))"
    using assms(1) by (intro sum_list_nonneg) (auto dest: in_set_takeD in_set_dropD)
  ultimately show ?thesis
    by (simp add: prefix_total_def)
qed

lemma prefix_total_nonneg: "\<forall>x \<in> set xs. 0 \<le> x \<Longrightarrow> 0 \<le> prefix_total xs n"
  using prefix_total_mono [of xs 0 n] by simp

lemma prefix_total_take: "n \<le> m \<Longrightarrow> prefix_total (take m xs) n = prefix_total xs n"
  by (simp add: prefix_total_def min_def)

lemma prefix_total_append: "n \<le> length xs \<Longrightarrow> prefix_total (xs @ ys) n = prefix_total xs n"
  by (simp add: prefix_total_def)

lemma prefix_total_update: "n \<le> i \<Longrightarrow> prefix_total (xs[i := v]) n = prefix_total xs n"
  by (simp add: prefix_total_def take_update_cancel)

end
