(* ===== verification/Base_Uint.thy ===== *)
theory Base_Uint
  imports Prelude
begin

text \<open>
  \<open>src/vs/base/common/uint.ts\<close>: the clamping conversions \<open>toUint8\<close> and \<open>toUint32\<close>.  Both end
  in \<open>v | 0\<close>, a signed 32-bit conversion.
\<close>

definition MAX_UINT_8 :: int where "MAX_UINT_8 = 255"

definition MAX_UINT_32 :: int where "MAX_UINT_32 = 4294967295"

definition toUint8 :: "int \<Rightarrow> int" where
  "toUint8 v = (if v < 0 then 0 else if v > MAX_UINT_8 then MAX_UINT_8 else toInt32 v)"

definition toUint32 :: "int \<Rightarrow> int" where
  "toUint32 v = (if v < 0 then 0 else if v > MAX_UINT_32 then MAX_UINT_32 else toInt32 v)"

lemma toUint8_clamps: "toUint8 v = max 0 (min 255 v)"
  by (auto simp: toUint8_def MAX_UINT_8_def)

lemma toUint32_id [simp]: "0 \<le> v \<Longrightarrow> v < 2147483648 \<Longrightarrow> toUint32 v = v"
  by (simp add: toUint32_def MAX_UINT_32_def)

lemma toUint32_upper_half:
  "2147483648 \<le> v \<Longrightarrow> v \<le> 4294967295 \<Longrightarrow> toUint32 v = v - 4294967296"
  using minus_mod_self2 [of "v + 2147483648" 4294967296]
  by (simp add: toUint32_def MAX_UINT_32_def toInt32_def)

text \<open>
  The clamp \<open>toUint32\<close> yields an unsigned 32-bit value exactly for arguments below
  \<open>2 ^ 31\<close> and above \<open>2 ^ 32 - 1\<close>: on the upper half of the unsigned range the final
  \<open>| 0\<close> makes the result negative, while \<open>toUint8\<close> always clamps into \<open>[0, 255]\<close>.
\<close>

theorem toUint_results:
  "0 \<le> toUint8 v \<and> toUint8 v \<le> 255 \<and>
   (0 \<le> toUint32 v \<and> toUint32 v < 4294967296 \<longleftrightarrow> v < 2147483648 \<or> 4294967295 < v)"
proof (cases "2147483648 \<le> v \<and> v \<le> 4294967295")
  case True
  then show ?thesis by (auto simp: toUint32_upper_half toUint8_clamps)
next
  case False
  then show ?thesis
    by (auto simp: toUint8_clamps toUint32_def MAX_UINT_32_def)
qed

end
