(* ===== verification/Core_Position.thy ===== *)
theory Core_Position
  imports Prelude "HOL-Library.Product_Lexorder"
begin

text \<open>
  \<open>src/vs/editor/common/core/position.ts\<close>: the class \<open>Position\<close>, a line number and a column.
  The predicates of the class are shown to be the lexicographic order on positions, which is
  declared as the \<open>linorder\<close> of the record so that the library's order automation applies to
  ranges and selections.
\<close>

section \<open>The class Position\<close>

record position =
  lineNumber :: int
  column :: int

abbreviation mk_position :: "int \<Rightarrow> int \<Rightarrow> position" where
  "mk_position l c \<equiv> \<lparr>lineNumber = l, column = c\<rparr>"

definition Position_with :: "position \<Rightarrow> int option \<Rightarrow> int option \<Rightarrow> position" where
  "Position_with p newLineNumber newColumn =
     (let l = (case newLineNumber of None \<Rightarrow> lineNumber p | Some l \<Rightarrow> l);
          c = (case newColumn of None \<Rightarrow> column p | Some c \<Rightarrow> c)
      in if l = lineNumber p \<and> c = column p then p else mk_position l c)"

definition Position_delta :: "position \<Rightarrow> int \<Rightarrow> int \<Rightarrow> position" where
  "Position_delta p deltaLineNumber deltaColumn =
     Position_with p (Some (lineNumber p + deltaLineNumber)) (Some (column p + deltaColumn))"

fun Position_equals :: "position option \<Rightarrow> position option \<Rightarrow> bool" where
  "Position_equals None None = True"
| "Position_equals (Some a) (Some b) \<longleftrightarrow> lineNumber a = lineNumber b \<and> column a = column b"
| "Position_equals _ _ = False"

definition Position_isBefore :: "position \<Rightarrow> position \<Rightarrow> bool" where
  "Position_isBefore a b =
     (if lineNumber a < lineNumber b then True
      else if lineNumber b < lineNumber a then False
      else column a < column b)"

definition Position_isBeforeOrEqual :: "position \<Rightarrow> position \<Rightarrow> bool" where
  "Position_isBeforeOrEqual a b =
     (if lineNumber a < lineNumber b then True
      else if lineNumber b < lineNumber a then False
      else column a \<le> column b)"

definition Position_compare :: "position \<Rightarrow> position \<Rightarrow> int" where
  "Position_compare a b =
     (let aLineNumber = toInt32 (lineNumber a);
          bLineNumber = toInt32 (lineNumber b)
      in if aLineNumber = bLineNumber
         then (let aColumn = toInt32 (column a);
                   bColumn = toInt32 (column b)
               in aColumn - bColumn)
         else aLineNumber - bLineNumber)"

section \<open>The lexicographic order\<close>

instantiation position_ext :: (linorder) linorder
begin

definition less_eq_position_ext :: "'a position_scheme \<Rightarrow> 'a position_scheme \<Rightarrow> bool" where
  "less_eq_position_ext p q \<longleftrightarrow>
     (lineNumber p, column p, position.more p) \<le> (lineNumber q, column q, position.more q)"

definition less_position_ext :: "'a position_scheme \<Rightarrow> 'a position_scheme \<Rightarrow> bool" where
  "less_position_ext p q \<longleftrightarrow>
     (lineNumber p, column p, position.more p) < (lineNumber q, column q, position.more q)"

instance
proof
  fix x y z :: "'a position_scheme"
  show "x < y \<longleftrightarrow> x \<le> y \<and> \<not> y \<le> x"
    by (auto simp: less_eq_position_ext_def less_position_ext_def)
  show "x \<le> x"
    by (simp add: less_eq_position_ext_def)
  show "x \<le> y \<Longrightarrow> y \<le> z \<Longrightarrow> x \<le> z"
    unfolding less_eq_position_ext_def by (rule order_trans)
  show "x \<le> y \<Longrightarrow> y \<le> x \<Longrightarrow> x = y"
    unfolding less_eq_position_ext_def
    by (drule (1) order_antisym) (simp add: position.equality)
  show "x \<le> y \<or> y \<le> x"
    unfolding less_eq_position_ext_def by (rule linear)
qed

end

lemma position_le_iff [position_simps]:
  "p \<le> q \<longleftrightarrow> lineNumber p < lineNumber q \<or> (lineNumber p = lineNumber q \<and> column p \<le> column q)"
  for p q :: position
  by (auto simp: less_eq_position_ext_def)

lemma position_less_iff [position_simps]:
  "p < q \<longleftrightarrow> lineNumber p < lineNumber q \<or> (lineNumber p = lineNumber q \<and> column p < column q)"
  for p q :: position
  by (auto simp: less_position_ext_def)

lemma position_eq_iff [position_simps]:
  "p = q \<longleftrightarrow> lineNumber p = lineNumber q \<and> column p = column q" for p q :: position
  by (cases p; cases q) auto

lemma Position_isBefore_less: "Position_isBefore a b \<longleftrightarrow> a < b"
  by (auto simp: Position_isBefore_def position_simps)

lemma Position_isBeforeOrEqual_le: "Position_isBeforeOrEqual a b \<longleftrightarrow> a \<le> b"
  by (auto simp: Position_isBeforeOrEqual_def position_simps)

definition position_in_int32 :: "position \<Rightarrow> bool" where
  "position_in_int32 p \<longleftrightarrow> int32_range (lineNumber p) \<and> int32_range (column p)"

lemma Position_compare_sgn:
  assumes "position_in_int32 a" "position_in_int32 b"
  shows "Position_compare a b < 0 \<longleftrightarrow> a < b"
    and "Position_compare a b = 0 \<longleftrightarrow> a = b"
    and "Position_compare a b > 0 \<longleftrightarrow> b < a"
  using assms by (auto simp: Position_compare_def position_in_int32_def position_simps Let_def)

lemma Position_delta_fields [simp]:
  "lineNumber (Position_delta p dl dc) = lineNumber p + dl"
  "column (Position_delta p dl dc) = column p + dc"
  by (auto simp: Position_delta_def Position_with_def Let_def)

text \<open>
  The three comparisons of \<open>Position\<close> agree: \<open>isBefore\<close>, \<open>isBeforeOrEqual\<close> and \<open>equals\<close>
  are the strict, the reflexive and the equality part of one linear order, and \<open>compare\<close> has
  the sign that order prescribes on positions whose coordinates fit 32 bits.
\<close>

theorem Position_comparisons_agree:
  assumes "position_in_int32 a" "position_in_int32 b"
  shows "(Position_compare a b < 0 \<longleftrightarrow> Position_isBefore a b) \<and>
         (Position_compare a b = 0 \<longleftrightarrow> Position_equals (Some a) (Some b)) \<and>
         (Position_compare a b \<le> 0 \<longleftrightarrow> Position_isBeforeOrEqual a b) \<and>
         (Position_isBefore a b \<or> Position_equals (Some a) (Some b) \<or> Position_isBefore b a)"
proof -
  have "Position_equals (Some a) (Some b) \<longleftrightarrow> a = b"
    by (simp add: position_eq_iff)
  then show ?thesis
    using Position_compare_sgn [OF assms]
    by (auto simp: Position_isBefore_less Position_isBeforeOrEqual_le)
qed

theorem Position_comparisons_agree_witness:
  "Position_compare (mk_position 2 7) (mk_position 3 1) < 0 \<longleftrightarrow>
   Position_isBefore (mk_position 2 7) (mk_position 3 1)"
  using Position_comparisons_agree [of "mk_position 2 7" "mk_position 3 1"]
  by (simp add: position_in_int32_def int32_range_def)

text \<open>
  \<open>compare\<close> reads its arguments through \<open>| 0\<close>, so outside 32 bits it can disagree with
  \<open>isBefore\<close>: \<open>Number.MAX_SAFE_INTEGER\<close>, which \<open>LineRange.toInclusiveRange\<close> uses as an end
  column, compares as \<open>-1\<close>.
\<close>

lemma Position_compare_wraps:
  "Position_isBefore (mk_position 1 1) (mk_position 1 9007199254740991)"
  "Position_compare (mk_position 1 1) (mk_position 1 9007199254740991) > 0"
  by (simp_all add: Position_isBefore_def Position_compare_def toInt32_def)

end
