(* ===== verification/Core_Range.thy ===== *)
theory Core_Range
  imports Core_Position
begin

text \<open>
  \<open>src/vs/editor/common/core/range.ts\<close>: the class \<open>Range\<close>, a pair of positions kept in order
  by the constructor.  The record has the four numbers of the class; \<open>startPos\<close> and \<open>endPos\<close>
  read them as positions, and the predicates of the class are characterised through the order
  on positions of \<open>Core_Position\<close>.
\<close>

section \<open>The class Range\<close>

record range =
  startLineNumber :: int
  startColumn :: int
  endLineNumber :: int
  endColumn :: int

definition new_Range :: "int \<Rightarrow> int \<Rightarrow> int \<Rightarrow> int \<Rightarrow> range" where
  "new_Range sl sc el ec =
     (if sl > el \<or> (sl = el \<and> sc > ec)
      then \<lparr>startLineNumber = el, startColumn = ec, endLineNumber = sl, endColumn = sc\<rparr>
      else \<lparr>startLineNumber = sl, startColumn = sc, endLineNumber = el, endColumn = ec\<rparr>)"

definition Range_isEmpty :: "range \<Rightarrow> bool" where
  "Range_isEmpty r \<longleftrightarrow> startLineNumber r = endLineNumber r \<and> startColumn r = endColumn r"

definition Range_containsPosition :: "range \<Rightarrow> position \<Rightarrow> bool" where
  "Range_containsPosition r p =
     (if lineNumber p < startLineNumber r \<or> lineNumber p > endLineNumber r then False
      else if lineNumber p = startLineNumber r \<and> column p < startColumn r then False
      else if lineNumber p = endLineNumber r \<and> column p > endColumn r then False
      else True)"

definition Range_strictContainsPosition :: "range \<Rightarrow> position \<Rightarrow> bool" where
  "Range_strictContainsPosition r p =
     (if lineNumber p < startLineNumber r \<or> lineNumber p > endLineNumber r then False
      else if lineNumber p = startLineNumber r \<and> column p \<le> startColumn r then False
      else if lineNumber p = endLineNumber r \<and> column p \<ge> endColumn r then False
      else True)"

definition Range_containsRange :: "range \<Rightarrow> range \<Rightarrow> bool" where
  "Range_containsRange r other =
     (if startLineNumber other < startLineNumber r \<or> endLineNumber other < startLineNumber r then False
      else if startLineNumber other > endLineNumber r \<or> endLineNumber other > endLineNumber r then False
      else if startLineNumber other = startLineNumber r \<and> startColumn other < startColumn r then False
      else if endLineNumber other = endLineNumber r \<and> endColumn other > endColumn r then False
      else True)"

definition Range_strictContainsRange :: "range \<Rightarrow> range \<Rightarrow> bool" where
  "Range_strictContainsRange r other =
     (if startLineNumber other < startLineNumber r \<or> endLineNumber other < startLineNumber r then False
      else if startLineNumber other > endLineNumber r \<or> endLineNumber other > endLineNumber r then False
      else if startLineNumber other = startLineNumber r \<and> startColumn other \<le> startColumn r then False
      else if endLineNumber other = endLineNumber r \<and> endColumn other \<ge> endColumn r then False
      else True)"

definition Range_plusRange :: "range \<Rightarrow> range \<Rightarrow> range" where
  "Range_plusRange a b =
     (let (sl, sc) =
            (if startLineNumber b < startLineNumber a then (startLineNumber b, startColumn b)
             else if startLineNumber b = startLineNumber a
             then (startLineNumber b, min (startColumn b) (startColumn a))
             else (startLineNumber a, startColumn a));
          (el, ec) =
            (if endLineNumber b > endLineNumber a then (endLineNumber b, endColumn b)
             else if endLineNumber b = endLineNumber a
             then (endLineNumber b, max (endColumn b) (endColumn a))
             else (endLineNumber a, endColumn a))
      in new_Range sl sc el ec)"

definition Range_intersectRanges :: "range \<Rightarrow> range \<Rightarrow> range option" where
  "Range_intersectRanges a b =
     (let (sl, sc) =
            (if startLineNumber a < startLineNumber b then (startLineNumber b, startColumn b)
             else if startLineNumber a = startLineNumber b
             then (startLineNumber a, max (startColumn a) (startColumn b))
             else (startLineNumber a, startColumn a));
          (el, ec) =
            (if endLineNumber a > endLineNumber b then (endLineNumber b, endColumn b)
             else if endLineNumber a = endLineNumber b
             then (endLineNumber a, min (endColumn a) (endColumn b))
             else (endLineNumber a, endColumn a))
      in if sl > el then None
         else if sl = el \<and> sc > ec then None
         else Some (new_Range sl sc el ec))"

fun Range_equalsRange :: "range option \<Rightarrow> range option \<Rightarrow> bool" where
  "Range_equalsRange None None = True"
| "Range_equalsRange (Some a) (Some b) \<longleftrightarrow>
     startLineNumber a = startLineNumber b \<and> startColumn a = startColumn b \<and>
     endLineNumber a = endLineNumber b \<and> endColumn a = endColumn b"
| "Range_equalsRange _ _ = False"

definition Range_getEndPosition :: "'a range_scheme \<Rightarrow> position" where
  "Range_getEndPosition r = mk_position (endLineNumber r) (endColumn r)"

definition Range_getStartPosition :: "'a range_scheme \<Rightarrow> position" where
  "Range_getStartPosition r = mk_position (startLineNumber r) (startColumn r)"

definition Range_setEndPosition :: "range \<Rightarrow> int \<Rightarrow> int \<Rightarrow> range" where
  "Range_setEndPosition r el ec = new_Range (startLineNumber r) (startColumn r) el ec"

definition Range_setStartPosition :: "range \<Rightarrow> int \<Rightarrow> int \<Rightarrow> range" where
  "Range_setStartPosition r sl sc = new_Range sl sc (endLineNumber r) (endColumn r)"

definition Range_collapseToStart :: "range \<Rightarrow> range" where
  "Range_collapseToStart r =
     new_Range (startLineNumber r) (startColumn r) (startLineNumber r) (startColumn r)"

definition Range_collapseToEnd :: "range \<Rightarrow> range" where
  "Range_collapseToEnd r =
     new_Range (endLineNumber r) (endColumn r) (endLineNumber r) (endColumn r)"

definition Range_delta :: "range \<Rightarrow> int \<Rightarrow> range" where
  "Range_delta r lineCount =
     new_Range (startLineNumber r + lineCount) (startColumn r) (endLineNumber r + lineCount) (endColumn r)"

definition Range_fromPositions :: "position \<Rightarrow> position \<Rightarrow> range" where
  "Range_fromPositions s e = new_Range (lineNumber s) (column s) (lineNumber e) (column e)"

definition Range_lift :: "range option \<Rightarrow> range option" where
  "Range_lift ro = (case ro of None \<Rightarrow> None
     | Some r \<Rightarrow> Some (new_Range (startLineNumber r) (startColumn r) (endLineNumber r) (endColumn r)))"

definition Range_areIntersectingOrTouching :: "range \<Rightarrow> range \<Rightarrow> bool" where
  "Range_areIntersectingOrTouching a b =
     (if endLineNumber a < startLineNumber b \<or>
         (endLineNumber a = startLineNumber b \<and> endColumn a < startColumn b) then False
      else if endLineNumber b < startLineNumber a \<or>
         (endLineNumber b = startLineNumber a \<and> endColumn b < startColumn a) then False
      else True)"

definition Range_areIntersecting :: "range \<Rightarrow> range \<Rightarrow> bool" where
  "Range_areIntersecting a b =
     (if endLineNumber a < startLineNumber b \<or>
         (endLineNumber a = startLineNumber b \<and> endColumn a \<le> startColumn b) then False
      else if endLineNumber b < startLineNumber a \<or>
         (endLineNumber b = startLineNumber a \<and> endColumn b \<le> startColumn a) then False
      else True)"

definition Range_compareRangesUsingStarts :: "range option \<Rightarrow> range option \<Rightarrow> int" where
  "Range_compareRangesUsingStarts ao bo =
     (case (ao, bo) of
        (Some a, Some b) \<Rightarrow>
          (let asl = toInt32 (startLineNumber a); bsl = toInt32 (startLineNumber b)
           in if asl = bsl then
                (let asc = toInt32 (startColumn a); bsc = toInt32 (startColumn b)
                 in if asc = bsc then
                      (let ael = toInt32 (endLineNumber a); bel = toInt32 (endLineNumber b)
                       in if ael = bel then
                            (let aec = toInt32 (endColumn a); bec = toInt32 (endColumn b)
                             in aec - bec)
                          else ael - bel)
                    else asc - bsc)
              else asl - bsl)
      | _ \<Rightarrow> (if ao = None then 0 else 1) - (if bo = None then 0 else 1))"

definition Range_compareRangesUsingEnds :: "range \<Rightarrow> range \<Rightarrow> int" where
  "Range_compareRangesUsingEnds a b =
     (if endLineNumber a = endLineNumber b then
        (if endColumn a = endColumn b then
           (if startLineNumber a = startLineNumber b then startColumn a - startColumn b
            else startLineNumber a - startLineNumber b)
         else endColumn a - endColumn b)
      else endLineNumber a - endLineNumber b)"

definition Range_spansMultipleLines :: "range \<Rightarrow> bool" where
  "Range_spansMultipleLines r \<longleftrightarrow> endLineNumber r > startLineNumber r"

section \<open>Ranges as intervals of positions\<close>

abbreviation startPos :: "'a range_scheme \<Rightarrow> position" where
  "startPos r \<equiv> Range_getStartPosition r"

abbreviation endPos :: "'a range_scheme \<Rightarrow> position" where
  "endPos r \<equiv> Range_getEndPosition r"

definition Range_wf :: "range \<Rightarrow> bool" where
  "Range_wf r \<longleftrightarrow> startPos r \<le> endPos r"

lemma pos_fields [simp]:
  "lineNumber (startPos r) = startLineNumber r" "column (startPos r) = startColumn r"
  "lineNumber (endPos r) = endLineNumber r" "column (endPos r) = endColumn r"
  by (simp_all add: Range_getStartPosition_def Range_getEndPosition_def)

lemma range_eqI: "startPos a = startPos b \<Longrightarrow> endPos a = endPos b \<Longrightarrow> a = b" for a b :: range
  by (simp add: position_eq_iff)

lemma new_Range_start: "startPos (new_Range sl sc el ec) = min (mk_position sl sc) (mk_position el ec)"
  and new_Range_end: "endPos (new_Range sl sc el ec) = max (mk_position sl sc) (mk_position el ec)"
  by (auto simp: new_Range_def min_def max_def position_simps)

lemma new_Range_wf [simp]: "Range_wf (new_Range sl sc el ec)"
  by (simp add: Range_wf_def new_Range_start new_Range_end min_le_iff_disj)

lemma containsPosition_iff [position_simps]:
  "Range_wf r \<Longrightarrow> Range_containsPosition r p \<longleftrightarrow> startPos r \<le> p \<and> p \<le> endPos r"
  by (auto simp: Range_containsPosition_def Range_wf_def position_le_iff)

lemma strictContainsPosition_iff:
  "Range_strictContainsPosition r p \<longleftrightarrow> startPos r < p \<and> p < endPos r"
  by (auto simp: Range_strictContainsPosition_def position_less_iff)

lemma containsRange_iff:
  "Range_wf b \<Longrightarrow> Range_containsRange a b \<longleftrightarrow> startPos a \<le> startPos b \<and> endPos b \<le> endPos a"
  by (auto simp: Range_containsRange_def Range_wf_def position_le_iff)

lemma strictContainsRange_iff:
  "Range_wf b \<Longrightarrow> Range_strictContainsRange a b \<longleftrightarrow> startPos a < startPos b \<and> endPos b < endPos a"
  by (auto simp: Range_strictContainsRange_def Range_wf_def position_le_iff position_less_iff)

text \<open>The line-then-column selections of \<open>plusRange\<close> and \<open>intersectRanges\<close> are minima and maxima.\<close>

lemma select_min_position:
  "(if lb < la then (lb, cb) else if lb = la then (lb, min cb ca) else (la, ca)) =
   (lineNumber (min (mk_position la ca) (mk_position lb cb)),
    column (min (mk_position la ca) (mk_position lb cb)))"
  by (simp add: min_def position_le_iff)

lemma select_max_position:
  "(if lb > la then (lb, cb) else if lb = la then (lb, max cb ca) else (la, ca)) =
   (lineNumber (max (mk_position la ca) (mk_position lb cb)),
    column (max (mk_position la ca) (mk_position lb cb)))"
  by (simp add: max_def position_le_iff)

lemma select_max_position':
  "(if la < lb then (lb, cb) else if la = lb then (la, max ca cb) else (la, ca)) =
   (lineNumber (max (mk_position la ca) (mk_position lb cb)),
    column (max (mk_position la ca) (mk_position lb cb)))"
  by (simp add: max_def position_le_iff)

lemma select_min_position':
  "(if la > lb then (lb, cb) else if la = lb then (la, min ca cb) else (la, ca)) =
   (lineNumber (min (mk_position la ca) (mk_position lb cb)),
    column (min (mk_position la ca) (mk_position lb cb)))"
  by (simp add: min_def position_le_iff)

lemma mk_startPos: "mk_position (startLineNumber r) (startColumn r) = startPos r"
  and mk_endPos: "mk_position (endLineNumber r) (endColumn r) = endPos r"
  by (simp_all add: Range_getStartPosition_def Range_getEndPosition_def)

lemma new_Range_of_positions:
  "p \<le> q \<Longrightarrow> startPos (new_Range (lineNumber p) (column p) (lineNumber q) (column q)) = p"
  "p \<le> q \<Longrightarrow> endPos (new_Range (lineNumber p) (column p) (lineNumber q) (column q)) = q"
  by (auto simp: new_Range_start new_Range_end min_def max_def position_eq_iff position_le_iff)

lemma plusRange_eq:
  "Range_plusRange a b =
     (let s = min (startPos a) (startPos b); e = max (endPos a) (endPos b)
      in new_Range (lineNumber s) (column s) (lineNumber e) (column e))"
  by (simp add: Range_plusRange_def select_min_position select_max_position mk_startPos mk_endPos Let_def)

lemma intersectRanges_eq:
  "Range_intersectRanges a b =
     (let s = max (startPos a) (startPos b); e = min (endPos a) (endPos b)
      in if e < s then None else Some (new_Range (lineNumber s) (column s) (lineNumber e) (column e)))"
  by (simp add: Range_intersectRanges_def select_min_position' select_max_position' mk_startPos
      mk_endPos position_less_iff Let_def)

lemma plusRange_pos:
  assumes "Range_wf a" "Range_wf b"
  shows "startPos (Range_plusRange a b) = min (startPos a) (startPos b)"
    and "endPos (Range_plusRange a b) = max (endPos a) (endPos b)"
proof -
  have "min (startPos a) (startPos b) \<le> max (endPos a) (endPos b)"
    using assms by (auto simp: Range_wf_def min_le_iff_disj le_max_iff_disj)
  then show "startPos (Range_plusRange a b) = min (startPos a) (startPos b)"
    and "endPos (Range_plusRange a b) = max (endPos a) (endPos b)"
    by (simp_all add: plusRange_eq new_Range_of_positions Let_def)
qed

lemma intersectRanges_None:
  "Range_intersectRanges a b = None \<longleftrightarrow> min (endPos a) (endPos b) < max (startPos a) (startPos b)"
  by (simp add: intersectRanges_eq Let_def)

lemma intersectRanges_Some:
  assumes "Range_intersectRanges a b = Some r"
  shows "startPos r = max (startPos a) (startPos b)" and "endPos r = min (endPos a) (endPos b)"
  using assms
  by (auto simp: intersectRanges_eq Let_def new_Range_of_positions not_less split: if_splits)

lemma areIntersectingOrTouching_iff:
  "Range_areIntersectingOrTouching a b \<longleftrightarrow> startPos b \<le> endPos a \<and> startPos a \<le> endPos b"
  by (auto simp: Range_areIntersectingOrTouching_def position_le_iff)

lemma areIntersecting_iff:
  "Range_areIntersecting a b \<longleftrightarrow> startPos b < endPos a \<and> startPos a < endPos b"
  by (auto simp: Range_areIntersecting_def position_less_iff)

definition range_in_int32 :: "range \<Rightarrow> bool" where
  "range_in_int32 r \<longleftrightarrow> position_in_int32 (startPos r) \<and> position_in_int32 (endPos r)"

lemma compareRangesUsingStarts_sgn:
  assumes "range_in_int32 a" "range_in_int32 b"
  shows "Range_compareRangesUsingStarts (Some a) (Some b) < 0 \<longleftrightarrow>
           startPos a < startPos b \<or> (startPos a = startPos b \<and> endPos a < endPos b)"
    and "Range_compareRangesUsingStarts (Some a) (Some b) = 0 \<longleftrightarrow> a = b"
  using assms
  by (auto simp: Range_compareRangesUsingStarts_def range_in_int32_def position_in_int32_def
      Let_def position_less_iff position_eq_iff)

lemma compareRangesUsingEnds_sgn:
  "Range_compareRangesUsingEnds a b < 0 \<longleftrightarrow>
     endPos a < endPos b \<or> (endPos a = endPos b \<and> startPos a < startPos b)"
  "Range_compareRangesUsingEnds a b = 0 \<longleftrightarrow> a = b"
  by (auto simp: Range_compareRangesUsingEnds_def position_less_iff position_eq_iff)

section \<open>Properties\<close>

text \<open>
  \<open>plusRange\<close> is the smallest range holding both arguments: it is well-formed, contains
  both, and every range that contains both contains it.
\<close>

theorem plusRange_least_upper_bound:
  assumes "Range_wf a" "Range_wf b"
  shows "Range_wf (Range_plusRange a b) \<and>
         Range_containsRange (Range_plusRange a b) a \<and>
         Range_containsRange (Range_plusRange a b) b \<and>
         (\<forall>c. Range_containsRange c a \<and> Range_containsRange c b \<longrightarrow>
              Range_containsRange c (Range_plusRange a b))"
proof -
  have "Range_wf (Range_plusRange a b)"
    by (simp add: Range_plusRange_def Let_def split: prod.split)
  then show ?thesis
    using assms by (simp add: containsRange_iff plusRange_pos)
qed

theorem plusRange_least_upper_bound_witness:
  "Range_containsRange (Range_plusRange (new_Range 1 5 2 3) (new_Range 2 1 4 2)) (new_Range 1 5 2 3)"
  using plusRange_least_upper_bound [of "new_Range 1 5 2 3" "new_Range 2 1 4 2"] by simp

text \<open>
  \<open>intersectRanges\<close> computes the positions common to both ranges, returns nothing exactly
  when there are none, and \<open>areIntersectingOrTouching\<close> is the test for that; \<open>areIntersecting\<close>
  asks in addition that more than a touching point is shared, unless one of the ranges is a
  point strictly inside the other.
\<close>

theorem intersectRanges_exact:
  assumes "Range_wf a" "Range_wf b"
  shows "(\<forall>p. Range_containsPosition a p \<and> Range_containsPosition b p \<longleftrightarrow>
             (\<exists>r. Range_intersectRanges a b = Some r \<and> Range_containsPosition r p)) \<and>
         (Range_intersectRanges a b \<noteq> None \<longleftrightarrow> Range_areIntersectingOrTouching a b) \<and>
         (Range_areIntersecting a b \<longleftrightarrow>
            (\<exists>r. Range_intersectRanges a b = Some r \<and>
                 (\<not> Range_isEmpty r \<or>
                  (Range_isEmpty a \<and> Range_strictContainsRange b a) \<or>
                  (Range_isEmpty b \<and> Range_strictContainsRange a b))))"
proof (cases "Range_intersectRanges a b")
  case None
  then have "\<not> Range_areIntersectingOrTouching a b"
    using assms
    by (auto simp: intersectRanges_None areIntersectingOrTouching_iff Range_wf_def
        min_less_iff_disj less_max_iff_disj)
  then show ?thesis
    using None assms
    by (auto simp: areIntersectingOrTouching_iff areIntersecting_iff containsPosition_iff)
next
  case (Some r)
  note r = intersectRanges_Some [OF Some]
  have wf: "Range_wf r"
    using Some by (auto simp: intersectRanges_eq Let_def split: if_splits)
  have empty: "Range_isEmpty x \<longleftrightarrow> startPos x = endPos x" for x
    by (simp add: Range_isEmpty_def position_eq_iff)
  have "Range_areIntersectingOrTouching a b"
    using Some assms intersectRanges_None [of a b]
    by (simp add: areIntersectingOrTouching_iff Range_wf_def not_less)
  moreover have "Range_containsPosition a p \<and> Range_containsPosition b p \<longleftrightarrow> Range_containsPosition r p" for p
    using assms wf r by (auto simp: containsPosition_iff)
  moreover have "Range_areIntersecting a b \<longleftrightarrow> \<not> Range_isEmpty r \<or>
      (Range_isEmpty a \<and> Range_strictContainsRange b a) \<or> (Range_isEmpty b \<and> Range_strictContainsRange a b)"
    using assms wf r
    by (auto simp: empty areIntersecting_iff strictContainsRange_iff Range_wf_def min_def max_def
        split: if_splits)
  ultimately show ?thesis
    using Some by simp
qed

theorem intersectRanges_exact_witness:
  "Range_areIntersectingOrTouching (new_Range 1 1 2 1) (new_Range 2 1 3 1) \<longleftrightarrow>
   Range_intersectRanges (new_Range 1 1 2 1) (new_Range 2 1 3 1) \<noteq> None"
  using intersectRanges_exact [of "new_Range 1 1 2 1" "new_Range 2 1 3 1"] by simp

text \<open>
  Containment of ranges is containment of their positions, and both comparison functions
  used for sorting order ranges linearly: by start then end, respectively by end then start,
  with \<open>0\<close> only for equal ranges.
\<close>

theorem range_containment_and_sorting:
  assumes "Range_wf a" "Range_wf b" "range_in_int32 a" "range_in_int32 b"
  shows "(Range_containsRange a b \<longleftrightarrow>
            (\<forall>p. Range_containsPosition b p \<longrightarrow> Range_containsPosition a p)) \<and>
         (Range_compareRangesUsingStarts (Some a) (Some b) < 0 \<longleftrightarrow>
            startPos a < startPos b \<or> (startPos a = startPos b \<and> endPos a < endPos b)) \<and>
         (Range_compareRangesUsingEnds a b < 0 \<longleftrightarrow>
            endPos a < endPos b \<or> (endPos a = endPos b \<and> startPos a < startPos b)) \<and>
         (Range_compareRangesUsingStarts (Some a) (Some b) = 0 \<longleftrightarrow> a = b) \<and>
         (Range_compareRangesUsingEnds a b = 0 \<longleftrightarrow> a = b)"
proof -
  have "Range_containsRange a b \<longleftrightarrow>
          (\<forall>p. Range_containsPosition b p \<longrightarrow> Range_containsPosition a p)" (is "?L \<longleftrightarrow> ?R")
  proof
    show "?L \<Longrightarrow> ?R"
      using assms by (auto simp: containsRange_iff containsPosition_iff)
    assume R: ?R
    have "Range_containsPosition b (startPos b)" "Range_containsPosition b (endPos b)"
      using \<open>Range_wf b\<close> by (auto simp: containsPosition_iff Range_wf_def)
    with R show ?L
      using assms by (auto simp: containsRange_iff containsPosition_iff)
  qed
  then show ?thesis
    using compareRangesUsingStarts_sgn [OF assms(3,4)] compareRangesUsingEnds_sgn [of a b]
    by simp
qed

theorem range_containment_and_sorting_witness:
  "Range_compareRangesUsingStarts (Some (new_Range 1 1 2 1)) (Some (new_Range 1 1 3 1)) < 0 \<longleftrightarrow>
   startPos (new_Range 1 1 2 1) < startPos (new_Range 1 1 3 1) \<or>
   (startPos (new_Range 1 1 2 1) = startPos (new_Range 1 1 3 1) \<and>
    endPos (new_Range 1 1 2 1) < endPos (new_Range 1 1 3 1))"
proof -
  have "range_in_int32 (new_Range 1 1 2 1)" "range_in_int32 (new_Range 1 1 3 1)"
    by (simp_all add: range_in_int32_def position_in_int32_def int32_range_def new_Range_def)
  then show ?thesis
    using range_containment_and_sorting [of "new_Range 1 1 2 1" "new_Range 1 1 3 1"] new_Range_wf by presburger
qed

end
