(* ===== verification/Core_Selection.thy ===== *)
theory Core_Selection
  imports Core_Range
begin

text \<open>
  \<open>src/vs/editor/common/core/selection.ts\<close>: the class \<open>Selection\<close>, which extends \<open>Range\<close> with
  the position where the selection started and the position where the cursor is.
\<close>

datatype selectionDirection = LTR | RTL

record selection = range +
  selectionStartLineNumber :: int
  selectionStartColumn :: int
  positionLineNumber :: int
  positionColumn :: int

definition new_Selection :: "int \<Rightarrow> int \<Rightarrow> int \<Rightarrow> int \<Rightarrow> selection" where
  "new_Selection ssl ssc pl pc =
     (let r = new_Range ssl ssc pl pc
      in \<lparr>startLineNumber = startLineNumber r, startColumn = startColumn r,
          endLineNumber = endLineNumber r, endColumn = endColumn r,
          selectionStartLineNumber = ssl, selectionStartColumn = ssc,
          positionLineNumber = pl, positionColumn = pc\<rparr>)"

definition Selection_selectionsEqual :: "selection \<Rightarrow> selection \<Rightarrow> bool" where
  "Selection_selectionsEqual a b \<longleftrightarrow>
     selectionStartLineNumber a = selectionStartLineNumber b \<and>
     selectionStartColumn a = selectionStartColumn b \<and>
     positionLineNumber a = positionLineNumber b \<and>
     positionColumn a = positionColumn b"

definition Selection_getDirection :: "selection \<Rightarrow> selectionDirection" where
  "Selection_getDirection s =
     (if selectionStartLineNumber s = startLineNumber s \<and> selectionStartColumn s = startColumn s
      then LTR else RTL)"

definition Selection_setEndPosition :: "selection \<Rightarrow> int \<Rightarrow> int \<Rightarrow> selection" where
  "Selection_setEndPosition s el ec =
     (if Selection_getDirection s = LTR
      then new_Selection (startLineNumber s) (startColumn s) el ec
      else new_Selection el ec (startLineNumber s) (startColumn s))"

definition Selection_getPosition :: "selection \<Rightarrow> position" where
  "Selection_getPosition s = mk_position (positionLineNumber s) (positionColumn s)"

definition Selection_getSelectionStart :: "selection \<Rightarrow> position" where
  "Selection_getSelectionStart s = mk_position (selectionStartLineNumber s) (selectionStartColumn s)"

definition Selection_setStartPosition :: "selection \<Rightarrow> int \<Rightarrow> int \<Rightarrow> selection" where
  "Selection_setStartPosition s sl sc =
     (if Selection_getDirection s = LTR
      then new_Selection sl sc (endLineNumber s) (endColumn s)
      else new_Selection (endLineNumber s) (endColumn s) sl sc)"

definition Selection_fromPositions :: "position \<Rightarrow> position \<Rightarrow> selection" where
  "Selection_fromPositions s e = new_Selection (lineNumber s) (column s) (lineNumber e) (column e)"

definition Selection_fromRange :: "'a range_scheme \<Rightarrow> selectionDirection \<Rightarrow> selection" where
  "Selection_fromRange r direction =
     (if direction = LTR
      then new_Selection (startLineNumber r) (startColumn r) (endLineNumber r) (endColumn r)
      else new_Selection (endLineNumber r) (endColumn r) (startLineNumber r) (startColumn r))"

definition Selection_liftSelection :: "selection \<Rightarrow> selection" where
  "Selection_liftSelection s =
     new_Selection (selectionStartLineNumber s) (selectionStartColumn s)
       (positionLineNumber s) (positionColumn s)"

fun selectionsArrEqual_loop :: "selection list \<Rightarrow> selection list \<Rightarrow> bool" where
  "selectionsArrEqual_loop (a # as) (b # bs) =
     (if \<not> Selection_selectionsEqual a b then False else selectionsArrEqual_loop as bs)"
| "selectionsArrEqual_loop _ _ = True"

definition Selection_selectionsArrEqual :: "selection list option \<Rightarrow> selection list option \<Rightarrow> bool" where
  "Selection_selectionsArrEqual ao bo =
     (case (ao, bo) of
        (None, None) \<Rightarrow> True
      | (Some a, Some b) \<Rightarrow> (if length a \<noteq> length b then False else selectionsArrEqual_loop a b)
      | _ \<Rightarrow> False)"

definition Selection_createWithDirection ::
  "int \<Rightarrow> int \<Rightarrow> int \<Rightarrow> int \<Rightarrow> selectionDirection \<Rightarrow> selection" where
  "Selection_createWithDirection sl sc el ec direction =
     (if direction = LTR then new_Selection sl sc el ec else new_Selection el ec sl sc)"

section \<open>A selection is its range and its direction\<close>

definition Selection_wf :: "selection \<Rightarrow> bool" where
  "Selection_wf s \<longleftrightarrow> s = Selection_liftSelection s"

lemma new_Selection_positions [simp]:
  "Selection_getSelectionStart (new_Selection a b c d) = mk_position a b"
  "Selection_getPosition (new_Selection a b c d) = mk_position c d"
  by (simp_all add: new_Selection_def Let_def Selection_getSelectionStart_def Selection_getPosition_def)

lemma new_Selection_range [simp]:
  "startPos (new_Selection a b c d) = min (mk_position a b) (mk_position c d)"
  "endPos (new_Selection a b c d) = max (mk_position a b) (mk_position c d)"
  by (simp_all add: new_Selection_def new_Range_start [symmetric] new_Range_end [symmetric] Let_def
      position_eq_iff)

lemma Selection_wf_new [simp]: "Selection_wf (new_Selection a b c d)"
  by (simp add: Selection_wf_def Selection_liftSelection_def new_Selection_def Let_def)

lemma Selection_wfE:
  assumes "Selection_wf s"
  obtains a b c d where "s = new_Selection a b c d"
  using assms by (auto simp: Selection_wf_def Selection_liftSelection_def)

lemma getDirection_LTR_iff:
  "Selection_getDirection s = LTR \<longleftrightarrow> Selection_getSelectionStart s = startPos s"
  by (auto simp: Selection_getDirection_def Selection_getSelectionStart_def position_eq_iff)

lemma Selection_eqI:
  assumes "Selection_wf s" "Selection_wf t"
    and "Selection_getSelectionStart s = Selection_getSelectionStart t"
    and "Selection_getPosition s = Selection_getPosition t"
  shows "s = t"
proof -
  obtain a b c d a' b' c' d' where "s = new_Selection a b c d" "t = new_Selection a' b' c' d'"
    using assms(1,2) by (metis Selection_wfE)
  with assms(3,4) show ?thesis
    by simp
qed

text \<open>
  A selection is determined by its range and its direction: rebuilding it with \<open>fromRange\<close>
  gives it back; conversely \<open>fromRange\<close> keeps the range and, unless the range is empty, the
  direction; and two selections are \<open>selectionsEqual\<close> exactly when they are the same.
\<close>

theorem Selection_range_direction_roundtrip:
  assumes "Selection_wf s" "Selection_wf t" "Range_wf r"
  shows "Selection_fromRange s (Selection_getDirection s) = s \<and>
         startPos (Selection_fromRange r d) = startPos r \<and> endPos (Selection_fromRange r d) = endPos r \<and>
         (\<not> Range_isEmpty r \<longrightarrow> Selection_getDirection (Selection_fromRange r d) = d) \<and>
         (Selection_selectionsEqual s t \<longleftrightarrow> s = t) \<and>
         Selection_createWithDirection (startLineNumber r) (startColumn r) (endLineNumber r) (endColumn r) d
           = Selection_fromRange r d"
proof -
  obtain a b c e where s: "s = new_Selection a b c e"
    using assms(1) by (rule Selection_wfE)
  have "Selection_fromRange s (Selection_getDirection s) = s"
  proof (rule Selection_eqI)
    have mk: "mk_position (startLineNumber s) (startColumn s) = startPos s"
      "mk_position (endLineNumber s) (endColumn s) = endPos s"
      by (simp_all add: Range_getStartPosition_def Range_getEndPosition_def)
    show "Selection_getSelectionStart (Selection_fromRange s (Selection_getDirection s)) =
          Selection_getSelectionStart s"
      and "Selection_getPosition (Selection_fromRange s (Selection_getDirection s)) = Selection_getPosition s"
      using getDirection_LTR_iff [of s]
      by (auto simp: Selection_fromRange_def mk) (auto simp: s min_def max_def split: if_splits)
  qed (simp_all add: assms Selection_fromRange_def)
  moreover have "startPos r \<le> endPos r"
    using assms(3) by (simp add: Range_wf_def)
  then have "startPos (Selection_fromRange r d) = startPos r \<and> endPos (Selection_fromRange r d) = endPos r"
    by (simp add: Selection_fromRange_def mk_startPos mk_endPos min_def max_def)
  moreover have "Selection_getDirection (Selection_fromRange r d) = d" if "\<not> Range_isEmpty r"
  proof -
    have "startPos r \<noteq> endPos r"
      using that by (auto simp: Range_isEmpty_def position_eq_iff)
    then show ?thesis
      using \<open>startPos r \<le> endPos r\<close> getDirection_LTR_iff [of "Selection_fromRange r d"]
      by (cases d; cases "Selection_getDirection (Selection_fromRange r d)")
        (auto simp: Selection_fromRange_def mk_startPos mk_endPos min_def)
  qed
  moreover have "Selection_selectionsEqual s t \<longleftrightarrow> s = t"
    using Selection_eqI [OF assms(1,2)]
    by (auto simp: Selection_selectionsEqual_def Selection_getSelectionStart_def Selection_getPosition_def)
  ultimately show ?thesis
    by (simp add: Selection_createWithDirection_def Selection_fromRange_def)
qed

theorem Selection_range_direction_roundtrip_witness:
  "Selection_fromRange (new_Selection 4 2 1 7) (Selection_getDirection (new_Selection 4 2 1 7)) =
   new_Selection 4 2 1 7"
  using Selection_range_direction_roundtrip [of "new_Selection 4 2 1 7" "new_Selection 4 2 1 7"
      "new_Range 1 1 2 2"] by simp

text \<open>
  On a selection made right to left, \<open>setEndPosition\<close> leaves the cursor position where it was and
  moves the start of the selection, while its documentation announces a different position.
\<close>

lemma setEndPosition_RTL:
  "Selection_getPosition (Selection_setEndPosition (new_Selection 4 2 1 7) 9 9) = mk_position 1 7"
  by (simp add: Selection_setEndPosition_def Selection_getDirection_def new_Selection_def new_Range_def
      Selection_getPosition_def)

end
