(* ===== verification/Half_Open.thy ===== *)
theory Half_Open
  imports Prelude
begin

text \<open>
  Half-open intervals \<open>[lo, hi)\<close> of integers, the contract shared by \<open>OffsetRange\<close> (0-based
  offsets) and \<open>LineRange\<close> (1-based line numbers).  Both classes have a constructor that throws
  on \<open>start > end\<close>; the locale takes the two accessors and the constructor and proves once what
  the set operations of either class rely on.
\<close>

definition covers :: "('r \<Rightarrow> int) \<Rightarrow> ('r \<Rightarrow> int) \<Rightarrow> 'r list \<Rightarrow> int set" where
  "covers lo hi rs = (\<Union>r \<in> set rs. {lo r ..< hi r})"

definition all_ordered :: "('r \<Rightarrow> int) \<Rightarrow> ('r \<Rightarrow> int) \<Rightarrow> 'r list \<Rightarrow> bool" where
  "all_ordered lo hi rs \<longleftrightarrow> (\<forall>r \<in> set rs. lo r \<le> hi r)"

definition separated :: "('r \<Rightarrow> int) \<Rightarrow> ('r \<Rightarrow> int) \<Rightarrow> 'r list \<Rightarrow> bool" where
  "separated lo hi rs \<longleftrightarrow> all_ordered lo hi rs \<and> sorted_wrt (\<lambda>a b. hi a < lo b) rs"

lemma covers_simps [simp]:
  "covers lo hi [] = {}"
  "covers lo hi (r # rs) = {lo r ..< hi r} \<union> covers lo hi rs"
  "covers lo hi (rs @ ss) = covers lo hi rs \<union> covers lo hi ss"
  by (auto simp: covers_def)

lemma all_ordered_simps [simp]:
  "all_ordered lo hi []"
  "all_ordered lo hi (r # rs) \<longleftrightarrow> lo r \<le> hi r \<and> all_ordered lo hi rs"
  "all_ordered lo hi (rs @ ss) \<longleftrightarrow> all_ordered lo hi rs \<and> all_ordered lo hi ss"
  by (auto simp: all_ordered_def)

lemma separated_Nil [simp]: "separated lo hi []"
  by (simp add: separated_def)

lemma separated_Cons:
  "separated lo hi (r # rs) \<longleftrightarrow> lo r \<le> hi r \<and> (\<forall>s \<in> set rs. hi r < lo s) \<and> separated lo hi rs"
  by (auto simp: separated_def all_ordered_def)

lemma separated_append:
  "separated lo hi (rs @ ss) \<longleftrightarrow>
     separated lo hi rs \<and> separated lo hi ss \<and> (\<forall>r \<in> set rs. \<forall>s \<in> set ss. hi r < lo s)"
  by (auto simp: separated_def all_ordered_def sorted_wrt_append)

lemma separated_between:
  assumes "separated lo hi rs" "rs \<noteq> []" "r \<in> set rs"
  shows "lo (hd rs) \<le> lo r" and "hi r \<le> hi (last rs)"
proof -
  show "lo (hd rs) \<le> lo r"
    using assms by (cases rs) (auto simp: separated_Cons)
  show "hi r \<le> hi (last rs)"
  proof (cases rs rule: rev_cases)
    case (snoc ss x)
    with assms show ?thesis
      by (fastforce simp: separated_append separated_Cons)
  qed (use assms in simp)
qed

text \<open>A separated list covers as many integers as the sum of the lengths of its ranges.\<close>

lemma separated_card:
  assumes "separated lo hi rs"
  shows "int (card (covers lo hi rs)) = (\<Sum>r \<leftarrow> rs. hi r - lo r)" and "finite (covers lo hi rs)"
proof -
  have "finite (covers lo hi rs) \<and> int (card (covers lo hi rs)) = (\<Sum>r \<leftarrow> rs. hi r - lo r)"
    using assms
  proof (induction rs)
    case (Cons r rs)
    then have "{lo r ..< hi r} \<inter> covers lo hi rs = {}"
      by (fastforce simp: separated_Cons covers_def)
    with Cons show ?case
      by (auto simp: card_Un_disjoint separated_Cons)
  qed simp
  then show "int (card (covers lo hi rs)) = (\<Sum>r \<leftarrow> rs. hi r - lo r)" and "finite (covers lo hi rs)"
    by auto
qed

locale half_open =
  fixes lo :: "'r \<Rightarrow> int" and hi :: "'r \<Rightarrow> int" and new :: "int \<Rightarrow> int \<Rightarrow> js_error + 'r"
  assumes new_ok: "a \<le> b \<Longrightarrow> \<exists>r. new a b = Inr r \<and> lo r = a \<and> hi r = b"
    and new_throws: "b < a \<Longrightarrow> new a b = Inl BugIndicatingError"
begin

lemma new_Inr: "new a b = Inr r \<Longrightarrow> lo r = a \<and> hi r = b \<and> a \<le> b"
  using new_ok [of a b] new_throws [of b a] by (cases "a \<le> b") auto

lemma new_join:
  assumes "lo r \<le> hi r" "lo s \<le> hi s"
  obtains t where "new (min (lo r) (lo s)) (max (hi r) (hi s)) = Inr t"
    and "lo t = min (lo r) (lo s)" "hi t = max (hi r) (hi s)"
proof -
  have "min (lo r) (lo s) \<le> max (hi r) (hi s)"
    using assms by linarith
  from new_ok [OF this] show thesis
    using that by blast
qed

lemma join_touching_covers:
  assumes "lo r \<le> hi r" "lo s \<le> hi s" "lo s \<le> hi r" "lo r \<le> hi s"
    and "lo t = min (lo r) (lo s)" "hi t = max (hi r) (hi s)"
  shows "{lo t ..< hi t} = {lo r ..< hi r} \<union> {lo s ..< hi s}"
  using assms by auto

text \<open>
  Replacing the run of ranges that touch \<open>r\<close> by their hull with \<open>r\<close> keeps the list separated
  and adds exactly \<open>r\<close> to what is covered: the core of \<open>addRange\<close>.
\<close>

lemma absorb_middle:
  assumes sep: "separated lo hi (before @ middle @ after)" and r: "lo r \<le> hi r"
    and before: "\<forall>b \<in> set before. hi b < lo r"
    and middle: "middle \<noteq> []" "lo r \<le> hi (hd middle)" "\<forall>m \<in> set middle. lo m \<le> hi r"
    and after: "\<forall>a \<in> set after. hi r < lo a"
    and t: "lo t = min (lo r) (lo (hd middle))" "hi t = max (hi r) (hi (last middle))"
  shows "separated lo hi (before @ t # after)"
    and "covers lo hi (before @ t # after) = covers lo hi (before @ middle @ after) \<union> {lo r ..< hi r}"
proof -
  have sm: "separated lo hi middle"
    using sep by (simp add: separated_append)
  have hd: "hd middle \<in> set middle" and last: "last middle \<in> set middle"
    using middle(1) by simp_all
  have "lo (hd middle) \<le> hi (hd middle)" "lo (last middle) \<le> hi (last middle)"
    using sm hd last by (auto simp: separated_def all_ordered_def)
  with r t have "lo t \<le> hi t"
    by linarith
  moreover have "hi b < lo t" if "b \<in> set before" for b
    using that before sep hd t(1) by (auto simp: separated_append)
  moreover have "hi t < lo a" if "a \<in> set after" for a
    using that after sep last t(2) by (auto simp: separated_append)
  moreover have "hi b < lo a" if "b \<in> set before" "a \<in> set after" for a b
    using that sep by (auto simp: separated_append)
  ultimately show "separated lo hi (before @ t # after)"
    using sep by (auto simp: separated_append separated_Cons)
  have "{lo t ..< hi t} = covers lo hi middle \<union> {lo r ..< hi r}"
  proof (intro equalityI subsetI)
    fix n assume n: "n \<in> {lo t ..< hi t}"
    show "n \<in> covers lo hi middle \<union> {lo r ..< hi r}"
    proof (cases "lo r \<le> n \<and> n < hi r")
      case False
      with n t consider "lo (hd middle) \<le> n" "n < lo r" | "hi r \<le> n" "n < hi (last middle)"
        by (auto simp: min_def max_def split: if_splits)
      then show ?thesis
      proof cases
        case 1
        with middle(2) hd show ?thesis by (force simp: covers_def)
      next
        case 2
        with middle(3) last show ?thesis by (force simp: covers_def)
      qed
    qed simp
  next
    fix n assume "n \<in> covers lo hi middle \<union> {lo r ..< hi r}"
    then show "n \<in> {lo t ..< hi t}"
      using separated_between [OF sm middle(1)] t by (fastforce simp: covers_def)
  qed
  then show "covers lo hi (before @ t # after) = covers lo hi (before @ middle @ after) \<union> {lo r ..< hi r}"
    by auto
qed

end

end
