(* ===== verification/Offset_Range.thy ===== *)
theory Offset_Range
  imports Half_Open
begin

text \<open>
  \<open>src/vs/editor/common/core/offsetRange.ts\<close>: the class \<open>OffsetRange\<close>, its sorted list insertion
  \<open>addRange\<close> and the class \<open>OffsetRangeSet\<close>.  The constructor throws \<open>BugIndicatingError\<close> when
  \<open>start > endExclusive\<close>; operations that construct ranges return a sum accordingly.
\<close>

section \<open>The class OffsetRange\<close>

record offsetRange =
  start :: int
  endExclusive :: int

definition new_OffsetRange :: "int \<Rightarrow> int \<Rightarrow> js_error + offsetRange" where
  "new_OffsetRange s e =
     (if s > e then Inl BugIndicatingError else Inr \<lparr>start = s, endExclusive = e\<rparr>)"

definition OffsetRange_tryCreate :: "int \<Rightarrow> int \<Rightarrow> offsetRange option" where
  "OffsetRange_tryCreate s e = (if s > e then None else Some \<lparr>start = s, endExclusive = e\<rparr>)"

definition OffsetRange_ofLength :: "int \<Rightarrow> js_error + offsetRange" where
  "OffsetRange_ofLength len = new_OffsetRange 0 len"

definition OffsetRange_isEmpty :: "offsetRange \<Rightarrow> bool" where
  "OffsetRange_isEmpty r \<longleftrightarrow> start r = endExclusive r"

definition OffsetRange_delta :: "offsetRange \<Rightarrow> int \<Rightarrow> js_error + offsetRange" where
  "OffsetRange_delta r offset = new_OffsetRange (start r + offset) (endExclusive r + offset)"

definition OffsetRange_deltaStart :: "offsetRange \<Rightarrow> int \<Rightarrow> js_error + offsetRange" where
  "OffsetRange_deltaStart r offset = new_OffsetRange (start r + offset) (endExclusive r)"

definition OffsetRange_deltaEnd :: "offsetRange \<Rightarrow> int \<Rightarrow> js_error + offsetRange" where
  "OffsetRange_deltaEnd r offset = new_OffsetRange (start r) (endExclusive r + offset)"

definition OffsetRange_length :: "offsetRange \<Rightarrow> int" where
  "OffsetRange_length r = endExclusive r - start r"

definition OffsetRange_equals :: "offsetRange \<Rightarrow> offsetRange \<Rightarrow> bool" where
  "OffsetRange_equals r other \<longleftrightarrow> start r = start other \<and> endExclusive r = endExclusive other"

definition OffsetRange_containsRange :: "offsetRange \<Rightarrow> offsetRange \<Rightarrow> bool" where
  "OffsetRange_containsRange r other \<longleftrightarrow> start r \<le> start other \<and> endExclusive other \<le> endExclusive r"

definition OffsetRange_contains :: "offsetRange \<Rightarrow> int \<Rightarrow> bool" where
  "OffsetRange_contains r offset \<longleftrightarrow> start r \<le> offset \<and> offset < endExclusive r"

definition OffsetRange_join :: "offsetRange \<Rightarrow> offsetRange \<Rightarrow> js_error + offsetRange" where
  "OffsetRange_join r other =
     new_OffsetRange (min (start r) (start other)) (max (endExclusive r) (endExclusive other))"

definition OffsetRange_intersect :: "offsetRange \<Rightarrow> offsetRange \<Rightarrow> js_error + offsetRange option" where
  "OffsetRange_intersect r other =
     (let s = max (start r) (start other); e = min (endExclusive r) (endExclusive other)
      in if s \<le> e then map_sum id Some (new_OffsetRange s e) else Inr None)"

text \<open>\<open>slice\<close> for ranges of non-negative offsets; \<open>Array.prototype.slice\<close> counts negative ones from the end.\<close>

definition OffsetRange_slice :: "offsetRange \<Rightarrow> 'a list \<Rightarrow> 'a list" where
  "OffsetRange_slice r arr = js_slice arr (nat (start r)) (nat (endExclusive r))"

definition OffsetRange_clip :: "offsetRange \<Rightarrow> int \<Rightarrow> js_error + int" where
  "OffsetRange_clip r value =
     (if OffsetRange_isEmpty r then Inl BugIndicatingError
      else Inr (max (start r) (min (endExclusive r - 1) value)))"

definition OffsetRange_clipCyclic :: "offsetRange \<Rightarrow> int \<Rightarrow> js_error + int" where
  "OffsetRange_clipCyclic r value =
     (if OffsetRange_isEmpty r then Inl BugIndicatingError
      else if value < start r
           then Inr (endExclusive r - (start r - value) mod OffsetRange_length r)
      else if value \<ge> endExclusive r
           then Inr (start r + (value - start r) mod OffsetRange_length r)
      else Inr value)"

definition OffsetRange_addRange :: "offsetRange \<Rightarrow> offsetRange list \<Rightarrow> js_error + offsetRange list" where
  "OffsetRange_addRange rng rs =
     (let i = while_index (\<lambda>r. endExclusive r < start rng) rs 0;
          j = while_index (\<lambda>r. start r \<le> endExclusive rng) rs i
      in if i = j then Inr (js_splice rs i 0 [rng])
         else (let s = min (start rng) (start (rs ! i));
                   e = max (endExclusive rng) (endExclusive (rs ! (j - 1)))
               in bind_result (new_OffsetRange s e)
                    (\<lambda>r. Inr (js_splice rs i (j - i) [r]))))"

section \<open>The class OffsetRangeSet\<close>

record offsetRangeSet =
  sortedRanges :: "offsetRange list"

definition new_OffsetRangeSet :: offsetRangeSet where
  "new_OffsetRangeSet = \<lparr>sortedRanges = []\<rparr>"

text \<open>The method \<open>addRange\<close> repeats the body of the static one on its own array.\<close>

definition OffsetRangeSet_addRange :: "offsetRangeSet \<Rightarrow> offsetRange \<Rightarrow> js_error + offsetRangeSet" where
  "OffsetRangeSet_addRange s rng =
     (let rs = sortedRanges s;
          i = while_index (\<lambda>r. endExclusive r < start rng) rs 0;
          j = while_index (\<lambda>r. start r \<le> endExclusive rng) rs i
      in if i = j then Inr (s\<lparr>sortedRanges := js_splice rs i 0 [rng]\<rparr>)
         else (let st = min (start rng) (start (rs ! i));
                   e = max (endExclusive rng) (endExclusive (rs ! (j - 1)))
               in bind_result (new_OffsetRange st e)
                    (\<lambda>r. Inr (s\<lparr>sortedRanges := js_splice rs i (j - i) [r]\<rparr>))))"

definition OffsetRangeSet_intersectsStrict :: "offsetRangeSet \<Rightarrow> offsetRange \<Rightarrow> bool" where
  "OffsetRangeSet_intersectsStrict s other =
     (let rs = sortedRanges s; i = while_index (\<lambda>r. endExclusive r \<le> start other) rs 0
      in i < length rs \<and> start (rs ! i) < endExclusive other)"

fun intersectWithRange_loop ::
  "offsetRange list \<Rightarrow> offsetRange \<Rightarrow> offsetRangeSet \<Rightarrow> js_error + offsetRangeSet" where
  "intersectWithRange_loop [] other result = Inr result"
| "intersectWithRange_loop (rng # ranges) other result =
     bind_result (OffsetRange_intersect rng other) (\<lambda>intersection.
       case intersection of
         None \<Rightarrow> intersectWithRange_loop ranges other result
       | Some x \<Rightarrow> bind_result (OffsetRangeSet_addRange result x)
                      (\<lambda>result'. intersectWithRange_loop ranges other result'))"

definition OffsetRangeSet_intersectWithRange ::
  "offsetRangeSet \<Rightarrow> offsetRange \<Rightarrow> js_error + offsetRangeSet" where
  "OffsetRangeSet_intersectWithRange s other =
     intersectWithRange_loop (sortedRanges s) other new_OffsetRangeSet"

definition OffsetRangeSet_length :: "offsetRangeSet \<Rightarrow> int" where
  "OffsetRangeSet_length s = foldl (\<lambda>prev cur. prev + OffsetRange_length cur) 0 (sortedRanges s)"

definition OffsetRangeSet_intersectWithRangeLength :: "offsetRangeSet \<Rightarrow> offsetRange \<Rightarrow> js_error + int" where
  "OffsetRangeSet_intersectWithRangeLength s other =
     map_sum id OffsetRangeSet_length (OffsetRangeSet_intersectWithRange s other)"

lemmas offsetRange_defs [range_defs] =
  OffsetRange_isEmpty_def OffsetRange_length_def OffsetRange_contains_def
  OffsetRange_containsRange_def OffsetRange_equals_def

section \<open>The half-open contract\<close>

interpretation ofr: half_open start endExclusive new_OffsetRange
  by unfold_locales (auto simp: new_OffsetRange_def)

abbreviation or_covers :: "offsetRange list \<Rightarrow> int set" where
  "or_covers rs \<equiv> covers start endExclusive rs"

abbreviation or_separated :: "offsetRange list \<Rightarrow> bool" where
  "or_separated rs \<equiv> separated start endExclusive rs"

lemma or_covers_contains: "n \<in> or_covers rs \<longleftrightarrow> (\<exists>r \<in> set rs. OffsetRange_contains r n)"
  by (auto simp: covers_def OffsetRange_contains_def)

lemma OffsetRange_intersect_total:
  "OffsetRange_intersect r other =
     Inr (if max (start r) (start other) \<le> min (endExclusive r) (endExclusive other)
          then Some \<lparr>start = max (start r) (start other),
                     endExclusive = min (endExclusive r) (endExclusive other)\<rparr>
          else None)"
  by (auto simp: OffsetRange_intersect_def new_OffsetRange_def Let_def)

lemma OffsetRangeSet_addRange_static:
  "OffsetRangeSet_addRange s r =
     map_sum id (\<lambda>rs. s\<lparr>sortedRanges := rs\<rparr>) (OffsetRange_addRange r (sortedRanges s))"
  by (simp add: OffsetRangeSet_addRange_def OffsetRange_addRange_def Let_def bind_result_def
      split: sum.split)

text \<open>The two scans split a separated list into the ranges before, touching and after \<open>r\<close>.\<close>

lemma addRange_split:
  fixes r :: offsetRange and rs :: "offsetRange list"
  defines "before \<equiv> takeWhile (\<lambda>x. endExclusive x < start r) rs"
    and "rest \<equiv> dropWhile (\<lambda>x. endExclusive x < start r) rs"
  defines "middle \<equiv> takeWhile (\<lambda>x. start x \<le> endExclusive r) rest"
    and "after \<equiv> dropWhile (\<lambda>x. start x \<le> endExclusive r) rest"
  shows "rs = before @ middle @ after"
    and "while_index (\<lambda>x. endExclusive x < start r) rs 0 = length before"
    and "while_index (\<lambda>x. start x \<le> endExclusive r) rs (length before) = length before + length middle"
  by (simp_all add: while_index_takeWhile before_def rest_def middle_def after_def
      dropWhile_eq_drop [symmetric])

lemma addRange_correct:
  assumes sep: "or_separated rs" and r: "start r \<le> endExclusive r"
  shows "\<exists>rs'. OffsetRange_addRange r rs = Inr rs' \<and> or_separated rs' \<and>
               or_covers rs' = or_covers rs \<union> {start r ..< endExclusive r}"
proof -
  define before where "before = takeWhile (\<lambda>x. endExclusive x < start r) rs"
  define rest where "rest = dropWhile (\<lambda>x. endExclusive x < start r) rs"
  define middle where "middle = takeWhile (\<lambda>x. start x \<le> endExclusive r) rest"
  define after where "after = dropWhile (\<lambda>x. start x \<le> endExclusive r) rest"
  note split = addRange_split [where r = r and rs = rs, folded before_def rest_def, folded middle_def after_def]
  have rs: "rs = before @ middle @ after" and rest: "rest = middle @ after"
    using split(1) by (simp_all add: middle_def after_def)
  have bef: "\<forall>b \<in> set before. endExclusive b < start r"
    by (auto simp: before_def dest: set_takeWhileD)
  have hd_rest: "rest \<noteq> [] \<Longrightarrow> start r \<le> endExclusive (hd rest)"
    using hd_dropWhile [of "\<lambda>x. endExclusive x < start r" rs] by (simp add: rest_def)
  have mid: "\<forall>m \<in> set middle. start m \<le> endExclusive r"
    by (auto simp: middle_def dest: set_takeWhileD)
  have aft: "\<forall>a \<in> set after. endExclusive r < start a"
  proof (cases "after = []")
    case False
    then have "endExclusive r < start (hd after)"
      using hd_dropWhile [of "\<lambda>x. start x \<le> endExclusive r" rest] by (simp add: after_def)
    moreover have "or_separated after"
      using sep rs by (simp add: separated_append)
    ultimately show ?thesis
      using separated_between(1) [of start endExclusive after] False by fastforce
  qed simp
  show ?thesis
  proof (cases "middle = []")
    case True
    then have "OffsetRange_addRange r rs = Inr (before @ r # after)"
      by (simp add: OffsetRange_addRange_def split(2,3) js_splice_def Let_def) (simp add: rs)
    moreover have "or_separated (before @ r # after)"
      using sep rs True r bef aft by (auto simp: separated_append separated_Cons)
    ultimately show ?thesis
      using rs True by auto
  next
    case False
    then have i: "rs ! length before = hd middle"
      by (simp add: rs nth_append hd_conv_nth)
    have j: "rs ! (length before + length middle - 1) = last middle"
      using False by (cases middle rule: rev_cases) (simp_all add: rs nth_append)
    have touch: "start r \<le> endExclusive (hd middle)"
      using hd_rest False by (simp add: rest)
    obtain t where t: "new_OffsetRange (min (start r) (start (hd middle)))
          (max (endExclusive r) (endExclusive (last middle))) = Inr t"
      "start t = min (start r) (start (hd middle))"
      "endExclusive t = max (endExclusive r) (endExclusive (last middle))"
      using r ofr.new_ok [of "min (start r) (start (hd middle))"
          "max (endExclusive r) (endExclusive (last middle))"] by fastforce
    have "OffsetRange_addRange r rs = Inr (before @ t # after)"
      using False t(1)
      by (simp add: OffsetRange_addRange_def split(2,3) i j [simplified] js_splice_def Let_def) (simp add: rs)
    then show ?thesis
      using ofr.absorb_middle [OF _ r bef False touch mid aft t(2,3)] sep rs by auto
  qed
qed

section \<open>Properties\<close>

definition OffsetRangeSet_inv :: "offsetRangeSet \<Rightarrow> bool" where
  "OffsetRangeSet_inv s \<longleftrightarrow> or_separated (sortedRanges s)"

lemma OffsetRangeSet_addRange_correct:
  assumes "OffsetRangeSet_inv s" "start r \<le> endExclusive r"
  shows "\<exists>s'. OffsetRangeSet_addRange s r = Inr s' \<and> OffsetRangeSet_inv s' \<and>
              or_covers (sortedRanges s') = or_covers (sortedRanges s) \<union> {start r ..< endExclusive r}"
  using addRange_correct [of "sortedRanges s" r] assms
  by (auto simp: OffsetRangeSet_addRange_static OffsetRangeSet_inv_def)

fun addAll :: "offsetRangeSet \<Rightarrow> offsetRange list \<Rightarrow> js_error + offsetRangeSet" where
  "addAll s [] = Inr s"
| "addAll s (r # rs) = bind_result (OffsetRangeSet_addRange s r) (\<lambda>s'. addAll s' rs)"

lemma addAll_correct:
  assumes "OffsetRangeSet_inv s" "all_ordered start endExclusive rs"
  shows "\<exists>s'. addAll s rs = Inr s' \<and> OffsetRangeSet_inv s' \<and>
              or_covers (sortedRanges s') = or_covers (sortedRanges s) \<union> or_covers rs"
  using assms
proof (induction rs arbitrary: s)
  case (Cons r rs)
  then obtain s1 where "OffsetRangeSet_addRange s r = Inr s1" "OffsetRangeSet_inv s1"
    "or_covers (sortedRanges s1) = or_covers (sortedRanges s) \<union> {start r ..< endExclusive r}"
    using OffsetRangeSet_addRange_correct [of s r] by auto
  with Cons show ?case
    by (fastforce simp: Un_assoc)
qed simp

lemma intersectWithRange_loop_correct:
  assumes "OffsetRangeSet_inv result"
  shows "\<exists>s'. intersectWithRange_loop rs other result = Inr s' \<and> OffsetRangeSet_inv s' \<and>
              or_covers (sortedRanges s') =
                or_covers (sortedRanges result) \<union> (or_covers rs \<inter> {start other ..< endExclusive other})"
  using assms
proof (induction rs arbitrary: result)
  case (Cons r rs)
  show ?case
  proof (cases "max (start r) (start other) \<le> min (endExclusive r) (endExclusive other)")
    case True
    define x where "x = \<lparr>start = max (start r) (start other),
                         endExclusive = min (endExclusive r) (endExclusive other)\<rparr>"
    obtain s1 where s1: "OffsetRangeSet_addRange result x = Inr s1" "OffsetRangeSet_inv s1"
      "or_covers (sortedRanges s1) = or_covers (sortedRanges result) \<union> {start x ..< endExclusive x}"
      using OffsetRangeSet_addRange_correct [OF Cons.prems, of x] True by (auto simp: x_def)
    have "{start x ..< endExclusive x} =
          {start r ..< endExclusive r} \<inter> {start other ..< endExclusive other}"
      by (auto simp: x_def)
    with s1 Cons.IH [OF s1(2)] True show ?thesis
      by (auto simp: OffsetRange_intersect_total x_def)
  next
    case False
    then have "{start r ..< endExclusive r} \<inter> {start other ..< endExclusive other} = {}"
      by auto
    with Cons.IH [OF Cons.prems] False show ?thesis
      by (auto simp: OffsetRange_intersect_total)
  qed
qed simp

lemma OffsetRangeSet_length_sum: "OffsetRangeSet_length s = (\<Sum>r \<leftarrow> sortedRanges s. endExclusive r - start r)"
proof -
  have "foldl (\<lambda>prev cur. prev + OffsetRange_length cur) a rs =
        a + (\<Sum>r \<leftarrow> rs. endExclusive r - start r)" for a rs
    by (induction rs arbitrary: a) (simp_all add: OffsetRange_length_def)
  then show ?thesis
    by (simp add: OffsetRangeSet_length_def)
qed

text \<open>
  C40. \<open>clip\<close> returns the element of a non-empty range closest to the value.  \<open>clipCyclic\<close> always
  shifts the value by a multiple of the length, and the result lies in the range except when the
  value is below the range by a multiple of the length: then it is \<open>endExclusive\<close>, one past the
  last element (for instance \<open>[5, 10).clipCyclic(0) = 10\<close>).
\<close>

theorem clip_and_clipCyclic:
  assumes "start r < endExclusive r"
  shows "\<exists>c k. OffsetRange_clip r v = Inr c \<and> OffsetRange_contains r c \<and>
               (\<forall>n. OffsetRange_contains r n \<longrightarrow> \<bar>c - v\<bar> \<le> \<bar>n - v\<bar>) \<and>
               OffsetRange_clipCyclic r v = Inr (v + k * OffsetRange_length r) \<and>
               (OffsetRange_contains r (v + k * OffsetRange_length r) \<longleftrightarrow>
                  \<not> (v < start r \<and> OffsetRange_length r dvd start r - v)) \<and>
               (v < start r \<and> OffsetRange_length r dvd start r - v \<longrightarrow>
                  v + k * OffsetRange_length r = endExclusive r)"
proof -
  define len where "len = endExclusive r - start r"
  have len: "0 < len" "OffsetRange_length r = len" "endExclusive r = start r + len"
    using assms by (auto simp: len_def OffsetRange_length_def)
  have clip: "OffsetRange_clip r v = Inr (max (start r) (min (endExclusive r - 1) v))"
    using assms by (simp add: OffsetRange_clip_def OffsetRange_isEmpty_def)
  have below: "start r + len - (start r - v) mod len = v + ((start r - v) div len + 1) * len"
    using div_mult_mod_eq [of "start r - v" len] by (simp add: algebra_simps)
  have above: "start r + (v - start r) mod len = v + (- ((v - start r) div len)) * len"
    using div_mult_mod_eq [of "v - start r" len] by (simp add: algebra_simps)
  have m: "0 \<le> x mod len" "x mod len < len" for x
    using len(1) by simp_all
  consider "v < start r" | "start r \<le> v" "v < endExclusive r" | "endExclusive r \<le> v"
    by linarith
  then have "\<exists>k. OffsetRange_clipCyclic r v = Inr (v + k * len) \<and>
      (OffsetRange_contains r (v + k * len) \<longleftrightarrow> \<not> (v < start r \<and> len dvd start r - v)) \<and>
      (v < start r \<and> len dvd start r - v \<longrightarrow> v + k * len = endExclusive r)"
  proof cases
    case 1
    obtain q where q: "(start r - v) mod len = q" "0 \<le> q" "q < len"
      using m by blast
    have "OffsetRange_contains r (start r + len - (start r - v) mod len) \<longleftrightarrow> \<not> len dvd start r - v"
      using q(2,3) by (auto simp: OffsetRange_contains_def dvd_eq_mod_eq_0 q(1) len(3))
    moreover have "len dvd start r - v \<Longrightarrow> start r + len - (start r - v) mod len = endExclusive r"
      using len by (simp add: dvd_eq_mod_eq_0)
    moreover have "OffsetRange_clipCyclic r v = Inr (start r + len - (start r - v) mod len)"
      using 1 len by (simp add: OffsetRange_clipCyclic_def OffsetRange_isEmpty_def)
    ultimately show ?thesis
      using 1 unfolding below by blast
  next
    case 2
    then show ?thesis
      using len by (intro exI [of _ 0])
        (simp add: OffsetRange_clipCyclic_def OffsetRange_isEmpty_def OffsetRange_contains_def)
  next
    case 3
    have "OffsetRange_contains r (start r + (v - start r) mod len)"
      using m [of "v - start r"] len by (simp add: OffsetRange_contains_def)
    moreover have "OffsetRange_clipCyclic r v = Inr (start r + (v - start r) mod len)"
      using 3 len by (simp add: OffsetRange_clipCyclic_def OffsetRange_isEmpty_def)
    ultimately show ?thesis
      using 3 assms unfolding above by fastforce
  qed
  then show ?thesis
    using assms by (auto simp: clip len(2) OffsetRange_contains_def)
qed

theorem clip_and_clipCyclic_witness:
  "\<exists>c k. OffsetRange_clip \<lparr>start = 5, endExclusive = 10\<rparr> 0 = Inr c \<and>
         OffsetRange_clipCyclic \<lparr>start = 5, endExclusive = 10\<rparr> 0 = Inr (0 + k * 5)"
  using clip_and_clipCyclic [of "\<lparr>start = 5, endExclusive = 10\<rparr>" 0]
  by (auto simp: OffsetRange_length_def)

text \<open>
  C36. Adding any ranges to an empty \<open>OffsetRangeSet\<close> never throws, keeps the stored ranges
  ordered and pairwise separated, contains exactly the offsets of the added ranges, and reports
  as its length the number of those offsets.
\<close>

theorem OffsetRangeSet_represents_union:
  assumes "\<forall>r \<in> set rs. start r \<le> endExclusive r"
  shows "\<exists>s. addAll new_OffsetRangeSet rs = Inr s \<and> OffsetRangeSet_inv s \<and>
             (\<forall>n. (\<exists>r \<in> set (sortedRanges s). OffsetRange_contains r n) \<longleftrightarrow>
                  (\<exists>r \<in> set rs. OffsetRange_contains r n)) \<and>
             OffsetRangeSet_length s = int (card {n. \<exists>r \<in> set rs. OffsetRange_contains r n})"
proof -
  obtain s where s: "addAll new_OffsetRangeSet rs = Inr s" "OffsetRangeSet_inv s"
    "or_covers (sortedRanges s) = or_covers rs"
    using addAll_correct [of new_OffsetRangeSet rs] assms
    by (auto simp: OffsetRangeSet_inv_def new_OffsetRangeSet_def all_ordered_def)
  have "{n. \<exists>r \<in> set rs. OffsetRange_contains r n} = or_covers rs"
    by (auto simp: or_covers_contains)
  moreover have "OffsetRangeSet_length s = int (card (or_covers (sortedRanges s)))"
    using separated_card(1) [of start endExclusive "sortedRanges s"] s(2)
    by (simp add: OffsetRangeSet_length_sum OffsetRangeSet_inv_def)
  ultimately show ?thesis
    using s by (auto simp: or_covers_contains [symmetric])
qed

theorem OffsetRangeSet_represents_union_witness:
  "\<exists>s. addAll new_OffsetRangeSet [\<lparr>start = 5, endExclusive = 8\<rparr>, \<lparr>start = 1, endExclusive = 3\<rparr>,
         \<lparr>start = 3, endExclusive = 5\<rparr>] = Inr s \<and> OffsetRangeSet_inv s"
  using OffsetRangeSet_represents_union [of "[\<lparr>start = 5, endExclusive = 8\<rparr>,
      \<lparr>start = 1, endExclusive = 3\<rparr>, \<lparr>start = 3, endExclusive = 5\<rparr>]"] by auto

text \<open>
  \<open>intersectWithRange\<close> returns the set of offsets common to the set and the range, without
  throwing; \<open>intersectWithRangeLength\<close> counts them; and \<open>intersectsStrict\<close> decides whether
  there is one, provided neither the range nor a stored range is empty.
\<close>

theorem OffsetRangeSet_intersections:
  assumes "OffsetRangeSet_inv s" "start other < endExclusive other"
    and "\<forall>r \<in> set (sortedRanges s). \<not> OffsetRange_isEmpty r"
  shows "\<exists>s'. OffsetRangeSet_intersectWithRange s other = Inr s' \<and> OffsetRangeSet_inv s' \<and>
             or_covers (sortedRanges s') = or_covers (sortedRanges s) \<inter> {start other ..< endExclusive other} \<and>
             OffsetRangeSet_intersectWithRangeLength s other =
               Inr (int (card (or_covers (sortedRanges s) \<inter> {start other ..< endExclusive other}))) \<and>
             (OffsetRangeSet_intersectsStrict s other \<longleftrightarrow>
               or_covers (sortedRanges s) \<inter> {start other ..< endExclusive other} \<noteq> {})"
proof -
  obtain s' where s': "OffsetRangeSet_intersectWithRange s other = Inr s'" "OffsetRangeSet_inv s'"
    "or_covers (sortedRanges s') = or_covers (sortedRanges s) \<inter> {start other ..< endExclusive other}"
    using intersectWithRange_loop_correct [of new_OffsetRangeSet "sortedRanges s" other]
    by (auto simp: OffsetRangeSet_intersectWithRange_def new_OffsetRangeSet_def OffsetRangeSet_inv_def)
  have len: "OffsetRangeSet_length s' = int (card (or_covers (sortedRanges s')))"
    using separated_card(1) [of start endExclusive "sortedRanges s'"] s'(2)
    by (simp add: OffsetRangeSet_length_sum OffsetRangeSet_inv_def)
  define ys where "ys = dropWhile (\<lambda>r. endExclusive r \<le> start other) (sortedRanges s)"
  have split: "sortedRanges s = takeWhile (\<lambda>r. endExclusive r \<le> start other) (sortedRanges s) @ ys"
    by (simp add: ys_def)
  have early: "\<forall>r \<in> set (takeWhile (\<lambda>r. endExclusive r \<le> start other) (sortedRanges s)).
      {start r ..< endExclusive r} \<inter> {start other ..< endExclusive other} = {}"
    by (auto dest: set_takeWhileD)
  have "or_covers (sortedRanges s) = or_covers (takeWhile (\<lambda>r. endExclusive r \<le> start other)
      (sortedRanges s)) \<union> or_covers ys"
    by (subst split) (rule covers_simps(3))
  with early have inter: "or_covers (sortedRanges s) \<inter> {start other ..< endExclusive other} =
      or_covers ys \<inter> {start other ..< endExclusive other}"
    by (auto simp: covers_def)
  have strict: "OffsetRangeSet_intersectsStrict s other \<longleftrightarrow> ys \<noteq> [] \<and> start (hd ys) < endExclusive other"
    by (auto simp: OffsetRangeSet_intersectsStrict_def Let_def ys_def while_index_dropWhile
        simp del: dropWhile_eq_Nil_conv)
  have "or_covers ys \<inter> {start other ..< endExclusive other} \<noteq> {} \<longleftrightarrow>
        ys \<noteq> [] \<and> start (hd ys) < endExclusive other"
  proof (cases "ys = []")
    case False
    then have hd: "start other < endExclusive (hd ys)"
      using hd_dropWhile [of "\<lambda>r. endExclusive r \<le> start other" "sortedRanges s"] by (simp add: ys_def)
    have in_s: "hd ys \<in> set (sortedRanges s)"
      using False by (metis hd_in_set set_dropWhileD ys_def)
    then have ne: "start (hd ys) < endExclusive (hd ys)"
      using assms(1,3) by (auto simp: OffsetRangeSet_inv_def separated_def all_ordered_def
          OffsetRange_isEmpty_def order.order_iff_strict)
    have sep: "or_separated ys"
      using assms(1) split by (metis OffsetRangeSet_inv_def separated_append)
    show ?thesis
    proof
      assume "ys \<noteq> [] \<and> start (hd ys) < endExclusive other"
      then have "max (start (hd ys)) (start other) \<in> or_covers ys \<inter> {start other ..< endExclusive other}"
        using hd ne assms(2) False by (auto simp: covers_def intro!: bexI [of _ "hd ys"])
      then show "or_covers ys \<inter> {start other ..< endExclusive other} \<noteq> {}" by blast
    next
      assume "or_covers ys \<inter> {start other ..< endExclusive other} \<noteq> {}"
      then show "ys \<noteq> [] \<and> start (hd ys) < endExclusive other"
        using separated_between(1) [OF sep False] False by (fastforce simp: covers_def)
    qed
  qed simp
  then show ?thesis
    using s' len inter strict by (simp add: OffsetRangeSet_intersectWithRangeLength_def)
qed

theorem OffsetRangeSet_intersections_witness:
  "OffsetRangeSet_intersectsStrict \<lparr>sortedRanges = [\<lparr>start = 0, endExclusive = 3\<rparr>,
       \<lparr>start = 5, endExclusive = 9\<rparr>]\<rparr> \<lparr>start = 4, endExclusive = 6\<rparr> \<longleftrightarrow>
   or_covers [\<lparr>start = 0, endExclusive = 3\<rparr>, \<lparr>start = 5, endExclusive = 9\<rparr>] \<inter> {4 ..< 6} \<noteq> {}"
  using OffsetRangeSet_intersections [of "\<lparr>sortedRanges = [\<lparr>start = 0, endExclusive = 3\<rparr>,
      \<lparr>start = 5, endExclusive = 9\<rparr>]\<rparr>" "\<lparr>start = 4, endExclusive = 6\<rparr>"]
  by (auto simp: OffsetRangeSet_inv_def separated_Cons OffsetRange_isEmpty_def)

text \<open>
  The documentation of \<open>intersectsStrict\<close> promises a value common to the set and the range; for
  an empty range strictly inside a stored one it answers true although nothing is common.
\<close>

lemma intersectsStrict_empty_range:
  "OffsetRangeSet_intersectsStrict \<lparr>sortedRanges = [\<lparr>start = 0, endExclusive = 10\<rparr>]\<rparr>
     \<lparr>start = 5, endExclusive = 5\<rparr>"
  by (simp add: OffsetRangeSet_intersectsStrict_def while_index_takeWhile Let_def)

end
