(* ===== verification/Line_Range.thy ===== *)
theory Line_Range
  imports Offset_Range Core_Range
begin

text \<open>
  \<open>src/vs/editor/common/core/lineRange.ts\<close>: the class \<open>LineRange\<close> of 1-based, end-exclusive line
  ranges with its list operations \<open>subtract\<close>, \<open>join\<close> and \<open>joinMany\<close>.  The second interpretation
  of the half-open contract is made here.
\<close>

section \<open>The class LineRange\<close>

record lineRange =
  lr_startLineNumber :: int
  lr_endLineNumberExclusive :: int

abbreviation lrs :: "lineRange \<Rightarrow> int" where "lrs \<equiv> lr_startLineNumber"

abbreviation lre :: "lineRange \<Rightarrow> int" where "lre \<equiv> lr_endLineNumberExclusive"

definition new_LineRange :: "int \<Rightarrow> int \<Rightarrow> js_error + lineRange" where
  "new_LineRange s e =
     (if s > e then Inl BugIndicatingError
      else Inr \<lparr>lr_startLineNumber = s, lr_endLineNumberExclusive = e\<rparr>)"

definition LineRange_fromRange :: "range \<Rightarrow> js_error + lineRange" where
  "LineRange_fromRange r = new_LineRange (startLineNumber r) (endLineNumber r)"

definition LineRange_subtract :: "lineRange \<Rightarrow> lineRange option \<Rightarrow> js_error + lineRange list" where
  "LineRange_subtract a bo =
     (case bo of None \<Rightarrow> Inr [a] | Some b \<Rightarrow>
        if lrs a < lrs b \<and> lre b < lre a
        then bind_result (new_LineRange (lrs a) (lrs b)) (\<lambda>x.
             bind_result (new_LineRange (lre b) (lre a)) (\<lambda>y. Inr [x, y]))
        else if lrs b \<le> lrs a \<and> lre a \<le> lre b then Inr []
        else if lre b < lre a
        then bind_result (new_LineRange (max (lre b) (lrs a)) (lre a)) (\<lambda>x. Inr [x])
        else bind_result (new_LineRange (lrs a) (min (lrs b) (lre a))) (\<lambda>x. Inr [x]))"

text \<open>The body of the loop of \<open>join\<close> after \<open>next\<close> is chosen: merge it into \<open>current\<close> or push.\<close>

fun join_accept ::
  "lineRange option \<Rightarrow> lineRange list \<Rightarrow> lineRange \<Rightarrow> js_error + lineRange \<times> lineRange list" where
  "join_accept None result nxt = Inr (nxt, result)"
| "join_accept (Some current) result nxt =
     (if lre current \<ge> lrs nxt
      then bind_result (new_LineRange (lrs current) (max (lre current) (lre nxt)))
             (\<lambda>current'. Inr (current', result))
      else Inr (nxt, result @ [current]))"

text \<open>The loop, on the suffixes that the indices \<open>i1\<close> and \<open>i2\<close> leave to read.\<close>

fun join_loop ::
  "lineRange list \<Rightarrow> lineRange list \<Rightarrow> lineRange option \<Rightarrow> lineRange list \<Rightarrow> js_error + lineRange list" where
  "join_loop [] [] current result =
     Inr (case current of None \<Rightarrow> result | Some c \<Rightarrow> result @ [c])"
| "join_loop (a # as) (b # bs) current result =
     (if lrs a < lrs b
      then bind_result (join_accept current result a) (\<lambda>(c, r). join_loop as (b # bs) (Some c) r)
      else bind_result (join_accept current result b) (\<lambda>(c, r). join_loop (a # as) bs (Some c) r))"
| "join_loop (a # as) [] current result =
     bind_result (join_accept current result a) (\<lambda>(c, r). join_loop as [] (Some c) r)"
| "join_loop [] (b # bs) current result =
     bind_result (join_accept current result b) (\<lambda>(c, r). join_loop [] bs (Some c) r)"

definition LineRange_join :: "lineRange list \<Rightarrow> lineRange list \<Rightarrow> js_error + lineRange list" where
  "LineRange_join lineRanges1 lineRanges2 =
     (if lineRanges1 = [] then Inr lineRanges2
      else if lineRanges2 = [] then Inr lineRanges1
      else join_loop lineRanges1 lineRanges2 None [])"

fun joinMany_loop :: "lineRange list \<Rightarrow> lineRange list list \<Rightarrow> js_error + lineRange list" where
  "joinMany_loop result [] = Inr result"
| "joinMany_loop result (rs # rss) =
     bind_result (LineRange_join result rs) (\<lambda>result'. joinMany_loop result' rss)"

definition LineRange_joinMany :: "lineRange list list \<Rightarrow> js_error + lineRange list" where
  "LineRange_joinMany lineRanges =
     (case lineRanges of [] \<Rightarrow> Inr [] | rs # rss \<Rightarrow> joinMany_loop rs rss)"

definition LineRange_ofLength :: "int \<Rightarrow> int \<Rightarrow> js_error + lineRange" where
  "LineRange_ofLength s len = new_LineRange s (s + len)"

definition LineRange_deserialize :: "int \<times> int \<Rightarrow> js_error + lineRange" where
  "LineRange_deserialize lr = new_LineRange (fst lr) (snd lr)"

definition LineRange_contains :: "lineRange \<Rightarrow> int \<Rightarrow> bool" where
  "LineRange_contains r n \<longleftrightarrow> lrs r \<le> n \<and> n < lre r"

definition LineRange_isEmpty :: "lineRange \<Rightarrow> bool" where
  "LineRange_isEmpty r \<longleftrightarrow> lrs r = lre r"

definition LineRange_delta :: "lineRange \<Rightarrow> int \<Rightarrow> js_error + lineRange" where
  "LineRange_delta r offset = new_LineRange (lrs r + offset) (lre r + offset)"

definition LineRange_deltaLength :: "lineRange \<Rightarrow> int \<Rightarrow> js_error + lineRange" where
  "LineRange_deltaLength r offset = new_LineRange (lrs r) (lre r + offset)"

definition LineRange_length :: "lineRange \<Rightarrow> int" where
  "LineRange_length r = lre r - lrs r"

definition LineRange_join2 :: "lineRange \<Rightarrow> lineRange \<Rightarrow> js_error + lineRange" where
  "LineRange_join2 r other = new_LineRange (min (lrs r) (lrs other)) (max (lre r) (lre other))"

definition LineRange_intersect :: "lineRange \<Rightarrow> lineRange \<Rightarrow> js_error + lineRange option" where
  "LineRange_intersect r other =
     (let s = max (lrs r) (lrs other); e = min (lre r) (lre other)
      in if s \<le> e then map_sum id Some (new_LineRange s e) else Inr None)"

definition LineRange_intersectsStrict :: "lineRange \<Rightarrow> lineRange \<Rightarrow> bool" where
  "LineRange_intersectsStrict r other \<longleftrightarrow> lrs r < lre other \<and> lrs other < lre r"

definition LineRange_overlapOrTouch :: "lineRange \<Rightarrow> lineRange \<Rightarrow> bool" where
  "LineRange_overlapOrTouch r other \<longleftrightarrow> lrs r \<le> lre other \<and> lrs other \<le> lre r"

definition LineRange_equals :: "lineRange \<Rightarrow> lineRange \<Rightarrow> bool" where
  "LineRange_equals r b \<longleftrightarrow> lrs r = lrs b \<and> lre r = lre b"

definition MAX_SAFE_INTEGER :: int where "MAX_SAFE_INTEGER = 9007199254740991"

definition LineRange_toInclusiveRange :: "lineRange \<Rightarrow> range option" where
  "LineRange_toInclusiveRange r =
     (if LineRange_isEmpty r then None
      else Some (new_Range (lrs r) 1 (lre r - 1) MAX_SAFE_INTEGER))"

definition LineRange_toExclusiveRange :: "lineRange \<Rightarrow> range" where
  "LineRange_toExclusiveRange r = new_Range (lrs r) 1 (lre r) 1"

function mapToLineArray_loop :: "(int \<Rightarrow> 'a) \<Rightarrow> int \<Rightarrow> int \<Rightarrow> 'a list \<Rightarrow> 'a list" where
  "mapToLineArray_loop f n e result =
     (if n < e then mapToLineArray_loop f (n + 1) e (result @ [f n]) else result)"
  by pat_completeness auto
termination
  by (relation "measure (\<lambda>(f, n, e, result). nat (e - n))") auto

declare mapToLineArray_loop.simps [simp del]

definition LineRange_mapToLineArray :: "lineRange \<Rightarrow> (int \<Rightarrow> 'a) \<Rightarrow> 'a list" where
  "LineRange_mapToLineArray r f = mapToLineArray_loop f (lrs r) (lre r) []"

definition LineRange_serialize :: "lineRange \<Rightarrow> int \<times> int" where
  "LineRange_serialize r = (lrs r, lre r)"

definition LineRange_includes :: "lineRange \<Rightarrow> int \<Rightarrow> bool" where
  "LineRange_includes r n \<longleftrightarrow> lrs r \<le> n \<and> n < lre r"

definition LineRange_toOffsetRange :: "lineRange \<Rightarrow> js_error + offsetRange" where
  "LineRange_toOffsetRange r = new_OffsetRange (lrs r - 1) (lre r - 1)"

section \<open>The half-open contract\<close>

interpretation lnr: half_open lr_startLineNumber lr_endLineNumberExclusive new_LineRange
  by unfold_locales (auto simp: new_LineRange_def)

abbreviation lr_covers :: "lineRange list \<Rightarrow> int set" where
  "lr_covers rs \<equiv> covers lr_startLineNumber lr_endLineNumberExclusive rs"

abbreviation lr_separated :: "lineRange list \<Rightarrow> bool" where
  "lr_separated rs \<equiv> separated lr_startLineNumber lr_endLineNumberExclusive rs"

abbreviation lr_ordered :: "lineRange list \<Rightarrow> bool" where
  "lr_ordered rs \<equiv> all_ordered lr_startLineNumber lr_endLineNumberExclusive rs"

lemma lr_covers_contains: "n \<in> lr_covers rs \<longleftrightarrow> (\<exists>r \<in> set rs. LineRange_contains r n)"
  by (auto simp: covers_def LineRange_contains_def)

section \<open>join as a merge followed by coalescing\<close>

fun merge_starts :: "lineRange list \<Rightarrow> lineRange list \<Rightarrow> lineRange list" where
  "merge_starts [] bs = bs"
| "merge_starts as [] = as"
| "merge_starts (a # as) (b # bs) =
     (if lrs a < lrs b then a # merge_starts as (b # bs) else b # merge_starts (a # as) bs)"

fun coalesce :: "lineRange list \<Rightarrow> lineRange option \<Rightarrow> lineRange list \<Rightarrow> js_error + lineRange list" where
  "coalesce [] current result = Inr (case current of None \<Rightarrow> result | Some c \<Rightarrow> result @ [c])"
| "coalesce (n # ns) current result =
     bind_result (join_accept current result n) (\<lambda>(c, r). coalesce ns (Some c) r)"

lemma join_loop_coalesce: "join_loop as bs current result = coalesce (merge_starts as bs) current result"
proof (induction as bs current result rule: join_loop.induct)
  case (2 a as b bs current result)
  then show ?case
    by (cases "lrs a < lrs b"; cases "lrs a < lrs b"; cases "join_accept current result a";
        cases "join_accept current result b") auto
next
  case (3 a as current result)
  then show ?case
    by (cases "join_accept current result a"; cases as) auto
next
  case (4 b bs current result)
  then show ?case
    by (cases "join_accept current result b") auto
qed simp

lemma set_merge_starts: "set (merge_starts as bs) = set as \<union> set bs"
  by (induction as bs rule: merge_starts.induct) auto

lemma sorted_merge_starts:
  "sorted (map lrs as) \<Longrightarrow> sorted (map lrs bs) \<Longrightarrow> sorted (map lrs (merge_starts as bs))"
  by (induction as bs rule: merge_starts.induct) (auto simp: set_merge_starts)

lemma merge_starts_Nil_iff: "merge_starts as bs = [] \<longleftrightarrow> as = [] \<and> bs = []"
  by (induction as bs rule: merge_starts.induct) auto

lemma coalesce_correct:
  assumes "lr_separated (result @ [c])" and "sorted (map lrs (c # ns))" and "lr_ordered ns"
  shows "\<exists>res. coalesce ns (Some c) result = Inr res \<and> lr_separated res \<and>
               lr_covers res = lr_covers (result @ [c]) \<union> lr_covers ns"
  using assms
proof (induction ns arbitrary: c result)
  case (Cons n ns)
  have c: "lrs c \<le> lre c" and n: "lrs n \<le> lre n" "lrs c \<le> lrs n"
    using Cons.prems by (auto simp: separated_append separated_Cons)
  show ?case
  proof (cases "lre c \<ge> lrs n")
    case True
    define d where "d = \<lparr>lr_startLineNumber = lrs c, lr_endLineNumberExclusive = max (lre c) (lre n)\<rparr>"
    have acc: "join_accept (Some c) result n = Inr (d, result)"
      using True c by (simp add: new_LineRange_def d_def)
    have "lr_separated (result @ [d])" "sorted (map lrs (d # ns))"
      using Cons.prems c by (auto simp: separated_append separated_Cons d_def)
    with Cons.IH [of result d] Cons.prems(3) obtain res where
      res: "coalesce ns (Some d) result = Inr res" "lr_separated res"
        "lr_covers res = lr_covers (result @ [d]) \<union> lr_covers ns"
      by auto
    have "{lrs d ..< lre d} = {lrs c ..< lre c} \<union> {lrs n ..< lre n}"
      using lnr.join_touching_covers [of c n d] c n True by (simp add: d_def)
    with res acc show ?thesis
      by auto
  next
    case False
    have acc: "join_accept (Some c) result n = Inr (n, result @ [c])"
      using False by simp
    have "lr_separated ((result @ [c]) @ [n])" "sorted (map lrs (n # ns))"
      using Cons.prems False n c by (auto simp: separated_append separated_Cons)
    with Cons.IH [of "result @ [c]" n] Cons.prems(3) show ?thesis
      using acc by auto
  qed
qed simp

lemma LineRange_join_correct:
  assumes "sorted (map lrs as)" "sorted (map lrs bs)" "lr_ordered as" "lr_ordered bs"
  shows "\<exists>res. LineRange_join as bs = Inr res \<and> lr_covers res = lr_covers as \<union> lr_covers bs \<and>
               lr_ordered res \<and> sorted (map lrs res) \<and> (as \<noteq> [] \<and> bs \<noteq> [] \<longrightarrow> lr_separated res)"
proof (cases "as = [] \<or> bs = []")
  case False
  then obtain m ms where m: "merge_starts as bs = m # ms"
    by (metis list.exhaust merge_starts_Nil_iff)
  have set: "set (m # ms) = set as \<union> set bs"
    using m set_merge_starts by metis
  have "sorted (map lrs (m # ms))"
    using sorted_merge_starts [OF assms(1,2)] m by simp
  moreover have "lr_ordered (m # ms)"
    using assms(3,4) set by (auto simp: all_ordered_def)
  ultimately obtain res where res: "coalesce ms (Some m) [] = Inr res" "lr_separated res"
    "lr_covers res = lr_covers [m] \<union> lr_covers ms"
    using coalesce_correct [of "[]" m ms] by (auto simp: separated_Cons)
  have "lr_covers [m] \<union> lr_covers ms = lr_covers as \<union> lr_covers bs"
    using set by (auto simp: covers_def)
  moreover have "sorted (map lrs res)" "lr_ordered res"
    using res(2) by (induction res) (fastforce simp: separated_Cons)+
  ultimately show ?thesis
    using False res m by (simp add: LineRange_join_def join_loop_coalesce)
qed (use assms in \<open>auto simp: LineRange_join_def\<close>)

lemma joinMany_loop_correct:
  assumes "sorted (map lrs rs)" "lr_ordered rs" "\<forall>xs \<in> set rss. sorted (map lrs xs) \<and> lr_ordered xs"
  shows "\<exists>res. joinMany_loop rs rss = Inr res \<and> lr_ordered res \<and> sorted (map lrs res) \<and>
               lr_covers res = lr_covers rs \<union> (\<Union>xs \<in> set rss. lr_covers xs)"
  using assms
proof (induction rss arbitrary: rs)
  case (Cons xs rss)
  then obtain r where "LineRange_join rs xs = Inr r" "lr_covers r = lr_covers rs \<union> lr_covers xs"
    "lr_ordered r" "sorted (map lrs r)"
    using LineRange_join_correct [of rs xs] by auto
  with Cons show ?case
    by (fastforce simp: Un_assoc)
qed simp

section \<open>Properties\<close>

text \<open>
  \<open>LineRange.join\<close> of two non-empty lists sorted by start line never throws and returns
  pairwise separated ranges that contain exactly the lines of the two lists.
\<close>

theorem LineRange_join_union:
  assumes "sorted (map lr_startLineNumber as)" "sorted (map lr_startLineNumber bs)"
    and "lr_ordered as" "lr_ordered bs" "as \<noteq> []" "bs \<noteq> []"
  shows "\<exists>res. LineRange_join as bs = Inr res \<and> lr_separated res \<and>
               (\<forall>n. (\<exists>r \<in> set res. LineRange_contains r n) \<longleftrightarrow>
                    (\<exists>r \<in> set as \<union> set bs. LineRange_contains r n))"
  using LineRange_join_correct [OF assms(1-4)] assms(5,6)
  by (auto simp: lr_covers_contains [symmetric] ball_Un bex_Un)

theorem LineRange_join_union_witness:
  "\<exists>res. LineRange_join [\<lparr>lr_startLineNumber = 1, lr_endLineNumberExclusive = 4\<rparr>]
           [\<lparr>lr_startLineNumber = 2, lr_endLineNumberExclusive = 6\<rparr>,
            \<lparr>lr_startLineNumber = 9, lr_endLineNumberExclusive = 9\<rparr>] = Inr res \<and> lr_separated res"
  using LineRange_join_union [of "[\<lparr>lr_startLineNumber = 1, lr_endLineNumberExclusive = 4\<rparr>]"
      "[\<lparr>lr_startLineNumber = 2, lr_endLineNumberExclusive = 6\<rparr>,
        \<lparr>lr_startLineNumber = 9, lr_endLineNumberExclusive = 9\<rparr>]"]
  by (auto simp: all_ordered_def)

text \<open>
  \<open>joinMany\<close> over any number of sorted lists returns, without throwing, a sorted list of
  ranges that contain exactly the lines of all the lists.
\<close>

theorem LineRange_joinMany_union:
  assumes "\<forall>rs \<in> set rss. sorted (map lr_startLineNumber rs) \<and> lr_ordered rs"
  shows "\<exists>res. LineRange_joinMany rss = Inr res \<and> sorted (map lr_startLineNumber res) \<and> lr_ordered res \<and>
               (\<forall>n. (\<exists>r \<in> set res. LineRange_contains r n) \<longleftrightarrow>
                    (\<exists>rs \<in> set rss. \<exists>r \<in> set rs. LineRange_contains r n))"
proof (cases rss)
  case (Cons rs rss')
  then show ?thesis
    using joinMany_loop_correct [of rs rss'] assms
    by (auto simp: LineRange_joinMany_def lr_covers_contains [symmetric])
qed (simp add: LineRange_joinMany_def)

theorem LineRange_joinMany_union_witness:
  "\<exists>res. LineRange_joinMany [[\<lparr>lr_startLineNumber = 1, lr_endLineNumberExclusive = 4\<rparr>], [],
           [\<lparr>lr_startLineNumber = 4, lr_endLineNumberExclusive = 5\<rparr>]] = Inr res \<and>
         sorted (map lr_startLineNumber res)"
  using LineRange_joinMany_union [of "[[\<lparr>lr_startLineNumber = 1, lr_endLineNumberExclusive = 4\<rparr>], [],
      [\<lparr>lr_startLineNumber = 4, lr_endLineNumberExclusive = 5\<rparr>]]"]
  by (auto simp: all_ordered_def)

text \<open>
  \<open>subtract\<close> never throws on well-formed ranges and returns at most two ranges, in order and
  well-formed, that contain exactly the lines of \<open>a\<close> outside \<open>b\<close>.
\<close>

theorem LineRange_subtract_difference:
  assumes "lrs a \<le> lre a" "lrs b \<le> lre b"
  shows "\<exists>res. LineRange_subtract a (Some b) = Inr res \<and> length res \<le> 2 \<and>
               lr_ordered res \<and> sorted (map lr_startLineNumber res) \<and>
               (\<forall>n. (\<exists>r \<in> set res. LineRange_contains r n) \<longleftrightarrow>
                    LineRange_contains a n \<and> \<not> LineRange_contains b n)"
  using assms by (auto simp: LineRange_subtract_def new_LineRange_def LineRange_contains_def)

theorem LineRange_subtract_difference_witness:
  "\<exists>res. LineRange_subtract \<lparr>lr_startLineNumber = 1, lr_endLineNumberExclusive = 9\<rparr>
           (Some \<lparr>lr_startLineNumber = 3, lr_endLineNumberExclusive = 5\<rparr>) = Inr res \<and> length res \<le> 2"
  using LineRange_subtract_difference [of "\<lparr>lr_startLineNumber = 1, lr_endLineNumberExclusive = 9\<rparr>"
      "\<lparr>lr_startLineNumber = 3, lr_endLineNumberExclusive = 5\<rparr>"] by auto

lemma mapToLineArray_loop_eq: "mapToLineArray_loop f n e result = result @ map f [n..e - 1]"
proof (induction f n e result rule: mapToLineArray_loop.induct)
  case (1 f n e result)
  then show ?case
    by (cases "n < e") (simp_all add: mapToLineArray_loop.simps [of f n e result] upto_rec1)
qed

text \<open>
  The conversions of \<open>LineRange\<close> keep its lines: \<open>deserialize\<close> undoes \<open>serialize\<close>,
  \<open>mapToLineArray\<close> visits the contained lines once and in order, \<open>intersect\<close> and \<open>join\<close> are exact
  bounds, \<open>toOffsetRange\<close> shifts by one, and \<open>toInclusiveRange\<close> spans exactly the contained lines.
\<close>

theorem LineRange_conversions:
  assumes "lrs r \<le> lre r" "lrs q \<le> lre q"
  shows "LineRange_deserialize (LineRange_serialize r) = Inr r \<and>
         LineRange_mapToLineArray r f = map f [lrs r..lre r - 1] \<and>
         (\<exists>x. LineRange_intersect r q = Inr x \<and>
              (x = None \<longleftrightarrow> \<not> LineRange_overlapOrTouch r q) \<and>
              (\<forall>n. LineRange_contains r n \<and> LineRange_contains q n \<longleftrightarrow>
                   (\<exists>y. x = Some y \<and> LineRange_contains y n))) \<and>
         (\<exists>j. LineRange_join2 r q = Inr j \<and>
              (\<forall>n. LineRange_contains r n \<or> LineRange_contains q n \<longrightarrow> LineRange_contains j n)) \<and>
         (\<exists>x. LineRange_toOffsetRange r = Inr x \<and>
              (\<forall>n. LineRange_contains r n \<longleftrightarrow> OffsetRange_contains x (n - 1))) \<and>
         (\<forall>n. LineRange_contains r n \<longleftrightarrow>
              (\<exists>g. LineRange_toInclusiveRange r = Some g \<and> startLineNumber g \<le> n \<and> n \<le> endLineNumber g))"
proof (intro conjI)
  show "LineRange_mapToLineArray r f = map f [lrs r..lre r - 1]"
    by (simp add: LineRange_mapToLineArray_def mapToLineArray_loop_eq)
  show "\<forall>n. LineRange_contains r n \<longleftrightarrow>
      (\<exists>g. LineRange_toInclusiveRange r = Some g \<and> startLineNumber g \<le> n \<and> n \<le> endLineNumber g)"
    using assms
    by (auto simp: LineRange_toInclusiveRange_def LineRange_isEmpty_def LineRange_contains_def
        new_Range_def MAX_SAFE_INTEGER_def)
qed (use assms in \<open>auto simp: LineRange_deserialize_def LineRange_serialize_def LineRange_intersect_def
      LineRange_join2_def LineRange_toOffsetRange_def LineRange_overlapOrTouch_def
      LineRange_contains_def OffsetRange_contains_def new_LineRange_def new_OffsetRange_def Let_def\<close>)

theorem LineRange_conversions_witness:
  "LineRange_mapToLineArray \<lparr>lr_startLineNumber = 3, lr_endLineNumberExclusive = 6\<rparr> (\<lambda>n. n) = [3, 4, 5]"
  using LineRange_conversions [of "\<lparr>lr_startLineNumber = 3, lr_endLineNumberExclusive = 6\<rparr>"
      "\<lparr>lr_startLineNumber = 4, lr_endLineNumberExclusive = 4\<rparr>" "\<lambda>n. n"]
  by (simp add: upto.simps)

end
