(* ===== verification/Prefix_Sum.thy ===== *)
theory Prefix_Sum
  imports Base_Uint
begin

text \<open>
  \<open>src/vs/editor/common/model/prefixSumComputer.ts\<close>: the classes \<open>PrefixSumComputer\<close> (lazily
  extended prefix sums in typed arrays, binary search) and \<open>ConstantTimePrefixSumComputer\<close>
  (an index by sum).  The editor maps line heights and wrapped-line counts to offsets with them.
  Typed arrays are lists whose entries are reduced by \<open>u32\<close> on every store; the one-element
  \<open>Int32Array\<close> holding the valid index is stored through \<open>toInt32\<close>.  Reads of a typed array out
  of range give \<open>undefined\<close> (\<open>None\<close>), writes out of range are ignored.
\<close>

section \<open>PrefixSumComputer\<close>

record prefixSumComputer =
  "values" :: "int list"
  prefixSum :: "int list"
  prefixSumValidIndex :: int

definition new_PrefixSumComputer :: "int list \<Rightarrow> prefixSumComputer" where
  "new_PrefixSumComputer vs =
     \<lparr>values = vs, prefixSum = replicate (length vs) 0, prefixSumValidIndex = -1\<rparr>"

definition PrefixSumComputer_getCount :: "prefixSumComputer \<Rightarrow> nat" where
  "PrefixSumComputer_getCount s = length (values s)"

text \<open>The trusted part of the old cache, copied into a fresh zeroed array of length \<open>n\<close>.\<close>

definition copy_valid :: "int list \<Rightarrow> int \<Rightarrow> nat \<Rightarrow> int list" where
  "copy_valid old vi n =
     (if vi \<ge> 0 then take (nat vi + 1) old @ replicate (n - (nat vi + 1)) 0 else replicate n 0)"

definition PrefixSumComputer_insertValues ::
  "prefixSumComputer \<Rightarrow> int \<Rightarrow> int list \<Rightarrow> js_error + prefixSumComputer \<times> bool" where
  "PrefixSumComputer_insertValues s insertIndex vs =
     (let k = toUint32 insertIndex in
      if length vs = 0 then Inr (s, False)
      else if k < 0 \<or> k > int (length (values s)) then Inl RangeError
      else (let i = nat k;
                vals = take i (values s) @ vs @ drop i (values s);
                vi = (if k - 1 < prefixSumValidIndex s then toInt32 (k - 1) else prefixSumValidIndex s)
            in Inr (\<lparr>values = vals, prefixSum = copy_valid (prefixSum s) vi (length vals),
                     prefixSumValidIndex = vi\<rparr>, True)))"

definition PrefixSumComputer_setValue :: "prefixSumComputer \<Rightarrow> int \<Rightarrow> int \<Rightarrow> prefixSumComputer \<times> bool" where
  "PrefixSumComputer_setValue s index val =
     (let k = toUint32 index; v = toUint32 val;
          inside = (0 \<le> k \<and> k < int (length (values s)))
      in if inside \<and> values s ! nat k = v then (s, False)
         else (s\<lparr>values := (if inside then (values s)[nat k := u32 v] else values s),
                 prefixSumValidIndex :=
                   (if k - 1 < prefixSumValidIndex s then toInt32 (k - 1) else prefixSumValidIndex s)\<rparr>, True))"

definition PrefixSumComputer_removeValues ::
  "prefixSumComputer \<Rightarrow> int \<Rightarrow> int \<Rightarrow> js_error + prefixSumComputer \<times> bool" where
  "PrefixSumComputer_removeValues s startIndex cnt =
     (let k = toUint32 startIndex; c0 = toUint32 cnt; len = int (length (values s)) in
      if k \<ge> len then Inr (s, False)
      else (let maxCount = len - k; c = (if c0 \<ge> maxCount then maxCount else c0) in
        if c = 0 then Inr (s, False)
        else if k < 0 \<or> c < 0 then Inl RangeError
        else (let vals = take (nat k) (values s) @ drop (nat (k + c)) (values s);
                  vi = (if k - 1 < prefixSumValidIndex s then toInt32 (k - 1) else prefixSumValidIndex s)
              in Inr (\<lparr>values = vals, prefixSum = copy_valid (prefixSum s) vi (length vals),
                       prefixSumValidIndex = vi\<rparr>, True))))"

text \<open>The loop \<open>for (i = startIndex; i <= index; i++) prefixSum[i] = prefixSum[i - 1] + values[i]\<close>.\<close>

function prefix_fill :: "int list \<Rightarrow> int list \<Rightarrow> nat \<Rightarrow> int \<Rightarrow> int list" where
  "prefix_fill vs ps i index =
     (if int i \<le> index then prefix_fill vs (ps[i := u32 (ps ! (i - 1) + vs ! i)]) (Suc i) index else ps)"
  by pat_completeness auto
termination
  by (relation "measure (\<lambda>(vs, ps, i, index). nat (index + 1 - int i))") auto

declare prefix_fill.simps [simp del]

definition getPrefixSum_internal :: "prefixSumComputer \<Rightarrow> int \<Rightarrow> prefixSumComputer \<times> int option" where
  "getPrefixSum_internal s index =
     (if index \<le> prefixSumValidIndex s
      then (s, if 0 \<le> index \<and> index < int (length (prefixSum s))
               then Some (prefixSum s ! nat index) else None)
      else (let first = prefixSumValidIndex s + 1;
                ps0 = (if first = 0 \<and> values s \<noteq> [] then (prefixSum s)[0 := values s ! 0] else prefixSum s);
                startIndex = (if first = 0 then 1 else first);
                idx = (if index \<ge> int (length (values s)) then int (length (values s)) - 1 else index);
                ps = prefix_fill (values s) ps0 (nat startIndex) idx
            in (s\<lparr>prefixSum := ps, prefixSumValidIndex := max (prefixSumValidIndex s) idx\<rparr>,
                if 0 \<le> idx then Some (ps ! nat idx) else None)))"

definition PrefixSumComputer_getTotalSum :: "prefixSumComputer \<Rightarrow> prefixSumComputer \<times> int option" where
  "PrefixSumComputer_getTotalSum s =
     (if length (values s) = 0 then (s, Some 0)
      else getPrefixSum_internal s (int (length (values s)) - 1))"

definition PrefixSumComputer_getPrefixSum :: "prefixSumComputer \<Rightarrow> int \<Rightarrow> prefixSumComputer \<times> int option" where
  "PrefixSumComputer_getPrefixSum s index =
     (if index < 0 then (s, Some 0) else getPrefixSum_internal s (toUint32 index))"

text \<open>The binary search of \<open>getIndexOf\<close>: returns \<open>mid\<close> and \<open>midStart\<close> when the loop is left.\<close>

partial_function (option) getIndexOf_loop ::
  "int list \<Rightarrow> int list \<Rightarrow> int \<Rightarrow> int \<Rightarrow> int \<Rightarrow> int \<Rightarrow> int \<Rightarrow> (int \<times> int) option" where
  "getIndexOf_loop vs ps target low high mid0 midStart0 =
     (if low \<le> high
      then (let mid = toInt32 (low + (high - low) div 2);
                midStop = ps ! nat mid;
                midStart = midStop - vs ! nat mid
            in if target < midStart then getIndexOf_loop vs ps target low (mid - 1) mid midStart
               else if target \<ge> midStop then getIndexOf_loop vs ps target (mid + 1) high mid midStart
               else Some (mid, midStart))
      else Some (mid0, midStart0))"

definition PrefixSumComputer_getIndexOf ::
  "prefixSumComputer \<Rightarrow> int \<Rightarrow> prefixSumComputer \<times> (int \<times> int) option" where
  "PrefixSumComputer_getIndexOf s target =
     (let s' = fst (PrefixSumComputer_getTotalSum s)
      in (s', map_option (\<lambda>(mid, midStart). (mid, target - midStart))
               (getIndexOf_loop (values s') (prefixSum s') target 0 (int (length (values s')) - 1) 0 0)))"

section \<open>The cache invariant\<close>

definition psc_inv :: "prefixSumComputer \<Rightarrow> bool" where
  "psc_inv s \<longleftrightarrow>
     length (prefixSum s) = length (values s) \<and>
     -1 \<le> prefixSumValidIndex s \<and> prefixSumValidIndex s < int (length (values s)) \<and>
     (\<forall>i. int i \<le> prefixSumValidIndex s \<longrightarrow> prefixSum s ! i = u32 (prefix_total (values s) (Suc i))) \<and>
     (\<forall>v \<in> set (values s). 0 \<le> v \<and> v < 4294967296) \<and>
     length (values s) < 2147483648"

lemma psc_inv_new:
  "\<forall>v \<in> set vs. 0 \<le> v \<and> v < 4294967296 \<Longrightarrow> length vs < 2147483648 \<Longrightarrow> psc_inv (new_PrefixSumComputer vs)"
  by (simp add: psc_inv_def new_PrefixSumComputer_def)

lemma copy_valid_correct:
  assumes "psc_inv s" "vi \<le> prefixSumValidIndex s" "-1 \<le> vi" "vi < int n"
    and same: "take (nat (vi + 1)) vs = take (nat (vi + 1)) (values s)"
  shows "length (copy_valid (prefixSum s) vi n) = n"
    and "int i \<le> vi \<Longrightarrow> copy_valid (prefixSum s) vi n ! i = u32 (prefix_total vs (Suc i))"
proof -
  show "length (copy_valid (prefixSum s) vi n) = n"
    using assms by (auto simp: copy_valid_def psc_inv_def)
  assume i: "int i \<le> vi"
  then have "Suc i \<le> nat (vi + 1)"
    by linarith
  with same have "take (Suc i) vs = take (Suc i) (values s)"
    by (metis min.absorb1 take_take)
  moreover have "prefixSum s ! i = u32 (prefix_total (values s) (Suc i))"
    using assms(1,2) i by (simp add: psc_inv_def)
  ultimately show "copy_valid (prefixSum s) vi n ! i = u32 (prefix_total vs (Suc i))"
    using assms i by (auto simp: copy_valid_def psc_inv_def nth_append prefix_total_def)
qed

text \<open>All three mutations leave a cache that is valid below the first changed index.\<close>

lemma psc_inv_shrink:
  assumes inv: "psc_inv s" and k: "0 \<le> k" "k \<le> int (length (values s))"
    and vi: "vi = (if k - 1 < prefixSumValidIndex s then toInt32 (k - 1) else prefixSumValidIndex s)"
    and vs: "take (nat k) vs = take (nat k) (values s)" "nat k \<le> length vs"
      "\<forall>v \<in> set vs. 0 \<le> v \<and> v < 4294967296" "length vs < 2147483648"
  shows "psc_inv \<lparr>values = vs, prefixSum = copy_valid (prefixSum s) vi (length vs), prefixSumValidIndex = vi\<rparr>"
proof -
  have "toInt32 (k - 1) = k - 1"
    using k inv by (auto simp: psc_inv_def int32_range_def)
  then have le: "vi \<le> k - 1" "vi \<le> prefixSumValidIndex s" "-1 \<le> vi"
    using vi k inv by (auto simp: psc_inv_def)
  then have same: "take (nat (vi + 1)) vs = take (nat (vi + 1)) (values s)"
    using vs(1) by (metis diff_ge_0_iff_ge le_diff_eq min.absorb1 nat_mono take_take)
  have "vi < int (length vs)"
    using le(1) vs(2) k by linarith
  then show ?thesis
    using copy_valid_correct [OF inv le(2,3) _ same] le vs(3,4) by (simp add: psc_inv_def)
qed

lemma insertValues_correct:
  assumes "psc_inv s" "0 \<le> k" "k \<le> int (length (values s))" "vs \<noteq> []"
    and "\<forall>v \<in> set vs. 0 \<le> v \<and> v < 4294967296" "length (values s) + length vs < 2147483648"
  obtains s' where "PrefixSumComputer_insertValues s k vs = Inr (s', True)" "psc_inv s'"
    "values s' = take (nat k) (values s) @ vs @ drop (nat k) (values s)"
proof -
  have k: "toUint32 k = k"
    using assms by (simp add: psc_inv_def)
  define vals where "vals = take (nat k) (values s) @ vs @ drop (nat k) (values s)"
  define vi where "vi = (if k - 1 < prefixSumValidIndex s then toInt32 (k - 1) else prefixSumValidIndex s)"
  have "psc_inv \<lparr>values = vals, prefixSum = copy_valid (prefixSum s) vi (length vals), prefixSumValidIndex = vi\<rparr>"
    using assms by (intro psc_inv_shrink [OF assms(1-3) vi_def])
      (auto simp: vals_def psc_inv_def dest: in_set_takeD in_set_dropD)
  then show thesis
    using that assms by (simp add: PrefixSumComputer_insertValues_def k vals_def vi_def Let_def)
qed

lemma setValue_correct:
  assumes inv: "psc_inv s" and k: "0 \<le> k" "k < int (length (values s))" and v: "0 \<le> v" "v < 2147483648"
  obtains s' b where "PrefixSumComputer_setValue s k v = (s', b)" "psc_inv s'"
    "values s' = (values s)[nat k := v]" "b \<longleftrightarrow> values s ! nat k \<noteq> v"
proof -
  have *: "toUint32 k = k" "toUint32 v = v" "toInt32 (k - 1) = k - 1" "u32 v = v"
    using k v inv by (auto simp: psc_inv_def int32_range_def)
  show thesis
  proof (cases "values s ! nat k = v")
    case True
    then show thesis
      using that [of s False] inv k by (simp add: PrefixSumComputer_setValue_def * Let_def) force
  next
    case False
    define s' where "s' = s\<lparr>values := (values s)[nat k := v],
      prefixSumValidIndex := (if k - 1 < prefixSumValidIndex s then k - 1 else prefixSumValidIndex s)\<rparr>"
    have "prefix_total ((values s)[nat k := v]) (Suc i) = prefix_total (values s) (Suc i)"
      if "int i \<le> k - 1" for i
      using that k by (intro prefix_total_update) linarith
    moreover have "\<forall>x \<in> set ((values s)[nat k := v]). 0 \<le> x \<and> x < 4294967296"
      using inv v by (auto simp: psc_inv_def dest!: set_update_subset_insert [THEN subsetD])
    ultimately have "psc_inv s'"
      using inv k by (auto simp: psc_inv_def s'_def)
    moreover have "PrefixSumComputer_setValue s k v = (s', True)"
      using False k by (simp add: PrefixSumComputer_setValue_def * s'_def Let_def)
    ultimately show thesis
      using that [of s' True] False by (simp add: s'_def)
  qed
qed

lemma removeValues_correct:
  assumes inv: "psc_inv s" and k: "0 \<le> k" "k < int (length (values s))" and c: "0 < c" "c < 2147483648"
  obtains s' where "PrefixSumComputer_removeValues s k c = Inr (s', True)" "psc_inv s'"
    "values s' = take (nat k) (values s) @ drop (nat (k + c)) (values s)"
proof -
  have t: "toUint32 k = k" "toUint32 c = c"
    using k c inv by (auto simp: psc_inv_def)
  define d where "d = (if c \<ge> int (length (values s)) - k then int (length (values s)) - k else c)"
  define vals where "vals = take (nat k) (values s) @ drop (nat (k + d)) (values s)"
  define vi where "vi = (if k - 1 < prefixSumValidIndex s then toInt32 (k - 1) else prefixSumValidIndex s)"
  have d: "0 < d"
    using k c by (simp add: d_def)
  have vals: "vals = take (nat k) (values s) @ drop (nat (k + c)) (values s)"
    using k c by (auto simp: vals_def d_def)
  have "psc_inv \<lparr>values = vals, prefixSum = copy_valid (prefixSum s) vi (length vals), prefixSumValidIndex = vi\<rparr>"
    using inv k d by (intro psc_inv_shrink [OF inv k(1) _ vi_def])
      (auto simp: vals_def psc_inv_def dest: in_set_takeD in_set_dropD)
  then show thesis
    using that k d
    by (simp add: PrefixSumComputer_removeValues_def t d_def [symmetric] vals [symmetric] vals_def [symmetric]
        vi_def [symmetric] Let_def)
qed

section \<open>Reading prefix sums\<close>

lemma prefix_fill_correct:
  assumes "0 < i" "length ps = length vs" "index < int (length vs)"
    and "\<forall>j < i. ps ! j = u32 (prefix_total vs (Suc j))" "int i \<le> index + 1"
  shows "length (prefix_fill vs ps i index) = length vs \<and>
         (\<forall>j. int j \<le> index \<longrightarrow> prefix_fill vs ps i index ! j = u32 (prefix_total vs (Suc j)))"
  using assms
proof (induction vs ps i index rule: prefix_fill.induct)
  case (1 vs ps i index)
  show ?case
  proof (cases "int i \<le> index")
    case True
    define ps' where "ps' = ps[i := u32 (ps ! (i - 1) + vs ! i)]"
    have i: "i < length vs" "i < length ps"
      using True "1.prems" by auto
    have "ps ! (i - 1) = u32 (prefix_total vs i)"
      using "1.prems"(1,4) by (metis Suc_diff_1 diff_less less_one)
    then have "u32 (ps ! (i - 1) + vs ! i) = u32 (prefix_total vs (Suc i))"
      using i by (simp add: u32_add_left prefix_total_Suc)
    then have "\<forall>j < Suc i. ps' ! j = u32 (prefix_total vs (Suc j))"
      using "1.prems"(4) i by (auto simp: ps'_def nth_list_update less_Suc_eq)
    then have "length (prefix_fill vs ps' (Suc i) index) = length vs \<and>
        (\<forall>j. int j \<le> index \<longrightarrow> prefix_fill vs ps' (Suc i) index ! j = u32 (prefix_total vs (Suc j)))"
      using "1.IH" [OF True] "1.prems" True by (simp add: ps'_def)
    then show ?thesis
      using True by (simp add: prefix_fill.simps [of vs ps i index] ps'_def)
  next
    case False
    then show ?thesis
      using "1.prems" by (auto simp: prefix_fill.simps [of vs ps i index])
  qed
qed

lemma getPrefixSum_internal_correct:
  assumes inv: "psc_inv s" and ne: "values s \<noteq> []" and index: "0 \<le> index"
  obtains s' where "getPrefixSum_internal s index = (s', Some (u32 (prefix_total (values s) (nat index + 1))))"
    "psc_inv s'" "values s' = values s" "min index (int (length (values s)) - 1) \<le> prefixSumValidIndex s'"
proof (cases "index \<le> prefixSumValidIndex s")
  case True
  with inv index have "getPrefixSum_internal s index = (s, Some (u32 (prefix_total (values s) (nat index + 1))))"
    by (auto simp: getPrefixSum_internal_def psc_inv_def)
  then show thesis
    using that inv True by auto
next
  case False
  define vs where "vs = values s"
  define vi where "vi = prefixSumValidIndex s"
  define ps0 where "ps0 = (if vi + 1 = 0 \<and> vs \<noteq> [] then (prefixSum s)[0 := vs ! 0] else prefixSum s)"
  define st where "st = (if vi + 1 = 0 then 1 else vi + 1)"
  define idx where "idx = (if index \<ge> int (length vs) then int (length vs) - 1 else index)"
  have len: "length ps0 = length vs" "0 < length vs" and vi: "-1 \<le> vi" "vi < int (length vs)"
    and cache: "\<And>i. int i \<le> vi \<Longrightarrow> prefixSum s ! i = u32 (prefix_total vs (Suc i))"
    and range: "\<And>v. v \<in> set vs \<Longrightarrow> 0 \<le> v \<and> v < 4294967296"
    using inv ne by (auto simp: psc_inv_def ps0_def vs_def vi_def)
  have first: "u32 (prefix_total vs (Suc 0)) = vs ! 0"
    using len range [of "vs ! 0"] by (simp add: prefix_total_Suc)
  have st: "0 < nat st" "int (nat st) \<le> idx + 1" "\<forall>j < nat st. ps0 ! j = u32 (prefix_total vs (Suc j))"
    using vi False len index inv cache first
    by (auto simp: st_def idx_def vi_def ps0_def psc_inv_def vs_def less_Suc_eq nth_list_update split: if_splits)
  have idx: "idx < int (length vs)" "0 \<le> idx" "vi \<le> idx"
    using vi len index False by (auto simp: idx_def vi_def)
  note fill = prefix_fill_correct [OF st(1) len(1) idx(1) st(3,2)]
  define ps where "ps = prefix_fill vs ps0 (nat st) idx"
  define s' where "s' = s\<lparr>prefixSum := ps, prefixSumValidIndex := max vi idx\<rparr>"
  have "psc_inv s'"
    using inv fill idx by (auto simp: psc_inv_def s'_def ps_def vs_def [symmetric])
  moreover have "prefix_total vs (Suc (nat idx)) = prefix_total vs (nat index + 1)"
    using len index by (auto simp: idx_def prefix_total_all)
  moreover have "getPrefixSum_internal s index = (s', if 0 \<le> idx then Some (ps ! nat idx) else None)"
    using False
    by (simp only: getPrefixSum_internal_def Let_def s'_def ps_def ps0_def st_def idx_def vs_def vi_def if_False)
  then have "getPrefixSum_internal s index = (s', Some (u32 (prefix_total vs (Suc (nat idx)))))"
    using fill idx by (simp add: ps_def)
  ultimately show thesis
    using that [of s'] idx by (auto simp: s'_def vs_def idx_def)
qed

lemma getTotalSum_correct:
  assumes "psc_inv s"
  obtains s' where "PrefixSumComputer_getTotalSum s = (s', Some (u32 (sum_list (values s))))"
    "psc_inv s'" "values s' = values s" "prefixSumValidIndex s' = int (length (values s)) - 1"
proof (cases "values s = []")
  case True
  then show thesis
    using that [of s] assms by (simp add: PrefixSumComputer_getTotalSum_def psc_inv_def)
next
  case False
  then have pos: "0 \<le> int (length (values s)) - 1"
    by (cases "values s") auto
  obtain s' where s': "getPrefixSum_internal s (int (length (values s)) - 1) =
      (s', Some (u32 (prefix_total (values s) (nat (int (length (values s)) - 1) + 1))))"
    "psc_inv s'" "values s' = values s" "int (length (values s)) - 1 \<le> prefixSumValidIndex s'"
    using getPrefixSum_internal_correct [OF assms False pos] by auto
  moreover have "nat (int (length (values s)) - 1) + 1 = length (values s)"
    using False by (cases "values s") auto
  moreover have "prefixSumValidIndex s' < int (length (values s))"
    using s'(2,3) by (simp add: psc_inv_def)
  ultimately show thesis
    using that [of s'] False by (simp add: PrefixSumComputer_getTotalSum_def prefix_total_all)
qed

section \<open>Locating a sum\<close>

text \<open>The unique index whose share of the total contains \<open>target\<close>.\<close>

definition index_of_sum :: "int list \<Rightarrow> int \<Rightarrow> int \<Rightarrow> bool" where
  "index_of_sum vs target i \<longleftrightarrow> 0 \<le> i \<and> i < int (length vs) \<and>
     prefix_total vs (nat i) \<le> target \<and> target < prefix_total vs (nat i + 1)"

lemma index_of_sum_unique:
  assumes "\<forall>v \<in> set vs. 0 \<le> v" "index_of_sum vs t i" "index_of_sum vs t j"
  shows "i = j"
proof (rule ccontr)
  assume "i \<noteq> j"
  have less: False if "a < b" "index_of_sum vs t a" "index_of_sum vs t b" for a b
  proof -
    have "nat a + 1 \<le> nat b"
      using that by (auto simp: index_of_sum_def)
    from prefix_total_mono [OF assms(1) this] show False
      using that(2,3) by (simp add: index_of_sum_def)
  qed
  show False
    using \<open>i \<noteq> j\<close> assms(2,3) less [of i j] less [of j i] by linarith
qed

lemma getIndexOf_loop_correct:
  assumes len: "length ps = length vs" "length vs < 2147483648"
    and ps: "\<forall>i < length vs. ps ! i = prefix_total vs (Suc i)" and nonneg: "\<forall>v \<in> set vs. 0 \<le> v"
    and bounds: "0 \<le> low" "high < int (length vs)"
      "prefix_total vs (nat low) \<le> target" "target < prefix_total vs (nat (high + 1))" "-1 \<le> high"
  shows "\<exists>i. getIndexOf_loop vs ps target low high mid0 midStart0 = Some (i, prefix_total vs (nat i)) \<and>
             index_of_sum vs target i"
  using bounds
proof (induction "nat (high + 1 - low)" arbitrary: low high mid0 midStart0 rule: less_induct)
  case less
  have lh: "low \<le> high"
    using prefix_total_mono [OF nonneg, of "nat (high + 1)" "nat low"] less.prems by linarith
  define mid where "mid = low + (high - low) div 2"
  have mid: "low \<le> mid" "mid \<le> high" "0 \<le> mid"
    using lh less.prems(1) by (auto simp: mid_def)
  have conv: "toInt32 mid = mid"
    using mid less.prems(2) len(2) by simp
  have step: "ps ! nat mid = prefix_total vs (nat mid + 1)"
    "prefix_total vs (Suc (nat mid)) - vs ! nat mid = prefix_total vs (nat mid)"
    using ps mid less.prems(2) prefix_total_Suc [of "nat mid" vs] by auto
  note unfold = getIndexOf_loop.simps [of vs ps target low high mid0 midStart0, folded mid_def, unfolded conv Let_def]
  consider "target < prefix_total vs (nat mid)" | "prefix_total vs (nat mid + 1) \<le> target"
    | "prefix_total vs (nat mid) \<le> target" "target < prefix_total vs (nat mid + 1)"
    by linarith
  then show ?case
  proof cases
    case 1
    then have "target < prefix_total vs (nat (mid - 1 + 1))"
      by simp
    with less.hyps [of "mid - 1" low] less.prems mid show ?thesis
      using 1 lh by (simp add: unfold step)
  next
    case 2
    then have "prefix_total vs (nat (mid + 1)) \<le> target"
      using mid by (simp add: nat_add_distrib)
    moreover have "\<not> target < prefix_total vs (nat mid)"
      using 2 prefix_total_mono [OF nonneg, of "nat mid" "nat mid + 1"] by linarith
    ultimately show ?thesis
      using less.hyps [of high "mid + 1"] less.prems mid 2 lh by (simp add: unfold step)
  next
    case 3
    then show ?thesis
      using lh mid less.prems(2) by (auto simp: unfold step index_of_sum_def)
  qed
qed

lemma getIndexOf_correct:
  assumes inv: "psc_inv s" and target: "0 \<le> target" "target < sum_list (values s)"
    and small: "sum_list (values s) < 4294967296"
  obtains s' i where "PrefixSumComputer_getIndexOf s target = (s', Some (i, target - prefix_total (values s) (nat i)))"
    "psc_inv s'" "values s' = values s" "index_of_sum (values s) target i"
proof -
  obtain s' where s': "PrefixSumComputer_getTotalSum s = (s', Some (u32 (sum_list (values s))))"
    "psc_inv s'" "values s' = values s" "prefixSumValidIndex s' = int (length (values s)) - 1"
    using getTotalSum_correct [OF inv] .
  have nonneg: "\<forall>v \<in> set (values s). 0 \<le> v"
    using inv by (simp add: psc_inv_def)
  have "prefix_total (values s) n \<le> sum_list (values s)" for n
    using prefix_total_mono [OF nonneg, of n "max n (length (values s))"] by (simp add: prefix_total_all)
  then have "u32 (prefix_total (values s) n) = prefix_total (values s) n" for n
    using small prefix_total_nonneg [OF nonneg, of n] by (intro u32_id) (auto intro: le_less_trans)
  then have ps: "\<forall>i < length (values s). prefixSum s' ! i = prefix_total (values s) (Suc i)"
    using s'(2-4) by (simp add: psc_inv_def)
  obtain i where "getIndexOf_loop (values s) (prefixSum s') target 0 (int (length (values s)) - 1) 0 0 =
      Some (i, prefix_total (values s) (nat i))" "index_of_sum (values s) target i"
    using getIndexOf_loop_correct [OF _ _ ps nonneg, of 0 "int (length (values s)) - 1" target 0 0] s'(2,3) target
    by (auto simp: psc_inv_def prefix_total_all)
  then show thesis
    using that [of s' i] s' by (simp add: PrefixSumComputer_getIndexOf_def)
qed

section \<open>ConstantTimePrefixSumComputer\<close>

text \<open>
  JavaScript arrays grow on a write beyond their end; the entries skipped are \<open>undefined\<close>.  The
  values are non-negative counts, the index array holds optional indices.
\<close>

definition js_array_set :: "'a option list \<Rightarrow> nat \<Rightarrow> 'a \<Rightarrow> 'a option list" where
  "js_array_set xs i v =
     (if i < length xs then xs[i := Some v] else xs @ replicate (i - length xs) None @ [Some v])"

definition js_array_trim :: "'a option list \<Rightarrow> nat \<Rightarrow> 'a option list" where
  "js_array_trim xs n = take n xs @ replicate (n - length xs) None"

record constantTimePrefixSumComputer =
  ct_values :: "nat list"
  ct_isValid :: bool
  ct_validEndIndex :: int
  ct_prefixSum :: "nat option list"
  ct_indexBySum :: "nat option list"

definition new_ConstantTimePrefixSumComputer :: "nat list \<Rightarrow> constantTimePrefixSumComputer" where
  "new_ConstantTimePrefixSumComputer vs =
     \<lparr>ct_values = vs, ct_isValid = False, ct_validEndIndex = -1, ct_prefixSum = [], ct_indexBySum = []\<rparr>"

text \<open>The inner loop of \<open>_ensureValid\<close>: \<open>_indexBySum[sumAbove + j] = i\<close> for \<open>j\<close> below \<open>value\<close>.\<close>

fun fill_index :: "nat option list \<Rightarrow> nat \<Rightarrow> nat \<Rightarrow> nat \<Rightarrow> nat option list" where
  "fill_index ibs sumAbove i 0 = ibs"
| "fill_index ibs sumAbove i (Suc v) = js_array_set (fill_index ibs sumAbove i v) (sumAbove + v) i"

text \<open>
  The outer loop from index \<open>i\<close>.  Reading \<open>_prefixSum[i - 1]\<close> where nothing was stored would
  give \<open>undefined\<close>; that read is the result \<open>NotANumber\<close>, which the invariant excludes.
\<close>

fun ensureValid_loop ::
  "nat list \<Rightarrow> nat \<Rightarrow> nat option list \<Rightarrow> nat option list \<Rightarrow> js_error + nat option list \<times> nat option list" where
  "ensureValid_loop [] i ps ibs = Inr (ps, ibs)"
| "ensureValid_loop (v # vs) i ps ibs =
     (case (if i > 0 then (if i - 1 < length ps then ps ! (i - 1) else None) else Some 0) of
        None \<Rightarrow> Inl NotANumber
      | Some sumAbove \<Rightarrow>
          ensureValid_loop vs (Suc i) (js_array_set ps i (sumAbove + v)) (fill_index ibs sumAbove i v))"

definition ct_ensureValid ::
  "constantTimePrefixSumComputer \<Rightarrow> js_error + constantTimePrefixSumComputer" where
  "ct_ensureValid s =
     (if ct_isValid s then Inr s
      else (let first = nat (ct_validEndIndex s + 1) in
        bind_result (ensureValid_loop (drop first (ct_values s)) first (ct_prefixSum s) (ct_indexBySum s))
          (\<lambda>(ps0, ibs0).
             let ps = js_array_trim ps0 (length (ct_values s)) in
             case (if ps = [] then None else last ps) of
               None \<Rightarrow> Inl RangeError
             | Some tot \<Rightarrow>
                 Inr (s\<lparr>ct_prefixSum := ps, ct_indexBySum := js_array_trim ibs0 tot,
                        ct_isValid := True, ct_validEndIndex := int (length (ct_values s)) - 1\<rparr>))))"

definition ct_getTotalSum :: "constantTimePrefixSumComputer \<Rightarrow> js_error + constantTimePrefixSumComputer \<times> nat" where
  "ct_getTotalSum s = bind_result (ct_ensureValid s) (\<lambda>s'. Inr (s', length (ct_indexBySum s')))"

definition ct_getPrefixSum ::
  "constantTimePrefixSumComputer \<Rightarrow> nat \<Rightarrow> js_error + constantTimePrefixSumComputer \<times> nat option" where
  "ct_getPrefixSum s cnt =
     bind_result (ct_ensureValid s) (\<lambda>s'.
       Inr (s', if cnt = 0 then Some 0
                else if cnt - 1 < length (ct_prefixSum s') then ct_prefixSum s' ! (cnt - 1) else None))"

text \<open>\<open>getIndexOf\<close> with an index that was never stored computes with \<open>undefined\<close>: the result is \<open>None\<close>.\<close>

definition ct_getIndexOf ::
  "constantTimePrefixSumComputer \<Rightarrow> nat \<Rightarrow> js_error + constantTimePrefixSumComputer \<times> (nat \<times> int) option" where
  "ct_getIndexOf s target =
     bind_result (ct_ensureValid s) (\<lambda>s'.
       Inr (s', case (if target < length (ct_indexBySum s') then ct_indexBySum s' ! target else None) of
                  None \<Rightarrow> None
                | Some idx \<Rightarrow>
                    (case (if idx > 0 then ct_prefixSum s' ! (idx - 1) else Some 0) of
                       None \<Rightarrow> None
                     | Some viewLinesAbove \<Rightarrow> Some (idx, int target - int viewLinesAbove))))"

definition ct_invalidate :: "constantTimePrefixSumComputer \<Rightarrow> int \<Rightarrow> constantTimePrefixSumComputer" where
  "ct_invalidate s index = s\<lparr>ct_isValid := False, ct_validEndIndex := min (ct_validEndIndex s) (index - 1)\<rparr>"

definition ct_removeValues :: "constantTimePrefixSumComputer \<Rightarrow> nat \<Rightarrow> nat \<Rightarrow> constantTimePrefixSumComputer" where
  "ct_removeValues s st deleteCount =
     ct_invalidate (s\<lparr>ct_values := js_splice (ct_values s) st deleteCount []\<rparr>) (int st)"

text \<open>\<open>arrayInsert\<close> of \<open>src/vs/base/common/arrays.ts\<close>.\<close>

definition arrayInsert :: "'a list \<Rightarrow> nat \<Rightarrow> 'a list \<Rightarrow> 'a list" where
  "arrayInsert target insertIndex insertArr = take insertIndex target @ insertArr @ drop insertIndex target"

definition ct_insertValues :: "constantTimePrefixSumComputer \<Rightarrow> nat \<Rightarrow> nat list \<Rightarrow> constantTimePrefixSumComputer" where
  "ct_insertValues s insertIndex insertArr =
     ct_invalidate (s\<lparr>ct_values := arrayInsert (ct_values s) insertIndex insertArr\<rparr>) (int insertIndex)"

text \<open>
  \<open>setValue\<close> for an index of the array or just past its end; beyond that the write would leave
  \<open>undefined\<close> entries among the values, which the model does not represent (\<open>None\<close>).
\<close>

definition ct_setValue ::
  "constantTimePrefixSumComputer \<Rightarrow> nat \<Rightarrow> nat \<Rightarrow> constantTimePrefixSumComputer option" where
  "ct_setValue s index v =
     (if index < length (ct_values s) \<and> ct_values s ! index = v then Some s
      else if index < length (ct_values s)
      then Some (ct_invalidate (s\<lparr>ct_values := (ct_values s)[index := v]\<rparr>) (int index))
      else if index = length (ct_values s)
      then Some (ct_invalidate (s\<lparr>ct_values := ct_values s @ [v]\<rparr>) (int index))
      else None)"

section \<open>The index by sum is complete after \<open>_ensureValid\<close>\<close>

definition located :: "nat list \<Rightarrow> nat \<Rightarrow> nat \<Rightarrow> bool" where
  "located vs t i \<longleftrightarrow> i < length vs \<and> sum_list (take i vs) \<le> t \<and> t < sum_list (take (Suc i) vs)"

definition ps_ok :: "nat list \<Rightarrow> nat \<Rightarrow> nat option list \<Rightarrow> bool" where
  "ps_ok vs n ps \<longleftrightarrow> (\<forall>j < n. j < length ps \<and> ps ! j = Some (sum_list (take (Suc j) vs)))"

definition ibs_ok :: "nat list \<Rightarrow> nat \<Rightarrow> nat option list \<Rightarrow> bool" where
  "ibs_ok vs n ibs \<longleftrightarrow>
     (\<forall>t < sum_list (take n vs). t < length ibs \<and> (\<exists>i < n. ibs ! t = Some i \<and> located vs t i))"

definition ct_inv :: "constantTimePrefixSumComputer \<Rightarrow> bool" where
  "ct_inv s \<longleftrightarrow>
     -1 \<le> ct_validEndIndex s \<and> ct_validEndIndex s < int (length (ct_values s)) \<and>
     ps_ok (ct_values s) (nat (ct_validEndIndex s + 1)) (ct_prefixSum s) \<and>
     ibs_ok (ct_values s) (nat (ct_validEndIndex s + 1)) (ct_indexBySum s) \<and>
     (ct_isValid s \<longrightarrow>
        ct_values s \<noteq> [] \<and> ct_validEndIndex s = int (length (ct_values s)) - 1 \<and>
        length (ct_prefixSum s) = length (ct_values s) \<and>
        length (ct_indexBySum s) = sum_list (ct_values s))"

lemma length_js_array_set: "length (js_array_set xs i v) = max (length xs) (Suc i)"
  by (simp add: js_array_set_def)

lemma nth_js_array_set:
  "j < length xs \<or> j = i \<Longrightarrow> js_array_set xs i v ! j = (if j = i then Some v else xs ! j)"
  by (auto simp: js_array_set_def nth_append)

lemma fill_index_correct:
  assumes "sa \<le> length ibs"
  shows "length (fill_index ibs sa i v) = max (length ibs) (sa + v) \<and>
         (\<forall>t < max (length ibs) (sa + v). fill_index ibs sa i v ! t =
            (if sa \<le> t \<and> t < sa + v then Some i else ibs ! t))"
  using assms
proof (induction v)
  case (Suc v)
  then show ?case
    by (auto simp: length_js_array_set nth_js_array_set less_Suc_eq)
qed auto

lemma sum_list_take_mono: "m \<le> n \<Longrightarrow> sum_list (take m vs) \<le> sum_list (take n vs)" for vs :: "nat list"
  by (metis le_add1 le_add_diff_inverse sum_list_append take_add)

lemma ensureValid_step:
  assumes "i < length vs" "ps_ok vs i ps" "ibs_ok vs i ibs"
  shows "ps_ok vs (Suc i) (js_array_set ps i (sum_list (take i vs) + vs ! i))"
    and "ibs_ok vs (Suc i) (fill_index ibs (sum_list (take i vs)) i (vs ! i))"
proof -
  let ?sa = "sum_list (take i vs)"
  have suc: "sum_list (take (Suc i) vs) = ?sa + vs ! i"
    using assms(1) by (simp add: take_Suc_conv_app_nth)
  show "ps_ok vs (Suc i) (js_array_set ps i (?sa + vs ! i))"
    using assms(2) by (auto simp: ps_ok_def length_js_array_set nth_js_array_set suc less_Suc_eq)
  have len: "?sa \<le> length ibs"
    using assms(3) unfolding ibs_ok_def by (meson less_irrefl not_le)
  show "ibs_ok vs (Suc i) (fill_index ibs ?sa i (vs ! i))"
    unfolding ibs_ok_def
  proof (intro allI impI)
    fix t assume t: "t < sum_list (take (Suc i) vs)"
    show "t < length (fill_index ibs ?sa i (vs ! i)) \<and>
      (\<exists>j < Suc i. fill_index ibs ?sa i (vs ! i) ! t = Some j \<and> located vs t j)"
    proof (cases "?sa \<le> t")
      case True
      then show ?thesis
        using t suc assms(1) fill_index_correct [OF len, of i "vs ! i"] by (auto simp: located_def)
    next
      case False
      then have "t < ?sa"
        by simp
      with assms(3) obtain j where "t < length ibs" "j < i" "ibs ! t = Some j" "located vs t j"
        unfolding ibs_ok_def by blast
      then show ?thesis
        using False fill_index_correct [OF len, of i "vs ! i"] by auto
    qed
  qed
qed

lemma ensureValid_loop_correct:
  assumes "i \<le> length vs" "ps_ok vs i ps" "ibs_ok vs i ibs"
  shows "\<exists>ps' ibs'. ensureValid_loop (drop i vs) i ps ibs = Inr (ps', ibs') \<and>
                   ps_ok vs (length vs) ps' \<and> ibs_ok vs (length vs) ibs'"
  using assms
proof (induction "length vs - i" arbitrary: i ps ibs)
  case (Suc n)
  then have i: "i < length vs" and d: "drop i vs = vs ! i # drop (Suc i) vs"
    by (simp_all add: Cons_nth_drop_Suc)
  have above: "(if i > 0 then (if i - 1 < length ps then ps ! (i - 1) else None) else Some 0) =
      Some (sum_list (take i vs))"
    using Suc.prems(2) by (cases i) (auto simp: ps_ok_def)
  note step = ensureValid_step [OF i Suc.prems(2,3)]
  have "\<exists>ps' ibs'. ensureValid_loop (drop (Suc i) vs) (Suc i)
      (js_array_set ps i (sum_list (take i vs) + vs ! i))
      (fill_index ibs (sum_list (take i vs)) i (vs ! i)) = Inr (ps', ibs') \<and>
      ps_ok vs (length vs) ps' \<and> ibs_ok vs (length vs) ibs'"
    using Suc.hyps i by (intro Suc.hyps(1) step) auto
  then show ?case
    by (simp add: d above)
qed simp

lemma js_array_trim_nth: "i < n \<Longrightarrow> i < length xs \<Longrightarrow> js_array_trim xs n ! i = xs ! i"
  by (simp add: js_array_trim_def nth_append)

lemma length_js_array_trim [simp]: "length (js_array_trim xs n) = n"
  by (simp add: js_array_trim_def)

lemma ct_ensureValid_correct:
  assumes inv: "ct_inv s" and ne: "ct_values s \<noteq> []"
  obtains s' where "ct_ensureValid s = Inr s'" "ct_inv s'" "ct_isValid s'" "ct_values s' = ct_values s"
proof (cases "ct_isValid s")
  case True
  then show thesis
    using that inv by (simp add: ct_ensureValid_def)
next
  case False
  let ?vs = "ct_values s" and ?i = "nat (ct_validEndIndex s + 1)"
  have "?i \<le> length ?vs"
    using inv by (auto simp: ct_inv_def)
  then obtain ps ibs where loop: "ensureValid_loop (drop ?i ?vs) ?i (ct_prefixSum s) (ct_indexBySum s) = Inr (ps, ibs)"
    and ok: "ps_ok ?vs (length ?vs) ps" "ibs_ok ?vs (length ?vs) ibs"
    using ensureValid_loop_correct [of ?i ?vs "ct_prefixSum s" "ct_indexBySum s"] inv
    by (auto simp: ct_inv_def)
  have pos: "0 < length ?vs"
    using ne by simp
  have trim: "js_array_trim ps (length ?vs) \<noteq> []"
    using pos by (metis length_0_conv length_js_array_trim less_numeral_extra(3))
  then have "last (js_array_trim ps (length ?vs)) = Some (sum_list ?vs)"
    using ok(1) pos by (simp add: last_conv_nth js_array_trim_nth ps_ok_def)
  then have "ct_ensureValid s = Inr (s\<lparr>ct_prefixSum := js_array_trim ps (length ?vs),
      ct_indexBySum := js_array_trim ibs (sum_list ?vs), ct_isValid := True,
      ct_validEndIndex := int (length ?vs) - 1\<rparr>)" (is "_ = Inr ?s'")
    using False loop trim by (simp add: ct_ensureValid_def Let_def)
  moreover have "ct_inv ?s'"
    using ok pos ne by (auto simp: ct_inv_def ps_ok_def ibs_ok_def js_array_trim_nth)
  ultimately show thesis
    using that by simp
qed

lemma ct_getIndexOf_correct:
  assumes "ct_inv s" "t < sum_list (ct_values s)"
  obtains s' i where "ct_getIndexOf s t = Inr (s', Some (i, int t - int (sum_list (take i (ct_values s)))))"
    "ct_inv s'" "ct_values s' = ct_values s" "located (ct_values s) t i"
proof -
  have "ct_values s \<noteq> []"
    using assms(2) by auto
  then obtain s' where s': "ct_ensureValid s = Inr s'" "ct_inv s'" "ct_isValid s'" "ct_values s' = ct_values s"
    using ct_ensureValid_correct [OF assms(1)] by blast
  have all: "nat (ct_validEndIndex s' + 1) = length (ct_values s)"
    using s' by (simp add: ct_inv_def)
  then obtain i where i: "t < length (ct_indexBySum s')" "ct_indexBySum s' ! t = Some i" "located (ct_values s) t i"
    using s' assms(2) by (auto simp: ct_inv_def ibs_ok_def)
  then have "(if i > 0 then ct_prefixSum s' ! (i - 1) else Some 0) = Some (sum_list (take i (ct_values s)))"
    using s' all by (cases i) (auto simp: ct_inv_def ps_ok_def located_def)
  then show thesis
    using that s' i by (simp add: ct_getIndexOf_def)
qed

text \<open>Every mutation keeps the entries below the changed index.\<close>

lemma ct_invalidate_inv:
  assumes inv: "ct_inv s" and same: "take k vs = take k (ct_values s)" and k: "k \<le> length (ct_values s)"
  shows "ct_inv (ct_invalidate (s\<lparr>ct_values := vs\<rparr>) (int k))"
proof -
  define n where "n = nat (min (ct_validEndIndex s) (int k - 1) + 1)"
  have n: "n \<le> k" "n \<le> nat (ct_validEndIndex s + 1)"
    by (auto simp: n_def)
  have "k \<le> length vs"
    using same k by (metis length_take min.absorb2 min.cobounded1)
  have take: "take m vs = take m (ct_values s)" if "m \<le> n" for m
    using same n(1) that by (metis le_trans min.absorb1 take_take)
  have "ps_ok vs n (ct_prefixSum s)"
    using inv n take by (auto simp: ct_inv_def ps_ok_def Suc_le_eq)
  moreover have "located vs t i" if "located (ct_values s) t i" "i < n" for t i
    using that take [of i] take [of "Suc i"] n(1) \<open>k \<le> length vs\<close> by (auto simp: located_def)
  moreover have "i < n" if "t < sum_list (take n (ct_values s))" "located (ct_values s) t i" for t i
    using that sum_list_take_mono [of n i "ct_values s"] by (cases "i < n") (auto simp: located_def)
  ultimately have "ps_ok vs n (ct_prefixSum s) \<and> ibs_ok vs n (ct_indexBySum s)"
    using inv n(2) take [of n] sum_list_take_mono [OF n(2), of "ct_values s"]
    by (auto simp: ct_inv_def ibs_ok_def) (meson less_le_trans)+
  then show ?thesis
    using inv k \<open>k \<le> length vs\<close> by (auto simp: ct_inv_def ct_invalidate_def n_def)
qed

section \<open>The contract of a sum index\<close>

text \<open>
  What the view model relies on: looking a sum up answers with the entry whose share contains it
  and the remainder inside that entry.  From this the lookup is the inverse of prefix sums.
\<close>

locale sum_index =
  fixes contents :: "'s \<Rightarrow> int list" and inv :: "'s \<Rightarrow> bool"
    and locate :: "'s \<Rightarrow> int \<Rightarrow> ('s \<times> int \<times> int) option"
  assumes contents_nonneg: "inv s \<Longrightarrow> \<forall>v \<in> set (contents s). 0 \<le> v"
    and locate_ok: "inv s \<Longrightarrow> 0 \<le> t \<Longrightarrow> t < sum_list (contents s) \<Longrightarrow>
      \<exists>s' i. locate s t = Some (s', i, t - prefix_total (contents s) (nat i)) \<and>
             inv s' \<and> contents s' = contents s \<and> index_of_sum (contents s) t i"
begin

lemma locate_inverse:
  assumes "inv s" "i < length (contents s)" "0 \<le> r" "r < contents s ! i"
  shows "\<exists>s'. locate s (prefix_total (contents s) i + r) = Some (s', int i, r) \<and>
              inv s' \<and> contents s' = contents s"
proof -
  note nonneg = contents_nonneg [OF assms(1)]
  let ?t = "prefix_total (contents s) i + r"
  have here: "index_of_sum (contents s) ?t (int i)"
    using assms by (simp add: index_of_sum_def prefix_total_Suc)
  have "prefix_total (contents s) (Suc i) \<le> sum_list (contents s)"
    using prefix_total_mono [OF nonneg, of "Suc i" "length (contents s)"] assms(2)
    by (simp add: prefix_total_all)
  then have "?t < sum_list (contents s)" "0 \<le> ?t"
    using assms prefix_total_nonneg [OF nonneg, of i] by (simp_all add: prefix_total_Suc)
  then obtain s' j where j: "locate s ?t = Some (s', j, ?t - prefix_total (contents s) (nat j))"
    "inv s'" "contents s' = contents s" "index_of_sum (contents s) ?t j"
    using locate_ok [OF assms(1)] by blast
  have "j = int i"
    by (rule index_of_sum_unique [OF nonneg j(4) here])
  with j show ?thesis
    by simp
qed

end

definition psc_small_inv :: "prefixSumComputer \<Rightarrow> bool" where
  "psc_small_inv s \<longleftrightarrow> psc_inv s \<and> sum_list (values s) < 4294967296"

definition psc_locate :: "prefixSumComputer \<Rightarrow> int \<Rightarrow> (prefixSumComputer \<times> int \<times> int) option" where
  "psc_locate s t = (case PrefixSumComputer_getIndexOf s t of (s', r) \<Rightarrow> map_option (Pair s') r)"

definition ct_contents :: "constantTimePrefixSumComputer \<Rightarrow> int list" where
  "ct_contents s = map int (ct_values s)"

definition ct_locate ::
  "constantTimePrefixSumComputer \<Rightarrow> int \<Rightarrow> (constantTimePrefixSumComputer \<times> int \<times> int) option" where
  "ct_locate s t = (case ct_getIndexOf s (nat t) of
     Inr (s', Some (i, r)) \<Rightarrow> Some (s', int i, r) | _ \<Rightarrow> None)"

lemma sum_list_map_int: "sum_list (map int vs) = int (sum_list vs)"
  by (induction vs) simp_all

lemma prefix_total_map_int: "prefix_total (map int vs) n = int (sum_list (take n vs))"
  by (simp add: prefix_total_def take_map sum_list_map_int)

interpretation psc: sum_index "values" psc_small_inv psc_locate
proof
  fix s :: prefixSumComputer and t :: int
  assume inv: "psc_small_inv s"
  then show "\<forall>v \<in> set (values s). 0 \<le> v"
    by (simp add: psc_small_inv_def psc_inv_def)
  assume "0 \<le> t" "t < sum_list (values s)"
  with inv obtain s' i where
    "PrefixSumComputer_getIndexOf s t = (s', Some (i, t - prefix_total (values s) (nat i)))"
    "psc_inv s'" "values s' = values s" "index_of_sum (values s) t i"
    using getIndexOf_correct [of s t] by (auto simp: psc_small_inv_def)
  then show "\<exists>s' i. psc_locate s t = Some (s', i, t - prefix_total (values s) (nat i)) \<and>
      psc_small_inv s' \<and> values s' = values s \<and> index_of_sum (values s) t i"
    using inv by (auto simp: psc_locate_def psc_small_inv_def)
qed

interpretation ctp: sum_index ct_contents ct_inv ct_locate
proof
  fix s :: constantTimePrefixSumComputer and t :: int
  show "\<forall>v \<in> set (ct_contents s). 0 \<le> v"
    by (auto simp: ct_contents_def)
  assume inv: "ct_inv s" and t: "0 \<le> t" "t < sum_list (ct_contents s)"
  then have "nat t < sum_list (ct_values s)"
    by (simp add: ct_contents_def sum_list_map_int)
  then obtain s' i where
    "ct_getIndexOf s (nat t) = Inr (s', Some (i, int (nat t) - int (sum_list (take i (ct_values s)))))"
    "ct_inv s'" "ct_values s' = ct_values s" "located (ct_values s) (nat t) i"
    using ct_getIndexOf_correct [OF inv] by blast
  then show "\<exists>s' i. ct_locate s t = Some (s', i, t - prefix_total (ct_contents s) (nat i)) \<and>
      ct_inv s' \<and> ct_contents s' = ct_contents s \<and> index_of_sum (ct_contents s) t i"
    using t by (auto simp: ct_locate_def ct_contents_def prefix_total_map_int index_of_sum_def located_def
        nat_le_iff intro!: exI [of _ s'] exI [of _ "int i"])
qed

section \<open>Properties\<close>

text \<open>The client's view of \<open>PrefixSumComputer\<close>: a list of values and the operations on it.\<close>

datatype psc_op = InsertValues int "int list" | SetValue int int | RemoveValues int int
  | GetPrefixSum int | GetTotalSum

fun psc_exec :: "prefixSumComputer \<Rightarrow> psc_op \<Rightarrow> js_error + prefixSumComputer" where
  "psc_exec s (InsertValues i vs) = map_sum id fst (PrefixSumComputer_insertValues s i vs)"
| "psc_exec s (SetValue i v) = Inr (fst (PrefixSumComputer_setValue s i v))"
| "psc_exec s (RemoveValues i c) = map_sum id fst (PrefixSumComputer_removeValues s i c)"
| "psc_exec s (GetPrefixSum i) = Inr (fst (PrefixSumComputer_getPrefixSum s i))"
| "psc_exec s GetTotalSum = Inr (fst (PrefixSumComputer_getTotalSum s))"

fun psc_run :: "prefixSumComputer \<Rightarrow> psc_op list \<Rightarrow> js_error + prefixSumComputer" where
  "psc_run s [] = Inr s"
| "psc_run s (op # ops) = bind_result (psc_exec s op) (\<lambda>s'. psc_run s' ops)"

fun psc_spec :: "int list \<Rightarrow> psc_op \<Rightarrow> int list" where
  "psc_spec xs (InsertValues i vs) = take (nat i) xs @ vs @ drop (nat i) xs"
| "psc_spec xs (SetValue i v) = xs[nat i := v]"
| "psc_spec xs (RemoveValues i c) = take (nat i) xs @ drop (nat (i + c)) xs"
| "psc_spec xs _ = xs"

fun psc_legal :: "int list \<Rightarrow> psc_op \<Rightarrow> bool" where
  "psc_legal xs (InsertValues i vs) \<longleftrightarrow> 0 \<le> i \<and> i \<le> int (length xs) \<and> length xs + length vs < 2147483648 \<and>
     (\<forall>v \<in> set vs. 0 \<le> v \<and> v < 4294967296)"
| "psc_legal xs (SetValue i v) \<longleftrightarrow> 0 \<le> i \<and> i < int (length xs) \<and> 0 \<le> v \<and> v < 2147483648"
| "psc_legal xs (RemoveValues i c) \<longleftrightarrow> 0 \<le> i \<and> i < int (length xs) \<and> 0 \<le> c \<and> c < 2147483648"
| "psc_legal xs (GetPrefixSum i) \<longleftrightarrow> i < 2147483648 \<and> xs \<noteq> []"
| "psc_legal xs GetTotalSum \<longleftrightarrow> True"

fun psc_legal_run :: "int list \<Rightarrow> psc_op list \<Rightarrow> bool" where
  "psc_legal_run xs [] = True"
| "psc_legal_run xs (op # ops) \<longleftrightarrow> psc_legal xs op \<and> psc_legal_run (psc_spec xs op) ops"

lemma psc_exec_correct:
  assumes inv: "psc_inv s" and legal: "psc_legal (values s) op"
  shows "\<exists>s'. psc_exec s op = Inr s' \<and> psc_inv s' \<and> values s' = psc_spec (values s) op"
proof (cases op)
  case (InsertValues i vs)
  show ?thesis
  proof (cases "vs = []")
    case True
    then show ?thesis
      using inv InsertValues by (simp add: PrefixSumComputer_insertValues_def)
  next
    case False
    with legal InsertValues show ?thesis
      by (auto elim!: insertValues_correct [OF inv, of i vs])
  qed
next
  case (SetValue i v)
  with legal show ?thesis
    by (auto elim!: setValue_correct [OF inv, of i v])
next
  case (RemoveValues i c)
  show ?thesis
  proof (cases "c = 0")
    case True
    then show ?thesis
      using inv legal RemoveValues by (auto simp: PrefixSumComputer_removeValues_def Let_def)
  next
    case False
    with legal RemoveValues show ?thesis
      by (auto elim!: removeValues_correct [OF inv, of i c])
  qed
next
  case (GetPrefixSum i)
  with legal inv show ?thesis
    by (cases "i < 0") (auto simp: PrefixSumComputer_getPrefixSum_def elim!: getPrefixSum_internal_correct [OF inv, of i])
next
  case GetTotalSum
  obtain s' where "PrefixSumComputer_getTotalSum s = (s', Some (u32 (sum_list (values s))))"
    "psc_inv s'" "values s' = values s"
    using getTotalSum_correct [OF inv] by blast
  with GetTotalSum show ?thesis
    by simp
qed

lemma psc_run_correct:
  assumes "psc_inv s" "psc_legal_run (values s) ops"
  shows "\<exists>s'. psc_run s ops = Inr s' \<and> psc_inv s' \<and> values s' = foldl psc_spec (values s) ops"
  using assms
proof (induction ops arbitrary: s)
  case (Cons op ops)
  then obtain s1 where "psc_exec s op = Inr s1" "psc_inv s1" "values s1 = psc_spec (values s) op"
    using psc_exec_correct [of s op] by auto
  with Cons.IH [of s1] Cons.prems show ?case
    by simp
qed simp

text \<open>
  C39. \<open>PrefixSumComputer\<close> refines a list: after any run of in-range operations on a new computer
  no exception was thrown, the stored values are those of the list operations, and
  \<open>getPrefixSum\<close> and \<open>getTotalSum\<close> return the sums of that list modulo \<open>2 ^ 32\<close>, whatever
  part of the cache earlier reads had filled.
\<close>

theorem PrefixSumComputer_refines_list:
  assumes "\<forall>v \<in> set vs. 0 \<le> v \<and> v < 4294967296" "length vs < 2147483648" "psc_legal_run vs ops"
  shows "\<exists>s. psc_run (new_PrefixSumComputer vs) ops = Inr s \<and> values s = foldl psc_spec vs ops \<and>
             snd (PrefixSumComputer_getTotalSum s) = Some (u32 (sum_list (foldl psc_spec vs ops))) \<and>
             (\<forall>i. 0 \<le> i \<and> i < int (length (values s)) \<longrightarrow>
                  snd (PrefixSumComputer_getPrefixSum s i) = Some (u32 (prefix_total (values s) (nat i + 1))))"
proof -
  obtain s where s: "psc_run (new_PrefixSumComputer vs) ops = Inr s" "psc_inv s" "values s = foldl psc_spec vs ops"
    using psc_run_correct [of "new_PrefixSumComputer vs" ops] assms psc_inv_new [OF assms(1,2)]
    by (auto simp: new_PrefixSumComputer_def)
  have "snd (PrefixSumComputer_getPrefixSum s i) = Some (u32 (prefix_total (values s) (nat i + 1)))"
    if i: "0 \<le> i" "i < int (length (values s))" for i
  proof -
    have "toUint32 i = i"
      using i s(2) by (simp add: psc_inv_def)
    moreover have "values s \<noteq> []"
      using i by auto
    ultimately show ?thesis
      using i by (auto simp: PrefixSumComputer_getPrefixSum_def elim!: getPrefixSum_internal_correct [OF s(2), of i])
  qed
  moreover obtain s' where "PrefixSumComputer_getTotalSum s = (s', Some (u32 (sum_list (values s))))"
    using getTotalSum_correct [OF s(2)] by blast
  ultimately show ?thesis
    using s by simp
qed

theorem PrefixSumComputer_refines_list_witness:
  "\<exists>s. psc_run (new_PrefixSumComputer [3, 1, 4]) [GetTotalSum, SetValue 1 5, InsertValues 3 [9], RemoveValues 0 1] = Inr s \<and>
       snd (PrefixSumComputer_getTotalSum s) = Some (u32 18)"
proof -
  have "psc_legal_run [3, 1, 4] [GetTotalSum, SetValue 1 5, InsertValues 3 [9], RemoveValues 0 1]"
    by simp
  from PrefixSumComputer_refines_list [OF _ _ this] show ?thesis
    by auto
qed

text \<open>
  \<open>getIndexOf\<close> terminates and inverts prefix sums: a position inside the share of entry \<open>i\<close>
  is answered with index \<open>i\<close> and the offset into that entry, as long as the sums fit 32 bits.
\<close>

theorem PrefixSumComputer_getIndexOf_inverse:
  assumes "psc_inv s" "sum_list (values s) < 4294967296"
    and "i < length (values s)" "0 \<le> r" "r < values s ! i"
  shows "snd (PrefixSumComputer_getIndexOf s (prefix_total (values s) i + r)) = Some (int i, r)"
  using psc.locate_inverse [of s i r] assms
  by (auto simp: psc_small_inv_def psc_locate_def split: prod.splits)

theorem PrefixSumComputer_getIndexOf_inverse_witness:
  "snd (PrefixSumComputer_getIndexOf (new_PrefixSumComputer [2, 0, 5]) (prefix_total [2, 0, 5] 2 + 3)) = Some (2, 3)"
  using PrefixSumComputer_getIndexOf_inverse [of "new_PrefixSumComputer [2, 0, 5]" 2 3]
    psc_inv_new [of "[2, 0, 5]"]
  by (simp add: new_PrefixSumComputer_def)

text \<open>
  The constant-time variant answers exactly like the binary search: for the same values and
  any position below the total, \<open>getIndexOf\<close> of both classes returns the same index and remainder.
\<close>

theorem constant_time_getIndexOf_equivalent:
  assumes "psc_inv s" "ct_inv c" "values s = map int (ct_values c)"
    and "sum_list (values s) < 4294967296" "t < sum_list (ct_values c)"
  shows "\<exists>s' c' i r. PrefixSumComputer_getIndexOf s (int t) = (s', Some (int i, r)) \<and>
                    ct_getIndexOf c t = Inr (c', Some (i, r)) \<and> i < length (ct_values c) \<and>
                    int (sum_list (take i (ct_values c))) + r = int t"
proof -
  have t: "0 \<le> int t" "int t < sum_list (values s)"
    using assms(3,5) by (simp_all add: sum_list_map_int)
  obtain s' i where i: "PrefixSumComputer_getIndexOf s (int t) = (s', Some (i, int t - prefix_total (values s) (nat i)))"
    "index_of_sum (values s) (int t) i"
    using getIndexOf_correct [OF assms(1) t assms(4)] by blast
  obtain c' j where j: "ct_getIndexOf c t = Inr (c', Some (j, int t - int (sum_list (take j (ct_values c)))))"
    "located (ct_values c) t j"
    using ct_getIndexOf_correct [OF assms(2,5)] by blast
  have "index_of_sum (values s) (int t) (int j)"
    using j(2) by (simp add: located_def index_of_sum_def assms(3) prefix_total_map_int)
  then have "i = int j"
    using index_of_sum_unique [OF _ i(2)] assms(3) by auto
  then show ?thesis
    using i j by (auto simp: assms(3) prefix_total_map_int located_def)
qed

theorem constant_time_getIndexOf_equivalent_witness:
  "\<exists>s' c' i r. PrefixSumComputer_getIndexOf (new_PrefixSumComputer [2, 0, 5]) (int 4) = (s', Some (int i, r)) \<and>
     ct_getIndexOf (new_ConstantTimePrefixSumComputer [2, 0, 5]) 4 = Inr (c', Some (i, r)) \<and>
     i < length (ct_values (new_ConstantTimePrefixSumComputer [2, 0, 5])) \<and>
     int (sum_list (take i (ct_values (new_ConstantTimePrefixSumComputer [2, 0, 5])))) + r = int 4"
  by (rule constant_time_getIndexOf_equivalent)
    (simp_all add: psc_inv_new new_ConstantTimePrefixSumComputer_def ct_inv_def ps_ok_def ibs_ok_def,
     simp_all add: new_PrefixSumComputer_def)

text \<open>
  Every mutation of the constant-time variant keeps its invariant, so that after it a lookup
  of any position below the new total finds the entry whose share contains the position.  On an
  empty array \<open>_ensureValid\<close> throws: it assigns \<open>undefined\<close> to \<open>length\<close>.
\<close>

theorem ConstantTimePrefixSumComputer_mutations:
  assumes "ct_inv s" "k < length (ct_values s)" "l \<le> length (ct_values s)"
  shows "ct_inv (ct_removeValues s k n) \<and> ct_values (ct_removeValues s k n) = js_splice (ct_values s) k n [] \<and>
         ct_inv (ct_insertValues s l vs) \<and>
         ct_values (ct_insertValues s l vs) = take l (ct_values s) @ vs @ drop l (ct_values s) \<and>
         (\<exists>s'. ct_setValue s k v = Some s' \<and> ct_inv s' \<and> ct_values s' = (ct_values s)[k := v]) \<and>
         (\<forall>u t. ct_inv u \<and> t < sum_list (ct_values u) \<longrightarrow>
            (\<exists>u' i. ct_getIndexOf u t = Inr (u', Some (i, int t - int (sum_list (take i (ct_values u))))) \<and>
                    ct_inv u' \<and> ct_values u' = ct_values u \<and> located (ct_values u) t i)) \<and>
         (\<forall>u. ct_values u = [] \<and> \<not> ct_isValid u \<longrightarrow> ct_ensureValid u = Inl RangeError)"
proof (intro conjI)
  show "ct_inv (ct_removeValues s k n)"
    unfolding ct_removeValues_def using assms
    by (intro ct_invalidate_inv) (simp_all add: js_splice_def)
  show "ct_inv (ct_insertValues s l vs)"
    unfolding ct_insertValues_def using assms
    by (intro ct_invalidate_inv) (simp_all add: arrayInsert_def)
  have "ct_inv (ct_invalidate (s\<lparr>ct_values := (ct_values s)[k := v]\<rparr>) (int k))"
    using assms by (intro ct_invalidate_inv) simp_all
  then show "\<exists>s'. ct_setValue s k v = Some s' \<and> ct_inv s' \<and> ct_values s' = (ct_values s)[k := v]"
    using assms by (cases "ct_values s ! k = v") (auto simp: ct_setValue_def ct_invalidate_def)
  show "\<forall>u t. ct_inv u \<and> t < sum_list (ct_values u) \<longrightarrow>
      (\<exists>u' i. ct_getIndexOf u t = Inr (u', Some (i, int t - int (sum_list (take i (ct_values u))))) \<and>
              ct_inv u' \<and> ct_values u' = ct_values u \<and> located (ct_values u) t i)"
    using ct_getIndexOf_correct by metis
  show "\<forall>u. ct_values u = [] \<and> \<not> ct_isValid u \<longrightarrow> ct_ensureValid u = Inl RangeError"
    by (auto simp: ct_ensureValid_def js_array_trim_def)
qed (simp_all add: ct_removeValues_def ct_insertValues_def ct_invalidate_def arrayInsert_def)

theorem ConstantTimePrefixSumComputer_mutations_witness:
  "ct_inv (ct_removeValues (new_ConstantTimePrefixSumComputer [2, 0, 5]) 0 2)"
proof -
  have "ct_inv (new_ConstantTimePrefixSumComputer [2, 0, 5])"
    by (simp add: new_ConstantTimePrefixSumComputer_def ct_inv_def ps_ok_def ibs_ok_def)
  from ConstantTimePrefixSumComputer_mutations [OF this, of 0 0] show ?thesis
    by (simp add: new_ConstantTimePrefixSumComputer_def)
qed

end
