(* ===== verification/Dll.thy ===== *)
theory Dll
  imports Prelude
begin

text \<open>
  Doubly linked chains on a heap.  The heap is split by field: \<open>nxt\<close> and \<open>prv\<close> map the address of
  a node to the address its field holds, \<open>None\<close> being the end marker (\<open>Node.Undefined\<close>, respectively
  \<open>undefined\<close>).  \<open>chain nxt prv b xs a\<close> says that the addresses \<open>xs\<close> are linked in both
  directions, with \<open>b\<close> before the first and \<open>a\<close> after the last.  \<open>LinkedList\<close> and \<open>LinkedMap\<close>
  are both proved against it.
\<close>

type_synonym addr = nat
type_synonym links = "addr \<Rightarrow> addr option"

definition first_of :: "addr list \<Rightarrow> addr option \<Rightarrow> addr option" where
  "first_of xs a = (case xs of [] \<Rightarrow> a | x # _ \<Rightarrow> Some x)"

definition last_of :: "addr option \<Rightarrow> addr list \<Rightarrow> addr option" where
  "last_of b xs = (if xs = [] then b else Some (last xs))"

fun chain :: "links \<Rightarrow> links \<Rightarrow> addr option \<Rightarrow> addr list \<Rightarrow> addr option \<Rightarrow> bool" where
  "chain nxt prv b [] a = True"
| "chain nxt prv b (x # xs) a \<longleftrightarrow>
     prv x = b \<and> nxt x = first_of xs a \<and> chain nxt prv (Some x) xs a"

lemma first_of_simps [simp]:
  "first_of [] a = a" "first_of (x # xs) a = Some x"
  "first_of (xs @ ys) a = first_of xs (first_of ys a)"
  by (simp_all add: first_of_def split: list.split)

lemma last_of_simps [simp]:
  "last_of b [] = b" "last_of b (xs @ [x]) = Some x"
  "last_of b (xs @ ys) = last_of (last_of b xs) ys"
  "last_of b (x # xs) = last_of (Some x) xs"
  by (simp_all add: last_of_def)

lemma first_of_eq_Some: "first_of xs None = Some x \<longleftrightarrow> (\<exists>ys. xs = x # ys)"
  by (cases xs) auto

lemma first_of_eq_None: "first_of xs None = None \<longleftrightarrow> xs = []"
  by (cases xs) auto

lemma last_of_eq_Some: "last_of None xs = Some x \<longleftrightarrow> (\<exists>ys. xs = ys @ [x])"
  by (cases xs rule: rev_cases) (auto simp: last_of_def)

lemma last_of_eq_None: "last_of None xs = None \<longleftrightarrow> xs = []"
  by (simp add: last_of_def)

lemma first_of_Some [simp]: "first_of xs (Some a) \<noteq> None" "\<exists>y. first_of xs (Some a) = Some y"
  by (cases xs; simp)+

lemma chain_append:
  "chain nxt prv b (xs @ ys) a \<longleftrightarrow>
     chain nxt prv b xs (first_of ys a) \<and> chain nxt prv (last_of b xs) ys a"
  by (induction xs arbitrary: b) auto

lemma chain_middle:
  "chain nxt prv b (xs @ x # ys) a \<longleftrightarrow>
     chain nxt prv b xs (Some x) \<and> prv x = last_of b xs \<and> nxt x = first_of ys a \<and>
     chain nxt prv (Some x) ys a"
  by (auto simp: chain_append)

text \<open>Writes outside a chain do not change it.\<close>

lemma chain_upd_other [simp]:
  "x \<notin> set xs \<Longrightarrow> chain (nxt(x := v)) prv b xs a = chain nxt prv b xs a"
  "x \<notin> set xs \<Longrightarrow> chain nxt (prv(x := v)) b xs a = chain nxt prv b xs a"
  by (induction xs arbitrary: b) auto

text \<open>Redirecting the outgoing link of the last node, or the back link of the first.\<close>

lemma chain_set_after:
  assumes "chain nxt prv b (xs @ [x]) a" "distinct (xs @ [x])"
  shows "chain (nxt(x := a')) prv b (xs @ [x]) a'"
  using assms by (simp add: chain_append)

lemma chain_set_before:
  assumes "chain nxt prv b (x # xs) a" "distinct (x # xs)"
  shows "chain nxt (prv(x := b')) b' (x # xs) a"
  using assms by simp

lemma chain_linked:
  assumes "chain nxt prv b xs a" "x \<in> set xs"
  shows "nxt x \<in> insert a (Some ` set xs)" and "prv x \<in> insert b (Some ` set xs)"
proof -
  obtain ys zs where xs: "xs = ys @ x # zs"
    using assms(2) by (metis split_list)
  show "nxt x \<in> insert a (Some ` set xs)" "prv x \<in> insert b (Some ` set xs)"
    using assms(1) by (cases zs; cases ys rule: rev_cases; auto simp: xs chain_append)+
qed

text \<open>A node of a chain with no end markers inside is first, last, both or between two others.\<close>

lemma chain_ends:
  assumes "chain nxt prv None xs None" "xs = ys @ x # zs"
  shows "nxt x = None \<longleftrightarrow> zs = []" and "prv x = None \<longleftrightarrow> ys = []"
  using assms by (auto simp: chain_middle first_of_eq_None last_of_eq_None)

lemma chain_next: "chain nxt prv None (ys @ x # zs) None \<Longrightarrow> nxt x = first_of zs None"
  and chain_prev: "chain nxt prv None (ys @ x # zs) None \<Longrightarrow> prv x = last_of None ys"
  by (simp_all add: chain_middle)

section \<open>Unlinking a node\<close>

lemma chain_unlink_middle:
  assumes "chain nxt prv None (ys @ [p] @ [x] @ [n] @ zs) None" "distinct (ys @ [p] @ [x] @ [n] @ zs)"
  shows "chain (nxt(p := Some n)) (prv(n := Some p)) None (ys @ [p] @ [n] @ zs) None"
  using assms by (auto simp: chain_append)

lemma chain_unlink_first:
  assumes "chain nxt prv None (x # n # zs) None" "distinct (x # n # zs)"
  shows "chain nxt (prv(n := None)) None (n # zs) None"
  using assms by auto

lemma chain_unlink_last:
  assumes "chain nxt prv None (ys @ [p] @ [x]) None" "distinct (ys @ [p] @ [x])"
  shows "chain (nxt(p := None)) prv None (ys @ [p]) None"
  using assms by (auto simp: chain_append)

section \<open>Linking a node at either end\<close>

lemma chain_link_last:
  assumes "chain nxt prv None (ys @ [l]) None" "distinct (ys @ [l])" "x \<notin> set (ys @ [l])"
    and "nxt x = None"
  shows "chain (nxt(l := Some x)) (prv(x := Some l)) None (ys @ [l, x]) None"
  using assms by (auto simp: chain_append)

lemma chain_link_first:
  assumes "chain nxt prv None (f # ys) None" "distinct (f # ys)" "x \<notin> set (f # ys)"
    and "prv x = None"
  shows "chain (nxt(x := Some f)) (prv(f := Some x)) None (x # f # ys) None"
  using assms by auto

section \<open>Walking a chain\<close>

text \<open>
  The loop \<open>while (node) { visit(node); node = node.next }\<close> with a step budget.  On a chain as
  long as the budget it visits exactly the chain.
\<close>

fun walk :: "links \<Rightarrow> nat \<Rightarrow> addr option \<Rightarrow> addr list option" where
  "walk nxt fuel None = Some []"
| "walk nxt 0 (Some x) = None"
| "walk nxt (Suc fuel) (Some x) = map_option (Cons x) (walk nxt fuel (nxt x))"

lemma walk_chain: "chain nxt prv b xs None \<Longrightarrow> length xs \<le> fuel \<Longrightarrow> walk nxt fuel (first_of xs None) = Some xs"
proof (induction xs arbitrary: b fuel)
  case (Cons x xs)
  then show ?case
    by (cases fuel) auto
qed simp

end
