(* ===== verification/Queue_Interfaces.thy ===== *)
theory Queue_Interfaces
  imports Prelude
begin

text \<open>
  The contracts of the queues the code uses.  A \<open>fifo\<close> has an enqueue and a dequeue operation and a
  reading as a list; a \<open>deque\<close> can be used at both ends and so gives two \<open>fifo\<close>s.  Clients of a
  queue (event delivery, the retransmission buffer of the persistent protocol) rely on the order
  lemmas proved here; \<open>LinkedList\<close> and the \<open>Queue\<close> of the persistent protocol interpret them.
\<close>

locale fifo =
  fixes inv :: "'q \<Rightarrow> bool" and contents :: "'q \<Rightarrow> 'a list" and empty :: 'q
    and enq :: "'a \<Rightarrow> 'q \<Rightarrow> 'q" and deq :: "'q \<Rightarrow> 'q" and peek :: "'q \<Rightarrow> 'a option"
  assumes inv_empty: "inv empty" and contents_empty: "contents empty = []"
    and inv_enq: "inv q \<Longrightarrow> inv (enq x q)" and contents_enq: "inv q \<Longrightarrow> contents (enq x q) = contents q @ [x]"
    and inv_deq: "inv q \<Longrightarrow> inv (deq q)" and contents_deq: "inv q \<Longrightarrow> contents (deq q) = tl (contents q)"
    and peek: "inv q \<Longrightarrow> peek q = (case contents q of [] \<Rightarrow> None | x # _ \<Rightarrow> Some x)"
begin

lemma enq_all:
  assumes "inv q"
  shows "inv (foldl (\<lambda>q x. enq x q) q xs) \<and> contents (foldl (\<lambda>q x. enq x q) q xs) = contents q @ xs"
  using assms by (induction xs arbitrary: q) (simp_all add: inv_enq contents_enq)

lemma deq_many:
  assumes "inv q"
  shows "inv ((deq ^^ n) q) \<and> contents ((deq ^^ n) q) = drop n (contents q)"
  using assms by (induction n) (auto simp: inv_deq contents_deq drop_Suc tl_drop)

text \<open>Elements leave in the order they entered.\<close>

lemma peek_after_deq:
  assumes "inv q" "n < length (contents q)"
  shows "peek ((deq ^^ n) q) = Some (contents q ! n)"
  using deq_many [OF assms(1), of n] assms(2) peek [of "(deq ^^ n) q"]
  by (simp add: Cons_nth_drop_Suc [symmetric])

end

locale deque =
  fixes inv :: "'q \<Rightarrow> bool" and contents :: "'q \<Rightarrow> 'a list" and empty :: 'q
    and push :: "'a \<Rightarrow> 'q \<Rightarrow> 'q" and unshift :: "'a \<Rightarrow> 'q \<Rightarrow> 'q"
    and shift :: "'q \<Rightarrow> 'q \<times> 'a option" and pop :: "'q \<Rightarrow> 'q \<times> 'a option"
  assumes inv_empty: "inv empty" and contents_empty: "contents empty = []"
    and inv_push: "inv q \<Longrightarrow> inv (push x q)" and contents_push: "inv q \<Longrightarrow> contents (push x q) = contents q @ [x]"
    and inv_unshift: "inv q \<Longrightarrow> inv (unshift x q)"
    and contents_unshift: "inv q \<Longrightarrow> contents (unshift x q) = x # contents q"
    and inv_shift: "inv q \<Longrightarrow> inv (fst (shift q))"
    and contents_shift: "inv q \<Longrightarrow> contents (fst (shift q)) = tl (contents q)"
    and result_shift: "inv q \<Longrightarrow> snd (shift q) = (case contents q of [] \<Rightarrow> None | x # _ \<Rightarrow> Some x)"
    and inv_pop: "inv q \<Longrightarrow> inv (fst (pop q))"
    and contents_pop: "inv q \<Longrightarrow> contents (fst (pop q)) = butlast (contents q)"
    and result_pop: "inv q \<Longrightarrow> snd (pop q) = (if contents q = [] then None else Some (last (contents q)))"

sublocale deque \<subseteq> forward: fifo inv contents empty push "\<lambda>q. fst (shift q)" "\<lambda>q. snd (shift q)"
  by unfold_locales
    (simp_all add: inv_empty contents_empty inv_push contents_push inv_shift contents_shift result_shift)

lemma butlast_as_rev: "butlast xs = rev (tl (rev xs))"
  by (cases xs rule: rev_cases) simp_all

lemma rev_contents_last: "(if xs = [] then None else Some (last xs)) = (case rev xs of [] \<Rightarrow> None | x # _ \<Rightarrow> Some x)"
  by (cases xs rule: rev_cases) simp_all

sublocale deque \<subseteq> backward: fifo inv "\<lambda>q. rev (contents q)" empty unshift "\<lambda>q. fst (pop q)" "\<lambda>q. snd (pop q)"
  by unfold_locales
    (simp_all add: inv_empty contents_empty inv_unshift contents_unshift inv_pop contents_pop result_pop
      butlast_as_rev rev_contents_last)

end
