(* ===== verification/Linked_List.thy ===== *)
theory Linked_List
  imports Dll Queue_Interfaces
begin

text \<open>
  \<open>LinkedList\<close> of \<open>src/vs/base/common/linkedList.ts\<close>: a doubly linked list whose insertions return
  a closure that removes the inserted node.

  Nodes live on an explicit heap, split by field.  \<open>None\<close> as a link is the sentinel
  \<open>Node.Undefined\<close>.  The sentinel's own \<open>next\<close> and \<open>prev\<close> hold JavaScript's \<open>undefined\<close>, because
  its constructor runs before the static member is assigned; \<open>ll_sentinel_next\<close> and
  \<open>ll_sentinel_prev\<close> hold them (\<open>None\<close> for \<open>undefined\<close>), since the code can overwrite them.  The removal closure returned for node \<open>n\<close> is
  \<open>LinkedList_dispose n\<close>, with its captured variable \<open>didRemove\<close> in \<open>ll_didRemove\<close>.
\<close>

record 'e linkedList =
  ll_first :: "addr option"
  ll_last :: "addr option"
  ll_size :: int
  ll_next :: links
  ll_prev :: links
  ll_element :: "addr \<rightharpoonup> 'e"
  ll_fresh :: addr
  ll_didRemove :: "addr list"
  ll_sentinel_next :: "addr option option"
  ll_sentinel_prev :: "addr option option"

definition new_LinkedList :: "'e linkedList" where
  "new_LinkedList =
     \<lparr>ll_first = None, ll_last = None, ll_size = 0, ll_next = (\<lambda>_. None), ll_prev = (\<lambda>_. None),
      ll_element = Map.empty, ll_fresh = 0, ll_didRemove = [], ll_sentinel_next = None, ll_sentinel_prev = None\<rparr>"

text \<open>Reading and writing a link of a node or of the sentinel.\<close>

fun get_next :: "'e linkedList \<Rightarrow> addr option \<Rightarrow> addr option option" where
  "get_next s (Some n) = Some (ll_next s n)"
| "get_next s None = ll_sentinel_next s"

fun get_prev :: "'e linkedList \<Rightarrow> addr option \<Rightarrow> addr option option" where
  "get_prev s (Some n) = Some (ll_prev s n)"
| "get_prev s None = ll_sentinel_prev s"

fun set_next :: "addr option \<Rightarrow> addr option \<Rightarrow> 'e linkedList \<Rightarrow> 'e linkedList" where
  "set_next (Some n) v s = s\<lparr>ll_next := (ll_next s)(n := v)\<rparr>"
| "set_next None v s = s\<lparr>ll_sentinel_next := Some v\<rparr>"

fun set_prev :: "addr option \<Rightarrow> addr option \<Rightarrow> 'e linkedList \<Rightarrow> 'e linkedList" where
  "set_prev (Some n) v s = s\<lparr>ll_prev := (ll_prev s)(n := v)\<rparr>"
| "set_prev None v s = s\<lparr>ll_sentinel_prev := Some v\<rparr>"

definition LinkedList_isEmpty :: "'e linkedList \<Rightarrow> bool" where
  "LinkedList_isEmpty s \<longleftrightarrow> ll_first s = None"

fun clear_loop :: "nat \<Rightarrow> links \<Rightarrow> links \<Rightarrow> addr option \<Rightarrow> (links \<times> links) option" where
  "clear_loop fuel nxt prv None = Some (nxt, prv)"
| "clear_loop 0 nxt prv (Some n) = None"
| "clear_loop (Suc fuel) nxt prv (Some n) = clear_loop fuel (nxt(n := None)) (prv(n := None)) (nxt n)"

definition LinkedList_clear :: "'e linkedList \<Rightarrow> 'e linkedList option" where
  "LinkedList_clear s =
     map_option (\<lambda>(nxt, prv). s\<lparr>ll_next := nxt, ll_prev := prv, ll_first := None, ll_last := None, ll_size := 0\<rparr>)
       (clear_loop (ll_fresh s) (ll_next s) (ll_prev s) (ll_first s))"

definition LinkedList_insert :: "'e \<Rightarrow> bool \<Rightarrow> 'e linkedList \<Rightarrow> 'e linkedList \<times> addr" where
  "LinkedList_insert element atTheEnd s =
     (let newNode = ll_fresh s;
          s = s\<lparr>ll_fresh := newNode + 1, ll_element := (ll_element s)(newNode \<mapsto> element),
                ll_next := (ll_next s)(newNode := None), ll_prev := (ll_prev s)(newNode := None)\<rparr>;
          s = (if ll_first s = None then s\<lparr>ll_first := Some newNode, ll_last := Some newNode\<rparr>
               else if atTheEnd then
                 let oldLast = ll_last s in
                 set_next oldLast (Some newNode) (set_prev (Some newNode) oldLast (s\<lparr>ll_last := Some newNode\<rparr>))
               else
                 let oldFirst = ll_first s in
                 set_prev oldFirst (Some newNode) (set_next (Some newNode) oldFirst (s\<lparr>ll_first := Some newNode\<rparr>)))
      in (s\<lparr>ll_size := ll_size s + 1\<rparr>, newNode))"

definition LinkedList_unshift :: "'e \<Rightarrow> 'e linkedList \<Rightarrow> 'e linkedList \<times> addr" where
  "LinkedList_unshift element s = LinkedList_insert element False s"

definition LinkedList_push :: "'e \<Rightarrow> 'e linkedList \<Rightarrow> 'e linkedList \<times> addr" where
  "LinkedList_push element s = LinkedList_insert element True s"

text \<open>
  The branches for the first and the last node go through \<open>this._first\<close> and \<open>this._last\<close>, not
  through the node.  If the link read there is \<open>undefined\<close>, the write to its property throws.
\<close>

definition LinkedList_remove :: "addr \<Rightarrow> 'e linkedList \<Rightarrow> js_error + 'e linkedList" where
  "LinkedList_remove node s =
     bind_result
       (case (ll_prev s node, ll_next s node) of
          (Some anchor, Some n) \<Rightarrow> Inr (set_prev (Some n) (Some anchor) (set_next (Some anchor) (Some n) s))
        | (None, None) \<Rightarrow> Inr (s\<lparr>ll_first := None, ll_last := None\<rparr>)
        | (Some _, None) \<Rightarrow>
            (case get_prev s (ll_last s) of
               None \<Rightarrow> Inl TypeError
             | Some l \<Rightarrow> Inr (set_next l None (s\<lparr>ll_last := l\<rparr>)))
        | (None, Some _) \<Rightarrow>
            (case get_next s (ll_first s) of
               None \<Rightarrow> Inl TypeError
             | Some f \<Rightarrow> Inr (set_prev f None (s\<lparr>ll_first := f\<rparr>))))
       (\<lambda>s. Inr (s\<lparr>ll_size := ll_size s - 1\<rparr>))"

definition LinkedList_dispose :: "addr \<Rightarrow> 'e linkedList \<Rightarrow> js_error + 'e linkedList" where
  "LinkedList_dispose newNode s =
     (if newNode \<in> set (ll_didRemove s) then Inr s
      else LinkedList_remove newNode (s\<lparr>ll_didRemove := newNode # ll_didRemove s\<rparr>))"

definition LinkedList_shift :: "'e linkedList \<Rightarrow> js_error + 'e linkedList \<times> 'e option" where
  "LinkedList_shift s =
     (case ll_first s of
        None \<Rightarrow> Inr (s, None)
      | Some f \<Rightarrow> bind_result (LinkedList_remove f s) (\<lambda>s'. Inr (s', ll_element s f)))"

definition LinkedList_pop :: "'e linkedList \<Rightarrow> js_error + 'e linkedList \<times> 'e option" where
  "LinkedList_pop s =
     (case ll_last s of
        None \<Rightarrow> Inr (s, None)
      | Some l \<Rightarrow> bind_result (LinkedList_remove l s) (\<lambda>s'. Inr (s', ll_element s l)))"

definition LinkedList_iterator :: "'e linkedList \<Rightarrow> 'e list option" where
  "LinkedList_iterator s =
     map_option (map (\<lambda>n. the (ll_element s n))) (walk (ll_next s) (ll_fresh s) (ll_first s))"

section \<open>Invariant\<close>

text \<open>
  \<open>ll_chain s xs\<close>: the nodes of the list are \<open>xs\<close>, in this order.  \<open>ll_nodes\<close> adds that no
  removal closure of a listed node has run.
\<close>

definition ll_chain :: "'e linkedList \<Rightarrow> addr list \<Rightarrow> bool" where
  "ll_chain s xs \<longleftrightarrow>
     chain (ll_next s) (ll_prev s) None xs None \<and> distinct xs \<and>
     ll_first s = first_of xs None \<and> ll_last s = last_of None xs \<and>
     ll_size s = int (length xs) \<and> (\<forall>x \<in> set xs. x < ll_fresh s \<and> ll_element s x \<noteq> None)"

definition ll_nodes :: "'e linkedList \<Rightarrow> addr list \<Rightarrow> bool" where
  "ll_nodes s xs \<longleftrightarrow> ll_chain s xs \<and> (\<forall>x \<in> set (ll_didRemove s). x < ll_fresh s \<and> x \<notin> set xs)"

definition ll_inv :: "'e linkedList \<Rightarrow> bool" where
  "ll_inv s \<longleftrightarrow> (\<exists>xs. ll_nodes s xs)"

definition ll_elements :: "'e linkedList \<Rightarrow> 'e list" where
  "ll_elements s = (case LinkedList_iterator s of Some es \<Rightarrow> es | None \<Rightarrow> [])"

lemma distinct_bounded_length: "distinct xs \<Longrightarrow> \<forall>x \<in> set xs. x < n \<Longrightarrow> length xs \<le> n" for xs :: "nat list"
  by (metis card_mono card_lessThan distinct_card finite_lessThan lessThan_iff subsetI)

lemma ll_walk: "ll_nodes s xs \<Longrightarrow> walk (ll_next s) (ll_fresh s) (ll_first s) = Some xs"
  using walk_chain [of "ll_next s" "ll_prev s" None xs "ll_fresh s"]
  by (auto simp: ll_nodes_def ll_chain_def distinct_bounded_length)

lemma ll_iterator: "ll_nodes s xs \<Longrightarrow> LinkedList_iterator s = Some (map (\<lambda>n. the (ll_element s n)) xs)"
  by (simp add: LinkedList_iterator_def ll_walk)

lemma ll_elements_nodes: "ll_nodes s xs \<Longrightarrow> ll_elements s = map (\<lambda>n. the (ll_element s n)) xs"
  by (simp add: ll_elements_def ll_iterator)

text \<open>What no removal changes.\<close>

definition ll_frame :: "'e linkedList \<Rightarrow> 'e linkedList \<Rightarrow> bool" where
  "ll_frame s s' \<longleftrightarrow> ll_element s' = ll_element s \<and> ll_fresh s' = ll_fresh s \<and> ll_didRemove s' = ll_didRemove s"

lemma ll_nodes_unique: "ll_nodes s xs \<Longrightarrow> ll_nodes s ys \<Longrightarrow> xs = ys"
  by (metis ll_walk option.inject)

section \<open>Effect of the operations on the nodes\<close>

lemma ll_nodes_new: "ll_nodes new_LinkedList []"
  by (simp add: ll_nodes_def ll_chain_def new_LinkedList_def)

lemma clear_loop_chain:
  "chain nxt prv b xs None \<Longrightarrow> distinct xs \<Longrightarrow> length xs \<le> fuel \<Longrightarrow>
   clear_loop fuel nxt prv (first_of xs None) =
     Some (\<lambda>x. if x \<in> set xs then None else nxt x, \<lambda>x. if x \<in> set xs then None else prv x)"
proof (induction xs arbitrary: b fuel nxt prv)
  case (Cons x xs)
  then obtain fuel' where fuel: "fuel = Suc fuel'" "length xs \<le> fuel'"
    by (cases fuel) auto
  have "chain (nxt(x := None)) (prv(x := None)) (Some x) xs None"
    using Cons.prems by simp
  moreover have "(\<lambda>y. if y \<in> set xs then None else (f(x := None)) y) = (\<lambda>y. if y \<in> set (x # xs) then None else f y)"
    for f :: links by (auto simp: fun_eq_iff)
  ultimately show ?case
    using Cons.IH [OF _ _ fuel(2), of "nxt(x := None)" "prv(x := None)" "Some x"] Cons.prems
    by (simp add: fuel(1) del: fun_upd_apply)
qed simp

lemma ll_nodes_clear:
  assumes "ll_nodes s xs"
  shows "\<exists>s'. LinkedList_clear s = Some s' \<and> ll_nodes s' [] \<and> ll_frame s s'"
  using clear_loop_chain [of "ll_next s" "ll_prev s" None xs "ll_fresh s"] assms
  by (auto simp: LinkedList_clear_def ll_frame_def ll_nodes_def ll_chain_def distinct_bounded_length)

lemma ll_nodes_push:
  assumes "ll_nodes s xs"
  shows "ll_nodes (fst (LinkedList_push e s)) (xs @ [ll_fresh s]) \<and> snd (LinkedList_push e s) = ll_fresh s \<and>
         ll_element (fst (LinkedList_push e s)) = (ll_element s)(ll_fresh s \<mapsto> e) \<and>
         ll_fresh (fst (LinkedList_push e s)) = ll_fresh s + 1 \<and>
         ll_didRemove (fst (LinkedList_push e s)) = ll_didRemove s"
  using assms
  by (cases xs rule: rev_cases)
    (auto simp: LinkedList_push_def LinkedList_insert_def ll_nodes_def ll_chain_def Let_def chain_append first_of_eq_None)

lemma ll_nodes_unshift:
  assumes "ll_nodes s xs"
  shows "ll_nodes (fst (LinkedList_unshift e s)) (ll_fresh s # xs) \<and> snd (LinkedList_unshift e s) = ll_fresh s \<and>
         ll_element (fst (LinkedList_unshift e s)) = (ll_element s)(ll_fresh s \<mapsto> e) \<and>
         ll_fresh (fst (LinkedList_unshift e s)) = ll_fresh s + 1 \<and>
         ll_didRemove (fst (LinkedList_unshift e s)) = ll_didRemove s"
  using assms
  by (cases xs) (auto simp: LinkedList_unshift_def LinkedList_insert_def ll_nodes_def ll_chain_def Let_def)

text \<open>Removing a node of the list unlinks this node and no other, whichever branch it takes.\<close>

lemma ll_chain_remove:
  assumes "ll_chain s (ys @ x # zs)"
  shows "\<exists>s'. LinkedList_remove x s = Inr s' \<and> ll_chain s' (ys @ zs) \<and> ll_frame s s'"
proof (cases ys rule: rev_cases; cases zs)
  assume "ys = []" "zs = []"
  then show ?thesis
    using assms by (auto simp: LinkedList_remove_def ll_chain_def ll_frame_def)
next
  fix n zs' assume "ys = []" "zs = n # zs'"
  then show ?thesis
    using assms by (auto simp: LinkedList_remove_def ll_chain_def ll_frame_def)
next
  fix ys' p assume "ys = ys' @ [p]" "zs = []"
  then show ?thesis
    using assms by (auto simp: LinkedList_remove_def ll_chain_def ll_frame_def chain_append)
next
  fix ys' p n zs' assume eq: "ys = ys' @ [p]" "zs = n # zs'"
  then have links: "ll_prev s x = Some p" "ll_next s x = Some n"
    using assms by (simp_all add: ll_chain_def chain_append)
  have "chain ((ll_next s)(p := Some n)) ((ll_prev s)(n := Some p)) None (ys' @ [p] @ [n] @ zs') None"
    using chain_unlink_middle [of "ll_next s" "ll_prev s" ys' p x n zs'] assms eq by (simp add: ll_chain_def)
  then show ?thesis
    using assms eq by (simp add: LinkedList_remove_def links ll_chain_def ll_frame_def)
qed

lemma ll_nodes_remove:
  assumes "ll_nodes s (ys @ x # zs)"
  shows "\<exists>s'. LinkedList_remove x s = Inr s' \<and> ll_nodes s' (ys @ zs) \<and> ll_frame s s'"
  using ll_chain_remove [of s ys x zs] assms by (fastforce simp: ll_nodes_def ll_frame_def)

lemma ll_nodes_dispose:
  assumes "ll_nodes s (ys @ x # zs)"
  shows "\<exists>s'. LinkedList_dispose x s = Inr s' \<and> ll_nodes s' (ys @ zs) \<and> ll_element s' = ll_element s \<and>
              ll_fresh s' = ll_fresh s \<and> ll_didRemove s' = x # ll_didRemove s"
proof -
  have "ll_chain (s\<lparr>ll_didRemove := x # ll_didRemove s\<rparr>) (ys @ x # zs)"
    using assms by (simp add: ll_nodes_def ll_chain_def)
  from ll_chain_remove [OF this] show ?thesis
    using assms by (fastforce simp: LinkedList_dispose_def ll_frame_def ll_nodes_def ll_chain_def)
qed

lemma ll_nodes_shift:
  assumes "ll_nodes s xs"
  shows "\<exists>s'. LinkedList_shift s = Inr (s', case xs of [] \<Rightarrow> None | x # _ \<Rightarrow> ll_element s x) \<and> ll_nodes s' (tl xs) \<and>
              ll_frame s s'"
proof (cases xs)
  case (Cons x xs')
  then show ?thesis
    using ll_nodes_remove [of s "[]" x xs'] assms by (auto simp: LinkedList_shift_def ll_nodes_def ll_chain_def)
qed (use assms in \<open>simp add: ll_frame_def LinkedList_shift_def ll_nodes_def ll_chain_def\<close>)

lemma ll_nodes_pop:
  assumes "ll_nodes s xs"
  shows "\<exists>s'. LinkedList_pop s = Inr (s', if xs = [] then None else ll_element s (last xs)) \<and>
              ll_nodes s' (butlast xs) \<and> ll_frame s s'"
proof (cases xs rule: rev_cases)
  case (snoc xs' x)
  then show ?thesis
    using ll_nodes_remove [of s xs' x "[]"] assms by (auto simp: LinkedList_pop_def ll_nodes_def ll_chain_def)
qed (use assms in \<open>simp add: ll_frame_def LinkedList_pop_def ll_nodes_def ll_chain_def\<close>)

lemma ll_elem_defined: "ll_nodes s xs \<Longrightarrow> x \<in> set xs \<Longrightarrow> \<exists>e. ll_element s x = Some e"
  by (auto simp: ll_nodes_def ll_chain_def)

lemma ll_fresh_notin: "ll_nodes s xs \<Longrightarrow> ll_fresh s \<notin> set xs"
  by (auto simp: ll_nodes_def ll_chain_def)

section \<open>\<open>LinkedList\<close> as a double-ended queue\<close>

definition ll_shift_total :: "'e linkedList \<Rightarrow> 'e linkedList \<times> 'e option" where
  "ll_shift_total s = (case LinkedList_shift s of Inr r \<Rightarrow> r | Inl _ \<Rightarrow> (s, None))"

definition ll_pop_total :: "'e linkedList \<Rightarrow> 'e linkedList \<times> 'e option" where
  "ll_pop_total s = (case LinkedList_pop s of Inr r \<Rightarrow> r | Inl _ \<Rightarrow> (s, None))"

lemma ll_shift_total_inv:
  assumes "ll_inv q"
  shows "ll_inv (fst (ll_shift_total q)) \<and> ll_elements (fst (ll_shift_total q)) = tl (ll_elements q) \<and>
         snd (ll_shift_total q) = (case ll_elements q of [] \<Rightarrow> None | x # _ \<Rightarrow> Some x)"
proof -
  obtain xs where xs: "ll_nodes q xs"
    using assms by (auto simp: ll_inv_def)
  then obtain q' where "LinkedList_shift q = Inr (q', case xs of [] \<Rightarrow> None | x # _ \<Rightarrow> ll_element q x)" "ll_nodes q' (tl xs)"
    "ll_frame q q'"
    using ll_nodes_shift by blast
  then show ?thesis
    using xs ll_elem_defined [OF xs]
    by (cases xs) (auto simp: ll_frame_def ll_shift_total_def ll_inv_def ll_elements_nodes)
qed

lemma ll_pop_total_inv:
  assumes "ll_inv q"
  shows "ll_inv (fst (ll_pop_total q)) \<and> ll_elements (fst (ll_pop_total q)) = butlast (ll_elements q) \<and>
         snd (ll_pop_total q) = (if ll_elements q = [] then None else Some (last (ll_elements q)))"
proof -
  obtain xs where xs: "ll_nodes q xs"
    using assms by (auto simp: ll_inv_def)
  then obtain q' where "LinkedList_pop q = Inr (q', if xs = [] then None else ll_element q (last xs))" "ll_nodes q' (butlast xs)"
    "ll_frame q q'"
    using ll_nodes_pop by blast
  then show ?thesis
    using xs ll_elem_defined [OF xs]
    by (cases xs rule: rev_cases) (auto simp: ll_frame_def ll_pop_total_def ll_inv_def ll_elements_nodes)
qed

lemma ll_push_inv:
  assumes "ll_inv q"
  shows "ll_inv (fst (LinkedList_push x q)) \<and> ll_elements (fst (LinkedList_push x q)) = ll_elements q @ [x]"
proof -
  obtain xs where xs: "ll_nodes q xs"
    using assms by (auto simp: ll_inv_def)
  then show ?thesis
    using ll_nodes_push [OF xs, of x] ll_fresh_notin [OF xs]
    by (auto simp: ll_inv_def ll_elements_nodes)
qed

lemma ll_unshift_inv:
  assumes "ll_inv q"
  shows "ll_inv (fst (LinkedList_unshift x q)) \<and> ll_elements (fst (LinkedList_unshift x q)) = x # ll_elements q"
proof -
  obtain xs where xs: "ll_nodes q xs"
    using assms by (auto simp: ll_inv_def)
  then show ?thesis
    using ll_nodes_unshift [OF xs, of x] ll_fresh_notin [OF xs]
    by (auto simp: ll_inv_def ll_elements_nodes)
qed

lemma ll_new_inv: "ll_inv new_LinkedList" "ll_elements new_LinkedList = []"
  using ll_nodes_new ll_elements_nodes [OF ll_nodes_new] by (auto simp: ll_inv_def)

interpretation llq: deque ll_inv ll_elements new_LinkedList "\<lambda>x q. fst (LinkedList_push x q)"
  "\<lambda>x q. fst (LinkedList_unshift x q)" ll_shift_total ll_pop_total
  by unfold_locales (simp_all add: ll_new_inv ll_push_inv ll_unshift_inv ll_shift_total_inv ll_pop_total_inv)

section \<open>Runs of operations\<close>

datatype 'e ll_op = Push 'e | Unshift 'e | Shift | Pop | Clear | Dispose addr

fun ll_exec :: "'e ll_op \<Rightarrow> 'e linkedList \<Rightarrow> (js_error + 'e linkedList \<times> 'e option) option" where
  "ll_exec (Push e) s = Some (Inr (fst (LinkedList_push e s), None))"
| "ll_exec (Unshift e) s = Some (Inr (fst (LinkedList_unshift e s), None))"
| "ll_exec Shift s = Some (LinkedList_shift s)"
| "ll_exec Pop s = Some (LinkedList_pop s)"
| "ll_exec Clear s = map_option (\<lambda>s'. Inr (s', None)) (LinkedList_clear s)"
| "ll_exec (Dispose n) s = Some (bind_result (LinkedList_dispose n s) (\<lambda>s'. Inr (s', None)))"

fun ll_run :: "'e ll_op list \<Rightarrow> 'e linkedList \<Rightarrow> 'e option list \<Rightarrow> ('e linkedList \<times> 'e option list) option" where
  "ll_run [] s out = Some (s, out)"
| "ll_run (op # ops) s out =
     (case ll_exec op s of Some (Inr (s', r)) \<Rightarrow> ll_run ops s' (out @ [r]) | _ \<Rightarrow> None)"

text \<open>
  The specification: a list of elements tagged with the identity of their node, and the number of
  nodes created so far.  A removal closure may run while its element is in the list, or again
  after it has removed its element; \<open>gone\<close> collects the latter.
\<close>

type_synonym 'e ll_abs = "(addr \<times> 'e) list \<times> addr \<times> addr list"

fun ll_spec :: "'e ll_op \<Rightarrow> 'e ll_abs \<Rightarrow> 'e ll_abs \<times> 'e option" where
  "ll_spec (Push e) (xs, k, gone) = ((xs @ [(k, e)], k + 1, gone), None)"
| "ll_spec (Unshift e) (xs, k, gone) = (((k, e) # xs, k + 1, gone), None)"
| "ll_spec Shift (xs, k, gone) = ((tl xs, k, gone), case xs of [] \<Rightarrow> None | x # _ \<Rightarrow> Some (snd x))"
| "ll_spec Pop (xs, k, gone) = ((butlast xs, k, gone), if xs = [] then None else Some (snd (last xs)))"
| "ll_spec Clear (xs, k, gone) = (([], k, gone), None)"
| "ll_spec (Dispose n) (xs, k, gone) = ((filter (\<lambda>x. fst x \<noteq> n) xs, k, n # gone), None)"

fun ll_legal :: "'e ll_op \<Rightarrow> 'e ll_abs \<Rightarrow> bool" where
  "ll_legal (Dispose n) (xs, k, gone) \<longleftrightarrow> n \<in> fst ` set xs \<or> n \<in> set gone"
| "ll_legal _ _ = True"

fun ll_legal_run :: "'e ll_op list \<Rightarrow> 'e ll_abs \<Rightarrow> bool" where
  "ll_legal_run [] a = True"
| "ll_legal_run (op # ops) a \<longleftrightarrow> ll_legal op a \<and> ll_legal_run ops (fst (ll_spec op a))"

fun ll_spec_run :: "'e ll_op list \<Rightarrow> 'e ll_abs \<Rightarrow> 'e option list \<Rightarrow> 'e ll_abs \<times> 'e option list" where
  "ll_spec_run [] a out = (a, out)"
| "ll_spec_run (op # ops) a out = (case ll_spec op a of (a', r) \<Rightarrow> ll_spec_run ops a' (out @ [r]))"

definition ll_refines :: "'e linkedList \<Rightarrow> 'e ll_abs \<Rightarrow> bool" where
  "ll_refines s a \<longleftrightarrow>
     (case a of (xs, k, gone) \<Rightarrow> ll_nodes s (map fst xs) \<and> ll_fresh s = k \<and> set (ll_didRemove s) = set gone \<and>
        (\<forall>x \<in> set xs. ll_element s (fst x) = Some (snd x)))"

lemma ll_exec_refines:
  assumes "ll_refines s a" "ll_legal op a"
  shows "\<exists>s'. ll_exec op s = Some (Inr (s', snd (ll_spec op a))) \<and> ll_refines s' (fst (ll_spec op a))"
proof -
  obtain xs k gone where a: "a = (xs, k, gone)" and nodes: "ll_nodes s (map fst xs)" and k: "ll_fresh s = k"
    and gone: "set (ll_didRemove s) = set gone" and el: "\<forall>x \<in> set xs. ll_element s (fst x) = Some (snd x)"
    using assms(1) by (cases a) (auto simp: ll_refines_def)
  have new: "\<forall>x \<in> set xs. fst x \<noteq> ll_fresh s"
    using ll_fresh_notin [OF nodes] by (auto simp: image_iff)
  show ?thesis
  proof (cases op)
    case (Push e)
    then show ?thesis
      using ll_nodes_push [OF nodes, of e] new k gone el by (auto simp: a ll_refines_def)
  next
    case (Unshift e)
    then show ?thesis
      using ll_nodes_unshift [OF nodes, of e] new k gone el by (auto simp: a ll_refines_def)
  next
    case Shift
    then show ?thesis
      using ll_nodes_shift [OF nodes] k gone el
      by (cases xs) (auto simp: a ll_refines_def ll_frame_def)
  next
    case Pop
    then show ?thesis
      using ll_nodes_pop [OF nodes] k gone el
      by (cases xs rule: rev_cases) (auto simp: a ll_refines_def ll_frame_def)
  next
    case Clear
    then show ?thesis
      using ll_nodes_clear [OF nodes] k gone by (auto simp: a ll_refines_def ll_frame_def)
  next
    case (Dispose n)
    have dist: "distinct (map fst xs)"
      using nodes by (simp add: ll_nodes_def ll_chain_def)
    show ?thesis
    proof (cases "n \<in> set gone")
      case True
      then have "filter (\<lambda>x. fst x \<noteq> n) xs = xs"
        using nodes gone by (auto simp: ll_nodes_def filter_id_conv)
      with True Dispose show ?thesis
        using assms(1) gone by (auto simp: a ll_refines_def LinkedList_dispose_def)
    next
      case False
      then obtain ys e zs where xs: "xs = ys @ (n, e) # zs"
        using assms(2) Dispose by (auto simp: a dest!: split_list)
      have "filter (\<lambda>x. fst x \<noteq> n) ys = ys" "filter (\<lambda>x. fst x \<noteq> n) zs = zs"
        using dist by (auto simp: xs filter_id_conv image_iff)
      then have "filter (\<lambda>x. fst x \<noteq> n) xs = ys @ zs"
        by (simp add: xs)
      then show ?thesis
        using ll_nodes_dispose [of s "map fst ys" n "map fst zs"] nodes k gone el Dispose
        by (auto simp: a ll_refines_def xs)
    qed
  qed
qed

lemma ll_run_refines:
  assumes "ll_refines s a" "ll_legal_run ops a"
  shows "\<exists>s'. ll_run ops s out = Some (s', snd (ll_spec_run ops a out)) \<and> ll_refines s' (fst (ll_spec_run ops a out))"
  using assms
proof (induction ops arbitrary: s a out)
  case (Cons op ops)
  obtain s' where s': "ll_exec op s = Some (Inr (s', snd (ll_spec op a)))" "ll_refines s' (fst (ll_spec op a))"
    using ll_exec_refines [OF Cons.prems(1)] Cons.prems(2) by auto
  with Cons.IH [OF s'(2)] Cons.prems(2) show ?case
    by (cases "ll_spec op a") simp
qed simp

section \<open>Properties\<close>

text \<open>
  C11. \<open>LinkedList\<close> implements a double-ended queue with removal by identity: in every run in
  which removal closures are called only while their element is listed (or repeatedly afterwards),
  no operation throws or loops, every \<open>shift\<close> and \<open>pop\<close> returns what the specification returns,
  and at the end the iterator lists the specified elements and \<open>size\<close> counts them.
\<close>

theorem LinkedList_refines_deque:
  assumes "ll_legal_run ops ([], 0, [])" "ll_spec_run ops ([], 0, []) [] = ((xs, k, gone), out)"
  shows "\<exists>s. ll_run ops new_LinkedList [] = Some (s, out) \<and>
             LinkedList_iterator s = Some (map snd xs) \<and> ll_size s = int (length xs) \<and>
             (LinkedList_isEmpty s \<longleftrightarrow> xs = [])"
proof -
  have "ll_refines new_LinkedList ([], 0, [])"
    using ll_nodes_new by (auto simp: ll_refines_def new_LinkedList_def)
  from ll_run_refines [OF this assms(1), of "[]"] obtain s where
    s: "ll_run ops new_LinkedList [] = Some (s, out)" "ll_refines s (xs, k, gone)"
    using assms(2) by auto
  then have "LinkedList_iterator s = Some (map snd xs)" "ll_nodes s (map fst xs)"
    by (auto simp: ll_refines_def ll_iterator)
  with s(1) show ?thesis
    by (auto simp: ll_nodes_def ll_chain_def LinkedList_isEmpty_def first_of_eq_None)
qed

theorem LinkedList_refines_deque_witness:
  "\<exists>s. ll_run [Push (5::int), Push 6, Unshift 7, Dispose 0, Dispose 0, Pop] new_LinkedList [] =
         Some (s, [None, None, None, None, None, Some 6]) \<and>
       LinkedList_iterator s = Some [7] \<and> ll_size s = int 1 \<and> (LinkedList_isEmpty s \<longleftrightarrow> [(2::nat, 7::int)] = [])"
  using LinkedList_refines_deque [of "[Push (5::int), Push 6, Unshift 7, Dispose 0, Dispose 0, Pop]" "[(2, 7)]" 3 "[0, 0]"]
  by simp

text \<open>
  A removal closure that runs after its element left the list by \<open>shift\<close> removes another
  element: the next one disappears as well, and \<open>size\<close> is decremented once more, down to \<open>-1\<close>
  when the list had a single element.  \<open>didRemove\<close> is set by the closure only.
\<close>

theorem LinkedList_stale_disposer:
  assumes "ll_nodes s (x # xs)"
  shows "\<exists>s1 s2 r. LinkedList_shift s = Inr (s1, r) \<and> LinkedList_iterator s1 = Some (tl (ll_elements s)) \<and>
                   LinkedList_dispose x s1 = Inr s2 \<and> LinkedList_iterator s2 = Some (drop 2 (ll_elements s)) \<and>
                   ll_size s2 = ll_size s - 2"
proof -
  obtain s1 where s1: "LinkedList_shift s = Inr (s1, ll_element s x)" "ll_nodes s1 xs" "ll_frame s s1"
    using ll_nodes_shift [OF assms] by auto
  have x: "x \<notin> set xs" "x \<notin> set (ll_didRemove s1)"
    using assms s1(3) by (auto simp: ll_nodes_def ll_chain_def ll_frame_def)
  have stale: "ll_prev s1 x = None" "ll_next s1 x = first_of xs None"
    using s1(1) assms by (cases xs; auto simp: LinkedList_shift_def LinkedList_remove_def ll_nodes_def ll_chain_def)+
  have "ll_elements s = the (ll_element s x) # map (\<lambda>n. the (ll_element s n)) xs" "ll_size s = int (length xs) + 1"
    using assms by (simp_all add: ll_elements_nodes) (simp add: ll_nodes_def ll_chain_def)
  moreover have "\<exists>s2. LinkedList_dispose x s1 = Inr s2 \<and> ll_size s2 = int (length xs) - 1 \<and>
      LinkedList_iterator s2 = Some (map (\<lambda>n. the (ll_element s1 n)) (tl xs))"
  proof (cases xs)
    case Nil
    then show ?thesis
      using s1(2) x stale
      by (simp add: LinkedList_dispose_def LinkedList_remove_def LinkedList_iterator_def ll_nodes_def ll_chain_def)
  next
    case (Cons y ys)
    then have "walk (ll_next s1) (ll_fresh s1) (first_of ys None) = Some ys"
      using walk_chain [of "ll_next s1" "ll_prev s1" "Some y" ys "ll_fresh s1"] s1(2)
        distinct_bounded_length [of ys "ll_fresh s1"]
      by (auto simp: ll_nodes_def ll_chain_def)
    then show ?thesis
      using s1(2) x stale Cons
      by (cases "first_of ys None")
        (simp_all add: LinkedList_dispose_def LinkedList_remove_def LinkedList_iterator_def ll_nodes_def ll_chain_def)
  qed
  ultimately show ?thesis
    using s1 by (auto simp: ll_frame_def ll_iterator drop_Suc map_tl numeral_2_eq_2)
qed

theorem LinkedList_stale_disposer_witness:
  "\<exists>s1 s2 r. LinkedList_shift (fst (LinkedList_push (5::int) new_LinkedList)) = Inr (s1, r) \<and>
             LinkedList_iterator s1 = Some (tl (ll_elements (fst (LinkedList_push (5::int) new_LinkedList)))) \<and>
             LinkedList_dispose 0 s1 = Inr s2 \<and>
             LinkedList_iterator s2 = Some (drop 2 (ll_elements (fst (LinkedList_push (5::int) new_LinkedList)))) \<and>
             ll_size s2 = ll_size (fst (LinkedList_push (5::int) new_LinkedList)) - 2"
  by (rule LinkedList_stale_disposer [of _ 0 "[]"])
    (use ll_nodes_push [OF ll_nodes_new, of "5::int"] in \<open>simp add: new_LinkedList_def\<close>)

end
