(* ===== verification/Linked_Map.thy ===== *)
theory Linked_Map
  imports Complex_Main Dll
begin

text \<open>
  \<open>LinkedMap\<close> and \<open>LRUCache\<close> of \<open>src/vs/base/common/map.ts\<close>: a hash map whose items are also linked
  in access order.

  Items live on an explicit heap, split by field; \<open>None\<close> as a link is \<open>undefined\<close>.  \<open>lm_map\<close> is the
  built-in \<open>Map\<close> from keys to items.  Every \<open>throw\<close> of the code is an \<open>Inl\<close>: \<open>InvalidList\<close> and
  \<open>ModifiedDuringIteration\<close> for the explicit ones, \<open>TypeError\<close> for a property access on
  \<open>undefined\<close> behind a non-null assertion.  \<open>lm_state\<close> is the modification counter the iterators
  check.
\<close>

datatype touch = TouchNone | AsOld | AsNew

record ('k, 'v) linkedMap =
  lm_map :: "'k \<rightharpoonup> addr"
  lm_head :: "addr option"
  lm_tail :: "addr option"
  lm_size :: int
  lm_state :: nat
  lm_next :: links
  lm_previous :: links
  lm_key :: "addr \<rightharpoonup> 'k"
  lm_value :: "addr \<rightharpoonup> 'v"
  lm_fresh :: addr

definition new_LinkedMap :: "('k, 'v) linkedMap" where
  "new_LinkedMap =
     \<lparr>lm_map = Map.empty, lm_head = None, lm_tail = None, lm_size = 0, lm_state = 0, lm_next = (\<lambda>_. None),
      lm_previous = (\<lambda>_. None), lm_key = Map.empty, lm_value = Map.empty, lm_fresh = 0\<rparr>"

definition LinkedMap_clear :: "('k, 'v, 'z) linkedMap_scheme \<Rightarrow> ('k, 'v, 'z) linkedMap_scheme" where
  "LinkedMap_clear s =
     s\<lparr>lm_map := Map.empty, lm_head := None, lm_tail := None, lm_size := 0, lm_state := lm_state s + 1\<rparr>"

definition LinkedMap_isEmpty :: "('k, 'v, 'z) linkedMap_scheme \<Rightarrow> bool" where
  "LinkedMap_isEmpty s \<longleftrightarrow> lm_head s = None \<and> lm_tail s = None"

definition LinkedMap_first :: "('k, 'v, 'z) linkedMap_scheme \<Rightarrow> 'v option" where
  "LinkedMap_first s = Option.bind (lm_head s) (lm_value s)"

definition LinkedMap_last :: "('k, 'v, 'z) linkedMap_scheme \<Rightarrow> 'v option" where
  "LinkedMap_last s = Option.bind (lm_tail s) (lm_value s)"

definition LinkedMap_has :: "('k, 'v, 'z) linkedMap_scheme \<Rightarrow> 'k \<Rightarrow> bool" where
  "LinkedMap_has s key \<longleftrightarrow> lm_map s key \<noteq> None"

definition addItemFirst ::
  "addr \<Rightarrow> ('k, 'v, 'z) linkedMap_scheme \<Rightarrow> js_error + ('k, 'v, 'z) linkedMap_scheme" where
  "addItemFirst item s =
     bind_result
       (case (lm_head s, lm_tail s) of
          (None, None) \<Rightarrow> Inr (s\<lparr>lm_tail := Some item\<rparr>)
        | (None, Some _) \<Rightarrow> Inl InvalidList
        | (Some h, _) \<Rightarrow> Inr (s\<lparr>lm_next := (lm_next s)(item := Some h), lm_previous := (lm_previous s)(h := Some item)\<rparr>))
       (\<lambda>s. Inr (s\<lparr>lm_head := Some item, lm_state := lm_state s + 1\<rparr>))"

definition addItemLast ::
  "addr \<Rightarrow> ('k, 'v, 'z) linkedMap_scheme \<Rightarrow> js_error + ('k, 'v, 'z) linkedMap_scheme" where
  "addItemLast item s =
     bind_result
       (case (lm_head s, lm_tail s) of
          (None, None) \<Rightarrow> Inr (s\<lparr>lm_head := Some item\<rparr>)
        | (Some _, None) \<Rightarrow> Inl InvalidList
        | (_, Some t) \<Rightarrow> Inr (s\<lparr>lm_previous := (lm_previous s)(item := Some t), lm_next := (lm_next s)(t := Some item)\<rparr>))
       (\<lambda>s. Inr (s\<lparr>lm_tail := Some item, lm_state := lm_state s + 1\<rparr>))"

definition removeItem ::
  "addr \<Rightarrow> ('k, 'v, 'z) linkedMap_scheme \<Rightarrow> js_error + ('k, 'v, 'z) linkedMap_scheme" where
  "removeItem item s =
     bind_result
       (if lm_head s = Some item \<and> lm_tail s = Some item then Inr (s\<lparr>lm_head := None, lm_tail := None\<rparr>)
        else if lm_head s = Some item then
          (case lm_next s item of
             None \<Rightarrow> Inl InvalidList
           | Some n \<Rightarrow> Inr (s\<lparr>lm_previous := (lm_previous s)(n := None), lm_head := Some n\<rparr>))
        else if lm_tail s = Some item then
          (case lm_previous s item of
             None \<Rightarrow> Inl InvalidList
           | Some p \<Rightarrow> Inr (s\<lparr>lm_next := (lm_next s)(p := None), lm_tail := Some p\<rparr>))
        else
          (case (lm_next s item, lm_previous s item) of
             (Some n, Some p) \<Rightarrow>
               Inr (s\<lparr>lm_previous := (lm_previous s)(n := Some p), lm_next := (lm_next s)(p := Some n)\<rparr>)
           | _ \<Rightarrow> Inl InvalidList))
       (\<lambda>s. Inr (s\<lparr>lm_next := (lm_next s)(item := None), lm_previous := (lm_previous s)(item := None),
                   lm_state := lm_state s + 1\<rparr>))"

definition touchItem ::
  "addr \<Rightarrow> touch \<Rightarrow> ('k, 'v, 'z) linkedMap_scheme \<Rightarrow> js_error + ('k, 'v, 'z) linkedMap_scheme" where
  "touchItem item touch s =
     (case (lm_head s, lm_tail s) of
        (Some head, Some tail) \<Rightarrow>
          (case touch of
             TouchNone \<Rightarrow> Inr s
           | AsOld \<Rightarrow>
               if item = head then Inr s
               else bind_result
                 (if item = tail then
                    (case lm_previous s item of
                       None \<Rightarrow> Inl TypeError
                     | Some p \<Rightarrow> Inr (s\<lparr>lm_next := (lm_next s)(p := None), lm_tail := Some p\<rparr>))
                  else
                    (case (lm_next s item, lm_previous s item) of
                       (Some n, Some p) \<Rightarrow>
                         Inr (s\<lparr>lm_previous := (lm_previous s)(n := Some p), lm_next := (lm_next s)(p := Some n)\<rparr>)
                     | _ \<Rightarrow> Inl TypeError))
                 (\<lambda>s. Inr (s\<lparr>lm_previous := (lm_previous s)(item := None, head := Some item),
                             lm_next := (lm_next s)(item := Some head),
                             lm_head := Some item, lm_state := lm_state s + 1\<rparr>))
           | AsNew \<Rightarrow>
               if item = tail then Inr s
               else bind_result
                 (if item = head then
                    (case lm_next s item of
                       None \<Rightarrow> Inl TypeError
                     | Some n \<Rightarrow> Inr (s\<lparr>lm_previous := (lm_previous s)(n := None), lm_head := Some n\<rparr>))
                  else
                    (case (lm_next s item, lm_previous s item) of
                       (Some n, Some p) \<Rightarrow>
                         Inr (s\<lparr>lm_previous := (lm_previous s)(n := Some p), lm_next := (lm_next s)(p := Some n)\<rparr>)
                     | _ \<Rightarrow> Inl TypeError))
                 (\<lambda>s. Inr (s\<lparr>lm_next := (lm_next s)(item := None, tail := Some item),
                             lm_previous := (lm_previous s)(item := Some tail),
                             lm_tail := Some item, lm_state := lm_state s + 1\<rparr>)))
      | _ \<Rightarrow> Inl InvalidList)"

definition LinkedMap_get ::
  "'k \<Rightarrow> touch \<Rightarrow> ('k, 'v, 'z) linkedMap_scheme \<Rightarrow> js_error + ('k, 'v, 'z) linkedMap_scheme \<times> 'v option" where
  "LinkedMap_get key touch s =
     (case lm_map s key of
        None \<Rightarrow> Inr (s, None)
      | Some item \<Rightarrow>
          bind_result (if touch \<noteq> TouchNone then touchItem item touch s else Inr s)
            (\<lambda>s. Inr (s, lm_value s item)))"

text \<open>The object literal \<open>{ key, value, next: undefined, previous: undefined }\<close>.\<close>

definition new_item :: "'k \<Rightarrow> 'v \<Rightarrow> ('k, 'v, 'z) linkedMap_scheme \<Rightarrow> ('k, 'v, 'z) linkedMap_scheme" where
  "new_item key value s =
     s\<lparr>lm_fresh := lm_fresh s + 1, lm_key := (lm_key s)(lm_fresh s \<mapsto> key), lm_value := (lm_value s)(lm_fresh s \<mapsto> value),
       lm_next := (lm_next s)(lm_fresh s := None), lm_previous := (lm_previous s)(lm_fresh s := None)\<rparr>"

definition LinkedMap_set ::
  "'k \<Rightarrow> 'v \<Rightarrow> touch \<Rightarrow> ('k, 'v, 'z) linkedMap_scheme \<Rightarrow> js_error + ('k, 'v, 'z) linkedMap_scheme" where
  "LinkedMap_set key value touch s =
     (case lm_map s key of
        Some item \<Rightarrow>
          (let s = s\<lparr>lm_value := (lm_value s)(item \<mapsto> value)\<rparr> in
           if touch \<noteq> TouchNone then touchItem item touch s else Inr s)
      | None \<Rightarrow>
          (let item = lm_fresh s;
               s = new_item key value s
           in bind_result
                (case touch of
                   TouchNone \<Rightarrow> addItemLast item s
                 | AsOld \<Rightarrow> addItemFirst item s
                 | AsNew \<Rightarrow> addItemLast item s)
                (\<lambda>s. Inr (s\<lparr>lm_map := (lm_map s)(key \<mapsto> item), lm_size := lm_size s + 1\<rparr>))))"

definition LinkedMap_remove ::
  "'k \<Rightarrow> ('k, 'v, 'z) linkedMap_scheme \<Rightarrow> js_error + ('k, 'v, 'z) linkedMap_scheme \<times> 'v option" where
  "LinkedMap_remove key s =
     (case lm_map s key of
        None \<Rightarrow> Inr (s, None)
      | Some item \<Rightarrow>
          bind_result (removeItem item (s\<lparr>lm_map := (lm_map s)(key := None)\<rparr>))
            (\<lambda>s. Inr (s\<lparr>lm_size := lm_size s - 1\<rparr>, lm_value s item)))"

text \<open>\<open>delete\<close> converts the removed value to a boolean; \<open>truthy\<close> is that conversion.\<close>

definition LinkedMap_delete ::
  "('v \<Rightarrow> bool) \<Rightarrow> 'k \<Rightarrow> ('k, 'v, 'z) linkedMap_scheme \<Rightarrow> js_error + ('k, 'v, 'z) linkedMap_scheme \<times> bool" where
  "LinkedMap_delete truthy key s =
     bind_result (LinkedMap_remove key s)
       (\<lambda>(s, v). Inr (s, case v of None \<Rightarrow> False | Some x \<Rightarrow> truthy x))"

definition LinkedMap_shift ::
  "('k, 'v, 'z) linkedMap_scheme \<Rightarrow> js_error + ('k, 'v, 'z) linkedMap_scheme \<times> 'v option" where
  "LinkedMap_shift s =
     (case (lm_head s, lm_tail s) of
        (None, None) \<Rightarrow> Inr (s, None)
      | (Some item, Some _) \<Rightarrow>
          bind_result (removeItem item (s\<lparr>lm_map := (lm_map s)(the (lm_key s item) := None)\<rparr>))
            (\<lambda>s. Inr (s\<lparr>lm_size := lm_size s - 1\<rparr>, lm_value s item))
      | _ \<Rightarrow> Inl InvalidList)"

text \<open>
  \<open>forEach\<close> runs a callback that may change the map and a state \<open>'c\<close> of its own.  The budget bounds
  the number of calls; the loop needs as many as the map has items, since it stops as soon as a
  callback changes the structure.  \<open>None\<close> is an exhausted budget.
\<close>

fun forEach_loop ::
  "('v \<Rightarrow> 'k \<Rightarrow> ('k, 'v, 'z) linkedMap_scheme \<times> 'c \<Rightarrow> js_error + ('k, 'v, 'z) linkedMap_scheme \<times> 'c) \<Rightarrow> nat \<Rightarrow> nat \<Rightarrow>
   addr option \<Rightarrow> ('k, 'v, 'z) linkedMap_scheme \<times> 'c \<Rightarrow>
   (js_error + ('k, 'v, 'z) linkedMap_scheme \<times> 'c) option" where
  "forEach_loop callbackfn fuel state None sc = Some (Inr sc)"
| "forEach_loop callbackfn 0 state (Some current) sc = None"
| "forEach_loop callbackfn (Suc fuel) state (Some current) sc =
     (case callbackfn (the (lm_value (fst sc) current)) (the (lm_key (fst sc) current)) sc of
        Inl e \<Rightarrow> Some (Inl e)
      | Inr sc' \<Rightarrow>
          if lm_state (fst sc') \<noteq> state then Some (Inl ModifiedDuringIteration)
          else forEach_loop callbackfn fuel state (lm_next (fst sc') current) sc')"

definition LinkedMap_forEach ::
  "('v \<Rightarrow> 'k \<Rightarrow> ('k, 'v, 'z) linkedMap_scheme \<times> 'c \<Rightarrow> js_error + ('k, 'v, 'z) linkedMap_scheme \<times> 'c) \<Rightarrow>
   ('k, 'v, 'z) linkedMap_scheme \<times> 'c \<Rightarrow> (js_error + ('k, 'v, 'z) linkedMap_scheme \<times> 'c) option" where
  "LinkedMap_forEach callbackfn sc =
     forEach_loop callbackfn (lm_fresh (fst sc)) (lm_state (fst sc)) (lm_head (fst sc)) sc"

text \<open>
  An iterator captures the modification counter and the next item.  \<open>next\<close> returns the iterator
  moved on and, unless it is done, the value.  The three iterators differ in what they return.
\<close>

record lm_iterator =
  it_state :: nat
  it_current :: "addr option"

definition LinkedMap_iterator :: "('k, 'v, 'z) linkedMap_scheme \<Rightarrow> lm_iterator" where
  "LinkedMap_iterator s = \<lparr>it_state = lm_state s, it_current = lm_head s\<rparr>"

definition entries_next :: "('k, 'v, 'z) linkedMap_scheme \<Rightarrow> lm_iterator \<Rightarrow> js_error + lm_iterator \<times> ('k \<times> 'v) option" where
  "entries_next s it =
     (if lm_state s \<noteq> it_state it then Inl ModifiedDuringIteration
      else case it_current it of
             Some c \<Rightarrow> Inr (it\<lparr>it_current := lm_next s c\<rparr>, Some (the (lm_key s c), the (lm_value s c)))
           | None \<Rightarrow> Inr (it, None))"

definition keys_next :: "('k, 'v, 'z) linkedMap_scheme \<Rightarrow> lm_iterator \<Rightarrow> js_error + lm_iterator \<times> 'k option" where
  "keys_next s it =
     (if lm_state s \<noteq> it_state it then Inl ModifiedDuringIteration
      else case it_current it of
             Some c \<Rightarrow> Inr (it\<lparr>it_current := lm_next s c\<rparr>, Some (the (lm_key s c)))
           | None \<Rightarrow> Inr (it, None))"

definition values_next :: "('k, 'v, 'z) linkedMap_scheme \<Rightarrow> lm_iterator \<Rightarrow> js_error + lm_iterator \<times> 'v option" where
  "values_next s it =
     (if lm_state s \<noteq> it_state it then Inl ModifiedDuringIteration
      else case it_current it of
             Some c \<Rightarrow> Inr (it\<lparr>it_current := lm_next s c\<rparr>, Some (the (lm_value s c)))
           | None \<Rightarrow> Inr (it, None))"

function trimOld_loop ::
  "links \<Rightarrow> (addr \<rightharpoonup> 'k) \<Rightarrow> int \<Rightarrow> ('k \<rightharpoonup> addr) \<Rightarrow> addr option \<Rightarrow> int \<Rightarrow> ('k \<rightharpoonup> addr) \<times> addr option \<times> int" where
  "trimOld_loop nxt key newSize m current currentSize =
     (case current of
        None \<Rightarrow> (m, current, currentSize)
      | Some c \<Rightarrow>
          if currentSize > newSize
          then trimOld_loop nxt key newSize (m(the (key c) := None)) (nxt c) (currentSize - 1)
          else (m, current, currentSize))"
  by pat_completeness auto

termination trimOld_loop
  by (relation "measure (\<lambda>(nxt, key, newSize, m, current, currentSize). nat (currentSize - newSize))") auto

declare trimOld_loop.simps [simp del]

definition LinkedMap_trimOld :: "int \<Rightarrow> ('k, 'v, 'z) linkedMap_scheme \<Rightarrow> ('k, 'v, 'z) linkedMap_scheme" where
  "LinkedMap_trimOld newSize s =
     (if newSize \<ge> lm_size s then s
      else if newSize = 0 then LinkedMap_clear s
      else case trimOld_loop (lm_next s) (lm_key s) newSize (lm_map s) (lm_head s) (lm_size s) of
             (m, current, currentSize) \<Rightarrow>
               s\<lparr>lm_map := m, lm_head := current, lm_size := currentSize,
                 lm_previous := (case current of None \<Rightarrow> lm_previous s | Some c \<Rightarrow> (lm_previous s)(c := None)),
                 lm_state := lm_state s + 1\<rparr>)"

definition LinkedMap_toJSON :: "('k, 'v, 'z) linkedMap_scheme \<Rightarrow> (js_error + ('k \<times> 'v) list) option" where
  "LinkedMap_toJSON s =
     map_option (\<lambda>r. bind_result r (\<lambda>(_, data). Inr data))
       (LinkedMap_forEach (\<lambda>value key (s, data). Inr (s, data @ [(key, value)])) (s, []))"

fun fromJSON_loop ::
  "('k \<times> 'v) list \<Rightarrow> ('k, 'v, 'z) linkedMap_scheme \<Rightarrow> js_error + ('k, 'v, 'z) linkedMap_scheme" where
  "fromJSON_loop [] s = Inr s"
| "fromJSON_loop ((key, value) # data) s = bind_result (LinkedMap_set key value TouchNone s) (fromJSON_loop data)"

definition LinkedMap_fromJSON ::
  "('k \<times> 'v) list \<Rightarrow> ('k, 'v, 'z) linkedMap_scheme \<Rightarrow> js_error + ('k, 'v, 'z) linkedMap_scheme" where
  "LinkedMap_fromJSON data s = fromJSON_loop data (LinkedMap_clear s)"

section \<open>\<open>LRUCache\<close>\<close>

record ('k, 'v) lruCache = "('k, 'v) linkedMap" +
  lru_limit :: int
  lru_ratio :: rat

definition Math_round :: "rat \<Rightarrow> int" where
  "Math_round x = \<lfloor>x + 1 / 2\<rfloor>"

definition new_LRUCache :: "int \<Rightarrow> rat \<Rightarrow> ('k, 'v) lruCache" where
  "new_LRUCache limit ratio =
     linkedMap.extend new_LinkedMap (lruCache.fields limit (min (max 0 ratio) 1))"

definition LRUCache_checkTrim :: "('k, 'v) lruCache \<Rightarrow> ('k, 'v) lruCache" where
  "LRUCache_checkTrim s =
     (if lm_size s > lru_limit s then LinkedMap_trimOld (Math_round (of_int (lru_limit s) * lru_ratio s)) s else s)"

definition LRUCache_set_limit :: "int \<Rightarrow> ('k, 'v) lruCache \<Rightarrow> ('k, 'v) lruCache" where
  "LRUCache_set_limit limit s = LRUCache_checkTrim (s\<lparr>lru_limit := limit\<rparr>)"

definition LRUCache_set_ratio :: "rat \<Rightarrow> ('k, 'v) lruCache \<Rightarrow> ('k, 'v) lruCache" where
  "LRUCache_set_ratio ratio s = LRUCache_checkTrim (s\<lparr>lru_ratio := min (max 0 ratio) 1\<rparr>)"

definition LRUCache_get :: "'k \<Rightarrow> ('k, 'v) lruCache \<Rightarrow> js_error + ('k, 'v) lruCache \<times> 'v option" where
  "LRUCache_get key s = LinkedMap_get key AsNew s"

definition LRUCache_peek :: "'k \<Rightarrow> ('k, 'v) lruCache \<Rightarrow> js_error + ('k, 'v) lruCache \<times> 'v option" where
  "LRUCache_peek key s = LinkedMap_get key TouchNone s"

definition LRUCache_set :: "'k \<Rightarrow> 'v \<Rightarrow> ('k, 'v) lruCache \<Rightarrow> js_error + ('k, 'v) lruCache" where
  "LRUCache_set key value s = bind_result (LinkedMap_set key value AsNew s) (\<lambda>s. Inr (LRUCache_checkTrim s))"

section \<open>\<open>CounterSet\<close>\<close>

text \<open>A missing key reads as \<open>undefined\<close>, which \<open>|| 0\<close> turns into zero.\<close>

definition CounterSet_add :: "'t \<Rightarrow> ('t \<rightharpoonup> nat) \<Rightarrow> ('t \<rightharpoonup> nat)" where
  "CounterSet_add value m = m(value \<mapsto> (case m value of None \<Rightarrow> 0 | Some n \<Rightarrow> n) + 1)"

definition CounterSet_delete :: "'t \<Rightarrow> ('t \<rightharpoonup> nat) \<Rightarrow> ('t \<rightharpoonup> nat) \<times> bool" where
  "CounterSet_delete value m =
     (let counter = (case m value of None \<Rightarrow> 0 | Some n \<Rightarrow> n) in
      if counter = 0 then (m, False)
      else let counter = counter - 1 in
           if counter = 0 then (m(value := None), True) else (m(value \<mapsto> counter), True))"

definition CounterSet_has :: "'t \<Rightarrow> ('t \<rightharpoonup> nat) \<Rightarrow> bool" where
  "CounterSet_has value m \<longleftrightarrow> m value \<noteq> None"

section \<open>Invariant\<close>

text \<open>
  \<open>lm_nodes s xs\<close>: the items \<open>xs\<close> are linked in this order between \<open>_head\<close> and \<open>_tail\<close>, carry
  distinct keys, and \<open>_map\<close> finds exactly them.
\<close>

definition lm_linked :: "('k, 'v, 'z) linkedMap_scheme \<Rightarrow> addr list \<Rightarrow> bool" where
  "lm_linked s xs \<longleftrightarrow>
     chain (lm_next s) (lm_previous s) None xs None \<and> distinct xs \<and>
     lm_head s = first_of xs None \<and> lm_tail s = last_of None xs"

definition lm_keyed :: "('k, 'v, 'z) linkedMap_scheme \<Rightarrow> addr set \<Rightarrow> bool" where
  "lm_keyed s X \<longleftrightarrow>
     (\<forall>x \<in> X. x < lm_fresh s \<and> lm_key s x \<noteq> None \<and> lm_value s x \<noteq> None) \<and>
     (\<forall>k x. lm_map s k = Some x \<longleftrightarrow> x \<in> X \<and> lm_key s x = Some k)"

definition lm_nodes :: "('k, 'v, 'z) linkedMap_scheme \<Rightarrow> addr list \<Rightarrow> bool" where
  "lm_nodes s xs \<longleftrightarrow> lm_linked s xs \<and> lm_keyed s (set xs) \<and> lm_size s = int (length xs)"

definition lm_entry :: "('k, 'v, 'z) linkedMap_scheme \<Rightarrow> addr \<Rightarrow> 'k \<times> 'v" where
  "lm_entry s x = (the (lm_key s x), the (lm_value s x))"

text \<open>What the link operations leave alone.\<close>

definition lm_frame :: "('k, 'v, 'z) linkedMap_scheme \<Rightarrow> ('k, 'v, 'z) linkedMap_scheme \<Rightarrow> bool" where
  "lm_frame s s' \<longleftrightarrow>
     lm_map s' = lm_map s \<and> lm_size s' = lm_size s \<and> lm_key s' = lm_key s \<and> lm_value s' = lm_value s \<and>
     lm_fresh s' = lm_fresh s \<and> linkedMap.more s' = linkedMap.more s"

section \<open>The link operations\<close>

lemma linked_addItemFirst:
  assumes "lm_linked s xs" "x \<notin> set xs" "lm_next s x = None" "lm_previous s x = None"
  shows "\<exists>s'. addItemFirst x s = Inr s' \<and> lm_linked s' (x # xs) \<and> lm_frame s s' \<and> lm_state s' = Suc (lm_state s)"
  using assms
  by (cases xs) (auto simp: addItemFirst_def lm_linked_def lm_frame_def)

lemma linked_addItemLast:
  assumes "lm_linked s xs" "x \<notin> set xs" "lm_next s x = None" "lm_previous s x = None"
  shows "\<exists>s'. addItemLast x s = Inr s' \<and> lm_linked s' (xs @ [x]) \<and> lm_frame s s' \<and> lm_state s' = Suc (lm_state s)"
proof (cases xs rule: rev_cases)
  case (snoc ys l)
  obtain h where "first_of ys (Some l) = Some h"
    using first_of_Some(2) by blast
  then show ?thesis
    using assms snoc by (auto simp: addItemLast_def lm_linked_def lm_frame_def chain_append)
qed (use assms in \<open>simp add: addItemLast_def lm_linked_def lm_frame_def\<close>)

lemma linked_ends:
  assumes "lm_linked s (ys @ x # zs)"
  shows "lm_head s = Some x \<longleftrightarrow> ys = []" and "lm_tail s = Some x \<longleftrightarrow> zs = []"
    and "lm_next s x = first_of zs None" and "lm_previous s x = last_of None ys"
  using assms by (cases ys; cases zs rule: rev_cases; auto simp: lm_linked_def chain_middle)+

text \<open>Unlinking a middle item, shared by \<open>removeItem\<close> and both directions of \<open>touch\<close>.\<close>

lemma chain_bypass:
  assumes "chain nxt prv None (ys @ p # x # n # zs) None" "distinct (ys @ p # x # n # zs)"
  shows "chain (nxt(p := Some n)) (prv(n := Some p)) None (ys @ p # n # zs) None"
  using chain_unlink_middle [of nxt prv ys p x n zs] assms by simp

lemma linked_removeItem:
  assumes "lm_linked s (ys @ x # zs)"
  shows "\<exists>s'. removeItem x s = Inr s' \<and> lm_linked s' (ys @ zs) \<and> lm_frame s s' \<and> lm_state s' = Suc (lm_state s)"
proof (cases ys rule: rev_cases; cases zs)
  assume "ys = []" "zs = []"
  then show ?thesis
    using assms by (simp add: removeItem_def lm_linked_def lm_frame_def)
next
  fix n zs' assume "ys = []" "zs = n # zs'"
  then show ?thesis
    using assms linked_ends [OF assms] by (auto simp: removeItem_def lm_linked_def lm_frame_def)
next
  fix ys' p assume "ys = ys' @ [p]" "zs = []"
  then show ?thesis
    using assms linked_ends [OF assms] by (auto simp: removeItem_def lm_linked_def lm_frame_def chain_append)
next
  fix ys' p n zs' assume eq: "ys = ys' @ [p]" "zs = n # zs'"
  have "chain ((lm_next s)(p := Some n)) ((lm_previous s)(n := Some p)) None (ys' @ p # n # zs') None"
    using chain_bypass [of "lm_next s" "lm_previous s" ys' p x n zs'] assms eq by (simp add: lm_linked_def)
  then show ?thesis
    using assms linked_ends [OF assms] eq by (simp add: removeItem_def lm_linked_def lm_frame_def)
qed

text \<open>Relinking an unlinked item at either end.\<close>

lemma chain_relink_first:
  assumes "chain nxt prv None (h # ws) None" "distinct (h # ws)" "x \<notin> set (h # ws)"
  shows "chain (nxt(x := Some h)) (prv(x := None, h := Some x)) None (x # h # ws) None"
  using assms by auto

lemma chain_relink_last:
  assumes "chain nxt prv None (ws @ [t]) None" "distinct (ws @ [t])" "x \<notin> set (ws @ [t])"
  shows "chain (nxt(x := None, t := Some x)) (prv(x := Some t)) None (ws @ [t, x]) None"
  using assms by (auto simp: chain_append)

abbreviation relink_first :: "addr \<Rightarrow> addr \<Rightarrow> ('k, 'v, 'z) linkedMap_scheme \<Rightarrow> ('k, 'v, 'z) linkedMap_scheme" where
  "relink_first x h s \<equiv>
     s\<lparr>lm_previous := (lm_previous s)(x := None, h := Some x), lm_next := (lm_next s)(x := Some h),
       lm_head := Some x, lm_state := lm_state s + 1\<rparr>"

abbreviation relink_last :: "addr \<Rightarrow> addr \<Rightarrow> ('k, 'v, 'z) linkedMap_scheme \<Rightarrow> ('k, 'v, 'z) linkedMap_scheme" where
  "relink_last x t s \<equiv>
     s\<lparr>lm_next := (lm_next s)(x := None, t := Some x), lm_previous := (lm_previous s)(x := Some t),
       lm_tail := Some x, lm_state := lm_state s + 1\<rparr>"

lemma touchItem_AsOld_unlinks:
  assumes "lm_linked s (ys @ x # zs)" "ys \<noteq> []" "lm_head s = Some h"
  shows "\<exists>s1. touchItem x AsOld s = Inr (relink_first x h s1) \<and> lm_linked s1 (ys @ zs) \<and> lm_frame s s1 \<and>
              lm_state s1 = lm_state s"
proof -
  obtain t where t: "lm_tail s = Some t"
    using assms(1) by (auto simp: lm_linked_def last_of_def)
  obtain ys' p where p: "ys = ys' @ [p]"
    using assms(2) by (metis rev_exhaust)
  note e = linked_ends [OF assms(1), unfolded t option.inject]
  have x: "x \<noteq> h"
    using e(1) assms(2,3) by auto
  show ?thesis
  proof (cases zs)
    case Nil
    have "chain ((lm_next s)(p := None)) (lm_previous s) None (ys' @ [p]) None"
      using chain_unlink_last [of "lm_next s" "lm_previous s" ys' p x] assms(1) Nil p by (simp add: lm_linked_def)
    then have "lm_linked (s\<lparr>lm_next := (lm_next s)(p := None), lm_tail := Some p\<rparr>) (ys @ zs)"
      using assms(1) Nil p by (simp add: lm_linked_def)
    then show ?thesis
      using assms(3) e x Nil p
      by (intro exI [of _ "s\<lparr>lm_next := (lm_next s)(p := None), lm_tail := Some p\<rparr>"]) (simp add: touchItem_def t lm_frame_def)
  next
    case (Cons n zs')
    have "chain ((lm_next s)(p := Some n)) ((lm_previous s)(n := Some p)) None (ys' @ p # n # zs') None"
      using chain_bypass [of "lm_next s" "lm_previous s" ys' p x n zs'] assms(1) Cons p by (simp add: lm_linked_def)
    then have "lm_linked (s\<lparr>lm_previous := (lm_previous s)(n := Some p), lm_next := (lm_next s)(p := Some n)\<rparr>) (ys @ zs)"
      using assms(1) Cons p by (simp add: lm_linked_def)
    then show ?thesis
      using assms(3) e x Cons p
      by (intro exI [of _ "s\<lparr>lm_previous := (lm_previous s)(n := Some p), lm_next := (lm_next s)(p := Some n)\<rparr>"]) (simp add: touchItem_def t lm_frame_def)
  qed
qed

lemma linked_touchItem_AsOld:
  assumes "lm_linked s (ys @ x # zs)"
  shows "\<exists>s'. touchItem x AsOld s = Inr s' \<and> lm_linked s' (x # ys @ zs) \<and> lm_frame s s' \<and>
              lm_state s' = (if ys = [] then lm_state s else Suc (lm_state s))"
proof (cases ys)
  case Nil
  then show ?thesis
    using assms by (cases zs rule: rev_cases) (auto simp: touchItem_def lm_linked_def lm_frame_def)
next
  case (Cons h ws)
  then have "lm_head s = Some h"
    using assms by (simp add: lm_linked_def)
  then obtain s1 where s1: "touchItem x AsOld s = Inr (relink_first x h s1)" "lm_linked s1 (ys @ zs)"
    "lm_frame s s1" "lm_state s1 = lm_state s"
    using touchItem_AsOld_unlinks [OF assms] Cons by blast
  moreover have "lm_linked (relink_first x h s1) (x # ys @ zs)"
    using s1(2) chain_relink_first [of "lm_next s1" "lm_previous s1" h "ws @ zs" x] Cons assms
    by (auto simp: lm_linked_def last_of_def)
  ultimately show ?thesis
    using Cons by (auto simp: lm_frame_def)
qed

lemma touchItem_AsNew_unlinks:
  assumes "lm_linked s (ys @ x # zs)" "zs \<noteq> []" "lm_tail s = Some t"
  shows "\<exists>s1. touchItem x AsNew s = Inr (relink_last x t s1) \<and> lm_linked s1 (ys @ zs) \<and> lm_frame s s1 \<and>
              lm_state s1 = lm_state s"
proof -
  obtain h where h: "lm_head s = Some h"
    using assms(1) by (cases ys) (auto simp: lm_linked_def)
  obtain n zs' where n: "zs = n # zs'"
    using assms(2) by (cases zs) auto
  note e = linked_ends [OF assms(1), unfolded h option.inject]
  have x: "x \<noteq> t"
    using e(2) assms(2,3) by auto
  show ?thesis
  proof (cases ys rule: rev_cases)
    case Nil
    have "lm_linked (s\<lparr>lm_previous := (lm_previous s)(n := None), lm_head := Some n\<rparr>) (ys @ zs)"
      using assms(1) Nil n by (auto simp: lm_linked_def)
    then show ?thesis
      using assms(3) e x Nil n
      by (intro exI [of _ "s\<lparr>lm_previous := (lm_previous s)(n := None), lm_head := Some n\<rparr>"]) (simp add: touchItem_def h lm_frame_def)
  next
    case (snoc ys' p)
    have "chain ((lm_next s)(p := Some n)) ((lm_previous s)(n := Some p)) None (ys' @ p # n # zs') None"
      using chain_bypass [of "lm_next s" "lm_previous s" ys' p x n zs'] assms(1) snoc n by (simp add: lm_linked_def)
    then have "lm_linked (s\<lparr>lm_previous := (lm_previous s)(n := Some p), lm_next := (lm_next s)(p := Some n)\<rparr>) (ys @ zs)"
      using assms(1) snoc n by (simp add: lm_linked_def)
    then show ?thesis
      using assms(3) e x snoc n
      by (intro exI [of _ "s\<lparr>lm_previous := (lm_previous s)(n := Some p), lm_next := (lm_next s)(p := Some n)\<rparr>"]) (simp add: touchItem_def h lm_frame_def)
  qed
qed

lemma linked_touchItem_AsNew:
  assumes "lm_linked s (ys @ x # zs)"
  shows "\<exists>s'. touchItem x AsNew s = Inr s' \<and> lm_linked s' (ys @ zs @ [x]) \<and> lm_frame s s' \<and>
              lm_state s' = (if zs = [] then lm_state s else Suc (lm_state s))"
proof (cases zs rule: rev_cases)
  case Nil
  then show ?thesis
    using assms by (cases ys) (auto simp: touchItem_def lm_linked_def lm_frame_def)
next
  case (snoc ws t)
  then have "lm_tail s = Some t"
    using assms by (simp add: lm_linked_def)
  then obtain s1 where s1: "touchItem x AsNew s = Inr (relink_last x t s1)" "lm_linked s1 (ys @ zs)"
    "lm_frame s s1" "lm_state s1 = lm_state s"
    using touchItem_AsNew_unlinks [OF assms] snoc by blast
  moreover have "lm_linked (relink_last x t s1) (ys @ zs @ [x])"
    using s1(2) chain_relink_last [of "lm_next s1" "lm_previous s1" "ys @ ws" t x] snoc assms
    by (auto simp: lm_linked_def)
  ultimately show ?thesis
    using snoc by (auto simp: lm_frame_def)
qed

section \<open>The map as an ordered association list\<close>

definition lm_repr :: "('k, 'v, 'z) linkedMap_scheme \<Rightarrow> ('k \<times> 'v) list \<Rightarrow> bool" where
  "lm_repr s al \<longleftrightarrow> (\<exists>xs. lm_nodes s xs \<and> al = map (lm_entry s) xs)"

definition al_delete :: "'k \<Rightarrow> ('k \<times> 'v) list \<Rightarrow> ('k \<times> 'v) list" where
  "al_delete k al = filter (\<lambda>e. fst e \<noteq> k) al"

definition al_replace :: "'k \<Rightarrow> 'v \<Rightarrow> ('k \<times> 'v) list \<Rightarrow> ('k \<times> 'v) list" where
  "al_replace k v al = map (\<lambda>e. if fst e = k then (k, v) else e) al"

definition al_touch :: "touch \<Rightarrow> 'k \<Rightarrow> ('k \<times> 'v) list \<Rightarrow> ('k \<times> 'v) list" where
  "al_touch t k al =
     (case map_of al k of
        None \<Rightarrow> al
      | Some v \<Rightarrow> (case t of TouchNone \<Rightarrow> al | AsOld \<Rightarrow> (k, v) # al_delete k al | AsNew \<Rightarrow> al_delete k al @ [(k, v)]))"

definition al_set :: "'k \<Rightarrow> 'v \<Rightarrow> touch \<Rightarrow> ('k \<times> 'v) list \<Rightarrow> ('k \<times> 'v) list" where
  "al_set k v t al =
     (if map_of al k = None then (if t = AsOld then (k, v) # al else al @ [(k, v)])
      else al_touch t k (al_replace k v al))"

definition al_trim :: "int \<Rightarrow> ('k \<times> 'v) list \<Rightarrow> ('k \<times> 'v) list" where
  "al_trim n al = drop (length al - nat n) al"

lemma al_split [simp]:
  assumes "k \<notin> fst ` set A" "k \<notin> fst ` set B"
  shows "al_delete k (A @ (k, v) # B) = A @ B" "al_replace k w (A @ (k, v) # B) = A @ (k, w) # B"
    and "map_of (A @ (k, v) # B) k = Some v" "map_of A k = None"
proof -
  have "al_delete k C = C" "al_replace k w C = C" if "k \<notin> fst ` set C" for C :: "('a \<times> 'b) list"
    using that by (auto simp: al_delete_def al_replace_def filter_id_conv image_iff intro!: map_idI)
  with assms show "al_delete k (A @ (k, v) # B) = A @ B" "al_replace k w (A @ (k, v) # B) = A @ (k, w) # B"
    by (auto simp: al_delete_def al_replace_def)
  show "map_of A k = None"
    using assms by (simp add: map_of_eq_None_iff)
  then show "map_of (A @ (k, v) # B) k = Some v"
    by (simp add: map_add_def)
qed

lemma al_touch_split [simp]:
  assumes "k \<notin> fst ` set A" "k \<notin> fst ` set B"
  shows "al_touch t k (A @ (k, v) # B) =
           (case t of TouchNone \<Rightarrow> A @ (k, v) # B | AsOld \<Rightarrow> (k, v) # A @ B | AsNew \<Rightarrow> A @ B @ [(k, v)])"
  by (simp only: al_touch_def al_split [OF assms] option.case append_assoc)

lemma al_set_split [simp]:
  assumes "k \<notin> fst ` set A" "k \<notin> fst ` set B"
  shows "al_set k w t (A @ (k, v) # B) = al_touch t k (A @ (k, w) # B)"
  by (simp only: al_set_def al_split [OF assms] option.simps if_False)

lemma lm_frame_entry: "lm_frame s s' \<Longrightarrow> lm_entry s' = lm_entry s"
  by (simp add: lm_frame_def lm_entry_def fun_eq_iff)

lemma lm_frame_keyed: "lm_frame s s' \<Longrightarrow> lm_keyed s' X = lm_keyed s X"
  by (simp add: lm_frame_def lm_keyed_def)

lemma lm_frame_nodes: "lm_frame s s' \<Longrightarrow> lm_linked s' ys \<Longrightarrow> lm_nodes s xs \<Longrightarrow> set ys = set xs \<Longrightarrow> lm_nodes s' ys"
  using distinct_card [of xs] distinct_card [of ys]
  by (auto simp: lm_nodes_def lm_frame_keyed lm_linked_def) (simp add: lm_frame_def)

lemma lm_entry_value: "lm_keyed s X \<Longrightarrow> x \<in> X \<Longrightarrow> lm_value s x = Some (snd (lm_entry s x))"
  by (auto simp: lm_keyed_def lm_entry_def)

lemma lm_key_map: "lm_nodes s xs \<Longrightarrow> y \<in> set xs \<Longrightarrow> lm_map s (fst (lm_entry s y)) = Some y"
  by (auto simp: lm_nodes_def lm_keyed_def lm_entry_def)

text \<open>A key found by \<open>_map\<close> splits the order of the items at one place.\<close>

lemma lm_lookup_split:
  assumes "lm_nodes s xs" "lm_map s k = Some x"
  obtains ys zs v where "xs = ys @ x # zs" "lm_entry s x = (k, v)" "lm_key s x = Some k" "lm_value s x = Some v"
    "k \<notin> fst ` set (map (lm_entry s) ys)" "k \<notin> fst ` set (map (lm_entry s) zs)"
proof -
  have x: "x \<in> set xs" "lm_key s x = Some k"
    using assms by (auto simp: lm_nodes_def lm_keyed_def)
  then obtain ys zs where xs: "xs = ys @ x # zs"
    by (meson split_list)
  have "k \<noteq> fst (lm_entry s y)" if "y \<in> set xs" "y \<noteq> x" for y
    using lm_key_map [OF assms(1) that(1)] assms(2) that(2) by auto
  moreover have "x \<notin> set ys" "x \<notin> set zs"
    using assms(1) xs by (auto simp: lm_nodes_def lm_linked_def)
  moreover obtain v where "lm_value s x = Some v"
    using assms(1) x(1) by (auto simp: lm_nodes_def lm_keyed_def)
  ultimately have "k \<notin> fst ` set (map (lm_entry s) ys)" "k \<notin> fst ` set (map (lm_entry s) zs)" "\<exists>v. lm_value s x = Some v"
    using xs by (auto simp: image_image)
  with that [OF xs] x(2) show thesis
    by (auto simp: lm_entry_def)
qed

lemma lm_lookup_None:
  assumes "lm_nodes s xs" "lm_map s k = None"
  shows "map_of (map (lm_entry s) xs) k = None"
  using lm_key_map [OF assms(1)] assms(2) by (fastforce simp: map_of_eq_None_iff)

lemma lm_repr_lookup:
  assumes "lm_repr s al"
  shows "LinkedMap_has s k \<longleftrightarrow> map_of al k \<noteq> None" and "lm_size s = int (length al)"
    and "LinkedMap_isEmpty s \<longleftrightarrow> al = []" and "distinct (map fst al)"
    and "LinkedMap_first s = (case al of [] \<Rightarrow> None | e # _ \<Rightarrow> Some (snd e))"
    and "LinkedMap_last s = (if al = [] then None else Some (snd (last al)))"
proof -
  obtain xs where xs: "lm_nodes s xs" and al: "al = map (lm_entry s) xs"
    using assms by (auto simp: lm_repr_def)
  show "LinkedMap_has s k \<longleftrightarrow> map_of al k \<noteq> None"
  proof (cases "lm_map s k")
    case None
    then show ?thesis
      using lm_lookup_None [OF xs] by (simp add: LinkedMap_has_def al)
  next
    case (Some x)
    then show ?thesis
      by (rule lm_lookup_split [OF xs]) (simp add: LinkedMap_has_def al Some)
  qed
  show "lm_size s = int (length al)" "LinkedMap_isEmpty s \<longleftrightarrow> al = []"
    using xs by (auto simp: lm_nodes_def lm_linked_def al LinkedMap_isEmpty_def first_of_eq_None)
  have "inj_on (\<lambda>x. fst (lm_entry s x)) (set xs)"
    by (rule inj_onI) (metis lm_key_map [OF xs] option.inject)
  then show "distinct (map fst al)"
    using xs by (simp add: al distinct_map lm_nodes_def lm_linked_def comp_def)
  have v: "x \<in> set xs \<Longrightarrow> lm_value s x = Some (snd (lm_entry s x))" for x
    using xs by (auto simp: lm_nodes_def intro: lm_entry_value)
  show "LinkedMap_first s = (case al of [] \<Rightarrow> None | e # _ \<Rightarrow> Some (snd e))"
    using xs v by (cases xs) (simp_all add: LinkedMap_first_def al lm_nodes_def lm_linked_def)
  show "LinkedMap_last s = (if al = [] then None else Some (snd (last al)))"
    using xs v by (cases xs rule: rev_cases) (simp_all add: LinkedMap_last_def al lm_nodes_def lm_linked_def)
qed

text \<open>The operations on the represented list.  None of them throws.\<close>

lemma lm_repr_new: "lm_repr new_LinkedMap []"
  by (auto simp: lm_repr_def new_LinkedMap_def lm_nodes_def lm_linked_def lm_keyed_def)

lemma lm_repr_clear: "lm_repr (LinkedMap_clear s) []" "linkedMap.more (LinkedMap_clear s) = linkedMap.more s"
  by (auto simp: lm_repr_def LinkedMap_clear_def lm_nodes_def lm_linked_def lm_keyed_def)

lemma touchItem_None: "lm_linked s (ys @ x # zs) \<Longrightarrow> touchItem x TouchNone s = Inr s"
  by (cases ys; cases zs rule: rev_cases) (auto simp: touchItem_def lm_linked_def)

lemma lm_nodes_touch:
  assumes "lm_nodes s xs" "lm_map s k = Some x"
  shows "\<exists>s' xs'. touchItem x t s = Inr s' \<and> lm_nodes s' xs' \<and> map (lm_entry s') xs' = al_touch t k (map (lm_entry s) xs) \<and>
                 lm_frame s s' \<and> lm_state s \<le> lm_state s' \<and> (lm_state s' = lm_state s \<longrightarrow> xs' = xs \<and> lm_next s' = lm_next s)"
proof -
  obtain ys zs v where sp: "xs = ys @ x # zs" "lm_entry s x = (k, v)"
    "k \<notin> fst ` set (map (lm_entry s) ys)" "k \<notin> fst ` set (map (lm_entry s) zs)"
    using lm_lookup_split [OF assms] by metis
  have li: "lm_linked s (ys @ x # zs)"
    using assms(1) sp(1) by (simp add: lm_nodes_def)
  show ?thesis
  proof (cases t)
    case TouchNone
    then show ?thesis
      using touchItem_None [OF li] assms(1)
      by (auto simp: al_touch_def lm_frame_def split: option.split)
  next
    case AsOld
    obtain s' where s': "touchItem x AsOld s = Inr s'" "lm_linked s' (x # ys @ zs)" "lm_frame s s'"
      "lm_state s' = (if ys = [] then lm_state s else Suc (lm_state s))"
      using linked_touchItem_AsOld [OF li] by blast
    have "ys = [] \<Longrightarrow> s' = s"
      using s'(1) li by (cases zs rule: rev_cases) (auto simp: touchItem_def lm_linked_def)
    moreover have "lm_nodes s' (x # ys @ zs)"
      using lm_frame_nodes [OF s'(3,2) assms(1)] sp(1) by auto
    moreover have "map (lm_entry s') (x # ys @ zs) = al_touch AsOld k (map (lm_entry s) xs)"
      using sp by (simp add: lm_frame_entry [OF s'(3)])
    ultimately show ?thesis
      using s' sp(1) AsOld by (intro exI [of _ s'] exI [of _ "x # ys @ zs"]) (simp split: if_splits)
  next
    case AsNew
    obtain s' where s': "touchItem x AsNew s = Inr s'" "lm_linked s' (ys @ zs @ [x])" "lm_frame s s'"
      "lm_state s' = (if zs = [] then lm_state s else Suc (lm_state s))"
      using linked_touchItem_AsNew [OF li] by blast
    have "zs = [] \<Longrightarrow> s' = s"
      using s'(1) li by (cases ys) (auto simp: touchItem_def lm_linked_def)
    moreover have "lm_nodes s' (ys @ zs @ [x])"
      using lm_frame_nodes [OF s'(3,2) assms(1)] sp(1) by auto
    moreover have "map (lm_entry s') (ys @ zs @ [x]) = al_touch AsNew k (map (lm_entry s) xs)"
      using sp by (simp add: lm_frame_entry [OF s'(3)])
    ultimately show ?thesis
      using s' sp(1) AsNew by (intro exI [of _ s'] exI [of _ "ys @ zs @ [x]"]) (simp split: if_splits)
  qed
qed

text \<open>
  \<open>lm_step s xs s' xs'\<close>: the new state is well linked, and the modification counter has grown
  unless the order of the items, their links and their keys are what they were.
\<close>

definition lm_step ::
  "('k, 'v, 'z) linkedMap_scheme \<Rightarrow> addr list \<Rightarrow> ('k, 'v, 'z) linkedMap_scheme \<Rightarrow> addr list \<Rightarrow> bool" where
  "lm_step s xs s' xs' \<longleftrightarrow>
     lm_nodes s' xs' \<and> linkedMap.more s' = linkedMap.more s \<and> lm_state s \<le> lm_state s' \<and>
     (lm_state s' = lm_state s \<longrightarrow> xs' = xs \<and> (\<forall>x \<in> set xs. lm_key s' x = lm_key s x))"

lemma lm_nodes_get:
  assumes "lm_nodes s xs"
  shows "\<exists>s' xs'. LinkedMap_get k t s = Inr (s', map_of (map (lm_entry s) xs) k) \<and> lm_step s xs s' xs' \<and>
                 map (lm_entry s') xs' = al_touch t k (map (lm_entry s) xs)"
proof (cases "lm_map s k")
  case None
  then show ?thesis
    using assms lm_lookup_None [OF assms None] by (auto simp: LinkedMap_get_def lm_step_def al_touch_def)
next
  case (Some x)
  then obtain ys zs v where sp: "xs = ys @ x # zs" "lm_entry s x = (k, v)" "lm_value s x = Some v"
    "k \<notin> fst ` set (map (lm_entry s) ys)" "k \<notin> fst ` set (map (lm_entry s) zs)"
    using lm_lookup_split [OF assms Some] by metis
  have v: "map_of (map (lm_entry s) xs) k = Some v"
    using al_split(3) [OF sp(4,5)] by (simp only: sp(1,2) map_append list.map)
  obtain s' xs' where s': "touchItem x t s = Inr s'" "lm_nodes s' xs'"
    "map (lm_entry s') xs' = al_touch t k (map (lm_entry s) xs)" "lm_frame s s'" "lm_state s \<le> lm_state s'"
    "lm_state s' = lm_state s \<longrightarrow> xs' = xs \<and> lm_next s' = lm_next s"
    using lm_nodes_touch [OF assms Some, of t] by blast
  have "touchItem x TouchNone s = Inr s"
    using touchItem_None assms sp(1) by (auto simp: lm_nodes_def)
  then have "LinkedMap_get k t s = Inr (s', Some v)"
    using s'(1,4) sp(3) Some by (cases t) (auto simp: LinkedMap_get_def lm_frame_def)
  with s' v show ?thesis
    by (auto simp: lm_step_def lm_frame_def)
qed

lemma lm_nodes_value_update:
  assumes "lm_nodes s xs" "lm_map s k = Some x"
  shows "lm_nodes (s\<lparr>lm_value := (lm_value s)(x \<mapsto> v)\<rparr>) xs"
    and "map (lm_entry (s\<lparr>lm_value := (lm_value s)(x \<mapsto> v)\<rparr>)) xs = al_replace k v (map (lm_entry s) xs)"
proof -
  show "lm_nodes (s\<lparr>lm_value := (lm_value s)(x \<mapsto> v)\<rparr>) xs"
    using assms(1) by (auto simp: lm_nodes_def lm_linked_def lm_keyed_def)
  have x: "lm_key s x = Some k"
    using assms by (auto simp: lm_nodes_def lm_keyed_def)
  have "lm_entry (s\<lparr>lm_value := (lm_value s)(x \<mapsto> v)\<rparr>) y =
          (if fst (lm_entry s y) = k then (k, v) else lm_entry s y)" if "y \<in> set xs" for y
    using lm_key_map [OF assms(1) that] assms(2) x by (auto simp: lm_entry_def)
  then show "map (lm_entry (s\<lparr>lm_value := (lm_value s)(x \<mapsto> v)\<rparr>)) xs = al_replace k v (map (lm_entry s) xs)"
    by (auto simp: al_replace_def)
qed

lemma lm_nodes_add:
  assumes "lm_nodes s xs" "lm_map s k = None"
    and "lm_frame (new_item k v s) s'" "lm_linked s' xs'" "set xs' = insert (lm_fresh s) (set xs)"
  shows "lm_nodes (s'\<lparr>lm_map := (lm_map s')(k \<mapsto> lm_fresh s), lm_size := lm_size s' + 1\<rparr>) xs'"
proof -
  have x: "lm_fresh s \<notin> set xs" and keyed: "lm_keyed s (set xs)"
    using assms(1) by (auto simp: lm_nodes_def lm_keyed_def)
  have "length xs' = card (set xs')"
    using assms(4) by (simp add: lm_linked_def distinct_card)
  also have "\<dots> = length xs + 1"
    using x assms(1) by (simp add: assms(5) distinct_card lm_nodes_def lm_linked_def)
  finally have len: "length xs' = length xs + 1" .
  have "\<not> (x \<in> set xs \<and> lm_key s x = Some k)" for x
    using keyed assms(2) by (metis lm_keyed_def option.distinct(1))
  then have "lm_keyed (s'\<lparr>lm_map := (lm_map s')(k \<mapsto> lm_fresh s), lm_size := lm_size s' + 1\<rparr>) (set xs')"
    using keyed assms(2,3) x unfolding lm_keyed_def assms(5) new_item_def lm_frame_def
    by (auto simp: less_Suc_eq)
  then show ?thesis
    using assms(1,3,4) len by (simp add: lm_nodes_def lm_linked_def new_item_def lm_frame_def)
qed

lemma new_item_entries:
  assumes "lm_nodes s xs" "lm_frame (new_item k v s) s'"
  shows "map (lm_entry (s'\<lparr>lm_map := m, lm_size := n\<rparr>)) xs = map (lm_entry s) xs"
    and "lm_entry (s'\<lparr>lm_map := m, lm_size := n\<rparr>) (lm_fresh s) = (k, v)"
  using assms by (auto simp: lm_entry_def lm_frame_def new_item_def lm_nodes_def lm_keyed_def)

lemma new_item_linked:
  assumes "lm_nodes s xs"
  shows "lm_linked (new_item k v s) xs" "lm_fresh s \<notin> set xs"
    "lm_next (new_item k v s) (lm_fresh s) = None" "lm_previous (new_item k v s) (lm_fresh s) = None"
    "lm_state (new_item k v s) = lm_state s" "linkedMap.more (new_item k v s) = linkedMap.more s"
  using assms by (auto simp: lm_linked_def new_item_def lm_nodes_def lm_keyed_def)

lemma lm_nodes_set_new:
  assumes "lm_nodes s xs" "lm_map s k = None"
  shows "\<exists>s' xs'. LinkedMap_set k v t s = Inr s' \<and> lm_step s xs s' xs' \<and>
                 map (lm_entry s') xs' = al_set k v t (map (lm_entry s) xs)"
proof -
  let ?add = "case t of TouchNone \<Rightarrow> addItemLast (lm_fresh s) (new_item k v s)
                | AsOld \<Rightarrow> addItemFirst (lm_fresh s) (new_item k v s) | AsNew \<Rightarrow> addItemLast (lm_fresh s) (new_item k v s)"
  let ?xs = "if t = AsOld then lm_fresh s # xs else xs @ [lm_fresh s]"
  have "\<exists>s1. ?add = Inr s1 \<and> lm_linked s1 ?xs \<and> lm_frame (new_item k v s) s1 \<and> lm_state s1 = Suc (lm_state s)"
    using linked_addItemFirst [OF new_item_linked(1-4) [OF assms(1)], of k v]
      linked_addItemLast [OF new_item_linked(1-4) [OF assms(1)], of k v] new_item_linked(5) [OF assms(1)]
    by (cases t) simp_all
  then obtain s1 where s1: "?add = Inr s1" "lm_linked s1 ?xs" "lm_frame (new_item k v s) s1"
    "lm_state s1 = Suc (lm_state s)"
    by blast
  let ?s = "s1\<lparr>lm_map := (lm_map s1)(k \<mapsto> lm_fresh s), lm_size := lm_size s1 + 1\<rparr>"
  have "LinkedMap_set k v t s = Inr ?s"
    using s1(1) by (simp add: LinkedMap_set_def assms(2) Let_def)
  moreover have "lm_step s xs ?s ?xs"
    using lm_nodes_add [OF assms s1(3,2)] s1(3,4) new_item_linked(6) [OF assms(1)]
    by (simp add: lm_step_def lm_frame_def)
  moreover have "map (lm_entry ?s) ?xs = al_set k v t (map (lm_entry s) xs)"
    using new_item_entries [OF assms(1) s1(3)] lm_lookup_None [OF assms] by (simp add: al_set_def)
  ultimately show ?thesis
    by blast
qed

lemma lm_nodes_set_existing:
  assumes "lm_nodes s xs" "lm_map s k = Some x"
  shows "\<exists>s' xs'. LinkedMap_set k v t s = Inr s' \<and> lm_step s xs s' xs' \<and>
                 map (lm_entry s') xs' = al_set k v t (map (lm_entry s) xs)"
proof -
  let ?s = "s\<lparr>lm_value := (lm_value s)(x \<mapsto> v)\<rparr>"
  have n: "lm_nodes ?s xs" and e: "map (lm_entry ?s) xs = al_replace k v (map (lm_entry s) xs)"
    using lm_nodes_value_update [OF assms] by blast+
  have m: "lm_map ?s k = Some x"
    using assms(2) by simp
  obtain s' xs' where s': "touchItem x t ?s = Inr s'" "lm_nodes s' xs'"
    "map (lm_entry s') xs' = al_touch t k (map (lm_entry ?s) xs)" "lm_frame ?s s'" "lm_state ?s \<le> lm_state s'"
    "lm_state s' = lm_state ?s \<longrightarrow> xs' = xs \<and> lm_next s' = lm_next ?s"
    using lm_nodes_touch [OF n m, of t] by blast
  have "map_of (map (lm_entry s) xs) k \<noteq> None"
    using lm_repr_lookup(1) [of s "map (lm_entry s) xs" k] assms by (auto simp: lm_repr_def LinkedMap_has_def)
  then have "al_set k v t (map (lm_entry s) xs) = map (lm_entry s') xs'"
    using s'(3) e by (auto simp: al_set_def)
  moreover have "LinkedMap_set k v t s = Inr s'"
  proof (cases "t = TouchNone")
    case True
    obtain ys zs where "xs = ys @ x # zs"
      using lm_lookup_split [OF n m] by metis
    then have "touchItem x TouchNone ?s = Inr ?s"
      using touchItem_None n by (auto simp: lm_nodes_def)
    with True s'(1) show ?thesis
      by (simp add: LinkedMap_set_def assms(2) Let_def)
  qed (use s'(1) in \<open>simp add: LinkedMap_set_def assms(2) Let_def\<close>)
  ultimately show ?thesis
    using s'(2,4-6) by (auto simp: lm_step_def lm_frame_def)
qed

lemma lm_nodes_set:
  assumes "lm_nodes s xs"
  shows "\<exists>s' xs'. LinkedMap_set k v t s = Inr s' \<and> lm_step s xs s' xs' \<and>
                 map (lm_entry s') xs' = al_set k v t (map (lm_entry s) xs)"
  using lm_nodes_set_new [OF assms] lm_nodes_set_existing [OF assms] by (cases "lm_map s k") blast+

text \<open>Deleting the key of an item and unlinking it.\<close>

lemma lm_nodes_unlink:
  assumes "lm_nodes s (ys @ x # zs)" "lm_key s x = Some k"
  shows "\<exists>s'. removeItem x (s\<lparr>lm_map := (lm_map s)(k := None)\<rparr>) = Inr s' \<and>
              lm_step s (ys @ x # zs) (s'\<lparr>lm_size := lm_size s' - 1\<rparr>) (ys @ zs) \<and>
              map (lm_entry (s'\<lparr>lm_size := lm_size s' - 1\<rparr>)) (ys @ zs) = map (lm_entry s) (ys @ zs) \<and>
              lm_value s' = lm_value s"
proof -
  let ?s = "s\<lparr>lm_map := (lm_map s)(k := None)\<rparr>"
  have "lm_linked ?s (ys @ x # zs)"
    using assms(1) by (simp add: lm_nodes_def lm_linked_def)
  then obtain s' where s': "removeItem x ?s = Inr s'" "lm_linked s' (ys @ zs)" "lm_frame ?s s'"
    "lm_state s' = Suc (lm_state s)"
    using linked_removeItem [of ?s ys x zs] by auto
  have keyed: "lm_keyed s (set (ys @ x # zs))" and dist: "x \<notin> set (ys @ zs)"
    using assms(1) by (auto simp: lm_nodes_def lm_linked_def)
  have "lm_key s y \<noteq> Some k" if "y \<in> set (ys @ zs)" for y
    using keyed assms(2) dist that unfolding lm_keyed_def
    by (metis UnCI insertCI list.set(2) option.inject set_append Un_iff insert_iff)
  then have "lm_keyed (s'\<lparr>lm_size := lm_size s' - 1\<rparr>) (set (ys @ zs))"
    using keyed s'(3) assms(2) unfolding lm_keyed_def lm_frame_def by auto
  with s' show ?thesis
    using assms(1)
    by (auto simp: lm_step_def lm_nodes_def lm_linked_def lm_frame_def lm_entry_def)
qed

lemma lm_nodes_remove:
  assumes "lm_nodes s xs"
  shows "\<exists>s' xs'. LinkedMap_remove k s = Inr (s', map_of (map (lm_entry s) xs) k) \<and> lm_step s xs s' xs' \<and>
                 map (lm_entry s') xs' = al_delete k (map (lm_entry s) xs)"
proof (cases "lm_map s k")
  case None
  then have "map_of (map (lm_entry s) xs) k = None"
    by (rule lm_lookup_None [OF assms])
  moreover from this have "al_delete k (map (lm_entry s) xs) = map (lm_entry s) xs"
    by (auto simp: al_delete_def filter_id_conv map_of_eq_None_iff image_iff)
  ultimately show ?thesis
    using assms None by (auto simp: LinkedMap_remove_def lm_step_def)
next
  case (Some x)
  then obtain ys zs v where sp: "xs = ys @ x # zs" "lm_entry s x = (k, v)" "lm_value s x = Some v"
    "lm_key s x = Some k" "k \<notin> fst ` set (map (lm_entry s) ys)" "k \<notin> fst ` set (map (lm_entry s) zs)"
    using lm_lookup_split [OF assms Some] by metis
  have v: "map_of (map (lm_entry s) xs) k = Some v" "al_delete k (map (lm_entry s) xs) = map (lm_entry s) (ys @ zs)"
    using al_split(1,3) [OF sp(5,6)] by (simp_all only: sp(1,2) map_append list.map)
  obtain s' where s': "removeItem x (s\<lparr>lm_map := (lm_map s)(k := None)\<rparr>) = Inr s'"
    "lm_step s xs (s'\<lparr>lm_size := lm_size s' - 1\<rparr>) (ys @ zs)"
    "map (lm_entry (s'\<lparr>lm_size := lm_size s' - 1\<rparr>)) (ys @ zs) = map (lm_entry s) (ys @ zs)"
    "lm_value s' = lm_value s"
    using lm_nodes_unlink [of s ys x zs k] assms sp(1,4) by blast
  have "LinkedMap_remove k s = Inr (s'\<lparr>lm_size := lm_size s' - 1\<rparr>, map_of (map (lm_entry s) xs) k)"
    unfolding v(1) using s'(1,4) sp(3) Some by (simp add: LinkedMap_remove_def)
  with s'(2,3) show ?thesis
    unfolding v(2) by blast
qed

lemma lm_nodes_shift:
  assumes "lm_nodes s xs"
  shows "\<exists>s' xs'. LinkedMap_shift s = Inr (s', case map (lm_entry s) xs of [] \<Rightarrow> None | e # _ \<Rightarrow> Some (snd e)) \<and>
                 lm_step s xs s' xs' \<and> map (lm_entry s') xs' = tl (map (lm_entry s) xs)"
proof (cases xs)
  case Nil
  then show ?thesis
    using assms by (auto simp: LinkedMap_shift_def lm_step_def lm_nodes_def lm_linked_def)
next
  case (Cons x xs')
  then obtain k v where kv: "lm_key s x = Some k" "lm_value s x = Some v"
    using assms by (auto simp: lm_nodes_def lm_keyed_def)
  moreover obtain t where "lm_head s = Some x" "lm_tail s = Some t"
    using assms Cons by (auto simp: lm_nodes_def lm_linked_def last_of_def)
  moreover obtain s' where s': "removeItem x (s\<lparr>lm_map := (lm_map s)(k := None)\<rparr>) = Inr s'"
    "lm_step s xs (s'\<lparr>lm_size := lm_size s' - 1\<rparr>) xs'"
    "map (lm_entry (s'\<lparr>lm_size := lm_size s' - 1\<rparr>)) xs' = map (lm_entry s) xs'" "lm_value s' = lm_value s"
    using lm_nodes_unlink [of s "[]" x xs' k] assms Cons kv by auto
  ultimately have "LinkedMap_shift s =
      Inr (s'\<lparr>lm_size := lm_size s' - 1\<rparr>, case map (lm_entry s) xs of [] \<Rightarrow> None | e # _ \<Rightarrow> Some (snd e))"
    using Cons by (simp add: LinkedMap_shift_def lm_entry_def)
  with s'(2,3) Cons show ?thesis
    by auto
qed

text \<open>The trimming loop drops items from the front.\<close>

lemma trimOld_loop_drop:
  assumes "chain nxt prv b xs None" "newSize \<le> int (length xs)" "0 \<le> newSize"
  shows "trimOld_loop nxt key newSize m (first_of xs None) (int (length xs)) =
           (\<lambda>k. if k \<in> (\<lambda>x. the (key x)) ` set (take (length xs - nat newSize) xs) then None else m k,
            first_of (drop (length xs - nat newSize) xs) None, newSize)"
  using assms
proof (induction xs arbitrary: b m)
  case Nil
  then show ?case
    by (simp add: trimOld_loop.simps)
next
  case (Cons x xs)
  show ?case
  proof (cases "newSize = int (length (x # xs))")
    case True
    then show ?thesis
      by (simp add: trimOld_loop.simps)
  next
    case False
    then have le: "newSize \<le> int (length xs)" and eq: "length (x # xs) - nat newSize = Suc (length xs - nat newSize)"
      using Cons.prems by auto
    have "trimOld_loop nxt key newSize m (first_of (x # xs) None) (int (length (x # xs))) =
            trimOld_loop nxt key newSize (m(the (key x) := None)) (first_of xs None) (int (length xs))"
      using Cons.prems le by (subst trimOld_loop.simps) simp
    also have "\<dots> = (\<lambda>k. if k \<in> (\<lambda>x. the (key x)) ` set (take (length xs - nat newSize) xs) then None
                       else (m(the (key x) := None)) k,
                     first_of (drop (length xs - nat newSize) xs) None, newSize)"
      using Cons.IH [of "Some x"] Cons.prems le by simp
    finally show ?thesis
      unfolding eq by (auto simp: fun_eq_iff)
  qed
qed

lemma lm_nodes_drop:
  assumes "lm_nodes s (pre @ c # cs)"
    and "s' = s\<lparr>lm_map := (\<lambda>k. if k \<in> (\<lambda>x. the (lm_key s x)) ` set pre then None else lm_map s k), lm_head := Some c,
                lm_size := int (length (c # cs)), lm_previous := (lm_previous s)(c := None), lm_state := lm_state s + 1\<rparr>"
  shows "lm_nodes s' (c # cs)"
proof -
  have li: "lm_linked s (pre @ c # cs)" and keyed: "lm_keyed s (set (pre @ c # cs))"
    using assms(1) by (auto simp: lm_nodes_def)
  have "lm_linked s' (c # cs)"
    using li by (auto simp: assms(2) lm_linked_def chain_middle)
  moreover have "lm_keyed s' (set (c # cs))"
    unfolding lm_keyed_def
  proof (intro conjI allI)
    show "\<forall>x \<in> set (c # cs). x < lm_fresh s' \<and> lm_key s' x \<noteq> None \<and> lm_value s' x \<noteq> None"
      using keyed by (simp add: lm_keyed_def assms(2))
    fix k x
    have m: "lm_map s k = Some x \<longleftrightarrow> x \<in> set (pre @ c # cs) \<and> lm_key s x = Some k"
      using keyed by (auto simp: lm_keyed_def)
    have "k \<in> (\<lambda>x. the (lm_key s x)) ` set pre \<longleftrightarrow> (\<exists>y \<in> set pre. lm_map s k = Some y)"
      using keyed by (force simp: lm_keyed_def)
    moreover have "set pre \<inter> set (c # cs) = {}"
      using li by (auto simp: lm_linked_def)
    ultimately show "lm_map s' k = Some x \<longleftrightarrow> x \<in> set (c # cs) \<and> lm_key s' x = Some k"
      using m by (auto simp: assms(2))
  qed
  ultimately show ?thesis
    by (simp add: lm_nodes_def assms(2))
qed

lemma lm_nodes_trimOld:
  assumes "lm_nodes s xs" "0 \<le> n"
  shows "\<exists>xs'. lm_step s xs (LinkedMap_trimOld n s) xs' \<and>
              map (lm_entry (LinkedMap_trimOld n s)) xs' = al_trim n (map (lm_entry s) xs)"
proof -
  have size: "lm_size s = int (length xs)" and chain: "chain (lm_next s) (lm_previous s) None xs None"
    and head: "lm_head s = first_of xs None"
    using assms(1) by (auto simp: lm_nodes_def lm_linked_def)
  consider "n \<ge> lm_size s" | "n = 0" "n < lm_size s" | "0 < n" "n < lm_size s"
    using assms(2) by linarith
  then show ?thesis
  proof cases
    case 1
    then show ?thesis
      using assms size by (auto simp: LinkedMap_trimOld_def lm_step_def al_trim_def)
  next
    case 2
    then show ?thesis
      by (auto simp: LinkedMap_trimOld_def LinkedMap_clear_def lm_step_def al_trim_def lm_nodes_def lm_linked_def lm_keyed_def)
  next
    case 3
    let ?k = "length xs - nat n"
    obtain c cs where c: "drop ?k xs = c # cs"
      using 3 size by (cases "drop ?k xs") auto
    have len: "int (length (c # cs)) = n"
      using 3 size arg_cong [OF c, of length] by simp
    have "lm_nodes s (take ?k xs @ c # cs)"
      using assms(1) append_take_drop_id [of ?k xs] c by simp
    moreover have "LinkedMap_trimOld n s =
      s\<lparr>lm_map := (\<lambda>k. if k \<in> (\<lambda>x. the (lm_key s x)) ` set (take ?k xs) then None else lm_map s k), lm_head := Some c,
        lm_size := int (length (c # cs)), lm_previous := (lm_previous s)(c := None), lm_state := lm_state s + 1\<rparr>"
      unfolding len using 3 c trimOld_loop_drop [OF chain, of n "lm_key s" "lm_map s"] size
      by (simp add: LinkedMap_trimOld_def head)
    ultimately have "lm_nodes (LinkedMap_trimOld n s) (drop ?k xs)"
      and "lm_key (LinkedMap_trimOld n s) = lm_key s" "lm_value (LinkedMap_trimOld n s) = lm_value s"
      "lm_state (LinkedMap_trimOld n s) = lm_state s + 1" "linkedMap.more (LinkedMap_trimOld n s) = linkedMap.more s"
      unfolding c using lm_nodes_drop by (blast, simp_all)
    then show ?thesis
      by (intro exI [of _ "drop ?k xs"]) (simp add: lm_step_def al_trim_def drop_map lm_entry_def)
  qed
qed

section \<open>Iteration\<close>

lemma forEach_loop_pure:
  assumes "chain (lm_next s) prv b xs None" "length xs \<le> fuel" "\<And>v k c. f v k (s, c) = Inr (s, g v k c)"
  shows "forEach_loop f fuel (lm_state s) (first_of xs None) (s, c) =
           Some (Inr (s, foldl (\<lambda>c x. g (snd (lm_entry s x)) (fst (lm_entry s x)) c) c xs))"
  using assms(1,2)
proof (induction xs arbitrary: b fuel c)
  case (Cons x xs)
  then obtain fuel' where "fuel = Suc fuel'"
    by (cases fuel) auto
  with Cons.IH [of "Some x" fuel' "g (snd (lm_entry s x)) (fst (lm_entry s x)) c"] Cons.prems show ?case
    by (simp add: assms(3) lm_entry_def)
qed simp

lemma lm_nodes_length: "lm_nodes s xs \<Longrightarrow> length xs \<le> lm_fresh s"
  using card_mono [of "{..<lm_fresh s}" "set xs"] distinct_card [of xs]
  by (auto simp: lm_nodes_def lm_keyed_def lm_linked_def)

lemma lm_nodes_forEach:
  assumes "lm_nodes s xs" "\<And>v k c. f v k (s, c) = Inr (s, g v k c)"
  shows "LinkedMap_forEach f (s, c) = Some (Inr (s, foldl (\<lambda>c (k, v). g v k c) c (map (lm_entry s) xs)))"
  using forEach_loop_pure [of s "lm_previous s" None xs "lm_fresh s" f g c] assms lm_nodes_length [OF assms(1)]
  by (simp add: LinkedMap_forEach_def lm_nodes_def lm_linked_def foldl_map case_prod_beta)

lemma foldl_collect: "foldl (\<lambda>data (key, value). data @ [(key, value)]) data al = data @ al"
  by (induction al arbitrary: data) auto

lemma LinkedMap_toJSON_repr:
  assumes "lm_repr s al"
  shows "LinkedMap_toJSON s = Some (Inr al)"
proof -
  obtain xs where xs: "lm_nodes s xs" "al = map (lm_entry s) xs"
    using assms by (auto simp: lm_repr_def)
  show ?thesis
    unfolding LinkedMap_toJSON_def
    by (subst lm_nodes_forEach [OF xs(1), of _ "\<lambda>value key data. data @ [(key, value)]"])
      (simp_all add: xs(2) foldl_collect)
qed

lemma fromJSON_loop_distinct:
  assumes "lm_repr s al" "distinct (map fst (al @ data))"
  shows "\<exists>s'. fromJSON_loop data s = Inr s' \<and> lm_repr s' (al @ data) \<and> linkedMap.more s' = linkedMap.more s"
  using assms
proof (induction data arbitrary: s al)
  case (Cons e data)
  obtain k v where e: "e = (k, v)"
    by force
  obtain xs where xs: "lm_nodes s xs" "al = map (lm_entry s) xs"
    using Cons.prems(1) by (auto simp: lm_repr_def)
  obtain s1 xs1 where s1: "LinkedMap_set k v TouchNone s = Inr s1" "lm_step s xs s1 xs1"
    "map (lm_entry s1) xs1 = al_set k v TouchNone al"
    using lm_nodes_set [OF xs(1), of k v TouchNone] xs(2) by auto
  have "map_of al k = None"
    using Cons.prems(2) e by (auto simp: map_of_eq_None_iff)
  then have "lm_repr s1 (al @ [(k, v)])"
    using s1 by (auto simp: lm_repr_def lm_step_def al_set_def)
  from Cons.IH [OF this] Cons.prems(2) s1 e show ?case
    by (auto simp: lm_step_def)
qed simp

text \<open>Exhausting an iterator, with a budget.\<close>

fun iterate_entries :: "nat \<Rightarrow> ('k, 'v, 'z) linkedMap_scheme \<Rightarrow> lm_iterator \<Rightarrow> js_error + ('k \<times> 'v) list" where
  "iterate_entries 0 s it = Inr []"
| "iterate_entries (Suc fuel) s it =
     bind_result (entries_next s it)
       (\<lambda>(it', r). case r of None \<Rightarrow> Inr [] | Some e \<Rightarrow> bind_result (iterate_entries fuel s it') (\<lambda>es. Inr (e # es)))"

lemma iterate_entries_chain:
  assumes "chain (lm_next s) prv b xs None" "length xs \<le> fuel"
  shows "iterate_entries fuel s \<lparr>it_state = lm_state s, it_current = first_of xs None\<rparr> = Inr (map (lm_entry s) xs)"
  using assms
proof (induction xs arbitrary: b fuel)
  case Nil
  then show ?case
    by (cases fuel) (simp_all add: entries_next_def)
next
  case (Cons x xs)
  then obtain fuel' where "fuel = Suc fuel'"
    by (cases fuel) auto
  with Cons.IH [of "Some x" fuel'] Cons.prems show ?case
    by (simp add: entries_next_def lm_entry_def)
qed

section \<open>Runs of operations\<close>

datatype ('k, 'v) lm_op =
  OpClear | OpGet 'k touch | OpSet 'k 'v touch | OpRemove 'k | OpShift | OpTrimOld nat | OpFromJSON "('k \<times> 'v) list"

fun lm_exec ::
  "('k, 'v) lm_op \<Rightarrow> ('k, 'v, 'z) linkedMap_scheme \<Rightarrow> js_error + ('k, 'v, 'z) linkedMap_scheme \<times> 'v option" where
  "lm_exec OpClear s = Inr (LinkedMap_clear s, None)"
| "lm_exec (OpGet k t) s = LinkedMap_get k t s"
| "lm_exec (OpSet k v t) s = bind_result (LinkedMap_set k v t s) (\<lambda>s'. Inr (s', None))"
| "lm_exec (OpRemove k) s = LinkedMap_remove k s"
| "lm_exec OpShift s = LinkedMap_shift s"
| "lm_exec (OpTrimOld n) s = Inr (LinkedMap_trimOld (int n) s, None)"
| "lm_exec (OpFromJSON data) s = bind_result (LinkedMap_fromJSON data s) (\<lambda>s'. Inr (s', None))"

fun lm_run ::
  "('k, 'v) lm_op list \<Rightarrow> ('k, 'v, 'z) linkedMap_scheme \<Rightarrow> js_error + ('k, 'v, 'z) linkedMap_scheme \<times> 'v option list" where
  "lm_run [] s = Inr (s, [])"
| "lm_run (op # ops) s =
     bind_result (lm_exec op s) (\<lambda>(s', r). bind_result (lm_run ops s') (\<lambda>(s'', rs). Inr (s'', r # rs)))"

fun lm_spec :: "('k, 'v) lm_op \<Rightarrow> ('k \<times> 'v) list \<Rightarrow> ('k \<times> 'v) list \<times> 'v option" where
  "lm_spec OpClear al = ([], None)"
| "lm_spec (OpGet k t) al = (al_touch t k al, map_of al k)"
| "lm_spec (OpSet k v t) al = (al_set k v t al, None)"
| "lm_spec (OpRemove k) al = (al_delete k al, map_of al k)"
| "lm_spec OpShift al = (tl al, case al of [] \<Rightarrow> None | e # _ \<Rightarrow> Some (snd e))"
| "lm_spec (OpTrimOld n) al = (al_trim (int n) al, None)"
| "lm_spec (OpFromJSON data) al = (foldl (\<lambda>al (k, v). al_set k v TouchNone al) [] data, None)"

fun lm_spec_run :: "('k, 'v) lm_op list \<Rightarrow> ('k \<times> 'v) list \<Rightarrow> ('k \<times> 'v) list \<times> 'v option list" where
  "lm_spec_run [] al = (al, [])"
| "lm_spec_run (op # ops) al =
     (case lm_spec op al of (al', r) \<Rightarrow> case lm_spec_run ops al' of (al'', rs) \<Rightarrow> (al'', r # rs))"

lemma lm_step_trans: "lm_step s xs s' xs' \<Longrightarrow> lm_step s' xs' s'' xs'' \<Longrightarrow> lm_step s xs s'' xs''"
  by (auto simp: lm_step_def)

lemma lm_step_clear: "lm_step s xs (LinkedMap_clear s) []"
  by (simp add: lm_step_def LinkedMap_clear_def lm_nodes_def lm_linked_def lm_keyed_def)

lemma fromJSON_loop_step:
  assumes "lm_nodes s xs"
  shows "\<exists>s' xs'. fromJSON_loop data s = Inr s' \<and> lm_step s xs s' xs' \<and>
                 map (lm_entry s') xs' = foldl (\<lambda>al (k, v). al_set k v TouchNone al) (map (lm_entry s) xs) data"
  using assms
proof (induction data arbitrary: s xs)
  case Nil
  then show ?case
    by (auto simp: lm_step_def)
next
  case (Cons e data)
  obtain k v where e: "e = (k, v)"
    by force
  obtain s1 xs1 where s1: "LinkedMap_set k v TouchNone s = Inr s1" "lm_step s xs s1 xs1"
    "map (lm_entry s1) xs1 = al_set k v TouchNone (map (lm_entry s) xs)"
    using lm_nodes_set [OF Cons.prems] by blast
  then have "lm_nodes s1 xs1"
    by (simp add: lm_step_def)
  from Cons.IH [OF this] s1 e show ?case
    by (auto intro: lm_step_trans)
qed

lemma lm_exec_step:
  assumes "lm_nodes s xs"
  shows "\<exists>s' xs'. lm_exec op s = Inr (s', snd (lm_spec op (map (lm_entry s) xs))) \<and> lm_step s xs s' xs' \<and>
                 map (lm_entry s') xs' = fst (lm_spec op (map (lm_entry s) xs))"
proof (cases op)
  case OpClear
  then show ?thesis
    using lm_step_clear by auto
next
  case (OpGet k t)
  then show ?thesis
    using lm_nodes_get [OF assms] by simp
next
  case (OpSet k v t)
  then show ?thesis
    using lm_nodes_set [OF assms, of k v t] by auto
next
  case (OpRemove k)
  then show ?thesis
    using lm_nodes_remove [OF assms] by simp
next
  case OpShift
  then show ?thesis
    using lm_nodes_shift [OF assms] by simp
next
  case (OpTrimOld n)
  then show ?thesis
    using lm_nodes_trimOld [OF assms, of "int n"] by simp
next
  case (OpFromJSON data)
  have "lm_nodes (LinkedMap_clear s) []"
    using lm_step_clear by (auto simp: lm_step_def)
  from fromJSON_loop_step [OF this, of data] show ?thesis
    using OpFromJSON lm_step_trans [OF lm_step_clear] by (fastforce simp: LinkedMap_fromJSON_def)
qed

lemma lm_run_step:
  assumes "lm_nodes s xs"
  shows "\<exists>s' xs'. lm_run ops s = Inr (s', snd (lm_spec_run ops (map (lm_entry s) xs))) \<and> lm_step s xs s' xs' \<and>
                 map (lm_entry s') xs' = fst (lm_spec_run ops (map (lm_entry s) xs))"
  using assms
proof (induction ops arbitrary: s xs)
  case Nil
  then show ?case
    by (auto simp: lm_step_def)
next
  case (Cons op ops)
  obtain s1 xs1 where s1: "lm_exec op s = Inr (s1, snd (lm_spec op (map (lm_entry s) xs)))" "lm_step s xs s1 xs1"
    "map (lm_entry s1) xs1 = fst (lm_spec op (map (lm_entry s) xs))"
    using lm_exec_step [OF Cons.prems] by blast
  obtain s2 xs2 where s2: "lm_run ops s1 = Inr (s2, snd (lm_spec_run ops (map (lm_entry s1) xs1)))"
    "lm_step s1 xs1 s2 xs2" "map (lm_entry s2) xs2 = fst (lm_spec_run ops (map (lm_entry s1) xs1))"
    using Cons.IH [of s1 xs1] s1(2) by (auto simp: lm_step_def)
  have "lm_step s xs s2 xs2"
    by (rule lm_step_trans [OF s1(2) s2(2)])
  with s1 s2 show ?case
    by (intro exI [of _ s2] exI [of _ xs2]) (simp add: case_prod_beta)
qed

section \<open>\<open>LRUCache\<close> on the represented list\<close>

definition lru_inv :: "('k, 'v) lruCache \<Rightarrow> ('k \<times> 'v) list \<Rightarrow> bool" where
  "lru_inv s al \<longleftrightarrow>
     lm_repr s al \<and> 0 \<le> lru_limit s \<and> 0 \<le> lru_ratio s \<and> lru_ratio s \<le> 1 \<and> int (length al) \<le> lru_limit s"

definition lru_trim :: "int \<Rightarrow> rat \<Rightarrow> ('k \<times> 'v) list \<Rightarrow> ('k \<times> 'v) list" where
  "lru_trim limit ratio al =
     (if int (length al) > limit then al_trim (Math_round (of_int limit * ratio)) al else al)"

lemma lru_fields_more:
  "linkedMap.more s' = linkedMap.more s \<Longrightarrow> lru_limit s' = lru_limit s \<and> lru_ratio s' = lru_ratio s"
  for s s' :: "('k, 'v) lruCache"
  by (cases s; cases s') simp

lemma Math_round_scaled:
  assumes "0 \<le> n" "0 \<le> r" "r \<le> 1"
  shows "0 \<le> Math_round (of_int n * r)" "Math_round (of_int n * r) \<le> n"
proof -
  show "0 \<le> Math_round (of_int n * r)"
    using assms by (simp add: Math_round_def)
  have "of_int n * r \<le> of_int n"
    using assms by (simp add: mult_left_le)
  then have "\<lfloor>of_int n * r + 1 / 2\<rfloor> \<le> \<lfloor>of_int n + (1 / 2 :: rat)\<rfloor>"
    by (intro floor_mono) simp
  then show "Math_round (of_int n * r) \<le> n"
    by (simp add: Math_round_def floor_divide_of_int_eq) linarith
qed

lemma Math_round_int: "Math_round (of_int n) = n"
  by (simp add: Math_round_def floor_eq_iff)

lemma al_set_AsNew: "distinct (map fst al) \<Longrightarrow> al_set k v AsNew al = al_delete k al @ [(k, v)]"
proof (cases "map_of al k")
  case None
  then have "al_delete k al = al"
    by (auto simp: al_delete_def filter_id_conv map_of_eq_None_iff image_iff)
  with None show ?thesis
    by (simp add: al_set_def)
next
  case (Some w)
  moreover assume "distinct (map fst al)"
  ultimately obtain A B where al: "al = A @ (k, w) # B" "k \<notin> fst ` set A" "k \<notin> fst ` set B"
    by (fastforce dest!: map_of_SomeD split_list simp: image_iff)
  then show ?thesis
    by simp
qed

lemma lru_trim_length: "0 \<le> limit \<Longrightarrow> 0 \<le> ratio \<Longrightarrow> ratio \<le> 1 \<Longrightarrow> int (length (lru_trim limit ratio al)) \<le> limit"
  using Math_round_scaled [of limit ratio] by (auto simp: lru_trim_def al_trim_def)

lemma lru_trim_suffix: "\<exists>evicted. al = evicted @ lru_trim limit ratio al"
proof -
  obtain n where "lru_trim limit ratio al = drop n al"
    by (metis al_trim_def drop0 lru_trim_def)
  then show ?thesis
    by (metis append_take_drop_id)
qed

lemma lru_trim_keeps_last:
  "1 \<le> Math_round (of_int limit * ratio) \<longrightarrow> map_of (lru_trim limit ratio (al_delete k al @ [(k, v)])) k = Some v"
proof
  let ?al = "al_delete k al @ [(k, v)]"
  assume pos: "1 \<le> Math_round (of_int limit * ratio)"
  have kept: "map_of (drop n ?al) k = Some v" if "n < length ?al" for n
  proof -
    have "map_of (drop n (al_delete k al)) k = None"
      by (auto simp: map_of_eq_None_iff al_delete_def dest: in_set_dropD)
    with that show ?thesis
      by (simp add: map_add_def)
  qed
  have "length ?al - nat (Math_round (of_int limit * ratio)) < length ?al" "0 < length ?al"
    using pos by auto
  from this [THEN kept] show "map_of (lru_trim limit ratio ?al) k = Some v"
    unfolding lru_trim_def al_trim_def drop0 by presburger
qed

lemma LRUCache_checkTrim_repr:
  assumes "lm_repr s al" "0 \<le> lru_limit s" "0 \<le> lru_ratio s" "lru_ratio s \<le> 1"
  shows "lru_inv (LRUCache_checkTrim s) (lru_trim (lru_limit s) (lru_ratio s) al)"
    and "lru_limit (LRUCache_checkTrim s) = lru_limit s" "lru_ratio (LRUCache_checkTrim s) = lru_ratio s"
proof -
  obtain xs where xs: "lm_nodes s xs" "al = map (lm_entry s) xs"
    using assms(1) by (auto simp: lm_repr_def)
  have n: "0 \<le> Math_round (of_int (lru_limit s) * lru_ratio s)"
    using Math_round_scaled assms(2-4) by blast
  have size: "lm_size s = int (length al)"
    using lm_repr_lookup(2) [OF assms(1)] .
  have "lm_repr (LRUCache_checkTrim s) (lru_trim (lru_limit s) (lru_ratio s) al) \<and>
        linkedMap.more (LRUCache_checkTrim s) = linkedMap.more s"
    using lm_nodes_trimOld [OF xs(1) n] assms(1) size
    by (auto simp: LRUCache_checkTrim_def lru_trim_def xs(2) lm_repr_def lm_step_def)
  then show "lru_limit (LRUCache_checkTrim s) = lru_limit s" "lru_ratio (LRUCache_checkTrim s) = lru_ratio s"
    "lru_inv (LRUCache_checkTrim s) (lru_trim (lru_limit s) (lru_ratio s) al)"
    using lru_fields_more [of "LRUCache_checkTrim s" s] lru_trim_length [of "lru_limit s" "lru_ratio s" al] assms(2-4)
    by (auto simp: lru_inv_def)
qed

section \<open>Properties\<close>

text \<open>
  C9. \<open>LinkedMap\<close> refines an ordered association list: in every run of its operations on a new map
  none of the "Invalid list" checks or null dereferences is reached, each \<open>get\<close>, \<open>remove\<close> and
  \<open>shift\<close> returns what the specification returns, and at the end the map holds exactly the
  specified entries in the specified order, with distinct keys and the right size.
\<close>

theorem LinkedMap_refines_ordered_map:
  "\<exists>s. lm_run ops new_LinkedMap = Inr (s, snd (lm_spec_run ops [])) \<and>
       LinkedMap_toJSON s = Some (Inr (fst (lm_spec_run ops []))) \<and>
       lm_size s = int (length (fst (lm_spec_run ops []))) \<and> distinct (map fst (fst (lm_spec_run ops []))) \<and>
       (\<forall>k. LinkedMap_has s k \<longleftrightarrow> map_of (fst (lm_spec_run ops [])) k \<noteq> None)"
proof -
  have "lm_nodes new_LinkedMap []"
    using lm_repr_new by (simp add: lm_repr_def)
  from lm_run_step [OF this, of ops] obtain s xs where
    s: "lm_run ops new_LinkedMap = Inr (s, snd (lm_spec_run ops []))" "lm_nodes s xs"
      "map (lm_entry s) xs = fst (lm_spec_run ops [])"
    by (auto simp: lm_step_def)
  then have r: "lm_repr s (fst (lm_spec_run ops []))"
    by (metis lm_repr_def)
  show ?thesis
    by (intro exI [of _ s] conjI allI s(1) LinkedMap_toJSON_repr [OF r] lm_repr_lookup(1,2,4) [OF r])
qed

text \<open>
  Iterators are fail-fast: take an iterator of a map and run any operations.  Either the
  operations left the order of the keys alone and the old iterator lists exactly the current
  entries, or its next call throws.  With no operations in between it lists the entries.
\<close>

theorem LinkedMap_iterators_fail_fast:
  assumes "lm_repr s al"
  shows "\<exists>s' al'. lm_run ops s = Inr (s', snd (lm_spec_run ops al)) \<and> al' = fst (lm_spec_run ops al) \<and>
           iterate_entries (lm_fresh s) s (LinkedMap_iterator s) = Inr al \<and>
           (if lm_state s' = lm_state s
            then map fst al' = map fst al \<and> iterate_entries (lm_fresh s') s' (LinkedMap_iterator s) = Inr al'
            else entries_next s' (LinkedMap_iterator s) = Inl ModifiedDuringIteration \<and>
                 keys_next s' (LinkedMap_iterator s) = Inl ModifiedDuringIteration \<and>
                 values_next s' (LinkedMap_iterator s) = Inl ModifiedDuringIteration)"
proof -
  obtain xs where xs: "lm_nodes s xs" "al = map (lm_entry s) xs"
    using assms by (auto simp: lm_repr_def)
  from lm_run_step [OF xs(1), of ops] obtain s' xs' where
    s': "lm_run ops s = Inr (s', snd (lm_spec_run ops al))" "lm_step s xs s' xs'"
      "map (lm_entry s') xs' = fst (lm_spec_run ops al)"
    by (auto simp: xs(2))
  have it: "iterate_entries (lm_fresh u) u (LinkedMap_iterator u) = Inr (map (lm_entry u) us)"
    if "lm_nodes u us" for u :: "('a, 'b, 'c) linkedMap_scheme" and us
    using iterate_entries_chain [of u "lm_previous u" None us "lm_fresh u"] that lm_nodes_length [OF that]
    by (simp add: LinkedMap_iterator_def lm_nodes_def lm_linked_def)
  show ?thesis
  proof (cases "lm_state s' = lm_state s")
    case True
    then have same: "xs' = xs" "\<forall>x \<in> set xs. lm_key s' x = lm_key s x" "lm_nodes s' xs"
      using s'(2) by (auto simp: lm_step_def)
    then have "LinkedMap_iterator s = LinkedMap_iterator s'"
      using True xs(1) by (simp add: LinkedMap_iterator_def lm_nodes_def lm_linked_def)
    moreover have "map fst (map (lm_entry s') xs') = map fst (map (lm_entry s) xs)"
      using same(1,2) by (simp add: lm_entry_def)
    then have "map fst (fst (lm_spec_run ops al)) = map fst al"
      unfolding s'(3) xs(2) .
    ultimately show ?thesis
      using s'(1,3) it [OF xs(1)] it [OF same(3)] True same(1) xs(2)
      by (intro exI [of _ s'] exI [of _ "fst (lm_spec_run ops al)"]) simp
  next
    case False
    then show ?thesis
      using s'(1) it [OF xs(1)]
      by (auto simp: xs(2) LinkedMap_iterator_def entries_next_def keys_next_def values_next_def)
  qed
qed

theorem LinkedMap_iterators_fail_fast_witness:
  "\<exists>s' al'. lm_run [OpSet (1::int) (10::int) AsNew] new_LinkedMap = Inr (s', [None]) \<and> al' = [(1, 10)]"
  using LinkedMap_iterators_fail_fast [OF lm_repr_new, of "[OpSet (1::int) (10::int) AsNew]"]
  by (auto simp: al_set_def)

text \<open>
  C10. \<open>LRUCache.set\<close> on a cache within its limit never throws, makes the entry the most recent one,
  and when the limit is exceeded keeps exactly the \<open>round(limit * ratio)\<close> most recently used
  entries: what remains is a suffix of the entries in order of use, never longer than the limit,
  and it contains the entry just set whenever \<open>round(limit * ratio)\<close> is positive.
\<close>

theorem LRUCache_set_evicts_oldest:
  assumes "lru_inv s al"
  shows "\<exists>s' al'. LRUCache_set k v s = Inr s' \<and> lru_inv s' al' \<and>
           al' = lru_trim (lru_limit s) (lru_ratio s) (al_delete k al @ [(k, v)]) \<and>
           lm_size s' \<le> lru_limit s \<and> lru_limit s' = lru_limit s \<and> lru_ratio s' = lru_ratio s \<and>
           (\<exists>evicted. al_delete k al @ [(k, v)] = evicted @ al') \<and>
           (1 \<le> Math_round (of_int (lru_limit s) * lru_ratio s) \<longrightarrow> map_of al' k = Some v)"
proof -
  have inv: "lm_repr s al" "0 \<le> lru_limit s" "0 \<le> lru_ratio s" "lru_ratio s \<le> 1"
    using assms by (auto simp: lru_inv_def)
  then obtain xs where xs: "lm_nodes s xs" "al = map (lm_entry s) xs"
    by (auto simp: lm_repr_def)
  let ?al = "al_delete k al @ [(k, v)]"
  have al: "al_set k v AsNew al = ?al"
    using lm_repr_lookup(4) [OF inv(1)] by (rule al_set_AsNew)
  obtain s1 where s1: "LinkedMap_set k v AsNew s = Inr s1" "lm_repr s1 ?al" "linkedMap.more s1 = linkedMap.more s"
    using lm_nodes_set [OF xs(1), of k v AsNew] al unfolding lm_step_def lm_repr_def xs(2) by metis
  then have f: "lru_limit s1 = lru_limit s" "lru_ratio s1 = lru_ratio s"
    using lru_fields_more by blast+
  have t: "lru_inv (LRUCache_checkTrim s1) (lru_trim (lru_limit s) (lru_ratio s) ?al)"
    "lru_limit (LRUCache_checkTrim s1) = lru_limit s" "lru_ratio (LRUCache_checkTrim s1) = lru_ratio s"
    using LRUCache_checkTrim_repr [OF s1(2)] inv f by auto
  have size: "lm_size (LRUCache_checkTrim s1) \<le> lru_limit s"
    using t(1) unfolding lru_inv_def t(2) by (metis lm_repr_lookup(2))
  have "LRUCache_set k v s = Inr (LRUCache_checkTrim s1)"
    by (simp add: LRUCache_set_def s1(1))
  then show ?thesis
    using t size lru_trim_suffix [of ?al "lru_limit s" "lru_ratio s"]
      lru_trim_keeps_last [of "lru_limit s" "lru_ratio s" k al v] by blast
qed

theorem LRUCache_set_evicts_oldest_witness:
  "\<exists>s'. LRUCache_set (7::int) (1::int) (new_LRUCache 3 1) = Inr s' \<and> lm_size s' \<le> 3"
proof -
  have "lru_inv (new_LRUCache 3 1 :: (int, int) lruCache) []"
    by (auto simp: lru_inv_def lm_repr_def new_LRUCache_def new_LinkedMap_def lm_nodes_def lm_linked_def lm_keyed_def
      linkedMap.defs lruCache.defs)
  from LRUCache_set_evicts_oldest [OF this, of 7 1] show ?thesis
    by (auto simp: new_LRUCache_def linkedMap.defs lruCache.defs new_LinkedMap_def)
qed

text \<open>
  A cache created with a negative limit corrupts itself: \<open>trimOld\<close> with a negative size empties
  the chain but leaves \<open>_tail\<close>, so that after two \<open>set\<close>s of a key the key is found and the size is
  one, yet the iteration lists nothing, and the third \<open>set\<close> throws "Invalid list".
\<close>

theorem LRUCache_negative_limit_corrupts:
  "\<exists>s1 s2. LRUCache_set k a (new_LRUCache (-1) 1) = Inr s1 \<and> LRUCache_set k b s1 = Inr s2 \<and>
           LinkedMap_has s2 k \<and> lm_size s2 = 1 \<and> LinkedMap_toJSON s2 = Some (Inr []) \<and>
           LRUCache_set k c s2 = Inl InvalidList"
  using Math_round_int [of "-1"]
  by (simp add: LRUCache_set_def new_LRUCache_def new_LinkedMap_def LinkedMap_set_def new_item_def addItemLast_def
      linkedMap.defs lruCache.defs LRUCache_checkTrim_def LinkedMap_trimOld_def trimOld_loop.simps
      LinkedMap_has_def LinkedMap_toJSON_def LinkedMap_forEach_def touchItem_def)

text \<open>
  Serialising a map with \<open>toJSON\<close> and reading the result back with \<open>fromJSON\<close>, into any map,
  restores the entries and their order.
\<close>

theorem LinkedMap_JSON_roundtrip:
  assumes "lm_repr s al"
  shows "\<exists>t'. LinkedMap_toJSON s = Some (Inr al) \<and> LinkedMap_fromJSON al t = Inr t' \<and>
              LinkedMap_toJSON t' = Some (Inr al) \<and> lm_size t' = lm_size s"
proof -
  have "distinct (map fst ([] @ al))"
    using lm_repr_lookup(4) [OF assms] by simp
  then obtain t' where t': "LinkedMap_fromJSON al t = Inr t'" "lm_repr t' al"
    using fromJSON_loop_distinct [OF lm_repr_clear(1)] by (auto simp: LinkedMap_fromJSON_def)
  then show ?thesis
    using LinkedMap_toJSON_repr [OF assms] LinkedMap_toJSON_repr [OF t'(2)]
      lm_repr_lookup(2) [OF assms] lm_repr_lookup(2) [OF t'(2)] by auto
qed

theorem LinkedMap_JSON_roundtrip_witness:
  "\<exists>t'. LinkedMap_fromJSON [] (new_LinkedMap :: (int, int) linkedMap) = Inr t' \<and> LinkedMap_toJSON t' = Some (Inr [])"
  using LinkedMap_JSON_roundtrip [OF lm_repr_new, of "new_LinkedMap :: (int, int) linkedMap"] by auto

text \<open>
  \<open>delete\<close> removes exactly the entry of the key, but it reports success only if the removed value
  converts to true: a stored \<open>0\<close>, \<open>false\<close> or empty string is deleted with the answer \<open>false\<close>.
\<close>

theorem LinkedMap_delete_result:
  assumes "lm_repr s al"
  shows "\<exists>s'. LinkedMap_delete truthy k s = Inr (s', \<exists>v. map_of al k = Some v \<and> truthy v) \<and>
              lm_repr s' (al_delete k al) \<and> \<not> LinkedMap_has s' k"
proof -
  obtain xs where xs: "lm_nodes s xs" "al = map (lm_entry s) xs"
    using assms by (auto simp: lm_repr_def)
  obtain s' where s': "LinkedMap_remove k s = Inr (s', map_of al k)" "lm_repr s' (al_delete k al)"
    using lm_nodes_remove [OF xs(1), of k] unfolding xs(2) lm_repr_def lm_step_def by metis
  moreover have "map_of (al_delete k al) k = None"
    by (auto simp: map_of_eq_None_iff al_delete_def)
  ultimately show ?thesis
    using lm_repr_lookup(1) [OF s'(2)] by (auto simp: LinkedMap_delete_def split: option.split)
qed

theorem LinkedMap_delete_result_witness:
  "\<exists>s'. LinkedMap_delete (\<lambda>v. v \<noteq> 0) (1::int) (new_LinkedMap :: (int, int) linkedMap) = Inr (s', False)"
  using LinkedMap_delete_result [OF lm_repr_new, of "\<lambda>v. v \<noteq> (0::int)" "1::int"] by auto

text \<open>
  \<open>CounterSet\<close> is a multiset: after any additions and deletions a value is present exactly when
  it was added more often than successfully deleted, and a deletion succeeds exactly when the value
  is present.
\<close>

theorem CounterSet_counts:
  assumes "\<forall>x. m x \<noteq> Some 0" "M = (\<lambda>x. case m x of None \<Rightarrow> 0 | Some n \<Rightarrow> n)"
  shows "(\<forall>x. CounterSet_add value m x \<noteq> Some 0) \<and>
         (\<lambda>x. case CounterSet_add value m x of None \<Rightarrow> 0 | Some n \<Rightarrow> n) = M(value := M value + 1) \<and>
         (\<forall>x. fst (CounterSet_delete value m) x \<noteq> Some 0) \<and>
         (\<lambda>x. case fst (CounterSet_delete value m) x of None \<Rightarrow> 0 | Some n \<Rightarrow> n) = M(value := M value - 1) \<and>
         snd (CounterSet_delete value m) = (0 < M value) \<and> CounterSet_has value m = (0 < M value)"
proof -
  have "0 < n" if "m value = Some n" for n
    using that assms(1) by (cases n) auto
  then show ?thesis
    using assms(1) unfolding assms(2)
    by (auto simp: CounterSet_add_def CounterSet_delete_def CounterSet_has_def Let_def fun_eq_iff split: option.split)
qed

theorem CounterSet_counts_witness:
  "snd (CounterSet_delete (3::int) [3 \<mapsto> 2]) = (0 < (\<lambda>x. case [3::int \<mapsto> 2] x of None \<Rightarrow> (0::nat) | Some n \<Rightarrow> n) 3)"
  using CounterSet_counts [of "[3::int \<mapsto> 2]" "\<lambda>x. case [3::int \<mapsto> 2] x of None \<Rightarrow> (0::nat) | Some n \<Rightarrow> n" 3] by simp

end
