(* ===== verification/Lines_Layout.thy ===== *)
theory Lines_Layout
  imports Prelude "HOL-Library.Product_Lexorder" "HOL-Library.Multiset"
begin

text \<open>
  \<open>PendingChanges\<close>, \<open>EditorWhitespace\<close> and the part of \<open>LinesLayout\<close> that changes state, of
  \<open>src/vs/editor/common/viewLayout/linesLayout.ts\<close>: the whitespaces (view zones) between the lines
  of an editor, kept sorted, with a lazily extended prefix-sum cache over their heights.

  Pixel quantities and line numbers are integers.  \<open>| 0\<close> is \<open>toInt32\<close> on line numbers, heights,
  offsets and the indices the public operations are called with.  On the means the binary searches
  compute it is a truncation, written as \<open>div\<close>.  An access \<open>this._arr[index]\<close> outside the array yields \<open>undefined\<close>; reading a property of
  that throws, here \<open>Inl TypeError\<close>.
\<close>

section \<open>Data\<close>

record editorWhitespace =
  ws_id :: string
  ws_afterLineNumber :: int
  ws_ordinal :: int
  ws_height :: int
  ws_minWidth :: int
  ws_prefixSum :: int

definition new_EditorWhitespace :: "string \<Rightarrow> int \<Rightarrow> int \<Rightarrow> int \<Rightarrow> int \<Rightarrow> editorWhitespace" where
  "new_EditorWhitespace i afterLineNumber ordinal height minWidth =
     \<lparr>ws_id = i, ws_afterLineNumber = afterLineNumber, ws_ordinal = ordinal, ws_height = height,
      ws_minWidth = minWidth, ws_prefixSum = 0\<rparr>"

record pendingChange =
  pc_id :: string
  pc_newAfterLineNumber :: int
  pc_newHeight :: int

record pendingChanges =
  hasPending :: bool
  pc_inserts :: "editorWhitespace list"
  pc_changes :: "pendingChange list"
  pc_removes :: "string list"

definition new_PendingChanges :: pendingChanges where
  "new_PendingChanges = \<lparr>hasPending = False, pc_inserts = [], pc_changes = [], pc_removes = []\<rparr>"

definition PendingChanges_insert :: "editorWhitespace \<Rightarrow> pendingChanges \<Rightarrow> pendingChanges" where
  "PendingChanges_insert x p = p\<lparr>hasPending := True, pc_inserts := pc_inserts p @ [x]\<rparr>"

definition PendingChanges_change :: "pendingChange \<Rightarrow> pendingChanges \<Rightarrow> pendingChanges" where
  "PendingChanges_change x p = p\<lparr>hasPending := True, pc_changes := pc_changes p @ [x]\<rparr>"

definition PendingChanges_remove :: "string \<Rightarrow> pendingChanges \<Rightarrow> pendingChanges" where
  "PendingChanges_remove x p = p\<lparr>hasPending := True, pc_removes := pc_removes p @ [x]\<rparr>"

definition PendingChanges_mustCommit :: "pendingChanges \<Rightarrow> bool" where
  "PendingChanges_mustCommit p = hasPending p"

record linesLayout =
  instanceId :: string
  pending :: pendingChanges
  lastWhitespaceId :: nat
  arr :: "editorWhitespace list"
  prefixSumValidIndex :: int
  minWidth :: int
  lineCount :: int
  lineHeight :: int
  paddingTop :: int
  paddingBottom :: int

text \<open>\<open>strings.singleLetterHash\<close> and the decimal digits of \<open>string + number\<close>.\<close>

definition singleLetterHash :: "nat \<Rightarrow> string" where
  "singleLetterHash n =
     (let LETTERS_CNT = 90 - 65 + 1; n = n mod (2 * LETTERS_CNT) in
      if n < LETTERS_CNT then [char_of (97 + n)] else [char_of (65 + n - LETTERS_CNT)])"

fun decimal :: "nat \<Rightarrow> string" where
  "decimal n = (if n < 10 then [char_of (48 + n)] else decimal (n div 10) @ [char_of (48 + n mod 10)])"

declare decimal.simps [simp del]

text \<open>The argument \<open>n\<close> is the value of the static counter after its increment.\<close>

definition new_LinesLayout :: "nat \<Rightarrow> int \<Rightarrow> int \<Rightarrow> int \<Rightarrow> int \<Rightarrow> linesLayout" where
  "new_LinesLayout n lineCnt lineHgt padTop padBottom =
     \<lparr>instanceId = singleLetterHash n, pending = new_PendingChanges, lastWhitespaceId = 0, arr = [],
      prefixSumValidIndex = -1, minWidth = -1, lineCount = lineCnt, lineHeight = lineHgt,
      paddingTop = padTop, paddingBottom = padBottom\<rparr>"

section \<open>Insertion, change and removal\<close>

function findInsertionIndex_loop :: "editorWhitespace list \<Rightarrow> int \<Rightarrow> int \<Rightarrow> nat \<Rightarrow> nat \<Rightarrow> nat" where
  "findInsertionIndex_loop a afterLineNumber ordinal low high =
     (if low < high then
        let mid = (low + high) div 2 in
        if afterLineNumber = ws_afterLineNumber (a ! mid) then
          (if ordinal < ws_ordinal (a ! mid)
           then findInsertionIndex_loop a afterLineNumber ordinal low mid
           else findInsertionIndex_loop a afterLineNumber ordinal (mid + 1) high)
        else if afterLineNumber < ws_afterLineNumber (a ! mid)
        then findInsertionIndex_loop a afterLineNumber ordinal low mid
        else findInsertionIndex_loop a afterLineNumber ordinal (mid + 1) high
      else low)"
  by pat_completeness auto

termination findInsertionIndex_loop
  by (relation "measure (\<lambda>(a, afterLineNumber, ordinal, low, high). high - low)") auto

declare findInsertionIndex_loop.simps [simp del]

definition findInsertionIndex :: "editorWhitespace list \<Rightarrow> int \<Rightarrow> int \<Rightarrow> nat" where
  "findInsertionIndex a afterLineNumber ordinal = findInsertionIndex_loop a afterLineNumber ordinal 0 (length a)"

definition insertWhitespace_internal :: "editorWhitespace \<Rightarrow> linesLayout \<Rightarrow> linesLayout" where
  "insertWhitespace_internal whitespace s =
     (let insertIndex = findInsertionIndex (arr s) (ws_afterLineNumber whitespace) (ws_ordinal whitespace) in
      s\<lparr>arr := js_splice (arr s) insertIndex 0 [whitespace],
        prefixSumValidIndex := min (prefixSumValidIndex s) (int insertIndex - 1)\<rparr>)"

definition findWhitespaceIndex :: "linesLayout \<Rightarrow> string \<Rightarrow> nat option" where
  "findWhitespaceIndex s i =
     (let k = while_index (\<lambda>w. ws_id w \<noteq> i) (arr s) 0 in if k < length (arr s) then Some k else None)"

definition removeWhitespace_internal :: "nat \<Rightarrow> linesLayout \<Rightarrow> linesLayout" where
  "removeWhitespace_internal removeIndex s =
     s\<lparr>arr := js_splice (arr s) removeIndex 1 [],
       prefixSumValidIndex := min (prefixSumValidIndex s) (int removeIndex - 1)\<rparr>"

definition changeOneWhitespace_internal :: "string \<Rightarrow> int \<Rightarrow> int \<Rightarrow> linesLayout \<Rightarrow> linesLayout" where
  "changeOneWhitespace_internal i newAfterLineNumber newHeight s =
     (case findWhitespaceIndex s i of
        None \<Rightarrow> s
      | Some index \<Rightarrow>
          (let s = (if ws_height (arr s ! index) \<noteq> newHeight
                    then s\<lparr>arr := (arr s)[index := (arr s ! index)\<lparr>ws_height := newHeight\<rparr>],
                           prefixSumValidIndex := min (prefixSumValidIndex s) (int index - 1)\<rparr>
                    else s) in
           if ws_afterLineNumber (arr s ! index) \<noteq> newAfterLineNumber
           then (let whitespace = arr s ! index;
                     s = removeWhitespace_internal index s
                 in insertWhitespace_internal (whitespace\<lparr>ws_afterLineNumber := newAfterLineNumber\<rparr>) s)
           else s))"

text \<open>
  \<open>toChange\<close> is a \<open>Map\<close> filled in order, so the last change of an id counts.  \<open>Array.sort\<close> is
  stable; the comparator orders by line, then ordinal.
\<close>

definition toChange :: "pendingChange list \<Rightarrow> string \<rightharpoonup> pendingChange" where
  "toChange changes = foldl (\<lambda>m c. m(pc_id c \<mapsto> c)) Map.empty changes"

definition applyChange :: "pendingChange list \<Rightarrow> editorWhitespace \<Rightarrow> editorWhitespace" where
  "applyChange changes w =
     (case toChange changes (ws_id w) of
        None \<Rightarrow> w
      | Some c \<Rightarrow> w\<lparr>ws_afterLineNumber := pc_newAfterLineNumber c, ws_height := pc_newHeight c\<rparr>)"

fun applyRemoveAndChange :: "string set \<Rightarrow> pendingChange list \<Rightarrow> editorWhitespace list \<Rightarrow> editorWhitespace list" where
  "applyRemoveAndChange toRemove changes [] = []"
| "applyRemoveAndChange toRemove changes (w # ws) =
     (if ws_id w \<in> toRemove then applyRemoveAndChange toRemove changes ws
      else applyChange changes w # applyRemoveAndChange toRemove changes ws)"

definition ws_key :: "editorWhitespace \<Rightarrow> int \<times> int" where
  "ws_key w = (ws_afterLineNumber w, ws_ordinal w)"

definition commitPendingChanges ::
  "editorWhitespace list \<Rightarrow> pendingChange list \<Rightarrow> string list \<Rightarrow> linesLayout \<Rightarrow> linesLayout" where
  "commitPendingChanges inserts changes removes s =
     (let s = (if inserts \<noteq> [] \<or> removes \<noteq> [] then s\<lparr>minWidth := -1\<rparr> else s) in
      if length inserts + length changes + length removes \<le> 1 then
        let s = foldl (\<lambda>s w. insertWhitespace_internal w s) s inserts;
            s = foldl (\<lambda>s c. changeOneWhitespace_internal (pc_id c) (pc_newAfterLineNumber c) (pc_newHeight c) s) s changes
        in foldl (\<lambda>s i. case findWhitespaceIndex s i of None \<Rightarrow> s | Some index \<Rightarrow> removeWhitespace_internal index s) s removes
      else
        s\<lparr>arr := sort_key ws_key (applyRemoveAndChange (set removes) changes (arr s) @
                                 applyRemoveAndChange (set removes) changes inserts),
          prefixSumValidIndex := -1\<rparr>)"

definition PendingChanges_commit :: "linesLayout \<Rightarrow> linesLayout" where
  "PendingChanges_commit s =
     (let p = pending s in
      if \<not> hasPending p then s
      else commitPendingChanges (pc_inserts p) (pc_changes p) (pc_removes p)
             (s\<lparr>pending := p\<lparr>hasPending := False, pc_inserts := [], pc_changes := [], pc_removes := []\<rparr>\<rparr>))"

definition checkPendingChanges :: "linesLayout \<Rightarrow> linesLayout" where
  "checkPendingChanges s = (if PendingChanges_mustCommit (pending s) then PendingChanges_commit s else s)"

section \<open>Public operations that change the layout\<close>

definition setLineHeight :: "int \<Rightarrow> linesLayout \<Rightarrow> linesLayout" where
  "setLineHeight h s = (checkPendingChanges s)\<lparr>lineHeight := h\<rparr>"

definition setPadding :: "int \<Rightarrow> int \<Rightarrow> linesLayout \<Rightarrow> linesLayout" where
  "setPadding padTop padBottom s = s\<lparr>paddingTop := padTop, paddingBottom := padBottom\<rparr>"

definition onFlushed :: "int \<Rightarrow> linesLayout \<Rightarrow> linesLayout" where
  "onFlushed n s = (checkPendingChanges s)\<lparr>lineCount := n\<rparr>"

text \<open>The three functions of the change accessor; the flag is the captured \<open>hadAChange\<close>.\<close>

definition accessor_insertWhitespace ::
  "int \<Rightarrow> int \<Rightarrow> int \<Rightarrow> int \<Rightarrow> linesLayout \<times> bool \<Rightarrow> (linesLayout \<times> bool) \<times> string" where
  "accessor_insertWhitespace afterLineNumber ordinal heightInPx minW sh =
     (let s = fst sh; n = lastWhitespaceId s + 1; i = instanceId s @ decimal n;
          w = new_EditorWhitespace i (toInt32 afterLineNumber) (toInt32 ordinal) (toInt32 heightInPx) (toInt32 minW)
      in ((s\<lparr>lastWhitespaceId := n, pending := PendingChanges_insert w (pending s)\<rparr>, True), i))"

definition accessor_changeOneWhitespace :: "string \<Rightarrow> int \<Rightarrow> int \<Rightarrow> linesLayout \<times> bool \<Rightarrow> linesLayout \<times> bool" where
  "accessor_changeOneWhitespace i newAfterLineNumber newHeight sh =
     (let s = fst sh in
      (s\<lparr>pending := PendingChanges_change
           \<lparr>pc_id = i, pc_newAfterLineNumber = toInt32 newAfterLineNumber, pc_newHeight = toInt32 newHeight\<rparr> (pending s)\<rparr>, True))"

definition accessor_removeWhitespace :: "string \<Rightarrow> linesLayout \<times> bool \<Rightarrow> linesLayout \<times> bool" where
  "accessor_removeWhitespace i sh =
     (let s = fst sh in (s\<lparr>pending := PendingChanges_remove i (pending s)\<rparr>, True))"

text \<open>
  The callback is client code: a function of the layout and the flag that may throw.  The
  \<open>finally\<close> block commits in both cases.
\<close>

definition changeWhitespace ::
  "(linesLayout \<times> bool \<Rightarrow> (linesLayout \<times> bool) \<times> js_error option) \<Rightarrow> linesLayout \<Rightarrow> linesLayout \<times> (js_error + bool)" where
  "changeWhitespace callback s =
     (case callback (s, False) of
        ((s, hadAChange), exn) \<Rightarrow>
          (PendingChanges_commit s, case exn of None \<Rightarrow> Inr hadAChange | Some e \<Rightarrow> Inl e))"

definition onLinesDeleted :: "int \<Rightarrow> int \<Rightarrow> linesLayout \<Rightarrow> linesLayout" where
  "onLinesDeleted fromLine toLine s =
     (let s = checkPendingChanges s; fromLineNumber = toInt32 fromLine; toLineNumber = toInt32 toLine in
      s\<lparr>lineCount := lineCount s - (toLineNumber - fromLineNumber + 1),
        arr := map (\<lambda>w. let afterLineNumber = ws_afterLineNumber w in
                        if fromLineNumber \<le> afterLineNumber \<and> afterLineNumber \<le> toLineNumber
                        then w\<lparr>ws_afterLineNumber := fromLineNumber - 1\<rparr>
                        else if afterLineNumber > toLineNumber
                        then w\<lparr>ws_afterLineNumber := afterLineNumber - (toLineNumber - fromLineNumber + 1)\<rparr>
                        else w) (arr s)\<rparr>)"

definition onLinesInserted :: "int \<Rightarrow> int \<Rightarrow> linesLayout \<Rightarrow> linesLayout" where
  "onLinesInserted fromLine toLine s =
     (let s = checkPendingChanges s; fromLineNumber = toInt32 fromLine; toLineNumber = toInt32 toLine in
      s\<lparr>lineCount := lineCount s + (toLineNumber - fromLineNumber + 1),
        arr := map (\<lambda>w. let afterLineNumber = ws_afterLineNumber w in
                        if fromLineNumber \<le> afterLineNumber
                        then w\<lparr>ws_afterLineNumber := afterLineNumber + (toLineNumber - fromLineNumber + 1)\<rparr>
                        else w) (arr s)\<rparr>)"

section \<open>Reads that fill a cache\<close>

function accumulate_loop :: "editorWhitespace list \<Rightarrow> nat \<Rightarrow> int \<Rightarrow> js_error + editorWhitespace list" where
  "accumulate_loop ws i index =
     (if int i \<le> index then
        if i < length ws
        then accumulate_loop (ws[i := (ws ! i)\<lparr>ws_prefixSum := ws_prefixSum (ws ! (i - 1)) + ws_height (ws ! i)\<rparr>]) (i + 1) index
        else Inl TypeError
      else Inr ws)"
  by pat_completeness auto

termination accumulate_loop
  by (relation "measure (\<lambda>(ws, i, index). nat (index + 1 - int i))") auto

declare accumulate_loop.simps [simp del]

definition getWhitespacesAccumulatedHeight :: "int \<Rightarrow> linesLayout \<Rightarrow> js_error + linesLayout \<times> int" where
  "getWhitespacesAccumulatedHeight i s0 =
     (let s = checkPendingChanges s0; index = toInt32 i; startIndex = nat (max 0 (prefixSumValidIndex s + 1)) in
      bind_result
        (if startIndex = 0 then
           (case arr s of
              [] \<Rightarrow> Inl TypeError
            | w # ws \<Rightarrow> Inr (w\<lparr>ws_prefixSum := ws_height w\<rparr> # ws, 1))
         else Inr (arr s, startIndex))
        (\<lambda>(ws, startIndex).
           bind_result (accumulate_loop ws startIndex index)
             (\<lambda>ws. if 0 \<le> index \<and> index < int (length ws)
                   then Inr (s\<lparr>arr := ws, prefixSumValidIndex := max (prefixSumValidIndex s) index\<rparr>,
                             ws_prefixSum (ws ! nat index))
                   else Inl TypeError)))"

definition getWhitespacesCount :: "linesLayout \<Rightarrow> linesLayout \<times> nat" where
  "getWhitespacesCount s0 = (let s = checkPendingChanges s0 in (s, length (arr s)))"

definition hasWhitespace :: "linesLayout \<Rightarrow> linesLayout \<times> bool" where
  "hasWhitespace s0 = (case getWhitespacesCount (checkPendingChanges s0) of (s, n) \<Rightarrow> (s, n > 0))"

definition getWhitespaceMinWidth :: "linesLayout \<Rightarrow> linesLayout \<times> int" where
  "getWhitespaceMinWidth s0 =
     (let s = checkPendingChanges s0;
          s = (if minWidth s = -1 then s\<lparr>minWidth := foldl (\<lambda>m w. max m (ws_minWidth w)) 0 (arr s)\<rparr> else s)
      in (s, minWidth s))"

section \<open>The prefix-sum cache\<close>

text \<open>\<open>cache_ok ws v\<close>: the entries up to \<open>v\<close> hold the accumulated heights.\<close>

abbreviation heights :: "editorWhitespace list \<Rightarrow> int list" where
  "heights ws \<equiv> map ws_height ws"

definition cache_ok :: "editorWhitespace list \<Rightarrow> int \<Rightarrow> bool" where
  "cache_ok ws v \<longleftrightarrow>
     -1 \<le> v \<and> v < int (length ws) \<and>
     (\<forall>k. int k \<le> v \<longrightarrow> ws_prefixSum (ws ! k) = prefix_total (heights ws) (Suc k))"

lemma cache_ok_empty [simp]: "cache_ok ws (-1)"
  by (auto simp: cache_ok_def)

text \<open>A modification from index \<open>i\<close> on keeps the cache below \<open>i\<close>.\<close>

lemma cache_ok_prefix:
  assumes "cache_ok ws v" "take i ws' = take i ws" "i \<le> length ws" "i \<le> length ws'"
  shows "cache_ok ws' (min v (int i - 1))"
proof -
  have "ws_prefixSum (ws' ! k) = prefix_total (heights ws') (Suc k)" if "int k \<le> min v (int i - 1)" for k
  proof -
    have k: "k < i" "int k \<le> v"
      using that by auto
    have "ws' ! k = ws ! k"
      using nth_take [OF k(1), of ws'] nth_take [OF k(1), of ws] assms(2) by simp
    moreover have "take (Suc k) (take i ws') = take (Suc k) ws'" "take (Suc k) (take i ws) = take (Suc k) ws"
      using k(1) by (simp_all add: min_def)
    then have "take (Suc k) ws' = take (Suc k) ws"
      using assms(2) by simp
    ultimately have "ws' ! k = ws ! k" "take (Suc k) ws' = take (Suc k) ws"
      by blast+
    then show ?thesis
      using assms(1) k(2) by (simp add: cache_ok_def prefix_total_def take_map)
  qed
  then show ?thesis
    using assms(1,4) by (auto simp: cache_ok_def)
qed

lemma cache_ok_same_heights:
  assumes "cache_ok ws v" "length ws' = length ws"
    and "\<And>k. k < length ws \<Longrightarrow> ws_height (ws' ! k) = ws_height (ws ! k) \<and> ws_prefixSum (ws' ! k) = ws_prefixSum (ws ! k)"
  shows "cache_ok ws' v"
proof -
  have "heights ws' = heights ws"
    using assms(2,3) by (auto intro: nth_equalityI)
  then show ?thesis
    using assms by (auto simp: cache_ok_def)
qed

section \<open>Searching the insertion index\<close>

lemma findInsertionIndex_loop_spec:
  assumes "low \<le> high"
  shows "low \<le> findInsertionIndex_loop a l d low high \<and> findInsertionIndex_loop a l d low high \<le> high \<and>
         (findInsertionIndex_loop a l d low high = low \<or>
            ws_key (a ! (findInsertionIndex_loop a l d low high - 1)) \<le> (l, d)) \<and>
         (findInsertionIndex_loop a l d low high = high \<or>
            (l, d) < ws_key (a ! findInsertionIndex_loop a l d low high))"
  using assms
proof (induction a l d low high rule: findInsertionIndex_loop.induct)
  case (1 a l d low high)
  show ?case
  proof (cases "low < high")
    case False
    then have "findInsertionIndex_loop a l d low high = low"
      by (subst findInsertionIndex_loop.simps) simp
    moreover have "low = high"
      using False 1(5) by simp
    ultimately show ?thesis
      by simp
  next
    case True
    define mid where "mid = (low + high) div 2"
    have mid: "low \<le> mid" "mid < high"
      using True by (auto simp: mid_def)
    show ?thesis
    proof (cases "ws_key (a ! mid) \<le> (l, d)")
      case le: True
      then have eq: "findInsertionIndex_loop a l d low high = findInsertionIndex_loop a l d (mid + 1) high"
        using True by (auto simp: findInsertionIndex_loop.simps [of a l d low high] mid_def [symmetric] Let_def ws_key_def)
      have "mid + 1 \<le> high"
        using mid by simp
      then have "mid + 1 \<le> findInsertionIndex_loop a l d (mid + 1) high \<and> findInsertionIndex_loop a l d (mid + 1) high \<le> high \<and>
         (findInsertionIndex_loop a l d (mid + 1) high = mid + 1 \<or>
            ws_key (a ! (findInsertionIndex_loop a l d (mid + 1) high - 1)) \<le> (l, d)) \<and>
         (findInsertionIndex_loop a l d (mid + 1) high = high \<or>
            (l, d) < ws_key (a ! findInsertionIndex_loop a l d (mid + 1) high))"
        using 1(2,4) [OF True mid_def] le by (cases "l = ws_afterLineNumber (a ! mid)") (auto simp: ws_key_def)
      with le mid show ?thesis
        unfolding eq by auto
    next
      case gt: False
      then have eq: "findInsertionIndex_loop a l d low high = findInsertionIndex_loop a l d low mid"
        using True by (auto simp: findInsertionIndex_loop.simps [of a l d low high] mid_def [symmetric] Let_def ws_key_def)
      have "low \<le> findInsertionIndex_loop a l d low mid \<and> findInsertionIndex_loop a l d low mid \<le> mid \<and>
         (findInsertionIndex_loop a l d low mid = low \<or>
            ws_key (a ! (findInsertionIndex_loop a l d low mid - 1)) \<le> (l, d)) \<and>
         (findInsertionIndex_loop a l d low mid = mid \<or>
            (l, d) < ws_key (a ! findInsertionIndex_loop a l d low mid))"
        using 1(1,3) [OF True mid_def] gt mid by (cases "l = ws_afterLineNumber (a ! mid)") (auto simp: ws_key_def)
      with gt mid show ?thesis
        unfolding eq by auto
    qed
  qed
qed

lemma findInsertionIndex_spec:
  "findInsertionIndex a l d \<le> length a"
  "0 < findInsertionIndex a l d \<Longrightarrow> ws_key (a ! (findInsertionIndex a l d - 1)) \<le> (l, d)"
  "findInsertionIndex a l d < length a \<Longrightarrow> (l, d) < ws_key (a ! findInsertionIndex a l d)"
  using findInsertionIndex_loop_spec [of 0 "length a" a l d] by (auto simp: findInsertionIndex_def)

text \<open>
  Inserting there keeps the array sorted, for the order by line alone as well as for the full
  key: both are weakly monotone images of the key.
\<close>

lemma sorted_splice_insert:
  assumes "sorted (map f xs)" "i \<le> length xs" "0 < i \<Longrightarrow> f (xs ! (i - 1)) \<le> f x" "i < length xs \<Longrightarrow> f x \<le> f (xs ! i)"
  shows "sorted (map f (js_splice xs i 0 [x]))"
proof -
  have "f y \<le> f x" if mem: "y \<in> set (take i xs)" for y
  proof -
    obtain k where k: "k < i" "k < length xs" "y = xs ! k"
      using mem by (auto simp: in_set_conv_nth)
    then have "f y \<le> f (xs ! (i - 1))"
      using assms(1,2) sorted_nth_mono [of "map f xs" k "i - 1"] by auto
    with assms(3) k(1) show ?thesis
      by force
  qed
  moreover have "f x \<le> f y" if mem: "y \<in> set (drop i xs)" for y
  proof -
    obtain k where k: "i + k < length xs" "y = xs ! (i + k)"
      using mem by (force simp: in_set_conv_nth less_diff_conv add.commute)
    then have "f (xs ! i) \<le> f y"
      using assms(1) sorted_nth_mono [of "map f xs" i "i + k"] by auto
    with assms(4) k(1) show ?thesis
      by force
  qed
  moreover have "sorted (map f (take i xs))" "sorted (map f (drop i xs))"
    using assms(1) by (simp_all add: take_map [symmetric] drop_map [symmetric] sorted_wrt_take sorted_wrt_drop)
  moreover have "f y \<le> f z" if "y \<in> set (take i xs)" "z \<in> set (drop i xs)" for y z
    using calculation that by force
  ultimately show ?thesis
    by (auto simp: js_splice_def sorted_append)
qed

section \<open>Invariant\<close>

text \<open>
  The whitespaces are sorted by line and have distinct ids, the cache is right up to its valid
  index, and the cached width is unset or the maximum.  The ids handed out so far are
  \<open>instanceId\<close> followed by a number up to \<open>lastWhitespaceId\<close>.
\<close>

definition issued :: "linesLayout \<Rightarrow> string set" where
  "issued s = (\<lambda>n. instanceId s @ decimal n) ` {1..lastWhitespaceId s}"

definition max_minWidth :: "editorWhitespace list \<Rightarrow> int" where
  "max_minWidth ws = foldl (\<lambda>m w. max m (ws_minWidth w)) 0 ws"

definition arr_ok :: "linesLayout \<Rightarrow> bool" where
  "arr_ok s \<longleftrightarrow> sorted (map ws_afterLineNumber (arr s)) \<and> cache_ok (arr s) (prefixSumValidIndex s)"

definition lay_inv :: "linesLayout \<Rightarrow> bool" where
  "lay_inv s \<longleftrightarrow>
     arr_ok s \<and> distinct (map ws_id (arr s @ pc_inserts (pending s))) \<and>
     ws_id ` set (arr s @ pc_inserts (pending s)) \<subseteq> issued s \<and>
     (minWidth s = -1 \<or> minWidth s = max_minWidth (arr s)) \<and>
     (hasPending (pending s) \<or> pending s = new_PendingChanges)"

lemma js_splice_basic:
  "i \<le> length xs \<Longrightarrow> take i (js_splice xs i n ys) = take i xs"
  "i \<le> length xs \<Longrightarrow> i \<le> length (js_splice xs i n ys)"
  "mset (js_splice xs i 0 [x]) = add_mset x (mset xs)"
  "i < length xs \<Longrightarrow> js_splice xs i 1 [] = take i xs @ drop (Suc i) xs"
proof -
  show "mset (js_splice xs i 0 [x]) = add_mset x (mset xs)"
    by (simp add: js_splice_def) (metis append_take_drop_id mset_append)
qed (simp_all add: js_splice_def)

lemma arr_ok_insert:
  assumes "arr_ok s"
  shows "arr_ok (insertWhitespace_internal w s)"
    and "mset (arr (insertWhitespace_internal w s)) = add_mset w (mset (arr s))"
proof -
  let ?i = "findInsertionIndex (arr s) (ws_afterLineNumber w) (ws_ordinal w)"
  note spec = findInsertionIndex_spec [of "arr s" "ws_afterLineNumber w" "ws_ordinal w"]
  have "sorted (map ws_afterLineNumber (js_splice (arr s) ?i 0 [w]))"
    using assms spec by (intro sorted_splice_insert) (auto simp: arr_ok_def ws_key_def less_eq_prod_def less_prod_def)
  moreover have "cache_ok (js_splice (arr s) ?i 0 [w]) (min (prefixSumValidIndex s) (int ?i - 1))"
    using assms spec(1) by (intro cache_ok_prefix [of "arr s"]) (auto simp: arr_ok_def js_splice_basic)
  ultimately show "arr_ok (insertWhitespace_internal w s)"
    by (simp add: arr_ok_def insertWhitespace_internal_def Let_def)
  show "mset (arr (insertWhitespace_internal w s)) = add_mset w (mset (arr s))"
    by (simp add: insertWhitespace_internal_def Let_def js_splice_basic)
qed

lemma arr_ok_remove:
  assumes "arr_ok s" "i < length (arr s)"
  shows "arr_ok (removeWhitespace_internal i s)"
    and "arr (removeWhitespace_internal i s) = take i (arr s) @ drop (Suc i) (arr s)"
proof -
  have arr: "js_splice (arr s) i 1 [] = take i (arr s) @ drop (Suc i) (arr s)"
    using assms(2) by (rule js_splice_basic)
  have "sorted (map ws_afterLineNumber (take i (arr s) @ arr s ! i # drop (Suc i) (arr s)))"
    using assms id_take_nth_drop [of i "arr s"] by (simp add: arr_ok_def)
  then have "sorted (map ws_afterLineNumber (js_splice (arr s) i 1 []))"
    unfolding arr by (simp add: sorted_append)
  moreover have "cache_ok (js_splice (arr s) i 1 []) (min (prefixSumValidIndex s) (int i - 1))"
    using assms by (intro cache_ok_prefix [of "arr s"]) (auto simp: arr_ok_def js_splice_basic)
  ultimately show "arr_ok (removeWhitespace_internal i s)"
    by (simp add: arr_ok_def removeWhitespace_internal_def)
  show "arr (removeWhitespace_internal i s) = take i (arr s) @ drop (Suc i) (arr s)"
    using arr by (simp add: removeWhitespace_internal_def)
qed

lemma findWhitespaceIndex_spec:
  "findWhitespaceIndex s i = Some k \<Longrightarrow> k < length (arr s) \<and> ws_id (arr s ! k) = i"
  "findWhitespaceIndex s i = None \<Longrightarrow> i \<notin> ws_id ` set (arr s)"
proof -
  let ?P = "\<lambda>w. ws_id w \<noteq> i"
  show "findWhitespaceIndex s i = Some k \<Longrightarrow> k < length (arr s) \<and> ws_id (arr s ! k) = i"
    using nth_length_takeWhile [of ?P "arr s"]
    by (auto simp: findWhitespaceIndex_def Let_def while_index_takeWhile split: if_splits)
  assume "findWhitespaceIndex s i = None"
  then have "length (takeWhile ?P (arr s)) = length (arr s)"
    using length_takeWhile_le [of ?P "arr s"]
    by (auto simp: findWhitespaceIndex_def Let_def while_index_takeWhile split: if_splits)
  then have "takeWhile ?P (arr s) = arr s"
    by (metis take_all_iff takeWhile_eq_take order_refl)
  then show "i \<notin> ws_id ` set (arr s)"
    by (metis (mono_tags, lifting) imageE set_takeWhileD)
qed

text \<open>What the private operations leave alone.\<close>

definition lay_frame :: "linesLayout \<Rightarrow> linesLayout \<Rightarrow> bool" where
  "lay_frame s s' \<longleftrightarrow>
     instanceId s' = instanceId s \<and> pending s' = pending s \<and> lastWhitespaceId s' = lastWhitespaceId s \<and>
     minWidth s' = minWidth s \<and> lineCount s' = lineCount s \<and> lineHeight s' = lineHeight s \<and>
     paddingTop s' = paddingTop s \<and> paddingBottom s' = paddingBottom s"

lemma lay_frame_ops [simp]:
  "lay_frame s (insertWhitespace_internal w s)" "lay_frame s (removeWhitespace_internal i s)"
  "lay_frame s s" "lay_frame s s' \<Longrightarrow> lay_frame s' s'' \<Longrightarrow> lay_frame s s''"
  by (auto simp: lay_frame_def insertWhitespace_internal_def removeWhitespace_internal_def Let_def)

lemma nth_list_update_split: "i < length xs \<Longrightarrow> xs[i := y] = take i xs @ y # drop (Suc i) xs"
  by (rule upd_conv_take_nth_drop)

lemma mset_update_split: "i < length xs \<Longrightarrow> mset (xs[i := y]) = add_mset y (mset (take i xs @ drop (Suc i) xs))"
  by (simp add: upd_conv_take_nth_drop)

lemma arr_ok_changeOne:
  fixes l h :: int
  assumes "arr_ok s" "findWhitespaceIndex s i = Some k"
  defines "s' \<equiv> changeOneWhitespace_internal i l h s"
  shows "arr_ok s'" "lay_frame s s'"
    and "mset (arr s') = mset ((arr s)[k := (arr s ! k)\<lparr>ws_afterLineNumber := l, ws_height := h\<rparr>])"
proof -
  have k: "k < length (arr s)"
    using findWhitespaceIndex_spec(1) [OF assms(2)] by simp
  let ?w = "(arr s ! k)\<lparr>ws_height := h\<rparr>"
  define s1 where "s1 = (if ws_height (arr s ! k) \<noteq> h
      then s\<lparr>arr := (arr s)[k := ?w], prefixSumValidIndex := min (prefixSumValidIndex s) (int k - 1)\<rparr> else s)"
  have upd: "arr s1 = (arr s)[k := ?w]"
  proof (cases "ws_height (arr s ! k) = h")
    case True
    then have "?w = arr s ! k"
      by (cases "arr s ! k") simp
    then have "(arr s)[k := ?w] = arr s"
      by (simp only: list_update_id)
    moreover have "s1 = s"
      by (simp add: s1_def True)
    ultimately show ?thesis
      by simp
  qed (simp add: s1_def)
  have lines: "map ws_afterLineNumber (arr s1) = map ws_afterLineNumber (arr s)"
    by (simp add: upd map_update list_update_same_conv k)
  have "cache_ok ((arr s)[k := ?w]) (min (prefixSumValidIndex s) (int k - 1))"
    using assms(1) k by (intro cache_ok_prefix [of "arr s"]) (auto simp: arr_ok_def)
  then have ok1: "arr_ok s1"
    using assms(1) lines by (auto simp: arr_ok_def s1_def)
  have fr1: "lay_frame s s1"
    by (simp add: s1_def lay_frame_def)
  have s': "s' = (if ws_afterLineNumber (arr s1 ! k) \<noteq> l
                  then insertWhitespace_internal ((arr s1 ! k)\<lparr>ws_afterLineNumber := l\<rparr>) (removeWhitespace_internal k s1)
                  else s1)"
    by (simp add: s'_def changeOneWhitespace_internal_def assms(2) s1_def Let_def)
  have k1: "k < length (arr s1)"
    using k upd by simp
  show "arr_ok s'"
    using ok1 arr_ok_insert(1) arr_ok_remove(1) [OF ok1 k1] by (simp add: s')
  show "lay_frame s s'"
    unfolding s' using fr1
    by (simp add: lay_frame_def insertWhitespace_internal_def removeWhitespace_internal_def Let_def)
  have r: "arr (removeWhitespace_internal k s1) = take k (arr s) @ drop (Suc k) (arr s)"
    using arr_ok_remove(2) [OF ok1 k1] by (simp add: upd)
  show "mset (arr s') = mset ((arr s)[k := (arr s ! k)\<lparr>ws_afterLineNumber := l, ws_height := h\<rparr>])"
  proof (cases "ws_afterLineNumber (arr s1 ! k) = l")
    case True
    then have "(arr s ! k)\<lparr>ws_afterLineNumber := l, ws_height := h\<rparr> = ?w"
      using k by (simp add: upd)
    with True show ?thesis
      by (simp add: s' upd)
  next
    case False
    then have "mset (arr s') = add_mset ((arr s1 ! k)\<lparr>ws_afterLineNumber := l\<rparr>) (mset (take k (arr s) @ drop (Suc k) (arr s)))"
      using arr_ok_insert(2) [OF arr_ok_remove(1) [OF ok1 k1]] r by (simp add: s')
    also have "(arr s1 ! k)\<lparr>ws_afterLineNumber := l\<rparr> = (arr s ! k)\<lparr>ws_afterLineNumber := l, ws_height := h\<rparr>"
      using k by (simp add: upd)
    finally show ?thesis
      by (simp add: mset_update_split [OF k])
  qed
qed

section \<open>Committing pending changes\<close>

lemma applyRemoveAndChange_alt:
  "applyRemoveAndChange R C ws = map (applyChange C) (filter (\<lambda>w. ws_id w \<notin> R) ws)"
  by (induction ws) auto

lemma applyChange_id [simp]: "ws_id (applyChange C w) = ws_id w" "ws_minWidth (applyChange C w) = ws_minWidth w"
  by (simp_all add: applyChange_def split: option.split)

lemma applyChange_simps [simp]:
  "applyChange [] w = w"
  "applyChange [c] w =
     (if ws_id w = pc_id c then w\<lparr>ws_afterLineNumber := pc_newAfterLineNumber c, ws_height := pc_newHeight c\<rparr> else w)"
  by (simp_all add: applyChange_def toChange_def)

lemma applyChange_Nil [simp]: "applyChange [] = (\<lambda>w. w)"
  by (rule ext) simp

text \<open>On arrays with distinct ids a single change or removal concerns one entry.\<close>

lemma distinct_ids_other:
  assumes "distinct (map ws_id ws)" "k < length ws" "j < length ws" "ws_id (ws ! j) = ws_id (ws ! k)"
  shows "j = k"
  using assms by (auto simp: distinct_conv_nth)

lemma map_applyChange_single:
  assumes "distinct (map ws_id ws)" "k < length ws" "ws_id (ws ! k) = pc_id c"
  shows "map (applyChange [c]) ws =
           ws[k := (ws ! k)\<lparr>ws_afterLineNumber := pc_newAfterLineNumber c, ws_height := pc_newHeight c\<rparr>]"
proof (rule nth_equalityI)
  fix j assume "j < length (map (applyChange [c]) ws)"
  then have j: "j < length ws"
    by simp
  show "map (applyChange [c]) ws ! j =
          ws[k := (ws ! k)\<lparr>ws_afterLineNumber := pc_newAfterLineNumber c, ws_height := pc_newHeight c\<rparr>] ! j"
  proof (cases "j = k")
    case False
    then have "ws_id (ws ! j) \<noteq> pc_id c"
      using distinct_ids_other [OF assms(1,2) j] assms(3) by auto
    with False j show ?thesis
      by simp
  qed (use j assms(3) in simp)
qed simp

lemma filter_single_id:
  assumes "distinct (map ws_id ws)" "k < length ws"
  shows "filter (\<lambda>w. ws_id w \<noteq> ws_id (ws ! k)) ws = take k ws @ drop (Suc k) ws"
proof -
  have ws: "ws = take k ws @ ws ! k # drop (Suc k) ws"
    using assms(2) by (rule id_take_nth_drop)
  have "ws_id (ws ! k) \<notin> ws_id ` set (take k ws)" "ws_id (ws ! k) \<notin> ws_id ` set (drop (Suc k) ws)"
    using assms(1) ws by (metis (no_types, lifting) distinct.simps(2) distinct_append list.map(2) list.set_map map_append
        disjoint_iff list.set_intros(1))+
  then have "filter (\<lambda>w. ws_id w \<noteq> ws_id (ws ! k)) (take k ws) = take k ws"
    "filter (\<lambda>w. ws_id w \<noteq> ws_id (ws ! k)) (drop (Suc k) ws) = drop (Suc k) ws"
    by (auto simp: filter_id_conv image_iff)
  then show ?thesis
    using ws by (metis (mono_tags, lifting) filter.simps(2) filter_append)
qed

text \<open>
  Both ways of committing, one change at a time or rebuilding the array, arrive at the same
  whitespaces.
\<close>

lemma sorted_key_lines: "sorted (map ws_key ws) \<Longrightarrow> sorted (map ws_afterLineNumber ws)"
  by (induction ws) (auto simp: ws_key_def less_eq_prod_def)

lemma commit_cases:
  assumes "length inserts + length changes + length removes \<le> 1"
  obtains "inserts = []" "changes = []" "removes = []"
  | w where "inserts = [w]" "changes = []" "removes = []"
  | c where "inserts = []" "changes = [c]" "removes = []"
  | i where "inserts = []" "changes = []" "removes = [i]"
  using assms by (cases inserts; cases changes; cases removes) auto

lemma commit_spec:
  fixes changes :: "pendingChange list" and removes :: "string list"
  assumes "arr_ok s" "distinct (map ws_id (arr s @ inserts))"
  defines "s' \<equiv> commitPendingChanges inserts changes removes s"
  defines "s0 \<equiv> if inserts \<noteq> [] \<or> removes \<noteq> [] then s\<lparr>minWidth := -1\<rparr> else s"
  shows "arr_ok s' \<and> lay_frame s0 s' \<and>
         mset (arr s') = mset (applyRemoveAndChange (set removes) changes (arr s) @
                               applyRemoveAndChange (set removes) changes inserts)"
proof (cases "length inserts + length changes + length removes \<le> 1")
  case False
  then have "s' = s0\<lparr>arr := sort_key ws_key (applyRemoveAndChange (set removes) changes (arr s0) @
      applyRemoveAndChange (set removes) changes inserts), prefixSumValidIndex := -1\<rparr>"
    by (simp add: s'_def commitPendingChanges_def s0_def)
  moreover have "sorted (map ws_afterLineNumber (sort_key ws_key ws))" for ws
    by (rule sorted_key_lines) simp
  ultimately show ?thesis
    by (simp add: arr_ok_def lay_frame_def s0_def)
next
  case True
  have ok0: "arr_ok s0" and arr0: "arr s0 = arr s"
    using assms(1) by (auto simp: arr_ok_def s0_def)
  from True show ?thesis
  proof (cases rule: commit_cases)
    case 1
    then show ?thesis
      using ok0 by (simp add: s'_def commitPendingChanges_def s0_def applyRemoveAndChange_alt)
  next
    case (2 w)
    then have "s' = insertWhitespace_internal w s0"
      by (simp add: s'_def commitPendingChanges_def s0_def Let_def)
    with 2 show ?thesis
      using arr_ok_insert [OF ok0, of w] by (simp add: applyRemoveAndChange_alt arr0)
  next
    case (3 c)
    then have s': "s' = changeOneWhitespace_internal (pc_id c) (pc_newAfterLineNumber c) (pc_newHeight c) s0"
      by (simp add: s'_def commitPendingChanges_def s0_def Let_def)
    show ?thesis
    proof (cases "findWhitespaceIndex s0 (pc_id c)")
      case None
      then have "map (applyChange [c]) (arr s) = arr s"
        using findWhitespaceIndex_spec(2) [OF None] by (intro map_idI) (auto simp: arr0 image_iff)
      with None 3 show ?thesis
        using ok0 by (simp add: s' changeOneWhitespace_internal_def applyRemoveAndChange_alt arr0)
    next
      case (Some k)
      note k = findWhitespaceIndex_spec(1) [OF Some]
      have "map (applyChange [c]) (arr s) =
          (arr s)[k := (arr s ! k)\<lparr>ws_afterLineNumber := pc_newAfterLineNumber c, ws_height := pc_newHeight c\<rparr>]"
        using map_applyChange_single [of "arr s" k c] k assms(2) by (simp add: arr0)
      with 3 show ?thesis
        using arr_ok_changeOne [OF ok0 Some, of "pc_newAfterLineNumber c" "pc_newHeight c"]
        by (simp add: s' applyRemoveAndChange_alt arr0)
    qed
  next
    case (4 i)
    then have s': "s' = (case findWhitespaceIndex s0 i of None \<Rightarrow> s0 | Some index \<Rightarrow> removeWhitespace_internal index s0)"
      by (simp add: s'_def commitPendingChanges_def s0_def Let_def split: option.split)
    show ?thesis
    proof (cases "findWhitespaceIndex s0 i")
      case None
      then have "filter (\<lambda>w. ws_id w \<noteq> i) (arr s) = arr s"
        using findWhitespaceIndex_spec(2) [OF None] by (auto simp: arr0 filter_id_conv image_iff)
      with None 4 show ?thesis
        using ok0 by (simp add: s' applyRemoveAndChange_alt arr0)
    next
      case (Some k)
      note k = findWhitespaceIndex_spec(1) [OF Some]
      have "filter (\<lambda>w. ws_id w \<noteq> i) (arr s) = take k (arr s) @ drop (Suc k) (arr s)"
        using filter_single_id [of "arr s" k] k assms(2) by (simp add: arr0)
      with 4 Some show ?thesis
        using arr_ok_remove [OF ok0, of k] k by (simp add: s' applyRemoveAndChange_alt arr0)
    qed
  qed
qed

section \<open>Correctness of the cache-filling reads\<close>

text \<open>\<open>same_ws\<close>: equal up to the cached sums.\<close>

definition same_ws :: "editorWhitespace list \<Rightarrow> editorWhitespace list \<Rightarrow> bool" where
  "same_ws ws ws' \<longleftrightarrow> map (ws_prefixSum_update (\<lambda>_. 0)) ws' = map (ws_prefixSum_update (\<lambda>_. 0)) ws"

lemma same_ws_refl [simp]: "same_ws ws ws"
  and same_ws_trans: "same_ws ws ws' \<Longrightarrow> same_ws ws' ws'' \<Longrightarrow> same_ws ws ws''"
  by (simp_all add: same_ws_def)

lemma same_ws_upd: "same_ws ws (ws[i := (ws ! i)\<lparr>ws_prefixSum := v\<rparr>])"
proof (cases "i < length ws")
  case True
  then show ?thesis
    by (auto simp: same_ws_def map_update list_update_same_conv)
qed (simp add: same_ws_def list_update_beyond)

lemma same_ws_nth: "same_ws ws ws' \<Longrightarrow> k < length ws \<Longrightarrow> (ws' ! k)\<lparr>ws_prefixSum := 0\<rparr> = (ws ! k)\<lparr>ws_prefixSum := 0\<rparr>"
  unfolding same_ws_def by (metis length_map nth_map)

lemma same_ws_map:
  assumes "same_ws ws ws'" "\<And>w. f (w\<lparr>ws_prefixSum := 0\<rparr>) = f w"
  shows "map f ws' = map f ws"
proof -
  have "map f us = map f (map (ws_prefixSum_update (\<lambda>_. 0)) us)" for us
    using assms(2) by simp
  then show ?thesis
    using assms(1) unfolding same_ws_def by metis
qed

lemma same_ws_maps:
  assumes "same_ws ws ws'"
  shows "length ws' = length ws" "map ws_id ws' = map ws_id ws" "heights ws' = heights ws"
    "map ws_afterLineNumber ws' = map ws_afterLineNumber ws" "map ws_minWidth ws' = map ws_minWidth ws"
    "map ws_key ws' = map ws_key ws"
proof -
  show "length ws' = length ws"
    using assms unfolding same_ws_def by (metis length_map)
qed (rule same_ws_map [OF assms], simp add: ws_key_def)+

lemma accumulate_loop_spec:
  assumes "cache_ok ws (int i - 1)" "0 < i" "index < int (length ws)"
  shows "\<exists>ws'. accumulate_loop ws i index = Inr ws' \<and> same_ws ws ws' \<and> cache_ok ws' (max (int i - 1) index)"
  using assms
proof (induction ws i index rule: accumulate_loop.induct)
  case (1 ws i index)
  show ?case
  proof (cases "int i \<le> index")
    case False
    then have "accumulate_loop ws i index = Inr ws"
      by (subst accumulate_loop.simps) simp
    with False 1(2) show ?thesis
      by simp
  next
    case True
    let ?v = "ws_prefixSum (ws ! (i - 1)) + ws_height (ws ! i)"
    let ?ws = "ws[i := (ws ! i)\<lparr>ws_prefixSum := ?v\<rparr>]"
    have i: "i < length ws"
      using True 1(4) by simp
    have same: "same_ws ws ?ws"
      by (rule same_ws_upd)
    have "ws_prefixSum (ws ! (i - 1)) = prefix_total (heights ws) i"
      using 1(2,3) by (auto simp: cache_ok_def)
    then have v: "?v = prefix_total (heights ws) (Suc i)"
      using i by (simp add: prefix_total_Suc)
    have "cache_ok ?ws (int (i + 1) - 1)"
      using 1(2) i v same_ws_maps(3) [OF same] by (auto simp: cache_ok_def nth_list_update)
    moreover have "index < int (length ?ws)"
      using 1(4) by simp
    ultimately obtain ws' where ws': "accumulate_loop ?ws (i + 1) index = Inr ws'" "same_ws ?ws ws'"
      "cache_ok ws' (max (int (i + 1) - 1) index)"
      using 1(1) [OF True i] by auto
    moreover have "accumulate_loop ws i index = accumulate_loop ?ws (i + 1) index"
      using True i by (subst accumulate_loop.simps) simp
    moreover have "max (int (i + 1) - 1) index = max (int i - 1) index"
      using True by simp
    ultimately show ?thesis
      using same_ws_trans [OF same] by auto
  qed
qed

section \<open>Preservation of the invariant\<close>

lemma max_minWidth_set: "max_minWidth ws = Max (insert 0 (ws_minWidth ` set ws))"
proof -
  have "foldl (\<lambda>m w. max m (ws_minWidth w)) b ws = Max (insert b (ws_minWidth ` set ws))" for b
  proof (induction ws arbitrary: b)
    case (Cons w ws)
    then show ?case
      by (cases "ws = []") (simp_all add: max.assoc)
  qed simp
  then show ?thesis
    by (simp add: max_minWidth_def)
qed

lemma decimal_inj: "decimal m = decimal n \<Longrightarrow> m = n"
proof -
  have dec: "foldl (\<lambda>n c. 10 * n + (of_char c - 48)) 0 (decimal n) = n" for n :: nat
  proof (induction n rule: decimal.induct)
    case (1 n)
    have digit: "of_char (char_of (48 + d)) - 48 = d" if "d < 10" for d :: nat
      using that by simp
    show ?case
    proof (cases "n < 10")
      case True
      then show ?thesis
        using digit [of n] by (subst decimal.simps) simp
    next
      case False
      then show ?thesis
        using 1 digit [of "n mod 10"] by (subst decimal.simps) (simp del: of_char_of)
    qed
  qed
  show "decimal m = decimal n \<Longrightarrow> m = n"
    by (metis dec)
qed

lemma fresh_id: "instanceId s @ decimal (lastWhitespaceId s + 1) \<notin> issued s"
  by (auto simp: issued_def dest!: decimal_inj)

lemma lay_inv_commit:
  assumes "lay_inv s"
  defines "s' \<equiv> PendingChanges_commit s"
  shows "lay_inv s'" "pending s' = new_PendingChanges"
    and "lineCount s' = lineCount s \<and> lineHeight s' = lineHeight s \<and> paddingTop s' = paddingTop s \<and> paddingBottom s' = paddingBottom s"
    and "mset (arr s') = mset (applyRemoveAndChange (set (pc_removes (pending s))) (pc_changes (pending s))
           (arr s @ pc_inserts (pending s)))"
proof -
  have "lay_inv s' \<and> pending s' = new_PendingChanges \<and> (lineCount s' = lineCount s \<and> lineHeight s' = lineHeight s \<and>
      paddingTop s' = paddingTop s \<and> paddingBottom s' = paddingBottom s) \<and>
    mset (arr s') = mset (applyRemoveAndChange (set (pc_removes (pending s))) (pc_changes (pending s))
           (arr s @ pc_inserts (pending s)))"
  proof (cases "hasPending (pending s)")
    case False
    then have "s' = s" "pending s = new_PendingChanges"
      using assms(1) by (auto simp: s'_def PendingChanges_commit_def lay_inv_def)
    with assms(1) show ?thesis
      by (simp add: new_PendingChanges_def applyRemoveAndChange_alt)
  next
    case True
    let ?p = "pending s"
    let ?I = "pc_inserts ?p" and ?C = "pc_changes ?p" and ?R = "pc_removes ?p"
    let ?s = "s\<lparr>pending := ?p\<lparr>hasPending := False, pc_inserts := [], pc_changes := [], pc_removes := []\<rparr>\<rparr>"
    have s': "s' = commitPendingChanges ?I ?C ?R ?s"
      using True by (simp add: s'_def PendingChanges_commit_def Let_def)
    have "arr_ok ?s" "distinct (map ws_id (arr ?s @ ?I))"
      using assms(1) by (auto simp: lay_inv_def arr_ok_def)
    from commit_spec [OF this, of ?C ?R] have
      ok: "arr_ok s'" and fr: "lay_frame (if ?I \<noteq> [] \<or> ?R \<noteq> [] then ?s\<lparr>minWidth := -1\<rparr> else ?s) s'" and
      ms: "mset (arr s') = mset (applyRemoveAndChange (set ?R) ?C (arr s @ ?I))"
      by (simp_all add: s' applyRemoveAndChange_alt)
    let ?ws = "applyRemoveAndChange (set ?R) ?C (arr s @ ?I)"
    have ids: "map ws_id ?ws = map ws_id (filter (\<lambda>w. ws_id w \<notin> set ?R) (arr s @ ?I))"
      by (simp add: applyRemoveAndChange_alt comp_def)
    have "distinct (map ws_id ?ws)"
      unfolding ids using assms(1) by (intro distinct_map_filter) (simp add: lay_inv_def)
    moreover have "mset (map ws_id (arr s')) = mset (map ws_id ?ws)"
      using ms by simp
    ultimately have d: "distinct (map ws_id (arr s'))"
      by (metis mset_eq_imp_distinct_iff)
    have "set (arr s') = set ?ws"
      using ms by (rule mset_eq_setD)
    then have "ws_id ` set (arr s') \<subseteq> ws_id ` set (arr s @ ?I)"
      by (auto simp: applyRemoveAndChange_alt)
    then have sub: "ws_id ` set (arr s') \<subseteq> issued s"
      using assms(1) unfolding lay_inv_def by (meson order_trans)
    have mw: "minWidth s' = -1 \<or> minWidth s' = max_minWidth (arr s')"
    proof (cases "?I \<noteq> [] \<or> ?R \<noteq> []")
      case True
      then show ?thesis
        using fr by (auto simp: lay_frame_def)
    next
      case False
      then have "?ws = map (applyChange ?C) (arr s)"
        by (simp add: applyRemoveAndChange_alt)
      then have "ws_minWidth ` set (arr s') = ws_minWidth ` set (arr s)"
        using \<open>set (arr s') = set ?ws\<close> by (auto simp: image_image)
      with False show ?thesis
        using fr assms(1) by (auto simp: lay_frame_def lay_inv_def max_minWidth_set)
    qed
    have pend: "pending s' = new_PendingChanges"
      using fr by (auto simp: lay_frame_def new_PendingChanges_def split: if_splits)
    have iss: "issued s' = issued s"
      using fr by (auto simp: lay_frame_def issued_def split: if_splits)
    show ?thesis
      using ok d sub mw pend iss ms fr assms(1)
      by (auto simp: lay_inv_def lay_frame_def new_PendingChanges_def split: if_splits)
  qed
  then show "lay_inv s'" "pending s' = new_PendingChanges"
    "lineCount s' = lineCount s \<and> lineHeight s' = lineHeight s \<and> paddingTop s' = paddingTop s \<and> paddingBottom s' = paddingBottom s"
    "mset (arr s') = mset (applyRemoveAndChange (set (pc_removes (pending s))) (pc_changes (pending s))
           (arr s @ pc_inserts (pending s)))"
    by blast+
qed

lemma checkPendingChanges_eq: "checkPendingChanges s = PendingChanges_commit s"
  by (simp add: checkPendingChanges_def PendingChanges_mustCommit_def PendingChanges_commit_def Let_def)

lemma lay_inv_check [simp]: "lay_inv s \<Longrightarrow> lay_inv (checkPendingChanges s)"
  and pending_check [simp]: "lay_inv s \<Longrightarrow> pending (checkPendingChanges s) = new_PendingChanges"
  by (simp_all add: checkPendingChanges_eq lay_inv_commit)

lemma check_committed: "pending s = new_PendingChanges \<Longrightarrow> checkPendingChanges s = s"
  by (simp add: checkPendingChanges_def PendingChanges_mustCommit_def new_PendingChanges_def)

text \<open>Reading sums changes nothing but the cache.\<close>

definition cache_step :: "linesLayout \<Rightarrow> linesLayout \<Rightarrow> bool" where
  "cache_step s s' \<longleftrightarrow> lay_frame s s' \<and> same_ws (arr s) (arr s') \<and> cache_ok (arr s') (prefixSumValidIndex s')"

lemma same_ws_widths: "same_ws ws ws' \<Longrightarrow> max_minWidth ws' = max_minWidth ws"
  by (metis image_set max_minWidth_set same_ws_maps(5))

lemma cache_step_inv:
  assumes "lay_inv s" "cache_step s s'"
  shows "lay_inv s'"
proof -
  have same: "same_ws (arr s) (arr s')"
    using assms(2) by (simp add: cache_step_def)
  note m = same_ws_maps [OF same]
  have "ws_id ` set (arr s') = ws_id ` set (arr s)"
    using m(2) by (metis image_set)
  moreover have "issued s' = issued s"
    using assms(2) by (simp add: cache_step_def lay_frame_def issued_def)
  ultimately show ?thesis
    using assms m same_ws_widths [OF same]
    by (simp add: lay_inv_def arr_ok_def cache_step_def lay_frame_def image_Un)
qed

lemma getWhitespacesAccumulatedHeight_spec:
  assumes "lay_inv s" "pending s = new_PendingChanges" "0 \<le> toInt32 j" "toInt32 j < int (length (arr s))"
  shows "\<exists>s'. getWhitespacesAccumulatedHeight j s = Inr (s', prefix_total (heights (arr s)) (nat (toInt32 j) + 1)) \<and>
              cache_step s s'"
proof -
  define index where "index = toInt32 j"
  note assms = assms [folded index_def]
  let ?v = "prefixSumValidIndex s"
  have ok: "cache_ok (arr s) ?v"
    using assms(1) by (simp add: lay_inv_def arr_ok_def)
  have "\<exists>ws i. (if nat (max 0 (?v + 1)) = 0
               then (case arr s of [] \<Rightarrow> Inl TypeError | w # ws \<Rightarrow> Inr (w\<lparr>ws_prefixSum := ws_height w\<rparr> # ws, 1))
               else Inr (arr s, nat (max 0 (?v + 1)))) = Inr (ws, i) \<and>
             0 < i \<and> int i - 1 = max 0 ?v \<and> same_ws (arr s) ws \<and> cache_ok ws (int i - 1)"
  proof (cases "?v = -1")
    case True
    obtain w ws where arr: "arr s = w # ws"
      using assms(3,4) by (cases "arr s") auto
    have "same_ws (arr s) ((arr s)[0 := (arr s ! 0)\<lparr>ws_prefixSum := ws_height w\<rparr>])"
      by (rule same_ws_upd)
    then show ?thesis
      using True by (simp add: arr cache_ok_def prefix_total_def)
  next
    case False
    then show ?thesis
      using ok by (auto simp: cache_ok_def)
  qed
  then obtain ws i where ws: "(if nat (max 0 (?v + 1)) = 0
               then (case arr s of [] \<Rightarrow> Inl TypeError | w # ws \<Rightarrow> Inr (w\<lparr>ws_prefixSum := ws_height w\<rparr> # ws, 1))
               else Inr (arr s, nat (max 0 (?v + 1)))) = Inr (ws, i)"
    "0 < i" "int i - 1 = max 0 ?v" "same_ws (arr s) ws" "cache_ok ws (int i - 1)"
    by blast
  have len: "length ws = length (arr s)"
    using same_ws_maps(1) [OF ws(4)] .
  then obtain ws' where ws': "accumulate_loop ws i index = Inr ws'" "same_ws ws ws'" "cache_ok ws' (max (int i - 1) index)"
    using accumulate_loop_spec [OF ws(5,2), of index] assms(4) by auto
  have same: "same_ws (arr s) ws'"
    using same_ws_trans [OF ws(4) ws'(2)] .
  have len': "length ws' = length (arr s)" and h: "heights ws' = heights (arr s)"
    using same_ws_maps(1,3) [OF same] .
  have "max (int i - 1) index = max ?v index"
    using ws(3) assms(3) by simp
  then have ok': "cache_ok ws' (max ?v index)"
    using ws'(3) by simp
  then have "ws_prefixSum (ws' ! nat index) = prefix_total (heights (arr s)) (nat index + 1)"
    using assms(3) by (simp add: cache_ok_def h)
  moreover have "getWhitespacesAccumulatedHeight j s =
      Inr (s\<lparr>arr := ws', prefixSumValidIndex := max ?v index\<rparr>, ws_prefixSum (ws' ! nat index))"
    using assms(3,4) len' ws(1) ws'(1)
    unfolding getWhitespacesAccumulatedHeight_def check_committed [OF assms(2)] Let_def index_def [symmetric] by simp
  ultimately show ?thesis
    using same ok' by (simp add: index_def [symmetric] cache_step_def lay_frame_def)
qed

lemma lay_inv_minWidth:
  assumes "lay_inv s"
  shows "lay_inv (fst (getWhitespaceMinWidth s))"
    and "snd (getWhitespaceMinWidth s) = max_minWidth (arr (fst (getWhitespaceMinWidth s)))"
  using lay_inv_check [OF assms]
  by (auto simp: getWhitespaceMinWidth_def Let_def lay_inv_def arr_ok_def issued_def max_minWidth_def)

lemma lay_inv_map_lines:
  assumes "lay_inv s" "mono g"
  shows "lay_inv (s\<lparr>lineCount := n, arr := map (\<lambda>w. w\<lparr>ws_afterLineNumber := g (ws_afterLineNumber w)\<rparr>) (arr s)\<rparr>)"
proof -
  let ?f = "\<lambda>w. w\<lparr>ws_afterLineNumber := g (ws_afterLineNumber w)\<rparr>"
  have "mono_on (set (map ws_afterLineNumber (arr s))) g"
    using monoD [OF assms(2)] by (simp add: monotone_on_def)
  moreover have "sorted (map ws_afterLineNumber (arr s))"
    using assms(1) by (simp add: lay_inv_def arr_ok_def)
  ultimately have "sorted (map g (map ws_afterLineNumber (arr s)))"
    by (intro sorted_map_mono)
  then have "sorted (map ws_afterLineNumber (map ?f (arr s)))"
    by (simp add: comp_def)
  moreover have "cache_ok (map ?f (arr s)) (prefixSumValidIndex s)"
    by (rule cache_ok_same_heights [of "arr s"]) (use assms(1) in \<open>simp_all add: lay_inv_def arr_ok_def\<close>)
  moreover have "max_minWidth (map ?f (arr s)) = max_minWidth (arr s)"
    by (simp add: max_minWidth_set image_image)
  ultimately show ?thesis
    using assms(1) by (simp add: lay_inv_def arr_ok_def issued_def comp_def image_Un image_image)
qed

lemma onLinesDeleted_alt:
  "onLinesDeleted a b s =
     (checkPendingChanges s)\<lparr>lineCount := lineCount (checkPendingChanges s) - (toInt32 b - toInt32 a + 1),
       arr := map (\<lambda>w. w\<lparr>ws_afterLineNumber :=
                 (\<lambda>l. if toInt32 a \<le> l \<and> l \<le> toInt32 b then toInt32 a - 1
                      else if l > toInt32 b then l - (toInt32 b - toInt32 a + 1) else l) (ws_afterLineNumber w)\<rparr>)
         (arr (checkPendingChanges s))\<rparr>"
  by (auto simp: onLinesDeleted_def Let_def)

lemma onLinesInserted_alt:
  "onLinesInserted a b s =
     (checkPendingChanges s)\<lparr>lineCount := lineCount (checkPendingChanges s) + (toInt32 b - toInt32 a + 1),
       arr := map (\<lambda>w. w\<lparr>ws_afterLineNumber :=
                 (\<lambda>l. if toInt32 a \<le> l then l + (toInt32 b - toInt32 a + 1) else l) (ws_afterLineNumber w)\<rparr>)
         (arr (checkPendingChanges s))\<rparr>"
  by (auto simp: onLinesInserted_def Let_def)

lemma lay_inv_accessors:
  assumes "lay_inv s"
  shows "lay_inv (fst (fst (accessor_insertWhitespace l d h w (s, b))))"
    "lay_inv (fst (accessor_changeOneWhitespace i l h (s, b)))" "lay_inv (fst (accessor_removeWhitespace i (s, b)))"
proof -
  let ?i = "instanceId s @ decimal (Suc (lastWhitespaceId s))"
  have "issued (s\<lparr>lastWhitespaceId := Suc (lastWhitespaceId s), pending := p\<rparr>) = insert ?i (issued s)" for p
    by (simp add: issued_def atLeastAtMostSuc_conv)
  moreover have "?i \<notin> ws_id ` set (arr s @ pc_inserts (pending s))"
    using fresh_id [of s] assms by (auto simp: lay_inv_def)
  ultimately show "lay_inv (fst (fst (accessor_insertWhitespace l d h w (s, b))))"
    using assms unfolding accessor_insertWhitespace_def PendingChanges_insert_def new_EditorWhitespace_def Let_def
    by (simp add: lay_inv_def arr_ok_def image_Un subset_insertI2)
  show "lay_inv (fst (accessor_changeOneWhitespace i l h (s, b)))" "lay_inv (fst (accessor_removeWhitespace i (s, b)))"
    using assms unfolding accessor_changeOneWhitespace_def accessor_removeWhitespace_def
      PendingChanges_change_def PendingChanges_remove_def
    by (simp_all add: lay_inv_def arr_ok_def issued_def)
qed

section \<open>Reachable layouts\<close>

text \<open>
  One step is a call of a public operation or, inside a callback of \<open>changeWhitespace\<close>, of the
  change accessor; \<open>commit\<close> is the end of such a callback.  Operations may be interleaved with the
  accessor calls of a callback in any way.
\<close>

inductive lay_step :: "linesLayout \<Rightarrow> linesLayout \<Rightarrow> bool" where
  step_insert: "lay_step s (fst (fst (accessor_insertWhitespace l d h w (s, b))))"
| step_change: "lay_step s (fst (accessor_changeOneWhitespace i l h (s, b)))"
| step_remove: "lay_step s (fst (accessor_removeWhitespace i (s, b)))"
| step_commit: "lay_step s (PendingChanges_commit s)"
| step_height: "lay_step s (setLineHeight h s)"
| step_padding: "lay_step s (setPadding pt pb s)"
| step_flushed: "lay_step s (onFlushed n s)"
| step_deleted: "toInt32 a \<le> toInt32 b \<Longrightarrow> lay_step s (onLinesDeleted a b s)"
| step_inserted: "toInt32 a \<le> toInt32 b \<Longrightarrow> lay_step s (onLinesInserted a b s)"
| step_sum: "getWhitespacesAccumulatedHeight i s = Inr (s', v) \<Longrightarrow> lay_step s s'"
| step_width: "lay_step s (fst (getWhitespaceMinWidth s))"

inductive lay_reachable :: "linesLayout \<Rightarrow> bool" where
  reach_new: "lay_reachable (new_LinesLayout n lc lh pt pb)"
| reach_step: "lay_reachable s \<Longrightarrow> lay_step s s' \<Longrightarrow> lay_reachable s'"

lemma lay_inv_new: "lay_inv (new_LinesLayout n lc lh pt pb)"
  by (simp add: lay_inv_def new_LinesLayout_def arr_ok_def new_PendingChanges_def)

lemma getWhitespacesAccumulatedHeight_check:
  "lay_inv s \<Longrightarrow> getWhitespacesAccumulatedHeight i s = getWhitespacesAccumulatedHeight i (checkPendingChanges s)"
  by (simp add: getWhitespacesAccumulatedHeight_def check_committed)

lemma accumulate_loop_overflow:
  assumes "int (length ws) \<le> index" "i \<le> length ws"
  shows "accumulate_loop ws i index = Inl TypeError"
  using assms
proof (induction ws i index rule: accumulate_loop.induct)
  case (1 ws i index)
  then show ?case
    by (subst accumulate_loop.simps) auto
qed

lemma getWhitespacesAccumulatedHeight_outside:
  assumes "lay_inv s" "pending s = new_PendingChanges" "toInt32 i < 0 \<or> int (length (arr s)) \<le> toInt32 i"
  shows "getWhitespacesAccumulatedHeight i s = Inl TypeError"
  using assms(3)
proof
  assume "toInt32 i < 0"
  then show ?thesis
    by (auto simp: getWhitespacesAccumulatedHeight_def accumulate_loop.simps [of _ _ "toInt32 i"] check_committed [OF assms(2)] Let_def
        split: list.split)
next
  assume past: "int (length (arr s)) \<le> toInt32 i"
  have "nat (max 0 (prefixSumValidIndex s + 1)) \<le> length (arr s)"
    using assms(1) by (auto simp: lay_inv_def arr_ok_def cache_ok_def)
  then show ?thesis
    using past accumulate_loop_overflow
    by (auto simp: getWhitespacesAccumulatedHeight_def check_committed [OF assms(2)] Let_def split: list.split)
qed

lemma lay_step_inv:
  assumes "lay_step s s'" "lay_inv s"
  shows "lay_inv s'"
  using assms
proof (induction rule: lay_step.induct)
  case (step_deleted a b s)
  have "mono (\<lambda>l. if toInt32 a \<le> l \<and> l \<le> toInt32 b then toInt32 a - 1
                 else if l > toInt32 b then l - (toInt32 b - toInt32 a + 1) else l)"
    using step_deleted(1) by (auto simp: mono_def)
  then show ?case
    unfolding onLinesDeleted_alt using step_deleted(2) by (intro lay_inv_map_lines) simp_all
next
  case (step_inserted a b s)
  have "mono (\<lambda>l. if toInt32 a \<le> l then l + (toInt32 b - toInt32 a + 1) else l)"
    using step_inserted(1) by (auto simp: mono_def)
  then show ?case
    unfolding onLinesInserted_alt using step_inserted(2) by (intro lay_inv_map_lines) simp_all
next
  case (step_sum i s s' v)
  let ?s = "checkPendingChanges s"
  have inv: "lay_inv ?s" "pending ?s = new_PendingChanges"
    using step_sum(2) by simp_all
  have read: "getWhitespacesAccumulatedHeight i ?s = Inr (s', v)"
    using step_sum(1) getWhitespacesAccumulatedHeight_check [OF step_sum(2)] by simp
  then have "\<not> (toInt32 i < 0 \<or> int (length (arr ?s)) \<le> toInt32 i)"
    using getWhitespacesAccumulatedHeight_outside [OF inv, of i] by auto
  then show ?case
    using getWhitespacesAccumulatedHeight_spec [OF inv, of i] read cache_step_inv [OF inv(1)] by auto
next
  case (step_height s h)
  then show ?case
    using lay_inv_check [of s] by (auto simp: setLineHeight_def lay_inv_def arr_ok_def issued_def)
next
  case (step_padding s pt pb)
  then show ?case
    by (auto simp: setPadding_def lay_inv_def arr_ok_def issued_def)
next
  case (step_flushed s n)
  then show ?case
    using lay_inv_check [of s] by (auto simp: onFlushed_def lay_inv_def arr_ok_def issued_def)
qed (simp_all add: lay_inv_accessors lay_inv_commit lay_inv_minWidth)

lemma lay_reachable_inv: "lay_reachable s \<Longrightarrow> lay_inv s"
  by (induction rule: lay_reachable.induct) (simp_all add: lay_inv_new lay_step_inv)

section \<open>The order by line and ordinal\<close>

abbreviation key_sorted :: "linesLayout \<Rightarrow> bool" where
  "key_sorted s \<equiv> sorted (map ws_key (arr s))"

lemma key_sorted_insert: "key_sorted s \<Longrightarrow> key_sorted (insertWhitespace_internal w s)"
  using findInsertionIndex_spec [of "arr s" "ws_afterLineNumber w" "ws_ordinal w"]
  by (auto simp: insertWhitespace_internal_def Let_def ws_key_def [of w] intro!: sorted_splice_insert)

lemma key_sorted_remove: "key_sorted s \<Longrightarrow> k < length (arr s) \<Longrightarrow> key_sorted (removeWhitespace_internal k s)"
proof -
  assume a: "key_sorted s" "k < length (arr s)"
  have "sorted (map ws_key (take k (arr s) @ arr s ! k # drop (Suc k) (arr s)))"
    using a id_take_nth_drop [of k "arr s"] by simp
  then show ?thesis
    using js_splice_basic(4) [OF a(2)] by (simp add: removeWhitespace_internal_def sorted_append)
qed

lemma key_sorted_changeOne:
  assumes "key_sorted s"
  shows "key_sorted (changeOneWhitespace_internal i l h s)"
proof (cases "findWhitespaceIndex s i")
  case (Some k)
  have k: "k < length (arr s)"
    using findWhitespaceIndex_spec(1) [OF Some] by simp
  have upd: "key_sorted (s\<lparr>arr := (arr s)[k := (arr s ! k)\<lparr>ws_height := h\<rparr>], prefixSumValidIndex := v\<rparr>)" for v
  proof -
    have "map ws_key ((arr s)[k := (arr s ! k)\<lparr>ws_height := h\<rparr>]) = map ws_key (arr s)"
      using k by (simp add: map_update list_update_same_conv ws_key_def)
    with assms show ?thesis
      by simp
  qed
  show ?thesis
    unfolding changeOneWhitespace_internal_def Some option.case Let_def
    using assms k upd by (auto intro!: key_sorted_insert key_sorted_remove)
qed (use assms in \<open>simp add: changeOneWhitespace_internal_def\<close>)

lemma key_sorted_commit:
  assumes "key_sorted s"
  shows "key_sorted (PendingChanges_commit s)"
proof -
  have "key_sorted (commitPendingChanges I C R u)" if "key_sorted u" for I C R u
  proof (cases "length I + length C + length R \<le> 1")
    case True
    let ?u = "if I \<noteq> [] \<or> R \<noteq> [] then u\<lparr>minWidth := -1\<rparr> else u"
    have u: "key_sorted ?u"
      using that by simp
    from True show ?thesis
      using that key_sorted_insert [OF u] key_sorted_changeOne [OF u] key_sorted_remove [OF u]
        findWhitespaceIndex_spec(1) [of ?u]
      by (cases rule: commit_cases) (auto simp: commitPendingChanges_def Let_def split: option.split)
  qed (simp add: commitPendingChanges_def Let_def)
  then show ?thesis
    using assms by (simp add: PendingChanges_commit_def Let_def)
qed

section \<open>Properties\<close>

text \<open>A layout with one pending whitespace, for the examples.\<close>

definition sample_layout :: linesLayout where
  "sample_layout = fst (fst (accessor_insertWhitespace 3 0 7 0 (new_LinesLayout 1 10 20 5 5, False)))"

lemma sample_reachable: "lay_reachable sample_layout"
  unfolding sample_layout_def by (meson reach_new reach_step step_insert)

lemma sample_pending:
  "sample_layout =
     \<lparr>instanceId = singleLetterHash 1, pending = \<lparr>hasPending = True,
        pc_inserts = [new_EditorWhitespace (singleLetterHash 1 @ decimal 1) 3 0 7 0], pc_changes = [], pc_removes = []\<rparr>,
      lastWhitespaceId = 1, arr = [], prefixSumValidIndex = -1, minWidth = -1, lineCount = 10, lineHeight = 20,
      paddingTop = 5, paddingBottom = 5\<rparr>"
  by (simp add: sample_layout_def new_LinesLayout_def new_PendingChanges_def accessor_insertWhitespace_def
      PendingChanges_insert_def Let_def)

lemma sample_commit:
  "arr (checkPendingChanges sample_layout) = [new_EditorWhitespace (singleLetterHash 1 @ decimal 1) 3 0 7 0]"
  "lineCount (checkPendingChanges sample_layout) = 10" "lineHeight (checkPendingChanges sample_layout) = 20"
  "paddingTop (checkPendingChanges sample_layout) = 5" "paddingBottom (checkPendingChanges sample_layout) = 5"
  by (simp_all add: sample_pending checkPendingChanges_def PendingChanges_commit_def commitPendingChanges_def PendingChanges_mustCommit_def
      insertWhitespace_internal_def findInsertionIndex_def findInsertionIndex_loop.simps [of _ _ _ 0 0] js_splice_def Let_def)

lemma sample_fields:
  "map ws_afterLineNumber (arr (checkPendingChanges sample_layout)) = [3]"
  "map ws_height (arr (checkPendingChanges sample_layout)) = [7]"
  by (simp_all add: sample_commit new_EditorWhitespace_def)

text \<open>
  C37. In every reachable layout the committed whitespaces are sorted by line with distinct ids,
  every query for an accumulated height whose index, reduced to 32 bits as the code reduces it,
  is that of a whitespace returns the sum of the heights up to that whitespace, whatever part of the
  cache earlier changes invalidated, every other such query throws, and \<open>getWhitespaceMinWidth\<close> is the largest width.
\<close>

theorem LinesLayout_reachable_invariant:
  assumes "lay_reachable s"
  shows "sorted (map ws_afterLineNumber (arr (checkPendingChanges s))) \<and>
         distinct (map ws_id (arr (checkPendingChanges s))) \<and>
         (\<forall>i. if 0 \<le> toInt32 i \<and> toInt32 i < int (length (arr (checkPendingChanges s)))
              then \<exists>s'. getWhitespacesAccumulatedHeight i s =
                     Inr (s', sum_list (map ws_height (take (nat (toInt32 i) + 1) (arr (checkPendingChanges s)))))
              else getWhitespacesAccumulatedHeight i s = Inl TypeError) \<and>
         snd (getWhitespaceMinWidth s) = Max (insert 0 (ws_minWidth ` set (arr (checkPendingChanges s))))"
proof -
  let ?t = "checkPendingChanges s"
  have s: "lay_inv s"
    using assms by (rule lay_reachable_inv)
  then have t: "lay_inv ?t" "pending ?t = new_PendingChanges"
    by simp_all
  have "\<exists>s'. getWhitespacesAccumulatedHeight i s = Inr (s', sum_list (map ws_height (take (nat (toInt32 i) + 1) (arr ?t))))"
    if "0 \<le> toInt32 i" "toInt32 i < int (length (arr ?t))" for i
    using getWhitespacesAccumulatedHeight_spec [OF t that]
    by (auto simp: getWhitespacesAccumulatedHeight_check [OF s] prefix_total_def take_map)
  moreover have "getWhitespacesAccumulatedHeight i s = Inl TypeError"
    if "\<not> (0 \<le> toInt32 i \<and> toInt32 i < int (length (arr ?t)))" for i
    using getWhitespacesAccumulatedHeight_outside [OF t, of i] that
    by (auto simp: getWhitespacesAccumulatedHeight_check [OF s])
  moreover have "arr (fst (getWhitespaceMinWidth s)) = arr ?t"
    by (simp add: getWhitespaceMinWidth_def Let_def)
  ultimately show ?thesis
    using t(1) lay_inv_minWidth(2) [OF s] by (auto simp: lay_inv_def arr_ok_def max_minWidth_set)
qed

theorem LinesLayout_reachable_invariant_witness:
  "(\<exists>s'. getWhitespacesAccumulatedHeight 0 sample_layout = Inr (s', 7)) \<and>
   (\<exists>s'. getWhitespacesAccumulatedHeight 4294967296 sample_layout = Inr (s', 7)) \<and>
   getWhitespacesAccumulatedHeight 1 sample_layout = Inl TypeError"
proof -
  have len: "length (arr (checkPendingChanges sample_layout)) = 1"
    using arg_cong [OF sample_fields(2), of length] by simp
  have i: "toInt32 0 = 0" "toInt32 4294967296 = 0" "toInt32 1 = 1"
    by (simp_all add: toInt32_def)
  note reads = LinesLayout_reachable_invariant [OF sample_reachable, THEN conjunct2, THEN conjunct2, THEN conjunct1, rule_format]
  show ?thesis
    using reads [of 0] reads [of 4294967296] reads [of 1] arg_cong [OF sample_fields(2), of sum_list] by (simp add: len i)
qed

text \<open>
  Committing keeps the whitespaces: whether a batch is applied one by one or by rebuilding the
  array, the result holds exactly the old and inserted whitespaces that were not removed, with
  the last change of each applied; nothing stays pending; and an array in the order of line and
  ordinal stays in that order.
\<close>

theorem LinesLayout_commit_correct:
  assumes "lay_inv s"
  shows "mset (arr (PendingChanges_commit s)) =
           mset (map (applyChange (pc_changes (pending s)))
             (filter (\<lambda>w. ws_id w \<notin> set (pc_removes (pending s))) (arr s @ pc_inserts (pending s)))) \<and>
         lay_inv (PendingChanges_commit s) \<and> pending (PendingChanges_commit s) = new_PendingChanges \<and>
         (sorted (map ws_key (arr s)) \<longrightarrow> sorted (map ws_key (arr (PendingChanges_commit s))))"
  using lay_inv_commit [OF assms] key_sorted_commit [of s] by (simp add: applyRemoveAndChange_alt)

theorem LinesLayout_commit_correct_witness:
  "lay_inv (PendingChanges_commit (fst (fst (accessor_insertWhitespace 3 0 7 0 (new_LinesLayout 1 10 20 0 0, False)))))"
  using LinesLayout_commit_correct [OF lay_inv_accessors(1) [OF lay_inv_new], of 3 0 7 0 1 10 20 0 0 False] by blast

text \<open>
  Deleting lines can break the order by ordinal: whitespaces of different deleted lines end up
  on the same line in their old order, which \<open>onLinesDeleted\<close> does not restore.
\<close>

theorem onLinesDeleted_breaks_ordinal_order:
  "\<exists>s. lay_reachable s \<and> sorted (map ws_key (arr s)) \<and> \<not> sorted (map ws_key (arr (onLinesDeleted 5 6 s)))"
proof -
  let ?s0 = "new_LinesLayout 1 10 20 0 0"
  let ?s1 = "fst (fst (accessor_insertWhitespace 5 2 7 0 (?s0, False)))"
  let ?s2 = "fst (fst (accessor_insertWhitespace 6 1 7 0 (?s1, False)))"
  let ?s = "PendingChanges_commit ?s2"
  have reach: "lay_reachable ?s"
    by (meson reach_new reach_step step_commit step_insert)
  have arr: "map ws_key (arr ?s) = [(5, 2), (6, 1)]" "pending ?s = new_PendingChanges"
    by (simp_all add: new_LinesLayout_def new_PendingChanges_def accessor_insertWhitespace_def PendingChanges_insert_def
        PendingChanges_commit_def commitPendingChanges_def new_EditorWhitespace_def applyRemoveAndChange_alt ws_key_def Let_def)
  moreover have "map ws_key (arr (onLinesDeleted 5 6 ?s)) = [(4, 2), (4, 1)]"
    using arr by (auto simp: onLinesDeleted_def check_committed Let_def ws_key_def)
  ultimately show ?thesis
    using reach by (intro exI [of _ ?s]) simp
qed

end
