(* ===== verification/Lines_Layout_Queries.thy ===== *)
theory Lines_Layout_Queries
  imports Lines_Layout
begin

text \<open>
  The queries of \<open>LinesLayout\<close> of \<open>src/vs/editor/common/viewLayout/linesLayout.ts\<close>: vertical offsets,
  the searches by vertical offset, and the viewport data.  A query first commits pending changes
  and may extend the prefix-sum cache, so that it returns the layout along with its answer.
\<close>

section \<open>Accessors by index\<close>

definition getWhitespaces :: "linesLayout \<Rightarrow> linesLayout \<times> editorWhitespace list" where
  "getWhitespaces s0 = (let s = checkPendingChanges s0 in (s, arr s))"

definition getIdForWhitespaceIndex :: "int \<Rightarrow> linesLayout \<Rightarrow> js_error + linesLayout \<times> string" where
  "getIdForWhitespaceIndex i s0 =
     (let s = checkPendingChanges s0; index = toInt32 i in
      if 0 \<le> index \<and> index < int (length (arr s)) then Inr (s, ws_id (arr s ! nat index)) else Inl TypeError)"

definition getAfterLineNumberForWhitespaceIndex :: "int \<Rightarrow> linesLayout \<Rightarrow> js_error + linesLayout \<times> int" where
  "getAfterLineNumberForWhitespaceIndex i s0 =
     (let s = checkPendingChanges s0; index = toInt32 i in
      if 0 \<le> index \<and> index < int (length (arr s)) then Inr (s, ws_afterLineNumber (arr s ! nat index)) else Inl TypeError)"

definition getHeightForWhitespaceIndex :: "int \<Rightarrow> linesLayout \<Rightarrow> js_error + linesLayout \<times> int" where
  "getHeightForWhitespaceIndex i s0 =
     (let s = checkPendingChanges s0; index = toInt32 i in
      if 0 \<le> index \<and> index < int (length (arr s)) then Inr (s, ws_height (arr s ! nat index)) else Inl TypeError)"

section \<open>Heights and offsets\<close>

definition getWhitespacesTotalHeight :: "linesLayout \<Rightarrow> js_error + linesLayout \<times> int" where
  "getWhitespacesTotalHeight s0 =
     (let s = checkPendingChanges s0 in
      if arr s = [] then Inr (s, 0) else getWhitespacesAccumulatedHeight (int (length (arr s)) - 1) s)"

definition getLinesTotalHeight :: "linesLayout \<Rightarrow> js_error + linesLayout \<times> int" where
  "getLinesTotalHeight s0 =
     (let s = checkPendingChanges s0; linesHeight = lineHeight s * lineCount s in
      bind_result (getWhitespacesTotalHeight s)
        (\<lambda>(s, whitespacesHeight). Inr (s, linesHeight + whitespacesHeight + paddingTop s + paddingBottom s)))"

function findLastWhitespace_loop :: "editorWhitespace list \<Rightarrow> int \<Rightarrow> int \<Rightarrow> int \<Rightarrow> int" where
  "findLastWhitespace_loop a lineNumber low high =
     (if low \<le> high then
        let mid = low + (high - low) div 2 in
        if ws_afterLineNumber (a ! nat mid) < lineNumber then
          (if mid + 1 \<ge> int (length a) \<or> ws_afterLineNumber (a ! nat (mid + 1)) \<ge> lineNumber then mid
           else findLastWhitespace_loop a lineNumber (mid + 1) high)
        else findLastWhitespace_loop a lineNumber low (mid - 1)
      else -1)"
  by pat_completeness auto

termination findLastWhitespace_loop
  by (relation "measure (\<lambda>(a, lineNumber, low, high). nat (high - low + 1))") auto

declare findLastWhitespace_loop.simps [simp del]

definition findLastWhitespaceBeforeLineNumber :: "int \<Rightarrow> linesLayout \<Rightarrow> int" where
  "findLastWhitespaceBeforeLineNumber lineNumber s =
     findLastWhitespace_loop (arr s) (toInt32 lineNumber) 0 (int (length (arr s)) - 1)"

definition findFirstWhitespaceAfterLineNumber :: "int \<Rightarrow> linesLayout \<Rightarrow> int" where
  "findFirstWhitespaceAfterLineNumber lineNumber s =
     (let first = findLastWhitespaceBeforeLineNumber (toInt32 lineNumber) s + 1 in
      if first < int (length (arr s)) then first else -1)"

definition getFirstWhitespaceIndexAfterLineNumber :: "int \<Rightarrow> linesLayout \<Rightarrow> linesLayout \<times> int" where
  "getFirstWhitespaceIndexAfterLineNumber lineNumber s0 =
     (let s = checkPendingChanges s0 in (s, findFirstWhitespaceAfterLineNumber (toInt32 lineNumber) s))"

definition getWhitespaceAccumulatedHeightBeforeLineNumber :: "int \<Rightarrow> linesLayout \<Rightarrow> js_error + linesLayout \<times> int" where
  "getWhitespaceAccumulatedHeightBeforeLineNumber lineNumber s0 =
     (let s = checkPendingChanges s0;
          lastWhitespaceBeforeLineNumber = findLastWhitespaceBeforeLineNumber (toInt32 lineNumber) s in
      if lastWhitespaceBeforeLineNumber = -1 then Inr (s, 0)
      else getWhitespacesAccumulatedHeight lastWhitespaceBeforeLineNumber s)"

definition getVerticalOffsetForLineNumber :: "int \<Rightarrow> bool \<Rightarrow> linesLayout \<Rightarrow> js_error + linesLayout \<times> int" where
  "getVerticalOffsetForLineNumber line includeViewZones s0 =
     (let s = checkPendingChanges s0; lineNumber = toInt32 line;
          previousLinesHeight = (if lineNumber > 1 then lineHeight s * (lineNumber - 1) else 0) in
      bind_result (getWhitespaceAccumulatedHeightBeforeLineNumber (lineNumber - (if includeViewZones then 1 else 0)) s)
        (\<lambda>(s, previousWhitespacesHeight). Inr (s, previousLinesHeight + previousWhitespacesHeight + paddingTop s)))"

definition getVerticalOffsetAfterLineNumber :: "int \<Rightarrow> bool \<Rightarrow> linesLayout \<Rightarrow> js_error + linesLayout \<times> int" where
  "getVerticalOffsetAfterLineNumber line includeViewZones s0 =
     (let s = checkPendingChanges s0; lineNumber = toInt32 line;
          previousLinesHeight = lineHeight s * lineNumber in
      bind_result (getWhitespaceAccumulatedHeightBeforeLineNumber (lineNumber + (if includeViewZones then 1 else 0)) s)
        (\<lambda>(s, previousWhitespacesHeight). Inr (s, previousLinesHeight + previousWhitespacesHeight + paddingTop s)))"

definition getVerticalOffsetForWhitespaceIndex :: "int \<Rightarrow> linesLayout \<Rightarrow> js_error + linesLayout \<times> int" where
  "getVerticalOffsetForWhitespaceIndex i s0 =
     (let whitespaceIndex = toInt32 i in
      bind_result (getAfterLineNumberForWhitespaceIndex whitespaceIndex (checkPendingChanges s0))
        (\<lambda>(s, afterLineNumber).
           let previousLinesHeight = (if afterLineNumber \<ge> 1 then lineHeight s * afterLineNumber else 0) in
           bind_result
             (if whitespaceIndex > 0 then getWhitespacesAccumulatedHeight (whitespaceIndex - 1) s else Inr (s, 0))
             (\<lambda>(s, previousWhitespacesHeight). Inr (s, previousLinesHeight + previousWhitespacesHeight + paddingTop s))))"

section \<open>Paddings\<close>

definition isAfterLines :: "int \<Rightarrow> linesLayout \<Rightarrow> js_error + linesLayout \<times> bool" where
  "isAfterLines verticalOffset s0 =
     bind_result (getLinesTotalHeight (checkPendingChanges s0))
       (\<lambda>(s, totalHeight). Inr (s, verticalOffset > totalHeight))"

definition isInTopPadding :: "int \<Rightarrow> linesLayout \<Rightarrow> linesLayout \<times> bool" where
  "isInTopPadding verticalOffset s0 =
     (if paddingTop s0 = 0 then (s0, False)
      else let s = checkPendingChanges s0 in (s, verticalOffset < paddingTop s))"

definition isInBottomPadding :: "int \<Rightarrow> linesLayout \<Rightarrow> js_error + linesLayout \<times> bool" where
  "isInBottomPadding verticalOffset s0 =
     (if paddingBottom s0 = 0 then Inr (s0, False)
      else bind_result (getLinesTotalHeight (checkPendingChanges s0))
             (\<lambda>(s, totalHeight). Inr (s, verticalOffset \<ge> totalHeight - paddingBottom s)))"

section \<open>Searching by vertical offset\<close>

function lineAtOrAfter_loop :: "int \<Rightarrow> int \<Rightarrow> int \<Rightarrow> int \<Rightarrow> linesLayout \<Rightarrow> js_error + linesLayout \<times> int" where
  "lineAtOrAfter_loop verticalOffset lineHgt minLineNumber maxLineNumber s =
     (if minLineNumber < maxLineNumber then
        let midLineNumber = (minLineNumber + maxLineNumber) div 2 in
        bind_result (getVerticalOffsetForLineNumber midLineNumber False s)
          (\<lambda>(s, offset).
             let midLineNumberVerticalOffset = toInt32 offset in
             if verticalOffset \<ge> midLineNumberVerticalOffset + lineHgt
             then lineAtOrAfter_loop verticalOffset lineHgt (midLineNumber + 1) maxLineNumber s
             else if verticalOffset \<ge> midLineNumberVerticalOffset then Inr (s, midLineNumber)
             else lineAtOrAfter_loop verticalOffset lineHgt minLineNumber midLineNumber s)
      else Inr (s, minLineNumber))"
  by pat_completeness auto

termination lineAtOrAfter_loop
  by (relation "measure (\<lambda>(verticalOffset, lineHgt, minLineNumber, maxLineNumber, s). nat (maxLineNumber - minLineNumber))") auto

declare lineAtOrAfter_loop.simps [simp del]

text \<open>
  The loop ends by a hit or with \<open>minLineNumber\<close>; the check against the number of lines applies
  to the latter, and a hit never exceeds it.
\<close>

definition getLineNumberAtOrAfterVerticalOffset :: "int \<Rightarrow> linesLayout \<Rightarrow> js_error + linesLayout \<times> int" where
  "getLineNumberAtOrAfterVerticalOffset vOffset s0 =
     (let s = checkPendingChanges s0; verticalOffset = toInt32 vOffset in
      if verticalOffset < 0 then Inr (s, 1)
      else let linesCount = toInt32 (lineCount s) in
           bind_result (lineAtOrAfter_loop verticalOffset (lineHeight s) 1 linesCount s)
             (\<lambda>(s, lineNumber). Inr (s, if lineNumber > linesCount then linesCount else lineNumber)))"

function whitespaceAtOrAfter_loop :: "int \<Rightarrow> int \<Rightarrow> int \<Rightarrow> linesLayout \<Rightarrow> js_error + linesLayout \<times> int" where
  "whitespaceAtOrAfter_loop verticalOffset minWhitespaceIndex maxWhitespaceIndex s =
     (if minWhitespaceIndex < maxWhitespaceIndex then
        let midWhitespaceIndex = (minWhitespaceIndex + maxWhitespaceIndex) div 2 in
        bind_result (getVerticalOffsetForWhitespaceIndex midWhitespaceIndex s)
          (\<lambda>(s, midWhitespaceVerticalOffset).
             bind_result (getHeightForWhitespaceIndex midWhitespaceIndex s)
               (\<lambda>(s, midWhitespaceHeight).
                  if verticalOffset \<ge> midWhitespaceVerticalOffset + midWhitespaceHeight
                  then whitespaceAtOrAfter_loop verticalOffset (midWhitespaceIndex + 1) maxWhitespaceIndex s
                  else if verticalOffset \<ge> midWhitespaceVerticalOffset then Inr (s, midWhitespaceIndex)
                  else whitespaceAtOrAfter_loop verticalOffset minWhitespaceIndex midWhitespaceIndex s))
      else Inr (s, minWhitespaceIndex))"
  by pat_completeness auto

termination whitespaceAtOrAfter_loop
  by (relation "measure (\<lambda>(verticalOffset, minWhitespaceIndex, maxWhitespaceIndex, s). nat (maxWhitespaceIndex - minWhitespaceIndex))")
    auto

declare whitespaceAtOrAfter_loop.simps [simp del]

definition getWhitespaceIndexAtOrAfterVerticallOffset :: "int \<Rightarrow> linesLayout \<Rightarrow> js_error + linesLayout \<times> int" where
  "getWhitespaceIndexAtOrAfterVerticallOffset vOffset s0 =
     (case getWhitespacesCount (checkPendingChanges s0) of
        (s, wsCount) \<Rightarrow>
          let verticalOffset = toInt32 vOffset; maxWhitespaceIndex = int wsCount - 1 in
          if maxWhitespaceIndex < 0 then Inr (s, -1)
          else bind_result (getVerticalOffsetForWhitespaceIndex maxWhitespaceIndex s)
            (\<lambda>(s, maxWhitespaceVerticalOffset).
               bind_result (getHeightForWhitespaceIndex maxWhitespaceIndex s)
                 (\<lambda>(s, maxWhitespaceHeight).
                    if verticalOffset \<ge> maxWhitespaceVerticalOffset + maxWhitespaceHeight then Inr (s, -1)
                    else whitespaceAtOrAfter_loop verticalOffset 0 maxWhitespaceIndex s)))"

record viewWhitespaceData =
  vw_id :: string
  vw_afterLineNumber :: int
  vw_verticalOffset :: int
  vw_height :: int

definition getWhitespaceAtVerticalOffset :: "int \<Rightarrow> linesLayout \<Rightarrow> js_error + linesLayout \<times> viewWhitespaceData option" where
  "getWhitespaceAtVerticalOffset vOffset s0 =
     (let verticalOffset = toInt32 vOffset in
      bind_result (getWhitespaceIndexAtOrAfterVerticallOffset verticalOffset (checkPendingChanges s0))
        (\<lambda>(s, candidateIndex).
           if candidateIndex < 0 then Inr (s, None)
           else if candidateIndex \<ge> int (snd (getWhitespacesCount s)) then Inr (s, None)
           else bind_result (getVerticalOffsetForWhitespaceIndex candidateIndex s)
             (\<lambda>(s, candidateTop).
                if candidateTop > verticalOffset then Inr (s, None)
                else bind_result (getHeightForWhitespaceIndex candidateIndex s)
                  (\<lambda>(s, candidateHeight). bind_result (getIdForWhitespaceIndex candidateIndex s)
                    (\<lambda>(s, candidateId). bind_result (getAfterLineNumberForWhitespaceIndex candidateIndex s)
                      (\<lambda>(s, candidateAfterLineNumber).
                         Inr (s, Some \<lparr>vw_id = candidateId, vw_afterLineNumber = candidateAfterLineNumber,
                                       vw_verticalOffset = candidateTop, vw_height = candidateHeight\<rparr>)))))))"

function whitespaceViewport_loop ::
  "int \<Rightarrow> int \<Rightarrow> int \<Rightarrow> viewWhitespaceData list \<Rightarrow> linesLayout \<Rightarrow> js_error + linesLayout \<times> viewWhitespaceData list" where
  "whitespaceViewport_loop verticalOffset2 i endIndex result s =
     (if i \<le> endIndex then
        bind_result (getVerticalOffsetForWhitespaceIndex i s)
          (\<lambda>(s, offset). bind_result (getHeightForWhitespaceIndex i s)
             (\<lambda>(s, height).
                if offset \<ge> verticalOffset2 then Inr (s, result)
                else bind_result (getIdForWhitespaceIndex i s)
                  (\<lambda>(s, wid). bind_result (getAfterLineNumberForWhitespaceIndex i s)
                    (\<lambda>(s, afterLineNumber).
                       whitespaceViewport_loop verticalOffset2 (i + 1) endIndex
                         (result @ [\<lparr>vw_id = wid, vw_afterLineNumber = afterLineNumber,
                                      vw_verticalOffset = offset, vw_height = height\<rparr>]) s))))
      else Inr (s, result))"
  by pat_completeness auto

termination whitespaceViewport_loop
  by (relation "measure (\<lambda>(verticalOffset2, i, endIndex, result, s). nat (endIndex + 1 - i))") auto

declare whitespaceViewport_loop.simps [simp del]

definition getWhitespaceViewportData ::
  "int \<Rightarrow> int \<Rightarrow> linesLayout \<Rightarrow> js_error + linesLayout \<times> viewWhitespaceData list" where
  "getWhitespaceViewportData vOffset1 vOffset2 s0 =
     (let verticalOffset1 = toInt32 vOffset1; verticalOffset2 = toInt32 vOffset2 in
      bind_result (getWhitespaceIndexAtOrAfterVerticallOffset verticalOffset1 (checkPendingChanges s0))
        (\<lambda>(s, startIndex).
           case getWhitespacesCount s of
             (s, wsCount) \<Rightarrow>
               if startIndex < 0 then Inr (s, [])
               else whitespaceViewport_loop verticalOffset2 startIndex (int wsCount - 1) [] s))"

section \<open>Viewport data\<close>

record linesViewportData =
  vp_bigNumbersDelta :: int
  vp_startLineNumber :: int
  vp_endLineNumber :: int
  vp_relativeVerticalOffset :: "int list"
  vp_centeredLineNumber :: int
  vp_completelyVisibleStartLineNumber :: int
  vp_completelyVisibleEndLineNumber :: int

text \<open>The local variables of the loop over the lines.\<close>

record viewport_state =
  v_whitespaceIndex :: int
  v_whitespaceAfter :: int
  v_whitespaceHeight :: int
  v_verticalOffset :: int
  v_relativeOffset :: int
  v_linesOffsets :: "int list"
  v_centered :: int

text \<open>
  The inner loop passes the whitespaces after the current line.  Every round increases
  \<open>whitespaceIndex\<close>; when none is left the marker \<open>endLineNumber + 1\<close> ends the loop, since the
  current line does not exceed \<open>endLineNumber\<close>.
\<close>

function viewport_whitespaces ::
  "int \<Rightarrow> int \<Rightarrow> int \<Rightarrow> viewport_state \<Rightarrow> linesLayout \<Rightarrow> js_error + linesLayout \<times> viewport_state" where
  "viewport_whitespaces lineNumber endLineNumber whitespaceCount v s =
     (if v_whitespaceAfter v = lineNumber then
        let v = v\<lparr>v_relativeOffset := v_relativeOffset v + v_whitespaceHeight v,
                  v_verticalOffset := v_verticalOffset v + v_whitespaceHeight v,
                  v_whitespaceIndex := v_whitespaceIndex v + 1\<rparr> in
        if v_whitespaceIndex v \<ge> whitespaceCount then Inr (s, v\<lparr>v_whitespaceAfter := endLineNumber + 1\<rparr>)
        else bind_result (getAfterLineNumberForWhitespaceIndex (v_whitespaceIndex v) s)
          (\<lambda>(s, afterLineNumber). bind_result (getHeightForWhitespaceIndex (v_whitespaceIndex v) s)
             (\<lambda>(s, height).
                viewport_whitespaces lineNumber endLineNumber whitespaceCount
                  (v\<lparr>v_whitespaceAfter := toInt32 afterLineNumber, v_whitespaceHeight := toInt32 height\<rparr>) s))
      else Inr (s, v))"
  by pat_completeness auto

termination viewport_whitespaces
  by (relation "measure (\<lambda>(lineNumber, endLineNumber, whitespaceCount, v, s). nat (whitespaceCount - v_whitespaceIndex v))") auto

declare viewport_whitespaces.simps [simp del]

text \<open>
  \<open>verticalCenter\<close> is the mean of the two offsets and may be a half, so it is compared doubled:
  \<open>center2 = verticalOffset1 + verticalOffset2\<close>.
\<close>

function viewport_loop ::
  "int \<Rightarrow> int \<Rightarrow> int \<Rightarrow> int \<Rightarrow> int \<Rightarrow> int \<Rightarrow> viewport_state \<Rightarrow> linesLayout \<Rightarrow> js_error + linesLayout \<times> viewport_state \<times> int" where
  "viewport_loop lineHgt center2 verticalOffset2 whitespaceCount endLineNumber lineNumber v s =
     (if lineNumber \<le> endLineNumber then
        let currentLineTop = v_verticalOffset v; currentLineBottom = v_verticalOffset v + lineHgt;
            v = (if v_centered v = -1 \<and>
                    ((2 * currentLineTop \<le> center2 \<and> center2 < 2 * currentLineBottom) \<or> 2 * currentLineTop > center2)
                 then v\<lparr>v_centered := lineNumber\<rparr> else v);
            v = v\<lparr>v_verticalOffset := v_verticalOffset v + lineHgt,
                  v_linesOffsets := v_linesOffsets v @ [v_relativeOffset v],
                  v_relativeOffset := v_relativeOffset v + lineHgt\<rparr> in
        bind_result (viewport_whitespaces lineNumber endLineNumber whitespaceCount v s)
          (\<lambda>(s, v).
             if v_verticalOffset v \<ge> verticalOffset2 then Inr (s, v, lineNumber)
             else viewport_loop lineHgt center2 verticalOffset2 whitespaceCount endLineNumber (lineNumber + 1) v s)
      else Inr (s, v, endLineNumber))"
  by pat_completeness auto

termination viewport_loop
  by (relation "measure (\<lambda>(lineHgt, center2, verticalOffset2, whitespaceCount, endLineNumber, lineNumber, v, s).
        nat (endLineNumber + 1 - lineNumber))") auto

declare viewport_loop.simps [simp del]

definition STEP_SIZE :: int where "STEP_SIZE = 500000"

definition bigNumbersDelta_of :: "int \<Rightarrow> int \<Rightarrow> int" where
  "bigNumbersDelta_of offset lineHgt =
     (if offset \<ge> STEP_SIZE then (offset div STEP_SIZE * STEP_SIZE) div lineHgt * lineHgt else 0)"

definition getLinesViewportData :: "int \<Rightarrow> int \<Rightarrow> linesLayout \<Rightarrow> js_error + linesLayout \<times> linesViewportData" where
  "getLinesViewportData vOffset1 vOffset2 s0 =
     (let s = checkPendingChanges s0; verticalOffset1 = toInt32 vOffset1; verticalOffset2 = toInt32 vOffset2;
          lineHgt = lineHeight s in
      bind_result (getLineNumberAtOrAfterVerticalOffset verticalOffset1 s) (\<lambda>(s, l).
      let startLineNumber = toInt32 l in
      bind_result (getVerticalOffsetForLineNumber startLineNumber False s) (\<lambda>(s, o1).
      let startLineNumberVerticalOffset = toInt32 o1; lastLineNumber = toInt32 (lineCount s) in
      case getFirstWhitespaceIndexAfterLineNumber startLineNumber s of (s, first) \<Rightarrow>
      case getWhitespacesCount s of (s, n) \<Rightarrow>
      let whitespaceIndex = toInt32 first; whitespaceCount = toInt32 (int n) in
      bind_result
        (if whitespaceIndex = -1 then Inr (s, whitespaceCount, lastLineNumber + 1, 0)
         else bind_result (getAfterLineNumberForWhitespaceIndex whitespaceIndex s) (\<lambda>(s, a).
              bind_result (getHeightForWhitespaceIndex whitespaceIndex s) (\<lambda>(s, h).
              Inr (s, whitespaceIndex, toInt32 a, toInt32 h)))) (\<lambda>(s, whitespaceIndex, whitespaceAfter, whitespaceHeight).
      let bigNumbersDelta = bigNumbersDelta_of startLineNumberVerticalOffset lineHgt;
          v = \<lparr>v_whitespaceIndex = whitespaceIndex, v_whitespaceAfter = whitespaceAfter,
               v_whitespaceHeight = whitespaceHeight, v_verticalOffset = startLineNumberVerticalOffset,
               v_relativeOffset = startLineNumberVerticalOffset - bigNumbersDelta, v_linesOffsets = [], v_centered = -1\<rparr> in
      bind_result (viewport_loop lineHgt (verticalOffset1 + verticalOffset2) verticalOffset2 whitespaceCount
                     lastLineNumber startLineNumber v s) (\<lambda>(s, v, endLineNumber).
      let centeredLineNumber = (if v_centered v = -1 then endLineNumber else v_centered v) in
      bind_result (getVerticalOffsetForLineNumber endLineNumber False s) (\<lambda>(s, o2).
      let endLineNumberVerticalOffset = toInt32 o2;
          visibleStart = (if startLineNumber < endLineNumber \<and> startLineNumberVerticalOffset < verticalOffset1
                          then startLineNumber + 1 else startLineNumber);
          visibleEnd = (if visibleStart < endLineNumber \<and> endLineNumberVerticalOffset + lineHgt > verticalOffset2
                        then endLineNumber - 1 else endLineNumber) in
      Inr (s, \<lparr>vp_bigNumbersDelta = bigNumbersDelta, vp_startLineNumber = startLineNumber, vp_endLineNumber = endLineNumber,
               vp_relativeVerticalOffset = v_linesOffsets v, vp_centeredLineNumber = centeredLineNumber,
               vp_completelyVisibleStartLineNumber = visibleStart, vp_completelyVisibleEndLineNumber = visibleEnd\<rparr>)))))))"

section \<open>Reading from a committed layout\<close>

text \<open>
  A committed layout has nothing pending and fewer than $2^{31}$ whitespaces, so that \<open>| 0\<close> keeps
  their indices.  \<open>reads s f v\<close>: on the layout \<open>s\<close>, and on every layout that differs from it in the cache only,
  the query \<open>f\<close> returns \<open>v\<close> without throwing and changes at most the cache.
\<close>

definition committed :: "linesLayout \<Rightarrow> bool" where
  "committed s \<longleftrightarrow> lay_inv s \<and> pending s = new_PendingChanges \<and> int (length (arr s)) < 2147483648"

definition reads :: "linesLayout \<Rightarrow> (linesLayout \<Rightarrow> js_error + linesLayout \<times> 'a) \<Rightarrow> 'a \<Rightarrow> bool" where
  "reads s f v \<longleftrightarrow> (\<forall>t. cache_step s t \<longrightarrow> (\<exists>t'. f t = Inr (t', v) \<and> cache_step s t'))"

lemma cache_step_refl: "committed s \<Longrightarrow> cache_step s s"
  by (simp add: committed_def lay_inv_def arr_ok_def cache_step_def)

lemma cache_step_trans: "cache_step s t \<Longrightarrow> cache_step t u \<Longrightarrow> cache_step s u"
  by (auto simp: cache_step_def intro: same_ws_trans lay_frame_ops(4))

lemma cache_step_fields:
  assumes "cache_step s t"
  shows "lineCount t = lineCount s" "lineHeight t = lineHeight s" "paddingTop t = paddingTop s" "paddingBottom t = paddingBottom s"
    "length (arr t) = length (arr s)" "heights (arr t) = heights (arr s)"
    "map ws_afterLineNumber (arr t) = map ws_afterLineNumber (arr s)" "map ws_id (arr t) = map ws_id (arr s)"
  using assms same_ws_maps [of "arr s" "arr t"] by (auto simp: cache_step_def lay_frame_def)

lemma cache_step_committed: "committed s \<Longrightarrow> cache_step s t \<Longrightarrow> committed t"
  using cache_step_inv [of s t] cache_step_fields(5) [of s t] by (auto simp: committed_def cache_step_def lay_frame_def)

lemma committed_index: "committed s \<Longrightarrow> 0 \<le> i \<Longrightarrow> i \<le> int (length (arr s)) \<Longrightarrow> toInt32 i = i"
  by (rule toInt32_small) (auto simp: committed_def)

lemma committed_check: "committed s \<Longrightarrow> checkPendingChanges s = s"
  by (simp add: committed_def check_committed)

lemma cache_step_check: "committed s \<Longrightarrow> cache_step s t \<Longrightarrow> checkPendingChanges t = t"
  by (rule committed_check [OF cache_step_committed])

lemma cache_step_nth:
  assumes "cache_step s t" "k < length (arr s)"
  shows "ws_id (arr t ! k) = ws_id (arr s ! k)" "ws_afterLineNumber (arr t ! k) = ws_afterLineNumber (arr s ! k)"
    "ws_height (arr t ! k) = ws_height (arr s ! k)"
  using cache_step_fields(5-8) [OF assms(1)] assms(2) by (metis nth_map)+

lemma reads_pure:
  assumes "\<And>t. cache_step s t \<Longrightarrow> f t = Inr (t, v)"
  shows "reads s f v"
  using assms by (auto simp: reads_def)

lemma reads_bind:
  assumes "reads s f v" "reads s (\<lambda>t. g t v) w"
  shows "reads s (\<lambda>t. bind_result (f t) (\<lambda>(t', x). g t' x)) w"
  using assms unfolding reads_def by fastforce

lemma reads_cong:
  assumes "\<And>t. cache_step s t \<Longrightarrow> f t = g t" "reads s g v"
  shows "reads s f v"
  using assms by (simp add: reads_def)

lemma reads_run: "committed s \<Longrightarrow> reads s f v \<Longrightarrow> \<exists>s'. f s = Inr (s', v) \<and> cache_step s s'"
  using cache_step_refl by (auto simp: reads_def)

lemma reads_accumulated:
  assumes "committed s" "0 \<le> i" "i < int (length (arr s))"
  shows "reads s (getWhitespacesAccumulatedHeight i) (prefix_total (heights (arr s)) (nat i + 1))"
  unfolding reads_def
proof (intro allI impI)
  fix t assume t: "cache_step s t"
  then have "lay_inv t" "pending t = new_PendingChanges"
    using cache_step_committed [OF assms(1)] by (auto simp: committed_def)
  then show "\<exists>t'. getWhitespacesAccumulatedHeight i t = Inr (t', prefix_total (heights (arr s)) (nat i + 1)) \<and> cache_step s t'"
    using getWhitespacesAccumulatedHeight_spec [of t i] assms(2,3) cache_step_fields(5,6) [OF t] cache_step_trans [OF t]
      committed_index [OF assms(1), of i] by auto
qed

lemma reads_index:
  assumes "committed s" "0 \<le> i" "i < int (length (arr s))"
  shows "reads s (getIdForWhitespaceIndex i) (ws_id (arr s ! nat i))"
    "reads s (getAfterLineNumberForWhitespaceIndex i) (ws_afterLineNumber (arr s ! nat i))"
    "reads s (getHeightForWhitespaceIndex i) (ws_height (arr s ! nat i))"
  using assms(2,3) cache_step_nth [of s _ "nat i"] cache_step_fields(5) cache_step_check [OF assms(1)] committed_index [OF assms(1), of i]
  by (auto simp: getIdForWhitespaceIndex_def getAfterLineNumberForWhitespaceIndex_def getHeightForWhitespaceIndex_def
      intro!: reads_pure)

section \<open>Offsets\<close>

text \<open>What the queries are to return, in terms of the heights of what lies above.\<close>

definition whitespace_before :: "linesLayout \<Rightarrow> int \<Rightarrow> int" where
  "whitespace_before s l = sum_list (map ws_height (filter (\<lambda>w. ws_afterLineNumber w < l) (arr s)))"

definition line_top :: "linesLayout \<Rightarrow> int \<Rightarrow> int" where
  "line_top s l = (if l > 1 then lineHeight s * (l - 1) else 0) + whitespace_before s l + paddingTop s"

definition whitespace_top :: "linesLayout \<Rightarrow> int \<Rightarrow> int" where
  "whitespace_top s k =
     (let a = ws_afterLineNumber (arr s ! nat k) in
      (if a \<ge> 1 then lineHeight s * a else 0) + prefix_total (heights (arr s)) (nat k) + paddingTop s)"

lemma sorted_filter_less:
  assumes "sorted (map f xs)"
  shows "filter (\<lambda>x. f x < l) xs = take (length (filter (\<lambda>x. f x < l) xs)) xs"
  using assms
proof (induction xs)
  case (Cons x xs)
  show ?case
  proof (cases "f x < l")
    case False
    then have "filter (\<lambda>x. f x < l) xs = []"
      using Cons.prems by (auto simp: filter_empty_conv)
    with False show ?thesis
      by simp
  qed (use Cons in simp)
qed simp

lemma sorted_count_less:
  assumes "sorted (map f xs)" "k < length xs"
  shows "f (xs ! k) < l \<longleftrightarrow> k < length (filter (\<lambda>x. f x < l) xs)"
  using assms
proof (induction xs arbitrary: k)
  case (Cons x xs)
  show ?case
  proof (cases "f x < l")
    case True
    then show ?thesis
      using Cons by (cases k) auto
  next
    case False
    then have "filter (\<lambda>x. f x < l) xs = []"
      using Cons.prems(1) by (auto simp: filter_empty_conv)
    moreover have "f x \<le> f ((x # xs) ! k)"
      using Cons.prems by (cases k) auto
    ultimately show ?thesis
      using False by simp
  qed
qed simp

lemma findLastWhitespace_loop_spec:
  assumes "sorted (map ws_afterLineNumber a)" "n = length (filter (\<lambda>w. ws_afterLineNumber w < l) a)"
    and "0 \<le> low" "high < int (length a)" "low \<le> int n" "int n - 1 \<le> high" "0 < n \<Longrightarrow> low \<le> int n - 1"
  shows "findLastWhitespace_loop a l low high = int n - 1"
proof -
  have lt: "ws_afterLineNumber (a ! k) < l \<longleftrightarrow> k < n" if "k < length a" for k
    unfolding assms(2) by (rule sorted_count_less [OF assms(1) that])
  show ?thesis
    using assms(3-7)
  proof (induction "nat (high - low + 1)" arbitrary: low high rule: less_induct)
    case (less low high)
    show ?case
    proof (cases "low \<le> high")
      case False
      then have "n = 0"
        using less(5,6) by (cases n) auto
      with False show ?thesis
        by (subst findLastWhitespace_loop.simps) simp
    next
      case True
      define mid where "mid = low + (high - low) div 2"
      have mid: "low \<le> mid" "mid \<le> high" "nat mid < length a" "0 \<le> mid"
        using True less(2,3) by (auto simp: mid_def)
      have step: "findLastWhitespace_loop a l low high =
          (if nat mid < n then (if \<not> nat mid + 1 < n then mid else findLastWhitespace_loop a l (mid + 1) high)
           else findLastWhitespace_loop a l low (mid - 1))"
      proof -
        have "mid + 1 \<ge> int (length a) \<or> ws_afterLineNumber (a ! nat (mid + 1)) \<ge> l \<longleftrightarrow> \<not> nat mid + 1 < n"
          if "nat mid < n"
        proof (cases "nat (mid + 1) < length a")
          case True
          then show ?thesis
            using lt [of "nat (mid + 1)"] mid(4) by (auto simp: nat_add_distrib)
        next
          case False
          then have "mid + 1 \<ge> int (length a)" "\<not> nat mid + 1 < length a"
            using mid(4) by linarith+
          then show ?thesis
            using assms(2) length_filter_le [of "\<lambda>w. ws_afterLineNumber w < l" a] by linarith
        qed
        then show ?thesis
          using True lt [OF mid(3)]
          by (subst findLastWhitespace_loop.simps) (simp add: mid_def [symmetric] Let_def)
      qed
      show ?thesis
      proof (cases "nat mid < n")
        case True
        then show ?thesis
          unfolding step using less(1) [of high "mid + 1"] less(2-6) mid by (cases "nat mid + 1 < n") auto
      next
        case False
        then show ?thesis
          unfolding step using less(1) [of "mid - 1" low] less(2-6) mid by auto
      qed
    qed
  qed
qed

lemma toInt32_idem [simp]: "toInt32 (toInt32 x) = toInt32 x"
  using toInt32_range by simp

lemma committed_sorted: "committed s \<Longrightarrow> sorted (map ws_afterLineNumber (arr s))"
  by (simp add: committed_def lay_inv_def arr_ok_def)

lemma findLast_spec:
  assumes "committed s"
  shows "findLastWhitespaceBeforeLineNumber l s =
           int (length (filter (\<lambda>w. ws_afterLineNumber w < toInt32 l) (arr s))) - 1"
  unfolding findLastWhitespaceBeforeLineNumber_def
  by (rule findLastWhitespace_loop_spec [OF committed_sorted [OF assms] refl])
    (use length_filter_le [of "\<lambda>w. ws_afterLineNumber w < toInt32 l" "arr s"] in linarith)+

lemma count_before_same:
  assumes "cache_step s t"
  shows "length (filter (\<lambda>w. ws_afterLineNumber w < l) (arr t)) = length (filter (\<lambda>w. ws_afterLineNumber w < l) (arr s))"
proof -
  have "length (filter (\<lambda>w. ws_afterLineNumber w < l) ws) = length (filter (\<lambda>x. x < l) (map ws_afterLineNumber ws))" for ws
    by (simp add: filter_map comp_def)
  then show ?thesis
    using cache_step_fields(7) [OF assms] by metis
qed

lemma whitespace_before_prefix:
  assumes "committed s"
  shows "whitespace_before s l = prefix_total (heights (arr s)) (length (filter (\<lambda>w. ws_afterLineNumber w < l) (arr s)))"
  unfolding whitespace_before_def prefix_total_def take_map
  using sorted_filter_less [OF committed_sorted [OF assms], of l] by simp

lemma reads_before:
  assumes "committed s"
  shows "reads s (getWhitespaceAccumulatedHeightBeforeLineNumber l) (whitespace_before s (toInt32 l))"
proof -
  let ?n = "length (filter (\<lambda>w. ws_afterLineNumber w < toInt32 l) (arr s))"
  have n: "?n \<le> length (arr s)"
    by simp
  have eq: "getWhitespaceAccumulatedHeightBeforeLineNumber l t =
          (if ?n = 0 then Inr (t, 0) else getWhitespacesAccumulatedHeight (int ?n - 1) t)" if t: "cache_step s t" for t
    using findLast_spec [OF cache_step_committed [OF assms t], of "toInt32 l"] count_before_same [OF t, of "toInt32 l"]
      cache_step_check [OF assms t]
    by (simp add: getWhitespaceAccumulatedHeightBeforeLineNumber_def)
  show ?thesis
  proof (cases "?n = 0")
    case True
    show ?thesis
      by (rule reads_pure) (use True eq whitespace_before_prefix [OF assms, of "toInt32 l"] in simp)
  next
    case False
    have "reads s (getWhitespacesAccumulatedHeight (int ?n - 1)) (prefix_total (heights (arr s)) (nat (int ?n - 1) + 1))"
      by (rule reads_accumulated [OF assms]) (use False n in linarith)+
    moreover have "nat (int ?n - 1) + 1 = ?n"
      using False by linarith
    ultimately have "reads s (getWhitespacesAccumulatedHeight (int ?n - 1)) (whitespace_before s (toInt32 l))"
      by (simp add: whitespace_before_prefix [OF assms])
    then show ?thesis
      by (rule reads_cong [rotated]) (use False eq in simp)
  qed
qed

lemma reads_offsets:
  assumes "committed s"
  shows "reads s (getVerticalOffsetForLineNumber l False) (line_top s (toInt32 l))"
    and "reads s (getVerticalOffsetAfterLineNumber l True)
           (lineHeight s * toInt32 l + whitespace_before s (toInt32 (toInt32 l + 1)) + paddingTop s)"
    and "reads s (getVerticalOffsetAfterLineNumber l False)
           (lineHeight s * toInt32 l + whitespace_before s (toInt32 l) + paddingTop s)"
    and "reads s (getVerticalOffsetForLineNumber l True)
           ((if toInt32 l > 1 then lineHeight s * (toInt32 l - 1) else 0) +
            whitespace_before s (toInt32 (toInt32 l - 1)) + paddingTop s)"
proof -
  have bind: "reads s (\<lambda>t. bind_result (getWhitespaceAccumulatedHeightBeforeLineNumber k t)
                 (\<lambda>(t', x). Inr (t', c + x + paddingTop t'))) (c + whitespace_before s (toInt32 k) + paddingTop s)" for k c
    by (rule reads_bind [OF reads_before [OF assms]]) (rule reads_pure, simp add: cache_step_fields)
  show "reads s (getVerticalOffsetForLineNumber l False) (line_top s (toInt32 l))"
    by (rule reads_cong [OF _ bind [of "toInt32 l" "if toInt32 l > 1 then lineHeight s * (toInt32 l - 1) else 0", simplified,
          folded line_top_def]])
      (simp add: getVerticalOffsetForLineNumber_def Let_def cache_step_check [OF assms] cache_step_fields)
  show "reads s (getVerticalOffsetAfterLineNumber l True)
           (lineHeight s * toInt32 l + whitespace_before s (toInt32 (toInt32 l + 1)) + paddingTop s)"
    by (rule reads_cong [OF _ bind [of "toInt32 l + 1" "lineHeight s * toInt32 l"]])
      (simp add: getVerticalOffsetAfterLineNumber_def Let_def cache_step_check [OF assms] cache_step_fields)
  show "reads s (getVerticalOffsetAfterLineNumber l False)
           (lineHeight s * toInt32 l + whitespace_before s (toInt32 l) + paddingTop s)"
    by (rule reads_cong [OF _ bind [of "toInt32 l" "lineHeight s * toInt32 l", simplified]])
      (simp add: getVerticalOffsetAfterLineNumber_def Let_def cache_step_check [OF assms] cache_step_fields)
  show "reads s (getVerticalOffsetForLineNumber l True)
           ((if toInt32 l > 1 then lineHeight s * (toInt32 l - 1) else 0) +
            whitespace_before s (toInt32 (toInt32 l - 1)) + paddingTop s)"
    by (rule reads_cong [OF _ bind [of "toInt32 l - 1" "if toInt32 l > 1 then lineHeight s * (toInt32 l - 1) else 0"]])
      (simp add: getVerticalOffsetForLineNumber_def Let_def cache_step_check [OF assms] cache_step_fields)
qed

lemma reads_whitespace_top:
  assumes "committed s" "0 \<le> k" "k < int (length (arr s))"
  shows "reads s (getVerticalOffsetForWhitespaceIndex k) (whitespace_top s k)"
proof -
  let ?a = "ws_afterLineNumber (arr s ! nat k)"
  let ?c = "if ?a \<ge> 1 then lineHeight s * ?a else 0"
  have sums: "reads s (\<lambda>t. if k > 0 then getWhitespacesAccumulatedHeight (k - 1) t else Inr (t, 0))
                (prefix_total (heights (arr s)) (nat k))"
  proof (cases "k > 0")
    case True
    then have "nat (k - 1) + 1 = nat k"
      by linarith
    then show ?thesis
      using True reads_accumulated [OF assms(1), of "k - 1"] assms(3) by simp
  next
    case False
    then show ?thesis
      using assms(2) by (intro reads_pure) simp
  qed
  have "reads s (\<lambda>t. bind_result (if k > 0 then getWhitespacesAccumulatedHeight (k - 1) t else Inr (t, 0))
            (\<lambda>(t', x). Inr (t', ?c + x + paddingTop t'))) (whitespace_top s k)"
    by (rule reads_bind [OF sums]) (rule reads_pure, simp add: cache_step_fields whitespace_top_def Let_def)
  then have "reads s (\<lambda>t. bind_result (getAfterLineNumberForWhitespaceIndex k t) (\<lambda>(t', a).
            bind_result (if k > 0 then getWhitespacesAccumulatedHeight (k - 1) t' else Inr (t', 0))
            (\<lambda>(t', x). Inr (t', (if a \<ge> 1 then lineHeight s * a else 0) + x + paddingTop t')))) (whitespace_top s k)"
    by (rule reads_bind [OF reads_index(2) [OF assms]])
  then show ?thesis
  proof (rule reads_cong [rotated])
    fix t assume t: "cache_step s t"
    have "getAfterLineNumberForWhitespaceIndex k t = Inr (t, ?a)"
      using assms(2,3) t
      by (simp add: getAfterLineNumberForWhitespaceIndex_def cache_step_check [OF assms(1)] cache_step_fields cache_step_nth
          committed_index [OF assms(1)])
    then show "getVerticalOffsetForWhitespaceIndex k t = bind_result (getAfterLineNumberForWhitespaceIndex k t) (\<lambda>(t', a).
            bind_result (if k > 0 then getWhitespacesAccumulatedHeight (k - 1) t' else Inr (t', 0))
            (\<lambda>(t', x). Inr (t', (if a \<ge> 1 then lineHeight s * a else 0) + x + paddingTop t')))"
      using assms(2,3)
      by (simp add: getVerticalOffsetForWhitespaceIndex_def Let_def cache_step_check [OF assms(1) t] cache_step_fields [OF t]
          committed_index [OF assms(1)])
  qed
qed

lemma reads_total:
  assumes "committed s"
  shows "reads s getWhitespacesTotalHeight (sum_list (heights (arr s)))"
    and "reads s getLinesTotalHeight (lineHeight s * lineCount s + sum_list (heights (arr s)) + paddingTop s + paddingBottom s)"
proof -
  show total: "reads s getWhitespacesTotalHeight (sum_list (heights (arr s)))"
  proof (cases "arr s = []")
    case True
    show ?thesis
      by (rule reads_pure)
        (use True cache_step_fields(5) in \<open>force simp: getWhitespacesTotalHeight_def cache_step_check [OF assms]\<close>)
  next
    case False
    let ?i = "int (length (arr s)) - 1"
    have "nat ?i + 1 = length (arr s)" "0 \<le> ?i"
      using False by (cases "arr s"; simp)+
    then have "reads s (getWhitespacesAccumulatedHeight ?i) (sum_list (heights (arr s)))"
      using reads_accumulated [OF assms, of ?i] by (simp add: prefix_total_all)
    then show ?thesis
    proof (rule reads_cong [rotated])
      fix t assume t: "cache_step s t"
      have "arr t \<noteq> []"
        using False cache_step_fields(5) [OF t] by auto
      then show "getWhitespacesTotalHeight t = getWhitespacesAccumulatedHeight ?i t"
        by (simp add: getWhitespacesTotalHeight_def cache_step_check [OF assms t] cache_step_fields(5) [OF t])
    qed
  qed
  have "reads s (\<lambda>t. bind_result (getWhitespacesTotalHeight t)
          (\<lambda>(t', x). Inr (t', lineHeight s * lineCount s + x + paddingTop t' + paddingBottom t')))
        (lineHeight s * lineCount s + sum_list (heights (arr s)) + paddingTop s + paddingBottom s)"
    by (rule reads_bind [OF total]) (rule reads_pure, simp add: cache_step_fields)
  then show "reads s getLinesTotalHeight (lineHeight s * lineCount s + sum_list (heights (arr s)) + paddingTop s + paddingBottom s)"
    by (rule reads_cong [rotated])
      (simp add: getLinesTotalHeight_def Let_def cache_step_check [OF assms] cache_step_fields)
qed

section \<open>Binary search among stacked boxes\<close>

text \<open>
  Lines and whitespaces are two stacks of boxes: each has a top and a height, and none starts above
  the bottom of its predecessor.  Both searches are \<open>box_search\<close>.
\<close>

function box_search :: "(int \<Rightarrow> int) \<Rightarrow> (int \<Rightarrow> int) \<Rightarrow> int \<Rightarrow> int \<Rightarrow> int \<Rightarrow> int" where
  "box_search boxTop boxHeight off lo hi =
     (if lo < hi then
        let mid = (lo + hi) div 2 in
        if off \<ge> boxTop mid + boxHeight mid then box_search boxTop boxHeight off (mid + 1) hi
        else if off \<ge> boxTop mid then mid
        else box_search boxTop boxHeight off lo mid
      else lo)"
  by pat_completeness auto

termination box_search
  by (relation "measure (\<lambda>(boxTop, boxHeight, off, lo, hi). nat (hi - lo))") auto

declare box_search.simps [simp del]

locale box_stack =
  fixes ok :: "'s \<Rightarrow> bool" and boxTop :: "'s \<Rightarrow> int \<Rightarrow> int" and boxHeight :: "'s \<Rightarrow> int \<Rightarrow> int"
    and firstBox :: "'s \<Rightarrow> int" and lastBox :: "'s \<Rightarrow> int"
  assumes height_nonneg: "ok s \<Longrightarrow> firstBox s \<le> i \<Longrightarrow> i \<le> lastBox s \<Longrightarrow> 0 \<le> boxHeight s i"
    and stacked: "ok s \<Longrightarrow> firstBox s \<le> i \<Longrightarrow> i < lastBox s \<Longrightarrow> boxTop s i + boxHeight s i \<le> boxTop s (i + 1)"
begin

lemma bottom_le_top:
  assumes "ok s" "firstBox s \<le> i" "i < j" "j \<le> lastBox s"
  shows "boxTop s i + boxHeight s i \<le> boxTop s j"
  using assms(3,4)
proof (induction j rule: int_gr_induct)
  case base
  then show ?case
    using stacked [OF assms(1,2)] by simp
next
  case (step j)
  then show ?case
    using stacked [OF assms(1), of j] height_nonneg [OF assms(1), of j] assms(2) by simp
qed

lemma box_search_spec:
  assumes "ok s" "firstBox s \<le> lo" "lo \<le> hi" "hi \<le> lastBox s"
  shows "lo \<le> box_search (boxTop s) (boxHeight s) off lo hi \<and> box_search (boxTop s) (boxHeight s) off lo hi \<le> hi \<and>
         (\<forall>j. lo \<le> j \<and> j < box_search (boxTop s) (boxHeight s) off lo hi \<longrightarrow> boxTop s j + boxHeight s j \<le> off) \<and>
         (box_search (boxTop s) (boxHeight s) off lo hi = hi \<or>
          off < boxTop s (box_search (boxTop s) (boxHeight s) off lo hi) + boxHeight s (box_search (boxTop s) (boxHeight s) off lo hi))"
  using assms(2-4)
proof (induction "nat (hi - lo)" arbitrary: lo hi rule: less_induct)
  case (less lo hi)
  let ?f = "box_search (boxTop s) (boxHeight s) off"
  show ?case
  proof (cases "lo < hi")
    case False
    then have "?f lo hi = lo"
      by (subst box_search.simps) simp
    with False less(3) show ?thesis
      by auto
  next
    case True
    define mid where "mid = (lo + hi) div 2"
    have mid: "lo \<le> mid" "mid < hi"
      using True by (auto simp: mid_def)
    have below: "boxTop s j + boxHeight s j \<le> boxTop s mid" if "lo \<le> j" "j < mid" for j
      using bottom_le_top [OF assms(1), of j mid] that mid less(2,4) by simp
    have eq: "?f lo hi = (if off \<ge> boxTop s mid + boxHeight s mid then ?f (mid + 1) hi
                          else if off \<ge> boxTop s mid then mid else ?f lo mid)"
      using True by (subst box_search.simps) (simp add: mid_def [symmetric] Let_def)
    consider "off \<ge> boxTop s mid + boxHeight s mid" | "off < boxTop s mid + boxHeight s mid" "off \<ge> boxTop s mid"
      | "off < boxTop s mid + boxHeight s mid" "off < boxTop s mid"
      by linarith
    then show ?thesis
    proof cases
      case 1
      have "boxTop s j + boxHeight s j \<le> off" if "lo \<le> j" "j \<le> mid" for j
        using below [of j] 1 height_nonneg [OF assms(1), of mid] less(2,4) mid that by (cases "j = mid") auto
      note low = this
      define r where "r = ?f (mid + 1) hi"
      have r: "mid + 1 \<le> r" "r \<le> hi" "\<forall>j. mid + 1 \<le> j \<and> j < r \<longrightarrow> boxTop s j + boxHeight s j \<le> off"
        "r = hi \<or> off < boxTop s r + boxHeight s r"
        using less(1) [of hi "mid + 1"] less(2-4) mid unfolding r_def [symmetric] by auto
      have "?f lo hi = r"
        using 1 by (simp add: eq r_def)
      moreover have "boxTop s j + boxHeight s j \<le> off" if "lo \<le> j" "j < r" for j
        using low [of j] r(3) that by (cases "j \<le> mid") auto
      ultimately show ?thesis
        using r(1,2,4) mid by simp
    next
      case 2
      then have "?f lo hi = mid"
        by (simp add: eq)
      moreover have "boxTop s j + boxHeight s j \<le> off" if "lo \<le> j" "j < mid" for j
        using below [OF that] 2(2) by simp
      ultimately show ?thesis
        using mid 2(1) by simp
    next
      case 3
      define r where "r = ?f lo mid"
      have r: "lo \<le> r" "r \<le> mid" "\<forall>j. lo \<le> j \<and> j < r \<longrightarrow> boxTop s j + boxHeight s j \<le> off"
        "r = mid \<or> off < boxTop s r + boxHeight s r"
        using less(1) [of mid lo] less(2-4) mid unfolding r_def [symmetric] by auto
      have "?f lo hi = r"
        using 3 by (simp add: eq r_def)
      with r mid 3(1) show ?thesis
        by auto
    qed
  qed
qed

end

text \<open>
  The layouts on which the searches are correct: committed, with at least one line, a positive line
  height, no negative height, and a total height that fits 32 bits.
\<close>

definition lay_good :: "linesLayout \<Rightarrow> bool" where
  "lay_good s \<longleftrightarrow>
     committed s \<and> 1 \<le> lineCount s \<and> 0 < lineHeight s \<and> 0 \<le> paddingTop s \<and>
     (\<forall>h \<in> set (heights (arr s)). 0 \<le> h) \<and>
     lineHeight s * lineCount s + sum_list (heights (arr s)) + paddingTop s < 2147483648"

lemma lay_good_committed: "lay_good s \<Longrightarrow> committed s"
  by (simp add: lay_good_def)

lemma lay_good_cache_step: "lay_good s \<Longrightarrow> cache_step s t \<Longrightarrow> lay_good t"
  using cache_step_committed [of s t] cache_step_fields [of s t]
  by (simp add: lay_good_def del: set_map)

lemma lay_good_lineCount: "lay_good s \<Longrightarrow> lineCount s < 2147483648"
proof -
  assume g: "lay_good s"
  then have "1 * lineCount s \<le> lineHeight s * lineCount s"
    by (intro mult_right_mono) (auto simp: lay_good_def)
  moreover have "0 \<le> sum_list (heights (arr s))"
    using g by (intro sum_list_nonneg) (auto simp: lay_good_def)
  ultimately show ?thesis
    using g unfolding lay_good_def by linarith
qed

lemma whitespace_before_mono:
  assumes "lay_good s" "l \<le> m"
  shows "whitespace_before s l \<le> whitespace_before s m" "0 \<le> whitespace_before s l"
    "whitespace_before s l \<le> sum_list (heights (arr s))"
proof -
  have h: "\<forall>h \<in> set (heights (arr s)). 0 \<le> h" and c: "committed s"
    using assms(1) by (auto simp: lay_good_def)
  have "length (filter (\<lambda>w. ws_afterLineNumber w < l) ws) \<le> length (filter (\<lambda>w. ws_afterLineNumber w < m) ws)" for ws
    using assms(2) by (induction ws) auto
  note len = this [of "arr s"]
  show "whitespace_before s l \<le> whitespace_before s m"
    unfolding whitespace_before_prefix [OF c] by (rule prefix_total_mono [OF h len])
  show "0 \<le> whitespace_before s l"
    unfolding whitespace_before_prefix [OF c] by (rule prefix_total_nonneg [OF h])
  have "prefix_total (heights (arr s)) (length (filter (\<lambda>w. ws_afterLineNumber w < l) (arr s)))
          \<le> prefix_total (heights (arr s)) (length (heights (arr s)))"
    by (rule prefix_total_mono [OF h]) simp
  then show "whitespace_before s l \<le> sum_list (heights (arr s))"
    unfolding whitespace_before_prefix [OF c] by (simp add: prefix_total_all)
qed

interpretation line_boxes: box_stack lay_good line_top "\<lambda>s _. lineHeight s" "\<lambda>_. 1" lineCount
proof
  fix s i assume s: "lay_good s" "1 \<le> i" "i < lineCount s"
  then show "line_top s i + lineHeight s \<le> line_top s (i + 1)"
    using whitespace_before_mono(1) [OF s(1), of i "i + 1"] by (auto simp: line_top_def algebra_simps)
qed (simp add: lay_good_def)

interpretation whitespace_boxes: box_stack lay_good whitespace_top "\<lambda>s i. ws_height (arr s ! nat i)" "\<lambda>_. 0"
  "\<lambda>s. int (length (arr s)) - 1"
proof
  fix s i assume s: "lay_good s" "0 \<le> i" "i \<le> int (length (arr s)) - 1"
  then show "0 \<le> ws_height (arr s ! nat i)"
    by (simp add: lay_good_def)
next
  fix s i assume s: "lay_good s" "0 \<le> i" "i < int (length (arr s)) - 1"
  then have i: "nat i < length (arr s)" "nat (i + 1) = Suc (nat i)" "Suc (nat i) < length (arr s)"
    by auto
  have "ws_afterLineNumber (arr s ! nat i) \<le> ws_afterLineNumber (arr s ! Suc (nat i))"
    using sorted_nth_mono [OF committed_sorted [OF lay_good_committed [OF s(1)]], of "nat i" "Suc (nat i)"] i by simp
  moreover have lh: "0 \<le> lineHeight s"
    using s(1) by (simp add: lay_good_def)
  ultimately have "(if ws_afterLineNumber (arr s ! nat i) \<ge> 1 then lineHeight s * ws_afterLineNumber (arr s ! nat i) else 0)
      \<le> (if ws_afterLineNumber (arr s ! Suc (nat i)) \<ge> 1 then lineHeight s * ws_afterLineNumber (arr s ! Suc (nat i)) else 0)"
    by (auto intro: mult_left_mono)
  then show "whitespace_top s i + ws_height (arr s ! nat i) \<le> whitespace_top s (i + 1)"
    using i by (simp add: whitespace_top_def Let_def prefix_total_Suc)
qed

lemma line_top_bounds:
  assumes "lay_good s" "1 \<le> l" "l \<le> lineCount s"
  shows "0 \<le> line_top s l" "line_top s l < 2147483648" "toInt32 (line_top s l) = line_top s l" "toInt32 l = l"
proof -
  have "lineHeight s * (l - 1) \<le> lineHeight s * lineCount s"
    using assms by (intro mult_left_mono) (auto simp: lay_good_def)
  moreover have "0 \<le> lineHeight s * (l - 1)" "0 \<le> lineHeight s * lineCount s"
    using assms by (auto simp: lay_good_def)
  ultimately show b: "0 \<le> line_top s l" "line_top s l < 2147483648"
    using assms(1) whitespace_before_mono(2,3) [OF assms(1), of l l]
    unfolding line_top_def lay_good_def by (cases "l > 1"; simp; linarith)+
  show "toInt32 (line_top s l) = line_top s l" "toInt32 l = l"
    using b assms(2,3) lay_good_lineCount [OF assms(1)] by simp_all
qed

lemma reads_lineAtOrAfter_loop:
  assumes "lay_good s" "1 \<le> lo" "hi \<le> lineCount s"
  shows "reads s (lineAtOrAfter_loop off (lineHeight s) lo hi) (box_search (line_top s) (\<lambda>_. lineHeight s) off lo hi)"
  using assms(2,3)
proof (induction "nat (hi - lo)" arbitrary: lo hi rule: less_induct)
  case (less lo hi)
  let ?f = "box_search (line_top s) (\<lambda>_. lineHeight s) off"
  show ?case
  proof (cases "lo < hi")
    case False
    then show ?thesis
      by (intro reads_pure) (simp add: lineAtOrAfter_loop.simps [of off _ lo hi] box_search.simps [of _ _ off lo hi])
  next
    case True
    define mid where "mid = (lo + hi) div 2"
    have mid: "lo \<le> mid" "mid < hi"
      using True by (auto simp: mid_def)
    note b = line_top_bounds [OF assms(1), of mid]
    have rec: "reads s (lineAtOrAfter_loop off (lineHeight s) (mid + 1) hi) (?f (mid + 1) hi)"
      "reads s (lineAtOrAfter_loop off (lineHeight s) lo mid) (?f lo mid)"
      using less(1) [of hi "mid + 1"] less(1) [of mid lo] less(2,3) mid by auto
    have "reads s (\<lambda>t. bind_result (getVerticalOffsetForLineNumber mid False t) (\<lambda>(t, x).
            if off \<ge> toInt32 x + lineHeight s then lineAtOrAfter_loop off (lineHeight s) (mid + 1) hi t
            else if off \<ge> toInt32 x then Inr (t, mid)
            else lineAtOrAfter_loop off (lineHeight s) lo mid t)) (?f lo hi)"
    proof (rule reads_bind)
      show "reads s (getVerticalOffsetForLineNumber mid False) (line_top s mid)"
        using reads_offsets(1) [OF lay_good_committed [OF assms(1)], of mid] b(4) less(2,3) mid by simp
      show "reads s (\<lambda>t. if off \<ge> toInt32 (line_top s mid) + lineHeight s then lineAtOrAfter_loop off (lineHeight s) (mid + 1) hi t
            else if off \<ge> toInt32 (line_top s mid) then Inr (t, mid)
            else lineAtOrAfter_loop off (lineHeight s) lo mid t) (?f lo hi)"
        using True rec b(3) less(2,3) mid
        by (subst box_search.simps) (auto simp: mid_def [symmetric] Let_def intro: reads_pure)
    qed
    then show ?thesis
      by (rule reads_cong [rotated]) (use True in \<open>simp add: lineAtOrAfter_loop.simps [of off _ lo hi] mid_def [symmetric] Let_def\<close>)
  qed
qed

lemma reads_whitespaceAtOrAfter_loop:
  assumes "lay_good s" "0 \<le> lo" "hi < int (length (arr s))"
  shows "reads s (whitespaceAtOrAfter_loop off lo hi) (box_search (whitespace_top s) (\<lambda>i. ws_height (arr s ! nat i)) off lo hi)"
  using assms(2,3)
proof (induction "nat (hi - lo)" arbitrary: lo hi rule: less_induct)
  case (less lo hi)
  let ?h = "\<lambda>i. ws_height (arr s ! nat i)"
  let ?f = "box_search (whitespace_top s) ?h off"
  show ?case
  proof (cases "lo < hi")
    case False
    then show ?thesis
      by (intro reads_pure) (simp add: whitespaceAtOrAfter_loop.simps [of off lo hi] box_search.simps [of _ _ off lo hi])
  next
    case True
    define mid where "mid = (lo + hi) div 2"
    have mid: "lo \<le> mid" "mid < hi"
      using True by (auto simp: mid_def)
    have rec: "reads s (whitespaceAtOrAfter_loop off (mid + 1) hi) (?f (mid + 1) hi)"
      "reads s (whitespaceAtOrAfter_loop off lo mid) (?f lo mid)"
      using less(1) [of hi "mid + 1"] less(1) [of mid lo] less(2,3) mid by auto
    have idx: "0 \<le> mid" "mid < int (length (arr s))"
      using less(2,3) mid by auto
    have c: "committed s"
      using assms(1) by (rule lay_good_committed)
    have "reads s (\<lambda>t. bind_result (getVerticalOffsetForWhitespaceIndex mid t) (\<lambda>(t, x).
            bind_result (getHeightForWhitespaceIndex mid t) (\<lambda>(t, h).
            if off \<ge> x + h then whitespaceAtOrAfter_loop off (mid + 1) hi t
            else if off \<ge> x then Inr (t, mid)
            else whitespaceAtOrAfter_loop off lo mid t))) (?f lo hi)"
    proof (rule reads_bind [OF reads_whitespace_top [OF c idx]], rule reads_bind [OF reads_index(3) [OF c idx]])
      show "reads s (\<lambda>t. if off \<ge> whitespace_top s mid + ?h mid then whitespaceAtOrAfter_loop off (mid + 1) hi t
            else if off \<ge> whitespace_top s mid then Inr (t, mid)
            else whitespaceAtOrAfter_loop off lo mid t) (?f lo hi)"
        using True rec
        by (subst box_search.simps) (auto simp: mid_def [symmetric] Let_def intro: reads_pure)
    qed
    then show ?thesis
      by (rule reads_cong [rotated]) (use True in \<open>simp add: whitespaceAtOrAfter_loop.simps [of off lo hi] mid_def [symmetric] Let_def\<close>)
  qed
qed

definition line_at :: "linesLayout \<Rightarrow> int \<Rightarrow> int" where
  "line_at s off = (if off < 0 then 1 else box_search (line_top s) (\<lambda>_. lineHeight s) off 1 (lineCount s))"

lemma line_at_spec:
  assumes "lay_good s"
  shows "1 \<le> line_at s off" "line_at s off \<le> lineCount s"
    and "0 \<le> off \<Longrightarrow> 1 \<le> l \<Longrightarrow> l < line_at s off \<Longrightarrow> line_top s l + lineHeight s \<le> off"
    and "line_at s off < lineCount s \<Longrightarrow> off < line_top s (line_at s off) + lineHeight s"
proof -
  have lc: "1 \<le> lineCount s" "0 < lineHeight s"
    using assms by (auto simp: lay_good_def)
  note b = line_boxes.box_search_spec [OF assms order_refl lc(1) order_refl, of off]
  show "1 \<le> line_at s off" "line_at s off \<le> lineCount s"
    "0 \<le> off \<Longrightarrow> 1 \<le> l \<Longrightarrow> l < line_at s off \<Longrightarrow> line_top s l + lineHeight s \<le> off"
    using b lc by (auto simp: line_at_def)
  have "0 \<le> line_top s 1"
    using line_top_bounds(1) [OF assms, of 1] lc by simp
  then show "line_at s off < lineCount s \<Longrightarrow> off < line_top s (line_at s off) + lineHeight s"
    using b lc by (auto simp: line_at_def split: if_splits)
qed

lemma reads_line_at:
  assumes "lay_good s"
  shows "reads s (getLineNumberAtOrAfterVerticalOffset v) (line_at s (toInt32 v))"
proof -
  have c: "committed s" and lc: "1 \<le> lineCount s" "lineCount s < 2147483648"
    using assms lay_good_lineCount by (auto simp: lay_good_def)
  have lc32: "toInt32 (lineCount s) = lineCount s"
    using lc by simp
  show ?thesis
  proof (cases "toInt32 v < 0")
    case True
    then show ?thesis
      by (intro reads_pure) (simp add: getLineNumberAtOrAfterVerticalOffset_def Let_def cache_step_check [OF c] line_at_def)
  next
    case False
    have "reads s (\<lambda>t. bind_result (lineAtOrAfter_loop (toInt32 v) (lineHeight s) 1 (lineCount s) t)
            (\<lambda>(t, l). Inr (t, if l > lineCount s then lineCount s else l))) (line_at s (toInt32 v))"
    proof (rule reads_bind)
      show "reads s (lineAtOrAfter_loop (toInt32 v) (lineHeight s) 1 (lineCount s)) (line_at s (toInt32 v))"
        using reads_lineAtOrAfter_loop [OF assms, of 1 "lineCount s" "toInt32 v"] False by (simp add: line_at_def)
      show "reads s (\<lambda>t. Inr (t, if line_at s (toInt32 v) > lineCount s then lineCount s else line_at s (toInt32 v)))
              (line_at s (toInt32 v))"
        using line_at_spec(2) [OF assms, of "toInt32 v"] by (intro reads_pure) simp
    qed
    then show ?thesis
    proof (rule reads_cong [rotated])
      fix t assume t: "cache_step s t"
      show "getLineNumberAtOrAfterVerticalOffset v t =
          bind_result (lineAtOrAfter_loop (toInt32 v) (lineHeight s) 1 (lineCount s) t)
            (\<lambda>(t, l). Inr (t, if l > lineCount s then lineCount s else l))"
        unfolding getLineNumberAtOrAfterVerticalOffset_def Let_def cache_step_check [OF c t]
          cache_step_fields(1,2) [OF t] lc32
        using False by simp
    qed
  qed
qed

abbreviation whitespace_bottom :: "linesLayout \<Rightarrow> int \<Rightarrow> int" where
  "whitespace_bottom s i \<equiv> whitespace_top s i + ws_height (arr s ! nat i)"

definition whitespace_at :: "linesLayout \<Rightarrow> int \<Rightarrow> int" where
  "whitespace_at s off =
     (let n = int (length (arr s)) - 1 in
      if n < 0 \<or> off \<ge> whitespace_bottom s n then -1
      else box_search (whitespace_top s) (\<lambda>i. ws_height (arr s ! nat i)) off 0 n)"

lemma whitespace_at_spec:
  assumes "lay_good s"
  shows "whitespace_at s off = -1 \<Longrightarrow> 0 \<le> i \<Longrightarrow> i < int (length (arr s)) \<Longrightarrow> whitespace_bottom s i \<le> off"
    and "whitespace_at s off \<noteq> -1 \<Longrightarrow>
           0 \<le> whitespace_at s off \<and> whitespace_at s off < int (length (arr s)) \<and>
           off < whitespace_bottom s (whitespace_at s off) \<and>
           (\<forall>i. 0 \<le> i \<and> i < whitespace_at s off \<longrightarrow> whitespace_bottom s i \<le> off)"
proof -
  let ?n = "int (length (arr s)) - 1"
  note spec = whitespace_boxes.box_search_spec [OF assms order_refl _ order_refl, of off]
  show "whitespace_bottom s i \<le> off" if "whitespace_at s off = -1" "0 \<le> i" "i < int (length (arr s))"
  proof -
    have "off \<ge> whitespace_bottom s ?n"
      using that spec by (auto simp: whitespace_at_def Let_def split: if_splits)
    moreover have "whitespace_bottom s i \<le> whitespace_bottom s ?n"
    proof (cases "i = ?n")
      case False
      then show ?thesis
        using whitespace_boxes.bottom_le_top [OF assms that(2), of ?n] whitespace_boxes.height_nonneg [OF assms, of ?n] that(2,3)
        by linarith
    qed simp
    ultimately show ?thesis
      by simp
  qed
  show "0 \<le> whitespace_at s off \<and> whitespace_at s off < int (length (arr s)) \<and>
           off < whitespace_bottom s (whitespace_at s off) \<and>
           (\<forall>i. 0 \<le> i \<and> i < whitespace_at s off \<longrightarrow> whitespace_bottom s i \<le> off)" if "whitespace_at s off \<noteq> -1"
  proof -
    have n: "0 \<le> ?n" "off < whitespace_bottom s ?n"
      "whitespace_at s off = box_search (whitespace_top s) (\<lambda>i. ws_height (arr s ! nat i)) off 0 ?n"
      using that by (auto simp: whitespace_at_def Let_def split: if_splits)
    then show ?thesis
      using spec [OF n(1)] by auto
  qed
qed

lemma reads_whitespace_at:
  assumes "lay_good s"
  shows "reads s (getWhitespaceIndexAtOrAfterVerticallOffset v) (whitespace_at s (toInt32 v))"
proof -
  let ?n = "int (length (arr s)) - 1"
  have c: "committed s"
    using assms by (rule lay_good_committed)
  show ?thesis
  proof (cases "?n < 0")
    case True
    then show ?thesis
      by (intro reads_pure)
        (simp add: getWhitespaceIndexAtOrAfterVerticallOffset_def getWhitespacesCount_def Let_def cache_step_check [OF c]
          cache_step_fields whitespace_at_def)
  next
    case False
    then have idx: "0 \<le> ?n" "?n < int (length (arr s))"
      by auto
    have "reads s (\<lambda>t. bind_result (getVerticalOffsetForWhitespaceIndex ?n t) (\<lambda>(t, x).
            bind_result (getHeightForWhitespaceIndex ?n t) (\<lambda>(t, h).
            if toInt32 v \<ge> x + h then Inr (t, -1) else whitespaceAtOrAfter_loop (toInt32 v) 0 ?n t)))
          (whitespace_at s (toInt32 v))"
    proof (rule reads_bind [OF reads_whitespace_top [OF c idx]], rule reads_bind [OF reads_index(3) [OF c idx]])
      show "reads s (\<lambda>t. if toInt32 v \<ge> whitespace_bottom s ?n then Inr (t, -1)
              else whitespaceAtOrAfter_loop (toInt32 v) 0 ?n t) (whitespace_at s (toInt32 v))"
        using False reads_whitespaceAtOrAfter_loop [OF assms order_refl idx(2), of "toInt32 v"]
        by (auto simp: whitespace_at_def Let_def intro: reads_pure)
    qed
    then show ?thesis
      by (rule reads_cong [rotated])
        (use False in \<open>simp add: getWhitespaceIndexAtOrAfterVerticallOffset_def getWhitespacesCount_def Let_def
           cache_step_check [OF c] cache_step_fields\<close>)
  qed
qed

section \<open>Whitespaces in the viewport\<close>

definition vw_of :: "linesLayout \<Rightarrow> int \<Rightarrow> viewWhitespaceData" where
  "vw_of s i = \<lparr>vw_id = ws_id (arr s ! nat i), vw_afterLineNumber = ws_afterLineNumber (arr s ! nat i),
                vw_verticalOffset = whitespace_top s i, vw_height = ws_height (arr s ! nat i)\<rparr>"

lemma reads_whitespaceViewport_loop:
  assumes "committed s" "0 \<le> i" "n = int (length (arr s)) - 1"
  shows "reads s (whitespaceViewport_loop v2 i n result)
           (result @ map (vw_of s) (takeWhile (\<lambda>i. whitespace_top s i < v2) [i..n]))"
  using assms(2)
proof (induction "nat (n + 1 - i)" arbitrary: i result rule: less_induct)
  case (less i result)
  show ?case
  proof (cases "i \<le> n")
    case False
    then show ?thesis
      by (intro reads_pure) (simp add: whitespaceViewport_loop.simps [of v2 i])
  next
    case True
    then have idx: "0 \<le> i" "i < int (length (arr s))"
      using less(2) assms(3) by auto
    let ?r = "result @ map (vw_of s) (takeWhile (\<lambda>i. whitespace_top s i < v2) [i..n])"
    have rec: "reads s (whitespaceViewport_loop v2 (i + 1) n (result @ [vw_of s i])) ?r" if "whitespace_top s i < v2"
      using less(1) [of "i + 1" "result @ [vw_of s i]"] less(2) True that by (simp add: upto_rec1 [OF True])
    have "reads s (\<lambda>t. bind_result (getVerticalOffsetForWhitespaceIndex i t) (\<lambda>(t, x).
            bind_result (getHeightForWhitespaceIndex i t) (\<lambda>(t, h).
            if x \<ge> v2 then Inr (t, result)
            else bind_result (getIdForWhitespaceIndex i t) (\<lambda>(t, w).
              bind_result (getAfterLineNumberForWhitespaceIndex i t) (\<lambda>(t, a).
              whitespaceViewport_loop v2 (i + 1) n (result @ [\<lparr>vw_id = w, vw_afterLineNumber = a,
                 vw_verticalOffset = x, vw_height = h\<rparr>]) t))))) ?r"
    proof (rule reads_bind [OF reads_whitespace_top [OF assms(1) idx]], rule reads_bind [OF reads_index(3) [OF assms(1) idx]])
      show "reads s (\<lambda>t. if whitespace_top s i \<ge> v2 then Inr (t, result)
            else bind_result (getIdForWhitespaceIndex i t) (\<lambda>(t, w).
              bind_result (getAfterLineNumberForWhitespaceIndex i t) (\<lambda>(t, a).
              whitespaceViewport_loop v2 (i + 1) n (result @ [\<lparr>vw_id = w, vw_afterLineNumber = a,
                 vw_verticalOffset = whitespace_top s i, vw_height = ws_height (arr s ! nat i)\<rparr>]) t))) ?r"
      proof (cases "whitespace_top s i \<ge> v2")
        case True
        then show ?thesis
          using \<open>i \<le> n\<close> by (intro reads_pure) (simp add: upto_rec1)
      next
        case False
        have "reads s (\<lambda>t. bind_result (getIdForWhitespaceIndex i t) (\<lambda>(t, w).
              bind_result (getAfterLineNumberForWhitespaceIndex i t) (\<lambda>(t, a).
              whitespaceViewport_loop v2 (i + 1) n (result @ [\<lparr>vw_id = w, vw_afterLineNumber = a,
                 vw_verticalOffset = whitespace_top s i, vw_height = ws_height (arr s ! nat i)\<rparr>]) t))) ?r"
          by (rule reads_bind [OF reads_index(1) [OF assms(1) idx]], rule reads_bind [OF reads_index(2) [OF assms(1) idx]])
            (use rec False in \<open>simp add: vw_of_def\<close>)
        with False show ?thesis
          by simp
      qed
    qed
    then show ?thesis
      by (rule reads_cong [rotated]) (use True in \<open>simp add: whitespaceViewport_loop.simps [of v2 i]\<close>)
  qed
qed

lemma reads_getWhitespaceViewportData:
  assumes "lay_good s"
  shows "reads s (getWhitespaceViewportData v1 v2)
           (if whitespace_at s (toInt32 v1) < 0 then []
            else map (vw_of s) (takeWhile (\<lambda>i. whitespace_top s i < toInt32 v2)
                   [whitespace_at s (toInt32 v1)..int (length (arr s)) - 1]))"
    (is "reads s _ ?r")
proof -
  have c: "committed s"
    using assms by (rule lay_good_committed)
  let ?k = "whitespace_at s (toInt32 v1)"
  have "reads s (\<lambda>t. bind_result (getWhitespaceIndexAtOrAfterVerticallOffset (toInt32 v1) t) (\<lambda>(t, k).
          case getWhitespacesCount t of (t, n) \<Rightarrow>
            if k < 0 then Inr (t, []) else whitespaceViewport_loop (toInt32 v2) k (int n - 1) [] t)) ?r"
  proof (rule reads_bind)
    show "reads s (getWhitespaceIndexAtOrAfterVerticallOffset (toInt32 v1)) ?k"
      using reads_whitespace_at [OF assms, of "toInt32 v1"] by simp
    have "reads s (\<lambda>t. if ?k < 0 then Inr (t, [])
            else whitespaceViewport_loop (toInt32 v2) ?k (int (length (arr s)) - 1) [] t) ?r"
      using reads_whitespaceViewport_loop [OF c _ refl, of ?k "toInt32 v2" "[]"]
      by (auto intro!: reads_pure)
    then show "reads s (\<lambda>t. case getWhitespacesCount t of (t, n) \<Rightarrow>
            if ?k < 0 then Inr (t, []) else whitespaceViewport_loop (toInt32 v2) ?k (int n - 1) [] t) ?r"
      by (rule reads_cong [rotated]) (simp add: getWhitespacesCount_def Let_def cache_step_check [OF c] cache_step_fields)
  qed
  then show ?thesis
    by (rule reads_cong [rotated]) (simp add: getWhitespaceViewportData_def Let_def cache_step_check [OF c])
qed

section \<open>Lines in the viewport\<close>

text \<open>A query whose answer is only characterised.\<close>

definition reads_sat :: "linesLayout \<Rightarrow> (linesLayout \<Rightarrow> js_error + linesLayout \<times> 'a) \<Rightarrow> ('a \<Rightarrow> bool) \<Rightarrow> bool" where
  "reads_sat s f P \<longleftrightarrow> (\<forall>t. cache_step s t \<longrightarrow> (\<exists>t' v. f t = Inr (t', v) \<and> cache_step s t' \<and> P v))"

lemma reads_sat_bind:
  assumes "reads_sat s f P" "\<And>v. P v \<Longrightarrow> reads_sat s (\<lambda>t. g t v) Q"
  shows "reads_sat s (\<lambda>t. bind_result (f t) (\<lambda>(t', x). g t' x)) Q"
  using assms unfolding reads_sat_def by fastforce

lemma reads_sat_bind_reads:
  assumes "reads s f v" "reads_sat s (\<lambda>t. g t v) Q"
  shows "reads_sat s (\<lambda>t. bind_result (f t) (\<lambda>(t', x). g t' x)) Q"
  using assms unfolding reads_def reads_sat_def by fastforce

lemma reads_sat_pure:
  assumes "\<And>t. cache_step s t \<Longrightarrow> f t = Inr (t, v)" "P v"
  shows "reads_sat s f P"
  using assms by (auto simp: reads_sat_def)

lemma reads_sat_cong:
  assumes "\<And>t. cache_step s t \<Longrightarrow> f t = g t" "reads_sat s g P"
  shows "reads_sat s f P"
  using assms by (simp add: reads_sat_def)

lemma reads_sat_mono: "reads_sat s f P \<Longrightarrow> (\<And>v. P v \<Longrightarrow> Q v) \<Longrightarrow> reads_sat s f Q"
  unfolding reads_sat_def by meson

text \<open>The number of whitespaces before a line, and what the loop knows about the next one.\<close>

definition ws_count :: "linesLayout \<Rightarrow> int \<Rightarrow> nat" where
  "ws_count s l = length (filter (\<lambda>w. ws_afterLineNumber w < l) (arr s))"

definition viewport_good :: "linesLayout \<Rightarrow> bool" where
  "viewport_good s \<longleftrightarrow> lay_good s \<and> (\<forall>w \<in> set (arr s). int32_range (ws_afterLineNumber w))"

definition marker :: "linesLayout \<Rightarrow> nat \<Rightarrow> viewport_state \<Rightarrow> bool" where
  "marker s k v \<longleftrightarrow>
     v_whitespaceIndex v = int k \<and> k \<le> length (arr s) \<and>
     (if k < length (arr s)
      then v_whitespaceAfter v = ws_afterLineNumber (arr s ! k) \<and> v_whitespaceHeight v = ws_height (arr s ! k)
      else v_whitespaceAfter v = lineCount s + 1)"

lemma ws_count_less:
  assumes "committed s" "k < length (arr s)"
  shows "ws_afterLineNumber (arr s ! k) < l \<longleftrightarrow> k < ws_count s l"
  unfolding ws_count_def by (rule sorted_count_less [OF committed_sorted [OF assms(1)] assms(2)])

lemma ws_count_le: "ws_count s l \<le> length (arr s)"
  by (simp add: ws_count_def)

lemma member_le_sum_list_int: "\<forall>x \<in> set xs. 0 \<le> x \<Longrightarrow> y \<in> set xs \<Longrightarrow> y \<le> sum_list xs" for y :: int
  by (induction xs) (force simp: sum_list_nonneg)+

lemma viewport_ranges:
  assumes "viewport_good s" "k < length (arr s)"
  shows "toInt32 (ws_afterLineNumber (arr s ! k)) = ws_afterLineNumber (arr s ! k)"
    "toInt32 (ws_height (arr s ! k)) = ws_height (arr s ! k)"
proof -
  show "toInt32 (ws_afterLineNumber (arr s ! k)) = ws_afterLineNumber (arr s ! k)"
    using assms by (simp add: viewport_good_def)
  have g: "lay_good s"
    using assms(1) by (simp add: viewport_good_def)
  have mem: "ws_height (arr s ! k) \<in> set (heights (arr s))"
    using assms(2) by simp
  then have "0 \<le> ws_height (arr s ! k)" "ws_height (arr s ! k) \<le> sum_list (heights (arr s))"
    using g member_le_sum_list_int [OF _ mem] by (auto simp: lay_good_def)
  moreover have "0 \<le> lineHeight s * lineCount s" "0 \<le> paddingTop s"
    "lineHeight s * lineCount s + sum_list (heights (arr s)) + paddingTop s < 2147483648"
    using g by (auto simp: lay_good_def)
  ultimately show "toInt32 (ws_height (arr s ! k)) = ws_height (arr s ! k)"
    by (intro toInt32_small) linarith+
qed

lemma prefix_total_step: "k < length (arr s) \<Longrightarrow>
    prefix_total (heights (arr s)) (Suc k) = prefix_total (heights (arr s)) k + ws_height (arr s ! k)"
  by (simp add: prefix_total_Suc)

text \<open>The inner loop passes the whitespaces from index \<open>k\<close> up to \<open>m\<close>, one by one.\<close>

definition passes :: "linesLayout \<Rightarrow> nat \<Rightarrow> nat \<Rightarrow> viewport_state \<Rightarrow> viewport_state \<Rightarrow> bool" where
  "passes s k m v v' \<longleftrightarrow>
     marker s m v' \<and> v_linesOffsets v' = v_linesOffsets v \<and> v_centered v' = v_centered v \<and>
     v_verticalOffset v' = v_verticalOffset v + (prefix_total (heights (arr s)) m - prefix_total (heights (arr s)) k) \<and>
     v_relativeOffset v' = v_relativeOffset v + (prefix_total (heights (arr s)) m - prefix_total (heights (arr s)) k)"

lemma reads_viewport_whitespaces:
  assumes "viewport_good s" "1 \<le> l" "l \<le> lineCount s"
    and "marker s k v" "ws_count s l \<le> k" "k \<le> ws_count s (l + 1)"
  shows "reads_sat s (viewport_whitespaces l (lineCount s) (int (length (arr s))) v) (passes s k (ws_count s (l + 1)) v)"
  using assms(4-6)
proof (induction "ws_count s (l + 1) - k" arbitrary: k v)
  case 0
  then have k: "k = ws_count s (l + 1)"
    by simp
  have c: "committed s"
    using assms(1) by (auto simp: viewport_good_def lay_good_def)
  have "v_whitespaceAfter v \<noteq> l"
    using 0(2) ws_count_less [OF c, of k "l + 1"] k assms(3) by (auto simp: marker_def split: if_splits)
  then have "viewport_whitespaces l (lineCount s) (int (length (arr s))) v t = Inr (t, v)" for t
    by (subst viewport_whitespaces.simps) simp
  then show ?case
    using 0(2) k by (intro reads_sat_pure) (auto simp: passes_def)
next
  case (Suc d)
  let ?m = "ws_count s (l + 1)"
  have c: "committed s"
    using assms(1) by (auto simp: viewport_good_def lay_good_def)
  have k: "k < ?m" "k < length (arr s)"
    using Suc(2) ws_count_le [of s "l + 1"] by auto
  have after: "v_whitespaceAfter v = l" and h: "v_whitespaceHeight v = ws_height (arr s ! k)"
    using Suc(3,4) k ws_count_less [OF c k(2), of "l + 1"] ws_count_less [OF c k(2), of l] by (auto simp: marker_def)
  define u where "u = v\<lparr>v_relativeOffset := v_relativeOffset v + v_whitespaceHeight v,
              v_verticalOffset := v_verticalOffset v + v_whitespaceHeight v,
              v_whitespaceIndex := v_whitespaceIndex v + 1\<rparr>"
  have idx: "v_whitespaceIndex u = int (Suc k)"
    using Suc(3) by (simp add: marker_def u_def)
  have pass: "passes s k ?m v v'" if "passes s (Suc k) ?m u v'" for v'
    using that h prefix_total_step [OF k(2)] by (simp add: passes_def u_def)
  show ?case
  proof (cases "Suc k < length (arr s)")
    case False
    then have len: "Suc k = length (arr s)" "?m = length (arr s)"
      using k ws_count_le [of s "l + 1"] by auto
    have step: "viewport_whitespaces l (lineCount s) (int (length (arr s))) v t =
        Inr (t, u\<lparr>v_whitespaceAfter := lineCount s + 1\<rparr>)" for t
      using after idx len(1) by (subst viewport_whitespaces.simps) (simp add: Let_def u_def)
    have "passes s (Suc k) ?m u (u\<lparr>v_whitespaceAfter := lineCount s + 1\<rparr>)"
      using idx len by (simp add: passes_def marker_def)
    then show ?thesis
      by (intro reads_sat_pure [OF step] pass)
  next
    case True
    let ?w = "u\<lparr>v_whitespaceAfter := ws_afterLineNumber (arr s ! Suc k), v_whitespaceHeight := ws_height (arr s ! Suc k)\<rparr>"
    have i: "0 \<le> int (Suc k)" "int (Suc k) < int (length (arr s))"
      using True by auto
    have "marker s (Suc k) ?w"
      using True idx by (simp add: marker_def)
    then have "reads_sat s (viewport_whitespaces l (lineCount s) (int (length (arr s))) ?w) (passes s (Suc k) ?m ?w)"
      using Suc(1) [of "Suc k" ?w] Suc(2,4) k by simp
    then have rec: "reads_sat s (viewport_whitespaces l (lineCount s) (int (length (arr s))) ?w) (passes s k ?m v)"
      by (rule reads_sat_mono) (rule pass, simp add: passes_def)
    have "reads_sat s (\<lambda>t. bind_result (getAfterLineNumberForWhitespaceIndex (int (Suc k)) t) (\<lambda>(t, a).
            bind_result (getHeightForWhitespaceIndex (int (Suc k)) t) (\<lambda>(t, h).
              viewport_whitespaces l (lineCount s) (int (length (arr s)))
                (u\<lparr>v_whitespaceAfter := toInt32 a, v_whitespaceHeight := toInt32 h\<rparr>) t))) (passes s k ?m v)"
      by (rule reads_sat_bind_reads [OF reads_index(2) [OF c i]], rule reads_sat_bind_reads [OF reads_index(3) [OF c i]])
        (use rec viewport_ranges [OF assms(1) True] in \<open>simp only: nat_int\<close>)
    moreover have step: "viewport_whitespaces l (lineCount s) (int (length (arr s))) v t =
        bind_result (getAfterLineNumberForWhitespaceIndex (int (Suc k)) t) (\<lambda>(t, a).
            bind_result (getHeightForWhitespaceIndex (int (Suc k)) t) (\<lambda>(t, h).
              viewport_whitespaces l (lineCount s) (int (length (arr s)))
                (u\<lparr>v_whitespaceAfter := toInt32 a, v_whitespaceHeight := toInt32 h\<rparr>) t))" for t
      using after i(2) unfolding idx [symmetric] by (subst viewport_whitespaces.simps) (simp add: Let_def u_def)
    ultimately show ?thesis
      by (intro reads_sat_cong [OF step])
  qed
qed

text \<open>
  Before the loop treats line \<open>l\<close> it has recorded the offsets of the lines from the first one on and
  stands at the top of \<open>l\<close>; the centred line, if found, is the first one whose bottom lies below the centre.
\<close>

definition centred_at :: "linesLayout \<Rightarrow> int \<Rightarrow> int \<Rightarrow> int \<Rightarrow> bool" where
  "centred_at s startLine center2 c \<longleftrightarrow>
     startLine \<le> c \<and> (\<forall>m. startLine \<le> m \<and> m < c \<longrightarrow> 2 * (line_top s m + lineHeight s) \<le> center2)"

definition viewport_inv :: "linesLayout \<Rightarrow> int \<Rightarrow> int \<Rightarrow> int \<Rightarrow> int \<Rightarrow> viewport_state \<Rightarrow> bool" where
  "viewport_inv s startLine delta center2 l v \<longleftrightarrow>
     marker s (ws_count s l) v \<and> v_verticalOffset v = line_top s l \<and> v_relativeOffset v = line_top s l - delta \<and>
     v_linesOffsets v = map (\<lambda>l. line_top s l - delta) [startLine..l - 1] \<and>
     (if v_centered v = -1 then centred_at s startLine center2 l
      else centred_at s startLine center2 (v_centered v) \<and> v_centered v < l \<and>
           center2 < 2 * (line_top s (v_centered v) + lineHeight s))"

lemma line_top_next:
  assumes "committed s" "1 \<le> l"
  shows "line_top s (l + 1) = line_top s l + lineHeight s +
           (prefix_total (heights (arr s)) (ws_count s (l + 1)) - prefix_total (heights (arr s)) (ws_count s l))"
  using assms(2) by (auto simp: line_top_def whitespace_before_prefix [OF assms(1)] ws_count_def algebra_simps)

lemma ws_count_mono: "l \<le> m \<Longrightarrow> ws_count s l \<le> ws_count s m"
proof -
  assume "l \<le> m"
  then have "length (filter (\<lambda>w. ws_afterLineNumber w < l) ws) \<le> length (filter (\<lambda>w. ws_afterLineNumber w < m) ws)" for ws
    by (induction ws) auto
  then show ?thesis
    by (simp add: ws_count_def)
qed

lemma reads_viewport_loop:
  assumes "viewport_good s" "1 \<le> startLine" "startLine \<le> l" "l \<le> lineCount s" "viewport_inv s startLine delta center2 l v"
    and "\<forall>m. startLine < m \<and> m \<le> l \<longrightarrow> line_top s m < v2"
  shows "reads_sat s (viewport_loop (lineHeight s) center2 v2 (int (length (arr s))) (lineCount s) l v)
     (\<lambda>(v', e). l \<le> e \<and> e \<le> lineCount s \<and> viewport_inv s startLine delta center2 (e + 1) v' \<and>
        (\<forall>m. startLine < m \<and> m \<le> e \<longrightarrow> line_top s m < v2) \<and> (e < lineCount s \<longrightarrow> v2 \<le> line_top s (e + 1)))"
  using assms(3-6)
proof (induction "nat (lineCount s - l)" arbitrary: l v rule: less_induct)
  case (less l v)
  let ?P = "\<lambda>(v', e). l \<le> e \<and> e \<le> lineCount s \<and> viewport_inv s startLine delta center2 (e + 1) v' \<and>
        (\<forall>m. startLine < m \<and> m \<le> e \<longrightarrow> line_top s m < v2) \<and> (e < lineCount s \<longrightarrow> v2 \<le> line_top s (e + 1))"
  have c: "committed s"
    using assms(1) by (auto simp: viewport_good_def lay_good_def)
  let ?c = "v_centered v = -1 \<and> ((2 * v_verticalOffset v \<le> center2 \<and> center2 < 2 * (v_verticalOffset v + lineHeight s)) \<or>
              2 * v_verticalOffset v > center2)"
  define v1 where "v1 = (if ?c then v\<lparr>v_centered := l\<rparr> else v)"
  define u where "u = v1\<lparr>v_verticalOffset := v_verticalOffset v1 + lineHeight s,
                         v_linesOffsets := v_linesOffsets v1 @ [v_relativeOffset v1],
                         v_relativeOffset := v_relativeOffset v1 + lineHeight s\<rparr>"
  have step: "viewport_loop (lineHeight s) center2 v2 (int (length (arr s))) (lineCount s) l v t =
      bind_result (viewport_whitespaces l (lineCount s) (int (length (arr s))) u t)
        (\<lambda>(t, w). if v_verticalOffset w \<ge> v2 then Inr (t, w, l)
                   else viewport_loop (lineHeight s) center2 v2 (int (length (arr s))) (lineCount s) (l + 1) w t)" for t
    using less(3) by (subst viewport_loop.simps) (simp add: Let_def u_def v1_def)
  have m: "marker s (ws_count s l) u"
    using less(4) by (auto simp: viewport_inv_def marker_def u_def v1_def)
  have l1: "1 \<le> l"
    using assms(2) less(2) by simp
  have centred_step: "if ?c then centred_at s startLine center2 l \<and> center2 < 2 * (line_top s l + lineHeight s) \<and> l \<noteq> -1
      else v_centered v = -1 \<longrightarrow> centred_at s startLine center2 (l + 1)"
  proof -
    have "centred_at s startLine center2 l" if "v_centered v = -1"
      using that less(4) by (simp add: viewport_inv_def)
    moreover have "0 < lineHeight s" "v_verticalOffset v = line_top s l"
      using assms(1) less(4) by (auto simp: viewport_good_def lay_good_def viewport_inv_def)
    ultimately show ?thesis
      using l1 less(2) by (auto simp: centred_at_def not_less le_less zless_add1_eq)
  qed
  have next_inv: "viewport_inv s startLine delta center2 (l + 1) w" if "passes s (ws_count s l) (ws_count s (l + 1)) u w" for w
  proof -
    have "[startLine..l] = [startLine..l - 1] @ [l]"
      using less(2) by (simp add: upto_rec2)
    moreover have "if v_centered u = -1 then centred_at s startLine center2 (l + 1)
        else centred_at s startLine center2 (v_centered u) \<and> v_centered u < l + 1 \<and>
          center2 < 2 * (line_top s (v_centered u) + lineHeight s)"
      using centred_step less(4) by (auto simp: viewport_inv_def u_def v1_def)
    ultimately show ?thesis
      using that less(4) line_top_next [OF c l1] by (auto simp: passes_def viewport_inv_def u_def v1_def)
  qed
  show ?case
  proof (rule reads_sat_cong [OF step], rule reads_sat_bind)
    show "reads_sat s (viewport_whitespaces l (lineCount s) (int (length (arr s))) u) (viewport_inv s startLine delta center2 (l + 1))"
      by (rule reads_sat_mono [OF reads_viewport_whitespaces [OF assms(1) l1 less(3) m order_refl]])
        (simp_all add: ws_count_mono next_inv)
    fix w assume w: "viewport_inv s startLine delta center2 (l + 1) w"
    then have top_w: "v_verticalOffset w = line_top s (l + 1)"
      by (simp add: viewport_inv_def)
    show "reads_sat s (\<lambda>t. if v_verticalOffset w \<ge> v2 then Inr (t, w, l)
        else viewport_loop (lineHeight s) center2 v2 (int (length (arr s))) (lineCount s) (l + 1) w t) ?P"
    proof (cases "v_verticalOffset w \<ge> v2")
      case True
      then show ?thesis
        using less(2,3,5) w top_w by (intro reads_sat_pure [where v = "(w, l)"]) auto
    next
      case False
      have up: "\<forall>m. startLine < m \<and> m \<le> l + 1 \<longrightarrow> line_top s m < v2"
        using less(5) False top_w by (metis add1_zle_eq leI linorder_le_less_linear nless_le zle_add1_eq_le)
      show ?thesis
      proof (cases "l = lineCount s")
        case True
        then have "viewport_loop (lineHeight s) center2 v2 (int (length (arr s))) (lineCount s) (l + 1) w t = Inr (t, w, lineCount s)" for t
          by (subst viewport_loop.simps) simp
        then show ?thesis
          using False True w less(5) by (intro reads_sat_pure [where v = "(w, l)"]) auto
      next
        case neq: False
        then have "reads_sat s (viewport_loop (lineHeight s) center2 v2 (int (length (arr s))) (lineCount s) (l + 1) w)
          (\<lambda>(v', e). l + 1 \<le> e \<and> e \<le> lineCount s \<and> viewport_inv s startLine delta center2 (e + 1) v' \<and>
            (\<forall>m. startLine < m \<and> m \<le> e \<longrightarrow> line_top s m < v2) \<and> (e < lineCount s \<longrightarrow> v2 \<le> line_top s (e + 1)))"
          using less(1) [of "l + 1" w] less(2,3) w up by auto
        then have "reads_sat s (viewport_loop (lineHeight s) center2 v2 (int (length (arr s))) (lineCount s) (l + 1) w) ?P"
          by (rule reads_sat_mono) auto
        then show ?thesis
          using False by simp
      qed
    qed
  qed
qed

lemma first_whitespace:
  assumes "committed s" "cache_step s t" "toInt32 l = l"
  shows "getFirstWhitespaceIndexAfterLineNumber l t =
           (t, if ws_count s l < length (arr s) then int (ws_count s l) else -1)"
  using findLast_spec [OF cache_step_committed [OF assms(1,2)], of l] count_before_same [OF assms(2), of l]
    cache_step_check [OF assms(1,2)] cache_step_fields(5) [OF assms(2)] assms(3)
  by (simp add: getFirstWhitespaceIndexAfterLineNumber_def findFirstWhitespaceAfterLineNumber_def Let_def ws_count_def)

text \<open>The marker before the loop.\<close>

lemma reads_first_marker:
  assumes "viewport_good s"
  shows "reads s (\<lambda>t. if ws_count s l < length (arr s)
           then bind_result (getAfterLineNumberForWhitespaceIndex (int (ws_count s l)) t) (\<lambda>(t, a).
                bind_result (getHeightForWhitespaceIndex (int (ws_count s l)) t) (\<lambda>(t, h).
                Inr (t, int (ws_count s l), toInt32 a, toInt32 h)))
           else Inr (t, int (length (arr s)), lineCount s + 1, 0))
         (int (ws_count s l), if ws_count s l < length (arr s) then ws_afterLineNumber (arr s ! ws_count s l) else lineCount s + 1,
          if ws_count s l < length (arr s) then ws_height (arr s ! ws_count s l) else 0)"
proof (cases "ws_count s l < length (arr s)")
  case True
  have c: "committed s"
    using assms by (auto simp: viewport_good_def lay_good_def)
  let ?k = "int (ws_count s l)"
  have k: "0 \<le> ?k" "?k < int (length (arr s))"
    using True by auto
  have "reads s (\<lambda>t. bind_result (getAfterLineNumberForWhitespaceIndex ?k t) (\<lambda>(t, a).
                bind_result (getHeightForWhitespaceIndex ?k t) (\<lambda>(t, h). Inr (t, ?k, toInt32 a, toInt32 h))))
          (?k, ws_afterLineNumber (arr s ! ws_count s l), ws_height (arr s ! ws_count s l))"
    by (rule reads_bind [OF reads_index(2) [OF c k]], rule reads_bind [OF reads_index(3) [OF c k]])
      (use viewport_ranges [OF assms True] in \<open>auto intro: reads_pure\<close>)
  with True show ?thesis
    by simp
next
  case False
  then have "ws_count s l = length (arr s)"
    using ws_count_le [of s l] by simp
  then show ?thesis
    by (intro reads_pure) simp
qed

definition viewport_ok :: "linesLayout \<Rightarrow> int \<Rightarrow> int \<Rightarrow> linesViewportData \<Rightarrow> bool" where
  "viewport_ok s v1 v2 d \<longleftrightarrow>
     vp_startLineNumber d = line_at s v1 \<and>
     vp_startLineNumber d \<le> vp_endLineNumber d \<and> vp_endLineNumber d \<le> lineCount s \<and>
     vp_relativeVerticalOffset d =
       map (\<lambda>l. line_top s l - vp_bigNumbersDelta d) [vp_startLineNumber d..vp_endLineNumber d] \<and>
     (\<forall>l. vp_startLineNumber d < l \<and> l \<le> vp_endLineNumber d \<longrightarrow> line_top s l < v2) \<and>
     (vp_endLineNumber d < lineCount s \<longrightarrow> v2 \<le> line_top s (vp_endLineNumber d + 1)) \<and>
     centred_at s (vp_startLineNumber d) (v1 + v2) (vp_centeredLineNumber d) \<and> vp_centeredLineNumber d \<le> vp_endLineNumber d \<and>
     (v1 + v2 < 2 * (line_top s (vp_centeredLineNumber d) + lineHeight s) \<or> vp_centeredLineNumber d = vp_endLineNumber d) \<and>
     lineHeight s dvd vp_bigNumbersDelta d \<and>
     0 \<le> line_top s (vp_startLineNumber d) - vp_bigNumbersDelta d \<and>
     line_top s (vp_startLineNumber d) - vp_bigNumbersDelta d < STEP_SIZE + lineHeight s \<and>
     vp_startLineNumber d \<le> vp_completelyVisibleStartLineNumber d \<and>
     vp_completelyVisibleStartLineNumber d \<le> vp_completelyVisibleEndLineNumber d \<and>
     vp_completelyVisibleEndLineNumber d \<le> vp_endLineNumber d \<and>
     (vp_startLineNumber d < vp_endLineNumber d \<longrightarrow> v1 \<le> line_top s (vp_completelyVisibleStartLineNumber d)) \<and>
     (vp_completelyVisibleStartLineNumber d < vp_endLineNumber d \<longrightarrow>
        line_top s (vp_completelyVisibleEndLineNumber d) + lineHeight s \<le> v2) \<and>
     (\<forall>l. vp_startLineNumber d \<le> l \<and> l \<le> vp_endLineNumber d \<and> v1 \<le> line_top s l \<and> line_top s l + lineHeight s \<le> v2 \<longrightarrow>
        vp_completelyVisibleStartLineNumber d \<le> l \<and> l \<le> vp_completelyVisibleEndLineNumber d)"

lemma bigNumbersDelta_bounds:
  assumes "0 \<le> offset" "0 < h"
  shows "h dvd bigNumbersDelta_of offset h" "bigNumbersDelta_of offset h \<le> offset"
    "offset - bigNumbersDelta_of offset h < STEP_SIZE + h"
proof -
  define n where "n = offset div STEP_SIZE * STEP_SIZE"
  have "n + offset mod STEP_SIZE = offset" "0 \<le> offset mod STEP_SIZE" "offset mod STEP_SIZE < STEP_SIZE"
    by (simp_all add: n_def STEP_SIZE_def)
  then have n: "n \<le> offset" "offset < n + STEP_SIZE"
    by linarith+
  have "n div h * h + n mod h = n" "0 \<le> n mod h" "n mod h < h"
    using assms(2) by simp_all
  then have "n div h * h \<le> n" "n < n div h * h + h"
    by linarith+
  then show "h dvd bigNumbersDelta_of offset h" "bigNumbersDelta_of offset h \<le> offset"
    "offset - bigNumbersDelta_of offset h < STEP_SIZE + h"
    using assms n unfolding bigNumbersDelta_of_def n_def [symmetric] by auto
qed

lemma visible_lines:
  fixes T :: "int \<Rightarrow> int"
  assumes "a \<le> e" "a < e \<longrightarrow> v1 \<le> T (a + 1)" "a < e \<longrightarrow> T (e - 1) + h \<le> v2"
  defines "VS \<equiv> (if a < e \<and> T a < v1 then a + 1 else a)"
  defines "VE \<equiv> (if VS < e \<and> T e + h > v2 then e - 1 else e)"
  shows "a \<le> VS" "VS \<le> VE" "VE \<le> e" "a < e \<longrightarrow> v1 \<le> T VS" "VS < e \<longrightarrow> T VE + h \<le> v2"
    "\<forall>l. a \<le> l \<and> l \<le> e \<and> v1 \<le> T l \<and> T l + h \<le> v2 \<longrightarrow> VS \<le> l \<and> l \<le> VE"
proof -
  show "a \<le> VS" "VS \<le> VE" "VE \<le> e" "a < e \<longrightarrow> v1 \<le> T VS" "VS < e \<longrightarrow> T VE + h \<le> v2"
    using assms(1-3) by (auto simp: VS_def VE_def)
  have "VS \<le> l \<and> l \<le> VE" if l: "a \<le> l" "l \<le> e" "v1 \<le> T l" "T l + h \<le> v2" for l
  proof -
    have "l \<noteq> a" if "a < e" "T a < v1"
      using that l(3) by auto
    moreover have "l \<noteq> e" if "T e + h > v2"
      using that l(4) by auto
    ultimately show ?thesis
      using l(1,2) by (auto simp: VS_def VE_def)
  qed
  then show "\<forall>l. a \<le> l \<and> l \<le> e \<and> v1 \<le> T l \<and> T l + h \<le> v2 \<longrightarrow> VS \<le> l \<and> l \<le> VE"
    by blast
qed

text \<open>The body of the query once the first line and its marker are known.\<close>

lemma reads_viewport_tail:
  assumes "viewport_good s" "1 \<le> a" "a \<le> lineCount s" "a = line_at s v1"
  defines "delta \<equiv> bigNumbersDelta_of (line_top s a) (lineHeight s)"
  assumes "marker s (ws_count s a) v" "v_verticalOffset v = line_top s a" "v_relativeOffset v = line_top s a - delta"
    "v_linesOffsets v = []" "v_centered v = -1"
  shows "reads_sat s (\<lambda>t. bind_result (viewport_loop (lineHeight s) (v1 + v2) v2 (int (length (arr s))) (lineCount s) a v t)
      (\<lambda>(t, v, e). let centeredLineNumber = (if v_centered v = -1 then e else v_centered v) in
      bind_result (getVerticalOffsetForLineNumber e False t) (\<lambda>(t, o2).
      let endLineNumberVerticalOffset = toInt32 o2;
          visibleStart = (if a < e \<and> line_top s a < v1 then a + 1 else a);
          visibleEnd = (if visibleStart < e \<and> endLineNumberVerticalOffset + lineHeight s > v2 then e - 1 else e) in
      Inr (t, \<lparr>vp_bigNumbersDelta = delta, vp_startLineNumber = a, vp_endLineNumber = e,
               vp_relativeVerticalOffset = v_linesOffsets v, vp_centeredLineNumber = centeredLineNumber,
               vp_completelyVisibleStartLineNumber = visibleStart, vp_completelyVisibleEndLineNumber = visibleEnd\<rparr>))))
    (viewport_ok s v1 v2)"
proof -
  have g: "lay_good s" "committed s"
    using assms(1) by (auto simp: viewport_good_def lay_good_def)
  have inv: "viewport_inv s a delta (v1 + v2) a v"
    using assms by (simp add: viewport_inv_def centred_at_def)
  have delta: "lineHeight s dvd delta" "0 \<le> line_top s a - delta" "line_top s a - delta < STEP_SIZE + lineHeight s"
    using bigNumbersDelta_bounds [of "line_top s a" "lineHeight s"] line_top_bounds(1) [OF g(1) assms(2,3)] g(1)
    by (simp_all add: delta_def lay_good_def)
  note loop = reads_viewport_loop [OF assms(1,2) order_refl assms(3) inv, of v2]
  show ?thesis
    unfolding Let_def
  proof (rule reads_sat_bind [OF loop])
    show "\<forall>m. a < m \<and> m \<le> a \<longrightarrow> line_top s m < v2"
      by simp
    fix r :: "viewport_state \<times> int"
    assume r: "case r of (v', e) \<Rightarrow> a \<le> e \<and> e \<le> lineCount s \<and> viewport_inv s a delta (v1 + v2) (e + 1) v' \<and>
        (\<forall>m. a < m \<and> m \<le> e \<longrightarrow> line_top s m < v2) \<and> (e < lineCount s \<longrightarrow> v2 \<le> line_top s (e + 1))"
    obtain w e where re: "r = (w, e)"
      by force
    have w: "a \<le> e" "e \<le> lineCount s" "viewport_inv s a delta (v1 + v2) (e + 1) w"
        "\<forall>m. a < m \<and> m \<le> e \<longrightarrow> line_top s m < v2" "e < lineCount s \<longrightarrow> v2 \<le> line_top s (e + 1)"
      using r by (simp_all add: re)
    have e: "1 \<le> e" "toInt32 e = e" "toInt32 (line_top s e) = line_top s e"
      using w(1,2) assms(2) line_top_bounds(3,4) [OF g(1), of e] by auto
    have first: "a < e \<longrightarrow> v1 \<le> line_top s (a + 1)"
      using line_at_spec(4) [OF g(1), of v1] line_boxes.stacked [OF g(1) assms(2)] w(2) assms(4) by auto
    have last: "a < e \<longrightarrow> line_top s (e - 1) + lineHeight s \<le> v2"
      using line_boxes.stacked [OF g(1), of "e - 1"] w(2) spec [OF w(4), of e] assms(2) by auto
    note visible = visible_lines [OF w(1) first last]
    have centred: "centred_at s a (v1 + v2) (if v_centered w = -1 then e else v_centered w)"
        "(if v_centered w = -1 then e else v_centered w) \<le> e"
        "v1 + v2 < 2 * (line_top s (if v_centered w = -1 then e else v_centered w) + lineHeight s) \<or>
         (if v_centered w = -1 then e else v_centered w) = e"
      using w(1,3) by (auto simp: viewport_inv_def centred_at_def)
    have offsets: "v_linesOffsets w = map (\<lambda>l. line_top s l - delta) [a..e]"
      using w(3) by (simp add: viewport_inv_def)
    show "reads_sat s (\<lambda>t. case r of (v, e) \<Rightarrow> bind_result (getVerticalOffsetForLineNumber e False t) (\<lambda>(t, o2).
      Inr (t, \<lparr>vp_bigNumbersDelta = delta, vp_startLineNumber = a, vp_endLineNumber = e,
               vp_relativeVerticalOffset = v_linesOffsets v, vp_centeredLineNumber = if v_centered v = -1 then e else v_centered v,
               vp_completelyVisibleStartLineNumber = if a < e \<and> line_top s a < v1 then a + 1 else a,
               vp_completelyVisibleEndLineNumber =
                 if (if a < e \<and> line_top s a < v1 then a + 1 else a) < e \<and> toInt32 o2 + lineHeight s > v2 then e - 1 else e\<rparr>)))
      (viewport_ok s v1 v2)"
      unfolding re prod.case
      by (rule reads_sat_bind_reads [OF reads_offsets(1) [OF g(2)]], rule reads_sat_pure [OF refl])
        (unfold viewport_ok_def e linesViewportData.simps, intro conjI, (fact | simp only: assms(4))+)
  qed
qed

lemma reads_getLinesViewportData:
  assumes "viewport_good s"
  shows "reads_sat s (getLinesViewportData v1 v2) (viewport_ok s (toInt32 v1) (toInt32 v2))"
proof -
  have g: "lay_good s" and c: "committed s"
    using assms by (auto simp: viewport_good_def lay_good_def)
  define a where "a = line_at s (toInt32 v1)"
  have a: "1 \<le> a" "a \<le> lineCount s" "toInt32 a = a" "toInt32 (line_top s a) = line_top s a" "toInt32 (lineCount s) = lineCount s"
    using line_at_spec(1,2) [OF g, of "toInt32 v1"] line_top_bounds(3,4) [OF g, of a] line_top_bounds(4) [OF g, of "lineCount s"]
      lay_good_def [of s] g by (auto simp: a_def)
  let ?d = "bigNumbersDelta_of (line_top s a) (lineHeight s)"
  let ?v = "\<lambda>(i, af, h). \<lparr>v_whitespaceIndex = i, v_whitespaceAfter = af, v_whitespaceHeight = h, v_verticalOffset = line_top s a,
               v_relativeOffset = line_top s a - ?d, v_linesOffsets = [], v_centered = -1\<rparr>"
  let ?m = "(int (ws_count s a), if ws_count s a < length (arr s) then ws_afterLineNumber (arr s ! ws_count s a) else lineCount s + 1,
          if ws_count s a < length (arr s) then ws_height (arr s ! ws_count s a) else 0)"
  have "marker s (ws_count s a) (?v ?m)"
    using ws_count_le [of s a] by (simp add: marker_def)
  note tail = reads_viewport_tail [OF assms a(1,2) a_def this, of "toInt32 v2", simplified]
  have line: "reads s (getLineNumberAtOrAfterVerticalOffset (toInt32 v1)) a"
    using reads_line_at [OF g, of "toInt32 v1"] by (simp add: a_def)
  have off: "reads s (getVerticalOffsetForLineNumber a False) (line_top s a)"
    using reads_offsets(1) [OF c, of a] a(3) by simp
  have len: "getWhitespacesCount t = (t, length (arr s))" if "cache_step s t" for t
    using cache_step_check [OF c that] cache_step_fields(5) [OF that] by (simp add: getWhitespacesCount_def Let_def)
  show ?thesis
    unfolding reads_sat_def
  proof (intro allI impI)
    fix t assume t: "cache_step s t"
    obtain t1 where t1: "getLineNumberAtOrAfterVerticalOffset (toInt32 v1) t = Inr (t1, a)" "cache_step s t1"
      using line t by (auto simp: reads_def)
    obtain t2 where t2: "getVerticalOffsetForLineNumber a False t1 = Inr (t2, line_top s a)" "cache_step s t2"
      using off t1(2) by (auto simp: reads_def)
    note first = first_whitespace [OF c t2(2) a(3)]
    have i32: "toInt32 (int (ws_count s a)) = int (ws_count s a)" "toInt32 (int (length (arr s))) = int (length (arr s))"
      using ws_count_le [of s a] by (simp_all add: committed_index [OF c])
    have none: "toInt32 (-1) = -1"
      by (simp add: toInt32_def)
    note steps = i32 none t1(1) t2(1) a(3-5) first len [OF t2(2)] cache_step_check [OF c t] cache_step_fields(2) [OF t]
      cache_step_fields(1) [OF t2(2)]
    show "\<exists>t' v. getLinesViewportData v1 v2 t = Inr (t', v) \<and> cache_step s t' \<and> viewport_ok s (toInt32 v1) (toInt32 v2) v"
    proof (cases "ws_count s a < length (arr s)")
      case True
      then obtain t3 where "bind_result (getAfterLineNumberForWhitespaceIndex (int (ws_count s a)) t2) (\<lambda>(t, b).
          bind_result (getHeightForWhitespaceIndex (int (ws_count s a)) t) (\<lambda>(t, h).
            Inr (t, int (ws_count s a), toInt32 b, toInt32 h))) = Inr (t3, ?m)" "cache_step s t3"
        using reads_first_marker [OF assms, of a] t2(2) unfolding reads_def by auto
      then show ?thesis
        using True tail [unfolded reads_sat_def, rule_format, of t3]
        by (simp add: getLinesViewportData_def Let_def steps cong: if_cong)
    next
      case False
      then have "int (length (arr s)) = int (ws_count s a)"
        using ws_count_le [of s a] by simp
      then show ?thesis
        using False tail [unfolded reads_sat_def, rule_format, OF t2(2)]
        by (simp add: getLinesViewportData_def Let_def steps cong: if_cong)
    qed
  qed
qed

section \<open>The whitespace under an offset\<close>

lemma reads_getWhitespaceAtVerticalOffset:
  assumes "lay_good s"
  shows "reads s (getWhitespaceAtVerticalOffset v)
           (let i = whitespace_at s (toInt32 v) in
            if i = -1 \<or> whitespace_top s i > toInt32 v then None else Some (vw_of s i))"
  unfolding reads_def
proof (intro allI impI)
  let ?i = "whitespace_at s (toInt32 v)"
  fix t assume t: "cache_step s t"
  have c: "committed s"
    using assms by (rule lay_good_committed)
  obtain t1 where t1: "getWhitespaceIndexAtOrAfterVerticallOffset (toInt32 v) t = Inr (t1, ?i)" "cache_step s t1"
    using reads_whitespace_at [OF assms, of "toInt32 v"] t by (auto simp: reads_def)
  have len: "snd (getWhitespacesCount t1) = length (arr s)"
    using cache_step_check [OF c t1(2)] cache_step_fields(5) [OF t1(2)] by (simp add: getWhitespacesCount_def Let_def)
  note steps = getWhitespaceAtVerticalOffset_def Let_def t1(1) len cache_step_check [OF c t]
  show "\<exists>t'. getWhitespaceAtVerticalOffset v t = Inr (t',
      let i = whitespace_at s (toInt32 v) in
      if i = -1 \<or> whitespace_top s i > toInt32 v then None else Some (vw_of s i)) \<and> cache_step s t'"
  proof (cases "?i = -1")
    case True
    then show ?thesis
      using t1(2) by (simp add: steps)
  next
    case False
    then have i: "0 \<le> ?i" "?i < int (length (arr s))"
      using whitespace_at_spec(2) [OF assms] by auto
    obtain t2 where t2: "getVerticalOffsetForWhitespaceIndex ?i t1 = Inr (t2, whitespace_top s ?i)" "cache_step s t2"
      using reads_whitespace_top [OF c i] t1(2) by (auto simp: reads_def)
    obtain t3 where t3: "getHeightForWhitespaceIndex ?i t2 = Inr (t3, ws_height (arr s ! nat ?i))" "cache_step s t3"
      using reads_index(3) [OF c i] t2(2) by (auto simp: reads_def)
    obtain t4 where t4: "getIdForWhitespaceIndex ?i t3 = Inr (t4, ws_id (arr s ! nat ?i))" "cache_step s t4"
      using reads_index(1) [OF c i] t3(2) by (auto simp: reads_def)
    obtain t5 where t5: "getAfterLineNumberForWhitespaceIndex ?i t4 = Inr (t5, ws_afterLineNumber (arr s ! nat ?i))" "cache_step s t5"
      using reads_index(2) [OF c i] t4(2) by (auto simp: reads_def)
    show ?thesis
      using i False t2 t3 t4 t5 by (simp add: steps vw_of_def)
  qed
qed

section \<open>Queries and pending changes\<close>

text \<open>Every query first commits what is pending, so it answers for the committed layout.\<close>

lemma query_run:
  assumes "committed (checkPendingChanges s)" "reads (checkPendingChanges s) f v"
    and "f (checkPendingChanges s) = f s"
  shows "\<exists>s'. f s = Inr (s', v) \<and> cache_step (checkPendingChanges s) s'"
  using reads_run [OF assms(1,2)] assms(3) by simp

lemma queries_commit:
  assumes "committed (checkPendingChanges s)"
  shows "getVerticalOffsetForLineNumber l b (checkPendingChanges s) = getVerticalOffsetForLineNumber l b s"
    "getVerticalOffsetAfterLineNumber l b (checkPendingChanges s) = getVerticalOffsetAfterLineNumber l b s"
    "getVerticalOffsetForWhitespaceIndex i (checkPendingChanges s) = getVerticalOffsetForWhitespaceIndex i s"
    "getLinesTotalHeight (checkPendingChanges s) = getLinesTotalHeight s"
    "getLineNumberAtOrAfterVerticalOffset v (checkPendingChanges s) = getLineNumberAtOrAfterVerticalOffset v s"
    "getWhitespaceAtVerticalOffset v (checkPendingChanges s) = getWhitespaceAtVerticalOffset v s"
    "getWhitespaceViewportData v w (checkPendingChanges s) = getWhitespaceViewportData v w s"
    "getLinesViewportData v w (checkPendingChanges s) = getLinesViewportData v w s"
  by (simp_all only: getVerticalOffsetForLineNumber_def getVerticalOffsetAfterLineNumber_def getVerticalOffsetForWhitespaceIndex_def
      getLinesTotalHeight_def getLineNumberAtOrAfterVerticalOffset_def getWhitespaceAtVerticalOffset_def
      getWhitespaceViewportData_def getLinesViewportData_def committed_check [OF assms])

lemma sample_good: "viewport_good (checkPendingChanges sample_layout)" "lay_good (checkPendingChanges sample_layout)"
proof -
  have "lay_inv (checkPendingChanges sample_layout)" "pending (checkPendingChanges sample_layout) = new_PendingChanges"
    using lay_reachable_inv [OF sample_reachable] by simp_all
  moreover have "length (arr (checkPendingChanges sample_layout)) = 1"
    using arg_cong [OF sample_fields(2), of length] by simp
  ultimately show g: "lay_good (checkPendingChanges sample_layout)"
    using sample_fields sample_commit(2-) by (simp add: lay_good_def committed_def del: set_map)
  obtain w where "arr (checkPendingChanges sample_layout) = [w]" "ws_afterLineNumber w = 3"
    using sample_fields(1) by auto
  with g show "viewport_good (checkPendingChanges sample_layout)"
    by (simp add: viewport_good_def int32_range_def)
qed

lemma takeWhile_sorted_filter:
  fixes c :: int
  assumes "sorted (map f xs)"
  shows "takeWhile (\<lambda>x. f x < c) xs = filter (\<lambda>x. f x < c) xs"
  using assms
proof (induction xs)
  case (Cons x xs)
  have "filter (\<lambda>x. f x < c) xs = []" if "\<not> f x < c"
    using Cons.prems that by (auto simp: filter_empty_conv)
  with Cons show ?case
    by auto
qed simp

lemma whitespace_tops_sorted:
  assumes "lay_good s" "0 \<le> i"
  shows "sorted (map (whitespace_top s) [i..int (length (arr s)) - 1])"
proof -
  have "whitespace_top s a \<le> whitespace_top s b" if "i \<le> a" "a < b" "b \<le> int (length (arr s)) - 1" for a b
    using whitespace_boxes.bottom_le_top [OF assms(1), of a b] whitespace_boxes.height_nonneg [OF assms(1), of a] that assms(2)
    by fastforce
  then show ?thesis
    by (simp add: sorted_map sorted_wrt_iff_nth_less)
qed

lemma filter_viewport:
  assumes "lay_good s" "whitespace_at s v \<noteq> -1"
  shows "filter (\<lambda>i. v < whitespace_bottom s i \<and> whitespace_top s i < v2) [0..int (length (arr s)) - 1] =
         takeWhile (\<lambda>i. whitespace_top s i < v2) [whitespace_at s v..int (length (arr s)) - 1]"
proof -
  let ?k = "whitespace_at s v" and ?n = "int (length (arr s)) - 1"
  have k: "0 \<le> ?k" "?k \<le> ?n" "v < whitespace_bottom s ?k" "\<forall>i. 0 \<le> i \<and> i < ?k \<longrightarrow> whitespace_bottom s i \<le> v"
    using whitespace_at_spec(2) [OF assms] by auto
  have above: "v < whitespace_bottom s i" if "?k \<le> i" "i \<le> ?n" for i
    using whitespace_boxes.bottom_le_top [OF assms(1) k(1), of i] whitespace_boxes.height_nonneg [OF assms(1), of i] that k
    by (cases "i = ?k") auto
  have split: "[0..?n] = [0..?k - 1] @ [?k..?n]"
    using k upto_split1 [of 0 ?k ?n] by simp
  have "filter (\<lambda>i. v < whitespace_bottom s i \<and> whitespace_top s i < v2) [0..?k - 1] = []"
    using k(4) by (fastforce simp: filter_empty_conv)
  moreover have "filter (\<lambda>i. v < whitespace_bottom s i \<and> whitespace_top s i < v2) [?k..?n] = filter (\<lambda>i. whitespace_top s i < v2) [?k..?n]"
    by (rule filter_cong [OF refl]) (use above in auto)
  ultimately show ?thesis
    by (simp add: split takeWhile_sorted_filter [OF whitespace_tops_sorted [OF assms(1) k(1)]])
qed

section \<open>Properties\<close>

text \<open>
  Vertical offsets.  Pending changes are committed first; then the offset of a line is the top
  padding, the height of the lines above it and the heights of exactly the whitespaces that lie
  after a line above it; the offset after a line adds the line itself; and the total height adds up
  the lines, all whitespaces and both paddings.  A query changes nothing but the cache.
\<close>

theorem LinesLayout_vertical_offsets:
  assumes "lay_good (checkPendingChanges s)" "1 \<le> l" "l \<le> lineCount (checkPendingChanges s)"
  defines "c \<equiv> checkPendingChanges s"
  shows "(\<exists>s'. getVerticalOffsetForLineNumber l False s =
             Inr (s', paddingTop c + lineHeight c * (l - 1) + (\<Sum>w \<leftarrow> filter (\<lambda>w. ws_afterLineNumber w < l) (arr c). ws_height w)) \<and>
           cache_step c s') \<and>
         (\<exists>s'. getVerticalOffsetAfterLineNumber l False s =
             Inr (s', paddingTop c + lineHeight c * l + (\<Sum>w \<leftarrow> filter (\<lambda>w. ws_afterLineNumber w < l) (arr c). ws_height w)) \<and>
           cache_step c s') \<and>
         (\<exists>s'. getLinesTotalHeight s =
             Inr (s', paddingTop c + lineHeight c * lineCount c + (\<Sum>w \<leftarrow> arr c. ws_height w) + paddingBottom c) \<and>
           cache_step c s')"
proof -
  have c: "committed (checkPendingChanges s)"
    using assms(1) by (rule lay_good_committed)
  have l: "toInt32 l = l"
    using line_top_bounds(4) [OF assms(1-3)] .
  have top: "line_top c l = paddingTop c + lineHeight c * (l - 1) + (\<Sum>w \<leftarrow> filter (\<lambda>w. ws_afterLineNumber w < l) (arr c). ws_height w)"
    using assms(2) by (auto simp: line_top_def whitespace_before_def)
  show ?thesis
    using query_run [OF c reads_offsets(1) [OF c, of l] queries_commit(1) [OF c]]
      query_run [OF c reads_offsets(3) [OF c, of l] queries_commit(2) [OF c]]
      query_run [OF c reads_total(2) [OF c] queries_commit(4) [OF c]]
    unfolding l c_def [symmetric] top by (simp add: whitespace_before_def algebra_simps)
qed

theorem LinesLayout_vertical_offsets_witness:
  "\<exists>s'. getVerticalOffsetForLineNumber 5 False sample_layout = Inr (s', 92)"
proof -
  obtain w where w: "arr (checkPendingChanges sample_layout) = [w]" "ws_afterLineNumber w = 3" "ws_height w = 7"
    using sample_fields by auto
  show ?thesis
    using LinesLayout_vertical_offsets [OF sample_good(2), of 5] by (auto simp: sample_commit(2-) w)
qed

text \<open>
  \<open>getLineNumberAtOrAfterVerticalOffset\<close>: the binary search returns a line of the model; every
  line above it ends at or before the offset, and unless it is the last line the offset lies before
  its bottom.  So an offset inside a line gives that line, and an offset inside a whitespace gives
  the line below it.
\<close>

theorem getLineNumberAtOrAfterVerticalOffset_correct:
  assumes "lay_good (checkPendingChanges s)" "int32_range v"
  defines "c \<equiv> checkPendingChanges s"
  shows "\<exists>s' l. getLineNumberAtOrAfterVerticalOffset v s = Inr (s', l) \<and> cache_step c s' \<and> 1 \<le> l \<and> l \<le> lineCount c \<and>
           (0 \<le> v \<longrightarrow> (\<forall>k. 1 \<le> k \<and> k < l \<longrightarrow> line_top c k + lineHeight c \<le> v)) \<and>
           (l < lineCount c \<longrightarrow> v < line_top c l + lineHeight c) \<and>
           (\<forall>k. 1 \<le> k \<and> k \<le> lineCount c \<and> line_top c k \<le> v \<and> v < line_top c k + lineHeight c \<longrightarrow> l = k)"
proof -
  have com: "committed (checkPendingChanges s)"
    using assms(1) by (rule lay_good_committed)
  have g: "lay_good c" and v: "toInt32 v = v"
    using assms by simp_all
  note l = line_at_spec [OF g, of v]
  have "line_at c v = k" if k: "1 \<le> k" "k \<le> lineCount c" "line_top c k \<le> v" "v < line_top c k + lineHeight c" for k
  proof (rule linorder_cases [of "line_at c v" k])
    assume "line_at c v < k"
    then show ?thesis
      using l(4) k line_boxes.bottom_le_top [OF g l(1), of k] by simp
  next
    assume "k < line_at c v"
    then show ?thesis
      using l(3) [of k] k line_top_bounds(1) [OF g k(1,2)] by simp
  qed
  moreover obtain s' where "getLineNumberAtOrAfterVerticalOffset v s = Inr (s', line_at c v)" "cache_step c s'"
    using query_run [OF com reads_line_at [OF assms(1), of v] queries_commit(5) [OF com]] v by (auto simp: c_def)
  ultimately show ?thesis
    using l by blast
qed

theorem getLineNumberAtOrAfterVerticalOffset_correct_witness:
  "\<exists>s'. getLineNumberAtOrAfterVerticalOffset 64 sample_layout = Inr (s', 3)"
proof -
  obtain w where w: "arr (checkPendingChanges sample_layout) = [w]" "ws_afterLineNumber w = 3" "ws_height w = 7"
    using sample_fields by auto
  have "line_top (checkPendingChanges sample_layout) 3 = 45"
    by (simp add: line_top_def whitespace_before_def w sample_commit(2-))
  moreover obtain s' l where "getLineNumberAtOrAfterVerticalOffset 64 sample_layout = Inr (s', l)"
    "\<forall>k. 1 \<le> k \<and> k \<le> 10 \<and> line_top (checkPendingChanges sample_layout) k \<le> 64 \<and>
         64 < line_top (checkPendingChanges sample_layout) k + 20 \<longrightarrow> l = k"
    using getLineNumberAtOrAfterVerticalOffset_correct [OF sample_good(2), of 64]
    by (auto simp: sample_commit(2-) int32_range_def)
  ultimately show ?thesis
    by (auto dest: spec [of _ 3])
qed

text \<open>
  \<open>getWhitespaceAtVerticalOffset\<close> returns the whitespace that contains the offset, and \<open>null\<close> only when
  no whitespace contains it.
\<close>

theorem getWhitespaceAtVerticalOffset_correct:
  assumes "lay_good (checkPendingChanges s)" "int32_range v"
  defines "c \<equiv> checkPendingChanges s"
  shows "\<exists>s' r. getWhitespaceAtVerticalOffset v s = Inr (s', r) \<and> cache_step c s' \<and>
           (case r of
              Some d \<Rightarrow> \<exists>i. 0 \<le> i \<and> i < int (length (arr c)) \<and> d = vw_of c i \<and>
                         vw_verticalOffset d \<le> v \<and> v < vw_verticalOffset d + vw_height d
            | None \<Rightarrow> \<forall>i. 0 \<le> i \<and> i < int (length (arr c)) \<longrightarrow>
                         \<not> (whitespace_top c i \<le> v \<and> v < whitespace_top c i + ws_height (arr c ! nat i)))"
proof -
  have com: "committed (checkPendingChanges s)"
    using assms(1) by (rule lay_good_committed)
  have g: "lay_good c" and v: "toInt32 v = v"
    using assms by simp_all
  let ?i = "whitespace_at c v"
  note at1 = whitespace_at_spec(1) [OF g, of v] and at2 = whitespace_at_spec(2) [OF g, of v]
  have none: "\<not> (whitespace_top c k \<le> v \<and> v < whitespace_bottom c k)"
    if "?i \<noteq> -1" "v < whitespace_top c ?i" "0 \<le> k" "k < int (length (arr c))" for k
  proof (cases "k < ?i")
    case False
    then have "whitespace_top c ?i \<le> whitespace_top c k"
      using whitespace_boxes.bottom_le_top [OF g, of ?i k] whitespace_boxes.height_nonneg [OF g, of ?i] at2 that
      by (cases "k = ?i") auto
    with that show ?thesis
      by simp
  qed (use at2 that in force)
  obtain s' where s': "getWhitespaceAtVerticalOffset v s =
      Inr (s', if ?i = -1 \<or> whitespace_top c ?i > v then None else Some (vw_of c ?i))" "cache_step c s'"
    using query_run [OF com reads_getWhitespaceAtVerticalOffset [OF assms(1), of v] queries_commit(6) [OF com]] v
    by (auto simp: c_def Let_def)
  show ?thesis
  proof (cases "?i = -1 \<or> whitespace_top c ?i > v")
    case True
    then have "\<not> (whitespace_top c k \<le> v \<and> v < whitespace_bottom c k)" if "0 \<le> k" "k < int (length (arr c))" for k
      using none at1 that by fastforce
    with s' True show ?thesis
      by auto
  next
    case False
    then show ?thesis
      using s' at2 by (auto simp: vw_of_def intro!: exI [of _ ?i])
  qed
qed

theorem getWhitespaceAtVerticalOffset_correct_witness:
  "\<exists>s' d. getWhitespaceAtVerticalOffset 70 sample_layout = Inr (s', Some d) \<and> vw_height d = 7"
proof -
  let ?c = "checkPendingChanges sample_layout"
  obtain w where w: "arr ?c = [w]" "ws_afterLineNumber w = 3" "ws_height w = 7"
    using sample_fields by auto
  have t: "whitespace_top ?c 0 = 65"
    by (simp add: whitespace_top_def w sample_commit(2-) prefix_total_def)
  obtain s' r where r: "getWhitespaceAtVerticalOffset 70 sample_layout = Inr (s', r)"
      "case r of
              Some d \<Rightarrow> \<exists>i. 0 \<le> i \<and> i < int (length (arr ?c)) \<and> d = vw_of ?c i \<and>
                         vw_verticalOffset d \<le> 70 \<and> 70 < vw_verticalOffset d + vw_height d
            | None \<Rightarrow> \<forall>i. 0 \<le> i \<and> i < int (length (arr ?c)) \<longrightarrow>
                         \<not> (whitespace_top ?c i \<le> 70 \<and> 70 < whitespace_top ?c i + ws_height (arr ?c ! nat i))"
    using getWhitespaceAtVerticalOffset_correct [OF sample_good(2), of 70] by (auto simp: int32_range_def)
  then show ?thesis
    using t by (cases r) (auto simp: w vw_of_def dest: spec [of _ 0])
qed

text \<open>
  \<open>getWhitespaceViewportData\<close> returns exactly the whitespaces that reach into the viewport, that is
  those whose bottom lies below its top edge and whose top lies above its bottom edge, in order and
  with their offsets.
\<close>

theorem getWhitespaceViewportData_exact:
  assumes "lay_good (checkPendingChanges s)" "int32_range v1" "int32_range v2"
  defines "c \<equiv> checkPendingChanges s"
  shows "\<exists>s'. getWhitespaceViewportData v1 v2 s =
           Inr (s', map (vw_of c)
             (filter (\<lambda>i. v1 < whitespace_top c i + ws_height (arr c ! nat i) \<and> whitespace_top c i < v2)
                [0..int (length (arr c)) - 1])) \<and> cache_step c s'"
proof -
  have com: "committed (checkPendingChanges s)"
    using assms(1) by (rule lay_good_committed)
  have g: "lay_good c" and v: "toInt32 v1 = v1" "toInt32 v2 = v2"
    using assms by simp_all
  have "filter (\<lambda>i. v1 < whitespace_bottom c i \<and> whitespace_top c i < v2) [0..int (length (arr c)) - 1] =
        (if whitespace_at c v1 < 0 then [] else takeWhile (\<lambda>i. whitespace_top c i < v2) [whitespace_at c v1..int (length (arr c)) - 1])"
    using filter_viewport [OF g, of v1 v2] whitespace_at_spec [OF g, of v1]
    by (cases "whitespace_at c v1 = -1") (auto simp: filter_empty_conv leD)
  then show ?thesis
    using query_run [OF com reads_getWhitespaceViewportData [OF assms(1), of v1 v2] queries_commit(7) [OF com]] v
    by (auto simp: c_def split: if_splits)
qed

theorem getWhitespaceViewportData_exact_witness:
  "\<exists>s'. getWhitespaceViewportData 0 65 sample_layout = Inr (s', [])"
proof -
  obtain w where w: "arr (checkPendingChanges sample_layout) = [w]" "ws_afterLineNumber w = 3" "ws_height w = 7"
    using sample_fields by auto
  have "whitespace_top (checkPendingChanges sample_layout) 0 = 65"
    by (simp add: whitespace_top_def w sample_commit(2-) prefix_total_def)
  then show ?thesis
    using getWhitespaceViewportData_exact [OF sample_good(2), of 0 65] by (auto simp: w int32_range_def)
qed

text \<open>
  C38. \<open>getLinesViewportData\<close>, on a layout with at least one line, a positive line height, no negative
  heights or top padding, fewer than $2^{31}$ whitespaces, a total height below $2^{31}$ and 32-bit
  line numbers of the whitespaces, for 32-bit offsets: the rendered block of lines starts at the line at
  or after the top edge, stays within the model, and is just long enough: every later line of it starts
  above the bottom edge and the line after it, if any, does not.  The relative offsets it returns are
  the offsets of these lines minus \<open>bigNumbersDelta\<close>, a multiple of the line height that keeps the first
  of them between 0 and \<open>STEP_SIZE\<close> plus a line.  The centred line is the first one of the block whose
  bottom lies below the centre of the viewport, or else the last one.  What is reported as completely
  visible is, unless the block is too short, and every line of the block that is completely visible is reported.
\<close>

theorem getLinesViewportData_correct:
  assumes "viewport_good (checkPendingChanges s)" "int32_range v1" "int32_range v2"
  shows "\<exists>s' d. getLinesViewportData v1 v2 s = Inr (s', d) \<and> cache_step (checkPendingChanges s) s' \<and>
           viewport_ok (checkPendingChanges s) v1 v2 d"
proof -
  have c: "committed (checkPendingChanges s)"
    using assms(1) by (simp add: viewport_good_def lay_good_def)
  then show ?thesis
    using reads_getLinesViewportData [OF assms(1), of v1 v2] cache_step_refl [OF c] assms(2,3)
    unfolding reads_sat_def queries_commit(8) [OF c, symmetric] by auto
qed

theorem getLinesViewportData_correct_witness:
  "\<exists>s' d. getLinesViewportData 60 100 sample_layout = Inr (s', d) \<and> vp_centeredLineNumber d = 4"
proof -
  let ?c = "checkPendingChanges sample_layout"
  obtain w where w: "arr ?c = [w]" "ws_afterLineNumber w = 3" "ws_height w = 7"
    using sample_fields by auto
  have top: "line_top ?c 1 = 5" "line_top ?c 2 = 25" "line_top ?c 3 = 45" "line_top ?c 4 = 72"
    by (simp_all add: line_top_def whitespace_before_def w sample_commit(2-))
  obtain s' d where d: "getLinesViewportData 60 100 sample_layout = Inr (s', d)" "viewport_ok ?c 60 100 d"
    using getLinesViewportData_correct [OF sample_good(1), of 60 100] by (auto simp: int32_range_def)
  note at = line_at_spec [OF sample_good(2), of 60]
  have "\<not> 3 < line_at ?c 60"
    using at(3) [of 3] top sample_commit(3) by auto
  moreover have "line_at ?c 60 \<noteq> 1" "line_at ?c 60 \<noteq> 2"
    using at(4) top sample_commit(2,3) by auto
  ultimately have start: "vp_startLineNumber d = 3"
    using at(1) d(2) by (auto simp: viewport_ok_def)
  have ends: "vp_endLineNumber d < 10 \<longrightarrow> 100 \<le> line_top ?c (vp_endLineNumber d + 1)"
      "120 + 40 < 2 * (line_top ?c (vp_centeredLineNumber d) + 20) \<or> vp_centeredLineNumber d = vp_endLineNumber d"
      "centred_at ?c 3 160 (vp_centeredLineNumber d)"
    using d(2) by (simp_all add: viewport_ok_def start sample_commit(2,3))
  have "vp_centeredLineNumber d \<noteq> 3"
  proof
    assume c: "vp_centeredLineNumber d = 3"
    show False
      using ends(1,2) top(3,4) unfolding c by auto
  qed
  moreover have "3 \<le> vp_centeredLineNumber d" "\<not> 4 < vp_centeredLineNumber d"
    using ends(3) top(4) sample_commit(3) by (auto simp: centred_at_def dest: spec [of _ 4])
  ultimately have "vp_centeredLineNumber d = 4"
    by linarith
  then show ?thesis
    using d(1) by blast
qed

end
