(* ===== verification/Vs_Buffer.thy ===== *)
theory Vs_Buffer
  imports Prelude
begin

text \<open>
  Byte buffers, \<open>vs/base/common/buffer.ts\<close>: \<open>VSBuffer\<close> with its copies and views, the unsigned integer
  accessors in both byte orders and the Boyer-Moore-Horspool search \<open>binaryIndexOf\<close>.

  A buffer is the list of its bytes.  \<open>alloc\<close> returns memory with arbitrary contents under Node
  (\<open>Buffer.allocUnsafe\<close>) and zeros elsewhere; the contents of fresh memory are the parameter \<open>fresh\<close>
  of every operation that allocates, and the lemmas show that no result depends on it.
  A store into a \<open>Uint8Array\<close> keeps the value modulo 256, which is \<open>word_of_int\<close>, and ignores an index
  out of range, which is list update.  Reading out of range yields \<open>undefined\<close>, here \<open>None\<close>.
\<close>

type_synonym byte = "8 word"
type_synonym bytes = "byte list"

section \<open>Buffers\<close>

definition VSBuffer_alloc :: "(nat \<Rightarrow> byte) \<Rightarrow> nat \<Rightarrow> bytes" where
  "VSBuffer_alloc fresh n = map fresh [0..<n]"

definition VSBuffer_set :: "bytes \<Rightarrow> nat \<Rightarrow> bytes \<Rightarrow> js_error + bytes" where
  "VSBuffer_set source offset dest =
     (if offset + length source \<le> length dest
      then Inr (take offset dest @ source @ drop (offset + length source) dest) else Inl RangeError)"

fun fromByteArray_loop :: "int list \<Rightarrow> nat \<Rightarrow> bytes \<Rightarrow> bytes" where
  "fromByteArray_loop [] i result = result"
| "fromByteArray_loop (x # source) i result = fromByteArray_loop source (i + 1) (result[i := word_of_int x])"

definition VSBuffer_fromByteArray :: "(nat \<Rightarrow> byte) \<Rightarrow> int list \<Rightarrow> bytes" where
  "VSBuffer_fromByteArray fresh source = fromByteArray_loop source 0 (VSBuffer_alloc fresh (length source))"

fun concat_loop :: "bytes list \<Rightarrow> nat \<Rightarrow> bytes \<Rightarrow> js_error + bytes" where
  "concat_loop [] offset ret = Inr ret"
| "concat_loop (element # buffers) offset ret =
     bind_result (VSBuffer_set element offset ret) (concat_loop buffers (offset + length element))"

definition VSBuffer_concat :: "(nat \<Rightarrow> byte) \<Rightarrow> bytes list \<Rightarrow> nat option \<Rightarrow> js_error + bytes" where
  "VSBuffer_concat fresh buffers totalLength =
     (let n = (case totalLength of None \<Rightarrow> sum_list (map length buffers) | Some n \<Rightarrow> n) in
      concat_loop buffers 0 (VSBuffer_alloc fresh n))"

definition VSBuffer_clone :: "(nat \<Rightarrow> byte) \<Rightarrow> bytes \<Rightarrow> js_error + bytes" where
  "VSBuffer_clone fresh b = VSBuffer_set b 0 (VSBuffer_alloc fresh (length b))"

text \<open>\<open>subarray\<close>: a negative index counts from the end, and both are clamped to the buffer.\<close>

definition subarray_index :: "nat \<Rightarrow> int \<Rightarrow> nat" where
  "subarray_index n k = (if k < 0 then nat (int n + k) else min (nat k) n)"

definition VSBuffer_slice :: "int option \<Rightarrow> int option \<Rightarrow> bytes \<Rightarrow> bytes" where
  "VSBuffer_slice start stop b =
     (let i = (case start of None \<Rightarrow> 0 | Some k \<Rightarrow> subarray_index (length b) k);
          j = (case stop of None \<Rightarrow> length b | Some k \<Rightarrow> subarray_index (length b) k)
      in take (j - i) (drop i b))"

section \<open>Integers in buffers\<close>

definition byte_at :: "bytes \<Rightarrow> nat \<Rightarrow> int option" where
  "byte_at source i = (if i < length source then Some (uint (source ! i)) else None)"

text \<open>An arithmetic operation on \<open>undefined\<close> yields \<open>NaN\<close>, here \<open>None\<close>; a bitwise one reads it as 0.\<close>

definition bits_at :: "bytes \<Rightarrow> nat \<Rightarrow> int" where
  "bits_at source i = (case byte_at source i of None \<Rightarrow> 0 | Some x \<Rightarrow> x)"

definition readUInt16LE :: "bytes \<Rightarrow> nat \<Rightarrow> int" where
  "readUInt16LE source offset =
     toInt32 (or (u32 (push_bit 0 (bits_at source (offset + 0)))) (u32 (push_bit 8 (bits_at source (offset + 1)))))"

definition writeUInt16LE :: "bytes \<Rightarrow> int \<Rightarrow> nat \<Rightarrow> bytes" where
  "writeUInt16LE dest val offset =
     (let dest = dest[offset + 0 := word_of_int (and val 255)];
          val = drop_bit 8 (u32 val);
          dest = dest[offset + 1 := word_of_int (and val 255)] in dest)"

definition readUInt32BE :: "bytes \<Rightarrow> nat \<Rightarrow> int option" where
  "readUInt32BE source offset =
     (case (byte_at source offset, byte_at source (offset + 1), byte_at source (offset + 2), byte_at source (offset + 3)) of
        (Some a, Some b, Some c, Some d) \<Rightarrow> Some (a * 2 ^ 24 + b * 2 ^ 16 + c * 2 ^ 8 + d)
      | _ \<Rightarrow> None)"

definition writeUInt32BE :: "bytes \<Rightarrow> int \<Rightarrow> nat \<Rightarrow> bytes" where
  "writeUInt32BE dest val offset =
     (let dest = dest[offset + 3 := word_of_int val]; val = drop_bit 8 (u32 val);
          dest = dest[offset + 2 := word_of_int val]; val = drop_bit 8 (u32 val);
          dest = dest[offset + 1 := word_of_int val]; val = drop_bit 8 (u32 val);
          dest = dest[offset := word_of_int val] in dest)"

definition readUInt32LE :: "bytes \<Rightarrow> nat \<Rightarrow> int" where
  "readUInt32LE source offset =
     toInt32 (or (or (or (u32 (push_bit 0 (bits_at source (offset + 0)))) (u32 (push_bit 8 (bits_at source (offset + 1)))))
                     (u32 (push_bit 16 (bits_at source (offset + 2)))))
                 (u32 (push_bit 24 (bits_at source (offset + 3)))))"

definition writeUInt32LE :: "bytes \<Rightarrow> int \<Rightarrow> nat \<Rightarrow> bytes" where
  "writeUInt32LE dest val offset =
     (let dest = dest[offset + 0 := word_of_int (and val 255)]; val = drop_bit 8 (u32 val);
          dest = dest[offset + 1 := word_of_int (and val 255)]; val = drop_bit 8 (u32 val);
          dest = dest[offset + 2 := word_of_int (and val 255)]; val = drop_bit 8 (u32 val);
          dest = dest[offset + 3 := word_of_int (and val 255)] in dest)"

definition readUInt8 :: "bytes \<Rightarrow> nat \<Rightarrow> int option" where
  "readUInt8 source offset = byte_at source offset"

definition writeUInt8 :: "bytes \<Rightarrow> int \<Rightarrow> nat \<Rightarrow> bytes" where
  "writeUInt8 dest val offset = dest[offset := word_of_int val]"

section \<open>Search\<close>

text \<open>The shift table is a \<open>Uint8Array\<close>, so it holds the distances modulo 256.\<close>

fun shift_table_loop :: "bytes \<Rightarrow> nat \<Rightarrow> bytes \<Rightarrow> (byte \<Rightarrow> byte) \<Rightarrow> byte \<Rightarrow> byte" where
  "shift_table_loop needle i [] table = table"
| "shift_table_loop needle i (x # rest) table =
     shift_table_loop needle (i + 1) rest (table(x := word_of_int (int (length needle) - int i - 1)))"

definition shift_table :: "bytes \<Rightarrow> byte \<Rightarrow> byte" where
  "shift_table needle = shift_table_loop needle 0 needle (\<lambda>_. word_of_int (int (length needle)))"

partial_function (option) horspool_loop :: "bytes \<Rightarrow> bytes \<Rightarrow> (byte \<Rightarrow> byte) \<Rightarrow> nat \<Rightarrow> nat \<Rightarrow> int option" where
  "horspool_loop haystack needle table i j =
     (if i < length haystack then
        if j < length needle \<and> haystack ! i = needle ! j then
          if j = 0 then Some (int i) else horspool_loop haystack needle table (i - 1) (j - 1)
        else horspool_loop haystack needle table
               (nat (int i + max (int (length needle) - int j) (uint (table (haystack ! i))))) (length needle - 1)
      else Some (-1))"

definition js_indexOf :: "bytes \<Rightarrow> byte \<Rightarrow> int" where
  "js_indexOf xs x = (let i = length (takeWhile (\<lambda>y. y \<noteq> x) xs) in if i < length xs then int i else -1)"

definition binaryIndexOf :: "bytes \<Rightarrow> bytes \<Rightarrow> nat \<Rightarrow> int option" where
  "binaryIndexOf haystack needle offset =
     (let needleLen = length needle; haystackLen = length haystack in
      if needleLen = 0 then Some 0
      else if needleLen = 1 then Some (js_indexOf haystack (needle ! 0))
      else if int needleLen > int haystackLen - int offset then Some (-1)
      else let i = offset + needleLen - 1 in horspool_loop haystack needle (shift_table needle) i i)"

section \<open>Copies\<close>

lemma length_alloc [simp]: "length (VSBuffer_alloc fresh n) = n"
  by (simp add: VSBuffer_alloc_def)

lemma concat_loop_fill:
  "length pre = offset \<Longrightarrow> length junk = sum_list (map length buffers) \<Longrightarrow>
   concat_loop buffers offset (pre @ junk) = Inr (pre @ concat buffers)"
proof (induction buffers arbitrary: pre offset junk)
  case (Cons b buffers)
  then have "concat_loop buffers (offset + length b) ((pre @ b) @ drop (length b) junk) = Inr ((pre @ b) @ concat buffers)"
    by (intro Cons.IH) simp_all
  with Cons.prems show ?case
    by (simp add: VSBuffer_set_def)
qed simp

lemma concat_exact [simp]:
  "VSBuffer_concat fresh buffers None = Inr (concat buffers)"
  "n = sum_list (map length buffers) \<Longrightarrow> VSBuffer_concat fresh buffers (Some n) = Inr (concat buffers)"
  using concat_loop_fill [of "[]" 0 "VSBuffer_alloc fresh (sum_list (map length buffers))" buffers]
  by (simp_all add: VSBuffer_concat_def Let_def)

lemma concat_too_small:
  "length ret < offset + sum_list (map length buffers) \<Longrightarrow> offset \<le> length ret \<Longrightarrow> concat_loop buffers offset ret = Inl RangeError"
  by (induction buffers arbitrary: offset ret) (auto simp: VSBuffer_set_def)

lemma slice_basic [simp]:
  "VSBuffer_slice (Some 0) (Some (int n)) b = take n b"
  "VSBuffer_slice (Some (int n)) None b = drop n b"
  by (simp_all add: VSBuffer_slice_def subarray_index_def min_def)

section \<open>Integer round trips\<close>

lemma or_push_bit:
  fixes a b :: int
  assumes "0 \<le> a" "a < 2 ^ n"
  shows "or a (push_bit n b) = a + b * 2 ^ n"
proof -
  have a: "take_bit n a = a"
    using assms by (simp add: take_bit_int_eq_self)
  have "and a (push_bit n b) = 0"
    by (subst a [symmetric]) (auto intro!: bit_eqI simp: bit_simps)
  then show ?thesis
    using disjunctive_add_eq_or [of a "push_bit n b"] by (simp add: push_bit_eq_mult)
qed

lemma and_255 [simp]: "and (x :: int) 255 = x mod 256"
  using take_bit_eq_mask [of 8 x] by (simp add: take_bit_eq_mod mask_eq_exp_minus_1)

lemma uint_byte [simp]: "uint (word_of_int x :: byte) = x mod 256"
  by (simp add: uint_word_of_int)

lemma byte_at_update [simp]:
  "i < length xs \<Longrightarrow> byte_at (xs[i := b]) i = Some (uint b)"
  "i \<noteq> j \<Longrightarrow> byte_at (xs[i := b]) j = byte_at xs j"
  by (simp_all add: byte_at_def)

lemma byte_digits:
  fixes m :: int
  assumes "0 \<le> m" "m < 4294967296"
  shows "m div 256 div 256 div 256 mod 256 * 16777216 + m div 256 div 256 mod 256 * 65536 + m div 256 mod 256 * 256 + m mod 256 = m"
proof -
  define q where "q = m div 256"
  define r where "r = q div 256"
  define t where "t = r div 256"
  have "m = q * 256 + m mod 256" "q = r * 256 + q mod 256" "r = t * 256 + r mod 256"
    unfolding q_def r_def t_def by (simp_all only: div_mult_mod_eq)
  moreover have "0 \<le> t" "t < 256"
    using assms by (simp_all add: q_def r_def t_def)
  ultimately show ?thesis
    unfolding q_def [symmetric] r_def [symmetric] t_def [symmetric] by simp
qed

lemma u32_div [simp]: "0 \<le> m \<Longrightarrow> m < 4294967296 \<Longrightarrow> u32 (m div 256) = m div 256"
  by simp

lemma u32_mod_256: "x mod 256 = u32 x mod 256"
  by (simp add: u32_def mod_mod_cancel)

lemma uint32_digits:
  fixes v :: int
  obtains m where "u32 v = m" "0 \<le> m" "m < 4294967296" "u32 (m div 256) = m div 256"
    "u32 (m div 256 div 256) = m div 256 div 256" "v mod 256 = m mod 256" "u32 (m mod 256) = m mod 256"
    "v mod 65536 = m mod 65536"
proof
  define m where "m = u32 v"
  have m: "0 \<le> m" "m < 4294967296"
    using u32_bounds by (simp_all add: m_def)
  then show "u32 (m div 256) = m div 256" "u32 (m div 256 div 256) = m div 256 div 256"
    by (simp_all add: u32_def)
  show "u32 (m mod 256) = m mod 256"
    by (intro u32_id) (auto intro: less_trans [OF pos_mod_bound])
  show "v mod 256 = m mod 256" "v mod 65536 = m mod 65536"
    by (simp_all add: m_def u32_def mod_mod_cancel)
  show "u32 v = m" "0 \<le> m" "m < 4294967296"
    using m by (simp_all only: m_def)
qed

lemma UInt32BE_roundtrip:
  assumes "offset + 4 \<le> length dest"
  shows "readUInt32BE (writeUInt32BE dest v offset) offset = Some (u32 v)"
proof -
  obtain m where m: "u32 v = m" "0 \<le> m" "m < 4294967296" "u32 (m div 256) = m div 256"
    "u32 (m div 256 div 256) = m div 256 div 256" "v mod 256 = m mod 256"
    by (rule uint32_digits)
  have "byte_at (writeUInt32BE dest v offset) offset = Some (m div 256 div 256 div 256 mod 256)"
    "byte_at (writeUInt32BE dest v offset) (offset + 1) = Some (m div 256 div 256 mod 256)"
    "byte_at (writeUInt32BE dest v offset) (offset + 2) = Some (m div 256 mod 256)"
    "byte_at (writeUInt32BE dest v offset) (offset + 3) = Some (m mod 256)"
    using assms by (simp_all add: writeUInt32BE_def Let_def drop_bit_eq_div m(1,4-6))
  then show ?thesis
    unfolding readUInt32BE_def m(1) by (simp add: byte_digits [OF m(2,3)])
qed

lemma bytes_or:
  fixes a b c d :: int
  assumes "0 \<le> a" "a < 256" "0 \<le> b" "b < 256" "0 \<le> c" "c < 256" "0 \<le> d" "d < 256"
  shows "or a (u32 (push_bit 8 b)) = a + b * 256"
    "or (or (or a (u32 (push_bit 8 b))) (u32 (push_bit 16 c))) (u32 (push_bit 24 d)) = d * 16777216 + c * 65536 + b * 256 + a"
proof -
  have p: "u32 (push_bit 8 b) = push_bit 8 b" "u32 (push_bit 16 c) = push_bit 16 c" "u32 (push_bit 24 d) = push_bit 24 d"
    using assms by (simp_all add: push_bit_eq_mult)
  show two: "or a (u32 (push_bit 8 b)) = a + b * 256"
    using or_push_bit [of a 8 b] assms by (simp add: p)
  have three: "or (a + b * 256) (push_bit 16 c) = a + b * 256 + c * 65536"
    using or_push_bit [of "a + b * 256" 16 c] assms by simp
  have "or (a + b * 256 + c * 65536) (push_bit 24 d) = a + b * 256 + c * 65536 + d * 16777216"
    using or_push_bit [of "a + b * 256 + c * 65536" 24 d] assms by simp
  then show "or (or (or a (u32 (push_bit 8 b))) (u32 (push_bit 16 c))) (u32 (push_bit 24 d)) = d * 16777216 + c * 65536 + b * 256 + a"
    unfolding two p(2,3) three by simp
qed

lemma toInt32_u32 [simp]: "toInt32 (u32 v) = toInt32 v"
  by (simp add: toInt32_def u32_def mod_add_left_eq)

lemma UInt32LE_roundtrip:
  assumes "offset + 4 \<le> length dest"
  shows "readUInt32LE (writeUInt32LE dest v offset) offset = toInt32 v"
proof -
  obtain m where m: "u32 v = m" "0 \<le> m" "m < 4294967296" "u32 (m div 256) = m div 256"
    "u32 (m div 256 div 256) = m div 256 div 256" "v mod 256 = m mod 256" "u32 (m mod 256) = m mod 256"
    by (rule uint32_digits)
  have d: "or (or (or (m mod 256) (u32 (push_bit 8 (m div 256 mod 256)))) (u32 (push_bit 16 (m div 256 div 256 mod 256))))
      (u32 (push_bit 24 (m div 256 div 256 div 256 mod 256))) = m"
    using byte_digits [OF m(2,3)] by (subst bytes_or(2)) (simp_all only: pos_mod_sign pos_mod_bound zero_less_numeral)
  have "bits_at (writeUInt32LE dest v offset) offset = m mod 256"
    "bits_at (writeUInt32LE dest v offset) (offset + 1) = m div 256 mod 256"
    "bits_at (writeUInt32LE dest v offset) (offset + 2) = m div 256 div 256 mod 256"
    "bits_at (writeUInt32LE dest v offset) (offset + 3) = m div 256 div 256 div 256 mod 256"
    using assms by (simp_all add: bits_at_def writeUInt32LE_def Let_def drop_bit_eq_div m(1) m(4-6))
  then show ?thesis
    unfolding readUInt32LE_def add_0_right push_bit_0_id id_apply using toInt32_u32 [of v, unfolded m(1)] by (simp only: m(7) d)
qed

lemma UInt16LE_roundtrip:
  assumes "offset + 2 \<le> length dest"
  shows "readUInt16LE (writeUInt16LE dest v offset) offset = v mod 65536"
proof -
  obtain m where m: "u32 v = m" "u32 (m div 256) = m div 256" "v mod 256 = m mod 256" "u32 (m mod 256) = m mod 256"
    "v mod 65536 = m mod 65536"
    by (rule uint32_digits)
  have b: "bits_at (writeUInt16LE dest v offset) offset = m mod 256"
    "bits_at (writeUInt16LE dest v offset) (offset + 1) = m div 256 mod 256"
    using assms by (simp_all add: bits_at_def writeUInt16LE_def Let_def drop_bit_eq_div m(1) m(2,3))
  have "or (m mod 256) (u32 (push_bit 8 (m div 256 mod 256))) = m mod 256 + m div 256 mod 256 * 256"
    by (rule bytes_or(1) [of _ _ 0 0]) simp_all
  also have "\<dots> = m mod 65536"
    using mod_mult2_eq' [of m 256 256] by simp
  finally show ?thesis
    unfolding readUInt16LE_def m(5) using b m(4) by (simp add: toInt32_small)
qed

lemma length_writes [simp]:
  "length (writeUInt32BE dest v offset) = length dest" "length (writeUInt32LE dest v offset) = length dest"
  "length (writeUInt16LE dest v offset) = length dest" "length (writeUInt8 dest v offset) = length dest"
  by (simp_all add: writeUInt32BE_def writeUInt32LE_def writeUInt16LE_def writeUInt8_def Let_def)

section \<open>Correctness of the search\<close>

text \<open>The entry of a byte is at most the distance from any of its occurrences to the end of the needle.\<close>

lemma shift_table_loop_bound:
  assumes "i + length rest = length needle" "rest = drop i needle"
    and "\<forall>k < i. unat (table (needle ! k)) \<le> length needle - 1 - k" "\<forall>c. unat (table c) \<le> length needle"
  shows "(\<forall>k < length needle. unat (shift_table_loop needle i rest table (needle ! k)) \<le> length needle - 1 - k) \<and>
         (\<forall>c. unat (shift_table_loop needle i rest table c) \<le> length needle)"
  using assms
proof (induction rest arbitrary: i table)
  case Nil
  then show ?case
    by simp
next
  case (Cons x rest)
  let ?v = "word_of_int (int (length needle) - int i - 1) :: byte"
  let ?t = "table(x := ?v)"
  have i: "i < length needle"
    using Cons.prems(1) by simp
  have x: "x = needle ! i" "rest = drop (Suc i) needle"
    using Cons.prems(2) Cons_nth_drop_Suc [OF i] by (metis list.inject)+
  have "int (length needle) - int i - 1 = int (length needle - 1 - i)"
    using i by linarith
  then have "?v = word_of_nat (length needle - 1 - i)"
    by (simp only: of_int_of_nat_eq)
  then have v: "unat ?v \<le> length needle - 1 - i"
    by (simp only: unat_of_nat mod_less_eq_dividend)
  have "\<forall>k < i + 1. unat (?t (needle ! k)) \<le> length needle - 1 - k"
    using Cons.prems(3) v x by (auto simp: less_Suc_eq)
  moreover have "\<forall>c. unat (?t c) \<le> length needle"
    using Cons.prems(4) v by auto
  ultimately show ?case
    unfolding shift_table_loop.simps by (intro Cons.IH) (use Cons.prems(1) x in simp_all)
qed

lemma shift_table_bound:
  shows "k < length needle \<Longrightarrow> unat (shift_table needle (needle ! k)) \<le> length needle - 1 - k"
    and "unat (shift_table needle c) \<le> length needle"
  using shift_table_loop_bound [of 0 needle needle "\<lambda>_. word_of_int (int (length needle))"]
  by (simp_all add: shift_table_def unat_of_nat)

definition occurs_at :: "bytes \<Rightarrow> bytes \<Rightarrow> nat \<Rightarrow> bool" where
  "occurs_at needle haystack p \<longleftrightarrow>
     p + length needle \<le> length haystack \<and> (\<forall>k < length needle. haystack ! (p + k) = needle ! k)"

text \<open>A byte of the haystack excludes all windows in which the table aligns it too far to the right.\<close>

lemma shift_excludes:
  assumes "needle \<noteq> []" "i < length haystack" "q \<le> i" "i < q + length needle"
    and "q + length needle \<le> i + unat (shift_table needle (haystack ! i))"
  shows "\<not> occurs_at needle haystack q"
proof
  assume "occurs_at needle haystack q"
  then have "haystack ! i = needle ! (i - q)"
    using assms(3,4) by (auto simp: occurs_at_def dest: spec [of _ "i - q"])
  then have "unat (shift_table needle (haystack ! i)) \<le> length needle - 1 - (i - q)"
    using shift_table_bound(1) [of "i - q" needle] assms(3,4) by simp
  then show False
    using assms(3-5) by linarith
qed

definition no_occurrence :: "bytes \<Rightarrow> bytes \<Rightarrow> nat \<Rightarrow> nat \<Rightarrow> bool" where
  "no_occurrence needle haystack a b \<longleftrightarrow> (\<forall>q. a \<le> q \<and> q < b \<longrightarrow> \<not> occurs_at needle haystack q)"

text \<open>
  The window that ends at \<open>e\<close> is compared from its end; the loop runs to a mismatch or to a full
  match and then moves the window by at least one.
\<close>

definition search_result :: "bytes \<Rightarrow> bytes \<Rightarrow> nat \<Rightarrow> int \<Rightarrow> bool" where
  "search_result needle haystack a r \<longleftrightarrow>
     (r = -1 \<and> (\<forall>q \<ge> a. \<not> occurs_at needle haystack q)) \<or>
     (\<exists>p \<ge> a. r = int p \<and> occurs_at needle haystack p \<and> no_occurrence needle haystack a p)"

lemma search_resultI:
  assumes "no_occurrence needle haystack a p" "a \<le> p" "occurs_at needle haystack p"
  shows "search_result needle haystack a (int p)"
  using assms by (auto simp: search_result_def)

lemma search_result_none:
  assumes "needle \<noteq> []" "no_occurrence needle haystack a p" "length haystack < p + length needle"
  shows "search_result needle haystack a (-1)"
proof -
  have "\<not> occurs_at needle haystack q" if "a \<le> q" for q
    using assms(2,3) that by (cases "q < p") (auto simp: no_occurrence_def occurs_at_def)
  then show ?thesis
    by (auto simp: search_result_def)
qed

lemma horspool_loop_correct:
  assumes "needle \<noteq> []" "j < length needle" "a \<le> p" "no_occurrence needle haystack a p"
    and "j = length needle - 1 \<or> p + length needle \<le> length haystack"
    and "\<forall>k. j < k \<and> k < length needle \<longrightarrow> haystack ! (p + k) = needle ! k"
  shows "\<exists>r. horspool_loop haystack needle (shift_table needle) (p + j) j = Some r \<and> search_result needle haystack a r"
  using assms(2-6)
proof (induction "(length haystack - p, j)" arbitrary: p j rule: wf_induct_rule [OF wf_lex_prod [OF wf_less_than wf_less_than]])
  case (1 p j)
  let ?n = "length needle"
  note IH = 1(1) [rule_format]
  show ?case
  proof (cases "p + j < length haystack")
    case False
    then have "length haystack < p + ?n"
      using 1(2,5) by auto
    then show ?thesis
      using False search_result_none [OF assms(1) 1(4)] by (subst horspool_loop.simps) auto
  next
    case True
    then have fits: "p + ?n \<le> length haystack"
      using 1(2,5) by auto
    show ?thesis
    proof (cases "haystack ! (p + j) = needle ! j")
      case match: True
      then have eq: "\<forall>k. j \<le> k \<and> k < ?n \<longrightarrow> haystack ! (p + k) = needle ! k"
        using 1(6) le_neq_implies_less by blast
      show ?thesis
      proof (cases "j = 0")
        case j0: True
        then have "occurs_at needle haystack p"
          using fits eq by (simp add: occurs_at_def)
        then show ?thesis
          using j0 match True search_resultI [OF 1(4,3)] assms(1) by (subst horspool_loop.simps) simp
      next
        case False
        have "\<exists>r. horspool_loop haystack needle (shift_table needle) (p + (j - 1)) (j - 1) = Some r \<and> search_result needle haystack a r"
          by (rule IH) (use 1 False fits eq in auto)
        moreover have "horspool_loop haystack needle (shift_table needle) (p + j) j =
            horspool_loop haystack needle (shift_table needle) (p + (j - 1)) (j - 1)"
          using False match True 1(2) by (subst horspool_loop.simps) simp
        ultimately show ?thesis
          by simp
      qed
    next
      case mismatch: False
      let ?t = "unat (shift_table needle (haystack ! (p + j)))"
      define q where "q = p + j + max (?n - j) ?t - (?n - 1)"
      have q: "p < q" "q + (?n - 1) = p + j + max (?n - j) ?t"
        using 1(2) by (auto simp: q_def)
      have "no_occurrence needle haystack a q"
        unfolding no_occurrence_def
      proof (intro allI impI)
        fix r assume r: "a \<le> r \<and> r < q"
        consider "r < p" | "r = p" | "p < r"
          by linarith
        then show "\<not> occurs_at needle haystack r"
        proof cases
          case 1
          then show ?thesis
            using \<open>no_occurrence needle haystack a p\<close> r by (auto simp: no_occurrence_def)
        next
          case 2
          then show ?thesis
            using mismatch \<open>j < ?n\<close> by (auto simp: occurs_at_def)
        next
          case 3
          moreover have "?t \<le> ?n"
            by (rule shift_table_bound(2))
          ultimately show ?thesis
            using r q \<open>j < ?n\<close> True assms(1) by (intro shift_excludes [of _ "p + j"]) auto
        qed
      qed
      then have "\<exists>r. horspool_loop haystack needle (shift_table needle) (q + (?n - 1)) (?n - 1) = Some r \<and> search_result needle haystack a r"
        by (intro IH) (use 1(2,3) q(1) True assms(1) in auto)
      moreover have "int ?n - int j = int (?n - j)"
        using 1(2) by simp
      then have "int (p + j) + max (int ?n - int j) (uint (shift_table needle (haystack ! (p + j)))) = int (q + (?n - 1))"
        unfolding q(2) by (simp only: of_nat_max of_nat_add uint_nat)
      then have "horspool_loop haystack needle (shift_table needle) (p + j) j =
          horspool_loop haystack needle (shift_table needle) (q + (?n - 1)) (?n - 1)"
        using mismatch True by (subst horspool_loop.simps) (simp only: nat_int if_True if_False simp_thms)
      ultimately show ?thesis
        by simp
    qed
  qed
qed


lemma binaryIndexOf_search:
  assumes "2 \<le> length needle"
  shows "\<exists>r. binaryIndexOf haystack needle offset = Some r \<and> search_result needle haystack offset r"
proof -
  let ?n = "length needle"
  have n: "needle \<noteq> []"
    using assms by auto
  have empty: "no_occurrence needle haystack offset offset"
    by (auto simp: no_occurrence_def)
  consider "length haystack < offset + ?n" | "offset = 0" "?n \<le> length haystack" | "0 < offset" "offset + ?n \<le> length haystack"
    by linarith
  then show ?thesis
  proof cases
    case 1
    then have "binaryIndexOf haystack needle offset = Some (-1)"
      using n assms by (simp add: binaryIndexOf_def Let_def)
    with 1 show ?thesis
      using search_result_none [OF n empty] by simp
  next
    case 2
    then have "binaryIndexOf haystack needle offset = horspool_loop haystack needle (shift_table needle) (offset + (?n - 1)) (?n - 1)"
      using n assms by (simp add: binaryIndexOf_def Let_def)
    moreover have "\<exists>r. horspool_loop haystack needle (shift_table needle) (offset + (?n - 1)) (?n - 1) = Some r \<and>
        search_result needle haystack offset r"
      by (rule horspool_loop_correct [OF n _ order_refl empty]) (use assms in auto)
    ultimately show ?thesis
      by simp
  next
    case 3
    let ?i = "offset + ?n - 1"
    let ?t = "unat (shift_table needle (haystack ! ?i))"
    have "no_occurrence needle haystack offset (offset + ?t)"
      unfolding no_occurrence_def
    proof (intro allI impI)
      fix q assume "offset \<le> q \<and> q < offset + ?t"
      then show "\<not> occurs_at needle haystack q"
        using shift_table_bound(2) [of needle "haystack ! ?i"] 3 assms by (intro shift_excludes [OF n, of ?i]) auto
    qed
    then have found: "\<exists>r. horspool_loop haystack needle (shift_table needle) (offset + ?t + (?n - 1)) (?n - 1) = Some r \<and>
        search_result needle haystack offset r"
      using assms by (intro horspool_loop_correct [OF n]) auto
    have m: "max (int ?n - int ?i) (uint (shift_table needle (haystack ! ?i))) = int ?t"
      unfolding uint_nat by (rule max_absorb2) (use 3 assms in linarith)
    have e: "nat (int ?i + int ?t) = offset + ?t + (?n - 1)" and i: "?i < length haystack" "\<not> ?i < ?n"
      using 3 assms by linarith+
    have "horspool_loop haystack needle (shift_table needle) ?i ?i =
        horspool_loop haystack needle (shift_table needle) (offset + ?t + (?n - 1)) (?n - 1)"
      by (subst horspool_loop.simps) (simp only: m e i simp_thms if_True if_False)
    moreover have "binaryIndexOf haystack needle offset = horspool_loop haystack needle (shift_table needle) ?i ?i"
      using 3 n assms by (simp add: binaryIndexOf_def Let_def)
    ultimately show ?thesis
      using found by simp
  qed
qed

lemma js_indexOf_search: "search_result [x] haystack 0 (js_indexOf haystack x)"
proof -
  let ?i = "length (takeWhile (\<lambda>y. y \<noteq> x) haystack)"
  have before: "haystack ! q \<noteq> x" if "q < ?i" for q
  proof -
    have "takeWhile (\<lambda>y. y \<noteq> x) haystack ! q \<in> set (takeWhile (\<lambda>y. y \<noteq> x) haystack)"
      using that by (rule nth_mem)
    then show ?thesis
      using takeWhile_nth [OF that] by (auto dest: set_takeWhileD)
  qed
  show ?thesis
  proof (cases "?i < length haystack")
    case True
    then have "haystack ! ?i = x"
      using nth_length_takeWhile by fastforce
    then show ?thesis
      using True before by (auto simp: search_result_def js_indexOf_def occurs_at_def no_occurrence_def)
  next
    case False
    then have "?i = length haystack"
      using length_takeWhile_le [of "\<lambda>y. y \<noteq> x" haystack] by linarith
    with before show ?thesis
      by (auto simp: search_result_def js_indexOf_def occurs_at_def)
  qed
qed

section \<open>Properties\<close>

text \<open>
  C35. \<open>binaryIndexOf\<close> returns, for every needle of at least two bytes, the first occurrence at or
  after the offset and -1 when there is none; the search terminates although its shift table holds
  distances modulo 256 only.  A needle of one byte is searched from the start whatever the offset.
\<close>

theorem binaryIndexOf_correct:
  assumes "2 \<le> length needle"
  shows "(\<exists>r. binaryIndexOf haystack needle offset = Some r \<and>
            (r = -1 \<and> (\<forall>q \<ge> offset. \<not> occurs_at needle haystack q) \<or>
             (\<exists>p \<ge> offset. r = int p \<and> occurs_at needle haystack p \<and>
                (\<forall>q. offset \<le> q \<and> q < p \<longrightarrow> \<not> occurs_at needle haystack q)))) \<and>
         (\<exists>r. binaryIndexOf haystack [x] offset = Some r \<and>
            (r = -1 \<and> (\<forall>q. \<not> occurs_at [x] haystack q) \<or>
             (\<exists>p. r = int p \<and> occurs_at [x] haystack p \<and> (\<forall>q < p. \<not> occurs_at [x] haystack q))))"
  using binaryIndexOf_search [OF assms, of haystack offset] js_indexOf_search [of x haystack]
  by (auto simp: search_result_def no_occurrence_def binaryIndexOf_def)

theorem binaryIndexOf_correct_witness:
  "binaryIndexOf [1, 2, 3, 2, 3] [2, 3] 2 = Some 3"
proof -
  obtain r where r: "binaryIndexOf [1, 2, 3, 2, 3] [2, 3] 2 = Some r"
    "r = -1 \<and> (\<forall>q \<ge> 2. \<not> occurs_at [2, 3] [1, 2, 3, 2, 3] q) \<or>
     (\<exists>p \<ge> 2. r = int p \<and> occurs_at [2, 3] [1, 2, 3, 2, 3] p \<and>
        (\<forall>q. 2 \<le> q \<and> q < p \<longrightarrow> \<not> occurs_at [2, 3] [1, 2, 3, 2, 3] q))"
    using binaryIndexOf_correct [of "[2, 3]" "[1, 2, 3, 2, 3]" 2 0] by (auto simp del: One_nat_def)
  have yes: "occurs_at [2, 3] [1, 2, 3, 2, 3] 3"
    by (simp add: occurs_at_def All_less_Suc)
  have no: "\<not> occurs_at [2, 3] [1, 2, 3, 2, 3] 2"
    by (simp add: occurs_at_def All_less_Suc)
  have "p = 3" if "2 \<le> p" "occurs_at [2, 3] [1, 2, 3, 2, 3] p" for p
    using that no by (cases "p = 2") (auto simp: occurs_at_def)
  with r yes show ?thesis
    by auto
qed

text \<open>
  The integer accessors: what is written big-endian is read back modulo \<open>2 ^ 32\<close>; the
  little-endian read returns the same 32 bits as a signed number, so it gives back an unsigned
  value only below \<open>2 ^ 31\<close>; reading big-endian past the end yields no number.
\<close>

theorem buffer_integers_roundtrip:
  assumes "offset + 4 \<le> length dest"
  shows "readUInt32BE (writeUInt32BE dest v offset) offset = Some (v mod 2 ^ 32) \<and>
         readUInt32LE (writeUInt32LE dest v offset) offset = toInt32 v \<and>
         readUInt16LE (writeUInt16LE dest v offset) offset = v mod 2 ^ 16 \<and>
         readUInt8 (writeUInt8 dest v offset) offset = Some (v mod 2 ^ 8) \<and>
         (2147483648 \<le> v \<and> v < 4294967296 \<longrightarrow> readUInt32LE (writeUInt32LE dest v offset) offset < 0) \<and>
         readUInt32BE dest (length dest - 3) = None"
proof -
  have "toInt32 v < 0" if "2147483648 \<le> v" "v < 4294967296"
    using that mod_pos_pos_trivial [of "v - 2147483648" 4294967296] mod_add_self2 [of "v - 2147483648" 4294967296]
    by (simp add: toInt32_def algebra_simps)
  moreover have "readUInt8 (writeUInt8 dest v offset) offset = Some (v mod 2 ^ 8)"
    using assms by (simp add: readUInt8_def writeUInt8_def)
  moreover have "readUInt32BE dest (length dest - 3) = None"
    using assms by (simp add: readUInt32BE_def byte_at_def split: option.split)
  ultimately show ?thesis
    using assms UInt32BE_roundtrip [OF assms, of v] UInt32LE_roundtrip [OF assms, of v] UInt16LE_roundtrip [of offset dest v]
    by (simp add: u32_def)
qed

theorem buffer_integers_roundtrip_witness:
  "readUInt32LE (writeUInt32LE [0, 0, 0, 0] 4294967295 0) 0 = -1"
  using buffer_integers_roundtrip [of 0 "[0, 0, 0, 0]" 4294967295] by (simp add: toInt32_def)

end
