(* ===== verification/Base64.thy ===== *)
theory Base64
  imports Vs_Buffer
begin

text \<open>
  Base64 of byte buffers, \<open>decodeBase64\<close> and \<open>encodeBase64\<close> of \<open>vs/base/common/buffer.ts\<close>.  The numbers
  the bit operations work on are the 32-bit integers JavaScript converts them to.
\<close>

section \<open>Decoding\<close>

text \<open>The local variables of \<open>decodeBase64\<close>.\<close>

record base64_state =
  b64_buffer :: bytes
  b64_building :: "32 word"
  b64_remainder :: nat
  b64_bufi :: nat

definition base64_put :: "32 word \<Rightarrow> base64_state \<Rightarrow> base64_state" where
  "base64_put x s = s\<lparr>b64_buffer := (b64_buffer s)[b64_bufi s := ucast x], b64_bufi := b64_bufi s + 1\<rparr>"

definition base64_append :: "32 word \<Rightarrow> base64_state \<Rightarrow> base64_state" where
  "base64_append val s =
     (if b64_remainder s = 3 then
        (base64_put (or (b64_building s) val) s)\<lparr>b64_remainder := 0\<rparr>
      else if b64_remainder s = 2 then
        (base64_put (or (b64_building s) (drop_bit 2 val)) s)\<lparr>b64_building := push_bit 6 val, b64_remainder := 3\<rparr>
      else if b64_remainder s = 1 then
        (base64_put (or (b64_building s) (drop_bit 4 val)) s)\<lparr>b64_building := push_bit 4 val, b64_remainder := 2\<rparr>
      else s\<lparr>b64_building := push_bit 2 val, b64_remainder := 1\<rparr>)"

fun base64_loop :: "string \<Rightarrow> base64_state \<Rightarrow> js_error + base64_state" where
  "base64_loop [] s = Inr s"
| "base64_loop (c # encoded) s =
     (let code = (of_char c :: nat) in
      if code \<ge> 65 \<and> code \<le> 90 then base64_loop encoded (base64_append (of_nat (code - 65)) s)
      else if code \<ge> 97 \<and> code \<le> 122 then base64_loop encoded (base64_append (of_nat (code - 97 + 26)) s)
      else if code \<ge> 48 \<and> code \<le> 57 then base64_loop encoded (base64_append (of_nat (code - 48 + 52)) s)
      else if code = 43 \<or> code = 45 then base64_loop encoded (base64_append 62 s)
      else if code = 47 \<or> code = 95 then base64_loop encoded (base64_append 63 s)
      else if code = 61 then Inr s
      else Inl SyntaxError)"

text \<open>The remainder takes the values 0 to 3 only and cycles through them.\<close>

function base64_finish :: "base64_state \<Rightarrow> base64_state" where
  "base64_finish s = (if b64_remainder s > 0 then base64_finish (base64_append 0 s) else s)"
  by pat_completeness auto
termination
  by (relation "measure (\<lambda>s. if b64_remainder s = 0 then 0 else if b64_remainder s > 3 then 4 else 4 - b64_remainder s)")
    (auto simp: base64_append_def base64_put_def)

declare base64_finish.simps [simp del]

definition decodeBase64 :: "string \<Rightarrow> js_error + bytes" where
  "decodeBase64 encoded =
     bind_result (base64_loop encoded \<lparr>b64_buffer = replicate (length encoded * 3 div 4) 0,
                    b64_building = 0, b64_remainder = 0, b64_bufi = 0\<rparr>)
       (\<lambda>s. let unpadded = b64_bufi s; s = base64_finish s in
            Inr (VSBuffer_slice (Some 0) (Some (int unpadded)) (b64_buffer s)))"

section \<open>Encoding\<close>

definition base64Alphabet :: string where
  "base64Alphabet = ''ABCDEFGHIJKLMNOPQRSTUVWXYZabcdefghijklmnopqrstuvwxyz0123456789+/''"

definition base64UrlSafeAlphabet :: string where
  "base64UrlSafeAlphabet = ''ABCDEFGHIJKLMNOPQRSTUVWXYZabcdefghijklmnopqrstuvwxyz0123456789-_''"

definition base64_char :: "string \<Rightarrow> 32 word \<Rightarrow> char" where
  "base64_char dictionary x = dictionary ! unat x"

text \<open>The loop takes three bytes a round; the branches after it treat the one or two that remain.\<close>

fun base64_groups :: "string \<Rightarrow> bool \<Rightarrow> bytes \<Rightarrow> string" where
  "base64_groups dict padded (a # b # c # rest) =
     base64_char dict (drop_bit 2 (ucast a)) #
     base64_char dict (and (or (push_bit 4 (ucast a)) (drop_bit 4 (ucast b))) 63) #
     base64_char dict (and (or (push_bit 2 (ucast b)) (drop_bit 6 (ucast c))) 63) #
     base64_char dict (and (ucast c) 63) # base64_groups dict padded rest"
| "base64_groups dict padded [a] =
     base64_char dict (drop_bit 2 (ucast a)) # base64_char dict (and (push_bit 4 (ucast a)) 63) #
     (if padded then ''=='' else '''')"
| "base64_groups dict padded [a, b] =
     base64_char dict (drop_bit 2 (ucast a)) #
     base64_char dict (and (or (push_bit 4 (ucast a)) (drop_bit 4 (ucast b))) 63) #
     base64_char dict (and (push_bit 2 (ucast b)) 63) # (if padded then ''='' else '''')"
| "base64_groups dict padded [] = ''''"

definition encodeBase64 :: "bytes \<Rightarrow> bool \<Rightarrow> bool \<Rightarrow> string" where
  "encodeBase64 buffer padded urlSafe =
     base64_groups (if urlSafe then base64UrlSafeAlphabet else base64Alphabet) padded buffer"

section \<open>Characters\<close>

text \<open>The value of a character of either alphabet.\<close>

definition base64_value :: "char \<Rightarrow> nat option" where
  "base64_value c =
     (let code = (of_char c :: nat) in
      if code \<ge> 65 \<and> code \<le> 90 then Some (code - 65)
      else if code \<ge> 97 \<and> code \<le> 122 then Some (code - 97 + 26)
      else if code \<ge> 48 \<and> code \<le> 57 then Some (code - 48 + 52)
      else if code = 43 \<or> code = 45 then Some 62
      else if code = 47 \<or> code = 95 then Some 63 else None)"

lemma base64_loop_value:
  "base64_value c = Some v \<Longrightarrow> base64_loop (c # encoded) s = base64_loop encoded (base64_append (of_nat v) s)"
  by (auto simp: base64_value_def Let_def split: if_splits)

lemma alphabet_values:
  "map base64_value base64Alphabet = map Some [0..<64]" "map base64_value base64UrlSafeAlphabet = map Some [0..<64]"
  by code_simp+

lemma base64_loop_char:
  assumes "map base64_value dict = map Some [0..<64]" "unat x < 64"
  shows "base64_loop (base64_char dict x # encoded) s = base64_loop encoded (base64_append x s)"
proof -
  have "length dict = 64"
    using arg_cong [OF assms(1), of length] by simp
  then have "base64_value (dict ! unat x) = Some (unat x)"
    using arg_cong [OF assms(1), of "\<lambda>xs. xs ! unat x"] assms(2) by simp
  then show ?thesis
    using base64_loop_value [of "dict ! unat x" "unat x"] by (simp add: base64_char_def)
qed

section \<open>Groups\<close>

lemma mask6: "(63 :: 32 word) = mask 6"
  by (simp add: mask_eq_exp_minus_1)

lemma six_bits:
  fixes a :: byte and x :: "32 word"
  shows "unat (drop_bit 2 (ucast a :: 32 word)) < 64" "unat (and x 63) < 64"
proof -
  have "drop_bit 2 (ucast a :: 32 word) = take_bit 6 (drop_bit 2 (ucast a))"
    by (rule bit_word_eqI) (auto simp: bit_simps dest: bit_imp_le_length)
  moreover have small: "unat (take_bit 6 y) < 64" for y :: "32 word"
    by (simp add: take_bit_eq_mod unat_mod_distrib)
  ultimately show "unat (drop_bit 2 (ucast a :: 32 word)) < 64"
    by metis
  show "unat (and x 63) < 64"
    using small [of x] by (simp add: mask6 take_bit_eq_mask)
qed

lemma group_bytes:
  fixes a b c :: byte
  defines "p \<equiv> drop_bit 2 (ucast a :: 32 word)"
    and "q \<equiv> and (or (push_bit 4 (ucast a)) (drop_bit 4 (ucast b))) (63 :: 32 word)"
    and "r \<equiv> and (or (push_bit 2 (ucast b)) (drop_bit 6 (ucast c))) (63 :: 32 word)"
    and "t \<equiv> and (ucast c) (63 :: 32 word)"
  shows "ucast (or (push_bit 2 p) (drop_bit 4 q)) = a" "ucast (or (push_bit 4 q) (drop_bit 2 r)) = b"
    "ucast (or (push_bit 6 r) t) = c"
  unfolding p_def q_def r_def t_def mask6
proof -
  have hi: "\<not> bit x n" if "8 \<le> n" for x :: byte and n
    using that bit_imp_le_length [of x n] by auto
  have lt8: "n = 0 \<or> n = 1 \<or> n = 2 \<or> n = 3 \<or> n = 4 \<or> n = 5 \<or> n = 6 \<or> n = 7" if "n < 8" for n :: nat
    using that by linarith
  show "ucast (or (push_bit 2 (drop_bit 2 (ucast a :: 32 word)))
     (drop_bit 4 (and (or (push_bit 4 (ucast a)) (drop_bit 4 (ucast b))) (mask 6 :: 32 word)))) = a"
    by (rule bit_word_eqI) (auto dest!: lt8 simp: bit_simps hi; simp add: numeral_2_eq_2 numeral_3_eq_3)
  show "ucast (or (push_bit 4 (and (or (push_bit 4 (ucast a)) (drop_bit 4 (ucast b))) (mask 6 :: 32 word)))
     (drop_bit 2 (and (or (push_bit 2 (ucast b)) (drop_bit 6 (ucast c))) (mask 6)))) = b"
    by (rule bit_word_eqI) (auto dest!: lt8 simp: bit_simps hi; simp add: numeral_2_eq_2 numeral_3_eq_3)
  show "ucast (or (push_bit 6 (and (or (push_bit 2 (ucast b)) (drop_bit 6 (ucast c))) (mask 6 :: 32 word)))
     (and (ucast c) (mask 6))) = c"
    by (rule bit_word_eqI) (auto dest!: lt8 simp: bit_simps hi; simp add: numeral_2_eq_2 numeral_3_eq_3)
qed


text \<open>Two and three characters of an incomplete group give the first one or two bytes.\<close>

lemma group_bytes_short:
  fixes a b :: byte
  shows "ucast (or (push_bit 2 (drop_bit 2 (ucast a :: 32 word))) (drop_bit 4 (and (push_bit 4 (ucast a)) (63 :: 32 word)))) = a"
    "ucast (or (push_bit 4 (and (or (push_bit 4 (ucast a)) (drop_bit 4 (ucast b))) (63 :: 32 word)))
       (drop_bit 2 (and (push_bit 2 (ucast b)) 63))) = b"
  using group_bytes(1) [of a 0] group_bytes(2) [of a b 0] by simp_all

lemmas base64_step_defs = base64_append_def base64_put_def

lemma append_group:
  assumes "b64_remainder s = 0"
  shows "base64_append t (base64_append r (base64_append q (base64_append p s))) =
    s\<lparr>b64_buffer := (b64_buffer s)[b64_bufi s := ucast (or (push_bit 2 p) (drop_bit 4 q)),
         b64_bufi s + 1 := ucast (or (push_bit 4 q) (drop_bit 2 r)), b64_bufi s + 2 := ucast (or (push_bit 6 r) t)],
      b64_building := push_bit 6 r, b64_bufi := b64_bufi s + 3\<rparr>"
  using assms by (simp add: base64_step_defs)

lemma list_update_run: "length xs = k \<Longrightarrow> (xs @ a # ys)[k := x] = xs @ x # ys"
  by (simp add: list_update_append)

lemma base64_loop_groups:
  assumes "map base64_value dict = map Some [0..<64]"
    and "b64_buffer s = pre @ junk" "b64_bufi s = length pre" "b64_remainder s = 0" "length bs \<le> length junk"
  shows "\<exists>s'. base64_loop (base64_groups dict padded bs) s = Inr s' \<and> b64_bufi s' = length pre + length bs \<and>
           take (b64_bufi s') (b64_buffer s') = pre @ bs"
  using assms
proof (induction dict padded bs arbitrary: s pre junk rule: base64_groups.induct)
  case (1 dict padded a b c rest)
  obtain x y z ws where junk: "junk = x # y # z # ws"
    using 1(6) by (metis Suc_le_length_iff length_Cons)
  let ?p = "drop_bit 2 (ucast a :: 32 word)"
  let ?q = "and (or (push_bit 4 (ucast a)) (drop_bit 4 (ucast b))) (63 :: 32 word)"
  let ?r = "and (or (push_bit 2 (ucast b)) (drop_bit 6 (ucast c))) (63 :: 32 word)"
  let ?t = "and (ucast c) (63 :: 32 word)"
  let ?s = "base64_append ?t (base64_append ?r (base64_append ?q (base64_append ?p s)))"
  have s: "b64_buffer ?s = (pre @ [a, b, c]) @ ws" "b64_bufi ?s = length (pre @ [a, b, c])" "b64_remainder ?s = 0"
    unfolding append_group [OF 1(5)] group_bytes
    using 1(3,4,5) by (simp_all add: junk list_update_append)
  have "base64_loop (base64_groups dict padded (a # b # c # rest)) s = base64_loop (base64_groups dict padded rest) ?s"
    by (simp only: base64_groups.simps base64_loop_char [OF 1(2)] six_bits)
  then show ?case
    using 1(1) [OF 1(2) s] 1(6) by (simp add: junk)
next
  case (2 dict padded a)
  then obtain x ws where junk: "junk = x # ws"
    by (cases junk) auto
  let ?s = "base64_append (and (push_bit 4 (ucast a)) 63) (base64_append (drop_bit 2 (ucast a)) s)"
  have "b64_buffer ?s = pre @ a # ws" "b64_bufi ?s = length pre + 1"
    using 2(2-4) group_bytes_short(1) [of a] by (simp_all add: base64_step_defs junk list_update_append)
  moreover have "base64_loop (base64_groups dict padded [a]) s = Inr ?s"
    unfolding base64_groups.simps base64_loop_char [OF 2(1) six_bits(1)] base64_loop_char [OF 2(1) six_bits(2)]
    by (simp add: Let_def)
  ultimately show ?case
    by simp
next
  case (3 dict padded a b)
  then obtain x y ws where junk: "junk = x # y # ws"
    by (metis Suc_le_length_iff length_Cons)
  let ?s = "base64_append (and (push_bit 2 (ucast b)) 63)
      (base64_append (and (or (push_bit 4 (ucast a)) (drop_bit 4 (ucast b))) 63) (base64_append (drop_bit 2 (ucast a)) s))"
  have "b64_buffer ?s = pre @ a # b # ws" "b64_bufi ?s = length pre + 2"
    using 3(2-4) group_bytes(1) [of a b] group_bytes_short(2) [of a b] by (simp_all add: base64_step_defs junk list_update_append)
  moreover have "base64_loop (base64_groups dict padded [a, b]) s = Inr ?s"
    unfolding base64_groups.simps base64_loop_char [OF 3(1) six_bits(1)] base64_loop_char [OF 3(1) six_bits(2)]
    by (simp add: Let_def)
  ultimately show ?case
    by simp
next
  case (4 dict padded)
  then show ?case
    by simp
qed

lemma base64_finish_take:
  "n \<le> b64_bufi s \<Longrightarrow> take n (b64_buffer (base64_finish s)) = take n (b64_buffer s)"
proof (induction s rule: base64_finish.induct)
  case (1 s)
  then show ?case
    by (subst base64_finish.simps) (auto simp: base64_step_defs)
qed

lemma length_base64_groups: "length bs \<le> length (base64_groups dict padded bs) * 3 div 4"
proof (induction dict padded bs rule: base64_groups.induct)
  case (1 dict padded a b c rest)
  then show ?case
    by (auto simp: algebra_simps)
qed auto

section \<open>Properties\<close>

text \<open>
  C22. \<open>decodeBase64\<close> inverts \<open>encodeBase64\<close>, with and without padding and for both alphabets.
\<close>

theorem base64_roundtrip: "decodeBase64 (encodeBase64 buffer padded urlSafe) = Inr buffer"
proof -
  let ?dict = "if urlSafe then base64UrlSafeAlphabet else base64Alphabet"
  let ?e = "base64_groups ?dict padded buffer"
  let ?s = "\<lparr>b64_buffer = replicate (length ?e * 3 div 4) 0, b64_building = 0, b64_remainder = 0, b64_bufi = 0\<rparr>"
  obtain s' where s': "base64_loop ?e ?s = Inr s'" "b64_bufi s' = length buffer" "take (b64_bufi s') (b64_buffer s') = buffer"
    using base64_loop_groups [of ?dict ?s "[]" "b64_buffer ?s" buffer padded] length_base64_groups [of buffer ?dict padded]
      alphabet_values by (auto split: if_splits)
  then show ?thesis
    using base64_finish_take [of "b64_bufi s'" s'] by (simp add: decodeBase64_def encodeBase64_def)
qed

end
