(* ===== verification/Utf8.thy ===== *)
theory Utf8
  imports Vs_Buffer
begin

text \<open>
  Strings on the wire: \<open>VSBuffer.fromString\<close> and \<open>VSBuffer.toString\<close> of \<open>vs/base/common/buffer.ts\<close>, with the UTF-8
  encoder and decoder of the platform that they call.

  A string of the language is a list of 16-bit code units.  Both encoders (\<open>Buffer.from\<close> and \<open>TextEncoder\<close>)
  write the replacement character U+FFFD for a surrogate without its partner; both decoders are
  the one of the Encoding Standard, except that \<open>TextDecoder\<close> drops a leading byte order mark.
\<close>

type_synonym js_string = "16 word list"

section \<open>Code points\<close>

definition high_surrogate :: "16 word \<Rightarrow> bool" where
  "high_surrogate u \<longleftrightarrow> 0xD800 \<le> unat u \<and> unat u < 0xDC00"

definition low_surrogate :: "16 word \<Rightarrow> bool" where
  "low_surrogate u \<longleftrightarrow> 0xDC00 \<le> unat u \<and> unat u < 0xE000"

definition surrogate_point :: "16 word \<Rightarrow> 16 word \<Rightarrow> nat" where
  "surrogate_point u v = 0x10000 + (unat u - 0xD800) * 0x400 + (unat v - 0xDC00)"

fun code_points :: "js_string \<Rightarrow> nat list" where
  "code_points [] = []"
| "code_points (u # us) =
     (if high_surrogate u then
        case us of
          v # vs \<Rightarrow> if low_surrogate v then surrogate_point u v # code_points vs
                   else 0xFFFD # code_points us
        | [] \<Rightarrow> [0xFFFD]
      else if low_surrogate u then 0xFFFD # code_points us
      else unat u # code_points us)"

definition unit_of :: "nat \<Rightarrow> 16 word" where "unit_of n = word_of_nat n"
definition byte_of :: "nat \<Rightarrow> byte" where "byte_of n = word_of_nat n"

definition code_units :: "nat \<Rightarrow> js_string" where
  "code_units c =
     (if c < 0x10000 then [unit_of c]
      else [unit_of (0xD800 + (c - 0x10000) div 0x400), unit_of (0xDC00 + (c - 0x10000) mod 0x400)])"

section \<open>The encoder\<close>

definition utf8_bytes :: "nat \<Rightarrow> bytes" where
  "utf8_bytes c =
     (if c < 0x80 then [byte_of c]
      else if c < 0x800 then [byte_of (0xC0 + c div 0x40), byte_of (0x80 + c mod 0x40)]
      else if c < 0x10000 then
        [byte_of (0xE0 + c div 0x1000), byte_of (0x80 + c div 0x40 mod 0x40), byte_of (0x80 + c mod 0x40)]
      else
        [byte_of (0xF0 + c div 0x40000), byte_of (0x80 + c div 0x1000 mod 0x40),
         byte_of (0x80 + c div 0x40 mod 0x40), byte_of (0x80 + c mod 0x40)])"

definition utf8_encode :: "js_string \<Rightarrow> bytes" where
  "utf8_encode s = concat (map utf8_bytes (code_points s))"

section \<open>The decoder\<close>

text \<open>
  The state is the number of bytes still needed, the code point so far and the bounds for the next
  byte.  A byte out of bounds ends the sequence with a replacement character and is looked at again.
\<close>

definition utf8_start :: "nat \<Rightarrow> nat list \<times> nat \<times> nat \<times> nat \<times> nat" where
  "utf8_start b =
     (if b \<le> 0x7F then ([b], 0, 0, 0x80, 0xBF)
      else if 0xC2 \<le> b \<and> b \<le> 0xDF then ([], 1, b mod 0x20, 0x80, 0xBF)
      else if 0xE0 \<le> b \<and> b \<le> 0xEF then
        ([], 2, b mod 0x10, if b = 0xE0 then 0xA0 else 0x80, if b = 0xED then 0x9F else 0xBF)
      else if 0xF0 \<le> b \<and> b \<le> 0xF4 then
        ([], 3, b mod 0x8, if b = 0xF0 then 0x90 else 0x80, if b = 0xF4 then 0x8F else 0xBF)
      else ([0xFFFD], 0, 0, 0x80, 0xBF))"

fun utf8_loop :: "bytes \<Rightarrow> nat \<times> nat \<times> nat \<times> nat \<Rightarrow> nat list" where
  "utf8_loop [] (needed, c, lower, upper) = (if needed = 0 then [] else [0xFFFD])"
| "utf8_loop (b # bs) (needed, c, lower, upper) =
     (if needed = 0 then case utf8_start (unat b) of (out, st) \<Rightarrow> out @ utf8_loop bs st
      else if unat b < lower \<or> upper < unat b then case utf8_start (unat b) of (out, st) \<Rightarrow> 0xFFFD # out @ utf8_loop bs st
      else let c = c * 0x40 + unat b mod 0x40 in
        if needed = 1 then c # utf8_loop bs (0, 0, 0x80, 0xBF)
        else utf8_loop bs (needed - 1, c, 0x80, 0xBF))"

definition utf8_decode :: "bytes \<Rightarrow> js_string" where
  "utf8_decode bs = concat (map code_units (utf8_loop bs (0, 0, 0x80, 0xBF)))"

section \<open>Strings and buffers\<close>

text \<open>
  \<open>hasBuffer\<close> tells whether the platform has the class \<open>Buffer\<close>.  The backing store of a \<open>VSBuffer\<close> is a Node.js \<open>Buffer\<close> or a plain
  \<open>Uint8Array\<close>; their methods \<open>toString\<close> differ: the first decodes UTF-8, the second lists the bytes as decimal numbers.
\<close>

datatype byteStore = NodeBuffer bytes | PlainArray bytes

fun store_bytes :: "byteStore \<Rightarrow> bytes" where
  "store_bytes (NodeBuffer b) = b"
| "store_bytes (PlainArray b) = b"

definition VSBuffer_wrap :: "bool \<Rightarrow> byteStore \<Rightarrow> byteStore" where
  "VSBuffer_wrap hasBuffer actual =
     (case actual of PlainArray b \<Rightarrow> if hasBuffer then NodeBuffer b else PlainArray b | NodeBuffer b \<Rightarrow> NodeBuffer b)"

definition VSBuffer_fromString :: "bool \<Rightarrow> bool \<Rightarrow> js_string \<Rightarrow> byteStore" where
  "VSBuffer_fromString hasBuffer dontUseNodeBuffer source =
     (if \<not> dontUseNodeBuffer \<and> hasBuffer then NodeBuffer (utf8_encode source) else PlainArray (utf8_encode source))"

definition byte_decimal :: "8 word \<Rightarrow> js_string" where
  "byte_decimal b =
     (let n = unat b in
      if n < 10 then [unit_of (48 + n)]
      else if n < 100 then [unit_of (48 + n div 10), unit_of (48 + n mod 10)]
      else [unit_of (48 + n div 100), unit_of (48 + n div 10 mod 10), unit_of (48 + n mod 10)])"

text \<open>\<open>Uint8Array.prototype.toString\<close>: the numbers, separated by commas.\<close>

fun bytes_join :: "bytes \<Rightarrow> js_string" where
  "bytes_join [] = []"
| "bytes_join [b] = byte_decimal b"
| "bytes_join (b # c # bs) = byte_decimal b @ 44 # bytes_join (c # bs)"

definition VSBuffer_toString :: "bool \<Rightarrow> byteStore \<Rightarrow> js_string" where
  "VSBuffer_toString hasBuffer store =
     (if hasBuffer then (case store of NodeBuffer b \<Rightarrow> utf8_decode b | PlainArray b \<Rightarrow> bytes_join b)
      else let b = store_bytes store in utf8_decode (if take 3 b = [0xEF, 0xBB, 0xBF] then drop 3 b else b))"

section \<open>Round trip\<close>

definition scalar :: "nat \<Rightarrow> bool" where
  "scalar c \<longleftrightarrow> c < 0xD800 \<or> 0xE000 \<le> c \<and> c < 0x110000"

lemma unat_byte [simp]: "n < 256 \<Longrightarrow> unat (byte_of n) = n"
  by (simp add: byte_of_def unat_of_nat take_bit_eq_mod)

lemma unat_unit [simp]: "n < 0x10000 \<Longrightarrow> unat (unit_of n) = n"
  by (simp add: unit_of_def unat_of_nat take_bit_eq_mod)

lemma utf8_lead:
  "q < 0x80 \<Longrightarrow> utf8_start q = ([q], 0, 0, 0x80, 0xBF)"
  "2 \<le> q \<Longrightarrow> q < 0x20 \<Longrightarrow> utf8_start (0xC0 + q) = ([], 1, q, 0x80, 0xBF)"
  "q < 0x10 \<Longrightarrow> utf8_start (0xE0 + q) = ([], 2, q, if q = 0 then 0xA0 else 0x80, if q = 0xD then 0x9F else 0xBF)"
  "q \<le> 4 \<Longrightarrow> utf8_start (0xF0 + q) = ([], 3, q, if q = 0 then 0x90 else 0x80, if q = 4 then 0x8F else 0xBF)"
proof -
  have "(0xC0 + q) mod 0x20 = q mod 0x20" "(0xE0 + q) mod 0x10 = q mod 0x10" "(0xF0 + q) mod 8 = q mod 8"
    using mod_mult_self2 [of q 32 6] mod_mult_self2 [of q 16 14] mod_mult_self2 [of q 8 30] by (simp_all add: add.commute)
  then show "q < 0x80 \<Longrightarrow> utf8_start q = ([q], 0, 0, 0x80, 0xBF)"
    "2 \<le> q \<Longrightarrow> q < 0x20 \<Longrightarrow> utf8_start (0xC0 + q) = ([], 1, q, 0x80, 0xBF)"
    "q < 0x10 \<Longrightarrow> utf8_start (0xE0 + q) = ([], 2, q, if q = 0 then 0xA0 else 0x80, if q = 0xD then 0x9F else 0xBF)"
    "q \<le> 4 \<Longrightarrow> utf8_start (0xF0 + q) = ([], 3, q, if q = 0 then 0x90 else 0x80, if q = 4 then 0x8F else 0xBF)"
    by (simp_all add: utf8_start_def)
qed

lemma utf8_continue:
  assumes "r < 0x40" "needed > 0" "lower \<le> 0x80 + r" "0x80 + r \<le> upper"
  shows "utf8_loop (byte_of (0x80 + r) # bs) (needed, c, lower, upper) =
    (if needed = 1 then (c * 0x40 + r) # utf8_loop bs (0, 0, 0x80, 0xBF) else utf8_loop bs (needed - 1, c * 0x40 + r, 0x80, 0xBF))"
proof -
  have "unat (byte_of (0x80 + r)) = 0x80 + r" "(0x80 + r) mod 0x40 = r"
    using assms(1) mod_mult_self2 [of r 64 2] by (simp_all add: add.commute)
  with assms show ?thesis
    by (simp add: Let_def)
qed

lemma utf8_first:
  assumes "b < 256" "utf8_start b = ([], st)"
  shows "utf8_loop (byte_of b # bs) (0, 0, 0x80, 0xBF) = utf8_loop bs st"
  using assms by simp

lemma utf8_loop_bytes:
  assumes "scalar c"
  shows "utf8_loop (utf8_bytes c @ bs) (0, 0, 0x80, 0xBF) = c # utf8_loop bs (0, 0, 0x80, 0xBF)"
proof -
  consider "c < 0x80" | "0x80 \<le> c" "c < 0x800" | "0x800 \<le> c" "c < 0x10000" | "0x10000 \<le> c" "c < 0x110000"
    using assms by (fastforce simp: scalar_def)
  then show ?thesis
  proof cases
    case 1
    then show ?thesis
      by (simp add: utf8_bytes_def utf8_lead)
  next
    case 2
    have q: "2 \<le> c div 0x40" "c div 0x40 < 0x20"
      using 2 by simp_all
    then have "utf8_loop (byte_of (0xC0 + c div 0x40) # bs') (0, 0, 0x80, 0xBF) = utf8_loop bs' (1, c div 0x40, 0x80, 0xBF)" for bs'
      by (intro utf8_first) (simp_all add: utf8_lead)
    with 2 show ?thesis
      by (simp add: utf8_bytes_def utf8_continue del: utf8_loop.simps)
  next
    case 3
    have q: "c div 0x1000 < 0x10" "c div 0x1000 * 0x40 + c div 0x40 mod 0x40 = c div 0x40"
      "c div 0x1000 = 0 \<longrightarrow> 0x20 \<le> c div 0x40 mod 0x40" "c div 0x1000 = 0xD \<longrightarrow> c div 0x40 mod 0x40 < 0x20"
    proof -
      have d: "0x20 \<le> c div 0x40" "c div 0x40 < 0x400" "c div 0x40 < 0x360 \<or> 0x380 \<le> c div 0x40" "c div 0x1000 = c div 0x40 div 0x40"
        using 3 assms by (auto simp: scalar_def div_le_mono simp flip: div_mult2_eq)
      moreover have "c div 0x40 div 0x40 * 0x40 + c div 0x40 mod 0x40 = c div 0x40" "c div 0x40 mod 0x40 < 0x40"
        by simp_all
      ultimately show "c div 0x1000 < 0x10" "c div 0x1000 * 0x40 + c div 0x40 mod 0x40 = c div 0x40"
        "c div 0x1000 = 0 \<longrightarrow> 0x20 \<le> c div 0x40 mod 0x40" "c div 0x1000 = 0xD \<longrightarrow> c div 0x40 mod 0x40 < 0x20"
        by linarith+
    qed
    then have "utf8_loop (byte_of (0xE0 + c div 0x1000) # bs') (0, 0, 0x80, 0xBF) =
        utf8_loop bs' (2, c div 0x1000, if c div 0x1000 = 0 then 0xA0 else 0x80, if c div 0x1000 = 0xD then 0x9F else 0xBF)" for bs'
      by (intro utf8_first) (simp_all add: utf8_lead)
    moreover have "utf8_loop (byte_of (0x80 + c div 0x40 mod 0x40) # bs')
        (2, c div 0x1000, if c div 0x1000 = 0 then 0xA0 else 0x80, if c div 0x1000 = 0xD then 0x9F else 0xBF) =
        utf8_loop bs' (1, c div 0x40, 0x80, 0xBF)" for bs'
      using q by (subst utf8_continue) auto
    ultimately show ?thesis
      using 3
      by (simp add: utf8_bytes_def utf8_continue del: utf8_loop.simps)
  next
    case 4
    have q: "c div 0x40000 \<le> 4" "c div 0x40000 * 0x40 + c div 0x1000 mod 0x40 = c div 0x1000"
      "c div 0x1000 * 0x40 + c div 0x40 mod 0x40 = c div 0x40"
      "c div 0x40000 = 0 \<longrightarrow> 0x10 \<le> c div 0x1000 mod 0x40" "c div 0x40000 = 4 \<longrightarrow> c div 0x1000 mod 0x40 < 0x10"
      "c div 0x1000 mod 0x40 \<le> 0x3F"
    proof -
      have "c div 0x40000 = c div 0x1000 div 0x40" "c div 0x1000 = c div 0x40 div 0x40" "0x10 \<le> c div 0x1000" "c div 0x1000 < 0x110"
        using 4 by (auto simp flip: div_mult2_eq)
      moreover have "c div 0x40 div 0x40 * 0x40 + c div 0x40 mod 0x40 = c div 0x40"
        "c div 0x1000 div 0x40 * 0x40 + c div 0x1000 mod 0x40 = c div 0x1000" "c div 0x1000 mod 0x40 < 0x40"
        by simp_all
      ultimately show "c div 0x40000 \<le> 4" "c div 0x40000 * 0x40 + c div 0x1000 mod 0x40 = c div 0x1000"
        "c div 0x1000 * 0x40 + c div 0x40 mod 0x40 = c div 0x40"
        "c div 0x40000 = 0 \<longrightarrow> 0x10 \<le> c div 0x1000 mod 0x40" "c div 0x40000 = 4 \<longrightarrow> c div 0x1000 mod 0x40 < 0x10"
      "c div 0x1000 mod 0x40 \<le> 0x3F"
        by linarith+
    qed
    then have "utf8_loop (byte_of (0xF0 + c div 0x40000) # bs') (0, 0, 0x80, 0xBF) =
        utf8_loop bs' (3, c div 0x40000, if c div 0x40000 = 0 then 0x90 else 0x80, if c div 0x40000 = 4 then 0x8F else 0xBF)" for bs'
      by (intro utf8_first) (simp_all add: utf8_lead)
    moreover have "utf8_loop (byte_of (0x80 + c div 0x1000 mod 0x40) # bs')
        (3, c div 0x40000, if c div 0x40000 = 0 then 0x90 else 0x80, if c div 0x40000 = 4 then 0x8F else 0xBF) =
        utf8_loop bs' (2, c div 0x1000, 0x80, 0xBF)" for bs'
      using q by (subst utf8_continue) auto
    ultimately show ?thesis
      using 4 q(3)
      by (simp add: utf8_bytes_def utf8_continue del: utf8_loop.simps)
  qed
qed

text \<open>Strings without unpaired surrogates.\<close>

fun well_formed :: "js_string \<Rightarrow> bool" where
  "well_formed [] = True"
| "well_formed (u # us) =
     (if high_surrogate u then
        case us of v # vs \<Rightarrow> low_surrogate v \<and> well_formed vs | [] \<Rightarrow> False
      else \<not> low_surrogate u \<and> well_formed us)"

lemma unit_of_unat [simp]: "unit_of (unat u) = u"
  by (simp add: unit_of_def)

lemma surrogate_pair:
  assumes "high_surrogate u" "low_surrogate v"
  shows "code_units (surrogate_point u v) = [u, v]" "scalar (surrogate_point u v)"
proof -
  have uv: "0xD800 \<le> unat u" "unat u < 0xDC00" "0xDC00 \<le> unat v" "unat v < 0xE000"
    using assms by (auto simp: high_surrogate_def low_surrogate_def)
  obtain h l where hl: "unat u = 0xD800 + h" "unat v = 0xDC00 + l"
    using le_Suc_ex [OF uv(1)] le_Suc_ex [OF uv(3)] by blast
  then have b: "h < 0x400" "l < 0x400"
    using uv(2,4) by linarith+
  have "unit_of (0xD800 + h) = u" "unit_of (0xDC00 + l) = v"
    using hl unit_of_unat by metis+
  moreover have "surrogate_point u v = 0x10000 + (h * 0x400 + l)"
    by (simp add: surrogate_point_def hl)
  moreover have "(h * 0x400 + l) div 0x400 = h" "(h * 0x400 + l) mod 0x400 = l"
    using b(2) by (simp_all add: add.commute)
  ultimately show "code_units (surrogate_point u v) = [u, v]"
    by (simp add: code_units_def)
  show "scalar (surrogate_point u v)"
    using b by (simp add: scalar_def surrogate_point_def hl)
qed

lemma unat_unit_bound: "unat (u :: 16 word) < 0x10000"
  using unsigned_less [of u, where 'a = nat] by simp

lemma code_points_scalar: "c \<in> set (code_points s) \<Longrightarrow> scalar c"
proof (induction s rule: code_points.induct)
  case (2 u us)
  have plain: "\<not> high_surrogate u \<Longrightarrow> \<not> low_surrogate u \<Longrightarrow> scalar (unat u)"
    using unat_unit_bound [of u] by (auto simp: scalar_def high_surrogate_def low_surrogate_def)
  have repl: "scalar 0xFFFD"
    by (simp add: scalar_def)
  show ?case
    using 2 plain repl surrogate_pair(2) [of u] by (cases us) (auto split: if_splits simp del: code_points.simps(1))
qed simp

lemma code_units_points: "well_formed s \<Longrightarrow> concat (map code_units (code_points s)) = s"
proof (induction s rule: code_points.induct)
  case (2 u us)
  have "code_units (unat u) = [u]"
    using unat_unit_bound [of u] by (simp add: code_units_def)
  with 2 show ?case
    using surrogate_pair(1) [of u] by (cases us) (auto split: if_splits)
qed simp

lemma utf8_loop_encode:
  "\<forall>c \<in> set cs. scalar c \<Longrightarrow> utf8_loop (concat (map utf8_bytes cs)) (0, 0, 0x80, 0xBF) = cs"
  by (induction cs) (simp_all add: utf8_loop_bytes)

lemma utf8_roundtrip: "well_formed s \<Longrightarrow> utf8_decode (utf8_encode s) = s"
  by (simp add: utf8_decode_def utf8_encode_def utf8_loop_encode code_points_scalar code_units_points)

lemma utf8_bom:
  assumes "take 3 bs = [0xEF, 0xBB, 0xBF]"
  shows "utf8_decode bs = 0xFEFF # utf8_decode (drop 3 bs)"
proof -
  have "utf8_bytes 0xFEFF = [0xEF, 0xBB, 0xBF]" "code_units 0xFEFF = [0xFEFF]" "scalar 0xFEFF"
    by (simp_all add: utf8_bytes_def code_units_def scalar_def byte_of_def unit_of_def)
  then show ?thesis
    using assms append_take_drop_id [of 3 bs] utf8_loop_bytes [of "0xFEFF" "drop 3 bs"] by (simp add: utf8_decode_def)
qed

lemma utf8_encode_bom:
  assumes "well_formed s"
  shows "take 3 (utf8_encode s) = [0xEF, 0xBB, 0xBF] \<longleftrightarrow> s \<noteq> [] \<and> hd s = 0xFEFF"
proof
  assume "take 3 (utf8_encode s) = [0xEF, 0xBB, 0xBF]"
  then show "s \<noteq> [] \<and> hd s = 0xFEFF"
    using utf8_bom [of "utf8_encode s"] utf8_roundtrip [OF assms] by (metis list.sel(1) list.simps(3))
next
  assume "s \<noteq> [] \<and> hd s = 0xFEFF"
  then obtain us where s: "s = 0xFEFF # us"
    by (cases s) auto
  have "utf8_bytes 0xFEFF = [0xEF, 0xBB, 0xBF]"
    by (simp add: utf8_bytes_def byte_of_def)
  moreover have "code_points s = 0xFEFF # code_points us"
    by (simp add: s high_surrogate_def low_surrogate_def)
  ultimately show "take 3 (utf8_encode s) = [0xEF, 0xBB, 0xBF]"
    by (simp add: utf8_encode_def)
qed

section \<open>Properties\<close>

text \<open>
  C30. A string without unpaired surrogates survives \<open>fromString\<close> and \<open>toString\<close>, with two exceptions: where the platform
  has no \<open>Buffer\<close> a leading U+FEFF is lost, and where it has one, a string that was encoded without it (\<open>dontUseNodeBuffer\<close>) comes back
  as the list of its bytes.
\<close>

theorem VSBuffer_string_roundtrip:
  assumes "well_formed s"
  shows "VSBuffer_toString hasBuffer (VSBuffer_fromString hasBuffer dontUseNodeBuffer s) =
           (if hasBuffer then if dontUseNodeBuffer then bytes_join (utf8_encode s) else s
            else if s \<noteq> [] \<and> hd s = 0xFEFF then tl s else s)"
proof -
  have "utf8_decode (drop 3 (utf8_encode s)) = tl s" if "take 3 (utf8_encode s) = [0xEF, 0xBB, 0xBF]"
    using utf8_bom [OF that] utf8_roundtrip [OF assms] by (metis list.sel(3))
  then show ?thesis
    unfolding VSBuffer_fromString_def VSBuffer_toString_def using utf8_roundtrip [OF assms] utf8_encode_bom [OF assms]
    using utf8_roundtrip [of "[]"] by (cases hasBuffer; cases dontUseNodeBuffer; cases "s = []") simp_all
qed

theorem VSBuffer_string_roundtrip_witness:
  "VSBuffer_toString True (VSBuffer_fromString True False [0x61, 0xE9, 0xD83D, 0xDE00]) = [0x61, 0xE9, 0xD83D, 0xDE00] \<and>
   VSBuffer_toString False (VSBuffer_fromString False False [0xFEFF, 0x61]) = [0x61] \<and>
   VSBuffer_toString True (VSBuffer_fromString True True [0x68, 0x65]) = [0x31, 0x30, 0x34, 0x2C, 0x31, 0x30, 0x31]"
proof -
  have "well_formed [0x61, 0xE9, 0xD83D, 0xDE00]" "well_formed [0xFEFF, 0x61]" "well_formed [0x68, 0x65]"
    by (simp_all add: high_surrogate_def low_surrogate_def)
  moreover have "bytes_join (utf8_encode [0x68, 0x65]) = [0x31, 0x30, 0x34, 0x2C, 0x31, 0x30, 0x31]"
    by (simp add: utf8_encode_def utf8_bytes_def byte_decimal_def high_surrogate_def low_surrogate_def unit_of_def byte_of_def)
  ultimately show ?thesis
    using VSBuffer_string_roundtrip [of "[0x61, 0xE9, 0xD83D, 0xDE00]" True False] VSBuffer_string_roundtrip [of "[0xFEFF, 0x61]" False False]
      VSBuffer_string_roundtrip [of "[0x68, 0x65]" True True]
    by simp
qed

end
