(* ===== verification/Ipc_Serialization.thy ===== *)
theory Ipc_Serialization
  imports Utf8
begin

text \<open>
  The wire format of \<open>vs/base/parts/ipc/common/ipc.ts\<close>: variable-length integers, \<open>BufferReader\<close>, \<open>BufferWriter\<close>,
  \<open>serialize\<close> and \<open>deserialize\<close>.

  \<open>JSON.stringify\<close> and \<open>JSON.parse\<close> are parameters; \<open>'o\<close> stands for the values that only they treat (\<open>null\<close>,
  booleans, numbers that are not integers, plain objects).  \<open>hasBuffer\<close> tells whether the platform has the
  class \<open>Buffer\<close>, \<open>fresh\<close> is the contents of new memory.
\<close>

section \<open>Readers and writers\<close>

record bufferReader =
  br_pos :: nat
  br_buffer :: bytes

definition new_BufferReader :: "bytes \<Rightarrow> bufferReader" where
  "new_BufferReader buffer = \<lparr>br_pos = 0, br_buffer = buffer\<rparr>"

definition BufferReader_read :: "int \<Rightarrow> bufferReader \<Rightarrow> bufferReader \<times> bytes" where
  "BufferReader_read count r =
     (let result = VSBuffer_slice (Some (int (br_pos r))) (Some (int (br_pos r) + count)) (br_buffer r) in
      (r\<lparr>br_pos := br_pos r + length result\<rparr>, result))"

type_synonym bufferWriter = "bytes list"

definition new_BufferWriter :: bufferWriter where
  "new_BufferWriter = []"

definition BufferWriter_write :: "bytes \<Rightarrow> bufferWriter \<Rightarrow> bufferWriter" where
  "BufferWriter_write buffer w = w @ [buffer]"

definition BufferWriter_buffer :: "(nat \<Rightarrow> byte) \<Rightarrow> bufferWriter \<Rightarrow> js_error + bytes" where
  "BufferWriter_buffer fresh w = VSBuffer_concat fresh w None"

definition createOneByteBuffer :: "(nat \<Rightarrow> byte) \<Rightarrow> int \<Rightarrow> bytes" where
  "createOneByteBuffer fresh val = writeUInt8 (VSBuffer_alloc fresh 1) val 0"

section \<open>Variable-length integers\<close>

text \<open>The count of a shift is taken modulo 32; a missing byte reads as 0 and ends the number.\<close>

lemma slice_bound: "length (VSBuffer_slice (Some (int p)) stop b) \<le> length b - p"
  by (simp add: VSBuffer_slice_def subarray_index_def Let_def min_def)

lemma bits_at_Nil [simp]: "bits_at [] i = 0"
  by (simp add: bits_at_def byte_at_def)

function readIntVQL_loop :: "int \<Rightarrow> nat \<Rightarrow> bufferReader \<Rightarrow> bufferReader \<times> int" where
  "readIntVQL_loop val n r =
     (case BufferReader_read 1 r of (r, nxt) \<Rightarrow>
        let val = toInt32 (or val (toInt32 (push_bit (n mod 32) (and (bits_at nxt 0) 127)))) in
        if and (bits_at nxt 0) 128 = 0 then (r, val) else readIntVQL_loop val (n + 7) r)"
  by pat_completeness auto
termination
proof (relation "measure (\<lambda>(val, n, r). length (br_buffer r) - br_pos r)")
  fix val n r r' nxt val'
  assume read: "(r', nxt) = BufferReader_read 1 r" and more: "and (bits_at nxt 0) 128 \<noteq> 0"
  have "length nxt \<noteq> 0"
    using more by auto
  moreover have "length nxt \<le> length (br_buffer r) - br_pos r" "r' = r\<lparr>br_pos := br_pos r + length nxt\<rparr>"
    using read slice_bound by (simp_all add: BufferReader_read_def Let_def)
  ultimately show "((val', n + 7, r'), (val, n, r)) \<in> measure (\<lambda>(val, n, r). length (br_buffer r) - br_pos r)"
    by (cases nxt) auto
qed simp

declare readIntVQL_loop.simps [simp del]

definition readIntVQL :: "bufferReader \<Rightarrow> bufferReader \<times> int" where
  "readIntVQL r = readIntVQL_loop 0 0 r"

function vql_len :: "int \<Rightarrow> nat" where
  "vql_len v2 = (if v2 \<noteq> 0 then 1 + vql_len (drop_bit 7 (u32 v2)) else 0)"
  by pat_completeness auto
termination
  by (relation "measure (\<lambda>v. if 0 \<le> v \<and> v < 2 ^ 32 then nat v else 2 ^ 32)") (auto simp: u32_def drop_bit_eq_div)

declare vql_len.simps [simp del]

function vql_fill :: "nat \<Rightarrow> int \<Rightarrow> bytes \<Rightarrow> bytes" where
  "vql_fill i val scratch =
     (if val \<noteq> 0 then
        let scratch = scratch[i := word_of_int (and val 127)]; val = drop_bit 7 (u32 val) in
        vql_fill (i + 1) val (if val > 0 then scratch[i := word_of_int (or (bits_at scratch i) 128)] else scratch)
      else scratch)"
  by pat_completeness auto
termination
  by (relation "measure (\<lambda>(i, v, s). if 0 \<le> v \<and> v < 2 ^ 32 then nat v else 2 ^ 32)") (auto simp: u32_def drop_bit_eq_div)

declare vql_fill.simps [simp del]

definition writeInt32VQL :: "(nat \<Rightarrow> byte) \<Rightarrow> int \<Rightarrow> bufferWriter \<Rightarrow> bufferWriter" where
  "writeInt32VQL fresh val w =
     (if val = 0 then BufferWriter_write (createOneByteBuffer fresh 0) w
      else BufferWriter_write (vql_fill 0 val (VSBuffer_alloc fresh (vql_len val))) w)"

section \<open>Values\<close>

datatype 'o ipc_value = VUndefined | VString js_string | VBuffer bytes | VVSBuffer bytes
  | VArray "'o ipc_value list" | VNumber int | VOther 'o

definition DT_Undefined :: int where "DT_Undefined = 0"
definition DT_String :: int where "DT_String = 1"
definition DT_Buffer :: int where "DT_Buffer = 2"
definition DT_VSBuffer :: int where "DT_VSBuffer = 3"
definition DT_Array :: int where "DT_Array = 4"
definition DT_Object :: int where "DT_Object = 5"
definition DT_Int :: int where "DT_Int = 6"

lemmas DT_defs = DT_Undefined_def DT_String_def DT_Buffer_def DT_VSBuffer_def DT_Array_def DT_Object_def DT_Int_def

text \<open>Type, length and contents.\<close>

definition serialize_bytes :: "(nat \<Rightarrow> byte) \<Rightarrow> int \<Rightarrow> bytes \<Rightarrow> bufferWriter \<Rightarrow> bufferWriter" where
  "serialize_bytes fresh ty buffer w =
     BufferWriter_write buffer (writeInt32VQL fresh (int (length buffer)) (BufferWriter_write (createOneByteBuffer fresh ty) w))"

text \<open>
  The bytes of a string, and the string in bytes that were read.  What is read is a part of a message; the buffers of messages come from \<open>alloc\<close> and \<open>wrap\<close>,
  so they are Node.js buffers exactly if the platform has them.
\<close>

abbreviation text_bytes :: "bool \<Rightarrow> js_string \<Rightarrow> bytes" where
  "text_bytes hasBuffer s \<equiv> store_bytes (VSBuffer_fromString hasBuffer False s)"

abbreviation read_text :: "bool \<Rightarrow> bytes \<Rightarrow> js_string" where
  "read_text hasBuffer b \<equiv> VSBuffer_toString hasBuffer (VSBuffer_wrap hasBuffer (PlainArray b))"

definition serialize_json ::
  "bool \<Rightarrow> ('o ipc_value \<Rightarrow> js_error + js_string) \<Rightarrow> (nat \<Rightarrow> byte) \<Rightarrow> 'o ipc_value \<Rightarrow> bufferWriter \<Rightarrow> js_error + bufferWriter" where
  "serialize_json hasBuffer stringify fresh data w =
     bind_result (stringify data) (\<lambda>s. Inr (serialize_bytes fresh DT_Object (text_bytes hasBuffer s) w))"

fun serialize ::
  "bool \<Rightarrow> ('o ipc_value \<Rightarrow> js_error + js_string) \<Rightarrow> (nat \<Rightarrow> byte) \<Rightarrow> 'o ipc_value \<Rightarrow> bufferWriter \<Rightarrow> js_error + bufferWriter"
and serialize_elements ::
  "bool \<Rightarrow> ('o ipc_value \<Rightarrow> js_error + js_string) \<Rightarrow> (nat \<Rightarrow> byte) \<Rightarrow> 'o ipc_value list \<Rightarrow> bufferWriter \<Rightarrow> js_error + bufferWriter" where
  "serialize hasBuffer stringify fresh VUndefined w = Inr (BufferWriter_write (createOneByteBuffer fresh DT_Undefined) w)"
| "serialize hasBuffer stringify fresh (VString s) w =
     Inr (serialize_bytes fresh DT_String (text_bytes hasBuffer s) w)"
| "serialize hasBuffer stringify fresh (VBuffer b) w = Inr (serialize_bytes fresh DT_Buffer b w)"
| "serialize hasBuffer stringify fresh (VVSBuffer b) w = Inr (serialize_bytes fresh DT_VSBuffer b w)"
| "serialize hasBuffer stringify fresh (VArray xs) w =
     serialize_elements hasBuffer stringify fresh xs
       (writeInt32VQL fresh (int (length xs)) (BufferWriter_write (createOneByteBuffer fresh DT_Array) w))"
| "serialize hasBuffer stringify fresh (VNumber n) w =
     (if toInt32 n = n then Inr (writeInt32VQL fresh n (BufferWriter_write (createOneByteBuffer fresh DT_Int) w))
      else serialize_json hasBuffer stringify fresh (VNumber n) w)"
| "serialize hasBuffer stringify fresh (VOther x) w = serialize_json hasBuffer stringify fresh (VOther x) w"
| "serialize_elements hasBuffer stringify fresh [] w = Inr w"
| "serialize_elements hasBuffer stringify fresh (x # xs) w =
     bind_result (serialize hasBuffer stringify fresh x w) (serialize_elements hasBuffer stringify fresh xs)"

text \<open>
  The loop over the elements of an array runs \<open>length\<close> times, also past the end of the buffer; every
  nested call of \<open>deserialize\<close> for an array has consumed a byte, so the nesting is bounded by the buffer.
\<close>

definition read_bytes :: "bufferReader \<Rightarrow> bufferReader \<times> bytes" where
  "read_bytes r = (case readIntVQL r of (r, n) \<Rightarrow> BufferReader_read n r)"

primrec deserialize_times ::
  "(bufferReader \<Rightarrow> js_error + bufferReader \<times> 'o ipc_value) \<Rightarrow> nat \<Rightarrow> bufferReader \<Rightarrow> 'o ipc_value list \<Rightarrow>
   js_error + bufferReader \<times> 'o ipc_value list" where
  "deserialize_times f 0 r result = Inr (r, result)"
| "deserialize_times f (Suc n) r result =
     bind_result (f r) (\<lambda>(r, x). deserialize_times f n r (result @ [x]))"

fun deserialize_loop ::
  "bool \<Rightarrow> (js_string \<Rightarrow> js_error + 'o ipc_value) \<Rightarrow> nat \<Rightarrow> bufferReader \<Rightarrow> js_error + bufferReader \<times> 'o ipc_value" where
  "deserialize_loop hasBuffer parse 0 r = Inl DoesNotReturn"
| "deserialize_loop hasBuffer parse (Suc depth) r =
     (case BufferReader_read 1 r of (r, b) \<Rightarrow>
        let ty = readUInt8 b 0 in
        if ty = Some DT_Undefined then Inr (r, VUndefined)
        else if ty = Some DT_String then (case read_bytes r of (r, b) \<Rightarrow> Inr (r, VString (read_text hasBuffer b)))
        else if ty = Some DT_Buffer then (case read_bytes r of (r, b) \<Rightarrow> Inr (r, VBuffer b))
        else if ty = Some DT_VSBuffer then (case read_bytes r of (r, b) \<Rightarrow> Inr (r, VVSBuffer b))
        else if ty = Some DT_Array then
          (case readIntVQL r of (r, len) \<Rightarrow>
             bind_result (deserialize_times (deserialize_loop hasBuffer parse depth) (nat len) r [])
               (\<lambda>(r, result). Inr (r, VArray result)))
        else if ty = Some DT_Object then
          (case read_bytes r of (r, b) \<Rightarrow> bind_result (parse (read_text hasBuffer b)) (\<lambda>x. Inr (r, x)))
        else if ty = Some DT_Int then (case readIntVQL r of (r, n) \<Rightarrow> Inr (r, VNumber n))
        else Inr (r, VUndefined))"

definition deserialize :: "bool \<Rightarrow> (js_string \<Rightarrow> js_error + 'o ipc_value) \<Rightarrow> bufferReader \<Rightarrow> js_error + bufferReader \<times> 'o ipc_value" where
  "deserialize hasBuffer parse r = deserialize_loop hasBuffer parse (length (br_buffer r) - br_pos r + 1) r"

section \<open>Reading\<close>

definition unread :: "bufferReader \<Rightarrow> bytes" where
  "unread r = drop (br_pos r) (br_buffer r)"

lemma read_exact:
  assumes "unread r = xs @ ys"
  shows "\<exists>r'. BufferReader_read (int (length xs)) r = (r', xs) \<and> unread r' = ys"
proof -
  have "br_pos r + length xs \<le> length (br_buffer r) \<or> xs = []"
    using assms length_drop [of "br_pos r" "br_buffer r"] by (cases "br_pos r \<le> length (br_buffer r)") (auto simp: unread_def)
  then have "VSBuffer_slice (Some (int (br_pos r))) (Some (int (br_pos r) + int (length xs))) (br_buffer r) = xs"
    using assms by (auto simp: VSBuffer_slice_def subarray_index_def unread_def nat_add_distrib min_def)
  moreover have "drop (br_pos r + length xs) (br_buffer r) = ys"
    using assms unfolding unread_def by (metis add.commute append_eq_conv_conj drop_drop)
  ultimately show ?thesis
    by (auto simp: BufferReader_read_def unread_def)
qed

lemma read_byte:
  assumes "unread r = b # ys"
  shows "\<exists>r'. BufferReader_read 1 r = (r', [b]) \<and> unread r' = ys"
  using read_exact [of r "[b]" ys] assms by simp

lemma read_shrinks: "BufferReader_read n r = (r', b) \<Longrightarrow> length (unread r') \<le> length (unread r)"
  by (auto simp: BufferReader_read_def Let_def unread_def)

lemma read_progress:
  assumes "BufferReader_read n r = (r', b)" "b \<noteq> []"
  shows "length (unread r') < length (unread r)"
proof -
  have "length b \<le> length (br_buffer r) - br_pos r" "r' = r\<lparr>br_pos := br_pos r + length b\<rparr>"
    using assms(1) slice_bound by (auto simp: BufferReader_read_def Let_def)
  then show ?thesis
    using assms(2) by (cases b) (auto simp: unread_def)
qed

section \<open>Variable-length integers round trip\<close>

text \<open>The reference encoding: groups of seven bits, the lowest first, marked except for the last one.\<close>

function vql :: "int \<Rightarrow> bytes" where
  "vql n = (if 128 \<le> n then word_of_int (128 + n mod 128) # vql (n div 128) else [word_of_int n])"
  by pat_completeness auto
termination
  by (relation "measure nat") auto

declare vql.simps [simp del]

lemma and_127 [simp]: "and (x :: int) 127 = x mod 128"
  using take_bit_eq_mask [of 7 x] by (simp add: take_bit_eq_mod mask_eq_exp_minus_1)

lemma drop_bit_7: "drop_bit 7 (x :: int) = x div 128"
  by (simp add: drop_bit_eq_div)

lemma and_128: "0 \<le> x \<Longrightarrow> x < 256 \<Longrightarrow> and (x :: int) 128 = 0 \<longleftrightarrow> x < 128"
proof -
  assume x: "0 \<le> x" "x < 256"
  have "and x 128 = 0 \<longleftrightarrow> even (x div 128)"
    using and_exp_eq_0_iff_not_bit [of x 7] by (simp add: bit_iff_odd)
  also have "even (x div 128) \<longleftrightarrow> x < 128"
  proof (cases "x < 128")
    case False
    then have "x div 128 = 1"
      using x by linarith
    with False show ?thesis
      by simp
  qed (use x in simp)
  finally show ?thesis .
qed

lemma or_128: "0 \<le> x \<Longrightarrow> x < 128 \<Longrightarrow> or (x :: int) 128 = x + 128"
  using or_push_bit [of x 7 1] by simp

lemma u32_or: "u32 (or x y) = or (u32 x) (u32 y)"
  using take_bit_or [of 32 x y] by (simp add: u32_def take_bit_eq_mod)

lemma u32_toInt32 [simp]: "u32 (toInt32 x) = u32 x"
  by (simp add: u32_def toInt32_def mod_diff_left_eq)

lemma toInt32_cong: "u32 x = u32 y \<Longrightarrow> toInt32 x = toInt32 y"
  by (metis toInt32_u32)

lemma vql_accumulate:
  assumes "0 \<le> acc" "acc < 2 ^ n" "0 \<le> d" "acc + d * 2 ^ n < 2 ^ 32" "u32 val = acc"
  shows "u32 (or val (toInt32 (push_bit n d))) = acc + d * 2 ^ n"
proof -
  have "0 \<le> d * 2 ^ n" "d * 2 ^ n < 2 ^ 32"
    using assms by (simp_all add: zero_le_mult_iff)
  then have "u32 (push_bit n d) = push_bit n d"
    by (simp add: u32_def push_bit_eq_mult)
  then show ?thesis
    using or_push_bit [OF assms(1,2)] assms(5) by (simp add: u32_or)
qed

lemma bits_byte: "0 \<le> x \<Longrightarrow> x < 256 \<Longrightarrow> bits_at (word_of_int x # bs) 0 = x"
  by (simp add: bits_at_def byte_at_def)

lemma readIntVQL_vql:
  assumes "0 \<le> m" "acc + m * 2 ^ n < 2 ^ 32" "0 \<le> acc" "acc < 2 ^ n" "n < 32" "u32 val = acc" "unread r = vql m @ ys"
  shows "\<exists>r'. readIntVQL_loop val n r = (r', toInt32 (acc + m * 2 ^ n)) \<and> unread r' = ys"
  using assms
proof (induction m arbitrary: acc n val r rule: vql.induct)
  case (1 m)
  show ?case
  proof (cases "128 \<le> m")
    case True
    let ?b = "128 + m mod 128" and ?d = "m mod 128"
    have vql: "unread r = word_of_int ?b # vql (m div 128) @ ys"
      using 1(8) True by (subst (asm) vql.simps) simp
    obtain r1 where r1: "BufferReader_read 1 r = (r1, [word_of_int ?b])" "unread r1 = vql (m div 128) @ ys"
      using read_byte [OF vql] by blast
    let ?v = "toInt32 (or val (toInt32 (push_bit n ?d)))"
    have m: "m = ?d + 128 * (m div 128)" "0 \<le> ?d" "?d < 128" "1 \<le> m div 128"
      using True by simp_all
    have split: "acc + ?d * 2 ^ n + m div 128 * 2 ^ (n + 7) = acc + m * 2 ^ n"
    proof -
      have "acc + d * 2 ^ n + q * 2 ^ (n + 7) = acc + (d + 128 * q) * 2 ^ n" for d q :: int
        by (simp add: power_add algebra_simps)
      from this [of ?d "m div 128"] show ?thesis
        by simp
    qed
    have "0 \<le> ?d * 2 ^ n" "(0 :: int) \<le> 2 ^ (n + 7)"
      using m(2) by simp_all
    moreover have "2 ^ (n + 7) \<le> m div 128 * 2 ^ (n + 7)"
      using m(4) by (simp add: mult_le_cancel_right1)
    ultimately have small: "(2 :: int) ^ (n + 7) < 2 ^ 32" "acc + ?d * 2 ^ n < 2 ^ 32"
      using split 1(3,4) by linarith+
    have step: "u32 ?v = acc + ?d * 2 ^ n"
      using vql_accumulate [of acc n ?d val] 1(4,5,7) m(2) small(2) by simp
    have bits: "bits_at [word_of_int ?b :: byte] 0 = ?b"
      by (rule bits_byte) (use m in simp_all)
    have "acc + ?d * 2 ^ n < 2 ^ (n + 7)"
    proof -
      have "?d * 2 ^ n \<le> 127 * 2 ^ n"
        using m(3) by (intro mult_right_mono) simp_all
      moreover have "(2 :: int) ^ (n + 7) = 128 * 2 ^ n"
        by (simp add: power_add)
      ultimately show ?thesis
        using 1(5) by linarith
    qed
    moreover have "n + 7 < 32"
      using small(1) power_less_imp_less_exp [of "2 :: int" "n + 7" 32] by simp
    moreover have "0 \<le> ?b" "?b < 256" "\<not> ?b < 128"
      using m by linarith+
    then have "and ?b 128 \<noteq> 0"
      using and_128 by blast
    then have "readIntVQL_loop val n r = readIntVQL_loop ?v (n + 7) r1"
      using r1(1) bits 1(6) by (subst readIntVQL_loop.simps) (simp add: Let_def)
    ultimately show ?thesis
      using 1(1) [OF True, of "acc + ?d * 2 ^ n" "n + 7" ?v r1] split 1(3,4) step r1(2) m(2,4) by simp
  next
    case False
    have m: "0 \<le> m" "m < 128"
      using False 1(2) by simp_all
    have vql: "unread r = word_of_int m # ys"
      using 1(8) False by (subst (asm) vql.simps) simp
    obtain r1 where r1: "BufferReader_read 1 r = (r1, [word_of_int m])" "unread r1 = ys"
      using read_byte [OF vql] by blast
    have bits: "bits_at [word_of_int m :: byte] 0 = m"
      using m by (simp add: bits_at_def byte_at_def)
    have "toInt32 (or val (toInt32 (push_bit n m))) = toInt32 (acc + m * 2 ^ n)"
      using vql_accumulate [OF 1(4,5) m(1) 1(3,7)] 1(3,4) m(1) by (intro toInt32_cong) (simp add: u32_def)
    moreover have "readIntVQL_loop val n r = (r1, toInt32 (or val (toInt32 (push_bit n m))))"
      using r1(1) bits m and_128 [of m] 1(6) by (subst readIntVQL_loop.simps) (simp add: Let_def)
    ultimately show ?thesis
      using r1(2) by simp
  qed
qed

lemma readIntVQL_exact:
  assumes "0 \<le> m" "m < 2 ^ 32" "unread r = vql m @ ys"
  shows "\<exists>r'. readIntVQL r = (r', toInt32 m) \<and> unread r' = ys"
  using readIntVQL_vql [of m 0 0 0 r ys] assms by (simp add: readIntVQL_def u32_def)

lemma vql_len_pos:
  assumes "0 < v" "v < 2 ^ 32"
  shows "vql_len v = length (vql v)"
  using assms
proof (induction v rule: vql.induct)
  case (1 v)
  have "vql_len v = 1 + vql_len (v div 128)"
    using 1(2,3) by (subst vql_len.simps) (simp add: drop_bit_7 u32_def)
  moreover have "vql_len 0 = 0"
    by (subst vql_len.simps) simp
  ultimately show ?case
    using 1 by (cases "128 \<le> v") (simp_all add: vql.simps [of v])
qed

lemma vql_fill_pos:
  assumes "0 < v" "v < 2 ^ 32" "length scratch = i + length (vql v)"
  shows "vql_fill i v scratch = take i scratch @ vql v"
  using assms
proof (induction v arbitrary: i scratch rule: vql.induct)
  case (1 v)
  have i: "i < length scratch"
    using 1(4) by (simp add: vql.simps [of v] split: if_splits)
  have u: "drop_bit 7 (u32 v) = v div 128"
    using 1(2,3) by (simp add: drop_bit_7 u32_def)
  show ?case
  proof (cases "128 \<le> v")
    case True
    let ?s = "scratch[i := word_of_int (128 + v mod 128)]"
    have d: "0 \<le> v mod 128" "v mod 128 < 128" "1 \<le> v div 128"
      using True by simp_all
    have "bits_at (scratch[i := word_of_int (v mod 128)]) i = v mod 128"
      using i by (simp add: bits_at_def)
    then have "vql_fill i v scratch = vql_fill (i + 1) (v div 128) ?s"
      using 1(2) u d or_128 [OF d(1,2)] by (subst vql_fill.simps) (simp add: Let_def add.commute)
    also have "\<dots> = take (i + 1) ?s @ vql (v div 128)"
      using 1(2-4) True by (intro 1(1)) (simp_all add: vql.simps [of v])
    also have "take (i + 1) ?s = take i scratch @ [word_of_int (128 + v mod 128)]"
      using i by (simp add: take_Suc_conv_app_nth)
    finally show ?thesis
      using True by (simp add: vql.simps [of v])
  next
    case False
    then have "vql_fill i v scratch = scratch[i := word_of_int v]"
      using 1(2) u by (subst vql_fill.simps) (simp add: Let_def vql_fill.simps)
    moreover have "length scratch = i + 1"
      using False 1(4) by (simp add: vql.simps [of v])
    ultimately show ?thesis
      using False i by (simp add: vql.simps [of v] upd_conv_take_nth_drop)
  qed
qed

lemma vql_wrap:
  assumes "u32 v \<noteq> 0"
  shows "vql_len v = vql_len (u32 v)" "vql_fill i v s = vql_fill i (u32 v) s"
proof -
  have v: "v \<noteq> 0" "u32 (u32 v) = u32 v" "u32 v mod 128 = v mod 128"
    using assms by (auto simp: u32_def mod_mod_cancel)
  show "vql_len v = vql_len (u32 v)"
    using assms v by (subst (1 2) vql_len.simps) simp
  show "vql_fill i v s = vql_fill i (u32 v) s"
    using assms v by (subst (1 2) vql_fill.simps) simp
qed

lemma oneByte [simp]: "createOneByteBuffer fresh v = [word_of_int v]"
  by (simp add: createOneByteBuffer_def writeUInt8_def VSBuffer_alloc_def)

lemma writeInt32VQL_vql:
  assumes "val = 0 \<or> u32 val \<noteq> 0"
  shows "writeInt32VQL fresh val w = w @ [vql (u32 val)]"
proof (cases "val = 0")
  case True
  then show ?thesis
    by (simp add: writeInt32VQL_def BufferWriter_write_def u32_def vql.simps [of 0])
next
  case False
  have "0 < u32 val" "u32 val < 2 ^ 32"
    using assms False by (simp_all add: u32_def order_le_neq_trans)
  then have "vql_fill 0 (u32 val) (VSBuffer_alloc fresh (vql_len (u32 val))) = vql (u32 val)"
    by (subst vql_fill_pos) (simp_all add: vql_len_pos)
  then show ?thesis
    using assms False vql_wrap [of val] by (simp add: writeInt32VQL_def BufferWriter_write_def)
qed

section \<open>Values round trip\<close>

text \<open>
  What the sender may rely on: \<open>JSON.parse\<close> undoes \<open>JSON.stringify\<close> on the value, lengths fit into 31 bits,
  and strings have no unpaired surrogates (and, without \<open>Buffer\<close>, no leading byte order mark).
\<close>

definition string_ok :: "bool \<Rightarrow> js_string \<Rightarrow> bool" where
  "string_ok hasBuffer s \<longleftrightarrow> well_formed s \<and> (hasBuffer \<or> s = [] \<or> hd s \<noteq> 0xFEFF) \<and> int (length (utf8_encode s)) < 2 ^ 31"

definition json_ok :: "bool \<Rightarrow> ('o ipc_value \<Rightarrow> js_error + js_string) \<Rightarrow> (js_string \<Rightarrow> js_error + 'o ipc_value) \<Rightarrow> 'o ipc_value \<Rightarrow> bool" where
  "json_ok hasBuffer stringify parse x \<longleftrightarrow>
     (case stringify x of Inl _ \<Rightarrow> False | Inr s \<Rightarrow> string_ok hasBuffer s \<and> parse s = Inr x)"

fun value_ok :: "bool \<Rightarrow> ('o ipc_value \<Rightarrow> js_error + js_string) \<Rightarrow> (js_string \<Rightarrow> js_error + 'o ipc_value) \<Rightarrow> 'o ipc_value \<Rightarrow> bool" where
  "value_ok hasBuffer stringify parse VUndefined \<longleftrightarrow> True"
| "value_ok hasBuffer stringify parse (VString s) \<longleftrightarrow> string_ok hasBuffer s"
| "value_ok hasBuffer stringify parse (VBuffer b) \<longleftrightarrow> int (length b) < 2 ^ 31"
| "value_ok hasBuffer stringify parse (VVSBuffer b) \<longleftrightarrow> int (length b) < 2 ^ 31"
| "value_ok hasBuffer stringify parse (VArray xs) \<longleftrightarrow>
     int (length xs) < 2 ^ 31 \<and> (\<forall>x \<in> set xs. value_ok hasBuffer stringify parse x)"
| "value_ok hasBuffer stringify parse (VNumber n) \<longleftrightarrow> toInt32 n = n \<or> json_ok hasBuffer stringify parse (VNumber n)"
| "value_ok hasBuffer stringify parse (VOther x) \<longleftrightarrow> json_ok hasBuffer stringify parse (VOther x)"

text \<open>The reference format.\<close>

definition enc_bytes :: "int \<Rightarrow> bytes \<Rightarrow> bytes" where
  "enc_bytes ty b = word_of_int ty # vql (int (length b)) @ b"

definition enc_json :: "('o ipc_value \<Rightarrow> js_error + js_string) \<Rightarrow> 'o ipc_value \<Rightarrow> bytes" where
  "enc_json stringify x = (case stringify x of Inl _ \<Rightarrow> [] | Inr s \<Rightarrow> enc_bytes DT_Object (utf8_encode s))"

fun enc :: "('o ipc_value \<Rightarrow> js_error + js_string) \<Rightarrow> 'o ipc_value \<Rightarrow> bytes" where
  "enc stringify VUndefined = [word_of_int DT_Undefined]"
| "enc stringify (VString s) = enc_bytes DT_String (utf8_encode s)"
| "enc stringify (VBuffer b) = enc_bytes DT_Buffer b"
| "enc stringify (VVSBuffer b) = enc_bytes DT_VSBuffer b"
| "enc stringify (VArray xs) = word_of_int DT_Array # vql (int (length xs)) @ concat (map (enc stringify) xs)"
| "enc stringify (VNumber n) =
     (if toInt32 n = n then word_of_int DT_Int # vql (u32 n) else enc_json stringify (VNumber n))"
| "enc stringify (VOther x) = enc_json stringify (VOther x)"

lemma u32_length [simp]: "int n < 2 ^ 31 \<Longrightarrow> u32 (int n) = int n" "int n < 2 ^ 31 \<Longrightarrow> toInt32 (int n) = int n"
  by (simp_all add: u32_def toInt32_def)

lemma toInt32_zero: "toInt32 0 = 0"
  by (simp add: toInt32_def)

lemma int32_nonzero: "toInt32 n = n \<Longrightarrow> n = 0 \<or> u32 n \<noteq> 0"
  by (metis toInt32_u32 toInt32_zero)

lemma writeInt32VQL_length: "int n < 2 ^ 31 \<Longrightarrow> writeInt32VQL fresh (int n) w = w @ [vql (int n)]"
  by (subst writeInt32VQL_vql) auto

lemma serialize_bytes_enc:
  "int (length b) < 2 ^ 31 \<Longrightarrow> serialize_bytes fresh ty b w = w @ [[word_of_int ty], vql (int (length b)), b]"
  by (simp add: serialize_bytes_def writeInt32VQL_length BufferWriter_write_def)

lemma serialize_json_enc:
  assumes "json_ok hasBuffer stringify parse x"
  shows "\<exists>bs. serialize_json hasBuffer stringify fresh x w = Inr (w @ bs) \<and> concat bs = enc_json stringify x"
proof -
  obtain s where "stringify x = Inr s" "string_ok hasBuffer s"
    using assms by (auto simp: json_ok_def split: sum.splits)
  then show ?thesis
    by (simp add: serialize_json_def enc_json_def serialize_bytes_enc VSBuffer_fromString_def string_ok_def enc_bytes_def)
qed

lemma serialize_enc:
  "value_ok hasBuffer stringify parse v \<Longrightarrow>
     \<exists>bs. serialize hasBuffer stringify fresh v w = Inr (w @ bs) \<and> concat bs = enc stringify v"
  "\<forall>x \<in> set vs. value_ok hasBuffer stringify parse x \<Longrightarrow>
     \<exists>bs. serialize_elements hasBuffer stringify fresh vs w = Inr (w @ bs) \<and> concat bs = concat (map (enc stringify) vs)"
proof (induction hasBuffer stringify fresh v w and hasBuffer stringify fresh vs w rule: serialize_serialize_elements.induct)
  case (5 hasBuffer stringify fresh xs w)
  then show ?case
    by (fastforce simp: writeInt32VQL_length BufferWriter_write_def)
next
  case (6 hasBuffer stringify fresh n w)
  then show ?case
    using serialize_json_enc [of hasBuffer stringify parse "VNumber n" fresh w] int32_nonzero [of n]
    by (auto simp: writeInt32VQL_vql BufferWriter_write_def)
next
  case (7 hasBuffer stringify fresh x w)
  then show ?case
    using serialize_json_enc [of hasBuffer stringify parse "VOther x" fresh w] by simp
next
  case (9 hasBuffer stringify fresh x xs w)
  obtain bs where bs: "serialize hasBuffer stringify fresh x w = Inr (w @ bs)" "concat bs = enc stringify x"
    using 9 by auto
  then obtain cs where "serialize_elements hasBuffer stringify fresh xs (w @ bs) = Inr ((w @ bs) @ cs)"
      "concat cs = concat (map (enc stringify) xs)"
    using 9(2) [of "w @ bs"] 9(3) by auto
  with bs show ?case
    by (intro exI [of _ "bs @ cs"]) simp
qed (simp_all add: BufferWriter_write_def serialize_bytes_enc enc_bytes_def VSBuffer_fromString_def string_ok_def)

lemma read_enc_bytes:
  assumes "unread r = vql (int (length b)) @ b @ ys" "int (length b) < 2 ^ 31"
  shows "\<exists>r'. read_bytes r = (r', b) \<and> unread r' = ys"
proof -
  obtain r1 where "readIntVQL r = (r1, int (length b))" "unread r1 = b @ ys"
    using readIntVQL_exact [OF _ _ assms(1)] assms(2) by auto
  then show ?thesis
    using read_exact [of r1 b ys] by (simp add: read_bytes_def)
qed

lemma read_string:
  assumes "string_ok hasBuffer s"
  shows "read_text hasBuffer (utf8_encode s) = s"
proof (cases hasBuffer)
  case True
  then show ?thesis
    using assms utf8_roundtrip [of s] by (simp add: string_ok_def VSBuffer_toString_def VSBuffer_wrap_def)
next
  case False
  have "take 3 (utf8_encode s) \<noteq> [0xEF, 0xBB, 0xBF]"
    using False assms utf8_encode_bom [of s] by (auto simp: string_ok_def)
  then show ?thesis
    using False assms utf8_roundtrip [of s] by (simp add: string_ok_def VSBuffer_toString_def VSBuffer_wrap_def)
qed

definition decodes :: "(bufferReader \<Rightarrow> js_error + bufferReader \<times> 'v) \<Rightarrow> bytes \<Rightarrow> 'v \<Rightarrow> bool" where
  "decodes f bs v \<longleftrightarrow> (\<forall>r ys. unread r = bs @ ys \<longrightarrow> (\<exists>r'. f r = Inr (r', v) \<and> unread r' = ys))"

lemma decodes_times:
  assumes "\<forall>x \<in> set xs. decodes f (e x) x" "unread r = concat (map e xs) @ ys"
  shows "\<exists>r'. deserialize_times f (length xs) r acc = Inr (r', acc @ xs) \<and> unread r' = ys"
  using assms
proof (induction xs arbitrary: r acc)
  case (Cons x xs)
  obtain r1 where r1: "f r = Inr (r1, x)" "unread r1 = concat (map e xs) @ ys"
    using Cons.prems by (fastforce simp: decodes_def)
  then show ?case
    using Cons.IH [of r1 "acc @ [x]"] Cons.prems(1) by simp
qed simp

lemma loop_types:
  assumes "BufferReader_read 1 r = (r1, [word_of_int ty])"
  shows "ty = DT_Undefined \<Longrightarrow> deserialize_loop hasBuffer parse (Suc d) r = Inr (r1, VUndefined)"
    "ty = DT_String \<Longrightarrow> deserialize_loop hasBuffer parse (Suc d) r =
       (case read_bytes r1 of (r, b) \<Rightarrow> Inr (r, VString (read_text hasBuffer b)))"
    "ty = DT_Buffer \<Longrightarrow> deserialize_loop hasBuffer parse (Suc d) r = (case read_bytes r1 of (r, b) \<Rightarrow> Inr (r, VBuffer b))"
    "ty = DT_VSBuffer \<Longrightarrow> deserialize_loop hasBuffer parse (Suc d) r = (case read_bytes r1 of (r, b) \<Rightarrow> Inr (r, VVSBuffer b))"
    "ty = DT_Array \<Longrightarrow> deserialize_loop hasBuffer parse (Suc d) r =
       (case readIntVQL r1 of (r, len) \<Rightarrow>
          bind_result (deserialize_times (deserialize_loop hasBuffer parse d) (nat len) r []) (\<lambda>(r, result). Inr (r, VArray result)))"
    "ty = DT_Object \<Longrightarrow> deserialize_loop hasBuffer parse (Suc d) r =
       (case read_bytes r1 of (r, b) \<Rightarrow> bind_result (parse (read_text hasBuffer b)) (\<lambda>x. Inr (r, x)))"
    "ty = DT_Int \<Longrightarrow> deserialize_loop hasBuffer parse (Suc d) r = (case readIntVQL r1 of (r, n) \<Rightarrow> Inr (r, VNumber n))"
  using assms by (simp_all add: Let_def readUInt8_def byte_at_def DT_defs)

declare deserialize_loop.simps(2) [simp del]

lemma decodes_bytes:
  assumes "int (length b) < 2 ^ 31"
    and "\<And>r r1. BufferReader_read 1 r = (r1, [word_of_int ty]) \<Longrightarrow> f r = (case read_bytes r1 of (r, b) \<Rightarrow> bind_result (k b) (\<lambda>x. Inr (r, x)))"
    and "k b = Inr v"
  shows "decodes f (enc_bytes ty b) v"
  unfolding decodes_def
proof (intro allI impI)
  fix r ys
  assume "unread r = enc_bytes ty b @ ys"
  then obtain r1 where r1: "BufferReader_read 1 r = (r1, [word_of_int ty])" "unread r1 = vql (int (length b)) @ b @ ys"
    using read_byte [of r "word_of_int ty" "vql (int (length b)) @ b @ ys"] by (auto simp: enc_bytes_def)
  obtain r2 where "read_bytes r1 = (r2, b)" "unread r2 = ys"
    using read_enc_bytes [OF r1(2) assms(1)] by blast
  then show "\<exists>r'. f r = Inr (r', v) \<and> unread r' = ys"
    using assms(2) [OF r1(1)] assms(3) by simp
qed

lemma decodes_int:
  assumes "toInt32 n = n"
  shows "decodes (deserialize_loop hasBuffer parse (Suc d)) (word_of_int DT_Int # vql (u32 n)) (VNumber n)"
  unfolding decodes_def
proof (intro allI impI)
  fix r ys
  assume "unread r = (word_of_int DT_Int # vql (u32 n)) @ ys"
  then obtain r1 where r1: "BufferReader_read 1 r = (r1, [word_of_int DT_Int])" "unread r1 = vql (u32 n) @ ys"
    using read_byte [of r "word_of_int DT_Int" "vql (u32 n) @ ys"] by auto
  obtain r2 where "readIntVQL r1 = (r2, n)" "unread r2 = ys"
    using readIntVQL_exact [OF _ _ r1(2)] assms toInt32_u32 [of n] by (auto simp: u32_def simp del: toInt32_u32)
  then show "\<exists>r'. deserialize_loop hasBuffer parse (Suc d) r = Inr (r', VNumber n) \<and> unread r' = ys"
    using loop_types(7) [OF r1(1), of hasBuffer parse d] by simp
qed

lemma decodes_array:
  assumes "int (length xs) < 2 ^ 31" "\<forall>x \<in> set xs. decodes (deserialize_loop hasBuffer parse d) (e x) x"
  shows "decodes (deserialize_loop hasBuffer parse (Suc d)) (word_of_int DT_Array # vql (int (length xs)) @ concat (map e xs)) (VArray xs)"
  unfolding decodes_def
proof (intro allI impI)
  fix r ys
  assume "unread r = (word_of_int DT_Array # vql (int (length xs)) @ concat (map e xs)) @ ys"
  then obtain r1 where r1: "BufferReader_read 1 r = (r1, [word_of_int DT_Array])" "unread r1 = vql (int (length xs)) @ concat (map e xs) @ ys"
    using read_byte [of r "word_of_int DT_Array" "vql (int (length xs)) @ concat (map e xs) @ ys"] by auto
  obtain r2 where r2: "readIntVQL r1 = (r2, int (length xs))" "unread r2 = concat (map e xs) @ ys"
    using readIntVQL_exact [OF _ _ r1(2)] assms(1) by auto
  show "\<exists>r'. deserialize_loop hasBuffer parse (Suc d) r = Inr (r', VArray xs) \<and> unread r' = ys"
    using decodes_times [OF assms(2) r2(2), of "[]"] loop_types(5) [OF r1(1), of hasBuffer parse d] r2(1) by auto
qed

lemma decodes_json:
  assumes "json_ok hasBuffer stringify parse x"
  shows "decodes (deserialize_loop hasBuffer parse (Suc d)) (enc_json stringify x) x"
proof -
  obtain s where s: "stringify x = Inr s" "string_ok hasBuffer s" "parse s = Inr x"
    using assms by (auto simp: json_ok_def split: sum.splits)
  have "decodes (deserialize_loop hasBuffer parse (Suc d)) (enc_bytes DT_Object (utf8_encode s)) x"
    using s loop_types(6) [where hasBuffer = hasBuffer and parse = parse and d = d] read_string [OF s(2)]
    by (intro decodes_bytes [where k = "\<lambda>b. parse (read_text hasBuffer b)"]) (auto simp: string_ok_def)
  with s(1) show ?thesis
    by (simp add: enc_json_def)
qed

lemma enc_nonempty: "value_ok hasBuffer stringify parse v \<Longrightarrow> 0 < length (enc stringify v)"
  by (cases v) (auto simp: enc_bytes_def enc_json_def json_ok_def split: sum.splits)

lemma deserialize_enc:
  assumes "value_ok hasBuffer stringify parse v" "length (enc stringify v) \<le> d"
  shows "decodes (deserialize_loop hasBuffer parse d) (enc stringify v) v"
  using assms
proof (induction v arbitrary: d)
  case (VArray xs)
  obtain d' where d: "d = Suc d'"
    using VArray.prems(2) by (cases d) auto
  have "length (enc stringify x) \<le> d'" if "x \<in> set xs" for x
  proof -
    have "length (enc stringify x) \<le> length (concat (map (enc stringify) xs))"
      using that by (simp add: length_concat member_le_sum_list comp_def)
    then show ?thesis
      using VArray.prems(2) d by simp
  qed
  then show ?case
    using VArray.IH VArray.prems(1) unfolding d enc.simps by (intro decodes_array) auto
next
  case (VNumber n)
  then obtain d' where "d = Suc d'"
    using enc_nonempty [OF VNumber(1)] by (cases d) auto
  with VNumber(1) show ?case
    using decodes_int decodes_json [of hasBuffer stringify parse "VNumber n" d'] by auto
next
  case (VOther x)
  then obtain d' where "d = Suc d'"
    using enc_nonempty [OF VOther(1)] by (cases d) auto
  with VOther(1) show ?case
    using decodes_json [of hasBuffer stringify parse "VOther x" d'] by simp
next
  case VUndefined
  then obtain d' where "d = Suc d'"
    by (cases d) auto
  then show ?case
    using loop_types(1) [where hasBuffer = hasBuffer and parse = parse and d = d'] read_byte by (fastforce simp: decodes_def)
next
  case (VString s)
  then obtain d' where "d = Suc d'"
    using enc_nonempty [OF VString(1)] by (cases d) auto
  then show ?case
    using VString loop_types(2) [where hasBuffer = hasBuffer and parse = parse and d = d'] read_string [of hasBuffer s]
    by (simp only: enc.simps, intro decodes_bytes [where k = "\<lambda>b. Inr (VString (read_text hasBuffer b))"])
      (auto simp: string_ok_def)
next
  case (VBuffer b)
  then obtain d' where "d = Suc d'"
    using enc_nonempty [OF VBuffer(1)] by (cases d) auto
  then show ?case
    using VBuffer loop_types(3) [where hasBuffer = hasBuffer and parse = parse and d = d'] by (simp only: enc.simps, intro decodes_bytes [where k = "\<lambda>b. Inr (VBuffer b)"]) auto
next
  case (VVSBuffer b)
  then obtain d' where "d = Suc d'"
    using enc_nonempty [OF VVSBuffer(1)] by (cases d) auto
  then show ?case
    using VVSBuffer loop_types(4) [where hasBuffer = hasBuffer and parse = parse and d = d'] by (simp only: enc.simps, intro decodes_bytes [where k = "\<lambda>b. Inr (VVSBuffer b)"]) auto
qed

section \<open>Termination on every input\<close>

lemma readIntVQL_loop_shrinks: "length (unread (fst (readIntVQL_loop val n r))) \<le> length (unread r)"
proof (induction val n r rule: readIntVQL_loop.induct)
  case (1 val n r)
  obtain r1 nxt where r1: "BufferReader_read 1 r = (r1, nxt)"
    by (cases "BufferReader_read 1 r")
  show ?case
    using 1 [OF r1 [symmetric] refl] read_shrinks [OF r1] r1
    by (subst readIntVQL_loop.simps) (force simp: Let_def)
qed

lemma readIntVQL_shrinks: "readIntVQL r = (r', n) \<Longrightarrow> length (unread r') \<le> length (unread r)"
  using readIntVQL_loop_shrinks [of 0 0 r] by (simp add: readIntVQL_def)

lemma read_bytes_shrinks: "read_bytes r = (r', b) \<Longrightarrow> length (unread r') \<le> length (unread r)"
  using readIntVQL_shrinks [of r] read_shrinks by (fastforce simp: read_bytes_def split: prod.splits)

text \<open>A decoder that returns or throws, and consumes.\<close>

definition returns :: "nat \<Rightarrow> (js_error + bufferReader \<times> 'v) \<Rightarrow> bool" where
  "returns n res \<longleftrightarrow> (case res of Inl e \<Rightarrow> e \<noteq> DoesNotReturn | Inr (r, v) \<Rightarrow> length (unread r) \<le> n)"

lemma returns_Inr [simp]: "returns n (Inr (r, v)) \<longleftrightarrow> length (unread r) \<le> n"
  by (simp add: returns_def)

lemma returns_times:
  assumes "\<And>r. length (unread r) \<le> n \<Longrightarrow> returns (length (unread r)) (f r)" "length (unread r) \<le> n"
  shows "returns (length (unread r)) (deserialize_times f k r acc)"
  using assms(2)
proof (induction k arbitrary: r acc)
  case (Suc k)
  show ?case
  proof (cases "f r")
    case (Inr res)
    obtain r1 v where res: "res = (r1, v)"
      by (cases res)
    then have "length (unread r1) \<le> length (unread r)"
      using assms(1) [OF Suc.prems] Inr by (simp add: returns_def)
    then show ?thesis
      using Suc.IH [of r1 "acc @ [v]"] Suc.prems Inr res by (auto simp: returns_def split: sum.splits)
  qed (use assms(1) [OF Suc.prems] in \<open>simp add: returns_def\<close>)
qed (simp add: returns_def)

lemma deserialize_loop_returns:
  assumes "\<And>s. parse s \<noteq> Inl DoesNotReturn" "length (unread r) < depth"
  shows "returns (length (unread r)) (deserialize_loop hasBuffer parse depth r)"
  using assms(2)
proof (induction depth arbitrary: r)
  case (Suc depth)
  obtain r1 b where r1: "BufferReader_read 1 r = (r1, b)"
    by (cases "BufferReader_read 1 r")
  note le = read_shrinks [OF r1]
  obtain r2 c where r2: "read_bytes r1 = (r2, c)"
    by (cases "read_bytes r1")
  obtain r3 n where r3: "readIntVQL r1 = (r3, n)"
    by (cases "readIntVQL r1")
  have le2: "length (unread r2) \<le> length (unread r)" and le3: "length (unread r3) \<le> length (unread r1)"
    using read_bytes_shrinks [OF r2] readIntVQL_shrinks [OF r3] le by simp_all
  have times: "returns (length (unread r3)) (deserialize_times (deserialize_loop hasBuffer parse depth) (nat n) r3 [])" if "b \<noteq> []"
  proof (rule returns_times [where n = "length (unread r1)"])
    have "length (unread r1) < length (unread r)"
      using read_progress [OF r1 that] .
    then show "returns (length (unread q)) (deserialize_loop hasBuffer parse depth q)" if "length (unread q) \<le> length (unread r1)" for q
      using that Suc.prems by (intro Suc.IH) simp
  qed (rule le3)
  have arr: "returns (length (unread r)) (bind_result (deserialize_times (deserialize_loop hasBuffer parse depth) (nat n) r3 [])
      (\<lambda>(r, result). Inr (r, VArray result)))" if "b \<noteq> []"
    using times [OF that] le le3
    by (cases "deserialize_times (deserialize_loop hasBuffer parse depth) (nat n) r3 []") (auto simp: returns_def)
  have json: "returns (length (unread r)) (bind_result (parse (read_text hasBuffer c)) (\<lambda>x. Inr (r2, x)))"
    using le2 assms(1) [of "read_text hasBuffer c"] by (cases "parse (read_text hasBuffer c)") (auto simp: returns_def)
  have "readUInt8 b 0 = Some ty \<Longrightarrow> b \<noteq> []" for ty
    by (auto simp: readUInt8_def byte_at_def)
  then show ?case
    using r1 r2 r3 le le2 le3 arr json by (auto simp: deserialize_loop.simps(2) Let_def)
qed simp

section \<open>Properties\<close>

text \<open>
  C28. What one side serializes the other deserializes to the same value, and the reader is left exactly
  behind it, for every value with lengths below \<open>2 ^ 31\<close> whose strings have no unpaired surrogates and
  whose JSON parts survive \<open>JSON.stringify\<close> and \<open>JSON.parse\<close>.
\<close>

theorem serialize_roundtrip:
  assumes "value_ok hasBuffer stringify parse v"
  shows "\<exists>w b r. serialize hasBuffer stringify fresh v new_BufferWriter = Inr w \<and> BufferWriter_buffer fresh w = Inr b \<and>
           deserialize hasBuffer parse (new_BufferReader (b @ rest)) = Inr (r, v) \<and> drop (br_pos r) (br_buffer r) = rest"
proof -
  obtain bs where bs: "serialize hasBuffer stringify fresh v new_BufferWriter = Inr bs" "concat bs = enc stringify v"
    using serialize_enc(1) [OF assms, of fresh new_BufferWriter] by (auto simp: new_BufferWriter_def)
  let ?r = "new_BufferReader (enc stringify v @ rest)"
  have "unread ?r = enc stringify v @ rest"
    by (simp add: new_BufferReader_def unread_def)
  moreover have "length (enc stringify v) \<le> length (br_buffer ?r) - br_pos ?r + 1"
    by (simp add: new_BufferReader_def)
  ultimately obtain r where "deserialize hasBuffer parse ?r = Inr (r, v)" "unread r = rest"
    using deserialize_enc [OF assms] unfolding deserialize_def decodes_def by blast
  with bs show ?thesis
    by (intro exI [of _ bs] exI [of _ "enc stringify v"] exI [of _ r]) (simp add: BufferWriter_buffer_def unread_def)
qed

text \<open>A platform whose only other value is \<open>null\<close>.\<close>

definition null_text :: js_string where
  "null_text = [0x6E, 0x75, 0x6C, 0x6C]"

definition sample_stringify :: "unit ipc_value \<Rightarrow> js_error + js_string" where
  "sample_stringify x = (case x of VOther u \<Rightarrow> Inr null_text | _ \<Rightarrow> Inl TypeError)"

definition sample_parse :: "js_string \<Rightarrow> js_error + unit ipc_value" where
  "sample_parse s = (if s = null_text then Inr (VOther ()) else Inl SyntaxError)"

lemma null_text_ok: "string_ok hasBuffer null_text"
  by (simp add: string_ok_def null_text_def high_surrogate_def low_surrogate_def utf8_encode_def utf8_bytes_def)

theorem serialize_roundtrip_witness:
  "\<exists>w b r. serialize True sample_stringify (\<lambda>_. 0) (VArray [VNumber (-5), VString [0x61, 0xE9], VOther ()]) new_BufferWriter = Inr w \<and>
     BufferWriter_buffer (\<lambda>_. 0) w = Inr b \<and>
     deserialize True sample_parse (new_BufferReader (b @ [9])) = Inr (r, VArray [VNumber (-5), VString [0x61, 0xE9], VOther ()]) \<and>
     drop (br_pos r) (br_buffer r) = [9]"
proof (rule serialize_roundtrip)
  have "string_ok True [0x61, 0xE9]"
    by (simp add: string_ok_def high_surrogate_def low_surrogate_def utf8_encode_def utf8_bytes_def)
  then show "value_ok True sample_stringify sample_parse (VArray [VNumber (-5), VString [0x61, 0xE9], VOther ()])"
    using null_text_ok by (simp add: json_ok_def sample_stringify_def sample_parse_def toInt32_def)
qed

text \<open>
  C29. No message makes the receiver run forever: on every buffer and at every position \<open>deserialize\<close> returns a
  value or throws what \<open>JSON.parse\<close> throws; lengths that are wrong, negative or too large end the reading.
\<close>

theorem deserialize_terminates:
  assumes "\<And>s. parse s \<noteq> Inl DoesNotReturn"
  shows "deserialize hasBuffer parse r \<noteq> Inl DoesNotReturn"
  using deserialize_loop_returns [of parse r "length (br_buffer r) - br_pos r + 1" hasBuffer, OF assms]
  by (auto simp: deserialize_def returns_def unread_def)

theorem deserialize_terminates_witness:
  "deserialize True sample_parse (new_BufferReader [4, 0xFF, 0xFF, 0xFF, 0xFF, 7, 1]) \<noteq> Inl DoesNotReturn"
proof -
  have "sample_parse s \<noteq> Inl DoesNotReturn" for s
    by (simp add: sample_parse_def)
  then show ?thesis
    by (rule deserialize_terminates)
qed

end
