(* ===== verification/Ipc_Channels.thy ===== *)
theory Ipc_Channels
  imports Ipc_Serialization "HOL-Library.AList"
begin

text \<open>
  Remote calls and events of \<open>vs/base/parts/ipc/common/ipc.ts\<close>: \<open>ChannelServer\<close> and \<open>ChannelClient\<close>.

  A \<open>Map\<close> is an association list in insertion order.  What is asynchronous in the source is an operation
  of its own here: a promise that settles, an event that fires, a timer, a microtask after a promise.
  Channels are client code; a call that runs on a channel is recorded in \<open>sv_calls\<close> with its outcome, a
  subscription in \<open>sv_subscriptions\<close>, and the requests of the client in \<open>cl_promises\<close> and \<open>cl_emitters\<close>, so that
  closures are references into these lists.  Every message given to \<open>protocol.send\<close> is appended to the
  list of sent messages.  Logging is left out.
\<close>

section \<open>Messages\<close>

record 'o platform =
  pf_hasBuffer :: bool
  pf_stringify :: "'o ipc_value \<Rightarrow> js_error + js_string"
  pf_parse :: "js_string \<Rightarrow> js_error + 'o ipc_value"
  pf_fresh :: "nat \<Rightarrow> byte"
  pf_errorData :: "js_string \<Rightarrow> js_string \<Rightarrow> js_string list option \<Rightarrow> 'o"

text \<open>\<open>pf_errorData\<close> makes the object with the properties \<open>message\<close>, \<open>name\<close> and \<open>stack\<close>.\<close>

definition RT_Promise :: int where "RT_Promise = 100"
definition RT_PromiseCancel :: int where "RT_PromiseCancel = 101"
definition RT_EventListen :: int where "RT_EventListen = 102"
definition RT_EventDispose :: int where "RT_EventDispose = 103"
definition RS_Initialize :: int where "RS_Initialize = 200"
definition RS_PromiseSuccess :: int where "RS_PromiseSuccess = 201"
definition RS_PromiseError :: int where "RS_PromiseError = 202"
definition RS_PromiseErrorObj :: int where "RS_PromiseErrorObj = 203"
definition RS_EventFire :: int where "RS_EventFire = 204"

lemmas RT_defs = RT_Promise_def RT_PromiseCancel_def RT_EventListen_def RT_EventDispose_def
lemmas RS_defs = RS_Initialize_def RS_PromiseSuccess_def RS_PromiseError_def RS_PromiseErrorObj_def RS_EventFire_def

datatype 'o rawRequest =
  PromiseRequest int js_string js_string "'o ipc_value"
  | PromiseCancelRequest int
  | EventListenRequest int js_string js_string "'o ipc_value"
  | EventDisposeRequest int

datatype 'o rawResponse =
  InitializeResponse
  | PromiseSuccessResponse int "'o ipc_value"
  | PromiseErrorResponse int "'o ipc_value"
  | PromiseErrorObjResponse int "'o ipc_value"
  | EventFireResponse int "'o ipc_value"

text \<open>Both classes have the same method \<open>send\<close>: header and body go into one buffer.\<close>

definition ipc_send :: "'o platform \<Rightarrow> 'o ipc_value \<Rightarrow> 'o ipc_value \<Rightarrow> js_error + bytes" where
  "ipc_send pf header body =
     bind_result (serialize (pf_hasBuffer pf) (pf_stringify pf) (pf_fresh pf) header new_BufferWriter) (\<lambda>w.
     bind_result (serialize (pf_hasBuffer pf) (pf_stringify pf) (pf_fresh pf) body w) (\<lambda>w.
     BufferWriter_buffer (pf_fresh pf) w))"

definition ipc_receive :: "'o platform \<Rightarrow> bytes \<Rightarrow> js_error + 'o ipc_value \<times> 'o ipc_value" where
  "ipc_receive pf message =
     bind_result (deserialize (pf_hasBuffer pf) (pf_parse pf) (new_BufferReader message)) (\<lambda>(reader, header).
     bind_result (deserialize (pf_hasBuffer pf) (pf_parse pf) reader) (\<lambda>(reader, body).
     Inr (header, body)))"

text \<open>
  The type, the id and the names are read from the header without a check; here a header that is not
  of the form that \<open>sendRequest\<close> and \<open>sendResponse\<close> write is one that no case of the \<open>switch\<close> takes.
\<close>

fun request_of :: "'o ipc_value \<Rightarrow> 'o ipc_value \<Rightarrow> 'o rawRequest option" where
  "request_of (VArray [VNumber ty, VNumber i, VString channelName, VString name]) body =
     (if ty = RT_Promise then Some (PromiseRequest i channelName name body)
      else if ty = RT_EventListen then Some (EventListenRequest i channelName name body)
      else if ty = RT_PromiseCancel then Some (PromiseCancelRequest i)
      else if ty = RT_EventDispose then Some (EventDisposeRequest i)
      else None)"
| "request_of (VArray [VNumber ty, VNumber i]) body =
     (if ty = RT_PromiseCancel then Some (PromiseCancelRequest i)
      else if ty = RT_EventDispose then Some (EventDisposeRequest i)
      else None)"
| "request_of _ body = None"

fun response_of :: "'o ipc_value \<Rightarrow> 'o ipc_value \<Rightarrow> 'o rawResponse option" where
  "response_of (VArray [VNumber ty]) body = (if ty = RS_Initialize then Some InitializeResponse else None)"
| "response_of (VArray [VNumber ty, VNumber i]) body =
     (if ty = RS_Initialize then Some InitializeResponse
      else if ty = RS_PromiseSuccess then Some (PromiseSuccessResponse i body)
      else if ty = RS_PromiseError then Some (PromiseErrorResponse i body)
      else if ty = RS_EventFire then Some (EventFireResponse i body)
      else if ty = RS_PromiseErrorObj then Some (PromiseErrorObjResponse i body)
      else None)"
| "response_of _ body = None"

section \<open>The server\<close>

datatype 'o outcome =
  Fulfilled "'o ipc_value"
  | ThrownError js_string js_string "js_string option"
  | ThrownOther "'o ipc_value"

record ('o, 'c) serverCall =
  sc_channel :: 'c
  sc_channelName :: js_string
  sc_name :: js_string
  sc_arg :: "'o ipc_value"
  sc_id :: int
  sc_cancelled :: bool
  sc_outcome :: "'o outcome option"

record ('o, 'c) serverSubscription =
  ss_channel :: 'c
  ss_name :: js_string
  ss_arg :: "'o ipc_value"
  ss_id :: int
  ss_disposed :: bool

datatype activeRequest = CancelCall nat | EndSubscription nat

record 'o pendingRequest =
  pq_request :: "'o rawRequest"
  pq_timer :: nat

record ('o, 'c) channelServer =
  sv_channels :: "(js_string \<times> 'c) list"
  sv_activeRequests :: "(int \<times> activeRequest) list"
  sv_protocolListener :: bool
  sv_pendingRequests :: "(js_string \<times> 'o pendingRequest list) list"
  sv_timers :: "'o rawRequest option list"
  sv_flushes :: "js_string list"
  sv_calls :: "('o, 'c) serverCall list"
  sv_subscriptions :: "('o, 'c) serverSubscription list"
  sv_sent :: "bytes list"

definition ChannelServer_sendResponse ::
  "'o platform \<Rightarrow> 'o rawResponse \<Rightarrow> ('o, 'c) channelServer \<Rightarrow> js_error + ('o, 'c) channelServer" where
  "ChannelServer_sendResponse pf response s =
     bind_result
       (case response of
          InitializeResponse \<Rightarrow> ipc_send pf (VArray [VNumber RS_Initialize]) VUndefined
        | PromiseSuccessResponse i data \<Rightarrow> ipc_send pf (VArray [VNumber RS_PromiseSuccess, VNumber i]) data
        | PromiseErrorResponse i data \<Rightarrow> ipc_send pf (VArray [VNumber RS_PromiseError, VNumber i]) data
        | PromiseErrorObjResponse i data \<Rightarrow> ipc_send pf (VArray [VNumber RS_PromiseErrorObj, VNumber i]) data
        | EventFireResponse i data \<Rightarrow> ipc_send pf (VArray [VNumber RS_EventFire, VNumber i]) data)
       (\<lambda>message. Inr (s\<lparr>sv_sent := sv_sent s @ [message]\<rparr>))"

definition new_ChannelServer :: "'o platform \<Rightarrow> js_error + ('o, 'c) channelServer" where
  "new_ChannelServer pf = ChannelServer_sendResponse pf InitializeResponse
     \<lparr>sv_channels = [], sv_activeRequests = [], sv_protocolListener = True, sv_pendingRequests = [], sv_timers = [],
      sv_flushes = [], sv_calls = [], sv_subscriptions = [], sv_sent = []\<rparr>"

definition ChannelServer_registerChannel :: "js_string \<Rightarrow> 'c \<Rightarrow> ('o, 'c) channelServer \<Rightarrow> ('o, 'c) channelServer" where
  "ChannelServer_registerChannel channelName channel s =
     s\<lparr>sv_channels := AList.update channelName channel (sv_channels s), sv_flushes := sv_flushes s @ [channelName]\<rparr>"

text \<open>The timer holds the request; \<open>clearTimeout\<close> and firing empty it.\<close>

definition ChannelServer_collectPendingRequest :: "js_string \<Rightarrow> 'o rawRequest \<Rightarrow> ('o, 'c) channelServer \<Rightarrow> ('o, 'c) channelServer" where
  "ChannelServer_collectPendingRequest channelName request s =
     (let pendingRequests = (case map_of (sv_pendingRequests s) channelName of None \<Rightarrow> [] | Some ps \<Rightarrow> ps);
          timer = length (sv_timers s) in
      s\<lparr>sv_timers := sv_timers s @ [Some request],
        sv_pendingRequests := AList.update channelName (pendingRequests @ [\<lparr>pq_request = request, pq_timer = timer\<rparr>])
          (sv_pendingRequests s)\<rparr>)"

definition ChannelServer_onPromise ::
  "int \<Rightarrow> js_string \<Rightarrow> js_string \<Rightarrow> 'o ipc_value \<Rightarrow> ('o, 'c) channelServer \<Rightarrow> ('o, 'c) channelServer" where
  "ChannelServer_onPromise i channelName name arg s =
     (case map_of (sv_channels s) channelName of
        None \<Rightarrow> ChannelServer_collectPendingRequest channelName (PromiseRequest i channelName name arg) s
      | Some channel \<Rightarrow>
          s\<lparr>sv_calls := sv_calls s @ [\<lparr>sc_channel = channel, sc_channelName = channelName, sc_name = name, sc_arg = arg, sc_id = i,
              sc_cancelled = False, sc_outcome = None\<rparr>],
            sv_activeRequests := AList.update i (CancelCall (length (sv_calls s))) (sv_activeRequests s)\<rparr>)"

definition ChannelServer_onEventListen ::
  "int \<Rightarrow> js_string \<Rightarrow> js_string \<Rightarrow> 'o ipc_value \<Rightarrow> ('o, 'c) channelServer \<Rightarrow> ('o, 'c) channelServer" where
  "ChannelServer_onEventListen i channelName name arg s =
     (case map_of (sv_channels s) channelName of
        None \<Rightarrow> ChannelServer_collectPendingRequest channelName (EventListenRequest i channelName name arg) s
      | Some channel \<Rightarrow>
          s\<lparr>sv_subscriptions := sv_subscriptions s @ [\<lparr>ss_channel = channel, ss_name = name, ss_arg = arg, ss_id = i,
              ss_disposed = False\<rparr>],
            sv_activeRequests := AList.update i (EndSubscription (length (sv_subscriptions s))) (sv_activeRequests s)\<rparr>)"

definition activeRequest_dispose :: "activeRequest \<Rightarrow> ('o, 'c) channelServer \<Rightarrow> ('o, 'c) channelServer" where
  "activeRequest_dispose d s =
     (case d of
        CancelCall k \<Rightarrow> s\<lparr>sv_calls := (sv_calls s)[k := (sv_calls s ! k)\<lparr>sc_cancelled := True\<rparr>]\<rparr>
      | EndSubscription k \<Rightarrow> s\<lparr>sv_subscriptions := (sv_subscriptions s)[k := (sv_subscriptions s ! k)\<lparr>ss_disposed := True\<rparr>]\<rparr>)"

definition ChannelServer_disposeActiveRequest :: "int \<Rightarrow> ('o, 'c) channelServer \<Rightarrow> ('o, 'c) channelServer" where
  "ChannelServer_disposeActiveRequest i s =
     (case map_of (sv_activeRequests s) i of
        None \<Rightarrow> s
      | Some d \<Rightarrow> (let s = activeRequest_dispose d s in s\<lparr>sv_activeRequests := AList.delete i (sv_activeRequests s)\<rparr>))"

fun ChannelServer_onRequest :: "'o rawRequest \<Rightarrow> ('o, 'c) channelServer \<Rightarrow> ('o, 'c) channelServer" where
  "ChannelServer_onRequest (PromiseRequest i channelName name arg) s = ChannelServer_onPromise i channelName name arg s"
| "ChannelServer_onRequest (EventListenRequest i channelName name arg) s = ChannelServer_onEventListen i channelName name arg s"
| "ChannelServer_onRequest (PromiseCancelRequest i) s = ChannelServer_disposeActiveRequest i s"
| "ChannelServer_onRequest (EventDisposeRequest i) s = ChannelServer_disposeActiveRequest i s"

definition ChannelServer_onRawMessage ::
  "'o platform \<Rightarrow> bytes \<Rightarrow> ('o, 'c) channelServer \<Rightarrow> js_error + ('o, 'c) channelServer" where
  "ChannelServer_onRawMessage pf message s =
     (if \<not> sv_protocolListener s then Inr s
      else bind_result (ipc_receive pf message) (\<lambda>(header, body).
        case request_of header body of None \<Rightarrow> Inr s | Some request \<Rightarrow> Inr (ChannelServer_onRequest request s)))"

text \<open>The promise that \<open>channel.call\<close> returned settles.\<close>

fun js_split :: "16 word \<Rightarrow> js_string \<Rightarrow> js_string list" where
  "js_split c [] = [[]]"
| "js_split c (u # us) = (if u = c then [] # js_split c us else (case js_split c us of p # ps \<Rightarrow> (u # p) # ps | [] \<Rightarrow> [[u]]))"

definition outcome_response :: "'o platform \<Rightarrow> int \<Rightarrow> 'o outcome \<Rightarrow> 'o rawResponse" where
  "outcome_response pf i out =
     (case out of
        Fulfilled data \<Rightarrow> PromiseSuccessResponse i data
      | ThrownError message name stack \<Rightarrow>
          PromiseErrorResponse i (VOther (pf_errorData pf message name
            (case stack of None \<Rightarrow> None | Some [] \<Rightarrow> None | Some st \<Rightarrow> Some (js_split 10 st))))
      | ThrownOther err \<Rightarrow> PromiseErrorObjResponse i err)"

definition ChannelServer_onSettled ::
  "'o platform \<Rightarrow> nat \<Rightarrow> 'o outcome \<Rightarrow> ('o, 'c) channelServer \<Rightarrow> js_error + ('o, 'c) channelServer" where
  "ChannelServer_onSettled pf k out s =
     (let i = sc_id (sv_calls s ! k); s = s\<lparr>sv_calls := (sv_calls s)[k := (sv_calls s ! k)\<lparr>sc_outcome := Some out\<rparr>]\<rparr> in
      bind_result (ChannelServer_sendResponse pf (outcome_response pf i out) s) (\<lambda>s.
        Inr (s\<lparr>sv_activeRequests := AList.delete i (sv_activeRequests s)\<rparr>)))"

text \<open>The event of a subscription fires; a disposed subscription is not called any more.\<close>

definition ChannelServer_onEvent ::
  "'o platform \<Rightarrow> nat \<Rightarrow> 'o ipc_value \<Rightarrow> ('o, 'c) channelServer \<Rightarrow> js_error + ('o, 'c) channelServer" where
  "ChannelServer_onEvent pf k data s =
     (if ss_disposed (sv_subscriptions s ! k) then Inr s
      else ChannelServer_sendResponse pf (EventFireResponse (ss_id (sv_subscriptions s ! k)) data) s)"

definition js_text :: "string \<Rightarrow> js_string" where
  "js_text cs = map of_char cs"

fun js_decimal :: "nat \<Rightarrow> js_string" where
  "js_decimal n = (if n < 10 then [word_of_nat (48 + n)] else js_decimal (n div 10) @ [word_of_nat (48 + n mod 10)])"

declare js_decimal.simps [simp del]

definition timeout_message :: "nat \<Rightarrow> js_string \<Rightarrow> js_string" where
  "timeout_message timeoutDelay channelName =
     js_text ''Channel name '' @ [39] @ channelName @ [39] @ js_text '' timed out after '' @ js_decimal timeoutDelay @ js_text ''ms''"

definition ChannelServer_onPendingTimeout ::
  "'o platform \<Rightarrow> nat \<Rightarrow> nat \<Rightarrow> ('o, 'c) channelServer \<Rightarrow> js_error + ('o, 'c) channelServer" where
  "ChannelServer_onPendingTimeout pf timeoutDelay timer s =
     (case sv_timers s ! timer of
        None \<Rightarrow> Inr s
      | Some request \<Rightarrow>
          (let s = s\<lparr>sv_timers := (sv_timers s)[timer := None]\<rparr> in
           case request of
             PromiseRequest i channelName name arg \<Rightarrow>
               ChannelServer_sendResponse pf (PromiseErrorResponse i
                 (VOther (pf_errorData pf (timeout_message timeoutDelay channelName) (js_text ''Unknown channel'') None))) s
           | _ \<Rightarrow> Inr s))"

definition flush_request :: "'o pendingRequest \<Rightarrow> ('o, 'c) channelServer \<Rightarrow> ('o, 'c) channelServer" where
  "flush_request p s =
     (let s = s\<lparr>sv_timers := (sv_timers s)[pq_timer p := None]\<rparr> in
      case pq_request p of
        PromiseRequest i channelName name arg \<Rightarrow> ChannelServer_onPromise i channelName name arg s
      | EventListenRequest i channelName name arg \<Rightarrow> ChannelServer_onEventListen i channelName name arg s
      | _ \<Rightarrow> s)"

definition ChannelServer_flushPendingRequests :: "js_string \<Rightarrow> ('o, 'c) channelServer \<Rightarrow> ('o, 'c) channelServer" where
  "ChannelServer_flushPendingRequests channelName s =
     (case map_of (sv_pendingRequests s) channelName of
        None \<Rightarrow> s
      | Some requests \<Rightarrow>
          (let s = fold flush_request requests s in
           s\<lparr>sv_pendingRequests := AList.delete channelName (sv_pendingRequests s)\<rparr>))"

text \<open>The timer of \<open>registerChannel\<close>.\<close>

definition ChannelServer_onFlushTimer :: "js_string \<Rightarrow> ('o, 'c) channelServer \<Rightarrow> ('o, 'c) channelServer" where
  "ChannelServer_onFlushTimer channelName s =
     (if channelName \<in> set (sv_flushes s)
      then ChannelServer_flushPendingRequests channelName (s\<lparr>sv_flushes := remove1 channelName (sv_flushes s)\<rparr>) else s)"

definition ChannelServer_dispose :: "('o, 'c) channelServer \<Rightarrow> ('o, 'c) channelServer" where
  "ChannelServer_dispose s =
     (let s = s\<lparr>sv_protocolListener := False\<rparr>; s = fold activeRequest_dispose (map snd (sv_activeRequests s)) s in
      s\<lparr>sv_activeRequests := []\<rparr>)"

section \<open>The client\<close>

datatype clientState = Uninitialized | Idle

datatype 'o rejection =
  CancellationError
  | RemoteError "'o ipc_value"
  | RemoteObject "'o ipc_value"
  | SendFailed js_error

datatype 'o settlement = Resolved "'o ipc_value" | Rejected "'o rejection"

text \<open>\<open>cp_waiting\<close> and \<open>ce_waiting\<close> tell that \<open>uninitializedPromise\<close> is set.\<close>

record 'o clientPromise =
  cp_id :: int
  cp_channelName :: js_string
  cp_name :: js_string
  cp_arg :: "'o ipc_value"
  cp_waiting :: bool
  cp_settled :: "'o settlement option"

record 'o clientEmitter =
  ce_id :: int
  ce_channelName :: js_string
  ce_name :: js_string
  ce_arg :: "'o ipc_value"
  ce_waiting :: bool
  ce_hasListeners :: bool
  ce_fired :: "'o ipc_value list"

datatype handler = PromiseHandler nat | EventHandler nat

datatype clientDisposable = PromiseDisposable nat | EmitterDisposable nat

text \<open>\<open>cl_disposed\<close> lists what has been disposed: a disposable of \<open>toDisposable\<close> runs once, an emitter has \<open>_disposed\<close>.\<close>

record 'o channelClient =
  cl_isDisposed :: bool
  cl_state :: clientState
  cl_activeRequests :: "clientDisposable list"
  cl_handlers :: "(int \<times> handler) list"
  cl_lastRequestId :: int
  cl_protocolListener :: bool
  cl_disposed :: "clientDisposable list"
  cl_promises :: "'o clientPromise list"
  cl_emitters :: "'o clientEmitter list"
  cl_sent :: "bytes list"

definition new_ChannelClient :: "'o channelClient" where
  "new_ChannelClient = \<lparr>cl_isDisposed = False, cl_state = Uninitialized, cl_activeRequests = [], cl_handlers = [], cl_lastRequestId = 0,
     cl_protocolListener = True, cl_disposed = [], cl_promises = [], cl_emitters = [], cl_sent = []\<rparr>"

abbreviation upd_promise :: "nat \<Rightarrow> ('o clientPromise \<Rightarrow> 'o clientPromise) \<Rightarrow> 'o channelClient \<Rightarrow> 'o channelClient" where
  "upd_promise k f c \<equiv> c\<lparr>cl_promises := (cl_promises c)[k := f (cl_promises c ! k)]\<rparr>"

abbreviation upd_emitter :: "nat \<Rightarrow> ('o clientEmitter \<Rightarrow> 'o clientEmitter) \<Rightarrow> 'o channelClient \<Rightarrow> 'o channelClient" where
  "upd_emitter k f c \<equiv> c\<lparr>cl_emitters := (cl_emitters c)[k := f (cl_emitters c ! k)]\<rparr>"

definition activeRequests_add :: "clientDisposable \<Rightarrow> 'o channelClient \<Rightarrow> 'o channelClient" where
  "activeRequests_add d c = (if d \<in> set (cl_activeRequests c) then c else c\<lparr>cl_activeRequests := cl_activeRequests c @ [d]\<rparr>)"

definition activeRequests_delete :: "clientDisposable \<Rightarrow> 'o channelClient \<Rightarrow> 'o channelClient" where
  "activeRequests_delete d c = c\<lparr>cl_activeRequests := removeAll d (cl_activeRequests c)\<rparr>"

definition ChannelClient_sendRequest :: "'o platform \<Rightarrow> 'o rawRequest \<Rightarrow> 'o channelClient \<Rightarrow> js_error + 'o channelClient" where
  "ChannelClient_sendRequest pf request c =
     bind_result
       (case request of
          PromiseRequest i channelName name arg \<Rightarrow>
            ipc_send pf (VArray [VNumber RT_Promise, VNumber i, VString channelName, VString name]) arg
        | EventListenRequest i channelName name arg \<Rightarrow>
            ipc_send pf (VArray [VNumber RT_EventListen, VNumber i, VString channelName, VString name]) arg
        | PromiseCancelRequest i \<Rightarrow> ipc_send pf (VArray [VNumber RT_PromiseCancel, VNumber i]) VUndefined
        | EventDisposeRequest i \<Rightarrow> ipc_send pf (VArray [VNumber RT_EventDispose, VNumber i]) VUndefined)
       (\<lambda>message. Inr (c\<lparr>cl_sent := cl_sent c @ [message]\<rparr>))"

text \<open>A promise settles only once.\<close>

definition settle :: "'o settlement \<Rightarrow> 'o clientPromise \<Rightarrow> 'o clientPromise" where
  "settle v p = (if cp_settled p = None then p\<lparr>cp_settled := Some v\<rparr> else p)"

definition doRequest :: "'o platform \<Rightarrow> nat \<Rightarrow> 'o channelClient \<Rightarrow> js_error + 'o channelClient" where
  "doRequest pf k c =
     (let p = cl_promises c ! k; c = c\<lparr>cl_handlers := AList.update (cp_id p) (PromiseHandler k) (cl_handlers c)\<rparr> in
      ChannelClient_sendRequest pf (PromiseRequest (cp_id p) (cp_channelName p) (cp_name p) (cp_arg p)) c)"

text \<open>
  \<open>isCancelled\<close> is \<open>cancellationToken.isCancellationRequested\<close>.  An exception in the executor of a promise rejects
  it, and then the disposable has not been created.
\<close>

definition ChannelClient_requestPromise ::
  "'o platform \<Rightarrow> js_string \<Rightarrow> js_string \<Rightarrow> 'o ipc_value \<Rightarrow> bool \<Rightarrow> 'o channelClient \<Rightarrow> 'o channelClient" where
  "ChannelClient_requestPromise pf channelName name arg isCancelled c =
     (let i = cl_lastRequestId c; k = length (cl_promises c);
          p = \<lparr>cp_id = i, cp_channelName = channelName, cp_name = name, cp_arg = arg, cp_waiting = False,
               cp_settled = None\<rparr>;
          c = c\<lparr>cl_lastRequestId := i + 1\<rparr> in
      if isCancelled then c\<lparr>cl_promises := cl_promises c @ [p\<lparr>cp_settled := Some (Rejected CancellationError)\<rparr>]\<rparr>
      else if cl_state c = Idle then
        let c = c\<lparr>cl_promises := cl_promises c @ [p]\<rparr> in
        case doRequest pf k c of
          Inl e \<Rightarrow> upd_promise k (settle (Rejected (SendFailed e)))
            (c\<lparr>cl_handlers := AList.update i (PromiseHandler k) (cl_handlers c)\<rparr>)
        | Inr c \<Rightarrow> activeRequests_add (PromiseDisposable k) c
      else activeRequests_add (PromiseDisposable k) (c\<lparr>cl_promises := cl_promises c @ [p\<lparr>cp_waiting := True\<rparr>]\<rparr>))"

definition ChannelClient_call ::
  "'o platform \<Rightarrow> js_string \<Rightarrow> js_string \<Rightarrow> 'o ipc_value \<Rightarrow> bool \<Rightarrow> 'o channelClient \<Rightarrow> 'o channelClient" where
  "ChannelClient_call pf channelName command arg isCancelled c =
     (if cl_isDisposed c then c else ChannelClient_requestPromise pf channelName command arg isCancelled c)"

text \<open>The microtask after \<open>whenInitialized\<close>, for a promise.  What it throws is not caught anywhere.\<close>

definition ChannelClient_onInitialized :: "'o platform \<Rightarrow> nat \<Rightarrow> 'o channelClient \<Rightarrow> 'o channelClient" where
  "ChannelClient_onInitialized pf k c =
     (if cl_state c = Idle \<and> k < length (cl_promises c) \<and> cp_waiting (cl_promises c ! k) then
        let c = upd_promise k (\<lambda>p. p\<lparr>cp_waiting := False\<rparr>) c in
        case doRequest pf k c of
          Inl e \<Rightarrow> c\<lparr>cl_handlers := AList.update (cp_id (cl_promises c ! k)) (PromiseHandler k) (cl_handlers c)\<rparr>
        | Inr c \<Rightarrow> c
      else c)"

definition ChannelClient_cancel :: "'o platform \<Rightarrow> nat \<Rightarrow> 'o channelClient \<Rightarrow> js_error + 'o channelClient" where
  "ChannelClient_cancel pf k c =
     bind_result
       (if cp_waiting (cl_promises c ! k) then Inr (upd_promise k (\<lambda>p. p\<lparr>cp_waiting := False\<rparr>) c)
        else ChannelClient_sendRequest pf (PromiseCancelRequest (cp_id (cl_promises c ! k))) c)
       (\<lambda>c. Inr (upd_promise k (settle (Rejected CancellationError)) c))"

definition ChannelClient_onFinally :: "nat \<Rightarrow> 'o channelClient \<Rightarrow> 'o channelClient" where
  "ChannelClient_onFinally k c =
     (if k < length (cl_promises c) \<and> cp_settled (cl_promises c ! k) \<noteq> None
      then activeRequests_delete (PromiseDisposable k) c else c)"

definition ChannelClient_requestEvent :: "js_string \<Rightarrow> js_string \<Rightarrow> 'o ipc_value \<Rightarrow> 'o channelClient \<Rightarrow> 'o channelClient" where
  "ChannelClient_requestEvent channelName name arg c =
     (let i = cl_lastRequestId c in
      c\<lparr>cl_lastRequestId := i + 1,
        cl_emitters := cl_emitters c @ [\<lparr>ce_id = i, ce_channelName = channelName, ce_name = name, ce_arg = arg, ce_waiting = False,
          ce_hasListeners = False, ce_fired = []\<rparr>],
        cl_handlers := AList.update i (EventHandler (length (cl_emitters c))) (cl_handlers c)\<rparr>)"

definition ChannelClient_listen :: "js_string \<Rightarrow> js_string \<Rightarrow> 'o ipc_value \<Rightarrow> 'o channelClient \<Rightarrow> 'o channelClient" where
  "ChannelClient_listen channelName event arg c =
     (if cl_isDisposed c then c else ChannelClient_requestEvent channelName event arg c)"

text \<open>The options of the emitter: its first listener is added, its last one is removed, or it is disposed.\<close>

definition ChannelClient_onWillAddFirstListener :: "nat \<Rightarrow> 'o channelClient \<Rightarrow> 'o channelClient" where
  "ChannelClient_onWillAddFirstListener k c =
     (if EmitterDisposable k \<in> set (cl_disposed c) \<or> ce_hasListeners (cl_emitters c ! k) then c
      else upd_emitter k (\<lambda>e. e\<lparr>ce_waiting := True, ce_hasListeners := True\<rparr>) c)"

definition ChannelClient_onEventInitialized :: "'o platform \<Rightarrow> nat \<Rightarrow> 'o channelClient \<Rightarrow> 'o channelClient" where
  "ChannelClient_onEventInitialized pf k c =
     (if cl_state c = Idle \<and> k < length (cl_emitters c) \<and> ce_waiting (cl_emitters c ! k) then
        let c = activeRequests_add (EmitterDisposable k) (upd_emitter k (\<lambda>e. e\<lparr>ce_waiting := False\<rparr>) c); e = cl_emitters c ! k in
        case ChannelClient_sendRequest pf (EventListenRequest (ce_id e) (ce_channelName e) (ce_name e) (ce_arg e)) c of
          Inl err \<Rightarrow> c
        | Inr c \<Rightarrow> c
      else c)"

definition emitter_released :: "'o platform \<Rightarrow> nat \<Rightarrow> 'o channelClient \<Rightarrow> js_error option \<times> 'o channelClient" where
  "emitter_released pf k c =
     (if ce_waiting (cl_emitters c ! k) then (None, upd_emitter k (\<lambda>e. e\<lparr>ce_waiting := False\<rparr>) c)
      else
        let c = activeRequests_delete (EmitterDisposable k) c in
        case ChannelClient_sendRequest pf (EventDisposeRequest (ce_id (cl_emitters c ! k))) c of
          Inl err \<Rightarrow> (Some err, c)
        | Inr c \<Rightarrow> (None, c))"

definition ChannelClient_onDidRemoveLastListener :: "'o platform \<Rightarrow> nat \<Rightarrow> 'o channelClient \<Rightarrow> js_error option \<times> 'o channelClient" where
  "ChannelClient_onDidRemoveLastListener pf k c =
     (if ce_hasListeners (cl_emitters c ! k) then emitter_released pf k (upd_emitter k (\<lambda>e. e\<lparr>ce_hasListeners := False\<rparr>) c)
      else (None, c))"

text \<open>The data of a response for a handler: the promise or the emitter that the request made.\<close>

fun response_data :: "'o rawResponse \<Rightarrow> 'o ipc_value" where
  "response_data InitializeResponse = VUndefined"
| "response_data (PromiseSuccessResponse i data) = data"
| "response_data (PromiseErrorResponse i data) = data"
| "response_data (PromiseErrorObjResponse i data) = data"
| "response_data (EventFireResponse i data) = data"

fun promise_handler :: "nat \<Rightarrow> 'o rawResponse \<Rightarrow> 'o channelClient \<Rightarrow> 'o channelClient" where
  "promise_handler k (PromiseSuccessResponse i data) c =
     upd_promise k (settle (Resolved data)) (c\<lparr>cl_handlers := AList.delete (cp_id (cl_promises c ! k)) (cl_handlers c)\<rparr>)"
| "promise_handler k (PromiseErrorResponse i data) c =
     upd_promise k (settle (Rejected (RemoteError data))) (c\<lparr>cl_handlers := AList.delete (cp_id (cl_promises c ! k)) (cl_handlers c)\<rparr>)"
| "promise_handler k (PromiseErrorObjResponse i data) c =
     upd_promise k (settle (Rejected (RemoteObject data))) (c\<lparr>cl_handlers := AList.delete (cp_id (cl_promises c ! k)) (cl_handlers c)\<rparr>)"
| "promise_handler k _ c = c"

definition event_handler :: "nat \<Rightarrow> 'o rawResponse \<Rightarrow> 'o channelClient \<Rightarrow> 'o channelClient" where
  "event_handler k response c =
     (if ce_hasListeners (cl_emitters c ! k) then upd_emitter k (\<lambda>e. e\<lparr>ce_fired := ce_fired e @ [response_data response]\<rparr>) c else c)"

fun response_id :: "'o rawResponse \<Rightarrow> int option" where
  "response_id InitializeResponse = None"
| "response_id (PromiseSuccessResponse i data) = Some i"
| "response_id (PromiseErrorResponse i data) = Some i"
| "response_id (PromiseErrorObjResponse i data) = Some i"
| "response_id (EventFireResponse i data) = Some i"

definition ChannelClient_onResponse :: "'o rawResponse \<Rightarrow> 'o channelClient \<Rightarrow> 'o channelClient" where
  "ChannelClient_onResponse response c =
     (case response_id response of
        None \<Rightarrow> c\<lparr>cl_state := Idle\<rparr>
      | Some i \<Rightarrow>
          (case map_of (cl_handlers c) i of
             None \<Rightarrow> c
           | Some (PromiseHandler k) \<Rightarrow> promise_handler k response c
           | Some (EventHandler k) \<Rightarrow> event_handler k response c))"

definition ChannelClient_onBuffer :: "'o platform \<Rightarrow> bytes \<Rightarrow> 'o channelClient \<Rightarrow> js_error + 'o channelClient" where
  "ChannelClient_onBuffer pf message c =
     (if \<not> cl_protocolListener c then Inr c
      else bind_result (ipc_receive pf message) (\<lambda>(header, body).
        case response_of header body of None \<Rightarrow> Inr c | Some response \<Rightarrow> Inr (ChannelClient_onResponse response c)))"

text \<open>
  \<open>dispose\<close> cancels the active promises and disposes the active emitters.  What one of them throws is
  collected and thrown after the last, and then the set of active requests is not cleared.
\<close>

fun disposable_dispose :: "'o platform \<Rightarrow> clientDisposable \<Rightarrow> 'o channelClient \<Rightarrow> js_error option \<times> 'o channelClient" where
  "disposable_dispose pf (PromiseDisposable k) c =
     (case ChannelClient_cancel pf k c of Inl err \<Rightarrow> (Some err, c) | Inr c \<Rightarrow> (None, c))"
| "disposable_dispose pf (EmitterDisposable k) c = emitter_released pf k (upd_emitter k (\<lambda>e. e\<lparr>ce_hasListeners := False\<rparr>) c)"

fun dispose_loop :: "'o platform \<Rightarrow> clientDisposable list \<Rightarrow> 'o channelClient \<Rightarrow> js_error list \<times> 'o channelClient" where
  "dispose_loop pf [] c = ([], c)"
| "dispose_loop pf (d # ds) c =
     (if d \<in> set (cl_disposed c) then dispose_loop pf ds c
      else
        let (err, c) = disposable_dispose pf d (c\<lparr>cl_disposed := cl_disposed c @ [d]\<rparr>); (errs, c) = dispose_loop pf ds c in
        (case err of None \<Rightarrow> (errs, c) | Some e \<Rightarrow> (e # errs, c)))"

definition ChannelClient_dispose :: "'o platform \<Rightarrow> 'o channelClient \<Rightarrow> js_error list \<times> 'o channelClient" where
  "ChannelClient_dispose pf c =
     (let c = c\<lparr>cl_isDisposed := True, cl_protocolListener := False\<rparr>; (errs, c) = dispose_loop pf (cl_activeRequests c) c in
      (errs, if errs = [] then c\<lparr>cl_activeRequests := []\<rparr> else c))"

section \<open>Messages round trip\<close>

definition request_header :: "'o rawRequest \<Rightarrow> 'o ipc_value \<times> 'o ipc_value" where
  "request_header request =
     (case request of
        PromiseRequest i channelName name arg \<Rightarrow> (VArray [VNumber RT_Promise, VNumber i, VString channelName, VString name], arg)
      | EventListenRequest i channelName name arg \<Rightarrow> (VArray [VNumber RT_EventListen, VNumber i, VString channelName, VString name], arg)
      | PromiseCancelRequest i \<Rightarrow> (VArray [VNumber RT_PromiseCancel, VNumber i], VUndefined)
      | EventDisposeRequest i \<Rightarrow> (VArray [VNumber RT_EventDispose, VNumber i], VUndefined))"

definition response_header :: "'o rawResponse \<Rightarrow> 'o ipc_value \<times> 'o ipc_value" where
  "response_header response =
     (case response of
        InitializeResponse \<Rightarrow> (VArray [VNumber RS_Initialize], VUndefined)
      | PromiseSuccessResponse i data \<Rightarrow> (VArray [VNumber RS_PromiseSuccess, VNumber i], data)
      | PromiseErrorResponse i data \<Rightarrow> (VArray [VNumber RS_PromiseError, VNumber i], data)
      | PromiseErrorObjResponse i data \<Rightarrow> (VArray [VNumber RS_PromiseErrorObj, VNumber i], data)
      | EventFireResponse i data \<Rightarrow> (VArray [VNumber RS_EventFire, VNumber i], data))"

abbreviation transmissible :: "'o platform \<Rightarrow> 'o ipc_value \<Rightarrow> bool" where
  "transmissible pf \<equiv> value_ok (pf_hasBuffer pf) (pf_stringify pf) (pf_parse pf)"

definition request_ok :: "'o platform \<Rightarrow> 'o rawRequest \<Rightarrow> bool" where
  "request_ok pf r \<longleftrightarrow> transmissible pf (fst (request_header r)) \<and> transmissible pf (snd (request_header r))"

definition response_ok :: "'o platform \<Rightarrow> 'o rawResponse \<Rightarrow> bool" where
  "response_ok pf r \<longleftrightarrow> transmissible pf (fst (response_header r)) \<and> transmissible pf (snd (response_header r))"

definition message :: "'o platform \<Rightarrow> 'o ipc_value \<times> 'o ipc_value \<Rightarrow> bytes" where
  "message pf m = enc (pf_stringify pf) (fst m) @ enc (pf_stringify pf) (snd m)"

lemma ipc_send_message:
  assumes "transmissible pf header" "transmissible pf body"
  shows "ipc_send pf header body = Inr (message pf (header, body))"
proof -
  obtain w where w: "serialize (pf_hasBuffer pf) (pf_stringify pf) (pf_fresh pf) header [] = Inr w" "concat w = enc (pf_stringify pf) header"
    using serialize_enc(1) [OF assms(1), of "pf_fresh pf" "[]"] by auto
  obtain bs where "serialize (pf_hasBuffer pf) (pf_stringify pf) (pf_fresh pf) body w = Inr (w @ bs)" "concat bs = enc (pf_stringify pf) body"
    using serialize_enc(1) [OF assms(2), of "pf_fresh pf" w] by blast
  with w show ?thesis
    by (simp add: ipc_send_def new_BufferWriter_def BufferWriter_buffer_def message_def)
qed

lemma deserialize_unread:
  assumes "transmissible pf v" "unread r = enc (pf_stringify pf) v @ ys"
  shows "\<exists>r'. deserialize (pf_hasBuffer pf) (pf_parse pf) r = Inr (r', v) \<and> unread r' = ys"
proof -
  have "length (br_buffer r) - br_pos r = length (unread r)"
    by (simp add: unread_def)
  then have "length (enc (pf_stringify pf) v) \<le> length (br_buffer r) - br_pos r + 1"
    using assms(2) by simp
  then show ?thesis
    using deserialize_enc [OF assms(1)] assms(2) unfolding deserialize_def decodes_def by blast
qed

lemma ipc_receive_message:
  assumes "transmissible pf header" "transmissible pf body"
  shows "ipc_receive pf (message pf (header, body)) = Inr (header, body)"
proof -
  have "unread (new_BufferReader (message pf (header, body))) = enc (pf_stringify pf) header @ enc (pf_stringify pf) body @ []"
    by (simp add: unread_def new_BufferReader_def message_def)
  then obtain r where r: "deserialize (pf_hasBuffer pf) (pf_parse pf) (new_BufferReader (message pf (header, body))) = Inr (r, header)"
      "unread r = enc (pf_stringify pf) body @ []"
    using deserialize_unread [OF assms(1)] by blast
  then show ?thesis
    using deserialize_unread [OF assms(2) r(2)] by (auto simp: ipc_receive_def)
qed

lemma request_of_header [simp]: "request_of (fst (request_header r)) (snd (request_header r)) = Some r"
  by (cases r) (simp_all add: request_header_def RT_defs)

lemma response_of_header [simp]: "response_of (fst (response_header r)) (snd (response_header r)) = Some r"
  by (cases r) (simp_all add: response_header_def RS_defs)

lemma sendRequest_message:
  "request_ok pf r \<Longrightarrow> ChannelClient_sendRequest pf r c = Inr (c\<lparr>cl_sent := cl_sent c @ [message pf (request_header r)]\<rparr>)"
  by (cases r) (simp_all add: ChannelClient_sendRequest_def request_ok_def request_header_def ipc_send_message del: value_ok.simps)

lemma sendResponse_message:
  "response_ok pf r \<Longrightarrow> ChannelServer_sendResponse pf r s = Inr (s\<lparr>sv_sent := sv_sent s @ [message pf (response_header r)]\<rparr>)"
  by (cases r) (simp_all add: ChannelServer_sendResponse_def response_ok_def response_header_def ipc_send_message del: value_ok.simps)

lemma onRawMessage_request:
  "request_ok pf r \<Longrightarrow> ChannelServer_onRawMessage pf (message pf (request_header r)) s =
     Inr (if sv_protocolListener s then ChannelServer_onRequest r s else s)"
  using ipc_receive_message [of pf "fst (request_header r)" "snd (request_header r)"]
  by (simp add: ChannelServer_onRawMessage_def request_ok_def case_prod_unfold)

lemma onBuffer_response:
  "response_ok pf r \<Longrightarrow> ChannelClient_onBuffer pf (message pf (response_header r)) c =
     Inr (if cl_protocolListener c then ChannelClient_onResponse r c else c)"
  using ipc_receive_message [of pf "fst (response_header r)" "snd (response_header r)"]
  by (simp add: ChannelClient_onBuffer_def response_ok_def case_prod_unfold)

end
