(* ===== verification/Ipc_Client.thy ===== *)
theory Ipc_Client
  imports Ipc_Channels
begin

text \<open>
  The invariant of a \<open>ChannelClient\<close>.  It relates the client to the list \<open>reqs\<close> of the requests it has sent and
  the list \<open>got\<close> of the responses it has been given: ids are distinct, a request is sent at most once, handlers
  belong to the promise or emitter that registered them, a promise is settled only by a response with
  its id, and an open promise has its request sent and its handler registered.  Every operation keeps
  it as long as what is sent can be transmitted.
\<close>

section \<open>Requests and responses\<close>

fun is_promise :: "'o rawRequest \<Rightarrow> bool" where
  "is_promise (PromiseRequest i channelName name arg) = True"
| "is_promise _ = False"

fun request_id :: "'o rawRequest \<Rightarrow> int" where
  "request_id (PromiseRequest i channelName name arg) = i"
| "request_id (EventListenRequest i channelName name arg) = i"
| "request_id (PromiseCancelRequest i) = i"
| "request_id (EventDisposeRequest i) = i"

definition promise_ids :: "'o rawRequest list \<Rightarrow> int list" where
  "promise_ids rs = map request_id (filter is_promise rs)"

fun answered_id :: "'o rawResponse \<Rightarrow> int option" where
  "answered_id (PromiseSuccessResponse i data) = Some i"
| "answered_id (PromiseErrorResponse i data) = Some i"
| "answered_id (PromiseErrorObjResponse i data) = Some i"
| "answered_id _ = None"

definition answered :: "'o rawResponse list \<Rightarrow> int set" where
  "answered rs = {i. Some i \<in> answered_id ` set rs}"

lemma promise_ids_simps [simp]:
  "promise_ids [] = []"
  "promise_ids (rs @ ts) = promise_ids rs @ promise_ids ts"
  "promise_ids (r # rs) = (if is_promise r then request_id r # promise_ids rs else promise_ids rs)"
  by (simp_all add: promise_ids_def)

lemma answered_simps [simp]:
  "answered [] = {}"
  "answered (rs @ ts) = answered rs \<union> answered ts"
  "i \<in> answered (r # rs) \<longleftrightarrow> answered_id r = Some i \<or> i \<in> answered rs"
  by (auto simp: answered_def)

lemma answered_mono: "set rs \<subseteq> set ts \<Longrightarrow> answered rs \<subseteq> answered ts"
  by (auto simp: answered_def)

definition promise_request :: "'o clientPromise \<Rightarrow> 'o rawRequest" where
  "promise_request p = PromiseRequest (cp_id p) (cp_channelName p) (cp_name p) (cp_arg p)"

definition emitter_request :: "'o clientEmitter \<Rightarrow> 'o rawRequest" where
  "emitter_request e = EventListenRequest (ce_id e) (ce_channelName e) (ce_name e) (ce_arg e)"

lemma promise_request_simps [simp]:
  "request_id (promise_request p) = cp_id p" "is_promise (promise_request p)"
  "promise_request (p\<lparr>cp_waiting := w\<rparr>) = promise_request p"
  "promise_request (p\<lparr>cp_settled := v\<rparr>) = promise_request p"
  by (simp_all add: promise_request_def)

lemma emitter_request_simps [simp]:
  "request_id (emitter_request e) = ce_id e" "\<not> is_promise (emitter_request e)"
  "emitter_request (e\<lparr>ce_waiting := w\<rparr>) = emitter_request e"
  "emitter_request (e\<lparr>ce_hasListeners := w\<rparr>) = emitter_request e"
  "emitter_request (e\<lparr>ce_fired := f\<rparr>) = emitter_request e"
  by (simp_all add: emitter_request_def)

lemma settle_simps [simp]:
  "cp_id (settle v p) = cp_id p" "cp_waiting (settle v p) = cp_waiting p"
  "promise_request (settle v p) = promise_request p"
  "cp_settled (settle v p) = (if cp_settled p = None then Some v else cp_settled p)"
  by (simp_all add: settle_def)

lemma request_ok_cancel: "request_ok pf (promise_request p) \<Longrightarrow> request_ok pf (PromiseCancelRequest (cp_id p))"
  by (simp add: request_ok_def request_header_def promise_request_def RT_defs)

lemma request_ok_dispose: "request_ok pf (emitter_request e) \<Longrightarrow> request_ok pf (EventDisposeRequest (ce_id e))"
  by (simp add: request_ok_def request_header_def emitter_request_def RT_defs)

section \<open>The invariant\<close>

definition client_log :: "'o platform \<Rightarrow> 'o rawRequest list \<Rightarrow> 'o channelClient \<Rightarrow> bool" where
  "client_log pf reqs c \<longleftrightarrow> cl_sent c = map (message pf \<circ> request_header) reqs \<and> (\<forall>r \<in> set reqs. request_ok pf r)"

definition client_ids :: "'o platform \<Rightarrow> 'o channelClient \<Rightarrow> bool" where
  "client_ids pf c \<longleftrightarrow>
     distinct (map cp_id (cl_promises c) @ map ce_id (cl_emitters c)) \<and>
     (\<forall>i \<in> cp_id ` set (cl_promises c) \<union> ce_id ` set (cl_emitters c). 0 \<le> i \<and> i < cl_lastRequestId c) \<and>
     (\<forall>p \<in> set (cl_promises c). request_ok pf (promise_request p)) \<and>
     (\<forall>e \<in> set (cl_emitters c). request_ok pf (emitter_request e)) \<and> 0 \<le> cl_lastRequestId c"

definition client_requests :: "'o rawRequest list \<Rightarrow> 'o channelClient \<Rightarrow> bool" where
  "client_requests reqs c \<longleftrightarrow>
     distinct (promise_ids reqs) \<and>
     (\<forall>r \<in> set reqs. is_promise r \<longrightarrow> (\<exists>p \<in> set (cl_promises c). \<not> cp_waiting p \<and> promise_request p = r))"

fun handler_ok :: "'o rawRequest list \<Rightarrow> 'o channelClient \<Rightarrow> int \<Rightarrow> handler \<Rightarrow> bool" where
  "handler_ok reqs c i (PromiseHandler k) \<longleftrightarrow> k < length (cl_promises c) \<and> cp_id (cl_promises c ! k) = i \<and> i \<in> set (promise_ids reqs)"
| "handler_ok reqs c i (EventHandler k) \<longleftrightarrow> k < length (cl_emitters c) \<and> ce_id (cl_emitters c ! k) = i"

definition client_handlers :: "'o rawRequest list \<Rightarrow> 'o channelClient \<Rightarrow> bool" where
  "client_handlers reqs c \<longleftrightarrow> (\<forall>i h. map_of (cl_handlers c) i = Some h \<longrightarrow> handler_ok reqs c i h)"

fun settled_by :: "'o rawResponse list \<Rightarrow> int \<Rightarrow> 'o settlement \<Rightarrow> bool" where
  "settled_by got i (Resolved v) \<longleftrightarrow> PromiseSuccessResponse i v \<in> set got"
| "settled_by got i (Rejected (RemoteError v)) \<longleftrightarrow> PromiseErrorResponse i v \<in> set got"
| "settled_by got i (Rejected (RemoteObject v)) \<longleftrightarrow> PromiseErrorObjResponse i v \<in> set got"
| "settled_by got i (Rejected CancellationError) \<longleftrightarrow> True"
| "settled_by got i (Rejected (SendFailed e)) \<longleftrightarrow> False"

definition client_settled :: "'o rawResponse list \<Rightarrow> 'o channelClient \<Rightarrow> bool" where
  "client_settled got c \<longleftrightarrow> (\<forall>p \<in> set (cl_promises c). \<forall>v. cp_settled p = Some v \<longrightarrow> settled_by got (cp_id p) v)"

text \<open>\<open>X\<close> holds the promises whose request is about to be sent.\<close>

definition client_open :: "nat set \<Rightarrow> 'o rawRequest list \<Rightarrow> 'o rawResponse list \<Rightarrow> 'o channelClient \<Rightarrow> bool" where
  "client_open X reqs got c \<longleftrightarrow>
     (\<forall>k < length (cl_promises c). let p = cl_promises c ! k in
        cp_settled p = None \<and> \<not> cp_waiting p \<and> k \<notin> X \<longrightarrow>
          cp_id p \<in> set (promise_ids reqs) \<and> map_of (cl_handlers c) (cp_id p) = Some (PromiseHandler k) \<and>
          (cl_protocolListener c \<longrightarrow> cp_id p \<notin> answered got))"

definition client_inv :: "'o platform \<Rightarrow> nat set \<Rightarrow> 'o rawRequest list \<Rightarrow> 'o rawResponse list \<Rightarrow> 'o channelClient \<Rightarrow> bool" where
  "client_inv pf X reqs got c \<longleftrightarrow>
     client_log pf reqs c \<and> client_ids pf c \<and> client_requests reqs c \<and> client_handlers reqs c \<and> client_settled got c \<and>
     client_open X reqs got c \<and> answered got \<subseteq> set (promise_ids reqs)"

lemmas client_defs = client_log_def client_ids_def client_requests_def client_handlers_def client_settled_def client_open_def

section \<open>The operations keep it\<close>

lemma client_inv_new: "client_inv pf {} [] [] new_ChannelClient"
  by (simp add: client_inv_def client_defs new_ChannelClient_def)

text \<open>A request that is no promise request only extends the log.\<close>

lemma client_inv_send:
  assumes "client_inv pf X reqs got c" "request_ok pf r" "\<not> is_promise r"
  shows "\<exists>c'. ChannelClient_sendRequest pf r c = Inr c' \<and> c' = c\<lparr>cl_sent := cl_sent c'\<rparr> \<and> client_inv pf X (reqs @ [r]) got c'"
proof -
  have ok: "handler_ok (reqs @ [r]) (c\<lparr>cl_sent := m\<rparr>) i h \<longleftrightarrow> handler_ok reqs c i h" for i h m
    using assms(3) by (cases h) simp_all
  have "client_inv pf X (reqs @ [r]) got (c\<lparr>cl_sent := cl_sent c @ [message pf (request_header r)]\<rparr>)"
    using assms unfolding client_inv_def client_defs by (simp add: ok)
  then show ?thesis
    using sendRequest_message [OF assms(2), of c] by simp
qed

text \<open>The active requests play no role for it.\<close>

lemma handler_ok_fields [simp]:
  "handler_ok reqs (c\<lparr>cl_activeRequests := a\<rparr>) i h = handler_ok reqs c i h"
  "handler_ok reqs (c\<lparr>cl_disposed := d\<rparr>) i h = handler_ok reqs c i h"
  "handler_ok reqs (c\<lparr>cl_handlers := hs\<rparr>) i h = handler_ok reqs c i h"
  "handler_ok reqs (c\<lparr>cl_sent := m\<rparr>) i h = handler_ok reqs c i h"
  "handler_ok reqs (c\<lparr>cl_isDisposed := b\<rparr>) i h = handler_ok reqs c i h"
  "handler_ok reqs (c\<lparr>cl_protocolListener := b\<rparr>) i h = handler_ok reqs c i h"
  "handler_ok reqs (c\<lparr>cl_state := st\<rparr>) i h = handler_ok reqs c i h"
  "handler_ok reqs (c\<lparr>cl_lastRequestId := n\<rparr>) i h = handler_ok reqs c i h"
  by (cases h; simp)+

lemma client_inv_fields [simp]:
  "client_inv pf X reqs got (c\<lparr>cl_activeRequests := a\<rparr>) = client_inv pf X reqs got c"
  "client_inv pf X reqs got (c\<lparr>cl_disposed := d\<rparr>) = client_inv pf X reqs got c"
  "client_inv pf X reqs got (c\<lparr>cl_isDisposed := b\<rparr>) = client_inv pf X reqs got c"
  "client_inv pf X reqs got (c\<lparr>cl_state := st\<rparr>) = client_inv pf X reqs got c"
  by (simp_all add: client_inv_def client_defs)

lemma client_inv_unlisten: "client_inv pf X reqs got c \<Longrightarrow> client_inv pf X reqs got (c\<lparr>cl_protocolListener := False\<rparr>)"
  by (auto simp: client_inv_def client_defs Let_def)

lemma client_inv_activeRequests [simp]:
  "client_inv pf X reqs got (activeRequests_add d c) = client_inv pf X reqs got c"
  "client_inv pf X reqs got (activeRequests_delete d c) = client_inv pf X reqs got c"
  by (simp_all add: activeRequests_add_def activeRequests_delete_def)

lemma map_update_same [simp]: "(k < length xs \<Longrightarrow> g y = g (xs ! k)) \<Longrightarrow> map g (xs[k := y]) = map g xs"
  by (cases "k < length xs") (simp_all add: map_update list_update_same_conv list_update_beyond not_less)

lemma promise_request_id: "promise_request p = promise_request q \<Longrightarrow> cp_id p = cp_id q"
  by (simp add: promise_request_def)

lemma ids_by_map:
  "client_ids pf c \<longleftrightarrow>
     distinct (map cp_id (cl_promises c) @ map ce_id (cl_emitters c)) \<and>
     (\<forall>i \<in> set (map cp_id (cl_promises c)) \<union> set (map ce_id (cl_emitters c)). 0 \<le> i \<and> i < cl_lastRequestId c) \<and>
     (\<forall>r \<in> set (map promise_request (cl_promises c)). request_ok pf r) \<and>
     (\<forall>r \<in> set (map emitter_request (cl_emitters c)). request_ok pf r) \<and> 0 \<le> cl_lastRequestId c"
  by (simp add: client_ids_def)

lemma client_inv_ok:
  "client_inv pf X reqs got c \<Longrightarrow> k < length (cl_promises c) \<Longrightarrow> request_ok pf (promise_request (cl_promises c ! k))"
  "client_inv pf X reqs got c \<Longrightarrow> k < length (cl_emitters c) \<Longrightarrow> request_ok pf (emitter_request (cl_emitters c ! k))"
  by (simp_all add: client_inv_def client_ids_def)

lemma client_inv_fresh:
  assumes "client_inv pf X reqs got c"
  shows "\<forall>i \<in> cp_id ` set (cl_promises c) \<union> ce_id ` set (cl_emitters c). i \<noteq> cl_lastRequestId c \<and> i \<le> cl_lastRequestId c"
proof
  fix i
  assume "i \<in> cp_id ` set (cl_promises c) \<union> ce_id ` set (cl_emitters c)"
  then have "i < cl_lastRequestId c"
    using assms unfolding client_inv_def client_ids_def by blast
  then show "i \<noteq> cl_lastRequestId c \<and> i \<le> cl_lastRequestId c"
    by simp
qed

lemma client_inv_upd_promise:
  assumes inv: "client_inv pf X reqs got c" and k: "k < length (cl_promises c)" and X: "X \<subseteq> Y"
    and same: "promise_request (f (cl_promises c ! k)) = promise_request (cl_promises c ! k)"
    and waiting: "cp_waiting (f (cl_promises c ! k)) \<Longrightarrow> cp_waiting (cl_promises c ! k)"
    and settled: "\<And>v. cp_settled (f (cl_promises c ! k)) = Some v \<Longrightarrow>
      cp_settled (cl_promises c ! k) = Some v \<or> settled_by got (cp_id (cl_promises c ! k)) v"
    and still: "cp_settled (f (cl_promises c ! k)) = None \<Longrightarrow> cp_settled (cl_promises c ! k) = None \<and>
      (cp_waiting (f (cl_promises c ! k)) = cp_waiting (cl_promises c ! k) \<or> k \<in> Y)"
  shows "client_inv pf Y reqs got (upd_promise k f c)"
proof -
  let ?p = "cl_promises c ! k" and ?c = "upd_promise k f c"
  have id: "cp_id (f ?p) = cp_id ?p"
    using same by (rule promise_request_id)
  have "client_ids pf ?c"
    using inv id same by (simp add: client_inv_def ids_by_map del: set_map)
  moreover have "\<exists>q \<in> set (cl_promises ?c). \<not> cp_waiting q \<and> promise_request q = r"
    if "p \<in> set (cl_promises c)" "\<not> cp_waiting p" "promise_request p = r" for p r
  proof -
    obtain n where "n < length (cl_promises c)" "p = cl_promises c ! n"
      using \<open>p \<in> _\<close> by (auto simp: in_set_conv_nth)
    then show ?thesis
      using that k same waiting by (intro bexI [of _ "cl_promises ?c ! n"] nth_mem) (auto simp: nth_list_update)
  qed
  then have "client_requests reqs ?c"
    using inv by (auto simp: client_inv_def client_requests_def)
  moreover have "cp_id (cl_promises ?c ! n) = cp_id (cl_promises c ! n)" if "n < length (cl_promises c)" for n
    using id that by (cases "n = k") auto
  then have "handler_ok reqs ?c i h = handler_ok reqs c i h" for i h
    by (cases h) auto
  then have "client_handlers reqs ?c"
    using inv by (simp add: client_inv_def client_handlers_def)
  moreover have "client_settled got ?c"
    using inv settled id k set_update_subset_insert [of "cl_promises c" k "f ?p"]
    unfolding client_inv_def client_settled_def by (auto dest!: subsetD)
  moreover have "client_open Y reqs got ?c"
    using inv still id X k by (auto simp: client_inv_def client_open_def Let_def nth_list_update)
  moreover have "client_log pf reqs ?c"
    using inv by (simp add: client_inv_def client_log_def)
  ultimately show ?thesis
    using inv by (simp add: client_inv_def)
qed

lemma client_inv_settle:
  "client_inv pf X reqs got c \<Longrightarrow> k < length (cl_promises c) \<Longrightarrow> settled_by got (cp_id (cl_promises c ! k)) v \<Longrightarrow>
     client_inv pf X reqs got (upd_promise k (settle v) c)"
  by (rule client_inv_upd_promise) (auto split: if_splits)

text \<open>Sending the request of a promise that waits for it.\<close>

lemma client_inv_doRequest:
  assumes inv: "client_inv pf {k} reqs got c" and k: "k < length (cl_promises c)"
    and p: "\<not> cp_waiting (cl_promises c ! k)" "cp_id (cl_promises c ! k) \<notin> set (promise_ids reqs)"
  shows "\<exists>c'. doRequest pf k c = Inr c' \<and> c' = c\<lparr>cl_handlers := cl_handlers c', cl_sent := cl_sent c'\<rparr> \<and>
    client_inv pf {} (reqs @ [promise_request (cl_promises c ! k)]) got c'"
proof -
  let ?p = "cl_promises c ! k"
  let ?h = "AList.update (cp_id ?p) (PromiseHandler k) (cl_handlers c)"
  let ?c = "c\<lparr>cl_handlers := ?h, cl_sent := cl_sent c @ [message pf (request_header (promise_request ?p))]\<rparr>"
  have ok: "request_ok pf (promise_request ?p)"
    using inv k by (rule client_inv_ok)
  have other: "cp_id (cl_promises c ! n) \<noteq> cp_id ?p" if "n < length (cl_promises c)" "n \<noteq> k" for n
  proof -
    have "distinct (map cp_id (cl_promises c))"
      using inv by (simp add: client_inv_def client_ids_def)
    then show ?thesis
      using that k by (metis length_map nth_eq_iff_index_eq nth_map)
  qed
  have "client_log pf (reqs @ [promise_request ?p]) ?c" "client_ids pf ?c" "client_settled got ?c"
    using inv ok by (simp_all add: client_inv_def client_log_def client_ids_def client_settled_def)
  moreover have "client_requests (reqs @ [promise_request ?p]) ?c"
    using inv k p by (auto simp: client_inv_def client_requests_def)
  moreover have "handler_ok (reqs @ [promise_request ?p]) ?c i h" if "handler_ok reqs c i h" for i h
    using that by (cases h) auto
  then have "client_handlers (reqs @ [promise_request ?p]) ?c"
    using inv k by (auto simp: client_inv_def client_handlers_def update_conv' split: if_splits)
  moreover have "client_open {} (reqs @ [promise_request ?p]) got ?c"
    unfolding client_open_def Let_def
  proof (intro allI impI)
    fix n
    assume n: "n < length (cl_promises ?c)"
      "cp_settled (cl_promises ?c ! n) = None \<and> \<not> cp_waiting (cl_promises ?c ! n) \<and> n \<notin> {}"
    show "cp_id (cl_promises ?c ! n) \<in> set (promise_ids (reqs @ [promise_request ?p])) \<and>
      map_of (cl_handlers ?c) (cp_id (cl_promises ?c ! n)) = Some (PromiseHandler n) \<and>
      (cl_protocolListener ?c \<longrightarrow> cp_id (cl_promises ?c ! n) \<notin> answered got)"
    proof (cases "n = k")
      case True
      then show ?thesis
        using inv p(2) by (auto simp: client_inv_def update_conv')
    next
      case False
      then show ?thesis
        using inv n other [of n] by (auto simp: client_inv_def client_open_def Let_def update_conv')
    qed
  qed
  ultimately have "client_inv pf {} (reqs @ [promise_request ?p]) got ?c"
    using inv by (auto simp: client_inv_def)
  moreover have "doRequest pf k c = Inr ?c"
    using sendRequest_message [OF ok, of "c\<lparr>cl_handlers := ?h\<rparr>"] by (simp add: doRequest_def promise_request_def Let_def)
  ultimately show ?thesis
    by simp
qed

lemma client_inv_call:
  assumes inv: "client_inv pf {} reqs got c" and ok: "request_ok pf (PromiseRequest (cl_lastRequestId c) channelName command arg)"
  shows "\<exists>rs. client_inv pf {} (reqs @ rs) got (ChannelClient_call pf channelName command arg isCancelled c)"
proof -
  let ?k = "length (cl_promises c)"
  let ?p = "\<lambda>w v. \<lparr>cp_id = cl_lastRequestId c, cp_channelName = channelName, cp_name = command, cp_arg = arg, cp_waiting = w, cp_settled = v\<rparr>"
  let ?c = "\<lambda>w v. c\<lparr>cl_lastRequestId := cl_lastRequestId c + 1, cl_promises := cl_promises c @ [?p w v]\<rparr>"
  have new: "cl_lastRequestId c \<notin> set (promise_ids reqs)"
    using inv by (force simp: client_inv_def client_requests_def client_ids_def promise_ids_def promise_request_def)
  have add: "client_inv pf X reqs got (?c w v)"
    if "v = None \<or> v = Some (Rejected CancellationError)" "v \<noteq> None \<or> w \<or> ?k \<in> X" for X w v
  proof -
    have "handler_ok reqs (?c w v) i h" if "handler_ok reqs c i h" for i h
      using that by (cases h) (auto simp: nth_append)
    then have "client_handlers reqs (?c w v)"
      using inv by (simp add: client_inv_def client_handlers_def)
    moreover have "client_log pf reqs (?c w v)"
      using inv by (simp add: client_inv_def client_log_def)
    moreover have "\<forall>i \<in> cp_id ` set (cl_promises c) \<union> ce_id ` set (cl_emitters c). i \<noteq> cl_lastRequestId c \<and> i \<le> cl_lastRequestId c"
      using client_inv_fresh [OF inv] .
    then have "client_ids pf (?c w v)"
      using inv ok by (auto simp: client_inv_def client_ids_def promise_request_def)
    moreover have "client_requests reqs (?c w v)"
      using inv by (auto simp: client_inv_def client_requests_def)
    moreover have "client_settled got (?c w v)"
      using inv that by (auto simp: client_inv_def client_settled_def)
    moreover have "client_open X reqs got (?c w v)"
      using inv that by (auto simp: client_inv_def client_open_def Let_def nth_append less_Suc_eq)
    ultimately show ?thesis
      using inv by (simp add: client_inv_def)
  qed
  obtain c' where c': "doRequest pf ?k (?c False None) = Inr c'"
      "client_inv pf {} (reqs @ [promise_request (?p False None)]) got c'"
    using client_inv_doRequest [OF add [of None False "{?k}"]] new by auto
  show ?thesis
  proof (cases "cl_isDisposed c")
    case True
    then show ?thesis
      using inv by (intro exI [of _ "[]"]) (simp add: ChannelClient_call_def)
  next
    case False
    consider "isCancelled" | "\<not> isCancelled" "cl_state c = Idle" | "\<not> isCancelled" "cl_state c \<noteq> Idle"
      by blast
    then show ?thesis
    proof cases
      case 1
      then show ?thesis
        using False add [of "Some (Rejected CancellationError)" False "{}"]
        by (intro exI [of _ "[]"]) (simp add: ChannelClient_call_def ChannelClient_requestPromise_def Let_def)
    next
      case 2
      then show ?thesis
        using False c' by (intro exI [of _ "[promise_request (?p False None)]"])
          (simp add: ChannelClient_call_def ChannelClient_requestPromise_def Let_def)
    next
      case 3
      then show ?thesis
        using False add [of None True "{}"]
        by (intro exI [of _ "[]"]) (simp add: ChannelClient_call_def ChannelClient_requestPromise_def Let_def)
    qed
  qed
qed

lemma client_inv_onInitialized:
  assumes inv: "client_inv pf {} reqs got c"
  shows "\<exists>rs. client_inv pf {} (reqs @ rs) got (ChannelClient_onInitialized pf k c)"
proof (cases "cl_state c = Idle \<and> k < length (cl_promises c) \<and> cp_waiting (cl_promises c ! k)")
  case True
  let ?c = "upd_promise k (\<lambda>p. p\<lparr>cp_waiting := False\<rparr>) c"
  have "client_inv pf {k} reqs got ?c"
    using inv True by (intro client_inv_upd_promise [where X = "{}"]) auto
  moreover have "cp_id (cl_promises c ! k) \<notin> set (promise_ids reqs)"
  proof
    assume "cp_id (cl_promises c ! k) \<in> set (promise_ids reqs)"
    then obtain p where "p \<in> set (cl_promises c)" "\<not> cp_waiting p" "cp_id p = cp_id (cl_promises c ! k)"
      using inv by (fastforce simp: client_inv_def client_requests_def promise_ids_def)
    then show False
      using True inv by (auto simp: client_inv_def client_ids_def in_set_conv_nth distinct_map inj_on_def)
        (metis nth_mem)
  qed
  ultimately obtain c' where "doRequest pf k ?c = Inr c'" "\<exists>r. client_inv pf {} (reqs @ [r]) got c'"
    using client_inv_doRequest [of pf k reqs got ?c] True by auto
  then show ?thesis
    using True by (auto simp: ChannelClient_onInitialized_def Let_def)
next
  case False
  then show ?thesis
    using inv by (intro exI [of _ "[]"]) (auto simp: ChannelClient_onInitialized_def)
qed

lemma not_waiting: "\<not> cp_waiting p \<Longrightarrow> p\<lparr>cp_waiting := False\<rparr> = p"
  by (cases p) simp

lemma client_inv_cancel:
  assumes inv: "client_inv pf X reqs got c" and k: "k < length (cl_promises c)"
  shows "\<exists>rs c'. ChannelClient_cancel pf k c = Inr c' \<and> client_inv pf X (reqs @ rs) got c' \<and>
    c' = upd_promise k (\<lambda>p. settle (Rejected CancellationError) (p\<lparr>cp_waiting := False\<rparr>)) (c\<lparr>cl_sent := cl_sent c'\<rparr>)"
proof (cases "cp_waiting (cl_promises c ! k)")
  case True
  have "client_inv pf X reqs got (upd_promise k (\<lambda>p. settle (Rejected CancellationError) (p\<lparr>cp_waiting := False\<rparr>)) c)"
    using inv k by (intro client_inv_upd_promise [where X = X]) (auto split: if_splits)
  then show ?thesis
    using True k by (intro exI [of _ "[]"]) (simp add: ChannelClient_cancel_def)
next
  case False
  let ?r = "PromiseCancelRequest (cp_id (cl_promises c ! k))"
  obtain c' where c': "ChannelClient_sendRequest pf ?r c = Inr c'"
      "c' = c\<lparr>cl_sent := cl_sent c'\<rparr>" "client_inv pf X (reqs @ [?r]) got c'"
    using client_inv_send [OF inv request_ok_cancel [OF client_inv_ok(1) [OF inv k]]] by auto
  have same: "cl_promises c' = cl_promises c"
    by (subst c'(2)) simp
  have "client_inv pf X (reqs @ [?r]) got (upd_promise k (settle (Rejected CancellationError)) c')"
    using k same by (intro client_inv_settle [OF c'(3)]) simp_all
  moreover have "ChannelClient_cancel pf k c = Inr (upd_promise k (settle (Rejected CancellationError)) c')"
    using False c'(1) by (simp add: ChannelClient_cancel_def)
  moreover have "upd_promise k (settle (Rejected CancellationError)) c' =
      upd_promise k (\<lambda>p. settle (Rejected CancellationError) (p\<lparr>cp_waiting := False\<rparr>)) (c\<lparr>cl_sent := cl_sent c'\<rparr>)"
    using same arg_cong [OF c'(2), of "\<lambda>c. c\<lparr>cl_promises := (cl_promises c)[k := settle (Rejected CancellationError) (cl_promises c ! k)]\<rparr>"]
    by (simp add: not_waiting [OF False])
  ultimately show ?thesis
    by (intro exI [of _ "[?r]"] exI [of _ "upd_promise k (settle (Rejected CancellationError)) c'"]) simp
qed

lemma client_inv_onFinally: "client_inv pf X reqs got c \<Longrightarrow> client_inv pf X reqs got (ChannelClient_onFinally k c)"
  by (simp add: ChannelClient_onFinally_def)

lemma emitter_request_id: "emitter_request e = emitter_request f \<Longrightarrow> ce_id e = ce_id f"
  by (simp add: emitter_request_def)

lemma client_inv_upd_emitter:
  assumes inv: "client_inv pf X reqs got c" and same: "emitter_request (f (cl_emitters c ! k)) = emitter_request (cl_emitters c ! k)"
  shows "client_inv pf X reqs got (upd_emitter k f c)"
proof -
  let ?c = "upd_emitter k f c"
  have id: "ce_id (f (cl_emitters c ! k)) = ce_id (cl_emitters c ! k)"
    using same by (rule emitter_request_id)
  have "ce_id (cl_emitters ?c ! n) = ce_id (cl_emitters c ! n)" if "n < length (cl_emitters c)" for n
    using id that by (cases "n = k") auto
  then have "handler_ok reqs ?c i h = handler_ok reqs c i h" for i h
    by (cases h) auto
  then have "client_handlers reqs ?c"
    using inv by (simp add: client_inv_def client_handlers_def)
  moreover have "client_ids pf ?c"
    using inv id same by (simp add: client_inv_def ids_by_map del: set_map)
  moreover have "client_log pf reqs ?c" "client_requests reqs ?c" "client_settled got ?c" "client_open X reqs got ?c"
    using inv by (simp_all add: client_inv_def client_log_def client_requests_def client_settled_def client_open_def)
  ultimately show ?thesis
    using inv by (simp add: client_inv_def)
qed

lemma client_inv_listen:
  assumes inv: "client_inv pf X reqs got c" and ok: "request_ok pf (EventListenRequest (cl_lastRequestId c) channelName event arg)"
  shows "client_inv pf X reqs got (ChannelClient_listen channelName event arg c)"
proof (cases "cl_isDisposed c")
  case True
  then show ?thesis
    using inv by (simp add: ChannelClient_listen_def)
next
  case False
  let ?c = "ChannelClient_requestEvent channelName event arg c"
  have fresh: "\<forall>i \<in> cp_id ` set (cl_promises c) \<union> ce_id ` set (cl_emitters c). i \<noteq> cl_lastRequestId c \<and> i \<le> cl_lastRequestId c"
    using client_inv_fresh [OF inv] .
  then have "client_ids pf ?c"
    using inv ok by (auto simp: client_inv_def client_ids_def emitter_request_def ChannelClient_requestEvent_def Let_def)
  moreover have "handler_ok reqs ?c i h" if "handler_ok reqs c i h" for i h
    using that by (cases h) (auto simp: nth_append ChannelClient_requestEvent_def Let_def)
  then have "client_handlers reqs ?c"
    using inv by (auto simp: client_inv_def client_handlers_def ChannelClient_requestEvent_def Let_def update_conv' nth_append split: if_splits)
  moreover have "client_open X reqs got ?c"
    using inv fresh by (auto simp: client_inv_def client_open_def ChannelClient_requestEvent_def Let_def update_conv')
  moreover have "client_log pf reqs ?c" "client_requests reqs ?c" "client_settled got ?c"
    using inv by (simp_all add: client_inv_def client_log_def client_requests_def client_settled_def ChannelClient_requestEvent_def Let_def)
  ultimately show ?thesis
    using False inv by (simp add: client_inv_def ChannelClient_listen_def)
qed

lemma client_inv_onWillAddFirstListener:
  "client_inv pf X reqs got c \<Longrightarrow> client_inv pf X reqs got (ChannelClient_onWillAddFirstListener k c)"
  by (auto simp: ChannelClient_onWillAddFirstListener_def intro!: client_inv_upd_emitter)

lemma client_inv_onEventInitialized:
  assumes inv: "client_inv pf X reqs got c"
  shows "\<exists>rs. client_inv pf X (reqs @ rs) got (ChannelClient_onEventInitialized pf k c)"
proof (cases "cl_state c = Idle \<and> k < length (cl_emitters c) \<and> ce_waiting (cl_emitters c ! k)")
  case True
  let ?c = "activeRequests_add (EmitterDisposable k) (upd_emitter k (\<lambda>e. e\<lparr>ce_waiting := False\<rparr>) c)"
  have c: "client_inv pf X reqs got ?c"
    using inv by (simp add: client_inv_upd_emitter)
  have "k < length (cl_emitters ?c)"
    using True by (simp add: activeRequests_add_def)
  from client_inv_send [OF c client_inv_ok(2) [OF c this]] show ?thesis
    using True by (auto simp: ChannelClient_onEventInitialized_def Let_def emitter_request_def)
next
  case False
  then show ?thesis
    using inv by (intro exI [of _ "[]"]) (auto simp: ChannelClient_onEventInitialized_def)
qed

lemma client_inv_emitter_released:
  assumes inv: "client_inv pf X reqs got c" and k: "k < length (cl_emitters c)"
  shows "\<exists>rs c'. emitter_released pf k c = (None, c') \<and> client_inv pf X (reqs @ rs) got c' \<and>
    cl_promises c' = cl_promises c \<and> length (cl_emitters c') = length (cl_emitters c) \<and> cl_disposed c' = cl_disposed c \<and>
    cl_protocolListener c' = cl_protocolListener c \<and> cl_isDisposed c' = cl_isDisposed c"
proof (cases "ce_waiting (cl_emitters c ! k)")
  case True
  then show ?thesis
    using client_inv_upd_emitter [OF inv, of "\<lambda>e. e\<lparr>ce_waiting := False\<rparr>" k]
    by (intro exI [of _ "[]"]) (simp add: emitter_released_def)
next
  case False
  let ?c = "activeRequests_delete (EmitterDisposable k) c"
  have c: "client_inv pf X reqs got ?c"
    using inv by simp
  have "k < length (cl_emitters ?c)"
    using k by (simp add: activeRequests_delete_def)
  from client_inv_send [OF c request_ok_dispose [OF client_inv_ok(2) [OF c this]]]
  obtain c' where c': "ChannelClient_sendRequest pf (EventDisposeRequest (ce_id (cl_emitters ?c ! k))) ?c = Inr c'"
      "c' = ?c\<lparr>cl_sent := cl_sent c'\<rparr>" "client_inv pf X (reqs @ [EventDisposeRequest (ce_id (cl_emitters ?c ! k))]) got c'"
    by auto
  have "cl_promises c' = cl_promises c" "cl_emitters c' = cl_emitters c" "cl_disposed c' = cl_disposed c"
      "cl_protocolListener c' = cl_protocolListener c" "cl_isDisposed c' = cl_isDisposed c"
    by (subst c'(2), simp add: activeRequests_delete_def)+
  then show ?thesis
    using False c' by (auto simp: emitter_released_def Let_def)
qed

lemma client_inv_onDidRemoveLastListener:
  assumes inv: "client_inv pf X reqs got c" and k: "k < length (cl_emitters c)"
  shows "\<exists>rs c'. ChannelClient_onDidRemoveLastListener pf k c = (None, c') \<and> client_inv pf X (reqs @ rs) got c'"
proof (cases "ce_hasListeners (cl_emitters c ! k)")
  case True
  have "client_inv pf X reqs got (upd_emitter k (\<lambda>e. e\<lparr>ce_hasListeners := False\<rparr>) c)"
    using inv by (simp add: client_inv_upd_emitter)
  from client_inv_emitter_released [OF this, of k] show ?thesis
    using True k by (auto simp: ChannelClient_onDidRemoveLastListener_def)
next
  case False
  then show ?thesis
    using inv by (intro exI [of _ "[]"]) (simp add: ChannelClient_onDidRemoveLastListener_def)
qed

section \<open>Responses\<close>

lemma settled_by_mono: "settled_by got i v \<Longrightarrow> settled_by (got @ rs) i v"
  by (cases "(got, i, v)" rule: settled_by.cases) simp_all

text \<open>A response that is not for an open promise is only recorded.\<close>

lemma client_inv_got:
  assumes inv: "client_inv pf {} reqs got c" and r: "\<And>i. answered_id r = Some i \<Longrightarrow> i \<in> set (promise_ids reqs)"
    and closed: "\<And>k. k < length (cl_promises c) \<Longrightarrow> k \<notin> X \<Longrightarrow> cl_protocolListener c \<Longrightarrow> answered_id r = Some (cp_id (cl_promises c ! k)) \<Longrightarrow>
      cp_settled (cl_promises c ! k) = None \<Longrightarrow> cp_waiting (cl_promises c ! k)"
  shows "client_inv pf X reqs (got @ [r]) c"
proof -
  have "client_settled (got @ [r]) c"
    using inv settled_by_mono unfolding client_inv_def client_settled_def by blast
  moreover have "client_open X reqs (got @ [r]) c"
    using inv closed unfolding client_inv_def client_open_def Let_def by auto
  moreover have "answered (got @ [r]) \<subseteq> set (promise_ids reqs)"
    using inv r by (auto simp: client_inv_def)
  ultimately show ?thesis
    using inv by (simp add: client_inv_def)
qed

lemma client_open_id:
  assumes "client_inv pf X reqs got c" "k < length (cl_promises c)" "n < length (cl_promises c)"
    "cp_id (cl_promises c ! k) = cp_id (cl_promises c ! n)"
  shows "k = n"
proof -
  have "distinct (map cp_id (cl_promises c))"
    using assms(1) by (simp add: client_inv_def client_ids_def)
  then show ?thesis
    using assms(2-4) by (simp add: distinct_conv_nth) metis
qed

lemma client_inv_answer:
  assumes inv: "client_inv pf {} reqs got c" and r: "answered_id r = Some i" "settled_by [r] i v"
    and h: "map_of (cl_handlers c) i = Some (PromiseHandler k)"
  shows "client_inv pf {} reqs (got @ [r])
    (upd_promise k (settle v) (c\<lparr>cl_handlers := AList.delete (cp_id (cl_promises c ! k)) (cl_handlers c)\<rparr>))"
proof -
  have "handler_ok reqs c i (PromiseHandler k)"
    using inv h by (simp add: client_inv_def client_handlers_def del: handler_ok.simps)
  then have k: "k < length (cl_promises c)" "cp_id (cl_promises c ! k) = i" "i \<in> set (promise_ids reqs)"
    by simp_all
  have "client_inv pf {k} reqs (got @ [r]) c"
  proof (rule client_inv_got [OF inv])
    show "cp_waiting (cl_promises c ! n)"
      if "n < length (cl_promises c)" "n \<notin> {k}" "answered_id r = Some (cp_id (cl_promises c ! n))" for n
      using client_open_id [OF inv that(1) k(1)] that r k(2) by simp
  qed (use r k in simp)
  moreover have "settled_by (got @ [r]) i v"
    using r(2) by (cases "([r], i, v)" rule: settled_by.cases) auto
  ultimately have c: "client_inv pf {k} reqs (got @ [r]) (upd_promise k (settle v) c)" (is "client_inv pf {k} reqs _ ?c")
    using k by (intro client_inv_settle) simp_all
  have other: "cp_id (cl_promises ?c ! n) \<noteq> i" if "n < length (cl_promises ?c)" "n \<noteq> k" for n
    using client_open_id [OF c that(1), of k] that k by (auto simp: nth_list_update)
  let ?d = "upd_promise k (settle v) (c\<lparr>cl_handlers := AList.delete i (cl_handlers c)\<rparr>)"
  have "client_open {} reqs (got @ [r]) ?d"
    using c other k by (auto simp: client_inv_def client_open_def Let_def nth_list_update delete_conv' split: if_splits)
  moreover have "handler_ok reqs ?d n h = handler_ok reqs ?c n h" for n h
    by (cases h) simp_all
  then have "client_handlers reqs ?d"
    using c by (auto simp: client_inv_def client_handlers_def delete_conv')
  moreover have "client_log pf reqs ?d" "client_ids pf ?d" "client_requests reqs ?d" "client_settled (got @ [r]) ?d"
    using c by (simp_all add: client_inv_def client_log_def client_ids_def client_requests_def client_settled_def)
  ultimately have "client_inv pf {} reqs (got @ [r]) ?d"
    using c unfolding client_inv_def by blast
  then show ?thesis
    unfolding k(2) .
qed

lemma client_inv_onResponse:
  assumes inv: "client_inv pf {} reqs got c" and r: "\<And>i. answered_id r = Some i \<Longrightarrow> i \<in> set (promise_ids reqs)"
  shows "client_inv pf {} reqs (got @ [r]) (ChannelClient_onResponse r c)"
proof -
  have keep: "client_inv pf {} reqs (got @ [r]) c"
    if "\<And>i k. answered_id r = Some i \<Longrightarrow> map_of (cl_handlers c) i \<noteq> Some (PromiseHandler k)"
    using inv r by (rule client_inv_got) (use inv that in \<open>auto simp: client_inv_def client_open_def Let_def\<close>)
  show ?thesis
  proof (cases "response_id r")
    case None
    then have "client_inv pf {} reqs (got @ [r]) c"
      by (intro keep) (cases r; simp)
    with None show ?thesis
      by (simp add: ChannelClient_onResponse_def)
  next
    case (Some i)
    have answered: "answered_id r = Some n \<Longrightarrow> n = i" for n
      using Some by (cases r) simp_all
    consider "map_of (cl_handlers c) i = None" | k where "map_of (cl_handlers c) i = Some (PromiseHandler k)"
      | k where "map_of (cl_handlers c) i = Some (EventHandler k)"
      by (metis handler.exhaust not_None_eq)
    then show ?thesis
    proof cases
      case 1
      then show ?thesis
        using keep answered Some by (fastforce simp: ChannelClient_onResponse_def)
    next
      case (2 k)
      have "client_inv pf {} reqs (got @ [r]) (promise_handler k r c)"
        using Some 2 client_inv_answer [OF inv _ _ 2, of r] keep by (cases r) auto
      then show ?thesis
        using Some 2 by (simp add: ChannelClient_onResponse_def)
    next
      case (3 k)
      have "client_inv pf {} reqs (got @ [r]) c"
        using keep answered 3 by fastforce
      then show ?thesis
        using Some 3 by (simp add: ChannelClient_onResponse_def event_handler_def client_inv_upd_emitter)
    qed
  qed
qed

text \<open>A disposed client ignores what arrives.\<close>

lemma client_inv_ignored:
  assumes "client_inv pf {} reqs got c" "\<And>i. answered_id r = Some i \<Longrightarrow> i \<in> set (promise_ids reqs)" "\<not> cl_protocolListener c"
  shows "client_inv pf {} reqs (got @ [r]) c"
  using assms by (intro client_inv_got) auto

section \<open>Active requests and disposal\<close>

text \<open>Every open promise is among the active requests, and not disposed.\<close>

definition open_promises :: "'o channelClient \<Rightarrow> nat set" where
  "open_promises c = {k. k < length (cl_promises c) \<and> cp_settled (cl_promises c ! k) = None}"

definition client_disposables :: "'o channelClient \<Rightarrow> clientDisposable set" where
  "client_disposables c = PromiseDisposable ` {..< length (cl_promises c)} \<union> EmitterDisposable ` {..< length (cl_emitters c)}"

definition client_wf :: "'o channelClient \<Rightarrow> bool" where
  "client_wf c \<longleftrightarrow>
     PromiseDisposable ` open_promises c \<subseteq> set (cl_activeRequests c) - set (cl_disposed c) \<and>
     set (cl_activeRequests c) \<union> set (cl_disposed c) \<subseteq> client_disposables c"

lemma client_wf_new: "client_wf new_ChannelClient"
  by (simp add: client_wf_def open_promises_def new_ChannelClient_def)

lemma client_wf_mono:
  assumes "client_wf c" "open_promises c' \<subseteq> open_promises c" "client_disposables c \<subseteq> client_disposables c'"
    "cl_activeRequests c' = cl_activeRequests c" "cl_disposed c' = cl_disposed c"
  shows "client_wf c'"
proof -
  have "PromiseDisposable ` open_promises c' \<subseteq> PromiseDisposable ` open_promises c"
    using assms(2) by (rule image_mono)
  with assms(1,3) show ?thesis
    unfolding client_wf_def assms(4,5) by blast
qed

lemma client_wf_same:
  "client_wf c \<Longrightarrow> cl_promises c' = cl_promises c \<Longrightarrow> length (cl_emitters c') = length (cl_emitters c) \<Longrightarrow>
     cl_activeRequests c' = cl_activeRequests c \<Longrightarrow> cl_disposed c' = cl_disposed c \<Longrightarrow> client_wf c'"
  by (rule client_wf_mono) (simp_all add: open_promises_def client_disposables_def)

lemma sendRequest_frame: "ChannelClient_sendRequest pf r c = Inr c' \<Longrightarrow> c' = c\<lparr>cl_sent := cl_sent c'\<rparr>"
  by (auto simp: ChannelClient_sendRequest_def bind_result_Inr_iff)

lemma sendRequest_fields:
  assumes "ChannelClient_sendRequest pf r c = Inr c'"
  shows "cl_promises c' = cl_promises c" "cl_emitters c' = cl_emitters c" "cl_activeRequests c' = cl_activeRequests c"
    "cl_disposed c' = cl_disposed c" "cl_protocolListener c' = cl_protocolListener c"
  by (subst sendRequest_frame [OF assms], simp)+

lemma doRequest_fields:
  assumes "doRequest pf k c = Inr c'"
  shows "cl_promises c' = cl_promises c" "cl_emitters c' = cl_emitters c" "cl_activeRequests c' = cl_activeRequests c"
    "cl_disposed c' = cl_disposed c"
  using assms by (auto simp: doRequest_def Let_def dest: sendRequest_fields)

lemma client_wf_upd_promise:
  assumes "client_wf c" "cp_settled p = None \<Longrightarrow> cp_settled (cl_promises c ! k) = None"
  shows "client_wf (c\<lparr>cl_promises := (cl_promises c)[k := p]\<rparr>)"
  using assms(1)
proof (rule client_wf_mono)
  show "open_promises (c\<lparr>cl_promises := (cl_promises c)[k := p]\<rparr>) \<subseteq> open_promises c"
    using assms(2) unfolding open_promises_def
    by (cases "k < length (cl_promises c)") (auto simp: nth_list_update list_update_beyond not_less split: if_splits)
qed (simp_all add: client_disposables_def)

lemma client_wf_upd_emitter: "client_wf c \<Longrightarrow> client_wf (c\<lparr>cl_emitters := (cl_emitters c)[k := e]\<rparr>)"
  by (erule client_wf_same) simp_all

lemma client_wf_activeRequests_add:
  "client_wf c \<Longrightarrow> d \<in> client_disposables c \<Longrightarrow> client_wf (activeRequests_add d c)"
  by (auto simp: client_wf_def activeRequests_add_def open_promises_def client_disposables_def)

lemma client_wf_settled_promise:
  assumes "client_wf c" "cp_settled p \<noteq> None"
  shows "client_wf (c\<lparr>cl_promises := cl_promises c @ [p]\<rparr>)"
  using assms(1)
proof (rule client_wf_mono)
  show "open_promises (c\<lparr>cl_promises := cl_promises c @ [p]\<rparr>) \<subseteq> open_promises c"
    using assms(2) unfolding open_promises_def by (auto simp: nth_append less_Suc_eq split: if_splits)
qed (auto simp: client_disposables_def)

lemma insert_Diff_subset: "A \<subseteq> insert x B \<Longrightarrow> B \<subseteq> S - D \<Longrightarrow> x \<notin> D \<Longrightarrow> A \<subseteq> insert x S - D"
  by blast

lemma client_wf_new_promise:
  assumes wf: "client_wf c" and c': "cl_promises c' = cl_promises c @ [p]" "cl_emitters c' = cl_emitters c"
    "cl_activeRequests c' = cl_activeRequests c" "cl_disposed c' = cl_disposed c"
  shows "client_wf (activeRequests_add (PromiseDisposable (length (cl_promises c))) c')"
proof -
  let ?k = "length (cl_promises c)"
  let ?c = "activeRequests_add (PromiseDisposable ?k) c'"
  have "open_promises ?c \<subseteq> insert ?k (open_promises c)"
    using c' unfolding open_promises_def activeRequests_add_def by (auto simp: nth_append less_Suc_eq split: if_splits)
  then have opened: "PromiseDisposable ` open_promises ?c \<subseteq> insert (PromiseDisposable ?k) (PromiseDisposable ` open_promises c)"
    by (metis image_insert image_mono)
  have fields: "set (cl_activeRequests ?c) = insert (PromiseDisposable ?k) (set (cl_activeRequests c))"
      "cl_disposed ?c = cl_disposed c"
    using c' by (auto simp: activeRequests_add_def)
  have refs: "client_disposables ?c = insert (PromiseDisposable ?k) (client_disposables c)"
    using c' by (simp add: client_disposables_def activeRequests_add_def lessThan_Suc)
  have w: "PromiseDisposable ` open_promises c \<subseteq> set (cl_activeRequests c) - set (cl_disposed c)"
      "set (cl_activeRequests c) \<union> set (cl_disposed c) \<subseteq> client_disposables c"
    using wf by (simp_all add: client_wf_def)
  then have "PromiseDisposable ?k \<notin> set (cl_disposed c)"
    by (auto simp: client_disposables_def)
  then show ?thesis
    unfolding client_wf_def fields refs using insert_Diff_subset [OF opened w(1)] w(2) by blast
qed

lemma client_wf_call:
  assumes wf: "client_wf c"
  shows "client_wf (ChannelClient_call pf channelName command arg isCancelled c)"
proof -
  let ?p = "\<lambda>w v. \<lparr>cp_id = cl_lastRequestId c, cp_channelName = channelName, cp_name = command, cp_arg = arg, cp_waiting = w, cp_settled = v\<rparr>"
  let ?c = "\<lambda>w v. c\<lparr>cl_lastRequestId := cl_lastRequestId c + 1, cl_promises := cl_promises c @ [?p w v]\<rparr>"
  have settled: "client_wf (c\<lparr>cl_lastRequestId := n, cl_handlers := h, cl_promises := cl_promises c @ [?p False (Some v)]\<rparr>)" for n and h :: "(int \<times> handler) list" and v
    using client_wf_settled_promise [OF wf, of "?p False (Some v)"] by (rule client_wf_same) simp_all
  have waiting: "client_wf (activeRequests_add (PromiseDisposable (length (cl_promises c))) (?c True None))"
    using wf by (rule client_wf_new_promise) simp_all
  have sent: "client_wf (activeRequests_add (PromiseDisposable (length (cl_promises c))) c')"
    if "doRequest pf (length (cl_promises c)) (?c False None) = Inr c'" for c'
    using client_wf_new_promise [OF wf] doRequest_fields [OF that] by simp
  show ?thesis
    using wf waiting sent settled [where h = "cl_handlers c"] settled
    by (auto simp: ChannelClient_call_def ChannelClient_requestPromise_def Let_def settle_def split: sum.split)
qed

lemma client_wf_onInitialized:
  assumes wf: "client_wf c"
  shows "client_wf (ChannelClient_onInitialized pf k c)"
proof -
  let ?c = "upd_promise k (\<lambda>p. p\<lparr>cp_waiting := False\<rparr>) c"
  have c: "client_wf ?c"
    using wf by (rule client_wf_upd_promise) simp
  have "client_wf c'" if "doRequest pf k ?c = Inr c'" for c'
    using c by (rule client_wf_same) (simp_all add: doRequest_fields [OF that])
  moreover have "client_wf (?c\<lparr>cl_handlers := h\<rparr>)" for h
    using c by (rule client_wf_same) simp_all
  ultimately show ?thesis
    using wf by (auto simp: ChannelClient_onInitialized_def Let_def split: sum.split)
qed

lemma client_wf_cancel: "client_wf c \<Longrightarrow> ChannelClient_cancel pf k c = Inr c' \<Longrightarrow> client_wf c'"
  unfolding ChannelClient_cancel_def
  by (auto simp: bind_result_Inr_iff sendRequest_fields split: if_splits
      intro!: client_wf_upd_promise intro: client_wf_same)

lemma client_wf_onFinally: "client_wf c \<Longrightarrow> client_wf (ChannelClient_onFinally k c)"
  by (auto simp: ChannelClient_onFinally_def activeRequests_delete_def client_wf_def open_promises_def client_disposables_def)

lemma client_wf_listen:
  assumes "client_wf c"
  shows "client_wf (ChannelClient_listen channelName event arg c)"
proof -
  have "client_wf (ChannelClient_requestEvent channelName event arg c)"
    using assms by (rule client_wf_mono)
      (auto simp: ChannelClient_requestEvent_def Let_def open_promises_def client_disposables_def)
  then show ?thesis
    using assms by (simp add: ChannelClient_listen_def)
qed

lemma client_wf_onWillAddFirstListener: "client_wf c \<Longrightarrow> client_wf (ChannelClient_onWillAddFirstListener k c)"
  by (simp add: ChannelClient_onWillAddFirstListener_def client_wf_upd_emitter)

lemma client_wf_onEventInitialized:
  assumes wf: "client_wf c"
  shows "client_wf (ChannelClient_onEventInitialized pf k c)"
proof (cases "k < length (cl_emitters c)")
  case True
  let ?c = "activeRequests_add (EmitterDisposable k) (upd_emitter k (\<lambda>e. e\<lparr>ce_waiting := False\<rparr>) c)"
  have c: "client_wf ?c"
    using True by (intro client_wf_activeRequests_add client_wf_upd_emitter wf) (simp add: client_disposables_def)
  have "client_wf c'" if "ChannelClient_sendRequest pf r ?c = Inr c'" for r c'
    using c by (rule client_wf_same) (simp_all add: sendRequest_fields [OF that])
  then show ?thesis
    using wf c by (auto simp: ChannelClient_onEventInitialized_def Let_def split: sum.split)
next
  case False
  then show ?thesis
    using wf by (simp add: ChannelClient_onEventInitialized_def)
qed

lemma client_wf_activeRequests_delete:
  "client_wf c \<Longrightarrow> client_wf (activeRequests_delete (EmitterDisposable k) c)"
  by (auto simp: activeRequests_delete_def client_wf_def open_promises_def client_disposables_def)

lemma client_wf_emitter_released:
  assumes "client_wf c"
  shows "client_wf (snd (emitter_released pf k c))"
proof (cases "ChannelClient_sendRequest pf (EventDisposeRequest (ce_id (cl_emitters c ! k))) (activeRequests_delete (EmitterDisposable k) c)")
  case (Inl e)
  then show ?thesis
    using assms client_wf_activeRequests_delete [OF assms, of k]
    by (simp add: emitter_released_def Let_def client_wf_upd_emitter activeRequests_delete_def)
next
  case (Inr c')
  from client_wf_activeRequests_delete [OF assms, of k] have "client_wf c'"
    by (rule client_wf_same) (simp_all add: sendRequest_fields [OF Inr])
  with Inr show ?thesis
    using assms by (simp add: emitter_released_def Let_def client_wf_upd_emitter activeRequests_delete_def)
qed

lemma client_wf_onDidRemoveLastListener:
  "client_wf c \<Longrightarrow> client_wf (snd (ChannelClient_onDidRemoveLastListener pf k c))"
  by (simp add: ChannelClient_onDidRemoveLastListener_def client_wf_emitter_released client_wf_upd_emitter)

lemma client_wf_onResponse:
  assumes "client_wf c"
  shows "client_wf (ChannelClient_onResponse r c)"
proof -
  have fields: "client_wf (c\<lparr>cl_handlers := h\<rparr>)" "client_wf (c\<lparr>cl_state := st\<rparr>)" for h st
    using assms by (rule client_wf_same; simp)+
  have "client_wf (c\<lparr>cl_handlers := h, cl_promises := (cl_promises c)[k := settle v (cl_promises c ! k)]\<rparr>)" for h k v
    using client_wf_upd_promise [OF fields(1) [of h], of "settle v (cl_promises c ! k)" k] by (simp split: if_splits)
  then have "client_wf (promise_handler k r c)" for k
    using assms by (cases "(k, r, c)" rule: promise_handler.cases) simp_all
  moreover have "client_wf (event_handler k r c)" for k
    using assms by (simp add: event_handler_def client_wf_upd_emitter)
  ultimately show ?thesis
    using assms fields by (simp add: ChannelClient_onResponse_def split: option.split handler.split)
qed

lemma disposable_dispose_ok:
  assumes inv: "client_inv pf {} reqs got c" and d: "d \<in> client_disposables c"
  shows "\<exists>rs c'. disposable_dispose pf d c = (None, c') \<and> client_inv pf {} (reqs @ rs) got c' \<and>
    open_promises c' \<subseteq> open_promises c - {k. d = PromiseDisposable k} \<and> client_disposables c' = client_disposables c \<and>
    cl_disposed c' = cl_disposed c \<and> cl_protocolListener c' = cl_protocolListener c \<and> cl_isDisposed c' = cl_isDisposed c"
proof (cases d)
  case (PromiseDisposable k)
  then have k: "k < length (cl_promises c)"
    using d by (auto simp: client_disposables_def)
  obtain rs c' where c': "ChannelClient_cancel pf k c = Inr c'" "client_inv pf {} (reqs @ rs) got c'"
      "c' = upd_promise k (\<lambda>p. settle (Rejected CancellationError) (p\<lparr>cp_waiting := False\<rparr>)) (c\<lparr>cl_sent := cl_sent c'\<rparr>)"
    using client_inv_cancel [OF inv k] by auto
  have "open_promises c' \<subseteq> open_promises c - {k}"
    unfolding open_promises_def by (subst c'(3), subst c'(3)) (use k in \<open>auto simp: nth_list_update split: if_splits\<close>)
  moreover have "client_disposables c' = client_disposables c"
    unfolding client_disposables_def by (subst c'(3), subst c'(3)) simp
  moreover have "cl_disposed c' = cl_disposed c" "cl_protocolListener c' = cl_protocolListener c" "cl_isDisposed c' = cl_isDisposed c"
    by (subst c'(3), simp)+
  ultimately show ?thesis
    using PromiseDisposable c'(1,2) by auto
next
  case (EmitterDisposable k)
  let ?c = "upd_emitter k (\<lambda>e. e\<lparr>ce_hasListeners := False\<rparr>) c"
  have k: "k < length (cl_emitters ?c)"
    using d EmitterDisposable by (auto simp: client_disposables_def)
  have c: "client_inv pf {} reqs got ?c"
    using inv by (simp add: client_inv_upd_emitter)
  obtain rs c' where "emitter_released pf k ?c = (None, c')" "client_inv pf {} (reqs @ rs) got c'" "cl_promises c' = cl_promises c"
      "length (cl_emitters c') = length (cl_emitters c)" "cl_disposed c' = cl_disposed c"
      "cl_protocolListener c' = cl_protocolListener c" "cl_isDisposed c' = cl_isDisposed c"
    using client_inv_emitter_released [OF c k] by auto
  then show ?thesis
    using EmitterDisposable by (intro exI [of _ rs] exI [of _ c']) (simp add: open_promises_def client_disposables_def)
qed

lemma dispose_loop_ok:
  assumes "client_inv pf {} reqs got c" "set ds \<subseteq> client_disposables c"
  shows "\<exists>rs c'. dispose_loop pf ds c = ([], c') \<and> client_inv pf {} (reqs @ rs) got c' \<and>
    open_promises c' \<subseteq> open_promises c - {k. PromiseDisposable k \<in> set ds - set (cl_disposed c)} \<and>
    client_disposables c' = client_disposables c \<and> set (cl_disposed c') = set (cl_disposed c) \<union> set ds \<and>
    cl_protocolListener c' = cl_protocolListener c \<and> cl_isDisposed c' = cl_isDisposed c"
  using assms
proof (induction ds arbitrary: c reqs)
  case Nil
  then show ?case
    by (intro exI [of _ "[]"] exI [of _ c]) simp
next
  case (Cons d ds)
  show ?case
  proof (cases "d \<in> set (cl_disposed c)")
    case True
    then show ?thesis
      using Cons.IH [OF Cons.prems(1)] Cons.prems(2) by auto
  next
    case False
    let ?c = "c\<lparr>cl_disposed := cl_disposed c @ [d]\<rparr>"
    have refs: "client_disposables ?c = client_disposables c" "open_promises ?c = open_promises c"
      by (simp_all add: client_disposables_def open_promises_def)
    obtain rs c1 where c1: "disposable_dispose pf d ?c = (None, c1)" "client_inv pf {} (reqs @ rs) got c1"
        "open_promises c1 \<subseteq> open_promises c - {k. d = PromiseDisposable k}" "client_disposables c1 = client_disposables c"
        "cl_disposed c1 = cl_disposed c @ [d]" "cl_protocolListener c1 = cl_protocolListener c" "cl_isDisposed c1 = cl_isDisposed c"
      using disposable_dispose_ok [of pf reqs got ?c d] Cons.prems refs by auto
    obtain ts c2 where c2: "dispose_loop pf ds c1 = ([], c2)" "client_inv pf {} ((reqs @ rs) @ ts) got c2"
        "open_promises c2 \<subseteq> open_promises c1 - {k. PromiseDisposable k \<in> set ds - set (cl_disposed c1)}"
        "client_disposables c2 = client_disposables c1" "set (cl_disposed c2) = set (cl_disposed c1) \<union> set ds"
        "cl_protocolListener c2 = cl_protocolListener c1" "cl_isDisposed c2 = cl_isDisposed c1"
      using Cons.IH [OF c1(2)] Cons.prems(2) c1(4) by auto
    have "open_promises c2 \<subseteq> open_promises c - {k. PromiseDisposable k \<in> set (d # ds) - set (cl_disposed c)}"
      using c1(3) c2(3) unfolding c1(5) by auto
    then show ?thesis
      using False c1 c2 by (intro exI [of _ "rs @ ts"] exI [of _ c2]) simp
  qed
qed

lemma client_dispose_ok:
  assumes inv: "client_inv pf {} reqs got c" and wf: "client_wf c"
  shows "\<exists>rs c'. ChannelClient_dispose pf c = ([], c') \<and> client_inv pf {} (reqs @ rs) got c' \<and> client_wf c' \<and>
    open_promises c' = {} \<and> cl_isDisposed c' \<and> \<not> cl_protocolListener c'"
proof -
  let ?c = "c\<lparr>cl_isDisposed := True, cl_protocolListener := False\<rparr>"
  have c: "client_inv pf {} reqs got ?c"
    using client_inv_unlisten [of pf "{}" reqs got "c\<lparr>cl_isDisposed := True\<rparr>"] inv by simp
  have same: "open_promises ?c = open_promises c" "client_disposables ?c = client_disposables c"
    by (simp_all add: open_promises_def client_disposables_def)
  have w: "PromiseDisposable ` open_promises c \<subseteq> set (cl_activeRequests c) - set (cl_disposed c)"
      "set (cl_activeRequests c) \<union> set (cl_disposed c) \<subseteq> client_disposables c"
    using wf by (simp_all add: client_wf_def)
  then obtain rs c' where c': "dispose_loop pf (cl_activeRequests ?c) ?c = ([], c')" "client_inv pf {} (reqs @ rs) got c'"
      "open_promises c' \<subseteq> open_promises c - {k. PromiseDisposable k \<in> set (cl_activeRequests c) - set (cl_disposed c)}"
      "client_disposables c' = client_disposables c" "set (cl_disposed c') = set (cl_disposed c) \<union> set (cl_activeRequests c)"
      "\<not> cl_protocolListener c'" "cl_isDisposed c'"
    using dispose_loop_ok [OF c, of "cl_activeRequests c"] same by auto
  have closed: "open_promises c' = {}"
    using c'(3) w(1) by blast
  then have "client_wf (c'\<lparr>cl_activeRequests := []\<rparr>)"
    using c'(4,5) w(2) by (simp add: client_wf_def open_promises_def client_disposables_def)
  then show ?thesis
    using c' closed by (intro exI [of _ rs] exI [of _ "c'\<lparr>cl_activeRequests := []\<rparr>"])
      (simp add: ChannelClient_dispose_def Let_def open_promises_def)
qed

end
