(* ===== verification/Ipc_Server.thy ===== *)
theory Ipc_Server
  imports Ipc_Client "HOL-Library.Multiset"
begin

text \<open>
  The invariant of a \<open>ChannelServer\<close>.  It relates the server to the list \<open>proc\<close> of the requests it has been given
  and the list \<open>resps\<close> of the responses it has sent: every promise request is either pending for its channel or has
  been called exactly once, and every answer is the outcome of the call with its id, or the time-out
  of a request whose channel was not registered in time.
\<close>

section \<open>The invariant\<close>

definition call_request :: "('o, 'c) serverCall \<Rightarrow> 'o rawRequest" where
  "call_request sc = PromiseRequest (sc_id sc) (sc_channelName sc) (sc_name sc) (sc_arg sc)"

fun request_channel :: "'o rawRequest \<Rightarrow> js_string option" where
  "request_channel (PromiseRequest i channelName name arg) = Some channelName"
| "request_channel (EventListenRequest i channelName name arg) = Some channelName"
| "request_channel _ = None"

definition pending_requests :: "('o, 'c) channelServer \<Rightarrow> 'o rawRequest list" where
  "pending_requests s = map pq_request (concat (map snd (sv_pendingRequests s)))"

definition timeout_response :: "'o platform \<Rightarrow> nat \<Rightarrow> int \<Rightarrow> js_string \<Rightarrow> 'o rawResponse" where
  "timeout_response pf timeoutDelay i channelName =
     PromiseErrorResponse i (VOther (pf_errorData pf (timeout_message timeoutDelay channelName) (js_text ''Unknown channel'') None))"

definition server_log :: "'o platform \<Rightarrow> 'o rawResponse list \<Rightarrow> ('o, 'c) channelServer \<Rightarrow> bool" where
  "server_log pf resps s \<longleftrightarrow> sv_sent s = map (message pf \<circ> response_header) resps \<and> (\<forall>r \<in> set resps. response_ok pf r)"

definition server_pending :: "'o rawRequest list \<Rightarrow> ('o, 'c) channelServer \<Rightarrow> bool" where
  "server_pending proc s \<longleftrightarrow>
     distinct (map fst (sv_pendingRequests s)) \<and>
     (\<forall>(channelName, ps) \<in> set (sv_pendingRequests s). \<forall>p \<in> set ps. request_channel (pq_request p) = Some channelName) \<and>
     (\<forall>channelName \<in> set (sv_flushes s). map_of (sv_channels s) channelName \<noteq> None) \<and>
     set (pending_requests s) \<subseteq> set proc \<and> (\<forall>r. Some r \<in> set (sv_timers s) \<longrightarrow> r \<in> set proc)"

definition server_calls :: "'o rawRequest list \<Rightarrow> ('o, 'c) channelServer \<Rightarrow> bool" where
  "server_calls proc s \<longleftrightarrow>
     mset (map call_request (sv_calls s)) + mset (filter is_promise (pending_requests s)) \<subseteq># mset (filter is_promise proc) \<and>
     (sv_protocolListener s \<longrightarrow>
        mset (filter is_promise proc) = mset (map call_request (sv_calls s)) + mset (filter is_promise (pending_requests s)))"

definition call_outcomes :: "('o, 'c) channelServer \<Rightarrow> (int \<times> 'o outcome) set" where
  "call_outcomes s = {(sc_id sc, out) | sc out. sc \<in> set (sv_calls s) \<and> sc_outcome sc = Some out}"

definition listens :: "('o, 'c) channelServer \<Rightarrow> (int \<times> js_string \<times> 'o ipc_value) set" where
  "listens s = (\<lambda>ss. (ss_id ss, ss_name ss, ss_arg ss)) ` set (sv_subscriptions s)"

definition answer_of :: "'o platform \<Rightarrow> nat \<Rightarrow> 'o rawRequest list \<Rightarrow> (int \<times> 'o outcome) set \<Rightarrow> int \<Rightarrow> 'o rawResponse \<Rightarrow> bool" where
  "answer_of pf timeoutDelay proc outs i r \<longleftrightarrow>
     (\<exists>out. (i, out) \<in> outs \<and> r = outcome_response pf i out) \<or>
     (\<exists>channelName name arg. PromiseRequest i channelName name arg \<in> set proc \<and> r = timeout_response pf timeoutDelay i channelName)"

definition server_answers ::
  "'o platform \<Rightarrow> nat \<Rightarrow> 'o rawRequest list \<Rightarrow> 'o rawResponse list \<Rightarrow> (int \<times> 'o outcome) set \<Rightarrow> bool" where
  "server_answers pf timeoutDelay proc resps outs \<longleftrightarrow>
     (\<forall>r \<in> set resps. \<forall>i. answered_id r = Some i \<longrightarrow> answer_of pf timeoutDelay proc outs i r) \<and>
     (\<forall>(i, out) \<in> outs. outcome_response pf i out \<in> set resps)"

definition server_events :: "'o rawRequest list \<Rightarrow> 'o rawResponse list \<Rightarrow> (int \<times> js_string \<times> 'o ipc_value) set \<Rightarrow> bool" where
  "server_events proc resps ls \<longleftrightarrow>
     (\<forall>i v. EventFireResponse i v \<in> set resps \<longrightarrow> i \<in> fst ` ls) \<and>
     (\<forall>(i, name, arg) \<in> ls. \<exists>channelName. EventListenRequest i channelName name arg \<in> set proc)"

definition server_inv ::
  "'o platform \<Rightarrow> nat \<Rightarrow> 'o rawRequest list \<Rightarrow> 'o rawResponse list \<Rightarrow> ('o, 'c) channelServer \<Rightarrow> bool" where
  "server_inv pf timeoutDelay proc resps s \<longleftrightarrow>
     server_log pf resps s \<and> server_pending proc s \<and> server_calls proc s \<and> server_answers pf timeoutDelay proc resps (call_outcomes s) \<and>
     server_events proc resps (listens s)"

lemmas server_defs = server_log_def server_pending_def server_calls_def server_answers_def server_events_def answer_of_def pending_requests_def call_outcomes_def listens_def

section \<open>Helpers\<close>

lemma call_request_simps [simp]:
  "is_promise (call_request sc)" "request_id (call_request sc) = sc_id sc"
  "call_request (sc\<lparr>sc_cancelled := b\<rparr>) = call_request sc" "call_request (sc\<lparr>sc_outcome := out\<rparr>) = call_request sc"
  by (simp_all add: call_request_def)

lemma answered_outcome [simp]: "answered_id (outcome_response pf i out) = Some i"
  by (cases out) (simp_all add: outcome_response_def)

lemma answered_timeout [simp]: "answered_id (timeout_response pf d i channelName) = Some i"
  by (simp add: timeout_response_def)

lemma mset_update:
  "mset (concat (map snd (AList.update k ((case map_of xs k of None \<Rightarrow> [] | Some v \<Rightarrow> v) @ [q]) xs))) = add_mset q (mset (concat (map snd xs)))"
  by (induction xs) auto

lemma mset_delete:
  "distinct (map fst xs) \<Longrightarrow> map_of xs k = Some v \<Longrightarrow>
     mset (concat (map snd xs)) = mset v + mset (concat (map snd (AList.delete k xs)))"
proof (induction xs)
  case (Cons x xs)
  obtain k' v' where x: "x = (k', v')"
    by (cases x)
  show ?case
  proof (cases "k' = k")
    case True
    moreover have "AList.delete k xs = xs"
      using Cons.prems(1) True x by (simp add: delete_id)
    ultimately show ?thesis
      using Cons.prems(2) x by simp
  next
    case False
    then show ?thesis
      using Cons x by simp
  qed
qed simp

lemma response_ok_Initialize: "response_ok pf InitializeResponse"
  by (simp add: response_ok_def response_header_def RS_defs)

lemma server_inv_new:
  "\<exists>s :: ('o, 'c) channelServer. new_ChannelServer pf = Inr s \<and> server_inv pf timeoutDelay [] [InitializeResponse] s \<and> sv_protocolListener s"
proof -
  let ?s = "\<lparr>sv_channels = [], sv_activeRequests = [], sv_protocolListener = True, sv_pendingRequests = [], sv_timers = [],
    sv_flushes = [], sv_calls = [], sv_subscriptions = [], sv_sent = [message pf (response_header InitializeResponse)]\<rparr> :: ('o, 'c) channelServer"
  have "new_ChannelServer pf = Inr ?s"
    by (simp add: new_ChannelServer_def sendResponse_message [OF response_ok_Initialize])
  moreover have "server_inv pf timeoutDelay [] [InitializeResponse] ?s"
    by (simp add: server_inv_def server_defs response_ok_Initialize)
  ultimately show ?thesis
    by simp
qed

section \<open>Requests\<close>

text \<open>The invariant only looks at these parts of the state.\<close>

lemma server_inv_same:
  assumes "server_inv pf d proc resps s" "sv_sent s' = sv_sent s" "sv_pendingRequests s' = sv_pendingRequests s"
    "sv_flushes s' = sv_flushes s" "sv_channels s' = sv_channels s" "set (sv_timers s') \<subseteq> insert None (set (sv_timers s))"
    "sv_protocolListener s' \<longrightarrow> sv_protocolListener s" "map call_request (sv_calls s') = map call_request (sv_calls s)"
    "call_outcomes s' = call_outcomes s" "listens s' = listens s"
  shows "server_inv pf d proc resps s'"
proof -
  have "pending_requests s' = pending_requests s"
    using assms(3) by (simp add: pending_requests_def)
  moreover have "\<forall>r. Some r \<in> set (sv_timers s') \<longrightarrow> Some r \<in> set (sv_timers s)"
    using assms(6) by blast
  ultimately have "server_pending proc s'"
    using assms(1) unfolding server_inv_def server_pending_def assms(2-5) by simp
  moreover have "server_calls proc s'"
    using assms(1,7) \<open>pending_requests s' = pending_requests s\<close> unfolding server_inv_def server_calls_def assms(8) by simp
  ultimately show ?thesis
    using assms(1) unfolding server_inv_def server_log_def assms(2,9,10) by blast
qed

text \<open>One more request that is neither called nor kept.\<close>

lemma server_answers_more: "server_answers pf d proc resps outs \<Longrightarrow> server_answers pf d (proc @ rs) resps outs"
  by (fastforce simp: server_answers_def answer_of_def)

lemma server_events_more: "server_events proc resps ls \<Longrightarrow> server_events (proc @ rs) resps ls"
  by (fastforce simp: server_events_def)

lemma server_inv_more:
  assumes inv: "server_inv pf d proc resps s" and r: "is_promise r \<Longrightarrow> \<not> sv_protocolListener s"
  shows "server_inv pf d (proc @ [r]) resps s"
proof -
  have "server_calls (proc @ [r]) s"
    using inv r by (auto simp: server_inv_def server_calls_def intro: subset_mset.order_trans)
  moreover have "server_pending (proc @ [r]) s"
    using inv by (auto simp: server_inv_def server_pending_def)
  ultimately show ?thesis
    using inv by (simp add: server_inv_def server_answers_more server_events_more)
qed

lemma set_update_subset: "set (AList.update k v xs) \<subseteq> insert (k, v) (set xs)"
  by (induction xs) auto

lemma server_inv_collect:
  assumes inv: "server_inv pf d proc resps s" and r: "request_channel r = Some channelName"
  shows "server_inv pf d (proc @ [r]) resps (ChannelServer_collectPendingRequest channelName r s)"
proof -
  let ?s = "ChannelServer_collectPendingRequest channelName r s"
  let ?old = "case map_of (sv_pendingRequests s) channelName of None \<Rightarrow> [] | Some ps \<Rightarrow> ps"
  let ?q = "\<lparr>pq_request = r, pq_timer = length (sv_timers s)\<rparr>"
  have fields: "sv_pendingRequests ?s = AList.update channelName (?old @ [?q]) (sv_pendingRequests s)" "sv_sent ?s = sv_sent s"
      "sv_timers ?s = sv_timers s @ [Some r]" "sv_flushes ?s = sv_flushes s" "sv_channels ?s = sv_channels s"
      "sv_protocolListener ?s = sv_protocolListener s" "sv_calls ?s = sv_calls s" "sv_subscriptions ?s = sv_subscriptions s"
    by (simp_all add: ChannelServer_collectPendingRequest_def Let_def)
  have old: "p \<in> set ?old \<Longrightarrow> request_channel (pq_request p) = Some channelName" for p
    using inv by (auto simp: server_inv_def server_pending_def split: option.splits dest!: map_of_SomeD)
  have pending: "mset (pending_requests ?s) = add_mset r (mset (pending_requests s))"
    unfolding pending_requests_def fields mset_map mset_update by simp
  have "server_pending (proc @ [r]) ?s"
    unfolding server_pending_def fields set_mset_mset [of "pending_requests ?s", symmetric] pending
  proof (intro conjI)
    show "\<forall>(channelName, ps) \<in> set (AList.update channelName (?old @ [?q]) (sv_pendingRequests s)).
      \<forall>p \<in> set ps. request_channel (pq_request p) = Some channelName"
      using inv r old set_update_subset [of channelName "?old @ [?q]" "sv_pendingRequests s"]
      by (fastforce simp: server_inv_def server_pending_def)
  qed (use inv in \<open>auto simp: server_inv_def server_pending_def distinct_update\<close>)
  moreover have "server_calls (proc @ [r]) ?s"
    using inv pending by (simp add: server_inv_def server_calls_def fields mset_filter)
  ultimately show ?thesis
    using inv by (simp add: server_inv_def server_answers_more server_events_more server_log_def call_outcomes_def listens_def fields)
qed

lemma call_outcomes_append: "sc_outcome sc = None \<Longrightarrow> call_outcomes (s\<lparr>sv_calls := sv_calls s @ [sc], sv_activeRequests := a\<rparr>) = call_outcomes s"
  by (auto simp: call_outcomes_def)

lemma server_inv_onPromise:
  assumes inv: "server_inv pf d proc resps s"
  shows "server_inv pf d (proc @ [PromiseRequest i channelName name arg]) resps (ChannelServer_onPromise i channelName name arg s)"
proof (cases "map_of (sv_channels s) channelName")
  case None
  then show ?thesis
    using inv by (simp add: ChannelServer_onPromise_def server_inv_collect)
next
  case (Some channel)
  let ?s = "ChannelServer_onPromise i channelName name arg s"
  have pend: "pending_requests ?s = pending_requests s"
    using Some by (simp add: pending_requests_def ChannelServer_onPromise_def)
  let ?r = "PromiseRequest i channelName name arg"
  have "server_calls (proc @ [?r]) ?s" "server_pending (proc @ [?r]) ?s"
    using inv Some pend by (auto simp: server_inv_def server_calls_def server_pending_def ChannelServer_onPromise_def call_request_def)
  then show ?thesis
    using inv Some by (simp add: server_inv_def server_answers_more server_events_more server_log_def listens_def
        ChannelServer_onPromise_def call_outcomes_append)
qed

lemma server_events_listen:
  "server_events proc resps ls \<Longrightarrow> server_events (proc @ [EventListenRequest i channelName name arg]) resps (insert (i, name, arg) ls)"
  by (fastforce simp: server_events_def)

lemma server_inv_onEventListen:
  assumes inv: "server_inv pf d proc resps s"
  shows "server_inv pf d (proc @ [EventListenRequest i channelName name arg]) resps (ChannelServer_onEventListen i channelName name arg s)"
proof (cases "map_of (sv_channels s) channelName")
  case None
  then show ?thesis
    using inv by (simp add: ChannelServer_onEventListen_def server_inv_collect)
next
  case (Some channel)
  let ?s = "ChannelServer_onEventListen i channelName name arg s"
  have pend: "pending_requests ?s = pending_requests s"
    using Some by (simp add: pending_requests_def ChannelServer_onEventListen_def)
  let ?r = "EventListenRequest i channelName name arg"
  have "listens ?s = insert (i, name, arg) (listens s)" "call_outcomes ?s = call_outcomes s"
    using Some by (auto simp: ChannelServer_onEventListen_def listens_def call_outcomes_def)
  moreover have "server_calls (proc @ [?r]) ?s" "server_pending (proc @ [?r]) ?s"
    using inv Some pend by (auto simp: server_inv_def server_calls_def server_pending_def ChannelServer_onEventListen_def)
  ultimately show ?thesis
    using inv Some by (simp add: server_inv_def server_answers_more server_events_listen server_log_def ChannelServer_onEventListen_def)
qed

lemma set_map_update: "(k < length xs \<Longrightarrow> g y = g (xs ! k)) \<Longrightarrow> g ` set (xs[k := y]) = g ` set xs"
  by (simp flip: set_map)

lemma call_outcomes_image:
  "call_outcomes s = {(request_id r, out) | r out. (r, Some out) \<in> (\<lambda>sc. (call_request sc, sc_outcome sc)) ` set (sv_calls s)}"
  by (auto simp: call_outcomes_def image_iff) (metis call_request_simps(2))+

lemma server_inv_activeRequest_dispose:
  assumes "server_inv pf d proc resps s"
  shows "server_inv pf d proc resps (activeRequest_dispose a s)"
  using assms
proof (rule server_inv_same)
  show "map call_request (sv_calls (activeRequest_dispose a s)) = map call_request (sv_calls s)"
    by (cases a) (simp_all add: activeRequest_dispose_def)
  show "call_outcomes (activeRequest_dispose a s) = call_outcomes s"
    by (cases a) (simp_all add: activeRequest_dispose_def call_outcomes_image set_map_update)
  show "listens (activeRequest_dispose a s) = listens s"
    by (cases a) (simp_all add: activeRequest_dispose_def listens_def set_map_update)
qed (cases a; simp add: activeRequest_dispose_def subset_insertI)+

lemma server_inv_activeRequests: "server_inv pf d proc resps s \<Longrightarrow> server_inv pf d proc resps (s\<lparr>sv_activeRequests := a\<rparr>)"
  by (erule server_inv_same) (auto simp: call_outcomes_def listens_def)

lemma server_inv_disposeActiveRequest:
  assumes "server_inv pf d proc resps s"
  shows "server_inv pf d proc resps (ChannelServer_disposeActiveRequest i s)"
  using assms server_inv_activeRequests [OF server_inv_activeRequest_dispose [OF assms]]
  by (auto simp: ChannelServer_disposeActiveRequest_def Let_def split: option.split)

lemma server_inv_onRequest:
  assumes "server_inv pf d proc resps s"
  shows "server_inv pf d (proc @ [r]) resps (ChannelServer_onRequest r s)"
proof (cases "is_promise r \<or> (\<exists>i channelName name arg. r = EventListenRequest i channelName name arg)")
  case True
  then show ?thesis
    using assms by (cases r) (simp_all add: server_inv_onPromise server_inv_onEventListen)
next
  case False
  then have "server_inv pf d proc resps (ChannelServer_onRequest r s)"
    using assms by (cases r) (simp_all add: server_inv_disposeActiveRequest)
  with False show ?thesis
    by (intro server_inv_more) auto
qed

section \<open>Answers and events\<close>

lemma server_inv_send:
  assumes inv: "server_inv pf d proc resps s" and ok: "response_ok pf r"
    and answer: "\<And>i. answered_id r = Some i \<Longrightarrow> answer_of pf d proc (call_outcomes s) i r"
    and event: "\<And>i v. r = EventFireResponse i v \<Longrightarrow> i \<in> fst ` listens s"
  shows "server_inv pf d proc (resps @ [r]) (s\<lparr>sv_sent := sv_sent s @ [message pf (response_header r)]\<rparr>)"
proof -
  let ?s = "s\<lparr>sv_sent := sv_sent s @ [message pf (response_header r)]\<rparr>"
  have "call_outcomes ?s = call_outcomes s" "listens ?s = listens s"
    by (simp_all add: call_outcomes_def listens_def)
  moreover have "server_answers pf d proc (resps @ [r]) (call_outcomes s)"
    using inv answer by (auto simp: server_inv_def server_answers_def)
  moreover have "server_events proc (resps @ [r]) (listens s)"
    using inv event by (auto simp: server_inv_def server_events_def)
  ultimately show ?thesis
    using inv ok by (simp add: server_inv_def server_log_def server_pending_def server_calls_def pending_requests_def)
qed

lemma server_inv_onEvent:
  assumes inv: "server_inv pf d proc resps s" and k: "k < length (sv_subscriptions s)"
    and ok: "response_ok pf (EventFireResponse (ss_id (sv_subscriptions s ! k)) data)"
  shows "\<exists>rs s'. ChannelServer_onEvent pf k data s = Inr s' \<and> server_inv pf d proc (resps @ rs) s'"
proof (cases "ss_disposed (sv_subscriptions s ! k)")
  case True
  then show ?thesis
    using inv by (intro exI [of _ "[]"]) (simp add: ChannelServer_onEvent_def)
next
  case False
  have "ss_id (sv_subscriptions s ! k) \<in> fst ` listens s"
    using k by (force simp: listens_def)
  then have "server_inv pf d proc (resps @ [EventFireResponse (ss_id (sv_subscriptions s ! k)) data])
      (s\<lparr>sv_sent := sv_sent s @ [message pf (response_header (EventFireResponse (ss_id (sv_subscriptions s ! k)) data))]\<rparr>)"
    using inv ok by (intro server_inv_send) auto
  with False show ?thesis
    by (intro exI) (auto simp: ChannelServer_onEvent_def sendResponse_message [OF ok])
qed

lemma call_outcomes_settle:
  assumes "k < length (sv_calls s)" "sc_outcome (sv_calls s ! k) = None"
  shows "call_outcomes (s\<lparr>sv_calls := (sv_calls s)[k := (sv_calls s ! k)\<lparr>sc_outcome := Some out\<rparr>]\<rparr>) =
    insert (sc_id (sv_calls s ! k), out) (call_outcomes s)"
proof -
  obtain xs sc ys where calls: "sv_calls s = xs @ sc # ys" "length xs = k"
    using id_take_nth_drop [OF assms(1)] assms(1) by (metis length_take min.absorb4)
  then show ?thesis
    using assms(2) by (auto simp: call_outcomes_def) (rule exI [of _ "sc\<lparr>sc_outcome := Some out\<rparr>"], simp)
qed

lemma server_inv_onSettled:
  assumes inv: "server_inv pf d proc resps s" and k: "k < length (sv_calls s)" "sc_outcome (sv_calls s ! k) = None"
    and ok: "response_ok pf (outcome_response pf (sc_id (sv_calls s ! k)) out)"
  shows "\<exists>s'. ChannelServer_onSettled pf k out s = Inr s' \<and>
    server_inv pf d proc (resps @ [outcome_response pf (sc_id (sv_calls s ! k)) out]) s'"
proof -
  let ?r = "outcome_response pf (sc_id (sv_calls s ! k)) out"
  let ?s = "s\<lparr>sv_calls := (sv_calls s)[k := (sv_calls s ! k)\<lparr>sc_outcome := Some out\<rparr>], sv_sent := sv_sent s @ [message pf (response_header ?r)],
    sv_activeRequests := AList.delete (sc_id (sv_calls s ! k)) (sv_activeRequests s)\<rparr>"
  have outs: "call_outcomes ?s = insert (sc_id (sv_calls s ! k), out) (call_outcomes s)"
    using call_outcomes_settle [OF k, of out] by (simp add: call_outcomes_def)
  have "server_answers pf d proc (resps @ [?r]) (insert (sc_id (sv_calls s ! k), out) (call_outcomes s))"
    using inv by (fastforce simp: server_inv_def server_answers_def answer_of_def)
  moreover have "server_events proc (resps @ [?r]) (listens s)"
    using inv by (auto simp: server_inv_def server_events_def outcome_response_def split: outcome.splits)
  ultimately have "server_inv pf d proc (resps @ [?r]) ?s"
    using inv ok k unfolding server_inv_def outs by (simp add: server_log_def server_pending_def server_calls_def pending_requests_def listens_def del: mset_map)
  then show ?thesis
    by (simp add: ChannelServer_onSettled_def Let_def sendResponse_message [OF ok])
qed

lemma server_inv_onPendingTimeout:
  assumes inv: "server_inv pf d proc resps s" and timer: "timer < length (sv_timers s)"
    and ok: "\<And>i channelName name arg. sv_timers s ! timer = Some (PromiseRequest i channelName name arg) \<Longrightarrow>
      response_ok pf (timeout_response pf d i channelName)"
  shows "\<exists>rs s'. ChannelServer_onPendingTimeout pf d timer s = Inr s' \<and> server_inv pf d proc (resps @ rs) s'"
proof -
  have empty: "server_inv pf d proc resps (s\<lparr>sv_timers := (sv_timers s)[timer := None]\<rparr>)" (is "server_inv _ _ _ _ ?s")
    using inv by (rule server_inv_same) (simp_all add: call_outcomes_def listens_def set_update_subset_insert)
  show ?thesis
  proof (cases "\<exists>i channelName name arg. sv_timers s ! timer = Some (PromiseRequest i channelName name arg)")
    case True
    then obtain i channelName name arg where r: "sv_timers s ! timer = Some (PromiseRequest i channelName name arg)"
      by blast
    then have "PromiseRequest i channelName name arg \<in> set proc"
      using inv timer by (metis nth_mem server_inv_def server_pending_def)
    then have "answer_of pf d proc (call_outcomes ?s) i (timeout_response pf d i channelName)"
      by (auto simp: answer_of_def)
    then have "server_inv pf d proc (resps @ [timeout_response pf d i channelName])
        (?s\<lparr>sv_sent := sv_sent ?s @ [message pf (response_header (timeout_response pf d i channelName))]\<rparr>)"
      using empty ok [OF r] by (intro server_inv_send) (simp_all, simp add: timeout_response_def)
    with r show ?thesis
      using sendResponse_message [OF ok [OF r], of ?s]
      by (intro exI) (auto simp: ChannelServer_onPendingTimeout_def Let_def simp flip: timeout_response_def)
  next
    case False
    then show ?thesis
      using inv empty by (intro exI [of _ "[]"]) (auto simp: ChannelServer_onPendingTimeout_def Let_def split: option.split rawRequest.split)
  qed
qed

section \<open>Channels\<close>

lemma server_inv_registerChannel:
  assumes inv: "server_inv pf d proc resps s"
  shows "server_inv pf d proc resps (ChannelServer_registerChannel channelName channel s)"
proof -
  have "server_pending proc (ChannelServer_registerChannel channelName channel s)"
    using inv by (auto simp: server_inv_def server_pending_def pending_requests_def ChannelServer_registerChannel_def update_conv')
  then show ?thesis
    using inv by (simp add: server_inv_def server_log_def server_calls_def pending_requests_def call_outcomes_def listens_def
        ChannelServer_registerChannel_def)
qed

lemma server_inv_dispose:
  assumes inv: "server_inv pf d proc resps s"
  shows "server_inv pf d proc resps (ChannelServer_dispose s)"
proof -
  let ?s = "s\<lparr>sv_protocolListener := False\<rparr>"
  have "server_inv pf d proc resps ?s"
    using inv by (rule server_inv_same) (auto simp: call_outcomes_def listens_def)
  then have "server_inv pf d proc resps (fold activeRequest_dispose ds ?s)" for ds
    by (induction ds rule: rev_induct) (simp_all add: server_inv_activeRequest_dispose)
  then show ?thesis
    by (simp add: ChannelServer_dispose_def Let_def server_inv_activeRequests)
qed

text \<open>
  Flushing: while the requests of a registered channel are taken up, what is taken up leaves the
  pending part \<open>ps\<close> and joins the calls or subscriptions.
\<close>

lemma flush_request_called:
  assumes "map_of (sv_channels s) channelName = Some channel" "request_channel (pq_request p) = Some channelName"
  shows "map call_request (sv_calls (flush_request p s)) = map call_request (sv_calls s) @ filter is_promise [pq_request p]"
    "call_outcomes (flush_request p s) = call_outcomes s"
    "listens s \<subseteq> listens (flush_request p s)"
    "x \<in> listens (flush_request p s) \<Longrightarrow> x \<in> listens s \<or> (\<exists>ch. EventListenRequest (fst x) ch (fst (snd x)) (snd (snd x)) = pq_request p)"
    "sv_pendingRequests (flush_request p s) = sv_pendingRequests s" "sv_sent (flush_request p s) = sv_sent s"
    "sv_channels (flush_request p s) = sv_channels s" "sv_flushes (flush_request p s) = sv_flushes s"
    "sv_protocolListener (flush_request p s) = sv_protocolListener s"
    "set (sv_timers (flush_request p s)) \<subseteq> insert None (set (sv_timers s))"
  using assms set_update_subset_insert [of "sv_timers s" "pq_timer p" None]
  by (cases "pq_request p"; auto simp: flush_request_def Let_def ChannelServer_onPromise_def ChannelServer_onEventListen_def
      call_request_def call_outcomes_def listens_def)+

lemma flush_fold:
  assumes "map_of (sv_channels s) channelName = Some channel" "\<forall>p \<in> set ps. request_channel (pq_request p) = Some channelName"
  shows "map call_request (sv_calls (fold flush_request ps s)) = map call_request (sv_calls s) @ filter is_promise (map pq_request ps) \<and>
    call_outcomes (fold flush_request ps s) = call_outcomes s \<and> listens s \<subseteq> listens (fold flush_request ps s) \<and>
    (\<forall>x \<in> listens (fold flush_request ps s). x \<in> listens s \<or>
       (\<exists>ch. EventListenRequest (fst x) ch (fst (snd x)) (snd (snd x)) \<in> set (map pq_request ps))) \<and>
    sv_pendingRequests (fold flush_request ps s) = sv_pendingRequests s \<and> sv_sent (fold flush_request ps s) = sv_sent s \<and>
    sv_channels (fold flush_request ps s) = sv_channels s \<and> sv_flushes (fold flush_request ps s) = sv_flushes s \<and>
    sv_protocolListener (fold flush_request ps s) = sv_protocolListener s \<and>
    set (sv_timers (fold flush_request ps s)) \<subseteq> insert None (set (sv_timers s))"
  using assms(2)
proof (induction ps rule: rev_induct)
  case (snoc p ps)
  let ?t = "fold flush_request ps s"
  have IH: "map call_request (sv_calls ?t) = map call_request (sv_calls s) @ filter is_promise (map pq_request ps)"
      "call_outcomes ?t = call_outcomes s" "listens s \<subseteq> listens ?t"
      "\<forall>x \<in> listens ?t. x \<in> listens s \<or> (\<exists>ch. EventListenRequest (fst x) ch (fst (snd x)) (snd (snd x)) \<in> set (map pq_request ps))"
      "sv_pendingRequests ?t = sv_pendingRequests s" "sv_sent ?t = sv_sent s" "sv_channels ?t = sv_channels s"
      "sv_flushes ?t = sv_flushes s" "sv_protocolListener ?t = sv_protocolListener s"
      "set (sv_timers ?t) \<subseteq> insert None (set (sv_timers s))"
    using snoc by simp_all
  have p: "map_of (sv_channels ?t) channelName = Some channel" "request_channel (pq_request p) = Some channelName"
    using assms(1) snoc.prems IH(7) by simp_all
  have "\<forall>x \<in> listens (flush_request p ?t). x \<in> listens s \<or>
      (\<exists>ch. EventListenRequest (fst x) ch (fst (snd x)) (snd (snd x)) \<in> set (map pq_request (ps @ [p])))"
    using flush_request_called(4) [OF p] IH(4) by fastforce
  moreover have "listens s \<subseteq> listens (flush_request p ?t)"
    using flush_request_called(3) [OF p] IH(3) by blast
  moreover have "set (sv_timers (flush_request p ?t)) \<subseteq> insert None (set (sv_timers s))"
    using flush_request_called(10) [OF p] IH(10) by blast
  ultimately show ?case
    using IH flush_request_called(1,2,5-9) [OF p] by simp
qed auto

lemma server_events_extend:
  assumes "server_events proc resps ls" "ls \<subseteq> ms" "set rs \<subseteq> set proc"
    "\<forall>x \<in> ms. x \<in> ls \<or> (\<exists>ch. EventListenRequest (fst x) ch (fst (snd x)) (snd (snd x)) \<in> set rs)"
  shows "server_events proc resps ms"
  unfolding server_events_def
proof (intro conjI allI impI ballI)
  show "i \<in> fst ` ms" if "EventFireResponse i v \<in> set resps" for i v
    using that assms(1) image_mono [OF assms(2), of fst] unfolding server_events_def by blast
  show "case x of (i, name, arg) \<Rightarrow> \<exists>channelName. EventListenRequest i channelName name arg \<in> set proc" if "x \<in> ms" for x
    using that assms(1,3,4) by (cases x) (fastforce simp: server_events_def)
qed

lemma server_inv_onFlushTimer:
  assumes inv: "server_inv pf d proc resps s"
  shows "server_inv pf d proc resps (ChannelServer_onFlushTimer channelName s)"
proof (cases "channelName \<in> set (sv_flushes s)")
  case True
  let ?s = "s\<lparr>sv_flushes := remove1 channelName (sv_flushes s)\<rparr>"
  obtain channel where channel: "map_of (sv_channels s) channelName = Some channel"
    using True inv by (auto simp: server_inv_def server_pending_def)
  have "server_pending proc ?s"
    using inv set_remove1_subset [of channelName "sv_flushes s"] by (auto simp: server_inv_def server_pending_def pending_requests_def)
  then have s: "server_inv pf d proc resps ?s"
    using inv by (simp add: server_inv_def server_log_def server_calls_def pending_requests_def call_outcomes_def listens_def)
  show ?thesis
  proof (cases "map_of (sv_pendingRequests s) channelName")
    case None
    then show ?thesis
      using True s by (simp add: ChannelServer_onFlushTimer_def ChannelServer_flushPendingRequests_def)
  next
    case (Some ps)
    let ?t = "fold flush_request ps ?s"
    let ?u = "?t\<lparr>sv_pendingRequests := AList.delete channelName (sv_pendingRequests ?t)\<rparr>"
    have "\<forall>p \<in> set ps. request_channel (pq_request p) = Some channelName"
      using Some inv by (auto simp: server_inv_def server_pending_def dest!: map_of_SomeD)
    then have fold: "map call_request (sv_calls ?t) = map call_request (sv_calls s) @ filter is_promise (map pq_request ps)"
        "call_outcomes ?t = call_outcomes ?s" "listens ?s \<subseteq> listens ?t"
        "\<forall>x \<in> listens ?t. x \<in> listens ?s \<or> (\<exists>ch. EventListenRequest (fst x) ch (fst (snd x)) (snd (snd x)) \<in> set (map pq_request ps))"
        "sv_pendingRequests ?t = sv_pendingRequests s" "sv_sent ?t = sv_sent s" "sv_channels ?t = sv_channels s"
        "sv_flushes ?t = sv_flushes ?s" "sv_protocolListener ?t = sv_protocolListener s"
        "set (sv_timers ?t) \<subseteq> insert None (set (sv_timers s))"
      using flush_fold [of ?s channelName channel ps] channel by simp_all
    have "mset (concat (map snd (sv_pendingRequests s))) = mset ps + mset (concat (map snd (sv_pendingRequests ?u)))"
      using mset_delete [OF _ Some] inv fold(5) by (simp add: server_inv_def server_pending_def)
    then have pend: "mset (pending_requests s) = mset (map pq_request ps) + mset (pending_requests ?u)"
      by (simp add: pending_requests_def)
    have "server_calls proc ?u"
      using inv pend fold(1,9) by (simp add: server_inv_def server_calls_def mset_filter ac_simps)
    moreover have sub: "set (map pq_request ps) \<subseteq> set proc" "set (pending_requests ?u) \<subseteq> set proc"
      using inv arg_cong [OF pend, of set_mset] by (auto simp: server_inv_def server_pending_def)
    moreover have "server_pending proc ?u"
      unfolding server_pending_def
    proof (intro conjI)
      show "distinct (map fst (sv_pendingRequests ?u))"
        using inv fold(5) by (simp add: server_inv_def server_pending_def distinct_delete)
      show "\<forall>(channelName, ps) \<in> set (sv_pendingRequests ?u). \<forall>p \<in> set ps. request_channel (pq_request p) = Some channelName"
        using inv fold(5) by (auto simp: server_inv_def server_pending_def AList.delete_eq)
      show "\<forall>r. Some r \<in> set (sv_timers ?u) \<longrightarrow> r \<in> set proc"
        using inv fold(10) by (auto simp: server_inv_def server_pending_def)
    qed (use s sub fold(7,8) in \<open>auto simp: server_inv_def server_pending_def\<close>)
    moreover have "server_events proc resps (listens ?t)"
      using s fold(3,4) sub(1) unfolding server_inv_def by (blast intro: server_events_extend)
    moreover have "call_outcomes ?u = call_outcomes ?s" "listens ?u = listens ?t"
      using fold(2) by (simp_all add: call_outcomes_def listens_def)
    ultimately have "server_inv pf d proc resps ?u"
      using s fold(6) by (simp add: server_inv_def server_log_def)
    then show ?thesis
      using True Some by (simp add: ChannelServer_onFlushTimer_def ChannelServer_flushPendingRequests_def Let_def)
  qed
next
  case False
  then show ?thesis
    using inv by (simp add: ChannelServer_onFlushTimer_def)
qed

section \<open>Active requests\<close>

text \<open>An entry of \<open>activeRequests\<close> belongs to a running call or a subscription with its id.\<close>

fun active_ok :: "('o, 'c) channelServer \<Rightarrow> int \<Rightarrow> activeRequest \<Rightarrow> bool" where
  "active_ok s i (CancelCall k) \<longleftrightarrow> k < length (sv_calls s) \<and> sc_id (sv_calls s ! k) = i \<and> sc_outcome (sv_calls s ! k) = None"
| "active_ok s i (EndSubscription k) \<longleftrightarrow>
     k < length (sv_subscriptions s) \<and> ss_id (sv_subscriptions s ! k) = i \<and> \<not> ss_disposed (sv_subscriptions s ! k)"

definition server_wf :: "('o, 'c) channelServer \<Rightarrow> bool" where
  "server_wf s \<longleftrightarrow> (\<forall>i a. map_of (sv_activeRequests s) i = Some a \<longrightarrow> active_ok s i a)"

lemma server_wf_same:
  assumes "server_wf s" "sv_activeRequests s' = sv_activeRequests s" "sv_calls s' = sv_calls s" "sv_subscriptions s' = sv_subscriptions s"
  shows "server_wf s'"
proof -
  have "active_ok s' i a = active_ok s i a" for i a
    using assms(3,4) by (cases a) simp_all
  then show ?thesis
    using assms(1,2) by (simp add: server_wf_def)
qed

lemma server_wf_sendResponse: "server_wf s \<Longrightarrow> ChannelServer_sendResponse pf r s = Inr s' \<Longrightarrow> server_wf s'"
  by (erule server_wf_same) (auto simp: ChannelServer_sendResponse_def bind_result_Inr_iff)

lemma server_wf_new: "new_ChannelServer pf = Inr s \<Longrightarrow> server_wf s"
  unfolding new_ChannelServer_def by (rule server_wf_sendResponse) (simp_all add: server_wf_def)

lemma server_wf_onPromise:
  assumes "server_wf s"
  shows "server_wf (ChannelServer_onPromise i channelName name arg s)"
proof (cases "map_of (sv_channels s) channelName")
  case None
  then show ?thesis
    using assms by - (erule server_wf_same,
        simp_all add: ChannelServer_onPromise_def ChannelServer_collectPendingRequest_def Let_def)
next
  case (Some channel)
  let ?s = "ChannelServer_onPromise i channelName name arg s"
  have "active_ok ?s n a" if "active_ok s n a" for n a
    using that Some by (cases a) (auto simp: ChannelServer_onPromise_def nth_append)
  moreover have "active_ok ?s i (CancelCall (length (sv_calls s)))"
    using Some by (simp add: ChannelServer_onPromise_def)
  ultimately show ?thesis
    using assms Some by (auto simp: server_wf_def ChannelServer_onPromise_def update_conv')
qed

lemma server_wf_onEventListen:
  assumes "server_wf s"
  shows "server_wf (ChannelServer_onEventListen i channelName name arg s)"
proof (cases "map_of (sv_channels s) channelName")
  case None
  then show ?thesis
    using assms by - (erule server_wf_same,
        simp_all add: ChannelServer_onEventListen_def ChannelServer_collectPendingRequest_def Let_def)
next
  case (Some channel)
  let ?s = "ChannelServer_onEventListen i channelName name arg s"
  have "active_ok ?s n a" if "active_ok s n a" for n a
    using that Some by (cases a) (auto simp: ChannelServer_onEventListen_def nth_append)
  moreover have "active_ok ?s i (EndSubscription (length (sv_subscriptions s)))"
    using Some by (simp add: ChannelServer_onEventListen_def)
  ultimately show ?thesis
    using assms Some by (auto simp: server_wf_def ChannelServer_onEventListen_def update_conv')
qed

lemma server_wf_disposeActiveRequest:
  assumes wf: "server_wf s"
  shows "server_wf (ChannelServer_disposeActiveRequest i s)"
proof (cases "map_of (sv_activeRequests s) i")
  case None
  then show ?thesis
    using wf by (simp add: ChannelServer_disposeActiveRequest_def)
next
  case (Some d)
  let ?s = "ChannelServer_disposeActiveRequest i s"
  have d: "active_ok s i d"
    using wf Some by (simp add: server_wf_def)
  have "active_ok ?s n a" if "active_ok s n a" "n \<noteq> i" for n a
    using that d Some by (cases a; cases d)
      (auto simp: ChannelServer_disposeActiveRequest_def activeRequest_dispose_def Let_def nth_list_update)
  moreover have "map_of (sv_activeRequests ?s) = (map_of (sv_activeRequests s))(i := None)"
    using Some by (cases d) (simp_all add: ChannelServer_disposeActiveRequest_def activeRequest_dispose_def Let_def delete_conv')
  ultimately show ?thesis
    using wf by (auto simp: server_wf_def)
qed

lemma server_wf_onRequest: "server_wf s \<Longrightarrow> server_wf (ChannelServer_onRequest r s)"
  by (cases r) (simp_all add: server_wf_onPromise server_wf_onEventListen server_wf_disposeActiveRequest)

lemma server_wf_onSettled:
  assumes wf: "server_wf s" and s': "ChannelServer_onSettled pf k out s = Inr s'"
  shows "server_wf s'"
proof -
  let ?i = "sc_id (sv_calls s ! k)"
  have fields: "sv_activeRequests s' = AList.delete ?i (sv_activeRequests s)"
      "sv_calls s' = (sv_calls s)[k := (sv_calls s ! k)\<lparr>sc_outcome := Some out\<rparr>]" "sv_subscriptions s' = sv_subscriptions s"
    using s' by (auto simp: ChannelServer_onSettled_def ChannelServer_sendResponse_def Let_def bind_result_Inr_iff)
  have "active_ok s' n a" if a: "active_ok s n a" "n \<noteq> ?i" for n a
  proof (cases a)
    case (CancelCall x)
    then have "x \<noteq> k"
      using a by auto
    with CancelCall a fields show ?thesis
      by simp
  qed (use a fields in simp)
  then show ?thesis
    using wf by (auto simp: server_wf_def fields(1) delete_conv')
qed

lemma server_wf_onEvent: "server_wf s \<Longrightarrow> ChannelServer_onEvent pf k data s = Inr s' \<Longrightarrow> server_wf s'"
  by (auto simp: ChannelServer_onEvent_def split: if_splits dest: server_wf_sendResponse)

lemma server_wf_onPendingTimeout:
  assumes "server_wf s" "ChannelServer_onPendingTimeout pf d timer s = Inr s'"
  shows "server_wf s'"
proof -
  have "server_wf (s\<lparr>sv_timers := t\<rparr>)" for t
    using assms(1) by (rule server_wf_same) simp_all
  then show ?thesis
    using assms by (auto simp: ChannelServer_onPendingTimeout_def Let_def split: option.splits rawRequest.splits dest: server_wf_sendResponse)
qed

lemma server_wf_registerChannel: "server_wf s \<Longrightarrow> server_wf (ChannelServer_registerChannel channelName channel s)"
  by (erule server_wf_same) (simp_all add: ChannelServer_registerChannel_def)

lemma server_wf_onFlushTimer:
  assumes wf: "server_wf s"
  shows "server_wf (ChannelServer_onFlushTimer channelName s)"
proof -
  have flush: "server_wf (flush_request p t)" if "server_wf t" for p and t :: "('a, 'b) channelServer"
  proof -
    have "server_wf (t\<lparr>sv_timers := ts\<rparr>)" for ts
      using that by (rule server_wf_same) simp_all
    then show ?thesis
      by (simp add: flush_request_def Let_def server_wf_onPromise server_wf_onEventListen split: rawRequest.split)
  qed
  have "server_wf (s\<lparr>sv_flushes := fs\<rparr>)" for fs
    using wf by (rule server_wf_same) simp_all
  then have "server_wf (fold flush_request ps (s\<lparr>sv_flushes := fs\<rparr>))" for ps fs
    by (induction ps rule: rev_induct) (simp_all add: flush)
  then have "server_wf (fold flush_request ps (s\<lparr>sv_flushes := fs\<rparr>)\<lparr>sv_pendingRequests := q\<rparr>)" for ps fs q
    by (rule server_wf_same) simp_all
  with wf show ?thesis
    using \<open>\<And>fs. server_wf (s\<lparr>sv_flushes := fs\<rparr>)\<close>
    by (simp add: ChannelServer_onFlushTimer_def ChannelServer_flushPendingRequests_def Let_def split: option.split)
qed

lemma server_wf_dispose: "server_wf (ChannelServer_dispose s)"
  by (simp add: server_wf_def ChannelServer_dispose_def Let_def)

end
