(* ===== verification/Ipc_Rpc.thy ===== *)
theory Ipc_Rpc
  imports Ipc_Server
begin

text \<open>
  A \<open>ChannelClient\<close> and a \<open>ChannelServer\<close> joined by a protocol that delivers in order: the configurations, their
  steps, and what a remote call guarantees.
\<close>

section \<open>The system\<close>

text \<open>\<open>rp_toServer\<close> and \<open>rp_toClient\<close> count the messages of each side that the other has been given.\<close>

record ('o, 'c) rpc =
  rp_client :: "'o channelClient"
  rp_server :: "('o, 'c) channelServer"
  rp_toServer :: nat
  rp_toClient :: nat

text \<open>
  The operations of both sides, in any order.  Arguments, results and events are values that survive
  serialization; \<open>d\<close> is the \<open>timeoutDelay\<close>.
\<close>

inductive rpc_step :: "'o platform \<Rightarrow> nat \<Rightarrow> ('o, 'c) rpc \<Rightarrow> ('o, 'c) rpc \<Rightarrow> bool" for pf d where
  client_call: "request_ok pf (PromiseRequest (cl_lastRequestId (rp_client s)) channelName command arg) \<Longrightarrow>
    rpc_step pf d s (s\<lparr>rp_client := ChannelClient_call pf channelName command arg isCancelled (rp_client s)\<rparr>)"
| client_initialized: "rpc_step pf d s (s\<lparr>rp_client := ChannelClient_onInitialized pf k (rp_client s)\<rparr>)"
| client_cancel: "k < length (cl_promises (rp_client s)) \<Longrightarrow> ChannelClient_cancel pf k (rp_client s) = Inr c \<Longrightarrow>
    rpc_step pf d s (s\<lparr>rp_client := c\<rparr>)"
| client_finally: "rpc_step pf d s (s\<lparr>rp_client := ChannelClient_onFinally k (rp_client s)\<rparr>)"
| client_listen: "request_ok pf (EventListenRequest (cl_lastRequestId (rp_client s)) channelName event arg) \<Longrightarrow>
    rpc_step pf d s (s\<lparr>rp_client := ChannelClient_listen channelName event arg (rp_client s)\<rparr>)"
| client_addListener: "rpc_step pf d s (s\<lparr>rp_client := ChannelClient_onWillAddFirstListener k (rp_client s)\<rparr>)"
| client_eventInitialized: "rpc_step pf d s (s\<lparr>rp_client := ChannelClient_onEventInitialized pf k (rp_client s)\<rparr>)"
| client_removeListener: "k < length (cl_emitters (rp_client s)) \<Longrightarrow>
    rpc_step pf d s (s\<lparr>rp_client := snd (ChannelClient_onDidRemoveLastListener pf k (rp_client s))\<rparr>)"
| client_dispose: "rpc_step pf d s (s\<lparr>rp_client := snd (ChannelClient_dispose pf (rp_client s))\<rparr>)"
| server_register: "rpc_step pf d s (s\<lparr>rp_server := ChannelServer_registerChannel channelName channel (rp_server s)\<rparr>)"
| server_settled: "k < length (sv_calls (rp_server s)) \<Longrightarrow> sc_outcome (sv_calls (rp_server s) ! k) = None \<Longrightarrow>
    response_ok pf (outcome_response pf (sc_id (sv_calls (rp_server s) ! k)) out) \<Longrightarrow>
    ChannelServer_onSettled pf k out (rp_server s) = Inr sv \<Longrightarrow> rpc_step pf d s (s\<lparr>rp_server := sv\<rparr>)"
| server_event: "k < length (sv_subscriptions (rp_server s)) \<Longrightarrow>
    response_ok pf (EventFireResponse (ss_id (sv_subscriptions (rp_server s) ! k)) data) \<Longrightarrow>
    ChannelServer_onEvent pf k data (rp_server s) = Inr sv \<Longrightarrow> rpc_step pf d s (s\<lparr>rp_server := sv\<rparr>)"
| server_timeout: "t < length (sv_timers (rp_server s)) \<Longrightarrow>
    (\<And>i channelName name arg. sv_timers (rp_server s) ! t = Some (PromiseRequest i channelName name arg) \<Longrightarrow>
      response_ok pf (timeout_response pf d i channelName)) \<Longrightarrow>
    ChannelServer_onPendingTimeout pf d t (rp_server s) = Inr sv \<Longrightarrow> rpc_step pf d s (s\<lparr>rp_server := sv\<rparr>)"
| server_flush: "rpc_step pf d s (s\<lparr>rp_server := ChannelServer_onFlushTimer channelName (rp_server s)\<rparr>)"
| server_dispose: "rpc_step pf d s (s\<lparr>rp_server := ChannelServer_dispose (rp_server s)\<rparr>)"
| deliver_request: "rp_toServer s < length (cl_sent (rp_client s)) \<Longrightarrow>
    ChannelServer_onRawMessage pf (cl_sent (rp_client s) ! rp_toServer s) (rp_server s) = Inr sv \<Longrightarrow>
    rpc_step pf d s (s\<lparr>rp_server := sv, rp_toServer := Suc (rp_toServer s)\<rparr>)"
| deliver_response: "rp_toClient s < length (sv_sent (rp_server s)) \<Longrightarrow>
    ChannelClient_onBuffer pf (sv_sent (rp_server s) ! rp_toClient s) (rp_client s) = Inr c \<Longrightarrow>
    rpc_step pf d s (s\<lparr>rp_client := c, rp_toClient := Suc (rp_toClient s)\<rparr>)"

text \<open>Both sides have been constructed, and the greeting of the server is on its way.\<close>

definition rpc_start :: "'o platform \<Rightarrow> ('o, 'c) rpc \<Rightarrow> bool" where
  "rpc_start pf s \<longleftrightarrow>
     rp_client s = new_ChannelClient \<and> new_ChannelServer pf = Inr (rp_server s) \<and> rp_toServer s = 0 \<and> rp_toClient s = 0"

definition rpc_reachable :: "'o platform \<Rightarrow> nat \<Rightarrow> ('o, 'c) rpc \<Rightarrow> bool" where
  "rpc_reachable pf d s \<longleftrightarrow> (\<exists>s0. rpc_start pf s0 \<and> (rpc_step pf d)\<^sup>*\<^sup>* s0 s)"

section \<open>The invariant of the system\<close>

definition rpc_inv :: "'o platform \<Rightarrow> nat \<Rightarrow> ('o, 'c) rpc \<Rightarrow> bool" where
  "rpc_inv pf d s \<longleftrightarrow>
     (\<exists>reqs resps. client_inv pf {} reqs (take (rp_toClient s) resps) (rp_client s) \<and> client_wf (rp_client s) \<and>
        server_inv pf d (take (rp_toServer s) reqs) resps (rp_server s) \<and>
        rp_toServer s \<le> length reqs \<and> rp_toClient s \<le> length resps)"

lemma rpc_inv_start:
  fixes s :: "('o, 'c) rpc"
  assumes "rpc_start pf s"
  shows "rpc_inv pf d s"
proof -
  obtain sv :: "('o, 'c) channelServer" where "new_ChannelServer pf = Inr sv" "server_inv pf d [] [InitializeResponse] sv"
    using server_inv_new by blast
  then have "server_inv pf d (take (rp_toServer s) []) [InitializeResponse] (rp_server s)"
    using assms by (simp add: rpc_start_def)
  moreover have "client_inv pf {} [] (take (rp_toClient s) [InitializeResponse]) (rp_client s)" "client_wf (rp_client s)"
    using assms by (simp_all add: rpc_start_def client_wf_new client_inv_new)
  moreover have "rp_toServer s \<le> length []" "rp_toClient s \<le> length [InitializeResponse]"
    using assms by (simp_all add: rpc_start_def)
  ultimately show ?thesis
    unfolding rpc_inv_def by blast
qed

lemma rpc_inv_client:
  assumes "rpc_inv pf d s"
    and "\<And>reqs got. client_inv pf {} reqs got (rp_client s) \<Longrightarrow> client_wf (rp_client s) \<Longrightarrow>
      (\<exists>rs. client_inv pf {} (reqs @ rs) got c) \<and> client_wf c"
  shows "rpc_inv pf d (s\<lparr>rp_client := c\<rparr>)"
proof -
  obtain reqs resps where *: "client_inv pf {} reqs (take (rp_toClient s) resps) (rp_client s)" "client_wf (rp_client s)"
      "server_inv pf d (take (rp_toServer s) reqs) resps (rp_server s)" "rp_toServer s \<le> length reqs" "rp_toClient s \<le> length resps"
    using assms(1) by (auto simp: rpc_inv_def)
  then obtain rs where "client_inv pf {} (reqs @ rs) (take (rp_toClient s) resps) c" "client_wf c"
    using assms(2) by blast
  then show ?thesis
    using * unfolding rpc_inv_def by (intro exI [of _ "reqs @ rs"] exI [of _ resps]) simp
qed

lemma rpc_inv_server:
  assumes "rpc_inv pf d s"
    and "\<And>proc resps. server_inv pf d proc resps (rp_server s) \<Longrightarrow> \<exists>rs. server_inv pf d proc (resps @ rs) sv"
  shows "rpc_inv pf d (s\<lparr>rp_server := sv\<rparr>)"
proof -
  obtain reqs resps where *: "client_inv pf {} reqs (take (rp_toClient s) resps) (rp_client s)" "client_wf (rp_client s)"
      "server_inv pf d (take (rp_toServer s) reqs) resps (rp_server s)" "rp_toServer s \<le> length reqs" "rp_toClient s \<le> length resps"
    using assms(1) by (auto simp: rpc_inv_def)
  then obtain rs where "server_inv pf d (take (rp_toServer s) reqs) (resps @ rs) sv"
    using assms(2) by blast
  then show ?thesis
    using * unfolding rpc_inv_def by (intro exI [of _ reqs] exI [of _ "resps @ rs"]) simp
qed

text \<open>The server answers only what it has been asked.\<close>

lemma server_called_requested:
  assumes "server_inv pf d proc resps s" "sc \<in> set (sv_calls s)"
  shows "call_request sc \<in> set proc"
proof -
  have "mset (map call_request (sv_calls s)) \<subseteq># mset (filter is_promise proc)"
    using assms(1) unfolding server_inv_def server_calls_def by (metis mset_subset_eq_add_left subset_mset.order_trans)
  then have "set (map call_request (sv_calls s)) \<subseteq> set (filter is_promise proc)"
    by (metis set_mset_mono set_mset_mset)
  then show ?thesis
    using assms(2) by auto
qed

lemma server_answered_requested:
  assumes inv: "server_inv pf d proc resps s" and r: "r \<in> set resps" "answered_id r = Some i"
  shows "i \<in> set (promise_ids proc)"
proof -
  have "answer_of pf d proc (call_outcomes s) i r"
    using inv r by (simp add: server_inv_def server_answers_def)
  then consider sc where "sc \<in> set (sv_calls s)" "sc_id sc = i" | channelName name arg where "PromiseRequest i channelName name arg \<in> set proc"
    by (auto simp: answer_of_def call_outcomes_def)
  then show ?thesis
  proof cases
    case 1
    then have "call_request sc \<in> set proc" "request_id (call_request sc) = i"
      using server_called_requested [OF inv] by simp_all
    then show ?thesis
      by (auto simp: promise_ids_def intro!: image_eqI [of _ _ "call_request sc"])
  next
    case 2
    then show ?thesis
      by (force simp: promise_ids_def)
  qed
qed

lemma rpc_inv_deliver_request:
  assumes inv: "rpc_inv pf d s" and n: "rp_toServer s < length (cl_sent (rp_client s))"
    and sv: "ChannelServer_onRawMessage pf (cl_sent (rp_client s) ! rp_toServer s) (rp_server s) = Inr sv"
  shows "rpc_inv pf d (s\<lparr>rp_server := sv, rp_toServer := Suc (rp_toServer s)\<rparr>)"
proof -
  obtain reqs resps where *: "client_inv pf {} reqs (take (rp_toClient s) resps) (rp_client s)" "client_wf (rp_client s)"
      "server_inv pf d (take (rp_toServer s) reqs) resps (rp_server s)" "rp_toClient s \<le> length resps"
    using inv by (auto simp: rpc_inv_def)
  then have sent: "cl_sent (rp_client s) = map (message pf \<circ> request_header) reqs" "\<forall>r \<in> set reqs. request_ok pf r"
    by (simp_all add: client_inv_def client_log_def)
  let ?r = "reqs ! rp_toServer s"
  have r: "rp_toServer s < length reqs" "request_ok pf ?r"
    using n sent by simp_all
  then have "sv = (if sv_protocolListener (rp_server s) then ChannelServer_onRequest ?r (rp_server s) else rp_server s)"
    using sv sent by (simp add: onRawMessage_request split: if_splits)
  then have "server_inv pf d (take (rp_toServer s) reqs @ [?r]) resps sv"
    using *(3) by (auto simp: server_inv_onRequest server_inv_more)
  then show ?thesis
    using * r unfolding rpc_inv_def by (intro exI [of _ reqs] exI [of _ resps]) (simp add: take_Suc_conv_app_nth)
qed

lemma rpc_inv_deliver_response:
  assumes inv: "rpc_inv pf d s" and n: "rp_toClient s < length (sv_sent (rp_server s))"
    and c: "ChannelClient_onBuffer pf (sv_sent (rp_server s) ! rp_toClient s) (rp_client s) = Inr c"
  shows "rpc_inv pf d (s\<lparr>rp_client := c, rp_toClient := Suc (rp_toClient s)\<rparr>)"
proof -
  obtain reqs resps where *: "client_inv pf {} reqs (take (rp_toClient s) resps) (rp_client s)" "client_wf (rp_client s)"
      "server_inv pf d (take (rp_toServer s) reqs) resps (rp_server s)" "rp_toServer s \<le> length reqs"
    using inv by (auto simp: rpc_inv_def)
  then have sent: "sv_sent (rp_server s) = map (message pf \<circ> response_header) resps" "\<forall>r \<in> set resps. response_ok pf r"
    by (simp_all add: server_inv_def server_log_def)
  let ?r = "resps ! rp_toClient s"
  have r: "rp_toClient s < length resps" "response_ok pf ?r" "?r \<in> set resps"
    using n sent by simp_all
  have asked: "i \<in> set (promise_ids reqs)" if "answered_id ?r = Some i" for i
    using server_answered_requested [OF *(3) r(3) that] by (auto simp: promise_ids_def dest: in_set_takeD)
  have "c = (if cl_protocolListener (rp_client s) then ChannelClient_onResponse ?r (rp_client s) else rp_client s)"
    using c sent r by (simp add: onBuffer_response split: if_splits)
  then have "client_inv pf {} reqs (take (rp_toClient s) resps @ [?r]) c" "client_wf c"
    using client_inv_onResponse [OF *(1) asked] client_inv_ignored [OF *(1) asked] *(2) by (simp_all add: client_wf_onResponse)
  then show ?thesis
    using * r unfolding rpc_inv_def by (intro exI [of _ reqs] exI [of _ resps]) (simp add: take_Suc_conv_app_nth)
qed

lemma rpc_inv_step: "rpc_step pf d s s' \<Longrightarrow> rpc_inv pf d s \<Longrightarrow> rpc_inv pf d s'"
proof (induction rule: rpc_step.induct)
  case (client_call s channelName command arg isCancelled)
  then show ?case
    by (intro rpc_inv_client) (auto simp: client_wf_call intro: client_inv_call)
next
  case (client_initialized s k)
  then show ?case
    by (intro rpc_inv_client) (auto simp: client_wf_onInitialized intro: client_inv_onInitialized)
next
  case (client_cancel k s c)
  then show ?case
    using client_inv_cancel [of pf "{}" _ _ "rp_client s" k] by (intro rpc_inv_client) (fastforce intro: client_wf_cancel)+
next
  case (client_finally s k)
  then show ?case
    by (intro rpc_inv_client) (auto simp: client_wf_onFinally intro!: exI [of _ "[]"] client_inv_onFinally)
next
  case (client_listen s channelName event arg)
  then show ?case
    by (intro rpc_inv_client) (auto simp: client_wf_listen intro!: exI [of _ "[]"] client_inv_listen)
next
  case (client_addListener s k)
  then show ?case
    by (intro rpc_inv_client) (auto simp: client_wf_onWillAddFirstListener intro!: exI [of _ "[]"] client_inv_onWillAddFirstListener)
next
  case (client_eventInitialized s k)
  then show ?case
    by (intro rpc_inv_client) (auto simp: client_wf_onEventInitialized intro: client_inv_onEventInitialized)
next
  case (client_removeListener k s)
  then show ?case
    using client_inv_onDidRemoveLastListener [of pf "{}" _ _ "rp_client s" k]
    by (intro rpc_inv_client) (fastforce intro: client_wf_onDidRemoveLastListener)+
next
  case (client_dispose s)
  then show ?case
    using client_dispose_ok [of pf _ _ "rp_client s"] by (intro rpc_inv_client) fastforce+
next
  case (server_register s channelName channel)
  then show ?case
    by (intro rpc_inv_server) (auto intro!: exI [of _ "[]"] server_inv_registerChannel)
next
  case (server_settled k s out sv)
  then show ?case
    using server_inv_onSettled [of pf d _ _ "rp_server s" k out] by (intro rpc_inv_server) fastforce+
next
  case (server_event k s data sv)
  then show ?case
    using server_inv_onEvent [of pf d _ _ "rp_server s" k data] by (intro rpc_inv_server) fastforce+
next
  case (server_timeout t s sv)
  then show ?case
    using server_inv_onPendingTimeout [of pf d _ _ "rp_server s" t] by (intro rpc_inv_server) fastforce+
next
  case (server_flush s channelName)
  then show ?case
    by (intro rpc_inv_server) (auto intro!: exI [of _ "[]"] server_inv_onFlushTimer)
next
  case (server_dispose s)
  then show ?case
    by (intro rpc_inv_server) (auto intro!: exI [of _ "[]"] server_inv_dispose)
next
  case (deliver_request s sv)
  then show ?case
    by (intro rpc_inv_deliver_request)
next
  case (deliver_response s c)
  then show ?case
    by (intro rpc_inv_deliver_response)
qed

lemma rpc_reachable_inv: "rpc_reachable pf d s \<Longrightarrow> rpc_inv pf d s"
  unfolding rpc_reachable_def by (metis (no_types, lifting) rpc_inv_start rpc_inv_step rtranclp_induct)

section \<open>Promises and their calls\<close>

text \<open>The call that answered a promise is the call the promise asked for.\<close>

lemma client_request_unique:
  assumes inv: "client_inv pf X reqs got c" and p: "p \<in> set (cl_promises c)" and r: "r \<in> set reqs" "is_promise r" "request_id r = cp_id p"
  shows "r = promise_request p"
proof -
  obtain q where q: "q \<in> set (cl_promises c)" "promise_request q = r"
    using inv r by (auto simp: client_inv_def client_requests_def)
  then have "cp_id q = cp_id p"
    using r(3) by auto
  moreover have "distinct (map cp_id (cl_promises c))"
    using inv by (simp add: client_inv_def client_ids_def)
  ultimately have "q = p"
    using p q(1) by (simp add: distinct_map inj_on_def)
  with q(2) show ?thesis
    by simp
qed

text \<open>What a promise of the client is settled with when its call on the server has an outcome, or when it times out.\<close>

fun response_settlement :: "'o rawResponse \<Rightarrow> 'o settlement option" where
  "response_settlement (PromiseSuccessResponse i v) = Some (Resolved v)"
| "response_settlement (PromiseErrorResponse i v) = Some (Rejected (RemoteError v))"
| "response_settlement (PromiseErrorObjResponse i v) = Some (Rejected (RemoteObject v))"
| "response_settlement _ = None"

definition outcome_settlement :: "'o platform \<Rightarrow> 'o outcome \<Rightarrow> 'o settlement" where
  "outcome_settlement pf out =
     (case out of
        Fulfilled v \<Rightarrow> Resolved v
      | ThrownError msg name stack \<Rightarrow>
          Rejected (RemoteError (VOther (pf_errorData pf msg name
            (case stack of None \<Rightarrow> None | Some [] \<Rightarrow> None | Some st \<Rightarrow> Some (js_split 10 st)))))
      | ThrownOther v \<Rightarrow> Rejected (RemoteObject v))"

definition timeout_settlement :: "'o platform \<Rightarrow> nat \<Rightarrow> js_string \<Rightarrow> 'o settlement" where
  "timeout_settlement pf timeoutDelay channelName =
     Rejected (RemoteError (VOther (pf_errorData pf (timeout_message timeoutDelay channelName) (js_text ''Unknown channel'') None)))"

lemma response_settlement_simps [simp]:
  "response_settlement (outcome_response pf i out) = Some (outcome_settlement pf out)"
  "response_settlement (timeout_response pf d i channelName) = Some (timeout_settlement pf d channelName)"
  by (simp_all add: outcome_response_def outcome_settlement_def timeout_response_def timeout_settlement_def split: outcome.split)

lemma settled_by_response:
  "settled_by got i v \<Longrightarrow> v \<noteq> Rejected CancellationError \<Longrightarrow> \<exists>r \<in> set got. answered_id r = Some i \<and> response_settlement r = Some v"
  by (cases "(got, i, v)" rule: settled_by.cases) (auto intro!: bexI)

section \<open>A sample run\<close>

definition sample_platform :: "unit platform" where
  "sample_platform = \<lparr>pf_hasBuffer = True, pf_stringify = sample_stringify, pf_parse = sample_parse, pf_fresh = (\<lambda>_. 0),
     pf_errorData = (\<lambda>_ _ _. ())\<rparr>"

abbreviation "sample_request \<equiv> PromiseRequest 0 (js_text ''c'') (js_text ''m'') VUndefined"

lemma sample_text: "string_ok True (js_text ''c'')" "string_ok True (js_text ''m'')"
  by (simp_all add: string_ok_def js_text_def high_surrogate_def low_surrogate_def utf8_encode_def utf8_bytes_def)

lemma sample_ok:
  "request_ok sample_platform sample_request" "response_ok sample_platform (PromiseSuccessResponse 0 (VNumber 7))"
  "response_ok sample_platform (timeout_response sample_platform 1000 0 (js_text ''c''))"
  using null_text_ok sample_text
  by (simp_all add: request_ok_def response_ok_def request_header_def response_header_def sample_platform_def timeout_response_def
      RT_defs RS_defs json_ok_def sample_stringify_def sample_parse_def)

definition sample_promise :: "unit clientPromise" where
  "sample_promise = \<lparr>cp_id = 0, cp_channelName = js_text ''c'', cp_name = js_text ''m'', cp_arg = VUndefined, cp_waiting = False,
     cp_settled = Some (Resolved (VNumber 7))\<rparr>"

definition sample_call :: "(unit, nat) serverCall" where
  "sample_call = \<lparr>sc_channel = 5, sc_channelName = js_text ''c'', sc_name = js_text ''m'', sc_arg = VUndefined, sc_id = 0,
     sc_cancelled = False, sc_outcome = Some (Fulfilled (VNumber 7))\<rparr>"

definition sample_rpc :: "(unit, nat) rpc" where
  "sample_rpc = \<lparr>rp_client = \<lparr>cl_isDisposed = False, cl_state = Idle, cl_activeRequests = [PromiseDisposable 0], cl_handlers = [],
       cl_lastRequestId = 1, cl_protocolListener = True, cl_disposed = [], cl_promises = [sample_promise], cl_emitters = [],
       cl_sent = [message sample_platform (request_header sample_request)]\<rparr>,
     rp_server = \<lparr>sv_channels = [(js_text ''c'', 5)], sv_activeRequests = [], sv_protocolListener = True, sv_pendingRequests = [],
       sv_timers = [], sv_flushes = [js_text ''c''], sv_calls = [sample_call], sv_subscriptions = [],
       sv_sent = [message sample_platform (response_header InitializeResponse),
         message sample_platform (response_header (PromiseSuccessResponse 0 (VNumber 7)))]\<rparr>,
     rp_toServer = 1, rp_toClient = 2\<rparr>"

lemma sample_rpc_reachable: "rpc_reachable sample_platform 1000 sample_rpc"
proof -
  let ?pf = sample_platform
  let ?init = "message ?pf (response_header InitializeResponse)" and ?req = "message ?pf (request_header sample_request)"
    and ?res = "message ?pf (response_header (PromiseSuccessResponse 0 (VNumber 7)))"
  let ?sv = "\<lambda>channels active flushes calls sent. \<lparr>sv_channels = channels, sv_activeRequests = active, sv_protocolListener = True,
    sv_pendingRequests = [], sv_timers = [], sv_flushes = flushes, sv_calls = calls, sv_subscriptions = [], sv_sent = sent\<rparr> :: (unit, nat) channelServer"
  let ?cl = "\<lambda>st active handlers n ps sent. \<lparr>cl_isDisposed = False, cl_state = st, cl_activeRequests = active, cl_handlers = handlers,
    cl_lastRequestId = n, cl_protocolListener = True, cl_disposed = [], cl_promises = ps, cl_emitters = [], cl_sent = sent\<rparr> :: unit channelClient"
  let ?ch = "[(js_text ''c'', 5 :: nat)]" and ?p = "sample_promise\<lparr>cp_settled := None\<rparr>" and ?call = "sample_call\<lparr>sc_outcome := None\<rparr>"
  let ?s0 = "\<lparr>rp_client = ?cl Uninitialized [] [] 0 [] [], rp_server = ?sv [] [] [] [] [?init], rp_toServer = 0, rp_toClient = 0\<rparr>"
  let ?s1 = "\<lparr>rp_client = ?cl Uninitialized [] [] 0 [] [], rp_server = ?sv ?ch [] [js_text ''c''] [] [?init], rp_toServer = 0, rp_toClient = 0\<rparr>"
  let ?s2 = "\<lparr>rp_client = ?cl Idle [] [] 0 [] [], rp_server = ?sv ?ch [] [js_text ''c''] [] [?init], rp_toServer = 0, rp_toClient = 1\<rparr>"
  let ?c3 = "?cl Idle [PromiseDisposable 0] [(0, PromiseHandler 0)] 1 [?p] [?req]"
  let ?s3 = "\<lparr>rp_client = ?c3, rp_server = ?sv ?ch [] [js_text ''c''] [] [?init], rp_toServer = 0, rp_toClient = 1\<rparr>"
  let ?s4 = "\<lparr>rp_client = ?c3, rp_server = ?sv ?ch [(0, CancelCall 0)] [js_text ''c''] [?call] [?init], rp_toServer = 1, rp_toClient = 1\<rparr>"
  let ?s5 = "\<lparr>rp_client = ?c3, rp_server = ?sv ?ch [] [js_text ''c''] [sample_call] [?init, ?res], rp_toServer = 1, rp_toClient = 1\<rparr>"
  have "rpc_start ?pf ?s0"
    by (simp add: rpc_start_def new_ChannelClient_def new_ChannelServer_def sendResponse_message [OF response_ok_Initialize])
  moreover have "rpc_step ?pf 1000 ?s0 ?s1"
    using server_register [of ?pf 1000 ?s0 "js_text ''c''" 5] by (simp add: ChannelServer_registerChannel_def)
  moreover have "rpc_step ?pf 1000 ?s1 ?s2"
    using deliver_response [of ?s1 ?pf "?cl Idle [] [] 0 [] []" 1000]
    by (simp add: onBuffer_response [OF response_ok_Initialize] ChannelClient_onResponse_def)
  moreover have "rpc_step ?pf 1000 ?s2 ?s3"
    using client_call [of ?pf ?s2 "js_text ''c''" "js_text ''m''" VUndefined 1000 False] sample_ok(1)
    by (simp add: ChannelClient_call_def ChannelClient_requestPromise_def doRequest_def sendRequest_message activeRequests_add_def
        sample_promise_def Let_def)
  moreover have "rpc_step ?pf 1000 ?s3 ?s4"
    using deliver_request [of ?s3 ?pf "?sv ?ch [(0, CancelCall 0)] [js_text ''c''] [?call] [?init]" 1000]
    by (simp add: onRawMessage_request [OF sample_ok(1)] ChannelServer_onPromise_def sample_call_def)
  moreover have "rpc_step ?pf 1000 ?s4 ?s5"
    using server_settled [of 0 ?s4 ?pf "Fulfilled (VNumber 7)" "?sv ?ch [] [js_text ''c''] [sample_call] [?init, ?res]" 1000] sample_ok(2)
    by (simp add: ChannelServer_onSettled_def outcome_response_def sendResponse_message sample_call_def Let_def)
  moreover have "rpc_step ?pf 1000 ?s5 sample_rpc"
    using deliver_response [of ?s5 ?pf "?cl Idle [PromiseDisposable 0] [] 1 [sample_promise] [?req]" 1000]
    by (simp add: onBuffer_response [OF sample_ok(2)] ChannelClient_onResponse_def sample_rpc_def sample_promise_def settle_def numeral_2_eq_2)
  ultimately show ?thesis
    unfolding rpc_reachable_def by (meson converse_rtranclp_into_rtranclp rtranclp.rtrancl_refl)
qed

section \<open>Guarantees\<close>

text \<open>
  C5. A promise settles with what its call gave: unless it was cancelled, it is settled with the outcome of
  a call that the server made on the same channel, with the same command and argument, or with the
  time-out of a channel that was not registered in time.
\<close>

theorem rpc_agreement:
  assumes "rpc_reachable pf d s" "p \<in> set (cl_promises (rp_client s))" "cp_settled p = Some v"
  shows "v = Rejected CancellationError \<or>
    (\<exists>sc \<in> set (sv_calls (rp_server s)). sc_id sc = cp_id p \<and> sc_channelName sc = cp_channelName p \<and> sc_name sc = cp_name p \<and>
       sc_arg sc = cp_arg p \<and> (\<exists>out. sc_outcome sc = Some out \<and> v = outcome_settlement pf out)) \<or>
    v = timeout_settlement pf d (cp_channelName p)"
proof (cases "v = Rejected CancellationError")
  case False
  obtain reqs resps where *: "client_inv pf {} reqs (take (rp_toClient s) resps) (rp_client s)"
      "server_inv pf d (take (rp_toServer s) reqs) resps (rp_server s)"
    using rpc_reachable_inv [OF assms(1)] by (auto simp: rpc_inv_def)
  have "settled_by (take (rp_toClient s) resps) (cp_id p) v"
    using *(1) assms(2,3) by (simp add: client_inv_def client_settled_def)
  then obtain r where r: "r \<in> set resps" "answered_id r = Some (cp_id p)" "response_settlement r = Some v"
    using settled_by_response [OF _ False] by (meson in_set_takeD)
  then have "answer_of pf d (take (rp_toServer s) reqs) (call_outcomes (rp_server s)) (cp_id p) r"
    using *(2) by (simp add: server_inv_def server_answers_def)
  then consider sc out where "sc \<in> set (sv_calls (rp_server s))" "sc_id sc = cp_id p" "sc_outcome sc = Some out"
      "r = outcome_response pf (cp_id p) out"
    | channelName name arg where "PromiseRequest (cp_id p) channelName name arg \<in> set (take (rp_toServer s) reqs)"
      "r = timeout_response pf d (cp_id p) channelName"
    by (auto simp: answer_of_def call_outcomes_def)
  then show ?thesis
  proof cases
    case 1
    have "call_request sc \<in> set reqs"
      using server_called_requested [OF *(2) 1(1)] by (rule in_set_takeD)
    then have "call_request sc = promise_request p"
      using client_request_unique [OF *(1) assms(2)] 1(2) by simp
    with 1 r(3) show ?thesis
      by (auto simp: call_request_def promise_request_def)
  next
    case 2
    have "PromiseRequest (cp_id p) channelName name arg = promise_request p"
      using client_request_unique [OF *(1) assms(2) in_set_takeD [OF 2(1)]] by simp
    with 2 r(3) show ?thesis
      by (simp add: promise_request_def)
  qed
qed simp

theorem rpc_agreement_witness:
  "\<exists>sc \<in> set (sv_calls (rp_server sample_rpc)). sc_id sc = 0 \<and> sc_channelName sc = js_text ''c'' \<and> sc_outcome sc = Some (Fulfilled (VNumber 7))"
  using rpc_agreement [OF sample_rpc_reachable, of sample_promise "Resolved (VNumber 7)"]
  by (auto simp: sample_rpc_def sample_promise_def sample_call_def outcome_settlement_def timeout_settlement_def split: outcome.splits)

lemma distinct_submset:
  assumes "distinct ys" "mset xs \<subseteq># mset ys"
  shows "distinct xs"
  unfolding distinct_count_atmost_1
proof
  fix a
  have "count (mset xs) a \<le> count (mset ys) a"
    using assms(2) by (rule mset_subset_eq_count)
  also have "\<dots> \<le> 1"
    using assms(1) by (simp add: distinct_count_atmost_1)
  finally show "count (mset xs) a = (if a \<in> set xs then 1 else 0)"
    by (metis One_nat_def count_greater_zero_iff count_mset_0_iff le_antisym less_eq_Suc_le set_mset_mset)
qed

text \<open>
  C6. A call is made at most once: no two calls of the server have the same id, none of them is for a request that is still
  pending, and each was asked for by a promise of the client.
\<close>

theorem rpc_at_most_once:
  assumes "rpc_reachable pf d s"
  shows "distinct (map sc_id (sv_calls (rp_server s)) @ promise_ids (pending_requests (rp_server s))) \<and>
    call_request ` set (sv_calls (rp_server s)) \<subseteq> promise_request ` set (cl_promises (rp_client s))"
proof -
  obtain reqs resps where *: "client_inv pf {} reqs (take (rp_toClient s) resps) (rp_client s)"
      "server_inv pf d (take (rp_toServer s) reqs) resps (rp_server s)"
    using rpc_reachable_inv [OF assms] by (auto simp: rpc_inv_def)
  let ?proc = "take (rp_toServer s) reqs" and ?all = "map call_request (sv_calls (rp_server s)) @ filter is_promise (pending_requests (rp_server s))"
  have "distinct (promise_ids (?proc @ drop (rp_toServer s) reqs))"
    using *(1) by (simp add: client_inv_def client_requests_def)
  then have "distinct (map request_id (filter is_promise ?proc))"
    by (simp add: promise_ids_def del: append_take_drop_id)
  moreover have "mset ?all \<subseteq># mset (filter is_promise ?proc)"
    using *(2) by (simp add: server_inv_def server_calls_def)
  then have "mset (map request_id ?all) \<subseteq># mset (map request_id (filter is_promise ?proc))"
    unfolding mset_map by (rule image_mset_subseteq_mono)
  ultimately have "distinct (map request_id ?all)"
    by (rule distinct_submset)
  moreover have "map request_id ?all = map sc_id (sv_calls (rp_server s)) @ promise_ids (pending_requests (rp_server s))"
    by (simp add: promise_ids_def)
  moreover have "call_request sc \<in> promise_request ` set (cl_promises (rp_client s))" if "sc \<in> set (sv_calls (rp_server s))" for sc
    using in_set_takeD [OF server_called_requested [OF *(2) that]] *(1)
    unfolding client_inv_def client_requests_def by (metis call_request_simps(1) image_eqI)
  ultimately show ?thesis
    by (metis image_subset_iff)
qed

theorem rpc_at_most_once_witness:
  "distinct (map sc_id (sv_calls (rp_server sample_rpc)) @ promise_ids (pending_requests (rp_server sample_rpc))) \<and>
   call_request ` set (sv_calls (rp_server sample_rpc)) \<subseteq> promise_request ` set (cl_promises (rp_client sample_rpc))"
  by (rule rpc_at_most_once [OF sample_rpc_reachable])

text \<open>
  C8. No call is lost: when every message has arrived, the server has no request waiting for a channel
  and has settled its calls, and neither side is disposed, then every promise of the client that has been sent
  is settled.
\<close>

theorem rpc_quiescent_settled:
  assumes "rpc_reachable pf d s"
    and arrived: "rp_toServer s = length (cl_sent (rp_client s))" "rp_toClient s = length (sv_sent (rp_server s))"
    and alive: "cl_protocolListener (rp_client s)" "sv_protocolListener (rp_server s)"
    and idle: "promise_ids (pending_requests (rp_server s)) = []" "\<forall>sc \<in> set (sv_calls (rp_server s)). sc_outcome sc \<noteq> None"
    and p: "p \<in> set (cl_promises (rp_client s))" "\<not> cp_waiting p"
  shows "cp_settled p \<noteq> None"
proof
  assume unsettled: "cp_settled p = None"
  obtain reqs resps where *: "client_inv pf {} reqs (take (rp_toClient s) resps) (rp_client s)"
      "server_inv pf d (take (rp_toServer s) reqs) resps (rp_server s)"
    using rpc_reachable_inv [OF assms(1)] by (auto simp: rpc_inv_def)
  have all: "take (rp_toServer s) reqs = reqs" "take (rp_toClient s) resps = resps"
    using * arrived by (simp_all add: client_inv_def client_log_def server_inv_def server_log_def)
  obtain k where k: "k < length (cl_promises (rp_client s))" "p = cl_promises (rp_client s) ! k"
    using p(1) by (metis in_set_conv_nth)
  then have opened: "cp_id p \<in> set (promise_ids reqs)" "cp_id p \<notin> answered resps"
    using *(1) unsettled p(2) alive(1) all(2) by (auto simp: client_inv_def client_open_def Let_def)
  have "filter is_promise (pending_requests (rp_server s)) = []"
    using idle(1) by (simp add: promise_ids_def)
  then have "mset (filter is_promise reqs) = mset (map call_request (sv_calls (rp_server s)))"
    using *(2) alive(2) all(1) by (simp add: server_inv_def server_calls_def)
  then have "set (filter is_promise reqs) = set (map call_request (sv_calls (rp_server s)))"
    by (metis set_mset_mset)
  then obtain sc where sc: "sc \<in> set (sv_calls (rp_server s))" "sc_id sc = cp_id p"
    using opened(1) by (auto simp: promise_ids_def)
  then obtain out where "sc_outcome sc = Some out"
    using idle(2) by auto
  then have "outcome_response pf (cp_id p) out \<in> set resps"
    using *(2) sc by (fastforce simp: server_inv_def server_answers_def call_outcomes_def)
  then show False
    using opened(2) by (force simp: answered_def)
qed

theorem rpc_quiescent_settled_witness: "cp_settled (hd (cl_promises (rp_client sample_rpc))) \<noteq> None"
  by (rule rpc_quiescent_settled [OF sample_rpc_reachable])
    (simp_all add: sample_rpc_def pending_requests_def sample_call_def sample_promise_def)

text \<open>C25. Disposing the client settles every promise, throws nothing, and leaves a client that ignores what arrives.\<close>

theorem rpc_dispose_settles:
  assumes "rpc_reachable pf d s"
  shows "\<exists>c. ChannelClient_dispose pf (rp_client s) = ([], c) \<and> (\<forall>p \<in> set (cl_promises c). cp_settled p \<noteq> None) \<and>
    cl_activeRequests c = [] \<and> (\<forall>m. ChannelClient_onBuffer pf m c = Inr c) \<and>
    (\<forall>channelName command arg b. ChannelClient_call pf channelName command arg b c = c)"
proof -
  obtain reqs got where "client_inv pf {} reqs got (rp_client s)" "client_wf (rp_client s)"
    using rpc_reachable_inv [OF assms] by (auto simp: rpc_inv_def)
  then obtain c where c: "ChannelClient_dispose pf (rp_client s) = ([], c)" "open_promises c = {}" "cl_isDisposed c" "\<not> cl_protocolListener c"
    using client_dispose_ok by blast
  then have "\<forall>p \<in> set (cl_promises c). cp_settled p \<noteq> None"
    by (auto simp: open_promises_def in_set_conv_nth)
  moreover have "cl_activeRequests c = []"
    using c(1) by (auto simp: ChannelClient_dispose_def Let_def split: prod.splits)
  ultimately show ?thesis
    using c by (simp add: ChannelClient_onBuffer_def ChannelClient_call_def)
qed

theorem rpc_dispose_settles_witness:
  "\<exists>c. ChannelClient_dispose sample_platform (rp_client sample_rpc) = ([], c) \<and> (\<forall>p \<in> set (cl_promises c). cp_settled p \<noteq> None) \<and>
     cl_activeRequests c = [] \<and> (\<forall>m. ChannelClient_onBuffer sample_platform m c = Inr c) \<and>
     (\<forall>channelName command arg b. ChannelClient_call sample_platform channelName command arg b c = c)"
  by (rule rpc_dispose_settles [OF sample_rpc_reachable])

text \<open>
  C27. A request for a channel that is not registered in time is answered with an error, but it stays
  pending: when the channel is registered later, the call is made all the same.  A cancellation that arrives in the
  meantime has no effect on it.
\<close>

theorem timed_out_request_still_called:
  assumes "map_of (sv_channels s) channelName = None" "map_of (sv_pendingRequests s) channelName = None"
    and "response_ok pf (timeout_response pf d i channelName)" "map_of (sv_activeRequests s) i = None"
    and "s1 = ChannelServer_onPromise i channelName name arg s"
    and "ChannelServer_onPendingTimeout pf d (length (sv_timers s)) s1 = Inr s2"
    and "s3 = ChannelServer_onRequest (PromiseCancelRequest i) s2"
    and "s4 = ChannelServer_onFlushTimer channelName (ChannelServer_registerChannel channelName channel s3)"
  shows "sv_sent s2 = sv_sent s @ [message pf (response_header (timeout_response pf d i channelName))] \<and>
    sv_calls s2 = sv_calls s \<and>
    sv_calls s4 = sv_calls s @ [\<lparr>sc_channel = channel, sc_channelName = channelName, sc_name = name, sc_arg = arg, sc_id = i,
      sc_cancelled = False, sc_outcome = None\<rparr>]"
proof -
  have s1: "s1 = s\<lparr>sv_timers := sv_timers s @ [Some (PromiseRequest i channelName name arg)], sv_pendingRequests :=
      AList.update channelName [\<lparr>pq_request = PromiseRequest i channelName name arg, pq_timer = length (sv_timers s)\<rparr>] (sv_pendingRequests s)\<rparr>"
    using assms(1,2,5) by (simp add: ChannelServer_onPromise_def ChannelServer_collectPendingRequest_def Let_def)
  then have s2: "s2 = s1\<lparr>sv_timers := sv_timers s @ [None], sv_sent := sv_sent s @ [message pf (response_header (timeout_response pf d i channelName))]\<rparr>"
    using assms(6) sendResponse_message [OF assms(3), of "s1\<lparr>sv_timers := sv_timers s @ [None]\<rparr>"]
    by (simp add: ChannelServer_onPendingTimeout_def Let_def flip: timeout_response_def)
  moreover have "s3 = s2"
    using assms(4,7) s1 s2 by (simp add: ChannelServer_disposeActiveRequest_def)
  ultimately show ?thesis
    using s1 assms(8) by (simp add: ChannelServer_onFlushTimer_def ChannelServer_registerChannel_def ChannelServer_flushPendingRequests_def
        flush_request_def ChannelServer_onPromise_def Let_def update_conv')
qed

theorem timed_out_request_still_called_witness:
  "\<exists>s2 s4. ChannelServer_onPendingTimeout sample_platform 1000 0
       (ChannelServer_onPromise 0 (js_text ''c'') (js_text ''m'') VUndefined (rp_server sample_rpc\<lparr>sv_channels := []\<rparr>)) = Inr s2 \<and>
     s4 = ChannelServer_onFlushTimer (js_text ''c'') (ChannelServer_registerChannel (js_text ''c'') 5
       (ChannelServer_onRequest (PromiseCancelRequest 0) s2)) \<and>
     length (sv_sent s2) = 3 \<and> length (sv_calls s2) = 1 \<and> length (sv_calls s4) = 2"
proof -
  let ?s = "rp_server sample_rpc\<lparr>sv_channels := []\<rparr>" and ?c = "js_text ''c''"
  let ?s1 = "ChannelServer_onPromise 0 ?c (js_text ''m'') VUndefined ?s"
  obtain s2 where s2: "ChannelServer_onPendingTimeout sample_platform 1000 (length (sv_timers ?s)) ?s1 = Inr s2"
    using sendResponse_message [OF sample_ok(3), of "?s1\<lparr>sv_timers := [None]\<rparr>"]
    by (simp add: sample_rpc_def ChannelServer_onPromise_def ChannelServer_collectPendingRequest_def ChannelServer_onPendingTimeout_def
        timeout_response_def Let_def)
  show ?thesis
    using timed_out_request_still_called [OF _ _ sample_ok(3) _ refl s2 refl refl, of 5] s2
    by (simp add: sample_rpc_def)
qed

lemma rpc_step_server_wf: "rpc_step pf d s s' \<Longrightarrow> server_wf (rp_server s) \<Longrightarrow> server_wf (rp_server s')"
  by (induction rule: rpc_step.induct)
    (auto intro: server_wf_registerChannel server_wf_onSettled server_wf_onEvent server_wf_onPendingTimeout server_wf_onFlushTimer
      server_wf_dispose server_wf_onRequest simp: ChannelServer_onRawMessage_def bind_result_Inr_iff split: if_splits option.splits)

text \<open>
  C26. The references between the parts of the state are right in every reachable state: an open promise
  is among the active requests of the client and not disposed, active and disposed entries exist, and
  an active request of the server is a call without outcome or a live subscription with that id.
\<close>

theorem rpc_well_formed:
  assumes "rpc_reachable pf d s"
  shows "client_wf (rp_client s) \<and> server_wf (rp_server s)"
proof -
  obtain s0 where "rpc_start pf s0" "(rpc_step pf d)\<^sup>*\<^sup>* s0 s"
    using assms by (auto simp: rpc_reachable_def)
  from this(2,1) have "server_wf (rp_server s)"
    by (induction rule: rtranclp_induct) (auto simp: rpc_start_def intro: server_wf_new rpc_step_server_wf)
  then show ?thesis
    using rpc_reachable_inv [OF assms] by (auto simp: rpc_inv_def)
qed

theorem rpc_well_formed_witness: "client_wf (rp_client sample_rpc) \<and> server_wf (rp_server sample_rpc)"
  by (rule rpc_well_formed [OF sample_rpc_reachable])

end
