(* ===== verification/Chunk_Stream.thy ===== *)
theory Chunk_Stream
  imports Vs_Buffer
begin

text \<open>
  \<open>ChunkStream\<close> of \<open>vs/base/parts/ipc/common/ipc.net.ts\<close>: the bytes received from a socket, kept in the
  chunks they arrived in.  The locale \<open>byte_source\<close> is what the protocol reader relies on: chunks are
  appended, reads take bytes from the front, and how the bytes are cut into chunks is not visible.
\<close>

section \<open>What a reader relies on\<close>

locale byte_source =
  fixes inv :: "'s \<Rightarrow> bool" and contents :: "'s \<Rightarrow> bytes" and accept :: "bytes \<Rightarrow> 's \<Rightarrow> 's"
    and available :: "'s \<Rightarrow> int" and read :: "nat \<Rightarrow> 's \<Rightarrow> js_error + 's \<times> bytes"
  assumes inv_accept: "inv s \<Longrightarrow> inv (accept b s)"
    and contents_accept: "inv s \<Longrightarrow> contents (accept b s) = contents s @ b"
    and available: "inv s \<Longrightarrow> available s = int (length (contents s))"
    and read: "inv s \<Longrightarrow> n \<le> length (contents s) \<Longrightarrow>
                 \<exists>s'. read n s = Inr (s', take n (contents s)) \<and> inv s' \<and> contents s' = drop n (contents s)"
    and read_short: "inv s \<Longrightarrow> length (contents s) < n \<Longrightarrow> read n s = Inl CannotReadSoManyBytes"
begin

lemma read_obtain:
  assumes "inv s" "n \<le> length (contents s)"
  obtains s' where "read n s = Inr (s', take n (contents s))" "inv s'" "contents s' = drop n (contents s)"
  using read [OF assms] by blast

text \<open>Two chunks are as good as one.\<close>

lemma accept_accept: "inv s \<Longrightarrow> contents (accept c (accept b s)) = contents (accept (b @ c) s)"
  by (simp add: contents_accept inv_accept)

text \<open>Reading in two steps is reading in one.\<close>

lemma read_read:
  assumes "inv s" "m + n \<le> length (contents s)"
  shows "\<exists>s1 a s2 b s'. read m s = Inr (s1, a) \<and> read n s1 = Inr (s2, b) \<and> read (m + n) s = Inr (s', a @ b) \<and>
           contents s2 = contents s'"
proof -
  obtain s1 where s1: "read m s = Inr (s1, take m (contents s))" "inv s1" "contents s1 = drop m (contents s)"
    using read_obtain [OF assms(1), of m] assms(2) by auto
  have "n \<le> length (contents s1)"
    using assms(2) s1(3) by simp
  then obtain s2 where s2: "read n s1 = Inr (s2, take n (contents s1))" "contents s2 = drop n (contents s1)"
    using read_obtain [OF s1(2)] by metis
  obtain s' where "read (m + n) s = Inr (s', take (m + n) (contents s))" "contents s' = drop (m + n) (contents s)"
    using read_obtain [OF assms] by blast
  with s1 s2 show ?thesis
    by (auto simp: take_add add.commute)
qed

end

section \<open>The stream\<close>

record chunkStream =
  cs_chunks :: "bytes list"
  cs_totalLength :: int

definition new_ChunkStream :: chunkStream where
  "new_ChunkStream = \<lparr>cs_chunks = [], cs_totalLength = 0\<rparr>"

definition ChunkStream_byteLength :: "chunkStream \<Rightarrow> int" where
  "ChunkStream_byteLength s = cs_totalLength s"

definition ChunkStream_acceptChunk :: "bytes \<Rightarrow> chunkStream \<Rightarrow> chunkStream" where
  "ChunkStream_acceptChunk buff s =
     s\<lparr>cs_chunks := cs_chunks s @ [buff], cs_totalLength := cs_totalLength s + int (length buff)\<rparr>"

text \<open>
  The loop that copies from several chunks.  When advancing it removes the chunks it has read and
  stays at the front, otherwise it moves its index.  Reading \<open>byteLength\<close> of a chunk beyond the last one
  throws.
\<close>

function chunkRead_loop :: "bool \<Rightarrow> nat \<Rightarrow> bytes \<Rightarrow> nat \<Rightarrow> nat \<Rightarrow> chunkStream \<Rightarrow> js_error + chunkStream \<times> bytes" where
  "chunkRead_loop advance byteCount result resultOffset chunkIndex s =
     (if byteCount > 0 then
        if chunkIndex < length (cs_chunks s) then
          let chunk = cs_chunks s ! chunkIndex in
          if length chunk > byteCount then
            case VSBuffer_set (VSBuffer_slice (Some 0) (Some (int byteCount)) chunk) resultOffset result of
              Inl e \<Rightarrow> Inl e
            | Inr result \<Rightarrow>
                chunkRead_loop advance 0 result (resultOffset + byteCount) chunkIndex
                  (if advance
                   then s\<lparr>cs_chunks := (cs_chunks s)[chunkIndex := VSBuffer_slice (Some (int byteCount)) None chunk],
                          cs_totalLength := cs_totalLength s - int byteCount\<rparr>
                   else s)
          else
            case VSBuffer_set chunk resultOffset result of
              Inl e \<Rightarrow> Inl e
            | Inr result \<Rightarrow>
                if advance then
                  chunkRead_loop advance (byteCount - length chunk) result (resultOffset + length chunk) chunkIndex
                    (s\<lparr>cs_chunks := tl (cs_chunks s), cs_totalLength := cs_totalLength s - int (length chunk)\<rparr>)
                else
                  chunkRead_loop advance (byteCount - length chunk) result (resultOffset + length chunk) (chunkIndex + 1) s
        else Inl TypeError
      else Inr (s, result))"
  by pat_completeness auto
termination
  by (relation "inv_image (less_than <*lex*> less_than)
        (\<lambda>(advance, byteCount, result, resultOffset, chunkIndex, s). (length (cs_chunks s) - chunkIndex, byteCount))")
    (auto split: if_splits)

declare chunkRead_loop.simps [simp del]

definition ChunkStream_read_internal :: "(nat \<Rightarrow> byte) \<Rightarrow> nat \<Rightarrow> bool \<Rightarrow> chunkStream \<Rightarrow> js_error + chunkStream \<times> bytes" where
  "ChunkStream_read_internal fresh byteCount advance s =
     (if byteCount = 0 then Inr (s, [])
      else if int byteCount > cs_totalLength s then Inl CannotReadSoManyBytes
      else case cs_chunks s of
        [] \<Rightarrow> Inl TypeError
      | c # cs \<Rightarrow>
          if length c = byteCount then
            Inr (if advance then s\<lparr>cs_chunks := cs, cs_totalLength := cs_totalLength s - int byteCount\<rparr> else s, c)
          else if length c > byteCount then
            Inr (if advance then s\<lparr>cs_chunks := VSBuffer_slice (Some (int byteCount)) None c # cs,
                                   cs_totalLength := cs_totalLength s - int byteCount\<rparr> else s,
                 VSBuffer_slice (Some 0) (Some (int byteCount)) c)
          else chunkRead_loop advance byteCount (VSBuffer_alloc fresh byteCount) 0 0 s)"

definition ChunkStream_read :: "(nat \<Rightarrow> byte) \<Rightarrow> nat \<Rightarrow> chunkStream \<Rightarrow> js_error + chunkStream \<times> bytes" where
  "ChunkStream_read fresh byteCount s = ChunkStream_read_internal fresh byteCount True s"

definition ChunkStream_peek :: "(nat \<Rightarrow> byte) \<Rightarrow> nat \<Rightarrow> chunkStream \<Rightarrow> js_error + chunkStream \<times> bytes" where
  "ChunkStream_peek fresh byteCount s = ChunkStream_read_internal fresh byteCount False s"

section \<open>Reading\<close>

definition cs_bytes :: "chunkStream \<Rightarrow> bytes" where
  "cs_bytes s = concat (cs_chunks s)"

definition cs_inv :: "chunkStream \<Rightarrow> bool" where
  "cs_inv s \<longleftrightarrow> cs_totalLength s = int (length (cs_bytes s))"

lemma set_fill:
  assumes "length pre = k" "length b \<le> length junk"
  shows "VSBuffer_set b k (pre @ junk) = Inr ((pre @ b) @ drop (length b) junk)"
  using assms by (simp add: VSBuffer_set_def)

lemma chunkRead_advance:
  assumes "cs_inv s" "n \<le> length (cs_bytes s)" "length pre = k" "length junk = n"
  shows "\<exists>s'. chunkRead_loop True n (pre @ junk) k 0 s = Inr (s', pre @ take n (cs_bytes s)) \<and>
           cs_inv s' \<and> cs_bytes s' = drop n (cs_bytes s)"
  using assms
proof (induction "length (cs_chunks s)" arbitrary: s n pre junk k)
  case 0
  then show ?case
    by (subst chunkRead_loop.simps) (simp add: cs_bytes_def)
next
  case (Suc len)
  obtain c cs where chunks: "cs_chunks s = c # cs"
    using Suc(2) by (cases "cs_chunks s") auto
  show ?case
  proof (cases "n = 0")
    case True
    then show ?thesis
      using Suc.prems by (subst chunkRead_loop.simps) simp
  next
    case False
    note step = chunkRead_loop.simps [of True n "pre @ junk" k 0 s]
    show ?thesis
    proof (cases "length c > n")
      case True
      let ?s = "s\<lparr>cs_chunks := drop n c # cs, cs_totalLength := cs_totalLength s - int n\<rparr>"
      have "chunkRead_loop True n (pre @ junk) k 0 s = chunkRead_loop True 0 (pre @ take n c) (k + n) 0 ?s"
        using False True chunks Suc.prems set_fill [of pre k "take n c" junk] by (simp add: step Let_def)
      then have "chunkRead_loop True n (pre @ junk) k 0 s = Inr (?s, pre @ take n c)"
        by (simp add: chunkRead_loop.simps [of True 0])
      then show ?thesis
        using True Suc.prems chunks by (simp add: cs_inv_def cs_bytes_def of_nat_diff)
    next
      case short: False
      let ?s = "s\<lparr>cs_chunks := cs, cs_totalLength := cs_totalLength s - int (length c)\<rparr>"
      have "chunkRead_loop True n (pre @ junk) k 0 s =
          chunkRead_loop True (n - length c) ((pre @ c) @ drop (length c) junk) (k + length c) 0 ?s"
        using False short chunks Suc.prems set_fill [of pre k c junk] by (simp add: step Let_def)
      moreover have "\<exists>s'. chunkRead_loop True (n - length c) ((pre @ c) @ drop (length c) junk) (k + length c) 0 ?s =
          Inr (s', (pre @ c) @ take (n - length c) (cs_bytes ?s)) \<and> cs_inv s' \<and> cs_bytes s' = drop (n - length c) (cs_bytes ?s)"
        by (rule Suc(1)) (use Suc.prems Suc(2) chunks in \<open>auto simp: cs_inv_def cs_bytes_def\<close>)
      ultimately show ?thesis
        using short chunks by (simp add: cs_bytes_def)
    qed
  qed
qed

lemma chunkRead_peek:
  assumes "n \<le> length (concat (drop i (cs_chunks s)))" "length pre = k" "length junk = n"
  shows "chunkRead_loop False n (pre @ junk) k i s = Inr (s, pre @ take n (concat (drop i (cs_chunks s))))"
  using assms
proof (induction "length (cs_chunks s) - i" arbitrary: i n pre junk k)
  case 0
  then show ?case
    by (subst chunkRead_loop.simps) simp
next
  case (Suc len)
  let ?c = "cs_chunks s ! i"
  have i: "i < length (cs_chunks s)" and d: "drop i (cs_chunks s) = ?c # drop (Suc i) (cs_chunks s)"
    using Suc(2) Cons_nth_drop_Suc [of i "cs_chunks s"] by simp_all
  note step = chunkRead_loop.simps [of False n "pre @ junk" k i s]
  consider "n = 0" | "0 < n" "length ?c > n" | "0 < n" "length ?c \<le> n"
    by linarith
  then show ?case
  proof cases
    case 1
    then show ?thesis
      using Suc.prems by (subst chunkRead_loop.simps) simp
  next
    case 2
    then have "chunkRead_loop False n (pre @ junk) k i s = chunkRead_loop False 0 (pre @ take n ?c) (k + n) i s"
      using i Suc.prems set_fill [of pre k "take n ?c" junk] by (simp add: step Let_def)
    with 2 show ?thesis
      by (simp add: chunkRead_loop.simps [of False 0] d)
  next
    case 3
    then have "chunkRead_loop False n (pre @ junk) k i s =
        chunkRead_loop False (n - length ?c) ((pre @ ?c) @ drop (length ?c) junk) (k + length ?c) (Suc i) s"
      using i Suc.prems set_fill [of pre k ?c junk] by (simp add: step Let_def)
    moreover have "\<dots> = Inr (s, (pre @ ?c) @ take (n - length ?c) (concat (drop (Suc i) (cs_chunks s))))"
      by (rule Suc(1)) (use Suc.prems Suc(2) 3 d in auto)
    ultimately show ?thesis
      using 3 d by simp
  qed
qed

lemma ChunkStream_read_spec:
  assumes "cs_inv s" "n \<le> length (cs_bytes s)"
  shows "\<exists>s'. ChunkStream_read fresh n s = Inr (s', take n (cs_bytes s)) \<and> cs_inv s' \<and> cs_bytes s' = drop n (cs_bytes s)"
proof (cases "n = 0")
  case True
  with assms show ?thesis
    by (simp add: ChunkStream_read_def ChunkStream_read_internal_def)
next
  case False
  then obtain c cs where chunks: "cs_chunks s = c # cs"
    using assms(2) by (cases "cs_chunks s") (auto simp: cs_bytes_def)
  have "\<not> int n > cs_totalLength s"
    using assms by (simp add: cs_inv_def)
  moreover have "\<exists>s'. chunkRead_loop True n (VSBuffer_alloc fresh n) 0 0 s = Inr (s', take n (cs_bytes s)) \<and>
      cs_inv s' \<and> cs_bytes s' = drop n (cs_bytes s)"
    using chunkRead_advance [OF assms, of "[]" 0 "VSBuffer_alloc fresh n"] by simp
  ultimately show ?thesis
    using False assms chunks
    by (auto simp: ChunkStream_read_def ChunkStream_read_internal_def cs_inv_def cs_bytes_def)
qed

lemma ChunkStream_peek_spec:
  assumes "cs_inv s" "n \<le> length (cs_bytes s)"
  shows "ChunkStream_peek fresh n s = Inr (s, take n (cs_bytes s))"
proof (cases "n = 0")
  case True
  with assms show ?thesis
    by (simp add: ChunkStream_peek_def ChunkStream_read_internal_def)
next
  case False
  then obtain c cs where chunks: "cs_chunks s = c # cs"
    using assms(2) by (cases "cs_chunks s") (auto simp: cs_bytes_def)
  have "chunkRead_loop False n (VSBuffer_alloc fresh n) 0 0 s = Inr (s, take n (cs_bytes s))"
    using chunkRead_peek [of n 0 s "[]" 0 "VSBuffer_alloc fresh n"] assms(2) by (simp add: cs_bytes_def)
  then show ?thesis
    using False assms chunks
    by (auto simp: ChunkStream_peek_def ChunkStream_read_internal_def cs_inv_def cs_bytes_def)
qed

lemma ChunkStream_short:
  assumes "cs_inv s" "length (cs_bytes s) < n"
  shows "ChunkStream_read fresh n s = Inl CannotReadSoManyBytes" "ChunkStream_peek fresh n s = Inl CannotReadSoManyBytes"
  using assms by (simp_all add: ChunkStream_read_def ChunkStream_peek_def ChunkStream_read_internal_def cs_inv_def)

lemma cs_inv_new: "cs_inv new_ChunkStream" "cs_bytes new_ChunkStream = []"
  by (simp_all add: new_ChunkStream_def cs_inv_def cs_bytes_def)

interpretation chunks: byte_source cs_inv cs_bytes ChunkStream_acceptChunk ChunkStream_byteLength "ChunkStream_read fresh" for fresh
proof unfold_locales
  show "cs_inv s \<Longrightarrow> n \<le> length (cs_bytes s) \<Longrightarrow>
      \<exists>s'. ChunkStream_read fresh n s = Inr (s', take n (cs_bytes s)) \<and> cs_inv s' \<and> cs_bytes s' = drop n (cs_bytes s)" for s n
    by (rule ChunkStream_read_spec)
qed (simp_all add: cs_inv_def cs_bytes_def ChunkStream_acceptChunk_def ChunkStream_byteLength_def
      ChunkStream_short(1) [unfolded cs_inv_def cs_bytes_def])

section \<open>Properties\<close>

text \<open>
  C33. \<open>ChunkStream\<close> refines a queue of bytes: after any chunks have been accepted, a read of available
  bytes returns exactly the next bytes whatever the chunk boundaries and whatever the fresh memory
  held, and removes them; a peek returns the same and removes nothing; asking for more throws and
  leaves the stream as it was.
\<close>

theorem ChunkStream_refines_bytes:
  assumes "s = fold ChunkStream_acceptChunk bs new_ChunkStream"
  shows "(n \<le> length (concat bs) \<longrightarrow>
            (\<exists>s'. ChunkStream_read fresh n s = Inr (s', take n (concat bs)) \<and> concat (cs_chunks s') = drop n (concat bs) \<and>
                  ChunkStream_byteLength s' = int (length (concat bs) - n) \<and>
                  ChunkStream_peek fresh n s = Inr (s, take n (concat bs)))) \<and>
         (length (concat bs) < n \<longrightarrow>
            ChunkStream_read fresh n s = Inl CannotReadSoManyBytes \<and> ChunkStream_peek fresh n s = Inl CannotReadSoManyBytes)"
proof -
  have "cs_inv (fold ChunkStream_acceptChunk bs t) \<and> cs_bytes (fold ChunkStream_acceptChunk bs t) = cs_bytes t @ concat bs"
    if "cs_inv t" for t
    using that by (induction bs arbitrary: t) (simp_all add: chunks.inv_accept chunks.contents_accept)
  from this [OF cs_inv_new(1)] have s: "cs_inv s" "cs_bytes s = concat bs"
    using assms by (simp_all add: cs_inv_new)
  show ?thesis
    using ChunkStream_read_spec [OF s(1), of n fresh] ChunkStream_peek_spec [OF s(1), of n fresh] ChunkStream_short [OF s(1)]
    unfolding s(2) cs_bytes_def [symmetric] by (auto simp: cs_inv_def ChunkStream_byteLength_def)
qed

theorem ChunkStream_refines_bytes_witness:
  "\<exists>s'. ChunkStream_read (\<lambda>_. 0) 3 (fold ChunkStream_acceptChunk [[1, 2], [], [3, 4]] new_ChunkStream) = Inr (s', [1, 2, 3])"
  using ChunkStream_refines_bytes [OF refl, of 3 "[[1, 2], [], [3, 4]]" "\<lambda>_. 0"] by auto

end
