(* ===== verification/Ipc_Framing.thy ===== *)
theory Ipc_Framing
  imports Chunk_Stream
begin

text \<open>
  Message framing of \<open>vs/base/parts/ipc/common/ipc.net.ts\<close>: \<open>ProtocolMessage\<close>, \<open>ProtocolReader\<close>,
  \<open>ProtocolWriter\<close> and \<open>Protocol\<close>.

  The socket is code behind the interface \<open>ISocket\<close>: what is written to it is recorded in \<open>pw_sent\<close>, and
  the chunks it hands to the reader are arguments of \<open>ProtocolReader_acceptChunk\<close>.  The clock is the
  argument \<open>now\<close>.  The listeners of \<open>onMessage\<close> are the argument \<open>fire\<close>, which updates the state of its
  owner and tells whether it disposed the reader.  A pending \<open>setTimeout\<close> of the writer is the flag
  \<open>pw_scheduled\<close>; its firing is \<open>ProtocolWriter_onTimeout\<close>.  Tracing of socket events is left out.
\<close>

section \<open>Messages\<close>

definition MT_None :: int where "MT_None = 0"
definition MT_Regular :: int where "MT_Regular = 1"
definition MT_Control :: int where "MT_Control = 2"
definition MT_Ack :: int where "MT_Ack = 3"
definition MT_Disconnect :: int where "MT_Disconnect = 5"
definition MT_ReplayRequest :: int where "MT_ReplayRequest = 6"
definition MT_Pause :: int where "MT_Pause = 7"
definition MT_Resume :: int where "MT_Resume = 8"
definition MT_KeepAlive :: int where "MT_KeepAlive = 9"

lemmas MT_defs = MT_None_def MT_Regular_def MT_Control_def MT_Ack_def MT_Disconnect_def MT_ReplayRequest_def
  MT_Pause_def MT_Resume_def MT_KeepAlive_def

definition HeaderLength :: nat where "HeaderLength = 13"

record protocolMessage =
  pm_type :: int
  pm_id :: int
  pm_ack :: int
  pm_data :: bytes
  pm_writtenTime :: int

definition new_ProtocolMessage :: "int \<Rightarrow> int \<Rightarrow> int \<Rightarrow> bytes \<Rightarrow> protocolMessage" where
  "new_ProtocolMessage ty i ack data = \<lparr>pm_type = ty, pm_id = i, pm_ack = ack, pm_data = data, pm_writtenTime = 0\<rparr>"

section \<open>The reader\<close>

record protocolReader =
  pr_isDisposed :: bool
  pr_incomingData :: chunkStream
  pr_lastReadTime :: int
  pr_readHead :: bool
  pr_readLen :: nat
  pr_messageType :: int
  pr_id :: int
  pr_ack :: int

definition new_ProtocolReader :: "int \<Rightarrow> protocolReader" where
  "new_ProtocolReader now =
     \<lparr>pr_isDisposed = False, pr_incomingData = new_ChunkStream, pr_lastReadTime = now, pr_readHead = True,
      pr_readLen = HeaderLength, pr_messageType = MT_None, pr_id = 0, pr_ack = 0\<rparr>"

lemma chunkRead_loop_consumes:
  "chunkRead_loop advance n result k i s = Inr (s', b) \<Longrightarrow> advance \<Longrightarrow>
   cs_totalLength s' = cs_totalLength s - int n \<and> length b = length result"
proof (induction advance n result k i s rule: chunkRead_loop.induct)
  case (1 advance n result k i s)
  note step = 1(4) [unfolded chunkRead_loop.simps [of advance n result k i s]]
  consider "n = 0" | "0 < n" "i < length (cs_chunks s)" "length (cs_chunks s ! i) > n"
    | "0 < n" "i < length (cs_chunks s)" "length (cs_chunks s ! i) \<le> n"
    using step by (cases "n = 0"; cases "i < length (cs_chunks s)") (simp_all add: not_less, linarith)
  then show ?case
  proof cases
    case 1
    then show ?thesis
      using step by simp
  next
    case 2
    then obtain r where r: "VSBuffer_set (VSBuffer_slice (Some 0) (Some (int n)) (cs_chunks s ! i)) k result = Inr r"
      using step by (auto simp: Let_def split: sum.splits)
    then have "length r = length result"
      by (auto simp: VSBuffer_set_def split: if_splits)
    then show ?thesis
      using "1.IH"(1) [OF 2(1,2) refl 2(3) r] step 2 r \<open>advance\<close> by (simp add: Let_def)
  next
    case 3
    then have le: "\<not> length (cs_chunks s ! i) > n"
      by simp
    from 3 obtain r where r: "VSBuffer_set (cs_chunks s ! i) k result = Inr r"
      using step by (auto simp: Let_def split: sum.splits)
    then have "length r = length result"
      by (auto simp: VSBuffer_set_def split: if_splits)
    then show ?thesis
      using "1.IH"(2) [OF 3(1,2) refl le r \<open>advance\<close>] step 3 r \<open>advance\<close> by (simp add: Let_def)
  qed
qed

lemma ChunkStream_read_consumes:
  assumes "ChunkStream_read fresh n s = Inr (s', b)"
  shows "cs_totalLength s' = cs_totalLength s - int n \<and> length b = n"
  using assms chunkRead_loop_consumes [of True n "VSBuffer_alloc fresh n" 0 0 s s' b]
  by (auto simp: ChunkStream_read_def ChunkStream_read_internal_def split: if_splits list.splits)

text \<open>
  The loop of \<open>acceptChunk\<close>.  A header is thirteen bytes, so reading one consumes input, and after a
  body, which may be empty, the next thing read is a header.
\<close>

function reader_loop ::
  "(nat \<Rightarrow> byte) \<Rightarrow> (protocolMessage \<Rightarrow> 'e \<Rightarrow> 'e \<times> bool) \<Rightarrow> protocolReader \<Rightarrow> 'e \<Rightarrow> js_error + protocolReader \<times> 'e" where
  "reader_loop fresh fire r e =
     (if ChunkStream_byteLength (pr_incomingData r) \<ge> int (pr_readLen r) then
        case ChunkStream_read fresh (pr_readLen r) (pr_incomingData r) of
          Inl err \<Rightarrow> Inl err
        | Inr (incoming, buff) \<Rightarrow>
            if pr_readHead r then
              case (readUInt32BE buff 9, readUInt8 buff 0, readUInt32BE buff 1, readUInt32BE buff 5) of
                (Some len, Some ty, Some i, Some ack) \<Rightarrow>
                  reader_loop fresh fire
                    (r\<lparr>pr_incomingData := incoming, pr_readHead := False, pr_readLen := nat len,
                       pr_messageType := ty, pr_id := i, pr_ack := ack\<rparr>) e
              | _ \<Rightarrow> Inl NotANumber
            else
              let msg = new_ProtocolMessage (pr_messageType r) (pr_id r) (pr_ack r) buff;
                  r' = r\<lparr>pr_incomingData := incoming, pr_readHead := True, pr_readLen := HeaderLength,
                         pr_messageType := MT_None, pr_id := 0, pr_ack := 0\<rparr> in
              case fire msg e of
                (e', disposed) \<Rightarrow>
                  if pr_isDisposed r' \<or> disposed then Inr (r'\<lparr>pr_isDisposed := True\<rparr>, e')
                  else reader_loop fresh fire r' e'
      else Inr (r, e))"
  by pat_completeness auto
termination
proof (relation "inv_image (less_than <*lex*> less_than)
    (\<lambda>(fresh, fire, r, e). (nat (cs_totalLength (pr_incomingData r)), if pr_readHead r then 0 else (1 :: nat)))")
qed (auto simp: ChunkStream_byteLength_def readUInt32BE_def byte_at_def split: option.splits if_splits dest!: ChunkStream_read_consumes)

declare reader_loop.simps [simp del]

definition ProtocolReader_acceptChunk ::
  "(nat \<Rightarrow> byte) \<Rightarrow> int \<Rightarrow> (protocolMessage \<Rightarrow> 'e \<Rightarrow> 'e \<times> bool) \<Rightarrow> bytes option \<Rightarrow> protocolReader \<Rightarrow> 'e \<Rightarrow>
     js_error + protocolReader \<times> 'e" where
  "ProtocolReader_acceptChunk fresh now fire data r e =
     (case data of
        None \<Rightarrow> Inr (r, e)
      | Some d \<Rightarrow>
          if length d = 0 then Inr (r, e)
          else reader_loop fresh fire
                 (r\<lparr>pr_lastReadTime := now, pr_incomingData := ChunkStream_acceptChunk d (pr_incomingData r)\<rparr>) e)"

definition ProtocolReader_readEntireBuffer :: "(nat \<Rightarrow> byte) \<Rightarrow> protocolReader \<Rightarrow> js_error + protocolReader \<times> bytes" where
  "ProtocolReader_readEntireBuffer fresh r =
     bind_result (ChunkStream_read fresh (nat (ChunkStream_byteLength (pr_incomingData r))) (pr_incomingData r))
       (\<lambda>(incoming, buff). Inr (r\<lparr>pr_incomingData := incoming\<rparr>, buff))"

definition ProtocolReader_dispose :: "protocolReader \<Rightarrow> protocolReader" where
  "ProtocolReader_dispose r = r\<lparr>pr_isDisposed := True\<rparr>"

section \<open>The writer\<close>

record protocolWriter =
  pw_isDisposed :: bool
  pw_isPaused :: bool
  pw_data :: "bytes list"
  pw_totalLength :: int
  pw_lastWriteTime :: int
  pw_scheduled :: bool
  pw_sent :: "bytes list"

definition new_ProtocolWriter :: protocolWriter where
  "new_ProtocolWriter =
     \<lparr>pw_isDisposed = False, pw_isPaused = False, pw_data = [], pw_totalLength = 0, pw_lastWriteTime = 0,
      pw_scheduled = False, pw_sent = []\<rparr>"

definition ProtocolWriter_bufferAdd :: "bytes \<Rightarrow> bytes \<Rightarrow> protocolWriter \<Rightarrow> protocolWriter \<times> bool" where
  "ProtocolWriter_bufferAdd head body w =
     (w\<lparr>pw_data := pw_data w @ [head, body], pw_totalLength := pw_totalLength w + int (length head + length body)\<rparr>,
      pw_totalLength w = 0)"

definition ProtocolWriter_bufferTake :: "(nat \<Rightarrow> byte) \<Rightarrow> protocolWriter \<Rightarrow> js_error + protocolWriter \<times> bytes" where
  "ProtocolWriter_bufferTake fresh w =
     bind_result (VSBuffer_concat fresh (pw_data w) (Some (nat (pw_totalLength w))))
       (\<lambda>ret. Inr (w\<lparr>pw_data := [], pw_totalLength := 0\<rparr>, ret))"

definition ProtocolWriter_scheduleWriting :: "protocolWriter \<Rightarrow> protocolWriter" where
  "ProtocolWriter_scheduleWriting w = (if pw_scheduled w then w else w\<lparr>pw_scheduled := True\<rparr>)"

definition ProtocolWriter_writeNow :: "(nat \<Rightarrow> byte) \<Rightarrow> protocolWriter \<Rightarrow> js_error + protocolWriter" where
  "ProtocolWriter_writeNow fresh w =
     (if pw_totalLength w = 0 then Inr w
      else if pw_isPaused w then Inr w
      else bind_result (ProtocolWriter_bufferTake fresh w) (\<lambda>(w, data). Inr (w\<lparr>pw_sent := pw_sent w @ [data]\<rparr>)))"

definition ProtocolWriter_onTimeout :: "(nat \<Rightarrow> byte) \<Rightarrow> protocolWriter \<Rightarrow> js_error + protocolWriter" where
  "ProtocolWriter_onTimeout fresh w = ProtocolWriter_writeNow fresh (w\<lparr>pw_scheduled := False\<rparr>)"

definition ProtocolWriter_writeSoon :: "bytes \<Rightarrow> bytes \<Rightarrow> protocolWriter \<Rightarrow> protocolWriter" where
  "ProtocolWriter_writeSoon header data w =
     (case ProtocolWriter_bufferAdd header data w of
        (w, wasEmpty) \<Rightarrow> if wasEmpty then ProtocolWriter_scheduleWriting w else w)"

definition ProtocolWriter_flush :: "(nat \<Rightarrow> byte) \<Rightarrow> protocolWriter \<Rightarrow> js_error + protocolWriter" where
  "ProtocolWriter_flush fresh w = ProtocolWriter_writeNow fresh w"

text \<open>\<open>drain\<close> returns the promise of the socket, which is left out.\<close>

definition ProtocolWriter_drain :: "(nat \<Rightarrow> byte) \<Rightarrow> protocolWriter \<Rightarrow> js_error + protocolWriter" where
  "ProtocolWriter_drain fresh w = ProtocolWriter_flush fresh w"

definition ProtocolWriter_dispose :: "(nat \<Rightarrow> byte) \<Rightarrow> protocolWriter \<Rightarrow> protocolWriter" where
  "ProtocolWriter_dispose fresh w =
     (case ProtocolWriter_flush fresh w of
        Inl err \<Rightarrow> w\<lparr>pw_isDisposed := True\<rparr>
      | Inr w \<Rightarrow> w\<lparr>pw_isDisposed := True\<rparr>)"

definition ProtocolWriter_pause :: "protocolWriter \<Rightarrow> protocolWriter" where
  "ProtocolWriter_pause w = w\<lparr>pw_isPaused := True\<rparr>"

definition ProtocolWriter_resume :: "protocolWriter \<Rightarrow> protocolWriter" where
  "ProtocolWriter_resume w = ProtocolWriter_scheduleWriting (w\<lparr>pw_isPaused := False\<rparr>)"

definition message_header :: "(nat \<Rightarrow> byte) \<Rightarrow> protocolMessage \<Rightarrow> bytes" where
  "message_header fresh msg =
     (let header = VSBuffer_alloc fresh HeaderLength;
          header = writeUInt8 header (pm_type msg) 0;
          header = writeUInt32BE header (pm_id msg) 1;
          header = writeUInt32BE header (pm_ack msg) 5;
          header = writeUInt32BE header (int (length (pm_data msg))) 9 in header)"

text \<open>\<open>write\<close> stamps the message object, so the stamped message is returned.\<close>

definition ProtocolWriter_write ::
  "(nat \<Rightarrow> byte) \<Rightarrow> int \<Rightarrow> protocolMessage \<Rightarrow> protocolWriter \<Rightarrow> protocolWriter \<times> protocolMessage" where
  "ProtocolWriter_write fresh now msg w =
     (if pw_isDisposed w then (w, msg)
      else (ProtocolWriter_writeSoon (message_header fresh msg) (pm_data msg) (w\<lparr>pw_lastWriteTime := now\<rparr>),
            msg\<lparr>pm_writtenTime := now\<rparr>))"

section \<open>The plain protocol\<close>

text \<open>The listeners of \<open>onMessage\<close> get the buffers in \<open>p_delivered\<close>, in this order.\<close>

record protocol =
  p_writer :: protocolWriter
  p_reader :: protocolReader
  p_delivered :: "bytes list"
  p_didDispose :: nat

definition new_Protocol :: "int \<Rightarrow> protocol" where
  "new_Protocol now = \<lparr>p_writer = new_ProtocolWriter, p_reader = new_ProtocolReader now, p_delivered = [], p_didDispose = 0\<rparr>"

definition Protocol_onReaderMessage :: "protocolMessage \<Rightarrow> bytes list \<Rightarrow> bytes list \<times> bool" where
  "Protocol_onReaderMessage msg delivered =
     (if pm_type msg = MT_Regular then (delivered @ [pm_data msg], False) else (delivered, False))"

definition Protocol_onData :: "(nat \<Rightarrow> byte) \<Rightarrow> int \<Rightarrow> bytes \<Rightarrow> protocol \<Rightarrow> js_error + protocol" where
  "Protocol_onData fresh now data p =
     bind_result (ProtocolReader_acceptChunk fresh now Protocol_onReaderMessage (Some data) (p_reader p) (p_delivered p))
       (\<lambda>(r, d). Inr (p\<lparr>p_reader := r, p_delivered := d\<rparr>))"

definition Protocol_onClose :: "protocol \<Rightarrow> protocol" where
  "Protocol_onClose p = p\<lparr>p_didDispose := p_didDispose p + 1\<rparr>"

definition Protocol_drain :: "(nat \<Rightarrow> byte) \<Rightarrow> protocol \<Rightarrow> js_error + protocol" where
  "Protocol_drain fresh p = bind_result (ProtocolWriter_drain fresh (p_writer p)) (\<lambda>w. Inr (p\<lparr>p_writer := w\<rparr>))"

definition Protocol_sendDisconnect :: "protocol \<Rightarrow> protocol" where
  "Protocol_sendDisconnect p = p"

definition Protocol_send :: "(nat \<Rightarrow> byte) \<Rightarrow> int \<Rightarrow> bytes \<Rightarrow> protocol \<Rightarrow> protocol" where
  "Protocol_send fresh now buffer p =
     p\<lparr>p_writer := fst (ProtocolWriter_write fresh now (new_ProtocolMessage MT_Regular 0 0 buffer) (p_writer p))\<rparr>"

section \<open>The reference parser\<close>

text \<open>
  What the reader computes, without its state: the complete frames at the front of the input and the
  bytes that are left over.
\<close>

definition be32 :: "bytes \<Rightarrow> nat \<Rightarrow> int" where
  "be32 bs i = (case readUInt32BE bs i of Some x \<Rightarrow> x | None \<Rightarrow> 0)"

definition frame_size :: "bytes \<Rightarrow> nat" where
  "frame_size bs = HeaderLength + nat (be32 bs 9)"

definition first_message :: "bytes \<Rightarrow> protocolMessage" where
  "first_message bs =
     new_ProtocolMessage (uint (bs ! 0)) (be32 bs 1) (be32 bs 5) (take (nat (be32 bs 9)) (drop HeaderLength bs))"

function parse_frames :: "bytes \<Rightarrow> protocolMessage list \<times> bytes" where
  "parse_frames bs =
     (if HeaderLength \<le> length bs \<and> frame_size bs \<le> length bs
      then case parse_frames (drop (frame_size bs) bs) of (ms, rest) \<Rightarrow> (first_message bs # ms, rest)
      else ([], bs))"
  by pat_completeness auto
termination
  by (relation "measure length") (auto simp: frame_size_def HeaderLength_def)

declare parse_frames.simps [simp del]

lemma readUInt32BE_prefix [simp]: "i + 4 \<le> length p \<Longrightarrow> readUInt32BE (p @ q) i = readUInt32BE p i"
  by (simp add: readUInt32BE_def byte_at_def nth_append)

lemma readUInt32BE_take [simp]: "i + 4 \<le> n \<Longrightarrow> n \<le> length p \<Longrightarrow> readUInt32BE (take n p) i = readUInt32BE p i"
  by (simp add: readUInt32BE_def byte_at_def)

lemma be32_take [simp]: "i + 4 \<le> n \<Longrightarrow> n \<le> length p \<Longrightarrow> be32 (take n p) i = be32 p i"
  by (simp add: be32_def)

lemma readUInt32BE_in_range: "i + 4 \<le> length p \<Longrightarrow> readUInt32BE p i = Some (be32 p i)"
  by (simp add: be32_def readUInt32BE_def byte_at_def)

lemma frame_prefix:
  assumes "HeaderLength \<le> length p"
  shows "frame_size (p @ q) = frame_size p" "frame_size p \<le> length p \<Longrightarrow> first_message (p @ q) = first_message p"
  using assms by (auto simp: frame_size_def first_message_def be32_def HeaderLength_def nth_append)

lemma parse_frames_step:
  "HeaderLength \<le> length bs \<Longrightarrow> frame_size bs \<le> length bs \<Longrightarrow>
   parse_frames bs = (first_message bs # fst (parse_frames (drop (frame_size bs) bs)), snd (parse_frames (drop (frame_size bs) bs)))"
  by (subst parse_frames.simps) (simp split: prod.split)

lemma parse_frames_stuck:
  "\<not> (HeaderLength \<le> length bs \<and> frame_size bs \<le> length bs) \<Longrightarrow> parse_frames bs = ([], bs)"
  by (subst parse_frames.simps) auto

lemma parse_frames_settled: "parse_frames (snd (parse_frames p)) = ([], snd (parse_frames p))"
proof (induction p rule: parse_frames.induct)
  case (1 bs)
  then show ?case
    by (cases "HeaderLength \<le> length bs \<and> frame_size bs \<le> length bs") (auto simp: parse_frames_step parse_frames_stuck)
qed

text \<open>The frames do not depend on where the input is cut.\<close>

lemma parse_frames_append:
  "parse_frames (p @ q) =
     (fst (parse_frames p) @ fst (parse_frames (snd (parse_frames p) @ q)), snd (parse_frames (snd (parse_frames p) @ q)))"
proof (induction p rule: parse_frames.induct)
  case (1 p)
  show ?case
  proof (cases "HeaderLength \<le> length p \<and> frame_size p \<le> length p")
    case True
    then have "parse_frames (p @ q) = (first_message p # fst (parse_frames (drop (frame_size p) p @ q)), snd (parse_frames (drop (frame_size p) p @ q)))"
      using parse_frames_step [of "p @ q"] by (simp add: frame_prefix)
    with True show ?thesis
      using 1 [OF True] by (simp add: parse_frames_step)
  next
    case False
    then show ?thesis
      by (simp add: parse_frames_stuck)
  qed
qed

section \<open>The reader implements the parser\<close>

definition reader_at :: "protocolReader \<Rightarrow> bytes \<Rightarrow> bool" where
  "reader_at r p \<longleftrightarrow>
     cs_inv (pr_incomingData r) \<and> \<not> pr_isDisposed r \<and>
     (if pr_readHead r then pr_readLen r = HeaderLength \<and> cs_bytes (pr_incomingData r) = p
      else HeaderLength \<le> length p \<and> cs_bytes (pr_incomingData r) = drop HeaderLength p \<and> pr_readLen r = nat (be32 p 9) \<and>
           pr_messageType r = uint (p ! 0) \<and> pr_id r = be32 p 1 \<and> pr_ack r = be32 p 5)"

abbreviation fire_all :: "(protocolMessage \<Rightarrow> 'e \<Rightarrow> 'e \<times> bool) \<Rightarrow> protocolMessage list \<Rightarrow> 'e \<Rightarrow> 'e" where
  "fire_all fire ms e \<equiv> fold (\<lambda>m e. fst (fire m e)) ms e"

lemma reader_loop_parses:
  assumes "reader_at r p" "\<And>m e. \<not> snd (fire m e)"
  shows "\<exists>r'. reader_loop fresh fire r e = Inr (r', fire_all fire (fst (parse_frames p)) e) \<and>
           reader_at r' (snd (parse_frames p)) \<and> pr_lastReadTime r' = pr_lastReadTime r"
  using assms(1)
proof (induction "(length p, if pr_readHead r then 1 else (0 :: nat))" arbitrary: p r e
    rule: wf_induct_rule [OF wf_lex_prod [OF wf_less_than wf_less_than]])
  case (1 p r e)
  note IH = 1(1) [rule_format]
  have inv: "cs_inv (pr_incomingData r)" and live: "\<not> pr_isDisposed r"
    using 1(2) by (auto simp: reader_at_def)
  have avail: "ChunkStream_byteLength (pr_incomingData r) = int (length (cs_bytes (pr_incomingData r)))"
    using inv by (rule chunks.available)
  show ?case
  proof (cases "pr_readHead r")
    case head: True
    then have r: "pr_readLen r = HeaderLength" "cs_bytes (pr_incomingData r) = p"
      using 1(2) by (auto simp: reader_at_def)
    show ?thesis
    proof (cases "HeaderLength \<le> length p")
      case False
      then have "parse_frames p = ([], p)" "reader_loop fresh fire r e = Inr (r, e)"
        using r avail by (simp_all add: parse_frames_stuck reader_loop.simps [of fresh fire r])
      then show ?thesis
        using 1(2) by simp
    next
      case True
      then obtain inc where inc: "ChunkStream_read fresh HeaderLength (pr_incomingData r) = Inr (inc, take HeaderLength p)"
          "cs_inv inc" "cs_bytes inc = drop HeaderLength p"
        using chunks.read_obtain [OF inv, of HeaderLength fresh] r by metis
      let ?r = "r\<lparr>pr_incomingData := inc, pr_readHead := False, pr_readLen := nat (be32 p 9),
          pr_messageType := uint (p ! 0), pr_id := be32 p 1, pr_ack := be32 p 5\<rparr>"
      have "readUInt32BE (take HeaderLength p) 9 = Some (be32 p 9)" "readUInt32BE (take HeaderLength p) 1 = Some (be32 p 1)"
        "readUInt32BE (take HeaderLength p) 5 = Some (be32 p 5)" "readUInt8 (take HeaderLength p) 0 = Some (uint (p ! 0))"
        using True by (simp_all add: HeaderLength_def readUInt32BE_in_range readUInt8_def byte_at_def)
      then have "reader_loop fresh fire r e = reader_loop fresh fire ?r e"
        using True inc(1) head r avail by (subst reader_loop.simps) simp
      moreover have "reader_at ?r p"
        using True inc live by (simp add: reader_at_def)
      then have "\<exists>r'. reader_loop fresh fire ?r e = Inr (r', fire_all fire (fst (parse_frames p)) e) \<and>
           reader_at r' (snd (parse_frames p)) \<and> pr_lastReadTime r' = pr_lastReadTime ?r"
        by (intro IH) (use head in simp_all)
      ultimately show ?thesis
        by simp
    qed
  next
    case body: False
    then have r: "HeaderLength \<le> length p" "cs_bytes (pr_incomingData r) = drop HeaderLength p" "pr_readLen r = nat (be32 p 9)"
        "new_ProtocolMessage (pr_messageType r) (pr_id r) (pr_ack r) (take (nat (be32 p 9)) (drop HeaderLength p)) = first_message p"
      using 1(2) by (auto simp: reader_at_def first_message_def)
    show ?thesis
    proof (cases "frame_size p \<le> length p")
      case False
      then have "\<not> int (pr_readLen r) \<le> ChunkStream_byteLength (pr_incomingData r)"
        unfolding avail of_nat_le_iff using r by (simp add: frame_size_def)
      then have "reader_loop fresh fire r e = Inr (r, e)"
        by (simp add: reader_loop.simps [of fresh fire r])
      moreover have "parse_frames p = ([], p)"
        using False by (simp add: parse_frames_stuck)
      ultimately show ?thesis
        using 1(2) by simp
    next
      case True
      let ?q = "drop (frame_size p) p"
      have fit: "pr_readLen r \<le> length (cs_bytes (pr_incomingData r))"
        using True r by (auto simp: frame_size_def)
      obtain inc where inc: "ChunkStream_read fresh (pr_readLen r) (pr_incomingData r) = Inr (inc, take (pr_readLen r) (cs_bytes (pr_incomingData r)))"
          "cs_inv inc" "cs_bytes inc = drop (pr_readLen r) (cs_bytes (pr_incomingData r))"
        by (rule chunks.read_obtain [OF inv fit])
      let ?r = "r\<lparr>pr_incomingData := inc, pr_readHead := True, pr_readLen := HeaderLength,
                         pr_messageType := MT_None, pr_id := 0, pr_ack := 0\<rparr>"
      let ?e = "fst (fire (first_message p) e)"
      have g: "int (pr_readLen r) \<le> ChunkStream_byteLength (pr_incomingData r)"
        unfolding avail of_nat_le_iff by (rule fit)
      have buff: "new_ProtocolMessage (pr_messageType r) (pr_id r) (pr_ack r) (take (pr_readLen r) (cs_bytes (pr_incomingData r))) =
          first_message p"
        using r by simp
      obtain e' where "fire (first_message p) e = (e', False)"
        using assms(2) [of "first_message p" e] by (cases "fire (first_message p) e") auto
      then have "reader_loop fresh fire r e = reader_loop fresh fire ?r ?e"
        using inc(1) body live g by (subst reader_loop.simps) (simp add: Let_def buff)
      moreover have "reader_at ?r ?q"
        using inc r live by (simp add: reader_at_def frame_size_def add.commute)
      then have "\<exists>r'. reader_loop fresh fire ?r ?e = Inr (r', fire_all fire (fst (parse_frames ?q)) ?e) \<and>
           reader_at r' (snd (parse_frames ?q)) \<and> pr_lastReadTime r' = pr_lastReadTime ?r"
        by (intro IH) (use True r in \<open>simp_all add: frame_size_def HeaderLength_def\<close>)
      moreover have "parse_frames p = (first_message p # fst (parse_frames ?q), snd (parse_frames ?q))"
        using True r by (simp add: parse_frames_step)
      ultimately show ?thesis
        by simp
    qed
  qed
qed

definition settled :: "protocolReader \<Rightarrow> bytes \<Rightarrow> bool" where
  "settled r p \<longleftrightarrow> reader_at r p \<and> parse_frames p = ([], p)"

lemma settled_new: "settled (new_ProtocolReader now) []"
  by (simp add: settled_def reader_at_def new_ProtocolReader_def cs_inv_new parse_frames_stuck HeaderLength_def)

lemma acceptChunk_parses:
  assumes "settled r p" "\<And>m e. \<not> snd (fire m e)"
  shows "\<exists>r'. ProtocolReader_acceptChunk fresh now fire (Some d) r e = Inr (r', fire_all fire (fst (parse_frames (p @ d))) e) \<and>
           settled r' (snd (parse_frames (p @ d))) \<and> (d \<noteq> [] \<longrightarrow> pr_lastReadTime r' = now)"
proof (cases "d = []")
  case True
  with assms(1) show ?thesis
    by (auto simp: ProtocolReader_acceptChunk_def settled_def)
next
  case False
  let ?r = "r\<lparr>pr_lastReadTime := now, pr_incomingData := ChunkStream_acceptChunk d (pr_incomingData r)\<rparr>"
  have r: "reader_at r p"
    using assms(1) by (simp add: settled_def)
  then have "cs_inv (pr_incomingData r)"
    by (simp add: reader_at_def)
  then have "reader_at ?r (p @ d)"
    using r by (auto simp: reader_at_def chunks.inv_accept chunks.contents_accept be32_def HeaderLength_def nth_append)
  with False show ?thesis
    using reader_loop_parses [where fire = fire and fresh = fresh and e = e, OF _ assms(2)] parse_frames_settled [of "p @ d"]
    by (fastforce simp: ProtocolReader_acceptChunk_def settled_def)
qed

text \<open>All chunks of a connection, one after the other.\<close>

fun feed :: "(nat \<Rightarrow> byte) \<Rightarrow> int \<Rightarrow> (protocolMessage \<Rightarrow> 'e \<Rightarrow> 'e \<times> bool) \<Rightarrow> bytes list \<Rightarrow> protocolReader \<Rightarrow> 'e \<Rightarrow>
    js_error + protocolReader \<times> 'e" where
  "feed fresh now fire [] r e = Inr (r, e)"
| "feed fresh now fire (d # ds) r e =
     bind_result (ProtocolReader_acceptChunk fresh now fire (Some d) r e) (\<lambda>(r, e). feed fresh now fire ds r e)"

lemma feed_parses:
  assumes "settled r p" "\<And>m e. \<not> snd (fire m e)"
  shows "\<exists>r'. feed fresh now fire ds r e = Inr (r', fire_all fire (fst (parse_frames (p @ concat ds))) e) \<and>
           settled r' (snd (parse_frames (p @ concat ds)))"
  using assms(1)
proof (induction ds arbitrary: r p e)
  case Nil
  then show ?case
    by (simp add: settled_def)
next
  case (Cons d ds)
  obtain r1 where r1: "ProtocolReader_acceptChunk fresh now fire (Some d) r e = Inr (r1, fire_all fire (fst (parse_frames (p @ d))) e)"
      "settled r1 (snd (parse_frames (p @ d)))"
    using acceptChunk_parses [where fire = fire and fresh = fresh and now = now and d = d and e = e, OF Cons.prems assms(2)]
    by (elim exE conjE) (rule that)
  obtain r' where "feed fresh now fire ds r1 (fire_all fire (fst (parse_frames (p @ d))) e) =
      Inr (r', fire_all fire (fst (parse_frames (snd (parse_frames (p @ d)) @ concat ds))) (fire_all fire (fst (parse_frames (p @ d))) e))"
    "settled r' (snd (parse_frames (snd (parse_frames (p @ d)) @ concat ds)))"
    using Cons.IH [OF r1(2), of "fire_all fire (fst (parse_frames (p @ d))) e"] by (elim exE conjE) (rule that)
  then show ?case
    unfolding concat.simps append_assoc [symmetric] parse_frames_append [of "p @ d" "concat ds"] by (simp add: r1(1))
qed

section \<open>Frames\<close>

definition wire_ok :: "protocolMessage \<Rightarrow> bool" where
  "wire_ok m \<longleftrightarrow> 0 \<le> pm_type m \<and> pm_type m < 256 \<and> 0 \<le> pm_id m \<and> pm_id m < 2 ^ 32 \<and> 0 \<le> pm_ack m \<and> pm_ack m < 2 ^ 32 \<and>
     int (length (pm_data m)) < 2 ^ 32"

definition frame :: "(nat \<Rightarrow> byte) \<Rightarrow> protocolMessage \<Rightarrow> bytes" where
  "frame fresh m = message_header fresh m @ pm_data m"

text \<open>The time stamp does not travel.\<close>

definition on_wire :: "protocolMessage \<Rightarrow> protocolMessage" where
  "on_wire m = m\<lparr>pm_writtenTime := 0\<rparr>"

lemma writeUInt32BE_other:
  "i < j \<or> j + 4 \<le> i \<Longrightarrow> byte_at (writeUInt32BE dest v j) i = byte_at dest i"
  by (auto simp: writeUInt32BE_def Let_def)

lemma readUInt32BE_other:
  "i + 4 \<le> j \<or> j + 4 \<le> i \<Longrightarrow> readUInt32BE (writeUInt32BE dest v j) i = readUInt32BE dest i"
  unfolding readUInt32BE_def by (subst (1 2 3 4) writeUInt32BE_other; auto)

lemma header_fields:
  assumes "wire_ok m"
  shows "length (message_header fresh m) = HeaderLength" "readUInt32BE (message_header fresh m) 1 = Some (pm_id m)"
    "readUInt32BE (message_header fresh m) 5 = Some (pm_ack m)"
    "readUInt32BE (message_header fresh m) 9 = Some (int (length (pm_data m)))"
    "byte_at (message_header fresh m) 0 = Some (pm_type m)"
  using assms
  by (simp_all add: message_header_def Let_def HeaderLength_def writeUInt32BE_other readUInt32BE_other UInt32BE_roundtrip wire_ok_def u32_def
      writeUInt8_def)

lemma parse_frame:
  assumes "wire_ok m"
  shows "parse_frames (frame fresh m @ rest) = (on_wire m # fst (parse_frames rest), snd (parse_frames rest))"
proof -
  let ?b = "frame fresh m @ rest"
  note h = header_fields [OF assms, of fresh]
  have b: "be32 ?b 1 = pm_id m" "be32 ?b 5 = pm_ack m" "be32 ?b 9 = int (length (pm_data m))" "uint (?b ! 0) = pm_type m"
    using h by (simp_all add: be32_def frame_def HeaderLength_def byte_at_def nth_append split: if_splits)
  then have "frame_size ?b = HeaderLength + length (pm_data m)" "first_message ?b = on_wire m"
    using h(1) by (simp_all add: frame_size_def first_message_def new_ProtocolMessage_def on_wire_def frame_def)
  then show ?thesis
    using h(1) by (subst parse_frames_step) (simp_all add: frame_def)
qed

lemma parse_frames_all:
  assumes "\<forall>m \<in> set ms. wire_ok m"
  shows "parse_frames (concat (map (frame fresh) ms) @ rest) = (map on_wire ms @ fst (parse_frames rest), snd (parse_frames rest))"
  using assms by (induction ms) (simp_all add: parse_frame)

text \<open>Any prefix of a stream of frames consists of some of the frames and an incomplete one.\<close>

lemma parse_frames_incomplete:
  assumes "wire_ok m" "frame fresh m = q @ rest" "rest \<noteq> []"
  shows "parse_frames q = ([], q)"
proof (rule parse_frames_stuck, rule notI)
  assume q: "HeaderLength \<le> length q \<and> frame_size q \<le> length q"
  then have "frame_size q = frame_size (frame fresh m)"
    using assms(2) frame_prefix(1) [of q rest] by simp
  also have "frame_size (frame fresh m) = length (frame fresh m)"
    using header_fields [OF assms(1), of fresh] by (simp add: frame_size_def frame_def be32_def HeaderLength_def)
  finally show False
    using q assms(2,3) by simp
qed

lemma parse_frames_prefix:
  assumes "\<forall>m \<in> set ms. wire_ok m" "concat (map (frame fresh) ms) = p @ rest"
  shows "\<exists>k \<le> length ms. fst (parse_frames p) = map on_wire (take k ms) \<and>
           (rest = [] \<longrightarrow> k = length ms \<and> snd (parse_frames p) = [])"
  using assms
proof (induction ms arbitrary: p)
  case Nil
  then show ?case
    by (simp add: parse_frames_stuck HeaderLength_def)
next
  case (Cons m ms)
  have m: "wire_ok m" and eq: "frame fresh m @ concat (map (frame fresh) ms) = p @ rest"
    using Cons.prems by simp_all
  show ?case
  proof (cases "length p < length (frame fresh m)")
    case True
    then obtain us where us: "frame fresh m = p @ us" "us \<noteq> []"
      using eq by (metis append_eq_append_conv_if append_take_drop_id drop_eq_Nil leD less_imp_le_nat)
    then have "parse_frames p = ([], p)"
      by (rule parse_frames_incomplete [OF m])
    moreover have "rest \<noteq> []"
      using True eq by auto
    ultimately show ?thesis
      by auto
  next
    case False
    then obtain p' where p': "p = frame fresh m @ p'" "concat (map (frame fresh) ms) = p' @ rest"
      using eq by (auto simp: append_eq_append_conv2)
    then obtain k where "k \<le> length ms" "fst (parse_frames p') = map on_wire (take k ms)"
        "rest = [] \<longrightarrow> k = length ms \<and> snd (parse_frames p') = []"
      using Cons.IH [of p'] Cons.prems(1) by auto
    then show ?thesis
      using parse_frame [OF m, of fresh p'] p'(1) by (intro exI [of _ "Suc k"]) auto
  qed
qed

section \<open>What the writer sends\<close>

definition writer_out :: "protocolWriter \<Rightarrow> bytes" where
  "writer_out w = concat (pw_sent w) @ concat (pw_data w)"

text \<open>The length counter is right, and buffered data has a timeout scheduled unless writing is paused.\<close>

definition writer_inv :: "protocolWriter \<Rightarrow> bool" where
  "writer_inv w \<longleftrightarrow> pw_totalLength w = int (length (concat (pw_data w))) \<and>
     (pw_totalLength w > 0 \<and> \<not> pw_isPaused w \<longrightarrow> pw_scheduled w)"

lemma message_header_length [simp]: "length (message_header fresh m) = HeaderLength"
  by (simp add: message_header_def Let_def)

lemma writer_inv_new: "writer_inv new_ProtocolWriter" "writer_out new_ProtocolWriter = []"
  by (simp_all add: writer_inv_def writer_out_def new_ProtocolWriter_def)

lemma writeNow_spec:
  assumes "pw_totalLength w = int (length (concat (pw_data w)))"
  shows "ProtocolWriter_writeNow fresh w =
           Inr (if concat (pw_data w) = [] \<or> pw_isPaused w then w
                else w\<lparr>pw_data := [], pw_totalLength := 0, pw_sent := pw_sent w @ [concat (pw_data w)]\<rparr>)"
proof -
  have "nat (pw_totalLength w) = sum_list (map length (pw_data w))"
    using assms by (simp add: length_concat)
  then show ?thesis
    using assms by (auto simp: ProtocolWriter_writeNow_def ProtocolWriter_bufferTake_def)
qed

lemma writeNow_keeps:
  assumes "pw_totalLength w = int (length (concat (pw_data w)))"
  shows "\<exists>w'. ProtocolWriter_writeNow fresh w = Inr w' \<and> pw_totalLength w' = int (length (concat (pw_data w'))) \<and>
           writer_out w' = writer_out w \<and> (\<not> pw_isPaused w \<longrightarrow> writer_out w' = concat (pw_sent w')) \<and>
           (pw_totalLength w' = 0 \<or> w' = w) \<and> (\<not> pw_isPaused w \<longrightarrow> pw_totalLength w' = 0) \<and>
           pw_isDisposed w' = pw_isDisposed w \<and> pw_isPaused w' = pw_isPaused w"
  using assms by (simp add: writeNow_spec writer_out_def)

lemma writer_flush:
  assumes "writer_inv w"
  shows "\<exists>w'. ProtocolWriter_flush fresh w = Inr w' \<and> writer_inv w' \<and> writer_out w' = writer_out w \<and>
    (\<not> pw_isPaused w \<longrightarrow> writer_out w' = concat (pw_sent w')) \<and> pw_isDisposed w' = pw_isDisposed w \<and> pw_isPaused w' = pw_isPaused w"
  using writeNow_keeps [of w fresh] assms unfolding ProtocolWriter_flush_def writer_inv_def by fastforce

lemma writer_timeout:
  assumes "writer_inv w"
  shows "\<exists>w'. ProtocolWriter_onTimeout fresh w = Inr w' \<and> writer_inv w' \<and> writer_out w' = writer_out w \<and>
    (\<not> pw_isPaused w \<longrightarrow> writer_out w' = concat (pw_sent w')) \<and> pw_isDisposed w' = pw_isDisposed w \<and> pw_isPaused w' = pw_isPaused w"
  using writeNow_keeps [of "w\<lparr>pw_scheduled := False\<rparr>" fresh] assms
  unfolding ProtocolWriter_onTimeout_def writer_inv_def by (auto simp: writer_out_def)

lemma writer_write:
  assumes "writer_inv w" "\<not> pw_isDisposed w"
  shows "writer_inv (fst (ProtocolWriter_write fresh now m w))"
    "writer_out (fst (ProtocolWriter_write fresh now m w)) = writer_out w @ frame fresh m"
    "pw_isDisposed (fst (ProtocolWriter_write fresh now m w)) = pw_isDisposed w"
    "pw_isPaused (fst (ProtocolWriter_write fresh now m w)) = pw_isPaused w"
    "pw_sent (fst (ProtocolWriter_write fresh now m w)) = pw_sent w"
    "snd (ProtocolWriter_write fresh now m w) = m\<lparr>pm_writtenTime := now\<rparr>"
  using assms
  by (auto simp: ProtocolWriter_write_def ProtocolWriter_writeSoon_def ProtocolWriter_bufferAdd_def
      ProtocolWriter_scheduleWriting_def writer_inv_def writer_out_def frame_def HeaderLength_def)

lemma writer_pause: "writer_inv w \<Longrightarrow> writer_inv (ProtocolWriter_pause w)" "writer_out (ProtocolWriter_pause w) = writer_out w"
  by (simp_all add: writer_inv_def writer_out_def ProtocolWriter_pause_def)

lemma writer_resume: "writer_inv w \<Longrightarrow> writer_inv (ProtocolWriter_resume w)" "writer_out (ProtocolWriter_resume w) = writer_out w"
  by (simp_all add: writer_inv_def writer_out_def ProtocolWriter_resume_def ProtocolWriter_scheduleWriting_def)

lemma writer_flags:
  "pw_isDisposed (ProtocolWriter_pause w) = pw_isDisposed w" "pw_isDisposed (ProtocolWriter_resume w) = pw_isDisposed w"
  "pw_sent (ProtocolWriter_pause w) = pw_sent w" "pw_sent (ProtocolWriter_resume w) = pw_sent w"
  by (simp_all add: ProtocolWriter_pause_def ProtocolWriter_resume_def ProtocolWriter_scheduleWriting_def)

section \<open>Runs of the writer\<close>

datatype writer_op = WWrite int protocolMessage | WFlush | WTimeout | WPause | WResume

fun run_writer :: "(nat \<Rightarrow> byte) \<Rightarrow> writer_op list \<Rightarrow> protocolWriter \<Rightarrow> js_error + protocolWriter" where
  "run_writer fresh [] w = Inr w"
| "run_writer fresh (WWrite now m # ops) w = run_writer fresh ops (fst (ProtocolWriter_write fresh now m w))"
| "run_writer fresh (WFlush # ops) w = bind_result (ProtocolWriter_flush fresh w) (run_writer fresh ops)"
| "run_writer fresh (WTimeout # ops) w = bind_result (ProtocolWriter_onTimeout fresh w) (run_writer fresh ops)"
| "run_writer fresh (WPause # ops) w = run_writer fresh ops (ProtocolWriter_pause w)"
| "run_writer fresh (WResume # ops) w = run_writer fresh ops (ProtocolWriter_resume w)"

fun written :: "writer_op list \<Rightarrow> protocolMessage list" where
  "written [] = []"
| "written (WWrite now m # ops) = m # written ops"
| "written (_ # ops) = written ops"

lemma run_writer_spec:
  assumes "writer_inv w" "\<not> pw_isDisposed w"
  shows "\<exists>w'. run_writer fresh ops w = Inr w' \<and> writer_inv w' \<and> \<not> pw_isDisposed w' \<and>
           writer_out w' = writer_out w @ concat (map (frame fresh) (written ops))"
  using assms
proof (induction ops arbitrary: w)
  case (Cons oper ops)
  note IH = Cons.IH and prems = Cons.prems
  show ?case
  proof (cases oper)
    case (WWrite now m)
    with IH [OF writer_write(1) [OF prems, of fresh now m]] writer_write [OF prems, of fresh now m] prems(2) show ?thesis
      by auto
  next
    case WFlush
    obtain w' where "ProtocolWriter_flush fresh w = Inr w'" "writer_inv w'" "writer_out w' = writer_out w" "pw_isDisposed w' = pw_isDisposed w"
      using writer_flush [OF prems(1)] by blast
    with WFlush IH [of w'] prems(2) show ?thesis
      by simp
  next
    case WTimeout
    obtain w' where "ProtocolWriter_onTimeout fresh w = Inr w'" "writer_inv w'" "writer_out w' = writer_out w" "pw_isDisposed w' = pw_isDisposed w"
      using writer_timeout [OF prems(1)] by blast
    with WTimeout IH [of w'] prems(2) show ?thesis
      by simp
  next
    case WPause
    with IH [OF writer_pause(1) [OF prems(1)]] prems(2) show ?thesis
      by (simp add: writer_flags writer_pause)
  next
    case WResume
    with IH [OF writer_resume(1) [OF prems(1)]] prems(2) show ?thesis
      by (simp add: writer_flags writer_resume)
  qed
qed simp

section \<open>Both ends of the plain protocol\<close>

fun Protocol_onDatas :: "(nat \<Rightarrow> byte) \<Rightarrow> int \<Rightarrow> bytes list \<Rightarrow> protocol \<Rightarrow> js_error + protocol" where
  "Protocol_onDatas fresh now [] p = Inr p"
| "Protocol_onDatas fresh now (d # ds) p = bind_result (Protocol_onData fresh now d p) (Protocol_onDatas fresh now ds)"

lemma Protocol_onDatas_feed:
  "Protocol_onDatas fresh now ds p =
     bind_result (feed fresh now Protocol_onReaderMessage ds (p_reader p) (p_delivered p))
       (\<lambda>(r, d). Inr (p\<lparr>p_reader := r, p_delivered := d\<rparr>))"
proof (induction ds arbitrary: p)
  case (Cons d ds)
  then show ?case
    by (cases "ProtocolReader_acceptChunk fresh now Protocol_onReaderMessage (Some d) (p_reader p) (p_delivered p)")
      (auto simp: Protocol_onData_def)
qed simp

lemma fire_regular:
  "(\<And>m. m \<in> set ms \<Longrightarrow> pm_type m = MT_Regular) \<Longrightarrow> fire_all Protocol_onReaderMessage ms ds = ds @ map pm_data ms"
  by (induction ms arbitrary: ds) (simp_all add: Protocol_onReaderMessage_def)

lemma Protocol_sends:
  "p_writer (fold (Protocol_send fresh now) bufs p) =
     fold (\<lambda>m w. fst (ProtocolWriter_write fresh now m w)) (map (new_ProtocolMessage MT_Regular 0 0) bufs) (p_writer p)"
  by (induction bufs arbitrary: p) (simp_all add: Protocol_send_def)

lemma writes_out:
  assumes "writer_inv w" "\<not> pw_isDisposed w" "\<not> pw_isPaused w"
  defines "w' \<equiv> \<lambda>fresh now ms. fold (\<lambda>m w. fst (ProtocolWriter_write fresh now m w)) ms w"
  shows "writer_inv (w' fresh now ms)" "writer_out (w' fresh now ms) = writer_out w @ concat (map (frame fresh) ms)"
    "\<not> pw_isPaused (w' fresh now ms)"
proof -
  have "writer_inv (w' fresh now ms) \<and> writer_out (w' fresh now ms) = writer_out w @ concat (map (frame fresh) ms) \<and>
      \<not> pw_isPaused (w' fresh now ms)"
    unfolding w'_def using assms(1-3)
    by (induction ms arbitrary: w) (simp_all add: writer_write)
  then show "writer_inv (w' fresh now ms)" "writer_out (w' fresh now ms) = writer_out w @ concat (map (frame fresh) ms)"
    "\<not> pw_isPaused (w' fresh now ms)"
    by blast+
qed

section \<open>Properties\<close>

abbreviation log_message :: "protocolMessage \<Rightarrow> protocolMessage list \<Rightarrow> protocolMessage list \<times> bool" where
  "log_message m ms \<equiv> (ms @ [m], False)"

lemma fold_snoc [simp]: "fold (\<lambda>m e. e @ [m]) ms es = es @ ms"
  by (induction ms arbitrary: es) simp_all

text \<open>
  C32. The writer sends every message once and in order: whatever writes, flushes, timeouts, pauses and
  resumes happen, it never throws, and what it has sent followed by what it holds is the frames of the
  messages in the order of the writes.  It does not stall: while it holds data and is not paused a
  timeout is pending, and when the timeout fires everything has been sent.
\<close>

theorem ProtocolWriter_sends_in_order:
  "\<exists>w. run_writer fresh ops new_ProtocolWriter = Inr w \<and>
       concat (pw_sent w) @ concat (pw_data w) = concat (map (frame fresh) (written ops)) \<and>
       (concat (pw_data w) \<noteq> [] \<and> \<not> pw_isPaused w \<longrightarrow>
          pw_scheduled w \<and> (\<exists>w'. ProtocolWriter_onTimeout fresh w = Inr w' \<and> concat (pw_sent w') = concat (map (frame fresh) (written ops))))"
proof -
  obtain w where w: "run_writer fresh ops new_ProtocolWriter = Inr w" "writer_inv w"
      "writer_out w = concat (map (frame fresh) (written ops))"
    using run_writer_spec [OF writer_inv_new(1), of fresh ops] writer_inv_new(2) by (auto simp: new_ProtocolWriter_def)
  obtain w' where "ProtocolWriter_onTimeout fresh w = Inr w'" "writer_out w' = writer_out w"
      "\<not> pw_isPaused w \<Longrightarrow> writer_out w' = concat (pw_sent w')"
    using writer_timeout [OF w(2)] by blast
  with w show ?thesis
    by (intro exI [of _ w]) (auto simp: writer_inv_def writer_out_def)
qed

theorem ProtocolWriter_sends_in_order_witness:
  "\<exists>w. run_writer (\<lambda>_. 0) [WPause, WWrite 5 (new_ProtocolMessage MT_Ack 0 3 []), WTimeout, WResume] new_ProtocolWriter = Inr w \<and>
       concat (pw_sent w) @ concat (pw_data w) = [3, 0, 0, 0, 0, 0, 0, 0, 3, 0, 0, 0, 0]"
proof -
  have "frame (\<lambda>_. 0) (new_ProtocolMessage MT_Ack 0 3 []) = [3, 0, 0, 0, 0, 0, 0, 0, 3, 0, 0, 0, 0]"
    by code_simp
  then show ?thesis
    using ProtocolWriter_sends_in_order [of "\<lambda>_. 0" "[WPause, WWrite 5 (new_ProtocolMessage MT_Ack 0 3 []), WTimeout, WResume]"]
    by auto
qed

text \<open>
  C31. Framing round trip: when the bytes a writer has sent reach a reader in chunks of any size, the
  reader never throws and reports exactly a prefix of the messages written, in order and with their
  type, ids and data, and all of them when nothing is left in the buffer of the writer.
\<close>

theorem ipc_framing_roundtrip:
  assumes "\<forall>m \<in> set (written ops). wire_ok m"
    and "run_writer fresh ops new_ProtocolWriter = Inr w" "concat cs = concat (pw_sent w)"
  shows "\<exists>r k. feed fresh' now log_message cs (new_ProtocolReader t) [] = Inr (r, map on_wire (take k (written ops))) \<and>
           k \<le> length (written ops) \<and> (concat (pw_data w) = [] \<longrightarrow> k = length (written ops))"
proof -
  have out: "concat (map (frame fresh) (written ops)) = concat cs @ concat (pw_data w)"
    using run_writer_spec [OF writer_inv_new(1), of fresh ops] writer_inv_new(2) assms(2,3)
    by (auto simp: new_ProtocolWriter_def writer_out_def)
  obtain r where "feed fresh' now log_message cs (new_ProtocolReader t) [] = Inr (r, fst (parse_frames (concat cs)))"
    using feed_parses [OF settled_new, of log_message fresh' now cs t "[]"] by auto
  moreover obtain k where "k \<le> length (written ops)" "fst (parse_frames (concat cs)) = map on_wire (take k (written ops))"
      "concat (pw_data w) = [] \<longrightarrow> k = length (written ops)"
    using parse_frames_prefix [OF assms(1) out] by auto
  ultimately show ?thesis
    by auto
qed

theorem ipc_framing_roundtrip_witness:
  "\<exists>r. feed (\<lambda>_. 7) 0 log_message [[1, 0, 0, 0, 1], [0, 0, 0, 0, 0, 0, 0, 2, 8], [9]] (new_ProtocolReader 0) [] =
     Inr (r, [new_ProtocolMessage MT_Regular 1 0 [8, 9]])"
proof -
  let ?m = "new_ProtocolMessage MT_Regular 1 0 [8, 9]"
  let ?ops = "[WWrite 0 ?m, WFlush]"
  let ?w = "\<lparr>pw_isDisposed = False, pw_isPaused = False, pw_data = [], pw_totalLength = 0, pw_lastWriteTime = 0,
           pw_scheduled = True, pw_sent = [[1, 0, 0, 0, 1, 0, 0, 0, 0, 0, 0, 0, 2, 8, 9]]\<rparr>"
  have run: "run_writer (\<lambda>_. 0) ?ops new_ProtocolWriter = Inr ?w"
    by code_simp
  have m: "wire_ok ?m" "on_wire ?m = ?m"
    by (simp_all add: wire_ok_def on_wire_def new_ProtocolMessage_def MT_defs)
  then have ok: "\<forall>m \<in> set (written ?ops). wire_ok m"
    by simp
  have "concat [[1, 0, 0, 0, 1], [0, 0, 0, 0, 0, 0, 0, 2, 8], [9]] = concat (pw_sent ?w)"
    by simp
  from ipc_framing_roundtrip [OF ok run this, of "\<lambda>_. 7" 0 0] m(2) show ?thesis
    by (auto simp del: feed.simps)
qed


text \<open>
  \<open>Protocol\<close> end to end: what one side sends and drains arrives at the listeners of the other side,
  every buffer once and in order, whatever chunks the socket delivers.
\<close>

theorem Protocol_delivers:
  assumes "\<forall>b \<in> set bufs. int (length b) < 2 ^ 32"
  shows "\<exists>p. Protocol_drain fresh (fold (Protocol_send fresh now) bufs (new_Protocol t)) = Inr p \<and>
           (\<forall>cs. concat cs = concat (pw_sent (p_writer p)) \<longrightarrow>
              (\<exists>q. Protocol_onDatas fresh' now' cs (new_Protocol t') = Inr q \<and> p_delivered q = bufs))"
proof -
  let ?ms = "map (new_ProtocolMessage MT_Regular 0 0) bufs"
  let ?p = "fold (Protocol_send fresh now) bufs (new_Protocol t)"
  have w: "writer_inv (p_writer ?p)" "writer_out (p_writer ?p) = concat (map (frame fresh) ?ms)" "\<not> pw_isPaused (p_writer ?p)"
    using writes_out [of new_ProtocolWriter fresh now ?ms] writer_inv_new
    by (simp_all add: Protocol_sends new_Protocol_def) (simp_all add: new_ProtocolWriter_def)
  obtain w' where w': "ProtocolWriter_flush fresh (p_writer ?p) = Inr w'" "concat (pw_sent w') = concat (map (frame fresh) ?ms)"
    using writer_flush [OF w(1), of fresh] w(2,3) by auto
  have ok: "\<forall>m \<in> set ?ms. wire_ok m"
    using assms by (auto simp: wire_ok_def new_ProtocolMessage_def MT_defs)
  have "\<exists>q. Protocol_onDatas fresh' now' cs (new_Protocol t') = Inr q \<and> p_delivered q = bufs"
    if cs: "concat cs = concat (map (frame fresh) ?ms)" for cs
  proof -
    have parse: "fst (parse_frames (concat cs)) = map on_wire ?ms"
      using parse_frames_all [OF ok, of fresh "[]"] cs by (simp add: parse_frames_stuck HeaderLength_def)
    have live: "\<not> snd (Protocol_onReaderMessage m e)" for m e
      by (simp add: Protocol_onReaderMessage_def)
    have "fire_all Protocol_onReaderMessage (map on_wire ?ms) [] = bufs"
      by (subst fire_regular) (auto simp: on_wire_def new_ProtocolMessage_def comp_def)
    then show ?thesis
      using feed_parses [where fire = Protocol_onReaderMessage and fresh = fresh' and now = now' and ds = cs and e = "[]", OF settled_new [of t'] live] parse
      by (auto simp: Protocol_onDatas_feed new_Protocol_def)
  qed
  then show ?thesis
    using w' by (auto simp: Protocol_drain_def ProtocolWriter_drain_def)
qed

theorem Protocol_delivers_witness:
  "\<exists>p. Protocol_drain (\<lambda>_. 0) (fold (Protocol_send (\<lambda>_. 0) 0) [[8, 9], []] (new_Protocol 0)) = Inr p \<and>
     (\<exists>q. Protocol_onDatas (\<lambda>_. 3) 0 [concat (pw_sent (p_writer p))] (new_Protocol 0) = Inr q \<and> p_delivered q = [[8, 9], []])"
proof -
  obtain p where p: "Protocol_drain (\<lambda>_. 0) (fold (Protocol_send (\<lambda>_. 0) 0) [[8, 9], []] (new_Protocol 0)) = Inr p"
    "\<forall>cs. concat cs = concat (pw_sent (p_writer p)) \<longrightarrow>
       (\<exists>q. Protocol_onDatas (\<lambda>_. 3) 0 cs (new_Protocol 0) = Inr q \<and> p_delivered q = [[8, 9], []])"
    using Protocol_delivers [of "[[8, 9], []]" "\<lambda>_. 0" 0 0 "\<lambda>_. 3" 0 0] by auto
  have "concat [concat (pw_sent (p_writer p))] = concat (pw_sent (p_writer p))"
    by simp
  with p show ?thesis
    by blast
qed

end
