(* ===== verification/Ipc_Queue.thy ===== *)
theory Ipc_Queue
  imports Queue_Interfaces
begin

text \<open>
  \<open>Queue\<close> and \<open>BufferedEmitter\<close> of \<open>vs/base/parts/ipc/common/ipc.net.ts\<close>.

  The elements of a queue are objects: \<open>q_heap\<close> holds them in the order of their creation, and a
  reference is an index into it.  Only \<open>next\<close> of an element is ever assigned after its creation.
  A walk along \<open>next\<close> gets as many rounds as there are elements, plus one; on the queues the
  operations build that is enough, and a walk that used them all would not end.
\<close>

section \<open>The queue\<close>

record 'a queueElement =
  qe_data :: 'a
  qe_next :: "nat option"

record 'a queue =
  q_heap :: "'a queueElement list"
  q_first :: "nat option"
  q_last :: "nat option"

definition new_Queue :: "'a queue" where
  "new_Queue = \<lparr>q_heap = [], q_first = None, q_last = None\<rparr>"

fun Queue_length_loop :: "nat \<Rightarrow> 'a queueElement list \<Rightarrow> nat option \<Rightarrow> nat \<Rightarrow> js_error + nat" where
  "Queue_length_loop 0 heap current result = Inl DoesNotReturn"
| "Queue_length_loop (Suc fuel) heap current result =
     (case current of None \<Rightarrow> Inr result | Some a \<Rightarrow> Queue_length_loop fuel heap (qe_next (heap ! a)) (result + 1))"

definition Queue_length :: "'a queue \<Rightarrow> js_error + nat" where
  "Queue_length q = Queue_length_loop (length (q_heap q) + 1) (q_heap q) (q_first q) 0"

definition Queue_peek :: "'a queue \<Rightarrow> 'a option" where
  "Queue_peek q = (case q_first q of None \<Rightarrow> None | Some a \<Rightarrow> Some (qe_data (q_heap q ! a)))"

fun Queue_toArray_loop :: "nat \<Rightarrow> 'a queueElement list \<Rightarrow> nat option \<Rightarrow> 'a list \<Rightarrow> js_error + 'a list" where
  "Queue_toArray_loop 0 heap it result = Inl DoesNotReturn"
| "Queue_toArray_loop (Suc fuel) heap it result =
     (case it of None \<Rightarrow> Inr result
      | Some a \<Rightarrow> Queue_toArray_loop fuel heap (qe_next (heap ! a)) (result @ [qe_data (heap ! a)]))"

definition Queue_toArray :: "'a queue \<Rightarrow> js_error + 'a list" where
  "Queue_toArray q = Queue_toArray_loop (length (q_heap q) + 1) (q_heap q) (q_first q) []"

definition Queue_pop :: "'a queue \<Rightarrow> 'a queue" where
  "Queue_pop q =
     (case q_first q of
        None \<Rightarrow> q
      | Some a \<Rightarrow>
          if q_first q = q_last q then q\<lparr>q_first := None, q_last := None\<rparr>
          else q\<lparr>q_first := qe_next (q_heap q ! a)\<rparr>)"

definition Queue_push :: "'a \<Rightarrow> 'a queue \<Rightarrow> 'a queue" where
  "Queue_push item q =
     (let e = length (q_heap q); heap = q_heap q @ [\<lparr>qe_data = item, qe_next = None\<rparr>] in
      case q_first q of
        None \<Rightarrow> q\<lparr>q_heap := heap, q_first := Some e, q_last := Some e\<rparr>
      | Some _ \<Rightarrow>
          (case q_last q of
             None \<Rightarrow> q\<lparr>q_heap := heap\<rparr>
           | Some l \<Rightarrow> q\<lparr>q_heap := heap[l := (heap ! l)\<lparr>qe_next := Some e\<rparr>], q_last := Some e\<rparr>))"

section \<open>Chains\<close>

fun chain :: "'a queueElement list \<Rightarrow> nat option \<Rightarrow> nat list \<Rightarrow> bool" where
  "chain heap p [] \<longleftrightarrow> p = None"
| "chain heap p (a # as) \<longleftrightarrow> p = Some a \<and> a < length heap \<and> chain heap (qe_next (heap ! a)) as"

lemma chain_unique: "chain heap p as \<Longrightarrow> chain heap p bs \<Longrightarrow> as = bs"
  by (induction as arbitrary: p bs) (case_tac bs; auto)+

lemma chain_alloc: "chain heap p as \<Longrightarrow> chain (heap @ [e]) p as"
  by (induction as arbitrary: p) (auto simp: nth_append)

lemma chain_in_heap: "chain heap p as \<Longrightarrow> set as \<subseteq> {..<length heap}"
  by (induction as arbitrary: p) auto

lemma chain_snoc:
  assumes "chain heap p (as @ [l])" "distinct (as @ [l])" "e < length heap" "qe_next (heap ! e) = None" "e \<noteq> l"
  shows "chain (heap[l := (heap ! l)\<lparr>qe_next := Some e\<rparr>]) p (as @ [l, e])"
  using assms by (induction as arbitrary: p) auto

text \<open>The elements of a queue form a chain that ends at \<open>last\<close>.\<close>

definition queue_at :: "'a queue \<Rightarrow> nat list \<Rightarrow> bool" where
  "queue_at q as \<longleftrightarrow>
     chain (q_heap q) (q_first q) as \<and> distinct as \<and> q_last q = (if as = [] then None else Some (last as))"

definition queue_inv :: "'a queue \<Rightarrow> bool" where
  "queue_inv q \<longleftrightarrow> (\<exists>as. queue_at q as)"

definition queue_refs :: "'a queue \<Rightarrow> nat list" where
  "queue_refs q = (THE as. queue_at q as)"

definition queue_contents :: "'a queue \<Rightarrow> 'a list" where
  "queue_contents q = map (\<lambda>a. qe_data (q_heap q ! a)) (queue_refs q)"

lemma queue_refs_eq: "queue_at q as \<Longrightarrow> queue_refs q = as"
  unfolding queue_refs_def by (rule the_equality) (auto simp: queue_at_def dest: chain_unique)

lemma queue_at_contents:
  assumes "queue_at q as"
  shows "queue_inv q" "queue_contents q = map (\<lambda>a. qe_data (q_heap q ! a)) as"
  using assms by (auto simp: queue_inv_def queue_contents_def queue_refs_eq)

lemma queue_at_new: "queue_at new_Queue []"
  by (simp add: queue_at_def new_Queue_def)

lemma queue_at_pop:
  assumes "queue_at q as"
  shows "queue_at (Queue_pop q) (tl as)" "q_heap (Queue_pop q) = q_heap q"
  using assms by (cases as; cases "tl as"; auto simp: queue_at_def Queue_pop_def)+

lemma queue_at_push:
  assumes "queue_at q as"
  shows "queue_at (Queue_push x q) (as @ [length (q_heap q)])"
    "map (\<lambda>a. qe_data (q_heap (Queue_push x q) ! a)) (as @ [length (q_heap q)]) = map (\<lambda>a. qe_data (q_heap q ! a)) as @ [x]"
proof -
  let ?e = "\<lparr>qe_data = x, qe_next = None\<rparr>" and ?n = "length (q_heap q)"
  have as: "chain (q_heap q) (q_first q) as" "distinct as" "set as \<subseteq> {..<?n}"
    using assms chain_in_heap by (auto simp: queue_at_def)
  show "queue_at (Queue_push x q) (as @ [?n])"
  proof (cases as rule: rev_cases)
    case Nil
    with assms show ?thesis
      by (simp add: queue_at_def Queue_push_def Let_def)
  next
    case (snoc bs l)
    then obtain f where f: "q_first q = Some f"
      using as(1) by (cases bs) auto
    have l: "q_last q = Some l"
      using assms snoc by (simp add: queue_at_def)
    have "chain ((q_heap q @ [?e])[l := ((q_heap q @ [?e]) ! l)\<lparr>qe_next := Some ?n\<rparr>]) (q_first q) (bs @ [l, ?n])"
      using chain_snoc [of "q_heap q @ [?e]" "q_first q" bs l ?n] chain_alloc [OF as(1), of ?e] as(2,3) snoc by auto
    then show ?thesis
      using f l as snoc by (auto simp: queue_at_def Queue_push_def Let_def)
  qed
  have "l < ?n" if "q_last q = Some l" for l
    using that assms subsetD [OF as(3), of "last as"] by (auto simp: queue_at_def split: if_splits)
  then show "map (\<lambda>a. qe_data (q_heap (Queue_push x q) ! a)) (as @ [?n]) = map (\<lambda>a. qe_data (q_heap q ! a)) as @ [x]"
    using as(3) by (auto simp: Queue_push_def Let_def nth_append nth_list_update split: option.split)
qed

lemma queue_at_peek: "queue_at q as \<Longrightarrow> Queue_peek q = (case as of [] \<Rightarrow> None | a # _ \<Rightarrow> Some (qe_data (q_heap q ! a)))"
  by (cases as) (auto simp: queue_at_def Queue_peek_def)

lemma toArray_loop: "chain heap p as \<Longrightarrow> length as < fuel \<Longrightarrow>
    Queue_toArray_loop fuel heap p result = Inr (result @ map (\<lambda>a. qe_data (heap ! a)) as)"
  by (induction as arbitrary: p fuel result) (case_tac fuel; auto)+

lemma length_loop: "chain heap p as \<Longrightarrow> length as < fuel \<Longrightarrow> Queue_length_loop fuel heap p n = Inr (n + length as)"
  by (induction as arbitrary: p fuel n) (case_tac fuel; auto)+

lemma queue_at_length: "queue_at q as \<Longrightarrow> length as \<le> length (q_heap q)"
  using chain_in_heap [of "q_heap q" "q_first q" as] card_mono [of "{..<length (q_heap q)}" "set as"]
  by (auto simp: queue_at_def distinct_card)

lemma queue_walks:
  assumes "queue_at q as"
  shows "Queue_toArray q = Inr (map (\<lambda>a. qe_data (q_heap q ! a)) as)" "Queue_length q = Inr (length as)"
  using assms queue_at_length [OF assms] toArray_loop [of "q_heap q" "q_first q" as] length_loop [of "q_heap q" "q_first q" as]
  by (auto simp: Queue_toArray_def Queue_length_def queue_at_def simp del: Queue_toArray_loop.simps Queue_length_loop.simps)

interpretation ipcq: fifo queue_inv queue_contents new_Queue Queue_push Queue_pop Queue_peek
proof unfold_locales
  show "queue_inv (new_Queue :: 'a queue)" "queue_contents (new_Queue :: 'a queue) = []"
    using queue_at_contents [OF queue_at_new] by simp_all
  fix q :: "'a queue" and x :: 'a
  assume "queue_inv q"
  then obtain as where as: "queue_at q as"
    by (auto simp: queue_inv_def)
  show "queue_inv (Queue_push x q)" "queue_contents (Queue_push x q) = queue_contents q @ [x]"
    using queue_at_contents [OF queue_at_push(1) [OF as, of x]] queue_at_push(2) [OF as, of x] queue_at_contents(2) [OF as] by simp_all
  show "queue_inv (Queue_pop q)" "queue_contents (Queue_pop q) = tl (queue_contents q)"
    using queue_at_contents [OF queue_at_pop(1) [OF as]] queue_at_pop(2) [OF as] queue_at_contents(2) [OF as] by (simp_all add: map_tl)
  show "Queue_peek q = (case queue_contents q of [] \<Rightarrow> None | x # _ \<Rightarrow> Some x)"
    using queue_at_peek [OF as] queue_at_contents(2) [OF as] by (simp split: list.split)
qed

lemma queue_walk_contents:
  assumes "queue_inv q"
  shows "Queue_toArray q = Inr (queue_contents q)" "Queue_length q = Inr (length (queue_contents q))"
  using assms by (auto simp: queue_inv_def queue_walks queue_at_contents(2))

section \<open>The buffered emitter\<close>

text \<open>
  Listeners are client code.  What they have been given is recorded in \<open>be_delivered\<close>; a microtask
  queued for \<open>_deliverMessages\<close> is counted in \<open>be_microtasks\<close>.  During delivery a listener may remove itself,
  as the listeners made by \<open>Event.once\<close> do: \<open>stop x\<close> tells that it does so on \<open>x\<close>.
\<close>

record 'a bufferedEmitter =
  be_hasListeners :: bool
  be_isDeliveringMessages :: bool
  be_bufferedMessages :: "'a list"
  be_microtasks :: nat
  be_delivered :: "'a list"

definition new_BufferedEmitter :: "'a bufferedEmitter" where
  "new_BufferedEmitter = \<lparr>be_hasListeners = False, be_isDeliveringMessages = False, be_bufferedMessages = [],
     be_microtasks = 0, be_delivered = []\<rparr>"

definition BufferedEmitter_onWillAddFirstListener :: "'a bufferedEmitter \<Rightarrow> 'a bufferedEmitter" where
  "BufferedEmitter_onWillAddFirstListener b = b\<lparr>be_hasListeners := True, be_microtasks := be_microtasks b + 1\<rparr>"

definition BufferedEmitter_onDidRemoveLastListener :: "'a bufferedEmitter \<Rightarrow> 'a bufferedEmitter" where
  "BufferedEmitter_onDidRemoveLastListener b = b\<lparr>be_hasListeners := False\<rparr>"

function deliverMessages_loop :: "('a \<Rightarrow> bool) \<Rightarrow> 'a bufferedEmitter \<Rightarrow> 'a bufferedEmitter" where
  "deliverMessages_loop stop b =
     (if be_hasListeners b \<and> be_bufferedMessages b \<noteq> [] then
        let x = hd (be_bufferedMessages b);
            b = b\<lparr>be_bufferedMessages := tl (be_bufferedMessages b), be_delivered := be_delivered b @ [x]\<rparr> in
        deliverMessages_loop stop (if stop x then BufferedEmitter_onDidRemoveLastListener b else b)
      else b)"
  by pat_completeness auto
termination
  by (relation "measure (\<lambda>(stop, b). length (be_bufferedMessages b))") (auto simp: BufferedEmitter_onDidRemoveLastListener_def)

declare deliverMessages_loop.simps [simp del]

definition BufferedEmitter_deliverMessages :: "('a \<Rightarrow> bool) \<Rightarrow> 'a bufferedEmitter \<Rightarrow> 'a bufferedEmitter" where
  "BufferedEmitter_deliverMessages stop b =
     (if be_isDeliveringMessages b then b
      else (deliverMessages_loop stop (b\<lparr>be_isDeliveringMessages := True\<rparr>))\<lparr>be_isDeliveringMessages := False\<rparr>)"

definition BufferedEmitter_microtask :: "('a \<Rightarrow> bool) \<Rightarrow> 'a bufferedEmitter \<Rightarrow> 'a bufferedEmitter" where
  "BufferedEmitter_microtask stop b =
     (if be_microtasks b > 0 then BufferedEmitter_deliverMessages stop (b\<lparr>be_microtasks := be_microtasks b - 1\<rparr>) else b)"

definition BufferedEmitter_fire :: "'a \<Rightarrow> 'a bufferedEmitter \<Rightarrow> 'a bufferedEmitter" where
  "BufferedEmitter_fire event b =
     (if be_hasListeners b then
        if length (be_bufferedMessages b) > 0 then b\<lparr>be_bufferedMessages := be_bufferedMessages b @ [event]\<rparr>
        else b\<lparr>be_delivered := be_delivered b @ [event]\<rparr>
      else b\<lparr>be_bufferedMessages := be_bufferedMessages b @ [event]\<rparr>)"

definition BufferedEmitter_flushBuffer :: "'a bufferedEmitter \<Rightarrow> 'a bufferedEmitter" where
  "BufferedEmitter_flushBuffer b = b\<lparr>be_bufferedMessages := []\<rparr>"

text \<open>Everything fired and not flushed, in the order in which listeners get it.\<close>

definition be_all :: "'a bufferedEmitter \<Rightarrow> 'a list" where
  "be_all b = be_delivered b @ be_bufferedMessages b"

lemma be_all_loop: "be_all (deliverMessages_loop stop b) = be_all b"
proof (induction stop b rule: deliverMessages_loop.induct)
  case (1 stop b)
  then show ?case
    by (subst deliverMessages_loop.simps) (auto simp: be_all_def BufferedEmitter_onDidRemoveLastListener_def Let_def)
qed

lemma be_all_ops [simp]:
  "be_all new_BufferedEmitter = []" "be_all (BufferedEmitter_fire x b) = be_all b @ [x]"
  "be_all (BufferedEmitter_onWillAddFirstListener b) = be_all b" "be_all (BufferedEmitter_onDidRemoveLastListener b) = be_all b"
  "be_all (BufferedEmitter_deliverMessages stop b) = be_all b" "be_all (BufferedEmitter_microtask stop b) = be_all b"
  using be_all_loop [of stop]
  by (auto simp: be_all_def new_BufferedEmitter_def BufferedEmitter_fire_def BufferedEmitter_onWillAddFirstListener_def
      BufferedEmitter_onDidRemoveLastListener_def BufferedEmitter_deliverMessages_def BufferedEmitter_microtask_def)

section \<open>Runs of the emitter\<close>

datatype 'a emitter_op = EFire 'a | EAddFirst | ERemoveLast | EMicrotask "'a \<Rightarrow> bool"

fun emitter_step :: "'a emitter_op \<Rightarrow> 'a bufferedEmitter \<Rightarrow> 'a bufferedEmitter" where
  "emitter_step (EFire x) b = BufferedEmitter_fire x b"
| "emitter_step EAddFirst b = BufferedEmitter_onWillAddFirstListener b"
| "emitter_step ERemoveLast b = BufferedEmitter_onDidRemoveLastListener b"
| "emitter_step (EMicrotask stop) b = BufferedEmitter_microtask stop b"

fun fired :: "'a emitter_op list \<Rightarrow> 'a list" where
  "fired [] = []"
| "fired (EFire x # ops) = x # fired ops"
| "fired (_ # ops) = fired ops"

definition be_ok :: "'a bufferedEmitter \<Rightarrow> bool" where
  "be_ok b \<longleftrightarrow> \<not> be_isDeliveringMessages b \<and> (be_hasListeners b \<and> be_bufferedMessages b \<noteq> [] \<longrightarrow> be_microtasks b > 0)"

lemma deliver_loop_ends:
  "\<not> (be_hasListeners (deliverMessages_loop stop b) \<and> be_bufferedMessages (deliverMessages_loop stop b) \<noteq> [])"
proof (induction stop b rule: deliverMessages_loop.induct)
  case (1 stop b)
  then show ?case
    by (subst (1 2) deliverMessages_loop.simps) (simp add: Let_def)
qed

lemma deliver_loop_all:
  assumes "be_hasListeners b"
  shows "be_bufferedMessages (deliverMessages_loop (\<lambda>_. False) b) = []"
proof -
  have "be_hasListeners (deliverMessages_loop stop c)" if "stop = (\<lambda>_. False)" "be_hasListeners c" for stop and c :: "'a bufferedEmitter"
    using that
  proof (induction stop c rule: deliverMessages_loop.induct)
    case (1 stop c)
    then show ?case
      by (subst deliverMessages_loop.simps) (simp add: Let_def)
  qed
  then show ?thesis
    using deliver_loop_ends assms by blast
qed

lemma be_ok_new: "be_ok new_BufferedEmitter"
  by (simp add: be_ok_def new_BufferedEmitter_def)

lemma be_ok_step: "be_ok b \<Longrightarrow> be_ok (emitter_step oper b)"
  using deliver_loop_ends
  by (cases oper)
    (auto simp: be_ok_def BufferedEmitter_fire_def BufferedEmitter_onWillAddFirstListener_def
      BufferedEmitter_onDidRemoveLastListener_def BufferedEmitter_microtask_def BufferedEmitter_deliverMessages_def)

lemma emitter_run:
  assumes "be_ok b"
  shows "be_ok (fold emitter_step ops b) \<and> be_all (fold emitter_step ops b) = be_all b @ fired ops"
  using assms
proof (induction ops arbitrary: b)
  case (Cons oper ops)
  then have "be_ok (fold emitter_step ops (emitter_step oper b)) \<and>
      be_all (fold emitter_step ops (emitter_step oper b)) = be_all (emitter_step oper b) @ fired ops"
    using be_ok_step by blast
  then show ?case
    by (cases oper) simp_all
qed simp

section \<open>Properties\<close>

text \<open>
  C34. \<open>BufferedEmitter\<close> loses nothing and keeps the order: after any firing, adding and removing of
  listeners and any microtasks, what the listeners got followed by what is buffered is what was
  fired.  Nothing is stranded: while there are listeners and something is buffered, a microtask is
  pending, and when it runs and the listeners stay, everything has been delivered.
\<close>

theorem BufferedEmitter_in_order:
  assumes "b = fold emitter_step ops new_BufferedEmitter"
  shows "be_delivered b @ be_bufferedMessages b = fired ops \<and>
         (be_hasListeners b \<and> be_bufferedMessages b \<noteq> [] \<longrightarrow>
            be_microtasks b > 0 \<and> be_delivered (BufferedEmitter_microtask (\<lambda>_. False) b) = fired ops)"
proof -
  have b: "be_ok b" "be_all b = fired ops"
    using emitter_run [OF be_ok_new, of ops] assms by simp_all
  have "be_delivered (BufferedEmitter_microtask (\<lambda>_. False) b) = fired ops" if "be_hasListeners b" "be_microtasks b > 0"
  proof -
    have "be_bufferedMessages (BufferedEmitter_microtask (\<lambda>_. False) b) = []"
      using that b(1) by (simp add: BufferedEmitter_microtask_def BufferedEmitter_deliverMessages_def be_ok_def deliver_loop_all)
    then show ?thesis
      using be_all_ops(6) [of "\<lambda>_. False" b] b(2) by (simp add: be_all_def)
  qed
  with b show ?thesis
    by (simp add: be_ok_def be_all_def)
qed

theorem BufferedEmitter_in_order_witness:
  "be_delivered (BufferedEmitter_microtask (\<lambda>_. False) (fold emitter_step [EFire 1, EAddFirst, EFire (2 :: nat)] new_BufferedEmitter)) = [1, 2]"
  using BufferedEmitter_in_order [OF refl, of "[EFire 1, EAddFirst, EFire (2 :: nat)]"]
  by (simp add: new_BufferedEmitter_def BufferedEmitter_fire_def BufferedEmitter_onWillAddFirstListener_def)

text \<open>
  \<open>Queue\<close> is a first-in first-out queue: after any pushes and \<open>n\<close> pops, \<open>toArray\<close>, \<open>length\<close> and \<open>peek\<close>
  return without running on and give the remaining elements in the order they were pushed.
\<close>

theorem Queue_fifo:
  "let q = (Queue_pop ^^ n) (foldl (\<lambda>q x. Queue_push x q) new_Queue xs) in
     Queue_toArray q = Inr (drop n xs) \<and> Queue_length q = Inr (length xs - n) \<and>
     Queue_peek q = (if n < length xs then Some (xs ! n) else None)"
proof -
  let ?p = "foldl (\<lambda>q x. Queue_push x q) new_Queue xs"
  have p: "queue_inv ?p" "queue_contents ?p = xs"
    using ipcq.enq_all [OF ipcq.inv_empty, of xs] ipcq.contents_empty by simp_all
  have q: "queue_inv ((Queue_pop ^^ n) ?p)" "queue_contents ((Queue_pop ^^ n) ?p) = drop n xs"
    using ipcq.deq_many [OF p(1), of n] p(2) by simp_all
  show ?thesis
    using queue_walk_contents [OF q(1)] ipcq.peek [OF q(1)] ipcq.peek_after_deq [OF p(1), of n] q(2) p(2)
    by (auto split: list.split)
qed

end
