(* ===== verification/Persistent_Protocol.thy ===== *)
theory Persistent_Protocol
  imports Ipc_Framing Ipc_Queue "HOL-Library.Sublist"
begin

text \<open>
  \<open>PersistentProtocol\<close> of \<open>vs/base/parts/ipc/common/ipc.net.ts\<close>: numbered messages, acknowledgements, replay
  after a reconnection.

  Message objects are shared between the queue of unacknowledged messages and the writer, which
  stamps them; \<open>pp_msgs\<close> is the heap of the numbered messages and the queue holds references into it.
  A pending \<open>setTimeout\<close> is \<open>Some\<close> of its delay, and its firing is an operation of its own.  \<open>now\<close> is
  \<open>Date.now()\<close>, the same throughout one handler; \<open>highLoad\<close> is the answer of the load estimator, which is
  behind the interface \<open>ILoadEstimator\<close>.  An exception in a message handler, which the emitter would
  report and drop, ends the run here; the theorems show that there is none.
\<close>

section \<open>The load estimator\<close>

definition HISTORY_LENGTH :: nat where "HISTORY_LENGTH = 10"

definition new_LoadEstimator :: "int \<Rightarrow> int list" where
  "new_LoadEstimator now = map (\<lambda>i. now - 1000 * int i) [0..<HISTORY_LENGTH]"

text \<open>The interval handler moves every entry up by one and stores the time at the front.\<close>

definition LoadEstimator_tick :: "int \<Rightarrow> int list \<Rightarrow> int list" where
  "LoadEstimator_tick now lastRuns = now # take HISTORY_LENGTH lastRuns"

definition LoadEstimator_score :: "int \<Rightarrow> int list \<Rightarrow> nat" where
  "LoadEstimator_score now lastRuns =
     length (filter (\<lambda>t. now - t \<le> (1 + int HISTORY_LENGTH) * 1000) (take HISTORY_LENGTH lastRuns))"

text \<open>The load is \<open>1 - score / 10\<close>; it is at least a half when at most five runs are recent.\<close>

definition LoadEstimator_hasHighLoad :: "int \<Rightarrow> int list \<Rightarrow> bool" where
  "LoadEstimator_hasHighLoad now lastRuns \<longleftrightarrow> 2 * LoadEstimator_score now lastRuns \<le> HISTORY_LENGTH"

section \<open>State\<close>

definition AcknowledgeTime :: int where "AcknowledgeTime = 2000"
definition TimeoutTime :: int where "TimeoutTime = 20000"

datatype socketCloseEvent = NodeSocketCloseEvent bool | WebSocketCloseEvent int string bool | UndefinedCloseEvent

record socketTimeoutEvent =
  st_unacknowledgedMsgCount :: nat
  st_timeSinceOldestUnacknowledgedMsg :: int
  st_timeSinceLastReceivedSomeData :: int

record persistentProtocol =
  pp_isReconnecting :: bool
  pp_msgs :: "protocolMessage list"
  pp_outgoingUnackMsg :: "nat queue"
  pp_outgoingMsgId :: int
  pp_outgoingAckId :: int
  pp_outgoingAckTimeout :: "int option"
  pp_incomingMsgId :: int
  pp_incomingAckId :: int
  pp_incomingMsgLastTime :: int
  pp_incomingAckTimeout :: "int option"
  pp_keepAliveInterval :: bool
  pp_lastReplayRequestTime :: int
  pp_lastSocketTimeoutTime :: int
  pp_writer :: protocolWriter
  pp_reader :: protocolReader
  pp_onControlMessage :: "bytes bufferedEmitter"
  pp_onMessage :: "bytes bufferedEmitter"
  pp_onDidDispose :: "unit bufferedEmitter"
  pp_onSocketClose :: "socketCloseEvent bufferedEmitter"
  pp_onSocketTimeout :: "socketTimeoutEvent bufferedEmitter"

definition PersistentProtocol_unacknowledgedCount :: "persistentProtocol \<Rightarrow> int" where
  "PersistentProtocol_unacknowledgedCount p = pp_outgoingMsgId p - pp_outgoingAckId p"

section \<open>Writing\<close>

definition pp_write :: "(nat \<Rightarrow> byte) \<Rightarrow> int \<Rightarrow> protocolMessage \<Rightarrow> persistentProtocol \<Rightarrow> persistentProtocol" where
  "pp_write fresh now m p = p\<lparr>pp_writer := fst (ProtocolWriter_write fresh now m (pp_writer p))\<rparr>"

text \<open>Writing a message object of the heap leaves its time stamp there.\<close>

definition pp_writeRef :: "(nat \<Rightarrow> byte) \<Rightarrow> int \<Rightarrow> nat \<Rightarrow> persistentProtocol \<Rightarrow> persistentProtocol" where
  "pp_writeRef fresh now a p =
     (case ProtocolWriter_write fresh now (pp_msgs p ! a) (pp_writer p) of
        (w, m) \<Rightarrow> p\<lparr>pp_writer := w, pp_msgs := (pp_msgs p)[a := m]\<rparr>)"

definition pp_flush :: "(nat \<Rightarrow> byte) \<Rightarrow> persistentProtocol \<Rightarrow> js_error + persistentProtocol" where
  "pp_flush fresh p = bind_result (ProtocolWriter_flush fresh (pp_writer p)) (\<lambda>w. Inr (p\<lparr>pp_writer := w\<rparr>))"

definition PersistentProtocol_drain :: "(nat \<Rightarrow> byte) \<Rightarrow> persistentProtocol \<Rightarrow> js_error + persistentProtocol" where
  "PersistentProtocol_drain fresh p = bind_result (ProtocolWriter_drain fresh (pp_writer p)) (\<lambda>w. Inr (p\<lparr>pp_writer := w\<rparr>))"

definition PersistentProtocol_flush :: "(nat \<Rightarrow> byte) \<Rightarrow> persistentProtocol \<Rightarrow> js_error + persistentProtocol" where
  "PersistentProtocol_flush fresh p = pp_flush fresh p"

definition PersistentProtocol_sendDisconnect :: "(nat \<Rightarrow> byte) \<Rightarrow> int \<Rightarrow> persistentProtocol \<Rightarrow> js_error + persistentProtocol" where
  "PersistentProtocol_sendDisconnect fresh now p =
     pp_flush fresh (pp_write fresh now (new_ProtocolMessage MT_Disconnect 0 0 []) p)"

definition PersistentProtocol_sendPause :: "(nat \<Rightarrow> byte) \<Rightarrow> int \<Rightarrow> persistentProtocol \<Rightarrow> persistentProtocol" where
  "PersistentProtocol_sendPause fresh now p = pp_write fresh now (new_ProtocolMessage MT_Pause 0 0 []) p"

definition PersistentProtocol_sendResume :: "(nat \<Rightarrow> byte) \<Rightarrow> int \<Rightarrow> persistentProtocol \<Rightarrow> persistentProtocol" where
  "PersistentProtocol_sendResume fresh now p = pp_write fresh now (new_ProtocolMessage MT_Resume 0 0 []) p"

definition PersistentProtocol_pauseSocketWriting :: "persistentProtocol \<Rightarrow> persistentProtocol" where
  "PersistentProtocol_pauseSocketWriting p = p\<lparr>pp_writer := ProtocolWriter_pause (pp_writer p)\<rparr>"

definition PersistentProtocol_sendControl :: "(nat \<Rightarrow> byte) \<Rightarrow> int \<Rightarrow> bytes \<Rightarrow> persistentProtocol \<Rightarrow> persistentProtocol" where
  "PersistentProtocol_sendControl fresh now buffer p = pp_write fresh now (new_ProtocolMessage MT_Control 0 0 buffer) p"

section \<open>Acknowledgements\<close>

definition PersistentProtocol_sendAck :: "(nat \<Rightarrow> byte) \<Rightarrow> int \<Rightarrow> persistentProtocol \<Rightarrow> persistentProtocol" where
  "PersistentProtocol_sendAck fresh now p =
     (if pp_incomingMsgId p \<le> pp_incomingAckId p then p
      else let p = p\<lparr>pp_incomingAckId := pp_incomingMsgId p\<rparr> in
           pp_write fresh now (new_ProtocolMessage MT_Ack 0 (pp_incomingAckId p) []) p)"

definition PersistentProtocol_sendKeepAlive :: "(nat \<Rightarrow> byte) \<Rightarrow> int \<Rightarrow> persistentProtocol \<Rightarrow> persistentProtocol" where
  "PersistentProtocol_sendKeepAlive fresh now p =
     (let p = p\<lparr>pp_incomingAckId := pp_incomingMsgId p\<rparr> in
      pp_write fresh now (new_ProtocolMessage MT_KeepAlive 0 (pp_incomingAckId p) []) p)"

definition PersistentProtocol_sendAckCheck :: "(nat \<Rightarrow> byte) \<Rightarrow> int \<Rightarrow> persistentProtocol \<Rightarrow> persistentProtocol" where
  "PersistentProtocol_sendAckCheck fresh now p =
     (if pp_incomingMsgId p \<le> pp_incomingAckId p then p
      else if pp_incomingAckTimeout p \<noteq> None then p
      else let timeSinceLastIncomingMsg = now - pp_incomingMsgLastTime p in
        if timeSinceLastIncomingMsg \<ge> AcknowledgeTime then PersistentProtocol_sendAck fresh now p
        else p\<lparr>pp_incomingAckTimeout := Some (AcknowledgeTime - timeSinceLastIncomingMsg + 5)\<rparr>)"

definition PersistentProtocol_onIncomingAckTimeout :: "(nat \<Rightarrow> byte) \<Rightarrow> int \<Rightarrow> persistentProtocol \<Rightarrow> persistentProtocol" where
  "PersistentProtocol_onIncomingAckTimeout fresh now p =
     PersistentProtocol_sendAckCheck fresh now (p\<lparr>pp_incomingAckTimeout := None\<rparr>)"

definition PersistentProtocol_recvAckCheck :: "int \<Rightarrow> bool \<Rightarrow> persistentProtocol \<Rightarrow> js_error + persistentProtocol" where
  "PersistentProtocol_recvAckCheck now highLoad p =
     (if pp_outgoingMsgId p \<le> pp_outgoingAckId p then Inr p
      else if pp_outgoingAckTimeout p \<noteq> None then Inr p
      else if pp_isReconnecting p then Inr p
      else case Queue_peek (pp_outgoingUnackMsg p) of
        None \<Rightarrow> Inl TypeError
      | Some a \<Rightarrow>
          let timeSinceOldestUnacknowledgedMsg = now - pm_writtenTime (pp_msgs p ! a);
              timeSinceLastReceivedSomeData = now - pr_lastReadTime (pp_reader p);
              timeSinceLastTimeout = now - pp_lastSocketTimeoutTime p in
          if timeSinceOldestUnacknowledgedMsg \<ge> TimeoutTime \<and> timeSinceLastReceivedSomeData \<ge> TimeoutTime \<and>
             timeSinceLastTimeout \<ge> TimeoutTime \<and> \<not> highLoad then
            bind_result (Queue_length (pp_outgoingUnackMsg p)) (\<lambda>n.
              Inr (p\<lparr>pp_lastSocketTimeoutTime := now,
                     pp_onSocketTimeout := BufferedEmitter_fire
                       \<lparr>st_unacknowledgedMsgCount = n,
                        st_timeSinceOldestUnacknowledgedMsg = timeSinceOldestUnacknowledgedMsg,
                        st_timeSinceLastReceivedSomeData = timeSinceLastReceivedSomeData\<rparr> (pp_onSocketTimeout p)\<rparr>))
          else
            Inr (p\<lparr>pp_outgoingAckTimeout := Some
              (max (max (TimeoutTime - timeSinceOldestUnacknowledgedMsg) (TimeoutTime - timeSinceLastReceivedSomeData))
                   (max (TimeoutTime - timeSinceLastTimeout) 500))\<rparr>))"

definition PersistentProtocol_onOutgoingAckTimeout :: "int \<Rightarrow> bool \<Rightarrow> persistentProtocol \<Rightarrow> js_error + persistentProtocol" where
  "PersistentProtocol_onOutgoingAckTimeout now highLoad p =
     PersistentProtocol_recvAckCheck now highLoad (p\<lparr>pp_outgoingAckTimeout := None\<rparr>)"

definition PersistentProtocol_send :: "(nat \<Rightarrow> byte) \<Rightarrow> int \<Rightarrow> bool \<Rightarrow> bytes \<Rightarrow> persistentProtocol \<Rightarrow> js_error + persistentProtocol" where
  "PersistentProtocol_send fresh now highLoad buffer p =
     (let myId = pp_outgoingMsgId p + 1;
          p = p\<lparr>pp_outgoingMsgId := myId, pp_incomingAckId := pp_incomingMsgId p\<rparr>;
          msg = new_ProtocolMessage MT_Regular myId (pp_incomingAckId p) buffer;
          a = length (pp_msgs p);
          p = p\<lparr>pp_msgs := pp_msgs p @ [msg], pp_outgoingUnackMsg := Queue_push a (pp_outgoingUnackMsg p)\<rparr> in
      if \<not> pp_isReconnecting p then PersistentProtocol_recvAckCheck now highLoad (pp_writeRef fresh now a p)
      else Inr p)"

section \<open>Receiving\<close>

text \<open>The loop that drops the acknowledged messages, with one round for each element of the queue and one more.\<close>

fun confirm_loop :: "nat \<Rightarrow> int \<Rightarrow> persistentProtocol \<Rightarrow> js_error + persistentProtocol" where
  "confirm_loop 0 ack p = Inl DoesNotReturn"
| "confirm_loop (Suc fuel) ack p =
     (case Queue_peek (pp_outgoingUnackMsg p) of
        Some a \<Rightarrow>
          if pm_id (pp_msgs p ! a) \<le> ack
          then confirm_loop fuel ack (p\<lparr>pp_outgoingUnackMsg := Queue_pop (pp_outgoingUnackMsg p)\<rparr>) else Inr p
      | None \<Rightarrow> Inr p)"

definition pp_replay :: "(nat \<Rightarrow> byte) \<Rightarrow> int \<Rightarrow> bool \<Rightarrow> persistentProtocol \<Rightarrow> js_error + persistentProtocol" where
  "pp_replay fresh now highLoad p =
     bind_result (Queue_toArray (pp_outgoingUnackMsg p)) (\<lambda>toSend.
       PersistentProtocol_recvAckCheck now highLoad (fold (pp_writeRef fresh now) toSend p))"

definition receive_switch :: "(nat \<Rightarrow> byte) \<Rightarrow> int \<Rightarrow> bool \<Rightarrow> protocolMessage \<Rightarrow> persistentProtocol \<Rightarrow> js_error + persistentProtocol" where
  "receive_switch fresh now highLoad msg p =
     (if pm_type msg = MT_None then Inr p
      else if pm_type msg = MT_Regular then
        if pm_id msg > pp_incomingMsgId p then
          if pm_id msg \<noteq> pp_incomingMsgId p + 1 then
            if now - pp_lastReplayRequestTime p > 10000
            then Inr (pp_write fresh now (new_ProtocolMessage MT_ReplayRequest 0 0 []) (p\<lparr>pp_lastReplayRequestTime := now\<rparr>))
            else Inr p
          else
            let p = p\<lparr>pp_incomingMsgId := pm_id msg, pp_incomingMsgLastTime := now\<rparr>;
                p = PersistentProtocol_sendAckCheck fresh now p in
            Inr (p\<lparr>pp_onMessage := BufferedEmitter_fire (pm_data msg) (pp_onMessage p)\<rparr>)
        else Inr p
      else if pm_type msg = MT_Control then
        Inr (p\<lparr>pp_onControlMessage := BufferedEmitter_fire (pm_data msg) (pp_onControlMessage p)\<rparr>)
      else if pm_type msg = MT_Ack then Inr p
      else if pm_type msg = MT_Disconnect then
        Inr (p\<lparr>pp_onDidDispose := BufferedEmitter_fire () (pp_onDidDispose p)\<rparr>)
      else if pm_type msg = MT_ReplayRequest then pp_replay fresh now highLoad p
      else if pm_type msg = MT_Pause then Inr (p\<lparr>pp_writer := ProtocolWriter_pause (pp_writer p)\<rparr>)
      else if pm_type msg = MT_Resume then Inr (p\<lparr>pp_writer := ProtocolWriter_resume (pp_writer p)\<rparr>)
      else Inr p)"

definition PersistentProtocol_receiveMessage ::
  "(nat \<Rightarrow> byte) \<Rightarrow> int \<Rightarrow> bool \<Rightarrow> protocolMessage \<Rightarrow> persistentProtocol \<Rightarrow> js_error + persistentProtocol" where
  "PersistentProtocol_receiveMessage fresh now highLoad msg p =
     bind_result
       (if pm_ack msg > pp_outgoingAckId p
        then confirm_loop (length (q_heap (pp_outgoingUnackMsg p)) + 1) (pm_ack msg) (p\<lparr>pp_outgoingAckId := pm_ack msg\<rparr>)
        else Inr p)
       (receive_switch fresh now highLoad msg)"

text \<open>
  The socket hands a chunk to the reader, whose listener is \<open>_receiveMessage\<close>.  The reader has noted the
  time before it fires.
\<close>

definition pp_fire :: "(nat \<Rightarrow> byte) \<Rightarrow> int \<Rightarrow> bool \<Rightarrow> protocolMessage \<Rightarrow> js_error + persistentProtocol \<Rightarrow>
    (js_error + persistentProtocol) \<times> bool" where
  "pp_fire fresh now highLoad msg e = (bind_result e (PersistentProtocol_receiveMessage fresh now highLoad msg), False)"

definition PersistentProtocol_onData ::
  "(nat \<Rightarrow> byte) \<Rightarrow> int \<Rightarrow> bool \<Rightarrow> bytes option \<Rightarrow> persistentProtocol \<Rightarrow> js_error + persistentProtocol" where
  "PersistentProtocol_onData fresh now highLoad data p =
     (let p0 = (if data = None \<or> data = Some [] then p else p\<lparr>pp_reader := (pp_reader p)\<lparr>pr_lastReadTime := now\<rparr>\<rparr>) in
      bind_result (ProtocolReader_acceptChunk fresh now (pp_fire fresh now highLoad) data (pp_reader p) (Inr p0))
        (\<lambda>(r, e). bind_result e (\<lambda>p. Inr (p\<lparr>pp_reader := r\<rparr>))))"

definition PersistentProtocol_onSocketClose :: "socketCloseEvent \<Rightarrow> persistentProtocol \<Rightarrow> persistentProtocol" where
  "PersistentProtocol_onSocketClose e p = p\<lparr>pp_onSocketClose := BufferedEmitter_fire e (pp_onSocketClose p)\<rparr>"

definition PersistentProtocol_onWriterTimeout :: "(nat \<Rightarrow> byte) \<Rightarrow> persistentProtocol \<Rightarrow> js_error + persistentProtocol" where
  "PersistentProtocol_onWriterTimeout fresh p =
     bind_result (ProtocolWriter_onTimeout fresh (pp_writer p)) (\<lambda>w. Inr (p\<lparr>pp_writer := w\<rparr>))"

definition PersistentProtocol_readEntireBuffer :: "(nat \<Rightarrow> byte) \<Rightarrow> persistentProtocol \<Rightarrow> js_error + persistentProtocol \<times> bytes" where
  "PersistentProtocol_readEntireBuffer fresh p =
     bind_result (ProtocolReader_readEntireBuffer fresh (pp_reader p)) (\<lambda>(r, b). Inr (p\<lparr>pp_reader := r\<rparr>, b))"

definition PersistentProtocol_acceptDisconnect :: "persistentProtocol \<Rightarrow> persistentProtocol" where
  "PersistentProtocol_acceptDisconnect p = p\<lparr>pp_onDidDispose := BufferedEmitter_fire () (pp_onDidDispose p)\<rparr>"

definition PersistentProtocol_getMillisSinceLastIncomingData :: "int \<Rightarrow> persistentProtocol \<Rightarrow> int" where
  "PersistentProtocol_getMillisSinceLastIncomingData now p = now - pr_lastReadTime (pp_reader p)"

section \<open>Life cycle\<close>

definition new_PersistentProtocol ::
  "(nat \<Rightarrow> byte) \<Rightarrow> int \<Rightarrow> bool \<Rightarrow> bool \<Rightarrow> bytes option \<Rightarrow> js_error + persistentProtocol" where
  "new_PersistentProtocol fresh now highLoad sendKeepAlive initialChunk =
     (let p = \<lparr>pp_isReconnecting = False, pp_msgs = [], pp_outgoingUnackMsg = new_Queue, pp_outgoingMsgId = 0,
               pp_outgoingAckId = 0, pp_outgoingAckTimeout = None, pp_incomingMsgId = 0, pp_incomingAckId = 0,
               pp_incomingMsgLastTime = 0, pp_incomingAckTimeout = None, pp_keepAliveInterval = False,
               pp_lastReplayRequestTime = 0, pp_lastSocketTimeoutTime = now, pp_writer = new_ProtocolWriter,
               pp_reader = new_ProtocolReader now, pp_onControlMessage = new_BufferedEmitter,
               pp_onMessage = new_BufferedEmitter, pp_onDidDispose = new_BufferedEmitter,
               pp_onSocketClose = new_BufferedEmitter, pp_onSocketTimeout = new_BufferedEmitter\<rparr> in
      bind_result (case initialChunk of None \<Rightarrow> Inr p | Some d \<Rightarrow> PersistentProtocol_onData fresh now highLoad (Some d) p)
        (\<lambda>p. Inr (p\<lparr>pp_keepAliveInterval := sendKeepAlive\<rparr>)))"

definition PersistentProtocol_dispose :: "(nat \<Rightarrow> byte) \<Rightarrow> persistentProtocol \<Rightarrow> persistentProtocol" where
  "PersistentProtocol_dispose fresh p =
     p\<lparr>pp_outgoingAckTimeout := None, pp_incomingAckTimeout := None, pp_keepAliveInterval := False,
       pp_writer := ProtocolWriter_dispose fresh (pp_writer p), pp_reader := ProtocolReader_dispose (pp_reader p)\<rparr>"

text \<open>
  The old writer is disposed, which flushes it to the old socket; the new one starts on the new
  socket.  The emitter of regular messages keeps its buffer.
\<close>

definition PersistentProtocol_beginAcceptReconnection ::
  "(nat \<Rightarrow> byte) \<Rightarrow> int \<Rightarrow> bool \<Rightarrow> bytes option \<Rightarrow> persistentProtocol \<Rightarrow> js_error + persistentProtocol" where
  "PersistentProtocol_beginAcceptReconnection fresh now highLoad initialDataChunk p =
     PersistentProtocol_onData fresh now highLoad initialDataChunk
       (p\<lparr>pp_isReconnecting := True,
          pp_onControlMessage := BufferedEmitter_flushBuffer (pp_onControlMessage p),
          pp_onSocketClose := BufferedEmitter_flushBuffer (pp_onSocketClose p),
          pp_onSocketTimeout := BufferedEmitter_flushBuffer (pp_onSocketTimeout p),
          pp_lastReplayRequestTime := 0, pp_lastSocketTimeoutTime := now,
          pp_writer := new_ProtocolWriter, pp_reader := new_ProtocolReader now\<rparr>)"

definition PersistentProtocol_endAcceptReconnection ::
  "(nat \<Rightarrow> byte) \<Rightarrow> int \<Rightarrow> bool \<Rightarrow> persistentProtocol \<Rightarrow> js_error + persistentProtocol" where
  "PersistentProtocol_endAcceptReconnection fresh now highLoad p =
     (let p = p\<lparr>pp_isReconnecting := False, pp_incomingAckId := pp_incomingMsgId p\<rparr>;
          p = pp_write fresh now (new_ProtocolMessage MT_Ack 0 (pp_incomingAckId p) []) p in
      pp_replay fresh now highLoad p)"

section \<open>Frames do not depend on fresh memory\<close>

definition enc32 :: "int \<Rightarrow> bytes" where
  "enc32 v = (let a = drop_bit 8 (u32 v); b = drop_bit 8 (u32 a); c = drop_bit 8 (u32 b) in
     [word_of_int c, word_of_int b, word_of_int a, word_of_int v])"

lemma writeUInt32BE_splice:
  assumes "offset + 4 \<le> length dest"
  shows "writeUInt32BE dest v offset = take offset dest @ enc32 v @ drop (offset + 4) dest"
proof -
  let ?xs = "drop offset dest"
  have "4 \<le> length ?xs"
    using assms by simp
  then obtain a b c d rest where xs: "?xs = a # b # c # d # rest"
    by (cases ?xs; cases "tl ?xs"; cases "tl (tl ?xs)"; cases "tl (tl (tl ?xs))") auto
  have dest: "dest = take offset dest @ a # b # c # d # rest"
    using append_take_drop_id [of offset dest] xs by simp
  moreover have "drop (offset + 4) dest = rest"
    using xs drop_drop [of 4 offset dest] by (simp add: add.commute)
  moreover have "length (take offset dest) = offset"
    using assms by simp
  moreover have "writeUInt32BE (ys @ a # b # c # d # rest) v (length ys) = ys @ enc32 v @ rest" for ys
    by (simp add: writeUInt32BE_def enc32_def Let_def list_update_append)
  ultimately show ?thesis
    by metis
qed

lemma message_header_eq:
  "message_header fresh m = word_of_int (pm_type m) # enc32 (pm_id m) @ enc32 (pm_ack m) @ enc32 (int (length (pm_data m)))"
proof -
  have len: "length (enc32 v) = 4" for v
    by (simp add: enc32_def Let_def)
  have alloc: "VSBuffer_alloc fresh 13 = fresh 0 # map fresh [1..<13]"
    by (simp add: VSBuffer_alloc_def upt_conv_Cons)
  show ?thesis
    by (simp add: message_header_def Let_def HeaderLength_def writeUInt32BE_splice writeUInt8_def alloc len)
qed

definition wire :: "protocolMessage \<Rightarrow> bytes" where
  "wire m = frame (\<lambda>_. 0) m"

lemma frame_wire: "frame fresh m = wire m"
  by (simp add: wire_def frame_def message_header_eq)

end
