(* ===== verification/Ipc_Endpoint.thy ===== *)
theory Ipc_Endpoint
  imports Persistent_Protocol
begin

text \<open>
  The invariant of one end of a \<open>PersistentProtocol\<close> connection: every operation and every received message
  keeps it, never throws, and writes only messages that the endpoint may say (\<open>speaks\<close>).
\<close>

section \<open>An endpoint\<close>

text \<open>
  The numbered messages have the numbers 1, 2, \<open>\<dots>\<close>, and the queue holds those that are not acknowledged.
\<close>

definition endpoint :: "persistentProtocol \<Rightarrow> bool" where
  "endpoint p \<longleftrightarrow>
     queue_inv (pp_outgoingUnackMsg p) \<and>
     queue_contents (pp_outgoingUnackMsg p) = [nat (pp_outgoingAckId p)..<length (pp_msgs p)] \<and>
     pp_outgoingMsgId p = int (length (pp_msgs p)) \<and> int (length (pp_msgs p)) < 2 ^ 32 \<and>
     0 \<le> pp_outgoingAckId p \<and> pp_outgoingAckId p \<le> pp_outgoingMsgId p \<and>
     0 \<le> pp_incomingAckId p \<and> pp_incomingAckId p \<le> pp_incomingMsgId p \<and> pp_incomingMsgId p < 2 ^ 32 \<and>
     writer_inv (pp_writer p) \<and> \<not> pw_isDisposed (pp_writer p) \<and>
     (\<forall>i < length (pp_msgs p).
        pm_type (pp_msgs p ! i) = MT_Regular \<and> pm_id (pp_msgs p ! i) = int i + 1 \<and> 0 \<le> pm_ack (pp_msgs p ! i) \<and>
        pm_ack (pp_msgs p ! i) \<le> pp_incomingMsgId p \<and> int (length (pm_data (pp_msgs p ! i))) < 2 ^ 32)"

abbreviation payloads :: "persistentProtocol \<Rightarrow> bytes list" where
  "payloads p \<equiv> map pm_data (pp_msgs p)"

abbreviation received :: "persistentProtocol \<Rightarrow> bytes list" where
  "received p \<equiv> be_all (pp_onMessage p)"

text \<open>What an endpoint may say: numbered messages with their data, and no acknowledgement beyond what it received.\<close>

definition speaks :: "persistentProtocol \<Rightarrow> protocolMessage \<Rightarrow> bool" where
  "speaks p m \<longleftrightarrow>
     wire_ok m \<and> pm_ack m \<le> pp_incomingMsgId p \<and>
     (pm_type m = MT_Regular \<longrightarrow>
        1 \<le> pm_id m \<and> pm_id m \<le> int (length (pp_msgs p)) \<and> pm_data m = payloads p ! nat (pm_id m - 1))"

definition says :: "persistentProtocol \<Rightarrow> persistentProtocol \<Rightarrow> bool" where
  "says p p' \<longleftrightarrow> prefix (pw_sent (pp_writer p)) (pw_sent (pp_writer p')) \<and>
     (\<exists>ms. writer_out (pp_writer p') = writer_out (pp_writer p) @ concat (map wire ms) \<and> (\<forall>m \<in> set ms. speaks p' m))"

text \<open>A step that receives nothing and sends the new numbered messages \<open>new\<close>.\<close>

definition sends_step :: "bytes list \<Rightarrow> persistentProtocol \<Rightarrow> persistentProtocol \<Rightarrow> bool" where
  "sends_step new p p' \<longleftrightarrow>
     endpoint p' \<and> pp_incomingMsgId p' = pp_incomingMsgId p \<and> pp_outgoingAckId p' = pp_outgoingAckId p \<and>
     received p' = received p \<and> pp_reader p' = pp_reader p \<and> payloads p' = payloads p @ new \<and> says p p'"

abbreviation local_step :: "persistentProtocol \<Rightarrow> persistentProtocol \<Rightarrow> bool" where
  "local_step \<equiv> sends_step []"

lemma speaks_grow:
  assumes "speaks p m" "pp_incomingMsgId p \<le> pp_incomingMsgId p'" "prefix (payloads p) (payloads p')"
  shows "speaks p' m"
proof -
  have len: "length (pp_msgs p) \<le> length (pp_msgs p')"
    using prefix_length_le [OF assms(3)] by simp
  moreover have "payloads p' ! i = payloads p ! i" if "i < length (pp_msgs p)" for i
    using assms(3) that by (auto simp: prefix_def nth_append)
  ultimately show ?thesis
    using assms(1,2) by (auto simp: speaks_def)
qed

lemma local_step_trans:
  assumes "sends_step new p q" "local_step q r"
  shows "sends_step new p r"
proof -
  obtain ms ns where ms: "writer_out (pp_writer q) = writer_out (pp_writer p) @ concat (map wire ms)" "\<forall>m \<in> set ms. speaks q m"
    and ns: "writer_out (pp_writer r) = writer_out (pp_writer q) @ concat (map wire ns)" "\<forall>m \<in> set ns. speaks r m"
    using assms by (auto simp: sends_step_def says_def)
  have "\<forall>m \<in> set ms. speaks r m"
    using ms(2) assms(2) speaks_grow [of q _ r] by (auto simp: sends_step_def)
  then have "says p r"
    using assms prefix_order.trans unfolding says_def
    by (intro conjI exI [of _ "ms @ ns"]) (use ms(1) ns in \<open>auto simp: sends_step_def says_def\<close>)
  then show ?thesis
    using assms by (auto simp: sends_step_def)
qed

text \<open>Steps that leave all of this alone, and steps that write one message.\<close>

lemma local_step_same:
  assumes "endpoint p" "pp_msgs p' = pp_msgs p" "pp_outgoingUnackMsg p' = pp_outgoingUnackMsg p"
    "pp_outgoingMsgId p' = pp_outgoingMsgId p" "pp_outgoingAckId p' = pp_outgoingAckId p"
    "pp_incomingMsgId p' = pp_incomingMsgId p" "0 \<le> pp_incomingAckId p'" "pp_incomingAckId p' \<le> pp_incomingMsgId p"
    "writer_inv (pp_writer p')" "writer_out (pp_writer p') = writer_out (pp_writer p)"
    "pw_isDisposed (pp_writer p') = pw_isDisposed (pp_writer p)" "received p' = received p" "pp_reader p' = pp_reader p"
    "prefix (pw_sent (pp_writer p)) (pw_sent (pp_writer p'))"
  shows "local_step p p'"
  using assms by (auto simp: sends_step_def endpoint_def says_def intro!: exI [of _ "[]"])

lemma local_step_refl: "endpoint p \<Longrightarrow> local_step p p"
  by (rule local_step_same) (auto simp: endpoint_def)

lemma local_step_write:
  assumes "endpoint p" "speaks p m"
  shows "local_step p (pp_write fresh now m p)"
proof -
  have w: "writer_inv (pp_writer p)" "\<not> pw_isDisposed (pp_writer p)"
    using assms(1) by (auto simp: endpoint_def)
  let ?w = "fst (ProtocolWriter_write fresh now m (pp_writer p))"
  have "writer_inv ?w" "\<not> pw_isDisposed ?w" "writer_out ?w = writer_out (pp_writer p) @ concat (map wire [m])"
      "pw_sent ?w = pw_sent (pp_writer p)"
    using writer_write [OF w, of fresh now m] w(2) by (simp_all add: frame_wire)
  then show ?thesis
    using assms by (auto simp: sends_step_def endpoint_def says_def pp_write_def speaks_def intro!: exI [of _ "[m]"])
qed

lemma speaks_stored:
  assumes "endpoint p" "a < length (pp_msgs p)"
  shows "speaks p (pp_msgs p ! a)"
  using assms by (auto simp: endpoint_def speaks_def wire_ok_def MT_defs)

lemma local_step_writeRef:
  assumes "endpoint p" "a < length (pp_msgs p)"
  shows "local_step p (pp_writeRef fresh now a p)"
proof -
  have w: "writer_inv (pp_writer p)" "\<not> pw_isDisposed (pp_writer p)"
    using assms(1) by (auto simp: endpoint_def)
  let ?m = "pp_msgs p ! a"
  let ?w = "fst (ProtocolWriter_write fresh now ?m (pp_writer p))"
  have eq: "pp_writeRef fresh now a p = p\<lparr>pp_writer := ?w, pp_msgs := (pp_msgs p)[a := ?m\<lparr>pm_writtenTime := now\<rparr>]\<rparr>"
    using writer_write(6) [OF w, of fresh now ?m] by (simp add: pp_writeRef_def case_prod_unfold)
  have pay: "map pm_data ((pp_msgs p)[a := ?m\<lparr>pm_writtenTime := now\<rparr>]) = payloads p"
    using assms(2) by (simp add: map_update list_update_same_conv)
  have "writer_inv ?w" "\<not> pw_isDisposed ?w" "writer_out ?w = writer_out (pp_writer p) @ concat (map wire [?m])"
      "pw_sent ?w = pw_sent (pp_writer p)"
    using writer_write [OF w, of fresh now ?m] w(2) by (simp_all add: frame_wire)
  moreover have "speaks (pp_writeRef fresh now a p) ?m"
    using speaks_grow [OF speaks_stored [OF assms], of "pp_writeRef fresh now a p"] pay by (simp add: eq)
  ultimately show ?thesis
    using assms pay
    by (auto simp: sends_step_def endpoint_def says_def eq nth_list_update intro!: exI [of _ "[?m]"])
qed

lemma local_step_writeRefs:
  assumes "endpoint p" "set as \<subseteq> {..<length (pp_msgs p)}"
  shows "local_step p (fold (pp_writeRef fresh now) as p)"
  using assms
proof (induction as arbitrary: p)
  case Nil
  then show ?case
    by (simp add: local_step_refl)
next
  case (Cons a as)
  have step: "local_step p (pp_writeRef fresh now a p)"
    using Cons.prems by (intro local_step_writeRef) auto
  then have "length (pp_msgs p) = length (pp_msgs (pp_writeRef fresh now a p))"
    unfolding sends_step_def by (metis append_Nil2 length_map)
  then have "local_step (pp_writeRef fresh now a p) (fold (pp_writeRef fresh now) as (pp_writeRef fresh now a p))"
    using step Cons.prems by (intro Cons.IH) (auto simp: sends_step_def)
  with step show ?case
    using local_step_trans by simp
qed


lemma recvAckCheck_shape:
  assumes "endpoint p"
  shows "\<exists>t l e. PersistentProtocol_recvAckCheck now highLoad p =
           Inr (p\<lparr>pp_outgoingAckTimeout := t, pp_lastSocketTimeoutTime := l, pp_onSocketTimeout := e\<rparr>)"
proof -
  have inv: "queue_inv (pp_outgoingUnackMsg p)"
    using assms by (simp add: endpoint_def)
  show ?thesis
  proof (cases "pp_outgoingMsgId p \<le> pp_outgoingAckId p \<or> pp_outgoingAckTimeout p \<noteq> None \<or> pp_isReconnecting p")
    case True
    then have "PersistentProtocol_recvAckCheck now highLoad p =
        Inr (p\<lparr>pp_outgoingAckTimeout := pp_outgoingAckTimeout p, pp_lastSocketTimeoutTime := pp_lastSocketTimeoutTime p,
          pp_onSocketTimeout := pp_onSocketTimeout p\<rparr>)"
      by (auto simp: PersistentProtocol_recvAckCheck_def)
    then show ?thesis
      by blast
  next
    case False
    then obtain a where a: "Queue_peek (pp_outgoingUnackMsg p) = Some a"
      using ipcq.peek [OF inv] assms by (auto simp: endpoint_def upt_conv_Cons)
    let ?old = "now - pm_writtenTime (pp_msgs p ! a)" and ?read = "now - pr_lastReadTime (pp_reader p)"
    let ?last = "now - pp_lastSocketTimeoutTime p"
    have same: "p\<lparr>pp_outgoingAckTimeout := None\<rparr> = p"
      using False by (cases p) simp
    show ?thesis
    proof (cases "?old \<ge> TimeoutTime \<and> ?read \<ge> TimeoutTime \<and> ?last \<ge> TimeoutTime \<and> \<not> highLoad")
      case True
      then show ?thesis
        using False a queue_walk_contents(2) [OF inv]
        by (intro exI [of _ None] exI [of _ now] exI)
          (auto simp: PersistentProtocol_recvAckCheck_def Let_def same)
    next
      case late: False
      have "\<exists>t. PersistentProtocol_recvAckCheck now highLoad p = Inr (p\<lparr>pp_outgoingAckTimeout := t\<rparr>)"
        using False a by (simp add: PersistentProtocol_recvAckCheck_def Let_def if_not_P [OF late]) blast
      then obtain t where "PersistentProtocol_recvAckCheck now highLoad p = Inr (p\<lparr>pp_outgoingAckTimeout := t\<rparr>)"
        by blast
      then show ?thesis
        by (intro exI [of _ t] exI [of _ "pp_lastSocketTimeoutTime p"] exI [of _ "pp_onSocketTimeout p"]) simp
    qed
  qed
qed

lemma local_step_recvAckCheck:
  assumes "endpoint p"
  shows "\<exists>p'. PersistentProtocol_recvAckCheck now highLoad p = Inr p' \<and> local_step p p' \<and> pp_writer p' = pp_writer p"
proof -
  obtain t l e where eq: "PersistentProtocol_recvAckCheck now highLoad p =
      Inr (p\<lparr>pp_outgoingAckTimeout := t, pp_lastSocketTimeoutTime := l, pp_onSocketTimeout := e\<rparr>)" (is "_ = Inr ?p")
    using recvAckCheck_shape [OF assms] by blast
  have "local_step p ?p"
    using assms by (intro local_step_same) (auto simp: endpoint_def)
  with eq show ?thesis
    by auto
qed

lemma local_step_replay:
  assumes "endpoint p"
  shows "\<exists>p'. pp_replay fresh now highLoad p = Inr p' \<and> local_step p p' \<and>
           pp_writer p' = pp_writer (fold (pp_writeRef fresh now) (queue_contents (pp_outgoingUnackMsg p)) p)"
proof -
  let ?as = "queue_contents (pp_outgoingUnackMsg p)"
  let ?q = "fold (pp_writeRef fresh now) ?as p"
  have as: "Queue_toArray (pp_outgoingUnackMsg p) = Inr ?as" "set ?as \<subseteq> {..<length (pp_msgs p)}"
    using assms queue_walk_contents(1) [of "pp_outgoingUnackMsg p"] by (auto simp: endpoint_def)
  have step: "local_step p ?q"
    using assms as(2) by (rule local_step_writeRefs)
  then have "endpoint ?q"
    by (simp add: sends_step_def)
  then obtain p' where "PersistentProtocol_recvAckCheck now highLoad ?q = Inr p'" "local_step ?q p'" "pp_writer p' = pp_writer ?q"
    using local_step_recvAckCheck by blast
  then show ?thesis
    using as(1) local_step_trans [OF step] by (auto simp: pp_replay_def)
qed

lemma speaks_system:
  assumes "endpoint p" "ty \<noteq> MT_Regular" "0 \<le> ty" "ty < 256" "0 \<le> ack" "ack \<le> pp_incomingMsgId p" "int (length d) < 2 ^ 32"
  shows "speaks p (new_ProtocolMessage ty 0 ack d)"
  using assms by (simp add: speaks_def wire_ok_def new_ProtocolMessage_def endpoint_def)

lemma endpoint_ackId: "endpoint p \<Longrightarrow> local_step p (p\<lparr>pp_incomingAckId := pp_incomingMsgId p\<rparr>)"
  by (rule local_step_same) (auto simp: endpoint_def)

lemma local_step_write_ack:
  assumes "endpoint p" "ty \<noteq> MT_Regular" "0 \<le> ty" "ty < 256"
  shows "local_step p (pp_write fresh now (new_ProtocolMessage ty 0 (pp_incomingMsgId p) []) (p\<lparr>pp_incomingAckId := pp_incomingMsgId p\<rparr>))"
proof (rule local_step_trans [OF endpoint_ackId [OF assms(1)]], rule local_step_write)
  show e: "endpoint (p\<lparr>pp_incomingAckId := pp_incomingMsgId p\<rparr>)"
    using endpoint_ackId [OF assms(1)] by (simp add: sends_step_def)
  show "speaks (p\<lparr>pp_incomingAckId := pp_incomingMsgId p\<rparr>) (new_ProtocolMessage ty 0 (pp_incomingMsgId p) [])"
    using assms by (intro speaks_system [OF e]) (auto simp: endpoint_def)
qed

lemma local_step_acks:
  assumes "endpoint p"
  shows "local_step p (PersistentProtocol_sendAck fresh now p)" "local_step p (PersistentProtocol_sendKeepAlive fresh now p)"
    "local_step p (PersistentProtocol_sendAckCheck fresh now p)" "local_step p (PersistentProtocol_onIncomingAckTimeout fresh now p)"
proof -
  have ack: "local_step q (PersistentProtocol_sendAck fresh now q)" if "endpoint q" for q
    using local_step_write_ack [OF that, of MT_Ack fresh now] local_step_refl [OF that]
    by (auto simp: PersistentProtocol_sendAck_def Let_def MT_defs)
  have check: "local_step q (PersistentProtocol_sendAckCheck fresh now q)" if "endpoint q" for q
  proof -
    have "local_step q (q\<lparr>pp_incomingAckTimeout := t\<rparr>)" for t
      using that by (intro local_step_same) (auto simp: endpoint_def)
    then show ?thesis
      using ack [OF that] local_step_refl [OF that] by (auto simp: PersistentProtocol_sendAckCheck_def Let_def)
  qed
  have step: "local_step p (p\<lparr>pp_incomingAckTimeout := None\<rparr>)"
    using assms by (intro local_step_same) (auto simp: endpoint_def)
  then have "endpoint (p\<lparr>pp_incomingAckTimeout := None\<rparr>)"
    by (simp only: sends_step_def)
  then show "local_step p (PersistentProtocol_onIncomingAckTimeout fresh now p)"
    unfolding PersistentProtocol_onIncomingAckTimeout_def by (intro local_step_trans [OF step] check)
  show "local_step p (PersistentProtocol_sendAck fresh now p)" "local_step p (PersistentProtocol_sendAckCheck fresh now p)"
    using ack check assms by blast+
  show "local_step p (PersistentProtocol_sendKeepAlive fresh now p)"
    using local_step_write_ack [OF assms, of MT_KeepAlive fresh now] by (simp add: PersistentProtocol_sendKeepAlive_def Let_def MT_defs)
qed


lemma local_step_control:
  assumes "endpoint p" "ty \<noteq> MT_Regular" "0 \<le> ty" "ty < 256" "int (length d) < 2 ^ 32"
  shows "local_step p (pp_write fresh now (new_ProtocolMessage ty 0 0 d) p)"
  using assms by (intro local_step_write speaks_system) (auto simp: endpoint_def)

lemma local_step_writer:
  assumes "endpoint p" "writer_inv w" "writer_out w = writer_out (pp_writer p)" "pw_isDisposed w = pw_isDisposed (pp_writer p)"
    "prefix (pw_sent (pp_writer p)) (pw_sent w)"
  shows "local_step p (p\<lparr>pp_writer := w\<rparr>)"
  using assms by (intro local_step_same) (auto simp: endpoint_def)

lemma sent_flush:
  assumes "writer_inv w"
  shows "ProtocolWriter_flush fresh w = Inr w' \<Longrightarrow> prefix (pw_sent w) (pw_sent w')"
    "ProtocolWriter_onTimeout fresh w = Inr w' \<Longrightarrow> prefix (pw_sent w) (pw_sent w')"
  using assms writeNow_spec [of w fresh] writeNow_spec [of "w\<lparr>pw_scheduled := False\<rparr>" fresh]
  by (auto simp: writer_inv_def ProtocolWriter_flush_def ProtocolWriter_onTimeout_def)

lemma local_step_flush:
  assumes "endpoint p"
  shows "\<exists>p'. pp_flush fresh p = Inr p' \<and> local_step p p'" "\<exists>p'. PersistentProtocol_onWriterTimeout fresh p = Inr p' \<and> local_step p p'"
proof -
  have w: "writer_inv (pp_writer p)"
    using assms by (simp add: endpoint_def)
  show "\<exists>p'. pp_flush fresh p = Inr p' \<and> local_step p p'"
    using writer_flush [OF w, of fresh] sent_flush [OF w, of fresh] local_step_writer [OF assms] by (auto simp: pp_flush_def)
  show "\<exists>p'. PersistentProtocol_onWriterTimeout fresh p = Inr p' \<and> local_step p p'"
    using writer_timeout [OF w, of fresh] sent_flush [OF w, of fresh] local_step_writer [OF assms] by (auto simp: PersistentProtocol_onWriterTimeout_def)
qed

lemma local_step_pause:
  assumes "endpoint p"
  shows "local_step p (p\<lparr>pp_writer := ProtocolWriter_pause (pp_writer p)\<rparr>)"
    "local_step p (p\<lparr>pp_writer := ProtocolWriter_resume (pp_writer p)\<rparr>)"
  using assms by (auto intro!: local_step_writer simp: writer_pause writer_resume writer_flags endpoint_def)

definition enqueued :: "bytes \<Rightarrow> persistentProtocol \<Rightarrow> persistentProtocol" where
  "enqueued buffer p = p\<lparr>pp_outgoingMsgId := pp_outgoingMsgId p + 1, pp_incomingAckId := pp_incomingMsgId p,
     pp_msgs := pp_msgs p @ [new_ProtocolMessage MT_Regular (pp_outgoingMsgId p + 1) (pp_incomingMsgId p) buffer],
     pp_outgoingUnackMsg := Queue_push (length (pp_msgs p)) (pp_outgoingUnackMsg p)\<rparr>"

lemma local_step_enqueue:
  assumes "endpoint p" "int (length buffer) < 2 ^ 32" "int (length (pp_msgs p)) + 1 < 2 ^ 32"
  shows "sends_step [buffer] p (enqueued buffer p)"
proof -
  have q: "queue_inv (pp_outgoingUnackMsg p)" "queue_contents (pp_outgoingUnackMsg p) = [nat (pp_outgoingAckId p)..<length (pp_msgs p)]"
    "nat (pp_outgoingAckId p) \<le> length (pp_msgs p)"
    using assms(1) by (auto simp: endpoint_def)
  have "queue_inv (pp_outgoingUnackMsg (enqueued buffer p))"
    "queue_contents (pp_outgoingUnackMsg (enqueued buffer p)) = [nat (pp_outgoingAckId p)..<Suc (length (pp_msgs p))]"
    using ipcq.inv_enq [OF q(1)] ipcq.contents_enq [OF q(1)] q(2,3) by (simp_all add: enqueued_def)
  then have "endpoint (enqueued buffer p)"
    using assms by (auto simp: endpoint_def enqueued_def nth_append new_ProtocolMessage_def less_Suc_eq)
  then show ?thesis
    by (auto simp: sends_step_def says_def enqueued_def new_ProtocolMessage_def intro!: exI [of _ "[]"])
qed

lemma local_step_send:
  assumes "endpoint p" "int (length buffer) < 2 ^ 32" "int (length (pp_msgs p)) + 1 < 2 ^ 32"
  shows "\<exists>p'. PersistentProtocol_send fresh now highLoad buffer p = Inr p' \<and> sends_step [buffer] p p'"
proof -
  let ?a = "length (pp_msgs p)" and ?e = "enqueued buffer p"
  let ?q = "pp_writeRef fresh now ?a ?e"
  have send: "PersistentProtocol_send fresh now highLoad buffer p =
      (if \<not> pp_isReconnecting p then PersistentProtocol_recvAckCheck now highLoad ?q else Inr ?e)"
    by (simp add: PersistentProtocol_send_def enqueued_def Let_def)
  have enq: "sends_step [buffer] p ?e"
    using local_step_enqueue [OF assms] .
  then have e: "endpoint ?e" "?a < length (pp_msgs ?e)"
    by (simp_all add: sends_step_def enqueued_def)
  have q: "sends_step [buffer] p ?q"
    using local_step_trans [OF enq local_step_writeRef [OF e]] .
  then have eq: "endpoint ?q"
    by (simp add: sends_step_def)
  obtain p' where "PersistentProtocol_recvAckCheck now highLoad ?q = Inr p'" "local_step ?q p'"
    using local_step_recvAckCheck [OF eq] by blast
  then show ?thesis
    unfolding send using enq local_step_trans [OF q] by (cases "pp_isReconnecting p") auto
qed

section \<open>Local operations\<close>

datatype endpoint_op =
  OSend int bool bytes | OSendControl int bytes | OSendPause int | OSendResume int | OSendDisconnect int
  | OPauseSocketWriting | OKeepAlive int | OIncomingAckTimeout int | OOutgoingAckTimeout int bool
  | OWriterTimeout | OFlush | OEndAcceptReconnection int bool | OListen "bytes emitter_op"
  | OSocketClose socketCloseEvent | OAcceptDisconnect

fun endpoint_run :: "(nat \<Rightarrow> byte) \<Rightarrow> endpoint_op \<Rightarrow> persistentProtocol \<Rightarrow> js_error + persistentProtocol" where
  "endpoint_run fresh (OSend now highLoad buffer) p = PersistentProtocol_send fresh now highLoad buffer p"
| "endpoint_run fresh (OSendControl now buffer) p = Inr (PersistentProtocol_sendControl fresh now buffer p)"
| "endpoint_run fresh (OSendPause now) p = Inr (PersistentProtocol_sendPause fresh now p)"
| "endpoint_run fresh (OSendResume now) p = Inr (PersistentProtocol_sendResume fresh now p)"
| "endpoint_run fresh (OSendDisconnect now) p = PersistentProtocol_sendDisconnect fresh now p"
| "endpoint_run fresh OPauseSocketWriting p = Inr (PersistentProtocol_pauseSocketWriting p)"
| "endpoint_run fresh (OKeepAlive now) p = Inr (PersistentProtocol_sendKeepAlive fresh now p)"
| "endpoint_run fresh (OIncomingAckTimeout now) p = Inr (PersistentProtocol_onIncomingAckTimeout fresh now p)"
| "endpoint_run fresh (OOutgoingAckTimeout now highLoad) p = PersistentProtocol_onOutgoingAckTimeout now highLoad p"
| "endpoint_run fresh OWriterTimeout p = PersistentProtocol_onWriterTimeout fresh p"
| "endpoint_run fresh OFlush p = PersistentProtocol_flush fresh p"
| "endpoint_run fresh (OEndAcceptReconnection now highLoad) p = PersistentProtocol_endAcceptReconnection fresh now highLoad p"
| "endpoint_run fresh (OListen oper) p = Inr (p\<lparr>pp_onMessage := emitter_step oper (pp_onMessage p)\<rparr>)"
| "endpoint_run fresh (OSocketClose e) p = Inr (PersistentProtocol_onSocketClose e p)"
| "endpoint_run fresh OAcceptDisconnect p = Inr (PersistentProtocol_acceptDisconnect p)"

text \<open>
  Sizes and the number of messages fit into 32 bits, and only the protocol itself fires its emitter.
\<close>

fun endpoint_op_ok :: "endpoint_op \<Rightarrow> persistentProtocol \<Rightarrow> bool" where
  "endpoint_op_ok (OSend now highLoad buffer) p \<longleftrightarrow> int (length buffer) < 2 ^ 32 \<and> int (length (pp_msgs p)) + 1 < 2 ^ 32"
| "endpoint_op_ok (OSendControl now buffer) p \<longleftrightarrow> int (length buffer) < 2 ^ 32"
| "endpoint_op_ok (OListen (EFire x)) p \<longleftrightarrow> False"
| "endpoint_op_ok _ p \<longleftrightarrow> True"

lemma local_step_bind:
  assumes "local_step p q" "\<exists>p'. r = Inr p' \<and> local_step q p'"
  shows "\<exists>p'. r = Inr p' \<and> local_step p p'"
  using assms local_step_trans by blast

lemma local_step_sendDisconnect:
  assumes "endpoint p"
  shows "\<exists>p'. PersistentProtocol_sendDisconnect fresh now p = Inr p' \<and> local_step p p'"
proof -
  have step: "local_step p (pp_write fresh now (new_ProtocolMessage MT_Disconnect 0 0 []) p)"
    using assms by (intro local_step_control) (auto simp: MT_defs)
  then have "endpoint (pp_write fresh now (new_ProtocolMessage MT_Disconnect 0 0 []) p)"
    by (simp add: sends_step_def)
  with step show ?thesis
    unfolding PersistentProtocol_sendDisconnect_def by (intro local_step_bind [OF step] local_step_flush)
qed

lemma local_step_outgoingAckTimeout:
  assumes "endpoint p"
  shows "\<exists>p'. PersistentProtocol_onOutgoingAckTimeout now highLoad p = Inr p' \<and> local_step p p'"
proof -
  have step: "local_step p (p\<lparr>pp_outgoingAckTimeout := None\<rparr>)"
    using assms by (intro local_step_same) (auto simp: endpoint_def)
  then have "endpoint (p\<lparr>pp_outgoingAckTimeout := None\<rparr>)"
    by (simp only: sends_step_def)
  then have "\<exists>p'. PersistentProtocol_onOutgoingAckTimeout now highLoad p = Inr p' \<and> local_step (p\<lparr>pp_outgoingAckTimeout := None\<rparr>) p'"
    unfolding PersistentProtocol_onOutgoingAckTimeout_def using local_step_recvAckCheck by blast
  then show ?thesis
    by (rule local_step_bind [OF step])
qed

lemma local_step_listen:
  assumes "endpoint p" "\<And>x. oper \<noteq> EFire x"
  shows "local_step p (p\<lparr>pp_onMessage := emitter_step oper (pp_onMessage p)\<rparr>)"
  using assms by (intro local_step_same; cases oper) (auto simp: endpoint_def)

text \<open>What the replay puts on the wire.\<close>

lemma wire_writtenTime [simp]: "wire (m\<lparr>pm_writtenTime := t\<rparr>) = wire m"
  by (simp add: wire_def frame_def message_header_eq)

lemma writer_out_writeRefs:
  assumes "endpoint p" "set as \<subseteq> {..<length (pp_msgs p)}"
  shows "writer_out (pp_writer (fold (pp_writeRef fresh now) as p)) =
           writer_out (pp_writer p) @ concat (map (\<lambda>a. wire (pp_msgs p ! a)) as)"
  using assms
proof (induction as arbitrary: p)
  case (Cons a as)
  let ?p = "pp_writeRef fresh now a p"
  have a: "a < length (pp_msgs p)" and as: "set as \<subseteq> {..<length (pp_msgs p)}"
    using Cons.prems by auto
  have w: "writer_inv (pp_writer p)" "\<not> pw_isDisposed (pp_writer p)"
    using Cons.prems(1) by (auto simp: endpoint_def)
  have m: "pp_msgs ?p = (pp_msgs p)[a := (pp_msgs p ! a)\<lparr>pm_writtenTime := now\<rparr>]"
      "writer_out (pp_writer ?p) = writer_out (pp_writer p) @ wire (pp_msgs p ! a)"
    using writer_write(2,6) [OF w, of fresh now "pp_msgs p ! a"] by (simp_all add: pp_writeRef_def case_prod_unfold frame_wire)
  have "wire (pp_msgs ?p ! b) = wire (pp_msgs p ! b)" if "b \<in> set as" for b
    using that as a by (auto simp: m(1) nth_list_update)
  then have "map (\<lambda>b. wire (pp_msgs ?p ! b)) as = map (\<lambda>b. wire (pp_msgs p ! b)) as"
    by simp
  moreover have "endpoint ?p" "set as \<subseteq> {..<length (pp_msgs ?p)}"
    using local_step_writeRef [OF Cons.prems(1) a, of fresh now] as by (simp_all add: sends_step_def m(1))
  ultimately show ?case
    using Cons.IH [of ?p] m(2) by (simp cong: map_cong)
qed simp

lemma write_paused: "pw_isPaused (fst (ProtocolWriter_write fresh now m w)) = pw_isPaused w"
  by (simp add: ProtocolWriter_write_def ProtocolWriter_writeSoon_def ProtocolWriter_bufferAdd_def ProtocolWriter_scheduleWriting_def)

lemma writeRefs_paused: "pw_isPaused (pp_writer (fold (pp_writeRef fresh now) as p)) = pw_isPaused (pp_writer p)"
  by (induction as arbitrary: p) (simp_all add: pp_writeRef_def case_prod_unfold write_paused)

lemma local_step_endAcceptReconnection:
  assumes "endpoint p"
  shows "\<exists>p'. PersistentProtocol_endAcceptReconnection fresh now highLoad p = Inr p' \<and> local_step p p' \<and>
           pw_isPaused (pp_writer p') = pw_isPaused (pp_writer p) \<and>
           writer_out (pp_writer p') = writer_out (pp_writer p) @
             concat (map wire (new_ProtocolMessage MT_Ack 0 (pp_incomingMsgId p) [] # drop (nat (pp_outgoingAckId p)) (pp_msgs p)))"
proof -
  let ?m = "new_ProtocolMessage MT_Ack 0 (pp_incomingMsgId p) []"
  let ?r = "p\<lparr>pp_isReconnecting := False\<rparr>"
  let ?a = "pp_write fresh now ?m (?r\<lparr>pp_incomingAckId := pp_incomingMsgId ?r\<rparr>)"
  have w: "writer_inv (pp_writer p)" "\<not> pw_isDisposed (pp_writer p)"
    using assms by (auto simp: endpoint_def)
  have r: "local_step p ?r"
    using assms by (intro local_step_same) (auto simp: endpoint_def)
  then have "endpoint ?r"
    by (simp only: sends_step_def)
  then have a: "local_step p ?a"
    using local_step_trans [OF r local_step_write_ack [of ?r MT_Ack fresh now]] by (simp add: MT_defs)
  then have ea: "endpoint ?a"
    by (simp only: sends_step_def)
  obtain p' where p': "pp_replay fresh now highLoad ?a = Inr p'" "local_step ?a p'"
      "pp_writer p' = pp_writer (fold (pp_writeRef fresh now) (queue_contents (pp_outgoingUnackMsg ?a)) ?a)"
    using local_step_replay [OF ea] by blast
  have "PersistentProtocol_endAcceptReconnection fresh now highLoad p = Inr p'"
    using p'(1) by (simp add: PersistentProtocol_endAcceptReconnection_def Let_def)
  moreover have q: "queue_contents (pp_outgoingUnackMsg ?a) = [nat (pp_outgoingAckId p)..<length (pp_msgs p)]" "pp_msgs ?a = pp_msgs p"
    using assms by (simp_all add: endpoint_def pp_write_def)
  have "writer_out (pp_writer p') =
      writer_out (pp_writer ?a) @ concat (map (\<lambda>a. wire (pp_msgs p ! a)) [nat (pp_outgoingAckId p)..<length (pp_msgs p)])"
    unfolding p'(3) q(1) using writer_out_writeRefs [OF ea, of "[nat (pp_outgoingAckId p)..<length (pp_msgs p)]" fresh now]
    unfolding q(2) by (simp add: subset_iff)
  moreover have "writer_out (pp_writer ?a) = writer_out (pp_writer p) @ wire ?m"
    using writer_write(2) [OF w, of fresh now ?m] by (simp add: pp_write_def frame_wire)
  moreover have "pw_isPaused (pp_writer p') = pw_isPaused (pp_writer p)"
    by (simp add: p'(3) writeRefs_paused pp_write_def write_paused)
  moreover have "map (\<lambda>a. wire (pp_msgs p ! a)) [k..<length (pp_msgs p)] = map wire (drop k (pp_msgs p))" for k
    by (rule nth_equalityI) auto
  ultimately show ?thesis
    using local_step_trans [OF a p'(2)] by auto
qed

fun sent_by :: "endpoint_op \<Rightarrow> bytes list" where
  "sent_by (OSend now highLoad buffer) = [buffer]"
| "sent_by _ = []"

lemma endpoint_run_local:
  assumes "endpoint p" "endpoint_op_ok oper p"
  shows "\<exists>p'. endpoint_run fresh oper p = Inr p' \<and> sends_step (sent_by oper) p p'"
proof (cases oper)
  case (OSend now highLoad buffer)
  with assms local_step_send [OF assms(1), of buffer fresh now highLoad] show ?thesis
    by auto
next
  case (OSendControl now buffer)
  with assms local_step_control [OF assms(1), of MT_Control buffer fresh now] show ?thesis
    by (simp add: PersistentProtocol_sendControl_def MT_defs)
next
  case (OSendPause now)
  with assms local_step_control [OF assms(1), of MT_Pause "[]" fresh now] show ?thesis
    by (simp add: PersistentProtocol_sendPause_def MT_defs)
next
  case (OSendResume now)
  with assms local_step_control [OF assms(1), of MT_Resume "[]" fresh now] show ?thesis
    by (simp add: PersistentProtocol_sendResume_def MT_defs)
next
  case (OSendDisconnect now)
  with assms local_step_sendDisconnect show ?thesis
    by simp
next
  case OPauseSocketWriting
  with assms local_step_pause show ?thesis
    by (simp add: PersistentProtocol_pauseSocketWriting_def)
next
  case (OKeepAlive now)
  with assms local_step_acks show ?thesis
    by simp
next
  case (OIncomingAckTimeout now)
  with assms local_step_acks show ?thesis
    by simp
next
  case (OOutgoingAckTimeout now highLoad)
  with assms local_step_outgoingAckTimeout show ?thesis
    by simp
next
  case OWriterTimeout
  with assms local_step_flush show ?thesis
    by simp
next
  case OFlush
  with assms local_step_flush show ?thesis
    by (simp add: PersistentProtocol_flush_def)
next
  case (OEndAcceptReconnection now highLoad)
  with local_step_endAcceptReconnection [OF assms(1), of fresh now highLoad] show ?thesis
    by auto
next
  case (OListen e)
  with assms(2) have "e \<noteq> EFire x" for x
    by auto
  with OListen local_step_listen [OF assms(1)] show ?thesis
    by simp
next
  case (OSocketClose e)
  then show ?thesis
    using assms(1) by (auto simp: PersistentProtocol_onSocketClose_def endpoint_def intro!: local_step_same)
next
  case OAcceptDisconnect
  then show ?thesis
    using assms(1) by (auto simp: PersistentProtocol_acceptDisconnect_def endpoint_def intro!: local_step_same)
qed

section \<open>Receiving\<close>

lemma confirm_loop_spec:
  assumes "queue_inv (pp_outgoingUnackMsg p)" "queue_contents (pp_outgoingUnackMsg p) = [a..<n]" "n \<le> length (pp_msgs p)"
    "\<And>i. i < n \<Longrightarrow> pm_id (pp_msgs p ! i) = int i + 1" "0 \<le> ack" "n - a < fuel"
  shows "\<exists>q. confirm_loop fuel ack p = Inr (p\<lparr>pp_outgoingUnackMsg := q\<rparr>) \<and> queue_inv q \<and> queue_contents q = [max a (nat ack)..<n]"
  using assms
proof (induction fuel arbitrary: p a)
  case (Suc fuel)
  show ?case
  proof (cases "a < n \<and> int a + 1 \<le> ack")
    case True
    let ?q = "Queue_pop (pp_outgoingUnackMsg p)"
    have peek: "Queue_peek (pp_outgoingUnackMsg p) = Some a"
      using ipcq.peek [OF Suc.prems(1)] Suc.prems(2) True by (simp add: upt_conv_Cons)
    have "queue_inv ?q" "queue_contents ?q = [Suc a..<n]"
      using ipcq.inv_deq [OF Suc.prems(1)] ipcq.contents_deq [OF Suc.prems(1)] Suc.prems(2) True by (simp_all add: upt_conv_Cons)
    moreover have "n - Suc a < fuel"
      using Suc.prems(6) True by arith
    ultimately obtain q where "confirm_loop fuel ack (p\<lparr>pp_outgoingUnackMsg := ?q\<rparr>) = Inr (p\<lparr>pp_outgoingUnackMsg := q\<rparr>)"
        "queue_inv q" "queue_contents q = [max (Suc a) (nat ack)..<n]"
      using Suc.IH [of "p\<lparr>pp_outgoingUnackMsg := ?q\<rparr>" "Suc a"] Suc.prems(3-5) by auto
    moreover have "max (Suc a) (nat ack) = max a (nat ack)"
      using True by (simp add: max_def) arith
    ultimately show ?thesis
      using peek True Suc.prems(4) by auto
  next
    case False
    have "confirm_loop (Suc fuel) ack p = Inr p"
      using ipcq.peek [OF Suc.prems(1)] Suc.prems(2,4) False by (cases "a < n") (auto simp: upt_conv_Cons)
    moreover have "a < n \<Longrightarrow> max a (nat ack) = a"
      using False by arith
    then have "[max a (nat ack)..<n] = [a..<n]"
      by (cases "a < n") simp_all
    ultimately show ?thesis
      using Suc.prems(1,2) by (intro exI [of _ "pp_outgoingUnackMsg p"]) simp
  qed
qed simp

definition acknowledge :: "int \<Rightarrow> persistentProtocol \<Rightarrow> js_error + persistentProtocol" where
  "acknowledge ack p =
     (if ack > pp_outgoingAckId p
      then confirm_loop (length (q_heap (pp_outgoingUnackMsg p)) + 1) ack (p\<lparr>pp_outgoingAckId := ack\<rparr>) else Inr p)"

lemma queue_contents_heap: "queue_inv q \<Longrightarrow> length (queue_contents q) \<le> length (q_heap q)"
  using queue_at_length by (auto simp: queue_inv_def queue_at_contents(2))

lemma acknowledge_spec:
  assumes "endpoint p" "ack \<le> pp_outgoingMsgId p"
  shows "\<exists>q. acknowledge ack p = Inr (p\<lparr>pp_outgoingAckId := max (pp_outgoingAckId p) ack, pp_outgoingUnackMsg := q\<rparr>) \<and>
           endpoint (p\<lparr>pp_outgoingAckId := max (pp_outgoingAckId p) ack, pp_outgoingUnackMsg := q\<rparr>)"
proof (cases "pp_outgoingAckId p < ack")
  case True
  let ?p = "p\<lparr>pp_outgoingAckId := ack\<rparr>" and ?a = "nat (pp_outgoingAckId p)" and ?n = "length (pp_msgs p)"
  have q: "queue_inv (pp_outgoingUnackMsg p)" "queue_contents (pp_outgoingUnackMsg p) = [?a..<?n]"
    "\<And>i. i < ?n \<Longrightarrow> pm_id (pp_msgs p ! i) = int i + 1" "0 \<le> ack"
    using assms(1) True by (auto simp: endpoint_def)
  have "?n - ?a < length (q_heap (pp_outgoingUnackMsg p)) + 1"
    using queue_contents_heap [OF q(1)] q(2) by simp
  then obtain q' where q': "confirm_loop (length (q_heap (pp_outgoingUnackMsg p)) + 1) ack ?p = Inr (?p\<lparr>pp_outgoingUnackMsg := q'\<rparr>)"
      "queue_inv q'" "queue_contents q' = [max ?a (nat ack)..<?n]"
    using confirm_loop_spec [of ?p ?a ?n ack "length (q_heap (pp_outgoingUnackMsg p)) + 1"] q by auto
  have m: "max (pp_outgoingAckId p) ack = ack" "max ?a (nat ack) = nat ack"
    using True by auto
  have "endpoint (?p\<lparr>pp_outgoingUnackMsg := q'\<rparr>)"
    using assms q'(2,3) q(4) unfolding endpoint_def m by simp
  then show ?thesis
    using q'(1) True by (intro exI [of _ q']) (simp add: acknowledge_def m)
next
  case False
  then have "max (pp_outgoingAckId p) ack = pp_outgoingAckId p"
    by simp
  then show ?thesis
    using False assms(1) by (intro exI [of _ "pp_outgoingUnackMsg p"]) (simp add: acknowledge_def)
qed

text \<open>What hearing a message does.\<close>

definition next_id :: "protocolMessage \<Rightarrow> int \<Rightarrow> int" where
  "next_id m i = (if pm_type m = MT_Regular \<and> pm_id m = i + 1 then i + 1 else i)"

definition hears :: "protocolMessage \<Rightarrow> persistentProtocol \<Rightarrow> persistentProtocol \<Rightarrow> bool" where
  "hears m p p' \<longleftrightarrow>
     endpoint p' \<and> pp_reader p' = pp_reader p \<and> payloads p' = payloads p \<and> says p p' \<and>
     pp_outgoingAckId p' = max (pp_outgoingAckId p) (pm_ack m) \<and> pp_incomingMsgId p' = next_id m (pp_incomingMsgId p) \<and>
     received p' = received p @ (if pp_incomingMsgId p' = pp_incomingMsgId p then [] else [pm_data m])"

lemma hears_local:
  assumes "local_step p p'" "pm_type m \<noteq> MT_Regular \<or> pm_id m \<noteq> pp_incomingMsgId p + 1" "pm_ack m \<le> pp_outgoingAckId p"
  shows "hears m p p'"
  using assms by (auto simp: sends_step_def hears_def next_id_def)

lemma hears_next:
  assumes "endpoint p" "pm_type m = MT_Regular" "pm_id m = pp_incomingMsgId p + 1" "pm_id m < 2 ^ 32" "pm_ack m \<le> pp_outgoingAckId p"
  shows "\<exists>p'. receive_switch fresh now highLoad m p = Inr p' \<and> hears m p p'"
proof -
  let ?p = "p\<lparr>pp_incomingMsgId := pm_id m, pp_incomingMsgLastTime := now\<rparr>"
  let ?q = "PersistentProtocol_sendAckCheck fresh now ?p"
  let ?r = "?q\<lparr>pp_onMessage := BufferedEmitter_fire (pm_data m) (pp_onMessage ?q)\<rparr>"
  have "endpoint ?p"
    using assms by (force simp: endpoint_def)
  then have q: "local_step ?p ?q"
    by (rule local_step_acks)
  have "receive_switch fresh now highLoad m p = Inr ?r"
    using assms(2,3) by (simp add: receive_switch_def Let_def MT_defs)
  moreover have "hears m p ?r"
  proof -
    have "endpoint ?r = endpoint ?q" "speaks ?r = speaks ?q"
      by (simp_all add: endpoint_def speaks_def fun_eq_iff)
    moreover have "endpoint ?q" "pp_incomingMsgId ?q = pm_id m" "pp_outgoingAckId ?q = pp_outgoingAckId p" "received ?q = received p"
        "pp_reader ?q = pp_reader p" "payloads ?q = payloads p" "says ?p ?q"
      using q by (simp_all add: sends_step_def)
    ultimately show ?thesis
      using assms(2,3,5) by (simp add: hears_def next_id_def says_def)
  qed
  ultimately show ?thesis
    by blast
qed

lemma receive_switch_hears:
  assumes "endpoint p" "pm_id m < 2 ^ 32" "pm_ack m \<le> pp_outgoingAckId p"
  shows "\<exists>p'. receive_switch fresh now highLoad m p = Inr p' \<and> hears m p p'"
proof (cases "pm_type m = MT_Regular \<and> pm_id m = pp_incomingMsgId p + 1")
  case True
  with assms hears_next show ?thesis
    by blast
next
  case False
  have time: "local_step p (p\<lparr>pp_lastReplayRequestTime := now\<rparr>)"
    using assms(1) by (intro local_step_same) (auto simp: endpoint_def)
  then have replay: "local_step p (pp_write fresh now (new_ProtocolMessage MT_ReplayRequest 0 0 []) (p\<lparr>pp_lastReplayRequestTime := now\<rparr>))"
    by (rule local_step_trans, intro local_step_control) (use time in \<open>auto simp: sends_step_def MT_defs\<close>)
  have fires: "local_step p (p\<lparr>pp_onControlMessage := c\<rparr>)" "local_step p (p\<lparr>pp_onDidDispose := d\<rparr>)" for c d
    using assms(1) by (auto intro!: local_step_same simp: endpoint_def)
  have "\<exists>p'. receive_switch fresh now highLoad m p = Inr p' \<and> local_step p p'"
    using False replay fires local_step_refl [OF assms(1)] local_step_pause [OF assms(1)] local_step_replay [OF assms(1), of fresh now highLoad]
    unfolding receive_switch_def by (auto simp: MT_defs)
  with hears_local [OF _ _ assms(3)] False show ?thesis
    by blast
qed

lemma receiveMessage_hears:
  assumes "endpoint p" "pm_id m < 2 ^ 32" "pm_ack m \<le> pp_outgoingMsgId p"
  shows "\<exists>p'. PersistentProtocol_receiveMessage fresh now highLoad m p = Inr p' \<and> hears m p p'"
proof -
  obtain q where q: "acknowledge (pm_ack m) p = Inr (p\<lparr>pp_outgoingAckId := max (pp_outgoingAckId p) (pm_ack m), pp_outgoingUnackMsg := q\<rparr>)"
      "endpoint (p\<lparr>pp_outgoingAckId := max (pp_outgoingAckId p) (pm_ack m), pp_outgoingUnackMsg := q\<rparr>)" (is "endpoint ?p")
    using acknowledge_spec [OF assms(1,3)] by blast
  obtain p' where p': "receive_switch fresh now highLoad m ?p = Inr p'" "hears m ?p p'"
    using receive_switch_hears [OF q(2) assms(2), of fresh now highLoad] by auto
  have "PersistentProtocol_receiveMessage fresh now highLoad m p = Inr p'"
    using q(1) p'(1) by (simp add: PersistentProtocol_receiveMessage_def flip: acknowledge_def)
  moreover have "hears m p p'"
    using p'(2) by (simp add: hears_def says_def)
  ultimately show ?thesis
    by blast
qed

end
