(* ===== verification/Ipc_Delivery.thy ===== *)
theory Ipc_Delivery
  imports Ipc_Endpoint
begin

text \<open>
  Two \<open>PersistentProtocol\<close> objects that talk to each other over a sequence of sockets: each side may move
  to a new socket at any time, sockets deliver any prefix of what was written in chunks of any size.
  Every message arrives once and in order, and after a reconnection nothing is missing.
\<close>

section \<open>Two endpoints\<close>

definition linked :: "persistentProtocol \<Rightarrow> persistentProtocol \<Rightarrow> bool" where
  "linked p y \<longleftrightarrow>
     received p = take (nat (pp_incomingMsgId p)) (payloads y) \<and> pp_incomingMsgId p \<le> int (length (pp_msgs y)) \<and>
     pp_outgoingAckId y \<le> pp_incomingMsgId p"

definition joined :: "persistentProtocol \<Rightarrow> persistentProtocol \<Rightarrow> bool" where
  "joined p y \<longleftrightarrow> endpoint p \<and> endpoint y \<and> linked p y \<and> linked y p"

definition advances :: "persistentProtocol \<Rightarrow> persistentProtocol \<Rightarrow> bool" where
  "advances p p' \<longleftrightarrow> prefix (payloads p) (payloads p') \<and> pp_incomingMsgId p \<le> pp_incomingMsgId p' \<and> says p p'"

lemma joined_sym: "joined p y \<Longrightarrow> joined y p"
  by (auto simp: joined_def)

lemma advances_refl: "advances p p"
  by (auto simp: advances_def says_def intro!: exI [of _ "[]"])

lemma advances_trans:
  assumes "advances p q" "advances q r"
  shows "advances p r"
proof -
  obtain ms ns where ms: "writer_out (pp_writer q) = writer_out (pp_writer p) @ concat (map wire ms)" "\<forall>m \<in> set ms. speaks q m"
    and ns: "writer_out (pp_writer r) = writer_out (pp_writer q) @ concat (map wire ns)" "\<forall>m \<in> set ns. speaks r m"
    using assms by (auto simp: advances_def says_def)
  have "\<forall>m \<in> set ms. speaks r m"
    using ms(2) assms(2) speaks_grow [of q _ r] by (auto simp: advances_def)
  then have "says p r"
    using assms prefix_order.trans unfolding says_def
    by (intro conjI exI [of _ "ms @ ns"]) (use ms(1) ns in \<open>auto simp: advances_def says_def\<close>)
  then show ?thesis
    using assms by (auto simp: advances_def)
qed

lemma linked_grow:
  assumes "linked p y" "prefix (payloads y) (payloads y')" "pp_outgoingAckId y' \<le> pp_incomingMsgId p"
  shows "linked p y'"
proof -
  obtain zs where zs: "payloads y' = payloads y @ zs"
    using assms(2) by (auto simp: prefix_def)
  then have "length (pp_msgs y') = length (pp_msgs y) + length zs"
    by (metis length_append length_map)
  then show ?thesis
    using assms(1,3) zs by (auto simp: linked_def)
qed

lemma joined_local:
  assumes "joined p y" "sends_step new p p'"
  shows "joined p' y" "advances p p'"
  using assms linked_grow [of y p p'] by (auto simp: joined_def advances_def sends_step_def linked_def)

lemma joined_hears:
  assumes "joined p y" "speaks y m" "hears m p p'"
  shows "joined p' y" "advances p p'"
proof -
  have j: "endpoint p" "endpoint y" "linked p y" "linked y p"
    using assms(1) by (auto simp: joined_def)
  have inc: "0 \<le> pp_incomingMsgId p"
    using j(1) by (auto simp: endpoint_def)
  have le: "pp_incomingMsgId p \<le> pp_incomingMsgId p'"
    using assms(3) by (simp add: hears_def next_id_def)
  then show "advances p p'"
    using assms(3) by (simp add: hears_def advances_def)
  have "pm_ack m \<le> pp_incomingMsgId y"
    using assms(2) by (simp add: speaks_def)
  then have "linked y p'"
    using j(4) assms(3) by (intro linked_grow [OF j(4)]) (auto simp: linked_def hears_def)
  moreover have "linked p' y"
  proof (cases "pp_incomingMsgId p' = pp_incomingMsgId p")
    case True
    then show ?thesis
      using j(3) assms(3) by (simp add: linked_def hears_def)
  next
    case False
    then have m: "pm_type m = MT_Regular" "pm_id m = pp_incomingMsgId p + 1" "pp_incomingMsgId p' = pp_incomingMsgId p + 1"
      using assms(3) by (auto simp: hears_def next_id_def split: if_splits)
    let ?i = "nat (pp_incomingMsgId p)"
    have d: "?i < length (payloads y)" "pm_data m = payloads y ! ?i"
      using m assms(2) inc by (auto simp: speaks_def)
    then have "take (nat (pp_incomingMsgId p + 1)) (payloads y) = take ?i (payloads y) @ [pm_data m]"
      using inc by (simp add: nat_add_distrib take_Suc_conv_app_nth)
    then show ?thesis
      using j(3) assms(3) m d(1) inc by (auto simp: linked_def hears_def)
  qed
  ultimately show "joined p' y"
    using j(2) assms(3) by (simp add: joined_def hears_def)
qed

lemma receiveMessage_joined:
  assumes "joined p y" "speaks y m"
  shows "\<exists>p'. PersistentProtocol_receiveMessage fresh now highLoad m p = Inr p' \<and> hears m p p' \<and> joined p' y \<and> advances p p'"
proof -
  have "endpoint p" "linked y p"
    using assms(1) by (auto simp: joined_def)
  then have "pm_id m < 2 ^ 32" "pm_ack m \<le> pp_outgoingMsgId p"
    using assms(2) by (auto simp: speaks_def linked_def endpoint_def wire_ok_def)
  then obtain p' where "PersistentProtocol_receiveMessage fresh now highLoad m p = Inr p'" "hears m p p'"
    using receiveMessage_hears [OF \<open>endpoint p\<close>] by blast
  with joined_hears [OF assms] show ?thesis
    by blast
qed

lemma receive_all:
  assumes "joined p y" "\<forall>m \<in> set ms. speaks y m"
  shows "\<exists>p'. fire_all (pp_fire fresh now highLoad) ms (Inr p) = Inr p' \<and> joined p' y \<and> advances p p' \<and> payloads p' = payloads p \<and>
           pp_incomingMsgId p' = fold next_id ms (pp_incomingMsgId p)"
  using assms
proof (induction ms arbitrary: p)
  case Nil
  then show ?case
    by (simp add: advances_refl)
next
  case (Cons m ms)
  obtain q where q: "PersistentProtocol_receiveMessage fresh now highLoad m p = Inr q" "hears m p q" "joined q y" "advances p q"
    using receiveMessage_joined [OF Cons.prems(1)] Cons.prems(2) by (meson list.set_intros(1))
  then obtain p' where "fire_all (pp_fire fresh now highLoad) ms (Inr q) = Inr p'" "joined p' y" "advances q p'"
      "payloads p' = payloads q" "pp_incomingMsgId p' = fold next_id ms (pp_incomingMsgId q)"
    using Cons.IH [of q] Cons.prems(2) by auto
  with q show ?case
    using advances_trans [OF q(4)] by (auto simp: pp_fire_def hears_def)
qed

lemma joined_reader: "joined (p\<lparr>pp_reader := r\<rparr>) y = joined p y" "advances p (q\<lparr>pp_reader := r\<rparr>) = advances p q"
    "advances (p\<lparr>pp_reader := r\<rparr>) q = advances p q"
  by (simp_all add: joined_def linked_def endpoint_def advances_def says_def speaks_def)

text \<open>A chunk that continues what the peer says.\<close>

lemma onData_joined:
  assumes "joined p y" "settled (pp_reader p) q" "\<forall>m \<in> set (fst (parse_frames (q @ d))). speaks y m"
  shows "\<exists>p'. PersistentProtocol_onData fresh now highLoad (Some d) p = Inr p' \<and> joined p' y \<and> advances p p' \<and> payloads p' = payloads p \<and>
           settled (pp_reader p') (snd (parse_frames (q @ d))) \<and>
           pp_incomingMsgId p' = fold next_id (fst (parse_frames (q @ d))) (pp_incomingMsgId p)"
proof -
  define p0 where "p0 = (if Some d = None \<or> Some d = Some [] then p else p\<lparr>pp_reader := (pp_reader p)\<lparr>pr_lastReadTime := now\<rparr>\<rparr>)"
  have p0: "joined p0 y" "pp_incomingMsgId p0 = pp_incomingMsgId p" "advances p0 = advances p" "payloads p0 = payloads p"
    using assms(1) by (auto simp: p0_def joined_reader fun_eq_iff)
  have live: "\<not> snd (pp_fire fresh now highLoad m e)" for m e
    by (simp add: pp_fire_def)
  let ?e = "fire_all (pp_fire fresh now highLoad) (fst (parse_frames (q @ d))) (Inr p0)"
  obtain r where r: "ProtocolReader_acceptChunk fresh now (pp_fire fresh now highLoad) (Some d) (pp_reader p) (Inr p0) = Inr (r, ?e)"
      "settled r (snd (parse_frames (q @ d)))"
    using acceptChunk_parses [where fire = "pp_fire fresh now highLoad" and fresh = fresh and now = now and d = d and e = "Inr p0",
        OF assms(2) live]
    by (elim exE conjE) (rule that)
  obtain p' where p': "?e = Inr p'" "joined p' y" "advances p0 p'" "payloads p' = payloads p0"
      "pp_incomingMsgId p' = fold next_id (fst (parse_frames (q @ d))) (pp_incomingMsgId p0)"
    using receive_all [OF p0(1) assms(3), of fresh now highLoad] by auto
  have "PersistentProtocol_onData fresh now highLoad (Some d) p = Inr (p'\<lparr>pp_reader := r\<rparr>)"
    using r(1) p'(1) unfolding PersistentProtocol_onData_def Let_def p0_def [symmetric] by simp
  then show ?thesis
    using p' r(2) p0 by (intro exI [of _ "p'\<lparr>pp_reader := r\<rparr>"]) (simp add: joined_reader)
qed


section \<open>Sockets come and go\<close>

text \<open>
  A side has its protocol object, the number of the socket it is connected to, the bytes that it wrote
  to the sockets it has left, the number of bytes it has read from its socket, and the buffers its
  client has sent.
\<close>

record side =
  sd_proto :: persistentProtocol
  sd_socket :: nat
  sd_left :: "nat \<Rightarrow> bytes"
  sd_read :: nat
  sd_sent :: "bytes list"

definition stream :: "side \<Rightarrow> nat \<Rightarrow> bytes" where
  "stream x e = (if e = sd_socket x then concat (pw_sent (pp_writer (sd_proto x))) else sd_left x e)"

definition pending :: "side \<Rightarrow> side \<Rightarrow> bytes" where
  "pending x y = drop (sd_read x) (stream y (sd_socket x))"

text \<open>
  The steps of the first side: an operation of its client or a timer; a chunk from the peer on the
  same socket; a move to a later socket, whose first bytes may have been read already.
\<close>

inductive side_step :: "side \<Rightarrow> side \<Rightarrow> side \<Rightarrow> bool" where
  Operation: "endpoint_op_ok oper (sd_proto x) \<Longrightarrow> endpoint_run fresh oper (sd_proto x) = Inr p \<Longrightarrow>
     side_step y x (x\<lparr>sd_proto := p, sd_sent := sd_sent x @ sent_by oper\<rparr>)"
| Chunk: "prefix d (pending x y) \<Longrightarrow> PersistentProtocol_onData fresh now highLoad (Some d) (sd_proto x) = Inr p \<Longrightarrow>
     side_step y x (x\<lparr>sd_proto := p, sd_read := sd_read x + length d\<rparr>)"
| Reconnect: "sd_socket x < e \<Longrightarrow> prefix d (stream y e) \<Longrightarrow>
     PersistentProtocol_beginAcceptReconnection fresh now highLoad (Some d) (sd_proto x) = Inr p \<Longrightarrow>
     side_step y x (x\<lparr>sd_proto := p, sd_socket := e, sd_read := length d,
       sd_left := (sd_left x)(sd_socket x := concat (pw_sent (ProtocolWriter_dispose fresh (pp_writer (sd_proto x)))))\<rparr>)"

inductive connection :: "side \<Rightarrow> side \<Rightarrow> bool" where
  Start: "new_PersistentProtocol fresh now highLoad keepAlive None = Inr p \<Longrightarrow>
     new_PersistentProtocol fresh' now' highLoad' keepAlive' None = Inr p' \<Longrightarrow>
     connection \<lparr>sd_proto = p, sd_socket = 0, sd_left = (\<lambda>_. []), sd_read = 0, sd_sent = []\<rparr>
       \<lparr>sd_proto = p', sd_socket = 0, sd_left = (\<lambda>_. []), sd_read = 0, sd_sent = []\<rparr>"
| Left: "connection x y \<Longrightarrow> side_step y x x' \<Longrightarrow> connection x' y"
| Right: "connection x y \<Longrightarrow> side_step x y y' \<Longrightarrow> connection x y'"

text \<open>
  The invariant.  Every stream is a prefix of frames the side may have said, and the reader has
  consumed what was read.
\<close>

definition authentic :: "side \<Rightarrow> bytes \<Rightarrow> bool" where
  "authentic y bs \<longleftrightarrow> (\<exists>ms. prefix bs (concat (map wire ms)) \<and> (\<forall>m \<in> set ms. speaks (sd_proto y) m))"

definition side_inv :: "side \<Rightarrow> side \<Rightarrow> bool" where
  "side_inv y x \<longleftrightarrow>
     sd_sent x = payloads (sd_proto x) \<and>
     (\<exists>ms. writer_out (pp_writer (sd_proto x)) = concat (map wire ms) \<and> (\<forall>m \<in> set ms. speaks (sd_proto x) m)) \<and>
     (\<forall>e. authentic x (sd_left x e)) \<and> (\<forall>e > sd_socket x. sd_left x e = []) \<and>
     sd_read x \<le> length (stream y (sd_socket x)) \<and>
     settled (pp_reader (sd_proto x)) (snd (parse_frames (take (sd_read x) (stream y (sd_socket x)))))"

definition connection_inv :: "side \<Rightarrow> side \<Rightarrow> bool" where
  "connection_inv x y \<longleftrightarrow> joined (sd_proto x) (sd_proto y) \<and> side_inv y x \<and> side_inv x y"

lemma authentic_stream:
  assumes "side_inv y x"
  shows "authentic x (stream x e)"
proof (cases "e = sd_socket x")
  case True
  then have "prefix (stream x e) (writer_out (pp_writer (sd_proto x)))"
    by (simp add: stream_def writer_out_def)
  with assms True show ?thesis
    by (auto simp: side_inv_def authentic_def)
next
  case False
  with assms show ?thesis
    by (simp add: side_inv_def stream_def)
qed

lemma authentic_prefix: "authentic x bs \<Longrightarrow> prefix cs bs \<Longrightarrow> authentic x cs"
  unfolding authentic_def by (meson prefix_order.trans)

lemma speaks_on_wire [simp]: "speaks p (on_wire m) = speaks p m"
  by (simp add: speaks_def on_wire_def wire_ok_def)

lemma authentic_speaks:
  assumes "authentic x bs"
  shows "\<forall>m \<in> set (fst (parse_frames bs)). speaks (sd_proto x) m"
proof -
  obtain ms rest where ms: "concat (map wire ms) = bs @ rest" "\<forall>m \<in> set ms. speaks (sd_proto x) m"
    using assms by (auto simp: authentic_def prefix_def)
  then have "\<forall>m \<in> set ms. wire_ok m"
    by (auto simp: speaks_def)
  then obtain k where "fst (parse_frames bs) = map on_wire (take k ms)"
    using parse_frames_prefix [of ms "\<lambda>_. 0" bs rest] ms(1) by (auto simp: wire_def [abs_def])
  then show ?thesis
    using ms(2) by (auto dest: in_set_takeD)
qed

lemma take_prefix_eq: "prefix bs cs \<Longrightarrow> n \<le> length bs \<Longrightarrow> take n cs = take n bs"
  by (auto simp: prefix_def)

lemma authentic_grow:
  assumes "authentic x bs" "prefix (payloads (sd_proto x)) (payloads (sd_proto x'))"
    "pp_incomingMsgId (sd_proto x) \<le> pp_incomingMsgId (sd_proto x')"
  shows "authentic x' bs"
  using assms speaks_grow unfolding authentic_def by blast

lemma side_inv_peer:
  assumes "side_inv x y" "\<And>e. prefix (stream x e) (stream x' e)"
  shows "side_inv x' y"
proof -
  have "take (sd_read y) (stream x' (sd_socket y)) = take (sd_read y) (stream x (sd_socket y))"
    "sd_read y \<le> length (stream x' (sd_socket y))"
    using assms(1) take_prefix_eq [OF assms(2)] prefix_length_le [OF assms(2) [of "sd_socket y"]] by (auto simp: side_inv_def)
  with assms(1) show ?thesis
    by (simp add: side_inv_def)
qed

text \<open>Progress on the same socket.\<close>

lemma connection_advance:
  assumes "connection_inv x y" "joined p (sd_proto y)" "advances (sd_proto x) p" "sent = payloads p"
    "n \<le> length (stream y (sd_socket x))" "settled (pp_reader p) (snd (parse_frames (take n (stream y (sd_socket x)))))"
  shows "connection_inv (x\<lparr>sd_proto := p, sd_read := n, sd_sent := sent\<rparr>) y" (is "connection_inv ?x y")
proof -
  have x: "side_inv y x" "side_inv x y"
    using assms(1) by (auto simp: connection_inv_def)
  obtain ms where ms: "writer_out (pp_writer (sd_proto x)) = concat (map wire ms)" "\<forall>m \<in> set ms. speaks (sd_proto x) m"
    using x(1) by (auto simp: side_inv_def)
  obtain ns where ns: "writer_out (pp_writer p) = writer_out (pp_writer (sd_proto x)) @ concat (map wire ns)" "\<forall>m \<in> set ns. speaks p m"
      "prefix (pw_sent (pp_writer (sd_proto x))) (pw_sent (pp_writer p))"
    using assms(3) by (auto simp: advances_def says_def)
  have grow: "speaks p m" if "speaks (sd_proto x) m" for m
    using speaks_grow [OF that] assms(3) by (simp add: advances_def)
  have "\<exists>ms. writer_out (pp_writer p) = concat (map wire ms) \<and> (\<forall>m \<in> set ms. speaks p m)"
    using ms ns grow by (intro exI [of _ "ms @ ns"]) auto
  moreover have left: "authentic x (sd_left x e)" for e
    using x(1) unfolding side_inv_def by blast
  have "authentic ?x (sd_left x e)" for e
    using left [of e] by (rule authentic_grow) (use assms(3) in \<open>simp_all add: advances_def\<close>)
  ultimately have "side_inv y ?x"
    using x(1) assms(4-6) by (simp add: side_inv_def)
  moreover have "prefix (stream x e) (stream ?x e)" for e
    using ns(3) by (auto simp: stream_def prefix_def)
  then have "side_inv ?x y"
    by (rule side_inv_peer [OF x(2)])
  ultimately show ?thesis
    using assms(2) by (simp add: connection_inv_def)
qed

lemma connection_operation:
  assumes "connection_inv x y" "endpoint_op_ok oper (sd_proto x)"
  shows "\<exists>p. endpoint_run fresh oper (sd_proto x) = Inr p \<and>
           connection_inv (x\<lparr>sd_proto := p, sd_sent := sd_sent x @ sent_by oper\<rparr>) y"
proof -
  have j: "joined (sd_proto x) (sd_proto y)" "side_inv y x"
    using assms(1) by (auto simp: connection_inv_def)
  then obtain p where p: "endpoint_run fresh oper (sd_proto x) = Inr p" "sends_step (sent_by oper) (sd_proto x) p"
    using endpoint_run_local [OF _ assms(2)] by (auto simp: joined_def)
  have "connection_inv (x\<lparr>sd_proto := p, sd_read := sd_read x, sd_sent := sd_sent x @ sent_by oper\<rparr>) y"
    using joined_local [OF j(1) p(2)] j(2) p(2) by (intro connection_advance [OF assms(1)]) (auto simp: side_inv_def sends_step_def)
  then show ?thesis
    using p(1) by auto
qed

lemma connection_chunk:
  assumes "connection_inv x y" "prefix d (pending x y)"
  shows "\<exists>p. PersistentProtocol_onData fresh now highLoad (Some d) (sd_proto x) = Inr p \<and>
           connection_inv (x\<lparr>sd_proto := p, sd_read := sd_read x + length d\<rparr>) y"
proof -
  have j: "joined (sd_proto x) (sd_proto y)" and x: "side_inv y x" and y: "side_inv x y"
    using assms(1) by (auto simp: connection_inv_def)
  let ?s = "stream y (sd_socket x)" and ?n = "sd_read x + length d"
  let ?q = "snd (parse_frames (take (sd_read x) ?s))"
  have r: "sd_read x \<le> length ?s" "settled (pp_reader (sd_proto x)) ?q" "sd_sent x = payloads (sd_proto x)"
    using x by (simp_all add: side_inv_def)
  have d: "take ?n ?s = take (sd_read x) ?s @ d" "?n \<le> length ?s"
    using assms(2) r(1) prefix_length_le [OF assms(2)] by (auto simp: pending_def prefix_def take_add)
  have "authentic y (take ?n ?s)"
    by (rule authentic_prefix [OF authentic_stream [OF y]], rule take_is_prefix)
  then have "\<forall>m \<in> set (fst (parse_frames (?q @ d))). speaks (sd_proto y) m"
    using authentic_speaks [of y "take ?n ?s"] unfolding d(1) parse_frames_append [of "take (sd_read x) ?s" d] by simp
  then obtain p where p: "PersistentProtocol_onData fresh now highLoad (Some d) (sd_proto x) = Inr p" "joined p (sd_proto y)"
      "advances (sd_proto x) p" "payloads p = payloads (sd_proto x)" "settled (pp_reader p) (snd (parse_frames (?q @ d)))"
    using onData_joined [OF j r(2)] by blast
  have "snd (parse_frames (take ?n ?s)) = snd (parse_frames (?q @ d))"
    unfolding d(1) parse_frames_append [of "take (sd_read x) ?s" d] by simp
  then have "connection_inv (x\<lparr>sd_proto := p, sd_read := ?n, sd_sent := sd_sent x\<rparr>) y"
    using p d(2) r(3) by (intro connection_advance [OF assms(1)]) simp_all
  then show ?thesis
    using p(1) by auto
qed

lemma dispose_stream:
  assumes "writer_inv w"
  shows "prefix (concat (pw_sent w)) (concat (pw_sent (ProtocolWriter_dispose fresh w)))"
    "prefix (concat (pw_sent (ProtocolWriter_dispose fresh w))) (writer_out w)"
proof -
  obtain w' where w': "ProtocolWriter_flush fresh w = Inr w'" "writer_out w' = writer_out w"
    using writer_flush [OF assms] by blast
  then have "ProtocolWriter_dispose fresh w = w'\<lparr>pw_isDisposed := True\<rparr>"
    by (simp add: ProtocolWriter_dispose_def)
  then show "prefix (concat (pw_sent w)) (concat (pw_sent (ProtocolWriter_dispose fresh w)))"
    "prefix (concat (pw_sent (ProtocolWriter_dispose fresh w))) (writer_out w)"
    using sent_flush(1) [OF assms w'(1)] w'(2) [symmetric] by (auto simp: prefix_def writer_out_def)
qed

definition reset_socket :: "int \<Rightarrow> persistentProtocol \<Rightarrow> persistentProtocol" where
  "reset_socket now p = p\<lparr>pp_isReconnecting := True,
     pp_onControlMessage := BufferedEmitter_flushBuffer (pp_onControlMessage p),
     pp_onSocketClose := BufferedEmitter_flushBuffer (pp_onSocketClose p),
     pp_onSocketTimeout := BufferedEmitter_flushBuffer (pp_onSocketTimeout p),
     pp_lastReplayRequestTime := 0, pp_lastSocketTimeoutTime := now,
     pp_writer := new_ProtocolWriter, pp_reader := new_ProtocolReader now\<rparr>"

lemma joined_reset: "joined p y \<Longrightarrow> joined (reset_socket now p) y"
  by (simp add: joined_def linked_def endpoint_def reset_socket_def writer_inv_new) (simp add: new_ProtocolWriter_def)

lemma reconnect_joined:
  assumes "joined p y" "\<forall>m \<in> set (fst (parse_frames d)). speaks y m"
  shows "\<exists>p'. PersistentProtocol_beginAcceptReconnection fresh now highLoad (Some d) p = Inr p' \<and> joined p' y \<and>
           advances (reset_socket now p) p' \<and> payloads p' = payloads p \<and> settled (pp_reader p') (snd (parse_frames d))"
proof -
  have "settled (pp_reader (reset_socket now p)) []" "payloads (reset_socket now p) = payloads p"
    by (simp_all add: reset_socket_def settled_new)
  then show ?thesis
    using onData_joined [OF joined_reset [OF assms(1)], of now "[]" d fresh now highLoad] assms(2)
    by (auto simp: PersistentProtocol_beginAcceptReconnection_def reset_socket_def)
qed

lemma connection_reconnect:
  assumes "connection_inv x y" "sd_socket x < e" "prefix d (stream y e)"
  shows "\<exists>p. PersistentProtocol_beginAcceptReconnection fresh now highLoad (Some d) (sd_proto x) = Inr p \<and>
           connection_inv (x\<lparr>sd_proto := p, sd_socket := e, sd_read := length d,
             sd_left := (sd_left x)(sd_socket x := concat (pw_sent (ProtocolWriter_dispose fresh (pp_writer (sd_proto x)))))\<rparr>) y"
proof -
  have j: "joined (sd_proto x) (sd_proto y)" and x: "side_inv y x" and y: "side_inv x y"
    using assms(1) by (auto simp: connection_inv_def)
  have "authentic y d"
    using authentic_prefix [OF authentic_stream [OF y] assms(3)] .
  then obtain p where p: "PersistentProtocol_beginAcceptReconnection fresh now highLoad (Some d) (sd_proto x) = Inr p"
      "joined p (sd_proto y)" "advances (reset_socket now (sd_proto x)) p" "payloads p = payloads (sd_proto x)"
      "settled (pp_reader p) (snd (parse_frames d))"
    using reconnect_joined [OF j authentic_speaks] by blast
  let ?out = "concat (pw_sent (ProtocolWriter_dispose fresh (pp_writer (sd_proto x))))"
  let ?x = "x\<lparr>sd_proto := p, sd_socket := e, sd_read := length d, sd_left := (sd_left x)(sd_socket x := ?out)\<rparr>"
  have w: "writer_inv (pp_writer (sd_proto x))"
    using j by (simp add: joined_def endpoint_def)
  have grow: "authentic ?x bs" if "authentic x bs" for bs
    using that p(3) by (rule_tac authentic_grow [of x]) (simp_all add: advances_def reset_socket_def)
  have left: "authentic x (sd_left x i)" "\<forall>i > sd_socket x. sd_left x i = []" for i
    using x unfolding side_inv_def by blast+
  have "authentic x ?out"
    using x dispose_stream(2) [OF w, of fresh] by (auto simp: side_inv_def authentic_def)
  then have "authentic ?x (sd_left ?x i)" for i
    using left(1) [of i] grow by simp
  moreover have "\<forall>i > e. sd_left ?x i = []"
    using left(2) assms(2) by simp
  moreover have "\<exists>ms. writer_out (pp_writer p) = concat (map wire ms) \<and> (\<forall>m \<in> set ms. speaks p m)"
    using p(3) by (simp add: advances_def says_def reset_socket_def writer_inv_new)
  moreover have "take (length d) (stream y e) = d" "length d \<le> length (stream y e)"
    using assms(3) by (auto simp: prefix_def)
  ultimately have "side_inv y ?x"
    using x p(4,5) by (simp add: side_inv_def)
  moreover have "prefix (stream x i) (stream ?x i)" for i
    using dispose_stream(1) [OF w, of fresh] left(2) assms(2) by (auto simp: stream_def)
  then have "side_inv ?x y"
    by (rule side_inv_peer [OF y])
  ultimately show ?thesis
    using p(1,2) by (intro exI [of _ p]) (simp add: connection_inv_def)
qed

lemma connection_inv_sym: "connection_inv x y \<Longrightarrow> connection_inv y x"
  by (auto simp: connection_inv_def joined_sym)

lemma connection_inv_step: "side_step y x x' \<Longrightarrow> connection_inv x y \<Longrightarrow> connection_inv x' y"
proof (induction rule: side_step.induct)
  case (Operation oper x fresh p y)
  then show ?case
    using connection_operation [of x y oper fresh] by auto
next
  case (Chunk d x y fresh now highLoad p)
  then show ?case
    using connection_chunk [of x y d fresh now highLoad] by auto
next
  case (Reconnect x e d y fresh now highLoad p)
  then show ?case
    using connection_reconnect [of x y e d fresh now highLoad] by auto
qed

lemma endpoint_new:
  assumes "new_PersistentProtocol fresh now highLoad keepAlive None = Inr p"
  shows "endpoint p" "pp_msgs p = []" "received p = []" "pp_incomingMsgId p = 0" "pp_outgoingAckId p = 0"
    "pp_writer p = new_ProtocolWriter" "pp_reader p = new_ProtocolReader now"
  using assms ipcq.inv_empty ipcq.contents_empty writer_inv_new(1)
  by (auto simp: new_PersistentProtocol_def Let_def endpoint_def) (simp_all add: new_ProtocolWriter_def)

lemma connection_invariant: "connection x y \<Longrightarrow> connection_inv x y"
proof (induction rule: connection.induct)
  case (Start fresh now highLoad keepAlive p fresh' now' highLoad' keepAlive' p')
  have "parse_frames [] = ([], [])"
    by (simp add: parse_frames_stuck HeaderLength_def)
  moreover have "authentic x []" for x
    by (auto simp: authentic_def intro!: exI [of _ "[]"])
  ultimately show ?case
    using endpoint_new [OF Start(1)] endpoint_new [OF Start(2)] writer_inv_new(2) settled_new
    by (simp add: connection_inv_def joined_def linked_def side_inv_def) (auto intro!: exI [of _ "[]"])
next
  case (Left x y x')
  then show ?case
    using connection_inv_step by blast
next
  case (Right x y y')
  then show ?case
    using connection_inv_step connection_inv_sym by blast
qed


section \<open>Recovery\<close>

text \<open>A side moves to a new socket, as the clients of the class do it, and flushes.\<close>

definition resume_on_socket :: "(nat \<Rightarrow> byte) \<Rightarrow> int \<Rightarrow> bool \<Rightarrow> persistentProtocol \<Rightarrow> js_error + persistentProtocol" where
  "resume_on_socket fresh now highLoad p =
     bind_result (PersistentProtocol_beginAcceptReconnection fresh now highLoad None p) (\<lambda>p.
       bind_result (PersistentProtocol_endAcceptReconnection fresh now highLoad p) (PersistentProtocol_flush fresh))"

fun PersistentProtocol_onDatas ::
  "(nat \<Rightarrow> byte) \<Rightarrow> int \<Rightarrow> bool \<Rightarrow> bytes list \<Rightarrow> persistentProtocol \<Rightarrow> js_error + persistentProtocol" where
  "PersistentProtocol_onDatas fresh now highLoad [] p = Inr p"
| "PersistentProtocol_onDatas fresh now highLoad (d # ds) p =
     bind_result (PersistentProtocol_onData fresh now highLoad (Some d) p) (PersistentProtocol_onDatas fresh now highLoad ds)"

definition replayed :: "persistentProtocol \<Rightarrow> protocolMessage list" where
  "replayed p = new_ProtocolMessage MT_Ack 0 (pp_incomingMsgId p) [] # drop (nat (pp_outgoingAckId p)) (pp_msgs p)"

lemma onDatas_joined:
  assumes "joined p y" "settled (pp_reader p) q" "\<forall>m \<in> set (fst (parse_frames (q @ concat ds))). speaks y m"
  shows "\<exists>p'. PersistentProtocol_onDatas fresh now highLoad ds p = Inr p' \<and> joined p' y \<and>
           pp_incomingMsgId p' = fold next_id (fst (parse_frames (q @ concat ds))) (pp_incomingMsgId p)"
  using assms
proof (induction ds arbitrary: p q)
  case Nil
  then show ?case
    by (simp add: settled_def)
next
  case (Cons d ds)
  let ?r = "snd (parse_frames (q @ d))"
  have split: "fst (parse_frames (q @ concat (d # ds))) = fst (parse_frames (q @ d)) @ fst (parse_frames (?r @ concat ds))"
    using parse_frames_append [of "q @ d" "concat ds"] by simp
  obtain p1 where p1: "PersistentProtocol_onData fresh now highLoad (Some d) p = Inr p1" "joined p1 y" "settled (pp_reader p1) ?r"
      "pp_incomingMsgId p1 = fold next_id (fst (parse_frames (q @ d))) (pp_incomingMsgId p)"
    using onData_joined [OF Cons.prems(1,2), of d fresh now highLoad] Cons.prems(3) unfolding split by auto
  then obtain p' where "PersistentProtocol_onDatas fresh now highLoad ds p1 = Inr p'" "joined p' y"
      "pp_incomingMsgId p' = fold next_id (fst (parse_frames (?r @ concat ds))) (pp_incomingMsgId p1)"
    using Cons.IH [OF p1(2,3)] Cons.prems(3) unfolding split by auto
  then show ?case
    unfolding split using p1 by simp
qed

lemma onData_None: "PersistentProtocol_onData fresh now highLoad None p = Inr p"
  by (simp add: PersistentProtocol_onData_def ProtocolReader_acceptChunk_def)

lemma speaks_replayed:
  assumes "endpoint p"
  shows "\<forall>m \<in> set (replayed p). speaks p m"
proof -
  have "speaks p m" if "m \<in> set (drop k (pp_msgs p))" for m k
    using that speaks_stored [OF assms] by (auto simp: in_set_conv_nth dest!: in_set_dropD)
  moreover have "speaks p (new_ProtocolMessage MT_Ack 0 (pp_incomingMsgId p) [])"
    using assms by (intro speaks_system) (auto simp: endpoint_def MT_defs)
  ultimately show ?thesis
    by (auto simp: replayed_def)
qed

lemma resume_spec:
  assumes "joined p y"
  shows "\<exists>p'. resume_on_socket fresh now highLoad p = Inr p' \<and> joined p' y \<and> payloads p' = payloads p \<and>
           pp_incomingMsgId p' = pp_incomingMsgId p \<and> settled (pp_reader p') [] \<and>
           concat (pw_sent (pp_writer p')) = concat (map wire (replayed p)) \<and> (\<forall>m \<in> set (replayed p). speaks p' m)"
proof -
  let ?r = "reset_socket now p"
  have started: "PersistentProtocol_beginAcceptReconnection fresh now highLoad None p = Inr ?r"
    by (simp add: PersistentProtocol_beginAcceptReconnection_def onData_None reset_socket_def)
  have r: "joined ?r y" "endpoint ?r" "payloads ?r = payloads p" "replayed ?r = replayed p" "writer_out (pp_writer ?r) = []"
      "\<not> pw_isPaused (pp_writer ?r)" "settled (pp_reader ?r) []" "pp_incomingMsgId ?r = pp_incomingMsgId p"
    using joined_reset [OF assms, of now] settled_new writer_inv_new(2)
    by (simp_all add: joined_def reset_socket_def replayed_def) (simp add: new_ProtocolWriter_def)
  obtain q where q: "PersistentProtocol_endAcceptReconnection fresh now highLoad ?r = Inr q" "local_step ?r q"
      "\<not> pw_isPaused (pp_writer q)" "writer_out (pp_writer q) = concat (map wire (replayed p))"
    using local_step_endAcceptReconnection [OF r(2), of fresh now highLoad] r(4-6) by (auto simp: replayed_def)
  then have eq: "endpoint q"
    by (simp add: sends_step_def)
  then obtain w where w: "ProtocolWriter_flush fresh (pp_writer q) = Inr w" "writer_inv w" "writer_out w = writer_out (pp_writer q)"
      "writer_out w = concat (pw_sent w)" "pw_isDisposed w = pw_isDisposed (pp_writer q)"
    using writer_flush [of "pp_writer q" fresh] q(3) by (auto simp: endpoint_def)
  let ?p = "q\<lparr>pp_writer := w\<rparr>"
  have "prefix (pw_sent (pp_writer q)) (pw_sent w)"
    using sent_flush(1) [OF _ w(1)] eq by (simp add: endpoint_def)
  then have step: "local_step ?r ?p"
    using local_step_trans [OF q(2) local_step_writer [OF eq]] w by simp
  have "resume_on_socket fresh now highLoad p = Inr ?p"
    using started q(1) w(1) by (simp add: resume_on_socket_def PersistentProtocol_flush_def pp_flush_def)
  moreover have "joined ?p y"
    using joined_local(1) [OF r(1) step] .
  moreover have "payloads ?p = payloads p" "pp_incomingMsgId ?p = pp_incomingMsgId p" "settled (pp_reader ?p) []"
    using step r(3,7,8) unfolding sends_step_def by simp_all
  moreover have "\<forall>m \<in> set (replayed p). speaks ?p m"
    using speaks_replayed [OF r(2)] speaks_grow [of ?r _ ?p] step unfolding r(4) sends_step_def by auto
  ultimately show ?thesis
    using w(3,4) q(4) by (intro exI [of _ ?p]) simp
qed

lemma next_id_on_wire [simp]: "next_id (on_wire m) = next_id m"
  by (simp add: next_id_def on_wire_def fun_eq_iff)

lemma next_id_drop:
  assumes "\<And>j. j < length ms \<Longrightarrow> pm_type (ms ! j) = MT_Regular \<and> pm_id (ms ! j) = int j + 1" "k \<le> i" "i \<le> length ms"
  shows "fold next_id (drop k ms) (int i) = int (length ms)"
  using assms(2,3)
proof (induction "length ms - k" arbitrary: k i)
  case 0
  then show ?case
    by simp
next
  case (Suc n)
  then have k: "k < length ms"
    by simp
  have "next_id (ms ! k) (int i) = int (max i (Suc k))"
    using assms(1) [OF k] Suc.prems by (auto simp: next_id_def max_def)
  moreover have "fold next_id (drop (Suc k) ms) (int (max i (Suc k))) = int (length ms)"
    using Suc.hyps(2) Suc.prems k by (intro Suc.hyps(1)) auto
  ultimately show ?case
    using k by (simp flip: Cons_nth_drop_Suc)
qed

lemma recovers_one_way:
  assumes "joined p y" "resume_on_socket fresh now highLoad p = Inr p1" "joined q p1" "settled (pp_reader q) []"
    "pp_incomingMsgId q = pp_incomingMsgId y" "concat cs = concat (pw_sent (pp_writer p1))"
  shows "\<exists>q'. PersistentProtocol_onDatas fresh' now' highLoad' cs q = Inr q' \<and> received q' = payloads p"
proof -
  have p1: "payloads p1 = payloads p" "concat cs = concat (map wire (replayed p))" "\<forall>m \<in> set (replayed p). speaks p1 m"
    using resume_spec [OF assms(1), of fresh now highLoad] assms(2,6) by auto
  have p: "endpoint p" "linked y p" "endpoint y"
    using assms(1) by (auto simp: joined_def)
  have "\<forall>m \<in> set (replayed p). wire_ok m"
    using p1(3) by (auto simp: speaks_def)
  then have parse: "fst (parse_frames ([] @ concat cs)) = map on_wire (replayed p)"
    using parse_frames_all [of "replayed p" "\<lambda>_. 0" "[]"] p1(2) by (simp add: wire_def [abs_def] parse_frames_stuck HeaderLength_def)
  then have "\<forall>m \<in> set (fst (parse_frames ([] @ concat cs))). speaks p1 m"
    using p1(3) by auto
  then obtain q' where q': "PersistentProtocol_onDatas fresh' now' highLoad' cs q = Inr q'" "joined q' p1"
      "pp_incomingMsgId q' = fold next_id (map on_wire (replayed p)) (pp_incomingMsgId y)"
    using onDatas_joined [OF assms(3,4), of cs fresh' now' highLoad'] unfolding parse assms(5) by blast
  have msgs: "pm_type (pp_msgs p ! j) = MT_Regular \<and> pm_id (pp_msgs p ! j) = int j + 1" if "j < length (pp_msgs p)" for j
    using p(1) that by (simp add: endpoint_def)
  have "fold next_id (map on_wire (replayed p)) i = fold next_id (drop (nat (pp_outgoingAckId p)) (pp_msgs p)) i" for i
    by (simp add: replayed_def fold_map comp_def) (simp add: next_id_def new_ProtocolMessage_def MT_defs)
  moreover have "0 \<le> pp_incomingMsgId y" "pp_outgoingAckId p \<le> pp_incomingMsgId y" "pp_incomingMsgId y \<le> int (length (pp_msgs p))"
    using p by (auto simp: linked_def endpoint_def)
  ultimately have "pp_incomingMsgId q' = int (length (pp_msgs p))"
    using q'(3) next_id_drop [of "pp_msgs p" "nat (pp_outgoingAckId p)" "nat (pp_incomingMsgId y)"] msgs by simp
  then have "received q' = take (length (payloads p1)) (payloads p1)"
    using q'(2) p1(1) by (simp add: joined_def linked_def)
  then show ?thesis
    using q'(1) p1(1) by simp
qed

section \<open>Properties\<close>

lemma connection_sym: "connection x y \<Longrightarrow> connection y x"
  by (induction rule: connection.induct) (auto intro: connection.intros)

definition sample_proto :: persistentProtocol where
  "sample_proto = projr (new_PersistentProtocol (\<lambda>_. 0) 0 False True None)"

definition sample_side :: "persistentProtocol \<Rightarrow> bytes list \<Rightarrow> side" where
  "sample_side p sent = \<lparr>sd_proto = p, sd_socket = 0, sd_left = (\<lambda>_. []), sd_read = 0, sd_sent = sent\<rparr>"

text \<open>A side that has sent one message and flushed.\<close>

definition sender_of :: "bytes \<Rightarrow> persistentProtocol" where
  "sender_of data = projr (endpoint_run (\<lambda>_. 0) OFlush (projr (endpoint_run (\<lambda>_. 0) (OSend 5 False data) sample_proto)))"

lemma sender_connection:
  assumes "int (length data) < 2 ^ 32"
  shows "connection (sample_side (sender_of data) [data]) (sample_side sample_proto [])"
proof -
  have new: "new_PersistentProtocol (\<lambda>_. 0) 0 False True None = Inr sample_proto"
    by (simp add: sample_proto_def new_PersistentProtocol_def Let_def)
  have start: "connection (sample_side sample_proto []) (sample_side sample_proto [])"
    unfolding sample_side_def by (rule connection.Start [OF new new])
  let ?p = "projr (endpoint_run (\<lambda>_. 0) (OSend 5 False data) sample_proto)"
  have ok: "endpoint_op_ok (OSend 5 False data) (sd_proto (sample_side sample_proto []))"
    using endpoint_new(2) [OF new] assms by (simp add: sample_side_def)
  then have "endpoint_run (\<lambda>_. 0) (OSend 5 False data) (sd_proto (sample_side sample_proto [])) = Inr ?p"
    using connection_operation [OF connection_invariant [OF start] ok, of "\<lambda>_. 0"] by (auto simp: sample_side_def)
  then have one: "connection (sample_side ?p [data]) (sample_side sample_proto [])"
    using connection.Left [OF start side_step.Operation [OF ok]] by (simp add: sample_side_def)
  have ok: "endpoint_op_ok OFlush (sd_proto (sample_side ?p [data]))"
    by simp
  then have "endpoint_run (\<lambda>_. 0) OFlush (sd_proto (sample_side ?p [data])) = Inr (sender_of data)"
    using connection_operation [OF connection_invariant [OF one] ok, of "\<lambda>_. 0"] by (auto simp: sample_side_def sender_of_def)
  then show ?thesis
    using connection.Left [OF one side_step.Operation [OF ok]] by (simp add: sample_side_def)
qed

definition sample_sender :: persistentProtocol where
  "sample_sender = sender_of [7, 8]"

lemma sample_connection: "connection (sample_side sample_sender [[7, 8]]) (sample_side sample_proto [])"
  unfolding sample_sender_def by (rule sender_connection) simp

definition sample_frame :: bytes where
  "sample_frame = [1, 0, 0, 0, 1, 0, 0, 0, 0, 0, 0, 0, 2, 7, 8]"

definition sample_receiver :: persistentProtocol where
  "sample_receiver = projr (PersistentProtocol_onData (\<lambda>_. 0) 6 False (Some sample_frame) sample_proto)"

lemma sample_values:
  "pending (sample_side sample_proto []) (sample_side sample_sender [[7, 8]]) = sample_frame"
  "be_bufferedMessages (pp_onMessage sample_receiver) = [[7, 8]]"
  by code_simp+

lemma sample_delivered:
  "connection (sample_side sample_sender [[7, 8]]) ((sample_side sample_receiver [])\<lparr>sd_read := length sample_frame\<rparr>)"
proof -
  let ?x = "sample_side sample_sender [[7, 8]]" and ?y = "sample_side sample_proto []"
  have pre: "prefix sample_frame (pending ?y ?x)"
    by (simp add: sample_values)
  have "PersistentProtocol_onData (\<lambda>_. 0) 6 False (Some sample_frame) (sd_proto ?y) = Inr sample_receiver"
    using connection_chunk [OF connection_invariant [OF connection_sym [OF sample_connection]] pre, of "\<lambda>_. 0" 6 False]
    by (auto simp: sample_side_def sample_receiver_def)
  then show ?thesis
    using connection.Right [OF sample_connection side_step.Chunk [OF pre]] by (simp add: sample_side_def)
qed

text \<open>
  C1. Exactly once and in order: however the sockets of a connection come and go and chop the bytes,
  what a side has passed to its listeners, followed by what its emitter still buffers, is a prefix of
  what the client of the other side has sent, in both directions.
\<close>

theorem PersistentProtocol_exactly_once:
  assumes "connection x y"
  shows "prefix (be_delivered (pp_onMessage (sd_proto y)) @ be_bufferedMessages (pp_onMessage (sd_proto y))) (sd_sent x) \<and>
         prefix (be_delivered (pp_onMessage (sd_proto x)) @ be_bufferedMessages (pp_onMessage (sd_proto x))) (sd_sent y)"
  using connection_invariant [OF assms]
  by (simp add: connection_inv_def joined_def linked_def side_inv_def be_all_def take_is_prefix)

theorem PersistentProtocol_exactly_once_witness:
  "be_bufferedMessages (pp_onMessage sample_receiver) = [[7, 8]] \<and>
   prefix (be_delivered (pp_onMessage sample_receiver) @ be_bufferedMessages (pp_onMessage sample_receiver)) [[7, 8]]"
  using PersistentProtocol_exactly_once [OF sample_delivered] by (simp add: sample_values sample_side_def)

text \<open>
  C3. Nothing is forgotten too early: the queue of unacknowledged messages of a side holds, in order, all
  the messages from some point on, with their data and their numbers, and everything before that point has been received by the other
  side; \<open>unacknowledgedCount\<close> is its length.
\<close>

theorem PersistentProtocol_keeps_unacknowledged:
  assumes "connection x y"
  shows "\<exists>k \<le> length (be_delivered (pp_onMessage (sd_proto y)) @ be_bufferedMessages (pp_onMessage (sd_proto y))).
           Queue_toArray (pp_outgoingUnackMsg (sd_proto x)) = Inr [k..<length (sd_sent x)] \<and>
           map (\<lambda>a. pm_data (pp_msgs (sd_proto x) ! a)) [k..<length (sd_sent x)] = drop k (sd_sent x) \<and>
           map (\<lambda>a. pm_id (pp_msgs (sd_proto x) ! a)) [k..<length (sd_sent x)] = [int k + 1..int (length (sd_sent x))] \<and>
           PersistentProtocol_unacknowledgedCount (sd_proto x) = int (length (drop k (sd_sent x)))"
proof (rule exI [of _ "nat (pp_outgoingAckId (sd_proto x))"], intro conjI)
  let ?k = "nat (pp_outgoingAckId (sd_proto x))"
  have p: "endpoint (sd_proto x)" "linked (sd_proto y) (sd_proto x)" "endpoint (sd_proto y)" "sd_sent x = payloads (sd_proto x)"
    using connection_invariant [OF assms] by (simp_all add: connection_inv_def joined_def side_inv_def)
  show "?k \<le> length (be_delivered (pp_onMessage (sd_proto y)) @ be_bufferedMessages (pp_onMessage (sd_proto y)))"
    using p(1,2) nat_mono [of "pp_outgoingAckId (sd_proto x)" "pp_incomingMsgId (sd_proto y)"]
    by (auto simp: linked_def simp flip: be_all_def)
  show "Queue_toArray (pp_outgoingUnackMsg (sd_proto x)) = Inr [?k..<length (sd_sent x)]"
    using p(1,4) queue_walk_contents(1) [of "pp_outgoingUnackMsg (sd_proto x)"] by (simp add: endpoint_def)
  show "map (\<lambda>a. pm_data (pp_msgs (sd_proto x) ! a)) [?k..<length (sd_sent x)] = drop ?k (sd_sent x)"
    unfolding p(4) by (rule nth_equalityI) auto
  show "map (\<lambda>a. pm_id (pp_msgs (sd_proto x) ! a)) [?k..<length (sd_sent x)] = [int ?k + 1..int (length (sd_sent x))]"
    using p(1) unfolding p(4) by (intro nth_equalityI) (auto simp: endpoint_def)
  show "PersistentProtocol_unacknowledgedCount (sd_proto x) = int (length (drop ?k (sd_sent x)))"
    using p(1,4) by (auto simp: endpoint_def PersistentProtocol_unacknowledgedCount_def)
qed

theorem PersistentProtocol_keeps_unacknowledged_witness:
  "Queue_toArray (pp_outgoingUnackMsg sample_sender) = Inr [0] \<and> pm_id (pp_msgs sample_sender ! 0) = 1"
proof -
  have "be_all (pp_onMessage sample_proto) = []"
    by code_simp
  then show ?thesis
    using PersistentProtocol_keeps_unacknowledged [OF sample_connection] by (auto simp: sample_side_def be_all_def)
qed

text \<open>
  C4. No handler throws: in every state a connection can reach, every operation of a client (disposal and draining are
  not among them) with message sizes and numbers below $2^{32}$, every timer, every chunk of what the peer wrote and every reconnection runs to completion.
\<close>

theorem PersistentProtocol_never_throws:
  assumes "connection x y"
  shows "(endpoint_op_ok oper (sd_proto x) \<longrightarrow> (\<exists>p. endpoint_run fresh oper (sd_proto x) = Inr p)) \<and>
         (prefix d (pending x y) \<longrightarrow> (\<exists>p. PersistentProtocol_onData fresh now highLoad (Some d) (sd_proto x) = Inr p)) \<and>
         (sd_socket x < e \<and> prefix d (stream y e) \<longrightarrow>
            (\<exists>p. PersistentProtocol_beginAcceptReconnection fresh now highLoad (Some d) (sd_proto x) = Inr p))"
  using connection_operation connection_chunk connection_reconnect connection_invariant [OF assms] by blast

theorem PersistentProtocol_never_throws_witness:
  "(\<exists>p. endpoint_run (\<lambda>_. 0) (OOutgoingAckTimeout 50000 False) sample_sender = Inr p) \<and>
   (\<exists>p. PersistentProtocol_beginAcceptReconnection (\<lambda>_. 0) 60000 False (Some []) sample_sender = Inr p)"
  using PersistentProtocol_never_throws [OF sample_connection, of "OOutgoingAckTimeout 50000 False" "\<lambda>_. 0" "[]" 60000 False 1]
  by (simp add: sample_side_def)

text \<open>
  C2. Recovery: from every state a connection can reach, when both sides move to a new socket, end the
  reconnection and flush, and the bytes of each side then arrive in chunks of any size, each side has
  received everything that the other has ever sent.
\<close>

theorem PersistentProtocol_recovers:
  assumes "connection x y"
  shows "\<exists>p q. resume_on_socket fresh now highLoad (sd_proto x) = Inr p \<and> resume_on_socket fresh' now' highLoad' (sd_proto y) = Inr q \<and>
    (\<forall>cs. concat cs = concat (pw_sent (pp_writer p)) \<longrightarrow> (\<exists>q'. PersistentProtocol_onDatas fresh' now' highLoad' cs q = Inr q' \<and>
       be_delivered (pp_onMessage q') @ be_bufferedMessages (pp_onMessage q') = sd_sent x)) \<and>
    (\<forall>cs. concat cs = concat (pw_sent (pp_writer q)) \<longrightarrow> (\<exists>p'. PersistentProtocol_onDatas fresh now highLoad cs p = Inr p' \<and>
       be_delivered (pp_onMessage p') @ be_bufferedMessages (pp_onMessage p') = sd_sent y))"
proof -
  have j: "joined (sd_proto x) (sd_proto y)" "sd_sent x = payloads (sd_proto x)" "sd_sent y = payloads (sd_proto y)"
    using connection_invariant [OF assms] by (simp_all add: connection_inv_def side_inv_def)
  obtain p where p: "resume_on_socket fresh now highLoad (sd_proto x) = Inr p" "joined p (sd_proto y)" "settled (pp_reader p) []"
      "pp_incomingMsgId p = pp_incomingMsgId (sd_proto x)"
    using resume_spec [OF j(1)] by blast
  obtain q where q: "resume_on_socket fresh' now' highLoad' (sd_proto y) = Inr q" "joined q p" "settled (pp_reader q) []"
      "pp_incomingMsgId q = pp_incomingMsgId (sd_proto y)"
    using resume_spec [OF joined_sym [OF p(2)]] by blast
  have "received q' = be_delivered (pp_onMessage q') @ be_bufferedMessages (pp_onMessage q')" for q'
    by (simp add: be_all_def)
  then show ?thesis
    unfolding j(2,3) using p(1) q(1) recovers_one_way [OF j(1) p(1) q(2-4), of _ fresh' now' highLoad']
      recovers_one_way [OF joined_sym [OF p(2)] q(1) joined_sym [OF q(2)] p(3) refl, of _ fresh now highLoad]
    by (intro exI [of _ p] exI [of _ q]) auto
qed

theorem PersistentProtocol_recovers_witness:
  "\<exists>p q. resume_on_socket (\<lambda>_. 0) 9 False sample_sender = Inr p \<and> resume_on_socket (\<lambda>_. 0) 9 False sample_proto = Inr q \<and>
     (\<exists>q'. PersistentProtocol_onDatas (\<lambda>_. 0) 9 False [concat (pw_sent (pp_writer p))] q = Inr q' \<and>
        be_delivered (pp_onMessage q') @ be_bufferedMessages (pp_onMessage q') = [[7, 8]])"
proof -
  have one: "concat [bs] = bs" for bs :: bytes
    by simp
  show ?thesis
    using PersistentProtocol_recovers [OF sample_connection, of "\<lambda>_. 0" 9 False "\<lambda>_. 0" 9 False] one
    unfolding sample_side_def side.select_convs by meson
qed

end
