(* ===== verification/Ipc_Remote.thy ===== *)
theory Ipc_Remote
  imports Ipc_Rpc Ipc_Delivery
begin

text \<open>
  Channels over a \<open>PersistentProtocol\<close>.  \<open>ChannelClient\<close> and \<open>ChannelServer\<close> are written against \<open>IMessagePassingProtocol\<close>
  (\<open>ipc.ts\<close>); the locale \<open>message_protocol\<close> is what they rely on, and it is interpreted on the connection of
  two persistent protocols, in both directions, and on the counters of the channel system.
\<close>

section \<open>The interface\<close>

text \<open>What \<open>onMessage\<close> has fired is the beginning of what the other side has given to \<open>send\<close>.\<close>

locale message_protocol =
  fixes up :: "'s \<Rightarrow> bool" and sent :: "'s \<Rightarrow> bytes list" and fired :: "'s \<Rightarrow> bytes list"
  assumes ordered: "up s \<Longrightarrow> prefix (fired s) (sent s)"
begin

lemma fired_nth: "up s \<Longrightarrow> n < length (fired s) \<Longrightarrow> n < length (sent s) \<and> fired s ! n = sent s ! n"
  using ordered [of s] by (auto simp: prefix_def nth_append)

lemma fired_take: "up s \<Longrightarrow> fired s = take (length (fired s)) (sent s)"
  using ordered [of s] by (auto simp: prefix_def)

text \<open>The requests that arrive are the first ones the client has sent, each once and in order.\<close>

lemma requests_arrive:
  assumes "up s" "client_inv pf X reqs got c" "sent s = cl_sent c" "n < length (fired s)"
  shows "n < length reqs \<and> fired s ! n = message pf (request_header (reqs ! n)) \<and> request_ok pf (reqs ! n)"
  using fired_nth [OF assms(1,4)] assms(2,3) by (auto simp: client_inv_def client_log_def)

lemma responses_arrive:
  assumes "up s" "server_inv pf d proc resps sv" "sent s = sv_sent sv" "n < length (fired s)"
  shows "n < length resps \<and> fired s ! n = message pf (response_header (resps ! n)) \<and> response_ok pf (resps ! n)"
  using fired_nth [OF assms(1,4)] assms(2,3) by (auto simp: server_inv_def server_log_def)

end

section \<open>The providers\<close>

abbreviation fired_at :: "side \<Rightarrow> bytes list" where
  "fired_at y \<equiv> be_delivered (pp_onMessage (sd_proto y)) @ be_bufferedMessages (pp_onMessage (sd_proto y))"

interpretation forth: message_protocol "\<lambda>(x, y). connection x y" "\<lambda>(x, y). sd_sent x" "\<lambda>(x, y). fired_at y"
  by unfold_locales
    (auto dest!: connection_invariant simp: connection_inv_def joined_def linked_def side_inv_def be_all_def take_is_prefix)

interpretation reply: message_protocol "\<lambda>(x, y). connection x y" "\<lambda>(x, y). sd_sent y" "\<lambda>(x, y). fired_at x"
  by unfold_locales
    (auto dest!: connection_invariant simp: connection_inv_def joined_def linked_def side_inv_def be_all_def take_is_prefix)

interpretation channel_link: message_protocol "rpc_inv pf d" "\<lambda>s. cl_sent (rp_client s)" "\<lambda>s. take (rp_toServer s) (cl_sent (rp_client s))" for pf d
  by unfold_locales (simp add: take_is_prefix)

section \<open>Channels over the connection\<close>

lemma rpc_reachable_step: "rpc_reachable pf d s \<Longrightarrow> rpc_step pf d s s' \<Longrightarrow> rpc_reachable pf d s'"
  unfolding rpc_reachable_def by (meson rtranclp.rtrancl_into_rtrancl)

text \<open>
  C7. Remote calls over two persistent protocols, through any reconnections and replays: when the protocol of the
  server fires its next message, handling it throws nothing and is the step of the channel system that delivers the next
  request, and likewise for the client and the responses.  So what is shown of the channel system holds
  over a persistent connection.
\<close>

theorem rpc_over_persistent_protocol:
  assumes up: "connection x y" and s: "rpc_reachable pf d s"
    and sent: "sd_sent x = cl_sent (rp_client s)" "sd_sent y = sv_sent (rp_server s)"
  shows "(rp_toServer s < length (fired_at y) \<longrightarrow>
      (\<exists>sv. ChannelServer_onRawMessage pf (fired_at y ! rp_toServer s) (rp_server s) = Inr sv \<and>
         rpc_reachable pf d (s\<lparr>rp_server := sv, rp_toServer := Suc (rp_toServer s)\<rparr>))) \<and>
    (rp_toClient s < length (fired_at x) \<longrightarrow>
      (\<exists>c. ChannelClient_onBuffer pf (fired_at x ! rp_toClient s) (rp_client s) = Inr c \<and>
         rpc_reachable pf d (s\<lparr>rp_client := c, rp_toClient := Suc (rp_toClient s)\<rparr>)))"
proof -
  obtain reqs got resps proc where inv: "client_inv pf {} reqs got (rp_client s)" "server_inv pf d proc resps (rp_server s)"
    using rpc_reachable_inv [OF s] by (auto simp: rpc_inv_def)
  have "\<exists>sv. ChannelServer_onRawMessage pf (fired_at y ! rp_toServer s) (rp_server s) = Inr sv \<and>
      rpc_reachable pf d (s\<lparr>rp_server := sv, rp_toServer := Suc (rp_toServer s)\<rparr>)" if n: "rp_toServer s < length (fired_at y)"
  proof -
    have m: "fired_at y ! rp_toServer s = cl_sent (rp_client s) ! rp_toServer s" "rp_toServer s < length (cl_sent (rp_client s))"
      using forth.fired_nth [of "(x, y)" "rp_toServer s"] up n sent(1) by simp_all
    obtain sv where "ChannelServer_onRawMessage pf (fired_at y ! rp_toServer s) (rp_server s) = Inr sv"
      using forth.requests_arrive [of "(x, y)", OF _ inv(1)] up n sent(1) onRawMessage_request by fastforce
    then show ?thesis
      using rpc_reachable_step [OF s deliver_request [OF m(2)]] m(1) by auto
  qed
  moreover have "\<exists>c. ChannelClient_onBuffer pf (fired_at x ! rp_toClient s) (rp_client s) = Inr c \<and>
      rpc_reachable pf d (s\<lparr>rp_client := c, rp_toClient := Suc (rp_toClient s)\<rparr>)" if n: "rp_toClient s < length (fired_at x)"
  proof -
    have m: "fired_at x ! rp_toClient s = sv_sent (rp_server s) ! rp_toClient s" "rp_toClient s < length (sv_sent (rp_server s))"
      using reply.fired_nth [of "(x, y)" "rp_toClient s"] up n sent(2) by simp_all
    obtain c where "ChannelClient_onBuffer pf (fired_at x ! rp_toClient s) (rp_client s) = Inr c"
      using reply.responses_arrive [of "(x, y)", OF _ inv(2)] up n sent(2) onBuffer_response by fastforce
    then show ?thesis
      using rpc_reachable_step [OF s deliver_response [OF m(2)]] m(1) by auto
  qed
  ultimately show ?thesis
    by blast
qed

text \<open>A run: the server has sent its greeting, and it has arrived at the client.\<close>

definition greeting :: bytes where
  "greeting = [4, 1, 6, 0xC8, 1, 0]"

lemma greeting_message: "message sample_platform (response_header InitializeResponse) = greeting"
  by code_simp

definition greeted :: persistentProtocol where
  "greeted = projr (PersistentProtocol_onData (\<lambda>_. 0) 6 False (Some (stream (sample_side (sender_of greeting) [greeting]) 0)) sample_proto)"

lemma greeting_sent: "connection (sample_side (sender_of greeting) [greeting]) (sample_side sample_proto [])"
  by (rule sender_connection) (simp add: greeting_def)

lemma greeting_arrived:
  "\<exists>n. connection ((sample_side greeted [])\<lparr>sd_read := n\<rparr>) (sample_side (sender_of greeting) [greeting])"
proof -
  let ?x = "sample_side (sender_of greeting) [greeting]" and ?y = "sample_side sample_proto []"
  let ?d = "stream (sample_side (sender_of greeting) [greeting]) 0"
  have pre: "prefix ?d (pending ?y ?x)"
    by (simp add: pending_def sample_side_def)
  have "PersistentProtocol_onData (\<lambda>_. 0) 6 False (Some ?d) (sd_proto ?y) = Inr greeted"
    using connection_chunk [OF connection_invariant [OF connection_sym [OF greeting_sent]] pre, of "\<lambda>_. 0" 6 False]
    by (auto simp: sample_side_def greeted_def)
  then have "connection ?x (?y\<lparr>sd_proto := greeted, sd_read := 0 + length ?d\<rparr>)"
    using connection.Right [OF greeting_sent side_step.Chunk [OF pre]] by (simp add: sample_side_def)
  then show ?thesis
    using connection_sym by (fastforce simp: sample_side_def)
qed

lemma greeted_fired: "be_bufferedMessages (pp_onMessage greeted) = [greeting]" "be_delivered (pp_onMessage greeted) = []"
  by code_simp+

theorem rpc_over_persistent_protocol_witness:
  "\<exists>x y (s :: (unit, nat) rpc) c. connection x y \<and> rpc_reachable sample_platform 1000 s \<and> fired_at x ! 0 = greeting \<and>
     ChannelClient_onBuffer sample_platform (fired_at x ! 0) (rp_client s) = Inr c \<and>
     rpc_reachable sample_platform 1000 (s\<lparr>rp_client := c, rp_toClient := 1\<rparr>)"
proof -
  obtain sv :: "(unit, nat) channelServer" where sv: "new_ChannelServer sample_platform = Inr sv" "sv_sent sv = [greeting]"
    by (simp add: new_ChannelServer_def sendResponse_message [OF response_ok_Initialize] greeting_message)
  let ?s = "\<lparr>rp_client = new_ChannelClient, rp_server = sv, rp_toServer = 0, rp_toClient = 0\<rparr>"
  have s: "rpc_reachable sample_platform 1000 ?s"
    unfolding rpc_reachable_def using sv(1) by (intro exI [of _ ?s]) (simp add: rpc_start_def)
  obtain n where n: "connection ((sample_side greeted [])\<lparr>sd_read := n\<rparr>) (sample_side (sender_of greeting) [greeting])"
    using greeting_arrived by blast
  obtain c where "ChannelClient_onBuffer sample_platform (fired_at ((sample_side greeted [])\<lparr>sd_read := n\<rparr>) ! 0) new_ChannelClient = Inr c"
      "rpc_reachable sample_platform 1000 (?s\<lparr>rp_client := c, rp_toClient := 1\<rparr>)"
    using rpc_over_persistent_protocol [OF n s] sv(2) greeted_fired by (auto simp: sample_side_def new_ChannelClient_def)
  then show ?thesis
    using n s greeted_fired by (intro exI [of _ "(sample_side greeted [])\<lparr>sd_read := n\<rparr>"] exI [of _ "sample_side (sender_of greeting) [greeting]"]
        exI [of _ ?s] exI [of _ c]) (simp add: sample_side_def)
qed

end
