(* ===== verification/Emitter.thy ===== *)
theory Emitter
  imports Prelude
begin

text \<open>
  \<open>Emitter\<close> of \<open>vs/base/common/event.ts\<close> with its delivery queue.

  Listeners are known by the id of their container.  The array of listeners is mutated in place and captured by
  running delivery loops, so arrays live on a heap; a hole is \<open>None\<close>.  What a listener does when it is called
  is client code that may subscribe, unsubscribe, fire again or dispose the emitter: these are the
  operations below, in any order, and one turn of the delivery loop (\<open>Emitter_deliverNext\<close>) is an operation of
  its own.  \<open>em_calls\<close> and \<open>em_hooks\<close> record the calls of listeners and of the hooks in the options.  The emitter
  has its own delivery queue; leak warnings and profiling are left out.
\<close>

section \<open>State\<close>

datatype emitterListeners = NoListeners | OneListener nat | ListenerArray nat

datatype emitterHook = WillAddFirstListener | DidAddFirstListener | DidRemoveLastListener | WillRemoveListener

record 'e deliveryQueue =
  dq_i :: int
  dq_end :: int
  dq_value :: "'e option"

text \<open>\<open>dq_value\<close> is \<open>None\<close> exactly when \<open>current\<close> is undefined.\<close>

record 'e emitter =
  em_disposed :: bool
  em_listeners :: emitterListeners
  em_arrays :: "nat option list list"
  em_size :: int
  em_queue :: "'e deliveryQueue option"
  em_nextId :: nat
  em_removed :: "nat list"
  em_hooks :: "emitterHook list"
  em_calls :: "(nat \<times> 'e) list"

definition new_Emitter :: "'e emitter" where
  "new_Emitter = \<lparr>em_disposed = False, em_listeners = NoListeners, em_arrays = [], em_size = 0, em_queue = None, em_nextId = 0,
     em_removed = [], em_hooks = [], em_calls = []\<rparr>"

definition new_EventDeliveryQueue :: "'e deliveryQueue" where
  "new_EventDeliveryQueue = \<lparr>dq_i = -1, dq_end = 0, dq_value = None\<rparr>"

definition dq_enqueue :: "'e \<Rightarrow> int \<Rightarrow> 'e deliveryQueue \<Rightarrow> 'e deliveryQueue" where
  "dq_enqueue v stop q = \<lparr>dq_i = 0, dq_end = stop, dq_value = Some v\<rparr>"

definition dq_reset :: "'e deliveryQueue \<Rightarrow> 'e deliveryQueue" where
  "dq_reset q = q\<lparr>dq_i := dq_end q, dq_value := None\<rparr>"

abbreviation em_current :: "'e emitter \<Rightarrow> bool" where
  "em_current s \<equiv> (case em_queue s of None \<Rightarrow> False | Some q \<Rightarrow> dq_value q \<noteq> None)"

section \<open>Operations\<close>

definition em_hook :: "emitterHook \<Rightarrow> 'e emitter \<Rightarrow> 'e emitter" where
  "em_hook h s = s\<lparr>em_hooks := em_hooks s @ [h]\<rparr>"

text \<open>The function that the getter \<open>event\<close> returns: it gives the id of the new listener, or none when the emitter is disposed.\<close>

definition Emitter_event :: "'e emitter \<Rightarrow> nat option \<times> 'e emitter" where
  "Emitter_event s =
     (if em_disposed s then (None, s)
      else
        let contained = em_nextId s; s = s\<lparr>em_nextId := contained + 1\<rparr>;
            s = (case em_listeners s of
                   NoListeners \<Rightarrow> em_hook DidAddFirstListener ((em_hook WillAddFirstListener s)\<lparr>em_listeners := OneListener contained\<rparr>)
                 | OneListener l \<Rightarrow>
                     s\<lparr>em_queue := Some (case em_queue s of None \<Rightarrow> new_EventDeliveryQueue | Some q \<Rightarrow> q),
                       em_listeners := ListenerArray (length (em_arrays s)),
                       em_arrays := em_arrays s @ [[Some l, Some contained]]\<rparr>
                 | ListenerArray a \<Rightarrow> s\<lparr>em_arrays := (em_arrays s)[a := em_arrays s ! a @ [Some contained]]\<rparr>)
        in (Some contained, s\<lparr>em_size := em_size s + 1\<rparr>))"

text \<open>The compaction loop: entries move to the front of the array, and the queue follows the holes it passes.\<close>

fun compact_loop :: "bool \<Rightarrow> nat \<Rightarrow> nat \<Rightarrow> nat option list \<Rightarrow> 'e deliveryQueue \<Rightarrow> nat \<Rightarrow> nat \<times> nat option list \<times> 'e deliveryQueue" where
  "compact_loop adjust 0 i listeners q n = (n, listeners, q)"
| "compact_loop adjust (Suc todo) i listeners q n =
     (if listeners ! i \<noteq> None then compact_loop adjust todo (i + 1) (listeners[n := listeners ! i]) q (n + 1)
      else if adjust then
        let q = q\<lparr>dq_end := dq_end q - 1\<rparr>; q = (if int n < dq_i q then q\<lparr>dq_i := dq_i q - 1\<rparr> else q) in
        compact_loop adjust todo (i + 1) listeners q n
      else compact_loop adjust todo (i + 1) listeners q n)"

definition listener_index :: "nat \<Rightarrow> nat option list \<Rightarrow> int" where
  "listener_index l listeners =
     (let k = while_index (\<lambda>x. x \<noteq> Some l) listeners 0 in if k < length listeners then int k else -1)"

definition Emitter_removeListener :: "nat \<Rightarrow> 'e emitter \<Rightarrow> js_error + 'e emitter" where
  "Emitter_removeListener l s =
     (let s = em_hook WillRemoveListener s in
      case em_listeners s of
        NoListeners \<Rightarrow> Inr s
      | _ \<Rightarrow>
          if em_size s = 1 then Inr ((em_hook DidRemoveLastListener (s\<lparr>em_listeners := NoListeners\<rparr>))\<lparr>em_size := 0\<rparr>)
          else
            case (em_listeners s, em_queue s) of
              (ListenerArray a, Some q) \<Rightarrow>
                let listeners = em_arrays s ! a; index = listener_index l listeners in
                if index = -1 then Inl IllegalArgument
                else
                  let s = s\<lparr>em_size := em_size s - 1\<rparr>; listeners = listeners[nat index := None] in
                  if em_size s * 2 \<le> int (length listeners) then
                    let (n, listeners, q) = compact_loop (dq_value q \<noteq> None) (length listeners) 0 listeners q 0 in
                    Inr (s\<lparr>em_arrays := (em_arrays s)[a := take n listeners], em_queue := Some q\<rparr>)
                  else Inr (s\<lparr>em_arrays := (em_arrays s)[a := listeners]\<rparr>)
            | _ \<Rightarrow> Inl TypeError)"

text \<open>The disposable that a subscription returns removes the listener once.\<close>

definition subscription_dispose :: "nat \<Rightarrow> 'e emitter \<Rightarrow> js_error + 'e emitter" where
  "subscription_dispose l s =
     (if l \<in> set (em_removed s) then Inr s else Emitter_removeListener l (s\<lparr>em_removed := em_removed s @ [l]\<rparr>))"

definition em_deliver :: "nat option \<Rightarrow> 'e \<Rightarrow> 'e emitter \<Rightarrow> 'e emitter" where
  "em_deliver l v s = (case l of None \<Rightarrow> s | Some l \<Rightarrow> s\<lparr>em_calls := em_calls s @ [(l, v)]\<rparr>)"

text \<open>
  One turn of the loop in \<open>_deliverQueue\<close>, with the listeners it has captured: it calls the next listener, or
  resets the queue when there is none left.  Reading an index of \<open>undefined\<close> throws; a single container has none.
\<close>

definition Emitter_deliverNext :: "emitterListeners \<Rightarrow> 'e emitter \<Rightarrow> js_error + 'e emitter" where
  "Emitter_deliverNext captured s =
     (case em_queue s of
        None \<Rightarrow> Inl TypeError
      | Some q \<Rightarrow>
          if dq_i q < dq_end q then
            let s' = s\<lparr>em_queue := Some (q\<lparr>dq_i := dq_i q + 1\<rparr>)\<rparr> in
            case captured of
              NoListeners \<Rightarrow> Inl TypeError
            | OneListener l \<Rightarrow> Inr s'
            | ListenerArray a \<Rightarrow>
                let listeners = em_arrays s ! a;
                    l = (if 0 \<le> dq_i q \<and> dq_i q < int (length listeners) then listeners ! nat (dq_i q) else None) in
                case dq_value q of None \<Rightarrow> Inl TypeError | Some v \<Rightarrow> Inr (em_deliver l v s')
          else Inr (s\<lparr>em_queue := Some (dq_reset q)\<rparr>))"

text \<open>The second half of \<open>fire\<close>, after a delivery that was still running has been finished.\<close>

definition Emitter_dispatch :: "'e \<Rightarrow> 'e emitter \<Rightarrow> js_error + 'e emitter" where
  "Emitter_dispatch v s =
     (case em_listeners s of
        NoListeners \<Rightarrow> Inr s
      | OneListener l \<Rightarrow> Inr (em_deliver (Some l) v s)
      | ListenerArray a \<Rightarrow>
          (case em_queue s of
             None \<Rightarrow> Inl TypeError
           | Some q \<Rightarrow> Inr (s\<lparr>em_queue := Some (dq_enqueue v (int (length (em_arrays s ! a))) q)\<rparr>)))"

text \<open>\<open>_deliverQueue\<close> with listeners that leave the emitter alone.\<close>

function Emitter_deliverQueue :: "emitterListeners \<Rightarrow> 'e emitter \<Rightarrow> js_error + 'e emitter" where
  "Emitter_deliverQueue captured s =
     (case Emitter_deliverNext captured s of
        Inl err \<Rightarrow> Inl err
      | Inr s' \<Rightarrow> if (case em_queue s of None \<Rightarrow> False | Some q \<Rightarrow> dq_i q < dq_end q) then Emitter_deliverQueue captured s' else Inr s')"
  by pat_completeness auto
termination
  by (relation "measure (\<lambda>(captured, s). case em_queue s of None \<Rightarrow> 0 | Some q \<Rightarrow> nat (dq_end q - dq_i q))")
    (auto simp: Emitter_deliverNext_def Let_def em_deliver_def split: option.splits if_splits emitterListeners.splits)

declare Emitter_deliverQueue.simps [simp del]

definition Emitter_fire :: "'e \<Rightarrow> 'e emitter \<Rightarrow> js_error + 'e emitter" where
  "Emitter_fire v s =
     bind_result (if em_current s then Emitter_deliverQueue (em_listeners s) s else Inr s) (\<lambda>s.
     bind_result (Emitter_dispatch v s) (\<lambda>s'.
       case em_listeners s of ListenerArray a \<Rightarrow> Emitter_deliverQueue (em_listeners s) s' | _ \<Rightarrow> Inr s'))"

definition Emitter_dispose :: "'e emitter \<Rightarrow> 'e emitter" where
  "Emitter_dispose s =
     (if em_disposed s then s
      else
        let s = s\<lparr>em_disposed := True\<rparr>;
            s = (if em_current s then s\<lparr>em_queue := map_option dq_reset (em_queue s)\<rparr> else s);
            s = (if em_listeners s \<noteq> NoListeners then s\<lparr>em_listeners := NoListeners, em_size := 0\<rparr> else s)
        in em_hook DidRemoveLastListener s)"

definition Emitter_hasListeners :: "'e emitter \<Rightarrow> bool" where
  "Emitter_hasListeners s \<longleftrightarrow> em_size s > 0"

section \<open>Compaction\<close>

definition entries :: "'a option list \<Rightarrow> 'a option list" where
  "entries xs = filter (\<lambda>x. x \<noteq> None) xs"

definition present :: "'a option list \<Rightarrow> 'a list" where
  "present xs = map the (entries xs)"

definition kept :: "'a option list \<Rightarrow> nat \<Rightarrow> nat" where
  "kept xs k = length (entries (take k xs))"

definition holes :: "'a option list \<Rightarrow> nat \<Rightarrow> nat" where
  "holes xs k = length (filter (\<lambda>x. x = None) (take k xs))"

lemma entries_simps [simp]:
  "entries [] = []" "entries (None # xs) = entries xs" "entries (Some x # xs) = Some x # entries xs"
  "entries (xs @ ys) = entries xs @ entries ys" "entries (entries xs) = entries xs"
  by (simp_all add: entries_def)

lemma present_simps [simp]:
  "present [] = []" "present (None # xs) = present xs" "present (Some x # xs) = x # present xs"
  "present (xs @ ys) = present xs @ present ys" "present (entries xs) = present xs"
  by (simp_all add: present_def)

lemma length_present: "length (present xs) = length (entries xs)"
  by (simp add: present_def)

lemma set_present: "set (present xs) = {x. Some x \<in> set xs}"
  by (force simp: present_def entries_def)

lemma present_split: "k < length xs \<Longrightarrow> xs ! k = Some l \<Longrightarrow> present xs = present (take k xs) @ l # present (drop (Suc k) xs)"
  by (metis id_take_nth_drop present_simps(3,4))

lemma kept_0 [simp]: "kept xs 0 = 0"
  by (simp add: kept_def)

lemma holes_0 [simp]: "holes xs 0 = 0"
  by (simp add: holes_def)

lemma kept_holes: "k \<le> length xs \<Longrightarrow> kept xs k + holes xs k = k"
  using sum_length_filter_compl [of "\<lambda>x. x \<noteq> None" "take k xs"] by (simp add: kept_def holes_def entries_def)

lemma kept_Suc: "k < length xs \<Longrightarrow> kept xs (Suc k) = kept xs k + (if xs ! k = None then 0 else 1)"
  by (auto simp: take_Suc_conv_app_nth kept_def entries_def)

lemma holes_Suc: "k < length xs \<Longrightarrow> holes xs (Suc k) = holes xs k + (if xs ! k = None then 1 else 0)"
  by (simp add: take_Suc_conv_app_nth holes_def)

lemma kept_mono: "j \<le> k \<Longrightarrow> kept xs j \<le> kept xs k"
  unfolding kept_def by (metis le_add_diff_inverse length_append le_add1 entries_simps(4) take_add)

lemma entries_take: "entries (take k xs) = take (kept xs k) (entries xs)"
  unfolding kept_def by (metis append_eq_conv_conj append_take_drop_id entries_simps(4))

lemma present_slice:
  assumes "j \<le> k"
  shows "present (drop (kept xs j) (take (kept xs k) (entries xs))) = present (drop j (take k xs))"
proof -
  have "take k xs = take j xs @ drop j (take k xs)"
    using append_take_drop_id [of j "take k xs"] assms by (simp add: min_absorb1 del: append_take_drop_id)
  then have "entries (take k xs) = entries (take j xs) @ entries (drop j (take k xs))"
    by (metis entries_simps(4))
  then have "drop (kept xs j) (entries (take k xs)) = entries (drop j (take k xs))"
    by (simp add: kept_def)
  then show ?thesis
    unfolding entries_take by simp
qed

text \<open>
  The loop from index \<open>i\<close> on: the kept entries of the original array \<open>xs\<close> are at the front, the rest
  is still in place, and the indices of the queue have moved by the holes before them.
\<close>

definition queue_at :: "bool \<Rightarrow> nat option list \<Rightarrow> 'e deliveryQueue \<Rightarrow> nat \<Rightarrow> 'e deliveryQueue" where
  "queue_at adjust xs q i =
     (if adjust then q\<lparr>dq_i := dq_i q - int (holes xs (min i (nat (dq_i q)))), dq_end := dq_end q - int (holes xs i)\<rparr> else q)"

lemma queue_at_hole:
  assumes "i < length xs" "xs ! i = None" "0 \<le> dq_i q"
  shows "queue_at True xs q (Suc i) =
    (let p = (queue_at True xs q i)\<lparr>dq_end := dq_end (queue_at True xs q i) - 1\<rparr> in
     if int (kept xs i) < dq_i p then p\<lparr>dq_i := dq_i p - 1\<rparr> else p)"
proof -
  have sum: "kept xs i + holes xs i = i"
    using assms(1) by (simp add: kept_holes)
  show ?thesis
  proof (cases "i < nat (dq_i q)")
    case True
    then have "min i (nat (dq_i q)) = i" "min (Suc i) (nat (dq_i q)) = Suc i"
      by simp_all
    then show ?thesis
      using assms sum True by (simp add: queue_at_def holes_Suc Let_def)
  next
    case False
    let ?c = "nat (dq_i q)"
    have "kept xs ?c \<le> kept xs i" "kept xs ?c + holes xs ?c = ?c"
      using False assms(1) by (simp_all add: kept_mono kept_holes)
    moreover have "min i ?c = ?c" "min (Suc i) ?c = ?c"
      using False by simp_all
    ultimately show ?thesis
      using assms by (simp add: queue_at_def holes_Suc Let_def)
  qed
qed

lemma queue_at_entry: "i < length xs \<Longrightarrow> xs ! i \<noteq> None \<Longrightarrow> queue_at adjust xs q (Suc i) = queue_at adjust xs q i"
  by (cases "Suc i \<le> nat (dq_i q)") (auto simp: queue_at_def holes_Suc min_def not_le less_Suc_eq_le)

lemma compact_loop_spec:
  assumes "i + todo = length xs" "length ys = length xs" "drop i ys = drop i xs"
    "take (kept xs i) ys = entries (take i xs)" "adjust \<longrightarrow> 0 \<le> dq_i q"
  shows "\<exists>zs. compact_loop adjust todo i ys (queue_at adjust xs q i) (kept xs i) = (kept xs (length xs), zs, queue_at adjust xs q (length xs)) \<and>
    take (kept xs (length xs)) zs = entries xs"
  using assms
proof (induction todo arbitrary: i ys)
  case (Suc todo)
  then have i: "i < length xs" and yi: "ys ! i = xs ! i"
    by simp (metis Suc.prems(1,2,3) hd_drop_conv_nth less_add_same_cancel1 zero_less_Suc)
  have le: "kept xs i \<le> i"
    using kept_holes [of i xs] i by simp
  have rest: "drop (Suc i) ys = drop (Suc i) xs"
    using Suc.prems(3) by (metis drop_Suc tl_drop)
  show ?case
  proof (cases "xs ! i")
    case None
    have k: "kept xs (Suc i) = kept xs i" "entries (take (Suc i) xs) = entries (take i xs)"
      using i None by (simp_all add: take_Suc_conv_app_nth kept_def)
    have "queue_at adjust xs q (Suc i) = (if adjust then
        (let p = (queue_at adjust xs q i)\<lparr>dq_end := dq_end (queue_at adjust xs q i) - 1\<rparr> in
         if int (kept xs i) < dq_i p then p\<lparr>dq_i := dq_i p - 1\<rparr> else p) else queue_at adjust xs q i)"
      using queue_at_hole [OF i None, of q] Suc.prems(5) by (auto simp: queue_at_def Let_def)
    then show ?thesis
      using Suc.IH [of "Suc i" ys] Suc.prems rest None yi k by (simp add: Let_def split: if_splits)
  next
    case (Some l)
    let ?ys = "ys[kept xs i := ys ! i]"
    have k: "kept xs (Suc i) = Suc (kept xs i)"
      using i Some by (simp add: kept_Suc)
    have "take (kept xs (Suc i)) ?ys = entries (take (Suc i) xs)"
      unfolding k using i Some yi le Suc.prems(2,4) by (simp add: take_Suc_conv_app_nth)
    moreover have "drop (Suc i) ?ys = drop (Suc i) xs"
      using le rest by simp
    ultimately show ?thesis
      using Suc.IH [of "Suc i" ?ys] Suc.prems Some yi k queue_at_entry [OF i, of adjust q] by simp
  qed
qed (auto simp: queue_at_def)

lemma compact_spec:
  assumes "adjust \<longrightarrow> 0 \<le> dq_i q"
  shows "\<exists>zs. compact_loop adjust (length xs) 0 xs q 0 = (kept xs (length xs), zs, queue_at adjust xs q (length xs)) \<and>
    take (kept xs (length xs)) zs = entries xs"
proof -
  have "queue_at adjust xs q 0 = q"
    by (simp add: queue_at_def)
  then show ?thesis
    using compact_loop_spec [of 0 "length xs" xs xs adjust q] assms by simp
qed

section \<open>Invariant\<close>

definition em_registered :: "'e emitter \<Rightarrow> nat list" where
  "em_registered s =
     (case em_listeners s of NoListeners \<Rightarrow> [] | OneListener l \<Rightarrow> [l] | ListenerArray a \<Rightarrow> present (em_arrays s ! a))"

text \<open>A delivery loop has listeners left to look at.\<close>

definition em_running :: "'e emitter \<Rightarrow> bool" where
  "em_running s \<longleftrightarrow> (\<exists>q v. em_queue s = Some q \<and> dq_value q = Some v \<and> dq_i q < dq_end q)"

definition em_pending :: "'e emitter \<Rightarrow> (nat \<times> 'e) list" where
  "em_pending s =
     (case (em_listeners s, em_queue s) of
        (ListenerArray a, Some q) \<Rightarrow>
          (case dq_value q of
             None \<Rightarrow> []
           | Some v \<Rightarrow> map (\<lambda>l. (l, v)) (present (drop (nat (dq_i q)) (take (nat (dq_end q)) (em_arrays s ! a)))))
      | _ \<Rightarrow> [])"

text \<open>The array is at least half full, so an array with one listener has no hole.\<close>

definition em_array_ok :: "'e emitter \<Rightarrow> bool" where
  "em_array_ok s \<longleftrightarrow>
     (case em_listeners s of
        ListenerArray a \<Rightarrow> a < length (em_arrays s) \<and> em_queue s \<noteq> None \<and> int (length (em_arrays s ! a)) < 2 * em_size s
      | _ \<Rightarrow> True)"

definition em_queue_ok :: "'e emitter \<Rightarrow> bool" where
  "em_queue_ok s \<longleftrightarrow>
     (\<forall>q v. em_queue s = Some q \<and> dq_value q = Some v \<longrightarrow> 0 \<le> dq_i q \<and>
        (dq_i q < dq_end q \<longrightarrow> (\<exists>a. em_listeners s = ListenerArray a \<and> dq_end q \<le> int (length (em_arrays s ! a)) \<and>
           None \<notin> set (drop (nat (dq_end q)) (em_arrays s ! a)))))"

definition em_inv :: "'e emitter \<Rightarrow> bool" where
  "em_inv s \<longleftrightarrow>
     em_size s = int (length (em_registered s)) \<and> distinct (em_registered s) \<and>
     (\<not> em_disposed s \<longrightarrow> set (em_registered s) = {..< em_nextId s} - set (em_removed s)) \<and>
     set (em_removed s) \<subseteq> {..< em_nextId s} \<and> (em_disposed s \<longrightarrow> em_listeners s = NoListeners) \<and> em_array_ok s \<and> em_queue_ok s"

lemma em_inv_new: "em_inv new_Emitter"
  by (simp add: em_inv_def new_Emitter_def em_registered_def em_array_ok_def em_queue_ok_def)

lemma em_pending_idle: "\<not> em_running s \<Longrightarrow> em_pending s = []"
  by (auto simp: em_running_def em_pending_def not_less split: emitterListeners.split option.split)

lemma em_fields [simp]:
  "em_registered (s\<lparr>em_calls := c\<rparr>) = em_registered s" "em_pending (s\<lparr>em_calls := c\<rparr>) = em_pending s"
  "em_inv (s\<lparr>em_calls := c\<rparr>) = em_inv s"
  "em_registered (em_hook h s) = em_registered s" "em_pending (em_hook h s) = em_pending s" "em_inv (em_hook h s) = em_inv s"
  "em_calls (em_hook h s) = em_calls s" "em_running (em_hook h s) = em_running s"
  by (simp_all add: em_registered_def em_pending_def em_inv_def em_array_ok_def em_queue_ok_def em_hook_def em_running_def
      cong: emitterListeners.case_cong option.case_cong)

section \<open>Subscribing\<close>

lemma Emitter_event_spec:
  assumes inv: "em_inv s" and s': "Emitter_event s = (Some l, s')"
  shows "em_inv s' \<and> em_registered s' = em_registered s @ [l] \<and> em_pending s' = em_pending s \<and> em_calls s' = em_calls s"
proof -
  have s: "\<not> em_disposed s" "l = em_nextId s"
    using s' by (auto simp: Emitter_event_def Let_def split: if_splits)
  have old: "set (em_removed s) \<subseteq> {..< em_nextId s}" "set (em_registered s) = {..< em_nextId s} - set (em_removed s)"
      "em_size s = int (length (em_registered s))" "distinct (em_registered s)"
    using inv s(1) by (simp_all add: em_inv_def)
  have new: "\<not> em_disposed s'" "em_nextId s' = Suc (em_nextId s)" "em_removed s' = em_removed s" "em_size s' = em_size s + 1"
      "em_calls s' = em_calls s"
    using s' by (auto simp: Emitter_event_def Let_def em_hook_def split: if_splits emitterListeners.splits)
  have q: "em_queue_ok s"
    using inv by (simp add: em_inv_def)
  have parts: "em_registered s' = em_registered s @ [l] \<and> em_pending s' = em_pending s \<and> em_array_ok s' \<and> em_queue_ok s'"
  proof (cases "em_listeners s")
    case NoListeners
    then show ?thesis
      using s' s q by (auto simp: Emitter_event_def Let_def em_hook_def em_registered_def em_pending_def em_array_ok_def em_queue_ok_def)
  next
    case (OneListener k)
    then show ?thesis
      using s' s q old(3) by (auto simp: Emitter_event_def Let_def em_registered_def em_pending_def em_array_ok_def em_queue_ok_def
          new_EventDeliveryQueue_def split: option.splits)
  next
    case (ListenerArray a)
    let ?arr = "em_arrays s ! a"
    have s'_def: "s' = s\<lparr>em_nextId := Suc (em_nextId s), em_arrays := (em_arrays s)[a := ?arr @ [Some l]], em_size := em_size s + 1\<rparr>"
      using s' s ListenerArray by (simp add: Emitter_event_def Let_def)
    have a: "a < length (em_arrays s)"
      using inv ListenerArray by (simp add: em_inv_def em_array_ok_def)
    have "em_pending s' = em_pending s"
    proof (cases "em_running s")
      case True
      then show ?thesis
        using q ListenerArray a by (auto simp: s'_def em_running_def em_pending_def em_queue_ok_def)
    next
      case False
      then have "\<not> em_running s'"
        by (simp add: s'_def em_running_def)
      with False show ?thesis
        by (simp add: em_pending_idle)
    qed
    moreover have "em_queue_ok s'"
      using q ListenerArray a by (auto simp: s'_def em_queue_ok_def)
    ultimately show ?thesis
      using inv ListenerArray a by (auto simp: s'_def em_inv_def em_array_ok_def em_registered_def)
  qed
  have "set (em_registered s @ [l]) = {..< Suc (em_nextId s)} - set (em_removed s)"
    using old(1,2) s(2) by (auto simp: less_Suc_eq)
  moreover have "distinct (em_registered s @ [l])" "set (em_removed s) \<subseteq> {..< Suc (em_nextId s)}"
    using old s(2) by auto
  ultimately show ?thesis
    using parts new old(3) by (simp add: em_inv_def)
qed

section \<open>Unsubscribing\<close>

text \<open>
  While a delivery is running, the listener that is removed must have been registered when the event
  was fired, and must not be the last one.
\<close>

definition removal_safe :: "nat \<Rightarrow> 'e emitter \<Rightarrow> bool" where
  "removal_safe l s \<longleftrightarrow>
     (\<forall>a q. em_running s \<and> em_listeners s = ListenerArray a \<and> em_queue s = Some q \<longrightarrow>
        em_size s \<noteq> 1 \<and> listener_index l (em_arrays s ! a) < dq_end q)"

lemma listener_index_Some:
  assumes "Some l \<in> set xs"
  shows "\<exists>k < length xs. listener_index l xs = int k \<and> xs ! k = Some l \<and> Some l \<notin> set (take k xs)"
proof -
  let ?k = "while_index (\<lambda>x. x \<noteq> Some l) xs 0"
  have k: "?k = length (takeWhile (\<lambda>x. x \<noteq> Some l) xs)"
    by (simp add: while_index_takeWhile)
  then have "?k < length xs"
    using assms by (metis (mono_tags, lifting) le_neq_implies_less length_takeWhile_le take_all_iff takeWhile_eq_all_conv takeWhile_eq_take)
  moreover from this have "xs ! ?k = Some l"
    unfolding k using nth_length_takeWhile by blast
  moreover have "Some l \<notin> set (take ?k xs)"
    unfolding k by (metis set_takeWhileD takeWhile_eq_take)
  ultimately show ?thesis
    by (intro exI [of _ ?k]) (simp add: listener_index_def Let_def)
qed

lemma present_hole:
  assumes "k < length xs" "xs ! k = Some l" "distinct (present xs)"
  shows "present (xs[k := None]) = removeAll l (present xs)"
    "present (drop i (take j (xs[k := None]))) = removeAll l (present (drop i (take j xs)))"
proof -
  have xs: "xs = take k xs @ Some l # drop (Suc k) xs"
    using id_take_nth_drop [OF assms(1)] assms(2) by simp
  have split: "present xs = present (take k xs) @ l # present (drop (Suc k) xs)"
    using assms(1,2) by (rule present_split)
  then have fresh: "Some l \<notin> set (take k xs)" "Some l \<notin> set (drop (Suc k) xs)"
    using assms(3) by (auto simp: set_present)
  have hole: "xs[k := None] = take k xs @ None # drop (Suc k) xs"
    using assms(1) by (simp add: upd_conv_take_nth_drop)
  have map: "xs[k := None] = map (\<lambda>x. if x = Some l then None else x) xs"
    unfolding hole by (subst (3) xs) (use fresh in \<open>auto intro!: map_idI [symmetric]\<close>)
  have rem: "present (map (\<lambda>x. if x = Some l then None else x) ys) = removeAll l (present ys)" for ys
  proof (induction ys)
    case (Cons y ys)
    then show ?case
      by (cases y) auto
  qed simp
  show "present (xs[k := None]) = removeAll l (present xs)"
    unfolding map by (rule rem)
  show "present (drop i (take j (xs[k := None]))) = removeAll l (present (drop i (take j xs)))"
    unfolding map take_map drop_map by (rule rem)
qed

text \<open>The queue after compaction points at the same listeners.\<close>

lemma compacted_slice:
  assumes "0 \<le> dq_i q" "dq_i q < dq_end q" "dq_end q \<le> int (length xs)" "None \<notin> set (drop (nat (dq_end q)) xs)"
  shows "dq_i (queue_at True xs q (length xs)) = int (kept xs (nat (dq_i q)))"
    "dq_end (queue_at True xs q (length xs)) = int (kept xs (nat (dq_end q)))"
proof -
  have "holes xs (length xs) = holes xs (nat (dq_end q)) + length (filter (\<lambda>x. x = None) (drop (nat (dq_end q)) xs))"
    unfolding holes_def by (metis append_take_drop_id filter_append length_append take_all_iff order_refl)
  also have "filter (\<lambda>x. x = None) (drop (nat (dq_end q)) xs) = []"
    unfolding filter_empty_conv using assms(4) by metis
  finally show "dq_end (queue_at True xs q (length xs)) = int (kept xs (nat (dq_end q)))"
    using kept_holes [of "nat (dq_end q)" xs] assms by (simp add: queue_at_def nat_le_iff)
  show "dq_i (queue_at True xs q (length xs)) = int (kept xs (nat (dq_i q)))"
    using kept_holes [of "nat (dq_i q)" xs] assms by (simp add: queue_at_def min_absorb2 nat_le_iff)
qed

lemma compacted_idle:
  assumes "0 \<le> dq_i q" "dq_end q \<le> dq_i q"
  shows "0 \<le> dq_i (queue_at adjust xs q (length xs)) \<and> dq_end (queue_at adjust xs q (length xs)) \<le> dq_i (queue_at adjust xs q (length xs))"
proof -
  have "holes xs (min (length xs) (nat (dq_i q))) \<le> holes xs (length xs)" "holes xs (min (length xs) (nat (dq_i q))) \<le> nat (dq_i q)"
    unfolding holes_def by (metis append_take_drop_id filter_append length_append le_add1 min.commute take_all_iff order_refl take_take)
      (metis length_filter_le length_take min.bounded_iff min.cobounded2 order_trans)
  then show ?thesis
    using assms by (simp add: queue_at_def le_nat_iff)
qed

lemma queue_at_value [simp]: "dq_value (queue_at adjust xs q i) = dq_value q"
  by (simp add: queue_at_def)

lemma em_pending_registered: "fst ` set (em_pending s) \<subseteq> set (em_registered s)"
  by (auto simp: em_pending_def em_registered_def set_present split: emitterListeners.splits option.splits)
    (meson in_set_dropD in_set_takeD)

definition em_shape :: "'e emitter \<Rightarrow> bool" where
  "em_shape s \<longleftrightarrow> em_size s = int (length (em_registered s)) \<and> distinct (em_registered s) \<and> em_array_ok s \<and> em_queue_ok s"

lemma removeListener_array:
  assumes inv: "em_shape s" and a: "em_listeners s = ListenerArray a" "em_queue s = Some q" and l: "l \<in> set (em_registered s)"
    and size: "em_size s \<noteq> 1" and safe: "removal_safe l s"
  shows "\<exists>s'. Emitter_removeListener l s = Inr s' \<and> em_registered s' = removeAll l (em_registered s) \<and>
    em_pending s' = filter (\<lambda>c. l \<noteq> fst c) (em_pending s) \<and> em_array_ok s' \<and> em_queue_ok s' \<and>
    em_calls s' = em_calls s \<and> em_size s' = em_size s - 1 \<and> em_nextId s' = em_nextId s \<and> em_removed s' = em_removed s \<and>
    em_disposed s' = em_disposed s"
proof -
  let ?xs = "em_arrays s ! a"
  have reg: "em_registered s = present ?xs" and len: "a < length (em_arrays s)" "int (length ?xs) < 2 * em_size s" and q: "em_queue_ok s"
    using inv a by (simp_all add: em_registered_def em_shape_def em_array_ok_def)
  obtain k where k: "k < length ?xs" "listener_index l ?xs = int k" "?xs ! k = Some l"
    using listener_index_Some [of l ?xs] l reg by (auto simp: set_present)
  let ?ys = "?xs[k := None]"
  have "distinct (present ?xs)"
    using inv reg by (simp add: em_shape_def)
  note hole = present_hole [OF k(1,3) this]
  have queue: "0 \<le> dq_i q" if "dq_value q = Some v" for v
    using q a that by (simp add: em_queue_ok_def)
  have running: "dq_end q \<le> int (length ?ys) \<and> None \<notin> set (drop (nat (dq_end q)) ?ys)" if "dq_value q = Some v" "dq_i q < dq_end q" for v
  proof -
    have "int k < dq_end q"
      using safe a k(2) that by (auto simp: removal_safe_def em_running_def)
    then show ?thesis
      using q a that by (auto simp: em_queue_ok_def)
  qed
  have pend: "filter (\<lambda>c. l \<noteq> fst c) (em_pending s) =
      (case dq_value q of None \<Rightarrow> [] | Some v \<Rightarrow> map (\<lambda>l. (l, v)) (present (drop (nat (dq_i q)) (take (nat (dq_end q)) ?ys))))"
    using a hole(2) by (simp add: em_pending_def filter_map comp_def removeAll_filter_not_eq split: option.split)
  show ?thesis
  proof (cases "(em_size s - 1) * 2 \<le> int (length ?ys)")
    case False
    let ?s = "(em_hook WillRemoveListener s)\<lparr>em_size := em_size s - 1, em_arrays := (em_arrays s)[a := ?ys]\<rparr>"
    have "Emitter_removeListener l s = Inr ?s"
      using a k size False by (simp add: Emitter_removeListener_def em_hook_def Let_def)
    moreover have "em_queue_ok ?s"
      using a len(1) queue running by (auto simp: em_queue_ok_def em_hook_def)
    moreover have "em_array_ok ?s" "em_registered ?s = removeAll l (em_registered s)"
      using a len(1) False hole(1) reg by (simp_all add: em_array_ok_def em_registered_def em_hook_def)
    moreover have "em_pending ?s = filter (\<lambda>c. l \<noteq> fst c) (em_pending s)"
      unfolding pend using a len(1) by (simp add: em_pending_def em_hook_def split: option.split)
    ultimately show ?thesis
      by (simp add: em_hook_def)
  next
    case True
    let ?adj = "dq_value q \<noteq> None" and ?n = "length ?ys"
    let ?q = "queue_at ?adj ?ys q ?n"
    let ?s = "(em_hook WillRemoveListener s)\<lparr>em_size := em_size s - 1, em_arrays := (em_arrays s)[a := entries ?ys], em_queue := Some ?q\<rparr>"
    obtain zs where "compact_loop ?adj ?n 0 ?ys q 0 = (kept ?ys ?n, zs, ?q)" "take (kept ?ys ?n) zs = entries ?ys"
      using compact_spec [of ?adj q ?ys] queue by auto
    then have "Emitter_removeListener l s = Inr ?s"
      using a k size True by (simp add: Emitter_removeListener_def em_hook_def Let_def)
    moreover have "em_registered ?s = removeAll l (em_registered s)"
      using a len(1) hole(1) reg by (simp add: em_registered_def em_hook_def)
    moreover have "length (entries ?ys) = length (em_registered s) - 1"
      unfolding length_present [symmetric] hole(1) reg using l reg inv by (simp add: em_shape_def length_remove1 flip: distinct_remove1_removeAll)
    then have "em_array_ok ?s"
      using a len(1) size inv l by (auto simp: em_array_ok_def em_hook_def em_shape_def)
    moreover have "em_queue_ok ?s \<and> em_pending ?s = filter (\<lambda>c. l \<noteq> fst c) (em_pending s)"
    proof (cases "dq_value q")
      case None
      then show ?thesis
        unfolding pend using a by (simp add: em_queue_ok_def em_pending_def em_hook_def)
    next
      case (Some v)
      show ?thesis
      proof (cases "dq_i q < dq_end q")
        case True
        have moved: "dq_i ?q = int (kept ?ys (nat (dq_i q)))" "dq_end ?q = int (kept ?ys (nat (dq_end q)))"
          using compacted_slice [OF queue [OF Some] True, of ?ys] running [OF Some True] Some by simp_all
        have "kept ?ys (nat (dq_end q)) \<le> length (entries ?ys)"
          unfolding kept_def by (metis append_take_drop_id entries_simps(4) le_add1 length_append)
        moreover have "None \<notin> set (entries ?ys)"
          by (simp add: entries_def)
        ultimately show ?thesis
          unfolding pend using a len(1) Some True moved present_slice [of "nat (dq_i q)" "nat (dq_end q)" ?ys]
          by (auto simp: em_queue_ok_def em_pending_def em_hook_def dest: in_set_dropD)
      next
        case False
        then have idle: "0 \<le> dq_i ?q" "dq_end ?q \<le> dq_i ?q"
          using compacted_idle [of q ?adj ?ys] queue [OF Some] by auto
        then have "\<not> em_running ?s" "\<not> em_running s"
          using a False Some by (auto simp: em_running_def em_hook_def)
        then show ?thesis
          using idle by (auto simp: em_pending_idle em_queue_ok_def em_hook_def)
      qed
    qed
    ultimately show ?thesis
      by (simp add: em_hook_def)
  qed
qed

lemma pending_unregistered: "l \<notin> set (em_registered s) \<Longrightarrow> filter (\<lambda>c. l \<noteq> fst c) (em_pending s) = em_pending s"
  using em_pending_registered [of s] by (auto intro!: filter_True)

lemma removeListener_last:
  assumes inv: "em_shape s" and one: "em_size s = 1" "em_listeners s \<noteq> NoListeners" and l: "l \<in> set (em_registered s)" and safe: "removal_safe l s"
  shows "\<exists>s'. Emitter_removeListener l s = Inr s' \<and> em_registered s' = removeAll l (em_registered s) \<and>
    em_pending s' = filter (\<lambda>c. l \<noteq> fst c) (em_pending s) \<and> em_array_ok s' \<and> em_queue_ok s' \<and>
    em_calls s' = em_calls s \<and> em_size s' = em_size s - 1 \<and> em_nextId s' = em_nextId s \<and> em_removed s' = em_removed s \<and>
    em_disposed s' = em_disposed s"
proof -
  let ?s = "(em_hook DidRemoveLastListener ((em_hook WillRemoveListener s)\<lparr>em_listeners := NoListeners\<rparr>))\<lparr>em_size := 0\<rparr>"
  have "Emitter_removeListener l s = Inr ?s"
    using one by (cases "em_listeners s") (simp_all add: Emitter_removeListener_def em_hook_def Let_def)
  moreover have "em_registered s = [l]"
    using inv one(1) l by (cases "em_registered s") (auto simp: em_shape_def)
  moreover have idle: "\<not> em_running s"
    using inv safe one by (auto simp: em_shape_def em_queue_ok_def removal_safe_def em_running_def)
  then have "em_queue_ok ?s"
    using inv by (auto simp: em_shape_def em_queue_ok_def em_running_def em_hook_def)
  moreover have "em_registered ?s = []" "em_array_ok ?s" "em_pending ?s = []"
    by (simp_all add: em_registered_def em_array_ok_def em_pending_def em_hook_def)
  ultimately show ?thesis
    using one em_pending_idle [OF idle] by (simp add: em_hook_def)
qed

lemma subscription_dispose_spec:
  assumes inv: "em_inv s" and l: "l < em_nextId s" and safe: "removal_safe l s"
  shows "\<exists>s'. subscription_dispose l s = Inr s' \<and> em_inv s' \<and> em_registered s' = removeAll l (em_registered s) \<and>
    em_pending s' = filter (\<lambda>c. l \<noteq> fst c) (em_pending s) \<and> em_calls s' = em_calls s"
proof (cases "l \<in> set (em_removed s)")
  case True
  then have "l \<notin> set (em_registered s)"
    using inv by (cases "em_disposed s") (auto simp: em_inv_def em_registered_def)
  with True inv show ?thesis
    by (simp add: subscription_dispose_def pending_unregistered)
next
  case False
  let ?s = "s\<lparr>em_removed := em_removed s @ [l]\<rparr>"
  have same: "em_registered ?s = em_registered s" "em_pending ?s = em_pending s" "removal_safe l ?s"
    using safe by (simp_all add: em_registered_def em_pending_def removal_safe_def em_running_def cong: emitterListeners.case_cong option.case_cong)
  have shape: "em_shape ?s"
  proof -
    have "em_array_ok ?s = em_array_ok s" "em_queue_ok ?s = em_queue_ok s"
      by (cases "em_listeners s"; simp add: em_array_ok_def em_queue_ok_def)+
    then show ?thesis
      using inv same by (simp add: em_inv_def em_shape_def)
  qed
  have parts: "set (em_removed ?s) \<subseteq> {..< em_nextId s}" "\<not> em_disposed s \<Longrightarrow> set (removeAll l (em_registered s)) = {..< em_nextId s} - set (em_removed ?s)"
      "distinct (removeAll l (em_registered s))"
    using inv l by (auto simp: em_inv_def distinct_removeAll)
  show ?thesis
  proof (cases "em_listeners s = NoListeners")
    case True
    then have reg: "em_registered s = []" "em_pending s = []"
      by (simp_all add: em_registered_def em_pending_def)
    have "subscription_dispose l s = Inr (em_hook WillRemoveListener ?s)"
      using True False by (simp add: subscription_dispose_def Emitter_removeListener_def em_hook_def Let_def)
    moreover have "em_inv ?s"
      using shape parts same reg True inv by (simp add: em_inv_def em_shape_def)
    ultimately show ?thesis
      using same reg by simp
  next
    case listening: False
    then have "\<not> em_disposed s"
      using inv by (simp add: em_inv_def)
    then have reg: "l \<in> set (em_registered ?s)"
      using inv l False same by (auto simp: em_inv_def)
    obtain s' where s': "Emitter_removeListener l ?s = Inr s'" "em_registered s' = removeAll l (em_registered s)"
        "em_pending s' = filter (\<lambda>c. l \<noteq> fst c) (em_pending s)" "em_array_ok s'" "em_queue_ok s'" "em_calls s' = em_calls s"
        "em_size s' = em_size s - 1" "em_nextId s' = em_nextId s" "em_removed s' = em_removed ?s" "em_disposed s' = em_disposed s"
    proof (cases "em_size s = 1")
      case True
      then show ?thesis
        using removeListener_last [OF shape _ _ reg same(3)] listening same that by auto
    next
      case False
      then obtain a q where "em_listeners s = ListenerArray a" "em_queue s = Some q"
        using listening inv by (cases "em_listeners s") (auto simp: em_inv_def em_array_ok_def em_registered_def)
      then show ?thesis
        using removeListener_array [OF shape _ _ reg _ same(3), of a q] False same that by auto
    qed
    have "1 \<le> length (em_registered s)"
      using reg same by (cases "em_registered s") auto
    then have "em_size s' = int (length (em_registered s'))"
      using s'(2,7) inv reg same by (simp add: em_inv_def length_remove1 of_nat_diff flip: distinct_remove1_removeAll)
    then have "em_inv s'"
      using s' parts \<open>\<not> em_disposed s\<close> by (simp add: em_inv_def)
    then show ?thesis
      using s' False by (simp add: subscription_dispose_def)
  qed
qed

section \<open>Delivering\<close>

lemma deliver_frame [simp]:
  "em_registered (em_deliver l v s) = em_registered s" "em_pending (em_deliver l v s) = em_pending s" "em_inv (em_deliver l v s) = em_inv s"
  by (cases l; simp add: em_deliver_def)+

text \<open>One turn of a running loop calls the first pending listener, or passes a hole.\<close>

lemma deliverNext_running:
  assumes inv: "em_inv s" and run: "em_running s"
  shows "\<exists>s'. Emitter_deliverNext (em_listeners s) s = Inr s' \<and> em_inv s' \<and> em_registered s' = em_registered s \<and>
    em_listeners s' = em_listeners s \<and> em_current s' \<and>
    ((em_pending s' = em_pending s \<and> em_calls s' = em_calls s) \<or>
     (\<exists>c. em_pending s = c # em_pending s' \<and> em_calls s' = em_calls s @ [c]))"
proof -
  obtain q v where q: "em_queue s = Some q" "dq_value q = Some v" "dq_i q < dq_end q"
    using run by (auto simp: em_running_def)
  then obtain a where a: "em_listeners s = ListenerArray a" "0 \<le> dq_i q" "dq_end q \<le> int (length (em_arrays s ! a))"
      "None \<notin> set (drop (nat (dq_end q)) (em_arrays s ! a))"
    using inv by (auto simp: em_inv_def em_queue_ok_def)
  let ?xs = "em_arrays s ! a" and ?i = "nat (dq_i q)"
  let ?t = "s\<lparr>em_queue := Some (q\<lparr>dq_i := dq_i q + 1\<rparr>)\<rparr>"
  have slice: "drop ?i (take (nat (dq_end q)) ?xs) = ?xs ! ?i # drop (nat (dq_i q + 1)) (take (nat (dq_end q)) ?xs)"
  proof -
    have "?i < length (take (nat (dq_end q)) ?xs)"
      using a(2,3) q(3) by auto
    then show ?thesis
      using a(2) by (simp add: Cons_nth_drop_Suc [symmetric] nat_add_distrib)
  qed
  have t: "em_inv ?t" "em_registered ?t = em_registered s"
    using inv a q by (auto simp: em_inv_def em_registered_def em_array_ok_def em_queue_ok_def)
  have turn: "Emitter_deliverNext (em_listeners s) s = Inr (em_deliver (?xs ! ?i) v ?t)"
    using a q by (simp add: Emitter_deliverNext_def Let_def)
  show ?thesis
  proof (cases "?xs ! ?i")
    case None
    then show ?thesis
      using turn t a q slice by (simp add: em_pending_def em_deliver_def)
  next
    case (Some l)
    then show ?thesis
      using turn t a q slice by (simp add: em_pending_def em_deliver_def)
  qed
qed

lemma deliverNext_idle:
  assumes inv: "em_inv s" and q: "em_queue s = Some q" "dq_end q \<le> dq_i q"
  shows "Emitter_deliverNext captured s = Inr (s\<lparr>em_queue := Some (dq_reset q)\<rparr>)"
    "em_inv (s\<lparr>em_queue := Some (dq_reset q)\<rparr>)" "em_registered (s\<lparr>em_queue := Some (dq_reset q)\<rparr>) = em_registered s"
    "em_pending (s\<lparr>em_queue := Some (dq_reset q)\<rparr>) = []" "em_pending s = []"
proof -
  show "Emitter_deliverNext captured s = Inr (s\<lparr>em_queue := Some (dq_reset q)\<rparr>)"
    using q by (simp add: Emitter_deliverNext_def)
  show "em_inv (s\<lparr>em_queue := Some (dq_reset q)\<rparr>)" "em_registered (s\<lparr>em_queue := Some (dq_reset q)\<rparr>) = em_registered s"
    using inv q by (auto simp: em_inv_def em_registered_def em_array_ok_def em_queue_ok_def dq_reset_def split: emitterListeners.splits)
  show "em_pending (s\<lparr>em_queue := Some (dq_reset q)\<rparr>) = []" "em_pending s = []"
    using q by (auto simp: em_running_def dq_reset_def intro!: em_pending_idle)
qed

lemma dispatch_array:
  assumes inv: "em_inv s" and a: "em_listeners s = ListenerArray a"
  shows "\<exists>s'. Emitter_dispatch v s = Inr s' \<and> em_inv s' \<and> em_registered s' = em_registered s \<and>
    em_pending s' = map (\<lambda>l. (l, v)) (em_registered s) \<and> em_calls s' = em_calls s \<and> em_listeners s' = em_listeners s"
proof -
  obtain q where q: "em_queue s = Some q"
    using inv a by (auto simp: em_inv_def em_array_ok_def)
  let ?s = "s\<lparr>em_queue := Some (dq_enqueue v (int (length (em_arrays s ! a))) q)\<rparr>"
  have "Emitter_dispatch v s = Inr ?s"
    using a q by (simp add: Emitter_dispatch_def)
  moreover have "em_inv ?s" "em_registered ?s = em_registered s"
    using inv a by (auto simp: em_inv_def em_registered_def em_array_ok_def em_queue_ok_def dq_enqueue_def)
  moreover have "em_pending ?s = map (\<lambda>l. (l, v)) (em_registered s)"
    using a by (simp add: em_pending_def em_registered_def dq_enqueue_def)
  ultimately show ?thesis
    by simp
qed

lemma Emitter_dispose_spec:
  assumes inv: "em_inv s"
  shows "em_inv (Emitter_dispose s) \<and> em_registered (Emitter_dispose s) = [] \<and> em_pending (Emitter_dispose s) = [] \<and>
    em_calls (Emitter_dispose s) = em_calls s"
proof (cases "em_disposed s")
  case True
  then show ?thesis
    using inv by (simp add: Emitter_dispose_def em_inv_def em_registered_def em_pending_def)
next
  case False
  let ?s = "Emitter_dispose s"
  have fields: "em_listeners ?s = NoListeners" "em_disposed ?s" "em_removed ?s = em_removed s" "em_nextId ?s = em_nextId s" "em_calls ?s = em_calls s"
      "em_size ?s = 0"
    using False inv by (auto simp: Emitter_dispose_def Let_def em_hook_def em_inv_def em_registered_def)
  have "em_queue ?s = em_queue s \<and> \<not> em_current s \<or> (\<exists>q. em_queue ?s = Some q \<and> dq_value q = None)"
    using False by (cases "em_queue s") (auto simp: Emitter_dispose_def Let_def em_hook_def dq_reset_def)
  then have "em_queue_ok ?s"
    by (auto simp: em_queue_ok_def)
  then show ?thesis
    using fields inv by (simp add: em_inv_def em_registered_def em_pending_def em_array_ok_def)
qed

text \<open>With listeners that leave the emitter alone, a loop calls everything that is pending.\<close>

lemma deliverQueue_spec:
  assumes "em_inv s" "em_current s" "captured = em_listeners s"
  shows "\<exists>s'. Emitter_deliverQueue captured s = Inr s' \<and> em_inv s' \<and> em_registered s' = em_registered s \<and>
    em_listeners s' = em_listeners s \<and> \<not> em_current s' \<and> em_calls s' = em_calls s @ em_pending s"
  using assms
proof (induction captured s rule: Emitter_deliverQueue.induct)
  case (1 captured s)
  obtain q v where q: "em_queue s = Some q" "dq_value q = Some v"
    using 1(3) by (auto split: option.splits)
  show ?case
  proof (cases "dq_i q < dq_end q")
    case True
    then have run: "em_running s"
      using q by (auto simp: em_running_def)
    obtain s' where s': "Emitter_deliverNext captured s = Inr s'" "em_inv s'" "em_registered s' = em_registered s"
        "em_listeners s' = em_listeners s" "em_current s'"
        "(em_pending s' = em_pending s \<and> em_calls s' = em_calls s) \<or> (\<exists>c. em_pending s = c # em_pending s' \<and> em_calls s' = em_calls s @ [c])"
      using deliverNext_running [OF 1(2) run] 1(4) by blast
    obtain t where "Emitter_deliverQueue captured s' = Inr t" "em_inv t" "em_registered t = em_registered s'"
        "em_listeners t = em_listeners s'" "\<not> em_current t" "em_calls t = em_calls s' @ em_pending s'"
      using 1(1) [OF s'(1) _ s'(2,5)] True q s'(4) 1(4) by auto
    then show ?thesis
      using s' q True by (subst Emitter_deliverQueue.simps) auto
  next
    case False
    then have "dq_end q \<le> dq_i q"
      by simp
    note idle = deliverNext_idle [OF 1(2) q(1) this]
    show ?thesis
      using idle q False by (subst Emitter_deliverQueue.simps) (simp add: dq_reset_def)
  qed
qed

lemma Emitter_fire_spec:
  assumes inv: "em_inv s"
  shows "\<exists>s'. Emitter_fire v s = Inr s' \<and> em_inv s' \<and> em_registered s' = em_registered s \<and>
    em_calls s' = em_calls s @ em_pending s @ map (\<lambda>l. (l, v)) (em_registered s)"
proof -
  obtain t where t: "(if em_current s then Emitter_deliverQueue (em_listeners s) s else Inr s) = Inr t" "em_inv t"
      "em_registered t = em_registered s" "em_listeners t = em_listeners s" "em_calls t = em_calls s @ em_pending s"
  proof (cases "em_current s")
    case True
    then show ?thesis
      using deliverQueue_spec [OF inv True refl] that by auto
  next
    case False
    then have "em_pending s = []"
      by (intro em_pending_idle) (auto simp: em_running_def split: option.splits)
    with False inv show ?thesis
      using that by simp
  qed
  show ?thesis
  proof (cases "em_listeners s")
    case (ListenerArray a)
    then obtain u where u: "Emitter_dispatch v t = Inr u" "em_inv u" "em_registered u = em_registered t"
        "em_pending u = map (\<lambda>l. (l, v)) (em_registered t)" "em_calls u = em_calls t" "em_listeners u = em_listeners t"
      using dispatch_array [OF t(2), of a v] t(4) by auto
    have "em_current u"
      using u(1) t(4) ListenerArray by (auto simp: Emitter_dispatch_def dq_enqueue_def split: option.splits)
    then show ?thesis
      using deliverQueue_spec [OF u(2), of "em_listeners t"] u t ListenerArray by (auto simp: Emitter_fire_def)
  qed (use t in \<open>auto simp: Emitter_fire_def Emitter_dispatch_def em_deliver_def em_registered_def\<close>)
qed

section \<open>Operations and runs\<close>

text \<open>
  What can happen to an emitter with arbitrary listeners: a subscription, the disposal of a subscription, the second half of
  \<open>fire\<close>, a turn of a delivery loop with the listeners it has captured, and the disposal of the emitter.  A listener that is called may
  do any of these before the next turn.
\<close>

datatype 'e emitterOp = OpSubscribe | OpUnsubscribe nat | OpDispatch 'e | OpDeliver emitterListeners | OpDispose

fun em_exec :: "'e emitterOp \<Rightarrow> 'e emitter \<Rightarrow> js_error + 'e emitter" where
  "em_exec OpSubscribe s = Inr (snd (Emitter_event s))"
| "em_exec (OpUnsubscribe l) s = subscription_dispose l s"
| "em_exec (OpDispatch v) s = Emitter_dispatch v s"
| "em_exec (OpDeliver captured) s = Emitter_deliverNext captured s"
| "em_exec OpDispose s = Inr (Emitter_dispose s)"

text \<open>
  \<open>fire\<close> first finishes the running delivery, so a new event is dispatched when no delivery is current; a loop that is not finished
  runs on the array the emitter has.  During a delivery neither the last listener nor one that was added during it is removed.
\<close>

fun em_enabled :: "'e emitterOp \<Rightarrow> 'e emitter \<Rightarrow> bool" where
  "em_enabled (OpUnsubscribe l) s \<longleftrightarrow> l < em_nextId s \<and> removal_safe l s"
| "em_enabled (OpDispatch v) s \<longleftrightarrow> \<not> em_current s"
| "em_enabled (OpDeliver captured) s \<longleftrightarrow> em_current s \<and> (em_running s \<longrightarrow> captured = em_listeners s)"
| "em_enabled op s \<longleftrightarrow> True"

fun em_run :: "'e emitterOp list \<Rightarrow> 'e emitter \<Rightarrow> js_error + 'e emitter" where
  "em_run [] s = Inr s"
| "em_run (op # ops) s = bind_result (em_exec op s) (em_run ops)"

fun em_legal :: "'e emitterOp list \<Rightarrow> 'e emitter \<Rightarrow> bool" where
  "em_legal [] s \<longleftrightarrow> True"
| "em_legal (op # ops) s \<longleftrightarrow> em_enabled op s \<and> (case em_exec op s of Inl err \<Rightarrow> True | Inr s' \<Rightarrow> em_legal ops s')"

section \<open>The specification\<close>

text \<open>
  What an emitter promises: the next id, whether it is disposed, the listeners in the order they subscribed, whether an event is
  being delivered and the calls it still has to make, and the calls made so far.
\<close>

record 'e eventSpec =
  es_next :: nat
  es_disposed :: bool
  es_listeners :: "nat list"
  es_busy :: bool
  es_pending :: "(nat \<times> 'e) list"
  es_calls :: "(nat \<times> 'e) list"

text \<open>
  The specification follows the same operations.  An event is due to all listeners that are registered when it is dispatched (a single listener may be
  called at once); a turn makes the first call that is due, or none; a delivery ends when no call is due.
\<close>

inductive spec_step :: "'e eventSpec \<Rightarrow> 'e emitterOp \<Rightarrow> 'e eventSpec \<Rightarrow> bool" where
  subscribe: "\<not> es_disposed x \<Longrightarrow> spec_step x OpSubscribe (x\<lparr>es_next := es_next x + 1, es_listeners := es_listeners x @ [es_next x]\<rparr>)"
| subscribe_disposed: "es_disposed x \<Longrightarrow> spec_step x OpSubscribe x"
| unsubscribe: "spec_step x (OpUnsubscribe l)
    (x\<lparr>es_listeners := removeAll l (es_listeners x), es_pending := filter (\<lambda>c. l \<noteq> fst c) (es_pending x)\<rparr>)"
| dispatch: "\<not> es_busy x \<Longrightarrow> es_listeners x \<noteq> [] \<Longrightarrow>
    spec_step x (OpDispatch v) (x\<lparr>es_busy := True, es_pending := map (\<lambda>l. (l, v)) (es_listeners x)\<rparr>)"
| dispatch_one: "\<not> es_busy x \<Longrightarrow> es_listeners x = [l] \<Longrightarrow> spec_step x (OpDispatch v) (x\<lparr>es_calls := es_calls x @ [(l, v)]\<rparr>)"
| dispatch_none: "\<not> es_busy x \<Longrightarrow> es_listeners x = [] \<Longrightarrow> spec_step x (OpDispatch v) x"
| deliver: "es_busy x \<Longrightarrow> es_pending x = c # cs \<Longrightarrow>
    spec_step x (OpDeliver captured) (x\<lparr>es_pending := cs, es_calls := es_calls x @ [c]\<rparr>)"
| skip: "es_busy x \<Longrightarrow> spec_step x (OpDeliver captured) x"
| finish: "es_busy x \<Longrightarrow> es_pending x = [] \<Longrightarrow> spec_step x (OpDeliver captured) (x\<lparr>es_busy := False\<rparr>)"
| dispose: "\<not> es_disposed x \<Longrightarrow> spec_step x OpDispose (x\<lparr>es_disposed := True, es_listeners := [], es_busy := False, es_pending := []\<rparr>)"
| dispose_again: "es_disposed x \<Longrightarrow> spec_step x OpDispose x"

inductive spec_run :: "'e eventSpec \<Rightarrow> 'e emitterOp list \<Rightarrow> 'e eventSpec \<Rightarrow> bool" where
  run_nil: "spec_run x [] x"
| run_cons: "spec_step x op y \<Longrightarrow> spec_run y ops z \<Longrightarrow> spec_run x (op # ops) z"

definition spec_of :: "'e emitter \<Rightarrow> 'e eventSpec" where
  "spec_of s = \<lparr>es_next = em_nextId s, es_disposed = em_disposed s, es_listeners = em_registered s, es_busy = em_current s,
     es_pending = em_pending s, es_calls = em_calls s\<rparr>"

subsection \<open>Refinement\<close>

lemma compact_loop_value: "dq_value (snd (snd (compact_loop adjust todo i ls q n))) = dq_value q"
  by (induction adjust todo i ls q n rule: compact_loop.induct) (auto simp: Let_def)

lemma removal_frame:
  assumes "subscription_dispose l s = Inr s'"
  shows "em_nextId s' = em_nextId s \<and> em_disposed s' = em_disposed s \<and> em_current s' = em_current s"
proof -
  have "dq_value q' = dq_value q" if "compact_loop adjust todo i ls q n = (m, ls', q')" for adjust todo i ls n m ls' and q q' :: "'a deliveryQueue"
    using compact_loop_value [of adjust todo i ls q n] that by simp
  then show ?thesis
    using assms unfolding subscription_dispose_def Emitter_removeListener_def em_hook_def
    by (auto simp: Let_def split: if_splits emitterListeners.splits option.splits prod.splits)
qed

lemma deliver_op_frame:
  "Emitter_deliverNext captured s = Inr s' \<Longrightarrow> em_nextId s' = em_nextId s \<and> em_disposed s' = em_disposed s"
  "Emitter_dispatch v s = Inr s' \<Longrightarrow> em_nextId s' = em_nextId s \<and> em_disposed s' = em_disposed s"
  by (auto simp: Emitter_deliverNext_def Emitter_dispatch_def em_deliver_def Let_def split: option.splits if_splits emitterListeners.splits)

lemma event_frame:
  assumes "\<not> em_disposed s"
  shows "\<exists>s'. Emitter_event s = (Some (em_nextId s), s') \<and> em_nextId s' = em_nextId s + 1 \<and> \<not> em_disposed s' \<and> em_current s' = em_current s"
  using assms by (auto simp: Emitter_event_def Let_def em_hook_def new_EventDeliveryQueue_def split: emitterListeners.splits option.splits)

lemma dispatch_refines:
  assumes inv: "em_inv s" and idle: "\<not> em_current s"
  shows "\<exists>s'. Emitter_dispatch v s = Inr s' \<and> em_inv s' \<and> spec_step (spec_of s) (OpDispatch v) (spec_of s')"
proof -
  have pend: "em_pending s = []"
    using idle by (intro em_pending_idle) (auto simp: em_running_def split: option.splits)
  have busy: "\<not> es_busy (spec_of s)"
    using idle by (simp add: spec_of_def)
  show ?thesis
  proof (cases "em_listeners s")
    case NoListeners
    then show ?thesis
      using inv dispatch_none [OF busy, of v] by (simp add: Emitter_dispatch_def spec_of_def em_registered_def)
  next
    case (OneListener l)
    let ?s = "em_deliver (Some l) v s"
    have "spec_of ?s = (spec_of s)\<lparr>es_calls := es_calls (spec_of s) @ [(l, v)]\<rparr>" "em_inv ?s"
      using OneListener inv pend by (simp_all add: spec_of_def em_registered_def em_deliver_def)
    moreover have "spec_step (spec_of s) (OpDispatch v) ((spec_of s)\<lparr>es_calls := es_calls (spec_of s) @ [(l, v)]\<rparr>)"
      by (rule dispatch_one [OF busy]) (use OneListener in \<open>simp add: spec_of_def em_registered_def\<close>)
    ultimately show ?thesis
      using OneListener by (simp add: Emitter_dispatch_def)
  next
    case (ListenerArray a)
    obtain s' where s': "Emitter_dispatch v s = Inr s'" "em_inv s'" "em_registered s' = em_registered s"
        "em_pending s' = map (\<lambda>l. (l, v)) (em_registered s)" "em_calls s' = em_calls s"
      using dispatch_array [OF inv ListenerArray, of v] by blast
    have "em_current s'"
      using s'(1) ListenerArray by (auto simp: Emitter_dispatch_def dq_enqueue_def split: option.splits)
    then have "spec_of s' = (spec_of s)\<lparr>es_busy := True, es_pending := map (\<lambda>l. (l, v)) (es_listeners (spec_of s))\<rparr>"
      using s' deliver_op_frame(2) [OF s'(1)] by (simp add: spec_of_def)
    moreover have "em_registered s \<noteq> []"
      using inv ListenerArray by (auto simp: em_inv_def em_array_ok_def)
    ultimately show ?thesis
      using s'(1,2) dispatch [OF busy, of v] by (simp add: spec_of_def)
  qed
qed

lemma deliver_refines:
  assumes inv: "em_inv s" and cur: "em_current s" and captured: "em_running s \<longrightarrow> captured = em_listeners s"
  shows "\<exists>s'. Emitter_deliverNext captured s = Inr s' \<and> em_inv s' \<and> spec_step (spec_of s) (OpDeliver captured) (spec_of s')"
proof -
  have busy: "es_busy (spec_of s)"
    using cur by (simp add: spec_of_def)
  show ?thesis
  proof (cases "em_running s")
    case True
    then obtain s' where s': "Emitter_deliverNext captured s = Inr s'" "em_inv s'" "em_registered s' = em_registered s" "em_current s'"
      and c: "(em_pending s' = em_pending s \<and> em_calls s' = em_calls s) \<or> (\<exists>c. em_pending s = c # em_pending s' \<and> em_calls s' = em_calls s @ [c])"
      using deliverNext_running [OF inv True] captured by auto
    note frame = deliver_op_frame(1) [OF s'(1)]
    from c consider "spec_of s' = spec_of s" |
      c where "es_pending (spec_of s) = c # em_pending s'" "spec_of s' = (spec_of s)\<lparr>es_pending := em_pending s', es_calls := es_calls (spec_of s) @ [c]\<rparr>"
      using s' frame cur by (auto simp: spec_of_def)
    then show ?thesis
      using s'(1,2) skip [OF busy, of captured] deliver [OF busy, of _ _ captured] by cases auto
  next
    case False
    then obtain q where q: "em_queue s = Some q" "dq_end q \<le> dq_i q"
      using cur by (auto simp: em_running_def split: option.splits)
    let ?s = "s\<lparr>em_queue := Some (dq_reset q)\<rparr>"
    have "spec_of ?s = (spec_of s)\<lparr>es_busy := False\<rparr>" "es_pending (spec_of s) = []"
      using deliverNext_idle [OF inv q] by (simp_all add: spec_of_def dq_reset_def)
    then show ?thesis
      using deliverNext_idle(1,2) [OF inv q] finish [OF busy, of captured] by auto
  qed
qed

lemma dispose_refines: "em_inv s \<Longrightarrow> em_inv (Emitter_dispose s) \<and> spec_step (spec_of s) OpDispose (spec_of (Emitter_dispose s))"
proof -
  assume inv: "em_inv s"
  show ?thesis
  proof (cases "em_disposed s")
    case True
    then show ?thesis
      using inv dispose_again [of "spec_of s"] by (simp add: Emitter_dispose_def spec_of_def)
  next
    case False
    have "\<not> em_current (Emitter_dispose s)" "em_disposed (Emitter_dispose s)" "em_nextId (Emitter_dispose s) = em_nextId s"
      using False by (auto simp: Emitter_dispose_def Let_def em_hook_def dq_reset_def split: option.splits)
    then have "spec_of (Emitter_dispose s) = (spec_of s)\<lparr>es_disposed := True, es_listeners := [], es_busy := False, es_pending := []\<rparr>"
      using Emitter_dispose_spec [OF inv] by (simp add: spec_of_def)
    then show ?thesis
      using Emitter_dispose_spec [OF inv] dispose [of "spec_of s"] False by (simp add: spec_of_def)
  qed
qed

lemma subscribe_refines:
  assumes inv: "em_inv s"
  shows "em_inv (snd (Emitter_event s)) \<and> spec_step (spec_of s) OpSubscribe (spec_of (snd (Emitter_event s)))"
proof (cases "em_disposed s")
  case True
  then show ?thesis
    using inv subscribe_disposed [of "spec_of s"] by (simp add: Emitter_event_def spec_of_def)
next
  case False
  then obtain s' where s': "Emitter_event s = (Some (em_nextId s), s')" "em_nextId s' = em_nextId s + 1" "\<not> em_disposed s'" "em_current s' = em_current s"
    using event_frame by blast
  then have "spec_of s' = (spec_of s)\<lparr>es_next := es_next (spec_of s) + 1, es_listeners := es_listeners (spec_of s) @ [es_next (spec_of s)]\<rparr>"
    using Emitter_event_spec [OF inv s'(1)] False by (simp add: spec_of_def)
  then show ?thesis
    using Emitter_event_spec [OF inv s'(1)] s'(1) subscribe [of "spec_of s"] False by (simp add: spec_of_def)
qed

lemma em_exec_refines:
  assumes "em_inv s" "em_enabled op s"
  shows "\<exists>s'. em_exec op s = Inr s' \<and> em_inv s' \<and> spec_step (spec_of s) op (spec_of s')"
proof (cases op)
  case (OpUnsubscribe l)
  then obtain s' where s': "subscription_dispose l s = Inr s'" "em_inv s'" "em_registered s' = removeAll l (em_registered s)"
      "em_pending s' = filter (\<lambda>c. l \<noteq> fst c) (em_pending s)" "em_calls s' = em_calls s"
    using subscription_dispose_spec [OF assms(1)] assms(2) by auto
  then have "spec_of s' = (spec_of s)\<lparr>es_listeners := removeAll l (es_listeners (spec_of s)),
      es_pending := filter (\<lambda>c. l \<noteq> fst c) (es_pending (spec_of s))\<rparr>"
    using removal_frame [OF s'(1)] by (simp add: spec_of_def)
  then show ?thesis
    using s'(1,2) OpUnsubscribe unsubscribe [of "spec_of s" l] by simp
next
  case (OpDispatch v)
  then show ?thesis
    using dispatch_refines [OF assms(1)] assms(2) by simp
next
  case (OpDeliver captured)
  then show ?thesis
    using deliver_refines [OF assms(1), of captured] assms(2) by simp
qed (use subscribe_refines [OF assms(1)] dispose_refines [OF assms(1)] in simp_all)

lemma em_run_refines:
  "em_inv s \<Longrightarrow> em_legal ops s \<Longrightarrow> \<exists>s'. em_run ops s = Inr s' \<and> em_inv s' \<and> spec_run (spec_of s) ops (spec_of s')"
proof (induction ops arbitrary: s)
  case Nil
  then show ?case by (simp add: run_nil)
next
  case (Cons op ops)
  then obtain t where t: "em_exec op s = Inr t" "em_inv t" "spec_step (spec_of s) op (spec_of t)"
    using em_exec_refines [of s op] by auto
  then obtain s' where "em_run ops t = Inr s'" "em_inv s'" "spec_run (spec_of t) ops (spec_of s')"
    using Cons by auto
  then show ?case
    using t run_cons [OF t(3)] by auto
qed

section \<open>Properties\<close>

definition emitter_reachable :: "'e emitter \<Rightarrow> bool" where
  "emitter_reachable s \<longleftrightarrow> (\<exists>ops. em_legal ops new_Emitter \<and> em_run ops new_Emitter = Inr s)"

lemma emitter_reachable_inv: "emitter_reachable s \<Longrightarrow> em_inv s"
  using em_run_refines [OF em_inv_new] by (fastforce simp: emitter_reachable_def)

lemma em_running_code [code]:
  "em_running s \<longleftrightarrow> (case em_queue s of None \<Rightarrow> False | Some q \<Rightarrow> dq_value q \<noteq> None \<and> dq_i q < dq_end q)"
  by (auto simp: em_running_def split: option.splits)

lemma removal_safe_code [code]:
  "removal_safe l s \<longleftrightarrow>
     (case (em_listeners s, em_queue s) of
        (ListenerArray a, Some q) \<Rightarrow> em_running s \<longrightarrow> em_size s \<noteq> 1 \<and> listener_index l (em_arrays s ! a) < dq_end q
      | _ \<Rightarrow> True)"
  by (auto simp: removal_safe_def split: emitterListeners.splits option.splits)

text \<open>A run: three listeners, one event, the first call of its delivery, and the removal of the second listener during it.\<close>

definition sample_ops :: "nat emitterOp list" where
  "sample_ops = [OpSubscribe, OpSubscribe, OpSubscribe, OpDispatch 7, OpDeliver (ListenerArray 0), OpUnsubscribe 1]"

definition sample_emitter :: "nat emitter" where
  "sample_emitter = projr (em_run sample_ops new_Emitter)"

lemma sample_emitter_run: "em_legal sample_ops new_Emitter" "em_run sample_ops new_Emitter = Inr sample_emitter"
  by code_simp+

lemma sample_emitter_reachable: "emitter_reachable sample_emitter"
  using sample_emitter_run unfolding emitter_reachable_def by blast

text \<open>
  C23. The emitter implements its specification, operation by operation: whatever listeners do while they are called (subscribe, unsubscribe,
  fire again, dispose), as long as during a delivery they do not remove the last listener or one that was added
  during it, no operation throws; every event is due to exactly the listeners that are registered when it is fired, in the order they
  subscribed; every turn of the delivery makes the next call that is due or none, a removed listener is no longer due, and the delivery does not end
  while a call is due.
\<close>

theorem Emitter_refines_spec:
  assumes "em_legal ops new_Emitter"
  shows "\<exists>s. em_run ops new_Emitter = Inr s \<and>
    spec_run \<lparr>es_next = 0, es_disposed = False, es_listeners = [], es_busy = False, es_pending = [], es_calls = []\<rparr> ops
      \<lparr>es_next = em_nextId s, es_disposed = em_disposed s, es_listeners = em_registered s, es_busy = em_current s,
       es_pending = em_pending s, es_calls = em_calls s\<rparr>"
proof -
  have "spec_of (new_Emitter :: 'a emitter) = \<lparr>es_next = 0, es_disposed = False, es_listeners = [], es_busy = False, es_pending = [], es_calls = []\<rparr>"
    by (simp add: spec_of_def new_Emitter_def em_registered_def em_pending_def)
  then show ?thesis
    using em_run_refines [OF em_inv_new assms] by (auto simp: spec_of_def)
qed

theorem Emitter_refines_spec_witness:
  "spec_run \<lparr>es_next = 0, es_disposed = False, es_listeners = [], es_busy = False, es_pending = [], es_calls = []\<rparr> sample_ops
     \<lparr>es_next = 3, es_disposed = False, es_listeners = [0, 2], es_busy = True, es_pending = [(2, 7)], es_calls = [(0, 7)]\<rparr>"
proof -
  have "em_registered sample_emitter = [0, 2]" "em_pending sample_emitter = [(2, 7)]" "em_calls sample_emitter = [(0, 7)]"
    "em_nextId sample_emitter = 3" "em_disposed sample_emitter = False" "em_current sample_emitter = True"
    by code_simp+
  then show ?thesis
    using Emitter_refines_spec [OF sample_emitter_run(1)] sample_emitter_run(2) by auto
qed

text \<open>
  C24. In every state that a run of the specification's operations reaches, firing with listeners that leave the emitter alone finishes the running
  delivery and then calls every registered listener once, in order, without throwing; disposing a subscription removes exactly its listener without throwing,
  unless during a delivery it is the last one or was added during it; and \<open>hasListeners\<close> tells whether a listener is registered.
\<close>

theorem Emitter_fire_calls_all:
  assumes "emitter_reachable s"
  shows "(\<exists>s'. Emitter_fire v s = Inr s' \<and> em_registered s' = em_registered s \<and>
       em_calls s' = em_calls s @ em_pending s @ map (\<lambda>l. (l, v)) (em_registered s)) \<and>
    (\<forall>l. l < em_nextId s \<and> removal_safe l s \<longrightarrow> (\<exists>s'. subscription_dispose l s = Inr s' \<and> em_registered s' = removeAll l (em_registered s))) \<and>
    (Emitter_hasListeners s \<longleftrightarrow> em_registered s \<noteq> [])"
proof -
  have inv: "em_inv s"
    using assms by (rule emitter_reachable_inv)
  then have "Emitter_hasListeners s \<longleftrightarrow> em_registered s \<noteq> []"
    by (simp add: Emitter_hasListeners_def em_inv_def)
  then show ?thesis
    using Emitter_fire_spec [OF inv, of v] subscription_dispose_spec [OF inv] by blast
qed

theorem Emitter_fire_calls_all_witness:
  "\<exists>s'. Emitter_fire 8 sample_emitter = Inr s' \<and> em_calls s' = [(0, 7), (2, 7), (0, 8), (2, 8)]"
proof -
  have "em_registered sample_emitter = [0, 2]" "em_pending sample_emitter = [(2, 7)]" "em_calls sample_emitter = [(0, 7)]"
    by code_simp+
  then show ?thesis
    using Emitter_fire_calls_all [OF sample_emitter_reachable, of 8] by auto
qed

fun emitter_ops :: "('e emitter \<Rightarrow> js_error + 'e emitter) list \<Rightarrow> 'e emitter \<Rightarrow> js_error + 'e emitter" where
  "emitter_ops [] s = Inr s"
| "emitter_ops (f # fs) s = bind_result (f s) (emitter_ops fs)"

text \<open>
  The two removals that the specification leaves out go wrong.  With listeners 0 and 1, if 0 removes itself and then
  1 while an event is delivered, 1 is called after it was removed.  With listeners 0 to 3, if 0 adds four
  listeners and removes them again, the queue forgets the listeners 1, 2 and 3, which stay registered
  and are not called.
\<close>

theorem Emitter_removal_during_delivery:
  "(\<exists>s. emitter_ops (replicate 2 (\<lambda>s. Inr (snd (Emitter_event s))) @
       [Emitter_dispatch 7, Emitter_deliverNext (ListenerArray 0), subscription_dispose 0, subscription_dispose 1,
        Emitter_deliverNext (ListenerArray 0)]) new_Emitter = Inr s \<and>
     em_registered s = [] \<and> em_calls s = [(0, 7 :: nat), (1, 7)]) \<and>
   (\<exists>s. emitter_ops (replicate 4 (\<lambda>s. Inr (snd (Emitter_event s))) @ [Emitter_dispatch 7, Emitter_deliverNext (ListenerArray 0)] @
       replicate 4 (\<lambda>s. Inr (snd (Emitter_event s))) @ map subscription_dispose [4..<8] @
       [Emitter_deliverNext (ListenerArray 0)]) new_Emitter = Inr s \<and>
     em_registered s = [0, 1, 2, 3] \<and> em_calls s = [(0, 7 :: nat)] \<and> \<not> em_current s)"
proof -
  let ?a = "projr (emitter_ops (replicate 2 (\<lambda>s. Inr (snd (Emitter_event s))) @
       [Emitter_dispatch 7, Emitter_deliverNext (ListenerArray 0), subscription_dispose 0, subscription_dispose 1,
        Emitter_deliverNext (ListenerArray 0)]) (new_Emitter :: nat emitter))"
  let ?b = "projr (emitter_ops (replicate 4 (\<lambda>s. Inr (snd (Emitter_event s))) @ [Emitter_dispatch 7, Emitter_deliverNext (ListenerArray 0)] @
       replicate 4 (\<lambda>s. Inr (snd (Emitter_event s))) @ map subscription_dispose [4..<8] @
       [Emitter_deliverNext (ListenerArray 0)]) (new_Emitter :: nat emitter))"
  show ?thesis
    by (rule conjI; rule exI [of _ ?a] exI [of _ ?b]; code_simp)
qed

end
