(* ===== verification/Js_Number.thy ===== *)
theory Js_Number
  imports Prelude
begin

text \<open>
  Arithmetic on JavaScript numbers where the source may meet \<open>undefined\<close> or \<open>NaN\<close>: a number is \<open>Some\<close>, \<open>NaN\<close> and the
  \<open>undefined\<close> that a read outside of an array gives are \<open>None\<close>.  Sums, maxima and minima with \<open>NaN\<close> are \<open>NaN\<close>,
  and every comparison with it is false.
\<close>

type_synonym 'n js_number = "'n option"

definition js_add :: "'n::plus js_number \<Rightarrow> 'n js_number \<Rightarrow> 'n js_number" where
  "js_add a b = (case (a, b) of (Some x, Some y) \<Rightarrow> Some (x + y) | _ \<Rightarrow> None)"

definition js_minus :: "'n::minus js_number \<Rightarrow> 'n js_number \<Rightarrow> 'n js_number" where
  "js_minus a b = (case (a, b) of (Some x, Some y) \<Rightarrow> Some (x - y) | _ \<Rightarrow> None)"

definition js_max :: "'n::linorder js_number \<Rightarrow> 'n js_number \<Rightarrow> 'n js_number" where
  "js_max a b = (case (a, b) of (Some x, Some y) \<Rightarrow> Some (max x y) | _ \<Rightarrow> None)"

definition js_min :: "'n::linorder js_number \<Rightarrow> 'n js_number \<Rightarrow> 'n js_number" where
  "js_min a b = (case (a, b) of (Some x, Some y) \<Rightarrow> Some (min x y) | _ \<Rightarrow> None)"

definition js_less :: "'n::linorder js_number \<Rightarrow> 'n js_number \<Rightarrow> bool" where
  "js_less a b = (case (a, b) of (Some x, Some y) \<Rightarrow> x < y | _ \<Rightarrow> False)"

definition js_eq :: "'n js_number \<Rightarrow> 'n js_number \<Rightarrow> bool" where
  "js_eq a b = (case (a, b) of (Some x, Some y) \<Rightarrow> x = y | _ \<Rightarrow> False)"

lemma js_number_simps [simp]:
  "js_add (Some x) (Some y) = Some (x + y)" "js_add None b = None" "js_add a None = None"
  "js_minus (Some x) (Some y) = Some (x - y)" "js_minus None b = None" "js_minus a None = None"
  "js_max (Some x') (Some y') = Some (max x' y')" "js_max None c = None" "js_max d None = None"
  "js_min (Some x') (Some y') = Some (min x' y')" "js_min None c = None" "js_min d None = None"
  "js_less (Some x') (Some y') \<longleftrightarrow> x' < y'" "js_less None c \<longleftrightarrow> False" "js_less d None \<longleftrightarrow> False"
  "js_eq (Some z) (Some w) \<longleftrightarrow> z = w" "js_eq None e \<longleftrightarrow> False" "js_eq f None \<longleftrightarrow> False"
  by (simp_all add: js_add_def js_minus_def js_max_def js_min_def js_less_def js_eq_def split: option.split)

end
