(* ===== verification/Diff_Sequence.thy ===== *)
theory Diff_Sequence
  imports Offset_Range
begin

text \<open>
  \<open>src/vs/editor/common/diff/algorithms/diffAlgorithm.ts\<close>: sequences, their differences, the result of a diff
  algorithm and the time-outs.  A sequence is an interface of the source; its record holds the members that the
  algorithms call.  \<open>getElement\<close> returns a number or, outside of the sequence, \<open>undefined\<close> (\<open>None\<close>).
  The locale \<open>isequence\<close> states what the algorithms rely on; the two classes of the program that implement the
  interface are shown to satisfy it in \<open>Diff_Documents\<close>.  The second half says what a correct list of
  differences is: between two differences the sequences agree element by element, so that applying
  the differences to the first sequence gives the second.
\<close>

section \<open>The data of a diff\<close>

record iSequence =
  seq_length :: int
  getElement :: "int \<Rightarrow> int option"
  getBoundaryScore :: "(int \<Rightarrow> int) option"
  isStronglyEqual :: "int \<Rightarrow> int \<Rightarrow> bool"

record sequenceDiff =
  seq1Range :: offsetRange
  seq2Range :: offsetRange

record diffAlgorithmResult =
  diffs :: "sequenceDiff list"
  hitTimeout :: bool

abbreviation start1 :: "sequenceDiff \<Rightarrow> int" where "start1 d \<equiv> start (seq1Range d)"
abbreviation end1 :: "sequenceDiff \<Rightarrow> int" where "end1 d \<equiv> endExclusive (seq1Range d)"
abbreviation start2 :: "sequenceDiff \<Rightarrow> int" where "start2 d \<equiv> start (seq2Range d)"
abbreviation end2 :: "sequenceDiff \<Rightarrow> int" where "end2 d \<equiv> endExclusive (seq2Range d)"

definition new_SequenceDiff :: "js_error + offsetRange \<Rightarrow> js_error + offsetRange \<Rightarrow> js_error + sequenceDiff" where
  "new_SequenceDiff r1 r2 = bind_result r1 (\<lambda>a. bind_result r2 (\<lambda>b. Inr \<lparr>seq1Range = a, seq2Range = b\<rparr>))"

definition SequenceDiff_reverse :: "sequenceDiff \<Rightarrow> sequenceDiff" where
  "SequenceDiff_reverse d = \<lparr>seq1Range = seq2Range d, seq2Range = seq1Range d\<rparr>"

definition SequenceDiff_join :: "sequenceDiff \<Rightarrow> sequenceDiff \<Rightarrow> js_error + sequenceDiff" where
  "SequenceDiff_join d other =
     new_SequenceDiff (OffsetRange_join (seq1Range d) (seq1Range other)) (OffsetRange_join (seq2Range d) (seq2Range other))"

definition SequenceDiff_delta :: "sequenceDiff \<Rightarrow> int \<Rightarrow> js_error + sequenceDiff" where
  "SequenceDiff_delta d offset =
     (if offset = 0 then Inr d
      else new_SequenceDiff (OffsetRange_delta (seq1Range d) offset) (OffsetRange_delta (seq2Range d) offset))"

definition DiffAlgorithmResult_trivial :: "iSequence \<Rightarrow> iSequence \<Rightarrow> js_error + diffAlgorithmResult" where
  "DiffAlgorithmResult_trivial s t =
     bind_result (new_SequenceDiff (new_OffsetRange 0 (seq_length s)) (new_OffsetRange 0 (seq_length t)))
       (\<lambda>d. Inr \<lparr>diffs = [d], hitTimeout = False\<rparr>)"

definition DiffAlgorithmResult_trivialTimedOut :: "iSequence \<Rightarrow> iSequence \<Rightarrow> js_error + diffAlgorithmResult" where
  "DiffAlgorithmResult_trivialTimedOut s t =
     bind_result (new_SequenceDiff (new_OffsetRange 0 (seq_length s)) (new_OffsetRange 0 (seq_length t)))
       (\<lambda>d. Inr \<lparr>diffs = [d], hitTimeout = True\<rparr>)"

subsection \<open>Time-outs\<close>

text \<open>
  The diff algorithms ask a time-out before each unit of work; they take the sequence of its answers, a
  function from the number of the call.  \<open>InfiniteTimeout\<close> answers \<open>True\<close>; the
  answers of a \<open>DateTimeout\<close> are those of its calls at the times of a clock.
\<close>

type_synonym timeout = "nat \<Rightarrow> bool"

definition InfiniteTimeout :: timeout where
  "InfiniteTimeout call = True"

record dateTimeout =
  dt_startTime :: int
  dt_timeout :: int
  dt_valid :: bool
  dt_disabled :: bool

definition new_DateTimeout :: "int \<Rightarrow> int \<Rightarrow> js_error + dateTimeout" where
  "new_DateTimeout now ms =
     (if ms \<le> 0 then Inl BugIndicatingError
      else Inr \<lparr>dt_startTime = now, dt_timeout = ms, dt_valid = True, dt_disabled = False\<rparr>)"

definition DateTimeout_isValid :: "int \<Rightarrow> dateTimeout \<Rightarrow> bool \<times> dateTimeout" where
  "DateTimeout_isValid now t =
     (if dt_disabled t then (True, t)
      else let valid = now - dt_startTime t < dt_timeout t;
               t = (if \<not> valid \<and> dt_valid t then t\<lparr>dt_valid := False\<rparr> else t)
           in (dt_valid t, t))"

definition DateTimeout_disable :: "dateTimeout \<Rightarrow> dateTimeout" where
  "DateTimeout_disable t = t\<lparr>dt_timeout := 9007199254740991, dt_disabled := True, dt_valid := True\<rparr>"

fun DateTimeout_calls :: "(nat \<Rightarrow> int) \<Rightarrow> nat \<Rightarrow> dateTimeout \<Rightarrow> dateTimeout" where
  "DateTimeout_calls clock 0 t = t"
| "DateTimeout_calls clock (Suc n) t = snd (DateTimeout_isValid (clock n) (DateTimeout_calls clock n t))"

definition DateTimeout_answers :: "(nat \<Rightarrow> int) \<Rightarrow> dateTimeout \<Rightarrow> timeout" where
  "DateTimeout_answers clock t call = fst (DateTimeout_isValid (clock call) (DateTimeout_calls clock call t))"

lemma DateTimeout_calls_spec:
  assumes "\<not> dt_disabled t"
  shows "\<not> dt_disabled (DateTimeout_calls clock n t) \<and>
    dt_startTime (DateTimeout_calls clock n t) = dt_startTime t \<and> dt_timeout (DateTimeout_calls clock n t) = dt_timeout t \<and>
    (dt_valid (DateTimeout_calls clock n t) \<longleftrightarrow> dt_valid t \<and> (\<forall>i < n. clock i - dt_startTime t < dt_timeout t))"
  using assms by (induction n) (auto simp: DateTimeout_isValid_def Let_def less_Suc_eq)

text \<open>A time-out that is not disabled is valid until its time has passed at some call, and never again, even when the clock is set back.\<close>

lemma DateTimeout_answers_iff:
  assumes "new_DateTimeout now ms = Inr t"
  shows "DateTimeout_answers clock t n \<longleftrightarrow> (\<forall>i \<le> n. clock i - now < ms)"
proof -
  have t: "\<not> dt_disabled t" "dt_valid t" "dt_startTime t = now" "dt_timeout t = ms"
    using assms by (auto simp: new_DateTimeout_def split: if_splits)
  then show ?thesis
    using DateTimeout_calls_spec [of t clock n]
    by (auto simp: DateTimeout_answers_def DateTimeout_isValid_def Let_def le_less less_Suc_eq)
qed

section \<open>The contract of a sequence\<close>

locale isequence =
  fixes s :: iSequence
  assumes length_nonneg: "0 \<le> seq_length s"
    and element_inside: "0 \<le> i \<Longrightarrow> i < seq_length s \<Longrightarrow> getElement s i \<noteq> None"
    and element_outside: "i < 0 \<or> seq_length s \<le> i \<Longrightarrow> getElement s i = None"
    and strongly_equal: "isStronglyEqual s i j \<Longrightarrow> getElement s i = getElement s j"

section \<open>Correct differences\<close>

definition matches :: "iSequence \<Rightarrow> iSequence \<Rightarrow> int \<Rightarrow> int \<Rightarrow> int \<Rightarrow> bool" where
  "matches s t a b n \<longleftrightarrow> list_all (\<lambda>i. getElement s (a + i) = getElement t (b + i)) [0..n - 1]"

fun aligned :: "iSequence \<Rightarrow> iSequence \<Rightarrow> int \<Rightarrow> int \<Rightarrow> sequenceDiff list \<Rightarrow> bool" where
  "aligned s t a b [] \<longleftrightarrow>
     a \<le> seq_length s \<and> seq_length t - b = seq_length s - a \<and> matches s t a b (seq_length s - a)"
| "aligned s t a b (d # ds) \<longleftrightarrow>
     a \<le> start1 d \<and> start2 d - b = start1 d - a \<and> matches s t a b (start1 d - a) \<and>
     start1 d \<le> end1 d \<and> start2 d \<le> end2 d \<and> aligned s t (end1 d) (end2 d) ds"

fun diffs_separated :: "sequenceDiff list \<Rightarrow> bool" where
  "diffs_separated [] \<longleftrightarrow> True"
| "diffs_separated (d # ds) \<longleftrightarrow>
     (start1 d < end1 d \<or> start2 d < end2 d) \<and>
     (case ds of [] \<Rightarrow> True | e # _ \<Rightarrow> end1 d < start1 e \<and> end2 d < start2 e) \<and> diffs_separated ds"

fun apply_diffs :: "iSequence \<Rightarrow> iSequence \<Rightarrow> int \<Rightarrow> sequenceDiff list \<Rightarrow> int option list" where
  "apply_diffs s t a [] = map (getElement s) [a..seq_length s - 1]"
| "apply_diffs s t a (d # ds) =
     map (getElement s) [a..start1 d - 1] @ map (getElement t) [start2 d..end2 d - 1] @ apply_diffs s t (end1 d) ds"

definition seq_elements :: "iSequence \<Rightarrow> int option list" where
  "seq_elements s = map (getElement s) [0..seq_length s - 1]"

definition diff_cost :: "sequenceDiff list \<Rightarrow> int" where
  "diff_cost ds = (\<Sum>d \<leftarrow> ds. OffsetRange_length (seq1Range d) + OffsetRange_length (seq2Range d))"

text \<open>What every stage of the computation promises of its differences.\<close>

definition diffs_ok :: "iSequence \<Rightarrow> iSequence \<Rightarrow> sequenceDiff list \<Rightarrow> bool" where
  "diffs_ok s t ds \<longleftrightarrow> aligned s t 0 0 ds \<and> diffs_separated ds"

lemma matches_iff: "matches s t a b n \<longleftrightarrow> (\<forall>i. 0 \<le> i \<and> i < n \<longrightarrow> getElement s (a + i) = getElement t (b + i))"
  by (auto simp: matches_def list_all_iff)

lemma matches_empty [simp]: "n \<le> 0 \<Longrightarrow> matches s t a b n"
  by (simp add: matches_def)

lemma matchesD: "matches s t a b n \<Longrightarrow> 0 \<le> i \<Longrightarrow> i < n \<Longrightarrow> getElement s (a + i) = getElement t (b + i)"
  by (simp add: matches_iff)

lemma matches_split:
  assumes "0 \<le> k" "k \<le> n"
  shows "matches s t a b n \<longleftrightarrow> matches s t a b k \<and> matches s t (a + k) (b + k) (n - k)"
proof
  assume m: "matches s t a b n"
  have "getElement s (a + k + i) = getElement t (b + k + i)" if "0 \<le> i" "i < n - k" for i
    using matchesD [OF m, of "k + i"] that assms(1) by (simp add: add.assoc)
  then show "matches s t a b k \<and> matches s t (a + k) (b + k) (n - k)"
    using m assms by (auto simp: matches_iff)
next
  assume m: "matches s t a b k \<and> matches s t (a + k) (b + k) (n - k)"
  have "getElement s (a + i) = getElement t (b + i)" if "0 \<le> i" "i < n" for i
  proof (cases "i < k")
    case True
    then show ?thesis using m that by (simp add: matches_iff)
  next
    case False
    have "getElement s (a + k + (i - k)) = getElement t (b + k + (i - k))"
      using m that False by (intro matchesD [where n = "n - k"]) auto
    then show ?thesis by simp
  qed
  then show "matches s t a b n"
    by (simp add: matches_iff)
qed

lemma matches_Suc: "0 \<le> n \<Longrightarrow> matches s t a b (n + 1) \<longleftrightarrow> getElement s a = getElement t b \<and> matches s t (a + 1) (b + 1) n"
  using matches_split [of 1 "n + 1" s t a b] by (simp add: matches_def [of s t a b 1])

lemma aligned_le: "aligned s t a b ds \<Longrightarrow> a \<le> seq_length s \<and> b \<le> seq_length t"
  by (induction ds arbitrary: a b) fastforce+

text \<open>An alignment may be extended to the left by a matching run.\<close>

lemma aligned_match:
  assumes "matches s t a b n" "0 \<le> n" "aligned s t (a + n) (b + n) ds"
  shows "aligned s t a b ds"
proof (cases ds)
  case Nil
  then show ?thesis
    using assms matches_split [of n "seq_length s - a" s t a b] by (simp add: algebra_simps)
next
  case (Cons d ds')
  then show ?thesis
    using assms matches_split [of n "start1 d - a" s t a b] by (simp add: algebra_simps)
qed

lemma map_shift_matches:
  assumes "matches s t a b (k - a)" "l - b = k - a"
  shows "map (getElement s) [a..k - 1] = map (getElement t) [b..l - 1]"
proof (rule nth_equalityI)
  show "length (map (getElement s) [a..k - 1]) = length (map (getElement t) [b..l - 1])"
    using assms(2) by simp
  fix i
  assume "i < length (map (getElement s) [a..k - 1])"
  then show "map (getElement s) [a..k - 1] ! i = map (getElement t) [b..l - 1] ! i"
    using matchesD [OF assms(1), of "int i"] assms(2) by simp
qed

lemma upto_append:
  "i \<le> j \<Longrightarrow> j \<le> k + 1 \<Longrightarrow> [i..j - 1] @ [j..k] = [i..k :: int]"
  by (cases "j = k + 1"; cases "i = j") (simp_all add: upto_split1 [of i j k])

lemma aligned_apply:
  "aligned s t a b ds \<Longrightarrow> apply_diffs s t a ds = map (getElement t) [b..seq_length t - 1]"
proof (induction ds arbitrary: a b)
  case Nil
  then show ?case
    by (simp add: map_shift_matches)
next
  case (Cons d ds)
  have "map (getElement s) [a..start1 d - 1] = map (getElement t) [b..start2 d - 1]"
    using Cons.prems by (intro map_shift_matches) auto
  moreover have "[b..start2 d - 1] @ [start2 d..end2 d - 1] @ [end2 d..seq_length t - 1] = [b..seq_length t - 1]"
    using Cons.prems aligned_le [of s t "end1 d" "end2 d" ds] by (simp add: upto_append)
  then have "map (getElement t) [b..start2 d - 1] @ map (getElement t) [start2 d..end2 d - 1] @
      map (getElement t) [end2 d..seq_length t - 1] = map (getElement t) [b..seq_length t - 1]"
    by (metis map_append)
  moreover have "apply_diffs s t (end1 d) ds = map (getElement t) [end2 d..seq_length t - 1]"
    using Cons by simp
  ultimately show ?case
    by simp
qed

lemma aligned_apply_all: "aligned s t 0 0 ds \<Longrightarrow> apply_diffs s t 0 ds = seq_elements t"
  by (simp add: seq_elements_def aligned_apply)

lemma diff_cost_simps [simp]:
  "diff_cost [] = 0" "diff_cost (d # ds) = (end1 d - start1 d) + (end2 d - start2 d) + diff_cost ds"
  "diff_cost (xs @ ys) = diff_cost xs + diff_cost ys"
  by (simp_all add: diff_cost_def OffsetRange_length_def)

lemma diffs_separated_Cons:
  "diffs_separated (d # ds) \<longleftrightarrow> (start1 d < end1 d \<or> start2 d < end2 d) \<and>
     (ds \<noteq> [] \<longrightarrow> end1 d < start1 (hd ds) \<and> end2 d < start2 (hd ds)) \<and> diffs_separated ds"
  by (cases ds) auto

lemma aligned_trivial:
  assumes "0 \<le> seq_length s" "0 \<le> seq_length t"
  shows "\<exists>d. DiffAlgorithmResult_trivial s t = Inr \<lparr>diffs = [d], hitTimeout = False\<rparr> \<and>
      DiffAlgorithmResult_trivialTimedOut s t = Inr \<lparr>diffs = [d], hitTimeout = True\<rparr> \<and> aligned s t 0 0 [d] \<and>
      (0 < seq_length s \<or> 0 < seq_length t \<longrightarrow> diffs_separated [d])"
  using assms
  by (auto simp: DiffAlgorithmResult_trivial_def DiffAlgorithmResult_trivialTimedOut_def new_SequenceDiff_def new_OffsetRange_def)


text \<open>A sequence over a list of numbers, as both implementations of the interface hold one, for the examples below.\<close>

definition list_sequence :: "int list \<Rightarrow> iSequence" where
  "list_sequence xs =
     (let element = (\<lambda>i. if 0 \<le> i \<and> i < int (length xs) then Some (xs ! nat i) else None) in
      \<lparr>seq_length = int (length xs), getElement = element, getBoundaryScore = None,
       isStronglyEqual = (\<lambda>i j. element i = element j)\<rparr>)"

end
