(* ===== verification/Diff_Dynamic.thy ===== *)
theory Diff_Dynamic
  imports Js_Number Diff_Sequence
begin

text \<open>
  \<open>src/vs/editor/common/diff/algorithms/dynamicProgrammingDiffing.ts\<close> and \<open>Array2D\<close> of \<open>utils.ts\<close>: the quadratic
  diff algorithm with a score for equal elements.  Scores are numbers of any ordered ring, since the caller
  passes fractions.
\<close>

section \<open>Two-dimensional arrays\<close>

record 'a array2D =
  a2_width :: nat
  a2_height :: nat
  a2_array :: "'a option list"

definition new_Array2D :: "nat \<Rightarrow> nat \<Rightarrow> 'a array2D" where
  "new_Array2D w h = \<lparr>a2_width = w, a2_height = h, a2_array = replicate (w * h) None\<rparr>"

definition Array2D_get :: "'a array2D \<Rightarrow> nat \<Rightarrow> nat \<Rightarrow> 'a option" where
  "Array2D_get a x y =
     (let i = x + y * a2_width a in if i < length (a2_array a) then a2_array a ! i else None)"

definition Array2D_set :: "nat \<Rightarrow> nat \<Rightarrow> 'a option \<Rightarrow> 'a array2D \<Rightarrow> 'a array2D" where
  "Array2D_set x y v a =
     (let i = x + y * a2_width a; xs = a2_array a in
      a\<lparr>a2_array := (if i < length xs then xs[i := v] else xs @ replicate (i - length xs) None @ [v])\<rparr>)"

definition array2D_ok :: "nat \<Rightarrow> nat \<Rightarrow> 'a array2D \<Rightarrow> bool" where
  "array2D_ok w h a \<longleftrightarrow> a2_width a = w \<and> length (a2_array a) = w * h"

lemma array2D_index_less: "x < w \<Longrightarrow> y < h \<Longrightarrow> x + y * w < w * (h :: nat)"
proof -
  assume "x < w" "y < h"
  then have "x + y * w < (y + 1) * w" "(y + 1) * w \<le> h * w"
    by (simp, intro mult_le_mono1, simp)
  then show ?thesis by (simp add: mult.commute)
qed

lemma array2D_index_eq: "x < w \<Longrightarrow> x' < w \<Longrightarrow> x + y * w = x' + y' * (w :: nat) \<longleftrightarrow> x = x' \<and> y = y'"
proof
  assume *: "x < w" "x' < w" "x + y * w = x' + y' * w"
  have "x = (x + y * w) mod w" "x' = (x' + y' * w) mod w" "y = (x + y * w) div w" "y' = (x' + y' * w) div w"
    using * (1,2) by simp_all
  with * (3) show "x = x' \<and> y = y'" by metis
qed simp

lemma Array2D_ok_new [simp]: "array2D_ok w h (new_Array2D w h)"
  by (simp add: array2D_ok_def new_Array2D_def)

lemma Array2D_ok_set [simp]: "array2D_ok w h a \<Longrightarrow> x < w \<Longrightarrow> y < h \<Longrightarrow> array2D_ok w h (Array2D_set x y v a)"
  by (simp add: array2D_ok_def Array2D_set_def Let_def array2D_index_less)

lemma Array2D_get_set:
  assumes "array2D_ok w h a" "x < w" "y < h" "x' < w" "y' < h"
  shows "Array2D_get (Array2D_set x y v a) x' y' = (if x' = x \<and> y' = y then v else Array2D_get a x' y')"
  using assms array2D_index_less [of x w y h] array2D_index_less [of x' w y' h] array2D_index_eq [of x w x' y y']
  by (auto simp: array2D_ok_def Array2D_get_def Array2D_set_def Let_def nth_list_update)

section \<open>The algorithm\<close>

record 'n dpTables =
  lcsLengths :: "'n array2D"
  directions :: "int array2D"
  dp_lengths :: "'n array2D"

definition new_dpTables :: "nat \<Rightarrow> nat \<Rightarrow> 'n dpTables" where
  "new_dpTables w h = \<lparr>lcsLengths = new_Array2D w h, directions = new_Array2D w h, dp_lengths = new_Array2D w h\<rparr>"

type_synonym 'n equalityScore = "(nat \<Rightarrow> nat \<Rightarrow> 'n) option"

definition dp_extendedSeqScore :: "iSequence \<Rightarrow> iSequence \<Rightarrow> 'n::linordered_idom equalityScore \<Rightarrow> nat \<Rightarrow> nat \<Rightarrow> 'n dpTables \<Rightarrow> 'n js_number" where
  "dp_extendedSeqScore s t equalityScore s1 s2 tb =
     (if getElement s (int s1) = getElement t (int s2) then
        let e = (if s1 = 0 \<or> s2 = 0 then Some 0 else Array2D_get (lcsLengths tb) (s1 - 1) (s2 - 1));
            e = (if 0 < s1 \<and> 0 < s2 \<and> js_eq (Array2D_get (directions tb) (s1 - 1) (s2 - 1)) (Some 3)
                 then js_add e (Array2D_get (dp_lengths tb) (s1 - 1) (s2 - 1)) else e)
        in js_add e (Some (case equalityScore of None \<Rightarrow> 1 | Some f \<Rightarrow> f s1 s2))
      else Some (- 1))"

definition dp_cell :: "iSequence \<Rightarrow> iSequence \<Rightarrow> 'n::linordered_idom equalityScore \<Rightarrow> nat \<Rightarrow> nat \<Rightarrow> 'n dpTables \<Rightarrow> 'n dpTables" where
  "dp_cell s t equalityScore s1 s2 tb =
     (let horizontalLen = (if s1 = 0 then Some 0 else Array2D_get (lcsLengths tb) (s1 - 1) s2);
          verticalLen = (if s2 = 0 then Some 0 else Array2D_get (lcsLengths tb) s1 (s2 - 1));
          extendedSeqScore = dp_extendedSeqScore s t equalityScore s1 s2 tb;
          newValue = js_max (js_max horizontalLen verticalLen) extendedSeqScore;
          tb = (if js_eq newValue extendedSeqScore then
                  let prevLen = (if 0 < s1 \<and> 0 < s2 then Array2D_get (dp_lengths tb) (s1 - 1) (s2 - 1) else Some 0)
                  in tb\<lparr>dp_lengths := Array2D_set s1 s2 (js_add prevLen (Some 1)) (dp_lengths tb),
                        directions := Array2D_set s1 s2 (Some 3) (directions tb)\<rparr>
                else if js_eq newValue horizontalLen then
                  tb\<lparr>dp_lengths := Array2D_set s1 s2 (Some 0) (dp_lengths tb),
                     directions := Array2D_set s1 s2 (Some 1) (directions tb)\<rparr>
                else if js_eq newValue verticalLen then
                  tb\<lparr>dp_lengths := Array2D_set s1 s2 (Some 0) (dp_lengths tb),
                     directions := Array2D_set s1 s2 (Some 2) (directions tb)\<rparr>
                else tb)
      in tb\<lparr>lcsLengths := Array2D_set s1 s2 newValue (lcsLengths tb)\<rparr>)"

text \<open>The two loops; \<open>None\<close> is the return at a time-out.  The time-out is asked once for each cell.\<close>

function dp_columns :: "iSequence \<Rightarrow> iSequence \<Rightarrow> timeout \<Rightarrow> 'n::linordered_idom equalityScore \<Rightarrow> nat \<Rightarrow> nat \<Rightarrow> 'n dpTables \<Rightarrow> 'n dpTables option" where
  "dp_columns s t isValid equalityScore s1 s2 tb =
     (if s2 < nat (seq_length t) then
        if isValid (s1 * nat (seq_length t) + s2)
        then dp_columns s t isValid equalityScore s1 (s2 + 1) (dp_cell s t equalityScore s1 s2 tb)
        else None
      else Some tb)"
  by pat_completeness auto
termination
  by (relation "measure (\<lambda>(s, t, isValid, f, s1, s2, tb). nat (seq_length t) - s2)") auto

function dp_rows :: "iSequence \<Rightarrow> iSequence \<Rightarrow> timeout \<Rightarrow> 'n::linordered_idom equalityScore \<Rightarrow> nat \<Rightarrow> 'n dpTables \<Rightarrow> 'n dpTables option" where
  "dp_rows s t isValid equalityScore s1 tb =
     (if s1 < nat (seq_length s) then
        case dp_columns s t isValid equalityScore s1 0 tb of
          None \<Rightarrow> None
        | Some tb \<Rightarrow> dp_rows s t isValid equalityScore (s1 + 1) tb
      else Some tb)"
  by pat_completeness auto
termination
  by (relation "measure (\<lambda>(s, t, isValid, f, s1, tb). nat (seq_length s) - s1)") auto

declare dp_columns.simps [simp del] dp_rows.simps [simp del]

record aligningState =
  al_result :: "sequenceDiff list"
  lastAligningPosS1 :: int
  lastAligningPosS2 :: int

definition reportDecreasingAligningPositions :: "int \<Rightarrow> int \<Rightarrow> aligningState \<Rightarrow> js_error + aligningState" where
  "reportDecreasingAligningPositions s1 s2 st =
     bind_result
       (if s1 + 1 \<noteq> lastAligningPosS1 st \<or> s2 + 1 \<noteq> lastAligningPosS2 st then
          bind_result (new_SequenceDiff (new_OffsetRange (s1 + 1) (lastAligningPosS1 st)) (new_OffsetRange (s2 + 1) (lastAligningPosS2 st)))
            (\<lambda>d. Inr (st\<lparr>al_result := al_result st @ [d]\<rparr>))
        else Inr st)
       (\<lambda>st. Inr (st\<lparr>lastAligningPosS1 := s1, lastAligningPosS2 := s2\<rparr>))"

function dp_backtrack :: "int array2D \<Rightarrow> int \<Rightarrow> int \<Rightarrow> aligningState \<Rightarrow> js_error + aligningState" where
  "dp_backtrack dirs s1 s2 st =
     (if 0 \<le> s1 \<and> 0 \<le> s2 then
        if js_eq (Array2D_get dirs (nat s1) (nat s2)) (Some 3) then
          bind_result (reportDecreasingAligningPositions s1 s2 st) (\<lambda>st. dp_backtrack dirs (s1 - 1) (s2 - 1) st)
        else if js_eq (Array2D_get dirs (nat s1) (nat s2)) (Some 1) then dp_backtrack dirs (s1 - 1) s2 st
        else dp_backtrack dirs s1 (s2 - 1) st
      else Inr st)"
  by pat_completeness auto
termination
  by (relation "measure (\<lambda>(dirs, s1, s2, st). nat (s1 + 1) + nat (s2 + 1))") auto

declare dp_backtrack.simps [simp del]

definition DynamicProgrammingDiffing_compute :: "iSequence \<Rightarrow> iSequence \<Rightarrow> timeout \<Rightarrow> 'n::linordered_idom equalityScore \<Rightarrow> js_error + diffAlgorithmResult" where
  "DynamicProgrammingDiffing_compute s t isValid equalityScore =
     (if seq_length s = 0 \<or> seq_length t = 0 then DiffAlgorithmResult_trivial s t
      else case dp_rows s t isValid equalityScore 0 (new_dpTables (nat (seq_length s)) (nat (seq_length t))) of
        None \<Rightarrow> DiffAlgorithmResult_trivialTimedOut s t
      | Some tb \<Rightarrow>
          bind_result
            (dp_backtrack (directions tb) (seq_length s - 1) (seq_length t - 1)
               \<lparr>al_result = [], lastAligningPosS1 = seq_length s, lastAligningPosS2 = seq_length t\<rparr>)
            (\<lambda>st. bind_result (reportDecreasingAligningPositions (- 1) (- 1) st)
               (\<lambda>st. Inr \<lparr>diffs = rev (al_result st), hitTimeout = False\<rparr>)))"


section \<open>What the tables hold\<close>

definition dp_entry_ok :: "iSequence \<Rightarrow> iSequence \<Rightarrow> nat \<Rightarrow> nat \<Rightarrow> 'n::linordered_idom dpTables \<Rightarrow> bool" where
  "dp_entry_ok s t i j tb \<longleftrightarrow>
     (\<exists>v. Array2D_get (lcsLengths tb) i j = Some v \<and> 0 \<le> v) \<and> Array2D_get (dp_lengths tb) i j \<noteq> None \<and>
     (Array2D_get (directions tb) i j = Some 3 \<longrightarrow> getElement s (int i) = getElement t (int j))"

definition dp_tables_ok :: "iSequence \<Rightarrow> iSequence \<Rightarrow> nat \<Rightarrow> nat \<Rightarrow> 'n::linordered_idom dpTables \<Rightarrow> bool" where
  "dp_tables_ok s t s1 s2 tb \<longleftrightarrow>
     (let w = nat (seq_length s); h = nat (seq_length t) in
      array2D_ok w h (lcsLengths tb) \<and> array2D_ok w h (directions tb) \<and> array2D_ok w h (dp_lengths tb) \<and>
      (\<forall>i < w. \<forall>j < h. i < s1 \<or> i = s1 \<and> j < s2 \<longrightarrow> dp_entry_ok s t i j tb))"

lemma dp_tables_ok_entry:
  assumes "dp_tables_ok s t s1 s2 tb" "i < nat (seq_length s)" "j < nat (seq_length t)" "i < s1 \<or> i = s1 \<and> j < s2"
  shows "dp_entry_ok s t i j tb"
  using assms unfolding dp_tables_ok_def Let_def by blast

lemma dp_extendedSeqScore_spec:
  assumes "dp_tables_ok s t s1 s2 tb" "s1 < nat (seq_length s)" "s2 < nat (seq_length t)"
  shows "\<exists>v. dp_extendedSeqScore s t f s1 s2 tb = Some v \<and> (0 \<le> v \<longrightarrow> getElement s (int s1) = getElement t (int s2))"
proof (cases "0 < s1 \<and> 0 < s2")
  case True
  then have "dp_entry_ok s t (s1 - 1) (s2 - 1) tb"
    using assms dp_tables_ok_entry [OF assms(1), of "s1 - 1" "s2 - 1"] by auto
  then show ?thesis
    using True by (auto simp: dp_extendedSeqScore_def dp_entry_ok_def Let_def)
next
  case False
  then show ?thesis
    by (auto simp: dp_extendedSeqScore_def Let_def)
qed

lemma dp_cell_ok:
  assumes ok: "dp_tables_ok s t s1 s2 tb" and less: "s1 < nat (seq_length s)" "s2 < nat (seq_length t)"
  shows "dp_tables_ok s t s1 (s2 + 1) (dp_cell s t f s1 s2 tb)"
proof -
  obtain h where h: "(if s1 = 0 then Some 0 else Array2D_get (lcsLengths tb) (s1 - 1) s2) = Some h" "0 \<le> h"
    using dp_tables_ok_entry [OF ok, of "s1 - 1" s2] less by (cases "s1 = 0") (auto simp: dp_entry_ok_def less_imp_diff_less)
  obtain v where v: "(if s2 = 0 then Some 0 else Array2D_get (lcsLengths tb) s1 (s2 - 1)) = Some v" "0 \<le> v"
    using dp_tables_ok_entry [OF ok, of s1 "s2 - 1"] less by (cases "s2 = 0") (auto simp: dp_entry_ok_def less_imp_diff_less)
  obtain e where e: "dp_extendedSeqScore s t f s1 s2 tb = Some e" "0 \<le> e \<Longrightarrow> getElement s (int s1) = getElement t (int s2)"
    using dp_extendedSeqScore_spec [OF ok less, of f] by blast
  obtain p where p: "(if 0 < s1 \<and> 0 < s2 then Array2D_get (dp_lengths tb) (s1 - 1) (s2 - 1) else Some 0) = Some p"
    using dp_tables_ok_entry [OF ok, of "s1 - 1" "s2 - 1"] less by (cases "0 < s1 \<and> 0 < s2") (auto simp: dp_entry_ok_def less_imp_diff_less)
  let ?new = "max (max h v) e"
  define l where "l = (if ?new = e then p + 1 else 0)"
  define dir :: int where "dir = (if ?new = e then 3 else if ?new = h then 1 else 2)"
  have cell: "dp_cell s t f s1 s2 tb = tb\<lparr>dp_lengths := Array2D_set s1 s2 (Some l) (dp_lengths tb),
      directions := Array2D_set s1 s2 (Some dir) (directions tb), lcsLengths := Array2D_set s1 s2 (Some ?new) (lcsLengths tb)\<rparr>"
    unfolding dp_cell_def Let_def h(1) v(1) e(1) p l_def dir_def by (auto simp: max_def)
  have "0 \<le> ?new" "dir = 3 \<longrightarrow> getElement s (int s1) = getElement t (int s2)"
    using h(2) e(2) by (auto simp: dir_def split: if_splits)
  moreover have arrays: "array2D_ok (nat (seq_length s)) (nat (seq_length t)) (lcsLengths tb)"
      "array2D_ok (nat (seq_length s)) (nat (seq_length t)) (directions tb)"
      "array2D_ok (nat (seq_length s)) (nat (seq_length t)) (dp_lengths tb)"
    using ok by (simp_all add: dp_tables_ok_def Let_def)
  note get_set = arrays [THEN Array2D_get_set, OF less]
  ultimately have "dp_entry_ok s t s1 s2 (dp_cell s t f s1 s2 tb)"
    using less by (simp add: cell dp_entry_ok_def get_set)
  moreover have "dp_entry_ok s t i j (dp_cell s t f s1 s2 tb) \<longleftrightarrow> dp_entry_ok s t i j tb"
    if "i < nat (seq_length s)" "j < nat (seq_length t)" "i \<noteq> s1 \<or> j \<noteq> s2" for i j
    using that by (auto simp: cell dp_entry_ok_def get_set)
  ultimately have "dp_entry_ok s t i j (dp_cell s t f s1 s2 tb)"
    if "i < nat (seq_length s)" "j < nat (seq_length t)" "i < s1 \<or> i = s1 \<and> j < s2 + 1" for i j
    using that dp_tables_ok_entry [OF ok that(1,2)] by (metis less_SucE Suc_eq_plus1 less_irrefl)
  moreover have "array2D_ok (nat (seq_length s)) (nat (seq_length t)) (lcsLengths (dp_cell s t f s1 s2 tb))"
    "array2D_ok (nat (seq_length s)) (nat (seq_length t)) (directions (dp_cell s t f s1 s2 tb))"
    "array2D_ok (nat (seq_length s)) (nat (seq_length t)) (dp_lengths (dp_cell s t f s1 s2 tb))"
    using arrays less by (simp_all add: cell)
  ultimately show ?thesis
    unfolding dp_tables_ok_def Let_def by blast
qed

lemma dp_columns_ok:
  assumes "dp_tables_ok s t s1 s2 tb" "s1 < nat (seq_length s)" "dp_columns s t isValid f s1 s2 tb = Some tb'"
  shows "dp_tables_ok s t (s1 + 1) 0 tb'"
  using assms
proof (induction s t isValid f s1 s2 tb rule: dp_columns.induct)
  case (1 s t isValid f s1 s2 tb)
  show ?case
  proof (cases "s2 < nat (seq_length t)")
    case True
    then show ?thesis
      using 1 dp_cell_ok [OF "1.prems"(1,2) True] by (auto simp: dp_columns.simps [of s t isValid f s1 s2 tb] split: if_splits)
  next
    case False
    then show ?thesis
      using 1 by (auto simp: dp_columns.simps [of s t isValid f s1 s2 tb] dp_tables_ok_def Let_def less_Suc_eq)
  qed
qed

lemma dp_rows_ok:
  assumes "dp_tables_ok s t s1 0 tb" "dp_rows s t isValid f s1 tb = Some tb'"
  shows "dp_tables_ok s t (nat (seq_length s)) 0 tb'"
  using assms
proof (induction s t isValid f s1 tb rule: dp_rows.induct)
  case (1 s t isValid f s1 tb)
  show ?case
  proof (cases "s1 < nat (seq_length s)")
    case True
    then obtain tb1 where tb1: "dp_columns s t isValid f s1 0 tb = Some tb1" "dp_rows s t isValid f (s1 + 1) tb1 = Some tb'"
      using "1.prems"(2) by (auto simp: dp_rows.simps [of s t isValid f s1 tb] split: option.splits)
    show ?thesis
      using "1.IH" [OF True tb1(1) dp_columns_ok [OF "1.prems"(1) True tb1(1)] tb1(2)] .
  next
    case False
    then show ?thesis
      using 1 by (auto simp: dp_rows.simps [of s t isValid f s1 tb] dp_tables_ok_def Let_def)
  qed
qed

lemma dp_columns_timeout: "dp_columns s t isValid f s1 s2 tb = None \<Longrightarrow> \<exists>n. \<not> isValid n"
proof (induction s t isValid f s1 s2 tb rule: dp_columns.induct)
  case (1 s t isValid f s1 s2 tb)
  then show ?case
    by (auto simp: dp_columns.simps [of s t isValid f s1 s2 tb] split: if_splits)
qed

lemma dp_rows_timeout: "dp_rows s t isValid f s1 tb = None \<Longrightarrow> \<exists>n. \<not> isValid n"
proof (induction s t isValid f s1 tb rule: dp_rows.induct)
  case (1 s t isValid f s1 tb)
  then show ?case
    by (auto simp: dp_rows.simps [of s t isValid f s1 tb] dest: dp_columns_timeout split: if_splits option.splits)
qed

section \<open>Backtracking\<close>

text \<open>
  While the tables are followed back, the differences reported so far, in reverse, align the ends of the sequences
  from the last aligning positions on, where the sequences agree.
\<close>

definition backtrack_ok :: "iSequence \<Rightarrow> iSequence \<Rightarrow> aligningState \<Rightarrow> bool" where
  "backtrack_ok s t st \<longleftrightarrow>
     (let a = lastAligningPosS1 st; b = lastAligningPosS2 st; ds = rev (al_result st) in
      aligned s t a b ds \<and> diffs_separated ds \<and>
      (ds \<noteq> [] \<longrightarrow> a < start1 (hd ds) \<and> b < start2 (hd ds)))"

lemma report_spec:
  assumes "backtrack_ok s t st" "s1 < lastAligningPosS1 st" "s2 < lastAligningPosS2 st"
  obtains st' where "reportDecreasingAligningPositions s1 s2 st = Inr st'" "lastAligningPosS1 st' = s1" "lastAligningPosS2 st' = s2"
    "aligned s t (s1 + 1) (s2 + 1) (rev (al_result st'))" "diffs_separated (rev (al_result st'))"
    "al_result st' \<noteq> [] \<longrightarrow> s1 < start1 (last (al_result st')) \<and> s2 < start2 (last (al_result st'))"
proof (cases "s1 + 1 \<noteq> lastAligningPosS1 st \<or> s2 + 1 \<noteq> lastAligningPosS2 st")
  case True
  define d where "d = \<lparr>seq1Range = \<lparr>start = s1 + 1, endExclusive = lastAligningPosS1 st\<rparr>,
      seq2Range = \<lparr>start = s2 + 1, endExclusive = lastAligningPosS2 st\<rparr>\<rparr>"
  show thesis
  proof
    show "reportDecreasingAligningPositions s1 s2 st =
        Inr (st\<lparr>al_result := al_result st @ [d], lastAligningPosS1 := s1, lastAligningPosS2 := s2\<rparr>)"
      using True assms(2,3) by (simp add: reportDecreasingAligningPositions_def new_SequenceDiff_def new_OffsetRange_def d_def)
  qed (use assms True in \<open>auto simp: backtrack_ok_def Let_def d_def diffs_separated_Cons simp del: diffs_separated.simps(2)\<close>)
next
  case False
  show thesis
  proof
    show "reportDecreasingAligningPositions s1 s2 st = Inr (st\<lparr>lastAligningPosS1 := s1, lastAligningPosS2 := s2\<rparr>)"
      using False by (simp add: reportDecreasingAligningPositions_def)
  qed (use assms False in \<open>auto simp: backtrack_ok_def Let_def hd_rev\<close>)
qed

lemma dp_backtrack_ok:
  assumes "dp_tables_ok s t (nat (seq_length s)) 0 tb" "backtrack_ok s t st"
    "s1 < lastAligningPosS1 st" "s2 < lastAligningPosS2 st" "s1 < seq_length s" "s2 < seq_length t"
    "0 \<le> lastAligningPosS1 st" "0 \<le> lastAligningPosS2 st"
  shows "\<exists>st'. dp_backtrack (directions tb) s1 s2 st = Inr st' \<and> backtrack_ok s t st' \<and>
    0 \<le> lastAligningPosS1 st' \<and> 0 \<le> lastAligningPosS2 st'"
  using assms
proof (induction "directions tb" s1 s2 st rule: dp_backtrack.induct)
  case (1 s1 s2 st)
  note step = dp_backtrack.simps [of "directions tb" s1 s2 st]
  show ?case
  proof (cases "0 \<le> s1 \<and> 0 \<le> s2")
    case True
    let ?dir = "Array2D_get (directions tb) (nat s1) (nat s2)"
    consider (diag) "js_eq ?dir (Some 3)" | (left) "\<not> js_eq ?dir (Some 3)" "js_eq ?dir (Some 1)"
      | (up) "\<not> js_eq ?dir (Some 3)" "\<not> js_eq ?dir (Some 1)"
      by blast
    then show ?thesis
    proof cases
      case diag
      then have eq: "getElement s s1 = getElement t s2"
        using dp_tables_ok_entry [OF "1.prems"(1), of "nat s1" "nat s2"] True "1.prems"
        by (auto simp: dp_entry_ok_def js_eq_def split: option.splits)
      obtain st' where st': "reportDecreasingAligningPositions s1 s2 st = Inr st'"
        and last: "lastAligningPosS1 st' = s1" "lastAligningPosS2 st' = s2"
        and al: "aligned s t (s1 + 1) (s2 + 1) (rev (al_result st'))" "diffs_separated (rev (al_result st'))"
          "al_result st' \<noteq> [] \<longrightarrow> s1 < start1 (last (al_result st')) \<and> s2 < start2 (last (al_result st'))"
        using report_spec [OF "1.prems"(2-4)] by metis
      have "aligned s t s1 s2 (rev (al_result st'))"
        using aligned_match [of s t s1 s2 1] al(1) eq by (simp add: matches_def)
      then have "backtrack_ok s t st'"
        using al last by (simp add: backtrack_ok_def Let_def hd_rev)
      then show ?thesis
        using "1.hyps"(1) [OF True diag "1.prems"(1), of st'] True diag last st' "1.prems" by (simp add: step)
    next
      case left
      then show ?thesis
        using "1.hyps"(2) [OF True left] True "1.prems" by (simp add: step)
    next
      case up
      then show ?thesis
        using "1.hyps"(3) [OF True up] True "1.prems" by (simp add: step)
    qed
  next
    case False
    then show ?thesis
      using "1.prems" by (auto simp: step)
  qed
qed

section \<open>Properties\<close>

text \<open>
  C14. For all sequences, scores and time-outs \<open>DynamicProgrammingDiffing.compute\<close> returns without an exception,
  whatever \<open>getElement\<close> and the score function are.  For two empty sequences the result is one empty difference.  Otherwise
  its differences are sorted, not empty and separated by unchanged elements; outside of them the sequences agree element by
  element.  Applying them to the first sequence gives the second; only when a call of the time-out was answered with false is the result
  marked, and then it is the single difference of the whole sequences.
\<close>

theorem DynamicProgrammingDiffing_correct:
  fixes f :: "'n::linordered_idom equalityScore"
  assumes "0 \<le> seq_length s" "0 \<le> seq_length t"
  shows "\<exists>r. DynamicProgrammingDiffing_compute s t isValid f = Inr r \<and>
    (if seq_length s = 0 \<and> seq_length t = 0
     then diffs r = [\<lparr>seq1Range = \<lparr>start = 0, endExclusive = 0\<rparr>, seq2Range = \<lparr>start = 0, endExclusive = 0\<rparr>\<rparr>]
     else diffs_ok s t (diffs r)) \<and>
    apply_diffs s t 0 (diffs r) = seq_elements t \<and>
    (hitTimeout r \<longrightarrow> (\<exists>n. \<not> isValid n) \<and> length (diffs r) = 1)"
proof (cases "seq_length s = 0 \<or> seq_length t = 0")
  case True
  show ?thesis
  proof (cases "seq_length s = 0 \<and> seq_length t = 0")
    case empty: True
    then show ?thesis
      by (simp add: DynamicProgrammingDiffing_compute_def DiffAlgorithmResult_trivial_def new_SequenceDiff_def new_OffsetRange_def
          seq_elements_def)
  next
    case False
    with True show ?thesis
      using aligned_trivial [OF assms] assms
      by (auto simp: DynamicProgrammingDiffing_compute_def diffs_ok_def intro!: aligned_apply_all)
  qed
next
  case False
  let ?new = "new_dpTables (nat (seq_length s)) (nat (seq_length t)) :: 'n dpTables"
  show ?thesis
  proof (cases "dp_rows s t isValid f 0 ?new")
    case None
    then show ?thesis
      using aligned_trivial [OF assms(1,2)] assms False dp_rows_timeout [OF None]
      by (auto simp: DynamicProgrammingDiffing_compute_def diffs_ok_def intro!: aligned_apply_all)
  next
    case (Some tb)
    have "dp_tables_ok s t 0 0 ?new"
      by (simp add: dp_tables_ok_def new_dpTables_def Let_def)
    then have tb: "dp_tables_ok s t (nat (seq_length s)) 0 tb"
      using Some by (rule dp_rows_ok)
    let ?st = "\<lparr>al_result = [], lastAligningPosS1 = seq_length s, lastAligningPosS2 = seq_length t\<rparr>"
    obtain st' where st': "dp_backtrack (directions tb) (seq_length s - 1) (seq_length t - 1) ?st = Inr st'"
      "backtrack_ok s t st'" "0 \<le> lastAligningPosS1 st'" "0 \<le> lastAligningPosS2 st'"
      using dp_backtrack_ok [OF tb, of ?st "seq_length s - 1" "seq_length t - 1"] assms(1,2) by (auto simp: backtrack_ok_def)
    obtain st'' where st'': "reportDecreasingAligningPositions (- 1) (- 1) st' = Inr st''"
      "aligned s t 0 0 (rev (al_result st''))" "diffs_separated (rev (al_result st''))"
      using report_spec [OF st'(2), of "- 1" "- 1"] st'(3,4) by auto
    then show ?thesis
      using False Some st'(1) by (simp add: DynamicProgrammingDiffing_compute_def diffs_ok_def aligned_apply_all)
  qed
qed

theorem DynamicProgrammingDiffing_correct_witness:
  "\<exists>r. DynamicProgrammingDiffing_compute (list_sequence [1, 2, 3]) (list_sequence [1, 4, 3, 5]) InfiniteTimeout (Some (\<lambda>i j. 2 :: int)) = Inr r \<and>
     map (\<lambda>d. (start1 d, end1 d, start2 d, end2 d)) (diffs r) = [(1, 2, 1, 2), (3, 3, 3, 4)] \<and>
     apply_diffs (list_sequence [1, 2, 3]) (list_sequence [1, 4, 3, 5]) 0 (diffs r) = [Some 1, Some 4, Some 3, Some 5]"
proof -
  have "DynamicProgrammingDiffing_compute (list_sequence [1, 2, 3]) (list_sequence [1, 4, 3, 5]) InfiniteTimeout (Some (\<lambda>i j. 2 :: int)) =
      Inr \<lparr>diffs = [\<lparr>seq1Range = \<lparr>start = 1, endExclusive = 2\<rparr>, seq2Range = \<lparr>start = 1, endExclusive = 2\<rparr>\<rparr>,
                    \<lparr>seq1Range = \<lparr>start = 3, endExclusive = 3\<rparr>, seq2Range = \<lparr>start = 3, endExclusive = 4\<rparr>\<rparr>], hitTimeout = False\<rparr>"
    by code_simp
  moreover have "seq_elements (list_sequence [1, 4, 3, 5]) = [Some 1, Some 4, Some 3, Some 5]"
    by code_simp
  ultimately show ?thesis
    using DynamicProgrammingDiffing_correct [of "list_sequence [1, 2, 3]" "list_sequence [1, 4, 3, 5]" InfiniteTimeout "Some (\<lambda>i j. 2 :: int)"]
    by (auto simp: list_sequence_def Let_def)
qed

end
