(* ===== verification/Diff_Optimize.thy ===== *)
theory Diff_Optimize
  imports Diff_Sequence
begin

text \<open>
  \<open>src/vs/editor/common/diff/algorithms/joinSequenceDiffs.ts\<close>: the passes that improve a list of differences
  without computing it anew.  \<open>joinSequenceDiffs\<close> slides insertions and deletions over matching elements, first to the
  left and then to the right, and merges those that meet; \<open>shiftSequenceDiffs\<close> moves them to the offset with the best
  boundary score; \<open>smoothenSequenceDiffs\<close> merges differences that are close together.
\<close>

section \<open>Joining differences\<close>

text \<open>The two counting loops; each returns the value its counter has at the exit.\<close>

function left_shift_loop :: "iSequence \<Rightarrow> iSequence \<Rightarrow> sequenceDiff \<Rightarrow> int \<Rightarrow> int \<Rightarrow> int" where
  "left_shift_loop s t cur len d =
     (if d \<le> len then
        if getElement s (start1 cur - d) \<noteq> getElement s (end1 cur - d) \<or> getElement t (start2 cur - d) \<noteq> getElement t (end2 cur - d)
        then d else left_shift_loop s t cur len (d + 1)
      else d)"
  by pat_completeness auto
termination
  by (relation "measure (\<lambda>(s, t, cur, len, d). nat (len + 1 - d))") auto

function right_shift_loop :: "iSequence \<Rightarrow> iSequence \<Rightarrow> sequenceDiff \<Rightarrow> int \<Rightarrow> int \<Rightarrow> int" where
  "right_shift_loop s t cur len d =
     (if d < len then
        if getElement s (start1 cur + d) \<noteq> getElement s (end1 cur + d) \<or> getElement t (start2 cur + d) \<noteq> getElement t (end2 cur + d)
        then d else right_shift_loop s t cur len (d + 1)
      else d)"
  by pat_completeness auto
termination
  by (relation "measure (\<lambda>(s, t, cur, len, d). nat (len - d))") auto

declare left_shift_loop.simps [simp del] right_shift_loop.simps [simp del]

definition join_left_step :: "iSequence \<Rightarrow> iSequence \<Rightarrow> sequenceDiff list \<Rightarrow> sequenceDiff \<Rightarrow> js_error + sequenceDiff list" where
  "join_left_step s t result cur =
     (let prevResult = last result in
      if OffsetRange_isEmpty (seq1Range cur) \<or> OffsetRange_isEmpty (seq2Range cur) then
        let len = start1 cur - end1 prevResult; d = left_shift_loop s t cur len 1 - 1 in
        if d = len then
          bind_result (new_SequenceDiff (new_OffsetRange (start1 prevResult) (end1 cur - len)) (new_OffsetRange (start2 prevResult) (end2 cur - len)))
            (\<lambda>merged. Inr (butlast result @ [merged]))
        else bind_result (SequenceDiff_delta cur (- d)) (\<lambda>cur. Inr (result @ [cur]))
      else Inr (result @ [cur]))"

fun join_left :: "iSequence \<Rightarrow> iSequence \<Rightarrow> sequenceDiff list \<Rightarrow> sequenceDiff list \<Rightarrow> js_error + sequenceDiff list" where
  "join_left s t result [] = Inr result"
| "join_left s t result (cur # ds) = bind_result (join_left_step s t result cur) (\<lambda>result. join_left s t result ds)"

text \<open>
  The second loop: merging the current difference with the next one replaces the next one (\<open>Inl\<close>), otherwise the
  current one is pushed (\<open>Inr\<close>); the last one is kept.
\<close>

definition join_right_step :: "iSequence \<Rightarrow> iSequence \<Rightarrow> sequenceDiff \<Rightarrow> sequenceDiff \<Rightarrow> js_error + (sequenceDiff + sequenceDiff)" where
  "join_right_step s t cur nextResult =
     (if OffsetRange_isEmpty (seq1Range cur) \<or> OffsetRange_isEmpty (seq2Range cur) then
        let len = start1 nextResult - end1 cur; d = right_shift_loop s t cur len 0 in
        if d = len then
          map_sum id Inl (new_SequenceDiff (new_OffsetRange (start1 cur + len) (end1 nextResult)) (new_OffsetRange (start2 cur + len) (end2 nextResult)))
        else map_sum id Inr (if 0 < d then SequenceDiff_delta cur d else Inr cur)
      else Inr (Inr cur))"

fun join_right :: "iSequence \<Rightarrow> iSequence \<Rightarrow> sequenceDiff list \<Rightarrow> sequenceDiff list \<Rightarrow> js_error + sequenceDiff list" where
  "join_right s t result2 [] = Inr result2"
| "join_right s t result2 [d] = Inr (result2 @ [d])"
| "join_right s t result2 (cur # nextResult # ds) =
     bind_result (join_right_step s t cur nextResult)
       (\<lambda>r. case r of
          Inl merged \<Rightarrow> join_right s t result2 (merged # ds)
        | Inr cur \<Rightarrow> join_right s t (result2 @ [cur]) (nextResult # ds))"

definition joinSequenceDiffs :: "iSequence \<Rightarrow> iSequence \<Rightarrow> sequenceDiff list \<Rightarrow> js_error + sequenceDiff list" where
  "joinSequenceDiffs s t sequenceDiffs =
     (case sequenceDiffs of
        [] \<Rightarrow> Inr sequenceDiffs
      | d # ds \<Rightarrow> bind_result (join_left s t [d] ds) (\<lambda>result. join_right s t [] result))"

section \<open>Shifting differences\<close>

definition maxShiftLimit :: int where
  "maxShiftLimit = 100"

function deltaBefore_loop :: "sequenceDiff \<Rightarrow> iSequence \<Rightarrow> offsetRange \<Rightarrow> offsetRange \<Rightarrow> int \<Rightarrow> int" where
  "deltaBefore_loop diff t valid1 valid2 deltaBefore =
     (if start1 diff - deltaBefore \<ge> start valid1 \<and> start2 diff - deltaBefore \<ge> start valid2 \<and>
         isStronglyEqual t (start2 diff - deltaBefore) (end2 diff - deltaBefore) \<and> deltaBefore < maxShiftLimit
      then deltaBefore_loop diff t valid1 valid2 (deltaBefore + 1) else deltaBefore)"
  by pat_completeness auto
termination
  by (relation "measure (\<lambda>(diff, t, v1, v2, d). nat (maxShiftLimit - d))") auto

function deltaAfter_loop :: "sequenceDiff \<Rightarrow> iSequence \<Rightarrow> offsetRange \<Rightarrow> offsetRange \<Rightarrow> int \<Rightarrow> int" where
  "deltaAfter_loop diff t valid1 valid2 deltaAfter =
     (if start1 diff + deltaAfter < endExclusive valid1 \<and> end2 diff + deltaAfter < endExclusive valid2 \<and>
         isStronglyEqual t (start2 diff + deltaAfter) (end2 diff + deltaAfter) \<and> deltaAfter < maxShiftLimit
      then deltaAfter_loop diff t valid1 valid2 (deltaAfter + 1) else deltaAfter)"
  by pat_completeness auto
termination
  by (relation "measure (\<lambda>(diff, t, v1, v2, d). nat (maxShiftLimit - d))") auto

function bestDelta_loop :: "(int \<Rightarrow> int) \<Rightarrow> (int \<Rightarrow> int) \<Rightarrow> sequenceDiff \<Rightarrow> int \<Rightarrow> int \<Rightarrow> int \<Rightarrow> int \<Rightarrow> int" where
  "bestDelta_loop score1 score2 diff deltaAfter delta bestDelta bestScore =
     (if delta \<le> deltaAfter then
        let score = score1 (start1 diff + delta) + score2 (start2 diff + delta) + score2 (end2 diff + delta) in
        if score > bestScore then bestDelta_loop score1 score2 diff deltaAfter (delta + 1) delta score
        else bestDelta_loop score1 score2 diff deltaAfter (delta + 1) bestDelta bestScore
      else bestDelta)"
  by pat_completeness auto
termination
  by (relation "measure (\<lambda>(f, g, diff, after, delta, b, c). nat (after + 1 - delta))") (auto simp: Let_def)

declare deltaBefore_loop.simps [simp del] deltaAfter_loop.simps [simp del] bestDelta_loop.simps [simp del]

definition shiftDiffToBetterPosition :: "(int \<Rightarrow> int) \<Rightarrow> (int \<Rightarrow> int) \<Rightarrow> sequenceDiff \<Rightarrow> iSequence \<Rightarrow> offsetRange \<Rightarrow> offsetRange \<Rightarrow> js_error + sequenceDiff" where
  "shiftDiffToBetterPosition score1 score2 diff t seq1ValidRange seq2ValidRange =
     (let deltaBefore = deltaBefore_loop diff t seq1ValidRange seq2ValidRange 1 - 1;
          deltaAfter = deltaAfter_loop diff t seq1ValidRange seq2ValidRange 0 in
      if deltaBefore = 0 \<and> deltaAfter = 0 then Inr diff
      else SequenceDiff_delta diff (bestDelta_loop score1 score2 diff deltaAfter (- deltaBefore) 0 (- 1)))"

definition shift_step :: "(int \<Rightarrow> int) \<Rightarrow> (int \<Rightarrow> int) \<Rightarrow> iSequence \<Rightarrow> iSequence \<Rightarrow> sequenceDiff option \<Rightarrow> sequenceDiff \<Rightarrow> sequenceDiff option \<Rightarrow> js_error + sequenceDiff" where
  "shift_step score1 score2 s t prevDiff diff nextDiff =
     bind_result (new_OffsetRange (case prevDiff of Some p \<Rightarrow> start1 p + 1 | None \<Rightarrow> 0) (case nextDiff of Some n \<Rightarrow> end1 n - 1 | None \<Rightarrow> seq_length s))
       (\<lambda>valid1. bind_result (new_OffsetRange (case prevDiff of Some p \<Rightarrow> start2 p + 1 | None \<Rightarrow> 0) (case nextDiff of Some n \<Rightarrow> end2 n - 1 | None \<Rightarrow> seq_length t))
         (\<lambda>valid2.
            if OffsetRange_isEmpty (seq1Range diff) then shiftDiffToBetterPosition score1 score2 diff t valid1 valid2
            else if OffsetRange_isEmpty (seq2Range diff) then
              map_sum id SequenceDiff_reverse (shiftDiffToBetterPosition score2 score1 (SequenceDiff_reverse diff) s valid2 valid1)
            else Inr diff))"

fun shift_loop :: "(int \<Rightarrow> int) \<Rightarrow> (int \<Rightarrow> int) \<Rightarrow> iSequence \<Rightarrow> iSequence \<Rightarrow> sequenceDiff option \<Rightarrow> sequenceDiff list \<Rightarrow> js_error + sequenceDiff list" where
  "shift_loop score1 score2 s t prevDiff [] = Inr []"
| "shift_loop score1 score2 s t prevDiff (diff # ds) =
     bind_result (shift_step score1 score2 s t prevDiff diff (case ds of [] \<Rightarrow> None | n # _ \<Rightarrow> Some n))
       (\<lambda>diff. bind_result (shift_loop score1 score2 s t (Some diff) ds) (\<lambda>ds. Inr (diff # ds)))"

definition shiftSequenceDiffs :: "iSequence \<Rightarrow> iSequence \<Rightarrow> sequenceDiff list \<Rightarrow> js_error + sequenceDiff list" where
  "shiftSequenceDiffs s t sequenceDiffs =
     (case (getBoundaryScore s, getBoundaryScore t) of
        (Some score1, Some score2) \<Rightarrow> shift_loop score1 score2 s t None sequenceDiffs
      | _ \<Rightarrow> Inr sequenceDiffs)"

definition optimizeSequenceDiffs :: "iSequence \<Rightarrow> iSequence \<Rightarrow> sequenceDiff list \<Rightarrow> js_error + sequenceDiff list" where
  "optimizeSequenceDiffs s t sequenceDiffs =
     bind_result (joinSequenceDiffs s t sequenceDiffs) (\<lambda>result. shiftSequenceDiffs s t result)"

section \<open>Smoothing\<close>

fun smoothen_loop :: "sequenceDiff list \<Rightarrow> sequenceDiff list \<Rightarrow> js_error + sequenceDiff list" where
  "smoothen_loop result [] = Inr result"
| "smoothen_loop result (d # ds) =
     (if result = [] then smoothen_loop (result @ [d]) ds
      else let l = last result in
        if start1 d - end1 l \<le> 2 \<or> start2 d - end2 l \<le> 2 then
          bind_result (new_SequenceDiff (OffsetRange_join (seq1Range l) (seq1Range d)) (OffsetRange_join (seq2Range l) (seq2Range d)))
            (\<lambda>merged. smoothen_loop (butlast result @ [merged]) ds)
        else smoothen_loop (result @ [d]) ds)"

definition smoothenSequenceDiffs :: "iSequence \<Rightarrow> iSequence \<Rightarrow> sequenceDiff list \<Rightarrow> js_error + sequenceDiff list" where
  "smoothenSequenceDiffs s t sequenceDiffs = smoothen_loop [] sequenceDiffs"


section \<open>Moving and merging differences\<close>

definition moved :: "sequenceDiff \<Rightarrow> int \<Rightarrow> sequenceDiff" where
  "moved d k = \<lparr>seq1Range = \<lparr>start = start1 d + k, endExclusive = end1 d + k\<rparr>, seq2Range = \<lparr>start = start2 d + k, endExclusive = end2 d + k\<rparr>\<rparr>"

definition spanning :: "sequenceDiff \<Rightarrow> sequenceDiff \<Rightarrow> sequenceDiff" where
  "spanning d e = \<lparr>seq1Range = \<lparr>start = start1 d, endExclusive = end1 e\<rparr>, seq2Range = \<lparr>start = start2 d, endExclusive = end2 e\<rparr>\<rparr>"

lemma moved_fields [simp]:
  "start1 (moved d k) = start1 d + k" "end1 (moved d k) = end1 d + k"
  "start2 (moved d k) = start2 d + k" "end2 (moved d k) = end2 d + k"
  by (simp_all add: moved_def)

lemma spanning_fields [simp]:
  "start1 (spanning d e) = start1 d" "end1 (spanning d e) = end1 e"
  "start2 (spanning d e) = start2 d" "end2 (spanning d e) = end2 e"
  by (simp_all add: spanning_def)

lemma sequenceDiff_eqI:
  "start1 d = start1 e \<Longrightarrow> end1 d = end1 e \<Longrightarrow> start2 d = start2 e \<Longrightarrow> end2 d = end2 e \<Longrightarrow> d = (e :: sequenceDiff)"
  by (simp add: sequenceDiff.equality offsetRange.equality)

lemma moved_0 [simp]: "moved d 0 = d"
  by (rule sequenceDiff_eqI) simp_all

lemma SequenceDiff_delta_moved:
  "start1 d \<le> end1 d \<Longrightarrow> start2 d \<le> end2 d \<Longrightarrow> SequenceDiff_delta d k = Inr (moved d k)"
  by (auto simp: SequenceDiff_delta_def new_SequenceDiff_def OffsetRange_delta_def new_OffsetRange_def moved_def intro!: sequenceDiff_eqI)

lemma aligned_move_left:
  assumes al: "aligned s t a b (cur # ds)" and k: "0 \<le> k" "k \<le> start1 cur - a"
    and eq: "\<And>i. 1 \<le> i \<Longrightarrow> i \<le> k \<Longrightarrow> getElement s (start1 cur - i) = getElement s (end1 cur - i) \<and>
      getElement t (start2 cur - i) = getElement t (end2 cur - i)"
  shows "aligned s t a b (moved cur (- k) # ds)"
proof -
  let ?g = "start1 cur - a"
  have m: "matches s t a b ?g" and b: "start2 cur = b + ?g"
    using al by auto
  have "getElement s (end1 cur - j) = getElement t (end2 cur - j)" if j: "1 \<le> j" "j \<le> k" for j
  proof -
    have "getElement s (start1 cur - j) = getElement t (start2 cur - j)"
      using matchesD [OF m, of "?g - j"] j k by (simp add: b algebra_simps)
    then show ?thesis
      using eq [OF j] by simp
  qed
  note behind = this
  have "getElement s (end1 cur - k + i) = getElement t (end2 cur - k + i)" if "0 \<le> i" "i < k" for i
    using behind [of "k - i"] that by (simp add: algebra_simps)
  then have "matches s t (end1 cur - k) (end2 cur - k) k"
    by (simp add: matches_iff)
  moreover have "aligned s t (end1 cur - k + k) (end2 cur - k + k) ds"
    using al by simp
  ultimately have "aligned s t (end1 cur - k) (end2 cur - k) ds"
    using k(1) aligned_match by blast
  moreover have "matches s t a b (?g - k)"
    using m k matches_split [of "?g - k" ?g s t a b] by simp
  ultimately show ?thesis
    using al k by (simp add: diff_right_commute)
qed

lemma aligned_match_right:
  assumes "aligned s t a b (cur # ds)" "0 \<le> k" "k \<le> (case ds of [] \<Rightarrow> seq_length s - end1 cur | n # _ \<Rightarrow> start1 n - end1 cur)"
  shows "matches s t (end1 cur) (end2 cur) k \<and> aligned s t (end1 cur + k) (end2 cur + k) ds"
proof (cases ds)
  case Nil
  then show ?thesis
    using assms matches_split [of k "seq_length s - end1 cur" s t "end1 cur" "end2 cur"] by (simp add: algebra_simps)
next
  case (Cons n ns)
  then show ?thesis
    using assms matches_split [of k "start1 n - end1 cur" s t "end1 cur" "end2 cur"] by (simp add: algebra_simps)
qed

lemma aligned_move_right:
  assumes al: "aligned s t a b (cur # ds)" and k: "0 \<le> k" "k \<le> (case ds of [] \<Rightarrow> seq_length s - end1 cur | n # _ \<Rightarrow> start1 n - end1 cur)"
    and eq: "\<And>i. 0 \<le> i \<Longrightarrow> i < k \<Longrightarrow> getElement s (start1 cur + i) = getElement s (end1 cur + i) \<and>
      getElement t (start2 cur + i) = getElement t (end2 cur + i)"
  shows "aligned s t a b (moved cur k # ds)"
proof -
  let ?g = "start1 cur - a"
  have right: "matches s t (end1 cur) (end2 cur) k" "aligned s t (end1 cur + k) (end2 cur + k) ds"
    using aligned_match_right [OF al k] by simp_all
  have "matches s t (start1 cur) (start2 cur) k"
    using matchesD [OF right(1)] eq by (simp add: matches_iff)
  moreover have "a + ?g = start1 cur" "b + ?g = start2 cur" "matches s t a b ?g"
    using al by auto
  ultimately have "matches s t a b (?g + k)"
    using al k(1) matches_split [of ?g "?g + k" s t a b] by simp
  then show ?thesis
    using al k(1) right(2) by (simp add: algebra_simps)
qed

lemma aligned_spanning: "aligned s t a b (d # e # ds) \<Longrightarrow> aligned s t a b (spanning d e # ds)"
  by simp

fun aligned_prefix :: "iSequence \<Rightarrow> iSequence \<Rightarrow> int \<Rightarrow> int \<Rightarrow> sequenceDiff list \<Rightarrow> bool" where
  "aligned_prefix s t a b [] \<longleftrightarrow> True"
| "aligned_prefix s t a b (d # ds) \<longleftrightarrow>
     a \<le> start1 d \<and> start2 d - b = start1 d - a \<and> matches s t a b (start1 d - a) \<and>
     start1 d \<le> end1 d \<and> start2 d \<le> end2 d \<and> aligned_prefix s t (end1 d) (end2 d) ds"

lemma aligned_append:
  "aligned s t a b (xs @ d # ys) \<longleftrightarrow> aligned_prefix s t a b (xs @ [d]) \<and> aligned s t (end1 d) (end2 d) ys"
  by (induction xs arbitrary: a b) auto

lemma aligned_prefix_append:
  "aligned_prefix s t a b (xs @ ys) \<longleftrightarrow> aligned_prefix s t a b xs \<and>
     aligned_prefix s t (if xs = [] then a else end1 (last xs)) (if xs = [] then b else end2 (last xs)) ys"
  by (induction xs arbitrary: a b) auto

lemma aligned_append_last:
  "aligned s t a b (xs @ ys) \<longleftrightarrow> aligned_prefix s t a b xs \<and>
     aligned s t (if xs = [] then a else end1 (last xs)) (if xs = [] then b else end2 (last xs)) ys"
  by (induction xs arbitrary: a b) auto

lemma diffs_separated_append:
  "diffs_separated (xs @ ys) \<longleftrightarrow> diffs_separated xs \<and> diffs_separated ys \<and>
     (xs \<noteq> [] \<and> ys \<noteq> [] \<longrightarrow> end1 (last xs) < start1 (hd ys) \<and> end2 (last xs) < start2 (hd ys))"
proof (induction xs)
  case (Cons x xs)
  then show ?case by (cases xs; cases ys) auto
qed simp


subsection \<open>Joining\<close>

lemma left_shift_loop_spec:
  assumes "0 \<le> d" "d \<le> len + 1"
  shows "d \<le> left_shift_loop s t cur len d \<and> left_shift_loop s t cur len d \<le> len + 1 \<and>
    (\<forall>i. d \<le> i \<and> i < left_shift_loop s t cur len d \<longrightarrow> getElement s (start1 cur - i) = getElement s (end1 cur - i) \<and>
       getElement t (start2 cur - i) = getElement t (end2 cur - i))"
  using assms
proof (induction s t cur len d rule: left_shift_loop.induct)
  case (1 s t cur len d)
  note step = left_shift_loop.simps [of s t cur len d]
  show ?case
  proof (cases "d \<le> len \<and> getElement s (start1 cur - d) = getElement s (end1 cur - d) \<and> getElement t (start2 cur - d) = getElement t (end2 cur - d)")
    case True
    then have "left_shift_loop s t cur len d = left_shift_loop s t cur len (d + 1)"
      by (simp add: step)
    moreover have "d + 1 \<le> i" if "d \<le> i" "i \<noteq> d" for i
      using that by simp
    ultimately show ?thesis
      using 1 True by (smt (verit, best))
  next
    case False
    then show ?thesis
      using "1.prems" by (auto simp: step)
  qed
qed

lemma right_shift_loop_spec:
  assumes "d \<le> len"
  shows "d \<le> right_shift_loop s t cur len d \<and> right_shift_loop s t cur len d \<le> len \<and>
    (\<forall>i. d \<le> i \<and> i < right_shift_loop s t cur len d \<longrightarrow> getElement s (start1 cur + i) = getElement s (end1 cur + i) \<and>
       getElement t (start2 cur + i) = getElement t (end2 cur + i))"
  using assms
proof (induction s t cur len d rule: right_shift_loop.induct)
  case (1 s t cur len d)
  note step = right_shift_loop.simps [of s t cur len d]
  show ?case
  proof (cases "d < len \<and> getElement s (start1 cur + d) = getElement s (end1 cur + d) \<and> getElement t (start2 cur + d) = getElement t (end2 cur + d)")
    case True
    then have "right_shift_loop s t cur len d = right_shift_loop s t cur len (d + 1)"
      by (simp add: step)
    then show ?thesis
      using 1 True by (smt (verit, best))
  next
    case False
    then show ?thesis
      using "1.prems" by (auto simp: step)
  qed
qed

lemma join_left_step_ok:
  assumes "aligned s t 0 0 (xs @ p # cur # ds)" "diffs_separated (xs @ p # cur # ds)"
  shows "\<exists>ys q. join_left_step s t (xs @ [p]) cur = Inr (ys @ [q]) \<and> aligned s t 0 0 (ys @ q # ds) \<and> diffs_separated (ys @ q # ds) \<and>
    diff_cost (ys @ q # ds) = diff_cost (xs @ p # cur # ds) \<and> length ys \<le> Suc (length xs)"
proof (cases "OffsetRange_isEmpty (seq1Range cur) \<or> OffsetRange_isEmpty (seq2Range cur)")
  case True
  define len where "len = start1 cur - end1 p"
  define d where "d = left_shift_loop s t cur len 1 - 1"
  have al: "aligned_prefix s t 0 0 (xs @ [p])" "aligned s t (end1 p) (end2 p) (cur # ds)"
    using assms(1) by (simp_all add: aligned_append)
  have len: "start2 cur - end2 p = len" "0 < len"
    using al(2) assms(2) by (auto simp: len_def diffs_separated_append)
  have d: "0 \<le> d" "d \<le> len" "\<And>i. 1 \<le> i \<Longrightarrow> i \<le> d \<Longrightarrow> getElement s (start1 cur - i) = getElement s (end1 cur - i) \<and>
      getElement t (start2 cur - i) = getElement t (end2 cur - i)"
    using left_shift_loop_spec [of 1 len s t cur] len(2) by (auto simp: d_def)
  have moved: "aligned s t (end1 p) (end2 p) (moved cur (- d) # ds)"
    using aligned_move_left [OF al(2) d(1)] d(2,3) by (simp add: len_def)
  have sizes: "start1 cur \<le> end1 cur" "start2 cur \<le> end2 cur" "start1 p \<le> end1 p" "start2 p \<le> end2 p"
    using al by (auto simp: aligned_prefix_append)
  then have ends: "start1 p \<le> end1 cur - len" "start2 p \<le> end2 cur - len"
    using len by (simp_all add: len_def)
  show ?thesis
  proof (cases "d = len")
    case merge: True
    let ?q = "spanning p (moved cur (- len))"
    have "join_left_step s t (xs @ [p]) cur = Inr (xs @ [?q])"
      using True merge ends
      by (simp add: join_left_step_def Let_def len_def [symmetric] d_def [symmetric] new_SequenceDiff_def new_OffsetRange_def spanning_def)
    moreover have "aligned s t 0 0 (xs @ ?q # ds)"
      using al(1) moved merge by (auto simp: aligned_append aligned_prefix_append)
    moreover have "diffs_separated (xs @ ?q # ds)"
      using assms(2) len sizes by (cases ds) (auto simp: diffs_separated_append len_def)
    ultimately show ?thesis
      using len by (intro exI [of _ xs] exI [of _ ?q]) (simp add: len_def)
  next
    case False
    have "join_left_step s t (xs @ [p]) cur = Inr ((xs @ [p]) @ [moved cur (- d)])"
      using True False sizes by (simp add: join_left_step_def Let_def len_def [symmetric] d_def [symmetric] SequenceDiff_delta_moved)
    moreover have "aligned s t 0 0 (xs @ p # moved cur (- d) # ds)"
      using al(1) moved by (simp add: aligned_append)
    moreover have "diffs_separated (xs @ p # moved cur (- d) # ds)"
      using assms(2) d(1,2) False len by (cases ds) (auto simp: diffs_separated_append len_def)
    ultimately show ?thesis
      by (intro exI [of _ "xs @ [p]"] exI [of _ "moved cur (- d)"]) simp
  qed
next
  case False
  then show ?thesis
    using assms by (intro exI [of _ "xs @ [p]"] exI [of _ cur]) (simp add: join_left_step_def Let_def)
qed

lemma join_left_ok:
  assumes "aligned s t 0 0 (xs @ p # ds)" "diffs_separated (xs @ p # ds)"
  shows "\<exists>r. join_left s t (xs @ [p]) ds = Inr r \<and> aligned s t 0 0 r \<and> diffs_separated r \<and> diff_cost r = diff_cost (xs @ p # ds) \<and>
    length r \<le> length (xs @ p # ds) \<and> r \<noteq> []"
  using assms
proof (induction ds arbitrary: xs p)
  case (Cons cur ds)
  then obtain ys q where "join_left_step s t (xs @ [p]) cur = Inr (ys @ [q])" "aligned s t 0 0 (ys @ q # ds)"
      "diffs_separated (ys @ q # ds)" "diff_cost (ys @ q # ds) = diff_cost (xs @ p # cur # ds)"
      "length ys \<le> Suc (length xs)"
    using join_left_step_ok [OF Cons.prems] by blast
  then show ?case
    using Cons.IH [of ys q] by (fastforce simp del: diff_cost_simps)
qed simp

lemma join_right_step_ok:
  assumes al: "aligned s t a b (cur # e # ds)" and sep: "diffs_separated (cur # e # ds)"
  shows "(\<exists>q. join_right_step s t cur e = Inr (Inl q) \<and> aligned s t a b (q # ds) \<and> diffs_separated (q # ds) \<and>
      start1 cur \<le> start1 q \<and> start2 cur \<le> start2 q \<and> diff_cost (q # ds) = diff_cost (cur # e # ds)) \<or>
    (\<exists>q. join_right_step s t cur e = Inr (Inr q) \<and> aligned s t a b (q # e # ds) \<and> diffs_separated (q # e # ds) \<and>
      start1 cur \<le> start1 q \<and> start2 cur \<le> start2 q \<and> diff_cost [q] = diff_cost [cur])"
proof (cases "OffsetRange_isEmpty (seq1Range cur) \<or> OffsetRange_isEmpty (seq2Range cur)")
  case True
  define len where "len = start1 e - end1 cur"
  define d where "d = right_shift_loop s t cur len 0"
  have len: "start2 e - end2 cur = len" "0 < len"
    using al sep by (auto simp: len_def)
  have d: "0 \<le> d" "d \<le> len" "\<And>i. 0 \<le> i \<Longrightarrow> i < d \<Longrightarrow> getElement s (start1 cur + i) = getElement s (end1 cur + i) \<and>
      getElement t (start2 cur + i) = getElement t (end2 cur + i)"
    using right_shift_loop_spec [of 0 len s t cur] len(2) by (auto simp: d_def)
  have moved: "aligned s t a b (moved cur d # e # ds)"
    using aligned_move_right [OF al d(1)] d(2,3) by (simp add: len_def)
  have sizes: "start1 cur \<le> end1 cur" "start2 cur \<le> end2 cur" "start1 e \<le> end1 e" "start2 e \<le> end2 e"
    using al by auto
  then have ends: "start1 cur + len \<le> end1 e" "start2 cur + len \<le> end2 e"
    using len by (simp_all add: len_def)
  show ?thesis
  proof (cases "d = len")
    case merge: True
    let ?q = "spanning (moved cur len) e"
    have "join_right_step s t cur e = Inr (Inl ?q)"
      using True merge ends
      by (simp add: join_right_step_def Let_def len_def [symmetric] d_def [symmetric] new_SequenceDiff_def new_OffsetRange_def spanning_def)
    moreover have "aligned s t a b (?q # ds)"
      using moved merge aligned_spanning by blast
    moreover have "diffs_separated (?q # ds)"
      using sep len sizes by (cases ds) (auto simp: len_def)
    ultimately show ?thesis
      using len by (intro disjI1 exI [of _ ?q]) (simp add: len_def)
  next
    case False
    have "join_right_step s t cur e = Inr (Inr (moved cur d))"
      using True False d(1) sizes
      by (auto simp: join_right_step_def Let_def len_def [symmetric] d_def [symmetric] SequenceDiff_delta_moved)
    moreover have "diffs_separated (moved cur d # e # ds)"
      using sep d(1,2) False len by (auto simp: len_def)
    ultimately show ?thesis
      using moved d(1) by (intro disjI2 exI [of _ "moved cur d"]) simp
  qed
next
  case False
  then show ?thesis
    using assms by (intro disjI2 exI [of _ cur]) (simp add: join_right_step_def)
qed

lemma join_right_ok:
  assumes "aligned s t 0 0 (xs @ ds)" "diffs_separated (xs @ ds)" "ds \<noteq> []"
  shows "\<exists>r. join_right s t xs ds = Inr r \<and> aligned s t 0 0 r \<and> diffs_separated r \<and> diff_cost r = diff_cost (xs @ ds) \<and>
    length r \<le> length (xs @ ds)"
  using assms
proof (induction s t xs ds rule: join_right.induct)
  case (3 s t xs cur e ds)
  let ?a = "if xs = [] then 0 else end1 (last xs)" and ?b = "if xs = [] then 0 else end2 (last xs)"
  have al: "aligned_prefix s t 0 0 xs" "aligned s t ?a ?b (cur # e # ds)"
    using "3.prems"(1) by (simp_all add: aligned_append_last)
  have sep: "diffs_separated xs" "diffs_separated (cur # e # ds)" "xs \<noteq> [] \<longrightarrow> end1 (last xs) < start1 cur \<and> end2 (last xs) < start2 cur"
    using "3.prems"(2) by (simp_all add: diffs_separated_append)
  consider q where "join_right_step s t cur e = Inr (Inl q)" "aligned s t ?a ?b (q # ds)" "diffs_separated (q # ds)"
      "start1 cur \<le> start1 q" "start2 cur \<le> start2 q" "diff_cost (q # ds) = diff_cost (cur # e # ds)"
    | q where "join_right_step s t cur e = Inr (Inr q)" "aligned s t ?a ?b (q # e # ds)" "diffs_separated (q # e # ds)"
      "start1 cur \<le> start1 q" "start2 cur \<le> start2 q" "diff_cost [q] = diff_cost [cur]"
    using join_right_step_ok [OF al(2) sep(2)] by blast
  then show ?case
  proof cases
    case q: 1
    have "aligned s t 0 0 (xs @ q # ds)"
      using al(1) q(2) by (simp add: aligned_append_last)
    moreover have "diffs_separated (xs @ q # ds)"
      using sep q(3-5) by (auto simp: diffs_separated_append)
    ultimately show ?thesis
      using "3.IH"(1) [of q] q(1,6) by fastforce
  next
    case q: 2
    have "aligned s t 0 0 ((xs @ [q]) @ e # ds)"
      using al(1) q(2) aligned_append_last [of s t 0 0 xs "q # e # ds"] by simp
    moreover have "diffs_separated ((xs @ [q]) @ e # ds)"
      using sep q(3-5) diffs_separated_append [of xs "q # e # ds"] by auto
    ultimately show ?thesis
      using "3.IH"(2) [of q] q(1,6) by fastforce
  qed
qed simp_all

text \<open>
  C15. \<open>joinSequenceDiffs\<close> keeps a correct list of differences correct: it never throws, the new differences are still
  sorted, separated and not empty, the sequences agree outside of them, so that they give the
  second sequence when applied to the first, and the number of changed elements stays the same.
\<close>

theorem joinSequenceDiffs_correct:
  assumes "diffs_ok s t ds"
  shows "\<exists>ds'. joinSequenceDiffs s t ds = Inr ds' \<and> diffs_ok s t ds' \<and> apply_diffs s t 0 ds' = seq_elements t \<and>
    diff_cost ds' = diff_cost ds \<and> length ds' \<le> length ds"
proof (cases ds)
  case Nil
  then show ?thesis
    using assms by (auto simp: joinSequenceDiffs_def diffs_ok_def aligned_apply_all simp del: apply_diffs.simps)
next
  case (Cons d ds0)
  then have "aligned s t 0 0 ([] @ d # ds0)" "diffs_separated ([] @ d # ds0)"
    using assms by (auto simp: diffs_ok_def)
  then obtain r where r: "join_left s t [d] ds0 = Inr r" "aligned s t 0 0 r" "diffs_separated r" "diff_cost r = diff_cost ds"
      "length r \<le> length ds" "r \<noteq> []"
    using join_left_ok [of s t "[]" d ds0] Cons by auto
  then show ?thesis
    using join_right_ok [of s t "[]" r] Cons by (auto simp: joinSequenceDiffs_def diffs_ok_def aligned_apply_all simp del: diff_cost_simps)
qed


theorem joinSequenceDiffs_correct_witness:
  "\<exists>ds'. joinSequenceDiffs (list_sequence [7, 1]) (list_sequence [7, 8, 7, 1, 8, 7, 1])
      [\<lparr>seq1Range = \<lparr>start = 1, endExclusive = 1\<rparr>, seq2Range = \<lparr>start = 1, endExclusive = 3\<rparr>\<rparr>,
       \<lparr>seq1Range = \<lparr>start = 2, endExclusive = 2\<rparr>, seq2Range = \<lparr>start = 4, endExclusive = 7\<rparr>\<rparr>] = Inr ds' \<and>
     length ds' = 1 \<and> diff_cost ds' = 5"
proof -
  let ?s = "list_sequence [7, 1]" and ?t = "list_sequence [7, 8, 7, 1, 8, 7, 1]"
  let ?ds = "[\<lparr>seq1Range = \<lparr>start = 1, endExclusive = 1\<rparr>, seq2Range = \<lparr>start = 1, endExclusive = 3\<rparr>\<rparr>,
    \<lparr>seq1Range = \<lparr>start = 2, endExclusive = 2\<rparr>, seq2Range = \<lparr>start = 4, endExclusive = 7\<rparr>\<rparr>] :: sequenceDiff list"
  have "diffs_ok ?s ?t ?ds"
    by code_simp
  then obtain ds' where ds': "joinSequenceDiffs ?s ?t ?ds = Inr ds'" "diff_cost ds' = diff_cost ?ds"
    using joinSequenceDiffs_correct by blast
  moreover have "map_sum id length (joinSequenceDiffs ?s ?t ?ds) = Inr 1"
    by code_simp
  ultimately show ?thesis
    by simp
qed

subsection \<open>Shifting\<close>

lemma deltaBefore_loop_spec:
  "d \<le> deltaBefore_loop diff t v1 v2 d \<and>
   (\<forall>i. d \<le> i \<and> i < deltaBefore_loop diff t v1 v2 d \<longrightarrow>
      start v1 \<le> start1 diff - i \<and> start v2 \<le> start2 diff - i \<and> isStronglyEqual t (start2 diff - i) (end2 diff - i))"
proof (induction diff t v1 v2 d rule: deltaBefore_loop.induct)
  case (1 diff t v1 v2 d)
  note step = deltaBefore_loop.simps [of diff t v1 v2 d]
  show ?case
  proof (cases "start1 diff - d \<ge> start v1 \<and> start2 diff - d \<ge> start v2 \<and> isStronglyEqual t (start2 diff - d) (end2 diff - d) \<and> d < maxShiftLimit")
    case True
    then have "deltaBefore_loop diff t v1 v2 d = deltaBefore_loop diff t v1 v2 (d + 1)"
      by (simp add: step)
    then show ?thesis
      using 1 [OF True] True by (smt (verit, best))
  next
    case False
    then have "deltaBefore_loop diff t v1 v2 d = d"
      by (subst step) (rule if_not_P)
    then show ?thesis by auto
  qed
qed

lemma deltaAfter_loop_spec:
  "d \<le> deltaAfter_loop diff t v1 v2 d \<and>
   (\<forall>i. d \<le> i \<and> i < deltaAfter_loop diff t v1 v2 d \<longrightarrow>
      start1 diff + i < endExclusive v1 \<and> end2 diff + i < endExclusive v2 \<and> isStronglyEqual t (start2 diff + i) (end2 diff + i))"
proof (induction diff t v1 v2 d rule: deltaAfter_loop.induct)
  case (1 diff t v1 v2 d)
  note step = deltaAfter_loop.simps [of diff t v1 v2 d]
  show ?case
  proof (cases "start1 diff + d < endExclusive v1 \<and> end2 diff + d < endExclusive v2 \<and> isStronglyEqual t (start2 diff + d) (end2 diff + d) \<and> d < maxShiftLimit")
    case True
    then have "deltaAfter_loop diff t v1 v2 d = deltaAfter_loop diff t v1 v2 (d + 1)"
      by (simp add: step)
    then show ?thesis
      using 1 [OF True] True by (smt (verit, best))
  next
    case False
    then have "deltaAfter_loop diff t v1 v2 d = d"
      by (subst step) (rule if_not_P)
    then show ?thesis by auto
  qed
qed

lemma bestDelta_loop_range:
  "bestDelta_loop f g diff after delta best score = best \<or>
   delta \<le> bestDelta_loop f g diff after delta best score \<and> bestDelta_loop f g diff after delta best score \<le> after"
proof (induction f g diff after delta best score rule: bestDelta_loop.induct)
  case (1 f g diff after delta best score)
  note step = bestDelta_loop.simps [of f g diff after delta best score]
  show ?case
  proof (cases "delta \<le> after")
    case True
    let ?score = "f (start1 diff + delta) + g (start2 diff + delta) + g (end2 diff + delta)"
    show ?thesis
      using "1.IH"(1) [OF True refl] "1.IH"(2) [OF True refl] True
      by (cases "score < ?score") (auto simp: step Let_def)
  next
    case False
    then show ?thesis by (simp add: step)
  qed
qed

text \<open>Where the next difference, or the end of the first and second sequence, begins.\<close>

definition next_start1 :: "iSequence \<Rightarrow> sequenceDiff list \<Rightarrow> int" where
  "next_start1 s ds = (case ds of [] \<Rightarrow> seq_length s | n # _ \<Rightarrow> start1 n)"

definition next_start2 :: "iSequence \<Rightarrow> sequenceDiff list \<Rightarrow> int" where
  "next_start2 t ds = (case ds of [] \<Rightarrow> seq_length t | n # _ \<Rightarrow> start2 n)"

lemma next_start_gap: "aligned s t a b (d # ds) \<Longrightarrow> next_start2 t ds - end2 d = next_start1 s ds - end1 d \<and> end1 d \<le> next_start1 s ds"
  by (cases ds) (auto simp: next_start1_def next_start2_def)

context isequence
begin

text \<open>An insertion into this sequence is moved by a number of places over which its elements repeat.\<close>

lemma shiftDiffToBetterPosition_ok:
  assumes al: "aligned s' s a b (diff # ds)" and empty: "start1 diff = end1 diff"
    and before: "a \<le> start v1 \<or> b \<le> start v2"
    and after: "endExclusive v1 \<le> next_start1 s' ds \<or> endExclusive v2 \<le> next_start2 s ds"
  shows "\<exists>k. shiftDiffToBetterPosition f g diff s v1 v2 = Inr (moved diff k) \<and> aligned s' s a b (moved diff k # ds) \<and>
    (0 < k \<longrightarrow> end1 diff + k \<le> endExclusive v1 \<and> end2 diff + k \<le> endExclusive v2)"
proof -
  define db where "db = deltaBefore_loop diff s v1 v2 1 - 1"
  define da where "da = deltaAfter_loop diff s v1 v2 0"
  define k where "k = (if db = 0 \<and> da = 0 then 0 else bestDelta_loop f g diff da (- db) 0 (- 1))"
  have db: "0 \<le> db" "\<And>i. 1 \<le> i \<Longrightarrow> i \<le> db \<Longrightarrow> start v1 \<le> start1 diff - i \<and> start v2 \<le> start2 diff - i \<and>
      getElement s (start2 diff - i) = getElement s (end2 diff - i)"
    using deltaBefore_loop_spec [of 1 diff s v1 v2] strongly_equal by (auto simp: db_def)
  have da: "0 \<le> da" "\<And>i. 0 \<le> i \<Longrightarrow> i < da \<Longrightarrow> start1 diff + i < endExclusive v1 \<and> end2 diff + i < endExclusive v2 \<and>
      getElement s (start2 diff + i) = getElement s (end2 diff + i)"
    using deltaAfter_loop_spec [of 0 diff s v1 v2] strongly_equal by (auto simp: da_def)
  have k: "- db \<le> k" "k \<le> da"
    using bestDelta_loop_range [of f g diff da "- db" 0 "- 1"] db(1) da(1) by (auto simp: k_def)
  have sizes: "start1 diff \<le> end1 diff" "start2 diff \<le> end2 diff"
    using al by auto
  have "shiftDiffToBetterPosition f g diff s v1 v2 = Inr (moved diff k)"
    using SequenceDiff_delta_moved [OF sizes]
    by (simp add: shiftDiffToBetterPosition_def Let_def db_def [symmetric] da_def [symmetric] k_def)
  moreover have "aligned s' s a b (moved diff k # ds)"
  proof (cases "0 \<le> k")
    case True
    have "k \<le> next_start1 s' ds - end1 diff"
      using da(2) [of "k - 1"] k(2) after next_start_gap [OF al] empty True by (cases "k = 0") auto
    then have "k \<le> (case ds of [] \<Rightarrow> seq_length s' - end1 diff | n # _ \<Rightarrow> start1 n - end1 diff)"
      by (simp add: next_start1_def split: list.splits)
    then show ?thesis
      using aligned_move_right [OF al True] da(2) k(2) empty by simp
  next
    case False
    have "- k \<le> start1 diff - a"
      using db(2) [of "- k"] k(1) before al False by auto
    then show ?thesis
      using aligned_move_left [OF al, of "- k"] db(2) k(1) empty False by simp
  qed
  moreover have "end1 diff + k \<le> endExclusive v1 \<and> end2 diff + k \<le> endExclusive v2" if "0 < k"
    using da(2) [of "k - 1"] k(2) empty that by auto
  ultimately show ?thesis by blast
qed

end


lemma reverse_fields [simp]:
  "start1 (SequenceDiff_reverse d) = start2 d" "end1 (SequenceDiff_reverse d) = end2 d"
  "start2 (SequenceDiff_reverse d) = start1 d" "end2 (SequenceDiff_reverse d) = end1 d"
  by (simp_all add: SequenceDiff_reverse_def)

lemma reverse_reverse [simp]: "SequenceDiff_reverse (moved (SequenceDiff_reverse d) k) = moved d k"
  by (rule sequenceDiff_eqI) simp_all

lemma aligned_reverse: "aligned s t a b ds \<Longrightarrow> aligned t s b a (map SequenceDiff_reverse ds)"
  by (induction ds arbitrary: a b) (auto simp: matches_iff)

lemma next_start_reverse [simp]:
  "next_start1 t (map SequenceDiff_reverse ds) = next_start2 t ds" "next_start2 s (map SequenceDiff_reverse ds) = next_start1 s ds"
  by (cases ds; simp add: next_start1_def next_start2_def)+

definition small_side :: "sequenceDiff \<Rightarrow> bool" where
  "small_side d \<longleftrightarrow> end1 d - start1 d \<le> 1 \<or> end2 d - start2 d \<le> 1"

lemma small_side_moved [simp]: "small_side (moved d k) = small_side d"
  by (simp add: small_side_def)

text \<open>
  The state of the loop: \<open>a\<close> and \<open>b\<close> are the ends of the previous difference, which leaves a gap to the next one unless that
  one replaces elements on both sides (and is not moved).
\<close>

fun previous_ok :: "sequenceDiff option \<Rightarrow> int \<Rightarrow> int \<Rightarrow> sequenceDiff list \<Rightarrow> bool" where
  "previous_ok None a b ds \<longleftrightarrow> a = 0 \<and> b = 0"
| "previous_ok (Some p) a b ds \<longleftrightarrow> a = end1 p \<and> b = end2 p \<and> start1 p \<le> end1 p \<and> start2 p \<le> end2 p \<and> small_side p \<and>
     (ds \<noteq> [] \<longrightarrow> a < start1 (hd ds) \<or> start1 (hd ds) < end1 (hd ds) \<and> start2 (hd ds) < end2 (hd ds))"

lemma shift_step_ok:
  assumes s: "isequence s" and t: "isequence t"
    and al: "aligned s t a b (diff # ds)" and sep: "diffs_separated (diff # ds)" and small: "\<forall>d \<in> set (diff # ds). small_side d"
    and prev: "previous_ok prev a b (diff # ds)"
  shows "\<exists>k. shift_step f g s t prev diff (case ds of [] \<Rightarrow> None | n # _ \<Rightarrow> Some n) = Inr (moved diff k) \<and>
    aligned s t a b (moved diff k # ds) \<and> previous_ok (Some (moved diff k)) (end1 diff + k) (end2 diff + k) ds"
proof -
  let ?n = "case ds of [] \<Rightarrow> None | n # _ \<Rightarrow> Some n"
  define v1 where "v1 = \<lparr>start = (case prev of Some p \<Rightarrow> start1 p + 1 | None \<Rightarrow> 0), endExclusive = (case ?n of Some n \<Rightarrow> end1 n - 1 | None \<Rightarrow> seq_length s)\<rparr>"
  define v2 where "v2 = \<lparr>start = (case prev of Some p \<Rightarrow> start2 p + 1 | None \<Rightarrow> 0), endExclusive = (case ?n of Some n \<Rightarrow> end2 n - 1 | None \<Rightarrow> seq_length t)\<rparr>"
  have le: "a \<le> start1 diff" "start2 diff - b = start1 diff - a" "start1 diff \<le> end1 diff" "start2 diff \<le> end2 diff"
    "end1 diff \<le> seq_length s" "end2 diff \<le> seq_length t"
    using al aligned_le [of s t "end1 diff" "end2 diff" ds] by auto
  have nxt: "end1 diff < start1 n \<and> end2 diff < start2 n \<and> start1 n \<le> end1 n \<and> start2 n \<le> end2 n" if "ds = n # ds'" for n ds'
    using al sep that by auto
  have valid: "start v1 \<le> endExclusive v1" "start v2 \<le> endExclusive v2"
    using le nxt prev by (cases prev; cases ds; force simp: v1_def v2_def)+
  have before: "a \<le> start v1 \<or> b \<le> start v2"
    using prev by (cases prev) (auto simp: v1_def v2_def small_side_def)
  have after: "endExclusive v1 \<le> next_start1 s ds \<or> endExclusive v2 \<le> next_start2 t ds"
    using small by (cases ds) (auto simp: v1_def v2_def small_side_def next_start1_def next_start2_def)
  have step: "shift_step f g s t prev diff ?n =
      (if OffsetRange_isEmpty (seq1Range diff) then shiftDiffToBetterPosition f g diff t v1 v2
       else if OffsetRange_isEmpty (seq2Range diff) then
         map_sum id SequenceDiff_reverse (shiftDiffToBetterPosition g f (SequenceDiff_reverse diff) s v2 v1)
       else Inr diff)"
    using valid by (simp add: shift_step_def new_OffsetRange_def v1_def v2_def)
  have "\<exists>k. shift_step f g s t prev diff ?n = Inr (moved diff k) \<and> aligned s t a b (moved diff k # ds) \<and>
      (0 < k \<longrightarrow> end1 diff + k \<le> endExclusive v1 \<and> end2 diff + k \<le> endExclusive v2)"
  proof -
    consider "start1 diff = end1 diff" | "start1 diff \<noteq> end1 diff" "start2 diff = end2 diff" | "start1 diff \<noteq> end1 diff" "start2 diff \<noteq> end2 diff"
      by blast
    then show ?thesis
    proof cases
      case 1
      then show ?thesis
        using isequence.shiftDiffToBetterPosition_ok [OF t al 1 before after, of f g] by (simp add: step OffsetRange_isEmpty_def)
    next
      case 2
      have "aligned t s b a (SequenceDiff_reverse diff # map SequenceDiff_reverse ds)"
        using aligned_reverse [OF al] by simp
      then obtain k where k: "shiftDiffToBetterPosition g f (SequenceDiff_reverse diff) s v2 v1 = Inr (moved (SequenceDiff_reverse diff) k)"
        "aligned t s b a (moved (SequenceDiff_reverse diff) k # map SequenceDiff_reverse ds)"
        "0 < k \<longrightarrow> end2 diff + k \<le> endExclusive v2 \<and> end1 diff + k \<le> endExclusive v1"
        using isequence.shiftDiffToBetterPosition_ok [OF s, of t b a "SequenceDiff_reverse diff" "map SequenceDiff_reverse ds" v2 v1 g f] 2 before after
        by auto
      have "map SequenceDiff_reverse (map SequenceDiff_reverse ds) = ds"
        using reverse_reverse [of _ 0] by (simp add: map_idI)
      then have "aligned s t a b (moved diff k # ds)"
        using aligned_reverse [OF k(2)] by simp
      then show ?thesis
        using k(1,3) 2 by (intro exI [of _ k]) (simp add: step OffsetRange_isEmpty_def)
    next
      case 3
      then show ?thesis
        using al by (intro exI [of _ 0]) (simp add: step OffsetRange_isEmpty_def)
    qed
  qed
  then obtain k where k: "shift_step f g s t prev diff ?n = Inr (moved diff k)" "aligned s t a b (moved diff k # ds)"
      "0 < k \<longrightarrow> end1 diff + k \<le> endExclusive v1 \<and> end2 diff + k \<le> endExclusive v2"
    by blast
  have "previous_ok (Some (moved diff k)) (end1 diff + k) (end2 diff + k) ds"
    using le small k nxt by (cases ds) (auto simp: v1_def v2_def)
  with k show ?thesis by blast
qed

lemma shift_loop_ok:
  assumes "isequence s" "isequence t" "aligned s t a b ds" "diffs_separated ds" "\<forall>d \<in> set ds. small_side d" "previous_ok prev a b ds"
  shows "\<exists>ds'. shift_loop f g s t prev ds = Inr ds' \<and> aligned s t a b ds' \<and> diff_cost ds' = diff_cost ds \<and> length ds' = length ds"
  using assms(3-)
proof (induction ds arbitrary: a b prev)
  case (Cons diff ds)
  obtain k where k: "shift_step f g s t prev diff (case ds of [] \<Rightarrow> None | n # _ \<Rightarrow> Some n) = Inr (moved diff k)"
      "aligned s t a b (moved diff k # ds)" "previous_ok (Some (moved diff k)) (end1 diff + k) (end2 diff + k) ds"
    using shift_step_ok [OF assms(1,2) Cons.prems, of f g] by blast
  then obtain ds' where "shift_loop f g s t (Some (moved diff k)) ds = Inr ds'" "aligned s t (end1 diff + k) (end2 diff + k) ds'"
      "diff_cost ds' = diff_cost ds" "length ds' = length ds"
    using Cons.IH [of "end1 diff + k" "end2 diff + k" "Some (moved diff k)"] Cons.prems by auto
  with k show ?case
    by simp
qed simp

lemma shiftSequenceDiffs_ok:
  assumes "isequence s" "isequence t" "diffs_ok s t ds" "\<forall>d \<in> set ds. small_side d"
  shows "\<exists>ds'. shiftSequenceDiffs s t ds = Inr ds' \<and> aligned s t 0 0 ds' \<and> apply_diffs s t 0 ds' = seq_elements t \<and>
    diff_cost ds' = diff_cost ds \<and> length ds' = length ds"
proof -
  have "\<exists>ds'. shift_loop f g s t None ds = Inr ds' \<and> aligned s t 0 0 ds' \<and> diff_cost ds' = diff_cost ds \<and> length ds' = length ds" for f g
    using shift_loop_ok [OF assms(1,2) _ _ assms(4), of 0 0 None f g] assms(3) by (simp add: diffs_ok_def)
  then have "\<exists>ds'. shiftSequenceDiffs s t ds = Inr ds' \<and> aligned s t 0 0 ds' \<and> diff_cost ds' = diff_cost ds \<and> length ds' = length ds"
    using assms(3) by (cases "getBoundaryScore s"; cases "getBoundaryScore t") (simp_all add: shiftSequenceDiffs_def diffs_ok_def)
  then show ?thesis
    using aligned_apply_all by blast
qed

subsection \<open>Smoothing\<close>

lemma SequenceDiff_join_spanning:
  assumes "start1 d \<le> end1 d" "end1 d \<le> start1 e" "start1 e \<le> end1 e" "start2 d \<le> end2 d" "end2 d \<le> start2 e" "start2 e \<le> end2 e"
  shows "new_SequenceDiff (OffsetRange_join (seq1Range d) (seq1Range e)) (OffsetRange_join (seq2Range d) (seq2Range e)) = Inr (spanning d e)"
  using assms by (simp add: new_SequenceDiff_def OffsetRange_join_def new_OffsetRange_def spanning_def)

abbreviation far_apart :: "sequenceDiff \<Rightarrow> sequenceDiff \<Rightarrow> bool" where
  "far_apart d e \<equiv> 2 < start1 e - end1 d \<and> 2 < start2 e - end2 d"

lemma smoothen_loop_ok:
  assumes "aligned s t 0 0 (xs @ ds)" "successively far_apart xs"
  shows "\<exists>r. smoothen_loop xs ds = Inr r \<and> aligned s t 0 0 r \<and> successively far_apart r \<and> length r \<le> length (xs @ ds)"
  using assms
proof (induction ds arbitrary: xs)
  case (Cons d ds)
  show ?case
  proof (cases xs rule: rev_cases)
    case Nil
    then show ?thesis
      using Cons.IH [of "[d]"] Cons.prems by simp
  next
    case (snoc ys l)
    have al: "aligned_prefix s t 0 0 (ys @ [l])" "aligned s t (end1 l) (end2 l) (d # ds)"
      using Cons.prems(1) snoc by (simp_all add: aligned_append)
    then have le: "start1 l \<le> end1 l" "end1 l \<le> start1 d" "start1 d \<le> end1 d" "start2 l \<le> end2 l" "end2 l \<le> start2 d" "start2 d \<le> end2 d"
      by (auto simp: aligned_prefix_append)
    show ?thesis
    proof (cases "far_apart l d")
      case True
      then have "successively far_apart (ys @ [l, d])"
        using Cons.prems(2) snoc by (simp add: successively_append_iff)
      then show ?thesis
        using Cons.IH [of "ys @ [l, d]"] Cons.prems(1) snoc True by auto
    next
      case False
      have "aligned s t 0 0 (ys @ spanning l d # ds)"
        using al by (auto simp: aligned_append aligned_prefix_append)
      moreover have "successively far_apart (ys @ [spanning l d])"
        using Cons.prems(2) snoc by (simp add: successively_append_iff)
      ultimately obtain r where "smoothen_loop (ys @ [spanning l d]) ds = Inr r" "aligned s t 0 0 r" "successively far_apart r"
          "length r \<le> length (ys @ spanning l d # ds)"
        using Cons.IH [of "ys @ [spanning l d]"] by auto
      then show ?thesis
        using snoc False SequenceDiff_join_spanning [OF le] by auto
    qed
  qed
qed simp

text \<open>
  \<open>smoothenSequenceDiffs\<close> never throws and keeps the sequences equal outside of the differences; afterwards more
  than two unchanged elements lie between two differences on both sides.
\<close>

theorem smoothenSequenceDiffs_correct:
  assumes "aligned s t 0 0 ds"
  shows "\<exists>r. smoothenSequenceDiffs s t ds = Inr r \<and> aligned s t 0 0 r \<and> apply_diffs s t 0 r = seq_elements t \<and>
    successively far_apart r \<and> length r \<le> length ds"
proof -
  obtain r where "smoothen_loop [] ds = Inr r" "aligned s t 0 0 r" "successively far_apart r" "length r \<le> length ds"
    using smoothen_loop_ok [of s t "[]" ds] assms by auto
  then show ?thesis
    using aligned_apply_all by (auto simp: smoothenSequenceDiffs_def)
qed


theorem smoothenSequenceDiffs_correct_witness:
  "\<exists>r. smoothenSequenceDiffs (list_sequence [1, 2, 3]) (list_sequence [1, 4, 3, 5])
      [\<lparr>seq1Range = \<lparr>start = 1, endExclusive = 2\<rparr>, seq2Range = \<lparr>start = 1, endExclusive = 2\<rparr>\<rparr>,
       \<lparr>seq1Range = \<lparr>start = 3, endExclusive = 3\<rparr>, seq2Range = \<lparr>start = 3, endExclusive = 4\<rparr>\<rparr>] = Inr r \<and>
     length r = 1 \<and> apply_diffs (list_sequence [1, 2, 3]) (list_sequence [1, 4, 3, 5]) 0 r = [Some 1, Some 4, Some 3, Some 5]"
proof -
  let ?s = "list_sequence [1, 2, 3]" and ?t = "list_sequence [1, 4, 3, 5]"
  let ?ds = "[\<lparr>seq1Range = \<lparr>start = 1, endExclusive = 2\<rparr>, seq2Range = \<lparr>start = 1, endExclusive = 2\<rparr>\<rparr>,
    \<lparr>seq1Range = \<lparr>start = 3, endExclusive = 3\<rparr>, seq2Range = \<lparr>start = 3, endExclusive = 4\<rparr>\<rparr>] :: sequenceDiff list"
  have "aligned ?s ?t 0 0 ?ds"
    by code_simp
  then obtain r where "smoothenSequenceDiffs ?s ?t ?ds = Inr r" "apply_diffs ?s ?t 0 r = seq_elements ?t"
    using smoothenSequenceDiffs_correct by blast
  moreover have "map_sum id length (smoothenSequenceDiffs ?s ?t ?ds) = Inr 1" "seq_elements ?t = [Some 1, Some 4, Some 3, Some 5]"
    by code_simp+
  ultimately show ?thesis
    by simp
qed

end
