(* ===== verification/Diff_Documents.thy ===== *)
theory Diff_Documents
  imports Diff_Optimize Core_Range
begin

text \<open>
  \<open>src/vs/editor/common/diff/advancedLinesDiffComputer.ts\<close>: the two implementations of a sequence, \<open>LineSequence\<close> over the
  lines of a document (compared by the hashes that \<open>computeDiff\<close> gives to their trimmed texts) and
  \<open>LinesSliceCharSequence\<close> over the characters of some of its lines, with the translation of its offsets to positions.
  A string is the list of its code units.
\<close>

type_synonym js_text = "int list"

section \<open>White space\<close>

definition js_whitespace :: "int \<Rightarrow> bool" where
  "js_whitespace c \<longleftrightarrow> c \<in> {9, 10, 11, 12, 13, 32, 160, 5760, 8232, 8233, 8239, 8287, 12288, 65279} \<or> 8192 \<le> c \<and> c \<le> 8202"

definition js_trimStart :: "js_text \<Rightarrow> js_text" where
  "js_trimStart s = dropWhile js_whitespace s"

definition js_trimEnd :: "js_text \<Rightarrow> js_text" where
  "js_trimEnd s = rev (dropWhile js_whitespace (rev s))"

definition js_trim :: "js_text \<Rightarrow> js_text" where
  "js_trim s = js_trimEnd (js_trimStart s)"

text \<open>The read \<open>xs[i]\<close>, \<open>undefined\<close> outside of the array.\<close>

definition js_at :: "'a list \<Rightarrow> int \<Rightarrow> 'a option" where
  "js_at xs i = (if 0 \<le> i \<and> i < int (length xs) then Some (xs ! nat i) else None)"

section \<open>Sequences of lines\<close>

definition getOrCreateHash :: "js_text \<Rightarrow> (js_text \<times> int) list \<Rightarrow> int \<times> (js_text \<times> int) list" where
  "getOrCreateHash text perfectHashes =
     (case map_of perfectHashes text of
        Some h \<Rightarrow> (h, perfectHashes)
      | None \<Rightarrow> (int (length perfectHashes), perfectHashes @ [(text, int (length perfectHashes))]))"

fun hash_lines :: "js_text list \<Rightarrow> (js_text \<times> int) list \<Rightarrow> int list \<times> (js_text \<times> int) list" where
  "hash_lines [] hs = ([], hs)"
| "hash_lines (l # ls) hs =
     (let (h, hs) = getOrCreateHash (js_trim l) hs; (rest, hs) = hash_lines ls hs in (h # rest, hs))"

definition getIndentation :: "js_text \<Rightarrow> int" where
  "getIndentation str = int (while_index (\<lambda>c. c = 32 \<or> c = 9) str 0)"

text \<open>The algorithms ask for the score of offsets from 0 to the length only; the other reads are \<open>undefined\<close> in the source.\<close>

definition line_indentation :: "js_text list \<Rightarrow> int \<Rightarrow> int" where
  "line_indentation ls i = (case js_at ls i of Some l \<Rightarrow> getIndentation l | None \<Rightarrow> 0)"

definition LineSequence_getBoundaryScore :: "js_text list \<Rightarrow> int \<Rightarrow> int" where
  "LineSequence_getBoundaryScore ls len =
     (let indentationBefore = (if len = 0 then 0 else line_indentation ls (len - 1));
          indentationAfter = (if len = int (length ls) then 0 else line_indentation ls len)
      in 1000 - (indentationBefore + indentationAfter))"

definition LineSequence :: "int list \<Rightarrow> js_text list \<Rightarrow> iSequence" where
  "LineSequence trimmedHash ls =
     \<lparr>seq_length = int (length trimmedHash), getElement = js_at trimmedHash,
      getBoundaryScore = Some (LineSequence_getBoundaryScore ls),
      isStronglyEqual = (\<lambda>offset1 offset2. js_at ls offset1 = js_at ls offset2)\<rparr>"

definition document_sequences :: "js_text list \<Rightarrow> js_text list \<Rightarrow> iSequence \<times> iSequence" where
  "document_sequences originalLines modifiedLines =
     (let (srcDocLines, hs) = hash_lines originalLines []; (tgtDocLines, hs) = hash_lines modifiedLines hs
      in (LineSequence srcDocLines originalLines, LineSequence tgtDocLines modifiedLines))"

section \<open>Sequences of characters\<close>

datatype charBoundaryCategory = WordLower | WordUpper | WordNumber | End | Other | Space | LineBreakCR | LineBreakLF

fun getCategoryBoundaryScore :: "charBoundaryCategory \<Rightarrow> int" where
  "getCategoryBoundaryScore WordLower = 0"
| "getCategoryBoundaryScore WordUpper = 0"
| "getCategoryBoundaryScore WordNumber = 0"
| "getCategoryBoundaryScore End = 10"
| "getCategoryBoundaryScore Other = 2"
| "getCategoryBoundaryScore Space = 3"
| "getCategoryBoundaryScore LineBreakCR = 10"
| "getCategoryBoundaryScore LineBreakLF = 10"

definition isSpace :: "int \<Rightarrow> bool" where
  "isSpace c \<longleftrightarrow> c = 32 \<or> c = 9"

definition getCategory :: "int \<Rightarrow> charBoundaryCategory" where
  "getCategory c =
     (if c = 10 then LineBreakLF else if c = 13 then LineBreakCR else if isSpace c then Space
      else if 97 \<le> c \<and> c \<le> 122 then WordLower else if 65 \<le> c \<and> c \<le> 90 then WordUpper
      else if 48 \<le> c \<and> c \<le> 57 then WordNumber else if c = - 1 then End else Other)"

definition isWordChar :: "int \<Rightarrow> bool" where
  "isWordChar c \<longleftrightarrow> 97 \<le> c \<and> c \<le> 122 \<or> 65 \<le> c \<and> c \<le> 90 \<or> 48 \<le> c \<and> c \<le> 57"

record linesSlice =
  sl_lineRange :: offsetRange
  sl_elements :: "int list"
  firstCharOffsetByLineMinusOne :: "int list"
  additionalOffsetByLine :: "int list"

text \<open>
  One turn of the loop of the constructor.  The offset of a line is assigned at the index of the line, which is the
  end of the array: all lines before it have one.
\<close>

definition slice_line :: "js_text list \<Rightarrow> bool \<Rightarrow> bool \<Rightarrow> int \<Rightarrow> js_text \<Rightarrow> linesSlice \<Rightarrow> linesSlice" where
  "slice_line ls considerWhitespaceChanges trimFirstLineFully i line sl =
     (let trimmedStartLine = js_trimStart line;
          offset = (if trimFirstLineFully then int (length line)
                    else if \<not> considerWhitespaceChanges then int (length line) - int (length trimmedStartLine) else 0);
          line = (if trimFirstLineFully then [] else if \<not> considerWhitespaceChanges then js_trimEnd trimmedStartLine else line);
          sl = sl\<lparr>additionalOffsetByLine := additionalOffsetByLine sl @ [offset], sl_elements := sl_elements sl @ line\<rparr>
      in if i < int (length ls) - 1 then
           let sl = sl\<lparr>sl_elements := sl_elements sl @ [10]\<rparr>
           in sl\<lparr>firstCharOffsetByLineMinusOne := firstCharOffsetByLineMinusOne sl @ [int (length (sl_elements sl))]\<rparr>
         else sl)"




definition LinesSliceCharSequence_getText :: "linesSlice \<Rightarrow> offsetRange \<Rightarrow> js_text" where
  "LinesSliceCharSequence_getText sl r = js_slice (sl_elements sl) (nat (start r)) (nat (endExclusive r))"

definition LinesSliceCharSequence_getBoundaryScore :: "linesSlice \<Rightarrow> int \<Rightarrow> int" where
  "LinesSliceCharSequence_getBoundaryScore sl len =
     (let prevCategory = getCategory (if 0 < len then case js_at (sl_elements sl) (len - 1) of Some c \<Rightarrow> c | None \<Rightarrow> - 2 else - 1);
          nextCategory = getCategory (if len < int (length (sl_elements sl)) then case js_at (sl_elements sl) len of Some c \<Rightarrow> c | None \<Rightarrow> - 2 else - 1)
      in if prevCategory = LineBreakCR \<and> nextCategory = LineBreakLF then 0
         else (if prevCategory \<noteq> nextCategory then 10 + (if nextCategory = WordUpper then 1 else 0) else 0) +
              getCategoryBoundaryScore prevCategory + getCategoryBoundaryScore nextCategory)"

definition slice_sequence :: "linesSlice \<Rightarrow> iSequence" where
  "slice_sequence sl =
     \<lparr>seq_length = int (length (sl_elements sl)), getElement = js_at (sl_elements sl),
      getBoundaryScore = Some (LinesSliceCharSequence_getBoundaryScore sl),
      isStronglyEqual = (\<lambda>offset1 offset2. js_at (sl_elements sl) offset1 = js_at (sl_elements sl) offset2)\<rparr>"

function translateOffset_loop :: "int list \<Rightarrow> int \<Rightarrow> nat \<Rightarrow> nat \<Rightarrow> nat" where
  "translateOffset_loop xs offset i j =
     (if i < j then
        let k = (i + j) div 2 in
        if xs ! k > offset then translateOffset_loop xs offset i k else translateOffset_loop xs offset (k + 1) j
      else i)"
  by pat_completeness auto
termination
  by (relation "measure (\<lambda>(xs, offset, i, j). j - i)") (auto simp: Let_def)

declare translateOffset_loop.simps [simp del]

definition LinesSliceCharSequence_translateOffset :: "linesSlice \<Rightarrow> int \<Rightarrow> position" where
  "LinesSliceCharSequence_translateOffset sl offset =
     (if OffsetRange_isEmpty (sl_lineRange sl) then mk_position (start (sl_lineRange sl) + 1) 1
      else let i = translateOffset_loop (firstCharOffsetByLineMinusOne sl) offset 0 (length (firstCharOffsetByLineMinusOne sl));
               offsetOfFirstCharInLine = (if i = 0 then 0 else firstCharOffsetByLineMinusOne sl ! (i - 1))
           in mk_position (start (sl_lineRange sl) + int i + 1) (offset - offsetOfFirstCharInLine + 1 + additionalOffsetByLine sl ! i))"

definition LinesSliceCharSequence_translateRange :: "linesSlice \<Rightarrow> offsetRange \<Rightarrow> range" where
  "LinesSliceCharSequence_translateRange sl r =
     Range_fromPositions (LinesSliceCharSequence_translateOffset sl (start r)) (LinesSliceCharSequence_translateOffset sl (endExclusive r))"

definition LinesSliceCharSequence_countLinesIn :: "linesSlice \<Rightarrow> offsetRange \<Rightarrow> int" where
  "LinesSliceCharSequence_countLinesIn sl r =
     lineNumber (LinesSliceCharSequence_translateOffset sl (endExclusive r)) - lineNumber (LinesSliceCharSequence_translateOffset sl (start r))"

fun word_start_loop :: "int list \<Rightarrow> nat \<Rightarrow> nat" where
  "word_start_loop xs 0 = 0"
| "word_start_loop xs (Suc i) = (if isWordChar (xs ! i) then word_start_loop xs i else Suc i)"

definition LinesSliceCharSequence_findWordContaining :: "linesSlice \<Rightarrow> int \<Rightarrow> js_error + offsetRange option" where
  "LinesSliceCharSequence_findWordContaining sl offset =
     (case js_at (sl_elements sl) offset of
        None \<Rightarrow> Inr None
      | Some c \<Rightarrow>
          if \<not> isWordChar c then Inr None
          else map_sum id Some (new_OffsetRange (int (word_start_loop (sl_elements sl) (nat offset)))
                 (int (while_index isWordChar (sl_elements sl) (nat offset)))))"

function findLastIdxMonotonous :: "('a \<Rightarrow> bool) \<Rightarrow> 'a list \<Rightarrow> nat \<Rightarrow> nat \<Rightarrow> int" where
  "findLastIdxMonotonous predicate arr i j =
     (if i < j then
        let k = (i + j) div 2 in
        if predicate (arr ! k) then findLastIdxMonotonous predicate arr (k + 1) j else findLastIdxMonotonous predicate arr i k
      else int i - 1)"
  by pat_completeness auto
termination
  by (relation "measure (\<lambda>(p, arr, i, j). j - i)") (auto simp: Let_def)

function findFirstIdxMonotonous :: "('a \<Rightarrow> bool) \<Rightarrow> 'a list \<Rightarrow> nat \<Rightarrow> nat \<Rightarrow> int" where
  "findFirstIdxMonotonous predicate arr i j =
     (if i < j then
        let k = (i + j) div 2 in
        if predicate (arr ! k) then findFirstIdxMonotonous predicate arr i k else findFirstIdxMonotonous predicate arr (k + 1) j
      else int i)"
  by pat_completeness auto
termination
  by (relation "measure (\<lambda>(p, arr, i, j). j - i)") (auto simp: Let_def)

declare findLastIdxMonotonous.simps [simp del] findFirstIdxMonotonous.simps [simp del]

definition LinesSliceCharSequence_extendToFullLines :: "linesSlice \<Rightarrow> offsetRange \<Rightarrow> js_error + offsetRange" where
  "LinesSliceCharSequence_extendToFullLines sl r =
     (let xs = firstCharOffsetByLineMinusOne sl;
          firstIdx = findLastIdxMonotonous (\<lambda>x. x \<le> start r) xs 0 (length xs);
          lastIdx = findFirstIdxMonotonous (\<lambda>x. endExclusive r \<le> x) xs 0 (length xs);
          s = (if firstIdx = - 1 then 0 else xs ! nat firstIdx);
          e = (if lastIdx = int (length xs) then int (length (sl_elements sl)) else xs ! nat lastIdx)
      in new_OffsetRange s e)"


section \<open>Both are sequences\<close>

lemma js_at_inside [simp]: "0 \<le> i \<Longrightarrow> i < int (length xs) \<Longrightarrow> js_at xs i = Some (xs ! nat i)"
  by (simp add: js_at_def)

lemma js_at_outside [simp]: "i < 0 \<or> int (length xs) \<le> i \<Longrightarrow> js_at xs i = None"
  by (auto simp: js_at_def)

interpretation slice: isequence "slice_sequence sl" for sl
  by unfold_locales (auto simp: slice_sequence_def)

text \<open>The table of hashes is a bijection from the texts seen so far to the numbers below its size.\<close>

definition hashes_ok :: "(js_text \<times> int) list \<Rightarrow> bool" where
  "hashes_ok hs \<longleftrightarrow> distinct (map fst hs) \<and> map snd hs = map int [0..<length hs]"

lemma map_of_append_keep: "map_of hs x = Some h \<Longrightarrow> map_of (hs @ ys) x = Some h"
  by (simp add: map_add_def)

lemma getOrCreateHash_spec:
  assumes "hashes_ok hs" "getOrCreateHash x hs = (h, hs')"
  shows "hashes_ok hs' \<and> (\<exists>ys. hs' = hs @ ys) \<and> map_of hs' x = Some h"
proof (cases "map_of hs x")
  case None
  then have "x \<notin> fst ` set hs"
    by (simp add: map_of_eq_None_iff)
  then show ?thesis
    using assms None by (auto simp: getOrCreateHash_def hashes_ok_def map_add_def)
next
  case (Some a)
  then show ?thesis
    using assms by (auto simp: getOrCreateHash_def)
qed

lemma hash_lines_spec:
  assumes "hashes_ok hs" "hash_lines ls hs = (ns, hs')"
  shows "hashes_ok hs' \<and> (\<exists>ys. hs' = hs @ ys) \<and> map (\<lambda>l. map_of hs' (js_trim l)) ls = map Some ns"
  using assms
proof (induction ls arbitrary: hs ns)
  case (Cons l ls)
  obtain h hs1 where h: "getOrCreateHash (js_trim l) hs = (h, hs1)" by fastforce
  obtain rest where rest: "hash_lines ls hs1 = (rest, hs')" "ns = h # rest"
    using Cons.prems(2) h by (auto split: prod.splits)
  have hs1: "hashes_ok hs1" "\<exists>ys. hs1 = hs @ ys" "map_of hs1 (js_trim l) = Some h"
    using getOrCreateHash_spec [OF Cons.prems(1) h] by auto
  then obtain ys where ys: "hs' = hs1 @ ys" "hashes_ok hs'" "map (\<lambda>l. map_of hs' (js_trim l)) ls = map Some rest"
    using Cons.IH [OF hs1(1) rest(1)] by auto
  then show ?case
    using hs1 rest(2) map_of_append_keep [OF hs1(3), of ys] by auto
qed simp

lemma hashes_ok_inj:
  assumes "hashes_ok hs" "map_of hs x = Some h" "map_of hs y = Some h"
  shows "x = y"
proof -
  have "(x, h) \<in> set hs" "(y, h) \<in> set hs"
    using assms(2,3) by (auto dest: map_of_SomeD)
  moreover have "inj_on snd (set hs)"
    using assms(1) by (metis distinct_map distinct_upt hashes_ok_def inj_on_of_nat)
  ultimately show ?thesis
    by (metis inj_onD prod.inject snd_conv)
qed

definition hash_table :: "js_text list \<Rightarrow> js_text list \<Rightarrow> (js_text \<times> int) list" where
  "hash_table os ms = snd (hash_lines ms (snd (hash_lines os [])))"

lemma document_hashes:
  "hashes_ok (hash_table os ms) \<and>
   map (\<lambda>l. map_of (hash_table os ms) (js_trim l)) os = map Some (fst (hash_lines os [])) \<and>
   map (\<lambda>l. map_of (hash_table os ms) (js_trim l)) ms = map Some (fst (hash_lines ms (snd (hash_lines os []))))"
proof -
  obtain ns hs where ns: "hash_lines os [] = (ns, hs)" by fastforce
  obtain ns' hs' where ns': "hash_lines ms hs = (ns', hs')" by fastforce
  have hs: "hashes_ok hs" "map (\<lambda>l. map_of hs (js_trim l)) os = map Some ns"
    using hash_lines_spec [OF _ ns] by (simp_all add: hashes_ok_def)
  then obtain ys where ys: "hashes_ok hs'" "hs' = hs @ ys" "map (\<lambda>l. map_of hs' (js_trim l)) ms = map Some ns'"
    using hash_lines_spec [OF _ ns'] by blast
  have "map_of hs' (js_trim l) = map_of hs (js_trim l)" if "l \<in> set os" for l
  proof -
    have "map_of hs (js_trim l) \<in> set (map Some ns)"
      using hs(2) that by (metis (no_types, lifting) image_eqI list.set_map)
    then show ?thesis
      using map_of_append_keep ys(2) by fastforce
  qed
  then show ?thesis
    using hs ys ns ns' by (simp add: hash_table_def cong: map_cong)
qed

lemma document_sequences_eq:
  "document_sequences os ms = (LineSequence (fst (hash_lines os [])) os, LineSequence (fst (hash_lines ms (snd (hash_lines os [])))) ms)"
  by (simp add: document_sequences_def case_prod_unfold Let_def)

lemma LineSequence_isequence:
  assumes "map (\<lambda>l. map_of hs (js_trim l)) ls = map Some ns"
  shows "isequence (LineSequence ns ls)"
proof
  have len: "length ns = length ls"
    using assms by (metis length_map)
  have nth: "Some (ns ! k) = map_of hs (js_trim (ls ! k))" if "k < length ls" for k
    using assms that len by (metis nth_map)
  show "getElement (LineSequence ns ls) i = getElement (LineSequence ns ls) j" if "isStronglyEqual (LineSequence ns ls) i j" for i j
  proof (cases "0 \<le> i \<and> i < int (length ls)")
    case True
    then have "0 \<le> j \<and> j < int (length ls)" "ls ! nat i = ls ! nat j"
      using that by (auto simp: LineSequence_def js_at_def split: if_splits)
    moreover from this have "nat i < length ls" "nat j < length ls"
      using True by auto
    ultimately have "ns ! nat i = ns ! nat j"
      using nth by (metis option.inject)
    then show ?thesis
      using True \<open>0 \<le> j \<and> j < int (length ls)\<close> len by (simp add: LineSequence_def)
  next
    case False
    then have "\<not> (0 \<le> j \<and> j < int (length ls))"
      using that by (auto simp: LineSequence_def js_at_def split: if_splits)
    then show ?thesis
      using False len by (auto simp: LineSequence_def js_at_def)
  qed
qed (auto simp: LineSequence_def)

interpretation original: isequence "fst (document_sequences os ms)" for os ms
  using document_hashes [of os ms] by (auto simp: document_sequences_eq intro: LineSequence_isequence)

interpretation modified: isequence "snd (document_sequences os ms)" for os ms
  using document_hashes [of os ms] by (auto simp: document_sequences_eq intro: LineSequence_isequence)

text \<open>
  C17. The hashes that \<open>computeDiff\<close> gives to the lines of the two documents are perfect: two lines have
  the same element exactly when their texts are equal up to leading and trailing white space.
\<close>

theorem document_sequences_perfect:
  "seq_length (fst (document_sequences os ms)) = int (length os) \<and> seq_length (snd (document_sequences os ms)) = int (length ms) \<and>
   (\<forall>i < length os. \<forall>j < length ms.
      getElement (fst (document_sequences os ms)) (int i) = getElement (snd (document_sequences os ms)) (int j) \<longleftrightarrow>
      js_trim (os ! i) = js_trim (ms ! j))"
proof -
  let ?hs = "hash_table os ms" and ?ns = "fst (hash_lines os [])" and ?ns' = "fst (hash_lines ms (snd (hash_lines os [])))"
  have hs: "hashes_ok ?hs" "map (\<lambda>l. map_of ?hs (js_trim l)) os = map Some ?ns" "map (\<lambda>l. map_of ?hs (js_trim l)) ms = map Some ?ns'"
    using document_hashes by auto
  have len: "length ?ns = length os" "length ?ns' = length ms"
    using hs(2,3) by (metis length_map)+
  have "?ns ! i = ?ns' ! j \<longleftrightarrow> js_trim (os ! i) = js_trim (ms ! j)" if "i < length os" "j < length ms" for i j
  proof -
    have "map_of ?hs (js_trim (os ! i)) = Some (?ns ! i)" "map_of ?hs (js_trim (ms ! j)) = Some (?ns' ! j)"
      using hs(2,3) that len by (metis nth_map)+
    then show ?thesis
      using hashes_ok_inj [OF hs(1)] by (metis option.inject)
  qed
  then show ?thesis
    using len by (simp add: document_sequences_eq LineSequence_def)
qed


theorem document_sequences_perfect_witness:
  "getElement (fst (document_sequences [[97, 98], [32, 99]] [[99], [98]])) 1 = getElement (snd (document_sequences [[97, 98], [32, 99]] [[99], [98]])) 0 \<and>
   getElement (fst (document_sequences [[97, 98], [32, 99]] [[99], [98]])) 0 \<noteq> getElement (snd (document_sequences [[97, 98], [32, 99]] [[99], [98]])) 1"
proof -
  have "js_trim [32, 99] = js_trim [99]" "js_trim [97, 98] \<noteq> js_trim [98]"
    by code_simp+
  then show ?thesis
    using document_sequences_perfect [of "[[97, 98], [32, 99]]" "[[99], [98]]"] by (auto simp: less_Suc_eq dest: spec [of _ 1] spec [of _ 0])
qed

text \<open>
  C16. On the characters of two slices and on the lines of two documents \<open>shiftSequenceDiffs\<close> never throws and keeps the
  sequences equal outside of the differences, so that the differences still give the second sequence, as long as every difference
  has a side of at most one element (no difference replaces several elements by several); it changes
  neither the number of differences nor their sizes.
\<close>

theorem shiftSequenceDiffs_correct:
  assumes "(s, t) = (slice_sequence a, slice_sequence b) \<or> (s, t) = document_sequences os ms"
    and "diffs_ok s t ds" "\<forall>d \<in> set ds. small_side d"
  shows "\<exists>ds'. shiftSequenceDiffs s t ds = Inr ds' \<and> aligned s t 0 0 ds' \<and> apply_diffs s t 0 ds' = seq_elements t \<and>
    diff_cost ds' = diff_cost ds \<and> length ds' = length ds"
proof -
  have "isequence s" "isequence t"
    using assms(1) slice.isequence_axioms original.isequence_axioms [of os ms] modified.isequence_axioms [of os ms]
    by (auto dest: arg_cong [where f = fst] arg_cong [where f = snd])
  then show ?thesis
    using assms(2,3) by (rule shiftSequenceDiffs_ok)
qed

definition sample_slice :: "int list \<Rightarrow> linesSlice" where
  "sample_slice cs = \<lparr>sl_lineRange = \<lparr>start = 0, endExclusive = 1\<rparr>, sl_elements = cs, firstCharOffsetByLineMinusOne = [], additionalOffsetByLine = [0, 0]\<rparr>"

theorem shiftSequenceDiffs_correct_witness:
  "\<exists>ds'. shiftSequenceDiffs (slice_sequence (sample_slice [97, 98, 32, 99])) (slice_sequence (sample_slice [97, 98, 32, 98, 32, 99]))
      [\<lparr>seq1Range = \<lparr>start = 1, endExclusive = 1\<rparr>, seq2Range = \<lparr>start = 1, endExclusive = 3\<rparr>\<rparr>] = Inr ds' \<and>
     map start1 ds' = [2] \<and>
     apply_diffs (slice_sequence (sample_slice [97, 98, 32, 99])) (slice_sequence (sample_slice [97, 98, 32, 98, 32, 99])) 0 ds' =
       map Some [97, 98, 32, 98, 32, 99]"
proof -
  let ?s = "slice_sequence (sample_slice [97, 98, 32, 99])" and ?t = "slice_sequence (sample_slice [97, 98, 32, 98, 32, 99])"
  let ?ds = "[\<lparr>seq1Range = \<lparr>start = 1, endExclusive = 1\<rparr>, seq2Range = \<lparr>start = 1, endExclusive = 3\<rparr>\<rparr>] :: sequenceDiff list"
  have "diffs_ok ?s ?t ?ds"
    by code_simp
  moreover have "\<forall>d \<in> set ?ds. small_side d"
    by (simp add: small_side_def)
  ultimately obtain ds' where ds': "shiftSequenceDiffs ?s ?t ?ds = Inr ds'" "apply_diffs ?s ?t 0 ds' = seq_elements ?t"
    using shiftSequenceDiffs_correct [of ?s ?t _ _ "[]" "[]" ?ds] by auto
  moreover have "map_sum id (map start1) (shiftSequenceDiffs ?s ?t ?ds) = Inr [2]" "seq_elements ?t = map Some [97, 98, 32, 98, 32, 99]"
    by code_simp+
  ultimately show ?thesis
    by simp
qed

section \<open>Positions of offsets\<close>














lemma slice_line_range [simp]: "sl_lineRange (slice_line ls ws trim i l sl) = sl_lineRange sl"
  by (simp add: slice_line_def Let_def)








end
