(* ===== verification/Diff_Distance.thy ===== *)
theory Diff_Distance
  imports Diff_Sequence
begin

text \<open>
  The specification of a shortest diff: \<open>edit_dist s t a b\<close> is the least number of deletions and insertions that turn
  the rest of \<open>s\<close> from offset \<open>a\<close> into the rest of \<open>t\<close> from offset \<open>b\<close>.  Every correct list of differences
  changes at least that many elements.
\<close>

function edit_dist :: "iSequence \<Rightarrow> iSequence \<Rightarrow> int \<Rightarrow> int \<Rightarrow> int" where
  "edit_dist s t a b =
     (if seq_length s \<le> a then seq_length t - b
      else if seq_length t \<le> b then seq_length s - a
      else if getElement s a = getElement t b then edit_dist s t (a + 1) (b + 1)
      else 1 + min (edit_dist s t (a + 1) b) (edit_dist s t a (b + 1)))"
  by pat_completeness auto
termination
  by (relation "measure (\<lambda>(s, t, a, b). nat (seq_length s - a) + nat (seq_length t - b))") auto

declare edit_dist.simps [simp del]

lemma edit_dist_end1: "edit_dist s t (seq_length s) b = seq_length t - b"
  by (simp add: edit_dist.simps)

lemma edit_dist_end2: "a \<le> seq_length s \<Longrightarrow> edit_dist s t a (seq_length t) = seq_length s - a"
  by (auto simp: edit_dist.simps)

lemma edit_dist_equal:
  "a < seq_length s \<Longrightarrow> b < seq_length t \<Longrightarrow> getElement s a = getElement t b \<Longrightarrow> edit_dist s t a b = edit_dist s t (a + 1) (b + 1)"
  by (simp add: edit_dist.simps [of s t a b])

lemma edit_dist_different:
  "a < seq_length s \<Longrightarrow> b < seq_length t \<Longrightarrow> getElement s a \<noteq> getElement t b \<Longrightarrow>
   edit_dist s t a b = 1 + min (edit_dist s t (a + 1) b) (edit_dist s t a (b + 1))"
  by (simp add: edit_dist.simps [of s t a b])

text \<open>One step to the right or down changes the distance by at most one, and a diagonal step never increases it.\<close>

definition step_bounds :: "iSequence \<Rightarrow> iSequence \<Rightarrow> int \<Rightarrow> int \<Rightarrow> bool" where
  "step_bounds s t a b \<longleftrightarrow>
     (a < seq_length s \<longrightarrow> edit_dist s t a b \<le> 1 + edit_dist s t (a + 1) b \<and> edit_dist s t (a + 1) b \<le> 1 + edit_dist s t a b) \<and>
     (b < seq_length t \<longrightarrow> edit_dist s t a b \<le> 1 + edit_dist s t a (b + 1) \<and> edit_dist s t a (b + 1) \<le> 1 + edit_dist s t a b) \<and>
     (a < seq_length s \<and> b < seq_length t \<longrightarrow> edit_dist s t (a + 1) (b + 1) \<le> edit_dist s t a b)"

lemma edit_dist_steps: "a \<le> seq_length s \<Longrightarrow> b \<le> seq_length t \<Longrightarrow> step_bounds s t a b"
proof (induction "nat (seq_length s - a) + nat (seq_length t - b)" arbitrary: a b rule: less_induct)
  case less
  consider "a = seq_length s" | "b = seq_length t" "a < seq_length s" | "a < seq_length s" "b < seq_length t"
    using less.prems by fastforce
  then show ?case
  proof cases
    case 1
    then show ?thesis using less.prems by (simp add: step_bounds_def edit_dist_end1)
  next
    case 2
    then show ?thesis by (simp add: step_bounds_def edit_dist_end2)
  next
    case 3
    have "step_bounds s t (a + 1) b" "step_bounds s t a (b + 1)"
      using 3 by (auto intro!: less.hyps)
    then have f: "edit_dist s t (a + 1) b \<le> 1 + edit_dist s t (a + 1) (b + 1)" "edit_dist s t (a + 1) (b + 1) \<le> 1 + edit_dist s t (a + 1) b"
      "edit_dist s t a (b + 1) \<le> 1 + edit_dist s t (a + 1) (b + 1)" "edit_dist s t (a + 1) (b + 1) \<le> 1 + edit_dist s t a (b + 1)"
      using 3 unfolding step_bounds_def by auto
    show ?thesis
    proof (cases "getElement s a = getElement t b")
      case True
      then show ?thesis
        using f edit_dist_equal [OF 3 True] by (simp add: step_bounds_def)
    next
      case False
      then show ?thesis
        using f edit_dist_different [OF 3 False] by (simp add: step_bounds_def min_def)
    qed
  qed
qed

lemma edit_dist_step1:
  assumes "a < seq_length s" "b \<le> seq_length t"
  shows "edit_dist s t a b \<le> 1 + edit_dist s t (a + 1) b"
  using edit_dist_steps [of a s b t] assms by (simp add: step_bounds_def)

lemma edit_dist_step2:
  assumes "a \<le> seq_length s" "b < seq_length t"
  shows "edit_dist s t a b \<le> 1 + edit_dist s t a (b + 1)"
  using edit_dist_steps [of a s b t] assms by (simp add: step_bounds_def)

lemma edit_dist_down_right:
  assumes "0 \<le> i" "0 \<le> j" "a + i \<le> seq_length s" "b + j \<le> seq_length t"
  shows "edit_dist s t a b \<le> i + j + edit_dist s t (a + i) (b + j)"
proof -
  have "edit_dist s t a b \<le> i + edit_dist s t (a + i) b" if "b \<le> seq_length t"
    using assms(1,3) that
  proof (induction i rule: int_ge_induct)
    case (step i)
    then show ?case using edit_dist_step1 [of "a + i" s b t] by (simp add: add.assoc)
  qed simp
  moreover have "edit_dist s t (a + i) b \<le> j + edit_dist s t (a + i) (b + j)"
    using assms(2,4)
  proof (induction j rule: int_ge_induct)
    case (step j)
    then show ?case using edit_dist_step2 [of "a + i" s "b + j" t] assms(3) by (simp add: add.assoc)
  qed simp
  ultimately show ?thesis
    using assms by simp
qed

text \<open>Further along a diagonal the distance is not greater.\<close>

lemma edit_dist_diagonal:
  assumes "0 \<le> i" "a + i \<le> seq_length s" "b + i \<le> seq_length t"
  shows "edit_dist s t (a + i) (b + i) \<le> edit_dist s t a b"
  using assms
proof (induction i rule: int_ge_induct)
  case (step i)
  then show ?case using edit_dist_steps [of "a + i" s "b + i" t] by (simp add: step_bounds_def add.assoc)
qed simp

lemma edit_dist_matches:
  assumes "0 \<le> n" "matches s t a b n" "a + n \<le> seq_length s" "b + n \<le> seq_length t"
  shows "edit_dist s t a b = edit_dist s t (a + n) (b + n)"
  using assms
proof (induction n rule: int_ge_induct)
  case (step i)
  have "matches s t a b i" "getElement s (a + i) = getElement t (b + i)"
    using step.prems step.hyps by (auto simp: matches_iff)
  then show ?case
    using step edit_dist_equal [of "a + i" s "b + i" t] by (simp add: add.assoc)
qed simp

lemma edit_dist_ge: "a \<le> seq_length s \<Longrightarrow> b \<le> seq_length t \<Longrightarrow> \<bar>(seq_length s - a) - (seq_length t - b)\<bar> \<le> edit_dist s t a b"
proof (induction s t a b rule: edit_dist.induct)
  case (1 s t a b)
  then show ?case
    by (subst edit_dist.simps) (auto simp: min_def abs_if split: if_splits)
qed

text \<open>Every list of differences that is correct has at least the cost of the distance.\<close>

lemma aligned_cost: "aligned s t a b ds \<Longrightarrow> edit_dist s t a b \<le> diff_cost ds"
proof (induction ds arbitrary: a b)
  case Nil
  moreover from this have "b + (seq_length s - a) = seq_length t"
    by simp
  ultimately have "edit_dist s t a b = edit_dist s t (seq_length s) (seq_length t)"
    using edit_dist_matches [of "seq_length s - a" s t a b] by simp
  then show ?case
    by (simp add: edit_dist_end1 diff_cost_def)
next
  case (Cons d ds)
  have al: "aligned s t (end1 d) (end2 d) ds" and le: "end1 d \<le> seq_length s" "end2 d \<le> seq_length t"
    using Cons.prems aligned_le [of s t "end1 d" "end2 d" ds] by auto
  have "b + (start1 d - a) = start2 d"
    using Cons.prems by simp
  then have "edit_dist s t a b = edit_dist s t (start1 d) (start2 d)"
    using edit_dist_matches [of "start1 d - a" s t a b] Cons.prems le by simp
  also have "\<dots> \<le> (end1 d - start1 d) + (end2 d - start2 d) + edit_dist s t (end1 d) (end2 d)"
    using edit_dist_down_right [of "end1 d - start1 d" "end2 d - start2 d" "start1 d" s "start2 d" t] Cons.prems le by simp
  finally show ?case
    using Cons.IH [OF al] by (simp add: diff_cost_def OffsetRange_length_def)
qed

end
