(* ===== verification/Diff_Myers.thy ===== *)
theory Diff_Myers
  imports Js_Number Diff_Distance
begin

text \<open>
  \<open>src/vs/editor/common/diff/algorithms/myersDiffAlgorithm.ts\<close>: the greedy diff algorithm.  The loop over the
  number of edits has no bound in the source, so it is a partial function; that it returns is proved.  Its arrays are modelled with
  their lengths: a read behind the end gives \<open>undefined\<close>, a write behind the end of a
  typed array is lost, and a number that is not one is stored as 0.
\<close>

section \<open>Arrays with negative indices\<close>

record fastInt32Array =
  fi_positiveArr :: "int list"
  fi_negativeArr :: "int list"

definition new_FastInt32Array :: fastInt32Array where
  "new_FastInt32Array = \<lparr>fi_positiveArr = replicate 10 0, fi_negativeArr = replicate 10 0\<rparr>"

definition typed_get :: "int list \<Rightarrow> nat \<Rightarrow> int js_number" where
  "typed_get xs i = (if i < length xs then Some (xs ! i) else None)"

definition typed_set :: "int list \<Rightarrow> nat \<Rightarrow> int js_number \<Rightarrow> int list" where
  "typed_set xs i v =
     (let xs = (if length xs \<le> i then xs @ replicate (length xs) 0 else xs)
      in xs[i := (case v of Some x \<Rightarrow> toInt32 x | None \<Rightarrow> 0)])"

definition FastInt32Array_get :: "fastInt32Array \<Rightarrow> int \<Rightarrow> int js_number" where
  "FastInt32Array_get a idx = (if idx < 0 then typed_get (fi_negativeArr a) (nat (- idx - 1)) else typed_get (fi_positiveArr a) (nat idx))"

definition FastInt32Array_set :: "int \<Rightarrow> int js_number \<Rightarrow> fastInt32Array \<Rightarrow> fastInt32Array" where
  "FastInt32Array_set idx v a =
     (if idx < 0 then a\<lparr>fi_negativeArr := typed_set (fi_negativeArr a) (nat (- idx - 1)) v\<rparr>
      else a\<lparr>fi_positiveArr := typed_set (fi_positiveArr a) (nat idx) v\<rparr>)"

datatype snakePath = SnakePath (sp_prev: "snakePath option") (sp_x: "int js_number") (sp_y: "int js_number") (sp_length: "int js_number")

text \<open>The array of paths; \<open>null\<close> and \<open>undefined\<close> are both \<open>None\<close>, and a write behind the end extends the array.\<close>

record fastPathArray =
  fp_positiveArr :: "snakePath option list"
  fp_negativeArr :: "snakePath option list"

definition new_FastArrayNegativeIndices :: fastPathArray where
  "new_FastArrayNegativeIndices = \<lparr>fp_positiveArr = [], fp_negativeArr = []\<rparr>"

definition sparse_get :: "'a option list \<Rightarrow> nat \<Rightarrow> 'a option" where
  "sparse_get xs i = (if i < length xs then xs ! i else None)"

definition sparse_set :: "'a option list \<Rightarrow> nat \<Rightarrow> 'a option \<Rightarrow> 'a option list" where
  "sparse_set xs i v = (if i < length xs then xs[i := v] else xs @ replicate (i - length xs) None @ [v])"

definition FastArrayNegativeIndices_get :: "fastPathArray \<Rightarrow> int \<Rightarrow> snakePath option" where
  "FastArrayNegativeIndices_get a idx = (if idx < 0 then sparse_get (fp_negativeArr a) (nat (- idx - 1)) else sparse_get (fp_positiveArr a) (nat idx))"

definition FastArrayNegativeIndices_set :: "int \<Rightarrow> snakePath option \<Rightarrow> fastPathArray \<Rightarrow> fastPathArray" where
  "FastArrayNegativeIndices_set idx v a =
     (if idx < 0 then a\<lparr>fp_negativeArr := sparse_set (fp_negativeArr a) (nat (- idx - 1)) v\<rparr>
      else a\<lparr>fp_positiveArr := sparse_set (fp_positiveArr a) (nat idx) v\<rparr>)"

section \<open>The algorithm\<close>

function snake_loop :: "iSequence \<Rightarrow> iSequence \<Rightarrow> int \<Rightarrow> int \<Rightarrow> int" where
  "snake_loop s t x y =
     (if x < seq_length s \<and> y < seq_length t \<and> getElement s x = getElement t y then snake_loop s t (x + 1) (y + 1) else x)"
  by pat_completeness auto
termination
  by (relation "measure (\<lambda>(s, t, x, y). nat (seq_length s - x))") auto

declare snake_loop.simps [simp del]

definition getXAfterSnake :: "iSequence \<Rightarrow> iSequence \<Rightarrow> int js_number \<Rightarrow> int js_number \<Rightarrow> int js_number" where
  "getXAfterSnake s t x y = (case (x, y) of (Some a, Some b) \<Rightarrow> Some (snake_loop s t a b) | _ \<Rightarrow> x)"

record myersState =
  my_V :: fastInt32Array
  my_paths :: fastPathArray

definition myers_init :: "iSequence \<Rightarrow> iSequence \<Rightarrow> myersState" where
  "myers_init s t =
     (let V = FastInt32Array_set 0 (getXAfterSnake s t (Some 0) (Some 0)) new_FastInt32Array
      in \<lparr>my_V = V,
          my_paths = FastArrayNegativeIndices_set 0
            (if js_eq (FastInt32Array_get V 0) (Some 0) then None else Some (SnakePath None (Some 0) (Some 0) (FastInt32Array_get V 0)))
            new_FastArrayNegativeIndices\<rparr>)"

definition lowerBound :: "iSequence \<Rightarrow> int \<Rightarrow> int" where
  "lowerBound t d = - min d (seq_length t + d mod 2)"

definition upperBound :: "iSequence \<Rightarrow> int \<Rightarrow> int" where
  "upperBound s d = min d (seq_length s + d mod 2)"

text \<open>One turn of the inner loop; the boolean says that the outer loop is left.\<close>

definition myers_diagonal :: "iSequence \<Rightarrow> iSequence \<Rightarrow> int \<Rightarrow> int \<Rightarrow> myersState \<Rightarrow> bool \<times> myersState" where
  "myers_diagonal s t d k st =
     (let V = my_V st; paths = my_paths st;
          maxXofDLineTop = (if k = upperBound s d then Some (- 1) else FastInt32Array_get V (k + 1));
          maxXofDLineLeft = (if k = lowerBound t d then Some (- 1) else js_add (FastInt32Array_get V (k - 1)) (Some 1));
          x = js_min (js_max maxXofDLineTop maxXofDLineLeft) (Some (seq_length s));
          y = js_minus x (Some k)
      in if js_less (Some (seq_length s)) x \<or> js_less (Some (seq_length t)) y then (False, st)
         else let newMaxX = getXAfterSnake s t x y;
                  V = FastInt32Array_set k newMaxX V;
                  lastPath = (if js_eq x maxXofDLineTop then FastArrayNegativeIndices_get paths (k + 1) else FastArrayNegativeIndices_get paths (k - 1));
                  paths = FastArrayNegativeIndices_set k (if js_eq newMaxX x then lastPath else Some (SnakePath lastPath x y (js_minus newMaxX x))) paths
              in (js_eq (FastInt32Array_get V k) (Some (seq_length s)) \<and>
                  js_eq (js_minus (FastInt32Array_get V k) (Some k)) (Some (seq_length t)),
                  \<lparr>my_V = V, my_paths = paths\<rparr>))"

function myers_diagonals :: "iSequence \<Rightarrow> iSequence \<Rightarrow> int \<Rightarrow> int \<Rightarrow> myersState \<Rightarrow> int option \<times> myersState" where
  "myers_diagonals s t d k st =
     (if k \<le> upperBound s d then
        case myers_diagonal s t d k st of
          (True, st) \<Rightarrow> (Some k, st)
        | (False, st) \<Rightarrow> myers_diagonals s t d (k + 2) st
      else (None, st))"
  by pat_completeness auto
termination
  by (relation "measure (\<lambda>(s, t, d, k, st). nat (upperBound s d + 1 - k))") auto

declare myers_diagonals.simps [simp del]

text \<open>The outer loop: \<open>Inl\<close> is the return at a time-out, \<open>Inr\<close> the path of the diagonal at which the loop is left.\<close>

partial_function (option) myers_loop :: "iSequence \<Rightarrow> iSequence \<Rightarrow> timeout \<Rightarrow> int \<Rightarrow> myersState \<Rightarrow> (unit + snakePath option) option" where
  "myers_loop s t isValid d st =
     (let d = d + 1 in
      if \<not> isValid (nat (d - 1)) then Some (Inl ())
      else case myers_diagonals s t d (lowerBound t d) st of
          (Some k, st) \<Rightarrow> Some (Inr (FastArrayNegativeIndices_get (my_paths st) k))
        | (None, st) \<Rightarrow> myers_loop s t isValid d st)"

declare myers_loop.simps [code]

text \<open>
  The loop over the path.  Its numbers are never \<open>NaN\<close> for the paths that are found, which the invariant of the search says;
  with \<open>NaN\<close> the constructor of a range would not throw.
\<close>

fun myers_result :: "int \<Rightarrow> int \<Rightarrow> snakePath option \<Rightarrow> sequenceDiff list \<Rightarrow> js_error + sequenceDiff list" where
  "myers_result last1 last2 None result =
     (if 0 \<noteq> last1 \<or> 0 \<noteq> last2 then
        bind_result (new_SequenceDiff (new_OffsetRange 0 last1) (new_OffsetRange 0 last2)) (\<lambda>d. Inr (result @ [d]))
      else Inr result)"
| "myers_result last1 last2 (Some (SnakePath prev x y len)) result =
     (case (x, y, len) of
        (Some x, Some y, Some len) \<Rightarrow>
          bind_result
            (if x + len \<noteq> last1 \<or> y + len \<noteq> last2 then
               bind_result (new_SequenceDiff (new_OffsetRange (x + len) last1) (new_OffsetRange (y + len) last2)) (\<lambda>d. Inr (result @ [d]))
             else Inr result)
            (\<lambda>result. myers_result x y prev result)
      | _ \<Rightarrow> Inl NotANumber)"

definition MyersDiffAlgorithm_compute :: "iSequence \<Rightarrow> iSequence \<Rightarrow> timeout \<Rightarrow> (js_error + diffAlgorithmResult) option" where
  "MyersDiffAlgorithm_compute s t isValid =
     (if seq_length s = 0 \<or> seq_length t = 0 then Some (DiffAlgorithmResult_trivial s t)
      else case myers_loop s t isValid 0 (myers_init s t) of
        None \<Rightarrow> None
      | Some (Inl _) \<Rightarrow> Some (DiffAlgorithmResult_trivialTimedOut s t)
      | Some (Inr path) \<Rightarrow>
          Some (bind_result (myers_result (seq_length s) (seq_length t) path [])
            (\<lambda>result. Inr \<lparr>diffs = rev result, hitTimeout = False\<rparr>)))"


section \<open>Snakes\<close>

lemma snake_loop_spec:
  "x \<le> snake_loop s t x y \<and> matches s t x y (snake_loop s t x y - x) \<and>
   (x \<le> seq_length s \<longrightarrow> snake_loop s t x y \<le> seq_length s) \<and>
   (y \<le> seq_length t \<longrightarrow> y + (snake_loop s t x y - x) \<le> seq_length t) \<and>
   \<not> (snake_loop s t x y < seq_length s \<and> y + (snake_loop s t x y - x) < seq_length t \<and>
      getElement s (snake_loop s t x y) = getElement t (y + (snake_loop s t x y - x)))"
proof (induction s t x y rule: snake_loop.induct)
  case (1 s t x y)
  show ?case
  proof (cases "x < seq_length s \<and> y < seq_length t \<and> getElement s x = getElement t y")
    case True
    then have eq: "snake_loop s t x y = snake_loop s t (x + 1) (y + 1)"
      by (simp add: snake_loop.simps [of s t x y])
    let ?n = "snake_loop s t (x + 1) (y + 1)"
    have IH: "x + 1 \<le> ?n" "matches s t (x + 1) (y + 1) (?n - (x + 1))" "?n \<le> seq_length s" "y + 1 + (?n - (x + 1)) \<le> seq_length t"
      "\<not> (?n < seq_length s \<and> y + 1 + (?n - (x + 1)) < seq_length t \<and> getElement s ?n = getElement t (y + 1 + (?n - (x + 1))))"
      using "1.IH" [OF True] True by auto
    moreover have "matches s t x y (?n - x)"
      using matches_Suc [of "?n - (x + 1)" s t x y] IH(1,2) True by simp
    moreover have "y + 1 + (?n - (x + 1)) = y + (?n - x)"
      by simp
    ultimately show ?thesis
      by (simp add: eq)
  next
    case False
    then have "snake_loop s t x y = x"
      by (subst snake_loop.simps) (rule if_not_P)
    then show ?thesis
      using False by simp
  qed
qed

lemma snake_ge: "x \<le> snake_loop s t x y"
  using snake_loop_spec [of x s t y] by blast

lemma snake_le: "x \<le> seq_length s \<Longrightarrow> snake_loop s t x y \<le> seq_length s"
  using snake_loop_spec [of x s t y] by blast

lemma snake_matches: "matches s t x y (snake_loop s t x y - x)"
  using snake_loop_spec [of x s t y] by blast

lemma snake_le2: "y \<le> seq_length t \<Longrightarrow> y + (snake_loop s t x y - x) \<le> seq_length t"
  using snake_loop_spec [of x s t y] by blast

lemma snake_at_end: "seq_length s \<le> x \<or> seq_length t \<le> y \<Longrightarrow> snake_loop s t x y = x"
  by (subst snake_loop.simps) auto

lemma snake_loop_inside:
  "0 \<le> i \<Longrightarrow> i \<le> snake_loop s t x y - x \<Longrightarrow> snake_loop s t (x + i) (y + i) = snake_loop s t x y"
proof (induction i rule: int_ge_induct)
  case (step i)
  have "snake_loop s t (x + i) (y + i) = snake_loop s t x y"
    using step by simp
  moreover have "x + i < snake_loop s t x y"
    using step.prems by simp
  ultimately show ?case
    by (simp add: snake_loop.simps [of s t "x + i" "y + i"] add.assoc split: if_splits)
qed simp

text \<open>Starting further along a diagonal, a snake ends no earlier.\<close>

lemma snake_mono:
  assumes "x \<le> x'"
  shows "snake_loop s t x (x - k) \<le> snake_loop s t x' (x' - k)"
proof (cases "x' \<le> snake_loop s t x (x - k)")
  case True
  have "snake_loop s t (x + (x' - x)) (x - k + (x' - x)) = snake_loop s t x (x - k)"
    using assms True by (intro snake_loop_inside) auto
  then show ?thesis by simp
next
  case False
  then show ?thesis
    using snake_ge [of x' s t "x' - k"] by simp
qed

section \<open>Paths\<close>

text \<open>\<open>path_ok s t p x y\<close>: the snakes of \<open>p\<close> are runs of equal elements, in order, that end at or before \<open>(x, y)\<close>.\<close>

fun path_ok :: "iSequence \<Rightarrow> iSequence \<Rightarrow> snakePath option \<Rightarrow> int \<Rightarrow> int \<Rightarrow> bool" where
  "path_ok s t None x y \<longleftrightarrow> 0 \<le> x \<and> 0 \<le> y"
| "path_ok s t (Some (SnakePath q a b l)) x y \<longleftrightarrow>
     (case (a, b, l) of
        (Some a, Some b, Some l) \<Rightarrow> 0 < l \<and> a + l \<le> x \<and> b + l \<le> y \<and> matches s t a b l \<and> path_ok s t q a b
      | _ \<Rightarrow> False)"

fun matched :: "snakePath option \<Rightarrow> int" where
  "matched None = 0"
| "matched (Some (SnakePath q a b l)) = (case l of Some l \<Rightarrow> l | None \<Rightarrow> 0) + matched q"

lemma path_ok_Some:
  assumes "path_ok s t (Some (SnakePath q a b l)) x y"
  obtains a' b' l' where "a = Some a'" "b = Some b'" "l = Some l'" "0 < l'" "a' + l' \<le> x" "b' + l' \<le> y" "matches s t a' b' l'" "path_ok s t q a' b'"
  using assms by (auto split: option.splits)

lemma path_ok_mono: "path_ok s t p x y \<Longrightarrow> x \<le> x' \<Longrightarrow> y \<le> y' \<Longrightarrow> path_ok s t p x' y'"
  by (induction s t p x y rule: path_ok.induct) (auto split: option.splits)

lemma path_ok_nonneg: "path_ok s t p x y \<Longrightarrow> 0 \<le> x \<and> 0 \<le> y"
  by (induction s t p x y rule: path_ok.induct) (fastforce split: option.splits)+

text \<open>A path shows how many edits lead to its end.\<close>

lemma path_ok_sound:
  "path_ok s t p x y \<Longrightarrow> x \<le> seq_length s \<Longrightarrow> y \<le> seq_length t \<Longrightarrow>
   edit_dist s t 0 0 \<le> x + y - 2 * matched p + edit_dist s t x y"
proof (induction s t p x y rule: path_ok.induct)
  case (1 s t x y)
  then show ?case
    using edit_dist_down_right [of x y 0 s 0 t] by simp
next
  case (2 s t q a b l x y)
  obtain a' b' l' where p: "a = Some a'" "b = Some b'" "l = Some l'" "0 < l'" "a' + l' \<le> x" "b' + l' \<le> y" "matches s t a' b' l'" "path_ok s t q a' b'"
    using "2.prems"(1) by (rule path_ok_Some)
  have "edit_dist s t a' b' = edit_dist s t (a' + l') (b' + l')"
    using p "2.prems" by (intro edit_dist_matches) auto
  also have "\<dots> \<le> (x - (a' + l')) + (y - (b' + l')) + edit_dist s t x y"
    using edit_dist_down_right [of "x - (a' + l')" "y - (b' + l')" "a' + l'" s "b' + l'" t] p "2.prems" by simp
  finally show ?case
    using "2.IH" p "2.prems" by fastforce
qed


text \<open>The differences between the snakes of a path.\<close>

lemma myers_result_ok:
  assumes "path_ok s t p x y" "aligned s t x y (rev r)" "diffs_separated (rev r)" "r \<noteq> [] \<longrightarrow> x < start1 (last r) \<and> y < start2 (last r)"
  shows "\<exists>r'. myers_result x y p r = Inr r' \<and> aligned s t 0 0 (rev r') \<and> diffs_separated (rev r') \<and>
    diff_cost r' = diff_cost r + x + y - 2 * matched p"
  using assms
proof (induction s t p x y arbitrary: r rule: path_ok.induct)
  case (1 s t x y)
  let ?d = "\<lparr>seq1Range = \<lparr>start = 0, endExclusive = x\<rparr>, seq2Range = \<lparr>start = 0, endExclusive = y\<rparr>\<rparr> :: sequenceDiff"
  show ?case
  proof (cases "0 \<noteq> x \<or> 0 \<noteq> y")
    case True
    then have "myers_result x y None r = Inr (r @ [?d])"
      using 1 by (simp add: new_SequenceDiff_def new_OffsetRange_def)
    then show ?thesis
      using 1 True by (auto simp: diffs_separated_Cons hd_rev simp del: diffs_separated.simps(2))
  next
    case False
    then show ?thesis using 1 by simp
  qed
next
  case (2 s t q a b l x y)
  obtain a' b' l' where p: "a = Some a'" "b = Some b'" "l = Some l'" "0 < l'" "a' + l' \<le> x" "b' + l' \<le> y" "matches s t a' b' l'" "path_ok s t q a' b'"
    using "2.prems"(1) by (rule path_ok_Some)
  let ?d = "\<lparr>seq1Range = \<lparr>start = a' + l', endExclusive = x\<rparr>, seq2Range = \<lparr>start = b' + l', endExclusive = y\<rparr>\<rparr> :: sequenceDiff"
  define r1 where "r1 = (if a' + l' \<noteq> x \<or> b' + l' \<noteq> y then r @ [?d] else r)"
  have step: "myers_result x y (Some (SnakePath q a b l)) r = myers_result a' b' q r1"
    using p by (simp add: r1_def new_SequenceDiff_def new_OffsetRange_def)
  have "aligned s t (a' + l') (b' + l') (rev r1) \<and> diffs_separated (rev r1)"
  proof (cases "a' + l' \<noteq> x \<or> b' + l' \<noteq> y")
    case True
    then have "r1 = r @ [?d]" "a' + l' < x \<or> b' + l' < y"
      using p(5,6) by (auto simp: r1_def)
    then show ?thesis
      using p(5,6) "2.prems"(2-4) by (simp add: diffs_separated_Cons hd_rev del: diffs_separated.simps(2))
  next
    case False
    then show ?thesis
      using "2.prems"(2,3) by (simp add: r1_def)
  qed
  then have "aligned s t (a' + l') (b' + l') (rev r1)" "diffs_separated (rev r1)"
    by simp_all
  moreover from this have "aligned s t a' b' (rev r1)"
    using p(4) aligned_match [OF p(7)] by simp
  moreover have "r1 \<noteq> [] \<longrightarrow> a' < start1 (last r1) \<and> b' < start2 (last r1)"
    using p "2.prems"(4) by (auto simp: r1_def)
  ultimately obtain r' where r': "myers_result a' b' q r1 = Inr r'" "aligned s t 0 0 (rev r')" "diffs_separated (rev r')"
      "diff_cost r' = diff_cost r1 + a' + b' - 2 * matched q"
    using "2.IH" p(8) unfolding p(1-3) by blast
  have "diff_cost r1 = diff_cost r + (x - (a' + l')) + (y - (b' + l'))"
    by (simp add: r1_def)
  then show ?case
    using r' step p(3) by simp
qed

end
