(* ===== verification/Diff_Myers_Search.thy ===== *)
theory Diff_Myers_Search
  imports Diff_Myers
begin

text \<open>
  The invariant of the search of \<open>Diff_Myers\<close>.  For every diagonal the state gives a value (0 before the first write) and a path.
  An entry is \<open>clean\<close> when its path is a chain of matching runs that reaches the entry with few enough edits.  Entries at
  the lower end may be spoilt by a read behind the end of the array; they are cut off by a
  diagonal whose entry has reached the last row, the barrier: the diagonal below it is never entered again.
\<close>

section \<open>Reading and writing diagonals\<close>

definition readable :: "myersState \<Rightarrow> int \<Rightarrow> bool" where
  "readable st k \<longleftrightarrow> FastInt32Array_get (my_V st) k \<noteq> None"

definition vv :: "myersState \<Rightarrow> int \<Rightarrow> int" where
  "vv st k = (case FastInt32Array_get (my_V st) k of Some v \<Rightarrow> v | None \<Rightarrow> 0)"

definition pp :: "myersState \<Rightarrow> int \<Rightarrow> snakePath option" where
  "pp st k = FastArrayNegativeIndices_get (my_paths st) k"

definition arrays_ok :: "myersState \<Rightarrow> bool" where
  "arrays_ok st \<longleftrightarrow> 10 \<le> length (fi_negativeArr (my_V st)) \<and> 10 \<le> length (fi_positiveArr (my_V st))"

definition room :: "myersState \<Rightarrow> int \<Rightarrow> bool" where
  "room st k \<longleftrightarrow> (if k < 0 then - k \<le> 2 * int (length (fi_negativeArr (my_V st))) else k < 2 * int (length (fi_positiveArr (my_V st))))"

lemma readable_iff:
  "readable st k \<longleftrightarrow> (if k < 0 then - k \<le> int (length (fi_negativeArr (my_V st))) else k < int (length (fi_positiveArr (my_V st))))"
  by (auto simp: readable_def FastInt32Array_get_def typed_get_def)

lemma get_readable: "readable st k \<Longrightarrow> FastInt32Array_get (my_V st) k = Some (vv st k)"
  by (auto simp: readable_def vv_def)

lemma readable_between: "readable st k \<Longrightarrow> 0 \<le> j \<and> j \<le> k \<or> k \<le> j \<and> j < 0 \<Longrightarrow> readable st j"
  by (auto simp: readable_iff split: if_splits)

lemma readable_small: "arrays_ok st \<Longrightarrow> - 10 \<le> k \<Longrightarrow> k < 10 \<Longrightarrow> readable st k"
  by (auto simp: readable_iff arrays_ok_def)

lemma room_near:
  assumes "arrays_ok st" "readable st j" "k \<le> j + 2 \<and> 0 \<le> j \<and> 0 \<le> k \<or> j - 2 \<le> k \<and> j < 0 \<and> k < 0"
  shows "room st k"
  using assms by (auto simp: readable_iff arrays_ok_def room_def split: if_splits)

lemma room_small: "arrays_ok st \<Longrightarrow> - 20 \<le> k \<Longrightarrow> k < 20 \<Longrightarrow> room st k"
  by (auto simp: arrays_ok_def room_def)

lemma length_typed_set: "length xs \<le> length (typed_set xs i v)"
  by (simp add: typed_set_def Let_def)

lemma typed_get_set_other: "j \<noteq> i \<Longrightarrow> typed_get (typed_set xs i v) j = typed_get xs j \<or> typed_get xs j = None \<and> typed_get (typed_set xs i v) j = Some 0"
  by (auto simp: typed_get_def typed_set_def Let_def nth_append)

lemma typed_get_set_same: "i < 2 * length xs \<Longrightarrow> typed_get (typed_set xs i v) i = Some (case v of Some x \<Rightarrow> toInt32 x | None \<Rightarrow> 0)"
  by (auto simp: typed_get_def typed_set_def Let_def)

lemma sparse_get_set: "sparse_get (sparse_set xs i v) j = (if j = i then v else sparse_get xs j)"
  by (auto simp: sparse_get_def sparse_set_def nth_append nth_Cons')

lemma diagonal_index: "k < 0 \<Longrightarrow> j < 0 \<Longrightarrow> j \<noteq> k \<Longrightarrow> nat (- j - 1) \<noteq> nat (- k - 1)"
  by auto

lemma pp_set: "FastArrayNegativeIndices_get (FastArrayNegativeIndices_set k v a) j = (if j = k then v else FastArrayNegativeIndices_get a j)"
  by (auto simp: FastArrayNegativeIndices_get_def FastArrayNegativeIndices_set_def sparse_get_set)

lemma V_set_other:
  assumes "j \<noteq> k"
  shows "FastInt32Array_get (FastInt32Array_set k v a) j = FastInt32Array_get a j \<or>
    FastInt32Array_get a j = None \<and> FastInt32Array_get (FastInt32Array_set k v a) j = Some 0"
  using assms typed_get_set_other [of "nat (- j - 1)" "nat (- k - 1)" "fi_negativeArr a" v]
    typed_get_set_other [of "nat j" "nat k" "fi_positiveArr a" v]
  by (auto simp: FastInt32Array_get_def FastInt32Array_set_def)

lemma V_set_same:
  assumes "room st k"
  shows "FastInt32Array_get (FastInt32Array_set k v (my_V st)) k = Some (case v of Some x \<Rightarrow> toInt32 x | None \<Rightarrow> 0)"
  using assms by (auto simp: room_def FastInt32Array_get_def FastInt32Array_set_def intro!: typed_get_set_same split: if_splits)

text \<open>A turn of the inner loop touches only its own diagonal, and the arrays never become shorter.\<close>

lemma diagonal_frame:
  assumes "myers_diagonal s t d k st = (f, st')"
  shows "(\<forall>j. j \<noteq> k \<longrightarrow> vv st' j = vv st j \<and> pp st' j = pp st j) \<and> (\<forall>j. readable st j \<longrightarrow> readable st' j) \<and> (arrays_ok st \<longrightarrow> arrays_ok st')"
proof -
  have "st' = st \<or> (\<exists>v p. st' = \<lparr>my_V = FastInt32Array_set k v (my_V st), my_paths = FastArrayNegativeIndices_set k p (my_paths st)\<rparr>)"
    using assms by (auto simp: myers_diagonal_def Let_def split: if_splits)
  then show ?thesis
  proof
    assume "\<exists>v p. st' = \<lparr>my_V = FastInt32Array_set k v (my_V st), my_paths = FastArrayNegativeIndices_set k p (my_paths st)\<rparr>"
    then obtain v p where st': "st' = \<lparr>my_V = FastInt32Array_set k v (my_V st), my_paths = FastArrayNegativeIndices_set k p (my_paths st)\<rparr>"
      by blast
    have len: "length (fi_negativeArr (my_V st)) \<le> length (fi_negativeArr (my_V st'))" "length (fi_positiveArr (my_V st)) \<le> length (fi_positiveArr (my_V st'))"
      by (simp_all add: st' FastInt32Array_set_def length_typed_set)
    then have "\<forall>j. readable st j \<longrightarrow> readable st' j" "arrays_ok st \<longrightarrow> arrays_ok st'"
      by (auto simp: readable_iff arrays_ok_def)
    moreover have "vv st' j = vv st j \<and> pp st' j = pp st j" if "j \<noteq> k" for j
      using V_set_other [OF that, of v "my_V st"] that by (auto simp: st' vv_def pp_def pp_set)
    ultimately show ?thesis by blast
  qed auto
qed

section \<open>The value of a turn\<close>

definition candidate :: "iSequence \<Rightarrow> iSequence \<Rightarrow> int \<Rightarrow> myersState \<Rightarrow> int \<Rightarrow> int" where
  "candidate s t d st k =
     min (max (if k = upperBound s d then - 1 else vv st (k + 1)) (if k = lowerBound t d then - 1 else vv st (k - 1) + 1)) (seq_length s)"

definition chosen_path :: "iSequence \<Rightarrow> iSequence \<Rightarrow> int \<Rightarrow> myersState \<Rightarrow> int \<Rightarrow> snakePath option" where
  "chosen_path s t d st k = (if k \<noteq> upperBound s d \<and> candidate s t d st k = vv st (k + 1) then pp st (k + 1) else pp st (k - 1))"

lemma diagonal_value:
  assumes st: "arrays_ok st" "room st k" and top: "k = upperBound s d \<or> readable st (k + 1)" and left: "k = lowerBound t d \<or> readable st (k - 1)"
    and n: "0 \<le> seq_length s" "seq_length s < 2147483648" and c: "0 \<le> candidate s t d st k"
    and eq: "myers_diagonal s t d k st = (f, st')"
  shows "(seq_length t < candidate s t d st k - k \<longrightarrow> \<not> f \<and> st' = st) \<and>
    (candidate s t d st k - k \<le> seq_length t \<longrightarrow>
       (let x = candidate s t d st k; x' = snake_loop s t x (x - k) in
        readable st' k \<and> vv st' k = x' \<and>
        pp st' k = (if x' = x then chosen_path s t d st k else Some (SnakePath (chosen_path s t d st k) (Some x) (Some (x - k)) (Some (x' - x)))) \<and>
        (f \<longleftrightarrow> x' = seq_length s \<and> x' - k = seq_length t)))"
proof -
  define x where "x = candidate s t d st k"
  define tp where "tp = (if k = upperBound s d then Some (- 1) else FastInt32Array_get (my_V st) (k + 1))"
  define lf where "lf = (if k = lowerBound t d then Some (- 1) else js_add (FastInt32Array_get (my_V st) (k - 1)) (Some 1))"
  have tp: "tp = Some (if k = upperBound s d then - 1 else vv st (k + 1))"
    using top get_readable by (auto simp: tp_def)
  have lf: "lf = Some (if k = lowerBound t d then - 1 else vv st (k - 1) + 1)"
    using left get_readable by (auto simp: lf_def)
  have x: "js_min (js_max tp lf) (Some (seq_length s)) = Some x" "x \<le> seq_length s"
    by (simp_all add: tp lf x_def candidate_def)
  have top_eq: "js_eq (Some x) tp \<longleftrightarrow> k \<noteq> upperBound s d \<and> x = vv st (k + 1)"
    using c by (auto simp: tp x_def)
  let ?x' = "snake_loop s t x (x - k)"
  have x': "toInt32 ?x' = ?x'"
    using snake_ge [of x s t "x - k"] snake_le [OF x(2), of t "x - k"] n c by (intro toInt32_small) (simp_all add: x_def)
  show ?thesis
  proof (cases "seq_length t < x - k")
    case True
    then have "myers_diagonal s t d k st = (False, st)"
      using x by (simp add: myers_diagonal_def Let_def tp_def [symmetric] lf_def [symmetric])
    then show ?thesis
      using eq True by (simp add: x_def)
  next
    case False
    let ?V = "FastInt32Array_set k (Some ?x') (my_V st)"
    have get: "FastInt32Array_get ?V k = Some ?x'"
      using V_set_same [OF st(2), of "Some ?x'"] x' by simp
    let ?p = "if ?x' = x then chosen_path s t d st k else Some (SnakePath (chosen_path s t d st k) (Some x) (Some (x - k)) (Some (?x' - x)))"
    have "myers_diagonal s t d k st = (?x' = seq_length s \<and> ?x' - k = seq_length t,
        \<lparr>my_V = ?V, my_paths = FastArrayNegativeIndices_set k ?p (my_paths st)\<rparr>)"
      using False x get top_eq
      by (simp add: myers_diagonal_def Let_def tp_def [symmetric] lf_def [symmetric] getXAfterSnake_def chosen_path_def pp_def x_def [symmetric] not_less)
    then have "f \<longleftrightarrow> ?x' = seq_length s \<and> ?x' - k = seq_length t" "my_V st' = ?V" "pp st' k = ?p"
      using eq by (auto simp: pp_def pp_set)
    then show ?thesis
      using False get by (simp add: x_def [symmetric] Let_def readable_def vv_def)
  qed
qed


section \<open>Clean entries\<close>

text \<open>
  The path \<open>p\<close> leads to \<open>x\<close> on the diagonal \<open>k\<close> with at most \<open>d\<close> edits.  On the right border the diagonal may be one that the
  path has passed already: there every end of a path is good enough.
\<close>

definition reaches :: "iSequence \<Rightarrow> iSequence \<Rightarrow> int \<Rightarrow> snakePath option \<Rightarrow> int \<Rightarrow> int \<Rightarrow> bool" where
  "reaches s t d p x k \<longleftrightarrow>
     (if x = seq_length s then path_ok s t p (seq_length s) (seq_length t) else path_ok s t p x (x - k)) \<and> 2 * x - k - 2 * matched p \<le> d"

definition clean :: "iSequence \<Rightarrow> iSequence \<Rightarrow> int \<Rightarrow> myersState \<Rightarrow> int \<Rightarrow> bool" where
  "clean s t d st k \<longleftrightarrow>
     0 \<le> vv st k \<and> vv st k \<le> seq_length s \<and> vv st k - k \<le> seq_length t \<and> min k (seq_length s) \<le> vv st k \<and> reaches s t d (pp st k) (vv st k) k"

lemma clean_mono: "clean s t d st k \<Longrightarrow> d \<le> d' \<Longrightarrow> clean s t d' st k"
  by (auto simp: clean_def reaches_def)

lemma clean_cong: "vv st' k = vv st k \<Longrightarrow> pp st' k = pp st k \<Longrightarrow> clean s t d st' k = clean s t d st k"
  by (simp add: clean_def)

lemma candidate_top: "k \<noteq> upperBound s d \<Longrightarrow> vv st (k + 1) \<le> seq_length s \<Longrightarrow> vv st (k + 1) \<le> candidate s t d st k"
  by (simp add: candidate_def)

lemma candidate_left: "k \<noteq> lowerBound t d \<Longrightarrow> min (vv st (k - 1) + 1) (seq_length s) \<le> candidate s t d st k"
  by (auto simp: candidate_def)

text \<open>Neighbours that are clean give a candidate with a path that reaches it.\<close>

lemma candidate_clean:
  assumes top: "k = upperBound s d \<or> clean s t (d - 1) st (k + 1)" and left: "k = lowerBound t d \<or> clean s t (d - 1) st (k - 1)"
    and "k \<noteq> upperBound s d \<or> k \<noteq> lowerBound t d"
  shows "0 \<le> candidate s t d st k \<and> candidate s t d st k \<le> seq_length s \<and> min k (seq_length s) \<le> candidate s t d st k \<and>
    (candidate s t d st k - k \<le> seq_length t \<longrightarrow> reaches s t d (chosen_path s t d st k) (candidate s t d st k) k)"
proof (cases "k \<noteq> upperBound s d \<and> candidate s t d st k = vv st (k + 1)")
  case True
  then have c: "clean s t (d - 1) st (k + 1)" "candidate s t d st k = vv st (k + 1)" "chosen_path s t d st k = pp st (k + 1)"
    using top by (auto simp: chosen_path_def)
  have "reaches s t d (pp st (k + 1)) (vv st (k + 1)) k"
    using c(1) path_ok_mono [of s t "pp st (k + 1)" "vv st (k + 1)" "vv st (k + 1) - (k + 1)" "vv st (k + 1)" "vv st (k + 1) - k"]
    by (auto simp: clean_def reaches_def)
  then show ?thesis
    using c by (auto simp: clean_def)
next
  case False
  then have k: "k \<noteq> lowerBound t d" "candidate s t d st k = min (vv st (k - 1) + 1) (seq_length s)"
    using assms by (auto simp: candidate_def clean_def max_def min_def split: if_splits)
  then have c: "clean s t (d - 1) st (k - 1)" "chosen_path s t d st k = pp st (k - 1)"
    using left False by (auto simp: chosen_path_def)
  let ?v = "vv st (k - 1)" and ?p = "pp st (k - 1)"
  have "reaches s t d ?p (min (?v + 1) (seq_length s)) k"
  proof (cases "?v = seq_length s")
    case True
    then show ?thesis using c(1) by (auto simp: clean_def reaches_def)
  next
    case False
    then have "path_ok s t ?p ?v (?v - (k - 1))" "?v - (k - 1) \<le> seq_length t" "?v < seq_length s"
      using c(1) by (auto simp: clean_def reaches_def)
    moreover from this have "path_ok s t ?p (?v + 1) (?v + 1 - k)" "path_ok s t ?p (seq_length s) (seq_length t)"
      by (auto elim!: path_ok_mono)
    ultimately show ?thesis
      using c(1) False by (auto simp: clean_def reaches_def)
  qed
  then show ?thesis
    using c k(2) by (auto simp: clean_def)
qed

lemma diagonal_clean:
  assumes c: "reaches s t d p x k" "0 \<le> x" "x \<le> seq_length s" "x - k \<le> seq_length t" "min k (seq_length s) \<le> x"
    and st': "vv st' k = snake_loop s t x (x - k)"
      "pp st' k = (if snake_loop s t x (x - k) = x then p else Some (SnakePath p (Some x) (Some (x - k)) (Some (snake_loop s t x (x - k) - x))))"
  shows "clean s t d st' k"
proof -
  let ?x' = "snake_loop s t x (x - k)"
  have x': "x \<le> ?x'" "?x' \<le> seq_length s" "?x' - k \<le> seq_length t"
    using snake_ge snake_le [OF c(3)] snake_le2 [OF c(4), of s x] by auto
  have "reaches s t d (pp st' k) ?x' k"
  proof (cases "?x' = x")
    case True
    then show ?thesis using c(1) st'(2) by simp
  next
    case False
    then have "x < seq_length s"
      using snake_at_end [of s x t "x - k"] c(3) by (cases "x = seq_length s") auto
    then have "path_ok s t (pp st' k) ?x' (?x' - k)" "matched (pp st' k) = ?x' - x + matched p"
      using False c(1) x'(1) snake_matches [of s t x "x - k"] by (auto simp: st'(2) reaches_def)
    then show ?thesis
      using c(1) x' path_ok_mono [of s t "pp st' k" ?x' "?x' - k" "seq_length s" "seq_length t"] by (auto simp: reaches_def)
  qed
  then show ?thesis
    using x' c(2,5) by (auto simp: clean_def st'(1))
qed


section \<open>The bounds of a round\<close>

text \<open>
  The loop bounds have the parity of the round as long as both sequences have an even length or at least as many elements as the round
  has edits.  (Otherwise the rounds use the diagonals of the wrong parity, see the end of \<open>Diff_Myers_Result\<close>.)
\<close>

definition regular :: "iSequence \<Rightarrow> iSequence \<Rightarrow> int \<Rightarrow> bool" where
  "regular s t d \<longleftrightarrow> 0 < seq_length s \<and> seq_length s < 2147483648 \<and> 0 < seq_length t \<and>
     (even (seq_length s) \<or> d \<le> seq_length s) \<and> (even (seq_length t) \<or> d \<le> seq_length t)"

text \<open>The highest diagonal that has been entered after the round \<open>d\<close>.\<close>

definition highest :: "iSequence \<Rightarrow> int \<Rightarrow> int" where
  "highest s d = min d (seq_length s + 1)"

lemma lowerBound_cases:
  assumes "regular s t d" "1 \<le> d"
  shows "d \<le> seq_length t \<and> lowerBound t d = - d \<or>
    seq_length t < d \<and> even (seq_length t) \<and> odd d \<and> lowerBound t d = - seq_length t - 1 \<or>
    seq_length t < d \<and> even (seq_length t) \<and> even d \<and> lowerBound t d = - seq_length t"
proof (cases "d \<le> seq_length t")
  case True
  then show ?thesis by (auto simp: lowerBound_def)
next
  case False
  then have "even (seq_length t)"
    using assms by (auto simp: regular_def)
  moreover have "d mod 2 = (if even d then 0 else 1)"
    by presburger
  ultimately show ?thesis
    using False by (auto simp: lowerBound_def)
qed

lemma upperBound_cases:
  assumes "regular s t d" "1 \<le> d"
  shows "d \<le> seq_length s + 1 \<and> (even (seq_length s) \<or> d \<le> seq_length s) \<and> upperBound s d = d \<or>
    seq_length s + 1 < d \<and> even (seq_length s) \<and> odd d \<and> upperBound s d = seq_length s + 1 \<or>
    seq_length s < d \<and> even (seq_length s) \<and> even d \<and> upperBound s d = seq_length s"
proof (cases "d \<le> seq_length s")
  case True
  then show ?thesis by (auto simp: upperBound_def)
next
  case False
  then have "even (seq_length s)"
    using assms by (auto simp: regular_def)
  moreover have "d mod 2 = (if even d then 0 else 1)"
    by presburger
  ultimately show ?thesis
    using False by (auto simp: upperBound_def)
qed

lemma bounds_parity:
  assumes "regular s t d" "1 \<le> d"
  shows "even (lowerBound t d - d)" "even (upperBound s d - d)" "lowerBound t d < 0" "0 < upperBound s d"
  using lowerBound_cases [OF assms] upperBound_cases [OF assms] assms by (auto simp: regular_def)

section \<open>Growing values\<close>

text \<open>
  The value of a diagonal is at most what its neighbours would give it now.  So values never decrease, and an entry in
  the last row stays there.
\<close>

definition growing :: "iSequence \<Rightarrow> iSequence \<Rightarrow> myersState \<Rightarrow> int \<Rightarrow> bool" where
  "growing s t st k \<longleftrightarrow>
     (let c = min (max (vv st (k + 1)) (vv st (k - 1) + 1)) (seq_length s) in
      c - k \<le> seq_length t \<longrightarrow> vv st k \<le> snake_loop s t c (c - k))"

lemma growing_step:
  assumes "growing s t st k" "vv st' k = vv st k" "vv st (k + 1) \<le> vv st' (k + 1)" "vv st (k - 1) \<le> vv st' (k - 1)"
  shows "growing s t st' k"
proof -
  let ?c = "min (max (vv st (k + 1)) (vv st (k - 1) + 1)) (seq_length s)" and ?c' = "min (max (vv st' (k + 1)) (vv st' (k - 1) + 1)) (seq_length s)"
  have le: "?c \<le> ?c'"
    using assms(3,4) by auto
  show ?thesis
    unfolding growing_def Let_def
  proof
    assume "?c' - k \<le> seq_length t"
    then have "vv st k \<le> snake_loop s t ?c (?c - k)"
      using assms(1) le unfolding growing_def Let_def by linarith
    then show "vv st' k \<le> snake_loop s t ?c' (?c' - k)"
      using snake_mono [OF le, of s t k] assms(2) by linarith
  qed
qed

lemma growing_new:
  assumes "vv st' k = snake_loop s t (candidate s t d st k) (candidate s t d st k - k)"
    and "vv st' (k + 1) = vv st (k + 1)" "vv st' (k - 1) = vv st (k - 1)" "- 1 \<le> vv st (k + 1)" "- 1 \<le> vv st (k - 1) + 1"
  shows "growing s t st' k"
proof -
  have "candidate s t d st k \<le> min (max (vv st (k + 1)) (vv st (k - 1) + 1)) (seq_length s)"
    using assms(4,5) by (auto simp: candidate_def)
  then show ?thesis
    using snake_mono assms(1-3) by (simp add: growing_def Let_def)
qed


end
