(* ===== verification/Diff_Myers_Round.thy ===== *)
theory Diff_Myers_Round
  imports Diff_Myers_Search
begin

text \<open>
  A round of the search of \<open>Diff_Myers\<close>: what it does to the diagonals, and that the invariant survives it.
\<close>

section \<open>The diagonals above a clean border\<close>

definition agree :: "myersState \<Rightarrow> myersState \<Rightarrow> int \<Rightarrow> bool" where
  "agree st st' j \<longleftrightarrow> vv st' j = vv st j \<and> pp st' j = pp st j"

definition extends :: "myersState \<Rightarrow> myersState \<Rightarrow> bool" where
  "extends st st' \<longleftrightarrow> (\<forall>j. readable st j \<longrightarrow> readable st' j) \<and> (arrays_ok st \<longrightarrow> arrays_ok st')"

lemma extends_refl [simp]: "extends st st"
  by (simp add: extends_def)

lemma extends_trans: "extends st st' \<Longrightarrow> extends st' st'' \<Longrightarrow> extends st st''"
  by (simp add: extends_def)

lemma extends_readable: "extends st st' \<Longrightarrow> readable st j \<Longrightarrow> readable st' j"
  by (simp add: extends_def)

lemma agree_refl [simp]: "agree st st j"
  by (simp add: agree_def)

lemma agree_trans: "agree st st' j \<Longrightarrow> agree st' st'' j \<Longrightarrow> agree st st'' j"
  by (simp add: agree_def)

lemma agree_clean: "agree st st' j \<Longrightarrow> clean s t d st' j = clean s t d st j"
  by (simp add: agree_def clean_def)

lemma diagonal_agree: "myers_diagonal s t d k st = (f, st') \<Longrightarrow> j \<noteq> k \<Longrightarrow> agree st st' j"
  using diagonal_frame by (fastforce simp: agree_def)

lemma diagonal_extends: "myers_diagonal s t d k st = (f, st') \<Longrightarrow> extends st st'"
  using diagonal_frame by (fastforce simp: extends_def)

text \<open>What a turn of the inner loop does when the search goes on: it skips the diagonal or moves its end.\<close>

definition turn :: "iSequence \<Rightarrow> iSequence \<Rightarrow> int \<Rightarrow> myersState \<Rightarrow> int \<Rightarrow> myersState \<Rightarrow> bool" where
  "turn s t d st k st' \<longleftrightarrow>
     (let x = candidate s t d st k in
      if seq_length t < x - k then agree st st' k
      else readable st' k \<and> vv st' k = snake_loop s t x (x - k) \<and> clean s t d st' k \<and> \<not> (vv st' k = seq_length s \<and> k = seq_length s - seq_length t))"

definition found :: "iSequence \<Rightarrow> iSequence \<Rightarrow> int \<Rightarrow> myersState \<Rightarrow> int \<Rightarrow> bool" where
  "found s t d st k \<longleftrightarrow> k = seq_length s - seq_length t \<and> vv st k = seq_length s \<and> clean s t d st k"

text \<open>All diagonals of the round from \<open>lo\<close> on have neighbours that can be read and are clean.\<close>

definition ready :: "iSequence \<Rightarrow> iSequence \<Rightarrow> int \<Rightarrow> int \<Rightarrow> myersState \<Rightarrow> bool" where
  "ready s t d lo st \<longleftrightarrow> arrays_ok st \<and>
     (\<forall>j. lo \<le> j \<and> j \<le> upperBound s d \<and> even (j - d) \<longrightarrow>
        (j = upperBound s d \<or> readable st (j + 1) \<and> clean s t (d - 1) st (j + 1)) \<and>
        (j = lowerBound t d \<or> readable st (j - 1) \<and> clean s t (d - 1) st (j - 1)))"

lemma readyD:
  assumes "ready s t d lo st" "lo \<le> k" "k \<le> upperBound s d" "even (k - d)"
  shows "k = upperBound s d \<or> readable st (k + 1)" "k = upperBound s d \<or> clean s t (d - 1) st (k + 1)"
    "k = lowerBound t d \<or> readable st (k - 1)" "k = lowerBound t d \<or> clean s t (d - 1) st (k - 1)" "arrays_ok st"
  using assms unfolding ready_def by blast+

lemma ready_mono:
  assumes "ready s t d lo st" "extends st st'" "\<And>j. odd (j - d) \<Longrightarrow> agree st st' j"
  shows "ready s t d lo st'"
proof -
  have "clean s t (d - 1) st' (j + 1) = clean s t (d - 1) st (j + 1)" "clean s t (d - 1) st' (j - 1) = clean s t (d - 1) st (j - 1)"
    if "even (j - d)" for j
    using that by (auto intro!: agree_clean assms(3))
  then show ?thesis
    using assms(1,2) unfolding ready_def extends_def by auto
qed

lemma neighbours_room:
  assumes "arrays_ok st" "k = u \<or> readable st (k + 1)" "k = l \<or> readable st (k - 1)" "l < 0" "0 < u"
  shows "room st k"
proof (cases "0 \<le> k")
  case True
  then show ?thesis
    using assms room_near [of st "k - 1" k] room_small [of st k] by (cases "k = 0") auto
next
  case False
  then show ?thesis
    using assms room_near [of st "k + 1" k] room_small [of st k] by (cases "k = - 1") auto
qed

lemma ready_turn:
  assumes r: "regular s t d" "1 \<le> d" and ready: "ready s t d lo st" "lo \<le> k" "k \<le> upperBound s d" "even (k - d)"
    and eq: "myers_diagonal s t d k st = (f, st')"
  shows "if f then found s t d st' k else turn s t d st k st'"
proof -
  note rd = readyD [OF ready]
  have b: "lowerBound t d < 0" "0 < upperBound s d"
    using bounds_parity [OF r] by auto
  define x where "x = candidate s t d st k"
  have c: "0 \<le> x" "x \<le> seq_length s" "min k (seq_length s) \<le> x"
    "x - k \<le> seq_length t \<longrightarrow> reaches s t d (chosen_path s t d st k) x k"
    using candidate_clean [OF rd(2,4)] b unfolding x_def by auto
  have n: "0 \<le> seq_length s" "seq_length s < 2147483648"
    using r(1) by (auto simp: regular_def)
  note v = diagonal_value [OF rd(5) neighbours_room [OF rd(5,1,3) b] rd(1,3) n c(1) [unfolded x_def] eq, folded x_def]
  show ?thesis
  proof (cases "seq_length t < x - k")
    case True
    then have "\<not> f" "st' = st"
      using v by auto
    then show ?thesis
      using True by (simp add: turn_def x_def [symmetric])
  next
    case False
    then have le: "x - k \<le> seq_length t"
      by simp
    then have st': "readable st' k" "vv st' k = snake_loop s t x (x - k)"
      "pp st' k = (if snake_loop s t x (x - k) = x then chosen_path s t d st k
         else Some (SnakePath (chosen_path s t d st k) (Some x) (Some (x - k)) (Some (snake_loop s t x (x - k) - x))))"
      "f \<longleftrightarrow> vv st' k = seq_length s \<and> vv st' k - k = seq_length t"
      using v by (simp_all add: Let_def)
    have cl: "clean s t d st' k"
      by (rule diagonal_clean [OF _ c(1,2) le c(3) st'(2,3)]) (use c(4) le in blast)
    have "f \<longleftrightarrow> vv st' k = seq_length s \<and> k = seq_length s - seq_length t"
      using st'(4) by auto
    then show ?thesis
      using False cl st'(1,2) by (cases f) (auto simp: turn_def found_def x_def [symmetric])
  qed
qed

lemma candidate_cong: "agree st st' (k + 1) \<Longrightarrow> agree st st' (k - 1) \<Longrightarrow> candidate s t d st' k = candidate s t d st k"
  unfolding candidate_def agree_def by (simp only:)

lemma turn_cong:
  assumes "turn s t d st k st'" "agree st0 st (k + 1)" "agree st0 st (k - 1)" "agree st0 st k" "agree st' st'' k" "extends st' st''"
  shows "turn s t d st0 k st''"
  using assms(1) candidate_cong [OF assms(2,3), of s t d] agree_clean [OF assms(5), of s t d] assms(4-6)
  by (auto simp: turn_def Let_def extends_def agree_def split: if_splits)

lemma diagonals_run:
  assumes "regular s t d" "1 \<le> d" "ready s t d lo st" "lo \<le> k" "even (k - d)" "myers_diagonals s t d k st = (r, st')"
  shows "(\<forall>j. j < k \<or> upperBound s d < j \<or> odd (j - d) \<longrightarrow> agree st st' j) \<and> extends st st' \<and>
    (case r of Some j \<Rightarrow> found s t d st' j | None \<Rightarrow> \<forall>j. k \<le> j \<and> j \<le> upperBound s d \<and> even (j - d) \<longrightarrow> turn s t d st j st')"
  using assms
proof (induction s t d k st rule: myers_diagonals.induct)
  case (1 s t d k st)
  show ?case
  proof (cases "k \<le> upperBound s d")
    case True
    obtain f st1 where d: "myers_diagonal s t d k st = (f, st1)"
      by (metis surj_pair)
    have t: "if f then found s t d st1 k else turn s t d st k st1"
      by (rule ready_turn [OF "1.prems"(1-4) True "1.prems"(5) d])
    have ag: "\<forall>j. j \<noteq> k \<longrightarrow> agree st st1 j" and ext: "extends st st1"
      using diagonal_agree [OF d] diagonal_extends [OF d] by blast+
    show ?thesis
    proof (cases f)
      case True
      then have "r = Some k" "st' = st1"
        using "1.prems"(6) d \<open>k \<le> upperBound s d\<close> by (auto simp: myers_diagonals.simps [of s t d k st])
      then show ?thesis
        using True t ag ext "1.prems"(5) \<open>k \<le> upperBound s d\<close> by auto
    next
      case False
      then have r: "myers_diagonals s t d (k + 2) st1 = (r, st')"
        using "1.prems"(6) d \<open>k \<le> upperBound s d\<close> by (simp add: myers_diagonals.simps [of s t d k st])
      have "ready s t d lo st1"
        using ag "1.prems"(5) by (intro ready_mono [OF "1.prems"(3) ext]) auto
      then have IH: "\<forall>j. j < k + 2 \<or> upperBound s d < j \<or> odd (j - d) \<longrightarrow> agree st1 st' j" "extends st1 st'"
        "case r of Some j \<Rightarrow> found s t d st' j | None \<Rightarrow> \<forall>j. k + 2 \<le> j \<and> j \<le> upperBound s d \<and> even (j - d) \<longrightarrow> turn s t d st1 j st'"
        using "1.IH" [OF True d [symmetric] _ "1.prems"(1,2) _ _ _ r] False "1.prems"(4,5) by auto
      have "agree st st' j" if "j < k \<or> upperBound s d < j \<or> odd (j - d)" for j
        using that ag IH(1) True "1.prems"(5) by (intro agree_trans [of st st1 j st']) auto
      moreover have "turn s t d st j st'" if "r = None" "k \<le> j" "j \<le> upperBound s d" "even (j - d)" for j
      proof (cases "j = k")
        case True
        have "turn s t d st k st1" "agree st1 st' k"
          using t False IH(1) by simp_all
        then show ?thesis
          using turn_cong [OF _ agree_refl agree_refl agree_refl _ IH(2)] True by blast
      next
        case False
        then have "k + 2 \<le> j"
          using that "1.prems"(5) by presburger
        moreover from this have "turn s t d st1 j st'"
          using IH(3) that by simp
        ultimately show ?thesis
          using turn_cong [of s t d st1 j st' st st'] ag by simp
      qed
      ultimately show ?thesis
        using IH(2,3) extends_trans [OF ext] by (auto split: option.splits)
    qed
  next
    case False
    then show ?thesis
      using "1.prems"(6) by (auto simp: myers_diagonals.simps [of s t d k st])
  qed
qed


section \<open>The invariant between two rounds\<close>

definition cost_bound :: "int \<Rightarrow> int \<Rightarrow> int" where
  "cost_bound d k = (if even (k - d) then d else d - 1)"

text \<open>From the border \<open>L\<close> on the diagonals are clean and grow.\<close>

definition coverage :: "iSequence \<Rightarrow> iSequence \<Rightarrow> int \<Rightarrow> int \<Rightarrow> myersState \<Rightarrow> bool" where
  "coverage s t d L st \<longleftrightarrow> arrays_ok st \<and>
     (\<forall>k. 0 \<le> k \<and> k \<le> highest s d \<longrightarrow> readable st k) \<and>
     (\<forall>k. lowerBound t d < k \<and> k < 0 \<longrightarrow> readable st k) \<and>
     (\<forall>k. highest s d < k \<longrightarrow> vv st k = 0) \<and>
     (\<forall>k. L \<le> k \<and> k \<le> highest s d \<longrightarrow> clean s t (cost_bound d k) st k) \<and>
     (\<forall>k. L < k \<and> k \<le> highest s d \<longrightarrow> growing s t st k)"

text \<open>Below an open border no diagonal has been entered.\<close>

definition open_border :: "iSequence \<Rightarrow> iSequence \<Rightarrow> int \<Rightarrow> int \<Rightarrow> myersState \<Rightarrow> bool" where
  "open_border s t d L st \<longleftrightarrow> L = - min d (seq_length t) \<and> (\<forall>k<L. vv st k = 0 \<and> pp st k = None) \<and> growing s t st L \<and>
     (readable st L \<or> vv st (L + 1) = L + 1 + seq_length t)"

text \<open>A closed border lies below a diagonal that has reached the last row; anything may have happened beyond it.\<close>

definition closed_border :: "iSequence \<Rightarrow> iSequence \<Rightarrow> int \<Rightarrow> int \<Rightarrow> myersState \<Rightarrow> bool" where
  "closed_border s t d L st \<longleftrightarrow> L < 0 \<and> - min d (seq_length t) \<le> L \<and> vv st (L + 1) = L + 1 + seq_length t"

definition search_inv :: "iSequence \<Rightarrow> iSequence \<Rightarrow> int \<Rightarrow> int \<Rightarrow> bool \<Rightarrow> myersState \<Rightarrow> bool" where
  "search_inv s t d L closed st \<longleftrightarrow> coverage s t d L st \<and> (if closed then closed_border s t d L st else open_border s t d L st)"

lemma coverageD:
  assumes "coverage s t d L st"
  shows "arrays_ok st" "0 \<le> k \<Longrightarrow> k \<le> highest s d \<Longrightarrow> readable st k" "lowerBound t d < k \<Longrightarrow> k < 0 \<Longrightarrow> readable st k"
    "highest s d < k \<Longrightarrow> vv st k = 0" "L \<le> k \<Longrightarrow> k \<le> highest s d \<Longrightarrow> clean s t (cost_bound d k) st k"
    "L < k \<Longrightarrow> k \<le> highest s d \<Longrightarrow> growing s t st k"
  using assms unfolding coverage_def by blast+

lemma cleanD:
  assumes "clean s t d st k"
  shows "0 \<le> vv st k" "vv st k \<le> seq_length s" "vv st k - k \<le> seq_length t" "min k (seq_length s) \<le> vv st k" "reaches s t d (pp st k) (vv st k) k"
  using assms unfolding clean_def by blast+

lemma coverage_nonneg: "coverage s t d L st \<Longrightarrow> L \<le> k \<Longrightarrow> 0 \<le> vv st k"
  using coverageD(4,5) cleanD(1) by (cases "k \<le> highest s d") fastforce+

lemma bounds_step:
  assumes "regular s t d" "1 \<le> d"
  shows "upperBound s d - 1 \<le> highest s (d - 1)" "upperBound s d \<le> highest s d"
    "even (k - d) \<Longrightarrow> k \<le> highest s d \<Longrightarrow> k \<le> upperBound s d"
    "highest s (d - 1) < k \<Longrightarrow> k \<le> highest s d \<Longrightarrow> k = upperBound s d \<and> upperBound s d = d"
    "upperBound s d = highest s d \<or> upperBound s d = seq_length s"
    "lowerBound t (d - 1) \<le> lowerBound t d + 1" "lowerBound t d \<le> - min d (seq_length t)" "- min (d - 1) (seq_length t) \<le> lowerBound t d + 1 \<or> 
      lowerBound t (d - 1) \<le> lowerBound t d"
proof -
  have "0 < seq_length s" "0 < seq_length t"
    using assms(1) by (auto simp: regular_def)
  moreover have "even (seq_length s) \<or> d \<le> seq_length s" "even (seq_length t) \<or> d \<le> seq_length t"
    using assms(1) by (auto simp: regular_def)
  moreover have "d mod 2 = (if even d then 0 else 1)" "(d - 1) mod 2 = (if even d then 1 else 0)"
    by presburger+
  ultimately show "upperBound s d - 1 \<le> highest s (d - 1)" "upperBound s d \<le> highest s d"
    "even (k - d) \<Longrightarrow> k \<le> highest s d \<Longrightarrow> k \<le> upperBound s d"
    "highest s (d - 1) < k \<Longrightarrow> k \<le> highest s d \<Longrightarrow> k = upperBound s d \<and> upperBound s d = d"
    "upperBound s d = highest s d \<or> upperBound s d = seq_length s"
    "lowerBound t (d - 1) \<le> lowerBound t d + 1" "lowerBound t d \<le> - min d (seq_length t)" "- min (d - 1) (seq_length t) \<le> lowerBound t d + 1 \<or> 
      lowerBound t (d - 1) \<le> lowerBound t d"
    unfolding upperBound_def lowerBound_def highest_def min_def using assms(2) by presburger+
qed

section \<open>What a round keeps\<close>

text \<open>The diagonals of the round have had their turn, all others from the border on are as before.\<close>

definition round_done :: "iSequence \<Rightarrow> iSequence \<Rightarrow> int \<Rightarrow> int \<Rightarrow> bool \<Rightarrow> myersState \<Rightarrow> myersState \<Rightarrow> bool" where
  "round_done s t d L closed st st' \<longleftrightarrow> extends st st' \<and>
     (\<forall>j. lowerBound t d < j \<and> j < 0 \<longrightarrow> readable st' j) \<and>
     (\<forall>j. L \<le> j \<longrightarrow> (if even (j - d) \<and> j \<le> upperBound s d \<and> (closed \<longrightarrow> L < j) then turn s t d st j st' else agree st st' j))"

text \<open>What holds at the start of the round for the border that holds at its end.\<close>

definition prepared :: "iSequence \<Rightarrow> iSequence \<Rightarrow> int \<Rightarrow> int \<Rightarrow> bool \<Rightarrow> myersState \<Rightarrow> bool" where
  "prepared s t d L closed st \<longleftrightarrow> arrays_ok st \<and> lowerBound t d \<le> L \<and> (closed \<longrightarrow> L < 0) \<and> L \<le> 0 \<and>
     (\<forall>k. 0 \<le> k \<and> k \<le> highest s (d - 1) \<longrightarrow> readable st k) \<and>
     (\<forall>k. highest s (d - 1) < k \<longrightarrow> vv st k = 0) \<and>
     (\<forall>k. L \<le> k \<and> k \<le> highest s (d - 1) \<longrightarrow> clean s t (cost_bound d k) st k) \<and>
     (\<forall>k. (if closed then L < k else L \<le> k) \<and> k \<le> highest s (d - 1) \<longrightarrow> growing s t st k) \<and>
     (\<not> closed \<and> even (L - d) \<longrightarrow> vv st L = 0)"

lemma preparedD:
  assumes "prepared s t d L closed st"
  shows "arrays_ok st" "lowerBound t d \<le> L" "0 \<le> k \<Longrightarrow> k \<le> highest s (d - 1) \<Longrightarrow> readable st k"
    "highest s (d - 1) < k \<Longrightarrow> vv st k = 0" "L \<le> k \<Longrightarrow> k \<le> highest s (d - 1) \<Longrightarrow> clean s t (cost_bound d k) st k"
    "(if closed then L < k else L \<le> k) \<Longrightarrow> k \<le> highest s (d - 1) \<Longrightarrow> growing s t st k"
    "\<not> closed \<Longrightarrow> even (L - d) \<Longrightarrow> vv st L = 0" "L \<le> 0"
  using assms unfolding prepared_def by blast+

lemma prepared_nonneg: "prepared s t d L closed st \<Longrightarrow> L \<le> k \<Longrightarrow> 0 \<le> vv st k"
  using preparedD(4,5) cleanD(1) by (cases "k \<le> highest s (d - 1)") fastforce+

lemma round_doneD:
  assumes "round_done s t d L closed st st'" "L \<le> j"
  shows "even (j - d) \<Longrightarrow> j \<le> upperBound s d \<Longrightarrow> (closed \<Longrightarrow> L < j) \<Longrightarrow> turn s t d st j st'"
    "odd (j - d) \<or> upperBound s d < j \<or> closed \<and> j = L \<Longrightarrow> agree st st' j"
  using assms unfolding round_done_def by auto

lemma turn_cases:
  assumes "turn s t d st k st'"
  shows "seq_length t < candidate s t d st k - k \<and> agree st st' k \<or>
    candidate s t d st k - k \<le> seq_length t \<and> readable st' k \<and> clean s t d st' k \<and>
      vv st' k = snake_loop s t (candidate s t d st k) (candidate s t d st k - k)"
  using assms by (auto simp: turn_def Let_def split: if_splits)

text \<open>Apart from the lowest diagonal the candidate is the one of \<open>growing\<close>.\<close>

lemma candidate_best:
  assumes r: "regular s t d" "1 \<le> d" and p: "prepared s t d L closed st" and k: "L < k" "k \<le> upperBound s d"
  shows "candidate s t d st k = min (max (vv st (k + 1)) (vv st (k - 1) + 1)) (seq_length s)"
proof -
  have l: "k \<noteq> lowerBound t d"
    using preparedD(2) [OF p] k by simp
  have nn: "0 \<le> vv st (k - 1)"
    using prepared_nonneg [OF p] k by simp
  show ?thesis
  proof (cases "k = upperBound s d")
    case True
    have h: "k - 1 \<le> highest s (d - 1)"
      using bounds_step(1) [OF r] True by simp
    have "vv st (k + 1) \<le> vv st (k - 1) + 1 \<or> seq_length s \<le> vv st (k - 1) + 1"
    proof (cases "k = highest s d")
      case True
      then have "vv st (k + 1) = 0"
        using preparedD(4) [OF p, of "k + 1"] by (simp add: highest_def)
      then show ?thesis using nn by simp
    next
      case False
      then have "k = seq_length s"
        using True bounds_step(5) [OF r] by simp
      then show ?thesis
        using cleanD(4) [OF preparedD(5) [OF p _ h]] k by simp
    qed
    then show ?thesis
      using True l nn by (auto simp: candidate_def)
  next
    case False
    then show ?thesis
      using l by (simp add: candidate_def)
  qed
qed

text \<open>Values never decrease.\<close>

lemma round_grows:
  assumes r: "regular s t d" "1 \<le> d" and p: "prepared s t d L closed st" and rd: "round_done s t d L closed st st'" and k: "L \<le> k"
  shows "vv st k \<le> vv st' k"
proof (cases "even (k - d) \<and> k \<le> upperBound s d \<and> (closed \<longrightarrow> L < k)")
  case False
  then have "agree st st' k"
    using round_doneD(2) [OF rd k] k by fastforce
  then show ?thesis by (simp add: agree_def)
next
  case True
  then have t: "turn s t d st k st'"
    using round_doneD(1) [OF rd k] by simp
  consider "agree st st' k" | "clean s t d st' k" "vv st k = 0" |
    "candidate s t d st k - k \<le> seq_length t" "vv st' k = snake_loop s t (candidate s t d st k) (candidate s t d st k - k)" "L < k" "k \<le> highest s (d - 1)"
    using turn_cases [OF t] preparedD(7) [OF p] preparedD(4) [OF p, of k] k True by fastforce
  then show ?thesis
  proof cases
    case 3
    then show ?thesis
      using preparedD(6) [OF p, of k] candidate_best [OF r p, of k] True by (simp add: growing_def Let_def)
  qed (auto simp: agree_def clean_def)
qed

lemma highest_turn:
  assumes r: "regular s t d" "1 \<le> d" and p: "prepared s t d L closed st" and rd: "round_done s t d L closed st st'"
    and k: "highest s (d - 1) < k" "k \<le> highest s d"
  shows "readable st' k \<and> clean s t d st' k \<and> vv st' k = snake_loop s t (candidate s t d st k) (candidate s t d st k - k)"
proof -
  have u: "k = upperBound s d" "k = d"
    using bounds_step(4) [OF r k] by auto
  have L: "L < k" "L \<le> k - 1"
    using preparedD(8) [OF p] u(2) r(2) by auto
  have h: "k - 1 \<le> highest s (d - 1)"
    using bounds_step(1) [OF r] u by simp
  have "vv st (k - 1) - (k - 1) \<le> seq_length t" "vv st (k + 1) = 0"
    using cleanD(3) [OF preparedD(5) [OF p L(2) h]] preparedD(4) [OF p, of "k + 1"] k by auto
  then have "candidate s t d st k - k \<le> seq_length t"
    using candidate_best [OF r p, of k] u L r by (auto simp: regular_def)
  moreover have "turn s t d st k st'"
    using round_doneD(1) [OF rd] L u by simp
  ultimately show ?thesis
    using turn_cases by fastforce
qed

lemma growing_zero:
  assumes "vv st k = 0" "0 \<le> vv st (k + 1)" "0 \<le> seq_length s"
  shows "growing s t st k"
proof -
  let ?c = "min (max (vv st (k + 1)) (vv st (k - 1) + 1)) (seq_length s)"
  have "0 \<le> ?c"
    using assms by simp
  then have "vv st k \<le> snake_loop s t ?c (?c - k)"
    using assms(1) snake_ge [of ?c s t "?c - k"] by linarith
  then show ?thesis
    unfolding growing_def Let_def by blast
qed

lemma round_growing:
  assumes r: "regular s t d" "1 \<le> d" and p: "prepared s t d L closed st" and rd: "round_done s t d L closed st st'"
    and k: "if closed then L < k else L \<le> k" "k \<le> highest s d"
    and left: "0 \<le> vv st (k - 1)" "vv st (k - 1) \<le> vv st' (k - 1)" "even (k - d) \<longrightarrow> agree st st' (k - 1)"
  shows "growing s t st' k"
proof -
  have Lk: "L \<le> k"
    using k(1) by (auto split: if_splits)
  have top: "0 \<le> vv st (k + 1)" "vv st (k + 1) \<le> vv st' (k + 1)"
    using prepared_nonneg [OF p] round_grows [OF r p rd] Lk by auto
  show ?thesis
  proof (cases "agree st st' k")
    case True
    moreover have "growing s t st' k" if "highest s (d - 1) < k"
      using True that preparedD(4) [OF p] top r(1) by (intro growing_zero) (auto simp: agree_def regular_def)
    ultimately show ?thesis
      using growing_step [OF preparedD(6) [OF p k(1)]] top left by (fastforce simp: agree_def not_le)
  next
    case False
    then have ev: "even (k - d)" "k \<le> upperBound s d"
      using round_doneD(2) [OF rd Lk] not_less by blast+
    then have "turn s t d st k st'"
      using round_doneD(1) [OF rd Lk] k by (simp split: if_splits)
    then have "vv st' k = snake_loop s t (candidate s t d st k) (candidate s t d st k - k)"
      using turn_cases False by blast
    moreover have "agree st st' (k + 1)"
      using round_doneD(2) [OF rd, of "k + 1"] ev Lk by simp
    ultimately show ?thesis
      using growing_new top left ev by (simp add: agree_def)
  qed
qed

lemma round_coverage:
  assumes r: "regular s t d" "1 \<le> d" and p: "prepared s t d L closed st" and rd: "round_done s t d L closed st st'"
  shows "coverage s t d L st'"
  unfolding coverage_def
proof (intro conjI allI impI)
  have ext: "extends st st'"
    using rd by (simp add: round_done_def)
  then show "arrays_ok st'"
    using preparedD(1) [OF p] by (simp add: extends_def)
  fix k
  show "readable st' k" if "0 \<le> k \<and> k \<le> highest s d"
    using that extends_readable [OF ext preparedD(3) [OF p, of k]] highest_turn [OF r p rd, of k] by (cases "k \<le> highest s (d - 1)") auto
  show "readable st' k" if "lowerBound t d < k \<and> k < 0"
    using rd that by (simp add: round_done_def)
  show "vv st' k = 0" if "highest s d < k"
  proof -
    have "L \<le> k" "upperBound s d < k" "highest s (d - 1) < k"
      using that preparedD(8) [OF p] bounds_step(2) [OF r] r by (auto simp: highest_def regular_def)
    then show ?thesis
      using round_doneD(2) [OF rd, of k] preparedD(4) [OF p, of k] by (simp add: agree_def)
  qed
  show "clean s t (cost_bound d k) st' k" if k: "L \<le> k \<and> k \<le> highest s d"
  proof (cases "k \<le> highest s (d - 1)")
    case False
    then show ?thesis
      using highest_turn [OF r p rd, of k] k bounds_step(4) [OF r, of k] by (simp add: cost_bound_def)
  next
    case True
    then have c: "clean s t (cost_bound d k) st k"
      using preparedD(5) [OF p] k by blast
    show ?thesis
    proof (cases "agree st st' k")
      case True
      then show ?thesis using c agree_clean by blast
    next
      case False
      then have "even (k - d)" "k \<le> upperBound s d" "closed \<longrightarrow> k \<noteq> L"
        using round_doneD(2) [OF rd, of k] k by (auto simp: not_less [symmetric])
      then show ?thesis
        using round_doneD(1) [OF rd, of k] turn_cases [of s t d st k st'] False k by (auto simp: cost_bound_def)
    qed
  qed
  show "growing s t st' k" if "L < k \<and> k \<le> highest s d"
  proof (rule round_growing [OF r p rd])
    show "even (k - d) \<longrightarrow> agree st st' (k - 1)"
      using round_doneD(2) [OF rd, of "k - 1"] that by simp
  qed (use that prepared_nonneg [OF p, of "k - 1"] round_grows [OF r p rd, of "k - 1"] in auto)
qed

section \<open>A round with an open border\<close>

lemma ready_prepared:
  assumes r: "regular s t d" "1 \<le> d" and p: "prepared s t d L closed st" and rd: "\<And>j. lowerBound t d < j \<Longrightarrow> j < 0 \<Longrightarrow> readable st j"
    and lo: "lo = lowerBound t d \<and> L \<le> lo + 1 \<or> L < lo"
  shows "ready s t d lo st"
  unfolding ready_def
proof (intro conjI allI impI)
  show "arrays_ok st"
    by (rule preparedD(1) [OF p])
  fix j
  assume j: "lo \<le> j \<and> j \<le> upperBound s d \<and> even (j - d)"
  have ok: "readable st i \<and> clean s t (d - 1) st i" if "L \<le> i" "lowerBound t d < i" "i < upperBound s d" "odd (i - d)" for i
    using preparedD(3,5) [OF p, of i] rd [of i] bounds_step(1) [OF r] that by (cases "i < 0") (simp_all add: cost_bound_def)
  have lb: "lowerBound t d \<le> L"
    by (rule preparedD(2) [OF p])
  show "j = upperBound s d \<or> readable st (j + 1) \<and> clean s t (d - 1) st (j + 1)"
  proof (cases "j = upperBound s d")
    case False
    moreover have "even (upperBound s d - d)"
      by (rule bounds_parity [OF r])
    ultimately have "j + 1 < upperBound s d"
      using j by presburger
    moreover have "L \<le> j + 1" "lowerBound t d < j + 1"
      using j lo lb by linarith+
    ultimately show ?thesis using ok [of "j + 1"] j by simp
  qed simp
  show "j = lowerBound t d \<or> readable st (j - 1) \<and> clean s t (d - 1) st (j - 1)"
  proof (cases "j = lowerBound t d")
    case False
    moreover have "even (lowerBound t d - d)"
      by (rule bounds_parity [OF r])
    ultimately have "lowerBound t d + 1 < j"
      using j lo lb by presburger
    moreover from this have "L \<le> j - 1" "j - 1 < upperBound s d"
      using j lo by linarith+
    ultimately show ?thesis using ok [of "j - 1"] j by simp
  qed simp
qed

lemma prepared_open:
  assumes r: "regular s t d" "1 \<le> d" and inv: "search_inv s t (d - 1) L False st"
  shows "prepared s t d (- min d (seq_length t)) False st"
proof -
  let ?L = "- min d (seq_length t)"
  have cov: "coverage s t (d - 1) L st" and L: "L = - min (d - 1) (seq_length t)" and below: "\<And>k. k < L \<Longrightarrow> vv st k = 0 \<and> pp st k = None"
    and gr: "growing s t st L"
    using inv by (auto simp: search_inv_def open_border_def)
  have n: "0 < seq_length s" "0 < seq_length t"
    using r(1) by (auto simp: regular_def)
  have new: "k = - d \<and> d \<le> seq_length t" if "?L \<le> k" "k < L" for k
    using that L by auto
  have unwritten: "clean s t (cost_bound d k) st k \<and> growing s t st k" if "?L \<le> k" "k < L" for k
  proof -
    have "vv st k = 0" "pp st k = None" "k = - d" "d \<le> seq_length t"
      using below new that by blast+
    moreover have "0 \<le> vv st (k + 1)"
      using below [of "k + 1"] coverage_nonneg [OF cov, of "k + 1"] by (cases "k + 1 < L") auto
    ultimately show ?thesis
      using n r(2) growing_zero by (auto simp: clean_def reaches_def cost_bound_def)
  qed
  have "clean s t (cost_bound d k) st k" if "?L \<le> k" "k \<le> highest s (d - 1)" for k
    using that unwritten clean_mono [OF coverageD(5) [OF cov], of k "cost_bound d k"] by (cases "k < L") (auto simp: cost_bound_def)
  moreover have "growing s t st k" if "?L \<le> k" "k \<le> highest s (d - 1)" for k
    using that unwritten coverageD(6) [OF cov, of k] gr by (cases k L rule: linorder_cases) auto
  moreover have "vv st ?L = 0"
  proof (cases "?L < L")
    case False
    then have "?L = L" "L = - seq_length t" "L \<le> highest s (d - 1)"
      using L n r(2) by (auto simp: highest_def)
    then show ?thesis
      using cleanD(1,3) [OF coverageD(5) [OF cov, of L]] by simp
  qed (use below in blast)
  ultimately show ?thesis
    using coverageD(1-4) [OF cov] bounds_step(7) [OF r] n r(2) unfolding prepared_def by auto
qed

lemma lowest_turn:
  assumes r: "regular s t d" "1 \<le> d" and p: "prepared s t d L closed st" "L \<le> lowerBound t d + 1" and turn: "turn s t d st (lowerBound t d) st'"
  shows "readable st' (lowerBound t d) \<and> - seq_length t \<le> lowerBound t d \<or>
    agree st st' (lowerBound t d) \<and> vv st (lowerBound t d + 1) = lowerBound t d + 1 + seq_length t"
proof -
  let ?l = "lowerBound t d"
  have b: "?l < 0" "0 < upperBound s d" "?l + 1 \<le> highest s (d - 1)"
    using bounds_parity(3,4) [OF r] r by (auto simp: highest_def regular_def)
  note c = cleanD [OF preparedD(5) [OF p b(3)]]
  have "candidate s t d st ?l = vv st (?l + 1)"
    using b c by (simp add: candidate_def)
  then show ?thesis
    using turn_cases [OF turn] c(1,3) by auto
qed

lemma round_open:
  assumes r: "regular s t d" "1 \<le> d" and inv: "search_inv s t (d - 1) L False st" and e: "readable st (lowerBound t d + 1)"
    and eq: "myers_diagonals s t d (lowerBound t d) st = (res, st')" and L': "L' = - min d (seq_length t)"
  shows "case res of Some j \<Rightarrow> found s t d st' j | None \<Rightarrow> round_done s t d L' False st st' \<and> search_inv s t d L' False st'"
proof -
  let ?l = "lowerBound t d"
  note p = prepared_open [OF r inv, folded L']
  have L: "L' \<le> ?l + 1" "?l \<le> L'" "?l = L' \<or> ?l < - seq_length t"
    using lowerBound_cases [OF r] bounds_step(7) [OF r] r by (auto simp: regular_def L')
  have cov: "coverage s t (d - 1) L st" and below: "\<And>k. k < L \<Longrightarrow> vv st k = 0 \<and> pp st k = None" and LL: "L' \<le> L"
    using inv r by (auto simp: search_inv_def open_border_def L')
  have rd: "readable st j" if "?l < j" "j < 0" for j
    using that e coverageD(3) [OF cov, of j] bounds_step(6) [OF r] by (cases "j = ?l + 1") auto
  have ready: "ready s t d ?l st"
    by (rule ready_prepared [OF r p rd]) (use L in auto)
  have ev: "even (?l - d)"
    by (rule bounds_parity [OF r])
  note run = diagonals_run [OF r ready order_refl ev eq]
  show ?thesis
  proof (cases res)
    case None
    have run: "\<forall>j. j < ?l \<or> upperBound s d < j \<or> odd (j - d) \<longrightarrow> agree st st' j" "extends st st'"
      "\<forall>j. ?l \<le> j \<and> j \<le> upperBound s d \<and> even (j - d) \<longrightarrow> turn s t d st j st'"
      using run None by auto
    have rdone: "round_done s t d L' False st st'"
      using run L(2) rd extends_readable [OF run(2)] unfolding round_done_def by auto
    have "turn s t d st ?l st'"
      using run(3) ev bounds_parity(3,4) [OF r] by simp
    note lt = lowest_turn [OF r p L(1) this]
    have agree: "agree st st' k" if "k < L'" for k
    proof (cases "k < ?l")
      case False
      then have "k = ?l" "?l < - seq_length t"
        using that L by linarith+
      then show ?thesis using lt by simp
    qed (use run(1) in blast)
    have "growing s t st' L'"
      by (rule round_growing [OF r p rdone])
        (use agree [of "L' - 1"] below [of "L' - 1"] LL r in \<open>auto simp: agree_def highest_def regular_def L'\<close>)
    moreover have "vv st' k = 0 \<and> pp st' k = None" if "k < L'" for k
      using agree [OF that] below [of k] that LL by (simp add: agree_def)
    moreover have "readable st' L' \<or> vv st' (L' + 1) = L' + 1 + seq_length t"
    proof (cases "?l = L'")
      case True
      then show ?thesis
        using lt run(1) ev by (auto simp: agree_def)
    next
      case False
      then have "L' = ?l + 1"
        using L(1,2) by simp
      then show ?thesis
        using extends_readable [OF run(2) e] by simp
    qed
    ultimately show ?thesis
      using None rdone round_coverage [OF r p rdone] L' by (simp add: search_inv_def open_border_def)
  qed (use run in simp)
qed


end
