(* ===== verification/Diff_Myers_Border.thy ===== *)
theory Diff_Myers_Border
  imports Diff_Myers_Round
begin

text \<open>
  Rounds of the search of \<open>Diff_Myers\<close> with a closed border: a diagonal has been read behind the end of the array, and the entries
  below the border are not numbers of the algorithm any more.  They do not matter.
\<close>

lemma found_diagonal: "myers_diagonal s t d k st = (True, st') \<Longrightarrow> k = seq_length s - seq_length t"
  by (auto simp: myers_diagonal_def Let_def js_eq_def js_minus_def split: if_splits option.splits)

lemma unread_diagonal:
  assumes "k = lowerBound t d" "k \<noteq> upperBound s d" "\<not> readable st (k + 1)" "room st k" "0 < seq_length s"
    and eq: "myers_diagonal s t d k st = (f, st')"
  shows "\<not> f \<and> readable st' k"
proof -
  have get: "FastInt32Array_get (my_V st) (k + 1) = None"
    using assms(3) by (simp add: readable_def)
  have "FastInt32Array_get (FastInt32Array_set k None (my_V st)) k = Some 0"
    using V_set_same [OF assms(4), of None] by simp
  moreover have "my_V st' = FastInt32Array_set k None (my_V st)"
    "f \<longleftrightarrow> js_eq (FastInt32Array_get (FastInt32Array_set k None (my_V st)) k) (Some (seq_length s)) \<and>
      js_eq (js_minus (FastInt32Array_get (FastInt32Array_set k None (my_V st)) k) (Some k)) (Some (seq_length t))"
    using eq assms(1,2) get by (auto simp: myers_diagonal_def Let_def getXAfterSnake_def)
  ultimately show ?thesis
    using assms(5) by (simp add: readable_def)
qed

lemma lower_step:
  assumes r: "regular s t d" "1 \<le> d" and st: "arrays_ok st" "\<And>j. lowerBound t (d - 1) < j \<Longrightarrow> j < 0 \<Longrightarrow> readable st j"
    "\<not> readable st (lowerBound t d + 1)"
  shows "\<exists>st1. myers_diagonals s t d (lowerBound t d) st = myers_diagonals s t d (lowerBound t d + 2) st1 \<and> extends st st1 \<and>
    (\<forall>j. j \<noteq> lowerBound t d \<longrightarrow> agree st st1 j) \<and> (\<forall>j. lowerBound t d < j \<and> j < 0 \<longrightarrow> readable st1 j)"
proof -
  let ?l = "lowerBound t d"
  have b: "?l < 0" "0 < upperBound s d"
    by (rule bounds_parity [OF r])+
  have "?l + 2 < 0"
    using readable_small [OF st(1), of "?l + 1"] st(3) b by linarith
  moreover from this have "readable st (?l + 2)"
    using st(2) bounds_step(6) [OF r] by simp
  ultimately have room: "room st ?l"
    using room_near [OF st(1), of "?l + 2" ?l] by simp
  obtain f st1 where d: "myers_diagonal s t d ?l st = (f, st1)"
    by (metis surj_pair)
  have f: "\<not> f" "readable st1 ?l"
    using unread_diagonal [OF refl _ st(3) room _ d] b r(1) by (auto simp: regular_def)
  have "myers_diagonals s t d ?l st = myers_diagonals s t d (?l + 2) st1"
    using d f b by (simp add: myers_diagonals.simps [of s t d ?l st])
  moreover have "readable st1 j" if "?l < j" "j < 0" for j
    using readable_between [OF f(2)] that by simp
  ultimately show ?thesis
    using diagonal_extends [OF d] diagonal_agree [OF d] by blast
qed

text \<open>The diagonal below one that has reached the last row is skipped.\<close>

lemma border_skipped:
  assumes "readable st (k + 1)" "vv st (k + 1) = k + 1 + seq_length t" "k + 1 + seq_length t \<le> seq_length s" "k \<noteq> upperBound s d"
    and "k = lowerBound t d \<or> readable st (k - 1)"
  shows "myers_diagonal s t d k st = (False, st)"
proof -
  define lf where "lf = (if k = lowerBound t d then Some (- 1) else js_add (FastInt32Array_get (my_V st) (k - 1)) (Some 1))"
  obtain v where v: "lf = Some v"
    using assms(5) get_readable [of st "k - 1"] by (cases "k = lowerBound t d") (auto simp: lf_def)
  have "seq_length t < min (max (k + 1 + seq_length t) v) (seq_length s) - k"
    using assms(3) by auto
  then show ?thesis
    using assms(2,4) get_readable [OF assms(1)] v by (simp add: myers_diagonal_def Let_def lf_def [symmetric])
qed

lemma below_border:
  assumes r: "regular s t d" "1 \<le> d" and L: "L < 0" "vv st (L + 1) = L + 1 + seq_length t" "L + 1 + seq_length t \<le> seq_length s"
      "readable st (L + 1)" "\<And>j. lowerBound t d < j \<Longrightarrow> j < 0 \<Longrightarrow> readable st j" and k: "lowerBound t d \<le> k" "k \<le> L + 2" "even (k - d)"
  shows "\<exists>k1 st1. myers_diagonals s t d k st = myers_diagonals s t d k1 st1 \<and> L < k1 \<and> even (k1 - d) \<and> k1 \<le> L + 2 \<and>
    extends st st1 \<and> (\<forall>j\<ge>L. agree st st1 j)"
  using assms
proof (induction s t d k st rule: myers_diagonals.induct)
  case (1 s t d k st)
  show ?case
  proof (cases "k \<le> L")
    case True
    have b: "0 < upperBound s d" "even (lowerBound t d - d)"
      by (rule bounds_parity [OF "1.prems"(1,2)])+
    obtain f st1 where d: "myers_diagonal s t d k st = (f, st1)"
      by (metis surj_pair)
    have f: "\<not> f"
      using found_diagonal [of s t d k st st1] d True "1.prems"(5) by (cases f) auto
    have ag: "agree st st1 j" if "L \<le> j" for j
    proof (cases "k = L")
      case True
      have "L = lowerBound t d \<or> readable st (L - 1)"
      proof (cases "L = lowerBound t d")
        case False
        then have "lowerBound t d < L - 1"
          using True b(2) "1.prems"(8,10) by presburger
        then show ?thesis using "1.prems"(3,7) by simp
      qed simp
      then have "st1 = st"
        using border_skipped [OF "1.prems"(6,4,5)] d True "1.prems"(3) b(1) by simp
      then show ?thesis by simp
    next
      case False
      then show ?thesis using diagonal_agree [OF d, of j] that \<open>k \<le> L\<close> by simp
    qed
    have ext: "extends st st1"
      by (rule diagonal_extends [OF d])
    have eq: "myers_diagonals s t d k st = myers_diagonals s t d (k + 2) st1"
      using d f True "1.prems"(3) b(1) by (simp add: myers_diagonals.simps [of s t d k st])
    have "\<exists>k1 st2. myers_diagonals s t d (k + 2) st1 = myers_diagonals s t d k1 st2 \<and> L < k1 \<and> even (k1 - d) \<and> k1 \<le> L + 2 \<and>
      extends st1 st2 \<and> (\<forall>j\<ge>L. agree st1 st2 j)"
    proof (rule "1.IH" [OF _ d [symmetric]])
      show "vv st1 (L + 1) = L + 1 + seq_length t"
        using ag [of "L + 1"] "1.prems"(4) by (simp add: agree_def)
    qed (use f True "1.prems" b extends_readable [OF ext] in auto)
    then show ?thesis
      unfolding eq using extends_trans [OF ext] agree_trans [OF ag] by blast
  next
    case False
    then have "L < k" by simp
    then show ?thesis
      using "1.prems"(9,10) extends_refl agree_refl by blast
  qed
qed


lemma prepared_closed:
  assumes r: "regular s t d" "1 \<le> d" and cov: "coverage s t (d - 1) L st" and cb: "closed_border s t (d - 1) L st"
  shows "prepared s t d L True st"
proof -
  have "clean s t (cost_bound d k) st k" if "L \<le> k" "k \<le> highest s (d - 1)" for k
    using clean_mono [OF coverageD(5) [OF cov that], of "cost_bound d k"] by (auto simp: cost_bound_def)
  moreover have "lowerBound t d \<le> L"
    using bounds_step(7) [OF r] cb by (auto simp: closed_border_def)
  ultimately show ?thesis
    using coverageD(1-4,6) [OF cov] cb unfolding prepared_def closed_border_def by simp
qed

lemma prepared_mono:
  assumes r: "regular s t d" "1 \<le> d" and p: "prepared s t d L True st" and ext: "extends st st'" and ag: "\<And>j. L \<le> j \<Longrightarrow> agree st st' j"
  shows "prepared s t d L True st'"
proof -
  have h: "L \<le> highest s (d - 1)"
    using preparedD(8) [OF p] r by (auto simp: highest_def regular_def)
  have vv: "vv st' j = vv st j" if "L \<le> j" for j
    using ag [OF that] by (simp add: agree_def)
  have "growing s t st' k" if "L < k" "k \<le> highest s (d - 1)" for k
    using growing_step [OF preparedD(6) [OF p], of k] vv that by simp
  moreover have "clean s t (cost_bound d k) st' k" if "L \<le> k" "k \<le> highest s (d - 1)" for k
    using preparedD(5) [OF p that] agree_clean [OF ag] that by simp
  moreover have "vv st' k = 0" if "highest s (d - 1) < k" for k
    using preparedD(4) [OF p that] vv [of k] that h by simp
  moreover have "readable st' k" if "0 \<le> k" "k \<le> highest s (d - 1)" for k
    using extends_readable [OF ext preparedD(3) [OF p that]] .
  moreover have "arrays_ok st'"
    using preparedD(1) [OF p] ext by (simp add: extends_def)
  ultimately show ?thesis
    using p unfolding prepared_def by simp
qed

text \<open>The part of the round below the border.\<close>

lemma enter_border:
  assumes r: "regular s t d" "1 \<le> d" and cov: "coverage s t (d - 1) L st" and cb: "closed_border s t (d - 1) L st"
  shows "\<exists>lo st1. myers_diagonals s t d (lowerBound t d) st = myers_diagonals s t d lo st1 \<and> L < lo \<and> even (lo - d) \<and> lo \<le> L + 2 \<and>
    extends st st1 \<and> (\<forall>j\<ge>L. agree st st1 j) \<and> (\<forall>j. lowerBound t d < j \<and> j < 0 \<longrightarrow> readable st1 j)"
proof -
  let ?l = "lowerBound t d"
  have L: "L < 0" "vv st (L + 1) = L + 1 + seq_length t" "?l \<le> L" "lowerBound t (d - 1) \<le> L"
    using cb bounds_step(7) [OF r] by (auto simp: closed_border_def lowerBound_def)
  have h: "L + 1 \<le> highest s (d - 1)"
    using L(1) r by (auto simp: highest_def regular_def)
  have n: "L + 1 + seq_length t \<le> seq_length s"
    using cleanD(2) [OF coverageD(5) [OF cov _ h]] L(2) by simp
  have top: "readable st (L + 1)"
    using coverageD(2,3) [OF cov, of "L + 1"] L h by (cases "L + 1 = 0") auto
  have ev: "even (?l - d)"
    by (rule bounds_parity [OF r])
  show ?thesis
  proof (cases "readable st (?l + 1)")
    case True
    have rd: "readable st j" if "?l < j" "j < 0" for j
      using True coverageD(3) [OF cov, of j] bounds_step(6) [OF r] that by (cases "j = ?l + 1") auto
    obtain lo st1 where "myers_diagonals s t d ?l st = myers_diagonals s t d lo st1" "L < lo" "even (lo - d)" "lo \<le> L + 2"
      "extends st st1" "\<forall>j\<ge>L. agree st st1 j"
      using below_border [OF r L(1,2) n top rd order_refl] L(3) ev by fastforce
    then show ?thesis
      using rd extends_readable by blast
  next
    case False
    then have lL: "?l < L"
      using top L(3) by (cases "?l = L") auto
    obtain st1 where st1: "myers_diagonals s t d ?l st = myers_diagonals s t d (?l + 2) st1" "extends st st1"
      "\<forall>j. j \<noteq> ?l \<longrightarrow> agree st st1 j" "\<forall>j. ?l < j \<and> j < 0 \<longrightarrow> readable st1 j"
      using lower_step [OF r coverageD(1,3) [OF cov] False] by blast
    have "vv st1 (L + 1) = L + 1 + seq_length t"
      using st1(3) L(2) lL by (simp add: agree_def)
    then have "\<exists>lo st2. myers_diagonals s t d (?l + 2) st1 = myers_diagonals s t d lo st2 \<and> L < lo \<and> even (lo - d) \<and> lo \<le> L + 2 \<and>
      extends st1 st2 \<and> (\<forall>j\<ge>L. agree st1 st2 j)"
      using st1(4) ev lL by (intro below_border [OF r L(1) _ n extends_readable [OF st1(2) top]]) auto
    then obtain lo st2 where st2: "myers_diagonals s t d (?l + 2) st1 = myers_diagonals s t d lo st2" "L < lo" "even (lo - d)" "lo \<le> L + 2"
      "extends st1 st2" "\<forall>j\<ge>L. agree st1 st2 j"
      by blast
    moreover have "\<forall>j\<ge>L. agree st st2 j"
      using agree_trans [of st st1] st1(3) st2(6) lL by auto
    ultimately show ?thesis
      unfolding st1(1) using st1(4) extends_trans [OF st1(2)] extends_readable [OF st2(5)] by blast
  qed
qed

lemma round_closed:
  assumes r: "regular s t d" "1 \<le> d" and cov: "coverage s t (d - 1) L st" and cb: "closed_border s t (d - 1) L st"
    and eq: "myers_diagonals s t d (lowerBound t d) st = (res, st')"
  shows "case res of Some j \<Rightarrow> found s t d st' j | None \<Rightarrow> round_done s t d L True st st' \<and> search_inv s t d L True st'"
proof -
  note p = prepared_closed [OF r cov cb]
  obtain lo st1 where lo: "myers_diagonals s t d (lowerBound t d) st = myers_diagonals s t d lo st1" "L < lo" "even (lo - d)" "lo \<le> L + 2"
    "extends st st1" "\<forall>j\<ge>L. agree st st1 j" "\<forall>j. lowerBound t d < j \<and> j < 0 \<longrightarrow> readable st1 j"
    using enter_border [OF r cov cb] by blast
  have ready: "ready s t d lo st1"
    using lo by (intro ready_prepared [OF r prepared_mono [OF r p lo(5)]]) auto
  note run = diagonals_run [OF r ready order_refl lo(3) eq [unfolded lo(1)]]
  show ?thesis
  proof (cases res)
    case None
    have run: "\<forall>j. j < lo \<or> upperBound s d < j \<or> odd (j - d) \<longrightarrow> agree st1 st' j" "extends st1 st'"
      "\<forall>j. lo \<le> j \<and> j \<le> upperBound s d \<and> even (j - d) \<longrightarrow> turn s t d st1 j st'"
      using run None by auto
    have "if even (j - d) \<and> j \<le> upperBound s d \<and> L < j then turn s t d st j st' else agree st st' j" if "L \<le> j" for j
    proof (cases "even (j - d) \<and> j \<le> upperBound s d \<and> L < j")
      case True
      then have "lo \<le> j"
        using lo(3,4) by presburger
      then have "turn s t d st1 j st'"
        using run(3) True by blast
      then show ?thesis
        using turn_cong [of s t d st1 j st' st st'] lo(6) True by simp
    next
      case False
      then have "agree st1 st' j"
        using run(1) lo(2) that by (cases "j = L") auto
      then show ?thesis
        using False agree_trans lo(6) that by auto
    qed
    then have rdone: "round_done s t d L True st st'"
      using extends_trans [OF lo(5) run(2)] lo(7) extends_readable [OF run(2)] unfolding round_done_def simp_thms by blast
    have cov': "coverage s t d L st'"
      by (rule round_coverage [OF r p rdone])
    have "L + 1 \<le> highest s d"
      using cb r by (auto simp: closed_border_def highest_def regular_def)
    then have "vv st' (L + 1) = L + 1 + seq_length t"
      using round_grows [OF r p rdone, of "L + 1"] cleanD(3) [OF coverageD(5) [OF cov', of "L + 1"]] cb by (simp add: closed_border_def)
    then show ?thesis
      using None rdone cov' cb by (auto simp: search_inv_def closed_border_def)
  qed (use run in simp)
qed

text \<open>A round in any case.\<close>

lemma round_search:
  assumes r: "regular s t d" "1 \<le> d" and inv: "search_inv s t (d - 1) L closed st"
    and eq: "myers_diagonals s t d (lowerBound t d) st = (res, st')"
  shows "case res of Some j \<Rightarrow> found s t d st' j
    | None \<Rightarrow> \<exists>L' closed'. round_done s t d L' closed' st st' \<and> search_inv s t d L' closed' st' \<and> prepared s t d L' closed' st \<and>
        (if closed' then closed_border s t (d - 1) L' st \<and> (closed \<and> L' = L \<or> \<not> closed \<and> L' = L \<and> \<not> readable st L)
         else L' = - min d (seq_length t))"
proof (cases "\<not> closed \<and> readable st (lowerBound t d + 1)")
  case True
  then have inv: "search_inv s t (d - 1) L False st"
    using inv by simp
  show ?thesis
    using round_open [OF r inv _ eq refl] prepared_open [OF r inv] True by (cases res) fastforce+
next
  case False
  have cov: "coverage s t (d - 1) L st"
    using inv by (simp add: search_inv_def)
  have cb: "closed_border s t (d - 1) L st \<and> (closed \<or> \<not> closed \<and> \<not> readable st L)"
  proof (cases closed)
    case False
    then have nr: "\<not> readable st (lowerBound t d + 1)" and ob: "open_border s t (d - 1) L st"
      using inv \<open>\<not> (\<not> closed \<and> readable st (lowerBound t d + 1))\<close> by (auto simp: search_inv_def)
    have "lowerBound t d + 1 < 0"
      using readable_small [OF coverageD(1) [OF cov], of "lowerBound t d + 1"] nr bounds_parity(3) [OF r] by linarith
    then have "\<not> lowerBound t (d - 1) < lowerBound t d + 1"
      using coverageD(3) [OF cov] nr by blast
    moreover have "lowerBound t (d - 1) \<le> L" "L \<le> lowerBound t d + 1"
      using ob lowerBound_cases [OF r] r by (auto simp: open_border_def regular_def lowerBound_def)
    ultimately have L: "lowerBound t d + 1 = L"
      by linarith
    then have "L < 0" "\<not> readable st L"
      using nr \<open>lowerBound t d + 1 < 0\<close> by simp_all
    then show ?thesis
      using ob False unfolding open_border_def closed_border_def by auto
  qed (use inv in \<open>simp add: search_inv_def\<close>)
  then show ?thesis
    using round_closed [OF r cov _ eq] prepared_closed [OF r cov] by (cases res) fastforce+
qed

end
