(* ===== verification/Diff_Myers_Result.thy ===== *)
theory Diff_Myers_Result
  imports Diff_Myers_Border
begin

text \<open>
  The result of \<open>Diff_Myers\<close>.  After every round some diagonal ends at a point from which the second sequence is reached with as many
  edits as are left; so the search ends after as many rounds as the sequences have edits, and the differences are as
  few as possible.
\<close>

section \<open>The diagonal on a shortest path\<close>

definition frontier :: "iSequence \<Rightarrow> iSequence \<Rightarrow> int \<Rightarrow> myersState \<Rightarrow> int \<Rightarrow> bool" where
  "frontier s t d st k \<longleftrightarrow> even (k - d) \<and> k \<le> highest s d \<and> readable st k \<and> clean s t d st k \<and> 0 \<le> vv st k - k \<and>
     \<not> (vv st k = seq_length s \<and> k = seq_length s - seq_length t) \<and>
     \<not> (vv st k < seq_length s \<and> vv st k - k < seq_length t \<and> getElement s (vv st k) = getElement t (vv st k - k)) \<and>
     edit_dist s t (vv st k) (vv st k - k) + d \<le> edit_dist s t 0 0"

lemma edit_dist_nonneg: "a \<le> seq_length s \<Longrightarrow> b \<le> seq_length t \<Longrightarrow> 0 \<le> edit_dist s t a b"
  using edit_dist_ge [of a s b t] by linarith

lemma shortest_step:
  assumes "a \<le> seq_length s" "b \<le> seq_length t" "\<not> (a = seq_length s \<and> b = seq_length t)"
    "\<not> (a < seq_length s \<and> b < seq_length t \<and> getElement s a = getElement t b)"
  shows "a < seq_length s \<and> edit_dist s t (a + 1) b + 1 \<le> edit_dist s t a b \<or> b < seq_length t \<and> edit_dist s t a (b + 1) + 1 \<le> edit_dist s t a b"
proof -
  consider "a = seq_length s" "b < seq_length t" | "a < seq_length s" "b = seq_length t" |
    "a < seq_length s" "b < seq_length t" "getElement s a \<noteq> getElement t b"
    using assms by fastforce
  then show ?thesis
  proof cases
    case 1
    then show ?thesis by (simp add: edit_dist_end1)
  next
    case 2
    then show ?thesis by (simp add: edit_dist_end2)
  next
    case 3
    then show ?thesis by (auto simp: edit_dist_different)
  qed
qed

lemma frontierD:
  assumes "frontier s t d st k"
  shows "even (k - d)" "k \<le> highest s d" "readable st k" "clean s t d st k" "0 \<le> vv st k - k"
    "edit_dist s t (vv st k) (vv st k - k) + d \<le> edit_dist s t 0 0"
    "vv st k < seq_length s \<and> edit_dist s t (vv st k + 1) (vv st k - k) + 1 \<le> edit_dist s t (vv st k) (vv st k - k) \<or>
     vv st k - k < seq_length t \<and> edit_dist s t (vv st k) (vv st k - k + 1) + 1 \<le> edit_dist s t (vv st k) (vv st k - k)"
proof -
  show "even (k - d)" "k \<le> highest s d" "readable st k" "clean s t d st k" "0 \<le> vv st k - k"
    "edit_dist s t (vv st k) (vv st k - k) + d \<le> edit_dist s t 0 0"
    using assms by (auto simp: frontier_def)
  have "vv st k \<le> seq_length s" "vv st k - k \<le> seq_length t"
    using cleanD(2,3) [of s t d st k] assms by (auto simp: frontier_def)
  then show "vv st k < seq_length s \<and> edit_dist s t (vv st k + 1) (vv st k - k) + 1 \<le> edit_dist s t (vv st k) (vv st k - k) \<or>
     vv st k - k < seq_length t \<and> edit_dist s t (vv st k) (vv st k - k + 1) + 1 \<le> edit_dist s t (vv st k) (vv st k - k)"
    using assms by (intro shortest_step) (auto simp: frontier_def)
qed

text \<open>Edits are left as long as there is a frontier.\<close>

lemma frontier_less: "frontier s t d st k \<Longrightarrow> d < edit_dist s t 0 0"
  using frontierD(6,7) [of s t d st k] cleanD(2,3) [OF frontierD(4), of s t d st k]
    edit_dist_nonneg [of "vv st k + 1" s "vv st k - k" t] edit_dist_nonneg [of "vv st k" s "vv st k - k + 1" t] by auto

text \<open>A turn on the diagonal of a point that is one edit nearer gives the next frontier.\<close>

lemma turn_frontier:
  assumes turn: "turn s t d st k st'" and k: "even (k - d)" "k \<le> highest s d" and c: "candidate s t d st k - k \<le> seq_length t"
    and a: "a \<le> candidate s t d st k" "0 \<le> a - k" "edit_dist s t a (a - k) + d \<le> edit_dist s t 0 0"
  shows "frontier s t d st' k"
proof -
  let ?x = "candidate s t d st k"
  have t: "readable st' k" "clean s t d st' k" "vv st' k = snake_loop s t ?x (?x - k)"
      "\<not> (vv st' k = seq_length s \<and> k = seq_length s - seq_length t)"
    using turn c by (auto simp: turn_def Let_def)
  have x: "a \<le> vv st' k"
    using t(3) a(1) snake_ge [of ?x s t "?x - k"] by linarith
  have ex: "\<not> (vv st' k < seq_length s \<and> vv st' k - k < seq_length t \<and> getElement s (vv st' k) = getElement t (vv st' k - k))"
    using snake_loop_spec [of ?x s t "?x - k"] unfolding t(3) by (simp add: algebra_simps)
  have "edit_dist s t (vv st' k) (vv st' k - k) \<le> edit_dist s t a (a - k)"
    using edit_dist_diagonal [of "vv st' k - a" a s "a - k" t] cleanD(2,3) [OF t(2)] x by simp
  then show ?thesis
    using t k a x ex by (auto simp: frontier_def)
qed

text \<open>
  A deletion is the next edit: the diagonal above is not skipped, since the one above that would show a shorter path.
\<close>

lemma deletion_not_skipped:
  assumes r: "regular s t d" "1 \<le> d" and p: "prepared s t d L closed st" and cov: "coverage s t (d - 1) L0 st" "L0 \<le> k"
    and k: "L \<le> k" "k + 1 \<le> upperBound s d" "even (k - (d - 1))" and f: "clean s t (d - 1) st k"
    and x: "vv st k < seq_length s" "edit_dist s t (vv st k + 1) (vv st k - k) + d \<le> edit_dist s t 0 0"
  shows "candidate s t d st (k + 1) - (k + 1) \<le> seq_length t"
proof (rule ccontr)
  assume "\<not> ?thesis"
  moreover have "candidate s t d st (k + 1) = min (max (vv st (k + 2)) (vv st k + 1)) (seq_length s)"
    using candidate_best [OF r p, of "k + 1"] k by (simp add: add.commute)
  ultimately have big: "k + 1 + seq_length t < vv st (k + 2)"
    using cleanD(3) [OF f] by auto
  have h: "k + 2 \<le> highest s (d - 1)"
  proof (rule ccontr)
    assume "\<not> ?thesis"
    then have "vv st (k + 2) = 0" "0 \<le> k + 1"
      using coverageD(4) [OF cov(1), of "k + 2"] r by (auto simp: highest_def regular_def)
    then show False
      using big r(1) by (simp add: regular_def)
  qed
  have c: "clean s t (d - 1) st (k + 2)"
    using coverageD(5) [OF cov(1) _ h] cov(2) k(3) by (simp add: cost_bound_def)
  let ?v = "vv st (k + 2)" and ?p = "pp st (k + 2)"
  have v: "?v = k + 2 + seq_length t"
    using big cleanD(3) [OF c] by simp
  have re: "if ?v = seq_length s then path_ok s t ?p (seq_length s) (seq_length t) else path_ok s t ?p ?v (?v - (k + 2))"
    "2 * ?v - (k + 2) - 2 * matched ?p \<le> d - 1"
    using cleanD(5) [OF c] by (simp_all add: reaches_def)
  have "path_ok s t ?p ?v (seq_length t)"
    using re(1) v by (auto split: if_splits)
  then have "edit_dist s t 0 0 \<le> ?v + seq_length t - 2 * matched ?p + (seq_length s - ?v)"
    using path_ok_sound cleanD(2) [OF c] edit_dist_end2 [of ?v s t] by fastforce
  moreover have "(seq_length s - (vv st k + 1)) - (seq_length t - (vv st k - k)) \<le> edit_dist s t (vv st k + 1) (vv st k - k)"
    using edit_dist_ge [of "vv st k + 1" s "vv st k - k" t] x(1) cleanD(3) [OF f] by simp
  ultimately show False
    using re(2) v x(2) by linarith
qed

lemma candidate_upper: "candidate s t d st k \<le> max (max (vv st (k + 1)) (if k = lowerBound t d then - 1 else vv st (k - 1) + 1)) (- 1)"
  by (auto simp: candidate_def min_le_iff_disj max_def)

lemma insertion_not_skipped:
  assumes r: "regular s t d" "1 \<le> d" and p: "prepared s t d L closed st" and k: "L \<le> k - 1" "k - 1 \<le> highest s (d - 1)"
    and lo: "k - 1 = lowerBound t d \<or> L \<le> k - 2" and x: "vv st k - k < seq_length t" "- seq_length t \<le> k"
  shows "candidate s t d st (k - 1) - (k - 1) \<le> seq_length t"
proof -
  have "vv st (k - 2) + 1 - (k - 1) \<le> seq_length t" if "k - 1 \<noteq> lowerBound t d"
    using cleanD(3) [OF preparedD(5) [OF p, of "k - 2"]] lo k(2) that by simp
  moreover have "candidate s t d st (k - 1) \<le> max (max (vv st k) (if k - 1 = lowerBound t d then - 1 else vv st (k - 2) + 1)) (- 1)"
    using candidate_upper [of s t d st "k - 1"] by (simp only: diff_add_cancel diff_diff_eq one_add_one)
  ultimately show ?thesis
    using x by (simp split: if_splits)
qed

lemma frontier_step:
  assumes r: "regular s t d" "1 \<le> d" and p: "prepared s t d L' closed' st" and rd: "round_done s t d L' closed' st st'"
    and cov: "coverage s t (d - 1) L st" and f: "frontier s t (d - 1) st k" "L \<le> k" "L' \<le> k"
    and border: "if closed' then closed_border s t (d - 1) L' st \<and> L' < k else L' = - min d (seq_length t) \<and> - min (d - 1) (seq_length t) \<le> k"
  shows "\<exists>k'\<ge>L'. (closed' \<longrightarrow> L' < k') \<and> frontier s t d st' k'"
proof -
  note fD = frontierD [OF f(1)] and c = cleanD [OF frontierD(4) [OF f(1)]]
  have par: "even (k + 1 - d)" "even (k - 1 - d)"
    using fD(1) by auto
  have n: "0 < seq_length s" "0 < seq_length t" "k \<le> d - 1" "k \<le> seq_length s"
    using r(1) fD(2,5) c(2) by (auto simp: regular_def highest_def)
  have up: "min d (seq_length s) \<le> upperBound s d"
    by (simp add: upperBound_def)
  consider (del) "vv st k < seq_length s" "edit_dist s t (vv st k + 1) (vv st k - k) + d \<le> edit_dist s t 0 0" |
    (ins) "vv st k - k < seq_length t" "edit_dist s t (vv st k) (vv st k - (k - 1)) + d \<le> edit_dist s t 0 0"
    using fD(6,7) by (fastforce simp: algebra_simps)
  then show ?thesis
  proof cases
    case del
    have k1: "k + 1 \<le> upperBound s d" "k + 1 \<le> highest s d"
      using del(1) fD(5) n up by (auto simp: highest_def)
    have turn: "turn s t d st (k + 1) st'"
      using round_doneD(1) [OF rd, of "k + 1"] par k1 f(3) by simp
    have "vv st k + 1 \<le> candidate s t d st (k + 1)"
      using candidate_left [of "k + 1" t d st s] preparedD(2) [OF p] f(3) del(1) by simp
    then have "frontier s t d st' (k + 1)"
      using turn_frontier [OF turn par(1) k1(2) deletion_not_skipped [OF r p cov f(2,3) k1(1) fD(1,4) del]] del(2) fD(5) by simp
    then show ?thesis
      using f(3) by (intro exI [of _ "k + 1"]) auto
  next
    case ins
    have k1: "k - 1 \<le> highest s (d - 1)" "k - 1 \<le> highest s d" "k - 1 < upperBound s d" "- seq_length t \<le> k"
      using ins(1) c(1) n up by (auto simp: highest_def)
    have L: "L' \<le> k - 1" "closed' \<longrightarrow> L' < k - 1" "k - 1 = lowerBound t d \<or> L' \<le> k - 2"
    proof -
      have "L' < k - 1" if closed'
        using border that ins(1) by (cases "k = L' + 1") (auto simp: closed_border_def)
      moreover have "L' \<le> k - 1" if "\<not> closed'"
        using border that ins(1) c(1) n by auto
      moreover have "L' = lowerBound t d" if "\<not> closed'" "L' = k - 1"
        using border that lowerBound_cases [OF r] par(2) by auto
      ultimately show "L' \<le> k - 1" "closed' \<longrightarrow> L' < k - 1" "k - 1 = lowerBound t d \<or> L' \<le> k - 2"
        by (cases closed'; fastforce)+
    qed
    have turn: "turn s t d st (k - 1) st'"
      using round_doneD(1) [OF rd L(1)] par k1 L(2) by simp
    have "vv st k \<le> candidate s t d st (k - 1)"
      using candidate_top [of "k - 1" s d st] k1(3) c(2) by simp
    then have "frontier s t d st' (k - 1)"
      using turn_frontier [OF turn par(2) k1(2) insertion_not_skipped [OF r p L(1) k1(1) L(3) ins(1) k1(4)]] ins(2) fD(5) by simp
    then show ?thesis
      using L by (intro exI [of _ "k - 1"]) auto
  qed
qed


section \<open>The search\<close>

lemma no_paths: "FastArrayNegativeIndices_get new_FastArrayNegativeIndices k = None"
  by (simp add: FastArrayNegativeIndices_get_def new_FastArrayNegativeIndices_def sparse_get_def)

lemma init_state:
  assumes "0 < seq_length s" "seq_length s < 2147483648"
  shows "arrays_ok (myers_init s t)" "vv (myers_init s t) k = (if k = 0 then snake_loop s t 0 0 else 0)"
    "pp (myers_init s t) k =
      (if k = 0 \<and> snake_loop s t 0 0 \<noteq> 0 then Some (SnakePath None (Some 0) (Some 0) (Some (snake_loop s t 0 0))) else None)"
proof -
  let ?x = "snake_loop s t 0 0"
  have "toInt32 ?x = ?x"
    using snake_ge [of 0 s t 0] snake_le [of 0 s t 0] assms by (intro toInt32_small) auto
  then have V: "my_V (myers_init s t) = \<lparr>fi_positiveArr = (replicate 10 0)[0 := ?x], fi_negativeArr = replicate 10 0\<rparr>"
    by (simp add: myers_init_def FastInt32Array_set_def new_FastInt32Array_def typed_set_def getXAfterSnake_def Let_def)
  then show "arrays_ok (myers_init s t)"
    by (simp add: arrays_ok_def)
  show "vv (myers_init s t) k = (if k = 0 then ?x else 0)"
    by (auto simp: vv_def V FastInt32Array_get_def typed_get_def nth_list_update)
  have "FastInt32Array_get (my_V (myers_init s t)) 0 = Some ?x"
    by (simp add: V FastInt32Array_get_def typed_get_def)
  then show "pp (myers_init s t) k = (if k = 0 \<and> ?x \<noteq> 0 then Some (SnakePath None (Some 0) (Some 0) (Some ?x)) else None)"
    by (simp add: myers_init_def Let_def pp_def pp_set no_paths)
qed

lemma init_clean:
  assumes "0 < seq_length s" "seq_length s < 2147483648" "0 < seq_length t"
  shows "clean s t 0 (myers_init s t) 0"
proof -
  let ?x = "snake_loop s t 0 0"
  have "0 \<le> ?x" "?x \<le> seq_length s" "?x \<le> seq_length t" "matches s t 0 0 ?x"
    using snake_loop_spec [of 0 s t 0] assms by auto
  then show ?thesis
    using init_state [OF assms(1,2), of t] by (auto simp: clean_def reaches_def)
qed

lemma init_inv:
  assumes "0 < seq_length s" "seq_length s < 2147483648" "0 < seq_length t"
  shows "search_inv s t 0 0 False (myers_init s t)"
proof -
  note init = init_state [OF assms(1,2), of t]
  have "snake_loop s t 0 0 \<le> snake_loop s t 1 1"
    using snake_mono [of 0 1 s t 0] by simp
  then have "growing s t (myers_init s t) 0"
    using assms init(2) by (simp add: growing_def Let_def min_def)
  moreover have "coverage s t 0 0 (myers_init s t)"
    using assms init init_clean [OF assms] readable_small [OF init(1), of 0]
    by (auto simp: coverage_def highest_def lowerBound_def cost_bound_def le_less)
  ultimately show ?thesis
    using assms(3) init readable_small [OF init(1), of 0] by (simp add: search_inv_def open_border_def)
qed

lemma regular_less: "regular s t d \<Longrightarrow> d' \<le> d \<Longrightarrow> regular s t d'"
  by (auto simp: regular_def)

lemma found_path:
  assumes "found s t d st k" "p = FastArrayNegativeIndices_get (my_paths st) k"
  shows "path_ok s t p (seq_length s) (seq_length t) \<and> seq_length s + seq_length t - 2 * matched p \<le> d"
  using assms cleanD(5) [of s t d st k] by (auto simp: found_def reaches_def pp_def)

definition loop_result :: "iSequence \<Rightarrow> iSequence \<Rightarrow> timeout \<Rightarrow> int \<Rightarrow> (unit + snakePath option) option \<Rightarrow> bool" where
  "loop_result s t isValid d res \<longleftrightarrow>
     (case res of None \<Rightarrow> False
      | Some (Inl _) \<Rightarrow> \<exists>i. \<not> isValid i
      | Some (Inr p) \<Rightarrow> path_ok s t p (seq_length s) (seq_length t) \<and> seq_length s + seq_length t - 2 * matched p \<le> d)"

text \<open>With a frontier the loop ends, at a time-out or with a path that has no more edits than necessary.\<close>

lemma loop_finds:
  assumes "regular s t (edit_dist s t 0 0)" "search_inv s t d L closed st" "frontier s t d st k" "L \<le> k" "closed \<longrightarrow> L < k" "0 \<le> d"
  shows "loop_result s t isValid (edit_dist s t 0 0) (myers_loop s t isValid d st)"
  using assms
proof (induction "nat (edit_dist s t 0 0 - d)" arbitrary: d L closed st k rule: less_induct)
  case less
  let ?D = "edit_dist s t 0 0"
  have D: "d + 1 \<le> ?D"
    using frontier_less [OF less.prems(3)] by simp
  have r: "regular s t (d + 1)" "1 \<le> d + 1"
    using regular_less [OF less.prems(1) D] less.prems(6) by auto
  obtain res st' where eq: "myers_diagonals s t (d + 1) (lowerBound t (d + 1)) st = (res, st')"
    by (metis surj_pair)
  have inv: "search_inv s t (d + 1 - 1) L closed st" and cov: "coverage s t (d + 1 - 1) L st" and f: "frontier s t (d + 1 - 1) st k"
    using less.prems(2,3) by (simp_all add: search_inv_def)
  note round = round_search [OF r inv eq]
  show ?case
  proof (cases "isValid (nat (d + 1 - 1))")
    case False
    then have "myers_loop s t isValid d st = Some (Inl ())"
      by (subst myers_loop.simps) (simp add: Let_def)
    then show ?thesis
      using False by (auto simp: loop_result_def)
  next
    case valid: True
    show ?thesis
    proof (cases res)
      case (Some j)
      then have "myers_loop s t isValid d st = Some (Inr (FastArrayNegativeIndices_get (my_paths st') j))"
        using valid eq by (subst myers_loop.simps) (simp add: Let_def)
      then show ?thesis
        using round Some D found_path [OF _ refl, of s t "d + 1" st' j] by (simp add: loop_result_def)
    next
      case None
      then have loop: "myers_loop s t isValid d st = myers_loop s t isValid (d + 1) st'"
        using valid eq by (subst myers_loop.simps) (simp add: Let_def)
      obtain L' closed' where n: "round_done s t (d + 1) L' closed' st st'" "search_inv s t (d + 1) L' closed' st'" "prepared s t (d + 1) L' closed' st"
        "if closed' then closed_border s t (d + 1 - 1) L' st \<and> (closed \<and> L' = L \<or> \<not> closed \<and> L' = L \<and> \<not> readable st L)
         else L' = - min (d + 1) (seq_length t)"
        using round None by auto
      have L: "- min d (seq_length t) \<le> L"
        using less.prems(2) by (cases closed) (auto simp: search_inv_def open_border_def closed_border_def)
      have "L < k" if closed'
      proof (cases closed)
        case False
        then have "\<not> readable st L"
          using n(4) that by simp
        then have "k \<noteq> L"
          using frontierD(3) [OF less.prems(3)] by blast
        then show ?thesis using less.prems(4) by simp
      qed (use less.prems(5) in simp)
      then have border: "if closed' then closed_border s t (d + 1 - 1) L' st \<and> L' < k
          else L' = - min (d + 1) (seq_length t) \<and> - min (d + 1 - 1) (seq_length t) \<le> k"
        using n(4) L less.prems(4) by (auto split: if_splits)
      then have "L' \<le> k"
        by (auto split: if_splits)
      then obtain k' where k': "L' \<le> k'" "closed' \<longrightarrow> L' < k'" "frontier s t (d + 1) st' k'"
        using frontier_step [OF r n(3,1) cov f less.prems(4) _ border] by blast
      then show ?thesis
        unfolding loop using D less.prems(1,6) n(2) by (intro less.hyps [OF _ _ n(2) k'(3,1,2)]) auto
    qed
  qed
qed


section \<open>Equal sequences\<close>

text \<open>
  The search does not look at its first diagonal before the first round.  For equal sequences it ends in the second round, in
  the third one for sequences of one element, with the path of the first diagonal.
\<close>

lemma equal_snake:
  assumes "0 \<le> seq_length s" "0 \<le> seq_length t" "edit_dist s t 0 0 = 0"
  shows "snake_loop s t 0 0 = seq_length s" "seq_length t = seq_length s"
proof -
  let ?x = "snake_loop s t 0 0"
  have x: "0 \<le> ?x" "?x \<le> seq_length s" "?x \<le> seq_length t" "\<not> (?x < seq_length s \<and> ?x < seq_length t \<and> getElement s ?x = getElement t ?x)"
    using snake_loop_spec [of 0 s t 0] assms by auto
  have z: "edit_dist s t ?x ?x \<le> 0"
    using edit_dist_diagonal [of ?x 0 s 0 t] x assms(3) by simp
  have "?x = seq_length s \<and> ?x = seq_length t"
  proof (rule ccontr)
    assume "\<not> ?thesis"
    then show False
      using shortest_step [OF x(2,3) _ x(4)] z edit_dist_nonneg [of "?x + 1" s ?x t] edit_dist_nonneg [of ?x s "?x + 1" t] x by fastforce
  qed
  then show "?x = seq_length s" "seq_length t = seq_length s"
    by auto
qed

lemma equal_skip:
  assumes st: "arrays_ok st" "vv st 0 = seq_length s" and n: "0 < seq_length s" "seq_length s < 2147483648" "seq_length t = seq_length s"
    and b: "lowerBound t d = - 1" "upperBound s d = 1"
  shows "\<exists>st'. myers_diagonals s t d (- 1) st = (None, st') \<and> arrays_ok st' \<and> vv st' 1 = seq_length s \<and> pp st' 1 = pp st 0 \<and>
    (\<forall>j. j \<noteq> 1 \<longrightarrow> agree st st' j)"
proof -
  have "myers_diagonal s t d (- 1) st = (False, st)"
    using st n b readable_small [OF st(1), of 0] by (intro border_skipped) auto
  then have one: "myers_diagonals s t d (- 1) st = myers_diagonals s t d 1 st"
    using b by (simp add: myers_diagonals.simps [of s t d "- 1" st])
  obtain f st' where d: "myers_diagonal s t d 1 st = (f, st')"
    by (metis surj_pair)
  have c: "candidate s t d st 1 = seq_length s" "chosen_path s t d st 1 = pp st 0"
    using st n b by (simp_all add: candidate_def chosen_path_def)
  have "readable st' 1" "vv st' 1 = seq_length s" "pp st' 1 = pp st 0" "\<not> f"
    using diagonal_value [OF st(1) room_small [OF st(1)] _ _ _ n(2) _ d] readable_small [OF st(1), of 0] n b c
      snake_at_end [of s "seq_length s" t] by (simp_all add: Let_def)
  moreover have "myers_diagonals s t d 3 st' = (None, st')"
    using b by (simp add: myers_diagonals.simps [of s t d 3 st'])
  ultimately show ?thesis
    unfolding one using d b diagonal_agree [OF d] diagonal_extends [OF d] st(1)
    by (auto simp: myers_diagonals.simps [of s t d 1 st] extends_def)
qed

lemma equal_hit:
  assumes st: "arrays_ok st" "vv st 1 = seq_length s" "vv st (- 1) = 0"
    and n: "0 < seq_length s" "seq_length s < 2147483648" "seq_length t = seq_length s"
    and b: "lowerBound t d = - 2" "upperBound s d = 2"
  shows "\<exists>st'. myers_diagonals s t d (- 2) st = (Some 0, st') \<and> FastArrayNegativeIndices_get (my_paths st') 0 = pp st 1"
proof -
  obtain f0 st0 where d0: "myers_diagonal s t d (- 2) st = (f0, st0)"
    by (metis surj_pair)
  have "\<not> f0"
    using found_diagonal [of s t d "- 2" st st0] d0 n by (cases f0) auto
  then have zero: "myers_diagonals s t d (- 2) st = myers_diagonals s t d 0 st0"
    using b d0 by (simp add: myers_diagonals.simps [of s t d "- 2" st])
  have st0: "arrays_ok st0" "vv st0 1 = seq_length s" "vv st0 (- 1) = 0" "pp st0 1 = pp st 1"
    using diagonal_agree [OF d0, of 1] diagonal_agree [OF d0, of "- 1"] diagonal_extends [OF d0] st by (auto simp: agree_def extends_def)
  obtain f st' where d: "myers_diagonal s t d 0 st0 = (f, st')"
    by (metis surj_pair)
  have c: "candidate s t d st0 0 = seq_length s" "chosen_path s t d st0 0 = pp st 1"
    using st0 n b by (auto simp: candidate_def chosen_path_def)
  have "f" "pp st' 0 = pp st 1"
    using diagonal_value [OF st0(1) room_small [OF st0(1)] _ _ _ n(2) _ d] readable_small [OF st0(1), of 1] readable_small [OF st0(1), of "- 1"] n b c
      snake_at_end [of s "seq_length s" t] by (simp_all add: Let_def)
  then show ?thesis
    unfolding zero using d b by (simp add: myers_diagonals.simps [of s t d 0 st0] pp_def)
qed

lemma loop_equal:
  assumes n: "0 < seq_length s" "seq_length s < 2147483648" "0 < seq_length t" and D: "edit_dist s t 0 0 = 0"
  shows "loop_result s t isValid 0 (myers_loop s t isValid 0 (myers_init s t))"
proof -
  let ?init = "myers_init s t"
  note init = init_state [OF n(1,2), of t]
  have e: "snake_loop s t 0 0 = seq_length s" "seq_length t = seq_length s"
    using equal_snake [OF _ _ D] n by auto
  have p: "path_ok s t (pp ?init 0) (seq_length s) (seq_length t)" "seq_length s + seq_length t - 2 * matched (pp ?init 0) \<le> 0"
    using cleanD(5) [OF init_clean [OF n]] init(2) [of 0] e by (simp_all add: reaches_def)
  have v: "vv ?init 0 = seq_length s" "vv ?init (- 1) = 0"
    using init(2) e by simp_all
  have b1: "lowerBound t 1 = - 1" "upperBound s 1 = 1"
    using n by (simp_all add: lowerBound_def upperBound_def)
  obtain st1 where st1: "myers_diagonals s t 1 (- 1) ?init = (None, st1)" "arrays_ok st1" "vv st1 1 = seq_length s" "pp st1 1 = pp ?init 0"
      "\<forall>j. j \<noteq> 1 \<longrightarrow> agree ?init st1 j"
    using equal_skip [OF init(1) v(1) n(1,2) e(2) b1] by blast
  have v1: "vv st1 0 = seq_length s" "vv st1 (- 1) = 0" "pp st1 0 = pp ?init 0"
    using st1(5) v by (simp_all add: agree_def)
  have hit: "\<exists>st'. myers_diagonals s t d (- 2) st = (Some 0, st') \<and> FastArrayNegativeIndices_get (my_paths st') 0 = pp ?init 0"
    if "arrays_ok st" "vv st 1 = seq_length s" "vv st (- 1) = 0" "pp st 1 = pp ?init 0" "lowerBound t d = - 2" "upperBound s d = 2" for st d
    using equal_hit [OF that(1-3) n(1,2) e(2) that(5,6)] that(4) by simp
  have end1: "loop_result s t isValid 0 (myers_loop s t isValid d st)"
    if st: "arrays_ok st" "vv st 1 = seq_length s" "vv st (- 1) = 0" "pp st 1 = pp ?init 0" and b: "lowerBound t (d + 1) = - 2" "upperBound s (d + 1) = 2" for st d
  proof -
    obtain st' where "myers_diagonals s t (d + 1) (- 2) st = (Some 0, st')" "FastArrayNegativeIndices_get (my_paths st') 0 = pp ?init 0"
      using hit [OF st b] by blast
    then have "myers_loop s t isValid d st = (if isValid (nat d) then Some (Inr (pp ?init 0)) else Some (Inl ()))"
      using b by (subst myers_loop.simps) (simp add: Let_def)
    then show ?thesis
      using p by (auto simp: loop_result_def)
  qed
  have l0: "myers_loop s t isValid 0 ?init = (if isValid 0 then myers_loop s t isValid 1 st1 else Some (Inl ()))"
    using st1(1) b1 by (subst myers_loop.simps) (simp add: Let_def)
  have "loop_result s t isValid 0 (myers_loop s t isValid 1 st1)"
  proof (cases "seq_length s = 1")
    case False
    then show ?thesis
      using n e(2) st1(2-4) v1 by (intro end1) (auto simp: lowerBound_def upperBound_def)
  next
    case True
    then have b2: "lowerBound t 2 = - 1" "upperBound s 2 = 1" "lowerBound t 3 = - 2" "upperBound s 3 = 2"
      using e(2) by (simp_all add: lowerBound_def upperBound_def)
    obtain st2 where st2: "myers_diagonals s t 2 (- 1) st1 = (None, st2)" "arrays_ok st2" "vv st2 1 = seq_length s" "pp st2 1 = pp st1 0"
      "\<forall>j. j \<noteq> 1 \<longrightarrow> agree st1 st2 j"
      using equal_skip [OF st1(2) v1(1) n(1,2) e(2) b2(1,2)] by blast
    have "myers_loop s t isValid 1 st1 = (if isValid 1 then myers_loop s t isValid 2 st2 else Some (Inl ()))"
      using st2(1) b2 by (subst myers_loop.simps) (simp add: Let_def)
    moreover have "loop_result s t isValid 0 (myers_loop s t isValid 2 st2)"
      using st2 v1 b2 by (intro end1) (auto simp: agree_def)
    ultimately show ?thesis
      by (auto simp: loop_result_def)
  qed
  then show ?thesis
    unfolding l0 by (auto simp: loop_result_def)
qed


section \<open>The algorithm\<close>

lemma init_frontier:
  assumes n: "0 < seq_length s" "seq_length s < 2147483648" "0 < seq_length t" and D: "edit_dist s t 0 0 \<noteq> 0"
  shows "frontier s t 0 (myers_init s t) 0"
proof -
  let ?x = "snake_loop s t 0 0"
  note init = init_state [OF n(1,2), of t]
  have x: "0 \<le> ?x" "?x \<le> seq_length s" "?x \<le> seq_length t" "\<not> (?x < seq_length s \<and> ?x < seq_length t \<and> getElement s ?x = getElement t ?x)"
    "matches s t 0 0 ?x"
    using snake_loop_spec [of 0 s t 0] n by auto
  have "edit_dist s t 0 0 = edit_dist s t ?x ?x"
    using edit_dist_matches [OF x(1,5)] x(2,3) by simp
  moreover from this have "\<not> (?x = seq_length s \<and> seq_length s = seq_length t)"
    using D edit_dist_end1 [of s t "seq_length t"] by auto
  ultimately show ?thesis
    using x n init(2) [of 0] init_clean [OF n] readable_small [OF init(1), of 0] by (auto simp: frontier_def highest_def)
qed

lemma loop_correct:
  assumes "0 < seq_length s" "seq_length s < 2147483648" "0 < seq_length t" "even (seq_length s) \<or> edit_dist s t 0 0 \<le> seq_length s"
    "even (seq_length t) \<or> edit_dist s t 0 0 \<le> seq_length t"
  shows "loop_result s t isValid (edit_dist s t 0 0) (myers_loop s t isValid 0 (myers_init s t))"
proof (cases "edit_dist s t 0 0 = 0")
  case True
  then show ?thesis using loop_equal [OF assms(1-3)] by simp
next
  case False
  then show ?thesis
    using assms by (intro loop_finds [OF _ init_inv init_frontier]) (auto simp: regular_def)
qed

lemma path_result:
  assumes "path_ok s t p (seq_length s) (seq_length t)" "seq_length s + seq_length t - 2 * matched p \<le> edit_dist s t 0 0"
  shows "\<exists>r. myers_result (seq_length s) (seq_length t) p [] = Inr r \<and> diffs_ok s t (rev r) \<and>
    (\<forall>ds. aligned s t 0 0 ds \<longrightarrow> diff_cost (rev r) \<le> diff_cost ds)"
proof -
  obtain r where r: "myers_result (seq_length s) (seq_length t) p [] = Inr r" "aligned s t 0 0 (rev r)" "diffs_separated (rev r)"
      "diff_cost r = seq_length s + seq_length t - 2 * matched p"
    using myers_result_ok [OF assms(1), of "[]"] by auto
  have "diff_cost (rev r) = diff_cost r"
    by (simp add: diff_cost_def rev_map [symmetric])
  then show ?thesis
    using r assms(2) aligned_cost [of s t 0 0] by (fastforce simp: diffs_ok_def)
qed

abbreviation whole_diff :: "iSequence \<Rightarrow> iSequence \<Rightarrow> sequenceDiff" where
  "whole_diff s t \<equiv> \<lparr>seq1Range = \<lparr>start = 0, endExclusive = seq_length s\<rparr>, seq2Range = \<lparr>start = 0, endExclusive = seq_length t\<rparr>\<rparr>"

lemma whole_diff_result:
  assumes "0 \<le> seq_length s" "0 \<le> seq_length t" "0 < seq_length s \<or> 0 < seq_length t"
  shows "DiffAlgorithmResult_trivial s t = Inr \<lparr>diffs = [whole_diff s t], hitTimeout = False\<rparr>"
    "DiffAlgorithmResult_trivialTimedOut s t = Inr \<lparr>diffs = [whole_diff s t], hitTimeout = True\<rparr>"
    "diffs_ok s t [whole_diff s t]" "diff_cost [whole_diff s t] = seq_length s + seq_length t"
  using assms
  by (auto simp: DiffAlgorithmResult_trivial_def DiffAlgorithmResult_trivialTimedOut_def new_SequenceDiff_def new_OffsetRange_def diffs_ok_def)

text \<open>
  C12. For all sequences that are not both empty, the first shorter than $2^{31}$, whose lengths are even or at least the number of edits, whatever the time-out answers, \<open>MyersDiffAlgorithm\<close>
  returns a correct list of differences: sorted, separated, not empty, with equal elements outside of them, so that applying it to
  the first sequence gives the second.  If the time-out never answers that the time is over the list has the least possible number
  of changed elements.
\<close>

theorem MyersDiffAlgorithm_shortest:
  assumes "0 \<le> seq_length s" "seq_length s < 2147483648" "0 \<le> seq_length t" "0 < seq_length s \<or> 0 < seq_length t"
    "even (seq_length s) \<or> edit_dist s t 0 0 \<le> seq_length s" "even (seq_length t) \<or> edit_dist s t 0 0 \<le> seq_length t"
  shows "\<exists>r. MyersDiffAlgorithm_compute s t isValid = Some (Inr r) \<and> diffs_ok s t (diffs r) \<and> apply_diffs s t 0 (diffs r) = seq_elements t \<and>
    (if hitTimeout r then \<exists>i. \<not> isValid i else \<forall>ds. aligned s t 0 0 ds \<longrightarrow> diff_cost (diffs r) \<le> diff_cost ds)"
proof (cases "seq_length s = 0 \<or> seq_length t = 0")
  case True
  then have "diff_cost [whole_diff s t] \<le> edit_dist s t 0 0"
    using whole_diff_result(4) [OF assms(1,3,4)] assms(1,3) by (auto simp: edit_dist.simps [of s t 0 0])
  then have "\<forall>ds. aligned s t 0 0 ds \<longrightarrow> diff_cost [whole_diff s t] \<le> diff_cost ds"
    using aligned_cost [of s t 0 0] by fastforce
  then show ?thesis
    using True whole_diff_result [OF assms(1,3,4)] aligned_apply_all [of s t "[whole_diff s t]"]
    by (intro exI [of _ "\<lparr>diffs = [whole_diff s t], hitTimeout = False\<rparr>"]) (simp add: MyersDiffAlgorithm_compute_def diffs_ok_def)
next
  case False
  then have n: "0 < seq_length s" "0 < seq_length t"
    using assms(1,3) by auto
  obtain res where res: "myers_loop s t isValid 0 (myers_init s t) = Some res" "loop_result s t isValid (edit_dist s t 0 0) (Some res)"
    using loop_correct [OF n(1) assms(2) n(2) assms(5,6), of isValid]
    by (cases "myers_loop s t isValid 0 (myers_init s t)") (auto simp: loop_result_def)
  show ?thesis
  proof (cases res)
    case (Inl u)
    then show ?thesis
      using False whole_diff_result [OF assms(1,3,4)] res aligned_apply_all [of s t "[whole_diff s t]"]
      by (intro exI [of _ "\<lparr>diffs = [whole_diff s t], hitTimeout = True\<rparr>"]) (simp add: MyersDiffAlgorithm_compute_def diffs_ok_def loop_result_def)
  next
    case (Inr p)
    then obtain r where r: "myers_result (seq_length s) (seq_length t) p [] = Inr r" "diffs_ok s t (rev r)"
      "\<forall>ds. aligned s t 0 0 ds \<longrightarrow> diff_cost (rev r) \<le> diff_cost ds"
      using path_result [of s t p] res(2) by (auto simp: loop_result_def)
    then show ?thesis
      using False res(1) Inr aligned_apply_all by (auto simp: MyersDiffAlgorithm_compute_def diffs_ok_def)
  qed
qed

theorem MyersDiffAlgorithm_shortest_witness:
  "\<exists>r. MyersDiffAlgorithm_compute (list_sequence [1, 2, 3]) (list_sequence [1, 4, 3, 5]) InfiniteTimeout = Some (Inr r) \<and>
     diffs_ok (list_sequence [1, 2, 3]) (list_sequence [1, 4, 3, 5]) (diffs r) \<and> diff_cost (diffs r) = 3 \<and>
     (\<forall>ds. aligned (list_sequence [1, 2, 3]) (list_sequence [1, 4, 3, 5]) 0 0 ds \<longrightarrow> 3 \<le> diff_cost ds)"
proof -
  let ?s = "list_sequence [1, 2, 3]" and ?t = "list_sequence [1, 4, 3, 5]"
  have c: "MyersDiffAlgorithm_compute ?s ?t InfiniteTimeout =
      Some (Inr \<lparr>diffs = [\<lparr>seq1Range = \<lparr>start = 1, endExclusive = 2\<rparr>, seq2Range = \<lparr>start = 1, endExclusive = 2\<rparr>\<rparr>,
                    \<lparr>seq1Range = \<lparr>start = 3, endExclusive = 3\<rparr>, seq2Range = \<lparr>start = 3, endExclusive = 4\<rparr>\<rparr>], hitTimeout = False\<rparr>)"
    by code_simp
  have "edit_dist ?s ?t 0 0 = 3" "seq_length ?s = 3" "seq_length ?t = 4"
    by code_simp+
  then show ?thesis
    using MyersDiffAlgorithm_shortest [of ?s ?t InfiniteTimeout] c by auto
qed

text \<open>
  When the shorter sequence has an odd length below the number of edits, the bounds of the rounds lose the parity of the round, and the
  result need not be shortest: here all elements are replaced, although the last one is kept by a list of differences with two elements less.
\<close>

theorem MyersDiffAlgorithm_not_shortest:
  "MyersDiffAlgorithm_compute (list_sequence [0, 1, 2, 3, 4, 5, 6, 7, 8, 9]) (list_sequence [9]) InfiniteTimeout =
     Some (Inr \<lparr>diffs = [\<lparr>seq1Range = \<lparr>start = 0, endExclusive = 10\<rparr>, seq2Range = \<lparr>start = 0, endExclusive = 1\<rparr>\<rparr>], hitTimeout = False\<rparr>) \<and>
   diffs_ok (list_sequence [0, 1, 2, 3, 4, 5, 6, 7, 8, 9]) (list_sequence [9])
     [\<lparr>seq1Range = \<lparr>start = 0, endExclusive = 9\<rparr>, seq2Range = \<lparr>start = 0, endExclusive = 0\<rparr>\<rparr>]"
  by (rule conjI) code_simp+

end
