(* ===== verification/Context_Key.thy ===== *)
theory Context_Key
  imports Js_Number
begin

text \<open>
  \<open>src/vs/platform/contextkey/common/contextkey.ts\<close>: the expressions of \<open>when\<close> clauses.  They are built in a normal form
  (constants removed, conjunctions distributed over disjunctions, duplicates and complements
  resolved), negated, compared, printed and evaluated in a context.  The parser is not part of the model.

  Strings are lists of UTF-16 code units.  The numbers are those of an ordered ring, with \<open>NaN\<close> as in \<open>Js_Number\<close>.  What the
  language does with strings and numbers (\<open>Number\<close>, \<open>parseFloat\<close>, the printing of numbers, regular expressions) is
  a parameter, the record \<open>jsLibrary\<close>; nothing is assumed of it.  A regular expression is tested without state: the parser removes the flags \<open>g\<close> and \<open>y\<close>.
\<close>

section \<open>Values\<close>

type_synonym key_text = "int list"

definition ascii :: "string \<Rightarrow> key_text" where
  "ascii = map (\<lambda>c. int (of_char c))"

fun text_less :: "key_text \<Rightarrow> key_text \<Rightarrow> bool" where
  "text_less [] ys \<longleftrightarrow> ys \<noteq> []"
| "text_less (x # xs) [] \<longleftrightarrow> False"
| "text_less (x # xs) (y # ys) \<longleftrightarrow> x < y \<or> x = y \<and> text_less xs ys"

datatype 'n js_prim = UndefinedV | NullV | BooleanV bool | NumberV "'n js_number" | StringV key_text

datatype 'n key_value = Primitive "'n js_prim" | ArrayV "'n js_prim list" | RecordV "(key_text \<times> 'n js_prim) list"

record regexp =
  rx_source :: key_text
  rx_flags :: key_text

record 'n jsLibrary =
  lib_toNumber :: "key_text \<Rightarrow> 'n js_number"
  lib_parseFloat :: "'n key_value \<Rightarrow> 'n js_number"
  lib_numberToString :: "'n js_number \<Rightarrow> key_text"
  lib_objectToString :: "'n key_value \<Rightarrow> key_text"
  lib_test :: "regexp \<Rightarrow> 'n key_value \<Rightarrow> bool"

definition prim_toNumber :: "'n::linordered_idom jsLibrary \<Rightarrow> 'n js_prim \<Rightarrow> 'n js_number" where
  "prim_toNumber lib p =
     (case p of UndefinedV \<Rightarrow> None | NullV \<Rightarrow> Some 0 | BooleanV b \<Rightarrow> Some (if b then 1 else 0) | NumberV n \<Rightarrow> n | StringV s \<Rightarrow> lib_toNumber lib s)"

text \<open>The operators \<open>===\<close>, \<open><\<close> and \<open>==\<close>.\<close>

definition strict_equal :: "'n js_prim \<Rightarrow> 'n js_prim \<Rightarrow> bool" where
  "strict_equal a b =
     (case (a, b) of (NumberV x, NumberV y) \<Rightarrow> js_eq x y | _ \<Rightarrow> a = b)"

definition prim_less :: "'n::linordered_idom jsLibrary \<Rightarrow> 'n js_prim \<Rightarrow> 'n js_prim \<Rightarrow> bool" where
  "prim_less lib a b =
     (case (a, b) of (StringV s, StringV t) \<Rightarrow> text_less s t | _ \<Rightarrow> js_less (prim_toNumber lib a) (prim_toNumber lib b))"

definition is_nullish :: "'n js_prim \<Rightarrow> bool" where
  "is_nullish p = (case p of UndefinedV \<Rightarrow> True | NullV \<Rightarrow> True | _ \<Rightarrow> False)"

definition prim_loosely_equal :: "'n::linordered_idom jsLibrary \<Rightarrow> 'n js_prim \<Rightarrow> 'n js_prim \<Rightarrow> bool" where
  "prim_loosely_equal lib a b =
     (if is_nullish a \<or> is_nullish b then is_nullish a \<and> is_nullish b
      else case (a, b) of (StringV s, StringV t) \<Rightarrow> s = t | _ \<Rightarrow> js_eq (prim_toNumber lib a) (prim_toNumber lib b))"

definition loosely_equal :: "'n::linordered_idom jsLibrary \<Rightarrow> 'n key_value \<Rightarrow> 'n js_prim \<Rightarrow> bool" where
  "loosely_equal lib v p =
     (case v of Primitive a \<Rightarrow> prim_loosely_equal lib a p | _ \<Rightarrow> prim_loosely_equal lib (StringV (lib_objectToString lib v)) p)"

definition truthy :: "'n::linordered_idom key_value \<Rightarrow> bool" where
  "truthy v =
     (case v of
        Primitive UndefinedV \<Rightarrow> False | Primitive NullV \<Rightarrow> False | Primitive (BooleanV b) \<Rightarrow> b
      | Primitive (NumberV n) \<Rightarrow> (case n of None \<Rightarrow> False | Some x \<Rightarrow> x \<noteq> 0)
      | Primitive (StringV s) \<Rightarrow> s \<noteq> [] | _ \<Rightarrow> True)"

text \<open>\<open>Array.prototype.includes\<close> and \<open>hasOwnProperty\<close>.\<close>

definition array_includes :: "'n js_prim list \<Rightarrow> 'n key_value \<Rightarrow> bool" where
  "array_includes xs v = (case v of Primitive p \<Rightarrow> p \<in> set xs | _ \<Rightarrow> False)"

definition has_own_property :: "(key_text \<times> 'n js_prim) list \<Rightarrow> key_text \<Rightarrow> bool" where
  "has_own_property r k \<longleftrightarrow> k \<in> set (map fst r)"

type_synonym 'n key_context = "key_text \<Rightarrow> 'n key_value"

section \<open>Expressions\<close>

text \<open>
  A conjunction or disjunction carries the field \<open>negated\<close>, in which its negation is kept once it has been computed or
  when it was created as a negation.  The other classes have the field, too; it holds what \<open>negate\<close> would create with the constants of the time at which it was set, and is left out.
\<close>

datatype 'n keyExpr =
    FalseExpr
  | TrueExpr
  | DefinedExpr key_text
  | NotExpr key_text
  | EqualsExpr key_text "'n js_prim"
  | NotEqualsExpr key_text "'n js_prim"
  | AndExpr "'n keyExpr list" "'n keyExpr option"
  | RegexExpr key_text "regexp option"
  | NotRegexExpr key_text "regexp option"
  | OrExpr "'n keyExpr list" "'n keyExpr option"
  | InExpr key_text key_text
  | NotInExpr key_text key_text
  | GreaterExpr key_text "'n js_prim"
  | GreaterEqualsExpr key_text "'n js_prim"
  | SmallerExpr key_text "'n js_prim"
  | SmallerEqualsExpr key_text "'n js_prim"

fun expr_type :: "'n keyExpr \<Rightarrow> int" where
  "expr_type FalseExpr = 0"
| "expr_type TrueExpr = 1"
| "expr_type (DefinedExpr k) = 2"
| "expr_type (NotExpr k) = 3"
| "expr_type (EqualsExpr k v) = 4"
| "expr_type (NotEqualsExpr k v) = 5"
| "expr_type (AndExpr es n) = 6"
| "expr_type (RegexExpr k r) = 7"
| "expr_type (NotRegexExpr k r) = 8"
| "expr_type (OrExpr es n) = 9"
| "expr_type (InExpr k l) = 10"
| "expr_type (NotInExpr k l) = 11"
| "expr_type (GreaterExpr k v) = 12"
| "expr_type (GreaterEqualsExpr k v) = 13"
| "expr_type (SmallerExpr k v) = 14"
| "expr_type (SmallerEqualsExpr k v) = 15"

definition in_evaluate :: "'n key_context \<Rightarrow> key_text \<Rightarrow> key_text \<Rightarrow> bool" where
  "in_evaluate context k l =
     (case context l of
        ArrayV xs \<Rightarrow> array_includes xs (context k)
      | RecordV r \<Rightarrow> (case context k of Primitive (StringV s) \<Rightarrow> has_own_property r s | _ \<Rightarrow> False)
      | _ \<Rightarrow> False)"

definition regex_evaluate :: "'n jsLibrary \<Rightarrow> 'n key_context \<Rightarrow> key_text \<Rightarrow> regexp option \<Rightarrow> bool" where
  "regex_evaluate lib context k r = (case r of Some re \<Rightarrow> lib_test lib re (context k) | None \<Rightarrow> False)"

text \<open>The comparison with a number; a string never holds.\<close>

definition number_evaluate ::
  "('n::linordered_idom js_number \<Rightarrow> 'n js_number \<Rightarrow> bool) \<Rightarrow> 'n jsLibrary \<Rightarrow> 'n key_context \<Rightarrow> key_text \<Rightarrow> 'n js_prim \<Rightarrow> bool" where
  "number_evaluate holds lib context k v =
     (case v of StringV s \<Rightarrow> False | _ \<Rightarrow> holds (lib_parseFloat lib (context k)) (prim_toNumber lib v))"

abbreviation js_le :: "'n::linorder js_number \<Rightarrow> 'n js_number \<Rightarrow> bool" where
  "js_le a b \<equiv> js_less a b \<or> js_eq a b"

fun evaluate :: "'n::linordered_idom jsLibrary \<Rightarrow> 'n key_context \<Rightarrow> 'n keyExpr \<Rightarrow> bool" where
  "evaluate lib context FalseExpr = False"
| "evaluate lib context TrueExpr = True"
| "evaluate lib context (DefinedExpr k) = truthy (context k)"
| "evaluate lib context (NotExpr k) = (\<not> truthy (context k))"
| "evaluate lib context (EqualsExpr k v) = loosely_equal lib (context k) v"
| "evaluate lib context (NotEqualsExpr k v) = (\<not> loosely_equal lib (context k) v)"
| "evaluate lib context (AndExpr es n) = list_all (evaluate lib context) es"
| "evaluate lib context (RegexExpr k r) = regex_evaluate lib context k r"
| "evaluate lib context (NotRegexExpr k r) = (\<not> regex_evaluate lib context k r)"
| "evaluate lib context (OrExpr es n) = list_ex (evaluate lib context) es"
| "evaluate lib context (InExpr k l) = in_evaluate context k l"
| "evaluate lib context (NotInExpr k l) = (\<not> in_evaluate context k l)"
| "evaluate lib context (GreaterExpr k v) = number_evaluate (\<lambda>a b. js_less b a) lib context k v"
| "evaluate lib context (GreaterEqualsExpr k v) = number_evaluate (\<lambda>a b. js_le b a) lib context k v"
| "evaluate lib context (SmallerExpr k v) = number_evaluate js_less lib context k v"
| "evaluate lib context (SmallerEqualsExpr k v) = number_evaluate js_le lib context k v"

fun expr_keys :: "'n keyExpr \<Rightarrow> key_text list" where
  "expr_keys FalseExpr = []"
| "expr_keys TrueExpr = []"
| "expr_keys (DefinedExpr k) = [k]"
| "expr_keys (NotExpr k) = [k]"
| "expr_keys (EqualsExpr k v) = [k]"
| "expr_keys (NotEqualsExpr k v) = [k]"
| "expr_keys (AndExpr es n) = concat (map expr_keys es)"
| "expr_keys (RegexExpr k r) = [k]"
| "expr_keys (NotRegexExpr k r) = [k]"
| "expr_keys (OrExpr es n) = concat (map expr_keys es)"
| "expr_keys (InExpr k l) = [k, l]"
| "expr_keys (NotInExpr k l) = [k, l]"
| "expr_keys (GreaterExpr k v) = [k]"
| "expr_keys (GreaterEqualsExpr k v) = [k]"
| "expr_keys (SmallerExpr k v) = [k]"
| "expr_keys (SmallerEqualsExpr k v) = [k]"

subsection \<open>Printing\<close>

definition prim_toString :: "'n jsLibrary \<Rightarrow> 'n js_prim \<Rightarrow> key_text" where
  "prim_toString lib p =
     (case p of UndefinedV \<Rightarrow> ascii ''undefined'' | NullV \<Rightarrow> ascii ''null'' | BooleanV b \<Rightarrow> ascii (if b then ''true'' else ''false'')
      | NumberV n \<Rightarrow> lib_numberToString lib n | StringV s \<Rightarrow> s)"

fun text_join :: "key_text \<Rightarrow> key_text list \<Rightarrow> key_text" where
  "text_join sep [] = []"
| "text_join sep [x] = x"
| "text_join sep (x # y # zs) = x @ sep @ text_join sep (y # zs)"

definition regex_serialize :: "key_text \<Rightarrow> regexp option \<Rightarrow> key_text" where
  "regex_serialize k r =
     k @ ascii '' =~ '' @ (case r of Some re \<Rightarrow> ascii ''/'' @ rx_source re @ ascii ''/'' @ rx_flags re | None \<Rightarrow> ascii ''/invalid/'')"

definition quoted :: "key_text \<Rightarrow> key_text" where
  "quoted s = 39 # s @ [39]"

fun expr_serialize :: "'n jsLibrary \<Rightarrow> 'n keyExpr \<Rightarrow> key_text" where
  "expr_serialize lib FalseExpr = ascii ''false''"
| "expr_serialize lib TrueExpr = ascii ''true''"
| "expr_serialize lib (DefinedExpr k) = k"
| "expr_serialize lib (NotExpr k) = ascii ''!'' @ k"
| "expr_serialize lib (EqualsExpr k v) = k @ ascii '' == '' @ quoted (prim_toString lib v)"
| "expr_serialize lib (NotEqualsExpr k v) = k @ ascii '' != '' @ quoted (prim_toString lib v)"
| "expr_serialize lib (AndExpr es n) = text_join (ascii '' && '') (map (expr_serialize lib) es)"
| "expr_serialize lib (RegexExpr k r) = regex_serialize k r"
| "expr_serialize lib (NotRegexExpr k r) = ascii ''!('' @ regex_serialize k r @ ascii '')''"
| "expr_serialize lib (OrExpr es n) = text_join (ascii '' || '') (map (expr_serialize lib) es)"
| "expr_serialize lib (InExpr k l) = k @ ascii '' in '' @ quoted l"
| "expr_serialize lib (NotInExpr k l) = k @ ascii '' not in '' @ quoted l"
| "expr_serialize lib (GreaterExpr k v) = k @ ascii '' > '' @ prim_toString lib v"
| "expr_serialize lib (GreaterEqualsExpr k v) = k @ ascii '' >= '' @ prim_toString lib v"
| "expr_serialize lib (SmallerExpr k v) = k @ ascii '' < '' @ prim_toString lib v"
| "expr_serialize lib (SmallerEqualsExpr k v) = k @ ascii '' <= '' @ prim_toString lib v"

subsection \<open>Equality and order\<close>

definition regex_source :: "regexp option \<Rightarrow> key_text" where
  "regex_source r = (case r of Some re \<Rightarrow> rx_source re | None \<Rightarrow> [])"

fun expr_equals :: "'n keyExpr \<Rightarrow> 'n keyExpr \<Rightarrow> bool" where
  "expr_equals FalseExpr e' = (expr_type e' = 0)"
| "expr_equals TrueExpr e' = (expr_type e' = 1)"
| "expr_equals (DefinedExpr k) e' = (case e' of DefinedExpr k' \<Rightarrow> k = k' | _ \<Rightarrow> False)"
| "expr_equals (NotExpr k) e' = (case e' of NotExpr k' \<Rightarrow> k = k' | _ \<Rightarrow> False)"
| "expr_equals (EqualsExpr k v) e' = (case e' of EqualsExpr k' v' \<Rightarrow> k = k' \<and> strict_equal v v' | _ \<Rightarrow> False)"
| "expr_equals (NotEqualsExpr k v) e' = (case e' of NotEqualsExpr k' v' \<Rightarrow> k = k' \<and> strict_equal v v' | _ \<Rightarrow> False)"
| "expr_equals (AndExpr es n) e' = (case e' of AndExpr es' n' \<Rightarrow> list_all2 expr_equals es es' | _ \<Rightarrow> False)"
| "expr_equals (RegexExpr k r) e' = (case e' of RegexExpr k' r' \<Rightarrow> k = k' \<and> regex_source r = regex_source r' | _ \<Rightarrow> False)"
| "expr_equals (NotRegexExpr k r) e' = (case e' of NotRegexExpr k' r' \<Rightarrow> k = k' \<and> regex_source r = regex_source r' | _ \<Rightarrow> False)"
| "expr_equals (OrExpr es n) e' = (case e' of OrExpr es' n' \<Rightarrow> list_all2 expr_equals es es' | _ \<Rightarrow> False)"
| "expr_equals (InExpr k l) e' = (case e' of InExpr k' l' \<Rightarrow> k = k' \<and> l = l' | _ \<Rightarrow> False)"
| "expr_equals (NotInExpr k l) e' = (case e' of NotInExpr k' l' \<Rightarrow> k = k' \<and> l = l' | _ \<Rightarrow> False)"
| "expr_equals (GreaterExpr k v) e' = (case e' of GreaterExpr k' v' \<Rightarrow> k = k' \<and> strict_equal v v' | _ \<Rightarrow> False)"
| "expr_equals (GreaterEqualsExpr k v) e' = (case e' of GreaterEqualsExpr k' v' \<Rightarrow> k = k' \<and> strict_equal v v' | _ \<Rightarrow> False)"
| "expr_equals (SmallerExpr k v) e' = (case e' of SmallerExpr k' v' \<Rightarrow> k = k' \<and> strict_equal v v' | _ \<Rightarrow> False)"
| "expr_equals (SmallerEqualsExpr k v) e' = (case e' of SmallerEqualsExpr k' v' \<Rightarrow> k = k' \<and> strict_equal v v' | _ \<Rightarrow> False)"

definition cmp1 :: "key_text \<Rightarrow> key_text \<Rightarrow> int" where
  "cmp1 key1 key2 = (if text_less key1 key2 then - 1 else if text_less key2 key1 then 1 else 0)"

definition cmp2 :: "'n::linordered_idom jsLibrary \<Rightarrow> key_text \<Rightarrow> 'n js_prim \<Rightarrow> key_text \<Rightarrow> 'n js_prim \<Rightarrow> int" where
  "cmp2 lib key1 value1 key2 value2 =
     (if text_less key1 key2 then - 1 else if text_less key2 key1 then 1
      else if prim_less lib value1 value2 then - 1 else if prim_less lib value2 value1 then 1 else 0)"

definition regex_cmp :: "key_text \<Rightarrow> regexp option \<Rightarrow> key_text \<Rightarrow> regexp option \<Rightarrow> int" where
  "regex_cmp k r k' r' =
     (if text_less k k' then - 1 else if text_less k' k then 1
      else if text_less (regex_source r) (regex_source r') then - 1 else if text_less (regex_source r') (regex_source r) then 1 else 0)"

fun first_nonzero :: "int list \<Rightarrow> int" where
  "first_nonzero [] = 0"
| "first_nonzero (r # rs) = (if r \<noteq> 0 then r else first_nonzero rs)"

lemma operand_size: "e \<in> set es \<Longrightarrow> size e < Suc (size_list size es + m)"
  using size_list_estimation' [of e es "size e" size] by simp

text \<open>Two expressions of different types are ordered by their types.\<close>

function expr_cmp :: "'n::linordered_idom jsLibrary \<Rightarrow> 'n keyExpr \<Rightarrow> 'n keyExpr \<Rightarrow> int" where
  "expr_cmp lib e e' =
     (if expr_type e \<noteq> expr_type e' then expr_type e - expr_type e'
      else case (e, e') of
        (DefinedExpr k, DefinedExpr k') \<Rightarrow> cmp1 k k'
      | (NotExpr k, NotExpr k') \<Rightarrow> cmp1 k k'
      | (EqualsExpr k v, EqualsExpr k' v') \<Rightarrow> cmp2 lib k v k' v'
      | (NotEqualsExpr k v, NotEqualsExpr k' v') \<Rightarrow> cmp2 lib k v k' v'
      | (AndExpr es n, AndExpr es' n') \<Rightarrow>
          if length es < length es' then - 1 else if length es' < length es then 1
          else first_nonzero (map (\<lambda>(x, y). expr_cmp lib x y) (zip es es'))
      | (RegexExpr k r, RegexExpr k' r') \<Rightarrow> regex_cmp k r k' r'
      | (NotRegexExpr k r, NotRegexExpr k' r') \<Rightarrow> regex_cmp k r k' r'
      | (OrExpr es n, OrExpr es' n') \<Rightarrow>
          if length es < length es' then - 1 else if length es' < length es then 1
          else first_nonzero (map (\<lambda>(x, y). expr_cmp lib x y) (zip es es'))
      | (InExpr k l, InExpr k' l') \<Rightarrow> cmp2 lib k (StringV l) k' (StringV l')
      | (NotInExpr k l, NotInExpr k' l') \<Rightarrow> cmp2 lib k (StringV l) k' (StringV l')
      | (GreaterExpr k v, GreaterExpr k' v') \<Rightarrow> cmp2 lib k v k' v'
      | (GreaterEqualsExpr k v, GreaterEqualsExpr k' v') \<Rightarrow> cmp2 lib k v k' v'
      | (SmallerExpr k v, SmallerExpr k' v') \<Rightarrow> cmp2 lib k v k' v'
      | (SmallerEqualsExpr k v, SmallerEqualsExpr k' v') \<Rightarrow> cmp2 lib k v k' v'
      | _ \<Rightarrow> 0)"
  by pat_completeness auto
termination
  by (relation "measure (\<lambda>(lib, e, e'). size e)") (auto dest!: set_zip_leftD dest: operand_size)

declare expr_cmp.simps [simp del]

text \<open>\<open>Array.prototype.sort\<close>, which is stable.\<close>

fun js_insert :: "('a \<Rightarrow> 'a \<Rightarrow> int) \<Rightarrow> 'a \<Rightarrow> 'a list \<Rightarrow> 'a list" where
  "js_insert cmp x [] = [x]"
| "js_insert cmp x (y # ys) = (if cmp x y \<le> 0 then x # y # ys else y # js_insert cmp x ys)"

definition js_sort :: "('a \<Rightarrow> 'a \<Rightarrow> int) \<Rightarrow> 'a list \<Rightarrow> 'a list" where
  "js_sort cmp xs = foldr (js_insert cmp) xs []"

fun eliminate_duplicates :: "'n keyExpr list \<Rightarrow> 'n keyExpr list" where
  "eliminate_duplicates [] = []"
| "eliminate_duplicates [x] = [x]"
| "eliminate_duplicates (x # y # ys) =
     (if expr_equals x y then eliminate_duplicates (x # ys) else x # eliminate_duplicates (y # ys))"

section \<open>Creation\<close>

subsection \<open>Constants\<close>

type_synonym constant_values = "key_text \<rightharpoonup> bool"

definition setConstant :: "key_text \<Rightarrow> bool \<Rightarrow> constant_values \<Rightarrow> js_error + constant_values" where
  "setConstant k v constants = (if constants k \<noteq> None then Inl IllegalArgument else Inr (constants(k \<mapsto> v)))"

definition constant_text :: "bool \<Rightarrow> key_text" where
  "constant_text b = ascii (if b then ''true'' else ''false'')"

definition boolean_expr :: "bool \<Rightarrow> 'n keyExpr" where
  "boolean_expr b = (if b then TrueExpr else FalseExpr)"

subsection \<open>Terminal expressions\<close>

definition Defined_create :: "constant_values \<Rightarrow> key_text \<Rightarrow> 'n keyExpr" where
  "Defined_create constants k = (case constants k of Some c \<Rightarrow> boolean_expr c | None \<Rightarrow> DefinedExpr k)"

definition Not_create :: "constant_values \<Rightarrow> key_text \<Rightarrow> 'n keyExpr" where
  "Not_create constants k = (case constants k of Some c \<Rightarrow> boolean_expr (\<not> c) | None \<Rightarrow> NotExpr k)"

definition Equals_create :: "constant_values \<Rightarrow> key_text \<Rightarrow> 'n js_prim \<Rightarrow> 'n keyExpr" where
  "Equals_create constants k v =
     (case v of BooleanV b \<Rightarrow> if b then Defined_create constants k else Not_create constants k
      | _ \<Rightarrow> (case constants k of Some c \<Rightarrow> boolean_expr (strict_equal v (StringV (constant_text c))) | None \<Rightarrow> EqualsExpr k v))"

definition NotEquals_create :: "constant_values \<Rightarrow> key_text \<Rightarrow> 'n js_prim \<Rightarrow> 'n keyExpr" where
  "NotEquals_create constants k v =
     (case v of BooleanV b \<Rightarrow> if b then Not_create constants k else Defined_create constants k
      | _ \<Rightarrow> (case constants k of Some c \<Rightarrow> boolean_expr (\<not> strict_equal v (StringV (constant_text c))) | None \<Rightarrow> NotEqualsExpr k v))"

definition withFloatOrStr :: "'n jsLibrary \<Rightarrow> 'n js_prim \<Rightarrow> ('n js_prim \<Rightarrow> 'n keyExpr) \<Rightarrow> 'n keyExpr" where
  "withFloatOrStr lib v callback =
     (let v = (case v of StringV s \<Rightarrow> (case lib_parseFloat lib (Primitive v) of None \<Rightarrow> v | Some n \<Rightarrow> NumberV (Some n)) | _ \<Rightarrow> v)
      in case v of StringV s \<Rightarrow> callback v | NumberV n \<Rightarrow> callback v | _ \<Rightarrow> FalseExpr)"

definition Greater_create :: "'n jsLibrary \<Rightarrow> key_text \<Rightarrow> 'n js_prim \<Rightarrow> 'n keyExpr" where
  "Greater_create lib k v = withFloatOrStr lib v (GreaterExpr k)"

definition GreaterEquals_create :: "'n jsLibrary \<Rightarrow> key_text \<Rightarrow> 'n js_prim \<Rightarrow> 'n keyExpr" where
  "GreaterEquals_create lib k v = withFloatOrStr lib v (GreaterEqualsExpr k)"

definition Smaller_create :: "'n jsLibrary \<Rightarrow> key_text \<Rightarrow> 'n js_prim \<Rightarrow> 'n keyExpr" where
  "Smaller_create lib k v = withFloatOrStr lib v (SmallerExpr k)"

definition SmallerEquals_create :: "'n jsLibrary \<Rightarrow> key_text \<Rightarrow> 'n js_prim \<Rightarrow> 'n keyExpr" where
  "SmallerEquals_create lib k v = withFloatOrStr lib v (SmallerEqualsExpr k)"

subsection \<open>Conjunctions, disjunctions and negations\<close>

text \<open>
  The three operations call each other.  A frame of the stack is a record of the operations it may call; \<open>key_ops\<close> has a bounded
  stack, and an empty one throws the \<open>RangeError\<close> of the engine.  An operation may return
  \<open>undefined\<close>, which is \<open>Inr None\<close>.
\<close>

type_synonym 'n key_result = "js_error + 'n keyExpr option"

record 'n keyOps =
  op_and :: "'n keyExpr option list \<Rightarrow> 'n keyExpr option \<Rightarrow> bool \<Rightarrow> 'n key_result"
  op_or :: "'n keyExpr option list \<Rightarrow> 'n keyExpr option \<Rightarrow> bool \<Rightarrow> 'n key_result"
  op_negate :: "'n keyExpr \<Rightarrow> 'n key_result"

fun map_result :: "('a \<Rightarrow> 'e + 'b) \<Rightarrow> 'a list \<Rightarrow> 'e + 'b list" where
  "map_result f [] = Inr []"
| "map_result f (x # xs) = bind_result (f x) (\<lambda>y. bind_result (map_result f xs) (\<lambda>ys. Inr (y # ys)))"

text \<open>The loops that collect the operands; \<open>None\<close> is the early return.\<close>

fun and_collect :: "'n keyExpr option list \<Rightarrow> ('n keyExpr list \<times> bool) option" where
  "and_collect [] = Some ([], False)"
| "and_collect (e # arr) =
     (case e of None \<Rightarrow> and_collect arr
      | Some TrueExpr \<Rightarrow> map_option (\<lambda>(expr, hasTrue). (expr, True)) (and_collect arr)
      | Some FalseExpr \<Rightarrow> None
      | Some (AndExpr es n) \<Rightarrow> map_option (\<lambda>(expr, hasTrue). (es @ expr, hasTrue)) (and_collect arr)
      | Some e \<Rightarrow> map_option (\<lambda>(expr, hasTrue). (e # expr, hasTrue)) (and_collect arr))"

fun or_collect :: "'n keyExpr option list \<Rightarrow> ('n keyExpr list \<times> bool) option" where
  "or_collect [] = Some ([], False)"
| "or_collect (e # arr) =
     (case e of None \<Rightarrow> or_collect arr
      | Some FalseExpr \<Rightarrow> map_option (\<lambda>(expr, hasFalse). (expr, True)) (or_collect arr)
      | Some TrueExpr \<Rightarrow> None
      | Some (OrExpr es n) \<Rightarrow> map_option (\<lambda>(expr, hasFalse). (es @ expr, hasFalse)) (or_collect arr)
      | Some e \<Rightarrow> map_option (\<lambda>(expr, hasFalse). (e # expr, hasFalse)) (or_collect arr))"

text \<open>The double loop that looks for an operand that is the negation of an earlier one.\<close>

fun complement_inner :: "('n keyExpr \<Rightarrow> 'n key_result) \<Rightarrow> 'n keyExpr \<Rightarrow> 'n keyExpr list \<Rightarrow> js_error + bool" where
  "complement_inner neg e [] = Inr False"
| "complement_inner neg e (f # fs) =
     bind_result (neg e) (\<lambda>n. case n of None \<Rightarrow> Inl TypeError | Some n \<Rightarrow> if expr_equals n f then Inr True else complement_inner neg e fs)"

fun has_complement :: "('n keyExpr \<Rightarrow> 'n key_result) \<Rightarrow> 'n keyExpr list \<Rightarrow> js_error + bool" where
  "has_complement neg [] = Inr False"
| "has_complement neg (e # es) = bind_result (complement_inner neg e es) (\<lambda>b. if b then Inr True else has_complement neg es)"

definition getTerminals :: "'n keyExpr \<Rightarrow> 'n keyExpr list" where
  "getTerminals node = (case node of OrExpr es n \<Rightarrow> es | _ \<Rightarrow> [node])"

definition is_or :: "'n keyExpr \<Rightarrow> bool" where
  "is_or e = (case e of OrExpr es n \<Rightarrow> True | _ \<Rightarrow> False)"

text \<open>The loop that distributes the last operand, a disjunction, over the one before it.\<close>

function and_distribute :: "'n::linordered_idom jsLibrary \<Rightarrow> 'n keyOps \<Rightarrow> bool \<Rightarrow> 'n keyExpr list \<Rightarrow> js_error + 'n keyExpr list" where
  "and_distribute lib ops extraRedundantCheck expr =
     (if 1 < length expr \<and> is_or (last expr) then
        let lastElement = last expr; secondToLastElement = last (butlast expr); expr = butlast (butlast expr); isFinished = (expr = []) in
        bind_result (map_result (\<lambda>el. op_and ops [Some el, Some secondToLastElement] None extraRedundantCheck) (getTerminals lastElement))
          (\<lambda>arr. bind_result (op_or ops arr None isFinished)
            (\<lambda>resultElement. and_distribute lib ops extraRedundantCheck
               (case resultElement of Some e \<Rightarrow> js_sort (expr_cmp lib) (expr @ [e]) | None \<Rightarrow> expr)))
      else Inr expr)"
  by pat_completeness auto

lemma length_js_insert [simp]: "length (js_insert cmp x xs) = Suc (length xs)"
  by (induction xs) auto

lemma length_js_sort [simp]: "length (js_sort cmp xs) = length xs"
  by (induction xs) (auto simp: js_sort_def)

termination and_distribute
  by (relation "measure (\<lambda>(lib, ops, x, expr). length expr)") (auto split: option.splits)

declare and_distribute.simps [simp del]

definition And_normalizeArr ::
  "'n::linordered_idom jsLibrary \<Rightarrow> 'n keyOps \<Rightarrow> 'n keyExpr option list \<Rightarrow> 'n keyExpr option \<Rightarrow> bool \<Rightarrow> 'n key_result" where
  "And_normalizeArr lib ops arr negated extraRedundantCheck =
     (case and_collect arr of
        None \<Rightarrow> Inr (Some FalseExpr)
      | Some (expr, hasTrue) \<Rightarrow>
          if expr = [] then Inr (if hasTrue then Some TrueExpr else None)
          else if length expr = 1 then Inr (Some (hd expr))
          else let expr = eliminate_duplicates (js_sort (expr_cmp lib) expr) in
            if length expr = 1 then Inr (Some (hd expr))
            else bind_result (and_distribute lib ops extraRedundantCheck expr)
              (\<lambda>expr. if length expr = 1 then Inr (Some (hd expr))
                 else bind_result (if extraRedundantCheck then has_complement (op_negate ops) expr else Inr False)
                   (\<lambda>b. if b then Inr (Some FalseExpr) else Inr (Some (AndExpr expr negated)))))"

definition Or_normalizeArr ::
  "'n::linordered_idom jsLibrary \<Rightarrow> 'n keyOps \<Rightarrow> 'n keyExpr option list \<Rightarrow> 'n keyExpr option \<Rightarrow> bool \<Rightarrow> 'n key_result" where
  "Or_normalizeArr lib ops arr negated extraRedundantCheck =
     (case or_collect arr of
        None \<Rightarrow> Inr (Some TrueExpr)
      | Some (expr, hasFalse) \<Rightarrow>
          if expr = [] then Inr (if hasFalse then Some FalseExpr else None)
          else let expr = js_sort (expr_cmp lib) expr in
            if length expr = 1 then Inr (Some (hd expr))
            else let expr = eliminate_duplicates expr in
              if length expr = 1 then Inr (Some (hd expr))
              else bind_result (if extraRedundantCheck then has_complement (op_negate ops) expr else Inr False)
                (\<lambda>b. if b then Inr (Some TrueExpr) else Inr (Some (OrExpr expr negated))))"

text \<open>The negation of a disjunction: the negated operands are multiplied out from the left.\<close>

definition negate_pair :: "'n keyOps \<Rightarrow> 'n keyExpr option \<Rightarrow> 'n keyExpr option \<Rightarrow> 'n key_result" where
  "negate_pair ops LEFT RIGHT =
     (case (LEFT, RIGHT) of
        (Some l, Some r) \<Rightarrow>
          bind_result (map_result (\<lambda>(left, right). op_and ops [Some left, Some right] None False) (List.product (getTerminals l) (getTerminals r)))
            (\<lambda>arr. op_or ops arr None False)
      | _ \<Rightarrow> Inl TypeError)"

fun negate_distribute :: "'n keyOps \<Rightarrow> 'n keyExpr option \<Rightarrow> 'n keyExpr option list \<Rightarrow> js_error + 'n keyExpr option list" where
  "negate_distribute ops LEFT [] = Inr [LEFT]"
| "negate_distribute ops LEFT (RIGHT # result) = bind_result (negate_pair ops LEFT RIGHT) (\<lambda>e. negate_distribute ops e result)"

definition negate_or :: "'n keyOps \<Rightarrow> 'n keyExpr \<Rightarrow> 'n keyExpr list \<Rightarrow> 'n key_result" where
  "negate_or ops this es =
     bind_result (map_result (op_negate ops) es)
       (\<lambda>result. bind_result (case result of [] \<Rightarrow> Inr [] | LEFT # rest \<Rightarrow> negate_distribute ops LEFT rest) (\<lambda>result. op_or ops result (Some this) True))"

definition expr_negate :: "constant_values \<Rightarrow> 'n jsLibrary \<Rightarrow> 'n keyOps \<Rightarrow> 'n keyExpr \<Rightarrow> 'n key_result" where
  "expr_negate constants lib ops e =
     (case e of
        FalseExpr \<Rightarrow> Inr (Some TrueExpr)
      | TrueExpr \<Rightarrow> Inr (Some FalseExpr)
      | DefinedExpr k \<Rightarrow> Inr (Some (Not_create constants k))
      | NotExpr k \<Rightarrow> Inr (Some (Defined_create constants k))
      | EqualsExpr k v \<Rightarrow> Inr (Some (NotEquals_create constants k v))
      | NotEqualsExpr k v \<Rightarrow> Inr (Some (Equals_create constants k v))
      | AndExpr es negated \<Rightarrow>
          (case negated of Some n \<Rightarrow> Inr (Some n)
           | None \<Rightarrow> bind_result (map_result (op_negate ops) es) (\<lambda>result. op_or ops result (Some e) True))
      | RegexExpr k r \<Rightarrow> Inr (Some (NotRegexExpr k r))
      | NotRegexExpr k r \<Rightarrow> Inr (Some (RegexExpr k r))
      | OrExpr es negated \<Rightarrow> (case negated of Some n \<Rightarrow> Inr (Some n) | None \<Rightarrow> negate_or ops e es)
      | InExpr k l \<Rightarrow> Inr (Some (NotInExpr k l))
      | NotInExpr k l \<Rightarrow> Inr (Some (InExpr k l))
      | GreaterExpr k v \<Rightarrow> Inr (Some (SmallerEquals_create lib k v))
      | GreaterEqualsExpr k v \<Rightarrow> Inr (Some (Smaller_create lib k v))
      | SmallerExpr k v \<Rightarrow> Inr (Some (GreaterEquals_create lib k v))
      | SmallerEqualsExpr k v \<Rightarrow> Inr (Some (Greater_create lib k v)))"

primrec key_ops :: "constant_values \<Rightarrow> 'n::linordered_idom jsLibrary \<Rightarrow> nat \<Rightarrow> 'n keyOps" where
  "key_ops constants lib 0 = \<lparr>op_and = (\<lambda>_ _ _. Inl RangeError), op_or = (\<lambda>_ _ _. Inl RangeError), op_negate = (\<lambda>_. Inl RangeError)\<rparr>"
| "key_ops constants lib (Suc stack) =
     (let ops = key_ops constants lib stack in
      \<lparr>op_and = And_normalizeArr lib ops, op_or = Or_normalizeArr lib ops, op_negate = expr_negate constants lib ops\<rparr>)"

text \<open>The interface of the class \<open>ContextKeyExpr\<close>.\<close>

definition ContextKeyExpr_and :: "constant_values \<Rightarrow> 'n::linordered_idom jsLibrary \<Rightarrow> nat \<Rightarrow> 'n keyExpr option list \<Rightarrow> 'n key_result" where
  "ContextKeyExpr_and constants lib stack expr = op_and (key_ops constants lib stack) expr None True"

definition ContextKeyExpr_or :: "constant_values \<Rightarrow> 'n::linordered_idom jsLibrary \<Rightarrow> nat \<Rightarrow> 'n keyExpr option list \<Rightarrow> 'n key_result" where
  "ContextKeyExpr_or constants lib stack expr = op_or (key_ops constants lib stack) expr None True"

definition ContextKeyExpr_negate :: "constant_values \<Rightarrow> 'n::linordered_idom jsLibrary \<Rightarrow> nat \<Rightarrow> 'n keyExpr \<Rightarrow> 'n key_result" where
  "ContextKeyExpr_negate constants lib stack e = op_negate (key_ops constants lib stack) e"

text \<open>The field \<open>negated\<close> of an expression after a call of \<open>negate\<close> that returned \<open>n\<close>.\<close>

definition remember_negated :: "'n keyExpr \<Rightarrow> 'n keyExpr \<Rightarrow> 'n keyExpr" where
  "remember_negated n e = (case e of AndExpr es _ \<Rightarrow> AndExpr es (Some n) | OrExpr es _ \<Rightarrow> OrExpr es (Some n) | _ \<Rightarrow> e)"

subsection \<open>Substitution of constants\<close>

text \<open>\<open>None\<close> is the same instance, \<open>Some r\<close> a new result (which may be \<open>undefined\<close>).\<close>

lemma map_result_cong [fundef_cong]: "xs = ys \<Longrightarrow> (\<And>x. x \<in> set ys \<Longrightarrow> f x = g x) \<Longrightarrow> map_result f xs = map_result g ys"
  by (induction ys arbitrary: xs) auto

definition eliminated :: "'n keyExpr list \<Rightarrow> 'n keyExpr option option list \<Rightarrow> 'n keyExpr option list" where
  "eliminated arr new = map2 (\<lambda>e r. case r of None \<Rightarrow> Some e | Some newExpr \<Rightarrow> newExpr) arr new"

fun substituteConstants :: "constant_values \<Rightarrow> 'n keyOps \<Rightarrow> 'n keyExpr \<Rightarrow> js_error + 'n keyExpr option option" where
  "substituteConstants constants ops (DefinedExpr k) = Inr (map_option (\<lambda>c. Some (boolean_expr c)) (constants k))"
| "substituteConstants constants ops (NotExpr k) = Inr (map_option (\<lambda>c. Some (boolean_expr (\<not> c))) (constants k))"
| "substituteConstants constants ops (EqualsExpr k v) =
     Inr (map_option (\<lambda>c. Some (boolean_expr (strict_equal v (StringV (constant_text c))))) (constants k))"
| "substituteConstants constants ops (NotEqualsExpr k v) =
     Inr (map_option (\<lambda>c. Some (boolean_expr (\<not> strict_equal v (StringV (constant_text c))))) (constants k))"
| "substituteConstants constants ops (AndExpr es negated) =
     bind_result (map_result (substituteConstants constants ops) es)
       (\<lambda>new. if list_all (\<lambda>r. r = None) new then Inr None
              else bind_result (op_and ops (eliminated es new) negated False) (\<lambda>r. Inr (Some r)))"
| "substituteConstants constants ops (OrExpr es negated) =
     bind_result (map_result (substituteConstants constants ops) es)
       (\<lambda>new. if list_all (\<lambda>r. r = None) new then Inr None
              else bind_result (op_or ops (eliminated es new) negated False) (\<lambda>r. Inr (Some r)))"
| "substituteConstants constants ops e = Inr None"

definition ContextKeyExpr_substituteConstants :: "constant_values \<Rightarrow> 'n::linordered_idom jsLibrary \<Rightarrow> nat \<Rightarrow> 'n keyExpr \<Rightarrow> 'n key_result" where
  "ContextKeyExpr_substituteConstants constants lib stack e =
     bind_result (substituteConstants constants (key_ops constants lib stack) e) (\<lambda>r. Inr (case r of None \<Rightarrow> Some e | Some newExpr \<Rightarrow> newExpr))"

definition expressionsAreEqualWithConstantSubstitution ::
  "constant_values \<Rightarrow> 'n::linordered_idom jsLibrary \<Rightarrow> nat \<Rightarrow> 'n keyExpr option \<Rightarrow> 'n keyExpr option \<Rightarrow> js_error + bool" where
  "expressionsAreEqualWithConstantSubstitution constants lib stack a b =
     (let substitute = (\<lambda>e. case e of None \<Rightarrow> Inr None | Some e \<Rightarrow> ContextKeyExpr_substituteConstants constants lib stack e) in
      bind_result (substitute a) (\<lambda>aExpr. bind_result (substitute b) (\<lambda>bExpr. Inr
        (case (aExpr, bExpr) of (None, None) \<Rightarrow> True | (Some x, Some y) \<Rightarrow> expr_equals x y | _ \<Rightarrow> False))))"

section \<open>Mapping\<close>

text \<open>The methods \<open>map\<close>; the mapper is the code of the caller.  Its operations on regular expressions and memberships return such expressions again.\<close>

record 'n contextKeyExprMapper =
  mapDefined :: "key_text \<Rightarrow> 'n keyExpr"
  mapNot :: "key_text \<Rightarrow> 'n keyExpr"
  mapEquals :: "key_text \<Rightarrow> 'n js_prim \<Rightarrow> 'n keyExpr"
  mapNotEquals :: "key_text \<Rightarrow> 'n js_prim \<Rightarrow> 'n keyExpr"
  mapGreater :: "key_text \<Rightarrow> 'n js_prim \<Rightarrow> 'n keyExpr"
  mapGreaterEquals :: "key_text \<Rightarrow> 'n js_prim \<Rightarrow> 'n keyExpr"
  mapSmaller :: "key_text \<Rightarrow> 'n js_prim \<Rightarrow> 'n keyExpr"
  mapSmallerEquals :: "key_text \<Rightarrow> 'n js_prim \<Rightarrow> 'n keyExpr"
  mapRegex :: "key_text \<Rightarrow> regexp option \<Rightarrow> key_text \<times> regexp option"
  mapIn :: "key_text \<Rightarrow> key_text \<Rightarrow> key_text \<times> key_text"
  mapNotIn :: "key_text \<Rightarrow> key_text \<Rightarrow> key_text \<times> key_text"

fun expr_map :: "'n contextKeyExprMapper \<Rightarrow> 'n keyExpr \<Rightarrow> 'n keyExpr" where
  "expr_map m FalseExpr = FalseExpr"
| "expr_map m TrueExpr = TrueExpr"
| "expr_map m (DefinedExpr k) = mapDefined m k"
| "expr_map m (NotExpr k) = mapNot m k"
| "expr_map m (EqualsExpr k v) = mapEquals m k v"
| "expr_map m (NotEqualsExpr k v) = mapNotEquals m k v"
| "expr_map m (AndExpr es n) = AndExpr (map (expr_map m) es) None"
| "expr_map m (RegexExpr k r) = (case mapRegex m k r of (k', r') \<Rightarrow> RegexExpr k' r')"
| "expr_map m (NotRegexExpr k r) = (case mapRegex m k r of (k', r') \<Rightarrow> NotRegexExpr k' r')"
| "expr_map m (OrExpr es n) = OrExpr (map (expr_map m) es) None"
| "expr_map m (InExpr k l) = (case mapIn m k l of (k', l') \<Rightarrow> InExpr k' l')"
| "expr_map m (NotInExpr k l) = (case mapNotIn m k l of (k', l') \<Rightarrow> NotInExpr k' l')"
| "expr_map m (GreaterExpr k v) = mapGreater m k v"
| "expr_map m (GreaterEqualsExpr k v) = mapGreaterEquals m k v"
| "expr_map m (SmallerExpr k v) = mapSmaller m k v"
| "expr_map m (SmallerEqualsExpr k v) = mapSmallerEquals m k v"

text \<open>A mapper that renames keys moves the evaluation to the renamed context.\<close>

definition renaming :: "(key_text \<Rightarrow> key_text) \<Rightarrow> 'n contextKeyExprMapper" where
  "renaming f =
     \<lparr>mapDefined = (\<lambda>k. DefinedExpr (f k)), mapNot = (\<lambda>k. NotExpr (f k)), mapEquals = (\<lambda>k. EqualsExpr (f k)), mapNotEquals = (\<lambda>k. NotEqualsExpr (f k)),
      mapGreater = (\<lambda>k. GreaterExpr (f k)), mapGreaterEquals = (\<lambda>k. GreaterEqualsExpr (f k)), mapSmaller = (\<lambda>k. SmallerExpr (f k)),
      mapSmallerEquals = (\<lambda>k. SmallerEqualsExpr (f k)), mapRegex = (\<lambda>k r. (f k, r)), mapIn = (\<lambda>k l. (f k, f l)), mapNotIn = (\<lambda>k l. (f k, f l))\<rparr>"

lemma evaluate_renamed: "evaluate lib context (expr_map (renaming f) e) = evaluate lib (\<lambda>k. context (f k)) e"
  by (induction e) (simp_all add: renaming_def in_evaluate_def regex_evaluate_def number_evaluate_def list_all_iff list_ex_iff)

lemma keys_renamed: "expr_keys (expr_map (renaming f) e) = map f (expr_keys e)"
  by (induction e) (simp_all add: renaming_def map_concat cong: map_cong)

text \<open>The value of an expression depends only on its keys.\<close>

lemma evaluate_keys: "(\<And>k. k \<in> set (expr_keys e) \<Longrightarrow> context k = context' k) \<Longrightarrow> evaluate lib context e = evaluate lib context' e"
proof (induction e)
  case (AndExpr es n)
  have "\<forall>e \<in> set es. evaluate lib context e = evaluate lib context' e"
    by (intro ballI AndExpr.IH(1)) (use AndExpr.prems in auto)
  then show ?case by (simp add: list_all_iff)
next
  case (OrExpr es n)
  have "\<forall>e \<in> set es. evaluate lib context e = evaluate lib context' e"
    by (intro ballI OrExpr.IH(1)) (use OrExpr.prems in auto)
  then show ?case by (simp add: list_ex_iff)
qed (simp_all add: in_evaluate_def regex_evaluate_def number_evaluate_def cong: key_value.case_cong option.case_cong js_prim.case_cong)

section \<open>Implication\<close>

fun allElementsIncluded :: "'n::linordered_idom jsLibrary \<Rightarrow> 'n keyExpr list \<Rightarrow> 'n keyExpr list \<Rightarrow> bool" where
  "allElementsIncluded lib [] q \<longleftrightarrow> True"
| "allElementsIncluded lib (x # p) [] \<longleftrightarrow> False"
| "allElementsIncluded lib (x # p) (y # q) \<longleftrightarrow>
     (let cmp = expr_cmp lib x y in
      if cmp < 0 then False else if cmp = 0 then allElementsIncluded lib p q else allElementsIncluded lib (x # p) q)"

definition or_operands :: "'n keyExpr \<Rightarrow> 'n keyExpr list option" where
  "or_operands e = (case e of OrExpr es n \<Rightarrow> Some es | _ \<Rightarrow> None)"

definition and_operands :: "'n keyExpr \<Rightarrow> 'n keyExpr list option" where
  "and_operands e = (case e of AndExpr es n \<Rightarrow> Some es | _ \<Rightarrow> None)"

lemma or_operands_size: "or_operands e = Some es \<Longrightarrow> x \<in> set es \<Longrightarrow> size x < size e"
  by (cases e) (auto simp: or_operands_def dest: operand_size)

lemma and_operands_size: "and_operands e = Some es \<Longrightarrow> x \<in> set es \<Longrightarrow> size x < size e"
  by (cases e) (auto simp: and_operands_def dest: operand_size)

function implies :: "'n::linordered_idom jsLibrary \<Rightarrow> 'n keyExpr \<Rightarrow> 'n keyExpr \<Rightarrow> bool" where
  "implies lib p q =
     (if expr_type p = 0 \<or> expr_type q = 1 then True
      else case or_operands p of
        Some ps \<Rightarrow> (case or_operands q of Some qs \<Rightarrow> allElementsIncluded lib ps qs | None \<Rightarrow> False)
      | None \<Rightarrow>
        (case or_operands q of
           Some qs \<Rightarrow> list_ex (\<lambda>element. implies lib p element) qs
         | None \<Rightarrow>
           (case and_operands p of
              Some ps \<Rightarrow>
                (case and_operands q of Some qs \<Rightarrow> allElementsIncluded lib qs ps | None \<Rightarrow> list_ex (\<lambda>element. implies lib element q) ps)
            | None \<Rightarrow> expr_equals p q)))"
  by pat_completeness auto
termination
  by (relation "measure (\<lambda>(lib, p, q). size p + size q)") (auto dest: or_operands_size and_operands_size)

declare implies.simps [simp del]

end
