(* ===== verification/Context_Key_Semantics.thy ===== *)
theory Context_Key_Semantics
  imports Context_Key
begin

text \<open>
  What the creation, the negation, the substitution of constants and the implication of context key expressions mean for their evaluation.
\<close>

section \<open>Situations\<close>

text \<open>
  An expression is evaluated in a context; creation depends on the registered constants.  The flags that
  belong to the source of a regular expression are a function, since \<open>equals\<close> compares only the sources.
\<close>

record 'n situation =
  si_lib :: "'n jsLibrary"
  si_context :: "'n key_context"
  si_constants :: constant_values
  si_flags :: "key_text \<Rightarrow> key_text"

abbreviation ev :: "'n::linordered_idom situation \<Rightarrow> 'n keyExpr \<Rightarrow> bool" where
  "ev S \<equiv> evaluate (si_lib S) (si_context S)"

abbreviation ops_of :: "'n::linordered_idom situation \<Rightarrow> nat \<Rightarrow> 'n keyOps" where
  "ops_of S \<equiv> key_ops (si_constants S) (si_lib S)"

definition constant_fits :: "'n situation \<Rightarrow> key_text \<Rightarrow> (bool \<Rightarrow> bool) \<Rightarrow> bool" where
  "constant_fits S k holds = (case si_constants S k of None \<Rightarrow> True | Some c \<Rightarrow> holds c)"

definition regexp_fits :: "'n situation \<Rightarrow> regexp option \<Rightarrow> bool" where
  "regexp_fits S r = (case r of None \<Rightarrow> True | Some re \<Rightarrow> rx_source re \<noteq> [] \<and> rx_flags re = si_flags S (rx_source re))"

definition equals_fits :: "'n::linordered_idom situation \<Rightarrow> key_text \<Rightarrow> 'n js_prim \<Rightarrow> bool" where
  "equals_fits S k v \<longleftrightarrow> (case v of BooleanV b \<Rightarrow> False | _ \<Rightarrow> True) \<and>
     constant_fits S k (\<lambda>c. loosely_equal (si_lib S) (si_context S k) v = strict_equal v (StringV (constant_text c)))"

definition number_fits :: "'n situation \<Rightarrow> key_text \<Rightarrow> 'n js_prim \<Rightarrow> bool" where
  "number_fits S k v \<longleftrightarrow> (case v of NumberV (Some x) \<Rightarrow> lib_parseFloat (si_lib S) (si_context S k) \<noteq> None | _ \<Rightarrow> False)"

text \<open>
  \<open>well_formed S e\<close>: the constants agree with the context, the values of \<open>==\<close> are not booleans (which \<open>create\<close> replaces), comparisons are between
  numbers, regular expressions have the flags of their source, operand lists are not empty, and every remembered negation is one.
\<close>

fun well_formed :: "'n::linordered_idom situation \<Rightarrow> 'n keyExpr \<Rightarrow> bool" where
  "well_formed S FalseExpr \<longleftrightarrow> True"
| "well_formed S TrueExpr \<longleftrightarrow> True"
| "well_formed S (DefinedExpr k) \<longleftrightarrow> constant_fits S k (\<lambda>c. truthy (si_context S k) = c)"
| "well_formed S (NotExpr k) \<longleftrightarrow> constant_fits S k (\<lambda>c. truthy (si_context S k) = c)"
| "well_formed S (EqualsExpr k v) \<longleftrightarrow> equals_fits S k v"
| "well_formed S (NotEqualsExpr k v) \<longleftrightarrow> equals_fits S k v"
| "well_formed S (AndExpr es None) \<longleftrightarrow> es \<noteq> [] \<and> list_all (well_formed S) es"
| "well_formed S (AndExpr es (Some m)) \<longleftrightarrow> es \<noteq> [] \<and> list_all (well_formed S) es \<and> well_formed S m \<and> ev S m = (\<not> list_all (ev S) es)"
| "well_formed S (RegexExpr k r) \<longleftrightarrow> regexp_fits S r"
| "well_formed S (NotRegexExpr k r) \<longleftrightarrow> regexp_fits S r"
| "well_formed S (OrExpr es None) \<longleftrightarrow> es \<noteq> [] \<and> list_all (well_formed S) es"
| "well_formed S (OrExpr es (Some m)) \<longleftrightarrow> es \<noteq> [] \<and> list_all (well_formed S) es \<and> well_formed S m \<and> ev S m = (\<not> list_ex (ev S) es)"
| "well_formed S (InExpr k l) \<longleftrightarrow> True"
| "well_formed S (NotInExpr k l) \<longleftrightarrow> True"
| "well_formed S (GreaterExpr k v) \<longleftrightarrow> number_fits S k v"
| "well_formed S (GreaterEqualsExpr k v) \<longleftrightarrow> number_fits S k v"
| "well_formed S (SmallerExpr k v) \<longleftrightarrow> number_fits S k v"
| "well_formed S (SmallerEqualsExpr k v) \<longleftrightarrow> number_fits S k v"

lemma well_formed_operands:
  "well_formed S (AndExpr es n) \<Longrightarrow> es \<noteq> [] \<and> (\<forall>e \<in> set es. well_formed S e)"
  "well_formed S (OrExpr es n) \<Longrightarrow> es \<noteq> [] \<and> (\<forall>e \<in> set es. well_formed S e)"
  by (cases n; simp add: list_all_iff)+

section \<open>Equal expressions\<close>

lemma strict_equal_eq: "strict_equal v w \<Longrightarrow> v = w"
  by (auto simp: strict_equal_def js_eq_def split: js_prim.splits option.splits)

lemma regex_source_eq: "regexp_fits S r \<Longrightarrow> regexp_fits S r' \<Longrightarrow> regex_source r = regex_source r' \<Longrightarrow> r = r'"
  by (auto simp: regexp_fits_def regex_source_def intro: regexp.equality split: option.splits)

lemma operands_evaluate:
  assumes "list_all2 expr_equals es es'" "\<And>x y. x \<in> set es \<Longrightarrow> y \<in> set es' \<Longrightarrow> expr_equals x y \<Longrightarrow> f x = f y"
  shows "list_all f es = list_all f es' \<and> list_ex f es = list_ex f es'"
  using assms by (induction rule: list_all2_induct) auto

lemma equals_evaluate:
  "expr_equals e e' \<Longrightarrow> well_formed S e \<Longrightarrow> well_formed S e' \<Longrightarrow> ev S e = ev S e'"
proof (induction e arbitrary: e')
  case (AndExpr es n)
  then obtain es' n' where e': "e' = AndExpr es' n'" "list_all2 expr_equals es es'"
    by (auto split: keyExpr.splits)
  moreover have "\<forall>e \<in> set es. well_formed S e" "\<forall>e \<in> set es'. well_formed S e"
    using well_formed_operands(1) AndExpr.prems(2,3) e'(1) by blast+
  ultimately show ?case
    using operands_evaluate [OF e'(2), of "ev S"] AndExpr.IH(1) by simp
next
  case (OrExpr es n)
  then obtain es' n' where e': "e' = OrExpr es' n'" "list_all2 expr_equals es es'"
    by (auto split: keyExpr.splits)
  moreover have "\<forall>e \<in> set es. well_formed S e" "\<forall>e \<in> set es'. well_formed S e"
    using well_formed_operands(2) OrExpr.prems(2,3) e'(1) by blast+
  ultimately show ?case
    using operands_evaluate [OF e'(2), of "ev S"] OrExpr.IH(1) by simp
next
  case FalseExpr
  then show ?case by (cases e') auto
next
  case TrueExpr
  then show ?case by (cases e') auto
qed (auto split: keyExpr.splits dest: strict_equal_eq regex_source_eq)

section \<open>Sorting and removing duplicates\<close>

lemma set_js_insert [simp]: "set (js_insert cmp x xs) = insert x (set xs)"
  by (induction xs) auto

lemma set_js_sort [simp]: "set (js_sort cmp xs) = set xs"
  by (induction xs) (auto simp: js_sort_def)

lemma js_sort_empty [simp]: "js_sort cmp xs = [] \<longleftrightarrow> xs = []"
  using length_js_sort [of cmp xs] by (metis length_0_conv)

lemma eliminate_duplicates_empty [simp]: "eliminate_duplicates es = [] \<longleftrightarrow> es = []"
  by (induction es rule: eliminate_duplicates.induct) auto

lemma set_eliminate_duplicates: "set (eliminate_duplicates es) \<subseteq> set es"
  by (induction es rule: eliminate_duplicates.induct) auto

lemma eliminate_duplicates_evaluate:
  "\<forall>e \<in> set es. well_formed S e \<Longrightarrow> ev S ` set (eliminate_duplicates es) = ev S ` set es"
proof (induction es rule: eliminate_duplicates.induct)
  case (3 x y ys)
  then show ?case
    using equals_evaluate [of x y S] by (auto simp: insert_commute)
qed auto

lemma normalized_evaluate:
  assumes "\<forall>e \<in> set es. well_formed S e"
  shows "(\<forall>e \<in> set (eliminate_duplicates es). ev S e) = (\<forall>e \<in> set es. ev S e)"
    "(\<exists>e \<in> set (eliminate_duplicates es). ev S e) = (\<exists>e \<in> set es. ev S e)"
    "\<forall>e \<in> set (eliminate_duplicates es). well_formed S e"
proof -
  have "ev S ` set (eliminate_duplicates es) = ev S ` set es"
    by (rule eliminate_duplicates_evaluate [OF assms])
  then show "(\<forall>e \<in> set (eliminate_duplicates es). ev S e) = (\<forall>e \<in> set es. ev S e)"
    "(\<exists>e \<in> set (eliminate_duplicates es). ev S e) = (\<exists>e \<in> set es. ev S e)"
    by (metis (mono_tags, lifting) image_iff)+
  show "\<forall>e \<in> set (eliminate_duplicates es). well_formed S e"
    using assms set_eliminate_duplicates by blast
qed

section \<open>The meaning of the operations\<close>

definition operands_ok :: "'n::linordered_idom situation \<Rightarrow> 'n keyExpr option list \<Rightarrow> bool" where
  "operands_ok S arr \<longleftrightarrow> (\<forall>e. Some e \<in> set arr \<longrightarrow> well_formed S e)"

definition all_hold :: "'n::linordered_idom situation \<Rightarrow> 'n keyExpr option list \<Rightarrow> bool" where
  "all_hold S arr \<longleftrightarrow> (\<forall>e. Some e \<in> set arr \<longrightarrow> ev S e)"

definition some_holds :: "'n::linordered_idom situation \<Rightarrow> 'n keyExpr option list \<Rightarrow> bool" where
  "some_holds S arr \<longleftrightarrow> (\<exists>e. Some e \<in> set arr \<and> ev S e)"

definition remembered_ok :: "'n::linordered_idom situation \<Rightarrow> bool \<Rightarrow> 'n keyExpr option \<Rightarrow> bool" where
  "remembered_ok S b n = (case n of None \<Rightarrow> True | Some m \<Rightarrow> well_formed S m \<and> ev S m = b)"

text \<open>The result is \<open>undefined\<close> if all operands are, and otherwise means \<open>b\<close>; the only exception is an exhausted stack.\<close>

definition means :: "'n::linordered_idom situation \<Rightarrow> 'n keyExpr option list \<Rightarrow> bool \<Rightarrow> 'n key_result \<Rightarrow> bool" where
  "means S arr b res \<longleftrightarrow>
     (case res of Inl err \<Rightarrow> err = RangeError | Inr None \<Rightarrow> \<not> (\<exists>e. Some e \<in> set arr)
      | Inr (Some e) \<Rightarrow> well_formed S e \<and> ev S e = b \<and> (\<exists>e'. Some e' \<in> set arr))"

definition negates :: "'n::linordered_idom situation \<Rightarrow> 'n keyExpr \<Rightarrow> 'n key_result \<Rightarrow> bool" where
  "negates S e res \<longleftrightarrow>
     (case res of Inl err \<Rightarrow> err = RangeError | Inr None \<Rightarrow> False | Inr (Some n) \<Rightarrow> well_formed S n \<and> ev S n = (\<not> ev S e))"

definition ops_sound :: "'n::linordered_idom situation \<Rightarrow> 'n keyOps \<Rightarrow> bool" where
  "ops_sound S ops \<longleftrightarrow>
     (\<forall>arr n x. operands_ok S arr \<longrightarrow> remembered_ok S (\<not> all_hold S arr) n \<longrightarrow> means S arr (all_hold S arr) (op_and ops arr n x)) \<and>
     (\<forall>arr n x. operands_ok S arr \<longrightarrow> remembered_ok S (\<not> some_holds S arr) n \<longrightarrow> means S arr (some_holds S arr) (op_or ops arr n x)) \<and>
     (\<forall>e. well_formed S e \<longrightarrow> negates S e (op_negate ops e))"

lemma ops_soundD:
  assumes "ops_sound S ops"
  shows "operands_ok S arr \<Longrightarrow> remembered_ok S (\<not> all_hold S arr) n \<Longrightarrow> means S arr (all_hold S arr) (op_and ops arr n x)"
    "operands_ok S arr \<Longrightarrow> remembered_ok S (\<not> some_holds S arr) n \<Longrightarrow> means S arr (some_holds S arr) (op_or ops arr n x)"
    "well_formed S e \<Longrightarrow> negates S e (op_negate ops e)"
  using assms unfolding ops_sound_def by blast+

lemma means_cases:
  assumes "means S arr b res"
  obtains "res = Inl RangeError" | "res = Inr None" "\<not> (\<exists>e. Some e \<in> set arr)" | e where "res = Inr (Some e)" "well_formed S e" "ev S e = b" "\<exists>e'. Some e' \<in> set arr"
  using assms by (auto simp: means_def split: sum.splits option.splits)

lemma means_defined:
  assumes "means S arr b res" "Some e0 \<in> set arr"
  shows "res = Inl RangeError \<or> (\<exists>e. res = Inr (Some e) \<and> well_formed S e \<and> ev S e = b)"
  using assms(1) by (cases rule: means_cases) (use assms(2) in auto)

lemma negates_cases:
  assumes "negates S e res"
  obtains "res = Inl RangeError" | n where "res = Inr (Some n)" "well_formed S n" "ev S n = (\<not> ev S e)"
  using assms by (auto simp: negates_def split: sum.splits option.splits)

subsection \<open>Collecting operands\<close>

lemma operands_ok_Cons: "operands_ok S (e # arr) \<longleftrightarrow> (\<forall>x. e = Some x \<longrightarrow> well_formed S x) \<and> operands_ok S arr"
  by (auto simp: operands_ok_def)

lemma all_hold_Cons: "all_hold S (e # arr) \<longleftrightarrow> (\<forall>x. e = Some x \<longrightarrow> ev S x) \<and> all_hold S arr"
  by (auto simp: all_hold_def)

lemma some_holds_Cons: "some_holds S (e # arr) \<longleftrightarrow> (\<exists>x. e = Some x \<and> ev S x) \<or> some_holds S arr"
  by (auto simp: some_holds_def)

definition and_collected :: "'n::linordered_idom situation \<Rightarrow> 'n keyExpr option list \<Rightarrow> ('n keyExpr list \<times> bool) option \<Rightarrow> bool" where
  "and_collected S arr c =
     (case c of None \<Rightarrow> \<not> all_hold S arr \<and> (\<exists>e. Some e \<in> set arr)
      | Some (expr, hasTrue) \<Rightarrow> (\<forall>e \<in> set expr. well_formed S e) \<and> all_hold S arr = (\<forall>e \<in> set expr. ev S e) \<and>
          (expr \<noteq> [] \<or> hasTrue \<longleftrightarrow> (\<exists>e. Some e \<in> set arr)))"

lemma and_collect_ok: "operands_ok S arr \<Longrightarrow> and_collected S arr (and_collect arr)"
proof (induction arr)
  case Nil
  then show ?case by (simp add: and_collected_def all_hold_def)
next
  case (Cons e arr)
  then have IH: "and_collected S arr (and_collect arr)" and e: "\<And>x. e = Some x \<Longrightarrow> well_formed S x"
    by (simp_all add: operands_ok_Cons)
  show ?case
  proof (cases e)
    case None
    then show ?thesis using IH by (auto simp: and_collected_def all_hold_Cons split: option.splits)
  next
    case (Some x)
    show ?thesis
    proof (cases x)
      case (AndExpr es n)
      then have "es \<noteq> []" "\<forall>e \<in> set es. well_formed S e"
        using e [OF Some] well_formed_operands(1) by blast+
      then show ?thesis
        using IH Some AndExpr by (auto simp: and_collected_def all_hold_Cons list_all_iff split: option.splits)
    qed (use IH Some e in \<open>auto simp: and_collected_def all_hold_Cons split: option.splits\<close>)
  qed
qed

definition or_collected :: "'n::linordered_idom situation \<Rightarrow> 'n keyExpr option list \<Rightarrow> ('n keyExpr list \<times> bool) option \<Rightarrow> bool" where
  "or_collected S arr c =
     (case c of None \<Rightarrow> some_holds S arr \<and> (\<exists>e. Some e \<in> set arr)
      | Some (expr, hasFalse) \<Rightarrow> (\<forall>e \<in> set expr. well_formed S e) \<and> some_holds S arr = (\<exists>e \<in> set expr. ev S e) \<and>
          (expr \<noteq> [] \<or> hasFalse \<longleftrightarrow> (\<exists>e. Some e \<in> set arr)))"

lemma or_collect_ok: "operands_ok S arr \<Longrightarrow> or_collected S arr (or_collect arr)"
proof (induction arr)
  case Nil
  then show ?case by (simp add: or_collected_def some_holds_def)
next
  case (Cons e arr)
  then have IH: "or_collected S arr (or_collect arr)" and e: "\<And>x. e = Some x \<Longrightarrow> well_formed S x"
    by (simp_all add: operands_ok_Cons)
  show ?case
  proof (cases e)
    case None
    then show ?thesis using IH by (auto simp: or_collected_def some_holds_Cons split: option.splits)
  next
    case (Some x)
    show ?thesis
    proof (cases x)
      case (OrExpr es n)
      then have "es \<noteq> []" "\<forall>e \<in> set es. well_formed S e"
        using e [OF Some] well_formed_operands(2) by blast+
      then show ?thesis
        using IH Some OrExpr by (auto simp: or_collected_def some_holds_Cons list_ex_iff split: option.splits)
    qed (use IH Some e in \<open>auto simp: or_collected_def some_holds_Cons split: option.splits\<close>)
  qed
qed


subsection \<open>The loops\<close>

lemma map_result_ok:
  assumes "\<And>x. x \<in> set xs \<Longrightarrow> f x = Inl err \<or> (\<exists>y. f x = Inr y \<and> P x y)"
  shows "map_result f xs = Inl err \<or> (\<exists>ys. map_result f xs = Inr ys \<and> list_all2 P xs ys)"
  using assms
proof (induction xs)
  case (Cons x xs)
  have IH: "map_result f xs = Inl err \<or> (\<exists>ys. map_result f xs = Inr ys \<and> list_all2 P xs ys)"
    using Cons by auto
  have "f x = Inl err \<or> (\<exists>y. f x = Inr y \<and> P x y)"
    using Cons.prems by simp
  then show ?case
    using IH by (elim disjE exE conjE) simp_all
qed simp

lemma complement_inner_ok:
  assumes neg: "\<And>e. well_formed S e \<Longrightarrow> negates S e (neg e)" and e: "well_formed S e" "\<forall>f \<in> set fs. well_formed S f"
  shows "complement_inner neg e fs = Inl RangeError \<or> complement_inner neg e fs = Inr False \<or>
    complement_inner neg e fs = Inr True \<and> (\<exists>f \<in> set fs. ev S f = (\<not> ev S e))"
  using e(2)
proof (induction fs)
  case (Cons f fs)
  from neg [OF e(1)] show ?case
  proof (cases rule: negates_cases)
    case (2 n)
    then show ?thesis
      using Cons equals_evaluate [of n f S] by auto
  qed simp
qed simp

lemma has_complement_ok:
  assumes neg: "\<And>e. well_formed S e \<Longrightarrow> negates S e (neg e)" and "\<forall>e \<in> set es. well_formed S e"
  shows "has_complement neg es = Inl RangeError \<or> has_complement neg es = Inr False \<or>
    has_complement neg es = Inr True \<and> (\<exists>e \<in> set es. \<exists>f \<in> set es. ev S f = (\<not> ev S e))"
  using assms(2)
proof (induction es)
  case (Cons e es)
  have "complement_inner neg e es = Inl RangeError \<or> complement_inner neg e es = Inr False \<or>
    complement_inner neg e es = Inr True \<and> (\<exists>f \<in> set es. ev S f = (\<not> ev S e))"
    using Cons.prems by (intro complement_inner_ok [OF neg]) auto
  moreover have "has_complement neg es = Inl RangeError \<or> has_complement neg es = Inr False \<or>
    has_complement neg es = Inr True \<and> (\<exists>e \<in> set es. \<exists>f \<in> set es. ev S f = (\<not> ev S e))"
    using Cons by simp
  ultimately show ?case
    by (elim disjE conjE bexE) (simp_all, blast+)
qed simp

lemma getTerminals_ok:
  "well_formed S e \<Longrightarrow> getTerminals e \<noteq> [] \<and> (\<forall>t \<in> set (getTerminals e). well_formed S t) \<and> ev S e = (\<exists>t \<in> set (getTerminals e). ev S t)"
  using well_formed_operands(2) by (cases e) (auto simp: getTerminals_def list_ex_iff)

text \<open>A list of results of conjunctions, joined by a disjunction.\<close>

lemma products_ok:
  assumes ops: "ops_sound S ops" and xs: "xs \<noteq> []" "\<forall>(a, b) \<in> set xs. well_formed S a \<and> well_formed S b"
  shows "map_result (\<lambda>(a, b). op_and ops [Some a, Some b] None x) xs = Inl RangeError \<or>
    (\<exists>arr. map_result (\<lambda>(a, b). op_and ops [Some a, Some b] None x) xs = Inr arr \<and>
       means S arr (\<exists>(a, b) \<in> set xs. ev S a \<and> ev S b) (op_or ops arr None y) \<and> (\<exists>e. Some e \<in> set arr))"
proof -
  let ?P = "\<lambda>(a, b) r. \<exists>e. r = Some e \<and> well_formed S e \<and> ev S e = (ev S a \<and> ev S b)"
  have "(\<lambda>(a, b). op_and ops [Some a, Some b] None x) p = Inl RangeError \<or> (\<exists>r. (\<lambda>(a, b). op_and ops [Some a, Some b] None x) p = Inr r \<and> ?P p r)"
    if p: "p \<in> set xs" for p
  proof (cases p)
    case (Pair a b)
    then have "means S [Some a, Some b] (all_hold S [Some a, Some b]) (op_and ops [Some a, Some b] None x)"
      using xs p by (intro ops_soundD(1) [OF ops]) (auto simp: operands_ok_def remembered_ok_def)
    then show ?thesis
      using Pair by (cases rule: means_cases) (auto simp: all_hold_def)
  qed
  then have "map_result (\<lambda>(a, b). op_and ops [Some a, Some b] None x) xs = Inl RangeError \<or>
      (\<exists>arr. map_result (\<lambda>(a, b). op_and ops [Some a, Some b] None x) xs = Inr arr \<and> list_all2 ?P xs arr)"
    by (rule map_result_ok)
  then show ?thesis
  proof
    assume "\<exists>arr. map_result (\<lambda>(a, b). op_and ops [Some a, Some b] None x) xs = Inr arr \<and> list_all2 ?P xs arr"
    then obtain arr where arr: "map_result (\<lambda>(a, b). op_and ops [Some a, Some b] None x) xs = Inr arr" "list_all2 ?P xs arr"
      by blast
    have "operands_ok S arr \<and> some_holds S arr = (\<exists>(a, b) \<in> set xs. ev S a \<and> ev S b) \<and> (xs \<noteq> [] \<longrightarrow> (\<exists>e. Some e \<in> set arr))"
      using arr(2) by (induction rule: list_all2_induct) (auto simp: operands_ok_Cons some_holds_Cons operands_ok_def some_holds_def)
    then show ?thesis
      using ops_soundD(2) [OF ops, of arr None y] arr(1) xs(1) by (simp add: remembered_ok_def)
  qed blast
qed

lemma map_result_map: "map_result f (map g xs) = map_result (\<lambda>x. f (g x)) xs"
  by (induction xs) simp_all

lemma split_last2: "1 < length xs \<Longrightarrow> xs = butlast (butlast xs) @ [last (butlast xs), last xs]"
  by (cases xs rule: rev_cases; cases "butlast xs" rule: rev_cases) (auto simp: butlast_append)

lemma and_distribute_ok:
  assumes ops: "ops_sound S ops" and "\<forall>e \<in> set expr. well_formed S e" "expr \<noteq> []"
  shows "and_distribute (si_lib S) ops x expr = Inl RangeError \<or>
    (\<exists>r. and_distribute (si_lib S) ops x expr = Inr r \<and> (\<forall>e \<in> set r. well_formed S e) \<and> r \<noteq> [] \<and> (\<forall>e \<in> set r. ev S e) = (\<forall>e \<in> set expr. ev S e))"
  using assms(2,3)
proof (induction "length expr" arbitrary: expr rule: less_induct)
  case less
  show ?case
  proof (cases "1 < length expr \<and> is_or (last expr)")
    case False
    then have "and_distribute (si_lib S) ops x expr = Inr expr"
      by (subst and_distribute.simps) (rule if_not_P)
    then show ?thesis using less.prems by simp
  next
    case True
    define l s rest where "l = last expr" "s = last (butlast expr)" "rest = butlast (butlast expr)"
    have expr: "expr = rest @ [s, l]"
      using split_last2 [of expr] True by (simp add: l_s_rest_def)
    let ?ts = "map (\<lambda>t. (t, s)) (getTerminals l)"
    have wf: "well_formed S l" "well_formed S s" "\<forall>e \<in> set rest. well_formed S e"
      using less.prems(1) by (auto simp: expr)
    note t = getTerminals_ok [OF wf(1)]
    have eq: "and_distribute (si_lib S) ops x expr =
        bind_result (map_result (\<lambda>(a, b). op_and ops [Some a, Some b] None x) ?ts)
          (\<lambda>arr. bind_result (op_or ops arr None (rest = []))
            (\<lambda>r. and_distribute (si_lib S) ops x (case r of Some e \<Rightarrow> js_sort (expr_cmp (si_lib S)) (rest @ [e]) | None \<Rightarrow> rest)))"
      using True unfolding l_s_rest_def by (subst and_distribute.simps) (simp add: Let_def map_result_map)
    have "map_result (\<lambda>(a, b). op_and ops [Some a, Some b] None x) ?ts = Inl RangeError \<or>
      (\<exists>arr. map_result (\<lambda>(a, b). op_and ops [Some a, Some b] None x) ?ts = Inr arr \<and>
        means S arr (\<exists>(a, b) \<in> set ?ts. ev S a \<and> ev S b) (op_or ops arr None (rest = [])) \<and> (\<exists>e. Some e \<in> set arr))"
      using t wf(2) by (intro products_ok [OF ops]) auto
    then show ?thesis
    proof (elim disjE exE conjE)
      fix arr e0
      assume arr: "map_result (\<lambda>(a, b). op_and ops [Some a, Some b] None x) ?ts = Inr arr" "Some e0 \<in> set arr"
        and "means S arr (\<exists>(a, b) \<in> set ?ts. ev S a \<and> ev S b) (op_or ops arr None (rest = []))"
      from this(3) show ?thesis
      proof (cases rule: means_cases)
        case (3 e)
        let ?next = "js_sort (expr_cmp (si_lib S)) (rest @ [e])"
        have next_ok: "length ?next < length expr" "\<forall>e \<in> set ?next. well_formed S e" "?next \<noteq> []"
          using 3(2) wf(3) by (auto simp: expr)
        have "(\<forall>e \<in> set ?next. ev S e) = (\<forall>e \<in> set expr. ev S e)"
          using 3(3) t by (auto simp: expr)
        then show ?thesis
          using less.hyps [OF next_ok] arr(1) 3(1) unfolding eq by simp
      qed (use arr eq in auto)
    qed (simp add: eq)
  qed
qed


subsection \<open>Conjunction and disjunction\<close>

lemma means_Inr: "Some e0 \<in> set arr \<Longrightarrow> well_formed S e \<Longrightarrow> ev S e = b \<Longrightarrow> means S arr b (Inr (Some e))"
  by (auto simp: means_def)

lemma well_formed_And:
  assumes "es \<noteq> []" "\<forall>e \<in> set es. well_formed S e" "remembered_ok S (\<not> (\<forall>e \<in> set es. ev S e)) n"
  shows "well_formed S (AndExpr es n) \<and> ev S (AndExpr es n) = (\<forall>e \<in> set es. ev S e)"
  using assms by (cases n) (auto simp: remembered_ok_def list_all_iff)

lemma well_formed_Or:
  assumes "es \<noteq> []" "\<forall>e \<in> set es. well_formed S e" "remembered_ok S (\<not> (\<exists>e \<in> set es. ev S e)) n"
  shows "well_formed S (OrExpr es n) \<and> ev S (OrExpr es n) = (\<exists>e \<in> set es. ev S e)"
  using assms by (cases n) (auto simp: remembered_ok_def list_all_iff list_ex_iff)

lemma means_single:
  assumes "Some e0 \<in> set arr" "length es = 1" "\<forall>e \<in> set es. well_formed S e" "b = (\<forall>e \<in> set es. ev S e) \<or> b = (\<exists>e \<in> set es. ev S e)"
  shows "means S arr b (Inr (Some (hd es)))"
proof -
  obtain e where "es = [e]"
    using assms(2) by (cases es) auto
  then show ?thesis
    using assms by (auto intro!: means_Inr)
qed

text \<open>The end of both functions: complementary operands give \<open>e\<close>, otherwise the expression is built.\<close>

lemma complement_means:
  assumes ops: "ops_sound S ops" and r: "\<forall>e \<in> set r. well_formed S e" and arr: "Some e0 \<in> set arr"
    and e: "\<exists>e \<in> set r. \<exists>f \<in> set r. ev S f = (\<not> ev S e) \<Longrightarrow> well_formed S e \<and> ev S e = b" and f: "well_formed S f \<and> ev S f = b"
  shows "means S arr b (bind_result (if x then has_complement (op_negate ops) r else Inr False) (\<lambda>c. if c then Inr (Some e) else Inr (Some f)))"
proof -
  have "means S arr b (Inr (Some f))"
    using f means_Inr [OF arr] by blast
  moreover have "means S arr b (Inr (Some e))" if "\<exists>e \<in> set r. \<exists>f \<in> set r. ev S f = (\<not> ev S e)"
    using e [OF that] means_Inr [OF arr] by blast
  moreover have "means S arr b (Inl RangeError)"
    by (simp add: means_def)
  moreover have "has_complement (op_negate ops) r = Inl RangeError \<or> has_complement (op_negate ops) r = Inr False \<or>
    has_complement (op_negate ops) r = Inr True \<and> (\<exists>e \<in> set r. \<exists>f \<in> set r. ev S f = (\<not> ev S e))"
    by (rule has_complement_ok [OF ops_soundD(3) [OF ops] r])
  ultimately show ?thesis
    by (cases x) (elim disjE conjE; simp)+
qed

lemma And_normalizeArr_ok:
  assumes ops: "ops_sound S ops" and arr: "operands_ok S arr" and n: "remembered_ok S (\<not> all_hold S arr) n"
  shows "means S arr (all_hold S arr) (And_normalizeArr (si_lib S) ops arr n x)"
proof -
  note c = and_collect_ok [OF arr]
  show ?thesis
  proof (cases "and_collect arr")
    case None
    then show ?thesis
      using c by (auto simp: And_normalizeArr_def and_collected_def means_def)
  next
    case (Some p)
    obtain expr hasTrue where p: "p = (expr, hasTrue)"
      by fastforce
    have e: "\<forall>e \<in> set expr. well_formed S e" "all_hold S arr = (\<forall>e \<in> set expr. ev S e)" "expr \<noteq> [] \<or> hasTrue \<longleftrightarrow> (\<exists>e. Some e \<in> set arr)"
      using c Some p by (auto simp: and_collected_def)
    define es where "es = eliminate_duplicates (js_sort (expr_cmp (si_lib S)) expr)"
    have es: "\<forall>e \<in> set es. well_formed S e" "(\<forall>e \<in> set es. ev S e) = all_hold S arr" "es = [] \<longleftrightarrow> expr = []"
      using normalized_evaluate(1,3) [of "js_sort (expr_cmp (si_lib S)) expr" S] e by (auto simp: es_def)
    show ?thesis
    proof (cases "expr = []")
      case True
      then show ?thesis
        using Some p e by (cases hasTrue) (auto simp: And_normalizeArr_def means_def)
    next
      case False
      then obtain e0 where e0: "Some e0 \<in> set arr"
        using e(3) by blast
      have finish: "means S arr (all_hold S arr) (if length r = 1 then Inr (Some (hd r))
          else bind_result (if x then has_complement (op_negate ops) r else Inr False) (\<lambda>b. if b then Inr (Some FalseExpr) else Inr (Some (AndExpr r n))))"
        if r: "\<forall>e \<in> set r. well_formed S e" "r \<noteq> []" "(\<forall>e \<in> set r. ev S e) = all_hold S arr" for r
      proof (cases "length r = 1")
        case True
        then show ?thesis
          using means_single [OF e0 True r(1)] r(3) by simp
      next
        case False
        have "means S arr (all_hold S arr) (bind_result (if x then has_complement (op_negate ops) r else Inr False)
            (\<lambda>b. if b then Inr (Some FalseExpr) else Inr (Some (AndExpr r n))))"
          using r(3) n well_formed_And [OF r(2,1), of n] by (intro complement_means [OF ops r(1) e0]) (simp_all, blast?)
        then show ?thesis
          using False by simp
      qed
      have "means S arr (all_hold S arr) (bind_result (and_distribute (si_lib S) ops x es)
          (\<lambda>r. if length r = 1 then Inr (Some (hd r))
             else bind_result (if x then has_complement (op_negate ops) r else Inr False) (\<lambda>b. if b then Inr (Some FalseExpr) else Inr (Some (AndExpr r n)))))"
      proof -
        have "es \<noteq> []"
          using es(3) False by simp
        then consider "and_distribute (si_lib S) ops x es = Inl RangeError" |
          r where "and_distribute (si_lib S) ops x es = Inr r" "\<forall>e \<in> set r. well_formed S e" "r \<noteq> []" "(\<forall>e \<in> set r. ev S e) = all_hold S arr"
          using and_distribute_ok [OF ops es(1), of x] es(2) by auto
        then show ?thesis
        proof cases
          case 1
          then show ?thesis by (simp add: means_def)
        next
          case (2 r)
          then show ?thesis using finish [OF 2(2-4)] by simp
        qed
      qed
      then show ?thesis
        using Some p False means_single [OF e0 _ e(1)] means_single [OF e0 _ es(1)] e(2) es(2)
        by (simp add: And_normalizeArr_def es_def [symmetric] Let_def)
    qed
  qed
qed

lemma Or_normalizeArr_ok:
  assumes ops: "ops_sound S ops" and arr: "operands_ok S arr" and n: "remembered_ok S (\<not> some_holds S arr) n"
  shows "means S arr (some_holds S arr) (Or_normalizeArr (si_lib S) ops arr n x)"
proof -
  note c = or_collect_ok [OF arr]
  show ?thesis
  proof (cases "or_collect arr")
    case None
    then show ?thesis
      using c by (auto simp: Or_normalizeArr_def or_collected_def means_def)
  next
    case (Some p)
    obtain expr hasFalse where p: "p = (expr, hasFalse)"
      by fastforce
    have e: "\<forall>e \<in> set expr. well_formed S e" "some_holds S arr = (\<exists>e \<in> set expr. ev S e)" "expr \<noteq> [] \<or> hasFalse \<longleftrightarrow> (\<exists>e. Some e \<in> set arr)"
      using c Some p by (auto simp: or_collected_def)
    define sorted where "sorted = js_sort (expr_cmp (si_lib S)) expr"
    define es where "es = eliminate_duplicates sorted"
    have sorted: "\<forall>e \<in> set sorted. well_formed S e" "(\<exists>e \<in> set sorted. ev S e) = some_holds S arr"
      using e by (auto simp: sorted_def)
    have es: "\<forall>e \<in> set es. well_formed S e" "(\<exists>e \<in> set es. ev S e) = some_holds S arr" "es = [] \<longleftrightarrow> expr = []"
      using normalized_evaluate(2,3) [OF sorted(1)] sorted by (auto simp: es_def sorted_def)
    show ?thesis
    proof (cases "expr = []")
      case True
      then show ?thesis
        using Some p e by (cases hasFalse) (auto simp: Or_normalizeArr_def means_def)
    next
      case False
      then obtain e0 where e0: "Some e0 \<in> set arr"
        using e(3) by blast
      have "means S arr (some_holds S arr)
          (bind_result (if x then has_complement (op_negate ops) es else Inr False) (\<lambda>b. if b then Inr (Some TrueExpr) else Inr (Some (OrExpr es n))))"
        using es n False well_formed_Or [OF _ es(1), of n] by (intro complement_means [OF ops es(1) e0]) auto
      then show ?thesis
        using Some p False means_single [OF e0 _ sorted(1)] means_single [OF e0 _ es(1)] sorted(2) es(2)
        by (simp add: Or_normalizeArr_def es_def [symmetric] sorted_def [symmetric] Let_def)
    qed
  qed
qed


subsection \<open>Negation\<close>

lemma boolean_expr_ok [simp]: "well_formed S (boolean_expr b)" "ev S (boolean_expr b) = b"
  by (simp_all add: boolean_expr_def)

lemma create_ok:
  "constant_fits S k (\<lambda>c. truthy (si_context S k) = c) \<Longrightarrow>
     well_formed S (Defined_create (si_constants S) k) \<and> ev S (Defined_create (si_constants S) k) = truthy (si_context S k) \<and>
     well_formed S (Not_create (si_constants S) k) \<and> ev S (Not_create (si_constants S) k) = (\<not> truthy (si_context S k))"
  "equals_fits S k v \<Longrightarrow>
     well_formed S (Equals_create (si_constants S) k v) \<and> ev S (Equals_create (si_constants S) k v) = loosely_equal (si_lib S) (si_context S k) v \<and>
     well_formed S (NotEquals_create (si_constants S) k v) \<and> ev S (NotEquals_create (si_constants S) k v) = (\<not> loosely_equal (si_lib S) (si_context S k) v)"
  by (auto simp: constant_fits_def Defined_create_def Not_create_def equals_fits_def Equals_create_def NotEquals_create_def split: option.splits js_prim.splits)

lemma number_fitsE:
  assumes "number_fits S k v"
  obtains x y where "v = NumberV (Some x)" "lib_parseFloat (si_lib S) (si_context S k) = Some y"
  using assms by (auto simp: number_fits_def split: js_prim.splits option.splits)

lemma number_fits_negation:
  assumes "number_fits S k v"
  shows "withFloatOrStr lib v callback = callback v"
    "number_evaluate (\<lambda>a b. js_less b a) (si_lib S) (si_context S) k v = (\<not> number_evaluate js_le (si_lib S) (si_context S) k v)"
    "number_evaluate (\<lambda>a b. js_le b a) (si_lib S) (si_context S) k v = (\<not> number_evaluate js_less (si_lib S) (si_context S) k v)"
proof -
  obtain x y where "v = NumberV (Some x)" "lib_parseFloat (si_lib S) (si_context S k) = Some y"
    using assms by (rule number_fitsE)
  then show "withFloatOrStr lib v callback = callback v"
    "number_evaluate (\<lambda>a b. js_less b a) (si_lib S) (si_context S) k v = (\<not> number_evaluate js_le (si_lib S) (si_context S) k v)"
    "number_evaluate (\<lambda>a b. js_le b a) (si_lib S) (si_context S) k v = (\<not> number_evaluate js_less (si_lib S) (si_context S) k v)"
    by (auto simp: withFloatOrStr_def number_evaluate_def prim_toNumber_def)
qed

lemmas number_creations = Greater_create_def GreaterEquals_create_def Smaller_create_def SmallerEquals_create_def

lemma terminal_negates:
  assumes "well_formed S e" "and_operands e = None" "or_operands e = None"
  shows "negates S e (expr_negate (si_constants S) (si_lib S) ops e)"
proof (cases e)
  case (DefinedExpr k)
  then show ?thesis
    using assms(1) create_ok(1) [of S k] by (simp add: negates_def expr_negate_def number_creations)
next
  case (NotExpr k)
  then show ?thesis
    using assms(1) create_ok(1) [of S k] by (simp add: negates_def expr_negate_def number_creations)
next
  case (EqualsExpr k v)
  then show ?thesis
    using assms(1) create_ok(2) [of S k v] by (simp add: negates_def expr_negate_def number_creations)
next
  case (NotEqualsExpr k v)
  then show ?thesis
    using assms(1) create_ok(2) [of S k v] by (simp add: negates_def expr_negate_def number_creations)
next
  case (GreaterExpr k v)
  then show ?thesis
    using assms(1) number_fits_negation [of S k v] by (simp add: negates_def expr_negate_def number_creations)
next
  case (GreaterEqualsExpr k v)
  then show ?thesis
    using assms(1) number_fits_negation [of S k v] by (simp add: negates_def expr_negate_def number_creations)
next
  case (SmallerExpr k v)
  then show ?thesis
    using assms(1) number_fits_negation [of S k v] by (simp add: negates_def expr_negate_def number_creations)
next
  case (SmallerEqualsExpr k v)
  then show ?thesis
    using assms(1) number_fits_negation [of S k v] by (simp add: negates_def expr_negate_def number_creations)
qed (use assms in \<open>auto simp: negates_def expr_negate_def and_operands_def or_operands_def\<close>)

lemma negate_distribute_ok:
  assumes ops: "ops_sound S ops" and "well_formed S l" "\<forall>e \<in> set es. well_formed S e"
  shows "negate_distribute ops (Some l) (map Some es) = Inl RangeError \<or>
    (\<exists>e. negate_distribute ops (Some l) (map Some es) = Inr [Some e] \<and> well_formed S e \<and> ev S e = (ev S l \<and> (\<forall>e \<in> set es. ev S e)))"
  using assms(2,3)
proof (induction es arbitrary: l)
  case (Cons r es)
  let ?ts = "List.product (getTerminals l) (getTerminals r)"
  have l: "getTerminals l \<noteq> []" "\<forall>t \<in> set (getTerminals l). well_formed S t" "ev S l = (\<exists>t \<in> set (getTerminals l). ev S t)"
    and r: "getTerminals r \<noteq> []" "\<forall>t \<in> set (getTerminals r). well_formed S t" "ev S r = (\<exists>t \<in> set (getTerminals r). ev S t)"
    using getTerminals_ok [of S l] getTerminals_ok [of S r] Cons.prems by auto
  have "map_result (\<lambda>(a, b). op_and ops [Some a, Some b] None False) ?ts = Inl RangeError \<or>
      (\<exists>arr. map_result (\<lambda>(a, b). op_and ops [Some a, Some b] None False) ?ts = Inr arr \<and>
        means S arr (\<exists>(a, b) \<in> set ?ts. ev S a \<and> ev S b) (op_or ops arr None False) \<and> (\<exists>e. Some e \<in> set arr))"
  proof (rule products_ok [OF ops])
    show "?ts \<noteq> []"
      using l(1) r(1) by (cases "getTerminals l"; cases "getTerminals r") simp_all
    show "\<forall>(a, b) \<in> set ?ts. well_formed S a \<and> well_formed S b"
      using l(2) r(2) by auto
  qed
  moreover have "(\<exists>(a, b) \<in> set ?ts. ev S a \<and> ev S b) = (ev S l \<and> ev S r)"
    using l(3) r(3) by auto
  ultimately have "negate_pair ops (Some l) (Some r) = Inl RangeError \<or>
      (\<exists>arr e0. means S arr (ev S l \<and> ev S r) (negate_pair ops (Some l) (Some r)) \<and> Some e0 \<in> set arr)"
    by (auto simp: negate_pair_def)
  then consider "negate_pair ops (Some l) (Some r) = Inl RangeError" |
    e where "negate_pair ops (Some l) (Some r) = Inr (Some e)" "well_formed S e" "ev S e = (ev S l \<and> ev S r)"
    using means_defined by blast
  then show ?case
    using Cons.IH Cons.prems(2) by cases auto
qed simp

lemma negate_all_ok:
  assumes ops: "ops_sound S ops" and "\<forall>e \<in> set es. well_formed S e"
  shows "map_result (op_negate ops) es = Inl RangeError \<or>
    (\<exists>ns. map_result (op_negate ops) es = Inr (map Some ns) \<and> length ns = length es \<and> (\<forall>n \<in> set ns. well_formed S n) \<and>
       (\<exists>n \<in> set ns. ev S n) = (\<not> (\<forall>e \<in> set es. ev S e)) \<and> (\<forall>n \<in> set ns. ev S n) = (\<not> (\<exists>e \<in> set es. ev S e)))"
  using assms(2)
proof (induction es)
  case (Cons e es)
  have IH: "map_result (op_negate ops) es = Inl RangeError \<or>
    (\<exists>ns. map_result (op_negate ops) es = Inr (map Some ns) \<and> length ns = length es \<and> (\<forall>n \<in> set ns. well_formed S n) \<and>
       (\<exists>n \<in> set ns. ev S n) = (\<not> (\<forall>e \<in> set es. ev S e)) \<and> (\<forall>n \<in> set ns. ev S n) = (\<not> (\<exists>e \<in> set es. ev S e)))"
    using Cons by simp
  have "negates S e (op_negate ops e)"
    using ops_soundD(3) [OF ops] Cons.prems by simp
  then show ?case
  proof (cases rule: negates_cases)
    case (2 n)
    from IH show ?thesis
    proof (elim disjE exE conjE)
      fix ns
      assume "map_result (op_negate ops) es = Inr (map Some ns)" "length ns = length es" "\<forall>n \<in> set ns. well_formed S n"
        "(\<exists>n \<in> set ns. ev S n) = (\<not> (\<forall>e \<in> set es. ev S e))" "(\<forall>n \<in> set ns. ev S n) = (\<not> (\<exists>e \<in> set es. ev S e))"
      then show ?thesis
        using 2 by (intro disjI2 exI [of _ "n # ns"]) auto
    qed (use 2 in simp)
  qed simp
qed simp


lemma some_holds_map: "some_holds S (map Some es) = (\<exists>e \<in> set es. ev S e)"
  by (auto simp: some_holds_def)

lemma operands_ok_map: "operands_ok S (map Some es) = (\<forall>e \<in> set es. well_formed S e)"
  by (auto simp: operands_ok_def)

lemma negates_means:
  assumes "means S arr (\<not> ev S e) res" "Some e0 \<in> set arr"
  shows "negates S e res"
  using assms(1) by (cases rule: means_cases) (use assms(2) in \<open>auto simp: negates_def\<close>)

lemma expr_negate_ok:
  assumes ops: "ops_sound S ops" and e: "well_formed S e"
  shows "negates S e (expr_negate (si_constants S) (si_lib S) ops e)"
proof (cases "and_operands e = None \<and> or_operands e = None")
  case True
  then show ?thesis using terminal_negates [OF e] by blast
next
  case False
  then consider (An) es n where "e = AndExpr es n" | (Or) es n where "e = OrExpr es n"
    by (cases e) (auto simp: and_operands_def or_operands_def)
  then show ?thesis
  proof cases
    case An
    have es: "es \<noteq> []" "\<forall>e \<in> set es. well_formed S e"
      using well_formed_operands(1) e An by blast+
    show ?thesis
    proof (cases n)
      case (Some m)
      then show ?thesis using e An by (simp add: expr_negate_def negates_def)
    next
      case None
      then have eq: "expr_negate (si_constants S) (si_lib S) ops e = bind_result (map_result (op_negate ops) es) (\<lambda>result. op_or ops result (Some e) True)"
        by (simp add: expr_negate_def An)
      from negate_all_ok [OF ops es(2)] show ?thesis
      proof (elim disjE exE conjE)
        fix ns
        assume ns: "map_result (op_negate ops) es = Inr (map Some ns)" "length ns = length es" "\<forall>n \<in> set ns. well_formed S n"
          "(\<exists>n \<in> set ns. ev S n) = (\<not> (\<forall>e \<in> set es. ev S e))"
        have neg: "some_holds S (map Some ns) = (\<not> ev S e)"
          using ns(4) by (auto simp: some_holds_map An list_all_iff)
        have "means S (map Some ns) (\<not> ev S e) (op_or ops (map Some ns) (Some e) True)"
          using ops_soundD(2) [OF ops, of "map Some ns" "Some e" True] ns(3) e neg by (simp add: operands_ok_map remembered_ok_def)
        moreover have "Some (hd ns) \<in> set (map Some ns)"
          using ns(2) es(1) by (cases ns) auto
        ultimately have "negates S e (op_or ops (map Some ns) (Some e) True)"
          by (rule negates_means)
        then show ?thesis by (simp add: eq ns(1))
      qed (simp add: eq negates_def)
    qed
  next
    case Or
    have es: "es \<noteq> []" "\<forall>e \<in> set es. well_formed S e"
      using well_formed_operands(2) e Or by blast+
    show ?thesis
    proof (cases n)
      case (Some m)
      then show ?thesis using e Or by (simp add: expr_negate_def negates_def)
    next
      case None
      then have eq: "expr_negate (si_constants S) (si_lib S) ops e = negate_or ops e es"
        by (simp add: expr_negate_def Or)
      from negate_all_ok [OF ops es(2)] show ?thesis
      proof (elim disjE exE conjE)
        fix ns
        assume ns: "map_result (op_negate ops) es = Inr (map Some ns)" "length ns = length es" "\<forall>n \<in> set ns. well_formed S n"
          "(\<forall>n \<in> set ns. ev S n) = (\<not> (\<exists>e \<in> set es. ev S e))"
        obtain l rest where l: "ns = l # rest"
          using ns(2) es(1) by (cases ns) auto
        have b: "(ev S l \<and> (\<forall>n \<in> set rest. ev S n)) = (\<not> ev S e)"
          using ns(4) by (auto simp: l Or list_ex_iff)
        from negate_distribute_ok [OF ops, of l rest] ns(3) l
        consider "negate_distribute ops (Some l) (map Some rest) = Inl RangeError" |
          n where "negate_distribute ops (Some l) (map Some rest) = Inr [Some n]" "well_formed S n" "ev S n = (\<not> ev S e)"
          using b by auto
        then show ?thesis
        proof cases
          case 1
          then show ?thesis by (simp add: eq negate_or_def ns(1) l negates_def)
        next
          case (2 n)
          have "means S [Some n] (some_holds S [Some n]) (op_or ops [Some n] (Some e) True)"
            using 2 e by (intro ops_soundD(2) [OF ops]) (auto simp: operands_ok_def remembered_ok_def some_holds_def)
          moreover have "some_holds S [Some n] = (\<not> ev S e)"
            using 2(3) by (simp add: some_holds_def)
          ultimately show ?thesis
            using 2(1) negates_means [of S "[Some n]" e _ n] by (simp add: eq negate_or_def ns(1) l)
        qed
      qed (simp add: eq negate_or_def negates_def)
    qed
  qed
qed

lemma key_ops_sound: "ops_sound S (ops_of S stack)"
proof (induction stack)
  case 0
  then show ?case by (simp add: ops_sound_def means_def negates_def)
next
  case (Suc stack)
  then show ?case
    using And_normalizeArr_ok [OF Suc] Or_normalizeArr_ok [OF Suc] expr_negate_ok [OF Suc] by (simp add: ops_sound_def Let_def)
qed

end
