(* ===== verification/Context_Key_Normal.thy ===== *)
theory Context_Key_Normal
  imports Context_Key_Semantics
begin

text \<open>
  The normal form of context key expressions, and the stack that the operations need: negations are disjunctions of conjunctions of terminals, and
  a stack a little deeper than the expression is enough for disjunctions and negations.
\<close>

section \<open>Shapes\<close>

definition terminal :: "'n keyExpr \<Rightarrow> bool" where
  "terminal e \<longleftrightarrow> and_operands e = None \<and> or_operands e = None \<and> 2 \<le> expr_type e"

definition constant_expr :: "'n keyExpr \<Rightarrow> bool" where
  "constant_expr e \<longleftrightarrow> expr_type e < 2"

definition conjunction :: "'n keyExpr \<Rightarrow> bool" where
  "conjunction e \<longleftrightarrow> terminal e \<or> (case e of AndExpr es None \<Rightarrow> es \<noteq> [] \<and> list_all terminal es | _ \<Rightarrow> False)"

definition disjunctive :: "'n keyExpr \<Rightarrow> bool" where
  "disjunctive e \<longleftrightarrow> constant_expr e \<or> conjunction e \<or> (case e of OrExpr es n \<Rightarrow> es \<noteq> [] \<and> list_all conjunction es | _ \<Rightarrow> False)"

lemma shape_simps [simp]:
  "terminal FalseExpr \<longleftrightarrow> False" "terminal TrueExpr \<longleftrightarrow> False" "\<not> terminal (AndExpr es n)" "\<not> terminal (OrExpr es n)"
  "constant_expr FalseExpr" "constant_expr TrueExpr" "\<not> constant_expr (AndExpr es n)" "\<not> constant_expr (OrExpr es n)"
  "conjunction (AndExpr es None) \<longleftrightarrow> es \<noteq> [] \<and> (\<forall>e \<in> set es. terminal e)" "\<not> conjunction (AndExpr es (Some m))" "\<not> conjunction (OrExpr es n)"
  "\<not> conjunction FalseExpr" "\<not> conjunction TrueExpr"
  "disjunctive FalseExpr" "disjunctive TrueExpr"
  "disjunctive (OrExpr es n) \<longleftrightarrow> es \<noteq> [] \<and> (\<forall>e \<in> set es. conjunction e)"
  by (simp_all add: terminal_def constant_expr_def conjunction_def disjunctive_def and_operands_def or_operands_def list_all_iff)

lemma terminal_shapes: "terminal e \<Longrightarrow> conjunction e" "conjunction e \<Longrightarrow> disjunctive e" "constant_expr e \<Longrightarrow> disjunctive e"
  by (simp_all add: conjunction_def disjunctive_def)

lemma constant_expr_cases: "constant_expr e \<Longrightarrow> e = FalseExpr \<or> e = TrueExpr"
  by (cases e) (simp_all add: constant_expr_def)

lemma conjunction_cases:
  assumes "conjunction e"
  obtains "terminal e" | es where "e = AndExpr es None" "es \<noteq> []" "\<forall>e \<in> set es. terminal e"
  using assms by (auto simp: conjunction_def list_all_iff split: keyExpr.splits option.splits)

lemma disjunctive_cases:
  assumes "disjunctive e"
  obtains "constant_expr e" | "conjunction e" | es n where "e = OrExpr es n" "es \<noteq> []" "\<forall>e \<in> set es. conjunction e"
  using assms by (auto simp: disjunctive_def list_all_iff split: keyExpr.splits)

definition returns :: "'e + 'a \<Rightarrow> ('a \<Rightarrow> bool) \<Rightarrow> bool" where
  "returns res P \<longleftrightarrow> (case res of Inl err \<Rightarrow> False | Inr x \<Rightarrow> P x)"

lemma returns_result [simp]: "returns (Inr x) P = P x" "\<not> returns (Inl err) P"
  by (simp_all add: returns_def)

lemma returnsE:
  assumes "returns res P"
  obtains x where "res = Inr x" "P x"
  using assms by (auto simp: returns_def split: sum.splits)

lemma returns_mono: "returns res P \<Longrightarrow> (\<And>x. P x \<Longrightarrow> Q x) \<Longrightarrow> returns res Q"
  by (auto simp: returns_def split: sum.splits)

lemma returns_bind: "returns m P \<Longrightarrow> (\<And>x. P x \<Longrightarrow> returns (f x) Q) \<Longrightarrow> returns (bind_result m f) Q"
  by (auto elim!: returnsE)

lemma returns_map: "(\<And>x. x \<in> set xs \<Longrightarrow> returns (f x) (P x)) \<Longrightarrow> returns (map_result f xs) (list_all2 P xs)"
  by (induction xs) (auto intro!: returns_bind)

lemma list_all2_right: "list_all2 (\<lambda>_. P) xs ys \<Longrightarrow> (\<forall>y \<in> set ys. P y) \<and> (ys = [] \<longleftrightarrow> xs = [])"
  by (induction rule: list_all2_induct) auto

section \<open>The loops\<close>

lemma complement_inner_returns: "returns (neg e) (\<lambda>r. r \<noteq> None) \<Longrightarrow> returns (complement_inner neg e fs) (\<lambda>_. True)"
  by (induction fs) (auto elim!: returnsE)

lemma has_complement_returns:
  "(\<And>e. e \<in> set es \<Longrightarrow> returns (neg e) (\<lambda>r. r \<noteq> None)) \<Longrightarrow> returns (has_complement neg es) (\<lambda>_. True)"
proof (induction es)
  case (Cons e es)
  have "returns (complement_inner neg e es) (\<lambda>_. True)"
    using Cons.prems by (intro complement_inner_returns) simp
  moreover have "returns (has_complement neg es) (\<lambda>_. True)"
    using Cons by simp
  ultimately show ?case
    by (auto elim!: returnsE)
qed simp

text \<open>Disjunctions: the operands are conjunctions, or the result is a constant.\<close>

definition some_disjunctive :: "'n keyExpr option \<Rightarrow> bool" where
  "some_disjunctive r \<longleftrightarrow> (\<exists>e. r = Some e \<and> disjunctive e)"

lemma or_collect_shape:
  assumes "\<And>e. Some e \<in> set arr \<Longrightarrow> disjunctive e" "or_collect arr = Some (expr, hasFalse)"
  shows "(\<forall>e \<in> set expr. conjunction e) \<and> (expr \<noteq> [] \<or> hasFalse \<longleftrightarrow> (\<exists>e. Some e \<in> set arr))"
  using assms
proof (induction arr arbitrary: expr hasFalse)
  case (Cons e arr)
  show ?case
  proof (cases e)
    case None
    then show ?thesis using Cons by auto
  next
    case (Some x)
    then have "disjunctive x"
      using Cons.prems(1) by simp
    then show ?thesis
    proof (cases rule: disjunctive_cases)
      case 1
      then show ?thesis
        using constant_expr_cases [OF 1] Cons Some by fastforce
    next
      case 2
      then have "or_collect (e # arr) = map_option (\<lambda>(expr, hasFalse). (x # expr, hasFalse)) (or_collect arr)"
        using Some by (cases x) auto
      then show ?thesis
        using Cons Some 2 by fastforce
    next
      case (3 es n)
      then show ?thesis
        using Cons Some by fastforce
    qed
  qed
qed simp

lemma Or_returns:
  assumes "\<And>expr hasFalse e. or_collect arr = Some (expr, hasFalse) \<Longrightarrow> e \<in> set expr \<Longrightarrow> x \<Longrightarrow> returns (op_negate ops e) (\<lambda>r. r \<noteq> None)"
  shows "returns (Or_normalizeArr lib ops arr n x) (\<lambda>_. True)"
proof (cases "or_collect arr")
  case (Some p)
  obtain expr hasFalse where p: "p = (expr, hasFalse)" by fastforce
  let ?es = "eliminate_duplicates (js_sort (expr_cmp lib) expr)"
  have "set ?es \<subseteq> set expr"
    using set_eliminate_duplicates [of "js_sort (expr_cmp lib) expr"] by simp
  then have "returns (if x then has_complement (op_negate ops) ?es else Inr False) (\<lambda>_. True)"
    using assms [of expr hasFalse] Some p by (auto intro!: has_complement_returns)
  then show ?thesis
    using Some p by (auto simp: Or_normalizeArr_def Let_def elim!: returnsE)
qed (simp add: Or_normalizeArr_def)

lemma Or_shape:
  assumes "\<And>e. Some e \<in> set arr \<Longrightarrow> disjunctive e" "Or_normalizeArr lib ops arr n x = Inr r"
  shows "if \<exists>e. Some e \<in> set arr then some_disjunctive r else r = None"
proof (cases "or_collect arr")
  case None
  then have "\<exists>e. Some e \<in> set arr"
    by (induction arr) (auto split: option.splits keyExpr.splits)
  then show ?thesis
    using None assms(2) by (auto simp: Or_normalizeArr_def some_disjunctive_def)
next
  case (Some p)
  obtain expr hasFalse where p: "p = (expr, hasFalse)" by fastforce
  have c: "\<forall>e \<in> set expr. conjunction e" "expr \<noteq> [] \<or> hasFalse \<longleftrightarrow> (\<exists>e. Some e \<in> set arr)"
    using or_collect_shape [OF assms(1)] Some p by blast+
  let ?s = "js_sort (expr_cmp lib) expr"
  let ?es = "eliminate_duplicates ?s"
  have es: "\<forall>e \<in> set ?es. conjunction e" "?es = [] \<longleftrightarrow> expr = []" "\<forall>e \<in> set ?s. conjunction e" "?s = [] \<longleftrightarrow> expr = []"
    using set_eliminate_duplicates [of ?s] c(1) by auto
  have hd: "conjunction (hd ?s)" "conjunction (hd ?es)" if "expr \<noteq> []"
    using es that by (metis hd_in_set)+
  show ?thesis
  proof (cases "expr = []")
    case True
    then show ?thesis
      using assms(2) Some p c(2) by (cases hasFalse) (auto simp: Or_normalizeArr_def some_disjunctive_def)
  next
    case False
    then have "r = Some (hd ?s) \<or> r = Some (hd ?es) \<or> r = Some TrueExpr \<or> r = Some (OrExpr ?es n)"
      using assms(2) Some p by (auto simp: Or_normalizeArr_def Let_def bind_result_Inr_iff split: if_splits)
    then have "some_disjunctive r"
      using hd [OF False] es False terminal_shapes(2) by (auto simp: some_disjunctive_def)
    then show ?thesis
      using c(2) False by simp
  qed
qed

text \<open>Conjunctions of operands without disjunctions.\<close>

definition simple_and :: "'n keyExpr \<Rightarrow> bool" where
  "simple_and e \<longleftrightarrow> constant_expr e \<or> conjunction e"

lemma and_collect_shape:
  assumes "\<And>e. Some e \<in> set arr \<Longrightarrow> simple_and e" "and_collect arr = Some (expr, hasTrue)"
  shows "(\<forall>e \<in> set expr. terminal e) \<and> (expr \<noteq> [] \<or> hasTrue \<longleftrightarrow> (\<exists>e. Some e \<in> set arr))"
  using assms
proof (induction arr arbitrary: expr hasTrue)
  case (Cons e arr)
  show ?case
  proof (cases e)
    case None
    then show ?thesis using Cons by auto
  next
    case (Some x)
    then consider "constant_expr x" | "terminal x" | es where "x = AndExpr es None" "es \<noteq> []" "\<forall>e \<in> set es. terminal e"
      using Cons.prems(1) [of x] by (auto simp: simple_and_def elim: conjunction_cases)
    then show ?thesis
    proof cases
      case 1
      then show ?thesis
        using constant_expr_cases [OF 1] Cons Some by fastforce
    next
      case 2
      then have "and_collect (e # arr) = map_option (\<lambda>(expr, hasTrue). (x # expr, hasTrue)) (and_collect arr)"
        using Some by (cases x) auto
      then show ?thesis
        using Cons Some 2 by fastforce
    next
      case (3 es)
      then show ?thesis
        using Cons Some by fastforce
    qed
  qed
qed simp

lemma terminal_not_or: "terminal e \<Longrightarrow> \<not> is_or e"
  by (cases e) (auto simp: is_or_def)

lemma And_simple:
  assumes arr: "\<And>e. Some e \<in> set arr \<Longrightarrow> simple_and e" "Some e0 \<in> set arr"
    and neg: "\<And>e. terminal e \<Longrightarrow> x \<Longrightarrow> returns (op_negate ops e) (\<lambda>r. r \<noteq> None)"
  shows "returns (And_normalizeArr lib ops arr None x) (\<lambda>r. \<exists>e. r = Some e \<and> simple_and e)"
proof (cases "and_collect arr")
  case None
  then show ?thesis by (simp add: And_normalizeArr_def simple_and_def)
next
  case (Some p)
  obtain expr hasTrue where p: "p = (expr, hasTrue)" by fastforce
  have c: "\<forall>e \<in> set expr. terminal e" "expr \<noteq> [] \<or> hasTrue"
    using and_collect_shape [OF arr(1)] Some p arr(2) by blast+
  define es where "es = eliminate_duplicates (js_sort (expr_cmp lib) expr)"
  have es: "\<forall>e \<in> set es. terminal e" "es = [] \<longleftrightarrow> expr = []"
    using set_eliminate_duplicates [of "js_sort (expr_cmp lib) expr"] c(1) by (auto simp: es_def)
  have hd: "simple_and (hd expr)" "simple_and (hd es)" if "expr \<noteq> []"
    using es c(1) that by (simp_all add: simple_and_def terminal_shapes(1))
  have "and_distribute lib ops x es = Inr es"
    using es by (subst and_distribute.simps) (cases es rule: rev_cases; simp add: terminal_not_or)
  moreover have "returns (if x then has_complement (op_negate ops) es else Inr False) (\<lambda>_. True)"
    using neg es(1) by (auto intro!: has_complement_returns)
  ultimately show ?thesis
    using Some p hd c(2) es
    by (auto simp: And_normalizeArr_def es_def [symmetric] Let_def simple_and_def elim!: returnsE)
qed


section \<open>Negation\<close>

lemma terminal_negate_shape:
  assumes "terminal e"
  shows "\<exists>n. expr_negate constants lib ops e = Inr (Some n) \<and> (terminal n \<or> constant_expr n)"
  using assms
  by (cases e) (auto simp: terminal_def constant_expr_def and_operands_def or_operands_def expr_negate_def number_creations withFloatOrStr_def boolean_expr_def
      Defined_create_def Not_create_def Equals_create_def NotEquals_create_def Let_def split: js_prim.splits option.splits)

lemma ops_Suc:
  "op_and (key_ops constants lib (Suc k)) = And_normalizeArr lib (key_ops constants lib k)"
  "op_or (key_ops constants lib (Suc k)) = Or_normalizeArr lib (key_ops constants lib k)"
  "op_negate (key_ops constants lib (Suc k)) = expr_negate constants lib (key_ops constants lib k)"
  by (simp_all add: Let_def)

abbreviation is_some :: "'a option \<Rightarrow> bool" where
  "is_some r \<equiv> r \<noteq> None"

lemma negate_terminal_returns:
  assumes "terminal e" "1 \<le> k"
  shows "returns (op_negate (key_ops constants lib k) e) some_disjunctive"
proof -
  obtain j where k: "k = Suc j"
    using assms(2) by (cases k) auto
  obtain n where n: "expr_negate constants lib (key_ops constants lib j) e = Inr (Some n)" "terminal n \<or> constant_expr n"
    using terminal_negate_shape [OF assms(1)] by blast
  then have "some_disjunctive (Some n)"
    using terminal_shapes by (auto simp: some_disjunctive_def)
  then show ?thesis
    by (simp only: k ops_Suc n returns_result)
qed

lemma some_disjunctive_is_some: "some_disjunctive r \<Longrightarrow> is_some r"
  by (auto simp: some_disjunctive_def)

text \<open>A disjunction of operands in normal form, when the negations of their parts return.\<close>

lemma or_normal_returns:
  assumes "\<And>e. Some e \<in> set arr \<Longrightarrow> disjunctive e" "Some e0 \<in> set arr" "1 \<le> k"
    and "\<And>expr h t. or_collect arr = Some (expr, h) \<Longrightarrow> t \<in> set expr \<Longrightarrow> x \<Longrightarrow> returns (op_negate (key_ops constants lib (k - 1)) t) is_some"
  shows "returns (op_or (key_ops constants lib k) arr n x) some_disjunctive"
proof -
  obtain j where k: "k = Suc j"
    using assms(3) by (cases k) auto
  have "returns (Or_normalizeArr lib (key_ops constants lib j) arr n x) (\<lambda>_. True)"
    using assms(4) unfolding k by (intro Or_returns) simp
  then obtain r where r: "Or_normalizeArr lib (key_ops constants lib j) arr n x = Inr r"
    by (auto elim: returnsE)
  have "some_disjunctive r"
    using Or_shape [OF assms(1) r] assms(2) by (auto split: if_splits)
  then show ?thesis
    using r by (simp only: k ops_Suc returns_result)
qed

definition small :: "'n keyExpr option \<Rightarrow> bool" where
  "small r \<longleftrightarrow> (\<exists>n. r = Some n \<and> (terminal n \<or> constant_expr n))"

lemma or_collect_small:
  "\<forall>r \<in> set rs. small r \<Longrightarrow> or_collect rs = Some (expr, h) \<Longrightarrow> t \<in> set expr \<Longrightarrow> terminal t"
proof (induction rs arbitrary: expr h)
  case (Cons r rs)
  then obtain n where n: "r = Some n" "terminal n \<or> constant_expr n" by (auto simp: small_def)
  show ?case
  proof (cases "constant_expr n")
    case True
    then show ?thesis
      using Cons constant_expr_cases [OF True] n(1) by auto
  next
    case False
    then have "or_collect (r # rs) = map_option (\<lambda>(expr, hasFalse). (n # expr, hasFalse)) (or_collect rs)"
      using n by (cases n) auto
    then show ?thesis
      using Cons n False by auto
  qed
qed simp

lemma small_disjunctive: "small r \<Longrightarrow> some_disjunctive r"
  using terminal_shapes by (auto simp: small_def some_disjunctive_def)

lemma or_small_returns:
  assumes "\<forall>r \<in> set rs. small r" "rs \<noteq> []" "2 \<le> k"
  shows "returns (op_or (key_ops constants lib k) rs n x) some_disjunctive"
proof -
  obtain r rs' where rs: "rs = r # rs'"
    using assms(2) by (cases rs) auto
  then obtain e0 where e0: "r = Some e0"
    using assms(1) by (auto simp: small_def)
  show ?thesis
  proof (rule or_normal_returns [where ?e0.0 = e0])
    show "disjunctive e" if "Some e \<in> set rs" for e
      using that assms(1) small_disjunctive [of "Some e"] by (simp add: some_disjunctive_def)
    show "Some e0 \<in> set rs" "1 \<le> k"
      using rs e0 assms(3) by auto
    show "returns (op_negate (key_ops constants lib (k - 1)) t) is_some" if "or_collect rs = Some (expr, h)" "t \<in> set expr" for expr h t
      using negate_terminal_returns [OF or_collect_small [OF assms(1) that], of "k - 1" constants lib] assms(3)
      by (intro returns_mono [OF _ some_disjunctive_is_some]) auto
  qed
qed

text \<open>The negation of a conjunction of terminals needs a stack of three frames.\<close>

lemma negate_terminals_returns:
  assumes "\<forall>e \<in> set es. terminal e" "es \<noteq> []" "1 \<le> k"
  shows "returns (map_result (op_negate (key_ops constants lib k)) es) (\<lambda>rs. rs \<noteq> [] \<and> (\<forall>r \<in> set rs. small r))"
proof -
  obtain j where k: "k = Suc j"
    using assms(3) by (cases k) auto
  have "returns (map_result (op_negate (key_ops constants lib k)) es) (list_all2 (\<lambda>e r. small r) es)"
  proof (rule returns_map)
    fix t
    assume "t \<in> set es"
    then obtain n where n: "expr_negate constants lib (key_ops constants lib j) t = Inr (Some n)" "terminal n \<or> constant_expr n"
      using terminal_negate_shape [of t constants lib] assms(1) by blast
    then show "returns (op_negate (key_ops constants lib k) t) small"
      unfolding k ops_Suc n(1) returns_result small_def by blast
  qed
  then show ?thesis
    by (rule returns_mono) (use assms(2) list_all2_right in blast)
qed

lemma negate_conjunction_returns:
  assumes "conjunction e" "3 \<le> k"
  shows "returns (op_negate (key_ops constants lib k) e) some_disjunctive"
  using assms(1)
proof (cases rule: conjunction_cases)
  case 1
  show ?thesis
    by (rule negate_terminal_returns [OF 1]) (use assms(2) in simp)
next
  case (2 es)
  obtain j where k: "k = Suc j" "2 \<le> j"
    using assms(2) by (cases k) auto
  have "returns (bind_result (map_result (op_negate (key_ops constants lib j)) es) (\<lambda>rs. op_or (key_ops constants lib j) rs (Some e) True)) some_disjunctive"
    by (rule returns_bind [OF negate_terminals_returns [OF 2(3,2)]]) (use k(2) in \<open>auto intro: or_small_returns\<close>)
  then show ?thesis
    unfolding k(1) ops_Suc by (simp add: expr_negate_def 2(1))
qed

text \<open>The negation of a disjunction in normal form needs five.\<close>

lemma getTerminals_shape: "disjunctive e \<Longrightarrow> getTerminals e \<noteq> [] \<and> (\<forall>t \<in> set (getTerminals e). simple_and t)"
  by (elim disjunctive_cases) (auto simp: getTerminals_def simple_and_def split: keyExpr.splits)

lemma and_simple_returns:
  assumes "\<And>e. Some e \<in> set arr \<Longrightarrow> simple_and e" "Some e0 \<in> set arr" "if x then 2 \<le> k else 1 \<le> k"
  shows "returns (op_and (key_ops constants lib k) arr None x) (\<lambda>r. \<exists>e. r = Some e \<and> simple_and e)"
proof -
  obtain j where k: "k = Suc j" "x \<longrightarrow> 1 \<le> j"
    using assms(3) by (cases k) (auto split: if_splits)
  show ?thesis
    unfolding k(1) ops_Suc
  proof (rule And_simple [OF assms(1,2)])
    fix e :: "'a keyExpr"
    assume "terminal e" x
    then show "returns (op_negate (key_ops constants lib j) e) (\<lambda>r. r \<noteq> None)"
      using negate_terminal_returns [of e j constants lib] k(2) by (intro returns_mono [OF _ some_disjunctive_is_some]) auto
  qed
qed

lemma some_simple_disjunctive: "(\<exists>e. r = Some e \<and> simple_and e) \<Longrightarrow> some_disjunctive r"
  using terminal_shapes by (auto simp: some_disjunctive_def simple_and_def)

lemma or_defined_returns:
  assumes "\<And>e. Some e \<in> set arr \<Longrightarrow> disjunctive e" "Some e0 \<in> set arr" "if x then 4 \<le> k else 1 \<le> k"
  shows "returns (op_or (key_ops constants lib k) arr n x) some_disjunctive"
proof (rule or_normal_returns [OF assms(1,2)])
  show "1 \<le> k"
    using assms(3) by (simp split: if_splits)
  show "returns (op_negate (key_ops constants lib (k - 1)) t) is_some" if "or_collect arr = Some (expr, h)" "t \<in> set expr" x for expr h t
  proof -
    have "conjunction t"
      using or_collect_shape [OF assms(1) that(1)] that(2) by blast
    then show ?thesis
      using assms(3) that(3) by (intro returns_mono [OF negate_conjunction_returns some_disjunctive_is_some]) auto
  qed
qed

lemma or_disjunctive_returns:
  assumes "\<forall>r \<in> set arr. some_disjunctive r" "arr \<noteq> []" "if x then 4 \<le> k else 1 \<le> k"
  shows "returns (op_or (key_ops constants lib k) arr n x) some_disjunctive"
proof -
  obtain r arr' where arr: "arr = r # arr'"
    using assms(2) by (cases arr) auto
  then obtain e0 where e0: "r = Some e0"
    using assms(1) by (auto simp: some_disjunctive_def)
  show ?thesis
    by (rule or_defined_returns [OF _ _ assms(3), where ?e0.0 = e0]) (use assms(1) arr e0 in \<open>auto simp: some_disjunctive_def\<close>)
qed

lemma negate_pair_returns:
  assumes "some_disjunctive l" "some_disjunctive r" "1 \<le> k"
  shows "returns (negate_pair (key_ops constants lib k) l r) some_disjunctive"
proof -
  obtain a b where ab: "l = Some a" "r = Some b" "disjunctive a" "disjunctive b"
    using assms(1,2) by (auto simp: some_disjunctive_def)
  let ?ts = "List.product (getTerminals a) (getTerminals b)"
  let ?and = "\<lambda>(left, right). op_and (key_ops constants lib k) [Some left, Some right] None False"
  have ts: "\<forall>(c, d) \<in> set ?ts. simple_and c \<and> simple_and d"
    using getTerminals_shape [OF ab(3)] getTerminals_shape [OF ab(4)] by auto
  have ne: "?ts \<noteq> []"
    using getTerminals_shape [OF ab(3)] getTerminals_shape [OF ab(4)] by (cases "getTerminals a"; cases "getTerminals b") simp_all
  have "returns (map_result ?and ?ts) (list_all2 (\<lambda>_. some_disjunctive) ?ts)"
  proof (rule returns_map)
    fix p
    assume "p \<in> set ?ts"
    moreover obtain c d where p: "p = (c, d)" by fastforce
    ultimately have cd: "simple_and c" "simple_and d"
      using ts by blast+
    have "returns (op_and (key_ops constants lib k) [Some c, Some d] None False) (\<lambda>r. \<exists>e. r = Some e \<and> simple_and e)"
      using cd assms(3) by (intro and_simple_returns [where ?e0.0 = c]) auto
    then show "returns (?and p) some_disjunctive"
      unfolding p prod.case by (rule returns_mono [OF _ some_simple_disjunctive])
  qed
  then have "returns (bind_result (map_result ?and ?ts) (\<lambda>arr. op_or (key_ops constants lib k) arr None False)) some_disjunctive"
  proof (rule returns_bind)
    fix arr :: "'a keyExpr option list"
    assume "list_all2 (\<lambda>_. some_disjunctive) ?ts arr"
    then have "\<forall>r \<in> set arr. some_disjunctive r" "arr \<noteq> []"
      using ne list_all2_right by blast+
    then show "returns (op_or (key_ops constants lib k) arr None False) some_disjunctive"
      using assms(3) by (intro or_disjunctive_returns) auto
  qed
  then show ?thesis
    by (simp add: negate_pair_def ab)
qed

lemma negate_distribute_returns:
  assumes "1 \<le> k" "some_disjunctive l" "\<forall>r \<in> set rs. some_disjunctive r"
  shows "returns (negate_distribute (key_ops constants lib k) l rs) (\<lambda>res. \<exists>r. res = [r] \<and> some_disjunctive r)"
  using assms(2,3)
proof (induction rs arbitrary: l)
  case (Cons r rs)
  have "returns (bind_result (negate_pair (key_ops constants lib k) l r) (\<lambda>e. negate_distribute (key_ops constants lib k) e rs))
    (\<lambda>res. \<exists>r. res = [r] \<and> some_disjunctive r)"
    by (rule returns_bind [OF negate_pair_returns]) (use Cons assms(1) in auto)
  then show ?case by simp
qed simp

lemma negate_disjunction_returns:
  assumes "\<forall>e \<in> set es. conjunction e" "es \<noteq> []" "5 \<le> k"
  shows "returns (op_negate (key_ops constants lib k) (OrExpr es None)) some_disjunctive"
proof -
  obtain j where k: "k = Suc j" "4 \<le> j"
    using assms(3) by (cases k) auto
  let ?ops = "key_ops constants lib j"
  have "returns (map_result (op_negate ?ops) es) (list_all2 (\<lambda>_. some_disjunctive) es)"
    by (rule returns_map, rule negate_conjunction_returns) (use assms(1) k(2) in auto)
  then have "returns (negate_or ?ops (OrExpr es None) es) some_disjunctive"
    unfolding negate_or_def
  proof (rule returns_bind)
    fix rs :: "'a keyExpr option list"
    assume rs: "list_all2 (\<lambda>_. some_disjunctive) es rs"
    obtain l rest where l: "rs = l # rest" "some_disjunctive l" "\<forall>r \<in> set rest. some_disjunctive r"
      using list_all2_right [OF rs] assms(2) by (cases rs) auto
    have "returns (bind_result (negate_distribute ?ops l rest) (\<lambda>result. op_or ?ops result (Some (OrExpr es None)) True)) some_disjunctive"
      by (rule returns_bind [OF negate_distribute_returns]) (use l(2,3) k(2) in \<open>auto intro!: or_disjunctive_returns\<close>)
    then show "returns (bind_result (case rs of [] \<Rightarrow> Inr [] | LEFT # rest \<Rightarrow> negate_distribute ?ops LEFT rest)
        (\<lambda>result. op_or ?ops result (Some (OrExpr es None)) True)) some_disjunctive"
      by (simp add: l(1))
  qed
  then show ?thesis
    unfolding k(1) ops_Suc by (simp add: expr_negate_def)
qed

text \<open>The results in normal form, as the callers see them.\<close>

lemma negate_disjunctive_returns:
  assumes "disjunctive e" "\<And>es m. e = OrExpr es (Some m) \<Longrightarrow> disjunctive m" "5 \<le> k"
  shows "returns (op_negate (key_ops constants lib k) e) some_disjunctive"
  using assms(1)
proof (cases rule: disjunctive_cases)
  case 1
  then show ?thesis
    using constant_expr_cases [OF 1] assms(3) by (cases k) (auto simp: expr_negate_def Let_def some_disjunctive_def)
next
  case 2
  then show ?thesis
    by (rule negate_conjunction_returns) (use assms(3) in simp)
next
  case (3 es n)
  show ?thesis
  proof (cases n)
    case None
    then show ?thesis
      using negate_disjunction_returns [OF 3(3,2) assms(3)] 3(1) by simp
  next
    case (Some m)
    then show ?thesis
      using assms(2,3) 3(1) by (cases k) (auto simp: expr_negate_def Let_def some_disjunctive_def)
  qed
qed


end
