(* ===== verification/Context_Key_Implies.thy ===== *)
theory Context_Key_Implies
  imports Context_Key_Normal
begin

text \<open>
  The clients of the creation of context key expressions: the substitution of constants, and the implication, which
  compares expressions by their order.
\<close>

section \<open>Substitution of constants\<close>

text \<open>The interface: creation and negation that mean what they say.\<close>

locale key_operations =
  fixes S :: "'n::linordered_idom situation"
    and ops :: "'n keyOps"
  assumes sound: "ops_sound S ops"
begin

definition substituted :: "'n keyExpr \<Rightarrow> js_error + 'n keyExpr option option \<Rightarrow> bool" where
  "substituted e res \<longleftrightarrow> res = Inl RangeError \<or> res = Inr None \<or> (\<exists>e'. res = Inr (Some (Some e')) \<and> well_formed S e' \<and> ev S e' = ev S e)"

lemma eliminated_operands:
  assumes "list_all2 (\<lambda>e r. substituted e (Inr r)) es new" "\<forall>e \<in> set es. well_formed S e"
  shows "\<exists>es'. eliminated es new = map Some es' \<and> list_all2 (\<lambda>e e'. well_formed S e' \<and> ev S e' = ev S e) es es'"
  using assms
proof (induction rule: list_all2_induct)
  case Nil
  then show ?case by (simp add: eliminated_def)
next
  case (Cons e es r new)
  obtain es' where es': "eliminated es new = map Some es'" "list_all2 (\<lambda>e e'. well_formed S e' \<and> ev S e' = ev S e) es es'"
    using Cons by auto
  have "\<exists>e'. eliminated (e # es) (r # new) = Some e' # map Some es' \<and> well_formed S e' \<and> ev S e' = ev S e"
    using Cons es'(1) by (auto simp: substituted_def eliminated_def)
  then obtain e' where "eliminated (e # es) (r # new) = map Some (e' # es')" "well_formed S e'" "ev S e' = ev S e"
    by auto
  then show ?case
    using es'(2) by blast
qed

lemma operands_agree:
  assumes "list_all2 (\<lambda>e e'. well_formed S e' \<and> ev S e' = ev S e) es es'"
  shows "\<forall>e \<in> set es'. well_formed S e" "(\<forall>e \<in> set es'. ev S e) = (\<forall>e \<in> set es. ev S e)" "(\<exists>e \<in> set es'. ev S e) = (\<exists>e \<in> set es. ev S e)"
    "es' = [] \<longleftrightarrow> es = []"
  using assms by (induction rule: list_all2_induct) auto

lemma map_substituted:
  assumes "\<And>e. e \<in> set es \<Longrightarrow> substituted e (f e)"
  shows "map_result f es = Inl RangeError \<or> (\<exists>new. map_result f es = Inr new \<and> list_all2 (\<lambda>e r. substituted e (Inr r)) es new)"
  using assms
proof (induction es)
  case (Cons e es)
  have "substituted e (f e)"
    using Cons.prems by simp
  then consider "f e = Inl RangeError" | r where "f e = Inr r" "substituted e (Inr r)"
    by (cases "f e") (auto simp: substituted_def)
  moreover have "map_result f es = Inl RangeError \<or> (\<exists>new. map_result f es = Inr new \<and> list_all2 (\<lambda>e r. substituted e (Inr r)) es new)"
    using Cons by simp
  ultimately show ?case
    by cases auto
qed simp

lemma means_substituted:
  assumes "means S (map Some es') (ev S e) res" "es' \<noteq> []"
  shows "substituted e (bind_result res (\<lambda>r. Inr (Some r)))"
  using means_defined [OF assms(1), of "hd es'"] assms(2) by (auto simp: substituted_def)

lemma substituteConstants_sound: "well_formed S e \<Longrightarrow> substituted e (substituteConstants (si_constants S) ops e)"
proof (induction e)
  case (DefinedExpr k)
  then show ?case
    by (auto simp: substituted_def constant_fits_def split: option.splits)
next
  case (NotExpr k)
  then show ?case
    by (auto simp: substituted_def constant_fits_def split: option.splits)
next
  case (EqualsExpr k v)
  then show ?case
    by (auto simp: substituted_def equals_fits_def constant_fits_def split: option.splits)
next
  case (NotEqualsExpr k v)
  then show ?case
    by (auto simp: substituted_def equals_fits_def constant_fits_def split: option.splits)
next
  case (AndExpr es n)
  have es: "es \<noteq> []" "\<forall>e \<in> set es. well_formed S e"
    using well_formed_operands(1) AndExpr.prems by blast+
  from map_substituted [of es "substituteConstants (si_constants S) ops"] AndExpr.IH(1) es(2)
  consider "map_result (substituteConstants (si_constants S) ops) es = Inl RangeError" |
    new where "map_result (substituteConstants (si_constants S) ops) es = Inr new" "list_all2 (\<lambda>e r. substituted e (Inr r)) es new"
    by blast
  then show ?case
  proof cases
    case 1
    then show ?thesis by (simp add: substituted_def)
  next
    case (2 new)
    obtain es' where es': "eliminated es new = map Some es'" "list_all2 (\<lambda>e e'. well_formed S e' \<and> ev S e' = ev S e) es es'"
      using eliminated_operands [OF 2(2) es(2)] by blast
    note agree = operands_agree [OF es'(2)]
    have holds: "all_hold S (map Some es') = ev S (AndExpr es n)"
      using agree(2) by (auto simp: all_hold_def list_all_iff)
    have "remembered_ok S (\<not> all_hold S (map Some es')) n"
      unfolding holds using AndExpr.prems by (cases n) (simp_all add: remembered_ok_def)
    then have "means S (map Some es') (ev S (AndExpr es n)) (op_and ops (map Some es') n False)"
      using ops_soundD(1) [OF sound, of "map Some es'" n False] agree(1) holds by (simp add: operands_ok_map)
    then show ?thesis
      using means_substituted [of es' "AndExpr es n"] agree(4) es(1) 2(1) es'(1) by (simp add: substituted_def)
  qed
next
  case (OrExpr es n)
  have es: "es \<noteq> []" "\<forall>e \<in> set es. well_formed S e"
    using well_formed_operands(2) OrExpr.prems by blast+
  from map_substituted [of es "substituteConstants (si_constants S) ops"] OrExpr.IH(1) es(2)
  consider "map_result (substituteConstants (si_constants S) ops) es = Inl RangeError" |
    new where "map_result (substituteConstants (si_constants S) ops) es = Inr new" "list_all2 (\<lambda>e r. substituted e (Inr r)) es new"
    by blast
  then show ?case
  proof cases
    case 1
    then show ?thesis by (simp add: substituted_def)
  next
    case (2 new)
    obtain es' where es': "eliminated es new = map Some es'" "list_all2 (\<lambda>e e'. well_formed S e' \<and> ev S e' = ev S e) es es'"
      using eliminated_operands [OF 2(2) es(2)] by blast
    note agree = operands_agree [OF es'(2)]
    have holds: "some_holds S (map Some es') = ev S (OrExpr es n)"
      using agree(3) by (auto simp: some_holds_map list_ex_iff)
    have "remembered_ok S (\<not> some_holds S (map Some es')) n"
      unfolding holds using OrExpr.prems by (cases n) (simp_all add: remembered_ok_def)
    then have "means S (map Some es') (ev S (OrExpr es n)) (op_or ops (map Some es') n False)"
      using ops_soundD(2) [OF sound, of "map Some es'" n False] agree(1) holds by (simp add: operands_ok_map)
    then show ?thesis
      using means_substituted [of es' "OrExpr es n"] agree(4) es(1) 2(1) es'(1) by (simp add: substituted_def)
  qed
qed (simp_all add: substituted_def)

end

interpretation kops: key_operations S "ops_of S stack" for S :: "'n::linordered_idom situation" and stack
  by unfold_locales (rule key_ops_sound)

text \<open>An expression in normal form is substituted with one frame.\<close>

lemma substitute_terminal:
  assumes "terminal e"
  shows "\<exists>r. substituteConstants constants ops e = Inr r \<and> (\<forall>x. r = Some x \<longrightarrow> small x)"
  using assms by (cases e) (auto simp: small_def boolean_expr_def split: option.splits)

lemma eliminated_set:
  assumes "list_all2 (\<lambda>_ r. \<forall>x. r = Some x \<longrightarrow> P x) es new" "\<forall>e \<in> set es. P (Some e)"
  shows "(\<forall>r \<in> set (eliminated es new). P r) \<and> (eliminated es new = [] \<longleftrightarrow> es = [])"
  using assms by (induction rule: list_all2_induct) (auto simp: eliminated_def split: option.splits)

lemma substitute_conjunction:
  assumes "conjunction e" "1 \<le> k"
  shows "returns (substituteConstants constants (key_ops constants lib k) e) (\<lambda>r. \<forall>x. r = Some x \<longrightarrow> (\<exists>e'. x = Some e' \<and> simple_and e'))"
  using assms(1)
proof (cases rule: conjunction_cases)
  case 1
  then show ?thesis
    using substitute_terminal [OF 1, of constants "key_ops constants lib k"] by (auto simp: small_def simple_and_def conjunction_def)
next
  case (2 es)
  let ?ops = "key_ops constants lib k"
  have "returns (map_result (substituteConstants constants ?ops) es) (list_all2 (\<lambda>_ r. \<forall>x. r = Some x \<longrightarrow> small x) es)"
  proof (rule returns_map)
    fix t
    assume "t \<in> set es"
    then show "returns (substituteConstants constants ?ops t) (\<lambda>r. \<forall>x. r = Some x \<longrightarrow> small x)"
      using substitute_terminal [of t constants ?ops] 2(3) by auto
  qed
  then obtain new where new: "map_result (substituteConstants constants ?ops) es = Inr new" "list_all2 (\<lambda>_ r. \<forall>x. r = Some x \<longrightarrow> small x) es new"
    by (rule returnsE)
  have el: "\<forall>r \<in> set (eliminated es new). small r" "eliminated es new \<noteq> []"
    using eliminated_set [OF new(2)] 2(2,3) by (auto simp: small_def)
  obtain e0 where e0: "Some e0 \<in> set (eliminated es new)"
    using el by (cases "eliminated es new") (auto simp: small_def)
  have "returns (op_and ?ops (eliminated es new) None False) (\<lambda>r. \<exists>e. r = Some e \<and> simple_and e)"
  proof (rule and_simple_returns [OF _ e0])
    show "simple_and e" if "Some e \<in> set (eliminated es new)" for e
      using el(1) that terminal_shapes(1) by (fastforce simp: small_def simple_and_def)
  qed (use assms(2) in simp)
  then show ?thesis
    by (auto simp: 2(1) new(1) elim!: returnsE)
qed

lemma substitute_disjunctive:
  assumes "disjunctive e" "1 \<le> k"
  shows "returns (ContextKeyExpr_substituteConstants constants lib k e) some_disjunctive"
  using assms(1)
proof (cases rule: disjunctive_cases)
  case 1
  then show ?thesis
    using constant_expr_cases [OF 1] by (auto simp: ContextKeyExpr_substituteConstants_def some_disjunctive_def)
next
  case 2
  show ?thesis
    using substitute_conjunction [OF 2 assms(2), of constants lib] terminal_shapes(2) [OF 2]
    by (auto simp: ContextKeyExpr_substituteConstants_def some_disjunctive_def simple_and_def disjunctive_def elim!: returnsE split: option.splits)
next
  case (3 es n)
  let ?ops = "key_ops constants lib k"
  have "returns (map_result (substituteConstants constants ?ops) es) (list_all2 (\<lambda>_ r. \<forall>x. r = Some x \<longrightarrow> some_disjunctive x) es)"
  proof (rule returns_map)
    fix t
    assume "t \<in> set es"
    then have "returns (substituteConstants constants ?ops t) (\<lambda>r. \<forall>x. r = Some x \<longrightarrow> (\<exists>e'. x = Some e' \<and> simple_and e'))"
      using 3(3) by (intro substitute_conjunction assms(2)) simp
    then show "returns (substituteConstants constants ?ops t) (\<lambda>r. \<forall>x. r = Some x \<longrightarrow> some_disjunctive x)"
      by (rule returns_mono) (use some_simple_disjunctive in blast)
  qed
  then obtain new where new: "map_result (substituteConstants constants ?ops) es = Inr new" "list_all2 (\<lambda>_ r. \<forall>x. r = Some x \<longrightarrow> some_disjunctive x) es new"
    by (rule returnsE)
  have el: "\<forall>r \<in> set (eliminated es new). some_disjunctive r" "eliminated es new \<noteq> []"
    using eliminated_set [OF new(2)] 3(2,3) terminal_shapes(2) by (auto simp: some_disjunctive_def)
  have "returns (op_or ?ops (eliminated es new) n False) some_disjunctive"
    by (rule or_disjunctive_returns [OF el]) (use assms(2) in simp)
  moreover have "some_disjunctive (Some e)"
    using assms(1) by (simp add: some_disjunctive_def)
  ultimately show ?thesis
    by (auto simp: ContextKeyExpr_substituteConstants_def 3(1) new(1) elim!: returnsE)
qed

section \<open>Implication\<close>

text \<open>Two strings of which neither is smaller are equal.\<close>

lemma text_less_Nil [simp]: "\<not> text_less xs []"
  by (cases xs) auto

lemma text_less_trichotomy: "text_less xs ys \<or> xs = ys \<or> text_less ys xs"
  by (induction xs ys rule: text_less.induct) auto

lemma cmp1_zero: "cmp1 k k' = 0 \<Longrightarrow> k = k'"
  using text_less_trichotomy [of k k'] by (auto simp: cmp1_def split: if_splits)

text \<open>The values of \<open>==\<close> are strings: the order does not tell other values apart, e.g. \<open>undefined\<close> and a number.\<close>

definition ordered_value :: "'n js_prim \<Rightarrow> bool" where
  "ordered_value v = (case v of StringV s \<Rightarrow> True | _ \<Rightarrow> False)"

fun ordered_values :: "'n keyExpr \<Rightarrow> bool" where
  "ordered_values (EqualsExpr k v) = ordered_value v"
| "ordered_values (NotEqualsExpr k v) = ordered_value v"
| "ordered_values (AndExpr es n) = list_all ordered_values es"
| "ordered_values (OrExpr es n) = list_all ordered_values es"
| "ordered_values e = True"

lemma cmp2_zero:
  assumes "cmp2 lib k v k' v' = 0"
  shows "ordered_value v \<Longrightarrow> ordered_value v' \<Longrightarrow> k = k' \<and> v = v'" "number_fits S k v \<Longrightarrow> number_fits S k' v' \<Longrightarrow> k = k' \<and> v = v'"
proof -
  have k: "k = k'" and v: "\<not> prim_less lib v v'" "\<not> prim_less lib v' v"
    using text_less_trichotomy [of k k'] assms by (auto simp: cmp2_def split: if_splits)
  show "ordered_value v \<Longrightarrow> ordered_value v' \<Longrightarrow> k = k' \<and> v = v'"
    using k v text_less_trichotomy by (fastforce simp: ordered_value_def prim_less_def split: js_prim.splits)
  show "number_fits S k v \<Longrightarrow> number_fits S k' v' \<Longrightarrow> k = k' \<and> v = v'"
    using k v by (elim number_fitsE) (simp add: prim_less_def prim_toNumber_def)
qed

lemma regex_cmp_zero: "regex_cmp k r k' r' = 0 \<Longrightarrow> regexp_fits S r \<Longrightarrow> regexp_fits S r' \<Longrightarrow> k = k' \<and> r = r'"
  using text_less_trichotomy [of k k'] text_less_trichotomy [of "regex_source r" "regex_source r'"] regex_source_eq [of S r r']
  by (auto simp: regex_cmp_def split: if_splits)

lemma first_nonzero_zero: "first_nonzero rs = 0 \<longleftrightarrow> (\<forall>r \<in> set rs. r = 0)"
  by (induction rs) auto

lemma operands_cmp_zero:
  assumes "(if length es < length es' then - 1 else if length es' < length es then 1 else first_nonzero (map (\<lambda>(x, y). expr_cmp lib x y) (zip es es'))) = 0"
  shows "list_all2 (\<lambda>x y. expr_cmp lib x y = 0) es es'"
  using assms by (auto simp: first_nonzero_zero list_all2_iff split: if_splits)

lemma operands_cmp_evaluate:
  assumes "list_all2 (\<lambda>x y. expr_cmp lib x y = 0) es es'" "\<And>x y. x \<in> set es \<Longrightarrow> y \<in> set es' \<Longrightarrow> expr_cmp lib x y = 0 \<Longrightarrow> f x = f y"
  shows "list_all f es = list_all f es' \<and> list_ex f es = list_ex f es'"
  using assms by (induction rule: list_all2_induct) auto

definition comparable :: "'n::linordered_idom situation \<Rightarrow> 'n keyExpr \<Rightarrow> bool" where
  "comparable S e \<longleftrightarrow> well_formed S e \<and> ordered_values e"

lemma comparable_operands:
  "comparable S (AndExpr es n) \<Longrightarrow> \<forall>e \<in> set es. comparable S e"
  "comparable S (OrExpr es n) \<Longrightarrow> \<forall>e \<in> set es. comparable S e"
  using well_formed_operands by (fastforce simp: comparable_def list_all_iff)+

lemma cmp_type: "expr_cmp lib e e' = 0 \<Longrightarrow> expr_type e = expr_type e'"
  by (subst (asm) expr_cmp.simps) (auto split: if_splits)


lemma cmp_zero_evaluate:
  "expr_cmp lib e e' = 0 \<Longrightarrow> comparable S e \<Longrightarrow> comparable S e' \<Longrightarrow> ev S e = ev S e'"
proof (induction e arbitrary: e')
  case (AndExpr es n)
  then obtain es' n' where e': "e' = AndExpr es' n'"
    using cmp_type [of lib "AndExpr es n" e'] by (cases e') auto
  then have "list_all2 (\<lambda>x y. expr_cmp lib x y = 0) es es'"
    using AndExpr.prems(1) by (intro operands_cmp_zero) (simp add: expr_cmp.simps [of lib "AndExpr es n"])
  moreover have "\<forall>e \<in> set es. comparable S e" "\<forall>e \<in> set es'. comparable S e"
    using comparable_operands(1) AndExpr.prems(2,3) e' by blast+
  ultimately show ?case
    using operands_cmp_evaluate [of lib es es' "ev S"] AndExpr.IH(1) e' by simp
next
  case (OrExpr es n)
  then obtain es' n' where e': "e' = OrExpr es' n'"
    using cmp_type [of lib "OrExpr es n" e'] by (cases e') auto
  then have "list_all2 (\<lambda>x y. expr_cmp lib x y = 0) es es'"
    using OrExpr.prems(1) by (intro operands_cmp_zero) (simp add: expr_cmp.simps [of lib "OrExpr es n"])
  moreover have "\<forall>e \<in> set es. comparable S e" "\<forall>e \<in> set es'. comparable S e"
    using comparable_operands(2) OrExpr.prems(2,3) e' by blast+
  ultimately show ?case
    using operands_cmp_evaluate [of lib es es' "ev S"] OrExpr.IH(1) e' by simp
next
  case FalseExpr
  then show ?case using cmp_type [of lib FalseExpr e'] by (cases e') auto
next
  case TrueExpr
  then show ?case using cmp_type [of lib TrueExpr e'] by (cases e') auto
next
  case (DefinedExpr k)
  then show ?case
    using cmp_type [of lib "DefinedExpr k" e'] cmp1_zero by (cases e') (auto simp: expr_cmp.simps)
next
  case (NotExpr k)
  then show ?case
    using cmp_type [of lib "NotExpr k" e'] cmp1_zero by (cases e') (auto simp: expr_cmp.simps)
next
  case (EqualsExpr k v)
  then show ?case
    using cmp_type [of lib "EqualsExpr k v" e'] by (cases e') (auto simp: expr_cmp.simps comparable_def dest!: cmp2_zero(1))
next
  case (NotEqualsExpr k v)
  then show ?case
    using cmp_type [of lib "NotEqualsExpr k v" e'] by (cases e') (auto simp: expr_cmp.simps comparable_def dest!: cmp2_zero(1))
next
  case (RegexExpr k r)
  then show ?case
    using cmp_type [of lib "RegexExpr k r" e'] by (cases e') (auto simp: expr_cmp.simps comparable_def dest!: regex_cmp_zero)
next
  case (NotRegexExpr k r)
  then show ?case
    using cmp_type [of lib "NotRegexExpr k r" e'] by (cases e') (auto simp: expr_cmp.simps comparable_def dest!: regex_cmp_zero)
next
  case (InExpr k l)
  then show ?case
    using cmp_type [of lib "InExpr k l" e'] by (cases e') (auto simp: expr_cmp.simps ordered_value_def dest!: cmp2_zero(1))
next
  case (NotInExpr k l)
  then show ?case
    using cmp_type [of lib "NotInExpr k l" e'] by (cases e') (auto simp: expr_cmp.simps ordered_value_def dest!: cmp2_zero(1))
next
  case (GreaterExpr k v)
  then show ?case
    using cmp_type [of lib "GreaterExpr k v" e'] by (cases e') (auto simp: expr_cmp.simps comparable_def dest!: cmp2_zero(2) [where S = S])
next
  case (GreaterEqualsExpr k v)
  then show ?case
    using cmp_type [of lib "GreaterEqualsExpr k v" e'] by (cases e') (auto simp: expr_cmp.simps comparable_def dest!: cmp2_zero(2) [where S = S])
next
  case (SmallerExpr k v)
  then show ?case
    using cmp_type [of lib "SmallerExpr k v" e'] by (cases e') (auto simp: expr_cmp.simps comparable_def dest!: cmp2_zero(2) [where S = S])
next
  case (SmallerEqualsExpr k v)
  then show ?case
    using cmp_type [of lib "SmallerEqualsExpr k v" e'] by (cases e') (auto simp: expr_cmp.simps comparable_def dest!: cmp2_zero(2) [where S = S])
qed

lemma allElementsIncluded_sound: "allElementsIncluded lib p q \<Longrightarrow> x \<in> set p \<Longrightarrow> \<exists>y \<in> set q. expr_cmp lib x y = 0"
  by (induction lib p q rule: allElementsIncluded.induct) (auto simp: Let_def split: if_splits)

lemma included_evaluate:
  assumes "allElementsIncluded lib p q" "\<forall>e \<in> set p. comparable S e" "\<forall>e \<in> set q. comparable S e" "x \<in> set p"
  shows "\<exists>y \<in> set q. ev S x = ev S y"
  using allElementsIncluded_sound [OF assms(1,4)] cmp_zero_evaluate [of lib x _ S] assms(2-4) by blast

lemma operands_forms: "or_operands e = Some es \<Longrightarrow> \<exists>n. e = OrExpr es n" "and_operands e = Some es \<Longrightarrow> \<exists>n. e = AndExpr es n"
  by (cases e; simp add: or_operands_def and_operands_def)+

lemma implies_evaluate:
  "implies lib p q \<Longrightarrow> comparable S p \<Longrightarrow> comparable S q \<Longrightarrow> ev S p \<Longrightarrow> ev S q"
proof (induction lib p q rule: implies.induct)
  case (1 lib p q)
  have type: "\<And>e :: 'a keyExpr. expr_type e = 0 \<Longrightarrow> e = FalseExpr" "\<And>e :: 'a keyExpr. expr_type e = 1 \<Longrightarrow> e = TrueExpr"
    by (case_tac e; simp)+
  show ?case
  proof (cases "expr_type p = 0 \<or> expr_type q = 1")
    case True
    then show ?thesis using type [of p] type [of q] 1(6) by auto
  next
    case False
    note imp = 1(3) [unfolded implies.simps [of lib p q] if_not_P [OF False]]
    show ?thesis
    proof (cases "or_operands p")
      case (Some ps)
      then obtain qs n n' where "p = OrExpr ps n" "q = OrExpr qs n'" "allElementsIncluded lib ps qs"
        using imp operands_forms(1) [OF Some] operands_forms(1) [of q] by (auto split: option.splits)
      then show ?thesis
        using included_evaluate [of lib ps qs S] comparable_operands(2) [of S] 1(4-6) by (fastforce simp: list_ex_iff)
    next
      case p: None
      show ?thesis
      proof (cases "or_operands q")
        case (Some qs)
        then obtain x n where "x \<in> set qs" "implies lib p x" "q = OrExpr qs n"
          using imp p operands_forms(1) [of q qs] by (auto simp: list_ex_iff)
        then show ?thesis
          using 1(2) [OF False p Some, of x] 1(4-6) comparable_operands(2) [of S qs n] by (auto simp: list_ex_iff)
      next
        case q: None
        show ?thesis
        proof (cases "and_operands p")
          case None
          then have "expr_equals p q"
            using imp p q by simp
          then show ?thesis
            using equals_evaluate [of p q S] 1(4-6) by (simp add: comparable_def)
        next
          case (Some ps)
          obtain n where n: "p = AndExpr ps n"
            using operands_forms(2) [OF Some] by blast
          have ps: "\<forall>e \<in> set ps. comparable S e \<and> ev S e"
            using 1(4,6) comparable_operands(1) [of S ps n] by (auto simp: n list_all_iff)
          show ?thesis
          proof (cases "and_operands q")
            case None
            then obtain x where "x \<in> set ps" "implies lib x q"
              using imp p q Some by (auto simp: list_ex_iff)
            then show ?thesis
              using 1(1) [OF False p q Some None, of x] ps 1(5) by auto
          next
            case (Some qs)
            then obtain m where m: "q = AndExpr qs m" "allElementsIncluded lib qs ps"
              using imp p q \<open>and_operands p = Some ps\<close> operands_forms(2) [of q qs] by auto
            then show ?thesis
              using included_evaluate [OF m(2), of S] comparable_operands(1) [of S qs m] 1(5) ps by (auto simp: list_all_iff)
          qed
        qed
      qed
    qed
  qed
qed

end
