(* ===== verification/Spec2Isabelle.thy ===== *)
theory Spec2Isabelle
  imports Base_Uint Core_Selection Line_Range Prefix_Sum Linked_List Linked_Map Lines_Layout_Queries Base64 Utf8 Ipc_Remote Emitter Diff_Dynamic Diff_Documents Diff_Myers_Result Context_Key_Correct
begin

text \<open>
  \<^bold>\<open>A verification library for the core of the editor.\<close>

  The repository is a fork of Visual Studio Code.  Its workbench, its extension host and its built-in extensions are glue over
  a core of data structures and algorithms under \<open>src/vs/base\<close>, \<open>src/vs/editor/common\<close> and \<open>src/vs/platform\<close>.  The library models that core as
  functions and state-passing operations on records, and proves what the rest of the program relies on.  All paths below are relative
  to \<open>src/\<close>; an operation \<open>m\<close> of a class \<open>C\<close> is the definition \<open>C_m\<close>, a loop inside of it is \<open>..._loop\<close>,
  and a step, clause or closure has a name of its own where the code has none.

  \<^bold>\<open>Conventions.\<close>
  \<^item> Exceptions are the left values of a sum (\<open>js_error + 'a\<close>); \<open>undefined\<close> results are \<open>None\<close>.
  \<^item> Numbers that count lines, columns, offsets or pixels are integers; every \<open>| 0\<close>, \<open>>>> 0\<close>, \<open>Int32Array\<close>,
    \<open>Uint32Array\<close> and byte conversion of the source is written out with its wrap-around.  Where the
    source may compute with \<open>undefined\<close> or \<open>NaN\<close> numbers are those of \<open>Js_Number\<close>.
  \<^item> Objects that are shared or linked live on an explicit heap, with addresses that are handed out in order.
  \<^item> Asynchrony (timers, microtasks, promises, sockets, callbacks that call back) is a step relation or a list of
    operations in any order; nothing is assumed of the scheduler unless a theorem is about a fair one and says so.
  \<^item> What the program does not implement is a parameter: the contents of freshly allocated memory (\<open>fresh\<close>), the clock and the
    load estimate (\<open>now\<close>, \<open>highLoad\<close>), \<open>JSON\<close> and the platform (Node.js or not), the answers of a time-out (a function of
    the number of the call), the boundary scores and elements of a sequence, the number conversions and regular expressions of the language
    (\<open>jsLibrary\<close>).

  \<^bold>\<open>Ground.\<close>  \<open>Prelude\<close> holds errors, the 32-bit conversions and the generic lemmas; \<open>Js_Number\<close> the arithmetic with
  \<open>NaN\<close>; \<open>Base_Uint\<close> models \<open>vs/base/common/uint.ts\<close>.

  \<^bold>\<open>Positions and ranges\<close> (\<open>vs/editor/common/core/\<close>).
  \<open>Core_Position\<close>, \<open>Core_Range\<close>, \<open>Core_Selection\<close>, \<open>Offset_Range\<close> and \<open>Line_Range\<close>.  Both kinds of half-open
  ranges implement the interface \<open>half_open\<close> of \<open>Half_Open\<close> (interpretations \<open>ofr\<close> and \<open>lnr\<close>), which proves the algebra of
  intersection, union, clipping and containment once.  \<open>OffsetRangeSet\<close> refines a set of offsets.

  \<^bold>\<open>Containers\<close> (\<open>vs/base/common/\<close>).
  \<open>Dll\<close> is the theory of doubly linked chains, shared by \<open>Linked_List\<close> and \<open>Linked_Map\<close> (with \<open>LRUCache\<close> and
  \<open>CounterSet\<close>).  The first refines a double-ended queue, the second an ordered association list, through any run of operations;
  the closures and iterators that outlive an operation are part of the runs (for \<open>LinkedList\<close>, closures that are not called after their element has left the list
  otherwise).  \<open>Queue_Interfaces\<close> states the contracts \<open>fifo\<close> and
  \<open>deque\<close> with sublocales from the second to the first; \<open>LinkedList\<close> and the queue of the protocol interpret them.
  \<open>Emitter\<close> models the emitter of \<open>event.ts\<close> with its sparse listener array, compaction and delivery queue; operation by operation it
  refines a specification that keeps the calls still due, for all re-entrant runs but two kinds of removal during a delivery, for which instances show a call
  after the removal and missed events.

  \<^bold>\<open>View layout\<close>.  \<open>Prefix_Sum\<close> models both classes of \<open>prefixSumComputer.ts\<close> (interface \<open>sum_index\<close>: both answer
  the same).  \<open>Lines_Layout\<close> and \<open>Lines_Layout_Queries\<close> model \<open>linesLayout.ts\<close>: pending changes and their commit,
  then the queries by vertical offset; lines and whitespaces are both stacks of boxes (interface \<open>box_stack\<close>).  The queries are correct for layouts with a line,
  a positive line height, no negative heights and fewer than $2^{31}$ pixels and whitespaces (\<open>lay_good\<close>, \<open>viewport_good\<close>).

  \<^bold>\<open>Bytes.\<close>  \<open>Vs_Buffer\<close>, \<open>Base64\<close> and \<open>Utf8\<close> model \<open>vs/base/common/buffer.ts\<close>: copies and views, integer access, the
  substring search, base64, and strings with the two kinds of backing stores, whose conversions to strings differ.

  \<^bold>\<open>Sockets and remote calls\<close> (\<open>vs/base/parts/ipc/common/\<close>), from the bottom to the top:
  \<^item> \<open>Chunk_Stream\<close>: the received bytes (interface \<open>byte_source\<close>, the one the reader is verified against);
  \<^item> \<open>Ipc_Framing\<close>: messages, reader, writer, \<open>Protocol\<close>; framing is a round trip for every cut into chunks;
  \<^item> \<open>Ipc_Queue\<close>: the queue of unacknowledged messages and \<open>BufferedEmitter\<close>;
  \<^item> \<open>Persistent_Protocol\<close> (the operations), \<open>Ipc_Endpoint\<close> (the invariant of one side) and \<open>Ipc_Delivery\<close> (two sides over
    a sequence of sockets): exactly-once delivery in order, and recovery after every loss of the socket, for sizes and numbers of
    messages below $2^{32}$ and all operations but \<open>dispose\<close>, \<open>drain\<close> and \<open>readEntireBuffer\<close>;
  \<^item> \<open>Ipc_Serialization\<close>: the wire format, a round trip that terminates on every input;
  \<^item> \<open>Ipc_Channels\<close> (the operations), \<open>Ipc_Client\<close> and \<open>Ipc_Server\<close> (the invariants of the two sides) and \<open>Ipc_Rpc\<close> (client and
    server over a protocol that keeps the order): agreement of answers with calls, at most one call per request, disposal;
  \<^item> \<open>Ipc_Remote\<close>: the channels over the persistent protocol, through the interface \<open>message_protocol\<close>.

  \<^bold>\<open>Diffs\<close> (\<open>vs/editor/common/diff/\<close>).
  \<open>Diff_Sequence\<close> models sequences (interface \<open>isequence\<close>), differences and time-outs, and states what a correct list of
  differences is: sorted, separated, equal elements outside, so that applying it to the first sequence gives the second.
  \<open>Diff_Dynamic\<close> is the quadratic algorithm, \<open>Diff_Optimize\<close> the passes that join and shift differences,
  \<open>Diff_Documents\<close> the hashes of lines, the sequences of lines and of characters (which interpret \<open>isequence\<close>) and the translation of
  their offsets.
  \<open>Diff_Myers\<close> is the greedy algorithm of \<open>myersDiffAlgorithm.ts\<close>, with its typed arrays that grow on both sides and its bounds on the diagonals.
  \<open>Diff_Distance\<close> defines the edit distance; \<open>Diff_Myers_Search\<close>, \<open>Diff_Myers_Round\<close> and \<open>Diff_Myers_Border\<close> hold the invariant of the search: what a diagonal, a round
  and the diagonals beyond an end of a sequence contribute.  \<open>Diff_Myers_Result\<close> concludes that the result is a shortest correct list of differences, and shows an
  input outside of the stated condition for which it is not the shortest.

  \<^bold>\<open>Context keys\<close> (\<open>vs/platform/contextkey/common/contextkey.ts\<close>).
  \<open>Context_Key\<close> models the expressions of \<open>when\<close> clauses and their operations; conjunction, disjunction and negation call each other, and are the three fields of
  a record of operations for a bounded stack (\<open>key_ops\<close>).  \<open>Context_Key_Semantics\<close> says when an expression fits a situation (\<open>well_formed\<close>: the constants
  agree with the context, compared keys hold numbers, the flags of a regular expression are fixed by its source, remembered negations are right) and shows that then, for every
  stack, the results mean what they should or the stack was exhausted; \<open>Context_Key_Normal\<close> that four frames are enough for disjunctions of expressions in normal form and five for negations, whose results are
  again in normal form; for conjunctions of disjunctions, whose results need not be in normal form, no bound is shown.
  \<open>Context_Key_Implies\<close> has the clients: substitution of constants, verified against the interface \<open>key_operations\<close>, and implication.  \<open>Context_Key_Correct\<close>
  holds the theorems, and two results that are not what was asked for.

  \<^bold>\<open>Loops and budgets.\<close>  Loops are structural recursion or functions with a termination proof, except:
  \<open>horspool_loop\<close>, \<open>getIndexOf_loop\<close>, \<open>myers_loop\<close> and the other partial functions, which the theorems show to return; walks over a heap
  (\<open>walk\<close>, \<open>clear_loop\<close>, \<open>forEach_loop\<close>), whose budget is the number of addresses handed out so far, at least the length
  of every chain without a repetition; the walks and the acknowledgement loop of the queue, whose budget is the size of its heap plus one;
  and \<open>deserialize\<close>, whose depth is at most the number of remaining bytes plus one, since a nested value takes at least a byte; and
  the operations of context keys, whose stack is a parameter and whose exhaustion is the exception that the language throws.

  \<^bold>\<open>Not modelled.\<close>
  The user interface, the Electron shell, the extension API, the built-in extensions and the build scripts call into the DOM, the platform
  and each other and have no state that can be verified alone.  Of the files that are modelled: string and
  JSON renderings of objects, runtime type guards, tracing, logging and leak tracking; IPC routing over connections and proxies, whose parts are
  the clients and servers that are modelled; the event combinators, which are wrappers over the emitter, promises and timers; the
  removal of short matches between differences, which compares powers with exponent 1.5; moved blocks and the
  older diff algorithm; the scanner and parser of context key expressions and the service that holds their values.  The piece tree, the interval tree of decorations and the editor group
  model are self-contained data structures that the library does not reach.
\<close>

end
